(* ===== verification/AnssPrelude.thy ===== *)
theory AnssPrelude
  imports Main "HOL-Library.Word" "HOL-Library.Monad_Syntax"
begin

text \<open>
  Shared vocabulary of the AnssOS development: the machine integer types, byte strings,
  the integer helpers of Rust's core library that the sources call, and the generic
  lemmas on words, lists and options that the component theories use.

  Rust's unsigned integers are words of their width where the code relies on the width
  (bit masks, wrapping arithmetic, encodings). Indices, sizes and addresses that the code
  keeps far below the width are natural numbers; the component theories prove the bounds.
\<close>

unbundle bit_operations_syntax

type_synonym u8 = "8 word"
type_synonym u16 = "16 word"
type_synonym u32 = "32 word"
type_synonym u64 = "64 word"
type_synonym bytes = "8 word list"

text \<open>The proof-automation collections: bit-level facts, and pointer-store facts.\<close>

named_theorems bit_facts
named_theorems store_simps

text \<open>An ASCII literal as bytes, Rust's \<open>b"..."\<close>.\<close>

definition ascii :: "string \<Rightarrow> bytes" where
  "ascii s = map of_char s"

text \<open>\<open>u64::div_ceil\<close>.\<close>

definition div_ceil :: "nat \<Rightarrow> nat \<Rightarrow> nat" where
  "div_ceil a b = (if a mod b > 0 then a div b + 1 else a div b)"

lemma ascii_simps [simp]: "ascii [] = []" "ascii (c # cs) = of_char c # ascii cs"
  by (simp_all add: ascii_def)

section \<open>Single bits of a word\<close>

lemma mask_test_bit [bit_facts]:
  "(w AND push_bit k 1 \<noteq> 0) = bit w k" for w :: "'a::len word"
  by (simp add: and_exp_eq_0_iff_not_bit)

lemma bit_set_bit_iff [bit_facts]:
  "j < LENGTH('a) \<Longrightarrow> bit (w OR push_bit k 1) j = (j = k \<or> bit w j)" for w :: "'a::len word"
  by (auto simp: bit_or_iff bit_exp_iff)

lemma bit_clear_bit_iff [bit_facts]:
  "j < LENGTH('a) \<Longrightarrow> bit (w AND NOT (push_bit k 1)) j = (j \<noteq> k \<and> bit w j)" for w :: "'a::len word"
  by (auto simp: bit_and_iff bit_not_iff bit_exp_iff)

lemma bit_all_ones_u8 [bit_facts]: "bit (255 :: u8) k = (k < 8)"
proof -
  have "(255 :: u8) = mask 8" by (simp add: mask_eq_exp_minus_1)
  then show ?thesis by (simp only: bit_mask_iff) simp
qed

section \<open>Division\<close>

lemma div_ceil_le_iff: "0 < b \<Longrightarrow> div_ceil a b \<le> n \<longleftrightarrow> a \<le> n * b"
proof (cases "a mod b = 0")
  case True
  assume "0 < b"
  from True obtain q where "a = q * b" by (metis mod_0_imp_dvd dvd_def mult.commute)
  with \<open>0 < b\<close> True show ?thesis by (simp add: div_ceil_def)
next
  case False
  assume "0 < b"
  then have "a div b < n \<longleftrightarrow> a < n * b" by (rule div_less_iff_less_mult)
  moreover from False have "a \<noteq> n * b" by auto
  ultimately show ?thesis using False by (auto simp: div_ceil_def)
qed

lemma div_ceil_ge: "0 < b \<Longrightarrow> a \<le> div_ceil a b * b"
  using div_ceil_le_iff [of b a "div_ceil a b"] by simp

section \<open>Encodings\<close>

text \<open>Little-endian encodings: \<open>to_le_bytes\<close> of a \<open>k\<close>-byte integer and \<open>from_le_bytes\<close>.\<close>

fun to_le :: "nat \<Rightarrow> nat \<Rightarrow> bytes" where
  "to_le 0 n = []"
| "to_le (Suc k) n = word_of_nat n # to_le k (n div 256)"

fun of_le :: "bytes \<Rightarrow> nat" where
  "of_le [] = 0"
| "of_le (b # bs) = unat b + 256 * of_le bs"

lemma length_to_le [simp]: "length (to_le k n) = k"
  by (induction k arbitrary: n) auto

lemma of_le_to_le: "of_le (to_le k n) = n mod 256 ^ k"
proof (induction k arbitrary: n)
  case (Suc k)
  have "n mod (256 * 256 ^ k) = 256 * (n div 256 mod 256 ^ k) + n mod 256" by (rule mod_mult2_eq)
  with Suc show ?case by (simp add: unat_of_nat)
qed simp

lemma of_le_bound: "of_le bs < 256 ^ length bs"
proof (induction bs)
  case (Cons b bs)
  have "unat b < 2 ^ LENGTH(8)" by (rule unsigned_less)
  with Cons show ?case by simp
qed simp

text \<open>\<open>core::str::from_utf8\<close>: the well-formed UTF-8 byte sequences of the Unicode standard.\<close>

definition utf8_cont :: "u8 \<Rightarrow> bool" where
  "utf8_cont b \<longleftrightarrow> 0x80 \<le> b \<and> b \<le> 0xBF"

fun utf8_valid :: "bytes \<Rightarrow> bool" where
  "utf8_valid [] = True"
| "utf8_valid (b # bs) =
    (if b < 0x80 then utf8_valid bs
     else if 0xC2 \<le> b \<and> b \<le> 0xDF then
       (case bs of c # r \<Rightarrow> utf8_cont c \<and> utf8_valid r | _ \<Rightarrow> False)
     else if 0xE0 \<le> b \<and> b \<le> 0xEF then
       (case bs of c # d # r \<Rightarrow>
          (if b = 0xE0 then 0xA0 \<le> c \<and> c \<le> 0xBF else if b = 0xED then 0x80 \<le> c \<and> c \<le> 0x9F else utf8_cont c)
          \<and> utf8_cont d \<and> utf8_valid r
        | _ \<Rightarrow> False)
     else if 0xF0 \<le> b \<and> b \<le> 0xF4 then
       (case bs of c # d # e # r \<Rightarrow>
          (if b = 0xF0 then 0x90 \<le> c \<and> c \<le> 0xBF else if b = 0xF4 then 0x80 \<le> c \<and> c \<le> 0x8F else utf8_cont c)
          \<and> utf8_cont d \<and> utf8_cont e \<and> utf8_valid r
        | _ \<Rightarrow> False)
     else False)"

section \<open>Strings\<close>

text \<open>Rust's \<^verbatim>\<open>str\<close> operations that the kernel and the programs share, on the bytes of the string: a byte
  that begins a character, \<^verbatim>\<open>str::split\<close> at a byte, and \<^verbatim>\<open>str::rfind\<close>, the index of the last occurrence.\<close>

definition is_boundary :: "u8 \<Rightarrow> bool" where
  "is_boundary b \<longleftrightarrow> b < 0x80 \<or> b \<ge> 0xC0"

fun split_on :: "u8 \<Rightarrow> bytes \<Rightarrow> bytes list" where
  "split_on c [] = [[]]"
| "split_on c (x # xs) =
     (if x = c then [] # split_on c xs
      else case split_on c xs of [] \<Rightarrow> [[x]] | w # ws \<Rightarrow> (x # w) # ws)"

fun rfind :: "u8 \<Rightarrow> bytes \<Rightarrow> nat option" where
  "rfind c [] = None"
| "rfind c (x # xs) =
     (case rfind c xs of Some i \<Rightarrow> Some (Suc i) | None \<Rightarrow> if x = c then Some 0 else None)"

lemma rfind_None: "rfind c s = None \<longleftrightarrow> c \<notin> set s"
  by (induction s) (auto split: option.splits)

lemma rfind_Some: "rfind c s = Some i \<Longrightarrow> i < length s \<and> c \<notin> set (drop (Suc i) s)"
  by (induction s arbitrary: i) (auto simp: rfind_None split: option.splits if_splits)

text \<open>A little-endian field of a packed structure.\<close>

definition field :: "nat \<Rightarrow> nat \<Rightarrow> bytes \<Rightarrow> nat" where
  "field off len b = of_le (take len (drop off b))"

text \<open>
  Slices: \<^verbatim>\<open>&xs[i..j]\<close>, which panics when it is out of range, and \<^verbatim>\<open>chunks(n)\<close>, for \<open>n > 0\<close> the pieces of \<open>n\<close>
  elements with the rest last.
\<close>

definition slice :: "'a list \<Rightarrow> nat \<Rightarrow> nat \<Rightarrow> 'a list option" where
  "slice xs i j = (if i \<le> j \<and> j \<le> length xs then Some (drop i (take j xs)) else None)"

function chunks :: "nat \<Rightarrow> 'a list \<Rightarrow> 'a list list" where
  "chunks n xs = (if n = 0 \<or> xs = [] then [] else take n xs # chunks n (drop n xs))"
  by pat_completeness auto

termination
  by (relation "measure (\<lambda>(n, xs). length xs)") auto

declare chunks.simps [simp del]

lemma chunks_Nil [simp]: "chunks n [] = []"
  by (subst chunks.simps) simp

lemma chunks_step: "0 < n \<Longrightarrow> xs \<noteq> [] \<Longrightarrow> chunks n xs = take n xs # chunks n (drop n xs)"
  by (subst chunks.simps) simp

lemma concat_pieces: "0 < n \<Longrightarrow> concat (chunks n xs) = xs"
  by (induction n xs rule: chunks.induct) (subst chunks.simps, simp)

text \<open>An integer in decimal.\<close>

fun dec :: "nat \<Rightarrow> bytes" where
  "dec n = (if n < 10 then [] else dec (n div 10)) @ [word_of_nat (48 + n mod 10)]"

declare dec.simps [simp del]

definition dec_int :: "int \<Rightarrow> bytes" where
  "dec_int z = (if z < 0 then 45 # dec (nat (- z)) else dec (nat z))"

section \<open>Machines\<close>

text \<open>
  A component seen as a machine: a state, the operations a caller may issue in it, and a
  partial step function in which \<open>None\<close> is a crash or a loop that does not end. A trace
  runs a list of operations, leaving out those the caller may not issue in the state reached.
\<close>

fun run_trace :: "('s \<Rightarrow> 'op \<Rightarrow> bool) \<Rightarrow> ('op \<Rightarrow> 's \<Rightarrow> ('r \<times> 's) option) \<Rightarrow> 'op list \<Rightarrow> 's \<Rightarrow> 's option" where
  "run_trace valid exec [] s = Some s"
| "run_trace valid exec (op # ops) s =
     (if valid s op then (case exec op s of None \<Rightarrow> None | Some (_, s') \<Rightarrow> run_trace valid exec ops s')
      else run_trace valid exec ops s)"

locale machine =
  fixes inv :: "'s \<Rightarrow> bool"
    and valid :: "'s \<Rightarrow> 'op \<Rightarrow> bool"
    and exec :: "'op \<Rightarrow> 's \<Rightarrow> ('r \<times> 's) option"
  assumes exec_safe: "inv s \<Longrightarrow> valid s op \<Longrightarrow> \<exists>r s'. exec op s = Some (r, s') \<and> inv s'"
begin

lemma trace_safe: "inv s \<Longrightarrow> \<exists>s'. run_trace valid exec ops s = Some s' \<and> inv s'"
proof (induction ops arbitrary: s)
  case (Cons op ops)
  show ?case
  proof (cases "valid s op")
    case True
    from exec_safe [OF Cons.prems True] obtain r s' where "exec op s = Some (r, s')" "inv s'" by blast
    with Cons.IH [of s'] True show ?thesis by simp
  qed (use Cons in simp)
qed simp

end

end
