(* ===== verification/Pmm.thy ===== *)
theory Pmm
  imports AnssPrelude
begin

text \<open>
  The physical page allocator, \<^verbatim>\<open>kernel/src/mm/pmm.rs\<close>: a bitmap with one bit per
  4 KiB page (a set bit is a page in use), a free-page count and a search cursor. The
  record \<open>pmm\<close> is the static \<^verbatim>\<open>PMM\<close>; the bitmap, which the kernel reaches through a raw
  pointer, is the list of its bytes. Operations take the allocator state and return it
  updated, with the address (0 for "out of memory") where the code returns one.

  Shown here: the boot-time construction establishes the allocator invariant on every
  memory map that keeps Limine's guarantees; single-page allocation, freeing and
  contiguous allocation keep it, hand out exactly free pages, and fail only when there is
  nothing to hand out; and the allocator implements the abstract frame pool of the locale
  \<open>frame_pool\<close>, whose client lemma gives that successive allocations are distinct.
\<close>

section \<open>Definitions\<close>

definition PAGE_SIZE :: nat where
  "PAGE_SIZE = 4096"

record pmm =
  bitmap :: bytes
  total_pages :: nat
  free_pages :: nat
  cursor :: nat

definition pmm_test :: "pmm \<Rightarrow> nat \<Rightarrow> bool" where
  "pmm_test p page = ((bitmap p ! (page div 8)) AND push_bit (page mod 8) 1 \<noteq> 0)"

definition pmm_set :: "pmm \<Rightarrow> nat \<Rightarrow> pmm" where
  "pmm_set p page = p\<lparr>bitmap := (bitmap p)[page div 8 :=
     (bitmap p ! (page div 8)) OR push_bit (page mod 8) 1]\<rparr>"

definition pmm_clear :: "pmm \<Rightarrow> nat \<Rightarrow> pmm" where
  "pmm_clear p page = p\<lparr>bitmap := (bitmap p)[page div 8 :=
     (bitmap p ! (page div 8)) AND NOT (push_bit (page mod 8) 1)]\<rparr>"

function try_alloc_from :: "pmm \<Rightarrow> nat \<Rightarrow> nat \<Rightarrow> nat \<times> pmm" where
  "try_alloc_from p start end' =
     (if start < end'
      then if \<not> pmm_test p start
           then (start * PAGE_SIZE,
                 (pmm_set p start)\<lparr>free_pages := free_pages p - 1, cursor := start + 1\<rparr>)
           else try_alloc_from p (start + 1) end'
      else (0, p))"
  by pat_completeness auto
termination
  by (relation "measure (\<lambda>(p, start, end'). end' - start)") auto

definition alloc_page :: "pmm \<Rightarrow> nat \<times> pmm" where
  "alloc_page p =
     (let (addr, p1) = try_alloc_from p (cursor p) (total_pages p)
      in if addr \<noteq> 0 \<or> cursor p1 = 0 then (addr, p1)
         else try_alloc_from p1 0 (cursor p1))"

definition free_page :: "pmm \<Rightarrow> nat \<Rightarrow> pmm" where
  "free_page p phys =
     (let page = phys div PAGE_SIZE
      in if page \<ge> total_pages p \<or> \<not> pmm_test p page then p
         else (pmm_clear p page)\<lparr>free_pages := free_pages p + 1\<rparr>)"

function alloc_pages_loop :: "pmm \<Rightarrow> nat \<Rightarrow> nat \<Rightarrow> nat \<Rightarrow> nat \<times> pmm" where
  "alloc_pages_loop p count page run =
     (if page < total_pages p
      then if pmm_test p page then alloc_pages_loop p count (page + 1) 0
           else if run + 1 = count
                then let start = page + 1 - count
                     in (start * PAGE_SIZE,
                         (fold (\<lambda>pg q. pmm_set q pg) [start..<page + 1] p)
                           \<lparr>free_pages := free_pages p - count\<rparr>)
                else alloc_pages_loop p count (page + 1) (run + 1)
      else (0, p))"
  by pat_completeness auto
termination
  by (relation "measure (\<lambda>(p, count, page, run). total_pages p - page)") auto

definition alloc_pages :: "pmm \<Rightarrow> nat \<Rightarrow> nat \<times> pmm" where
  "alloc_pages p count =
     (if count = 0 \<or> count > total_pages p then (0, p) else alloc_pages_loop p count 0 0)"

definition free_page_count :: "pmm \<Rightarrow> nat" where
  "free_page_count p = free_pages p"

definition total_page_count :: "pmm \<Rightarrow> nat" where
  "total_page_count p = total_pages p"

text \<open>Limine's memory map, \<^verbatim>\<open>kernel/src/boot/requests.rs\<close>.\<close>

record memmap_entry =
  base :: nat
  length' :: nat
  kind :: nat

definition MEMMAP_USABLE :: nat where "MEMMAP_USABLE = 0"
definition MEMMAP_BOOTLOADER_RECLAIMABLE :: nat where "MEMMAP_BOOTLOADER_RECLAIMABLE = 5"

definition region_pages :: "memmap_entry \<Rightarrow> nat list" where
  "region_pages e = [base e div PAGE_SIZE ..< base e div PAGE_SIZE + length' e div PAGE_SIZE]"

definition mark_free :: "nat \<Rightarrow> pmm \<Rightarrow> pmm" where
  "mark_free page p = (pmm_clear p page)\<lparr>free_pages := free_pages p + 1\<rparr>"

definition claw_back :: "nat \<Rightarrow> pmm \<Rightarrow> pmm" where
  "claw_back page p =
     (if \<not> pmm_test p page then (pmm_set p page)\<lparr>free_pages := free_pages p - 1\<rparr> else p)"

text \<open>\<open>None\<close> is \<^verbatim>\<open>halt_forever\<close>. The sum \<open>base + length\<close> wraps as the release build's does.\<close>

definition pmm_init :: "memmap_entry list option \<Rightarrow> u64 option \<Rightarrow> pmm option" where
  "pmm_init memmap hhdm =
     (case (memmap, hhdm) of
        (Some mm, Some _) \<Rightarrow>
          (let highest = fold max (map (\<lambda>e. (base e + length' e) mod 2 ^ 64)
                 (filter (\<lambda>e. kind e = MEMMAP_USABLE \<or> kind e = MEMMAP_BOOTLOADER_RECLAIMABLE) mm)) 0;
               total = highest div PAGE_SIZE;
               bitmap_bytes = div_ceil total 8
           in case find (\<lambda>e. kind e = MEMMAP_USABLE \<and> length' e \<ge> bitmap_bytes) mm of
                None \<Rightarrow> None
              | Some e \<Rightarrow>
                  (let bitmap_phys = base e;
                       p0 = \<lparr>bitmap = replicate bitmap_bytes 0xFF, total_pages = total,
                             free_pages = 0, cursor = 0\<rparr>;
                       p1 = fold (\<lambda>e. fold mark_free (region_pages e))
                              (filter (\<lambda>e. kind e = MEMMAP_USABLE) mm) p0;
                       start = bitmap_phys div PAGE_SIZE;
                       p2 = fold claw_back [start ..< start + div_ceil bitmap_bytes PAGE_SIZE] p1;
                       p3 = claw_back 0 p2
                   in Some (p3\<lparr>cursor := 0\<rparr>)))
      | _ \<Rightarrow> None)"

section \<open>Abstraction and invariant\<close>

text \<open>The free pages the bitmap records, and what every operation keeps.\<close>

definition free_set :: "pmm \<Rightarrow> nat set" where
  "free_set p = {page. page < total_pages p \<and> \<not> pmm_test p page}"

definition pmm_wf :: "pmm \<Rightarrow> bool" where
  "pmm_wf p \<longleftrightarrow> total_pages p \<le> 8 * length (bitmap p) \<and> free_pages p = card (free_set p)
     \<and> cursor p \<le> total_pages p"

definition pmm_inv :: "pmm \<Rightarrow> bool" where
  "pmm_inv p \<longleftrightarrow> pmm_wf p \<and> 0 \<notin> free_set p"

definition run_free :: "pmm \<Rightarrow> nat \<Rightarrow> nat \<Rightarrow> bool" where
  "run_free p s n \<longleftrightarrow> {s..<s + n} \<subseteq> free_set p"

declare try_alloc_from.simps [simp del] alloc_pages_loop.simps [simp del]

section \<open>The bitmap\<close>

lemma pmm_test_bit: "pmm_test p page = bit (bitmap p ! (page div 8)) (page mod 8)"
  by (simp only: pmm_test_def mask_test_bit)

lemma div_mod_8_eq: "i div 8 = j div 8 \<Longrightarrow> i mod 8 = j mod 8 \<longleftrightarrow> i = (j::nat)"
  by (metis div_mult_mod_eq)

lemma pmm_test_upd:
  assumes "i < 8 * length (bitmap p)"
  shows "pmm_test (p\<lparr>bitmap := (bitmap p)[i div 8 := w]\<rparr>) j =
    (if i div 8 = j div 8 then bit w (j mod 8) else pmm_test p j)"
  using assms by (simp add: pmm_test_bit less_mult_imp_div_less mult.commute)

lemma pmm_test_set:
  assumes "i < 8 * length (bitmap p)"
  shows "pmm_test (pmm_set p i) j = (j = i \<or> pmm_test p j)"
proof -
  have "bit (w OR push_bit (i mod 8) 1) (j mod 8) = (j mod 8 = i mod 8 \<or> bit w (j mod 8))" for w :: u8
    by (rule bit_set_bit_iff) simp
  note bits = this
  show ?thesis
  proof (cases "i div 8 = j div 8")
    case True
    then have "j mod 8 = i mod 8 \<longleftrightarrow> j = i" using div_mod_8_eq [of j i] by simp
    with True show ?thesis
      unfolding pmm_set_def pmm_test_upd [OF assms] bits pmm_test_bit [of p] by simp
  next
    case False
    then have "j \<noteq> i" by auto
    with False show ?thesis
      by (simp only: pmm_set_def pmm_test_upd [OF assms] if_False) simp
  qed
qed

lemma pmm_test_clear:
  assumes "i < 8 * length (bitmap p)"
  shows "pmm_test (pmm_clear p i) j = (j \<noteq> i \<and> pmm_test p j)"
proof -
  have "bit (w AND NOT (push_bit (i mod 8) 1)) (j mod 8) = (j mod 8 \<noteq> i mod 8 \<and> bit w (j mod 8))" for w :: u8
    by (rule bit_clear_bit_iff) simp
  note bits = this
  show ?thesis
  proof (cases "i div 8 = j div 8")
    case True
    then have "j mod 8 = i mod 8 \<longleftrightarrow> j = i" using div_mod_8_eq [of j i] by simp
    with True show ?thesis
      unfolding pmm_clear_def pmm_test_upd [OF assms] bits pmm_test_bit [of p] by simp
  next
    case False
    then have "j \<noteq> i" by auto
    with False show ?thesis
      by (simp only: pmm_clear_def pmm_test_upd [OF assms] if_False) simp
  qed
qed

lemma pmm_test_cong [simp]:
  "pmm_test (p\<lparr>free_pages := n\<rparr>) = pmm_test p" "pmm_test (p\<lparr>cursor := n\<rparr>) = pmm_test p"
  by (simp_all add: pmm_test_def fun_eq_iff)

lemma pmm_set_fields [simp]:
  "total_pages (pmm_set p i) = total_pages p" "free_pages (pmm_set p i) = free_pages p"
  "cursor (pmm_set p i) = cursor p" "length (bitmap (pmm_set p i)) = length (bitmap p)"
  by (simp_all add: pmm_set_def)

lemma pmm_clear_fields [simp]:
  "total_pages (pmm_clear p i) = total_pages p" "free_pages (pmm_clear p i) = free_pages p"
  "cursor (pmm_clear p i) = cursor p" "length (bitmap (pmm_clear p i)) = length (bitmap p)"
  by (simp_all add: pmm_clear_def)

lemma free_set_cong [simp]:
  "free_set (p\<lparr>free_pages := n\<rparr>) = free_set p" "free_set (p\<lparr>cursor := n\<rparr>) = free_set p"
  by (simp_all add: free_set_def)

lemma finite_free_set [simp]: "finite (free_set p)"
  by (simp add: free_set_def)

lemma free_set_set:
  "i < 8 * length (bitmap p) \<Longrightarrow> free_set (pmm_set p i) = free_set p - {i}"
  by (auto simp: free_set_def pmm_test_set)

lemma free_set_clear:
  "i < total_pages p \<Longrightarrow> i < 8 * length (bitmap p) \<Longrightarrow>
     free_set (pmm_clear p i) = insert i (free_set p)"
  by (auto simp: free_set_def pmm_test_clear)

section \<open>Single pages\<close>

definition take_page :: "pmm \<Rightarrow> nat \<Rightarrow> pmm" where
  "take_page p page = (pmm_set p page)\<lparr>free_pages := free_pages p - 1, cursor := page + 1\<rparr>"

lemma take_page_wf:
  assumes "pmm_wf p" "page \<in> free_set p"
  shows "pmm_wf (take_page p page)" "free_set (take_page p page) = free_set p - {page}"
    "total_pages (take_page p page) = total_pages p"
proof -
  from assms have lt: "page < total_pages p" "page < 8 * length (bitmap p)"
    by (auto simp: pmm_wf_def free_set_def)
  then show fs: "free_set (take_page p page) = free_set p - {page}"
    by (simp add: take_page_def free_set_set)
  show "total_pages (take_page p page) = total_pages p" by (simp add: take_page_def)
  have "free_pages (take_page p page) = card (free_set p) - 1"
    using assms by (simp add: take_page_def pmm_wf_def)
  also have "\<dots> = card (free_set (take_page p page))"
    using assms by (simp add: fs)
  finally show "pmm_wf (take_page p page)"
    using assms lt by (simp add: pmm_wf_def) (simp add: take_page_def)
qed

lemma try_alloc_from_cases:
  assumes "pmm_wf p" "end' \<le> total_pages p"
  shows "(\<exists>page. start \<le> page \<and> page < end' \<and> page \<in> free_set p
            \<and> (\<forall>k. start \<le> k \<and> k < page \<longrightarrow> k \<notin> free_set p)
            \<and> try_alloc_from p start end' = (page * PAGE_SIZE, take_page p page))
       \<or> (\<forall>k. start \<le> k \<and> k < end' \<longrightarrow> k \<notin> free_set p) \<and> try_alloc_from p start end' = (0, p)"
  using assms
proof (induction p start end' rule: try_alloc_from.induct)
  case (1 p start end')
  note unfold = try_alloc_from.simps [of p start end']
  show ?case
  proof (cases "start < end' \<and> pmm_test p start")
    case True
    with 1 have IH: "(\<exists>page\<ge>start + 1. page < end' \<and> page \<in> free_set p
            \<and> (\<forall>k. start + 1 \<le> k \<and> k < page \<longrightarrow> k \<notin> free_set p)
            \<and> try_alloc_from p (start + 1) end' = (page * PAGE_SIZE, take_page p page))
       \<or> (\<forall>k. start + 1 \<le> k \<and> k < end' \<longrightarrow> k \<notin> free_set p) \<and> try_alloc_from p (start + 1) end' = (0, p)"
      by blast
    from True have "start \<notin> free_set p" by (simp add: free_set_def)
    then have step: "(\<forall>k. start \<le> k \<and> k < m \<longrightarrow> k \<notin> free_set p)
        \<longleftrightarrow> (\<forall>k. start + 1 \<le> k \<and> k < m \<longrightarrow> k \<notin> free_set p)" for m
      by (metis Suc_eq_plus1 Suc_leI le_antisym le_less_linear nat_less_le less_Suc_eq_le le_SucI)
    from IH True show ?thesis
      unfolding step unfold by (auto intro: Suc_leD)
  next
    case False
    with 1 show ?thesis
      by (auto simp: unfold free_set_def take_page_def)
  qed
qed

lemma alloc_page_cases:
  assumes "pmm_inv p"
  shows "(\<exists>page \<in> free_set p. alloc_page p = (page * PAGE_SIZE, take_page p page))
       \<or> free_set p = {} \<and> alloc_page p = (0, p)"
proof -
  from assms have wf: "pmm_wf p" and cur: "cursor p \<le> total_pages p"
    and pos: "\<And>page. page \<in> free_set p \<Longrightarrow> page * PAGE_SIZE \<noteq> 0"
    by (auto simp: pmm_inv_def pmm_wf_def PAGE_SIZE_def intro!: gr0I)
  consider (hit) page where "page \<in> free_set p"
      "try_alloc_from p (cursor p) (total_pages p) = (page * PAGE_SIZE, take_page p page)"
    | (miss) "\<forall>k. cursor p \<le> k \<and> k < total_pages p \<longrightarrow> k \<notin> free_set p"
      "try_alloc_from p (cursor p) (total_pages p) = (0, p)"
    using try_alloc_from_cases [OF wf order_refl, of "cursor p"] by blast
  then show ?thesis
  proof cases
    case hit
    with pos [of page] show ?thesis by (auto simp: alloc_page_def)
  next
    case miss
    from try_alloc_from_cases [OF wf cur, of 0] miss show ?thesis
    proof (elim disjE exE conjE)
      fix page
      assume "page \<in> free_set p" "page < cursor p"
        "try_alloc_from p 0 (cursor p) = (page * PAGE_SIZE, take_page p page)"
      with miss show ?thesis by (auto simp: alloc_page_def)
    next
      assume none: "\<forall>k. 0 \<le> k \<and> k < cursor p \<longrightarrow> k \<notin> free_set p"
        and eq: "try_alloc_from p 0 (cursor p) = (0, p)"
      have "free_set p = {}"
      proof (rule equals0I)
        fix k assume "k \<in> free_set p"
        moreover from this have "k < total_pages p" by (simp add: free_set_def)
        ultimately show False using miss(1) none by (cases "k < cursor p") auto
      qed
      with miss eq show ?thesis by (auto simp: alloc_page_def)
    qed
  qed
qed

lemma alloc_page_inv:
  assumes "pmm_inv p"
  shows "pmm_inv (snd (alloc_page p))"
  using alloc_page_cases [OF assms] assms
  by (auto simp: pmm_inv_def take_page_wf)

lemma free_page_cases:
  assumes "pmm_wf p"
  shows "free_set (free_page p phys) =
      (if phys div PAGE_SIZE < total_pages p then insert (phys div PAGE_SIZE) (free_set p)
       else free_set p)" (is ?S)
    and "pmm_wf (free_page p phys)" (is ?W)
proof -
  let ?g = "phys div PAGE_SIZE"
  show S: ?S
    using assms by (auto simp: free_page_def Let_def free_set_clear pmm_wf_def) (auto simp: free_set_def)
  show ?W
  proof (cases "?g < total_pages p \<and> pmm_test p ?g")
    case True
    then have "?g \<notin> free_set p" by (simp add: free_set_def)
    with True assms S show ?thesis
      by (simp add: pmm_wf_def) (simp add: free_page_def Let_def)
  next
    case False
    with assms show ?thesis by (auto simp: free_page_def Let_def)
  qed
qed

section \<open>Contiguous runs\<close>

lemma fold_pmm_set:
  assumes "set xs \<subseteq> {..<8 * length (bitmap p)}"
  shows "free_set (fold (\<lambda>pg q. pmm_set q pg) xs p) = free_set p - set xs
    \<and> total_pages (fold (\<lambda>pg q. pmm_set q pg) xs p) = total_pages p
    \<and> cursor (fold (\<lambda>pg q. pmm_set q pg) xs p) = cursor p
    \<and> length (bitmap (fold (\<lambda>pg q. pmm_set q pg) xs p)) = length (bitmap p)"
  using assms by (induction xs arbitrary: p) (auto simp: free_set_set)

definition take_run :: "pmm \<Rightarrow> nat \<Rightarrow> nat \<Rightarrow> pmm" where
  "take_run p s n =
     (fold (\<lambda>pg q. pmm_set q pg) [s..<s + n] p)\<lparr>free_pages := free_pages p - n\<rparr>"

lemma take_run_wf:
  assumes "pmm_wf p" "run_free p s n"
  shows "free_set (take_run p s n) = free_set p - {s..<s + n}" "pmm_wf (take_run p s n)"
    "total_pages (take_run p s n) = total_pages p"
proof -
  from assms have sub: "{s..<s + n} \<subseteq> free_set p" by (simp add: run_free_def)
  with assms(1) have "set [s..<s + n] \<subseteq> {..<8 * length (bitmap p)}"
    by (auto simp: pmm_wf_def free_set_def)
  note f = fold_pmm_set [OF this]
  from f show fs: "free_set (take_run p s n) = free_set p - {s..<s + n}"
    and "total_pages (take_run p s n) = total_pages p"
    by (simp_all add: take_run_def)
  have "free_pages p - n = card (free_set p - {s..<s + n})"
    using assms(1) sub by (simp add: pmm_wf_def card_Diff_subset)
  with fs f assms(1) show "pmm_wf (take_run p s n)"
    by (simp add: pmm_wf_def) (simp add: take_run_def)
qed

text \<open>
  The scan's loop invariant: \<open>run\<close> counts the free pages just below \<open>page\<close>, fewer than
  \<open>count\<close> of them, and no run of \<open>count\<close> free pages ends before \<open>page\<close>.
\<close>

definition scan_inv :: "pmm \<Rightarrow> nat \<Rightarrow> nat \<Rightarrow> nat \<Rightarrow> bool" where
  "scan_inv p count page run \<longleftrightarrow> run \<le> page \<and> run < count
     \<and> (\<forall>k. page - run \<le> k \<and> k < page \<longrightarrow> k \<in> free_set p)
     \<and> (\<forall>s. s + count \<le> page \<longrightarrow> \<not> run_free p s count)
     \<and> (run < page \<longrightarrow> page - run - 1 \<notin> free_set p)"

lemma scan_inv_used:
  assumes "scan_inv p count page run" "page \<notin> free_set p"
  shows "scan_inv p count (page + 1) 0"
proof -
  have "\<not> run_free p s count" if "s + count \<le> page + 1" for s
  proof (cases "s + count \<le> page")
    case True
    with assms show ?thesis by (simp add: scan_inv_def)
  next
    case False
    with that assms have "page \<in> {s..<s + count}" by (auto simp: scan_inv_def)
    with assms(2) show ?thesis by (auto simp: run_free_def)
  qed
  with assms show ?thesis by (auto simp: scan_inv_def)
qed

lemma scan_inv_free:
  assumes "scan_inv p count page run" "page \<in> free_set p" "run + 1 \<noteq> count"
  shows "scan_inv p count (page + 1) (run + 1)"
proof -
  have "\<not> run_free p s count" if "s + count \<le> page + 1" for s
  proof (cases "s + count \<le> page")
    case True
    with assms show ?thesis by (simp add: scan_inv_def)
  next
    case False
    with that have "s + count = page + 1" by simp
    with assms have "page - run - 1 \<in> {s..<s + count}" "run < page"
      by (auto simp: scan_inv_def)
    with assms(1) show ?thesis by (auto simp: scan_inv_def run_free_def)
  qed
  moreover have "k \<in> free_set p" if "page - run \<le> k" "k < page + 1" for k
    using that assms by (cases "k = page") (auto simp: scan_inv_def)
  ultimately show ?thesis using assms by (auto simp: scan_inv_def)
qed

lemma scan_inv_hit:
  assumes "scan_inv p count page run" "page \<in> free_set p" "run + 1 = count"
  shows "run_free p (page + 1 - count) count"
    and "\<And>s. s < page + 1 - count \<Longrightarrow> \<not> run_free p s count"
    and "page + 1 - count + count = page + 1"
proof -
  from assms have le: "count \<le> page + 1" by (simp add: scan_inv_def)
  have "k \<in> free_set p" if "page - run \<le> k" "k < page + 1" for k
    using that assms by (cases "k = page") (auto simp: scan_inv_def)
  with assms le show "run_free p (page + 1 - count) count"
    by (auto simp: run_free_def)
  show "page + 1 - count + count = page + 1" using le by simp
  fix s assume "s < page + 1 - count"
  then have "s + count \<le> page" using le by simp
  with assms show "\<not> run_free p s count" by (simp add: scan_inv_def)
qed

lemma alloc_pages_loop_cases:
  assumes "scan_inv p count page run" "page \<le> total_pages p"
  shows "(\<exists>s. run_free p s count \<and> (\<forall>t. t < s \<longrightarrow> \<not> run_free p t count)
            \<and> alloc_pages_loop p count page run = (s * PAGE_SIZE, take_run p s count))
       \<or> (\<forall>s. \<not> run_free p s count) \<and> alloc_pages_loop p count page run = (0, p)"
  using assms
proof (induction p count page run rule: alloc_pages_loop.induct)
  case (1 p count page run)
  note unfold = alloc_pages_loop.simps [of p count page run]
  consider (over) "\<not> page < total_pages p" | (used) "page < total_pages p" "pmm_test p page"
    | (hit) "page < total_pages p" "page \<in> free_set p" "run + 1 = count"
    | (next') "page < total_pages p" "page \<in> free_set p" "run + 1 \<noteq> count"
    by (auto simp: free_set_def)
  then show ?case
  proof cases
    case over
    have "\<not> run_free p s count" for s
    proof
      assume run: "run_free p s count"
      with 1 have "s + count - 1 \<in> free_set p" by (auto simp: run_free_def scan_inv_def)
      then have "s + count \<le> page" using 1 over by (auto simp: free_set_def)
      with 1 run show False by (simp add: scan_inv_def)
    qed
    with over show ?thesis by (simp add: unfold)
  next
    case used
    then have "page \<notin> free_set p" by (simp add: free_set_def)
    with 1 have "scan_inv p count (page + 1) 0" by (blast intro: scan_inv_used)
    with 1 used show ?thesis by (simp add: unfold)
  next
    case hit
    with 1 have "\<not> pmm_test p page" by (simp add: free_set_def)
    with hit scan_inv_hit [OF 1(3) hit(2,3)] show ?thesis
      by (intro disjI1 exI [of _ "page + 1 - count"]) (simp add: unfold take_run_def Let_def)
  next
    case next'
    then have "\<not> pmm_test p page" by (simp add: free_set_def)
    moreover have "scan_inv p count (page + 1) (run + 1)"
      using 1 next' by (blast intro: scan_inv_free)
    ultimately show ?thesis using 1 next' by (simp add: unfold)
  qed
qed

lemma alloc_pages_cases:
  assumes "pmm_wf p" "0 < count"
  shows "(\<exists>s. run_free p s count \<and> (\<forall>t. t < s \<longrightarrow> \<not> run_free p t count)
            \<and> alloc_pages p count = (s * PAGE_SIZE, take_run p s count))
       \<or> (\<forall>s. \<not> run_free p s count) \<and> alloc_pages p count = (0, p)"
proof (cases "count > total_pages p")
  case True
  have "\<not> run_free p s count" for s
  proof
    assume "run_free p s count"
    with assms have "s + count - 1 \<in> free_set p" by (auto simp: run_free_def)
    with True show False by (auto simp: free_set_def)
  qed
  with True show ?thesis by (simp add: alloc_pages_def)
next
  case False
  have "scan_inv p count 0 0" using assms by (auto simp: scan_inv_def)
  from alloc_pages_loop_cases [OF this] False assms show ?thesis
    by (simp add: alloc_pages_def)
qed

section \<open>Boot-time construction\<close>

text \<open>
  What the Limine protocol guarantees of its memory map: usable and bootloader-reclaimable
  entries start and end on page boundaries and do not wrap the address space, and usable
  entries do not overlap.
\<close>

definition limine_memmap :: "memmap_entry list \<Rightarrow> bool" where
  "limine_memmap mm \<longleftrightarrow>
     (\<forall>e \<in> set mm. kind e = MEMMAP_USABLE \<or> kind e = MEMMAP_BOOTLOADER_RECLAIMABLE \<longrightarrow>
        PAGE_SIZE dvd base e \<and> PAGE_SIZE dvd length' e \<and> base e + length' e < 2 ^ 64)
     \<and> distinct (concat (map region_pages (filter (\<lambda>e. kind e = MEMMAP_USABLE) mm)))"

definition usable_pages :: "memmap_entry list \<Rightarrow> nat set" where
  "usable_pages mm = (\<Union>e \<in> {e \<in> set mm. kind e = MEMMAP_USABLE}. set (region_pages e))"

lemma fold_mark_free:
  assumes "set xs \<subseteq> {..<total_pages p}" "total_pages p \<le> 8 * length (bitmap p)"
  shows "free_set (fold mark_free xs p) = free_set p \<union> set xs
    \<and> total_pages (fold mark_free xs p) = total_pages p
    \<and> length (bitmap (fold mark_free xs p)) = length (bitmap p)
    \<and> free_pages (fold mark_free xs p) = free_pages p + length xs"
  using assms by (induction xs arbitrary: p) (auto simp: mark_free_def free_set_clear)

lemma fold_concat_map: "fold (\<lambda>e. fold f (g e)) es p = fold f (concat (map g es)) p"
  by (induction es arbitrary: p) simp_all

lemma claw_back_wf:
  assumes "total_pages p \<le> 8 * length (bitmap p)" "free_pages p = card (free_set p)"
    "page < total_pages p"
  shows "free_set (claw_back page p) = free_set p - {page}
    \<and> free_pages (claw_back page p) = card (free_set p - {page})
    \<and> total_pages (claw_back page p) = total_pages p
    \<and> length (bitmap (claw_back page p)) = length (bitmap p)"
proof (cases "pmm_test p page")
  case True
  then have "page \<notin> free_set p" by (simp add: free_set_def)
  with True assms show ?thesis by (simp add: claw_back_def)
next
  case False
  with assms have "page \<in> free_set p" by (simp add: free_set_def)
  with False assms show ?thesis by (simp add: claw_back_def free_set_set)
qed

lemma fold_claw_back:
  assumes "total_pages p \<le> 8 * length (bitmap p)" "free_pages p = card (free_set p)"
    "set xs \<subseteq> {..<total_pages p}"
  shows "free_set (fold claw_back xs p) = free_set p - set xs
    \<and> free_pages (fold claw_back xs p) = card (free_set p - set xs)
    \<and> total_pages (fold claw_back xs p) = total_pages p
    \<and> length (bitmap (fold claw_back xs p)) = length (bitmap p)"
  using assms
proof (induction xs arbitrary: p)
  case (Cons x xs)
  from Cons.prems have "free_set (claw_back x p) = free_set p - {x}
    \<and> free_pages (claw_back x p) = card (free_set p - {x})
    \<and> total_pages (claw_back x p) = total_pages p
    \<and> length (bitmap (claw_back x p)) = length (bitmap p)"
    by (intro claw_back_wf) auto
  with Cons.IH [of "claw_back x p"] Cons.prems show ?case
    by (auto simp: Diff_insert2 [symmetric] insert_commute)
qed simp

lemma le_fold_max: "x \<in> set xs \<Longrightarrow> x \<le> fold max xs n" for x :: nat
proof -
  have mono: "n \<le> fold max xs n" for n :: nat and xs
  proof (induction xs arbitrary: n)
    case (Cons x xs)
    from Cons [of "max x n"] show ?case by simp
  qed simp
  show "x \<in> set xs \<Longrightarrow> x \<le> fold max xs n"
  proof (induction xs arbitrary: n)
    case (Cons y ys)
    then show ?case using mono [of "max y n" ys] by auto
  qed simp
qed

lemma free_set_all_used:
  "free_set \<lparr>bitmap = replicate (div_ceil t 8) 255, total_pages = t, free_pages = n, cursor = c\<rparr> = {}"
proof -
  have "pmm_test \<lparr>bitmap = replicate (div_ceil t 8) 255, total_pages = t, free_pages = n, cursor = c\<rparr> page"
    if "page < t" for page
  proof -
    have "page < 8 * div_ceil t 8" using that div_ceil_ge [of 8 t] by simp
    then have "page div 8 < div_ceil t 8" by (simp add: less_mult_imp_div_less mult.commute)
    moreover have "bit (255 :: u8) (page mod 8)" by (simp only: bit_all_ones_u8)
    ultimately show ?thesis by (simp add: pmm_test_bit)
  qed
  then show ?thesis by (auto simp: free_set_def)
qed

lemma pmm_init_spec:
  assumes mm: "limine_memmap mm"
    and tot_eq: "tot = fold max (map (\<lambda>e. (base e + length' e) mod 2 ^ 64)
                 (filter (\<lambda>e. kind e = MEMMAP_USABLE \<or> kind e = MEMMAP_BOOTLOADER_RECLAIMABLE) mm)) 0
                 div PAGE_SIZE"
    and room: "find (\<lambda>e. kind e = MEMMAP_USABLE \<and> div_ceil tot 8 \<le> length' e) mm = Some home"
    and pos: "0 < tot"
  defines "own \<equiv> {base home div PAGE_SIZE ..<
      base home div PAGE_SIZE + div_ceil (div_ceil tot 8) PAGE_SIZE}"
  shows "\<exists>p. pmm_init (Some mm) (Some hhdm) = Some p \<and> pmm_inv p \<and> total_pages p = tot
    \<and> own \<subseteq> usable_pages mm \<and> free_set p = usable_pages mm - own - {0}"
proof -
  let ?us = "filter (\<lambda>e. kind e = MEMMAP_USABLE) mm"
  let ?pages = "concat (map region_pages ?us)"
  let ?own = "[base home div PAGE_SIZE ..<
      base home div PAGE_SIZE + div_ceil (div_ceil tot 8) PAGE_SIZE]"
  have up: "usable_pages mm = set ?pages" by (auto simp: usable_pages_def)
  have in_range: "set (region_pages e) \<subseteq> {..<tot}" if "e \<in> set mm" "kind e = MEMMAP_USABLE" for e
  proof -
    from that mm have al: "base e + length' e < 2 ^ 64" "PAGE_SIZE dvd base e" "PAGE_SIZE dvd length' e"
      by (auto simp: limine_memmap_def)
    have "base e + length' e \<in> set (map (\<lambda>e. (base e + length' e) mod 2 ^ 64)
        (filter (\<lambda>e. kind e = MEMMAP_USABLE \<or> kind e = MEMMAP_BOOTLOADER_RECLAIMABLE) mm))"
      using that al by (force simp: image_iff)
    from div_le_mono [OF le_fold_max [OF this], of PAGE_SIZE 0]
    have "(base e + length' e) div PAGE_SIZE \<le> tot" by (simp add: tot_eq)
    with al show ?thesis by (auto simp: region_pages_def div_plus_div_distrib_dvd_left)
  qed
  from room have home: "home \<in> set mm" "kind home = MEMMAP_USABLE" "div_ceil tot 8 \<le> length' home"
    by (auto simp: find_Some_iff)
  have "div_ceil (div_ceil tot 8) PAGE_SIZE \<le> length' home div PAGE_SIZE"
  proof -
    have "length' home = length' home div PAGE_SIZE * PAGE_SIZE"
      using mm home by (auto simp: limine_memmap_def)
    with home(3) show ?thesis by (simp add: div_ceil_le_iff PAGE_SIZE_def)
  qed
  with home have own_sub: "set ?own \<subseteq> set (region_pages home)" by (auto simp: region_pages_def)
  with home have own_up: "set ?own \<subseteq> usable_pages mm" by (auto simp: usable_pages_def)
  from own_sub in_range home have own_lt: "set ?own \<subseteq> {..<tot}" by blast
  let ?p0 = "\<lparr>bitmap = replicate (div_ceil tot 8) 255, total_pages = tot, free_pages = 0, cursor = 0\<rparr>"
  let ?p1 = "fold mark_free ?pages ?p0"
  have big: "tot \<le> 8 * div_ceil tot 8" using div_ceil_ge [of 8 tot] by simp
  have "length ?pages = card (usable_pages mm)"
    using mm distinct_card [of ?pages] by (simp only: up limine_memmap_def)
  moreover have "set ?pages \<subseteq> {..<tot}" using in_range by fastforce
  ultimately  have p1: "free_set ?p1 = usable_pages mm" "total_pages ?p1 = tot"
    "length (bitmap ?p1) = div_ceil tot 8" "free_pages ?p1 = card (usable_pages mm)"
    using fold_mark_free [of ?pages ?p0] big
    by (simp_all only: free_set_all_used up pmm.simps length_replicate Un_empty_left add_0)
  let ?p2 = "fold claw_back ?own ?p1"
  from fold_claw_back [of ?p1 ?own] p1 big own_lt
  have p2: "free_set ?p2 = usable_pages mm - own" "total_pages ?p2 = tot"
    "length (bitmap ?p2) = div_ceil tot 8" "free_pages ?p2 = card (usable_pages mm - own)"
    by (simp_all add: own_def)
  from claw_back_wf [of ?p2 0] p2 big pos
  have p3: "free_set (claw_back 0 ?p2) = usable_pages mm - own - {0}"
    "total_pages (claw_back 0 ?p2) = tot" "length (bitmap (claw_back 0 ?p2)) = div_ceil tot 8"
    "free_pages (claw_back 0 ?p2) = card (usable_pages mm - own - {0})"
    by simp_all
  have "pmm_init (Some mm) (Some hhdm) = Some ((claw_back 0 ?p2)\<lparr>cursor := 0\<rparr>)"
    by (simp only: pmm_init_def Let_def prod.case option.case tot_eq [symmetric] room fold_concat_map)
  moreover have "pmm_inv ((claw_back 0 ?p2)\<lparr>cursor := 0\<rparr>)"
    using p3 big by (simp add: pmm_inv_def pmm_wf_def)
  ultimately show ?thesis using p3 own_up by (auto simp: own_def)
qed

section \<open>The interface: a pool of frames\<close>

text \<open>
  What the page-table walker, the heap and the loader rely on: an allocation takes some
  free frame out of the pool and returns its address, or returns 0 with the pool
  unchanged when it is empty; frame 0 is never in the pool; releasing a frame puts it back.
\<close>

fun alloc_n :: "('s \<Rightarrow> nat \<times> 's) \<Rightarrow> nat \<Rightarrow> 's \<Rightarrow> nat list \<times> 's" where
  "alloc_n alloc 0 s = ([], s)"
| "alloc_n alloc (Suc n) s =
     (let (a, s1) = alloc s; (as, s2) = alloc_n alloc n s1 in (a # as, s2))"

locale frame_pool =
  fixes alloc :: "'s \<Rightarrow> nat \<times> 's"
    and release :: "'s \<Rightarrow> nat \<Rightarrow> 's"
    and frames :: "'s \<Rightarrow> nat set"
    and tracked :: "'s \<Rightarrow> nat"
    and inv :: "'s \<Rightarrow> bool"
  assumes finite_frames: "inv s \<Longrightarrow> finite (frames s)"
    and zero_reserved: "inv s \<Longrightarrow> 0 \<notin> frames s"
    and alloc_some: "inv s \<Longrightarrow> frames s \<noteq> {} \<Longrightarrow>
          \<exists>f \<in> frames s. fst (alloc s) = f * PAGE_SIZE \<and> frames (snd (alloc s)) = frames s - {f}"
    and alloc_none: "inv s \<Longrightarrow> frames s = {} \<Longrightarrow> alloc s = (0, s)"
    and inv_alloc: "inv s \<Longrightarrow> inv (snd (alloc s))"
    and release_frames: "inv s \<Longrightarrow> 0 < f \<Longrightarrow> f < tracked s \<Longrightarrow>
          frames (release s (f * PAGE_SIZE)) = insert f (frames s)"
    and inv_release: "inv s \<Longrightarrow> 0 < f \<Longrightarrow> f < tracked s \<Longrightarrow> inv (release s (f * PAGE_SIZE))"
begin

lemma alloc_null_iff: "inv s \<Longrightarrow> fst (alloc s) = 0 \<longleftrightarrow> frames s = {}"
proof (cases "frames s = {}")
  case False
  assume "inv s"
  with False alloc_some obtain f where "f \<in> frames s" "fst (alloc s) = f * PAGE_SIZE" by blast
  moreover with zero_reserved [OF \<open>inv s\<close>] have "f \<noteq> 0" by metis
  ultimately show ?thesis using False by (simp add: PAGE_SIZE_def)
qed (simp add: alloc_none)

lemma alloc_n_frames:
  assumes "inv s" "n \<le> card (frames s)" "alloc_n alloc n s = (as, s')"
  shows "\<exists>fs. as = map (\<lambda>f. f * PAGE_SIZE) fs \<and> distinct fs \<and> length fs = n
    \<and> set fs \<subseteq> frames s \<and> frames s' = frames s - set fs \<and> inv s'"
  using assms
proof (induction n arbitrary: s as)
  case (Suc n)
  then have "frames s \<noteq> {}" by auto
  then obtain f where f: "f \<in> frames s" "fst (alloc s) = f * PAGE_SIZE"
    "frames (snd (alloc s)) = frames s - {f}"
    using Suc.prems(1) alloc_some by blast
  obtain bs where bs: "alloc_n alloc n (snd (alloc s)) = (bs, s')" "as = f * PAGE_SIZE # bs"
    using Suc.prems(3) f(2) by (auto split: prod.splits)
  have "n \<le> card (frames (snd (alloc s)))"
    using Suc.prems f finite_frames by simp
  from Suc.IH [OF inv_alloc [OF Suc.prems(1)] this bs(1)] obtain fs where
    "bs = map (\<lambda>f. f * PAGE_SIZE) fs" "distinct fs" "length fs = n"
    "set fs \<subseteq> frames s - {f}" "frames s' = frames s - {f} - set fs" "inv s'"
    using f(3) by auto
  then show ?case
    using bs(2) f(1) by (intro exI [of _ "f # fs"]) auto
qed simp

lemma alloc_n_distinct:
  assumes "inv s" "n \<le> card (frames s)" "alloc_n alloc n s = (as, s')"
  shows "distinct as \<and> 0 \<notin> set as \<and> length as = n \<and> card (frames s') = card (frames s) - n"
proof -
  from alloc_n_frames [OF assms] obtain fs where fs: "as = map (\<lambda>f. f * PAGE_SIZE) fs"
    "distinct fs" "length fs = n" "set fs \<subseteq> frames s" "frames s' = frames s - set fs"
    by blast
  moreover from fs assms(1) zero_reserved have "0 \<notin> set fs" by blast
  ultimately show ?thesis
    by (auto simp: distinct_map inj_on_def PAGE_SIZE_def card_Diff_subset distinct_card)
qed

end

lemma alloc_page_split:
  assumes "pmm_inv p"
  shows "free_set p \<noteq> {} \<Longrightarrow> \<exists>f \<in> free_set p. fst (alloc_page p) = f * PAGE_SIZE
      \<and> free_set (snd (alloc_page p)) = free_set p - {f}"
    and "free_set p = {} \<Longrightarrow> alloc_page p = (0, p)"
  using alloc_page_cases [OF assms] assms take_page_wf(2) [of p]
  by (auto simp: pmm_inv_def intro: bexI [rotated])

lemma free_page_release:
  assumes "pmm_inv p" "0 < f" "f < total_pages p"
  shows "free_set (free_page p (f * PAGE_SIZE)) = insert f (free_set p)"
    and "pmm_inv (free_page p (f * PAGE_SIZE))"
proof -
  have "f * PAGE_SIZE div PAGE_SIZE = f" by (simp add: PAGE_SIZE_def)
  with assms free_page_cases [of p "f * PAGE_SIZE"]
  show "free_set (free_page p (f * PAGE_SIZE)) = insert f (free_set p)"
    and "pmm_inv (free_page p (f * PAGE_SIZE))"
    by (auto simp: pmm_inv_def)
qed

lemma pmm_inv_zero: "pmm_inv p \<Longrightarrow> 0 \<notin> free_set p"
  by (simp add: pmm_inv_def)

interpretation pool: frame_pool alloc_page free_page free_set total_pages pmm_inv
  by unfold_locales
    (simp_all add: alloc_page_split alloc_page_inv free_page_release pmm_inv_zero)

section \<open>Properties\<close>

text \<open>A small boot memory map the witnesses use: eight pages, one of them reclaimable.\<close>

definition demo_memmap :: "memmap_entry list" where
  "demo_memmap = [\<lparr>base = 0, length' = 16384, kind = 0\<rparr>, \<lparr>base = 20480, length' = 8192, kind = 0\<rparr>,
     \<lparr>base = 28672, length' = 4096, kind = 5\<rparr>]"

text \<open>C1: booting on a memory map that keeps Limine's guarantees and has room for the
  bitmap, \<^verbatim>\<open>pmm::init\<close> does not halt and establishes the allocator invariant: the free pages
  are exactly the usable pages less the bitmap's own pages and page 0, and the count of
  free pages is their number.\<close>

theorem pmm_init_establishes:
  assumes "limine_memmap mm"
    and "tot = fold max (map (\<lambda>e. (base e + length' e) mod 2 ^ 64)
                 (filter (\<lambda>e. kind e = MEMMAP_USABLE \<or> kind e = MEMMAP_BOOTLOADER_RECLAIMABLE) mm)) 0
                 div PAGE_SIZE"
    and "find (\<lambda>e. kind e = MEMMAP_USABLE \<and> div_ceil tot 8 \<le> length' e) mm = Some home"
    and "0 < tot"
  shows "\<exists>p. pmm_init (Some mm) (Some hhdm) = Some p \<and> pmm_inv p \<and> total_pages p = tot
    \<and> free_set p = usable_pages mm
        - {base home div PAGE_SIZE ..< base home div PAGE_SIZE + div_ceil (div_ceil tot 8) PAGE_SIZE}
        - {0}"
  using pmm_init_spec [OF assms, of hhdm] by blast

theorem pmm_init_establishes_witness:
  "\<exists>p. pmm_init (Some demo_memmap) (Some 0) = Some p \<and> pmm_inv p \<and> total_pages p = 8
    \<and> free_set p = usable_pages demo_memmap - {0..<1} - {0}"
proof -
  have "limine_memmap demo_memmap"
    by (simp add: limine_memmap_def demo_memmap_def region_pages_def PAGE_SIZE_def
        MEMMAP_USABLE_def MEMMAP_BOOTLOADER_RECLAIMABLE_def upt_rec)
  moreover have "8 = fold max (map (\<lambda>e. (base e + length' e) mod 2 ^ 64)
      (filter (\<lambda>e. kind e = MEMMAP_USABLE \<or> kind e = MEMMAP_BOOTLOADER_RECLAIMABLE) demo_memmap)) 0
      div PAGE_SIZE"
    by (simp add: demo_memmap_def PAGE_SIZE_def MEMMAP_USABLE_def MEMMAP_BOOTLOADER_RECLAIMABLE_def)
  moreover have "find (\<lambda>e. kind e = MEMMAP_USABLE \<and> div_ceil 8 8 \<le> length' e) demo_memmap
      = Some \<lparr>base = 0, length' = 16384, kind = 0\<rparr>"
    by (simp add: demo_memmap_def MEMMAP_USABLE_def div_ceil_def)
  ultimately show ?thesis
    using pmm_init_establishes [of demo_memmap 8 "\<lparr>base = 0, length' = 16384, kind = 0\<rparr>" 0]
    by (simp add: div_ceil_def PAGE_SIZE_def)
qed

text \<open>C2: with the invariant, \<^verbatim>\<open>alloc_page\<close> either hands out one page that was free, marking
  that page and no other as used and keeping the invariant, or returns 0 with the state
  unchanged, and the latter only when no page at all is free (the wrap-around search
  misses nothing).\<close>

theorem alloc_page_correct:
  assumes "pmm_inv p" "alloc_page p = (addr, p')"
  shows "(addr = 0 \<and> p' = p \<and> free_set p = {})
    \<or> (\<exists>page \<in> free_set p. 0 < page \<and> addr = page * PAGE_SIZE \<and> pmm_inv p'
        \<and> free_set p' = free_set p - {page} \<and> free_page_count p' + 1 = free_page_count p)"
proof -
  have "card (free_set p - {page}) + 1 = card (free_set p)" if "page \<in> free_set p" for page
    using that by (metis card_Suc_Diff1 finite_free_set Suc_eq_plus1)
  moreover have "0 < page" if "page \<in> free_set p" for page
    using that pmm_inv_zero [OF assms(1)] by (metis gr0I)
  ultimately show ?thesis
    using alloc_page_cases [OF assms(1)] assms take_page_wf [of p]
    by (auto simp: pmm_inv_def pmm_wf_def free_page_count_def)
qed

definition demo_pmm :: pmm where
  "demo_pmm = \<lparr>bitmap = [0b11110011], total_pages = 6, free_pages = 2, cursor = 4\<rparr>"

lemma demo_pmm_inv: "pmm_inv demo_pmm" "free_set demo_pmm = {2, 3}"
proof -
  have t: "pmm_test demo_pmm page = (page \<notin> {2, 3})" if "page < 6" for page
  proof -
    from that consider "page = 0" | "page = 1" | "page = 2" | "page = 3" | "page = 4" | "page = 5"
      by linarith
    then show ?thesis by cases (simp_all add: pmm_test_def demo_pmm_def)
  qed
  have tp: "total_pages demo_pmm = 6" by (simp add: demo_pmm_def)
  from t show fs: "free_set demo_pmm = {2, 3}" unfolding free_set_def tp by auto
  then show "pmm_inv demo_pmm" by (simp add: pmm_inv_def pmm_wf_def) (simp add: demo_pmm_def)
qed

theorem alloc_page_correct_witness:
  "(fst (alloc_page demo_pmm) = 0 \<and> snd (alloc_page demo_pmm) = demo_pmm \<and> free_set demo_pmm = {})
    \<or> (\<exists>page \<in> free_set demo_pmm. 0 < page \<and> fst (alloc_page demo_pmm) = page * PAGE_SIZE
        \<and> pmm_inv (snd (alloc_page demo_pmm))
        \<and> free_set (snd (alloc_page demo_pmm)) = free_set demo_pmm - {page}
        \<and> free_page_count (snd (alloc_page demo_pmm)) + 1 = free_page_count demo_pmm)"
  by (rule alloc_page_correct [OF demo_pmm_inv(1)]) simp

text \<open>C3: \<^verbatim>\<open>alloc_pages\<close> is first fit and complete: for a positive count it returns the lowest
  run of that many contiguous free pages, taking exactly that run out of the free pages
  and keeping the invariant, and it returns 0 with the state unchanged only when there is
  no such run.\<close>

theorem alloc_pages_first_fit:
  assumes "pmm_inv p" "0 < count" "alloc_pages p count = (addr, p')"
  shows "(addr = 0 \<and> p' = p \<and> (\<forall>s. \<not> run_free p s count))
    \<or> (\<exists>s. 0 < s \<and> addr = s * PAGE_SIZE \<and> run_free p s count
        \<and> (\<forall>t. t < s \<longrightarrow> \<not> run_free p t count) \<and> pmm_inv p'
        \<and> free_set p' = free_set p - {s..<s + count}
        \<and> free_page_count p' + count = free_page_count p)"
proof -
  from assms(1) have wf: "pmm_wf p" by (simp add: pmm_inv_def)
  have pos: "0 < s" if "run_free p s count" for s
    using that assms(2) pmm_inv_zero [OF assms(1)] by (cases s) (auto simp: run_free_def)
  have le: "count \<le> card (free_set p)" if "run_free p s count" for s
    using that card_mono [of "free_set p" "{s..<s + count}"] by (simp add: run_free_def)
  show ?thesis
    using alloc_pages_cases [OF wf assms(2)] assms(3)
  proof (elim disjE exE conjE)
    fix s
    assume s: "run_free p s count" "\<forall>t. t < s \<longrightarrow> \<not> run_free p t count"
      "alloc_pages p count = (s * PAGE_SIZE, take_run p s count)"
    from take_run_wf [OF wf s(1)] assms(1)
    have "pmm_inv (take_run p s count)" by (simp add: pmm_inv_def)
    moreover have "free_pages (take_run p s count) + count = free_pages p"
      using le [OF s(1)] wf by (simp add: take_run_def pmm_wf_def)
    ultimately show ?thesis
      using s assms(3) pos [OF s(1)] take_run_wf(1) [OF wf s(1)]
      by (auto simp: free_page_count_def)
  qed auto
qed

theorem alloc_pages_first_fit_witness:
  "\<exists>addr p'. alloc_pages demo_pmm 2 = (addr, p') \<and>
    ((addr = 0 \<and> p' = demo_pmm \<and> (\<forall>s. \<not> run_free demo_pmm s 2))
    \<or> (\<exists>s. 0 < s \<and> addr = s * PAGE_SIZE \<and> run_free demo_pmm s 2
        \<and> (\<forall>t. t < s \<longrightarrow> \<not> run_free demo_pmm t 2) \<and> pmm_inv p'
        \<and> free_set p' = free_set demo_pmm - {s..<s + 2}
        \<and> free_page_count p' + 2 = free_page_count demo_pmm))"
  using alloc_pages_first_fit [OF demo_pmm_inv(1), of 2]
  by (metis prod.collapse zero_less_numeral)

text \<open>Allocations never alias: as many single-page allocations as there are free pages all
  succeed, with pairwise distinct non-null addresses.\<close>

lemma alloc_page_distinct:
  assumes "pmm_inv p" "n \<le> free_page_count p" "alloc_n alloc_page n p = (as, p')"
  shows "distinct as \<and> 0 \<notin> set as \<and> length as = n \<and> free_page_count p' = free_page_count p - n"
proof -
  from assms(1,2) have "n \<le> card (free_set p)" by (simp add: pmm_inv_def pmm_wf_def free_page_count_def)
  from pool.alloc_n_distinct [OF assms(1) this assms(3)] pool.alloc_n_frames [OF assms(1) this assms(3)]
  show ?thesis using assms(1) by (auto simp: pmm_inv_def pmm_wf_def free_page_count_def)
qed

end
