(* ===== verification/Pipe.thy ===== *)
theory Pipe
  imports AnssPrelude
begin

text \<open>
  In-kernel pipes, \<^verbatim>\<open>kernel/src/exec/pipe.rs\<close>: a ring of 4096 bytes with a read index, a
  count and one reference count per end. \<open>pipe_write\<close> and \<open>pipe_read\<close> are the two methods
  (the buffer to fill is given by its length, and the bytes copied out are returned);
  the functions that free a pipe through its pointer work on a store of pipes, in which a
  freed pipe is \<open>None\<close>.

  Shown here: the ring implements a bounded byte queue (locale \<open>byte_channel\<close>), so bytes
  come out in the order they went in, none lost or invented, over any sequence of reads
  and writes; and a pipe is freed exactly when both ends are unreferenced.
\<close>

section \<open>Definitions\<close>

definition BUF_SIZE :: nat where
  "BUF_SIZE = 4096"

record pipe =
  buf :: bytes
  head :: nat
  count :: nat
  read_refs :: int
  write_refs :: int

definition pipe_create :: pipe where
  "pipe_create = \<lparr>buf = replicate BUF_SIZE 0, head = 0, count = 0, read_refs = 1, write_refs = 1\<rparr>"

text \<open>The copy-in loop: byte \<open>i\<close> of the data goes to index \<open>(tail + i) mod BUF_SIZE\<close>.\<close>

fun ring_put :: "bytes \<Rightarrow> nat \<Rightarrow> bytes \<Rightarrow> bytes" where
  "ring_put b tail [] = b"
| "ring_put b tail (x # xs) = ring_put (b[tail mod BUF_SIZE := x]) (tail + 1) xs"

definition pipe_write :: "pipe \<Rightarrow> bytes \<Rightarrow> nat option \<times> pipe" where
  "pipe_write p data =
     (if read_refs p = 0 then (None, p)
      else let n = min (length data) (BUF_SIZE - count p);
               tail = (head p + count p) mod BUF_SIZE
           in (Some n, p\<lparr>buf := ring_put (buf p) tail (take n data), count := count p + n\<rparr>))"

definition pipe_read :: "pipe \<Rightarrow> nat \<Rightarrow> bytes option \<times> pipe" where
  "pipe_read p len =
     (if count p = 0 then (if write_refs p > 0 then Some [] else None, p)
      else let n = min len (count p)
           in (Some (map (\<lambda>i. buf p ! ((head p + i) mod BUF_SIZE)) [0..<n]),
               p\<lparr>head := (head p + n) mod BUF_SIZE, count := count p - n\<rparr>))"

text \<open>Pipes behind pointers: a store, where \<open>None\<close> is a pipe that was freed.\<close>

type_synonym pipe_store = "nat \<Rightarrow> pipe option"

definition free_if_unused :: "pipe_store \<Rightarrow> nat \<Rightarrow> pipe_store option" where
  "free_if_unused st p = (do {
     q \<leftarrow> st p;
     Some (if read_refs q = 0 \<and> write_refs q = 0 then st(p := None) else st) })"

definition close_read :: "pipe_store \<Rightarrow> nat \<Rightarrow> pipe_store option" where
  "close_read st p = (do {
     q \<leftarrow> st p;
     free_if_unused (st(p \<mapsto> q\<lparr>read_refs := read_refs q - 1\<rparr>)) p })"

definition close_write :: "pipe_store \<Rightarrow> nat \<Rightarrow> pipe_store option" where
  "close_write st p = (do {
     q \<leftarrow> st p;
     free_if_unused (st(p \<mapsto> q\<lparr>write_refs := write_refs q - 1\<rparr>)) p })"

section \<open>The ring as a queue\<close>

definition pipe_inv :: "pipe \<Rightarrow> bool" where
  "pipe_inv p \<longleftrightarrow> length (buf p) = BUF_SIZE \<and> head p < BUF_SIZE \<and> count p \<le> BUF_SIZE"

definition contents :: "pipe \<Rightarrow> bytes" where
  "contents p = map (\<lambda>i. buf p ! ((head p + i) mod BUF_SIZE)) [0..<count p]"

lemma BUF_SIZE_pos [simp]: "0 < BUF_SIZE" "BUF_SIZE \<noteq> 0"
  by (simp_all add: BUF_SIZE_def)

lemma length_contents [simp]: "length (contents p) = count p"
  by (simp add: contents_def)

lemma length_ring_put [simp]: "length (ring_put b t xs) = length b"
  by (induction xs arbitrary: b t) simp_all

text \<open>Two different offsets below the ring size are two different slots.\<close>

lemma ring_slot_le:
  assumes "i \<le> j" "j < BUF_SIZE" "(h + j) mod BUF_SIZE = (h + i) mod BUF_SIZE"
  shows "i = j"
proof -
  from assms have "BUF_SIZE dvd (h + j) - (h + i)"
    by (metis add_le_mono1 mod_eq_dvd_iff_nat nat_add_left_cancel_le)
  then show ?thesis using assms by (auto dest: dvd_imp_le)
qed

lemma ring_slot_eq:
  assumes "i < BUF_SIZE" "j < BUF_SIZE" "(h + i) mod BUF_SIZE = (h + j) mod BUF_SIZE"
  shows "i = j"
  using assms ring_slot_le [of i j h] ring_slot_le [of j i h] by (cases "i \<le> j") auto

lemma ring_put_nth:
  assumes "length b = BUF_SIZE" "c + length xs \<le> BUF_SIZE" "i < c + length xs"
  shows "ring_put b (h + c) xs ! ((h + i) mod BUF_SIZE) =
    (if i < c then b ! ((h + i) mod BUF_SIZE) else xs ! (i - c))"
  using assms
proof (induction xs arbitrary: b c)
  case (Cons x xs)
  let ?b = "b[(h + c) mod BUF_SIZE := x]"
  have slot: "?b ! ((h + i) mod BUF_SIZE) = (if i = c then x else b ! ((h + i) mod BUF_SIZE))"
    using Cons.prems ring_slot_eq [of i c h] by (auto simp: nth_list_update)
  have "ring_put ?b (h + Suc c) xs ! ((h + i) mod BUF_SIZE) =
    (if i < Suc c then ?b ! ((h + i) mod BUF_SIZE) else xs ! (i - Suc c))"
    using Cons.prems by (intro Cons.IH) auto
  then show ?case
    using slot by (auto simp: nth_Cons' less_Suc_eq)
qed simp

lemma ring_put_mod: "ring_put b (t mod BUF_SIZE) xs = ring_put b t xs"
proof (induction xs arbitrary: b t)
  case (Cons x xs)
  have "ring_put (b[t mod BUF_SIZE := x]) (t mod BUF_SIZE + 1) xs
      = ring_put (b[t mod BUF_SIZE := x]) ((t mod BUF_SIZE + 1) mod BUF_SIZE) xs"
    by (simp only: Cons.IH)
  also have "\<dots> = ring_put (b[t mod BUF_SIZE := x]) (t + 1) xs"
    by (simp only: mod_add_left_eq Cons.IH)
  finally show ?case by simp
qed simp

lemma pipe_write_contents:
  fixes data :: bytes
  assumes "pipe_inv p" "read_refs p \<noteq> 0"
  defines "n \<equiv> min (length data) (BUF_SIZE - count p)"
  shows "fst (pipe_write p data) = Some n"
    and "contents (snd (pipe_write p data)) = contents p @ take n data"
    and "pipe_inv (snd (pipe_write p data))"
proof -
  let ?q = "snd (pipe_write p data)"
  have q: "pipe_write p data = (Some n, p\<lparr>buf := ring_put (buf p) (head p + count p) (take n data),
      count := count p + n\<rparr>)"
    using assms(2) by (simp add: pipe_write_def Let_def n_def ring_put_mod)
  then show "fst (pipe_write p data) = Some n" by simp
  have le: "count p + length (take n data) \<le> BUF_SIZE" "length (take n data) = n"
    using assms(1) by (auto simp: n_def pipe_inv_def)
  show "pipe_inv ?q" using assms(1) le by (simp add: q pipe_inv_def)
  show "contents ?q = contents p @ take n data"
  proof (rule nth_equalityI)
    show "length (contents ?q) = length (contents p @ take n data)"
      using le(2) by (simp add: q)
    fix i assume "i < length (contents ?q)"
    then have i: "i < count p + length (take n data)" unfolding le(2) by (simp add: q)
    from ring_put_nth [OF _ le(1) i, of "buf p" "head p"] i assms(1)
    show "contents ?q ! i = (contents p @ take n data) ! i"
      by (auto simp: contents_def q le pipe_inv_def nth_append)
  qed
qed

lemma pipe_write_closed: "read_refs p = 0 \<Longrightarrow> pipe_write p data = (None, p)"
  by (simp add: pipe_write_def)

lemma pipe_read_contents:
  assumes "pipe_inv p" "count p \<noteq> 0"
  shows "fst (pipe_read p len) = Some (take len (contents p))"
    and "contents (snd (pipe_read p len)) = drop len (contents p)"
    and "pipe_inv (snd (pipe_read p len))"
proof -
  let ?n = "min len (count p)"
  have r: "pipe_read p len = (Some (map (\<lambda>i. buf p ! ((head p + i) mod BUF_SIZE)) [0..<?n]),
      p\<lparr>head := (head p + ?n) mod BUF_SIZE, count := count p - ?n\<rparr>)"
    using assms(2) by (simp add: pipe_read_def Let_def)
  show "fst (pipe_read p len) = Some (take len (contents p))"
    by (cases "len \<le> count p") (simp_all add: r contents_def take_map min_def)
  show "pipe_inv (snd (pipe_read p len))" using assms(1) by (auto simp: r pipe_inv_def)
  show "contents (snd (pipe_read p len)) = drop len (contents p)"
    by (rule nth_equalityI) (auto simp: r contents_def mod_add_left_eq add.assoc min_def)
qed

lemma pipe_read_empty:
  "count p = 0 \<Longrightarrow> pipe_read p len = (if write_refs p > 0 then Some [] else None, p)"
  by (simp add: pipe_read_def)

lemma pipe_refs_unchanged [simp]:
  "read_refs (snd (pipe_write p d)) = read_refs p" "write_refs (snd (pipe_write p d)) = write_refs p"
  "read_refs (snd (pipe_read p n)) = read_refs p" "write_refs (snd (pipe_read p n)) = write_refs p"
  by (simp_all add: pipe_write_def pipe_read_def Let_def)

lemma pipe_create_inv: "pipe_inv pipe_create" "contents pipe_create = []"
  by (simp_all add: pipe_inv_def pipe_create_def contents_def)

section \<open>The interface: a bounded byte channel\<close>

datatype chan_op = Put bytes | Get nat

text \<open>A run of operations: the bytes accepted, the bytes delivered, and the channel after.\<close>

fun run_chan :: "('c \<Rightarrow> bytes \<Rightarrow> nat option \<times> 'c) \<Rightarrow> ('c \<Rightarrow> nat \<Rightarrow> bytes option \<times> 'c) \<Rightarrow>
    'c \<Rightarrow> chan_op list \<Rightarrow> bytes \<times> bytes \<times> 'c" where
  "run_chan put get c [] = ([], [], c)"
| "run_chan put get c (Put d # ops) =
     (let (r, c1) = put c d; (acc, del, c2) = run_chan put get c1 ops
      in (take (case r of None \<Rightarrow> 0 | Some n \<Rightarrow> n) d @ acc, del, c2))"
| "run_chan put get c (Get n # ops) =
     (let (r, c1) = get c n; (acc, del, c2) = run_chan put get c1 ops
      in (acc, (case r of None \<Rightarrow> [] | Some b \<Rightarrow> b) @ del, c2))"

locale byte_channel =
  fixes put :: "'c \<Rightarrow> bytes \<Rightarrow> nat option \<times> 'c"
    and get :: "'c \<Rightarrow> nat \<Rightarrow> bytes option \<times> 'c"
    and queue :: "'c \<Rightarrow> bytes"
    and capacity :: nat
    and inv :: "'c \<Rightarrow> bool"
  assumes put_spec: "inv c \<Longrightarrow> put c d = (r, c') \<Longrightarrow>
      inv c' \<and> queue c' = queue c @ take (case r of None \<Rightarrow> 0 | Some n \<Rightarrow> n) d"
    and get_spec: "inv c \<Longrightarrow> get c n = (got, c') \<Longrightarrow>
      inv c' \<and> queue c = (case got of None \<Rightarrow> [] | Some b \<Rightarrow> b) @ queue c'"
    and bounded: "inv c \<Longrightarrow> length (queue c) \<le> capacity"
begin

lemma run_chan_fifo:
  assumes "inv c" "run_chan put get c ops = (acc, del, c')"
  shows "queue c @ acc = del @ queue c' \<and> inv c'"
  using assms
proof (induction ops arbitrary: c acc del)
  case (Cons op ops)
  show ?case
  proof (cases op)
    case (Put d)
    obtain r c1 acc' where "put c d = (r, c1)" "run_chan put get c1 ops = (acc', del, c')"
      "acc = take (case r of None \<Rightarrow> 0 | Some n \<Rightarrow> n) d @ acc'"
      using Cons.prems(2) Put by (auto split: prod.splits)
    with Cons.IH [of c1 acc' del] put_spec [OF Cons.prems(1)] show ?thesis by force
  next
    case (Get n)
    obtain r c1 del' where "get c n = (r, c1)" "run_chan put get c1 ops = (acc, del', c')"
      "del = (case r of None \<Rightarrow> [] | Some b \<Rightarrow> b) @ del'"
      using Cons.prems(2) Get by (auto split: prod.splits)
    with Cons.IH [of c1 acc del'] get_spec [OF Cons.prems(1)] show ?thesis by force
  qed
qed simp

lemma run_chan_conserves:
  assumes "inv c" "queue c = []" "run_chan put get c ops = (acc, del, c')"
  shows "acc = del @ queue c'" "length acc \<le> length del + capacity"
  using run_chan_fifo [OF assms(1,3)] assms(2) bounded [of c'] by auto

end

lemma pipe_put_spec:
  assumes "pipe_inv p" "pipe_write p d = (r, p')"
  shows "pipe_inv p' \<and> contents p' = contents p @ take (case r of None \<Rightarrow> 0 | Some n \<Rightarrow> n) d"
  using pipe_write_contents [OF assms(1), of d] pipe_write_closed [of p d] assms
  by (cases "read_refs p = 0") auto

lemma pipe_get_spec:
  assumes "pipe_inv p" "pipe_read p n = (r, p')"
  shows "pipe_inv p' \<and> contents p = (case r of None \<Rightarrow> [] | Some b \<Rightarrow> b) @ contents p'"
proof (cases "count p = 0")
  case True
  with assms pipe_read_empty [of p n] show ?thesis by (auto split: if_splits)
next
  case False
  with pipe_read_contents [OF assms(1), of n] assms(2) show ?thesis by simp
qed

lemma pipe_inv_bounded: "pipe_inv p \<Longrightarrow> count p \<le> BUF_SIZE"
  by (simp add: pipe_inv_def)

interpretation ring: byte_channel pipe_write pipe_read contents BUF_SIZE pipe_inv
  by unfold_locales (erule (1) pipe_put_spec, erule (1) pipe_get_spec, simp add: pipe_inv_bounded)

section \<open>Properties\<close>

text \<open>C5: the pipe is a FIFO: from a fresh pipe, over any interleaving of writes and reads,
  the bytes the writes accepted are the bytes the reads delivered followed by what is
  still buffered -- nothing lost, duplicated or reordered -- and at most 4096 bytes are in
  flight.\<close>

theorem pipe_fifo:
  assumes "run_chan pipe_write pipe_read pipe_create ops = (accepted, delivered, p')"
  shows "accepted = delivered @ contents p' \<and> length accepted \<le> length delivered + BUF_SIZE"
  using ring.run_chan_conserves [OF pipe_create_inv assms] by simp

theorem pipe_fifo_witness:
  "let (accepted, delivered, p') = run_chan pipe_write pipe_read pipe_create
      [Put [1, 2, 3], Get 2, Put [4], Get 9]
   in accepted = delivered @ contents p' \<and> length accepted \<le> length delivered + BUF_SIZE"
  using pipe_fifo [of "[Put [1, 2, 3], Get 2, Put [4], Get 9]"]
  by (cases "run_chan pipe_write pipe_read pipe_create [Put [1, 2, 3], Get 2, Put [4], Get 9]") simp

text \<open>C6: a write is short exactly when the ring is full, and fails (\<open>None\<close>) exactly when no
  read end is left; a read returns the oldest bytes, the empty result while a writer
  remains, and end-of-file only when the ring is drained and no write end is left.\<close>

theorem pipe_results:
  assumes "pipe_inv p"
  shows "fst (pipe_write p data) = (if read_refs p = 0 then None
           else Some (min (length data) (BUF_SIZE - length (contents p))))
    \<and> fst (pipe_read p len) = (if contents p = [] \<and> \<not> write_refs p > 0 then None
           else Some (take len (contents p)))"
proof -
  have empty: "contents p = [] \<longleftrightarrow> count p = 0" by (metis length_0_conv length_contents)
  then show ?thesis
    using pipe_write_contents(1) [OF assms, of data] pipe_read_contents(1) [OF assms, of len]
    by (cases "count p = 0") (simp_all add: pipe_write_closed pipe_read_empty)
qed

theorem pipe_results_witness:
  "fst (pipe_write pipe_create [7, 8]) = (if read_refs pipe_create = 0 then None
      else Some (min (length [7, 8 :: u8]) (BUF_SIZE - length (contents pipe_create))))
  \<and> fst (pipe_read pipe_create 5) = (if contents pipe_create = [] \<and> \<not> write_refs pipe_create > 0
      then None else Some (take 5 (contents pipe_create)))"
  by (rule pipe_results [OF pipe_create_inv(1)])

text \<open>Dropping a reference frees the pipe exactly when it was the last reference to either
  end; otherwise only that end's count changes, and no other pipe is touched.\<close>

lemma close_frees_last:
  assumes "st p = Some q"
  shows "close_read st p = Some (st(p := if read_refs q = 1 \<and> write_refs q = 0 then None
           else Some (q\<lparr>read_refs := read_refs q - 1\<rparr>)))
    \<and> close_write st p = Some (st(p := if read_refs q = 0 \<and> write_refs q = 1 then None
           else Some (q\<lparr>write_refs := write_refs q - 1\<rparr>)))"
  using assms by (auto simp: close_read_def close_write_def free_if_unused_def)

end
