(* ===== verification/Vfs.thy ===== *)
theory Vfs
  imports AnssPrelude
begin

text \<open>
  The in-memory file system, \<^verbatim>\<open>kernel/src/fs/vfs.rs\<close>: a tree of vnodes linked by raw
  pointers (parent, first child, next sibling). A pointer is a natural number, the heap of
  vnodes a map from pointers to vnodes in which a freed node is absent, and the state
  \<open>vfs\<close> holds that heap, the root pointer and the next fresh address.

  Every operation is a function into \<open>option\<close>: \<open>None\<close> means that the code followed a null
  or dangling pointer, or that a pointer-chasing loop does not end. The theorems of theory
  \<open>VfsTree\<close> show that this never happens on a well-formed tree. The operations' own
  failures (the \<^verbatim>\<open>false\<close> and \<^verbatim>\<open>None\<close> they return) are ordinary result values. Paths and names
  are the UTF-8 bytes of the Rust strings. The diagnostics the operations print to the
  kernel log are left out; the text that \<open>cat\<close> and \<open>list\<close> print is their result.
\<close>

section \<open>Strings\<close>

definition NAME_MAX :: nat where
  "NAME_MAX = 64"

text \<open>Rust's \<^verbatim>\<open>str\<close> operations the file system uses, on the bytes of the string.\<close>

fun boundary_below :: "bytes \<Rightarrow> nat \<Rightarrow> nat" where
  "boundary_below s 0 = 0"
| "boundary_below s (Suc i) = (if is_boundary (s ! Suc i) then Suc i else boundary_below s i)"

definition floor_char_boundary :: "bytes \<Rightarrow> nat \<Rightarrow> nat" where
  "floor_char_boundary s i = (if i \<ge> length s then length s else boundary_below s i)"

definition slash :: u8 where
  "slash = 0x2F"

definition trim_end_matches :: "u8 \<Rightarrow> bytes \<Rightarrow> bytes" where
  "trim_end_matches c s = rev (dropWhile (\<lambda>x. x = c) (rev s))"

definition cut_name :: "bytes \<Rightarrow> bytes" where
  "cut_name s = take (floor_char_boundary s (NAME_MAX - 1)) s"

section \<open>The vnode heap\<close>

datatype vnode_type = Dir | File

record vnode =
  vname :: bytes
  vkind :: vnode_type
  vparent :: "nat option"
  vchildren :: "nat option"
  vsibling :: "nat option"
  vdata :: bytes

type_synonym vheap = "nat \<Rightarrow> vnode option"

record vfs =
  nodes :: vheap
  root :: nat
  next_id :: nat

definition set_name :: "vnode \<Rightarrow> bytes \<Rightarrow> vnode" where
  "set_name v name = v\<lparr>vname := cut_name name\<rparr>"

definition is_dir :: "vnode \<Rightarrow> bool" where
  "is_dir v \<longleftrightarrow> vkind v = Dir"

partial_function (option) children_from :: "vheap \<Rightarrow> nat option \<Rightarrow> nat list option" where
  "children_from h c =
     (case c of None \<Rightarrow> Some []
      | Some n \<Rightarrow> do { v \<leftarrow> h n; rest \<leftarrow> children_from h (vsibling v); Some (n # rest) })"

partial_function (option) find_from :: "vheap \<Rightarrow> nat option \<Rightarrow> bytes \<Rightarrow> nat option option" where
  "find_from h c name =
     (case c of None \<Rightarrow> Some None
      | Some n \<Rightarrow> do { v \<leftarrow> h n;
          if vname v = name then Some (Some n) else find_from h (vsibling v) name })"

definition find_child :: "vheap \<Rightarrow> vnode \<Rightarrow> bytes \<Rightarrow> nat option option" where
  "find_child h v name = find_from h (vchildren v) name"

definition alloc_vnode :: "vfs \<Rightarrow> bytes \<Rightarrow> vnode_type \<Rightarrow> nat \<times> vfs" where
  "alloc_vnode s name k =
     (let node = set_name \<lparr>vname = [], vkind = k, vparent = None, vchildren = None,
                   vsibling = None, vdata = []\<rparr> name
      in (next_id s, s\<lparr>nodes := (nodes s)(next_id s \<mapsto> node), next_id := next_id s + 1\<rparr>))"

definition link_child :: "vheap \<Rightarrow> nat \<Rightarrow> nat \<Rightarrow> vheap option" where
  "link_child h parent child = (do {
     c \<leftarrow> h child;
     let h = h(child \<mapsto> c\<lparr>vparent := Some parent\<rparr>);
     p \<leftarrow> h parent;
     c \<leftarrow> h child;
     let h = h(child \<mapsto> c\<lparr>vsibling := vchildren p\<rparr>);
     p \<leftarrow> h parent;
     Some (h(parent \<mapsto> p\<lparr>vchildren := Some child\<rparr>)) })"

text \<open>A place that holds a child pointer: the code's \<^verbatim>\<open>link: *mut *mut Vnode\<close>.\<close>

datatype vlink = ChildrenOf nat | SiblingOf nat

fun read_link :: "vheap \<Rightarrow> vlink \<Rightarrow> nat option option" where
  "read_link h (ChildrenOf n) = map_option vchildren (h n)"
| "read_link h (SiblingOf n) = map_option vsibling (h n)"

fun write_link :: "vheap \<Rightarrow> vlink \<Rightarrow> nat option \<Rightarrow> vheap" where
  "write_link h (ChildrenOf n) x = h(n := map_option (\<lambda>v. v\<lparr>vchildren := x\<rparr>) (h n))"
| "write_link h (SiblingOf n) x = h(n := map_option (\<lambda>v. v\<lparr>vsibling := x\<rparr>) (h n))"

partial_function (option) unlink_from :: "vheap \<Rightarrow> vlink \<Rightarrow> nat \<Rightarrow> vheap option" where
  "unlink_from h link child = (do {
     target \<leftarrow> read_link h link;
     case target of None \<Rightarrow> Some h
     | Some c \<Rightarrow>
         if c = child then do {
           v \<leftarrow> h child;
           let h = write_link h link (vsibling v);
           v \<leftarrow> h child;
           Some (h(child \<mapsto> v\<lparr>vsibling := None, vparent := None\<rparr>)) }
         else unlink_from h (SiblingOf c) child })"

definition unlink_child :: "vheap \<Rightarrow> nat option \<Rightarrow> nat \<Rightarrow> vheap option" where
  "unlink_child h parent child = (do { p \<leftarrow> parent; unlink_from h (ChildrenOf p) child })"

partial_function (option) is_ancestor_or_self :: "vheap \<Rightarrow> nat \<Rightarrow> nat option \<Rightarrow> bool option" where
  "is_ancestor_or_self h ancestor node =
     (case node of None \<Rightarrow> Some False
      | Some n \<Rightarrow> if n = ancestor then Some True
                  else do { v \<leftarrow> h n; is_ancestor_or_self h ancestor (vparent v) })"

definition vfs_init :: vfs where
  "vfs_init = (let s = \<lparr>nodes = Map.empty, root = 0, next_id = 0\<rparr>;
                   (r, s) = alloc_vnode s [] Dir
               in s\<lparr>root := r\<rparr>)"

section \<open>Path resolution\<close>

text \<open>One component of a path, and then the loop over the components.\<close>

definition resolve_step :: "vheap \<Rightarrow> nat \<Rightarrow> bytes \<Rightarrow> nat option option" where
  "resolve_step h cur component =
     (let component = cut_name component
      in if component = [] \<or> component = ascii ''.'' then Some (Some cur)
         else if component = ascii ''..'' then do {
           v \<leftarrow> h cur;
           Some (Some (case vparent v of None \<Rightarrow> cur | Some p \<Rightarrow> p)) }
         else do {
           v \<leftarrow> h cur;
           if \<not> is_dir v then Some None else find_child h v component })"

fun resolve_components :: "vheap \<Rightarrow> nat \<Rightarrow> bytes list \<Rightarrow> nat option option" where
  "resolve_components h cur [] = Some (Some cur)"
| "resolve_components h cur (c # cs) = (do {
     r \<leftarrow> resolve_step h cur c;
     case r of None \<Rightarrow> Some None | Some n \<Rightarrow> resolve_components h n cs })"

definition starts_with_slash :: "bytes \<Rightarrow> bool" where
  "starts_with_slash s \<longleftrightarrow> (case s of [] \<Rightarrow> False | x # _ \<Rightarrow> x = slash)"

definition resolve :: "vfs \<Rightarrow> nat \<Rightarrow> bytes \<Rightarrow> nat option option" where
  "resolve s bas path =
     (let cur = (if starts_with_slash path then root s else bas)
      in resolve_components (nodes s) cur (split_on slash path))"

definition resolve_parent_and_leaf :: "vfs \<Rightarrow> nat \<Rightarrow> bytes \<Rightarrow> (nat \<times> bytes) option option" where
  "resolve_parent_and_leaf s bas path =
     (let path = trim_end_matches slash path
      in if path = [] then Some None
         else case rfind slash path of
             None \<Rightarrow> Some (Some (bas, cut_name path))
           | Some 0 \<Rightarrow> Some (Some (root s, cut_name (drop 1 path)))
           | Some i \<Rightarrow> do {
               parent \<leftarrow> resolve s bas (take i path);
               Some (case parent of None \<Rightarrow> None
                     | Some p \<Rightarrow> Some (p, cut_name (drop (i + 1) path))) })"

section \<open>Operations\<close>

definition create_leaf :: "vfs \<Rightarrow> nat \<Rightarrow> bytes \<Rightarrow> vnode_type \<Rightarrow> (bool \<times> vfs) option" where
  "create_leaf s bas path k = (do {
     r \<leftarrow> resolve_parent_and_leaf s bas path;
     case r of None \<Rightarrow> Some (False, s)
     | Some (parent, leaf) \<Rightarrow> do {
         p \<leftarrow> nodes s parent;
         if \<not> is_dir p then Some (False, s)
         else if leaf = [] then Some (False, s)
         else do {
           existing \<leftarrow> find_child (nodes s) p leaf;
           if existing \<noteq> None then Some (False, s)
           else do {
             let (node, s) = alloc_vnode s leaf k;
             h \<leftarrow> link_child (nodes s) parent node;
             Some (True, s\<lparr>nodes := h\<rparr>) } } } })"

definition mkdir :: "vfs \<Rightarrow> nat \<Rightarrow> bytes \<Rightarrow> (bool \<times> vfs) option" where
  "mkdir s bas path = create_leaf s bas path Dir"

definition create_file :: "vfs \<Rightarrow> nat \<Rightarrow> bytes \<Rightarrow> (bool \<times> vfs) option" where
  "create_file s bas path = create_leaf s bas path File"

text \<open>Freeing a chain of siblings, each with everything under it, and one node.\<close>

partial_function (option) free_chain :: "vheap \<Rightarrow> nat option \<Rightarrow> vheap option" where
  "free_chain h c =
     (case c of None \<Rightarrow> Some h
      | Some n \<Rightarrow> do {
          v \<leftarrow> h n;
          h1 \<leftarrow> (if is_dir v then free_chain h (vchildren v) else Some h);
          free_chain (h1(n := None)) (vsibling v) })"

definition free_tree :: "vheap \<Rightarrow> nat \<Rightarrow> vheap option" where
  "free_tree h node = (do {
     v \<leftarrow> h node;
     h1 \<leftarrow> (if is_dir v then free_chain h (vchildren v) else Some h);
     Some (h1(node := None)) })"

definition remove :: "vfs \<Rightarrow> nat \<Rightarrow> bytes \<Rightarrow> nat option \<Rightarrow> (bool \<times> vfs) option" where
  "remove s bas path cwd = (do {
     r \<leftarrow> resolve s bas path;
     case r of None \<Rightarrow> Some (False, s)
     | Some node \<Rightarrow>
         if node = root s then Some (False, s)
         else do {
           busy \<leftarrow> is_ancestor_or_self (nodes s) node cwd;
           if busy then Some (False, s)
           else do {
             v \<leftarrow> nodes s node;
             h \<leftarrow> unlink_child (nodes s) (vparent v) node;
             h \<leftarrow> free_tree h node;
             Some (True, s\<lparr>nodes := h\<rparr>) } } })"

text \<open>
  Copying a chain of siblings under \<open>dst\<close>, each with everything under it. The failure
  branch of \<^verbatim>\<open>copy_recursive\<close> is unreachable in the code too: allocation failure aborts.
\<close>

partial_function (option) copy_chain :: "vfs \<Rightarrow> nat option \<Rightarrow> nat \<Rightarrow> vfs option" where
  "copy_chain s c dst =
     (case c of None \<Rightarrow> Some s
      | Some n \<Rightarrow> do {
          v \<leftarrow> nodes s n;
          let (k, s1) = alloc_vnode s (vname v) (vkind v);
          s2 \<leftarrow> (if \<not> is_dir v
                 then Some (s1\<lparr>nodes := (nodes s1)(k := map_option (\<lambda>w. w\<lparr>vdata := vdata v\<rparr>) (nodes s1 k))\<rparr>)
                 else copy_chain s1 (vchildren v) k);
          h \<leftarrow> link_child (nodes s2) dst k;
          copy_chain (s2\<lparr>nodes := h\<rparr>) (vsibling v) dst })"

definition copy_recursive :: "vfs \<Rightarrow> nat \<Rightarrow> bytes \<Rightarrow> (nat \<times> vfs) option" where
  "copy_recursive s src new_name = (do {
     v \<leftarrow> nodes s src;
     let (k, s1) = alloc_vnode s new_name (vkind v);
     s2 \<leftarrow> (if \<not> is_dir v
            then Some (s1\<lparr>nodes := (nodes s1)(k := map_option (\<lambda>w. w\<lparr>vdata := vdata v\<rparr>) (nodes s1 k))\<rparr>)
            else copy_chain s1 (vchildren v) k);
     Some (k, s2) })"

definition resolve_target :: "vfs \<Rightarrow> nat \<Rightarrow> bytes \<Rightarrow> vnode \<Rightarrow> (nat \<times> bytes) option option" where
  "resolve_target s bas dest_path src = (do {
     d \<leftarrow> resolve s bas dest_path;
     into \<leftarrow> (case d of None \<Rightarrow> Some False | Some n \<Rightarrow> map_option is_dir (nodes s n));
     if into then Some (case d of None \<Rightarrow> None | Some n \<Rightarrow> Some (n, vname src))
     else do {
       r \<leftarrow> resolve_parent_and_leaf s bas dest_path;
       case r of None \<Rightarrow> Some None
       | Some (parent, leaf) \<Rightarrow> do {
           p \<leftarrow> nodes s parent;
           Some (if is_dir p then Some (parent, leaf) else None) } } })"

definition copy :: "vfs \<Rightarrow> nat \<Rightarrow> bytes \<Rightarrow> bytes \<Rightarrow> (bool \<times> vfs) option" where
  "copy s bas src_path dest_path = (do {
     r \<leftarrow> resolve s bas src_path;
     case r of None \<Rightarrow> Some (False, s)
     | Some src \<Rightarrow> do {
         v \<leftarrow> nodes s src;
         t \<leftarrow> resolve_target s bas dest_path v;
         case t of None \<Rightarrow> Some (False, s)
         | Some (parent, leaf) \<Rightarrow>
             if leaf = [] then Some (False, s)
             else do {
               p \<leftarrow> nodes s parent;
               existing \<leftarrow> find_child (nodes s) p leaf;
               if existing \<noteq> None then Some (False, s)
               else do {
                 within \<leftarrow> (if is_dir v then is_ancestor_or_self (nodes s) src (Some parent)
                            else Some False);
                 if within then Some (False, s)
                 else do {
                   (k, s) \<leftarrow> copy_recursive s src leaf;
                   h \<leftarrow> link_child (nodes s) parent k;
                   Some (True, s\<lparr>nodes := h\<rparr>) } } } } })"

definition move_node :: "vfs \<Rightarrow> nat \<Rightarrow> bytes \<Rightarrow> bytes \<Rightarrow> (bool \<times> vfs) option" where
  "move_node s bas src_path dest_path = (do {
     r \<leftarrow> resolve s bas src_path;
     case r of None \<Rightarrow> Some (False, s)
     | Some src \<Rightarrow>
         if src = root s then Some (False, s)
         else do {
           v \<leftarrow> nodes s src;
           t \<leftarrow> resolve_target s bas dest_path v;
           case t of None \<Rightarrow> Some (False, s)
           | Some (parent, leaf) \<Rightarrow>
               if leaf = [] then Some (False, s)
               else do {
                 p \<leftarrow> nodes s parent;
                 existing \<leftarrow> find_child (nodes s) p leaf;
                 if existing \<noteq> None \<and> existing \<noteq> Some src then Some (False, s)
                 else do {
                   within \<leftarrow> (if is_dir v then is_ancestor_or_self (nodes s) src (Some parent)
                              else Some False);
                   if within then Some (False, s)
                   else do {
                     h \<leftarrow> unlink_child (nodes s) (vparent v) src;
                     w \<leftarrow> h src;
                     h \<leftarrow> link_child (h(src \<mapsto> set_name w leaf)) parent src;
                     Some (True, s\<lparr>nodes := h\<rparr>) } } } } })"

definition write_bytes :: "vfs \<Rightarrow> nat \<Rightarrow> bytes \<Rightarrow> bytes \<Rightarrow> (bool \<times> vfs) option" where
  "write_bytes s bas path data = (do {
     r \<leftarrow> resolve s bas path;
     (r, s) \<leftarrow> (case r of Some n \<Rightarrow> Some (Some n, s)
        | None \<Rightarrow> do {
            (ok, s) \<leftarrow> create_file s bas path;
            if \<not> ok then Some (None, s)
            else do { n \<leftarrow> resolve s bas path; Some (n, s) } });
     case r of None \<Rightarrow> Some (False, s)
     | Some node \<Rightarrow> do {
         v \<leftarrow> nodes s node;
         if is_dir v then Some (False, s)
         else Some (True, s\<lparr>nodes := (nodes s)(node \<mapsto> v\<lparr>vdata := data\<rparr>)\<rparr>) } })"

definition write_file :: "vfs \<Rightarrow> nat \<Rightarrow> bytes \<Rightarrow> bytes \<Rightarrow> bool \<Rightarrow> (bool \<times> vfs) option" where
  "write_file s bas path text app = (do {
     r \<leftarrow> resolve s bas path;
     existing \<leftarrow> (case r of None \<Rightarrow> Some None
        | Some n \<Rightarrow> do { v \<leftarrow> nodes s n; Some (if app \<and> \<not> is_dir v then Some v else None) });
     case existing of
       Some v \<Rightarrow> write_bytes s bas path (vdata v @ text)
     | None \<Rightarrow> write_bytes s bas path text })"

text \<open>What \<^verbatim>\<open>cat\<close> prints, \<open>None\<close> inside for its error cases.\<close>

definition cat :: "vfs \<Rightarrow> nat \<Rightarrow> bytes \<Rightarrow> bytes option option" where
  "cat s bas path = (do {
     r \<leftarrow> resolve s bas path;
     case r of None \<Rightarrow> Some None
     | Some n \<Rightarrow> do { v \<leftarrow> nodes s n; Some (if is_dir v then None else Some (vdata v @ [0x0A])) } })"

text \<open>The entries \<^verbatim>\<open>list\<close> prints: the name, and whether it gets the directory suffix.\<close>

definition list_dir :: "vfs \<Rightarrow> nat \<Rightarrow> bytes \<Rightarrow> (bytes \<times> bool) list option option" where
  "list_dir s bas path = (do {
     d \<leftarrow> (if path = [] then Some (Some bas) else resolve s bas path);
     case d of None \<Rightarrow> Some None
     | Some n \<Rightarrow> do {
         v \<leftarrow> nodes s n;
         if \<not> is_dir v then Some None
         else do {
           cs \<leftarrow> children_from (nodes s) (vchildren v);
           Some (Some (map (\<lambda>c. case nodes s c of None \<Rightarrow> ([], False)
                                | Some w \<Rightarrow> (vname w, is_dir w)) cs)) } } })"

text \<open>The names collected by walking the parent links up to the root.\<close>

partial_function (option) path_parts :: "vfs \<Rightarrow> nat option \<Rightarrow> bytes list option" where
  "path_parts s n =
     (case n of None \<Rightarrow> Some []
      | Some n \<Rightarrow> if n = root s then Some []
                  else do { v \<leftarrow> nodes s n; ps \<leftarrow> path_parts s (vparent v); Some (vname v # ps) })"

definition vfs_path :: "vfs \<Rightarrow> nat \<Rightarrow> bytes option" where
  "vfs_path s node = (do {
     parts \<leftarrow> path_parts s (Some node);
     Some (if parts = [] then [slash]
           else fold (\<lambda>p s. s @ [slash] @ p) (rev parts) []) })"

end
