(* ===== verification/VfsTree.thy ===== *)
theory VfsTree
  imports Vfs
begin

text \<open>
  The abstract view of the file system and the refinement to it. A value of type
  \<open>vtree\<close> is a tree of named files and directories in which each node carries the pointer
  that represents it; \<open>rep h par sib t\<close> says that the vnode heap \<open>h\<close> represents \<open>t\<close> with
  the given parent and sibling pointers at its top. \<open>vfs_wf s t\<close> is the file-system
  invariant: the heap holds exactly the nodes of one tree, rooted at the root pointer, with
  distinct, non-empty, slash-free names of at most 63 bytes in every directory.

  The lemmas show how each pointer operation acts on the represented tree: a general
  focus lemma replaces one subtree, and linking, unlinking, freeing and copying are its
  instances.
\<close>

section \<open>Trees\<close>

datatype vtree = VFile nat bytes bytes | VDir nat bytes "vtree list"

fun tid :: "vtree \<Rightarrow> nat" where
  "tid (VFile n nm d) = n"
| "tid (VDir n nm ts) = n"

fun tname :: "vtree \<Rightarrow> bytes" where
  "tname (VFile n nm d) = nm"
| "tname (VDir n nm ts) = nm"

fun tdir :: "vtree \<Rightarrow> bool" where
  "tdir (VFile n nm d) = False"
| "tdir (VDir n nm ts) = True"

fun tkids :: "vtree \<Rightarrow> vtree list" where
  "tkids (VFile n nm d) = []"
| "tkids (VDir n nm ts) = ts"

fun tids :: "vtree \<Rightarrow> nat list" where
  "tids (VFile n nm d) = [n]"
| "tids (VDir n nm ts) = n # concat (map tids ts)"

abbreviation tidss :: "vtree list \<Rightarrow> nat list" where
  "tidss ts \<equiv> concat (map tids ts)"

fun first_id :: "vtree list \<Rightarrow> nat option" where
  "first_id [] = None"
| "first_id (t # ts) = Some (tid t)"

fun tfind :: "nat \<Rightarrow> vtree \<Rightarrow> vtree option" and tfinds :: "nat \<Rightarrow> vtree list \<Rightarrow> vtree option" where
  "tfind p (VFile n nm d) = (if n = p then Some (VFile n nm d) else None)"
| "tfind p (VDir n nm ts) = (if n = p then Some (VDir n nm ts) else tfinds p ts)"
| "tfinds p [] = None"
| "tfinds p (t # ts) = (case tfind p t of Some u \<Rightarrow> Some u | None \<Rightarrow> tfinds p ts)"

fun tsubst :: "nat \<Rightarrow> vtree \<Rightarrow> vtree \<Rightarrow> vtree" where
  "tsubst p u (VFile n nm d) = (if n = p then u else VFile n nm d)"
| "tsubst p u (VDir n nm ts) = (if n = p then u else VDir n nm (map (tsubst p u) ts))"

definition good_name :: "bytes \<Rightarrow> bool" where
  "good_name nm \<longleftrightarrow> nm \<noteq> [] \<and> slash \<notin> set nm \<and> cut_name nm = nm \<and> length nm < NAME_MAX"

fun tnames_ok :: "vtree \<Rightarrow> bool" where
  "tnames_ok (VFile n nm d) = True"
| "tnames_ok (VDir n nm ts) =
     (distinct (map tname ts) \<and> (\<forall>t \<in> set ts. good_name (tname t) \<and> tnames_ok t))"

fun rep :: "vheap \<Rightarrow> nat option \<Rightarrow> nat option \<Rightarrow> vtree \<Rightarrow> bool"
and reps :: "vheap \<Rightarrow> nat option \<Rightarrow> vtree list \<Rightarrow> bool" where
  "rep h par sib (VFile n nm d) \<longleftrightarrow>
     h n = Some \<lparr>vname = nm, vkind = File, vparent = par, vchildren = None, vsibling = sib, vdata = d\<rparr>"
| "rep h par sib (VDir n nm ts) \<longleftrightarrow>
     h n = Some \<lparr>vname = nm, vkind = Dir, vparent = par, vchildren = first_id ts, vsibling = sib,
       vdata = []\<rparr> \<and> reps h (Some n) ts"
| "reps h par [] \<longleftrightarrow> True"
| "reps h par (t # ts) \<longleftrightarrow> rep h par (first_id ts) t \<and> reps h par ts"

definition vfs_wf :: "vfs \<Rightarrow> vtree \<Rightarrow> bool" where
  "vfs_wf s t \<longleftrightarrow> rep (nodes s) None None t \<and> distinct (tids t) \<and> dom (nodes s) = set (tids t)
     \<and> (\<forall>n \<in> set (tids t). n < next_id s) \<and> root s = tid t \<and> tdir t
     \<and> tname t = [] \<and> tnames_ok t"

text \<open>Trees without pointers: what a file tree is to its users and on disk.\<close>

datatype ftree = FFile bytes bytes | FDir bytes "ftree list"

fun erase :: "vtree \<Rightarrow> ftree" where
  "erase (VFile n nm d) = FFile nm d"
| "erase (VDir n nm ts) = FDir nm (map erase ts)"

fun mirror :: "ftree \<Rightarrow> ftree" where
  "mirror (FFile nm d) = FFile nm d"
| "mirror (FDir nm ts) = FDir nm (rev (map mirror ts))"

section \<open>Structural lemmas\<close>

lemma vtree_list_induct [case_names File Dir Nil Cons]:
  assumes "\<And>n nm d. P (VFile n nm d)"
    and "\<And>n nm ts. Q ts \<Longrightarrow> P (VDir n nm ts)"
    and "Q []"
    and "\<And>t ts. P t \<Longrightarrow> Q ts \<Longrightarrow> Q (t # ts)"
  shows "P t" "Q ts"
proof -
  have "P t" for t
  proof (induction t)
    case (VDir n nm ts)
    then have "Q ts" by (induction ts) (auto intro: assms)
    then show ?case by (rule assms(2))
  qed (rule assms(1))
  then show "P t" "Q ts" by (blast, induction ts) (auto intro: assms)
qed

lemma tid_in_tids [simp]: "tid t \<in> set (tids t)"
  by (cases t) auto

lemma tids_split: "tids t = tid t # tidss (tkids t)"
  by (cases t) auto

lemma tfind_None_iff: "tfind p t = None \<longleftrightarrow> p \<notin> set (tids t)"
  and tfinds_None_iff: "tfinds p ts = None \<longleftrightarrow> p \<notin> set (tidss ts)"
  by (induction t and ts rule: vtree_list_induct) (auto split: option.splits)

lemma tfind_props: "tfind p t = Some u \<Longrightarrow> tid u = p \<and> set (tids u) \<subseteq> set (tids t)"
  and tfinds_props: "tfinds p ts = Some u \<Longrightarrow> tid u = p \<and> set (tids u) \<subseteq> set (tidss ts)"
  by (induction t and ts rule: vtree_list_induct) (auto split: if_splits option.splits)

lemma tfind_exists: "p \<in> set (tids t) \<Longrightarrow> \<exists>u. tfind p t = Some u"
  using tfind_None_iff [of p t] by (cases "tfind p t") auto

lemma tfind_distinct: "tfind p t = Some u \<Longrightarrow> distinct (tids t) \<Longrightarrow> distinct (tids u)"
  and tfinds_distinct: "tfinds p ts = Some u \<Longrightarrow> distinct (tidss ts) \<Longrightarrow> distinct (tids u)"
  by (induction t and ts rule: vtree_list_induct) (auto split: if_splits option.splits)

lemma tfind_self [simp]: "tfind (tid t) t = Some t"
  by (cases t) auto

lemma tsubst_notin: "p \<notin> set (tids t) \<Longrightarrow> tsubst p u t = t"
  and tsubsts_notin: "p \<notin> set (tidss ts) \<Longrightarrow> map (tsubst p u) ts = ts"
  by (induction t and ts rule: vtree_list_induct) auto

lemma tid_tsubst: "tid u = p \<Longrightarrow> tid (tsubst p u t) = tid t"
  by (cases t) auto

lemma first_id_tsubst: "tid u = p \<Longrightarrow> first_id (map (tsubst p u) ts) = first_id ts"
  by (cases ts) (auto simp: tid_tsubst)

lemma tname_tsubst:
  "tfind p t = Some w \<Longrightarrow> tname u = tname w \<Longrightarrow> tname (tsubst p u t) = tname t"
  by (cases t) (auto split: if_splits)

lemma tdir_tsubst: "tdir t \<Longrightarrow> tdir u \<Longrightarrow> tdir (tsubst p u t)"
  by (cases t) auto

text \<open>A subtree of a list of trees sits in exactly one of them.\<close>

lemma tfinds_split:
  "tfinds p ts = Some w \<Longrightarrow> distinct (tidss ts) \<Longrightarrow>
     \<exists>as t bs. ts = as @ t # bs \<and> tfind p t = Some w \<and> (\<forall>u. map (tsubst p u) ts = as @ tsubst p u t # bs)"
proof (induction ts)
  case (Cons t ts)
  show ?case
  proof (cases "tfind p t")
    case None
    with Cons obtain as t' bs where "ts = as @ t' # bs" "tfind p t' = Some w"
      "\<forall>u. map (tsubst p u) ts = as @ tsubst p u t' # bs" by auto
    moreover from None have "tsubst p u t = t" for u by (simp add: tfind_None_iff tsubst_notin)
    ultimately show ?thesis by (intro exI [of _ "t # as"] exI [of _ t'] exI [of _ bs]) simp
  next
    case (Some w')
    with Cons.prems have f: "tfind p t = Some w" by simp
    then have "p \<in> set (tids t)" using tfind_props [OF f] by (metis subsetD tid_in_tids)
    with Cons.prems have "p \<notin> set (tidss ts)" by auto
    then have "map (tsubst p u) ts = ts" for u by (rule tsubsts_notin)
    with f show ?thesis by (intro exI [of _ "[]"] exI [of _ t] exI [of _ ts]) simp
  qed
qed simp

text \<open>The pointers of a tree after a subtree is replaced.\<close>

lemma tids_tsubst:
  assumes "tfind p t = Some w" "distinct (tids t)" "distinct (tids u)"
    "set (tids u) \<inter> (set (tids t) - set (tids w)) = {}"
  shows "distinct (tids (tsubst p u t))
    \<and> set (tids (tsubst p u t)) = set (tids t) - set (tids w) \<union> set (tids u)"
  using assms
proof (induction t)
  case (VDir n nm ts)
  show ?case
  proof (cases "n = p")
    case True
    with VDir.prems show ?thesis by (auto simp del: set_concat)
  next
    case False
    with VDir.prems have "tfinds p ts = Some w" "distinct (tidss ts)" by auto
    from tfinds_split [OF this] obtain as t bs where ts: "ts = as @ t # bs" "tfind p t = Some w"
      "map (tsubst p u) ts = as @ tsubst p u t # bs" by blast
    have sub: "set (tids w) \<subseteq> set (tids t)" using tfind_props [OF ts(2)] by simp
    have ih: "distinct (tids (tsubst p u t))"
      "set (tids (tsubst p u t)) = set (tids t) - set (tids w) \<union> set (tids u)"
      using VDir.IH [of t] VDir.prems ts(1,2) by auto
    have "tids (tsubst p u (VDir n nm ts)) = n # tidss as @ tids (tsubst p u t) @ tidss bs"
      using False ts(3) by (simp del: set_concat map_map add: map_map [symmetric])
    moreover have "tids (VDir n nm ts) = n # tidss as @ tids t @ tidss bs" by (simp add: ts(1))
    ultimately show ?thesis
      using VDir.prems(2,4) ih sub unfolding distinct_append distinct.simps
      by (simp del: set_concat tids.simps) blast
  qed
qed (auto split: if_splits)

lemma tnames_ok_tsubst:
  assumes "tfind p t = Some w" "distinct (tids t)" "tnames_ok t" "tname u = tname w" "tnames_ok u"
  shows "tnames_ok (tsubst p u t)"
  using assms
proof (induction t)
  case (VDir n nm ts)
  show ?case
  proof (cases "n = p")
    case False
    with VDir.prems have "tfinds p ts = Some w" "distinct (tidss ts)" by auto
    from tfinds_split [OF this] obtain as t bs where ts: "ts = as @ t # bs" "tfind p t = Some w"
      "map (tsubst p u) ts = as @ tsubst p u t # bs" by blast
    have "tnames_ok (tsubst p u t)" using VDir.IH [of t] VDir.prems ts(1,2) by auto
    moreover have "tname (tsubst p u t) = tname t" using ts(2) VDir.prems(4) by (rule tname_tsubst)
    ultimately show ?thesis
      using VDir.prems(3) False unfolding ts(1) by (simp add: ts(3) [unfolded ts(1), simplified])
  qed (use VDir.prems in auto)
qed (auto split: if_splits)

section \<open>The heap represents the tree\<close>

lemma rep_cong: "(\<And>n. n \<in> set (tids t) \<Longrightarrow> h' n = h n) \<Longrightarrow> rep h' par sib t = rep h par sib t"
  and reps_cong: "(\<And>n. n \<in> set (tidss ts) \<Longrightarrow> h' n = h n) \<Longrightarrow> reps h' par ts = reps h par ts"
  by (induction t and ts arbitrary: par sib and par rule: vtree_list_induct) simp_all

lemma rep_top:
  assumes "rep h par sib t"
  shows "\<exists>v. h (tid t) = Some v \<and> vname v = tname t \<and> is_dir v = tdir t \<and> vparent v = par
    \<and> vsibling v = sib \<and> vchildren v = first_id (tkids t) \<and> reps h (Some (tid t)) (tkids t)"
  using assms by (cases t) (auto simp: is_dir_def)

lemma rep_dom: "rep h par sib t \<Longrightarrow> set (tids t) \<subseteq> dom h"
  and reps_dom: "reps h par ts \<Longrightarrow> set (tidss ts) \<subseteq> dom h"
  by (induction t and ts arbitrary: par sib and par rule: vtree_list_induct) (auto; blast)+

lemma first_id_append_cong:
  "tid t' = tid t \<Longrightarrow> first_id (as @ t' # bs) = first_id (as @ t # bs)"
  by (cases as) auto

lemma reps_mid: "reps h par (as @ t # bs) \<Longrightarrow> rep h par (first_id bs) t \<and> reps h par bs"
  by (induction as) auto

lemma reps_replace:
  assumes "reps h par (as @ t # bs)" "\<And>n. n \<in> set (tidss as) \<Longrightarrow> h' n = h n"
    "rep h' par (first_id bs) t'" "tid t' = tid t" "reps h' par bs"
  shows "reps h' par (as @ t' # bs)"
  using assms
proof (induction as)
  case (Cons a as)
  have "rep h' par x a = rep h par x a" for x
    by (rule rep_cong) (use Cons.prems(2) in simp)
  moreover have "reps h' par (as @ t' # bs)"
    using Cons.prems by (intro Cons.IH) simp_all
  ultimately show ?case
    using Cons.prems(1) first_id_append_cong [OF Cons.prems(4), of as bs] by simp
qed simp

text \<open>
  The focus lemma: a node of the tree heads a represented subtree, and putting another
  subtree with the same top pointer in its place gives a heap for the changed tree.
\<close>

lemma rep_focus:
  assumes "rep h par sib t" "distinct (tids t)" "tfind p t = Some u"
  shows "\<exists>v. h p = Some v \<and> rep h (vparent v) (vsibling v) u \<and>
    (\<forall>h' u'. (\<forall>n \<in> set (tids t) - set (tids u). h' n = h n) \<and> rep h' (vparent v) (vsibling v) u'
       \<and> tid u' = p \<longrightarrow> rep h' par sib (tsubst p u' t))"
  using assms
proof (induction t arbitrary: par sib)
  case (VFile n nm d)
  then show ?case by (auto split: if_splits)
next
  case (VDir n nm ts)
  show ?case
  proof (cases "n = p")
    case True
    with VDir.prems show ?thesis by auto
  next
    case False
    with VDir.prems have f: "tfinds p ts = Some u" "distinct (tidss ts)" by auto
    from tfinds_split [OF f] obtain as t bs where ts: "ts = as @ t # bs" "tfind p t = Some u"
      and sub: "\<And>u. map (tsubst p u) ts = as @ tsubst p u t # bs" by blast
    have rs: "reps h (Some n) (as @ t # bs)" and hn: "h n = Some \<lparr>vname = nm, vkind = Dir,
        vparent = par, vchildren = first_id ts, vsibling = sib, vdata = []\<rparr>"
      using VDir.prems(1) ts(1) by auto
    from reps_mid [OF rs] VDir.IH [of t "Some n" "first_id bs"] VDir.prems(2) ts(1,2)
    obtain v where v: "h p = Some v" "rep h (vparent v) (vsibling v) u"
      and put: "\<And>h' u'. (\<forall>n \<in> set (tids t) - set (tids u). h' n = h n) \<Longrightarrow>
        rep h' (vparent v) (vsibling v) u' \<Longrightarrow> tid u' = p \<Longrightarrow> rep h' (Some n) (first_id bs) (tsubst p u' t)"
      by auto
    have inside: "set (tids u) \<subseteq> set (tids t)" using tfind_props [OF ts(2)] by simp
    have outside: "n \<notin> set (tids u)" "set (tidss as) \<inter> set (tids u) = {}" "set (tidss bs) \<inter> set (tids u) = {}"
      using VDir.prems(2) inside unfolding ts(1) by auto
    have "rep h' par sib (tsubst p u' (VDir n nm ts))"
      if frame: "\<forall>m \<in> set (tids (VDir n nm ts)) - set (tids u). h' m = h m"
        and new: "rep h' (vparent v) (vsibling v) u'" "tid u' = p" for h' u'
    proof -
      have "rep h' (Some n) (first_id bs) (tsubst p u' t)"
        using frame new by (intro put) (auto simp: ts(1))
      moreover have "reps h' (Some n) bs = reps h (Some n) bs"
        using frame outside(3) by (intro reps_cong) (auto simp: ts(1))
      moreover have "h' m = h m" if "m \<in> set (tidss as)" for m
        using frame outside(2) that by (auto simp: ts(1))
      ultimately have "reps h' (Some n) (as @ tsubst p u' t # bs)"
        using reps_mid [OF rs] tid_tsubst [OF new(2)] by (intro reps_replace [OF rs]) auto
      moreover have "h' n = h n" using frame outside(1) by simp
      ultimately show ?thesis
        using False hn first_id_tsubst [OF new(2), of ts] by (simp add: sub)
    qed
    with v show ?thesis by blast
  qed
qed

lemma rep_focus_node:
  assumes "rep h par sib t" "distinct (tids t)" "tfind p t = Some u"
  shows "\<exists>v. (h p = Some v \<and> rep h (vparent v) (vsibling v) u) \<and>
    (tid u = p \<and> set (tids u) \<subseteq> set (tids t) \<and> distinct (tids u)) \<and>
    (\<forall>h' u'. (\<forall>n \<in> set (tids t) - set (tids u). h' n = h n) \<and> rep h' (vparent v) (vsibling v) u'
       \<and> tid u' = p \<longrightarrow> rep h' par sib (tsubst p u' t))"
  using rep_focus [OF assms] tfind_props [OF assms(3)] tfind_distinct [OF assms(3,2)] by auto

section \<open>Walking the pointers\<close>

lemma find_from_reps:
  "reps h par ts \<Longrightarrow>
     find_from h (first_id ts) nm = Some (map_option tid (find (\<lambda>t. tname t = nm) ts))"
proof (induction ts)
  case Nil
  then show ?case by (simp add: find_from.simps)
next
  case (Cons t ts)
  from Cons.prems obtain v where "h (tid t) = Some v" "vname v = tname t" "vsibling v = first_id ts"
    using rep_top [of h par "first_id ts" t] by auto
  with Cons show ?case by (subst find_from.simps) auto
qed

lemma children_from_reps:
  "reps h par ts \<Longrightarrow> children_from h (first_id ts) = Some (map tid ts)"
proof (induction ts)
  case Nil
  then show ?case by (simp add: children_from.simps)
next
  case (Cons t ts)
  from Cons.prems obtain v where "h (tid t) = Some v" "vsibling v = first_id ts"
    using rep_top [of h par "first_id ts" t] by auto
  with Cons show ?case by (subst children_from.simps) auto
qed

lemma tfinds_mid_eq:
  assumes "p \<in> set (tids t)" "distinct (tidss (as @ t # bs))"
  shows "tfinds p (as @ t # bs) = tfind p t"
  using assms
proof (induction as)
  case Nil
  then show ?case using tfind_None_iff [of p t] by (auto split: option.splits)
next
  case (Cons a as)
  then have "tfind p a = None" by (auto simp: tfind_None_iff)
  with Cons show ?case by simp
qed

text \<open>The parent of a node is in the tree, except the parent of its top.\<close>

lemma rep_parent:
  assumes "rep h par sib t" "n \<in> set (tids t)" "h n = Some v" "distinct (tids t)"
  shows "(n = tid t \<and> vparent v = par) \<or> (n \<noteq> tid t \<and> (\<exists>p u. vparent v = Some p \<and> tfind p t = Some u \<and> tdir u
     \<and> n \<in> tid ` set (tkids u)))"
  using assms
proof (induction t arbitrary: par sib)
  case (VDir m nm ts)
  show ?case
  proof (cases "n = m")
    case False
    with VDir.prems obtain as t bs where ts: "ts = as @ t # bs" and n: "n \<in> set (tids t)"
      by (auto dest!: split_list)
    from VDir.prems ts have rt: "rep h (Some m) (first_id bs) t"
      by (auto dest: reps_mid)
    from VDir.prems ts have d: "distinct (tids t)" by auto
    from VDir.IH [of t, OF _ rt n VDir.prems(3) d] ts
    have "(n = tid t \<and> vparent v = Some m) \<or> (n \<noteq> tid t \<and> (\<exists>p u. vparent v = Some p \<and> tfind p t = Some u
      \<and> tdir u \<and> n \<in> tid ` set (tkids u)))" by simp
    then show ?thesis
    proof (elim disjE conjE exE)
      assume "n = tid t" "vparent v = Some m"
      with False ts show ?thesis by auto
    next
      fix p u assume pu: "vparent v = Some p" "tfind p t = Some u" "tdir u" "n \<in> tid ` set (tkids u)"
      then have "p \<in> set (tids t)" using tfind_props by (metis subsetD tid_in_tids)
      moreover have "tfinds p (as @ t # bs) = Some u"
        using calculation VDir.prems(4) pu(2) ts by (subst tfinds_mid_eq) auto
      moreover have "p \<noteq> m" using calculation VDir.prems(4) ts by auto
      ultimately show ?thesis using pu False ts by auto
    qed
  qed (use VDir.prems in auto)
qed auto

text \<open>The ancestor walk decides membership in the subtree.\<close>

lemma tfinds_mid:
  assumes "distinct (tidss (as @ t # bs))" "n \<in> set (tids t)"
  shows "(\<exists>w. tfinds a (as @ t # bs) = Some w \<and> n \<in> set (tids w))
     \<longleftrightarrow> (\<exists>w. tfind a t = Some w \<and> n \<in> set (tids w))"
  using assms
proof (induction as)
  case Nil
  have "n \<notin> set (tids w)" if "tfinds a bs = Some w" for w
    using tfinds_props [OF that] Nil by auto
  then show ?case by (auto split: option.splits)
next
  case (Cons b as)
  have "n \<notin> set (tids w)" if "tfind a b = Some w" for w
    using tfind_props [OF that] Cons.prems by auto
  moreover have "tfind a t = None" if "tfind a b = Some w" for w
  proof -
    from that have "a \<in> set (tids b)" using tfind_props by (metis subsetD tid_in_tids)
    with Cons.prems(1) have "a \<notin> set (tids t)" by auto
    then show ?thesis by (simp add: tfind_None_iff)
  qed
  ultimately show ?case using Cons by (auto split: option.splits)
qed

lemma is_ancestor_rep:
  assumes "rep h par sib t" "distinct (tids t)" "n \<in> set (tids t)"
  shows "is_ancestor_or_self h a (Some n) =
    (if \<exists>w. tfind a t = Some w \<and> n \<in> set (tids w) then Some True else is_ancestor_or_self h a par)"
  using assms
proof (induction t arbitrary: par sib)
  case (VFile m nm d)
  then show ?case by (subst is_ancestor_or_self.simps) auto
next
  case (VDir m nm ts)
  have up: "is_ancestor_or_self h a (Some m) = (if m = a then Some True else is_ancestor_or_self h a par)"
    using VDir.prems(1) by (subst is_ancestor_or_self.simps) auto
  show ?case
  proof (cases "n = m")
    case True
    have "m \<notin> set (tids w)" if "tfinds a ts = Some w" for w
      using tfinds_props [OF that] VDir.prems(2) by auto
    with True up show ?thesis by auto
  next
    case False
    with VDir.prems obtain as t bs where ts: "ts = as @ t # bs" and n: "n \<in> set (tids t)"
      by (auto dest!: split_list)
    from VDir.prems ts have rt: "rep h (Some m) (first_id bs) t" and d: "distinct (tids t)"
      by (auto dest: reps_mid)
    from VDir.IH [of t, OF _ rt d n] ts
    have "is_ancestor_or_self h a (Some n) = (if \<exists>w. tfind a t = Some w \<and> n \<in> set (tids w) then Some True
        else if m = a then Some True else is_ancestor_or_self h a par)"
      unfolding up by auto
    moreover have "(\<exists>w. tfinds a ts = Some w \<and> n \<in> set (tids w)) \<longleftrightarrow> (\<exists>w. tfind a t = Some w \<and> n \<in> set (tids w))"
      unfolding ts using VDir.prems(2) ts n by (intro tfinds_mid) auto
    moreover have "n \<in> set (tids (VDir m nm ts))" using VDir.prems(3) .
    ultimately show ?thesis by (auto simp del: tids.simps)
  qed
qed

lemma is_ancestor_top:
  assumes "rep h None sib t" "distinct (tids t)" "n \<in> set (tids t)"
  shows "is_ancestor_or_self h a (Some n) = Some (\<exists>w. tfind a t = Some w \<and> n \<in> set (tids w))"
  using is_ancestor_rep [OF assms, of a] by (simp add: is_ancestor_or_self.simps [of h a None])

section \<open>Linking and unlinking\<close>

lemma rep_reroot:
  assumes "rep h par sib t" "distinct (tids t)" "h (tid t) = Some v"
  shows "rep (h(tid t \<mapsto> v\<lparr>vparent := par', vsibling := sib'\<rparr>)) par' sib' t"
proof (cases t)
  case (VDir n nm ts)
  with assms have "reps (h(n \<mapsto> w)) (Some n) ts = reps h (Some n) ts" for w
    by (intro reps_cong) auto
  with VDir assms show ?thesis by auto
qed (use assms in auto)

lemma link_child_eq:
  assumes "h c = Some vc" "h p = Some vp" "c \<noteq> p"
  shows "link_child h p c = Some (h(c \<mapsto> vc\<lparr>vparent := Some p, vsibling := vchildren vp\<rparr>,
    p \<mapsto> vp\<lparr>vchildren := Some c\<rparr>))"
  using assms by (simp add: link_child_def Let_def fun_upd_twist)

lemma rep_dir_upd:
  assumes "rep h par sib (VDir p nm ts)" "h p = Some v" "h' p = Some (v\<lparr>vchildren := first_id ts'\<rparr>)"
    "reps h' (Some p) ts'"
  shows "rep h' par sib (VDir p nm ts')"
  using assms by auto

lemma link_child_rep:
  assumes t: "rep h par sib t" "distinct (tids t)" and p: "tfind p t = Some (VDir p nm ts)"
    and c: "rep h None None c" "distinct (tids c)" "set (tids c) \<inter> set (tids t) = {}"
  shows "\<exists>h'. link_child h p (tid c) = Some h' \<and> rep h' par sib (tsubst p (VDir p nm (c # ts)) t)
    \<and> dom h' = dom h \<and> (\<forall>n. n \<noteq> p \<and> n \<noteq> tid c \<longrightarrow> h' n = h n)"
proof -
  have pin: "p \<in> set (tids t)" using tfind_props [OF p] by auto
  with c(3) have neq: "tid c \<noteq> p" by (metis disjoint_iff tid_in_tids)
  from rep_focus_node [OF t p] obtain v
    where v: "h p = Some v" "rep h (vparent v) (vsibling v) (VDir p nm ts)"
    and vt: "set (tids (VDir p nm ts)) \<subseteq> set (tids t)" "distinct (tids (VDir p nm ts))"
    and put: "\<forall>h' u'. (\<forall>n \<in> set (tids t) - set (tids (VDir p nm ts)). h' n = h n)
       \<and> rep h' (vparent v) (vsibling v) u' \<and> tid u' = p \<longrightarrow> rep h' par sib (tsubst p u' t)"
    by (elim exE conjE)
  from rep_top [OF c(1)] obtain vc where vc: "h (tid c) = Some vc" by blast
  let ?h = "h(tid c \<mapsto> vc\<lparr>vparent := Some p, vsibling := vchildren v\<rparr>, p \<mapsto> v\<lparr>vchildren := Some (tid c)\<rparr>)"
  have ch: "vchildren v = first_id ts" using rep_top [OF v(2)] v(1) by auto
  have "p \<notin> set (tids c)" using pin c(3) by auto
  then have "rep ?h (Some p) (first_id ts) c = rep (h(tid c \<mapsto> vc\<lparr>vparent := Some p, vsibling := first_id ts\<rparr>))
      (Some p) (first_id ts) c"
    unfolding ch by (intro rep_cong) auto
  then have 1: "rep ?h (Some p) (first_id ts) c" using rep_reroot [OF c(1,2) vc] by simp
  have "tid c \<notin> set (tidss ts)" "p \<notin> set (tidss ts)"
    using c(3) vt by (auto simp: disjoint_iff)
  then have "reps ?h (Some p) ts = reps h (Some p) ts" by (intro reps_cong) auto
  with 1 v(2) have "reps ?h (Some p) (c # ts)" by simp
  then have 2: "rep ?h (vparent v) (vsibling v) (VDir p nm (c # ts))"
    by (intro rep_dir_upd [OF v(2,1)]) simp_all
  have "?h n = h n" if "n \<in> set (tids t) - set (tids (VDir p nm ts))" for n
  proof -
    from that have "n \<noteq> p" "n \<noteq> tid c" using c(3) by (auto simp: disjoint_iff)
    then show ?thesis by simp
  qed
  then have "rep ?h par sib (tsubst p (VDir p nm (c # ts)) t)"
    by (intro put [rule_format] conjI ballI 2) simp_all
  with link_child_eq [OF vc v(1) neq] v(1) vc show ?thesis
    by (intro exI [of _ ?h]) auto
qed

text \<open>The link through which \<^verbatim>\<open>unlink_child\<close> reaches the child, and the heap after it.\<close>

fun last_link :: "vlink \<Rightarrow> vtree list \<Rightarrow> vlink" where
  "last_link l [] = l"
| "last_link l (a # as) = last_link (SiblingOf (tid a)) as"

fun link_node :: "vlink \<Rightarrow> nat" where
  "link_node (ChildrenOf n) = n"
| "link_node (SiblingOf n) = n"

lemma write_link_other [simp]: "n \<noteq> link_node l \<Longrightarrow> write_link h l x n = h n"
  by (cases l) auto

lemma dom_write_link [simp]: "dom (write_link h l x) = dom h"
  by (cases l) (auto simp: dom_def)

lemma last_link_snoc [simp]: "last_link l (as @ [a]) = SiblingOf (tid a)"
  by (induction as arbitrary: l) auto

lemma last_link_node: "link_node (last_link l as) = (if as = [] then link_node l else tid (last as))"
  by (induction as arbitrary: l) auto

lemma tid_last_in: "as \<noteq> [] \<Longrightarrow> tid (last as) \<in> set (tidss as)"
  by (induction as) auto

lemma unlink_from_reps:
  assumes "reps h par (as @ c # bs)" "distinct (map tid (as @ c # bs))"
    "read_link h l = Some (first_id (as @ c # bs))" "link_node l \<noteq> tid c" "h (tid c) = Some v"
  shows "unlink_from h l (tid c) =
    Some ((write_link h (last_link l as) (first_id bs))(tid c \<mapsto> v\<lparr>vsibling := None, vparent := None\<rparr>))"
  using assms
proof (induction as arbitrary: l)
  case Nil
  from Nil(1,5) have "vsibling v = first_id bs" using rep_top [of h par "first_id bs" c] by auto
  with Nil show ?case by (subst unlink_from.simps) simp
next
  case (Cons a as)
  from Cons.prems(1) obtain va where "h (tid a) = Some va" "vsibling va = first_id (as @ c # bs)"
    using rep_top [of h par "first_id (as @ c # bs)" a] by auto
  then have r: "read_link h (SiblingOf (tid a)) = Some (first_id (as @ c # bs))" by simp
  have "tid a \<noteq> tid c" using Cons.prems(2) by auto
  with Cons.IH [OF _ _ r] Cons.prems show ?case
    by (subst unlink_from.simps) (simp add: fun_upd_def)
qed

lemma rep_retop:
  assumes "rep h par sib t" "distinct (tids t)" "h (tid t) = Some v"
    "h' (tid t) = Some (v\<lparr>vparent := par', vsibling := sib'\<rparr>)"
    "\<And>n. n \<in> set (tids t) \<Longrightarrow> n \<noteq> tid t \<Longrightarrow> h' n = h n"
  shows "rep h' par' sib' t"
proof -
  have "rep h' par' sib' t = rep (h(tid t \<mapsto> v\<lparr>vparent := par', vsibling := sib'\<rparr>)) par' sib' t"
    by (rule rep_cong) (use assms(4,5) in auto)
  with rep_reroot [OF assms(1-3)] show ?thesis by simp
qed

lemma reps_drop:
  assumes "reps h par (as @ c # bs)" "distinct (tidss (as @ c # bs))"
    "\<And>n. n \<in> set (tidss (as @ bs)) \<Longrightarrow> (as \<noteq> [] \<Longrightarrow> n \<noteq> tid (last as)) \<Longrightarrow> h' n = h n"
    "as \<noteq> [] \<Longrightarrow> h' (tid (last as)) = map_option (\<lambda>v. v\<lparr>vsibling := first_id bs\<rparr>) (h (tid (last as)))"
  shows "reps h' par (as @ bs)"
  using assms
proof (induction as)
  case Nil
  then have "reps h' par bs = reps h par bs" by (intro reps_cong) simp
  with Nil show ?case by simp
next
  case (Cons a as)
  from Cons.prems(1) have a: "rep h par (first_id (as @ c # bs)) a" by simp
  from rep_top [OF a] obtain v where v: "h (tid a) = Some v" "vparent v = par" by blast
  from Cons.prems(2) have da: "distinct (tids a)" by simp
  show ?case
  proof (cases "as = []")
    case True
    have "set (tids a) \<inter> set (tidss bs) = {}" using Cons.prems(2) True by auto
    then have "tid a \<notin> set (tidss bs)" using tid_in_tids [of a] by blast
    then have "reps h' par bs = reps h par bs"
      using Cons.prems(3) True by (intro reps_cong) auto
    moreover have "rep h' par (first_id bs) a"
    proof (rule rep_retop [OF a da v(1)])
      show "h' (tid a) = Some (v\<lparr>vparent := par, vsibling := first_id bs\<rparr>)"
        using Cons.prems(4) True v by simp
    qed (use Cons.prems(3) True in auto)
    ultimately show ?thesis using Cons.prems(1) True by simp
  next
    case False
    then have l: "tid (last as) \<in> set (tidss as)" by (rule tid_last_in)
    then have na: "tid (last as) \<notin> set (tids a)" using Cons.prems(2) by auto
    have "reps h' par (as @ bs)"
      using Cons.prems False l by (intro Cons.IH) auto
    moreover have "rep h' par (first_id (as @ c # bs)) a = rep h par (first_id (as @ c # bs)) a"
      using Cons.prems(3) False na by (intro rep_cong) auto
    moreover have "first_id (as @ c # bs) = first_id (as @ bs)" using False by (cases as) auto
    ultimately show ?thesis using a by simp
  qed
qed

lemma distinct_tid: "distinct (tidss ts) \<Longrightarrow> distinct (map tid ts)"
proof (induction ts)
  case (Cons t ts)
  then have "set (tids t) \<inter> set (tidss ts) = {}" by simp
  then have "tid t \<notin> set (tidss ts)" using tid_in_tids [of t] by blast
  moreover have "set (map tid ts) \<subseteq> set (tidss ts)" using tid_in_tids by auto
  ultimately show ?case using Cons by auto
qed simp

lemma unlink_child_rep:
  assumes t: "rep h par sib t" "distinct (tids t)"
    and p: "tfind p t = Some (VDir p nm (as @ c # bs))"
  shows "\<exists>h'. unlink_child h (Some p) (tid c) = Some h' \<and>
    rep h' par sib (tsubst p (VDir p nm (as @ bs)) t) \<and> rep h' None None c \<and> dom h' = dom h
    \<and> (\<forall>n. n \<notin> set (tids t) \<longrightarrow> h' n = h n)"
proof -
  let ?u = "VDir p nm (as @ c # bs)" and ?l = "last_link (ChildrenOf p) as"
  from rep_focus_node [OF t p] obtain v
    where v: "h p = Some v" "rep h (vparent v) (vsibling v) ?u"
    and vt: "set (tids ?u) \<subseteq> set (tids t)" "distinct (tids ?u)"
    and put: "\<forall>h' u'. (\<forall>n \<in> set (tids t) - set (tids ?u). h' n = h n)
       \<and> rep h' (vparent v) (vsibling v) u' \<and> tid u' = p \<longrightarrow> rep h' par sib (tsubst p u' t)"
    by (elim exE conjE)
  from v(2) have rs: "reps h (Some p) (as @ c # bs)" by simp
  from vt(2) have ds: "distinct (tidss (as @ c # bs))" and pn: "p \<notin> set (tidss (as @ c # bs))" by auto
  from reps_mid [OF rs] have rc: "rep h (Some p) (first_id bs) c" by simp
  from rep_top [OF rc] obtain vc where vc: "h (tid c) = Some vc" by blast
  have pc: "p \<noteq> tid c" using pn by auto
  have dc: "distinct (tids c)" "set (tids c) \<inter> set (tidss (as @ bs)) = {}" using ds by auto
  have lc: "link_node ?l \<notin> set (tids c)"
  proof (cases "as = []")
    case False
    from tid_last_in [OF False] dc(2) show ?thesis by (auto simp: last_link_node)
  qed (use pn in \<open>simp add: last_link_node\<close>)
  let ?h = "(write_link h ?l (first_id bs))(tid c \<mapsto> vc\<lparr>vsibling := None, vparent := None\<rparr>)"
  have "read_link h (ChildrenOf p) = Some (first_id (as @ c # bs))"
    using rep_top [OF v(2)] v(1) by auto
  then have run: "unlink_child h (Some p) (tid c) = Some ?h"
    using unlink_from_reps [OF rs distinct_tid [OF ds] _ _ vc] pc by (simp add: unlink_child_def)
  have other: "?h n = h n" if "n \<noteq> link_node ?l" "n \<noteq> tid c" for n using that by simp
  have c: "rep ?h None None c"
  proof (rule rep_retop [OF rc dc(1) vc])
    show "?h (tid c) = Some (vc\<lparr>vparent := None, vsibling := None\<rparr>)" by simp
  next
    fix n assume "n \<in> set (tids c)" "n \<noteq> tid c"
    then show "?h n = h n" using lc by (intro other) auto
  qed
  have "reps ?h (Some p) (as @ bs)"
  proof (rule reps_drop [OF rs ds])
    fix n assume n: "n \<in> set (tidss (as @ bs))" "as \<noteq> [] \<Longrightarrow> n \<noteq> tid (last as)"
    moreover from n(1) dc(2) tid_in_tids [of c] have "n \<noteq> tid c" by blast
    ultimately show "?h n = h n" using pn by (intro other) (auto simp: last_link_node)
  next
    assume "as \<noteq> []"
    then obtain as' a where a: "as = as' @ [a]" by (metis rev_exhaust)
    with lc have "tid a \<noteq> tid c" by auto
    with a show "?h (tid (last as)) = map_option (\<lambda>v. v\<lparr>vsibling := first_id bs\<rparr>) (h (tid (last as)))" by simp
  qed
  moreover have "?h p = Some (v\<lparr>vchildren := first_id (as @ bs)\<rparr>)"
  proof (cases "as = []")
    case False
    then have "vchildren v = first_id (as @ bs)" using rep_top [OF v(2)] v(1) by (cases as) auto
    moreover have "p \<noteq> link_node ?l" using tid_last_in [OF False] pn False by (auto simp: last_link_node)
    ultimately show ?thesis using other pc v(1) by simp
  qed (use v(1) pc in simp)
  ultimately have 2: "rep ?h (vparent v) (vsibling v) (VDir p nm (as @ bs))"
    by (rule rep_dir_upd [OF v(2,1), rotated])
  have lt: "link_node ?l \<in> set (tids ?u)" "tid c \<in> set (tids ?u)"
    using tid_last_in [of as] by (auto simp: last_link_node)
  then have "rep ?h par sib (tsubst p (VDir p nm (as @ bs)) t)"
    by (intro put [rule_format] conjI ballI 2 other) auto
  moreover have "?h n = h n" if "n \<notin> set (tids t)" for n
    using that lt vt(1) by (intro other) blast+
  moreover have "dom ?h = dom h" using vc by auto
  ultimately show ?thesis using run c by blast
qed

section \<open>Freeing and copying\<close>

lemma free_chain_rep:
  "rep h par sib t \<Longrightarrow> distinct (tids t) \<Longrightarrow>
     free_chain h (Some (tid t)) = free_chain (\<lambda>n. if n \<in> set (tids t) then None else h n) sib"
  and free_chain_reps:
  "reps h par ts \<Longrightarrow> distinct (tidss ts) \<Longrightarrow>
     free_chain h (first_id ts) = Some (\<lambda>n. if n \<in> set (tidss ts) then None else h n)"
proof (induction t and ts arbitrary: h par sib and h par rule: vtree_list_induct)
  case (File n nm d)
  then show ?case
    by (subst free_chain.simps) (simp add: is_dir_def fun_upd_def)
next
  case (Dir n nm ts)
  then have "free_chain h (first_id ts) = Some (\<lambda>m. if m \<in> set (tidss ts) then None else h m)"
    using Dir.IH [of h "Some n"] by simp
  moreover have "(\<lambda>m. if m \<in> set (tidss ts) then None else h m)(n := None)
      = (\<lambda>m. if m \<in> set (tids (VDir n nm ts)) then None else h m)"
    by auto
  ultimately show ?case using Dir.prems
    by (subst free_chain.simps) (simp add: is_dir_def del: set_concat)
next
  case Nil
  then show ?case by (subst free_chain.simps) simp
next
  case (Cons t ts)
  let ?h = "\<lambda>n. if n \<in> set (tids t) then None else h n"
  from Cons.prems(2) have disj: "set (tids t) \<inter> set (tidss ts) = {}" by simp
  then have "reps ?h par ts = reps h par ts" by (intro reps_cong) auto
  with Cons.prems have "reps ?h par ts" by simp
  then have "free_chain ?h (first_id ts) = Some (\<lambda>n. if n \<in> set (tidss ts) then None else ?h n)"
    using Cons.IH(2) [of ?h par] Cons.prems(2) by simp
  moreover have "free_chain h (Some (tid t)) = free_chain ?h (first_id ts)"
    using Cons.IH(1) [of h par "first_id ts"] Cons.prems by simp
  moreover have "(\<lambda>n. if n \<in> set (tidss ts) then None else ?h n)
      = (\<lambda>n. if n \<in> set (tidss (t # ts)) then None else h n)" by auto
  ultimately show ?case by simp
qed

lemma free_tree_rep:
  assumes "rep h par sib t" "distinct (tids t)"
  shows "free_tree h (tid t) = Some (\<lambda>n. if n \<in> set (tids t) then None else h n)"
proof (cases t)
  case (VFile n nm d)
  with assms show ?thesis by (simp add: free_tree_def is_dir_def fun_upd_def)
next
  case (VDir n nm ts)
  with assms have "free_chain h (first_id ts) = Some (\<lambda>m. if m \<in> set (tidss ts) then None else h m)"
    by (intro free_chain_reps) auto
  with VDir assms show ?thesis by (auto simp: free_tree_def is_dir_def)
qed

text \<open>
  What a copy into the directory \<open>dst\<close> has done so far: the trees \<open>us'\<close>, built from fresh
  nodes, stand before the children \<open>us\<close> it had, and no other node has changed.
\<close>

definition copied :: "vfs \<Rightarrow> nat \<Rightarrow> vtree list \<Rightarrow> vtree list \<Rightarrow> vfs \<Rightarrow> bool" where
  "copied s dst us us' s' \<longleftrightarrow>
     next_id s \<le> next_id s' \<and> root s' = root s
     \<and> set (tidss us') = {next_id s..<next_id s'} \<and> distinct (tidss us')
     \<and> reps (nodes s') (Some dst) (us' @ us)
     \<and> nodes s' dst = map_option (\<lambda>v. v\<lparr>vchildren := first_id (us' @ us)\<rparr>) (nodes s dst)
     \<and> (\<forall>n < next_id s. n \<noteq> dst \<longrightarrow> nodes s' n = nodes s n)
     \<and> (\<forall>n \<ge> next_id s'. nodes s' n = None)"

lemma copied_trans:
  assumes "copied s dst us us1 s1" "copied s1 dst (us1 @ us) us2 s2" "dst < next_id s"
  shows "copied s dst us (us2 @ us1) s2"
  using assms unfolding copied_def
  by (auto simp: option.map_comp comp_def disjoint_iff simp del: set_concat)

text \<open>A freshly built tree, not linked anywhere yet.\<close>

definition built :: "vfs \<Rightarrow> vtree \<Rightarrow> vfs \<Rightarrow> bool" where
  "built s u s' \<longleftrightarrow> next_id s \<le> next_id s' \<and> root s' = root s \<and> rep (nodes s') None None u
     \<and> distinct (tids u) \<and> set (tids u) = {next_id s..<next_id s'}
     \<and> (\<forall>n < next_id s. nodes s' n = nodes s n) \<and> (\<forall>n \<ge> next_id s'. nodes s' n = None)"

fun frename :: "bytes \<Rightarrow> ftree \<Rightarrow> ftree" where
  "frename nm (FFile _ d) = FFile nm d"
| "frename nm (FDir _ ts) = FDir nm ts"

lemma frename_id [simp]: "frename (tname t) (mirror (erase t)) = mirror (erase t)"
  by (cases t) auto

lemma link_built:
  assumes b: "built s u s2" and us: "reps (nodes s) (Some dst) us" "\<forall>n \<in> set (tidss us). n < next_id s \<and> n \<noteq> dst"
    and dst: "nodes s dst = Some vd" "vchildren vd = first_id us" "dst < next_id s"
  shows "\<exists>h. link_child (nodes s2) dst (tid u) = Some h \<and> copied s dst us [u] (s2\<lparr>nodes := h\<rparr>)"
proof -
  from b have ub: "rep (nodes s2) None None u" "distinct (tids u)" "set (tids u) = {next_id s..<next_id s2}"
    "\<And>n. n < next_id s \<Longrightarrow> nodes s2 n = nodes s n" by (auto simp: built_def)
  from rep_top [OF ub(1)] obtain vu where vu: "nodes s2 (tid u) = Some vu" by blast
  have tu: "tid u \<in> {next_id s..<next_id s2}" using tid_in_tids [of u] ub(3) by simp
  then have ne: "tid u \<noteq> dst" using dst(3) by simp
  let ?h = "(nodes s2)(tid u \<mapsto> vu\<lparr>vparent := Some dst, vsibling := first_id us\<rparr>,
    dst \<mapsto> vd\<lparr>vchildren := Some (tid u)\<rparr>)"
  have run: "link_child (nodes s2) dst (tid u) = Some ?h"
    using link_child_eq [of "nodes s2", OF vu _ ne] dst ub(4) by simp
  have "rep ?h (Some dst) (first_id us) u"
    using dst(3) ub(3) ne by (intro rep_retop [OF ub(1,2) vu]) auto
  moreover have "reps ?h (Some dst) us = reps (nodes s) (Some dst) us"
    using us(2) tu by (intro reps_cong) (auto simp: ub(4) simp del: set_concat)
  ultimately have "copied s dst us [u] (s2\<lparr>nodes := ?h\<rparr>)"
    using b us(1) dst ne tu by (auto simp: copied_def built_def)
  with run show ?thesis by blast
qed

lemma copy_chain_step:
  assumes "nodes s n = Some v"
  shows "copy_chain s (Some n) dst = (do {
    (k, s2) \<leftarrow> copy_recursive s n (vname v);
    h \<leftarrow> link_child (nodes s2) dst k;
    copy_chain (s2\<lparr>nodes := h\<rparr>) (vsibling v) dst })"
  using assms by (subst copy_chain.simps) (simp add: copy_recursive_def split_def Let_def Option.bind_assoc)

lemma built_alloc:
  assumes "\<forall>n \<ge> next_id s. nodes s n = None"
  shows "fst (alloc_vnode s nm k) = next_id s"
    "built s (VFile (next_id s) (cut_name nm) d)
      ((snd (alloc_vnode s nm File))\<lparr>nodes := (nodes (snd (alloc_vnode s nm File)))
         (next_id s := map_option (\<lambda>w. w\<lparr>vdata := d\<rparr>) (nodes (snd (alloc_vnode s nm File)) (next_id s)))\<rparr>)"
    "built s (VDir (next_id s) (cut_name nm) []) (snd (alloc_vnode s nm Dir))"
  using assms by (auto simp: alloc_vnode_def set_name_def Let_def built_def)

lemma copied_built:
  assumes "built s (VDir k nm []) s1" "copied s1 k [] us s2" "k = next_id s" "next_id s1 = Suc k"
  shows "built s (VDir k nm us) s2"
proof -
  have "rep (nodes s1) None None (VDir k nm [])" using assms(1) by (simp add: built_def)
  then have "rep (nodes s2) None None (VDir k nm us)"
    using assms(2) by (auto simp: copied_def)
  then show ?thesis using assms by (auto simp: built_def copied_def simp del: set_concat)
qed

lemma copy_recursive_rep:
  "rep (nodes s) par sib t \<Longrightarrow> \<forall>n \<in> set (tids t). n < next_id s \<Longrightarrow> tnames_ok t \<Longrightarrow>
     \<forall>n \<ge> next_id s. nodes s n = None \<Longrightarrow>
     \<exists>u s'. copy_recursive s (tid t) nm = Some (tid u, s') \<and> built s u s'
       \<and> erase u = frename (cut_name nm) (mirror (erase t))"
  and copy_chain_reps:
  "reps (nodes s) par ts \<Longrightarrow> \<forall>n \<in> set (tidss ts). n < next_id s \<and> n \<noteq> dst \<Longrightarrow>
     \<forall>t \<in> set ts. good_name (tname t) \<and> tnames_ok t \<Longrightarrow> \<forall>n \<ge> next_id s. nodes s n = None \<Longrightarrow>
     reps (nodes s) (Some dst) us \<Longrightarrow> \<forall>n \<in> set (tidss us). n < next_id s \<and> n \<noteq> dst \<Longrightarrow>
     nodes s dst = Some vd \<Longrightarrow> vchildren vd = first_id us \<Longrightarrow> dst < next_id s \<Longrightarrow>
     \<exists>us' s'. copy_chain s (first_id ts) dst = Some s' \<and> copied s dst us us' s'
       \<and> map erase us' = rev (map (\<lambda>t. mirror (erase t)) ts)"
proof (induction t and ts arbitrary: s par sib nm and s par dst us vd rule: vtree_list_induct)
  case (File n fn d)
  then show ?case
    using built_alloc(2) [OF File(4), of nm d] built_alloc(1) [OF File(4), of nm File]
    by (intro exI [of _ "VFile (next_id s) (cut_name nm) d"])
       (auto simp: copy_recursive_def is_dir_def split_def Let_def)
next
  case (Dir n dn ts)
  let ?s1 = "snd (alloc_vnode s nm Dir)" and ?k = "next_id s"
  have b: "built s (VDir ?k (cut_name nm) []) ?s1" and nid: "next_id ?s1 = Suc ?k"
    using built_alloc(3) [OF Dir.prems(4)] by (simp_all add: alloc_vnode_def Let_def)
  have "reps (nodes ?s1) (Some n) ts = reps (nodes s) (Some n) ts"
    using b Dir.prems(2) by (intro reps_cong) (auto simp: built_def)
  moreover have "nodes ?s1 ?k = Some \<lparr>vname = cut_name nm, vkind = Dir, vparent = None,
      vchildren = None, vsibling = None, vdata = []\<rparr>" using b by (simp add: built_def)
  ultimately obtain us s' where c: "copy_chain ?s1 (first_id ts) ?k = Some s'" "copied ?s1 ?k [] us s'"
      "map erase us = rev (map (\<lambda>t. mirror (erase t)) ts)"
    using Dir.IH [of ?s1 "Some n" ?k "[]"] Dir.prems b nid by (fastforce simp: built_def)
  have "built s (VDir ?k (cut_name nm) us) s'" using copied_built [OF b c(2) _ nid] by simp
  moreover have "copy_recursive s n nm = Some (?k, s')"
    using Dir.prems(1) c(1) built_alloc(1) [OF Dir.prems(4), of nm Dir]
    by (simp add: copy_recursive_def is_dir_def split_def Let_def)
  ultimately show ?case using c(3)
    by (intro exI [of _ "VDir ?k (cut_name nm) us"] exI [of _ s']) (simp add: rev_map comp_def)
next
  case Nil
  then show ?case by (intro exI [of _ "[]"] exI [of _ s]) (auto simp: copy_chain.simps copied_def)
next
  case (Cons t ts)
  from rep_top [of "nodes s" par "first_id ts" t] Cons.prems(1) obtain v
    where v: "nodes s (tid t) = Some v" "vname v = tname t" "vsibling v = first_id ts" by auto
  from Cons.prems(3) have cut: "cut_name (tname t) = tname t" by (simp add: good_name_def)
  from Cons.IH(1) [of s par "first_id ts" "tname t"] Cons.prems(1-4) obtain u s1
    where u: "copy_recursive s (tid t) (tname t) = Some (tid u, s1)" "built s u s1"
      "erase u = mirror (erase t)" by (auto simp: cut)
  from link_built [OF u(2) Cons.prems(5-9)] obtain h
    where h: "link_child (nodes s1) dst (tid u) = Some h" "copied s dst us [u] (s1\<lparr>nodes := h\<rparr>)" by blast
  let ?s2 = "s1\<lparr>nodes := h\<rparr>"
  have "reps (nodes ?s2) par ts = reps (nodes s) par ts"
    using h(2) Cons.prems(2) by (intro reps_cong) (auto simp: copied_def)
  then have r: "reps (nodes ?s2) par ts" using Cons.prems(1) by simp
  have le: "next_id s \<le> next_id ?s2" and ids: "set (tids u) = {next_id s..<next_id ?s2}"
    and fresh: "\<forall>n \<ge> next_id ?s2. nodes ?s2 n = None" and lu: "reps (nodes ?s2) (Some dst) (u # us)"
    and d2: "nodes ?s2 dst = Some (vd\<lparr>vchildren := Some (tid u)\<rparr>)"
    using h(2) Cons.prems(7) by (simp_all add: copied_def)
  have bts: "\<forall>n \<in> set (tidss ts). n < next_id ?s2 \<and> n \<noteq> dst"
    using Cons.prems(2) le by (auto intro: less_le_trans simp del: set_concat)
  have bus: "\<forall>n \<in> set (tidss (u # us)). n < next_id ?s2 \<and> n \<noteq> dst"
    using Cons.prems(6,9) ids le by (auto intro: less_le_trans simp del: set_concat)
  have dlt: "dst < next_id ?s2" using Cons.prems(9) le by simp
  have "\<exists>us' s'. copy_chain ?s2 (first_id ts) dst = Some s' \<and>
      copied ?s2 dst (u # us) us' s' \<and> map erase us' = rev (map (\<lambda>t. mirror (erase t)) ts)"
    using Cons.prems(3) by (intro Cons.IH(2) [OF r bts _ fresh lu bus d2 _ dlt]) simp_all
  then obtain us' s' where c: "copy_chain ?s2 (first_id ts) dst = Some s'"
      "copied ?s2 dst (u # us) us' s'" "map erase us' = rev (map (\<lambda>t. mirror (erase t)) ts)" by blast
  have "copied s dst us (us' @ [u]) s'"
    using copied_trans [OF h(2) _ Cons.prems(9), of us' s'] c(2) by simp
  moreover have "copy_chain s (first_id (t # ts)) dst = Some s'"
    using v u(1) h(1) c(1) by (simp add: copy_chain_step)
  ultimately show ?case using c(3) u(3) by (intro exI [of _ "us' @ [u]"] exI [of _ s']) simp
qed

end
