(* ===== verification/VfsOps.thy ===== *)
theory VfsOps
  imports VfsTree
begin

text \<open>
  The file-system operations of \<^verbatim>\<open>kernel/src/fs/vfs.rs\<close> against their specification on
  trees. For a well-formed file system every operation returns (no bad pointer is followed
  and every pointer walk ends), succeeds exactly when its documented conditions hold, and
  then performs the tree operation \<open>tadd\<close>, \<open>tdel\<close> or \<open>tput\<close> it stands for; a failing
  operation changes nothing.
\<close>

section \<open>Specification on trees\<close>

text \<open>Add a child at the front of directory \<open>p\<close>, delete the subtree at \<open>n\<close>, and set a file's data.\<close>

fun tadd :: "nat \<Rightarrow> vtree \<Rightarrow> vtree \<Rightarrow> vtree" where
  "tadd p u (VFile n nm d) = VFile n nm d"
| "tadd p u (VDir n nm ts) = (if n = p then VDir n nm (u # ts) else VDir n nm (map (tadd p u) ts))"

fun tdel :: "nat \<Rightarrow> vtree \<Rightarrow> vtree" where
  "tdel c (VFile n nm d) = VFile n nm d"
| "tdel c (VDir n nm ts) = VDir n nm (map (tdel c) (filter (\<lambda>t. tid t \<noteq> c) ts))"

fun tput :: "nat \<Rightarrow> bytes \<Rightarrow> vtree \<Rightarrow> vtree" where
  "tput f x (VFile n nm d) = VFile n nm (if n = f then x else d)"
| "tput f x (VDir n nm ts) = VDir n nm (map (tput f x) ts)"

fun trename :: "bytes \<Rightarrow> vtree \<Rightarrow> vtree" where
  "trename nm (VFile n _ d) = VFile n nm d"
| "trename nm (VDir n _ ts) = VDir n nm ts"

text \<open>The entries of a directory, and the node with a given name in it.\<close>

definition tentry :: "bytes \<Rightarrow> vtree \<Rightarrow> nat option" where
  "tentry nm u = map_option tid (find (\<lambda>t. tname t = nm) (tkids u))"

lemma tadd_notin: "p \<notin> set (tids t) \<Longrightarrow> tadd p u t = t"
  by (induction t) (auto intro!: map_idI)

text \<open>A function that changes a tree only at node \<open>p\<close> substitutes there.\<close>

lemma at_node_tsubst:
  assumes "\<And>t. p \<notin> set (tids t) \<Longrightarrow> f t = t"
    "\<And>n nm ts. n \<noteq> p \<Longrightarrow> f (VDir n nm ts) = VDir n nm (map f ts)"
  shows "tfind p t = Some u \<Longrightarrow> distinct (tids t) \<Longrightarrow> f t = tsubst p (f u) t"
proof (induction t)
  case (VDir n dn us)
  show ?case
  proof (cases "n = p")
    case False
    with VDir.prems have fs: "tfinds p us = Some u" "distinct (tidss us)" by auto
    from tfinds_split [OF fs] obtain as t bs where us: "us = as @ t # bs" "tfind p t = Some u"
      "\<And>u. map (tsubst p u) us = as @ tsubst p u t # bs" by blast
    have "p \<in> set (tids t)" using tfind_props [OF us(2)] tid_in_tids by blast
    then have "p \<notin> set (tidss as)" "p \<notin> set (tidss bs)" using fs(2) us(1) by auto
    then have "map f us = as @ f t # bs"
      unfolding us(1) by (auto simp: assms(1) intro!: map_idI)
    moreover have "f t = tsubst p (f u) t" using VDir.IH [of t] us(1,2) VDir.prems(2) by simp
    ultimately show ?thesis using False us(3) assms(2) by simp
  qed (use VDir.prems in auto)
qed (auto split: if_splits)

lemma tadd_tsubst:
  "tfind p t = Some (VDir p nm ts) \<Longrightarrow> distinct (tids t) \<Longrightarrow> tadd p u t = tsubst p (VDir p nm (u # ts)) t"
  by (subst at_node_tsubst [where f = "tadd p u" and p = p]) (auto simp: tadd_notin)

lemma tput_notin: "f \<notin> set (tids t) \<Longrightarrow> tput f x t = t"
  by (induction t) (auto intro!: map_idI)

lemma tput_tsubst:
  "tfind f t = Some (VFile f nm d) \<Longrightarrow> distinct (tids t) \<Longrightarrow> tput f x t = tsubst f (VFile f nm x) t"
  by (subst at_node_tsubst [where f = "tput f x" and p = f]) (auto simp: tput_notin)

lemma child_not_top:
  assumes "tfind p t = Some (VDir p nm (as @ c # bs))" "distinct (tids t)"
  shows "tid c \<noteq> tid t" "tid c \<in> set (tids t)"
proof -
  have ct: "tid c \<in> set (tids (VDir p nm (as @ c # bs)))" "tid c \<noteq> p"
    using tfind_distinct [OF assms] tid_in_tids [of c] by auto
  then show "tid c \<in> set (tids t)" using tfind_props [OF assms(1)] by blast
  show "tid c \<noteq> tid t"
  proof (cases "tid t = p")
    case False
    then have "tfinds p (tkids t) = Some (VDir p nm (as @ c # bs))"
      using assms(1) by (cases t) auto
    from tfinds_props [OF this] ct(1) have "tid c \<in> set (tidss (tkids t))" by blast
    then show ?thesis using assms(2) by (auto simp: tids_split [of t])
  qed (use ct in simp)
qed

lemma tdel_notin: "c \<notin> set (tids t) \<Longrightarrow> tdel c t = t"
proof (induction t)
  case (VDir n nm ts)
  then have "filter (\<lambda>t. tid t \<noteq> c) ts = ts" by (auto simp: filter_id_conv)
  moreover have "map (tdel c) ts = ts" using VDir by (auto intro!: map_idI)
  ultimately show ?case by simp
qed simp

lemma tdel_filter: "c \<notin> set (tidss ts) \<Longrightarrow> map (tdel c) (filter (\<lambda>t. tid t \<noteq> c) ts) = ts"
  by (induction ts) (auto simp: tdel_notin)

lemma tdel_tsubst:
  "tfind p t = Some (VDir p nm (as @ c # bs)) \<Longrightarrow> distinct (tids t) \<Longrightarrow>
     tdel (tid c) t = tsubst p (VDir p nm (as @ bs)) t"
proof (induction t)
  case (VDir n dn us)
  show ?case
  proof (cases "n = p")
    case True
    with VDir.prems have us: "us = as @ c # bs" "dn = nm" by auto
    with VDir.prems(2) have "set (tids c) \<inter> set (tidss (as @ bs)) = {}" by auto
    then have "tid c \<notin> set (tidss (as @ bs))" using tid_in_tids [of c] by blast
    then have "map (tdel (tid c)) (filter (\<lambda>t. tid t \<noteq> tid c) (as @ bs)) = as @ bs" by (rule tdel_filter)
    with True us show ?thesis by simp
  next
    case False
    with VDir.prems have f: "tfinds p us = Some (VDir p nm (as @ c # bs))" "distinct (tidss us)" by auto
    from tfinds_split [OF f] obtain xs t ys where us: "us = xs @ t # ys"
      "tfind p t = Some (VDir p nm (as @ c # bs))" "\<And>u. map (tsubst p u) us = xs @ tsubst p u t # ys" by blast
    have dt: "distinct (tids t)" using f(2) us(1) by simp
    have ct: "tid t \<noteq> tid c" "tid c \<in> set (tids t)" using child_not_top [OF us(2) dt] by auto
    have "tid c \<notin> set (tidss xs)" "tid c \<notin> set (tidss ys)" using ct(2) f(2) us(1) by auto
    with ct(1) have "map (tdel (tid c)) (filter (\<lambda>t. tid t \<noteq> tid c) us) = xs @ tdel (tid c) t # ys"
      unfolding us(1) by (simp add: tdel_filter)
    moreover have "tdel (tid c) t = tsubst p (VDir p nm (as @ bs)) t"
      using VDir.IH [of t] us(1,2) dt by simp
    ultimately show ?thesis using False us(3) by simp
  qed
qed (simp split: if_splits)

section \<open>Names and paths\<close>

lemma boundary_below_le: "boundary_below s i \<le> i"
  by (induction i) auto

lemma cut_name_len [simp]: "length (cut_name s) < NAME_MAX"
  using boundary_below_le [of s "NAME_MAX - 1"]
  by (auto simp: cut_name_def floor_char_boundary_def NAME_MAX_def)

lemma cut_name_short: "length s < NAME_MAX \<Longrightarrow> cut_name s = s"
  by (simp add: cut_name_def floor_char_boundary_def NAME_MAX_def)

lemma cut_name_idem [simp]: "cut_name (cut_name s) = cut_name s"
  by (simp add: cut_name_short)

lemma cut_name_set: "set (cut_name s) \<subseteq> set s"
  by (simp add: cut_name_def set_take_subset)

lemma good_name_cut: "cut_name s \<noteq> [] \<Longrightarrow> slash \<notin> set s \<Longrightarrow> good_name (cut_name s)"
  using cut_name_set [of s] by (auto simp: good_name_def)

section \<open>Reading a well-formed file system\<close>

lemma wf_rep:
  assumes "vfs_wf s t"
  shows "rep (nodes s) None None t" "distinct (tids t)" "root s = tid t" "tnames_ok t"
    "\<And>n. n \<in> set (tids t) \<Longrightarrow> n < next_id s" "\<And>n. nodes s n \<noteq> None \<longleftrightarrow> n \<in> set (tids t)"
    "\<forall>n \<ge> next_id s. nodes s n = None" "tname t = []"
proof -
  show dm: "nodes s n \<noteq> None \<longleftrightarrow> n \<in> set (tids t)" for n
    using assms by (auto simp: vfs_wf_def dom_def)
  show "\<forall>n \<ge> next_id s. nodes s n = None"
    using assms dm by (meson leD vfs_wf_def)
qed (use assms in \<open>auto simp: vfs_wf_def\<close>)

lemma wf_node:
  assumes "vfs_wf s t" "n \<in> set (tids t)"
  obtains u v where "tfind n t = Some u" "tid u = n" "nodes s n = Some v" "rep (nodes s) (vparent v) (vsibling v) u"
    "vname v = tname u" "is_dir v = tdir u" "\<And>nm. find_child (nodes s) v nm = Some (tentry nm u)"
proof -
  from tfind_exists [OF assms(2)] obtain u where u: "tfind n t = Some u" by blast
  from rep_focus_node [OF wf_rep(1,2) [OF assms(1)] u] obtain v
    where v: "nodes s n = Some v" "rep (nodes s) (vparent v) (vsibling v) u" "tid u = n" by auto
  from rep_top [OF v(2)] v(1,3) have "vname v = tname u" "is_dir v = tdir u"
    "vchildren v = first_id (tkids u)" "reps (nodes s) (Some (tid u)) (tkids u)" by auto
  with u v show ?thesis by (intro that) (auto simp: find_child_def tentry_def find_from_reps)
qed

lemma tentry_Some: "tentry nm u = Some c \<Longrightarrow> \<exists>x \<in> set (tkids u). tid x = c \<and> tname x = nm"
  by (auto simp: tentry_def find_Some_iff)

lemma tentry_in: "tentry nm u = Some c \<Longrightarrow> c \<in> set (tids u)"
proof -
  assume "tentry nm u = Some c"
  then obtain x where x: "x \<in> set (tkids u)" "tid x = c" using tentry_Some by blast
  then have "set (tids x) \<subseteq> set (tids u)" by (auto simp: tids_split [of u])
  with x(2) show ?thesis by (metis subsetD tid_in_tids)
qed

lemma tentry_None: "tentry nm u = None \<longleftrightarrow> nm \<notin> tname ` set (tkids u)"
  by (auto simp: tentry_def find_None_iff)

lemma wf_tentry:
  assumes "vfs_wf s t" "tfind n t = Some u" "tentry nm u = Some c"
  shows "c \<in> set (tids t)"
  using tfind_props [OF assms(2)] tentry_in [OF assms(3)] by blast

lemma wf_parent:
  assumes "vfs_wf s t" "nodes s n = Some v" "vparent v = Some p"
  shows "p \<in> set (tids t)"
proof -
  have "n \<in> set (tids t)" using wf_rep(6) [OF assms(1), of n] assms(2) by simp
  from rep_parent [OF wf_rep(1) [OF assms(1)] this assms(2) wf_rep(2) [OF assms(1)]] assms(3)
  obtain u where "tfind p t = Some u" by auto
  from tfind_props [OF this] show ?thesis using tid_in_tids by blast
qed

lemma resolve_step_wf:
  assumes "vfs_wf s t" "n \<in> set (tids t)"
  shows "\<exists>r. resolve_step (nodes s) n c = Some r \<and> (\<forall>m. r = Some m \<longrightarrow> m \<in> set (tids t))"
proof -
  obtain u v where "tfind n t = Some u" "nodes s n = Some v" "\<And>nm. find_child (nodes s) v nm = Some (tentry nm u)"
    by (rule wf_node [OF assms]) (rule that)
  then show ?thesis
    using wf_tentry [OF assms(1)] wf_parent [OF assms(1)] assms(2)
    by (auto simp: resolve_step_def Let_def split: option.splits)
qed

lemma resolve_components_wf:
  assumes "vfs_wf s t" "n \<in> set (tids t)"
  shows "\<exists>r. resolve_components (nodes s) n cs = Some r \<and> (\<forall>m. r = Some m \<longrightarrow> m \<in> set (tids t))"
  using assms(2)
proof (induction cs arbitrary: n)
  case (Cons c cs)
  from resolve_step_wf [OF assms(1) Cons.prems, of c] obtain r
    where "resolve_step (nodes s) n c = Some r" "\<And>m. r = Some m \<Longrightarrow> m \<in> set (tids t)" by auto
  with Cons.IH show ?case by (cases r) auto
qed simp

lemma resolve_wf:
  assumes "vfs_wf s t" "b \<in> set (tids t)"
  shows "\<exists>r. resolve s b path = Some r \<and> (\<forall>m. r = Some m \<longrightarrow> m \<in> set (tids t))"
  using assms(2) wf_rep(3) [OF assms(1)] resolve_components_wf [OF assms(1)]
  by (simp add: resolve_def Let_def)

lemma parent_leaf_wf:
  assumes "vfs_wf s t" "b \<in> set (tids t)"
  shows "\<exists>r. resolve_parent_and_leaf s b path = Some r \<and> (\<forall>p leaf. r = Some (p, leaf) \<longrightarrow>
    p \<in> set (tids t) \<and> cut_name leaf = leaf \<and> (leaf \<noteq> [] \<longrightarrow> good_name leaf))"
proof -
  let ?p = "trim_end_matches slash path"
  have rt: "root s \<in> set (tids t)" using wf_rep(3) [OF assms(1)] by simp
  show ?thesis
  proof (cases "rfind slash ?p")
    case None
    then have "slash \<notin> set ?p" by (simp add: rfind_None)
    with None assms(2) show ?thesis
      by (auto simp: resolve_parent_and_leaf_def Let_def good_name_cut)
  next
    case (Some i)
    from rfind_Some [OF this] have "slash \<notin> set (drop (Suc i) ?p)" by simp
    then have leaf: "cut_name (drop (Suc i) ?p) \<noteq> [] \<Longrightarrow> good_name (cut_name (drop (Suc i) ?p))"
      by (intro good_name_cut)
    obtain r where r: "resolve s b (take i ?p) = Some r" "\<forall>m. r = Some m \<longrightarrow> m \<in> set (tids t)"
      using resolve_wf [OF assms] by blast
    with Some leaf rt show ?thesis
      by (cases i) (auto simp: resolve_parent_and_leaf_def Let_def split: option.splits)
  qed
qed

section \<open>Creating\<close>

lemma tnames_ok_tfind: "tfind p t = Some u \<Longrightarrow> tnames_ok t \<Longrightarrow> tnames_ok u"
  and tnames_ok_tfinds: "tfinds p ts = Some u \<Longrightarrow> \<forall>t \<in> set ts. tnames_ok t \<Longrightarrow> tnames_ok u"
  by (induction t and ts rule: vtree_list_induct) (auto split: if_splits option.splits)

lemma tdir_VDir: "tdir u \<Longrightarrow> u = VDir (tid u) (tname u) (tkids u)"
  by (cases u) auto

text \<open>
  A heap that holds a file-system tree, perhaps beside detached nodes: the state between the
  two pointer operations of a move.
\<close>

definition tree_ok :: "vheap \<Rightarrow> vtree \<Rightarrow> bool" where
  "tree_ok h t \<longleftrightarrow> rep h None None t \<and> distinct (tids t) \<and> tdir t \<and> tname t = [] \<and> tnames_ok t"

lemma vfs_wf_tree_ok:
  "vfs_wf s t \<longleftrightarrow> tree_ok (nodes s) t \<and> dom (nodes s) = set (tids t)
     \<and> (\<forall>n \<in> set (tids t). n < next_id s) \<and> root s = tid t"
  by (auto simp: vfs_wf_def tree_ok_def)

text \<open>Linking a detached tree under a directory adds it to the tree.\<close>

lemma link_tree_ok:
  assumes t: "tree_ok h t" and p: "tfind p t = Some u" "tdir u" "tentry (tname c) u = None"
    and c: "rep h None None c" "distinct (tids c)" "set (tids c) \<inter> set (tids t) = {}"
      "good_name (tname c)" "tnames_ok c"
  shows "\<exists>h'. link_child h p (tid c) = Some h' \<and> tree_ok h' (tadd p c t) \<and> dom h' = dom h
    \<and> set (tids (tadd p c t)) = set (tids t) \<union> set (tids c) \<and> tid (tadd p c t) = tid t"
proof -
  from t have w: "rep h None None t" "distinct (tids t)" "tdir t" "tname t = []" "tnames_ok t"
    by (simp_all add: tree_ok_def)
  from tfind_props [OF p(1)] tdir_VDir [OF p(2)] have u: "tfind p t = Some (VDir p (tname u) (tkids u))"
    using p(1) by simp
  let ?u' = "VDir p (tname u) (c # tkids u)"
  from link_child_rep [OF w(1,2) u c(1-3)] obtain h' where h: "link_child h p (tid c) = Some h'"
    "rep h' None None (tsubst p ?u' t)" "dom h' = dom h" by blast
  have sub: "set (tids u) \<subseteq> set (tids t)" "distinct (tids u)" "tid u = p"
    using tfind_props [OF p(1)] tfind_distinct [OF p(1) w(2)] by auto
  have idu: "tids ?u' = p # tids c @ tidss (tkids u)" "tids u = p # tidss (tkids u)"
    using sub(3) by (simp_all add: tids_split [of u])
  have "distinct (tids (tsubst p ?u' t)) \<and>
      set (tids (tsubst p ?u' t)) = set (tids t) - set (tids u) \<union> set (tids ?u')"
  proof (rule tids_tsubst [OF p(1) w(2)])
    show "distinct (tids ?u')" "set (tids ?u') \<inter> (set (tids t) - set (tids u)) = {}"
      using sub c(2,3) unfolding idu by auto
  qed
  then have ids: "distinct (tids (tsubst p ?u' t))" "set (tids (tsubst p ?u' t)) = set (tids t) \<union> set (tids c)"
    using sub(1) unfolding idu by auto
  have nok: "tnames_ok (tsubst p ?u' t)"
  proof (rule tnames_ok_tsubst [OF p(1) w(2,5)])
    show "tnames_ok ?u'" using tnames_ok_tfind [OF p(1) w(5)] c(4,5) p(3) tdir_VDir [OF p(2)]
      by (cases u) (auto simp: tentry_None)
  qed simp
  have "tid (tsubst p ?u' t) = tid t" by (rule tid_tsubst) simp
  moreover have "tname (tsubst p ?u' t) = []" using tname_tsubst [OF p(1), of ?u'] w(4) by simp
  ultimately show ?thesis using h ids nok tdir_tsubst [OF w(3), of ?u' p]
    unfolding tadd_tsubst [OF u w(2)] tree_ok_def by auto
qed

lemma link_built_wf:
  assumes wf: "vfs_wf s t" and p: "tfind p t = Some u" "tdir u" "tentry (tname c) u = None"
    and b: "built s c s2" "good_name (tname c)" "tnames_ok c"
  shows "\<exists>h. link_child (nodes s2) p (tid c) = Some h \<and> vfs_wf (s2\<lparr>nodes := h\<rparr>) (tadd p c t)"
proof -
  note w = wf_rep [OF wf]
  have low: "nodes s2 n = nodes s n" if "n \<in> set (tids t)" for n using b(1) w(5) [OF that] by (simp add: built_def)
  then have "rep (nodes s2) None None t = rep (nodes s) None None t" by (rule rep_cong)
  with wf have ok: "tree_ok (nodes s2) t" by (simp add: vfs_wf_tree_ok tree_ok_def)
  have cb: "rep (nodes s2) None None c" "distinct (tids c)" "set (tids c) = {next_id s..<next_id s2}"
    using b(1) by (simp_all add: built_def)
  with w(5) have disj: "set (tids c) \<inter> set (tids t) = {}" by fastforce
  from link_tree_ok [OF ok p cb(1,2) disj b(2,3)] obtain h where h: "link_child (nodes s2) p (tid c) = Some h"
    "tree_ok h (tadd p c t)" "dom h = dom (nodes s2)"
    "set (tids (tadd p c t)) = set (tids t) \<union> set (tids c)" "tid (tadd p c t) = tid t" by blast
  have "dom (nodes s2) = set (tids t) \<union> set (tids c)"
  proof (intro equalityI subsetI)
    fix n assume "n \<in> dom (nodes s2)"
    then show "n \<in> set (tids t) \<union> set (tids c)"
      using b(1) w(6) [of n] cb(3) by (cases "n < next_id s"; cases "n < next_id s2") (auto simp: built_def)
  next
    fix n assume "n \<in> set (tids t) \<union> set (tids c)"
    then show "n \<in> dom (nodes s2)" using rep_dom [OF cb(1)] low w(6) [of n] by (auto simp: subset_iff)
  qed
  moreover have "\<forall>n \<in> set (tids t) \<union> set (tids c). n < next_id s2"
    using w(5) cb(3) b(1) by (fastforce simp: built_def)
  moreover have "root s2 = tid t" using b(1) w(3) by (simp add: built_def)
  ultimately show ?thesis using h unfolding vfs_wf_tree_ok by (intro exI [of _ h]) simp
qed

text \<open>The new node of a creation, and when creating succeeds.\<close>

definition new_node :: "vnode_type \<Rightarrow> nat \<Rightarrow> bytes \<Rightarrow> vtree" where
  "new_node k n nm = (case k of Dir \<Rightarrow> VDir n nm [] | File \<Rightarrow> VFile n nm [])"

definition can_create :: "vtree \<Rightarrow> (nat \<times> bytes) option \<Rightarrow> bool" where
  "can_create t r \<longleftrightarrow> (case r of None \<Rightarrow> False | Some (p, leaf) \<Rightarrow>
     leaf \<noteq> [] \<and> (case tfind p t of None \<Rightarrow> False | Some u \<Rightarrow> tdir u \<and> tentry leaf u = None))"

lemma built_new_node:
  assumes "\<forall>n \<ge> next_id s. nodes s n = None" "cut_name nm = nm"
  shows "fst (alloc_vnode s nm k) = next_id s"
    "built s (new_node k (next_id s) nm) (snd (alloc_vnode s nm k))"
  using assms by (auto simp: alloc_vnode_def set_name_def Let_def built_def new_node_def split: vnode_type.splits)

lemma new_node_simps [simp]:
  "tid (new_node k n nm) = n" "tname (new_node k n nm) = nm" "tnames_ok (new_node k n nm)"
  by (cases k; simp add: new_node_def)+

lemma create_leaf_spec:
  assumes wf: "vfs_wf s t" "b \<in> set (tids t)"
  obtains r where "resolve_parent_and_leaf s b path = Some r"
    "\<not> can_create t r \<Longrightarrow> create_leaf s b path k = Some (False, s)"
    "\<And>p leaf. r = Some (p, leaf) \<Longrightarrow> can_create t r \<Longrightarrow> \<exists>s'. create_leaf s b path k = Some (True, s')
       \<and> vfs_wf s' (tadd p (new_node k (next_id s) leaf) t)"
proof -
  from parent_leaf_wf [OF wf] obtain r where r: "resolve_parent_and_leaf s b path = Some r"
    and pl: "\<And>p leaf. r = Some (p, leaf) \<Longrightarrow> p \<in> set (tids t) \<and> cut_name leaf = leaf
      \<and> (leaf \<noteq> [] \<longrightarrow> good_name leaf)" by blast
  show ?thesis
  proof (cases r)
    case None
    with r show ?thesis by (intro that [of r]) (auto simp: create_leaf_def can_create_def)
  next
    case (Some pr)
    obtain p leaf where pr: "pr = (p, leaf)" by (cases pr)
    with pl Some have leaf: "p \<in> set (tids t)" "cut_name leaf = leaf" "leaf \<noteq> [] \<Longrightarrow> good_name leaf" by auto
    obtain u v where u: "tfind p t = Some u" "nodes s p = Some v" "is_dir v = tdir u"
      "\<And>nm. find_child (nodes s) v nm = Some (tentry nm u)"
      by (rule wf_node [OF wf(1) leaf(1)]) (rule that)
    let ?s2 = "snd (alloc_vnode s leaf k)" and ?c = "new_node k (next_id s) leaf"
    note b = built_new_node [OF wf_rep(7) [OF wf(1)] leaf(2), of k]
    have "\<exists>s'. create_leaf s b path k = Some (True, s') \<and> vfs_wf s' (tadd p ?c t)"
      if "can_create t (Some (p, leaf))"
    proof -
      from that u(1) have c: "leaf \<noteq> []" "tdir u" "tentry leaf u = None" by (auto simp: can_create_def)
      from link_built_wf [OF wf(1) u(1) c(2) _ b(2)] c leaf(3) obtain h
        where "link_child (nodes ?s2) p (next_id s) = Some h" "vfs_wf (?s2\<lparr>nodes := h\<rparr>) (tadd p ?c t)" by auto
      with c u r Some pr b(1) show ?thesis
        by (simp add: create_leaf_def split_def Let_def)
    qed
    moreover have "create_leaf s b path k = Some (False, s)" if "\<not> can_create t (Some (p, leaf))"
      using that u r Some pr by (auto simp: create_leaf_def can_create_def)
    ultimately show ?thesis using r Some pr by (intro that [of r]) auto
  qed
qed

section \<open>Removing and moving\<close>

lemma tfind_trans:
  "tfind p t = Some u \<Longrightarrow> tfind q u = Some w \<Longrightarrow> distinct (tids t) \<Longrightarrow> tfind q t = Some w"
  and tfinds_trans:
  "tfinds p ts = Some u \<Longrightarrow> tfind q u = Some w \<Longrightarrow> distinct (tidss ts) \<Longrightarrow> tfinds q ts = Some w"
proof (induction t and ts rule: vtree_list_induct)
  case (Dir n nm ts)
  show ?case
  proof (cases "n = p")
    case False
    with Dir.prems have f: "tfinds p ts = Some u" by simp
    have "q \<in> set (tids u)" using Dir.prems(2) tfind_None_iff [of q u] by (cases "q \<in> set (tids u)") auto
    then have "q \<noteq> n" using tfinds_props [OF f] Dir.prems(3) by auto
    with Dir.IH [OF f] Dir.prems show ?thesis by simp
  qed (use Dir.prems in auto)
next
  case (Cons t ts)
  show ?case
  proof (cases "tfind p t")
    case None
    with Cons.prems have f: "tfinds p ts = Some u" by simp
    have "q \<in> set (tids u)" using Cons.prems(2) tfind_None_iff [of q u] by (cases "q \<in> set (tids u)") auto
    then have "q \<notin> set (tids t)" using tfinds_props [OF f] Cons.prems(3) by auto
    then have "tfind q t = None" by (simp add: tfind_None_iff)
    with Cons.IH(2) [OF f] Cons.prems show ?thesis by simp
  next
    case (Some w')
    with Cons show ?thesis by simp
  qed
qed (auto split: if_splits)

text \<open>A node other than the root, seen from its parent.\<close>

lemma wf_parent_split:
  assumes wf: "vfs_wf s t" "n \<in> set (tids t)" "n \<noteq> root s"
  obtains p nm as c bs v where "tfind p t = Some (VDir p nm (as @ c # bs))" "tid c = n"
    "tfind n t = Some c" "nodes s n = Some v" "vparent v = Some p"
proof -
  note w = wf_rep [OF wf(1)]
  obtain v where v: "nodes s n = Some v" using w(6) [of n] wf(2) by auto
  from rep_parent [OF w(1) wf(2) v w(2)] wf(3) w(3) obtain p u where p: "vparent v = Some p"
    "tfind p t = Some u" "tdir u" "n \<in> tid ` set (tkids u)" by auto
  from p(4) obtain c as bs where c: "tid c = n" "tkids u = as @ c # bs" by (auto dest!: split_list)
  with p(2,3) tfind_props [OF p(2)] tdir_VDir [OF p(3)]
  have u: "tfind p t = Some (VDir p (tname u) (as @ c # bs))" by simp
  have d: "distinct (tids (VDir p (tname u) (as @ c # bs)))" using tfind_distinct [OF u w(2)] .
  then have "tfinds n (as @ c # bs) = tfind n c" using c(1) by (intro tfinds_mid_eq) auto
  moreover have "n \<noteq> p" using d c(1) by auto
  ultimately have "tfind n (VDir p (tname u) (as @ c # bs)) = Some c" using c(1) by auto
  then have "tfind n t = Some c" using tfind_trans [OF u _ w(2)] by blast
  with u c(1) v p(1) show ?thesis by (intro that)
qed

lemma set_cut:
  "insert p (A \<union> C \<union> B) \<subseteq> T \<Longrightarrow> p \<notin> C \<Longrightarrow> C \<inter> (A \<union> B) = {} \<Longrightarrow>
     T - insert p (A \<union> C \<union> B) \<union> insert p (A \<union> B) = T - C"
  by auto

lemma unlink_wf:
  assumes wf: "vfs_wf s t" and p: "tfind p t = Some (VDir p nm (as @ c # bs))"
  shows "\<exists>h. unlink_child (nodes s) (Some p) (tid c) = Some h \<and> rep h None None (tdel (tid c) t)
    \<and> rep h None None c \<and> dom h = set (tids t) \<and> distinct (tids (tdel (tid c) t)) \<and> distinct (tids c)
    \<and> set (tids (tdel (tid c) t)) = set (tids t) - set (tids c) \<and> tid (tdel (tid c) t) = tid t
    \<and> tdir (tdel (tid c) t) \<and> tnames_ok (tdel (tid c) t) \<and> set (tids c) \<subseteq> set (tids t)
    \<and> tname (tdel (tid c) t) = []"
proof -
  note w = wf_rep [OF wf]
  let ?u = "VDir p nm (as @ c # bs)" and ?u' = "VDir p nm (as @ bs)"
  from unlink_child_rep [OF w(1,2) p] obtain h where h: "unlink_child (nodes s) (Some p) (tid c) = Some h"
    "rep h None None (tsubst p ?u' t)" "rep h None None c" "dom h = dom (nodes s)" by blast
  have sub: "set (tids ?u) \<subseteq> set (tids t)" "distinct (tids ?u)"
    using tfind_props [OF p] tfind_distinct [OF p w(2)] by auto
  have "distinct (tids (tsubst p ?u' t)) \<and>
      set (tids (tsubst p ?u' t)) = set (tids t) - set (tids ?u) \<union> set (tids ?u')"
    using sub by (intro tids_tsubst [OF p w(2)]) auto
  moreover have "set (tids t) - set (tids ?u) \<union> set (tids ?u') = set (tids t) - set (tids c)"
  proof -
    have e: "set (tids ?u) = insert p (set (tidss as) \<union> set (tids c) \<union> set (tidss bs))"
      "set (tids ?u') = insert p (set (tidss as) \<union> set (tidss bs))" by auto
    have "p \<notin> set (tids c)" "set (tids c) \<inter> (set (tidss as) \<union> set (tidss bs)) = {}"
      using sub(2) by auto
    with sub(1) show ?thesis unfolding e by (rule set_cut)
  qed
  moreover have "tnames_ok (tsubst p ?u' t)"
    using tnames_ok_tfind [OF p w(4)] by (intro tnames_ok_tsubst [OF p w(2,4)]) auto
  moreover have "tid (tsubst p ?u' t) = tid t" by (rule tid_tsubst) simp
  moreover have "tdir (tsubst p ?u' t)" using wf by (auto simp: vfs_wf_def intro: tdir_tsubst)
  moreover have "dom h = set (tids t)" using h(4) wf by (simp add: vfs_wf_def)
  moreover have "tname (tsubst p ?u' t) = []" using tname_tsubst [OF p, of ?u'] w(8) by simp
  moreover have "set (tids c) \<subseteq> set (tids t)" "distinct (tids c)" using sub by auto
  ultimately show ?thesis using h(1-3) tdel_tsubst [OF p w(2)] by simp
qed

definition tcontains :: "nat \<Rightarrow> nat \<Rightarrow> vtree \<Rightarrow> bool" where
  "tcontains a n t \<longleftrightarrow> (case tfind a t of None \<Rightarrow> False | Some w \<Rightarrow> n \<in> set (tids w))"

lemma is_ancestor_wf:
  assumes "vfs_wf s t" "n \<in> set (tids t)"
  shows "is_ancestor_or_self (nodes s) a (Some n) = Some (tcontains a n t)"
  using is_ancestor_top [OF wf_rep(1,2) [OF assms(1)] assms(2), of a]
  by (auto simp: tcontains_def split: option.splits)

lemma remove_spec:
  assumes wf: "vfs_wf s t" "b \<in> set (tids t)" "cwd \<in> set (tids t)"
  obtains r where "resolve s b path = Some r"
    "r = None \<or> r = Some (root s) \<or> (\<exists>n. r = Some n \<and> tcontains n cwd t) \<Longrightarrow> remove s b path (Some cwd) = Some (False, s)"
    "\<And>n. r = Some n \<Longrightarrow> n \<noteq> root s \<Longrightarrow> \<not> tcontains n cwd t \<Longrightarrow>
       \<exists>s'. remove s b path (Some cwd) = Some (True, s') \<and> vfs_wf s' (tdel n t)"
proof -
  note w = wf_rep [OF wf(1)]
  from resolve_wf [OF wf(1,2)] obtain r where r: "resolve s b path = Some r"
    "\<And>m. r = Some m \<Longrightarrow> m \<in> set (tids t)" by blast
  note anc = is_ancestor_wf [OF wf(1,3)]
  have "\<exists>s'. remove s b path (Some cwd) = Some (True, s') \<and> vfs_wf s' (tdel n t)"
    if n: "r = Some n" "n \<noteq> root s" "\<not> tcontains n cwd t" for n
  proof -
    from r(2) [OF n(1)] have nt: "n \<in> set (tids t)" .
    obtain p nm as c bs v where p: "tfind p t = Some (VDir p nm (as @ c # bs))" "tid c = n"
      "nodes s n = Some v" "vparent v = Some p"
      by (rule wf_parent_split [OF wf(1) nt n(2)]) (rule that)
    from unlink_wf [OF wf(1) p(1)] p(2) obtain h where h: "unlink_child (nodes s) (Some p) n = Some h"
      "rep h None None (tdel n t)" "rep h None None c" "dom h = set (tids t)" "distinct (tids (tdel n t))"
      "distinct (tids c)" "set (tids (tdel n t)) = set (tids t) - set (tids c)" "tid (tdel n t) = tid t"
      "tdir (tdel n t)" "tnames_ok (tdel n t)" "tname (tdel n t) = []" by blast
    let ?h = "\<lambda>m. if m \<in> set (tids c) then None else h m"
    have f: "free_tree h n = Some ?h" using free_tree_rep [OF h(3,6)] p(2) by simp
    have "rep ?h None None (tdel n t) = rep h None None (tdel n t)" using h(7) by (intro rep_cong) auto
    with h(2) have "rep ?h None None (tdel n t)" by simp
    moreover have "dom ?h = dom h - set (tids c)" by (auto split: if_splits)
    then have "dom ?h = set (tids (tdel n t))" using h(4,7) by simp
    ultimately have "vfs_wf (s\<lparr>nodes := ?h\<rparr>) (tdel n t)"
      using h(5,7-11) w(3,5) by (simp add: vfs_wf_def)
    with r(1) n p(3,4) h(1) f anc show ?thesis by (simp add: remove_def)
  qed
  moreover have "remove s b path (Some cwd) = Some (False, s)"
    if "r = None \<or> r = Some (root s) \<or> (\<exists>n. r = Some n \<and> tcontains n cwd t)"
    using that r(1) anc by (auto simp: remove_def)
  ultimately show ?thesis using r(1) by (intro that) auto
qed

text \<open>The target of a copy or move.\<close>

lemma tfind_good_name:
  "tfind n t = Some c \<Longrightarrow> tnames_ok t \<Longrightarrow> n \<noteq> tid t \<Longrightarrow> good_name (tname c)"
  and tfinds_good_name:
  "tfinds n ts = Some c \<Longrightarrow> \<forall>t \<in> set ts. good_name (tname t) \<and> tnames_ok t \<Longrightarrow> good_name (tname c)"
proof (induction t and ts rule: vtree_list_induct)
  case (Cons t ts)
  then show ?case by (cases "n = tid t") (auto split: option.splits)
qed (auto split: if_splits)

lemma wf_good_name:
  assumes "vfs_wf s t" "tfind n t = Some c" "tname c \<noteq> []"
  shows "good_name (tname c)"
proof -
  have "n \<noteq> tid t" using assms(2,3) wf_rep(8) [OF assms(1)] by auto
  with tfind_good_name [OF assms(2) wf_rep(4) [OF assms(1)]] show ?thesis .
qed

lemma resolve_target_wf:
  assumes wf: "vfs_wf s t" "b \<in> set (tids t)" and v: "tfind n t = Some c" "vname v = tname c"
  shows "\<exists>r. resolve_target s b path v = Some r \<and> (\<forall>p leaf. r = Some (p, leaf) \<longrightarrow>
    (\<exists>u. tfind p t = Some u \<and> tdir u) \<and> (leaf \<noteq> [] \<longrightarrow> good_name leaf))"
proof -
  from resolve_wf [OF wf] obtain d where d: "resolve s b path = Some d"
    "\<And>m. d = Some m \<Longrightarrow> m \<in> set (tids t)" by blast
  from parent_leaf_wf [OF wf] obtain r where r: "resolve_parent_and_leaf s b path = Some r"
    "\<And>p leaf. r = Some (p, leaf) \<Longrightarrow> p \<in> set (tids t) \<and> (leaf \<noteq> [] \<longrightarrow> good_name leaf)" by blast
  have dir: "\<exists>u w. tfind m t = Some u \<and> nodes s m = Some w \<and> is_dir w = tdir u" if "m \<in> set (tids t)" for m
    by (rule wf_node [OF wf(1) that]) blast
  have good: "vname v \<noteq> [] \<longrightarrow> good_name (vname v)" using wf_good_name [OF wf(1) v(1)] v(2) by simp
  have rest: "\<exists>x. (case r of None \<Rightarrow> Some None | Some (parent, leaf) \<Rightarrow> do {
           p \<leftarrow> nodes s parent; Some (if is_dir p then Some (parent, leaf) else None) }) = Some x \<and>
      (\<forall>p leaf. x = Some (p, leaf) \<longrightarrow> (\<exists>u. tfind p t = Some u \<and> tdir u) \<and> (leaf \<noteq> [] \<longrightarrow> good_name leaf))"
  proof (cases r)
    case (Some pr)
    with r(2) [of "fst pr" "snd pr"] dir [of "fst pr"] show ?thesis by (cases pr) auto
  qed simp
  show ?thesis
  proof (cases d)
    case None
    with d(1) r(1) rest show ?thesis by (simp add: resolve_target_def)
  next
    case (Some m)
    from dir [OF d(2) [OF Some]] obtain u w where "tfind m t = Some u" "nodes s m = Some w" "is_dir w = tdir u"
      by blast
    with Some d(1) r(1) rest good show ?thesis by (cases "is_dir w") (simp_all add: resolve_target_def)
  qed
qed

section \<open>Copying\<close>

fun fname :: "ftree \<Rightarrow> bytes" where
  "fname (FFile nm d) = nm"
| "fname (FDir nm ts) = nm"

fun fnames_ok :: "ftree \<Rightarrow> bool" where
  "fnames_ok (FFile nm d) = True"
| "fnames_ok (FDir nm ts) = (distinct (map fname ts) \<and> (\<forall>t \<in> set ts. good_name (fname t) \<and> fnames_ok t))"

lemma fname_erase [simp]: "fname (erase t) = tname t"
  by (cases t) auto

lemma fname_mirror [simp]: "fname (mirror t) = fname t"
  by (cases t) auto

lemma fname_frename [simp]: "fname (frename nm t) = nm" "fnames_ok (frename nm t) = fnames_ok t"
  by (cases t; simp)+

lemma fnames_ok_erase: "fnames_ok (erase t) = tnames_ok t"
  by (induction t) (auto simp: comp_def)

lemma fnames_ok_mirror: "fnames_ok (mirror t) = fnames_ok t"
  by (induction t) (auto simp: comp_def rev_map [symmetric])

lemma erase_copy_names:
  assumes "erase c' = frename leaf (mirror (erase c))" "tnames_ok c"
  shows "tname c' = leaf" "tnames_ok c'"
  using assms fname_erase [of c'] fnames_ok_erase [of c'] by (simp_all add: fnames_ok_mirror fnames_ok_erase)

text \<open>When a target can take node \<open>n\<close>, whose tree is \<open>c\<close>; a move may also reuse the node's own entry.\<close>

definition can_place :: "vtree \<Rightarrow> nat \<Rightarrow> vtree \<Rightarrow> nat option set \<Rightarrow> (nat \<times> bytes) option \<Rightarrow> bool" where
  "can_place t n c free r \<longleftrightarrow> (case r of None \<Rightarrow> False | Some (p, leaf) \<Rightarrow>
     leaf \<noteq> [] \<and> (case tfind p t of None \<Rightarrow> False | Some u \<Rightarrow> tentry leaf u \<in> free)
     \<and> \<not> (tdir c \<and> tcontains n p t))"

lemma tcontains_Some [simp]: "tfind n t = Some c \<Longrightarrow> tcontains n p t \<longleftrightarrow> p \<in> set (tids c)"
  by (simp add: tcontains_def)

lemma copy_spec:
  assumes wf: "vfs_wf s t" "b \<in> set (tids t)" and src: "resolve s b src = Some (Some n)"
    and c: "tfind n t = Some c" and v: "nodes s n = Some v"
  obtains r where "resolve_target s b dest v = Some r"
    "\<not> can_place t n c {None} r \<Longrightarrow> copy s b src dest = Some (False, s)"
    "\<And>p leaf. r = Some (p, leaf) \<Longrightarrow> can_place t n c {None} r \<Longrightarrow>
       \<exists>s' c'. copy s b src dest = Some (True, s') \<and> erase c' = frename leaf (mirror (erase c))
         \<and> set (tids c') = {next_id s..<next_id s'} \<and> vfs_wf s' (tadd p c' t)"
proof -
  note w = wf_rep [OF wf(1)]
  have nt: "n \<in> set (tids t)" using tfind_props [OF c] tid_in_tids by blast
  have cv: "rep (nodes s) (vparent v) (vsibling v) c" "vname v = tname c" "is_dir v = tdir c" "tid c = n"
    by (rule wf_node [OF wf(1) nt]; use c v in simp)+
  from resolve_target_wf [OF wf c cv(2)] obtain r where r: "resolve_target s b dest v = Some r"
    and rp: "\<And>p leaf. r = Some (p, leaf) \<Longrightarrow> (\<exists>u. tfind p t = Some u \<and> tdir u) \<and> (leaf \<noteq> [] \<longrightarrow> good_name leaf)"
    by blast
  show ?thesis
  proof (cases r)
    case None
    with r src v show ?thesis by (intro that [of r]) (auto simp: copy_def can_place_def)
  next
    case (Some pr)
    obtain p leaf where pr: "pr = (p, leaf)" by (cases pr)
    with rp Some obtain u where u: "tfind p t = Some u" "tdir u" "leaf \<noteq> [] \<Longrightarrow> good_name leaf" by blast
    have pt: "p \<in> set (tids t)" using tfind_props [OF u(1)] tid_in_tids by blast
    obtain vp where vp: "nodes s p = Some vp" "\<And>nm. find_child (nodes s) vp nm = Some (tentry nm u)"
      by (rule wf_node [OF wf(1) pt]) (use u(1) that in simp)
    have "\<exists>s' c'. copy s b src dest = Some (True, s') \<and> erase c' = frename leaf (mirror (erase c))
         \<and> set (tids c') = {next_id s..<next_id s'} \<and> vfs_wf s' (tadd p c' t)"
      if "can_place t n c {None} (Some (p, leaf))"
    proof -
      from that u(1) c have can: "leaf \<noteq> []" "tentry leaf u = None" "\<not> (tdir c \<and> p \<in> set (tids c))"
        by (auto simp: can_place_def)
      have cut: "cut_name leaf = leaf" using u(3) can(1) by (simp add: good_name_def)
      have sub: "set (tids c) \<subseteq> set (tids t)" using tfind_props [OF c] by simp
      from copy_recursive_rep [OF cv(1) _ tnames_ok_tfind [OF c w(4)] w(7), of leaf] sub w(5)
      obtain c' s2 where c': "copy_recursive s n leaf = Some (tid c', s2)" "built s c' s2"
        "erase c' = frename leaf (mirror (erase c))" by (auto simp: cv(4) cut)
      note nm = erase_copy_names [OF c'(3) tnames_ok_tfind [OF c w(4)]]
      from link_built_wf [OF wf(1) u(1,2) _ c'(2) _ nm(2)] nm(1) can u(3) obtain h
        where h: "link_child (nodes s2) p (tid c') = Some h" "vfs_wf (s2\<lparr>nodes := h\<rparr>) (tadd p c' t)" by auto
      have "copy s b src dest = Some (True, s2\<lparr>nodes := h\<rparr>)"
        using src v r Some pr can vp c'(1) h(1) cv(3) is_ancestor_wf [OF wf(1) pt, of n] c
        by (auto simp: copy_def)
      with c'(2,3) h(2) show ?thesis by (intro exI [of _ "s2\<lparr>nodes := h\<rparr>"] exI [of _ c']) (simp add: built_def)
    qed
    moreover have "copy s b src dest = Some (False, s)" if "\<not> can_place t n c {None} (Some (p, leaf))"
      using that src v r Some pr vp cv(3) is_ancestor_wf [OF wf(1) pt, of n] u(1)
      by (auto simp: copy_def can_place_def)
    ultimately show ?thesis using r Some pr by (intro that [of r]) auto
  qed
qed

section \<open>Moving\<close>

lemma tdel_top [simp]: "tid (tdel n t) = tid t" "tname (tdel n t) = tname t" "tdir (tdel n t) = tdir t"
  "tkids (tdel n t) = map (tdel n) (filter (\<lambda>t. tid t \<noteq> n) (tkids t))"
  by (cases t; simp)+

lemma tids_tdel: "set (tids (tdel n t)) \<subseteq> set (tids t)"
  by (induction t) (auto; blast)+

lemma tfind_tdel:
  "tfind p t = Some u \<Longrightarrow> distinct (tids t) \<Longrightarrow> \<forall>w. tfind n t = Some w \<longrightarrow> p \<notin> set (tids w) \<Longrightarrow>
     tfind p (tdel n t) = Some (tdel n u)"
  and tfinds_tdel:
  "tfinds p ts = Some u \<Longrightarrow> distinct (tidss ts) \<Longrightarrow> \<forall>w. tfinds n ts = Some w \<longrightarrow> p \<notin> set (tids w) \<Longrightarrow>
     tfinds p (map (tdel n) (filter (\<lambda>t. tid t \<noteq> n) ts)) = Some (tdel n u)"
proof (induction t and ts rule: vtree_list_induct)
  case (Dir m nm ts)
  have "n \<noteq> m" if "m \<noteq> p"
  proof
    assume "n = m"
    with Dir.prems(3) have "p \<notin> set (tids (VDir m nm ts))" by simp
    then show False using tfind_None_iff Dir.prems(1) by (metis option.distinct(1))
  qed
  with Dir show ?case by (cases "m = p") auto
next
  case (Cons t ts)
  have pin: "p \<in> set (tidss (t # ts))"
    using Cons.prems(1) tfinds_None_iff [of p "t # ts"] by (metis option.distinct(1))
  show ?case
  proof (cases "p \<in> set (tids t)")
    case True
    then have "tfind p t = Some u"
      using Cons.prems(1) tfind_None_iff [of p t] by (auto split: option.splits)
    moreover have "tid t \<noteq> n" using Cons.prems(3) True by auto
    moreover have "\<forall>w. tfind n t = Some w \<longrightarrow> p \<notin> set (tids w)" using Cons.prems(3) by simp
    ultimately show ?thesis using Cons.IH(1) Cons.prems(2) by simp
  next
    case False
    then have f: "tfind p t = None" "tfinds p ts = Some u"
      using Cons.prems(1) tfind_None_iff [of p t] by (auto split: option.splits)
    have "p \<notin> set (tids w)" if "tfinds n ts = Some w" for w
    proof (cases "tfind n t")
      case None
      with Cons.prems(3) that show ?thesis by simp
    next
      case (Some x)
      then have "n \<in> set (tids t)" using tfind_props tid_in_tids by blast
      moreover have "n \<in> set (tidss ts)" using tfinds_props [OF that] tid_in_tids by blast
      ultimately show ?thesis using Cons.prems(2) by auto
    qed
    then have "tfinds p (map (tdel n) (filter (\<lambda>t. tid t \<noteq> n) ts)) = Some (tdel n u)"
      using Cons.IH(2) [OF f(2)] Cons.prems(2) by simp
    moreover have "tfind p (tdel n t) = None" using False tids_tdel by (auto simp: tfind_None_iff)
    ultimately show ?thesis by simp
  qed
qed (auto split: if_splits)

lemma tentry_tdel:
  assumes "tnames_ok u" "tentry nm u \<in> {None, Some n}"
  shows "tentry nm (tdel n u) = None"
proof -
  have "tid x = n" if x: "x \<in> set (tkids u)" "tname x = nm" for x
  proof -
    from x assms(2) obtain y where y: "y \<in> set (tkids u)" "tid y = n" "tname y = nm"
      using tentry_Some [of nm u n] by (auto simp: tentry_None)
    have "distinct (map tname (tkids u))" using assms(1) by (cases u) auto
    with x y show ?thesis by (auto simp: distinct_map inj_on_def)
  qed
  then show ?thesis by (auto simp: tentry_None)
qed

lemma trename_simps [simp]: "tid (trename nm c) = tid c" "tname (trename nm c) = nm"
  "tids (trename nm c) = tids c" "tnames_ok (trename nm c) = tnames_ok c"
  by (cases c; simp)+

lemma set_name_rep:
  assumes "rep h None None c" "distinct (tids c)" "h (tid c) = Some v" "cut_name nm = nm"
  shows "rep (h(tid c \<mapsto> set_name v nm)) None None (trename nm c)"
proof (cases c)
  case (VDir n dn ts)
  with assms(2) have "reps (h(n \<mapsto> w)) (Some n) ts = reps h (Some n) ts" for w by (intro reps_cong) auto
  with VDir assms show ?thesis by (auto simp: set_name_def)
qed (use assms in \<open>auto simp: set_name_def\<close>)

text \<open>The pointer work of a move, once the checks have passed.\<close>

lemma move_links:
  assumes wf: "vfs_wf s t" and n: "n \<in> set (tids t)" "n \<noteq> root s" and c: "tfind n t = Some c"
    and v: "nodes s n = Some v" and u: "tfind p t = Some u" "tdir u" "p \<notin> set (tids c)"
    and leaf: "good_name leaf" "tentry leaf u \<in> {None, Some n}"
  shows "\<exists>h w h'. unlink_child (nodes s) (vparent v) n = Some h \<and> h n = Some w
    \<and> link_child (h(n \<mapsto> set_name w leaf)) p n = Some h'
    \<and> vfs_wf (s\<lparr>nodes := h'\<rparr>) (tadd p (trename leaf c) (tdel n t))"
proof -
  note w = wf_rep [OF wf]
  obtain q nm as bs where q: "tfind q t = Some (VDir q nm (as @ c # bs))" "tid c = n" "vparent v = Some q"
    by (rule wf_parent_split [OF wf n]) (use c v that in auto)
  from unlink_wf [OF wf q(1)] q(2) obtain h where h: "unlink_child (nodes s) (Some q) n = Some h"
    "rep h None None (tdel n t)" "rep h None None c" "dom h = set (tids t)" "distinct (tids (tdel n t))"
    "distinct (tids c)" "set (tids (tdel n t)) = set (tids t) - set (tids c)"
    "tdir (tdel n t)" "tnames_ok (tdel n t)" "set (tids c) \<subseteq> set (tids t)" "tname (tdel n t) = []" by blast
  from rep_top [OF h(3)] q(2) obtain x where x: "h n = Some x" by blast
  let ?h = "h(n \<mapsto> set_name x leaf)" and ?c = "trename leaf c"
  have cut: "cut_name leaf = leaf" using leaf(1) by (simp add: good_name_def)
  have rc: "rep ?h None None ?c" using set_name_rep [OF h(3,6) _ cut] x q(2) by auto
  have nc: "n \<in> set (tids c)" using q(2) tid_in_tids [of c] by simp
  then have "rep ?h None None (tdel n t) = rep h None None (tdel n t)" using h(7) by (intro rep_cong) auto
  then have ok: "tree_ok ?h (tdel n t)" using h by (simp add: tree_ok_def)
  have u1: "tfind p (tdel n t) = Some (tdel n u)" using tfind_tdel [OF u(1) w(2)] c u(3) by simp
  have e: "tentry (tname ?c) (tdel n u) = None"
    using tentry_tdel [OF tnames_ok_tfind [OF u(1) w(4)] leaf(2)] by simp
  have "tnames_ok ?c" using tnames_ok_tfind [OF c w(4)] by simp
  then obtain h' where h': "link_child ?h p (tid ?c) = Some h'" "tree_ok h' (tadd p ?c (tdel n t))"
    "dom h' = dom ?h" "set (tids (tadd p ?c (tdel n t))) = set (tids (tdel n t)) \<union> set (tids ?c)"
    "tid (tadd p ?c (tdel n t)) = tid (tdel n t)"
    using link_tree_ok [OF ok u1 _ e rc] u(2) h(6,7) leaf(1) by auto
  have "dom ?h = set (tids t)" using h(4,10) nc by auto
  then have "vfs_wf (s\<lparr>nodes := h'\<rparr>) (tadd p ?c (tdel n t))"
    using h' h(7,10) w(3,5) unfolding vfs_wf_tree_ok by auto
  with h(1) h'(1) x q(2,3) show ?thesis by auto
qed

lemma move_spec:
  assumes wf: "vfs_wf s t" "b \<in> set (tids t)" and src: "resolve s b src = Some (Some n)" "n \<noteq> root s"
    and c: "tfind n t = Some c" and v: "nodes s n = Some v"
  obtains r where "resolve_target s b dest v = Some r"
    "\<not> can_place t n c {None, Some n} r \<Longrightarrow> move_node s b src dest = Some (False, s)"
    "\<And>p leaf. r = Some (p, leaf) \<Longrightarrow> can_place t n c {None, Some n} r \<Longrightarrow>
       \<exists>s'. move_node s b src dest = Some (True, s') \<and> vfs_wf s' (tadd p (trename leaf c) (tdel n t))"
proof -
  have nt: "n \<in> set (tids t)" using tfind_props [OF c] tid_in_tids by blast
  have cv: "vname v = tname c" "is_dir v = tdir c" "tid c = n"
    by (rule wf_node [OF wf(1) nt]; use c v in simp)+
  from resolve_target_wf [OF wf c cv(1)] obtain r where r: "resolve_target s b dest v = Some r"
    and rp: "\<And>p leaf. r = Some (p, leaf) \<Longrightarrow> (\<exists>u. tfind p t = Some u \<and> tdir u) \<and> (leaf \<noteq> [] \<longrightarrow> good_name leaf)"
    by blast
  show ?thesis
  proof (cases r)
    case None
    with r src v show ?thesis by (intro that [of r]) (auto simp: move_node_def can_place_def)
  next
    case (Some pr)
    obtain p leaf where pr: "pr = (p, leaf)" by (cases pr)
    with rp Some obtain u where u: "tfind p t = Some u" "tdir u" "leaf \<noteq> [] \<Longrightarrow> good_name leaf" by blast
    have pt: "p \<in> set (tids t)" using tfind_props [OF u(1)] tid_in_tids by blast
    obtain vp where vp: "nodes s p = Some vp" "\<And>nm. find_child (nodes s) vp nm = Some (tentry nm u)"
      by (rule wf_node [OF wf(1) pt]) (use u(1) that in simp)
    note anc = is_ancestor_wf [OF wf(1) pt, of n]
    have "\<exists>s'. move_node s b src dest = Some (True, s') \<and> vfs_wf s' (tadd p (trename leaf c) (tdel n t))"
      if "can_place t n c {None, Some n} (Some (p, leaf))"
    proof -
      from that u(1) c have can: "leaf \<noteq> []" "tentry leaf u \<in> {None, Some n}" "\<not> (tdir c \<and> p \<in> set (tids c))"
        by (auto simp: can_place_def)
      have "p \<notin> set (tids c)"
      proof (cases c)
        case (VFile m nm d)
        then have "p \<noteq> n" using u(1,2) c by auto
        then show ?thesis using VFile cv(3) by simp
      qed (use can in simp)
      from move_links [OF wf(1) nt src(2) c v u(1,2) this u(3) [OF can(1)] can(2)] obtain h x h' where
        "unlink_child (nodes s) (vparent v) n = Some h" "h n = Some x"
        "link_child (h(n \<mapsto> set_name x leaf)) p n = Some h'"
        "vfs_wf (s\<lparr>nodes := h'\<rparr>) (tadd p (trename leaf c) (tdel n t))" by blast
      moreover from this have "move_node s b src dest = Some (True, s\<lparr>nodes := h'\<rparr>)"
        using src v r Some pr can vp cv(2) anc c by (auto simp: move_node_def)
      ultimately show ?thesis by blast
    qed
    moreover have "move_node s b src dest = Some (False, s)" if "\<not> can_place t n c {None, Some n} (Some (p, leaf))"
      using that src v r Some pr vp cv(2) anc u(1)
      by (auto simp: move_node_def can_place_def)
    ultimately show ?thesis using r Some pr by (intro that [of r]) auto
  qed
qed

section \<open>Writing and reading\<close>

lemma write_data_wf:
  assumes wf: "vfs_wf s t" and n: "tfind n t = Some u" "\<not> tdir u" and v: "nodes s n = Some v"
  shows "vfs_wf (s\<lparr>nodes := (nodes s)(n \<mapsto> v\<lparr>vdata := d\<rparr>)\<rparr>) (tput n d t)"
proof -
  note w = wf_rep [OF wf]
  let ?h = "(nodes s)(n \<mapsto> v\<lparr>vdata := d\<rparr>)"
  from n tfind_props [OF n(1)] obtain nm d0 where u: "u = VFile n nm d0" by (cases u) auto
  have nt: "n \<in> set (tids t)" using tfind_props [OF n(1)] tid_in_tids by blast
  from rep_focus [OF w(1,2) n(1)] v u obtain v' where v': "v' = v" "rep (nodes s) (vparent v) (vsibling v) (VFile n nm d0)"
    and put: "\<forall>h' u'. (\<forall>m \<in> set (tids t) - set (tids u). h' m = nodes s m) \<and> rep h' (vparent v) (vsibling v) u'
       \<and> tid u' = n \<longrightarrow> rep h' None None (tsubst n u' t)" by auto
  have "v = \<lparr>vname = nm, vkind = File, vparent = vparent v, vchildren = None, vsibling = vsibling v, vdata = d0\<rparr>"
    using v'(2) v by simp
  then have "rep ?h (vparent v) (vsibling v) (VFile n nm d)" by (cases v) simp
  then have "rep ?h None None (tsubst n (VFile n nm d) t)"
    by (intro put [rule_format] conjI ballI) (auto simp: u)
  moreover have "distinct (tids (tsubst n (VFile n nm d) t)) \<and>
      set (tids (tsubst n (VFile n nm d) t)) = set (tids t) - set (tids u) \<union> set (tids (VFile n nm d))"
    by (intro tids_tsubst [OF n(1) w(2)]) (auto simp: u)
  moreover have "tnames_ok (tsubst n (VFile n nm d) t)"
    by (intro tnames_ok_tsubst [OF n(1) w(2,4)]) (auto simp: u)
  moreover have "tdir t" using wf by (simp add: vfs_wf_def)
  then have "tdir (tsubst n (VFile n nm d) t)" "tname (tsubst n (VFile n nm d) t) = tname t"
    "tid (tsubst n (VFile n nm d) t) = tid t"
    using n(1) u by (cases t; auto)+
  moreover have "dom ?h = set (tids t)" using wf nt by (auto simp: vfs_wf_def)
  ultimately show ?thesis
    using tput_tsubst [of n t nm d0 d] n(1) u w(2,3,5,8) nt by (auto simp: vfs_wf_def)
qed

text \<open>Writing a file does not change where paths lead.\<close>

lemma tput_top [simp]: "tid (tput n d t) = tid t" "tname (tput n d t) = tname t" "tdir (tput n d t) = tdir t"
  "tkids (tput n d t) = map (tput n d) (tkids t)"
  by (cases t; simp)+

lemma tfind_tput: "tfind m (tput n d t) = map_option (tput n d) (tfind m t)"
  and tfinds_tput: "tfinds m (map (tput n d) ts) = map_option (tput n d) (tfinds m ts)"
  by (induction t and ts rule: vtree_list_induct) (auto split: option.splits)

lemma tids_tput [simp]: "tids (tput n d t) = tids t"
  by (induction t) (auto intro!: arg_cong [of _ _ concat])

lemma tentry_tput [simp]: "tentry nm (tput n d u) = tentry nm u"
proof -
  have "map_option tid (find (\<lambda>t. tname t = nm) (map (tput n d) ts)) = map_option tid (find (\<lambda>t. tname t = nm) ts)" for ts
    by (induction ts) auto
  then show ?thesis by (simp add: tentry_def)
qed

lemma resolve_step_write:
  assumes wf: "vfs_wf s t" and v: "nodes s n = Some v" "tfind n t = Some u" "\<not> tdir u" and m: "m \<in> set (tids t)"
  shows "resolve_step ((nodes s)(n \<mapsto> v\<lparr>vdata := d\<rparr>)) m cmp = resolve_step (nodes s) m cmp"
proof -
  let ?s = "s\<lparr>nodes := (nodes s)(n \<mapsto> v\<lparr>vdata := d\<rparr>)\<rparr>"
  have wf': "vfs_wf ?s (tput n d t)" using write_data_wf [OF wf v(2,3,1)] .
  obtain x y where x: "tfind m t = Some x" "nodes s m = Some y" "is_dir y = tdir x"
      "\<And>nm. find_child (nodes s) y nm = Some (tentry nm x)" by (rule wf_node [OF wf m]) (rule that)
  have m': "m \<in> set (tids (tput n d t))" using m by simp
  obtain x' y' where x': "tfind m (tput n d t) = Some x'" "nodes ?s m = Some y'" "is_dir y' = tdir x'"
      "\<And>nm. find_child (nodes ?s) y' nm = Some (tentry nm x')" by (rule wf_node [OF wf' m']) (rule that)
  have "x' = tput n d x" using x(1) x'(1) by (simp add: tfind_tput)
  moreover have "vparent y' = vparent y" using x(2) x'(2) v(1) by (auto split: if_splits)
  ultimately show ?thesis using x x' by (simp add: resolve_step_def Let_def)
qed

lemma resolve_write:
  assumes "vfs_wf s t" "nodes s n = Some v" "tfind n t = Some u" "\<not> tdir u" "b \<in> set (tids t)"
  shows "resolve (s\<lparr>nodes := (nodes s)(n \<mapsto> v\<lparr>vdata := d\<rparr>)\<rparr>) b path = resolve s b path"
proof -
  have "resolve_components ((nodes s)(n \<mapsto> v\<lparr>vdata := d\<rparr>)) m cs = resolve_components (nodes s) m cs"
    if "m \<in> set (tids t)" for m cs
    using that
  proof (induction cs arbitrary: m)
    case (Cons c cs)
    from resolve_step_wf [OF assms(1) Cons.prems, of c] obtain r
      where "resolve_step (nodes s) m c = Some r" "\<And>m. r = Some m \<Longrightarrow> m \<in> set (tids t)" by auto
    with Cons.IH resolve_step_write [OF assms(1-4) Cons.prems, of d c] show ?case
      by (cases r) (auto simp del: fun_upd_apply)
  qed simp
  moreover have "root s \<in> set (tids t)" using wf_rep(3) [OF assms(1)] by simp
  ultimately show ?thesis using assms(5) by (simp add: resolve_def Let_def)
qed

end
