(* ===== verification/VfsPath.thy ===== *)
theory VfsPath
  imports VfsOps
begin

text \<open>
  Path resolution of \<^verbatim>\<open>kernel/src/fs/vfs.rs\<close> as a function on trees: \<open>tresolve\<close> walks the
  components of a path down the tree and up through parents, and the pointer walk of the code
  computes exactly it. On top of it: creating a node makes its path resolve to it, the
  absolute path of a node leads back to it, and reading a file returns what was written.
\<close>

section \<open>Resolution on trees\<close>

fun tpar :: "nat \<Rightarrow> vtree \<Rightarrow> nat option" and tpars :: "nat \<Rightarrow> vtree list \<Rightarrow> nat option" where
  "tpar n (VFile m nm d) = None"
| "tpar n (VDir m nm ts) = (if n \<in> set (map tid ts) then Some m else tpars n ts)"
| "tpars n [] = None"
| "tpars n (t # ts) = (case tpar n t of Some p \<Rightarrow> Some p | None \<Rightarrow> tpars n ts)"

definition tstep :: "vtree \<Rightarrow> nat \<Rightarrow> bytes \<Rightarrow> nat option" where
  "tstep t cur component =
     (let component = cut_name component
      in if component = [] \<or> component = ascii ''.'' then Some cur
         else if component = ascii ''..'' then Some (case tpar cur t of None \<Rightarrow> cur | Some p \<Rightarrow> p)
         else case tfind cur t of None \<Rightarrow> None
              | Some u \<Rightarrow> if tdir u then tentry component u else None)"

fun tsteps :: "vtree \<Rightarrow> nat \<Rightarrow> bytes list \<Rightarrow> nat option" where
  "tsteps t cur [] = Some cur"
| "tsteps t cur (c # cs) = (case tstep t cur c of None \<Rightarrow> None | Some n \<Rightarrow> tsteps t n cs)"

definition tresolve :: "vtree \<Rightarrow> nat \<Rightarrow> bytes \<Rightarrow> nat option" where
  "tresolve t b path = tsteps t (if starts_with_slash path then tid t else b) (split_on slash path)"

lemma tid_in_tidss: "x \<in> set ts \<Longrightarrow> tid x \<in> set (tidss ts)"
  using tid_in_tids [of x] by (simp del: tid_in_tids) blast

lemma tpar_in: "tpar n t = Some p \<Longrightarrow> n \<in> set (tidss (tkids t))"
  and tpars_in: "tpars n ts = Some p \<Longrightarrow> n \<in> set (tidss ts)"
proof (induction t and ts rule: vtree_list_induct)
  case (Dir m nm ts)
  then show ?case using tid_in_tidss [of _ ts] by (auto split: if_splits simp del: set_concat)
next
  case (Cons t ts)
  have "set (tidss (tkids t)) \<subseteq> set (tids t)" by (auto simp: tids_split [of t])
  with Cons show ?case by (auto split: option.splits simp del: set_concat)
qed auto

lemma tpar_notin: "n \<notin> set (tids t) \<Longrightarrow> tpar n t = None"
  and tpars_notin: "n \<notin> set (tidss ts) \<Longrightarrow> tpars n ts = None"
  using tpar_in [of n t] tpars_in [of n ts] tids_split [of t]
  by (cases "tpar n t"; cases "tpars n ts"; auto)+

lemma tpars_mid:
  assumes "n \<in> set (tids t)" "distinct (tidss (as @ t # bs))"
  shows "tpars n (as @ t # bs) = (case tpar n t of None \<Rightarrow> None | Some p \<Rightarrow> Some p)"
  using assms
proof (induction as)
  case Nil
  then have "n \<notin> set (tidss bs)" by auto
  then have "tpars n bs = None" by (rule tpars_notin)
  then show ?case by (auto split: option.splits)
next
  case (Cons a as)
  then have "n \<notin> set (tids a)" by auto
  then have "tpar n a = None" by (rule tpar_notin)
  with Cons show ?case by simp
qed

lemma tid_unique:
  assumes "distinct (tidss (as @ t # bs))" "n \<in> set (tids t)" "x \<in> set (as @ t # bs)" "tid x = n"
  shows "x = t"
proof (rule ccontr)
  assume "x \<noteq> t"
  with assms(3) have "x \<in> set as \<union> set bs" by auto
  then have "set (tids x) \<subseteq> set (tidss as) \<union> set (tidss bs)" by auto
  moreover have "n \<in> set (tids x)" using assms(4) tid_in_tids [of x] by simp
  ultimately have "n \<in> set (tidss as) \<or> n \<in> set (tidss bs)" by blast
  then show False using assms(1,2) by auto
qed

lemma tpar_rep:
  assumes "rep h par sib t" "distinct (tids t)" "n \<in> set (tids t)" "h n = Some v"
  shows "vparent v = (if n = tid t then par else tpar n t) \<and> (n \<noteq> tid t \<longrightarrow> tpar n t \<noteq> None)"
  using assms
proof (induction t arbitrary: par sib)
  case (VDir m nm ts)
  show ?case
  proof (cases "n = m")
    case False
    with VDir.prems obtain as t bs where ts: "ts = as @ t # bs" and n: "n \<in> set (tids t)"
      by (auto dest!: split_list)
    from VDir.prems ts have rt: "rep h (Some m) (first_id bs) t" and d: "distinct (tids t)"
      and ds: "distinct (tidss (as @ t # bs))" by (auto dest: reps_mid)
    from VDir.IH [of t, OF _ rt d n VDir.prems(4)] ts
    have ih: "vparent v = (if n = tid t then Some m else tpar n t) \<and> (n \<noteq> tid t \<longrightarrow> tpar n t \<noteq> None)" by simp
    have "n \<in> set (map tid ts) \<longleftrightarrow> n = tid t"
      using tid_unique [OF ds n] ts by auto
    with ih False tpars_mid [OF n ds] ts show ?thesis by (auto split: option.splits)
  qed (use VDir.prems in auto)
qed auto

lemma resolve_step_tree:
  assumes wf: "vfs_wf s t" and n: "n \<in> set (tids t)"
  shows "resolve_step (nodes s) n c = Some (tstep t n c)"
proof -
  note w = wf_rep [OF wf]
  obtain u v where u: "tfind n t = Some u" "nodes s n = Some v" "is_dir v = tdir u"
    "\<And>nm. find_child (nodes s) v nm = Some (tentry nm u)" by (rule wf_node [OF wf n]) (rule that)
  have "vparent v = (if n = tid t then None else tpar n t)" using tpar_rep [OF w(1,2) n u(2)] by simp
  moreover have "tpar (tid t) t = None"
  proof (cases "tpar (tid t) t")
    case (Some p)
    then have "tid t \<in> set (tidss (tkids t))" by (rule tpar_in)
    then show ?thesis using w(2) by (simp add: tids_split [of t])
  qed
  ultimately have "vparent v = tpar n t" by auto
  with u show ?thesis by (simp add: resolve_step_def tstep_def Let_def)
qed

lemma tstep_in: "vfs_wf s t \<Longrightarrow> n \<in> set (tids t) \<Longrightarrow> tstep t n c = Some m \<Longrightarrow> m \<in> set (tids t)"
  using resolve_step_wf [of s t n c] by (simp add: resolve_step_tree)

lemma resolve_components_tree:
  assumes wf: "vfs_wf s t" and n: "n \<in> set (tids t)"
  shows "resolve_components (nodes s) n cs = Some (tsteps t n cs)"
  using n
proof (induction cs arbitrary: n)
  case (Cons c cs)
  with resolve_step_tree [OF wf Cons.prems, of c] tstep_in [OF wf Cons.prems, of c] show ?case
    by (auto split: option.splits)
qed simp

lemma resolve_tree:
  assumes wf: "vfs_wf s t" and b: "b \<in> set (tids t)"
  shows "resolve s b path = Some (tresolve t b path)"
  using resolve_components_tree [OF wf] b wf_rep(3) [OF wf]
  by (simp add: resolve_def tresolve_def Let_def)

section \<open>Splitting paths\<close>

lemma split_on_plain: "c \<notin> set s \<Longrightarrow> split_on c s = [s]"
  by (induction s) auto

lemma split_on_ne [simp]: "split_on c s \<noteq> []"
  by (induction s) (auto split: list.splits)

lemma split_on_append: "split_on c (a @ c # b) = split_on c a @ split_on c b"
  by (induction a) (auto split: list.splits)

lemma split_on_trailing: "split_on c (s @ replicate k c) = split_on c s @ replicate k []"
proof (induction k arbitrary: s)
  case (Suc k)
  have "s @ replicate (Suc k) c = (s @ [c]) @ replicate k c" by simp
  with Suc [of "s @ [c]"] show ?case by (simp add: split_on_append)
qed simp

lemma trim_end_split: "\<exists>k. s = trim_end_matches c s @ replicate k c"
proof -
  have "rev s = takeWhile (\<lambda>x. x = c) (rev s) @ dropWhile (\<lambda>x. x = c) (rev s)" by simp
  then have "s = rev (dropWhile (\<lambda>x. x = c) (rev s)) @ rev (takeWhile (\<lambda>x. x = c) (rev s))"
    by (metis rev_append rev_rev_ident)
  moreover have "rev (takeWhile (\<lambda>x. x = c) (rev s)) = replicate (length (takeWhile (\<lambda>x. x = c) (rev s))) c"
    by (rule replicate_eqI) (auto dest: set_takeWhileD)
  ultimately show ?thesis by (metis trim_end_matches_def)
qed

lemma rfind_split: "rfind c s = Some i \<Longrightarrow> s = take i s @ c # drop (Suc i) s"
  by (induction s arbitrary: i) (auto simp: rfind_None split: option.splits if_splits)

lemma tsteps_append: "tsteps t n (cs @ ds) = (case tsteps t n cs of None \<Rightarrow> None | Some m \<Rightarrow> tsteps t m ds)"
  by (induction cs arbitrary: n) (auto split: option.splits)

lemma tsteps_empties [simp]: "tsteps t n (replicate k []) = Some n"
proof (induction k)
  case (Suc k)
  have "cut_name [] = []" by (rule cut_name_short) (simp add: NAME_MAX_def)
  with Suc show ?case by (simp add: tstep_def)
qed simp

section \<open>Resolution after adding a node\<close>

lemma tfind_tadd:
  "distinct (tids t) \<Longrightarrow> n \<notin> set (tids c) \<Longrightarrow> tfind n (tadd p c t) = map_option (tadd p c) (tfind n t)"
  and tfinds_tadd:
  "distinct (tidss ts) \<Longrightarrow> n \<notin> set (tids c) \<Longrightarrow>
     tfinds n (map (tadd p c) ts) = map_option (tadd p c) (tfinds n ts)"
proof (induction t and ts rule: vtree_list_induct)
  case (Dir m nm ts)
  show ?case
  proof (cases "m = p")
    case True
    have "tfind n c = None" using Dir.prems by (simp add: tfind_None_iff)
    moreover have "map_option (tadd p c) (tfinds n ts) = tfinds n ts"
    proof (cases "tfinds n ts")
      case (Some w)
      then have "p \<notin> set (tids w)" using tfinds_props [OF Some] Dir.prems(1) True by auto
      with Some show ?thesis by (simp add: tadd_notin)
    qed simp
    ultimately show ?thesis using True by auto
  qed (use Dir in auto)
qed (auto split: option.splits)

lemma tentry_tadd:
  assumes "tentry nm u = Some m" "tid u = p \<Longrightarrow> tname c \<noteq> nm"
  shows "tentry nm (tadd p c u) = Some m"
proof (cases u)
  case (VDir n dn ts)
  have top: "tid (tadd p c x) = tid x" "tname (tadd p c x) = tname x" for x by (cases x; simp)+
  have "map_option tid (find (\<lambda>t. tname t = nm) (map (tadd p c) ts)) = map_option tid (find (\<lambda>t. tname t = nm) ts)" for ts
    by (induction ts) (auto simp: top)
  with VDir assms show ?thesis by (auto simp: tentry_def simp del: map_option_eq_Some)
qed (use assms in \<open>simp add: tentry_def\<close>)

lemma tadd_kid_ids: "n \<notin> set (tids c) \<Longrightarrow> n \<in> tid ` set (map (tadd p c) ts) \<longleftrightarrow> n \<in> tid ` set ts"
proof -
  have "tid (tadd p c x) = tid x" for x by (cases x) auto
  then show ?thesis by (auto simp: image_iff)
qed

lemma tpar_tadd:
  "distinct (tids t) \<Longrightarrow> n \<notin> set (tids c) \<Longrightarrow> tpar n (tadd p c t) = tpar n t"
  and tpars_tadd:
  "distinct (tidss ts) \<Longrightarrow> n \<notin> set (tids c) \<Longrightarrow> tpars n (map (tadd p c) ts) = tpars n ts"
proof (induction t and ts rule: vtree_list_induct)
  case (Dir m nm ts)
  have "n \<noteq> tid c" using Dir.prems(2) tid_in_tids [of c] by auto
  with Dir tadd_kid_ids [OF Dir.prems(2), of p ts] tpar_notin [OF Dir.prems(2)] show ?case by (auto simp: image_iff)
qed (auto split: option.splits)

lemma tstep_tadd:
  assumes "distinct (tids t)" "n \<in> set (tids t)" "set (tids c) \<inter> set (tids t) = {}"
    "tfind p t = Some u" "tentry (tname c) u = None" "tstep t n cmp = Some m"
  shows "tstep (tadd p c t) n cmp = Some m"
proof -
  have n: "n \<notin> set (tids c)" using assms(2,3) by auto
  have "tentry nm (tadd p c x) = Some m" if "tfind n t = Some x" "tentry nm x = Some m" for nm x
  proof (rule tentry_tadd [OF that(2)])
    assume "tid x = p"
    then have "x = u" using that(1) assms(4) tfind_props by (metis option.inject)
    then show "tname c \<noteq> nm" using assms(5) that(2) by auto
  qed
  moreover have "tdir (tadd p c x) = tdir x" for x by (cases x) auto
  ultimately show ?thesis
    using assms(6) tfind_tadd [OF assms(1) n, of p] tpar_tadd [OF assms(1) n, of p]
    by (auto simp: tstep_def Let_def split: option.splits if_splits)
qed

lemma tsteps_tadd:
  assumes wf: "vfs_wf s t" and "n \<in> set (tids t)" "set (tids c) \<inter> set (tids t) = {}"
    "tfind p t = Some u" "tentry (tname c) u = None" "tsteps t n cs = Some m"
  shows "tsteps (tadd p c t) n cs = Some m"
  using assms(2,6)
proof (induction cs arbitrary: n)
  case (Cons cmp cs)
  then obtain k where k: "tstep t n cmp = Some k" "tsteps t k cs = Some m" by (auto split: option.splits)
  with tstep_tadd [OF wf_rep(2) [OF wf] Cons.prems(1) assms(3-5) k(1)] tstep_in [OF wf Cons.prems(1) k(1)] Cons.IH
  show ?case by simp
qed simp

definition dot_name :: "bytes \<Rightarrow> bool" where
  "dot_name nm \<longleftrightarrow> nm = ascii ''.'' \<or> nm = ascii ''..''"

lemma tstep_entry:
  assumes "tfind n t = Some u" "tdir u" "cut_name nm = cn" "cn \<noteq> []" "\<not> dot_name cn" "tentry cn u = Some m"
  shows "tstep t n nm = Some m"
  using assms by (simp add: tstep_def Let_def dot_name_def)

text \<open>The components of a path whose parent and leaf are known, up to trailing slashes.\<close>

lemma parent_leaf_components:
  assumes wf: "vfs_wf s t" "b \<in> set (tids t)"
    and r: "resolve_parent_and_leaf s b path = Some (Some (p, leaf))"
  obtains cs raw k where "split_on slash path = cs @ raw # replicate k []" "cut_name raw = leaf"
    "tsteps t (if starts_with_slash path then tid t else b) cs = Some p"
proof -
  obtain P k where P: "trim_end_matches slash path = P" and k: "path = P @ replicate k slash"
    using trim_end_split [of path slash] by blast
  note r = r [unfolded resolve_parent_and_leaf_def P Let_def]
  have ne: "P \<noteq> []" using r by (auto split: if_splits)
  have sw: "starts_with_slash path = (hd P = slash)"
    using ne by (cases P) (auto simp: k starts_with_slash_def)
  have sp: "split_on slash path = split_on slash P @ replicate k []"
    by (simp add: k split_on_trailing)
  show ?thesis
  proof (cases "rfind slash P")
    case None
    then have "slash \<notin> set P" by (simp add: rfind_None)
    then have "hd P \<noteq> slash" using ne by (metis hd_in_set)
    then show ?thesis using r None sp sw ne split_on_plain [OF \<open>slash \<notin> set P\<close>]
      by (intro that [of "[]" P k]) auto
  next
    case (Some i)
    let ?l = "drop (Suc i) P"
    have l: "slash \<notin> set ?l" using rfind_Some [OF Some] by simp
    have "split_on slash P = split_on slash (take i P) @ split_on slash ?l"
      using rfind_split [OF Some] split_on_append [of slash "take i P" ?l] by metis
    with l have spp: "split_on slash path = split_on slash (take i P) @ ?l # replicate k []"
      by (simp add: sp split_on_plain)
    show ?thesis
    proof (cases i)
      case 0
      then have "hd P = slash" using rfind_split [OF Some] by (metis append_Nil list.sel(1) take_0)
      moreover have "cut_name [] = []" by (rule cut_name_short) (simp add: NAME_MAX_def)
      ultimately show ?thesis using r Some 0 spp sw ne wf_rep(3) [OF wf(1)]
        by (intro that [of "[[]]" ?l k]) (auto simp: tstep_def)
    next
      case (Suc j)
      then have "starts_with_slash (take i P) = starts_with_slash path"
        using sw ne by (cases P) (auto simp: starts_with_slash_def)
      then show ?thesis using r Some Suc spp resolve_tree [OF wf, of "take i P"] ne
        by (intro that [of "split_on slash (take i P)" ?l k])
           (auto simp: tresolve_def split: option.splits)
    qed
  qed
qed

text \<open>Where a path leads after a node \<open>n\<close> was created at it: a dot name is never looked up.\<close>

definition leads_to :: "vtree \<Rightarrow> nat \<Rightarrow> bytes \<Rightarrow> nat \<Rightarrow> nat" where
  "leads_to t p leaf n =
     (if leaf = ascii ''.'' then p else if leaf = ascii ''..'' then (case tpar p t of None \<Rightarrow> p | Some q \<Rightarrow> q) else n)"

lemma resolve_created:
  assumes wf: "vfs_wf s t" "b \<in> set (tids t)"
    and r: "resolve_parent_and_leaf s b path = Some (Some (p, leaf))"
    and can: "can_create t (Some (p, leaf))" and n: "n \<notin> set (tids t)"
  shows "tresolve (tadd p (new_node k n leaf) t) b path = Some (leads_to t p leaf n)"
proof -
  note w = wf_rep [OF wf(1)]
  let ?c = "new_node k n leaf" and ?b = "if starts_with_slash path then tid t else b"
  from can obtain u where u: "tfind p t = Some u" "tdir u" "tentry leaf u = None" "leaf \<noteq> []"
    by (auto simp: can_create_def split: option.splits)
  obtain cs raw j where cs: "split_on slash path = cs @ raw # replicate j []" "cut_name raw = leaf"
    "tsteps t ?b cs = Some p" by (rule parent_leaf_components [OF wf r]) (rule that)
  have ids: "tids ?c = [n]" by (cases k) (auto simp: new_node_def)
  with n have disj: "set (tids ?c) \<inter> set (tids t) = {}" by simp
  have "?b \<in> set (tids t)" using wf(2) by simp
  from tsteps_tadd [OF wf(1) this disj u(1) _ cs(3)] u(3)
  have 1: "tsteps (tadd p ?c t) ?b cs = Some p" by simp
  have "p \<noteq> n" using tfind_props [OF u(1)] n by (metis subsetD tid_in_tids)
  then have "tfind p (tadd p ?c t) = Some (tadd p ?c u)"
    using tfind_tadd [OF w(2), of p ?c p] u(1) ids by simp
  moreover obtain nm ts where "u = VDir p nm ts"
    using tdir_VDir [OF u(2)] tfind_props [OF u(1)] by auto
  then have "tdir (tadd p ?c u)" "tentry leaf (tadd p ?c u) = Some n" by (auto simp: tentry_def)
  moreover have "tpar p (tadd p ?c t) = tpar p t" using tpar_tadd [OF w(2), of p ?c p] ids \<open>p \<noteq> n\<close> by simp
  ultimately have "tstep (tadd p ?c t) p raw = Some (leads_to t p leaf n)"
    unfolding tstep_def leads_to_def Let_def cs(2) using u(4) by (auto split: option.splits)
  moreover have "tid (tadd p ?c t) = tid t" by (cases t) auto
  ultimately show ?thesis
    using 1 cs(1) by (cases "starts_with_slash path") (simp_all add: tresolve_def tsteps_append)
qed

section \<open>Absolute paths\<close>

lemma tentry_self:
  assumes "tnames_ok (VDir n nm ts)" "x \<in> set ts"
  shows "tentry (tname x) (VDir n nm ts) = Some (tid x)"
proof -
  have "distinct (map tname ts)" using assms(1) by simp
  then have "find (\<lambda>t. tname t = tname x) ts = Some x" using assms(2)
    by (induction ts) (auto simp: image_iff)
  then show ?thesis by (simp add: tentry_def)
qed

lemma path_parts_child:
  assumes wf: "vfs_wf s t" and f: "tfind m t = Some (VDir m nm (as @ x # bs))"
  shows "path_parts s (Some (tid x)) = map_option (\<lambda>ps. tname x # ps) (path_parts s (Some m))"
proof -
  note w = wf_rep [OF wf]
  have nr: "tid x \<noteq> root s" using child_not_top [OF f w(2)] w(3) by simp
  from rep_focus [OF w(1,2) f] obtain vm :: vnode where "rep (nodes s) (vparent vm) (vsibling vm) (VDir m nm (as @ x # bs))"
    by blast
  then have "reps (nodes s) (Some m) (as @ x # bs)" by simp
  then have "rep (nodes s) (Some m) (first_id bs) x" using reps_mid by blast
  from rep_top [OF this] obtain v where v: "nodes s (tid x) = Some v" "vname v = tname x" "vparent v = Some m"
    by blast
  then show ?thesis
    using nr by (subst path_parts.simps) (auto simp: map_option_case split: bind_splits option.splits)
qed

lemma tfind_child:
  assumes f: "tfind m t = Some (VDir m nm (as @ x # bs))" and d: "distinct (tids t)"
  shows "tfind (tid x) t = Some x"
proof (rule tfind_trans [OF f _ d])
  have d: "distinct (tids (VDir m nm (as @ x # bs)))" using tfind_distinct [OF f d] .
  then have "tfinds (tid x) (as @ x # bs) = Some x" using tfinds_mid_eq [of "tid x" x as bs] by simp
  moreover have "tid x \<noteq> m" using d tid_in_tids [of x] by auto
  ultimately show "tfind (tid x) (VDir m nm (as @ x # bs)) = Some x" by simp
qed

text \<open>The names from a node \<open>m\<close> down to a node \<open>n\<close> under it; they lead there when none of them is a dot name.\<close>

lemma path_parts_down:
  assumes wf: "vfs_wf s t"
  shows "tfind m t = Some x \<Longrightarrow> tnames_ok x \<Longrightarrow> n \<in> set (tids x) \<Longrightarrow>
    \<exists>ns. path_parts s (Some n) = map_option (\<lambda>ps. rev ns @ ps) (path_parts s (Some m))
      \<and> ((\<forall>c \<in> set ns. \<not> dot_name c) \<longrightarrow> tsteps t m ns = Some n) \<and> (\<forall>c \<in> set ns. good_name c)"
proof (induction x arbitrary: m)
  case (VFile k nm d)
  then have "n = m" using tfind_props [OF VFile.prems(1)] by simp
  then show ?case by (intro exI [of _ "[]"]) (simp add: option.map_ident)
next
  case (VDir k nm ts)
  have k: "k = m" using tfind_props [OF VDir.prems(1)] by simp
  show ?case
  proof (cases "n = m")
    case True
    then show ?thesis by (intro exI [of _ "[]"]) (simp add: option.map_ident)
  next
    case False
    from False k VDir.prems(3) obtain x where x: "x \<in> set ts" "n \<in> set (tids x)" by auto
    then obtain as bs where ts: "ts = as @ x # bs" by (meson split_list)
    note f = VDir.prems(1) [unfolded ts k]
    note up = path_parts_child [OF wf f] and fx = tfind_child [OF f wf_rep(2) [OF wf]]
    from VDir.IH [OF x(1) fx _ x(2)] VDir.prems(2) x(1) obtain ns
      where ns: "path_parts s (Some n) = map_option (\<lambda>ps. rev ns @ ps) (path_parts s (Some (tid x)))"
        "(\<forall>c \<in> set ns. \<not> dot_name c) \<longrightarrow> tsteps t (tid x) ns = Some n" "\<forall>c \<in> set ns. good_name c" by auto
    have good: "good_name (tname x)" using VDir.prems(2) x(1) by auto
    have "tstep t m (tname x) = Some (tid x)" if "\<not> dot_name (tname x)"
      using good that tentry_self [OF VDir.prems(2) x(1)] VDir.prems(1)
      by (intro tstep_entry [of m t "VDir k nm ts"]) (auto simp: good_name_def)
    with ns good up show ?thesis
      by (intro exI [of _ "tname x # ns"]) (auto simp: option.map_comp comp_def)
  qed
qed

text \<open>A step leads at most one level down, and a dot name leads none down.\<close>

lemma tstep_depth:
  assumes wf: "vfs_wf s t" and n: "n \<in> set (tids t)" and st: "tstep t n c = Some m" and ps: "path_parts s (Some n) = Some ps"
  shows "\<exists>qs. path_parts s (Some m) = Some qs \<and> length qs \<le> length ps + (if dot_name (cut_name c) then 0 else 1)"
proof (cases "cut_name c = [] \<or> dot_name (cut_name c)")
  case True
  note w = wf_rep [OF wf]
  show ?thesis
  proof (cases "cut_name c = ascii ''..'' \<and> tpar n t \<noteq> None")
    case False
    with st True ps show ?thesis by (auto simp: tstep_def Let_def dot_name_def)
  next
    case dd: True
    then obtain q where q: "tpar n t = Some q" by blast
    with st dd have m: "m = q" by (simp add: tstep_def)
    obtain u v where v: "nodes s n = Some v" by (rule wf_node [OF wf n])
    have "n \<noteq> tid t" using q tpar_in [OF q] w(2) by (auto simp: tids_split [of t])
    with tpar_rep [OF w(1,2) n v] q have "vparent v = Some q" by simp
    with ps v \<open>n \<noteq> tid t\<close> w(3) obtain qs where "path_parts s (Some q) = Some qs" "ps = vname v # qs"
      by (subst (asm) path_parts.simps) (auto split: bind_splits)
    with m show ?thesis by auto
  qed
next
  case False
  then obtain u where u: "tfind n t = Some u" "tdir u" "tentry (cut_name c) u = Some m"
    using st by (auto simp: tstep_def Let_def dot_name_def split: option.splits if_splits)
  obtain nm ts where ts: "u = VDir n nm ts" using tdir_VDir [OF u(2)] tfind_props [OF u(1)] by auto
  with u(3) obtain x where x: "x \<in> set ts" "m = tid x"
    by (auto simp: tentry_def find_Some_iff dest!: nth_mem)
  then obtain as bs where "ts = as @ x # bs" by (meson split_list)
  with path_parts_child [OF wf, of n nm as x bs] u(1) ts x(2) ps False show ?thesis by simp
qed

lemma tsteps_depth:
  assumes wf: "vfs_wf s t"
  shows "n \<in> set (tids t) \<Longrightarrow> tsteps t n cs = Some m \<Longrightarrow> path_parts s (Some n) = Some ps \<Longrightarrow>
    \<exists>qs. path_parts s (Some m) = Some qs \<and> length qs \<le> length ps + length (filter (\<lambda>c. \<not> dot_name (cut_name c)) cs)"
proof (induction cs arbitrary: n ps)
  case (Cons c cs)
  then obtain k where k: "tstep t n c = Some k" "tsteps t k cs = Some m" by (auto split: option.splits)
  from tstep_depth [OF wf Cons.prems(1) k(1) Cons.prems(3)] obtain rs where
    rs: "path_parts s (Some k) = Some rs" "length rs \<le> length ps + (if dot_name (cut_name c) then 0 else 1)" by blast
  from Cons.IH [OF tstep_in [OF wf Cons.prems(1) k(1)] k(2) rs(1)] rs(2) show ?case by auto
qed simp

lemma split_path: "\<forall>c \<in> set ns. slash \<notin> set c \<Longrightarrow>
  split_on slash (fold (\<lambda>p s. s @ [slash] @ p) ns acc) = split_on slash acc @ ns"
proof (induction ns arbitrary: acc)
  case (Cons n ns)
  then show ?case using Cons.IH [of "acc @ [slash] @ n"] by (simp add: split_on_append split_on_plain)
qed simp

lemma starts_path:
  "starts_with_slash acc \<or> acc = [] \<and> ns \<noteq> [] \<Longrightarrow> starts_with_slash (fold (\<lambda>p s. s @ [slash] @ p) ns acc)"
proof (induction ns arbitrary: acc)
  case (Cons n ns)
  then have "starts_with_slash (acc @ [slash] @ n)" by (cases acc) (auto simp: starts_with_slash_def)
  with Cons.IH [of "acc @ [slash] @ n"] show ?case by simp
qed simp

lemma vfs_path_resolves:
  assumes wf: "vfs_wf s t" and n: "n \<in> set (tids t)"
  obtains path names where "vfs_path s n = Some path" "path_parts s (Some n) = Some names"
    "\<And>b. b \<in> set (tids t) \<Longrightarrow> resolve s b path = Some (Some n) \<longleftrightarrow> (\<forall>nm \<in> set names. \<not> dot_name nm)"
proof -
  note w = wf_rep [OF wf]
  have rt: "path_parts s (Some (tid t)) = Some []" using w(3) by (simp add: path_parts.simps)
  with path_parts_down [OF wf tfind_self w(4) n] obtain ns
    where ns: "path_parts s (Some n) = Some (rev ns)" "(\<forall>c \<in> set ns. \<not> dot_name c) \<longrightarrow> tsteps t (tid t) ns = Some n" "\<forall>c \<in> set ns. good_name c"
    by auto
  have cut: "cut_name [] = []" by (rule cut_name_short) (simp add: NAME_MAX_def)
  have nodots: "\<forall>c \<in> set ns. \<not> dot_name c" if "tsteps t (tid t) ns = Some n"
  proof -
    have "length ns \<le> length (filter (\<lambda>c. \<not> dot_name (cut_name c)) ns)" using tsteps_depth [OF wf _ that rt] ns(1) by auto
    then have "filter (\<lambda>c. \<not> dot_name (cut_name c)) ns = ns" by (metis length_filter_less not_le filter_id_conv)
    then have "\<forall>c \<in> set ns. \<not> dot_name (cut_name c)" by (metis filter_id_conv)
    with ns(3) show ?thesis by (auto simp: good_name_def)
  qed
  show ?thesis
  proof (cases "ns = []")
    case True
    with ns cut show ?thesis
      by (intro that [of "[slash]" "[]"]) (auto simp: vfs_path_def resolve_tree [OF wf] tresolve_def
        starts_with_slash_def tstep_def)
  next
    case False
    let ?p = "fold (\<lambda>p s. s @ [slash] @ p) ns []"
    have "vfs_path s n = Some ?p" using ns(1) False by (simp add: vfs_path_def)
    moreover have "split_on slash ?p = [] # ns"
      using ns(3) by (subst split_path) (auto simp: good_name_def)
    moreover have "starts_with_slash ?p" using False by (intro starts_path) simp
    ultimately show ?thesis using ns nodots cut
      by (intro that [of ?p "rev ns"]) (auto simp: resolve_tree [OF wf] tresolve_def tstep_def)
  qed
qed

section \<open>Writing, then reading\<close>

lemma tids_tadd: "set (tids t) \<subseteq> set (tids (tadd p c t))"
  by (induction t) (auto; blast)+

lemma write_bytes_spec:
  assumes wf: "vfs_wf s t" "b \<in> set (tids t)"
  obtains ok s' t' where "write_bytes s b path data = Some (ok, s')" "vfs_wf s' t'" "set (tids t) \<subseteq> set (tids t')"
    "ok \<Longrightarrow> cat s' b path = Some (Some (data @ [0x0A]))"
proof -
  have store: "\<exists>ok s'. (do { v \<leftarrow> nodes s1 n; if is_dir v then Some (False, s1)
        else Some (True, s1\<lparr>nodes := (nodes s1)(n \<mapsto> v\<lparr>vdata := data\<rparr>)\<rparr>) }) = Some (ok, s')
      \<and> (\<exists>t'. vfs_wf s' t' \<and> set (tids t1) \<subseteq> set (tids t')) \<and> (ok \<longrightarrow> cat s' b path = Some (Some (data @ [0x0A])))"
    if wf1: "vfs_wf s1 t1" "b \<in> set (tids t1)" and r: "resolve s1 b path = Some (Some n)" for s1 t1 n
  proof -
    have n: "n \<in> set (tids t1)" using resolve_wf [OF wf1, of path] r by auto
    obtain u v where u: "tfind n t1 = Some u" "nodes s1 n = Some v" "is_dir v = tdir u"
      by (rule wf_node [OF wf1(1) n]) (rule that)
    show ?thesis
    proof (cases "tdir u")
      case False
      let ?s = "s1\<lparr>nodes := (nodes s1)(n \<mapsto> v\<lparr>vdata := data\<rparr>)\<rparr>"
      have "cat ?s b path = Some (Some (data @ [0x0A]))"
        using resolve_write [OF wf1(1) u(2,1) False wf1(2)] r u False by (simp add: cat_def is_dir_def)
      with write_data_wf [OF wf1(1) u(1) False u(2), of data] u False show ?thesis
        by (intro exI [of _ True] exI [of _ ?s]) (auto intro!: exI [of _ "tput n data t1"])
    qed (use u wf1 in auto)
  qed
  from resolve_wf [OF wf] obtain r where r: "resolve s b path = Some r" by blast
  show ?thesis
  proof (cases r)
    case (Some n)
    from store [OF wf r [unfolded Some]] r Some show ?thesis by (auto simp: write_bytes_def intro: that)
  next
    case None
    obtain q where q: "resolve_parent_and_leaf s b path = Some q"
      "\<not> can_create t q \<Longrightarrow> create_leaf s b path File = Some (False, s)"
      "\<And>p leaf. q = Some (p, leaf) \<Longrightarrow> can_create t q \<Longrightarrow> \<exists>s'. create_leaf s b path File = Some (True, s')
         \<and> vfs_wf s' (tadd p (new_node File (next_id s) leaf) t)"
      by (rule create_leaf_spec [OF wf]) (rule that)
    show ?thesis
    proof (cases "can_create t q")
      case False
      with q(2) r None wf show ?thesis
        by (intro that [of False s t]) (auto simp: write_bytes_def create_file_def)
    next
      case True
      then obtain p leaf where pl: "q = Some (p, leaf)" by (auto simp: can_create_def split: option.splits)
      from q(3) [OF pl True] obtain s1 where s1: "create_leaf s b path File = Some (True, s1)"
        "vfs_wf s1 (tadd p (new_node File (next_id s) leaf) t)" (is "vfs_wf s1 ?t1") by blast
      have sub: "set (tids t) \<subseteq> set (tids ?t1)" by (rule tids_tadd)
      then have b1: "b \<in> set (tids ?t1)" using wf(2) by blast
      from resolve_wf [OF s1(2) b1] obtain r1 where r1: "resolve s1 b path = Some r1" by blast
      show ?thesis
      proof (cases r1)
        case None
        then show ?thesis using r \<open>r = None\<close> s1 r1 sub
          by (intro that [of False s1 ?t1]) (auto simp: write_bytes_def create_file_def)
      next
        case (Some n)
        from store [OF s1(2) b1 r1 [unfolded Some]] r \<open>r = None\<close> s1(1) r1 Some sub that show ?thesis
          by (fastforce simp: write_bytes_def create_file_def)
      qed
    qed
  qed
qed

end
