(* ===== verification/VfsProps.thy ===== *)
theory VfsProps
  imports VfsPath
begin

text \<open>
  The file system as a machine whose operations are those of \<^verbatim>\<open>kernel/src/fs/vfs.rs\<close>, and
  the theorems that state its correctness: no sequence of operations follows a bad pointer or
  loops, and each operation's effect on the tree.
\<close>

section \<open>The machine\<close>

datatype vfs_op =
    OpMkdir nat bytes
  | OpCreate nat bytes
  | OpRemove nat bytes nat
  | OpCopy nat bytes bytes
  | OpMove nat bytes bytes
  | OpWriteBytes nat bytes bytes
  | OpWriteFile nat bytes bytes bool

fun run_op :: "vfs_op \<Rightarrow> vfs \<Rightarrow> (bool \<times> vfs) option" where
  "run_op (OpMkdir b path) s = mkdir s b path"
| "run_op (OpCreate b path) s = create_file s b path"
| "run_op (OpRemove b path cwd) s = remove s b path (Some cwd)"
| "run_op (OpCopy b src dest) s = copy s b src dest"
| "run_op (OpMove b src dest) s = move_node s b src dest"
| "run_op (OpWriteBytes b path data) s = write_bytes s b path data"
| "run_op (OpWriteFile b path text app) s = write_file s b path text app"

text \<open>The caller's obligation: the base directory and working directory it passes are live vnodes.\<close>

fun op_bases :: "vfs_op \<Rightarrow> nat list" where
  "op_bases (OpMkdir b path) = [b]"
| "op_bases (OpCreate b path) = [b]"
| "op_bases (OpRemove b path cwd) = [b, cwd]"
| "op_bases (OpCopy b src dest) = [b]"
| "op_bases (OpMove b src dest) = [b]"
| "op_bases (OpWriteBytes b path data) = [b]"
| "op_bases (OpWriteFile b path text app) = [b]"

definition vfs_valid :: "vfs \<Rightarrow> vfs_op \<Rightarrow> bool" where
  "vfs_valid s op \<longleftrightarrow> (\<forall>n \<in> set (op_bases op). nodes s n \<noteq> None)"

lemma vfs_init_wf: "vfs_wf vfs_init (VDir 0 [] [])"
proof -
  have "cut_name [] = []" by (rule cut_name_short) (simp add: NAME_MAX_def)
  then show ?thesis by (simp add: vfs_init_def alloc_vnode_def set_name_def Let_def vfs_wf_def)
qed

lemma create_leaf_safe:
  assumes "vfs_wf s t" "b \<in> set (tids t)"
  shows "\<exists>ok s' t'. create_leaf s b path k = Some (ok, s') \<and> vfs_wf s' t'"
proof (rule create_leaf_spec [OF assms, of path k])
  fix r assume no: "\<not> can_create t r \<Longrightarrow> create_leaf s b path k = Some (False, s)"
    and yes: "\<And>p leaf. r = Some (p, leaf) \<Longrightarrow> can_create t r \<Longrightarrow> \<exists>s'. create_leaf s b path k = Some (True, s')
       \<and> vfs_wf s' (tadd p (new_node k (next_id s) leaf) t)"
  show ?thesis
  proof (cases "can_create t r")
    case True
    then obtain p leaf where "r = Some (p, leaf)" by (auto simp: can_create_def split: option.splits)
    from yes [OF this True] show ?thesis by blast
  qed (use no assms(1) in blast)
qed

lemma remove_safe:
  assumes "vfs_wf s t" "b \<in> set (tids t)" "cwd \<in> set (tids t)"
  shows "\<exists>ok s' t'. remove s b path (Some cwd) = Some (ok, s') \<and> vfs_wf s' t'"
proof (rule remove_spec [OF assms, of path])
  fix r assume no: "r = None \<or> r = Some (root s) \<or> (\<exists>n. r = Some n \<and> tcontains n cwd t) \<Longrightarrow>
      remove s b path (Some cwd) = Some (False, s)"
    and yes: "\<And>n. r = Some n \<Longrightarrow> n \<noteq> root s \<Longrightarrow> \<not> tcontains n cwd t \<Longrightarrow>
       \<exists>s'. remove s b path (Some cwd) = Some (True, s') \<and> vfs_wf s' (tdel n t)"
  show ?thesis
  proof (cases "r = None \<or> r = Some (root s) \<or> (\<exists>n. r = Some n \<and> tcontains n cwd t)")
    case False
    then obtain n where "r = Some n" "n \<noteq> root s" "\<not> tcontains n cwd t" by auto
    from yes [OF this] show ?thesis by blast
  qed (use no assms(1) in blast)
qed

lemma resolved_node:
  assumes "vfs_wf s t" "b \<in> set (tids t)" "resolve s b path = Some (Some n)"
  obtains c v where "tfind n t = Some c" "nodes s n = Some v"
proof -
  have "n \<in> set (tids t)" using resolve_wf [OF assms(1,2), of path] assms(3) by auto
  then show ?thesis by (rule wf_node [OF assms(1)]) (rule that)
qed

lemma copy_safe:
  assumes "vfs_wf s t" "b \<in> set (tids t)"
  shows "\<exists>ok s' t'. copy s b src dest = Some (ok, s') \<and> vfs_wf s' t'"
proof -
  from resolve_wf [OF assms] obtain r where r: "resolve s b src = Some r" by blast
  show ?thesis
  proof (cases r)
    case None
    with r assms(1) show ?thesis by (auto simp: copy_def)
  next
    case (Some n)
    with r have rn: "resolve s b src = Some (Some n)" by simp
    obtain c v where c: "tfind n t = Some c" "nodes s n = Some v" by (rule resolved_node [OF assms rn])
    show ?thesis
    proof (rule copy_spec [OF assms rn c, of dest])
      fix q assume no: "\<not> can_place t n c {None} q \<Longrightarrow> copy s b src dest = Some (False, s)"
        and yes: "\<And>p leaf. q = Some (p, leaf) \<Longrightarrow> can_place t n c {None} q \<Longrightarrow>
          \<exists>s' c'. copy s b src dest = Some (True, s') \<and> erase c' = frename leaf (mirror (erase c))
            \<and> set (tids c') = {next_id s..<next_id s'} \<and> vfs_wf s' (tadd p c' t)"
      show ?thesis
      proof (cases "can_place t n c {None} q")
        case True
        then obtain p leaf where "q = Some (p, leaf)" by (auto simp: can_place_def split: option.splits)
        from yes [OF this True] show ?thesis by blast
      qed (use no assms(1) in blast)
    qed
  qed
qed

lemma move_safe:
  assumes "vfs_wf s t" "b \<in> set (tids t)"
  shows "\<exists>ok s' t'. move_node s b src dest = Some (ok, s') \<and> vfs_wf s' t'"
proof -
  from resolve_wf [OF assms] obtain r where r: "resolve s b src = Some r" by blast
  show ?thesis
  proof (cases "r = None \<or> r = Some (root s)")
    case True
    with r assms(1) show ?thesis by (auto simp: move_node_def)
  next
    case False
    then obtain n where n: "r = Some n" "n \<noteq> root s" by auto
    with r have rn: "resolve s b src = Some (Some n)" by simp
    obtain c v where c: "tfind n t = Some c" "nodes s n = Some v" by (rule resolved_node [OF assms rn])
    show ?thesis
    proof (rule move_spec [OF assms rn n(2) c, of dest])
      fix q assume no: "\<not> can_place t n c {None, Some n} q \<Longrightarrow> move_node s b src dest = Some (False, s)"
        and yes: "\<And>p leaf. q = Some (p, leaf) \<Longrightarrow> can_place t n c {None, Some n} q \<Longrightarrow>
          \<exists>s'. move_node s b src dest = Some (True, s') \<and> vfs_wf s' (tadd p (trename leaf c) (tdel n t))"
      show ?thesis
      proof (cases "can_place t n c {None, Some n} q")
        case True
        then obtain p leaf where "q = Some (p, leaf)" by (auto simp: can_place_def split: option.splits)
        from yes [OF this True] show ?thesis by blast
      qed (use no assms(1) in blast)
    qed
  qed
qed

lemma write_safe:
  assumes "vfs_wf s t" "b \<in> set (tids t)"
  shows "\<exists>ok s' t'. write_bytes s b path data = Some (ok, s') \<and> vfs_wf s' t'"
    "\<exists>ok s' t'. write_file s b path data app = Some (ok, s') \<and> vfs_wf s' t'"
proof -
  show w: "\<exists>ok s' t'. write_bytes s b path data = Some (ok, s') \<and> vfs_wf s' t'" for data
    by (rule write_bytes_spec [OF assms, of path data]) blast
  from resolve_wf [OF assms] obtain r where r: "resolve s b path = Some r" by blast
  show "\<exists>ok s' t'. write_file s b path data app = Some (ok, s') \<and> vfs_wf s' t'"
  proof (cases r)
    case (Some n)
    with r have rn: "resolve s b path = Some (Some n)" by simp
    obtain c v where "tfind n t = Some c" "nodes s n = Some v" by (rule resolved_node [OF assms rn])
    with rn w show ?thesis by (auto simp: write_file_def)
  qed (use r w in \<open>auto simp: write_file_def\<close>)
qed

lemma run_op_safe:
  assumes "\<exists>t. vfs_wf s t" "vfs_valid s op"
  shows "\<exists>r s'. run_op op s = Some (r, s') \<and> (\<exists>t. vfs_wf s' t)"
proof -
  from assms(1) obtain t where wf: "vfs_wf s t" by blast
  have "n \<in> set (tids t)" if "n \<in> set (op_bases op)" for n
    using that assms(2) wf_rep(6) [OF wf, of n] by (auto simp: vfs_valid_def)
  then show ?thesis
    using create_leaf_safe [OF wf] remove_safe [OF wf] copy_safe [OF wf] move_safe [OF wf] write_safe [OF wf]
    by (cases op) (simp_all add: mkdir_def create_file_def; blast)+
qed

interpretation fs: machine "\<lambda>s. \<exists>t. vfs_wf s t" vfs_valid run_op
  by unfold_locales (rule run_op_safe)

section \<open>Properties\<close>

text \<open>
  C8: starting from the file system that \<^verbatim>\<open>vfs::init\<close> builds, any sequence of operations
  issued with live base directories returns (no operation follows a null or dangling vnode
  pointer, and every pointer walk ends) and leaves a heap that is exactly one well-formed tree.
\<close>

theorem vfs_trace_safe: "\<exists>s t. run_trace vfs_valid run_op ops vfs_init = Some s \<and> vfs_wf s t"
  using fs.trace_safe [of vfs_init ops] vfs_init_wf by blast

text \<open>A small file system for the examples: a directory \<open>docs\<close> with a file \<open>a\<close>, beside a file \<open>b\<close>.\<close>

definition demo_vfs :: vfs where
  "demo_vfs = \<lparr>nodes = [
     0 \<mapsto> \<lparr>vname = [], vkind = Dir, vparent = None, vchildren = Some 1, vsibling = None, vdata = []\<rparr>,
     1 \<mapsto> \<lparr>vname = ascii ''docs'', vkind = Dir, vparent = Some 0, vchildren = Some 2, vsibling = Some 3, vdata = []\<rparr>,
     2 \<mapsto> \<lparr>vname = ascii ''a'', vkind = File, vparent = Some 1, vchildren = None, vsibling = None, vdata = [7]\<rparr>,
     3 \<mapsto> \<lparr>vname = ascii ''b'', vkind = File, vparent = Some 0, vchildren = None, vsibling = None, vdata = []\<rparr>],
     root = 0, next_id = 4\<rparr>"

definition demo_tree :: vtree where
  "demo_tree = VDir 0 [] [VDir 1 (ascii ''docs'') [VFile 2 (ascii ''a'') [7]], VFile 3 (ascii ''b'') []]"

lemma demo_wf: "vfs_wf demo_vfs demo_tree"
proof -
  have "good_name (ascii ''docs'')" "good_name (ascii ''a'')" "good_name (ascii ''b'')"
    by (simp_all add: good_name_def slash_def cut_name_short NAME_MAX_def)
  then show ?thesis by (auto simp: vfs_wf_def demo_vfs_def demo_tree_def)
qed

lemma demo_in: "0 \<in> set (tids demo_tree)" "2 \<in> set (tids demo_tree)"
  by (simp_all add: demo_tree_def)

lemma demo_resolve: "resolve demo_vfs 0 (ascii ''docs'') = Some (Some 1)"
  "tfind 1 demo_tree = Some (VDir 1 (ascii ''docs'') [VFile 2 (ascii ''a'') [7]])"
  "nodes demo_vfs 1 = Some \<lparr>vname = ascii ''docs'', vkind = Dir, vparent = Some 0, vchildren = Some 2,
     vsibling = Some 3, vdata = []\<rparr>" "1 \<noteq> root demo_vfs"
proof -
  show "resolve demo_vfs 0 (ascii ''docs'') = Some (Some 1)"
    unfolding resolve_tree [OF demo_wf demo_in(1)]
    by (simp add: tresolve_def starts_with_slash_def slash_def tstep_def cut_name_short NAME_MAX_def
      demo_tree_def tentry_def)
qed (simp_all add: demo_tree_def demo_vfs_def)

text \<open>
  C9: path resolution is a function of the tree: on a well-formed file system the pointer walk
  of \<^verbatim>\<open>resolve\<close> always returns, with the node that the tree-level walk finds (through \<open>.\<close>,
  \<open>..\<close>, empty components and truncated names), or with nothing exactly when that walk fails.
\<close>

theorem resolve_refines:
  assumes "vfs_wf s t" "b \<in> set (tids t)"
  shows "resolve s b path = Some (tresolve t b path)"
  using assms by (rule resolve_tree)

theorem resolve_refines_witness:
  "resolve demo_vfs 0 (ascii ''docs/../docs/a'') = Some (tresolve demo_tree 0 (ascii ''docs/../docs/a''))"
  by (rule resolve_refines [OF demo_wf demo_in(1)])

text \<open>
  C10: \<^verbatim>\<open>mkdir\<close> and \<^verbatim>\<open>create_file\<close> succeed exactly when the parent of the path exists, is a
  directory and has no entry of that name, and the name is not empty; then the tree gains one
  empty node of the requested kind at the front of that directory. The path then resolves to it, unless its
  name is \<open>.\<close> or \<open>..\<close>: the code accepts these names, and the path still leads to the parent of the path or to the
  parent's parent, so that the new node is out of reach. Otherwise nothing changes.
\<close>

theorem create_leaf_correct:
  assumes "vfs_wf s t" "b \<in> set (tids t)"
  shows "\<exists>r. resolve_parent_and_leaf s b path = Some r \<and>
    (if can_create t r
     then \<exists>p leaf s'. r = Some (p, leaf) \<and> create_leaf s b path k = Some (True, s')
       \<and> vfs_wf s' (tadd p (new_node k (next_id s) leaf) t)
       \<and> resolve s' b path = Some (Some (leads_to t p leaf (next_id s)))
     else create_leaf s b path k = Some (False, s))"
proof (rule create_leaf_spec [OF assms, of path k])
  fix r assume r: "resolve_parent_and_leaf s b path = Some r"
    and no: "\<not> can_create t r \<Longrightarrow> create_leaf s b path k = Some (False, s)"
    and yes: "\<And>p leaf. r = Some (p, leaf) \<Longrightarrow> can_create t r \<Longrightarrow> \<exists>s'. create_leaf s b path k = Some (True, s')
       \<and> vfs_wf s' (tadd p (new_node k (next_id s) leaf) t)"
  show ?thesis
  proof (cases "can_create t r")
    case True
    then obtain p leaf where pl: "r = Some (p, leaf)" by (auto simp: can_create_def split: option.splits)
    from yes [OF this True] obtain s' where s': "create_leaf s b path k = Some (True, s')"
      "vfs_wf s' (tadd p (new_node k (next_id s) leaf) t)" by blast
    have "next_id s \<notin> set (tids t)" using wf_rep(5) [OF assms(1), of "next_id s"] by auto
    moreover have "b \<in> set (tids (tadd p (new_node k (next_id s) leaf) t))" using assms(2) tids_tadd by blast
    ultimately have "resolve s' b path = Some (Some (leads_to t p leaf (next_id s)))"
      using resolve_tree [OF s'(2)] resolve_created [OF assms r [unfolded pl] True [unfolded pl]] by simp
    with r s' True pl show ?thesis by auto
  qed (use r no in auto)
qed

theorem create_leaf_correct_witness:
  "\<exists>r. resolve_parent_and_leaf demo_vfs 0 (ascii ''docs/new'') = Some r \<and>
    (if can_create demo_tree r
     then \<exists>p leaf s'. r = Some (p, leaf) \<and> create_leaf demo_vfs 0 (ascii ''docs/new'') File = Some (True, s')
       \<and> vfs_wf s' (tadd p (new_node File (next_id demo_vfs) leaf) demo_tree)
       \<and> resolve s' 0 (ascii ''docs/new'') = Some (Some (leads_to demo_tree p leaf (next_id demo_vfs)))
     else create_leaf demo_vfs 0 (ascii ''docs/new'') File = Some (False, demo_vfs))"
  by (rule create_leaf_correct [OF demo_wf demo_in(1)])

text \<open>
  C11: \<^verbatim>\<open>remove\<close> refuses the root, an unresolvable path and any directory that holds the
  caller's working directory, changing nothing; otherwise it unlinks the node and frees exactly
  the vnodes of its subtree, so that the heap represents the tree without it.
\<close>

theorem remove_correct:
  assumes "vfs_wf s t" "b \<in> set (tids t)" "cwd \<in> set (tids t)"
  shows "case tresolve t b path of
      None \<Rightarrow> remove s b path (Some cwd) = Some (False, s)
    | Some n \<Rightarrow> if n = root s \<or> tcontains n cwd t then remove s b path (Some cwd) = Some (False, s)
               else \<exists>s'. remove s b path (Some cwd) = Some (True, s') \<and> vfs_wf s' (tdel n t)"
proof (rule remove_spec [OF assms, of path])
  fix r assume "resolve s b path = Some r"
    and "r = None \<or> r = Some (root s) \<or> (\<exists>n. r = Some n \<and> tcontains n cwd t) \<Longrightarrow>
      remove s b path (Some cwd) = Some (False, s)"
    and "\<And>n. r = Some n \<Longrightarrow> n \<noteq> root s \<Longrightarrow> \<not> tcontains n cwd t \<Longrightarrow>
       \<exists>s'. remove s b path (Some cwd) = Some (True, s') \<and> vfs_wf s' (tdel n t)"
  then show ?thesis using resolve_tree [OF assms(1,2)] by (auto split: option.splits)
qed

theorem remove_correct_witness:
  "case tresolve demo_tree 0 (ascii ''docs'') of
      None \<Rightarrow> remove demo_vfs 0 (ascii ''docs'') (Some 0) = Some (False, demo_vfs)
    | Some n \<Rightarrow> if n = root demo_vfs \<or> tcontains n 0 demo_tree
               then remove demo_vfs 0 (ascii ''docs'') (Some 0) = Some (False, demo_vfs)
               else \<exists>s'. remove demo_vfs 0 (ascii ''docs'') (Some 0) = Some (True, s') \<and> vfs_wf s' (tdel n demo_tree)"
  by (rule remove_correct [OF demo_wf demo_in(1) demo_in(1)])

text \<open>
  C12: \<^verbatim>\<open>move_node\<close> of a node other than the root: with a target whose name is free (or is the
  node's own) and which is not inside the node itself, the node leaves its directory and
  appears, renamed, at the front of the target directory, everything else being unchanged; in
  every other case nothing changes.
\<close>

theorem move_correct:
  assumes "vfs_wf s t" "b \<in> set (tids t)" "resolve s b src = Some (Some n)" "n \<noteq> root s"
    "tfind n t = Some c" "nodes s n = Some v"
  shows "\<exists>r. resolve_target s b dest v = Some r \<and>
    (if can_place t n c {None, Some n} r
     then \<exists>p leaf s'. r = Some (p, leaf) \<and> move_node s b src dest = Some (True, s')
       \<and> vfs_wf s' (tadd p (trename leaf c) (tdel n t))
     else move_node s b src dest = Some (False, s))"
proof (rule move_spec [OF assms, of dest])
  fix r assume "resolve_target s b dest v = Some r"
    and "\<not> can_place t n c {None, Some n} r \<Longrightarrow> move_node s b src dest = Some (False, s)"
    and "\<And>p leaf. r = Some (p, leaf) \<Longrightarrow> can_place t n c {None, Some n} r \<Longrightarrow>
       \<exists>s'. move_node s b src dest = Some (True, s') \<and> vfs_wf s' (tadd p (trename leaf c) (tdel n t))"
  moreover have "\<exists>p leaf. r = Some (p, leaf)" if "can_place t n c {None, Some n} r"
    using that by (auto simp: can_place_def split: option.splits)
  ultimately show ?thesis by (metis (no_types, lifting))
qed

theorem move_correct_witness:
  "\<exists>v r. resolve_target demo_vfs 0 (ascii ''moved'') v = Some r \<and>
    (if can_place demo_tree 1 (VDir 1 (ascii ''docs'') [VFile 2 (ascii ''a'') [7]]) {None, Some 1} r
     then \<exists>p leaf s'. r = Some (p, leaf) \<and> move_node demo_vfs 0 (ascii ''docs'') (ascii ''moved'') = Some (True, s')
       \<and> vfs_wf s' (tadd p (trename leaf (VDir 1 (ascii ''docs'') [VFile 2 (ascii ''a'') [7]])) (tdel 1 demo_tree))
     else move_node demo_vfs 0 (ascii ''docs'') (ascii ''moved'') = Some (False, demo_vfs))"
  by (rule exI, rule move_correct [OF demo_wf demo_in(1) demo_resolve(1,4,2,3)])

text \<open>
  C13: \<^verbatim>\<open>copy\<close> of a file or directory: with a target whose name is free and which is not inside
  the source directory, the target directory gains a copy built from fresh nodes (the same names
  and contents, the order of entries reversed at every level, since each copied child is linked
  at the front) under the target name, and the source is unchanged; otherwise nothing changes.
\<close>

theorem copy_correct:
  assumes "vfs_wf s t" "b \<in> set (tids t)" "resolve s b src = Some (Some n)"
    "tfind n t = Some c" "nodes s n = Some v"
  shows "\<exists>r. resolve_target s b dest v = Some r \<and>
    (if can_place t n c {None} r
     then \<exists>p leaf s' c'. r = Some (p, leaf) \<and> copy s b src dest = Some (True, s')
       \<and> erase c' = frename leaf (mirror (erase c)) \<and> set (tids c') = {next_id s..<next_id s'}
       \<and> vfs_wf s' (tadd p c' t)
     else copy s b src dest = Some (False, s))"
proof (rule copy_spec [OF assms, of dest])
  fix r assume "resolve_target s b dest v = Some r"
    and "\<not> can_place t n c {None} r \<Longrightarrow> copy s b src dest = Some (False, s)"
    and "\<And>p leaf. r = Some (p, leaf) \<Longrightarrow> can_place t n c {None} r \<Longrightarrow>
       \<exists>s' c'. copy s b src dest = Some (True, s') \<and> erase c' = frename leaf (mirror (erase c))
         \<and> set (tids c') = {next_id s..<next_id s'} \<and> vfs_wf s' (tadd p c' t)"
  moreover have "\<exists>p leaf. r = Some (p, leaf)" if "can_place t n c {None} r"
    using that by (auto simp: can_place_def split: option.splits)
  ultimately show ?thesis by (metis (no_types, lifting))
qed

theorem copy_correct_witness:
  "\<exists>v r. resolve_target demo_vfs 0 (ascii ''other'') v = Some r \<and>
    (if can_place demo_tree 1 (VDir 1 (ascii ''docs'') [VFile 2 (ascii ''a'') [7]]) {None} r
     then \<exists>p leaf s' c'. r = Some (p, leaf) \<and> copy demo_vfs 0 (ascii ''docs'') (ascii ''other'') = Some (True, s')
       \<and> erase c' = frename leaf (mirror (erase (VDir 1 (ascii ''docs'') [VFile 2 (ascii ''a'') [7]])))
       \<and> set (tids c') = {next_id demo_vfs..<next_id s'} \<and> vfs_wf s' (tadd p c' demo_tree)
     else copy demo_vfs 0 (ascii ''docs'') (ascii ''other'') = Some (False, demo_vfs))"
  by (rule exI, rule copy_correct [OF demo_wf demo_in(1) demo_resolve(1-3)])

text \<open>
  C14: after \<^verbatim>\<open>write_bytes\<close> reports success, \<^verbatim>\<open>cat\<close> of the same path prints exactly the bytes
  written (and a newline), whether the file existed or was created; the file system stays
  well-formed and no node that existed is lost, whatever the result.
\<close>

theorem write_then_cat:
  assumes "vfs_wf s t" "b \<in> set (tids t)"
  shows "\<exists>ok s' t'. write_bytes s b path data = Some (ok, s') \<and> vfs_wf s' t' \<and> set (tids t) \<subseteq> set (tids t')
    \<and> (ok = False \<or> cat s' b path = Some (Some (data @ [0x0A])))"
  by (rule write_bytes_spec [OF assms, of path data]) blast

theorem write_then_cat_witness:
  "\<exists>ok s' t'. write_bytes demo_vfs 0 (ascii ''docs/a'') [1, 2] = Some (ok, s') \<and> vfs_wf s' t'
    \<and> set (tids demo_tree) \<subseteq> set (tids t')
    \<and> (ok = False \<or> cat s' 0 (ascii ''docs/a'') = Some (Some ([1, 2] @ [0x0A])))"
  by (rule write_then_cat [OF demo_wf demo_in(1)])

text \<open>
  C15: the absolute path that \<^verbatim>\<open>vfs::path\<close> prints for a node leads back to that node, from any directory, exactly
  when neither the node nor a directory above it is called \<open>.\<close> or \<open>..\<close>, names that \<^verbatim>\<open>mkdir\<close> accepts.
\<close>

theorem vfs_path_roundtrip:
  assumes "vfs_wf s t" "n \<in> set (tids t)"
  shows "\<exists>path names. vfs_path s n = Some path \<and> path_parts s (Some n) = Some names \<and>
    (\<forall>b \<in> set (tids t). resolve s b path = Some (Some n) \<longleftrightarrow> (\<forall>nm \<in> set names. \<not> dot_name nm))"
  by (rule vfs_path_resolves [OF assms]) blast

theorem vfs_path_roundtrip_witness:
  "\<exists>path names. vfs_path demo_vfs 2 = Some path \<and> path_parts demo_vfs (Some 2) = Some names \<and>
    (\<forall>b \<in> set (tids demo_tree). resolve demo_vfs b path = Some (Some 2) \<longleftrightarrow> (\<forall>nm \<in> set names. \<not> dot_name nm))"
  by (rule vfs_path_roundtrip [OF demo_wf demo_in(2)])

section \<open>An unreachable directory\<close>

text \<open>
  Nothing stops a caller from creating an entry called \<open>..\<close>: \<^verbatim>\<open>mkdir\<close> accepts the name, since
  \<^verbatim>\<open>create_leaf\<close> looks only at the entries of the parent, and resolution never reaches it.
\<close>

lemma mkdir_dotdot_unreachable:
  "\<exists>s'. mkdir vfs_init 0 (ascii ''..'') = Some (True, s') \<and> resolve s' 0 (ascii ''..'') = Some (Some 0)"
proof -
  have r: "resolve_parent_and_leaf vfs_init 0 (ascii ''..'') = Some (Some (0, ascii ''..''))"
    by (simp add: resolve_parent_and_leaf_def trim_end_matches_def slash_def cut_name_short NAME_MAX_def)
  have in0: "0 \<in> set (tids (VDir 0 [] []))" by simp
  show ?thesis
  proof (rule create_leaf_spec [OF vfs_init_wf in0, of "ascii ''..''" Dir])
    fix q assume q: "resolve_parent_and_leaf vfs_init 0 (ascii ''..'') = Some q"
      and yes: "\<And>p leaf. q = Some (p, leaf) \<Longrightarrow> can_create (VDir 0 [] []) q \<Longrightarrow>
        \<exists>s'. create_leaf vfs_init 0 (ascii ''..'') Dir = Some (True, s')
          \<and> vfs_wf s' (tadd p (new_node Dir (next_id vfs_init) leaf) (VDir 0 [] []))"
    have "can_create (VDir 0 [] []) q" using q r by (simp add: can_create_def tentry_def)
    with yes [of 0 "ascii ''..''"] q r obtain s' where s': "mkdir vfs_init 0 (ascii ''..'') = Some (True, s')"
      "vfs_wf s' (VDir 0 [] [VDir (next_id vfs_init) (ascii ''..'') []])"
      by (auto simp: mkdir_def new_node_def)
    have "resolve s' 0 (ascii ''..'') = Some (Some 0)"
      unfolding resolve_tree [OF s'(2), of 0, simplified]
      by (simp add: tresolve_def starts_with_slash_def slash_def tstep_def cut_name_short NAME_MAX_def
        vfs_init_def alloc_vnode_def Let_def)
    with s'(1) show ?thesis by blast
  qed
qed

end
