(* ===== verification/Blkfs.thy ===== *)
theory Blkfs
  imports VfsProps
begin

text \<open>
  Persistence of the file system, \<^verbatim>\<open>kernel/src/fs/blkfs.rs\<close>: the tree serialised to bytes, the
  reader that replays a serialised tree as file-system calls, and loading from and saving to
  the block device. The device (\<^verbatim>\<open>drivers/virtio/blk.rs\<close> on top of the hardware) is a
  parameter: a state with a readiness flag and a capacity, and the operations to read and
  write a run of 512-byte sectors, each of which may fail.
\<close>

definition MAGIC :: nat where "MAGIC = 0x53464e41"

definition VERSION :: nat where "VERSION = 1"

definition SECTOR_SIZE :: nat where "SECTOR_SIZE = 512"

section \<open>Serialising\<close>

definition kind_byte :: "vnode_type \<Rightarrow> u8" where
  "kind_byte k = (case k of Dir \<Rightarrow> 0 | File \<Rightarrow> 1)"

partial_function (option) serialize_chain :: "vheap \<Rightarrow> nat option \<Rightarrow> bytes option" where
  "serialize_chain h c =
     (case c of None \<Rightarrow> Some []
      | Some n \<Rightarrow> do {
          v \<leftarrow> h n;
          body \<leftarrow> (if \<not> is_dir v then Some (to_le 4 (length (vdata v)) @ vdata v)
                   else do {
                     cs \<leftarrow> children_from h (vchildren v);
                     sub \<leftarrow> serialize_chain h (vchildren v);
                     Some (to_le 4 (length cs) @ sub) });
          rest \<leftarrow> serialize_chain h (vsibling v);
          Some (kind_byte (vkind v) # word_of_nat (length (vname v)) # vname v @ body @ rest) })"

definition serialize :: "vheap \<Rightarrow> nat \<Rightarrow> bytes option" where
  "serialize h node = (do {
     v \<leftarrow> h node;
     body \<leftarrow> (if \<not> is_dir v then Some (to_le 4 (length (vdata v)) @ vdata v)
              else do {
                cs \<leftarrow> children_from h (vchildren v);
                sub \<leftarrow> serialize_chain h (vchildren v);
                Some (to_le 4 (length cs) @ sub) });
     Some (kind_byte (vkind v) # word_of_nat (length (vname v)) # vname v @ body) })"

section \<open>Reading back\<close>

record reader =
  buf :: bytes
  pos :: nat

definition rd_bytes :: "reader \<Rightarrow> nat \<Rightarrow> (bytes \<times> reader) option" where
  "rd_bytes r len =
     (if pos r + len \<le> length (buf r)
      then Some (take len (drop (pos r) (buf r)), r\<lparr>pos := pos r + len\<rparr>) else None)"

definition rd_u8 :: "reader \<Rightarrow> (u8 \<times> reader) option" where
  "rd_u8 r = map_option (\<lambda>(b, r). (b ! 0, r)) (rd_bytes r 1)"

definition rd_u32 :: "reader \<Rightarrow> (nat \<times> reader) option" where
  "rd_u32 r = map_option (\<lambda>(b, r). (of_le b, r)) (rd_bytes r 4)"

text \<open>The kind, the name length and the name that open a record.\<close>

definition rd_head :: "reader \<Rightarrow> (u8 \<times> bytes \<times> reader) option" where
  "rd_head r = (do {
     (kind, r) \<leftarrow> rd_u8 r;
     (len, r) \<leftarrow> rd_u8 r;
     let name_len = unat len;
     if name_len \<ge> NAME_MAX then None
     else do {
       (name, r) \<leftarrow> rd_bytes r name_len;
       if utf8_valid name then Some (kind, name, r) else None } })"

text \<open>
  \<open>rd_file\<close> is the file branch of \<^verbatim>\<open>Reader::node\<close> and \<open>rd_children\<close> the loop over the records
  of a directory, with the recursive call for each record unfolded. The result is \<open>None\<close> when a
  file-system call would follow a bad pointer; inside, a corrupt record is \<open>Inl\<close> of the state
  left behind, since what was replayed before it stays in the tree.
\<close>

type_synonym 'a replay = "(vfs + ('a \<times> vfs)) option"

definition rd_file :: "vfs \<Rightarrow> nat \<Rightarrow> bytes \<Rightarrow> reader \<Rightarrow> reader replay" where
  "rd_file s parent name r =
     (case rd_u32 r of None \<Rightarrow> Some (Inl s)
      | Some (len, r) \<Rightarrow> do {
          (ok, s) \<leftarrow> create_file s parent name;
          if \<not> ok then Some (Inl s)
          else if len > 0 then
            (case rd_bytes r len of None \<Rightarrow> Some (Inl s)
             | Some (data, r) \<Rightarrow> do {
                 (ok, s) \<leftarrow> write_bytes s parent name data;
                 Some (if ok then Inr (r, s) else Inl s) })
          else Some (Inr (r, s)) })"

definition rd_dir :: "vfs \<Rightarrow> nat \<Rightarrow> bytes \<Rightarrow> nat replay" where
  "rd_dir s parent name = (do {
     (ok, s) \<leftarrow> mkdir s parent name;
     if \<not> ok then Some (Inl s)
     else do {
       d \<leftarrow> resolve s parent name;
       Some (case d of None \<Rightarrow> Inl s | Some dir \<Rightarrow> Inr (dir, s)) } })"

partial_function (option) rd_children :: "nat \<Rightarrow> vfs \<Rightarrow> nat \<Rightarrow> reader \<Rightarrow> reader replay" where
  "rd_children k s dir r =
     (if k = 0 then Some (Inr (r, s))
      else case rd_head r of None \<Rightarrow> Some (Inl s)
      | Some (kind, name, r) \<Rightarrow> do {
          one \<leftarrow> (if kind = kind_byte File then rd_file s dir name r
                  else do {
                    d \<leftarrow> rd_dir s dir name;
                    case d of Inl s \<Rightarrow> Some (Inl s)
                    | Inr (sub, s) \<Rightarrow>
                        (case rd_u32 r of None \<Rightarrow> Some (Inl s)
                         | Some (n, r) \<Rightarrow> rd_children n s sub r) });
          case one of Inl s \<Rightarrow> Some (Inl s)
          | Inr (r, s) \<Rightarrow> rd_children (k - 1) s dir r })"

text \<open>The record of the root, which \<^verbatim>\<open>vfs::init\<close> has already created.\<close>

definition rd_root :: "vfs \<Rightarrow> reader \<Rightarrow> reader replay" where
  "rd_root s r =
     (case rd_head r of None \<Rightarrow> Some (Inl s)
      | Some (kind, name, r) \<Rightarrow>
          if kind = kind_byte File then Some (Inl s)
          else (case rd_u32 r of None \<Rightarrow> Some (Inl s)
                | Some (n, r) \<Rightarrow> rd_children n s (root s) r))"

section \<open>Loading and saving\<close>

text \<open>
  The size of the buffer comes from the disk: \<open>alloc n\<close> tells whether the kernel heap can give \<open>n\<close> bytes. A size
  above \<^verbatim>\<open>isize::MAX\<close> or one the heap cannot give is a panic, as is a slice beyond the buffer, and \<open>None\<close> here.
\<close>

definition load :: "(nat \<Rightarrow> bool) \<Rightarrow> ('d \<Rightarrow> bool) \<Rightarrow> ('d \<Rightarrow> nat \<Rightarrow> nat \<Rightarrow> bytes option) \<Rightarrow> 'd \<Rightarrow> vfs \<Rightarrow> (bool \<times> vfs) option" where
  "load alloc is_ready blk_read d s =
     (if \<not> is_ready d then Some (True, s)
      else case blk_read d 0 1 of None \<Rightarrow> Some (False, s)
      | Some sb \<Rightarrow>
          let magic = of_le (take 4 sb); version = of_le (take 4 (drop 4 sb)); total_size = of_le (take 8 (drop 8 sb))
          in if magic \<noteq> MAGIC then Some (True, s)
             else if version \<noteq> VERSION then Some (True, s)
             else if total_size = 0 then Some (True, s)
             else let sectors = div_ceil total_size SECTOR_SIZE; size = sectors * SECTOR_SIZE mod 2 ^ 64
                  in if size \<ge> 2 ^ 63 \<or> \<not> alloc size then None
                     else case blk_read d 1 (sectors mod 2 ^ 32) of None \<Rightarrow> Some (False, s)
                     | Some data \<Rightarrow> do {
                         let buf = take size (data @ replicate (size - length data) 0);
                         buf \<leftarrow> slice buf 0 total_size;
                         res \<leftarrow> rd_root s \<lparr>buf = buf, pos = 0\<rparr>;
                         Some (case res of Inl s \<Rightarrow> (False, s) | Inr (_, s) \<Rightarrow> (True, s)) })"

definition save :: "('d \<Rightarrow> bool) \<Rightarrow> ('d \<Rightarrow> nat) \<Rightarrow> ('d \<Rightarrow> nat \<Rightarrow> bytes \<Rightarrow> 'd option) \<Rightarrow> 'd \<Rightarrow> vfs \<Rightarrow> (bool \<times> 'd) option" where
  "save is_ready capacity_sectors blk_write d s =
     (if \<not> is_ready d then Some (True, d)
      else do {
        data \<leftarrow> serialize (nodes s) (root s);
        let total_size = length data;
        let sectors = div_ceil total_size SECTOR_SIZE;
        let capacity = capacity_sectors d;
        if 1 + sectors > capacity then Some (False, d)
        else
          let data = data @ replicate (sectors * SECTOR_SIZE - total_size) 0;
              sb = to_le 4 MAGIC @ to_le 4 VERSION @ to_le 8 total_size @ replicate (SECTOR_SIZE - 16) 0
          in Some (case blk_write d 0 sb of None \<Rightarrow> (False, d)
                   | Some d1 \<Rightarrow>
                       if sectors > 0 then (case blk_write d1 1 (take ((sectors mod 2 ^ 32) * SECTOR_SIZE) data) of
                           None \<Rightarrow> (False, d1) | Some d2 \<Rightarrow> (True, d2))
                       else (True, d1)) })"

section \<open>The bytes of a tree\<close>

fun tbytes :: "vtree \<Rightarrow> bytes" where
  "tbytes (VFile n nm d) = 1 # word_of_nat (length nm) # nm @ to_le 4 (length d) @ d"
| "tbytes (VDir n nm ts) = 0 # word_of_nat (length nm) # nm @ to_le 4 (length ts) @ concat (map tbytes ts)"

lemma serialize_chain_rep:
  "rep h par sib t \<Longrightarrow>
     serialize_chain h (Some (tid t)) = do { rest \<leftarrow> serialize_chain h sib; Some (tbytes t @ rest) }"
  and serialize_chain_reps: "reps h par ts \<Longrightarrow> serialize_chain h (first_id ts) = Some (concat (map tbytes ts))"
proof (induction t and ts arbitrary: par sib and par rule: vtree_list_induct)
  case (File n nm d)
  then show ?case by (subst serialize_chain.simps) (simp add: is_dir_def kind_byte_def)
next
  case (Dir n nm ts)
  then have "serialize_chain h (first_id ts) = Some (concat (map tbytes ts))"
    "children_from h (first_id ts) = Some (map tid ts)" using children_from_reps by auto
  with Dir.prems show ?case by (subst serialize_chain.simps) (simp add: is_dir_def kind_byte_def)
next
  case Nil
  show ?case by (simp add: serialize_chain.simps)
next
  case (Cons t ts)
  then show ?case using Cons.IH(1) [of par "first_id ts"] Cons.IH(2) [of par] by simp
qed

lemma serialize_rep: "rep h par sib t \<Longrightarrow> serialize h (tid t) = Some (tbytes t)"
  using children_from_reps serialize_chain_reps
  by (cases t) (auto simp: serialize_def is_dir_def kind_byte_def)

section \<open>Reading a serialised tree\<close>

definition rem :: "reader \<Rightarrow> bytes" where
  "rem r = drop (pos r) (buf r)"

definition rd_ok :: "reader \<Rightarrow> bytes \<Rightarrow> bool" where
  "rd_ok r bs \<longleftrightarrow> pos r \<le> length (buf r) \<and> rem r = bs"

lemma rd_bytes_ok:
  assumes "rd_ok r (xs @ bs)"
  shows "\<exists>r'. rd_bytes r (length xs) = Some (xs, r') \<and> rd_ok r' bs"
proof -
  from assms have l: "length (xs @ bs) = length (buf r) - pos r" "drop (pos r) (buf r) = xs @ bs" "pos r \<le> length (buf r)"
    by (auto simp: rd_ok_def rem_def dest: arg_cong [of _ _ length])
  moreover from l have "drop (pos r + length xs) (buf r) = bs"
    by (metis add.commute append_eq_conv_conj drop_drop)
  ultimately show ?thesis by (auto simp: rd_bytes_def rd_ok_def rem_def)
qed

lemma rd_u8_ok: "rd_ok r (b # bs) \<Longrightarrow> \<exists>r'. rd_u8 r = Some (b, r') \<and> rd_ok r' bs"
  using rd_bytes_ok [of r "[b]" bs] by (auto simp: rd_u8_def)

lemma rd_u32_ok:
  assumes "rd_ok r (to_le 4 n @ bs)" "n < 2 ^ 32"
  shows "\<exists>r'. rd_u32 r = Some (n, r') \<and> rd_ok r' bs"
  using rd_bytes_ok [OF assms(1)] assms(2) by (auto simp: rd_u32_def of_le_to_le)

lemma rd_head_ok:
  assumes "rd_ok r (k # word_of_nat (length nm) # nm @ bs)" "length nm < NAME_MAX" "utf8_valid nm"
  shows "\<exists>r'. rd_head r = Some (k, nm, r') \<and> rd_ok r' bs"
proof -
  from rd_u8_ok [OF assms(1)] obtain r1 where r1: "rd_u8 r = Some (k, r1)" "rd_ok r1 (word_of_nat (length nm) # nm @ bs)"
    by blast
  from rd_u8_ok [OF r1(2)] obtain r2 where r2: "rd_u8 r1 = Some (word_of_nat (length nm), r2)" "rd_ok r2 (nm @ bs)"
    by blast
  from rd_bytes_ok [OF r2(2)] obtain r3 where r3: "rd_bytes r2 (length nm) = Some (nm, r3)" "rd_ok r3 bs" by blast
  have "unat (word_of_nat (length nm) :: u8) = length nm"
    using assms(2) by (simp add: unat_of_nat NAME_MAX_def)
  with r1(1) r2(1) r3 assms(2,3) show ?thesis by (simp add: rd_head_def)
qed

section \<open>Replaying a tree\<close>

text \<open>A tree that the format can hold: field widths, and names that lead back to their node.\<close>

fun storable :: "vtree \<Rightarrow> bool" where
  "storable (VFile n nm d) = (length d < 2 ^ 32)"
| "storable (VDir n nm ts) = (length ts < 2 ^ 32 \<and> distinct (map tname ts) \<and>
     (\<forall>t \<in> set ts. good_name (tname t) \<and> \<not> dot_name (tname t) \<and> utf8_valid (tname t) \<and> storable t))"

lemma plain_parent_leaf:
  assumes "good_name nm"
  shows "resolve_parent_and_leaf s b nm = Some (Some (b, nm))"
proof -
  from assms have ns: "slash \<notin> set nm" "nm \<noteq> []" "cut_name nm = nm" by (auto simp: good_name_def)
  obtain x xs where x: "rev nm = x # xs" using ns(2) by (cases "rev nm") auto
  then have "x \<in> set nm" by (metis list.set_intros(1) set_rev)
  with ns(1) x have "dropWhile (\<lambda>x. x = slash) (rev nm) = rev nm" by auto
  then have "trim_end_matches slash nm = nm" by (simp add: trim_end_matches_def)
  moreover have "rfind slash nm = None" using ns(1) by (simp add: rfind_None)
  ultimately show ?thesis using ns by (simp add: resolve_parent_and_leaf_def)
qed

lemma create_next_id: "create_leaf s b path k = Some (True, s') \<Longrightarrow> next_id s' = Suc (next_id s)"
  by (auto simp: create_leaf_def alloc_vnode_def Let_def bind_eq_Some_conv split: if_splits option.splits)

lemma create_plain:
  assumes wf: "vfs_wf s t" and u: "tfind p t = Some u" "tdir u" "tentry nm u = None"
    and nm: "good_name nm" "\<not> dot_name nm"
  shows "\<exists>s'. create_leaf s p nm k = Some (True, s') \<and> vfs_wf s' (tadd p (new_node k (next_id s) nm) t)
    \<and> next_id s' = Suc (next_id s) \<and> resolve s' p nm = Some (Some (next_id s))"
proof -
  have p: "p \<in> set (tids t)" using tfind_props [OF u(1)] tid_in_tids by blast
  have can: "can_create t (Some (p, nm))" using u nm(1) by (auto simp: can_create_def good_name_def)
  note r = plain_parent_leaf [OF nm(1), of s p]
  obtain s' where s': "create_leaf s p nm k = Some (True, s')" "vfs_wf s' (tadd p (new_node k (next_id s) nm) t)"
    by (rule create_leaf_spec [OF wf p, of nm k]) (use r can that in auto)
  have "next_id s \<notin> set (tids t)" using wf_rep(5) [OF wf, of "next_id s"] by auto
  then have "tresolve (tadd p (new_node k (next_id s) nm) t) p nm = Some (next_id s)"
    using resolve_created [OF wf p r can] nm(2) by (simp add: leads_to_def dot_name_def)
  moreover have "p \<in> set (tids (tadd p (new_node k (next_id s) nm) t))" using p tids_tadd by blast
  ultimately have "resolve s' p nm = Some (Some (next_id s))" using resolve_tree [OF s'(2)] by simp
  with s' create_next_id [OF s'(1)] show ?thesis by blast
qed

lemma write_existing:
  assumes wf: "vfs_wf s t" and r: "resolve s b path = Some (Some n)" and n: "tfind n t = Some (VFile n nm d)"
  shows "\<exists>s'. write_bytes s b path data = Some (True, s') \<and> vfs_wf s' (tput n data t) \<and> next_id s' = next_id s"
proof -
  have nt: "n \<in> set (tids t)" using tfind_props [OF n] by simp
  obtain v where v: "nodes s n = Some v" "\<not> is_dir v" by (rule wf_node [OF wf nt]) (use n that in auto)
  have "vfs_wf (s\<lparr>nodes := (nodes s)(n \<mapsto> v\<lparr>vdata := data\<rparr>)\<rparr>) (tput n data t)"
    using write_data_wf [OF wf n _ v(1)] by simp
  with r v show ?thesis by (simp add: write_bytes_def)
qed

text \<open>How the tree operations of a replay combine.\<close>

lemma tput_tadd: "n \<notin> set (tids t) \<Longrightarrow> tput n d (tadd p (VFile n nm x) t) = tadd p (VFile n nm d) t"
  by (induction t) (auto simp: tput_notin intro!: map_idI)

lemma tadd_nested:
  "n \<notin> set (tids t) \<Longrightarrow> n \<noteq> p \<Longrightarrow> tadd n y (tadd p (VDir n nm ys) t) = tadd p (VDir n nm (y # ys)) t"
  by (induction t) (auto simp: tadd_notin intro!: map_idI)

lemma foldr_tadd_nested:
  "n \<notin> set (tids t) \<Longrightarrow> n \<noteq> p \<Longrightarrow> foldr (tadd n) ys (tadd p (VDir n nm []) t) = tadd p (VDir n nm ys) t"
  by (induction ys) (auto simp: tadd_nested)

lemma tfind_tadd_new:
  "tfind p t = Some u \<Longrightarrow> tdir u \<Longrightarrow> tid c \<notin> set (tids t) \<Longrightarrow> tfind (tid c) (tadd p c t) = Some c"
  and tfinds_tadd_new:
  "tfinds p ts = Some u \<Longrightarrow> tdir u \<Longrightarrow> tid c \<notin> set (tidss ts) \<Longrightarrow> tfinds (tid c) (map (tadd p c) ts) = Some c"
proof (induction t and ts rule: vtree_list_induct)
  case (Cons t ts)
  show ?case
  proof (cases "tfind p t")
    case None
    then have "tadd p c t = t" by (simp add: tadd_notin tfind_None_iff)
    moreover have "tfind (tid c) t = None" using Cons.prems(3) by (simp add: tfind_None_iff)
    ultimately show ?thesis using Cons None by simp
  qed (use Cons in simp)
qed (auto split: if_splits)

lemma rd_file_ok:
  assumes wf: "vfs_wf s t" and u: "tfind p t = Some u" "tdir u" "tentry nm u = None"
    and nm: "good_name nm" "\<not> dot_name nm" and d: "length d < 2 ^ 32"
    and r: "rd_ok r (to_le 4 (length d) @ d @ rest)"
  shows "\<exists>s' r'. rd_file s p nm r = Some (Inr (r', s')) \<and> rd_ok r' rest \<and> next_id s' = Suc (next_id s)
    \<and> vfs_wf s' (tadd p (VFile (next_id s) nm d) t)"
proof -
  let ?n = "next_id s"
  from rd_u32_ok [OF r d] obtain r1 where r1: "rd_u32 r = Some (length d, r1)" "rd_ok r1 (d @ rest)" by blast
  from rd_bytes_ok [OF r1(2)] obtain r2 where r2: "rd_bytes r1 (length d) = Some (d, r2)" "rd_ok r2 rest" by blast
  from create_plain [OF wf u nm, of File] obtain s1 where s1: "create_file s p nm = Some (True, s1)"
    "vfs_wf s1 (tadd p (VFile ?n nm []) t)" "next_id s1 = Suc ?n" "resolve s1 p nm = Some (Some ?n)"
    by (auto simp: create_file_def new_node_def)
  have fresh: "?n \<notin> set (tids t)" using wf_rep(5) [OF wf, of ?n] by auto
  show ?thesis
  proof (cases "d = []")
    case True
    with r1 s1 show ?thesis by (simp add: rd_file_def)
  next
    case False
    have "tfind ?n (tadd p (VFile ?n nm []) t) = Some (VFile ?n nm [])"
      using tfind_tadd_new [OF u(1,2), of "VFile ?n nm []"] fresh by simp
    from write_existing [OF s1(2,4) this, of d] obtain s2 where
      "write_bytes s1 p nm d = Some (True, s2)" "vfs_wf s2 (tadd p (VFile ?n nm d) t)" "next_id s2 = Suc ?n"
      using s1(3) by (auto simp: tput_tadd [OF fresh])
    with r1(1) r2 s1(1) False show ?thesis by (simp add: rd_file_def)
  qed
qed

lemma rd_dir_ok:
  assumes wf: "vfs_wf s t" and u: "tfind p t = Some u" "tdir u" "tentry nm u = None"
    and nm: "good_name nm" "\<not> dot_name nm"
  shows "\<exists>s'. rd_dir s p nm = Some (Inr (next_id s, s')) \<and> next_id s' = Suc (next_id s)
    \<and> vfs_wf s' (tadd p (VDir (next_id s) nm []) t)"
  using create_plain [OF assms, of Dir] by (auto simp: rd_dir_def mkdir_def new_node_def)

text \<open>The trees \<open>ys\<close> replayed into directory \<open>p\<close>, from the state \<open>s\<close> to the state \<open>s'\<close>.\<close>

definition replayed :: "vfs \<Rightarrow> vtree \<Rightarrow> nat \<Rightarrow> vtree list \<Rightarrow> vfs \<Rightarrow> bool" where
  "replayed s t p ys s' \<longleftrightarrow> next_id s \<le> next_id s' \<and> set (tidss ys) = {next_id s..<next_id s'}
     \<and> vfs_wf s' (foldr (tadd p) ys t)"

lemma tentry_tadd_other:
  assumes "tentry nm u = None" "tname y \<noteq> nm"
  shows "tentry nm (tadd p y u) = None"
proof -
  have "tname (tadd p y x) = tname x" for x by (cases x) auto
  with assms show ?thesis by (cases u) (auto simp: tentry_None)
qed

lemma rd_record_ok:
  "storable x \<Longrightarrow> good_name (tname x) \<Longrightarrow> \<not> dot_name (tname x) \<Longrightarrow> utf8_valid (tname x) \<Longrightarrow>
     vfs_wf s t \<Longrightarrow> tfind p t = Some u \<Longrightarrow> tdir u \<Longrightarrow> tentry (tname x) u = None \<Longrightarrow> rd_ok r (tbytes x @ rest) \<Longrightarrow>
     \<exists>y s' r'. rd_children (Suc k) s p r = rd_children k s' p r' \<and> rd_ok r' rest
       \<and> replayed s t p [y] s' \<and> erase y = mirror (erase x)"
  and rd_children_ok:
  "\<forall>x \<in> set xs. storable x \<and> good_name (tname x) \<and> \<not> dot_name (tname x) \<and> utf8_valid (tname x) \<Longrightarrow>
     distinct (map tname xs) \<Longrightarrow> vfs_wf s t \<Longrightarrow> tfind p t = Some u \<Longrightarrow> tdir u \<Longrightarrow>
     \<forall>x \<in> set xs. tentry (tname x) u = None \<Longrightarrow> rd_ok r (concat (map tbytes xs) @ rest) \<Longrightarrow>
     \<exists>ys s' r'. rd_children (length xs) s p r = Some (Inr (r', s')) \<and> rd_ok r' rest
       \<and> replayed s t p ys s' \<and> map erase ys = rev (map (\<lambda>x. mirror (erase x)) xs)"
proof (induction x and xs arbitrary: s t p u r rest k and s t p u r rest rule: vtree_list_induct)
  case (File n nm d)
  from File.prems(9) have "rd_ok r (1 # word_of_nat (length nm) # nm @ (to_le 4 (length d) @ d @ rest))" by simp
  from rd_head_ok [OF this] File.prems(2,4) obtain r1 where r1: "rd_head r = Some (1, nm, r1)"
    "rd_ok r1 (to_le 4 (length d) @ d @ rest)" by (auto simp: good_name_def)
  have "tentry nm u = None" "good_name nm" "\<not> dot_name nm" "length d < 2 ^ 32" using File.prems by simp_all
  from rd_file_ok [OF File.prems(5-7) this r1(2)] obtain s' r' where
    "rd_file s p nm r1 = Some (Inr (r', s'))" "rd_ok r' rest" "next_id s' = Suc (next_id s)"
    "vfs_wf s' (tadd p (VFile (next_id s) nm d) t)" by blast
  with r1(1) show ?case
    by (intro exI [of _ "VFile (next_id s) nm d"] exI [of _ s'] exI [of _ r'])
       (auto simp: replayed_def rd_children.simps [of "Suc k"] kind_byte_def)
next
  case (Dir n nm ts)
  let ?n = "next_id s" and ?t1 = "tadd p (VDir (next_id s) nm []) t"
  from Dir.prems(9) have "rd_ok r (0 # word_of_nat (length nm) # nm @ (to_le 4 (length ts) @ concat (map tbytes ts) @ rest))"
    by simp
  from rd_head_ok [OF this] Dir.prems(2,4) obtain r1 where r1: "rd_head r = Some (0, nm, r1)"
    "rd_ok r1 (to_le 4 (length ts) @ concat (map tbytes ts) @ rest)" by (auto simp: good_name_def)
  have nm: "tentry nm u = None" "good_name nm" "\<not> dot_name nm" "length ts < 2 ^ 32" using Dir.prems by simp_all
  from rd_dir_ok [OF Dir.prems(5-7) nm(1-3)] obtain s1 where s1: "rd_dir s p nm = Some (Inr (?n, s1))"
    "next_id s1 = Suc ?n" "vfs_wf s1 ?t1" by blast
  from rd_u32_ok [OF r1(2) nm(4)] obtain r2 where r2: "rd_u32 r1 = Some (length ts, r2)"
    "rd_ok r2 (concat (map tbytes ts) @ rest)" by blast
  have fresh: "?n \<notin> set (tids t)" using wf_rep(5) [OF Dir.prems(5), of ?n] by auto
  have new: "tfind ?n ?t1 = Some (VDir ?n nm [])"
    using tfind_tadd_new [OF Dir.prems(6,7), of "VDir ?n nm []"] fresh by simp
  have ents: "\<forall>x \<in> set ts. tentry (tname x) (VDir ?n nm []) = None" by (simp add: tentry_def)
  have "\<exists>ys s' r'. rd_children (length ts) s1 ?n r2 = Some (Inr (r', s')) \<and> rd_ok r' rest
      \<and> replayed s1 ?t1 ?n ys s' \<and> map erase ys = rev (map (\<lambda>x. mirror (erase x)) ts)"
    using Dir.prems(1) by (intro Dir.IH [OF _ _ s1(3) new _ ents r2(2)]) auto
  then obtain ys s' r' where ys: "rd_children (length ts) s1 ?n r2 = Some (Inr (r', s'))" "rd_ok r' rest"
    "replayed s1 ?t1 ?n ys s'" "map erase ys = rev (map (\<lambda>x. mirror (erase x)) ts)" by blast
  have "?n \<noteq> p" using fresh tfind_props [OF Dir.prems(6)] by (metis subsetD tid_in_tids)
  then have "replayed s t p [VDir ?n nm ys] s'"
    using ys(3) s1(2) by (auto simp: replayed_def foldr_tadd_nested [OF fresh] simp del: set_concat)
  moreover have "rd_children (Suc k) s p r = rd_children k s' p r'"
    using r1(1) s1(1) r2(1) ys(1) by (simp add: rd_children.simps [of "Suc k"] kind_byte_def)
  ultimately show ?case using ys(2,4)
    by (intro exI [of _ "VDir ?n nm ys"] exI [of _ s'] exI [of _ r']) (simp add: rev_map comp_def)
next
  case Nil
  then show ?case
    by (intro exI [of _ "[]"] exI [of _ s] exI [of _ r]) (simp add: rd_children.simps replayed_def)
next
  case (Cons x xs)
  from Cons.prems(7) have "rd_ok r (tbytes x @ (concat (map tbytes xs) @ rest))" by simp
  from Cons.IH(1) [OF _ _ _ _ Cons.prems(3-5) _ this, of "length xs"] Cons.prems(1,6) obtain y s1 r1
    where y: "rd_children (Suc (length xs)) s p r = rd_children (length xs) s1 p r1"
      "rd_ok r1 (concat (map tbytes xs) @ rest)" "replayed s t p [y] s1" "erase y = mirror (erase x)" by auto
  have wf1: "vfs_wf s1 (tadd p y t)" using y(3) by (simp add: replayed_def)
  have pt: "p \<in> set (tids t)" using tfind_props [OF Cons.prems(4)] by (metis subsetD tid_in_tids)
  then have "p \<notin> set (tids y)" using y(3) wf_rep(5) [OF Cons.prems(3)] by (fastforce simp: replayed_def)
  then have u1: "tfind p (tadd p y t) = Some (tadd p y u)"
    using tfind_tadd [OF wf_rep(2) [OF Cons.prems(3)]] Cons.prems(4) by simp
  have "tname y = tname x" using y(4) fname_erase [of y] by simp
  then have ents: "\<forall>z \<in> set xs. tentry (tname z) (tadd p y u) = None"
    using Cons.prems(2,6) by (auto intro!: tentry_tadd_other) (metis imageI)
  have "tdir (tadd p y u)" using Cons.prems(5) by (cases u) auto
  then obtain ys s' r' where ys: "rd_children (length xs) s1 p r1 = Some (Inr (r', s'))" "rd_ok r' rest"
    "replayed s1 (tadd p y t) p ys s'" "map erase ys = rev (map (\<lambda>x. mirror (erase x)) xs)"
    using Cons.IH(2) [OF _ _ wf1 u1 _ ents y(2)] Cons.prems(1,2) by auto
  have "replayed s t p (ys @ [y]) s'"
    using y(3) ys(3) by (auto simp: replayed_def simp del: set_concat)
  with y(1,4) ys(1,2,4) show ?case by (intro exI [of _ "ys @ [y]"] exI [of _ s'] exI [of _ r']) simp
qed

section \<open>Saving, then loading\<close>

lemma rd_root_ok:
  assumes st: "storable x" "tdir x" "tname x = []" and r: "rd_ok r (tbytes x)"
    and wf: "vfs_wf s (VDir (root s) [] [])"
  shows "\<exists>y s' r'. rd_root s r = Some (Inr (r', s')) \<and> vfs_wf s' y \<and> erase y = mirror (erase x)"
proof -
  obtain n ts where x: "x = VDir n [] ts" using st(2,3) by (cases x) auto
  from r x have "rd_ok r (0 # word_of_nat (length ([] :: bytes)) # [] @ (to_le 4 (length ts) @ concat (map tbytes ts) @ []))"
    by simp
  from rd_head_ok [OF this] obtain r1 where r1: "rd_head r = Some (0, [], r1)"
    "rd_ok r1 (to_le 4 (length ts) @ concat (map tbytes ts) @ [])" by (auto simp: NAME_MAX_def)
  from rd_u32_ok [OF r1(2)] st(1) x obtain r2 where r2: "rd_u32 r1 = Some (length ts, r2)"
    "rd_ok r2 (concat (map tbytes ts) @ [])" by auto
  have "\<exists>ys s' r'. rd_children (length ts) s (root s) r2 = Some (Inr (r', s')) \<and> rd_ok r' []
      \<and> replayed s (VDir (root s) [] []) (root s) ys s' \<and> map erase ys = rev (map (\<lambda>x. mirror (erase x)) ts)"
    using st(1) x by (intro rd_children_ok [OF _ _ wf _ _ _ r2(2)]) (auto simp: tentry_def)
  then obtain ys s' r' where ys: "rd_children (length ts) s (root s) r2 = Some (Inr (r', s'))"
    "vfs_wf s' (foldr (tadd (root s)) ys (VDir (root s) [] []))" "map erase ys = rev (map (\<lambda>x. mirror (erase x)) ts)"
    by (auto simp: replayed_def)
  have "foldr (tadd (root s)) ys (VDir (root s) [] []) = VDir (root s) [] ys"
    by (induction ys) auto
  with ys r1(1) r2(1) x show ?thesis
    by (intro exI [of _ "VDir (root s) [] ys"] exI [of _ s'] exI [of _ r'])
       (simp add: rd_root_def kind_byte_def rev_map comp_def)
qed

text \<open>
  The device's contract that persistence relies on: a successful write of whole sectors is what
  a later read of the same sectors returns, and it leaves other sectors alone.
\<close>

definition blk_law :: "('d \<Rightarrow> nat \<Rightarrow> nat \<Rightarrow> bytes option) \<Rightarrow> ('d \<Rightarrow> nat \<Rightarrow> bytes \<Rightarrow> 'd option) \<Rightarrow> bool" where
  "blk_law blk_read blk_write \<longleftrightarrow>
     (\<forall>d lba k data d'. length data = k * SECTOR_SIZE \<longrightarrow> blk_write d lba data = Some d' \<longrightarrow>
        blk_read d' lba k = Some data
        \<and> (\<forall>lba' k'. lba' + k' \<le> lba \<or> lba + k \<le> lba' \<longrightarrow> blk_read d' lba' k' = blk_read d lba' k'))"

lemma div_ceil_tight: "0 < b \<Longrightarrow> 0 < a \<Longrightarrow> 0 < div_ceil a b"
  by (cases "div_ceil a b") (use div_ceil_ge [of b a] in auto)

lemma tbytes_ne: "tbytes t \<noteq> []"
  by (cases t) auto

lemma save_load:
  assumes wf: "vfs_wf s t" "storable t" and small: "length (tbytes t) < 2 ^ 32"
    and law: "blk_law blk_read blk_write" and rdy: "is_ready d" "is_ready d'"
    and saved: "save is_ready cap blk_write d s = Some (True, d')"
    and mem: "alloc (div_ceil (length (tbytes t)) SECTOR_SIZE * SECTOR_SIZE)"
    and wf0: "vfs_wf s0 (VDir (root s0) [] [])"
  shows "\<exists>s' t'. load alloc is_ready blk_read d' s0 = Some (True, s') \<and> vfs_wf s' t' \<and> erase t' = mirror (erase t)"
proof -
  note w = wf_rep [OF wf(1)]
  let ?data = "tbytes t" let ?n = "length ?data" let ?k = "div_ceil ?n SECTOR_SIZE"
  let ?pad = "?data @ replicate (?k * SECTOR_SIZE - ?n) 0"
  let ?sb = "to_le 4 MAGIC @ to_le 4 VERSION @ to_le 8 ?n @ replicate (SECTOR_SIZE - 16) (0 :: u8)"
  have ser: "serialize (nodes s) (root s) = Some ?data" using serialize_rep [OF w(1)] w(3) by simp
  have n0: "0 < ?n" using tbytes_ne [of t] by auto
  have k0: "0 < ?k" using n0 by (intro div_ceil_tight) (auto simp: SECTOR_SIZE_def)
  have kn: "?n \<le> ?k * SECTOR_SIZE" by (rule div_ceil_ge) (simp add: SECTOR_SIZE_def)
  have "?k \<le> ?n" using n0 by (subst div_ceil_le_iff) (auto simp: SECTOR_SIZE_def)
  then have kmod: "?k mod 4294967296 = ?k" using small by simp
  have lpad: "length ?pad = ?k * SECTOR_SIZE" using kn by simp
  from saved ser rdy(1) k0 obtain d1 where d1: "blk_write d 0 ?sb = Some d1" "blk_write d1 1 ?pad = Some d'"
    by (auto simp: save_def Let_def kmod kn split: if_splits option.splits)
  have sb: "blk_read d' 0 1 = Some ?sb" and dat: "blk_read d' 1 ?k = Some ?pad"
  proof -
    have "length ?sb = 1 * SECTOR_SIZE" by (simp add: SECTOR_SIZE_def)
    from law [unfolded blk_law_def, rule_format, OF this d1(1)] have "blk_read d1 0 1 = Some ?sb" by simp
    with law [unfolded blk_law_def, rule_format, OF lpad d1(2)]
    show "blk_read d' 0 1 = Some ?sb" "blk_read d' 1 ?k = Some ?pad" by auto
  qed
  have parts: "of_le (to_le 4 MAGIC) = MAGIC" "of_le (to_le 4 VERSION) = VERSION" "of_le (to_le 8 ?n) = ?n"
    using small by (simp_all add: of_le_to_le MAGIC_def VERSION_def)
  have "rd_ok \<lparr>buf = ?data, pos = 0\<rparr> (tbytes t)" by (simp add: rd_ok_def rem_def)
  from rd_root_ok [OF wf(2) _ w(8) this wf0] wf(1) obtain y s' r' where
    y: "rd_root s0 \<lparr>buf = ?data, pos = 0\<rparr> = Some (Inr (r', s'))" "vfs_wf s' y" "erase y = mirror (erase t)"
    by (auto simp: vfs_wf_def)
  have "?k * SECTOR_SIZE < 2 ^ 63" using small \<open>?k \<le> ?n\<close> by (simp add: SECTOR_SIZE_def)
  then have "load alloc is_ready blk_read d' s0 = Some (True, s')"
    using rdy(2) sb dat y(1) n0 kn mem unfolding load_def Let_def by (simp add: parts kmod slice_def)
  with y(2,3) show ?thesis by blast
qed

section \<open>Loading arbitrary data\<close>

lemma rd_bytes_pos: "rd_bytes r n = Some (xs, r') \<Longrightarrow> pos r' = pos r + n \<and> buf r' = buf r \<and> pos r' \<le> length (buf r')"
  by (auto simp: rd_bytes_def split: if_splits)

lemma rd_u32_pos: "rd_u32 r = Some (n, r') \<Longrightarrow> pos r' = pos r + 4 \<and> buf r' = buf r \<and> pos r' \<le> length (buf r')"
  by (auto simp: rd_u32_def dest: rd_bytes_pos)

lemma rd_head_pos:
  assumes "rd_head r = Some (k, nm, r')"
  shows "pos r + 2 \<le> pos r' \<and> buf r' = buf r \<and> pos r' \<le> length (buf r')"
proof -
  from assms obtain a r1 b r2 where "rd_u8 r = Some (a, r1)" "rd_u8 r1 = Some (b, r2)"
    "rd_bytes r2 (unat b) = Some (nm, r')"
    by (auto simp: rd_head_def bind_eq_Some_conv Let_def split: if_splits)
  then show ?thesis by (auto simp: rd_u8_def dest!: rd_bytes_pos)
qed

text \<open>The result of a replay step on arbitrary bytes: a well-formed tree that still has every node.\<close>

fun sound :: "vtree \<Rightarrow> reader \<Rightarrow> vfs + (reader \<times> vfs) \<Rightarrow> bool" where
  "sound t r (Inl s') \<longleftrightarrow> (\<exists>t'. vfs_wf s' t' \<and> set (tids t) \<subseteq> set (tids t'))"
| "sound t r (Inr (r', s')) \<longleftrightarrow> (\<exists>t'. vfs_wf s' t' \<and> set (tids t) \<subseteq> set (tids t'))
     \<and> buf r' = buf r \<and> pos r \<le> pos r'"

lemma create_grows:
  assumes "vfs_wf s t" "b \<in> set (tids t)"
  obtains ok s' t' where "create_leaf s b path k = Some (ok, s')" "vfs_wf s' t'" "set (tids t) \<subseteq> set (tids t')"
proof (rule create_leaf_spec [OF assms, of path k])
  fix r assume no: "\<not> can_create t r \<Longrightarrow> create_leaf s b path k = Some (False, s)"
    and yes: "\<And>p leaf. r = Some (p, leaf) \<Longrightarrow> can_create t r \<Longrightarrow> \<exists>s'. create_leaf s b path k = Some (True, s')
       \<and> vfs_wf s' (tadd p (new_node k (next_id s) leaf) t)"
  show ?thesis
  proof (cases "can_create t r")
    case True
    then obtain p leaf where "r = Some (p, leaf)" by (auto simp: can_create_def split: option.splits)
    from yes [OF this True] that tids_tadd show ?thesis by blast
  qed (use no assms(1) that in blast)
qed

lemma rd_file_sound:
  assumes wf: "vfs_wf s t" "p \<in> set (tids t)"
  shows "\<exists>res. rd_file s p nm r = Some res \<and> sound t r res"
proof (cases "rd_u32 r")
  case None
  with wf show ?thesis by (auto simp: rd_file_def)
next
  case (Some a)
  obtain len r1 where r1: "a = (len, r1)" by (cases a)
  obtain ok s1 t1 where s1: "create_leaf s p nm File = Some (ok, s1)" "vfs_wf s1 t1" "set (tids t) \<subseteq> set (tids t1)"
    by (rule create_grows [OF wf])
  show ?thesis
  proof (cases "rd_bytes r1 len")
    case None
    with Some r1 s1 rd_u32_pos [of r len r1] show ?thesis by (auto simp: rd_file_def create_file_def)
  next
    case (Some b)
    obtain d r2 where r2: "b = (d, r2)" by (cases b)
    have p1: "p \<in> set (tids t1)" using wf(2) s1(3) by blast
    obtain ok' s2 t2 where "write_bytes s1 p nm d = Some (ok', s2)" "vfs_wf s2 t2" "set (tids t1) \<subseteq> set (tids t2)"
      by (rule write_bytes_spec [OF s1(2) p1])
    with \<open>rd_u32 r = Some a\<close> Some r1 r2 s1 rd_u32_pos [of r len r1] rd_bytes_pos [of r1 len d r2]
    show ?thesis by (cases "len > 0") (auto simp: rd_file_def create_file_def)
  qed
qed

lemma rd_dir_sound:
  assumes wf: "vfs_wf s t" "p \<in> set (tids t)"
  obtains res where "rd_dir s p nm = Some res"
    "\<And>s'. res = Inl s' \<Longrightarrow> \<exists>t'. vfs_wf s' t' \<and> set (tids t) \<subseteq> set (tids t')"
    "\<And>n s'. res = Inr (n, s') \<Longrightarrow> \<exists>t'. vfs_wf s' t' \<and> set (tids t) \<subseteq> set (tids t') \<and> n \<in> set (tids t')"
proof -
  obtain ok s1 t1 where s1: "create_leaf s p nm Dir = Some (ok, s1)" "vfs_wf s1 t1" "set (tids t) \<subseteq> set (tids t1)"
    by (rule create_grows [OF wf])
  have p1: "p \<in> set (tids t1)" using wf(2) s1(3) by blast
  from resolve_wf [OF s1(2) p1] obtain d where d: "resolve s1 p nm = Some d"
    "\<And>m. d = Some m \<Longrightarrow> m \<in> set (tids t1)" by blast
  show ?thesis
  proof (cases "ok \<and> d \<noteq> None")
    case True
    then obtain n where "d = Some n" by auto
    with True s1 d show ?thesis by (intro that [of "Inr (n, s1)"]) (auto simp: rd_dir_def mkdir_def)
  next
    case False
    with s1 d show ?thesis by (intro that [of "Inl s1"]) (auto simp: rd_dir_def mkdir_def)
  qed
qed

lemma sound_mono:
  "sound t1 r1 res \<Longrightarrow> set (tids t) \<subseteq> set (tids t1) \<Longrightarrow> buf r1 = buf r \<Longrightarrow> pos r \<le> pos r1 \<Longrightarrow> sound t r res"
  by (cases res) (auto, (blast intro: subset_trans)+)

lemma rd_children_sound:
  assumes "vfs_wf s t" "p \<in> set (tids t)"
  shows "\<exists>res. rd_children k s p r = Some res \<and> sound t r res"
  using assms
proof (induction "length (buf r) - pos r" arbitrary: k s t p r rule: less_induct)
  case less
  show ?case
  proof (cases "k = 0 \<or> rd_head r = None")
    case True
    with less.prems show ?thesis by (subst rd_children.simps) auto
  next
    case False
    then obtain kd nm r1 where r1: "rd_head r = Some (kd, nm, r1)" by auto
    note h = rd_head_pos [OF r1]
    have "\<exists>one. (if kd = kind_byte File then rd_file s p nm r1 else do {
        d \<leftarrow> rd_dir s p nm;
        case d of Inl s \<Rightarrow> Some (Inl s)
        | Inr (sub, s) \<Rightarrow> (case rd_u32 r1 of None \<Rightarrow> Some (Inl s) | Some (n, r) \<Rightarrow> rd_children n s sub r) })
        = Some one \<and> sound t r1 one" (is "\<exists>one. ?rec = _ \<and> _")
    proof (cases "kd = kind_byte File")
      case True
      then show ?thesis using rd_file_sound [OF less.prems, of nm r1] by simp
    next
      case dir: False
      show ?thesis
      proof (rule rd_dir_sound [OF less.prems, of nm])
        fix res assume res: "rd_dir s p nm = Some res"
          and bad: "\<And>s'. res = Inl s' \<Longrightarrow> \<exists>t'. vfs_wf s' t' \<and> set (tids t) \<subseteq> set (tids t')"
          and good: "\<And>n s'. res = Inr (n, s') \<Longrightarrow> \<exists>t'. vfs_wf s' t' \<and> set (tids t) \<subseteq> set (tids t') \<and> n \<in> set (tids t')"
        show ?thesis
        proof (cases res)
          case (Inl s1)
          with res bad dir show ?thesis by simp
        next
          case (Inr b)
          obtain sub s1 where b: "b = (sub, s1)" by (cases b)
          from good Inr b obtain t1 where t1: "vfs_wf s1 t1" "set (tids t) \<subseteq> set (tids t1)" "sub \<in> set (tids t1)" by blast
          show ?thesis
          proof (cases "rd_u32 r1")
            case None
            with res Inr b dir t1 show ?thesis by auto
          next
            case (Some c)
            obtain n r2 where c: "c = (n, r2)" by (cases c)
            with Some have r2: "pos r2 = pos r1 + 4" "buf r2 = buf r1" "pos r2 \<le> length (buf r2)"
              by (auto dest: rd_u32_pos)
            have "length (buf r2) - pos r2 < length (buf r) - pos r" using h r2 by (auto intro!: diff_less_mono2)
            from less.hyps [OF this t1(1,3), of n] obtain one
              where "rd_children n s1 sub r2 = Some one" "sound t1 r2 one" by blast
            with sound_mono [of t1 r2 one t r1] t1(2) r2 res Inr b Some c dir show ?thesis by auto
          qed
        qed
      qed
    qed
    then obtain one where one: "?rec = Some one" "sound t r1 one" by blast
    show ?thesis
    proof (cases one)
      case (Inl s1)
      with one r1 False show ?thesis by (subst rd_children.simps) auto
    next
      case (Inr b)
      obtain r2 s1 where b: "b = (r2, s1)" by (cases b)
      with one(2) Inr obtain t1 where t1: "vfs_wf s1 t1" "set (tids t) \<subseteq> set (tids t1)"
        and r2: "buf r2 = buf r1" "pos r1 \<le> pos r2" by auto
      have "p \<in> set (tids t1)" using less.prems(2) t1(2) by blast
      moreover have "length (buf r2) - pos r2 < length (buf r) - pos r" using h r2 by (auto intro!: diff_less_mono2)
      ultimately obtain res where res: "rd_children (k - 1) s1 p r2 = Some res" "sound t1 r2 res"
        using less.hyps [of r2 s1 t1 p "k - 1"] t1(1) by blast
      have "sound t r res" using sound_mono [OF res(2) t1(2)] h r2 by auto
      moreover have "rd_children k s p r = Some res"
        using one(1) Inr b r1 False res(1) by (subst rd_children.simps) simp
      ultimately show ?thesis by blast
    qed
  qed
qed

text \<open>The size a disk's superblock claims, when \<^verbatim>\<open>load\<close> goes on to read the tree, and whether a buffer for it can be had.\<close>

definition claimed :: "('d \<Rightarrow> bool) \<Rightarrow> ('d \<Rightarrow> nat \<Rightarrow> nat \<Rightarrow> bytes option) \<Rightarrow> 'd \<Rightarrow> nat option" where
  "claimed is_ready blk_read d =
     (case blk_read d 0 1 of None \<Rightarrow> None
      | Some sb \<Rightarrow>
          if is_ready d \<and> of_le (take 4 sb) = MAGIC \<and> of_le (take 4 (drop 4 sb)) = VERSION \<and> of_le (take 8 (drop 8 sb)) \<noteq> 0
          then Some (of_le (take 8 (drop 8 sb))) else None)"

definition fits :: "(nat \<Rightarrow> bool) \<Rightarrow> nat \<Rightarrow> bool" where
  "fits alloc n \<longleftrightarrow> (let len = div_ceil n SECTOR_SIZE * SECTOR_SIZE in len < 2 ^ 63 \<and> alloc len)"

lemma sector_round: "n \<le> div_ceil n SECTOR_SIZE * SECTOR_SIZE" "div_ceil n SECTOR_SIZE * SECTOR_SIZE < n + SECTOR_SIZE"
proof -
  show "n \<le> div_ceil n SECTOR_SIZE * SECTOR_SIZE" by (rule div_ceil_ge) (simp add: SECTOR_SIZE_def)
  show "div_ceil n SECTOR_SIZE * SECTOR_SIZE < n + SECTOR_SIZE"
    unfolding div_ceil_def SECTOR_SIZE_def by (cases "n mod 512 > 0") (simp_all add: div_mult_mod_eq, presburger+)
qed

lemma load_sound:
  assumes "vfs_wf s t"
  shows "case claimed is_ready blk_read d of
      None \<Rightarrow> \<exists>ok. load alloc is_ready blk_read d s = Some (ok, s)
    | Some n \<Rightarrow>
        (fits alloc n \<longrightarrow> (\<exists>ok s' t'. load alloc is_ready blk_read d s = Some (ok, s') \<and> vfs_wf s' t' \<and> set (tids t) \<subseteq> set (tids t'))) \<and>
        (\<not> fits alloc n \<longrightarrow> n + SECTOR_SIZE \<le> 2 ^ 64 \<longrightarrow> load alloc is_ready blk_read d s = None)"
proof -
  have "\<exists>res. rd_root s r = Some res \<and> sound t r res" for r
  proof (cases "rd_head r")
    case None
    with assms show ?thesis by (auto simp: rd_root_def)
  next
    case (Some a)
    obtain kd nm r1 where a: "a = (kd, nm, r1)" by (cases a)
    with Some have r1: "buf r1 = buf r" "pos r \<le> pos r1" using rd_head_pos [of r kd nm r1] by auto
    show ?thesis
    proof (cases "kd = kind_byte File \<or> rd_u32 r1 = None")
      case True
      with Some a assms show ?thesis by (auto simp: rd_root_def)
    next
      case False
      then obtain n r2 where r2: "rd_u32 r1 = Some (n, r2)" by auto
      have "root s \<in> set (tids t)" using wf_rep(3) [OF assms] by simp
      from rd_children_sound [OF assms this, of n r2] obtain res
        where res: "rd_children n s (root s) r2 = Some res" "sound t r2 res" by blast
      have "sound t r res" using sound_mono [OF res(2)] r1 rd_u32_pos [OF r2] by auto
      with res(1) r2 Some a False show ?thesis by (simp add: rd_root_def)
    qed
  qed
  note rr = this
  have final: "\<exists>ok s'. (do { res \<leftarrow> rd_root s r; Some (case res of Inl s \<Rightarrow> (False, s) | Inr (_, s) \<Rightarrow> (True, s)) })
      = Some (ok, s') \<and> (\<exists>t'. vfs_wf s' t' \<and> set (tids t) \<subseteq> set (tids t'))" for r
  proof -
    from rr obtain res where res: "rd_root s r = Some res" "sound t r res" by blast
    then show ?thesis by (cases res) auto
  qed
  show ?thesis
  proof (cases "claimed is_ready blk_read d")
    case None
    then show ?thesis by (auto simp: claimed_def load_def Let_def split: option.splits if_splits)
  next
    case (Some n)
    then obtain sb where sb: "blk_read d 0 1 = Some sb" "is_ready d" "of_le (take 4 sb) = MAGIC" "of_le (take 4 (drop 4 sb)) = VERSION"
      "of_le (take 8 (drop 8 sb)) = n" "n \<noteq> 0" by (auto simp: claimed_def split: option.splits if_splits)
    let ?len = "div_ceil n SECTOR_SIZE * SECTOR_SIZE"
    have eq: "load alloc is_ready blk_read d s = (if ?len mod 2 ^ 64 \<ge> 2 ^ 63 \<or> \<not> alloc (?len mod 2 ^ 64) then None
        else case blk_read d 1 (div_ceil n SECTOR_SIZE mod 2 ^ 32) of None \<Rightarrow> Some (False, s)
        | Some data \<Rightarrow> do {
            buf \<leftarrow> slice (take (?len mod 2 ^ 64) (data @ replicate (?len mod 2 ^ 64 - length data) 0)) 0 n;
            res \<leftarrow> rd_root s \<lparr>buf = buf, pos = 0\<rparr>;
            Some (case res of Inl s \<Rightarrow> (False, s) | Inr (_, s) \<Rightarrow> (True, s)) })"
      unfolding load_def Let_def sb(1) option.case sb(3-5) using sb(2,6) by simp
    have "\<exists>ok s' t'. load alloc is_ready blk_read d s = Some (ok, s') \<and> vfs_wf s' t' \<and> set (tids t) \<subseteq> set (tids t')" if "fits alloc n"
    proof -
      have len: "?len < 2 ^ 63" "alloc ?len" using that by (simp_all add: fits_def Let_def)
      have sl: "\<exists>b. slice (take ?len (data @ replicate (?len - length data) 0)) 0 n = Some b" for data :: bytes
        using sector_round(1) [of n] by (auto simp: slice_def)
      have go: "\<exists>ok s' t'. (do { buf \<leftarrow> slice (take ?len (data @ replicate (?len - length data) 0)) 0 n; res \<leftarrow> rd_root s \<lparr>buf = buf, pos = 0\<rparr>;
          Some (case res of Inl s \<Rightarrow> (False, s) | Inr (_, s) \<Rightarrow> (True, s)) }) = Some (ok, s') \<and> vfs_wf s' t' \<and> set (tids t) \<subseteq> set (tids t')" for data
      proof -
        from sl obtain b where "slice (take ?len (data @ replicate (?len - length data) 0)) 0 n = Some b" by blast
        with final [of "\<lparr>buf = b, pos = 0\<rparr>"] show ?thesis by simp
      qed
      show ?thesis
      proof (cases "blk_read d 1 (div_ceil n SECTOR_SIZE mod 2 ^ 32)")
        case None
        with eq len assms show ?thesis by simp blast
      next
        case (Some data)
        with eq len go [of data] show ?thesis by simp
      qed
    qed
    moreover have "load alloc is_ready blk_read d s = None" if "\<not> fits alloc n" "n + SECTOR_SIZE \<le> 2 ^ 64"
      using that sector_round(2) [of n] unfolding eq by (simp add: fits_def Let_def not_less)
    ultimately show ?thesis using Some by simp
  qed
qed

section \<open>Properties\<close>

text \<open>
  C16: a file system that was saved is loaded back: after a successful \<^verbatim>\<open>save\<close>, \<^verbatim>\<open>load\<close> into the
  fresh file system succeeds and yields the same tree (names, kinds and file contents), except
  that the order of the entries of every directory is reversed, since \<^verbatim>\<open>link_child\<close> links each
  replayed entry at the front. This needs a tree that the format can hold: UTF-8 names, no entry called \<open>.\<close>
  or \<open>..\<close>, and less than \<open>2 ^ 32\<close> bytes in all; a device that reads back what was written; and memory for the buffer.
\<close>

theorem save_load_roundtrip:
  assumes "vfs_wf s t" "storable t" "length (tbytes t) < 2 ^ 32"
    "blk_law blk_read blk_write" "is_ready d" "is_ready d'"
    "save is_ready cap blk_write d s = Some (True, d')"
    "alloc (div_ceil (length (tbytes t)) SECTOR_SIZE * SECTOR_SIZE)"
    "vfs_wf s0 (VDir (root s0) [] [])"
  shows "\<exists>s' t'. load alloc is_ready blk_read d' s0 = Some (True, s') \<and> vfs_wf s' t' \<and> erase t' = mirror (erase t)"
  using assms by (rule save_load)

text \<open>
  C17: what \<^verbatim>\<open>load\<close> does with any disk contents. Without a superblock of this format it leaves the file system as it was. With
  one, let \<open>n\<close> be the size it claims. If the kernel heap can give a buffer for \<open>n\<close> bytes, \<^verbatim>\<open>load\<close> returns whatever the
  other sectors hold and whatever reads fail (its record loops end and no file-system call follows a bad pointer), and
  the file system is a well-formed tree that still has every node it had before. If not, it panics (a claim within a sector of \<open>2 ^ 64\<close>,
  whose rounding wraps, is left out): the claim is not compared with the size of the disk.
\<close>

theorem load_any_disk:
  assumes "vfs_wf s t"
  shows "case claimed is_ready blk_read d of
      None \<Rightarrow> \<exists>ok. load alloc is_ready blk_read d s = Some (ok, s)
    | Some n \<Rightarrow>
        (fits alloc n \<longrightarrow> (\<exists>ok s' t'. load alloc is_ready blk_read d s = Some (ok, s') \<and> vfs_wf s' t' \<and> set (tids t) \<subseteq> set (tids t'))) \<and>
        (\<not> fits alloc n \<longrightarrow> n + SECTOR_SIZE \<le> 2 ^ 64 \<longrightarrow> load alloc is_ready blk_read d s = None)"
  using assms by (rule load_sound)

text \<open>A disk whose superblock is right and whose data ends inside its first record.\<close>

definition torn_disk :: "unit \<Rightarrow> nat \<Rightarrow> nat \<Rightarrow> bytes option" where
  "torn_disk d lba k = Some (if lba = 0 then to_le 4 MAGIC @ to_le 4 VERSION @ to_le 8 9 @ replicate (SECTOR_SIZE - 16) 0
     else 0 # 0 # to_le 4 1 @ [0, 7, 65] @ replicate (k * SECTOR_SIZE - 9) 0xFF)"

theorem load_any_disk_witness:
  "claimed (\<lambda>_. True) torn_disk () = Some 9 \<and> fits (\<lambda>n. n \<le> 512) 9 \<and>
   (\<exists>ok s' t'. load (\<lambda>n. n \<le> 512) (\<lambda>_. True) torn_disk () vfs_init = Some (ok, s') \<and> vfs_wf s' t' \<and> set (tids (VDir 0 [] [])) \<subseteq> set (tids t'))"
proof -
  have c: "claimed (\<lambda>_. True) torn_disk () = Some 9"
    by (simp add: claimed_def torn_disk_def of_le_to_le MAGIC_def VERSION_def)
  have f: "fits (\<lambda>n. n \<le> 512) 9" by (simp add: fits_def div_ceil_def SECTOR_SIZE_def)
  from load_any_disk [OF vfs_init_wf, where is_ready = "\<lambda>_. True" and blk_read = torn_disk and d = "()" and alloc = "\<lambda>n. n \<le> 512"] c f show ?thesis by simp
qed

text \<open>A single bad field halts the machine at boot: nothing bounds the size by the disk.\<close>

lemma huge_claim_panics:
  "load (\<lambda>n. n \<le> 2 ^ 40) (\<lambda>_. True) (\<lambda>d lba k. Some (to_le 4 MAGIC @ to_le 4 VERSION @ to_le 8 (2 ^ 41) @ replicate 496 0)) () s = None"
  by (simp add: load_def Let_def of_le_to_le MAGIC_def VERSION_def SECTOR_SIZE_def div_ceil_def)

definition ram_read :: "(nat \<Rightarrow> bytes) \<Rightarrow> nat \<Rightarrow> nat \<Rightarrow> bytes option" where
  "ram_read d lba k = Some (concat (map d [lba..<lba + k]))"

definition ram_write :: "(nat \<Rightarrow> bytes) \<Rightarrow> nat \<Rightarrow> bytes \<Rightarrow> (nat \<Rightarrow> bytes) option" where
  "ram_write d lba data = Some (\<lambda>i. if lba \<le> i \<and> i < lba + length data div SECTOR_SIZE
     then take SECTOR_SIZE (drop (SECTOR_SIZE * (i - lba)) data) else d i)"

lemma concat_chunks: "concat (map (\<lambda>i. take c (drop (c * i) xs)) [0..<k]) = take (c * k) xs"
proof (induction k)
  case (Suc k)
  have "take (c * Suc k) xs = take (c * k) xs @ take c (drop (c * k) xs)"
    by (metis add.commute mult_Suc_right take_add)
  with Suc show ?case by simp
qed simp

lemma ram_law: "blk_law ram_read ram_write"
  unfolding blk_law_def
proof (intro allI impI)
  fix d d' :: "nat \<Rightarrow> bytes" and lba k data
  assume len: "length data = k * SECTOR_SIZE" and wr: "ram_write d lba data = Some d'"
  have k: "length data div SECTOR_SIZE = k" using len by (simp add: SECTOR_SIZE_def)
  have "map d' [lba..<lba + k] = map (\<lambda>i. take SECTOR_SIZE (drop (SECTOR_SIZE * i) data)) [0..<k]"
    using wr k by (auto simp: ram_write_def intro!: nth_equalityI)
  then have "ram_read d' lba k = Some data"
    using len by (simp add: ram_read_def concat_chunks mult.commute [of k])
  moreover have "ram_read d' l m = ram_read d l m" if "l + m \<le> lba \<or> lba + k \<le> l" for l m
    using wr k that by (auto simp: ram_read_def ram_write_def intro!: arg_cong [of _ _ concat])
  ultimately show "ram_read d' lba k = Some data \<and> (\<forall>lba' k'. lba' + k' \<le> lba \<or> lba + k \<le> lba' \<longrightarrow>
      ram_read d' lba' k' = ram_read d lba' k')" by blast
qed

lemma demo_save: "\<exists>d'. save (\<lambda>_. True) (\<lambda>_. 1000) ram_write (\<lambda>_. []) demo_vfs = Some (True, d')"
proof -
  have "serialize (nodes demo_vfs) (root demo_vfs) = Some (tbytes demo_tree)"
    using serialize_rep [OF wf_rep(1) [OF demo_wf]] wf_rep(3) [OF demo_wf] by simp
  moreover have "div_ceil (length (tbytes demo_tree)) SECTOR_SIZE = 1"
    by (simp add: demo_tree_def div_ceil_def SECTOR_SIZE_def)
  ultimately show ?thesis by (simp add: save_def ram_write_def Let_def)
qed

theorem save_load_roundtrip_witness:
  "\<exists>d' s' t'. save (\<lambda>_. True) (\<lambda>_. 1000) ram_write (\<lambda>_. []) demo_vfs = Some (True, d')
     \<and> load (\<lambda>n. n \<le> 65536) (\<lambda>_. True) ram_read d' vfs_init = Some (True, s') \<and> vfs_wf s' t'
     \<and> erase t' = mirror (erase demo_tree)"
proof -
  have st: "storable demo_tree" "length (tbytes demo_tree) < 2 ^ 32"
    by (simp_all add: demo_tree_def good_name_def dot_name_def slash_def cut_name_short NAME_MAX_def)
  have wf0: "vfs_wf vfs_init (VDir (root vfs_init) [] [])"
    using vfs_init_wf by (simp add: vfs_init_def alloc_vnode_def Let_def)
  from demo_save obtain d' where "save (\<lambda>_. True) (\<lambda>_. 1000) ram_write (\<lambda>_. []) demo_vfs = Some (True, d')" by blast
  moreover have "div_ceil (length (tbytes demo_tree)) SECTOR_SIZE * SECTOR_SIZE \<le> 65536"
    by (simp add: demo_tree_def div_ceil_def SECTOR_SIZE_def)
  ultimately show ?thesis using save_load_roundtrip [OF demo_wf st ram_law _ _ _ _ wf0, of "\<lambda>_. True" "\<lambda>_. []" d' "\<lambda>_. 1000" "\<lambda>n. n \<le> 65536"] by blast
qed

section \<open>A corrupt disk\<close>

text \<open>
  \<^verbatim>\<open>load\<close> reports a corrupt disk with the words "starting with an empty filesystem", but what was
  replayed before the corrupt record stays: here the directory \<open>a\<close>.
\<close>

lemma corrupt_load_keeps_nodes:
  "\<exists>s' t'. rd_root vfs_init \<lparr>buf = 0 # 0 # to_le 4 2 @ tbytes (VDir 0 (ascii ''a'') []), pos = 0\<rparr> = Some (Inl s')
     \<and> vfs_wf s' t' \<and> erase t' = FDir [] [FDir (ascii ''a'') []]"
proof -
  let ?x = "VDir 0 (ascii ''a'') []" and ?t = "VDir 0 [] []"
  let ?r = "\<lparr>buf = 0 # 0 # to_le 4 2 @ tbytes ?x, pos = 0\<rparr>"
  have good: "storable ?x" "good_name (tname ?x)" "\<not> dot_name (tname ?x)" "utf8_valid (tname ?x)"
    by (simp_all add: good_name_def dot_name_def slash_def cut_name_short NAME_MAX_def)
  have "rd_ok ?r (0 # word_of_nat (length ([] :: bytes)) # [] @ (to_le 4 2 @ tbytes ?x @ []))"
    by (simp add: rd_ok_def rem_def)
  from rd_head_ok [OF this] obtain r1 where r1: "rd_head ?r = Some (0, [], r1)" "rd_ok r1 (to_le 4 2 @ tbytes ?x @ [])"
    by (auto simp: NAME_MAX_def)
  from rd_u32_ok [OF r1(2)] obtain r2 where r2: "rd_u32 r1 = Some (2, r2)" "rd_ok r2 (tbytes ?x @ [])" by auto
  have rt: "root vfs_init = 0" by (simp add: vfs_init_def alloc_vnode_def Let_def)
  have "\<exists>y s' r'. rd_children (Suc 1) vfs_init 0 r2 = rd_children 1 s' 0 r' \<and> rd_ok r' []
      \<and> replayed vfs_init ?t 0 [y] s' \<and> erase y = mirror (erase ?x)"
    by (rule rd_record_ok [OF good vfs_init_wf _ _ _ r2(2)]) (auto simp: tentry_def)
  then obtain y s' r' where y: "rd_children 2 vfs_init 0 r2 = rd_children 1 s' 0 r'" "rd_ok r' []"
    "vfs_wf s' (VDir 0 [] [y])" "erase y = FDir (ascii ''a'') []"
    by (auto simp: replayed_def numeral_2_eq_2)
  have "rd_head r' = None" using y(2) by (auto simp: rd_head_def rd_u8_def rd_bytes_def rd_ok_def rem_def)
  then have "rd_children 1 s' 0 r' = Some (Inl s')" by (subst rd_children.simps) simp
  with r1(1) r2(1) y rt show ?thesis
    by (intro exI [of _ s'] exI [of _ "VDir 0 [] [y]"]) (simp add: rd_root_def kind_byte_def)
qed

end
