(* ===== verification/Vt.thy ===== *)
theory Vt
  imports AnssPrelude
begin

text \<open>
  The virtual terminal of the multiplexer, \<^verbatim>\<open>userland/rust/tile/src/vt.rs\<close>: a grid of cells
  updated by a byte stream with UTF-8 and CSI escape sequences. Columns, rows and the cursor
  are natural numbers (the code's \<^verbatim>\<open>u16\<close>; the invariant bounds them, so no addition of the
  code wraps); parameters saturate at the width as the code's do. A character is its code
  point. Writing a cell or dropping a row outside the grid, where Rust panics, is \<open>None\<close>.
\<close>

section \<open>Cells\<close>

record attr =
  fg :: "nat option"
  bg :: "nat option"
  bold :: bool
  dim :: bool
  rev_video :: bool

definition PLAIN :: attr where
  "PLAIN = \<lparr>fg = None, bg = None, bold = False, dim = False, rev_video = False\<rparr>"

record cell =
  ch :: nat
  cattr :: attr

definition BLANK :: cell where
  "BLANK = \<lparr>ch = 32, cattr = PLAIN\<rparr>"

definition MAX_PARAMS :: nat where
  "MAX_PARAMS = 8"

datatype parse_state = Normal | Esc | Csi

record vt =
  cols :: nat
  rows :: nat
  cells :: "cell list"
  cx :: nat
  cy :: nat
  attr_now :: attr
  cursor_visible :: bool
  state :: parse_state
  utf8_cp :: nat
  utf8_need :: nat
  params :: "nat list"
  nparams :: nat
  private_csi :: bool

definition vt_new :: "nat \<Rightarrow> nat \<Rightarrow> vt" where
  "vt_new c r =
     (let c = max c 1; r = max r 1
      in \<lparr>cols = c, rows = r, cells = replicate (c * r) BLANK, cx = 0, cy = 0, attr_now = PLAIN,
          cursor_visible = True, state = Normal, utf8_cp = 0, utf8_need = 0,
          params = replicate MAX_PARAMS 0, nparams = 0, private_csi = False\<rparr>)"

definition vt_cell :: "vt \<Rightarrow> nat \<Rightarrow> nat \<Rightarrow> cell option" where
  "vt_cell v x y = (let i = y * cols v + x in if i < length (cells v) then Some (cells v ! i) else None)"

definition vt_set :: "vt \<Rightarrow> nat \<Rightarrow> nat \<Rightarrow> cell \<Rightarrow> vt option" where
  "vt_set v x y c =
     (let i = y * cols v + x
      in if i < length (cells v) then Some (v\<lparr>cells := (cells v)[i := c]\<rparr>) else None)"

text \<open>A \<^verbatim>\<open>for\<close> loop whose body may panic.\<close>

fun for_each :: "('s \<Rightarrow> nat \<Rightarrow> 's option) \<Rightarrow> nat list \<Rightarrow> 's \<Rightarrow> 's option" where
  "for_each f [] s = Some s"
| "for_each f (i # is) s = (case f s i of None \<Rightarrow> None | Some s' \<Rightarrow> for_each f is s')"

definition vt_erase :: "vt \<Rightarrow> nat \<Rightarrow> nat \<Rightarrow> nat \<Rightarrow> vt option" where
  "vt_erase v x y count = for_each (\<lambda>v i. vt_set v i y BLANK) [x..<min (x + count) (cols v)] v"

definition erase_rows :: "vt \<Rightarrow> nat \<Rightarrow> nat \<Rightarrow> vt option" where
  "erase_rows v from to = for_each (\<lambda>v y. vt_erase v 0 y (cols v)) [from..<to] v"

definition scroll_up :: "vt \<Rightarrow> vt option" where
  "scroll_up v =
     (if cols v \<le> length (cells v)
      then Some (v\<lparr>cells := drop (cols v) (cells v) @ replicate (cols v) BLANK\<rparr>) else None)"

definition next_row :: "vt \<Rightarrow> vt option" where
  "next_row v =
     (let v = v\<lparr>cy := cy v + 1\<rparr>
      in if cy v \<ge> rows v then map_option (\<lambda>v. v\<lparr>cy := rows v - 1\<rparr>) (scroll_up v) else Some v)"

definition vt_put :: "vt \<Rightarrow> nat \<Rightarrow> vt option" where
  "vt_put v c = (do {
     v \<leftarrow> vt_set v (cx v) (cy v) \<lparr>ch = c, cattr = attr_now v\<rparr>;
     let v = v\<lparr>cx := cx v + 1\<rparr>;
     if cx v \<ge> cols v then next_row (v\<lparr>cx := 0\<rparr>) else Some v })"

section \<open>Escape sequences\<close>

definition param_or :: "vt \<Rightarrow> nat \<Rightarrow> nat \<Rightarrow> nat" where
  "param_or v n fallback = (if n \<ge> nparams v \<or> params v ! n = 0 then fallback else params v ! n)"

definition SAT :: nat where
  "SAT = 65535"

text \<open>One SGR parameter.\<close>

definition sgr :: "attr \<Rightarrow> nat \<Rightarrow> attr" where
  "sgr a p =
     (if p = 0 then PLAIN
      else if p = 1 then a\<lparr>bold := True\<rparr>
      else if p = 2 then a\<lparr>dim := True\<rparr>
      else if p = 7 then a\<lparr>rev_video := True\<rparr>
      else if p = 22 then a\<lparr>bold := False, dim := False\<rparr>
      else if p = 27 then a\<lparr>rev_video := False\<rparr>
      else if 30 \<le> p \<and> p \<le> 37 then a\<lparr>fg := Some (p - 30)\<rparr>
      else if p = 39 then a\<lparr>fg := None\<rparr>
      else if 40 \<le> p \<and> p \<le> 47 then a\<lparr>bg := Some (p - 40)\<rparr>
      else if p = 49 then a\<lparr>bg := None\<rparr>
      else if 90 \<le> p \<and> p \<le> 97 then a\<lparr>fg := Some (p - 90 + 8)\<rparr>
      else if 100 \<le> p \<and> p \<le> 107 then a\<lparr>bg := Some (p - 100 + 8)\<rparr>
      else a)"

definition csi :: "vt \<Rightarrow> u8 \<Rightarrow> vt option" where
  "csi v fin =
     (let c = cols v; r = rows v; mode = (if nparams v > 0 then params v ! 0 else 0)
      in if fin = 0x48 \<or> fin = 0x66 then
           Some (v\<lparr>cy := min (param_or v 0 1 - 1) (r - 1), cx := min (param_or v 1 1 - 1) (c - 1)\<rparr>)
         else if fin = 0x41 then Some (v\<lparr>cy := cy v - param_or v 0 1\<rparr>)
         else if fin = 0x42 then Some (v\<lparr>cy := min (min (cy v + param_or v 0 1) SAT) (r - 1)\<rparr>)
         else if fin = 0x43 then Some (v\<lparr>cx := min (min (cx v + param_or v 0 1) SAT) (c - 1)\<rparr>)
         else if fin = 0x44 then Some (v\<lparr>cx := cx v - param_or v 0 1\<rparr>)
         else if fin = 0x4A then
           (if mode = 2 then erase_rows v 0 r
            else if mode = 1 then do { v \<leftarrow> erase_rows v 0 (cy v); vt_erase v 0 (cy v) (cx v + 1) }
            else do { v \<leftarrow> vt_erase v (cx v) (cy v) (c - cx v); erase_rows v (cy v + 1) r })
         else if fin = 0x4B then
           (if mode = 2 then vt_erase v 0 (cy v) c
            else if mode = 1 then vt_erase v 0 (cy v) (cx v + 1)
            else vt_erase v (cx v) (cy v) (c - cx v))
         else if fin = 0x6D then
           Some (v\<lparr>attr_now := (if nparams v = 0 then PLAIN
                               else fold (\<lambda>i a. sgr a (params v ! i)) [0..<nparams v] (attr_now v))\<rparr>)
         else Some v)"

definition do_private_csi :: "vt \<Rightarrow> u8 \<Rightarrow> vt" where
  "do_private_csi v fin =
     (if nparams v > 0 \<and> params v ! 0 = 25 then
        (if fin = 0x68 then v\<lparr>cursor_visible := True\<rparr>
         else if fin = 0x6C then v\<lparr>cursor_visible := False\<rparr> else v)
      else v)"

section \<open>One byte\<close>

text \<open>\<^verbatim>\<open>char::from_u32\<close>: every code point but the surrogates.\<close>

definition is_scalar :: "nat \<Rightarrow> bool" where
  "is_scalar n \<longleftrightarrow> n < 0xD800 \<or> (0xE000 \<le> n \<and> n \<le> 0x10FFFF)"

definition csi_byte :: "vt \<Rightarrow> u8 \<Rightarrow> vt option" where
  "csi_byte v b =
     (if b = 0x3F \<and> nparams v = 0 then Some (v\<lparr>private_csi := True\<rparr>)
      else if 0x30 \<le> b \<and> b \<le> 0x39 then
        (let v = (if nparams v = 0 then v\<lparr>nparams := 1\<rparr> else v);
             p = params v ! (nparams v - 1)
         in Some (v\<lparr>params := (params v)[nparams v - 1 := min (min (p * 10) SAT + unat (b - 0x30)) SAT]\<rparr>))
      else if b = 0x3B then
        (let v = (if nparams v = 0 then v\<lparr>nparams := 1\<rparr> else v)
         in Some (if nparams v < MAX_PARAMS then v\<lparr>nparams := nparams v + 1\<rparr> else v))
      else do {
        v \<leftarrow> (if private_csi v then Some (do_private_csi v b) else csi v b);
        Some (v\<lparr>state := Normal\<rparr>) })"

definition plain_byte :: "vt \<Rightarrow> u8 \<Rightarrow> vt option" where
  "plain_byte v b =
     (case state v of
        Esc \<Rightarrow> Some (if b = 0x5B
                 then v\<lparr>state := Csi, params := replicate MAX_PARAMS 0, nparams := 0, private_csi := False\<rparr>
                 else v\<lparr>state := Normal\<rparr>)
      | Csi \<Rightarrow> csi_byte v b
      | Normal \<Rightarrow>
          if b = 0x1B then Some (v\<lparr>state := Esc\<rparr>)
          else if b = 0x0A then next_row (v\<lparr>cx := 0\<rparr>)
          else if b = 0x0D then Some (v\<lparr>cx := 0\<rparr>)
          else if b = 0x08 then
            (if cx v > 0
             then (let v = v\<lparr>cx := cx v - 1\<rparr> in vt_set v (cx v) (cy v) \<lparr>ch = 32, cattr = attr_now v\<rparr>)
             else Some v)
          else if 0x20 \<le> b \<and> b \<le> 0x7E then vt_put v (unat b)
          else Some v)"

definition lead_byte :: "vt \<Rightarrow> u8 \<Rightarrow> vt option" where
  "lead_byte v b =
     (if 0xC0 \<le> b \<and> b \<le> 0xDF then Some (v\<lparr>utf8_cp := unat (b AND 0x1F), utf8_need := 1\<rparr>)
      else if 0xE0 \<le> b \<and> b \<le> 0xEF then Some (v\<lparr>utf8_cp := unat (b AND 0x0F), utf8_need := 2\<rparr>)
      else if 0xF0 \<le> b \<and> b \<le> 0xF7 then Some (v\<lparr>utf8_cp := unat (b AND 0x07), utf8_need := 3\<rparr>)
      else do { v \<leftarrow> vt_put v 0x3F; Some (v\<lparr>utf8_cp := 0, utf8_need := 0\<rparr>) })"

definition vt_byte :: "vt \<Rightarrow> u8 \<Rightarrow> vt option" where
  "vt_byte v b =
     (if utf8_need v > 0 \<and> b AND 0xC0 = 0x80 then
        (let v = v\<lparr>utf8_cp := utf8_cp v * 64 + unat (b AND 0x3F), utf8_need := utf8_need v - 1\<rparr>
         in if utf8_need v = 0 then vt_put v (if is_scalar (utf8_cp v) then utf8_cp v else 0x3F) else Some v)
      else do {
        v \<leftarrow> (if utf8_need v > 0 then vt_put (v\<lparr>utf8_need := 0\<rparr>) 0x3F else Some v);
        if b \<ge> 0x80 then lead_byte v b else plain_byte v b })"

fun feed :: "vt \<Rightarrow> bytes \<Rightarrow> vt option" where
  "feed v [] = Some v"
| "feed v (b # bs) = (case vt_byte v b of None \<Rightarrow> None | Some v' \<Rightarrow> feed v' bs)"

section \<open>The grid\<close>

definition dims_ok :: "vt \<Rightarrow> bool" where
  "dims_ok v \<longleftrightarrow> 0 < cols v \<and> 0 < rows v \<and> cols v \<le> SAT \<and> rows v \<le> SAT \<and> length (cells v) = cols v * rows v"

definition vt_inv :: "vt \<Rightarrow> bool" where
  "vt_inv v \<longleftrightarrow> dims_ok v \<and> cx v < cols v \<and> cy v < rows v
     \<and> length (params v) = MAX_PARAMS \<and> nparams v \<le> MAX_PARAMS \<and> (\<forall>p \<in> set (params v). p \<le> SAT)
     \<and> utf8_need v \<le> 3"

definition grid :: "vt \<Rightarrow> nat \<Rightarrow> nat \<Rightarrow> cell" where
  "grid v x y = cells v ! (y * cols v + x)"

text \<open>\<open>v'\<close> is \<open>v\<close> with its cells replaced by the grid \<open>g\<close>.\<close>

definition regrid :: "vt \<Rightarrow> (nat \<Rightarrow> nat \<Rightarrow> cell) \<Rightarrow> vt \<Rightarrow> bool" where
  "regrid v g v' \<longleftrightarrow> (\<exists>cs. v' = v\<lparr>cells := cs\<rparr> \<and> length cs = length (cells v))
     \<and> (\<forall>x y. x < cols v \<longrightarrow> y < rows v \<longrightarrow> grid v' x y = g x y)"

lemma cell_index: "x < c \<Longrightarrow> y < r \<Longrightarrow> y * c + x < c * (r :: nat)"
proof -
  assume a: "x < c" "y < r"
  then have "y * c + x < Suc y * c" by simp
  also have "\<dots> \<le> r * c" using a(2) by (intro mult_le_mono1) simp
  finally show ?thesis by (simp add: mult.commute)
qed

lemma cell_index_inj:
  assumes "x < c" "x' < c" "y * c + x = y' * c + (x' :: nat)"
  shows "x = x' \<and> y = y'"
proof -
  have "(y * c + x) mod c = x" "(y' * c + x') mod c = x'" using assms(1,2) by simp_all
  with assms(3) have "x = x'" by simp
  with assms show ?thesis by simp
qed

lemma regrid_fields:
  assumes "regrid v g v'"
  shows "cols v' = cols v" "rows v' = rows v" "cx v' = cx v" "cy v' = cy v" "attr_now v' = attr_now v"
    "cursor_visible v' = cursor_visible v" "state v' = state v" "utf8_cp v' = utf8_cp v" "utf8_need v' = utf8_need v"
    "params v' = params v" "nparams v' = nparams v" "private_csi v' = private_csi v"
    "length (cells v') = length (cells v)"
    "\<And>x y. x < cols v \<Longrightarrow> y < rows v \<Longrightarrow> grid v' x y = g x y"
proof -
  obtain cs where c: "v' = v\<lparr>cells := cs\<rparr>" using assms by (auto simp: regrid_def)
  then show "cols v' = cols v" "rows v' = rows v" "cx v' = cx v" "cy v' = cy v" "attr_now v' = attr_now v"
    "cursor_visible v' = cursor_visible v" "state v' = state v" "utf8_cp v' = utf8_cp v" "utf8_need v' = utf8_need v"
    "params v' = params v" "nparams v' = nparams v" "private_csi v' = private_csi v" by simp_all
qed (use assms in \<open>auto simp: regrid_def\<close>)

lemma regrid_dims: "regrid v g v' \<Longrightarrow> dims_ok v \<Longrightarrow> dims_ok v'"
  using regrid_fields [of v g v'] by (simp add: dims_ok_def)

lemma regrid_inv: "regrid v g v' \<Longrightarrow> vt_inv v \<Longrightarrow> vt_inv v'"
  using regrid_fields [of v g v'] regrid_dims [of v g v'] by (simp add: vt_inv_def)

lemma regrid_trans:
  assumes "regrid v g1 v1" "regrid v1 g2 v2"
    and "\<And>x y. x < cols v \<Longrightarrow> y < rows v \<Longrightarrow> g2 x y = g x y"
  shows "regrid v g v2"
proof -
  obtain c1 c2 where c: "v1 = v\<lparr>cells := c1\<rparr>" "length c1 = length (cells v)" "v2 = v1\<lparr>cells := c2\<rparr>"
    "length c2 = length (cells v1)" using assms(1,2) unfolding regrid_def by blast
  then have "v2 = v\<lparr>cells := c2\<rparr> \<and> length c2 = length (cells v)" by simp
  moreover have "grid v2 x y = g x y" if "x < cols v" "y < rows v" for x y
    using assms(2,3) that c(1) by (simp add: regrid_def)
  ultimately show ?thesis unfolding regrid_def by blast
qed

lemma regrid_refl: "regrid v (grid v) v"
  by (auto simp: regrid_def intro!: exI [of _ "cells v"])

lemma regrid_cong: "regrid v g v' \<Longrightarrow> (\<And>x y. x < cols v \<Longrightarrow> y < rows v \<Longrightarrow> g x y = g' x y) \<Longrightarrow> regrid v g' v'"
  by (simp add: regrid_def)

text \<open>A cell update at the cursor's place or a move of the cursor, on the grid.\<close>

lemma vt_set_ok:
  assumes "dims_ok v" "x < cols v" "y < rows v"
  shows "\<exists>v'. vt_set v x y c = Some v' \<and> regrid v (\<lambda>x' y'. if x' = x \<and> y' = y then c else grid v x' y') v'"
proof -
  have i: "y * cols v + x < length (cells v)" using assms cell_index by (simp add: dims_ok_def)
  have "grid (v\<lparr>cells := (cells v)[y * cols v + x := c]\<rparr>) x' y' = (if x' = x \<and> y' = y then c else grid v x' y')"
    if "x' < cols v" "y' < rows v" for x' y'
    using i cell_index_inj [OF that(1) assms(2), of y' y] by (auto simp: grid_def nth_list_update)
  with i show ?thesis by (auto simp: vt_set_def Let_def regrid_def)
qed

lemma for_each_append: "for_each f (xs @ ys) s = (case for_each f xs s of None \<Rightarrow> None | Some s' \<Rightarrow> for_each f ys s')"
  by (induction xs arbitrary: s) (auto split: option.splits)

lemma vt_erase_ok:
  assumes "dims_ok v" "y < rows v"
  shows "\<exists>v'. vt_erase v x y count = Some v' \<and>
    regrid v (\<lambda>x' y'. if y' = y \<and> x \<le> x' \<and> x' < x + count then BLANK else grid v x' y') v'"
proof -
  have loop: "\<exists>v'. for_each (\<lambda>v i. vt_set v i y BLANK) [x..<m] v = Some v' \<and>
      regrid v (\<lambda>x' y'. if y' = y \<and> x \<le> x' \<and> x' < m then BLANK else grid v x' y') v'" if "m \<le> cols v" for m
    using that
  proof (induction m)
    case 0
    then show ?case by (simp add: regrid_refl)
  next
    case (Suc m)
    then obtain v1 where v1: "for_each (\<lambda>v i. vt_set v i y BLANK) [x..<m] v = Some v1"
      "regrid v (\<lambda>x' y'. if y' = y \<and> x \<le> x' \<and> x' < m then BLANK else grid v x' y') v1" by auto
    show ?case
    proof (cases "x \<le> m")
      case False
      then have "regrid v (\<lambda>x' y'. if y' = y \<and> x \<le> x' \<and> x' < Suc m then BLANK else grid v x' y') v1"
        by (intro regrid_cong [OF v1(2)]) auto
      with v1(1) False show ?thesis by simp
    next
      case True
      from vt_set_ok [OF regrid_dims [OF v1(2) assms(1)], of m y BLANK] assms(2) Suc.prems regrid_fields [OF v1(2)]
      obtain v2 where v2: "vt_set v1 m y BLANK = Some v2"
        "regrid v1 (\<lambda>x' y'. if x' = m \<and> y' = y then BLANK else grid v1 x' y') v2" by auto
      from v1(1) v2(1) True have "for_each (\<lambda>v i. vt_set v i y BLANK) [x..<Suc m] v = Some v2"
        by (simp add: for_each_append)
      moreover have "regrid v (\<lambda>x' y'. if y' = y \<and> x \<le> x' \<and> x' < Suc m then BLANK else grid v x' y') v2"
        using regrid_fields(14) [OF v1(2)] True by (intro regrid_trans [OF v1(2) v2(2)]) auto
      ultimately show ?thesis by blast
    qed
  qed
  from loop [of "min (x + count) (cols v)"] obtain v' where
    "for_each (\<lambda>v i. vt_set v i y BLANK) [x..<min (x + count) (cols v)] v = Some v'"
    "regrid v (\<lambda>x' y'. if y' = y \<and> x \<le> x' \<and> x' < min (x + count) (cols v) then BLANK else grid v x' y') v'" by auto
  then show ?thesis by (auto simp: vt_erase_def intro: regrid_cong)
qed

lemma erase_rows_ok:
  assumes "dims_ok v" "to \<le> rows v"
  shows "\<exists>v'. erase_rows v from to = Some v' \<and>
    regrid v (\<lambda>x' y'. if from \<le> y' \<and> y' < to then BLANK else grid v x' y') v'"
  using assms(2) unfolding erase_rows_def
proof (induction to)
  case 0
  then show ?case by (simp add: regrid_refl)
next
  case (Suc m)
  then obtain v1 where v1: "for_each (\<lambda>v y. vt_erase v 0 y (cols v)) [from..<m] v = Some v1"
    "regrid v (\<lambda>x' y'. if from \<le> y' \<and> y' < m then BLANK else grid v x' y') v1" by auto
  show ?case
  proof (cases "from \<le> m")
    case False
    then have "regrid v (\<lambda>x' y'. if from \<le> y' \<and> y' < Suc m then BLANK else grid v x' y') v1"
      by (intro regrid_cong [OF v1(2)]) auto
    with v1(1) False show ?thesis by simp
  next
    case True
    from vt_erase_ok [OF regrid_dims [OF v1(2) assms(1)], of m 0 "cols v1"] Suc.prems regrid_fields [OF v1(2)]
    obtain v2 where v2: "vt_erase v1 0 m (cols v1) = Some v2"
      "regrid v1 (\<lambda>x' y'. if y' = m \<and> 0 \<le> x' \<and> x' < 0 + cols v1 then BLANK else grid v1 x' y') v2" by auto
    have "regrid v (\<lambda>x' y'. if from \<le> y' \<and> y' < Suc m then BLANK else grid v x' y') v2"
      using regrid_fields [OF v1(2)] True by (intro regrid_trans [OF v1(2) v2(2)]) auto
    with v1(1) v2(1) True show ?thesis by (simp add: for_each_append)
  qed
qed

lemma scroll_up_ok:
  assumes "dims_ok v"
  shows "\<exists>v'. scroll_up v = Some v' \<and> regrid v (\<lambda>x y. if y + 1 < rows v then grid v x (y + 1) else BLANK) v'"
proof -
  let ?c = "cols v" and ?r = "rows v"
  let ?cs = "drop ?c (cells v) @ replicate ?c BLANK"
  have len: "length (cells v) = ?c * ?r" "0 < ?r" using assms by (auto simp: dims_ok_def)
  then have le: "?c \<le> length (cells v)" by simp
  have "?cs ! (y * ?c + x) = (if y + 1 < ?r then grid v x (y + 1) else BLANK)" if "x < ?c" "y < ?r" for x y
  proof (cases "y + 1 < ?r")
    case True
    from cell_index [OF that(1) True] have "(y + 1) * ?c + x < length (cells v)" by (simp add: len)
    with True le show ?thesis by (simp add: nth_append grid_def algebra_simps)
  next
    case False
    with that(2) have y: "?r = y + 1" by simp
    have "length (cells v) - ?c = y * ?c" by (simp add: len y mult.commute)
    with False that(1) le show ?thesis by (simp add: nth_append)
  qed
  with le show ?thesis by (auto simp: scroll_up_def regrid_def grid_def)
qed

section \<open>The steps on the grid\<close>

text \<open>Moving down a row: the cursor, and the grid if it scrolls.\<close>

lemma next_row_ok:
  assumes "dims_ok v" "cy v < rows v"
  shows "\<exists>v'. next_row v = Some v' \<and>
    (if cy v + 1 < rows v then v' = v\<lparr>cy := cy v + 1\<rparr>
     else regrid v (\<lambda>x y. if y + 1 < rows v then grid v x (y + 1) else BLANK) v')"
proof (cases "cy v + 1 < rows v")
  case True
  then show ?thesis by (simp add: next_row_def)
next
  case False
  let ?v = "v\<lparr>cy := cy v + 1\<rparr>"
  have d: "dims_ok ?v" using assms(1) by (simp add: dims_ok_def)
  obtain v1 where v1: "scroll_up ?v = Some v1"
    "regrid ?v (\<lambda>x y. if y + 1 < rows ?v then grid ?v x (y + 1) else BLANK) v1"
    using scroll_up_ok [OF d] by blast
  obtain cs where cs: "v1 = ?v\<lparr>cells := cs\<rparr>" "length cs = length (cells v)"
    using v1(2) by (auto simp: regrid_def)
  have "cy v = rows v - 1" using False assms(2) by simp
  then have "v1\<lparr>cy := rows v1 - 1\<rparr> = v\<lparr>cells := cs\<rparr>" by (simp add: cs)
  moreover have "regrid v (\<lambda>x y. if y + 1 < rows v then grid v x (y + 1) else BLANK) (v\<lparr>cells := cs\<rparr>)"
    using v1(2) cs unfolding regrid_def by (auto simp: grid_def)
  ultimately show ?thesis using v1(1) False by (simp add: next_row_def)
qed

lemma next_row_inv:
  assumes "vt_inv v"
  shows "\<exists>v'. next_row v = Some v' \<and> vt_inv v' \<and> cols v' = cols v \<and> rows v' = rows v"
proof -
  from next_row_ok [of v] assms obtain v' where v': "next_row v = Some v'"
    "if cy v + 1 < rows v then v' = v\<lparr>cy := cy v + 1\<rparr>
     else regrid v (\<lambda>x y. if y + 1 < rows v then grid v x (y + 1) else BLANK) v'"
    by (auto simp: vt_inv_def)
  show ?thesis
  proof (cases "cy v + 1 < rows v")
    case True
    with v' assms show ?thesis by (auto simp: vt_inv_def dims_ok_def)
  next
    case False
    with v' have "regrid v (\<lambda>x y. if y + 1 < rows v then grid v x (y + 1) else BLANK) v'" by simp
    with regrid_inv [OF this assms] regrid_fields [OF this] v'(1) show ?thesis by auto
  qed
qed

lemma vt_put_inv:
  assumes "vt_inv v"
  shows "\<exists>v'. vt_put v c = Some v' \<and> vt_inv v' \<and> cols v' = cols v \<and> rows v' = rows v"
proof -
  from vt_set_ok [of v "cx v" "cy v"] assms obtain v1 where v1: "vt_set v (cx v) (cy v) \<lparr>ch = c, cattr = attr_now v\<rparr> = Some v1"
    "regrid v (\<lambda>x' y'. if x' = cx v \<and> y' = cy v then \<lparr>ch = c, cattr = attr_now v\<rparr> else grid v x' y') v1"
    by (auto simp: vt_inv_def)
  note r = regrid_fields [OF v1(2)] and i = regrid_inv [OF v1(2) assms]
  show ?thesis
  proof (cases "cx v1 + 1 \<ge> cols v1")
    case True
    have "vt_inv (v1\<lparr>cx := 0\<rparr>)" using i by (auto simp: vt_inv_def dims_ok_def)
    from next_row_inv [OF this] v1(1) True r show ?thesis by (simp add: vt_put_def)
  next
    case False
    with v1(1) r i show ?thesis by (auto simp: vt_put_def vt_inv_def dims_ok_def)
  qed
qed

lemma vt_inv_upd [simp]:
  "vt_inv (v\<lparr>utf8_cp := n\<rparr>) = vt_inv v" "vt_inv (v\<lparr>state := st\<rparr>) = vt_inv v"
  "vt_inv (v\<lparr>attr_now := a\<rparr>) = vt_inv v" "vt_inv (v\<lparr>cursor_visible := cv\<rparr>) = vt_inv v"
  "vt_inv (v\<lparr>private_csi := pc\<rparr>) = vt_inv v"
  "vt_inv v \<Longrightarrow> k \<le> 3 \<Longrightarrow> vt_inv (v\<lparr>utf8_need := k\<rparr>)"
  "vt_inv v \<Longrightarrow> x < cols v \<Longrightarrow> vt_inv (v\<lparr>cx := x\<rparr>)"
  "vt_inv v \<Longrightarrow> y < rows v \<Longrightarrow> vt_inv (v\<lparr>cy := y\<rparr>)"
  by (simp_all add: vt_inv_def dims_ok_def)

lemma vt_invD: "vt_inv v \<Longrightarrow> dims_ok v \<and> cx v < cols v \<and> cy v < rows v \<and> 0 < cols v \<and> 0 < rows v
    \<and> length (params v) = MAX_PARAMS \<and> nparams v \<le> MAX_PARAMS"
  by (auto simp: vt_inv_def dims_ok_def)

definition vt_step_ok :: "vt \<Rightarrow> vt option \<Rightarrow> bool" where
  "vt_step_ok v r \<longleftrightarrow> (\<exists>v'. r = Some v' \<and> vt_inv v' \<and> cols v' = cols v \<and> rows v' = rows v)"

lemma erase_step_ok:
  assumes "vt_inv v"
  shows "y < rows v \<Longrightarrow> vt_step_ok v (vt_erase v x y n)" "to \<le> rows v \<Longrightarrow> vt_step_ok v (erase_rows v from to)"
  using vt_erase_ok [of v y x n] erase_rows_ok [of v to "from"] regrid_inv regrid_fields assms vt_invD [OF assms]
  unfolding vt_step_ok_def by blast+

lemma vt_step_ok_bind:
  assumes "vt_step_ok v r" "\<And>v'. r = Some v' \<Longrightarrow> vt_inv v' \<Longrightarrow> cols v' = cols v \<Longrightarrow> rows v' = rows v \<Longrightarrow> vt_step_ok v' (f v')"
  shows "vt_step_ok v (r \<bind> f)"
  using assms unfolding vt_step_ok_def by fastforce

lemma csi_ok:
  assumes "vt_inv v"
  shows "vt_step_ok v (csi v fin)"
proof -
  note d = vt_invD [OF assms]
  have erase2: "vt_step_ok v (do { v \<leftarrow> erase_rows v 0 (cy v); vt_erase v 0 (cy v) (cx v + 1) })"
    by (rule vt_step_ok_bind [OF erase_step_ok(2) [OF assms]]) (use d in \<open>auto intro: erase_step_ok(1) dest: vt_invD\<close>)
  have erase0: "vt_step_ok v (do { v \<leftarrow> vt_erase v (cx v) (cy v) (cols v - cx v); erase_rows v (cy v + 1) (rows v) })"
    by (rule vt_step_ok_bind [OF erase_step_ok(1) [OF assms]]) (use d in \<open>auto intro: erase_step_ok(2)\<close>)
  have erase0': "vt_step_ok v (do { v \<leftarrow> vt_erase v (cx v) (cy v) (cols v - cx v); erase_rows v (cy v + 1) r })"
    if "r = rows v" for r
    by (rule vt_step_ok_bind [OF erase_step_ok(1) [OF assms]]) (use d that in \<open>auto intro: erase_step_ok(2)\<close>)
  consider "fin = 0x4A" | "fin = 0x4B" | "fin \<noteq> 0x4A" "fin \<noteq> 0x4B" by blast
  then show ?thesis
  proof cases
    case 1
    then show ?thesis using erase2 erase0' erase_step_ok(2) [OF assms, of "rows v" 0] by (simp add: csi_def Let_def)
  next
    case 2
    then show ?thesis using erase_step_ok(1) [OF assms, of "cy v"] d by (simp add: csi_def Let_def)
  next
    case 3
    then show ?thesis using assms d by (auto simp: csi_def Let_def vt_step_ok_def intro: less_imp_diff_less)
  qed
qed

lemma csi_byte_ok:
  assumes "vt_inv v"
  shows "vt_step_ok v (csi_byte v b)"
proof -
  have "vt_inv (do_private_csi v b)" "cols (do_private_csi v b) = cols v" "rows (do_private_csi v b) = rows v"
    using assms by (auto simp: do_private_csi_def)
  moreover have "vt_step_ok v (do { v \<leftarrow> csi v b; Some (v\<lparr>state := Normal\<rparr>) })"
    by (rule vt_step_ok_bind [OF csi_ok [OF assms]]) (auto simp: vt_step_ok_def)
  moreover have "vt_inv (v\<lparr>nparams := k\<rparr>)" if "k \<le> MAX_PARAMS" for k
    using assms that by (simp add: vt_inv_def dims_ok_def)
  moreover have "vt_inv (w\<lparr>params := (params w)[i := min n SAT]\<rparr>)" if "vt_inv w" for w i n
    using that by (auto simp: vt_inv_def dims_ok_def dest!: set_update_subset_insert [THEN subsetD])
  ultimately show ?thesis
    using assms vt_invD [OF assms] by (auto simp: csi_byte_def Let_def vt_step_ok_def MAX_PARAMS_def)
qed

lemma put_ok: "vt_inv v \<Longrightarrow> vt_step_ok v (vt_put v c)"
  using vt_put_inv by (simp add: vt_step_ok_def)

lemma plain_byte_ok:
  assumes "vt_inv v"
  shows "vt_step_ok v (plain_byte v b)"
proof -
  note d = vt_invD [OF assms]
  have "vt_step_ok v (next_row (v\<lparr>cx := 0\<rparr>))"
    using next_row_inv [of "v\<lparr>cx := 0\<rparr>"] assms d by (simp add: vt_step_ok_def)
  moreover have "vt_step_ok v (vt_set (v\<lparr>cx := x\<rparr>) x (cy v) c)" if "x < cols v" for x c
  proof -
    have "vt_inv (v\<lparr>cx := x\<rparr>)" using assms that by simp
    then have "dims_ok (v\<lparr>cx := x\<rparr>)" by (simp add: vt_inv_def)
    with that d obtain v' where v': "vt_set (v\<lparr>cx := x\<rparr>) x (cy v) c = Some v'"
      "regrid (v\<lparr>cx := x\<rparr>) (\<lambda>x' y'. if x' = x \<and> y' = cy v then c else grid (v\<lparr>cx := x\<rparr>) x' y') v'"
      using vt_set_ok [of "v\<lparr>cx := x\<rparr>" x "cy v" c] by auto
    then show ?thesis
      using regrid_inv [OF v'(2) \<open>vt_inv (v\<lparr>cx := x\<rparr>)\<close>] regrid_fields(1,2) [OF v'(2)]
      by (simp add: vt_step_ok_def)
  qed
  moreover have "vt_inv (v\<lparr>state := Csi, params := replicate MAX_PARAMS 0, nparams := 0, private_csi := False\<rparr>)"
    using assms by (simp add: vt_inv_def dims_ok_def)
  ultimately show ?thesis
    using assms d csi_byte_ok [OF assms] put_ok [OF assms]
    by (auto simp: plain_byte_def vt_step_ok_def Let_def split: parse_state.splits)
qed

lemma lead_byte_ok:
  assumes "vt_inv v"
  shows "vt_step_ok v (lead_byte v b)"
proof -
  have "vt_step_ok v (do { v \<leftarrow> vt_put v 0x3F; Some (v\<lparr>utf8_cp := 0, utf8_need := 0\<rparr>) })"
    by (rule vt_step_ok_bind [OF put_ok [OF assms]]) (simp add: vt_step_ok_def)
  then show ?thesis using assms by (simp add: lead_byte_def vt_step_ok_def)
qed

lemma vt_byte_ok:
  assumes "vt_inv v"
  shows "vt_step_ok v (vt_byte v b)"
proof -
  have need: "utf8_need v \<le> 3" using assms by (simp add: vt_inv_def)
  have rest: "vt_step_ok v (if b \<ge> 0x80 then lead_byte v b else plain_byte v b)" if "vt_inv v" for v
    using that lead_byte_ok plain_byte_ok by simp
  have "vt_step_ok v (do { v \<leftarrow> (if utf8_need v > 0 then vt_put (v\<lparr>utf8_need := 0\<rparr>) 0x3F else Some v);
      if b \<ge> 0x80 then lead_byte v b else plain_byte v b })"
  proof (rule vt_step_ok_bind)
    show "vt_step_ok v (if utf8_need v > 0 then vt_put (v\<lparr>utf8_need := 0\<rparr>) 0x3F else Some v)"
      using vt_put_inv [of "v\<lparr>utf8_need := 0\<rparr>"] assms by (simp add: vt_step_ok_def)
  qed (rule rest)
  moreover have "vt_step_ok v (vt_put (v\<lparr>utf8_cp := n, utf8_need := 0\<rparr>) c)" for n c
    using vt_put_inv [of "v\<lparr>utf8_cp := n, utf8_need := 0\<rparr>"] assms by (simp add: vt_step_ok_def)
  ultimately show ?thesis
    using assms need by (auto simp: vt_byte_def Let_def vt_step_ok_def)
qed

lemma feed_ok: "vt_inv v \<Longrightarrow> vt_step_ok v (feed v bs)"
proof (induction bs arbitrary: v)
  case (Cons b bs)
  from vt_byte_ok [OF Cons.prems, of b] obtain v' where "vt_byte v b = Some v'" "vt_inv v'"
    "cols v' = cols v" "rows v' = rows v" by (auto simp: vt_step_ok_def)
  with Cons.IH [of v'] show ?case by (simp add: vt_step_ok_def)
qed (simp add: vt_step_ok_def)

lemma vt_new_inv:
  assumes "c \<le> SAT" "r \<le> SAT"
  shows "vt_inv (vt_new c r)" "cols (vt_new c r) = max c 1" "rows (vt_new c r) = max r 1"
  using assms by (auto simp: vt_new_def Let_def vt_inv_def dims_ok_def MAX_PARAMS_def SAT_def)

section \<open>UTF-8\<close>

text \<open>The UTF-8 encoding of a code point above ASCII.\<close>

definition utf8_encode :: "nat \<Rightarrow> bytes" where
  "utf8_encode c =
     (if c < 0x800 then [word_of_nat (0xC0 + c div 64), word_of_nat (0x80 + c mod 64)]
      else if c < 0x10000 then
        [word_of_nat (0xE0 + c div 4096), word_of_nat (0x80 + c div 64 mod 64), word_of_nat (0x80 + c mod 64)]
      else [word_of_nat (0xF0 + c div 262144), word_of_nat (0x80 + c div 4096 mod 64),
            word_of_nat (0x80 + c div 64 mod 64), word_of_nat (0x80 + c mod 64)])"

lemma lead_facts:
  "\<forall>k \<in> set [0..<32]. 0xC0 \<le> (word_of_nat (0xC0 + k) :: u8) \<and> (word_of_nat (0xC0 + k) :: u8) \<le> 0xDF
     \<and> unat ((word_of_nat (0xC0 + k) :: u8) AND 0x1F) = k"
  "\<forall>k \<in> set [0..<16]. 0xE0 \<le> (word_of_nat (0xE0 + k) :: u8) \<and> (word_of_nat (0xE0 + k) :: u8) \<le> 0xEF
     \<and> unat ((word_of_nat (0xE0 + k) :: u8) AND 0x0F) = k"
  "\<forall>k \<in> set [0..<8]. 0xF0 \<le> (word_of_nat (0xF0 + k) :: u8) \<and> (word_of_nat (0xF0 + k) :: u8) \<le> 0xF7
     \<and> unat ((word_of_nat (0xF0 + k) :: u8) AND 0x07) = k"
  by code_simp+

lemma cont_facts:
  "\<forall>k \<in> set [0..<64]. (word_of_nat (0x80 + k) :: u8) AND 0xC0 = 0x80
     \<and> unat ((word_of_nat (0x80 + k) :: u8) AND 0x3F) = k"
  by code_simp

lemma cont_byte:
  assumes "k < 64" "utf8_need v > 0"
  shows "vt_byte v (word_of_nat (0x80 + k)) =
    (let v = v\<lparr>utf8_cp := utf8_cp v * 64 + k, utf8_need := utf8_need v - 1\<rparr>
     in if utf8_need v = 0 then vt_put v (if is_scalar (utf8_cp v) then utf8_cp v else 0x3F) else Some v)"
  using assms cont_facts [rule_format, of k] by (simp add: vt_byte_def)

lemma lead_byte_steps:
  assumes "utf8_need v = 0"
  shows "k < 32 \<Longrightarrow> vt_byte v (word_of_nat (0xC0 + k)) = Some (v\<lparr>utf8_cp := k, utf8_need := 1\<rparr>)"
    "k < 16 \<Longrightarrow> vt_byte v (word_of_nat (0xE0 + k)) = Some (v\<lparr>utf8_cp := k, utf8_need := 2\<rparr>)"
    "k < 8 \<Longrightarrow> vt_byte v (word_of_nat (0xF0 + k)) = Some (v\<lparr>utf8_cp := k, utf8_need := 3\<rparr>)"
proof -
  have high: "0x80 \<le> b" if "0xC0 \<le> b" for b :: u8 using that by (rule order_trans [rotated]) simp
  have E: "\<not> b \<le> 0xDF" if "0xE0 \<le> b" for b :: u8
    using order_trans [OF that, of "0xDF"] by auto
  have F: "\<not> b \<le> 0xDF" "\<not> b \<le> 0xEF" if "0xF0 \<le> b" for b :: u8
    using order_trans [OF that, of "0xDF"] order_trans [OF that, of "0xEF"] by auto
  show "vt_byte v (word_of_nat (0xC0 + k)) = Some (v\<lparr>utf8_cp := k, utf8_need := 1\<rparr>)" if "k < 32"
    using assms lead_facts(1) [rule_format, of k] that high by (simp add: vt_byte_def lead_byte_def)
  have C: "0xC0 \<le> b" if "0xE0 \<le> b \<or> 0xF0 \<le> b" for b :: u8
    using that by (elim disjE) (rule order_trans [rotated], assumption, simp)+
  show "vt_byte v (word_of_nat (0xE0 + k)) = Some (v\<lparr>utf8_cp := k, utf8_need := 2\<rparr>)" if "k < 16"
    using assms lead_facts(2) [rule_format, of k] that E high C by (simp add: vt_byte_def lead_byte_def)
  show "vt_byte v (word_of_nat (0xF0 + k)) = Some (v\<lparr>utf8_cp := k, utf8_need := 3\<rparr>)" if "k < 8"
    using assms lead_facts(3) [rule_format, of k] that F high C by (simp add: vt_byte_def lead_byte_def)
qed

lemma feed_utf8:
  assumes "utf8_need v = 0" "0x80 \<le> c" "is_scalar c"
  shows "feed v (utf8_encode c) = vt_put (v\<lparr>utf8_cp := c, utf8_need := 0\<rparr>) c"
proof -
  have c: "c \<le> 0x10FFFF" using assms(3) by (auto simp: is_scalar_def)
  consider "c < 0x800" | "0x800 \<le> c" "c < 0x10000" | "0x10000 \<le> c" by linarith
  then show ?thesis
  proof cases
    case 1
    then have "c div 64 < 32" by simp
    moreover have "c div 64 * 64 + c mod 64 = c" by simp
    ultimately show ?thesis using 1 assms by (simp add: utf8_encode_def lead_byte_steps cont_byte Let_def del: of_nat_add split: option.split)
  next
    case 2
    have "c div 4096 < 16" using 2 by simp
    moreover have "(c div 4096 * 64 + c div 64 mod 64) * 64 + c mod 64 = c"
    proof -
      have "c div 4096 = c div 64 div 64" by (simp add: div_mult2_eq [symmetric])
      then show ?thesis by simp
    qed
    ultimately show ?thesis using 2 assms
      by (simp add: utf8_encode_def lead_byte_steps cont_byte Let_def del: of_nat_add split: option.split)
  next
    case 3
    have "c div 262144 < 8" using c by simp
    moreover have "((c div 262144 * 64 + c div 4096 mod 64) * 64 + c div 64 mod 64) * 64 + c mod 64 = c"
    proof -
      have "c div 262144 = c div 64 div 64 div 64" "c div 4096 = c div 64 div 64"
        by (simp_all add: div_mult2_eq [symmetric])
      then show ?thesis by simp
    qed
    ultimately show ?thesis using 3 assms
      by (simp add: utf8_encode_def lead_byte_steps cont_byte Let_def del: of_nat_add split: option.split)
  qed
qed

section \<open>Properties\<close>

text \<open>
  C18: a pane's terminal survives any byte stream: starting from a new terminal of any size,
  feeding it arbitrary bytes never indexes outside the cell grid, and afterwards the grid still
  has \<open>cols * rows\<close> cells and the cursor is inside it.
\<close>

theorem vt_feed_safe:
  assumes "c \<le> SAT" "r \<le> SAT"
  shows "\<exists>v. feed (vt_new c r) bs = Some v \<and> vt_inv v \<and> cols v = max c 1 \<and> rows v = max r 1"
  using feed_ok [OF vt_new_inv(1) [OF assms], of bs] vt_new_inv(2,3) [OF assms]
  by (auto simp: vt_step_ok_def)

theorem vt_feed_safe_witness:
  "\<exists>v. feed (vt_new 80 24) [0x1B, 0x5B, 0x39, 0x39, 0x3B, 0x48, 0xFF] = Some v \<and> vt_inv v \<and> cols v = max 80 1 \<and> rows v = max 24 1"
  by (rule vt_feed_safe) (simp_all add: SAT_def)

text \<open>
  C19: feeding the UTF-8 encoding of a character draws exactly that character at the cursor,
  whatever escape state the terminal is in, for every Unicode scalar value above ASCII.
\<close>

theorem vt_utf8_draws:
  assumes "utf8_need v = 0" "0x80 \<le> c" "is_scalar c"
  shows "feed v (utf8_encode c) = vt_put (v\<lparr>utf8_cp := c, utf8_need := 0\<rparr>) c"
  using assms by (rule feed_utf8)

theorem vt_utf8_draws_witness:
  "feed (vt_new 80 24) (utf8_encode 0x2500) = vt_put ((vt_new 80 24)\<lparr>utf8_cp := 0x2500, utf8_need := 0\<rparr>) 0x2500"
  by (rule vt_utf8_draws) (simp_all add: vt_new_def Let_def is_scalar_def)

end
