(* ===== verification/Fbconsole.thy ===== *)
theory Fbconsole
  imports Vt
begin

text \<open>
  The kernel's text console, \<^verbatim>\<open>kernel/src/console/fbconsole.rs\<close>: glyphs drawn into a framebuffer,
  with scrolling, UTF-8 and CSI escape sequences. The framebuffer is its memory, a map from
  pixel indices to colours of \<open>pitch * height\<close> pixels; a slice outside it, which the code would
  write through a raw pointer, is \<open>None\<close>, as is an index outside the palette. The five attribute
  fields of the code are one \<open>attr\<close> record. Unsigned 32-bit arithmetic that can wrap is written
  with the modulus. The generated font tables are a parameter, and the rectangles passed to the
  display driver's flush are collected in \<open>flushed\<close>.
\<close>

section \<open>State\<close>

definition GLYPH_W :: nat where "GLYPH_W = 8"

definition GLYPH_H :: nat where "GLYPH_H = 16"

definition PAD :: nat where "PAD = 16"

definition FG_COLOR :: u32 where "FG_COLOR = 0x00FFFFFF"

definition BG_COLOR :: u32 where "BG_COLOR = 0"

definition PALETTE :: "u32 list" where
  "PALETTE = [
    0x00000000, 0x00D0504F, 0x0060B050, 0x00D8A840,
    0x004A80D8, 0x00B060C8, 0x0040A8B8, 0x00C0C0C0,
    0x005C5C5C, 0x00FF7070, 0x0090E080, 0x00FFD870,
    0x0070B0FF, 0x00E090FF, 0x0070E0F0, 0x00FFFFFF]"

definition blend :: "u32 \<Rightarrow> u32 \<Rightarrow> u32" where
  "blend a b = (drop_bit 1 a AND 0x007F7F7F) + (drop_bit 1 b AND 0x007F7F7F)"

record framebuffer =
  pixels :: "nat \<Rightarrow> u32"
  width :: nat
  height :: nat
  pitch :: nat

record font =
  ascii_glyphs :: "bytes list"
  ext_glyphs :: "(nat \<times> bytes) list"

record console =
  fb :: "framebuffer option"
  scale :: nat
  cell_w :: nat
  cell_h :: nat
  pad_x :: nat
  pad_y :: nat
  ccols :: nat
  crows :: nat
  dirty :: "nat \<times> nat \<times> nat \<times> nat"
  cursor_col :: nat
  cursor_row :: nat
  cur_attr :: attr
  batching :: bool
  batch_dirty :: bool
  parse :: parse_state
  cparams :: "nat list"
  cnparams :: nat
  csi_private :: bool
  ccp :: nat
  cneed :: nat
  flushed :: "(nat \<times> nat \<times> nat \<times> nat) list"

definition W32 :: nat where "W32 = 2 ^ 32"

definition dec32 :: "nat \<Rightarrow> nat" where
  "dec32 n = (n + W32 - 1) mod W32"

definition console_static :: console where
  "console_static = \<lparr>fb = None, scale = 1, cell_w = GLYPH_W, cell_h = GLYPH_H, pad_x = 0, pad_y = 0,
     ccols = 0, crows = 0, dirty = (0, 0, 0, 0), cursor_col = 0, cursor_row = 0, cur_attr = PLAIN,
     batching = False, batch_dirty = False, parse = Normal, cparams = replicate MAX_PARAMS 0, cnparams = 0,
     csi_private = False, ccp = 0, cneed = 0, flushed = []\<rparr>"

definition glyph_for :: "font \<Rightarrow> nat \<Rightarrow> bytes" where
  "glyph_for f cp =
     (if cp < 128 then ascii_glyphs f ! cp
      else case find (\<lambda>(c, _). c = cp) (ext_glyphs f) of None \<Rightarrow> ascii_glyphs f ! 0x3F | Some (_, g) \<Rightarrow> g)"

section \<open>Drawing\<close>

definition mark_dirty :: "console \<Rightarrow> nat \<Rightarrow> nat \<Rightarrow> nat \<Rightarrow> nat \<Rightarrow> console" where
  "mark_dirty c x y w h =
     (case dirty c of (x0, y0, x1, y1) \<Rightarrow>
        c\<lparr>dirty := (if x0 \<ge> x1 then (x, y, x + w, y + h)
                    else (min x0 x, min y0 y, max x1 (x + w), max y1 (y + h)))\<rparr>)"

definition flush :: "console \<Rightarrow> console" where
  "flush c =
     (case dirty c of (x0, y0, x1, y1) \<Rightarrow>
        if x0 \<ge> x1 then c
        else c\<lparr>flushed := (x0, y0, x1 - x0, y1 - y0) # flushed c, dirty := (0, 0, 0, 0)\<rparr>)"

text \<open>One row slice filled with a colour: the slice must lie inside the framebuffer.\<close>

definition fill_row :: "framebuffer \<Rightarrow> nat \<Rightarrow> nat \<Rightarrow> u32 \<Rightarrow> framebuffer option" where
  "fill_row f a w col =
     (if a + w \<le> pitch f * height f
      then Some (f\<lparr>pixels := (\<lambda>i. if a \<le> i \<and> i < a + w then col else pixels f i)\<rparr>) else None)"

definition fill_fb :: "framebuffer \<Rightarrow> nat \<Rightarrow> nat \<Rightarrow> nat \<Rightarrow> nat \<Rightarrow> u32 \<Rightarrow> framebuffer option" where
  "fill_fb f x y w h col = for_each (\<lambda>f py. fill_row f (py * pitch f + x) w col) [y..<y + h] f"

definition on_fb :: "console \<Rightarrow> (framebuffer \<Rightarrow> framebuffer option) \<Rightarrow> console option" where
  "on_fb c g = (case fb c of None \<Rightarrow> Some c | Some f \<Rightarrow> map_option (\<lambda>f. c\<lparr>fb := Some f\<rparr>) (g f))"

definition fill_rect :: "console \<Rightarrow> nat \<Rightarrow> nat \<Rightarrow> nat \<Rightarrow> nat \<Rightarrow> u32 \<Rightarrow> console option" where
  "fill_rect c x y w h col = on_fb c (\<lambda>f. fill_fb f x y w h col)"

text \<open>The two colours of a cell.\<close>

definition colour :: "u32 \<Rightarrow> nat option \<Rightarrow> u32" where
  "colour dflt i = (case i of None \<Rightarrow> dflt | Some i \<Rightarrow> PALETTE ! i)"

definition cell_colours :: "attr \<Rightarrow> u32 \<times> u32" where
  "cell_colours a =
     (let fg_i = (case fg a of Some i \<Rightarrow> if bold a \<and> i < 8 then Some (i + 8) else Some i | None \<Rightarrow> None);
          f = colour FG_COLOR fg_i;
          b = colour BG_COLOR (bg a);
          f = (if dim a then blend f b else f)
      in if rev_video a then (b, f) else (f, b))"

definition attr_ok :: "attr \<Rightarrow> bool" where
  "attr_ok a \<longleftrightarrow> (case fg a of None \<Rightarrow> True | Some i \<Rightarrow> i < 16) \<and> (case bg a of None \<Rightarrow> True | Some i \<Rightarrow> i < 16)"

definition draw_glyph :: "font \<Rightarrow> console \<Rightarrow> nat \<Rightarrow> nat \<Rightarrow> nat \<Rightarrow> console option" where
  "draw_glyph fnt c col row cp =
     (if \<not> attr_ok (cur_attr c) then None
      else let glyph = glyph_for fnt cp;
               base_x = pad_x c + col * cell_w c; base_y = pad_y c + row * cell_h c;
               (f, b) = cell_colours (cur_attr c);
               s = scale c
           in do {
             c \<leftarrow> for_each (\<lambda>c gy. for_each (\<lambda>c gx.
                    fill_rect c (base_x + gx * s) (base_y + gy * s) s s (if bit (glyph ! gy) gx then f else b))
                    [0..<GLYPH_W] c) [0..<length glyph] c;
             Some (mark_dirty c base_x base_y (cell_w c) (cell_h c)) })"

definition erase_cells :: "console \<Rightarrow> nat \<Rightarrow> nat \<Rightarrow> nat \<Rightarrow> console option" where
  "erase_cells c col row count =
     (if col \<ge> ccols c \<or> count = 0 then Some c
      else let count = min count (ccols c - col);
               x = pad_x c + col * cell_w c; y = pad_y c + row * cell_h c
           in do {
             c \<leftarrow> fill_rect c x y (count * cell_w c) (cell_h c) BG_COLOR;
             Some (mark_dirty c x y (count * cell_w c) (cell_h c)) })"

text \<open>\<^verbatim>\<open>core::ptr::copy\<close> of \<open>n\<close> pixels inside the framebuffer, then the cleared last row.\<close>

definition copy_pixels :: "framebuffer \<Rightarrow> nat \<Rightarrow> nat \<Rightarrow> nat \<Rightarrow> framebuffer option" where
  "copy_pixels f src dst n =
     (if src + n \<le> pitch f * height f \<and> dst + n \<le> pitch f * height f
      then Some (f\<lparr>pixels := (\<lambda>i. if dst \<le> i \<and> i < dst + n then pixels f (src + (i - dst)) else pixels f i)\<rparr>)
      else None)"

definition scroll :: "console \<Rightarrow> console option" where
  "scroll c =
     (case fb c of None \<Rightarrow> Some c
      | Some f \<Rightarrow>
          let row_pixels = pitch f * cell_h c;
              text_pixels = row_pixels * crows c;
              top = pitch f * pad_y c
          in do {
            c \<leftarrow> on_fb c (\<lambda>f. copy_pixels f (top + row_pixels) top (text_pixels - row_pixels));
            c \<leftarrow> fill_rect c 0 (pad_y c + (crows c - 1) * cell_h c) (width f) (cell_h c) BG_COLOR;
            Some (mark_dirty c 0 (pad_y c) (width f) (crows c * cell_h c)) })"

definition console_clear :: "console \<Rightarrow> console option" where
  "console_clear c =
     (case fb c of None \<Rightarrow> Some c
      | Some f \<Rightarrow> do {
          c \<leftarrow> fill_rect c 0 0 (width f) (height f) BG_COLOR;
          let c = mark_dirty c 0 0 (width f) (height f);
          Some (c\<lparr>cursor_col := 0, cursor_row := 0, cur_attr := PLAIN, parse := Normal\<rparr>) })"

section \<open>Escape sequences\<close>

definition cparam_or :: "console \<Rightarrow> nat \<Rightarrow> nat \<Rightarrow> nat" where
  "cparam_or c n fallback = (if n \<ge> cnparams c \<or> cparams c ! n = 0 then fallback else cparams c ! n)"

definition erase_lines :: "console \<Rightarrow> nat \<Rightarrow> nat \<Rightarrow> nat \<Rightarrow> console option" where
  "erase_lines c from to n = for_each (\<lambda>c r. erase_cells c 0 r n) [from..<to] c"

definition handle_csi :: "console \<Rightarrow> u8 \<Rightarrow> console option" where
  "handle_csi c fin =
     (let cs = ccols c; rs = crows c; mode = (if cnparams c > 0 then cparams c ! 0 else 0);
          col = cursor_col c; row = cursor_row c
      in if fin = 0x48 \<or> fin = 0x66 then
           Some (c\<lparr>cursor_row := min (dec32 (cparam_or c 0 1)) (dec32 rs),
                   cursor_col := min (dec32 (cparam_or c 1 1)) (dec32 cs)\<rparr>)
         else if fin = 0x41 then Some (c\<lparr>cursor_row := row - cparam_or c 0 1\<rparr>)
         else if fin = 0x42 then Some (c\<lparr>cursor_row := min ((row + cparam_or c 0 1) mod W32) (dec32 rs)\<rparr>)
         else if fin = 0x43 then Some (c\<lparr>cursor_col := min ((col + cparam_or c 0 1) mod W32) (dec32 cs)\<rparr>)
         else if fin = 0x44 then Some (c\<lparr>cursor_col := col - cparam_or c 0 1\<rparr>)
         else if fin = 0x4A then
           (if mode = 2 then erase_lines c 0 rs cs
            else if mode = 1 then do { c \<leftarrow> erase_lines c 0 row cs; erase_cells c 0 row (col + 1) }
            else do { c \<leftarrow> erase_cells c col row (cs - col); erase_lines c (row + 1) rs cs })
         else if fin = 0x4B then
           (if mode = 2 then erase_cells c 0 row cs
            else if mode = 1 then erase_cells c 0 row (col + 1)
            else erase_cells c col row (cs - col))
         else if fin = 0x6D then
           Some (c\<lparr>cur_attr := (if cnparams c = 0 then PLAIN
                               else fold (\<lambda>i a. sgr a (cparams c ! i)) [0..<cnparams c] (cur_attr c))\<rparr>)
         else Some c)"

section \<open>Characters\<close>

definition newline :: "console \<Rightarrow> console option" where
  "newline c =
     (let c = c\<lparr>cursor_col := 0, cursor_row := (cursor_row c + 1) mod W32\<rparr>
      in if cursor_row c \<ge> crows c then map_option (\<lambda>c. c\<lparr>cursor_row := dec32 (crows c)\<rparr>) (scroll c) else Some c)"

definition put_glyph :: "font \<Rightarrow> console \<Rightarrow> nat \<Rightarrow> console option" where
  "put_glyph fnt c cp = (do {
     c \<leftarrow> draw_glyph fnt c (cursor_col c) (cursor_row c) cp;
     let c = c\<lparr>cursor_col := (cursor_col c + 1) mod W32\<rparr>;
     if cursor_col c \<ge> ccols c then newline c else Some c })"

definition putc_csi :: "console \<Rightarrow> u8 \<Rightarrow> console option" where
  "putc_csi c b =
     (if b = 0x3F \<and> cnparams c = 0 then Some (c\<lparr>csi_private := True\<rparr>)
      else if 0x30 \<le> b \<and> b \<le> 0x39 then
        (let c = (if cnparams c = 0 then c\<lparr>cnparams := 1\<rparr> else c);
             p = cparams c ! (cnparams c - 1)
         in Some (c\<lparr>cparams := (cparams c)[cnparams c - 1 := (p * 10 mod W32 + unat (b - 0x30)) mod W32]\<rparr>))
      else if b = 0x3B then
        (let c = (if cnparams c = 0 then c\<lparr>cnparams := 1\<rparr> else c)
         in Some (if cnparams c < MAX_PARAMS then c\<lparr>cnparams := cnparams c + 1\<rparr> else c))
      else do {
        c \<leftarrow> (if csi_private c then Some c else handle_csi c b);
        Some (c\<lparr>parse := Normal\<rparr>) })"

definition putc_plain :: "font \<Rightarrow> console \<Rightarrow> u8 \<Rightarrow> console option" where
  "putc_plain fnt c b =
     (if b = 0x1B then Some (c\<lparr>parse := Esc\<rparr>)
      else if b = 0x0D then Some (c\<lparr>cursor_col := 0\<rparr>)
      else if b = 0x08 then
        (if cursor_col c > 0
         then (let c = c\<lparr>cursor_col := cursor_col c - 1\<rparr> in draw_glyph fnt c (cursor_col c) (cursor_row c) 32)
         else Some c)
      else if b = 0x0A then newline c
      else put_glyph fnt c (unat b))"

definition putc_lead :: "font \<Rightarrow> console \<Rightarrow> u8 \<Rightarrow> console option" where
  "putc_lead fnt c b =
     (if b AND 0xE0 = 0xC0 then Some (c\<lparr>ccp := unat (b AND 0x1F), cneed := 1\<rparr>)
      else if b AND 0xF0 = 0xE0 then Some (c\<lparr>ccp := unat (b AND 0x0F), cneed := 2\<rparr>)
      else if b AND 0xF8 = 0xF0 then Some (c\<lparr>ccp := unat (b AND 0x07), cneed := 3\<rparr>)
      else put_glyph fnt c 0x3F)"

definition putc_utf8 :: "font \<Rightarrow> console \<Rightarrow> u8 \<Rightarrow> console option" where
  "putc_utf8 fnt c b =
     (if cneed c > 0 \<and> b AND 0xC0 = 0x80 then
        (let c = c\<lparr>ccp := (ccp c * 64 + unat (b AND 0x3F)) mod W32, cneed := cneed c - 1\<rparr>
         in if cneed c = 0 then put_glyph fnt c (ccp c) else Some c)
      else do {
        c \<leftarrow> (if cneed c > 0 then put_glyph fnt (c\<lparr>cneed := 0\<rparr>) 0x3F else Some c);
        if b \<ge> 0x80 then putc_lead fnt c b else putc_plain fnt c b })"

definition putc :: "font \<Rightarrow> console \<Rightarrow> u8 \<Rightarrow> console option" where
  "putc fnt c b =
     (case parse c of
        Esc \<Rightarrow> Some (if b = 0x5B
                 then c\<lparr>parse := Csi, cnparams := 0, csi_private := False, cparams := replicate MAX_PARAMS 0\<rparr>
                 else c\<lparr>parse := Normal\<rparr>)
      | Csi \<Rightarrow> putc_csi c b
      | Normal \<Rightarrow> putc_utf8 fnt c b)"

fun putcs :: "font \<Rightarrow> console \<Rightarrow> bytes \<Rightarrow> console option" where
  "putcs fnt c [] = Some c"
| "putcs fnt c (b # bs) = (case putc fnt c b of None \<Rightarrow> None | Some c' \<Rightarrow> putcs fnt c' bs)"

section \<open>Entry points\<close>

definition console_init :: "console \<Rightarrow> framebuffer \<Rightarrow> console option" where
  "console_init c f =
     (let s = (if width f \<ge> 3200 then 3 else if width f \<ge> 1600 then 2 else 1);
          c = c\<lparr>scale := s, cell_w := GLYPH_W * s, cell_h := GLYPH_H * s, pad_x := PAD * s, pad_y := PAD * s\<rparr>;
          c = c\<lparr>ccols := ((width f + W32 - 2 * pad_x c) mod W32) div cell_w c,
                crows := ((height f + W32 - 2 * pad_y c) mod W32) div cell_h c, fb := Some f\<rparr>
      in console_clear c)"

definition console_size :: "console \<Rightarrow> (nat \<times> nat) option" where
  "console_size c = map_option (\<lambda>_. (ccols c, crows c)) (fb c)"

definition cell_size :: "console \<Rightarrow> nat \<times> nat" where
  "cell_size c = (cell_w c, cell_h c)"

definition console_write :: "font \<Rightarrow> console \<Rightarrow> bytes \<Rightarrow> console option" where
  "console_write fnt c s = map_option flush (putcs fnt c s)"

definition draw_text_at :: "font \<Rightarrow> console \<Rightarrow> nat \<Rightarrow> nat \<Rightarrow> bytes \<Rightarrow> console option" where
  "draw_text_at fnt c col row s =
     for_each (\<lambda>c i. draw_glyph fnt c (col + i) row (unat (s ! i))) [0..<length s] c"

definition begin_batch :: "console \<Rightarrow> console" where
  "begin_batch c = c\<lparr>batching := True\<rparr>"

definition end_batch :: "console \<Rightarrow> console" where
  "end_batch c =
     (let c = c\<lparr>batching := False\<rparr>
      in if fb c \<noteq> None \<and> batch_dirty c then flush (c\<lparr>batch_dirty := False\<rparr>) else c)"

definition sink :: "font \<Rightarrow> console \<Rightarrow> u8 \<Rightarrow> console option" where
  "sink fnt c b = (do {
     c \<leftarrow> putc fnt c b;
     Some (if batching c then c\<lparr>batch_dirty := True\<rparr> else flush c) })"

section \<open>Painting\<close>

definition pix :: "framebuffer \<Rightarrow> nat \<Rightarrow> nat \<Rightarrow> u32" where
  "pix f x y = pixels f (y * pitch f + x)"

text \<open>\<open>f'\<close> is \<open>f\<close> with the visible pixels given by \<open>g\<close>.\<close>

definition repaint :: "framebuffer \<Rightarrow> (nat \<Rightarrow> nat \<Rightarrow> u32) \<Rightarrow> framebuffer \<Rightarrow> bool" where
  "repaint f g f' \<longleftrightarrow> (\<exists>p. f' = f\<lparr>pixels := p\<rparr>) \<and> (\<forall>x y. x < pitch f \<longrightarrow> pix f' x y = g x y)"

lemma repaint_dims:
  "repaint f g f' \<Longrightarrow> width f' = width f \<and> height f' = height f \<and> pitch f' = pitch f"
  by (auto simp: repaint_def)

lemma repaint_refl: "repaint f (pix f) f"
  by (auto simp: repaint_def intro!: exI [of _ "pixels f"])

lemma repaint_trans:
  assumes "repaint f g1 f1" "repaint f1 g2 f2" "\<And>x y. x < pitch f \<Longrightarrow> g2 x y = g x y"
  shows "repaint f g f2"
proof -
  obtain p1 p2 where "f1 = f\<lparr>pixels := p1\<rparr>" "f2 = f1\<lparr>pixels := p2\<rparr>"
    using assms(1,2) unfolding repaint_def by blast
  then have "f2 = f\<lparr>pixels := p2\<rparr>" by simp
  then show ?thesis using assms(2,3) repaint_dims [OF assms(1)] by (auto simp: repaint_def)
qed

lemma repaint_cong:
  "repaint f g f' \<Longrightarrow> (\<And>x y. x < pitch f \<Longrightarrow> g x y = g' x y) \<Longrightarrow> repaint f g' f'"
  by (simp add: repaint_def)

lemma slice_iff:
  assumes "(x :: nat) + w \<le> p" "px < p"
  shows "y * p + x \<le> py * p + px \<and> py * p + px < y * p + x + w \<longleftrightarrow> py = y \<and> x \<le> px \<and> px < x + w"
proof
  assume a: "y * p + x \<le> py * p + px \<and> py * p + px < y * p + x + w"
  have "py = y"
  proof (rule ccontr)
    assume "py \<noteq> y"
    then consider "py < y" | "y < py" by linarith
    then show False
    proof cases
      case 1
      then have "Suc py * p \<le> y * p" by (intro mult_le_mono1) simp
      with a assms show False by simp
    next
      case 2
      then have "Suc y * p \<le> py * p" by (intro mult_le_mono1) simp
      with a assms show False by simp
    qed
  qed
  with a show "py = y \<and> x \<le> px \<and> px < x + w" by simp
qed auto

lemma fill_row_ok:
  assumes "x + w \<le> pitch f" "y < height f"
  shows "\<exists>f'. fill_row f (y * pitch f + x) w col = Some f' \<and>
    repaint f (\<lambda>px py. if py = y \<and> x \<le> px \<and> px < x + w then col else pix f px py) f'"
proof -
  have "y * pitch f + x + w \<le> Suc y * pitch f" using assms(1) by simp
  also have "\<dots> \<le> height f * pitch f" using assms(2) by (intro mult_le_mono1) simp
  finally have le: "y * pitch f + x + w \<le> pitch f * height f" by (simp add: mult.commute)
  let ?f = "f\<lparr>pixels := (\<lambda>i. if y * pitch f + x \<le> i \<and> i < y * pitch f + x + w then col else pixels f i)\<rparr>"
  have "repaint f (\<lambda>px py. if py = y \<and> x \<le> px \<and> px < x + w then col else pix f px py) ?f"
    using slice_iff [OF assms(1), of _ y] unfolding repaint_def by (auto simp: pix_def)
  with le show ?thesis by (simp add: fill_row_def)
qed

lemma fill_fb_ok:
  assumes "x + w \<le> pitch f" "y + h \<le> height f"
  shows "\<exists>f'. fill_fb f x y w h col = Some f' \<and>
    repaint f (\<lambda>px py. if y \<le> py \<and> py < y + h \<and> x \<le> px \<and> px < x + w then col else pix f px py) f'"
  using assms(2) unfolding fill_fb_def
proof (induction h)
  case 0
  show ?case by (auto intro!: repaint_cong [OF repaint_refl])
next
  case (Suc h)
  then obtain f1 where f1: "for_each (\<lambda>f py. fill_row f (py * pitch f + x) w col) [y..<y + h] f = Some f1"
    "repaint f (\<lambda>px py. if y \<le> py \<and> py < y + h \<and> x \<le> px \<and> px < x + w then col else pix f px py) f1" by auto
  note d = repaint_dims [OF f1(2)]
  from fill_row_ok [of x w f1 "y + h" col] assms(1) Suc.prems d obtain f2
    where f2: "fill_row f1 ((y + h) * pitch f1 + x) w col = Some f2"
      "repaint f1 (\<lambda>px py. if py = y + h \<and> x \<le> px \<and> px < x + w then col else pix f1 px py) f2" by auto
  have "repaint f (\<lambda>px py. if y \<le> py \<and> py < y + Suc h \<and> x \<le> px \<and> px < x + w then col else pix f px py) f2"
    by (rule repaint_trans [OF f1(2) f2(2)]) (use f1(2) in \<open>auto simp: repaint_def\<close>)
  with f1(1) f2(1) show ?case by (simp add: for_each_append)
qed

text \<open>The same on the console: only pixels and the dirty rectangle change.\<close>

definition cpaint :: "console \<Rightarrow> framebuffer \<Rightarrow> (nat \<Rightarrow> nat \<Rightarrow> u32) \<Rightarrow> console \<Rightarrow> framebuffer \<Rightarrow> bool" where
  "cpaint c f g c' f' \<longleftrightarrow> fb c = Some f \<and> c' = c\<lparr>fb := Some f', dirty := dirty c'\<rparr> \<and> repaint f g f'"

lemma cpaint_fields:
  assumes "cpaint c f g c' f'"
  shows "fb c' = Some f'" "scale c' = scale c" "cell_w c' = cell_w c" "cell_h c' = cell_h c" "pad_x c' = pad_x c"
    "pad_y c' = pad_y c" "ccols c' = ccols c" "crows c' = crows c" "cursor_col c' = cursor_col c"
    "cursor_row c' = cursor_row c" "cur_attr c' = cur_attr c" "parse c' = parse c" "cparams c' = cparams c"
    "cnparams c' = cnparams c" "csi_private c' = csi_private c" "ccp c' = ccp c" "cneed c' = cneed c"
    "width f' = width f" "height f' = height f" "pitch f' = pitch f"
proof -
  define d where "d = dirty c'"
  have "c' = c\<lparr>fb := Some f', dirty := d\<rparr>" using assms unfolding d_def by (simp add: cpaint_def)
  then show "fb c' = Some f'" "scale c' = scale c" "cell_w c' = cell_w c" "cell_h c' = cell_h c" "pad_x c' = pad_x c"
    "pad_y c' = pad_y c" "ccols c' = ccols c" "crows c' = crows c" "cursor_col c' = cursor_col c"
    "cursor_row c' = cursor_row c" "cur_attr c' = cur_attr c" "parse c' = parse c" "cparams c' = cparams c"
    "cnparams c' = cnparams c" "csi_private c' = csi_private c" "ccp c' = ccp c" "cneed c' = cneed c" by simp_all
  show "width f' = width f" "height f' = height f" "pitch f' = pitch f"
    using assms repaint_dims [of f g f'] by (simp_all add: cpaint_def)
qed

lemma cpaint_refl: "fb c = Some f \<Longrightarrow> cpaint c f (pix f) c f"
  by (simp add: cpaint_def repaint_refl)

lemma cpaint_cong:
  "cpaint c f g c' f' \<Longrightarrow> (\<And>x y. x < pitch f \<Longrightarrow> g x y = g' x y) \<Longrightarrow> cpaint c f g' c' f'"
  using repaint_cong [of f g f' g'] by (simp add: cpaint_def)

lemma cpaint_trans:
  assumes "cpaint c f g1 c1 f1" "cpaint c1 f1 g2 c2 f2" "\<And>x y. x < pitch f \<Longrightarrow> g2 x y = g x y"
  shows "cpaint c f g c2 f2"
proof -
  define d1 d2 where "d1 = dirty c1" and "d2 = dirty c2"
  have "c1 = c\<lparr>fb := Some f1, dirty := d1\<rparr>" "c2 = c1\<lparr>fb := Some f2, dirty := d2\<rparr>"
    using assms(1,2) unfolding d1_def d2_def by (simp_all add: cpaint_def)
  then have "c2 = c\<lparr>fb := Some f2, dirty := dirty c2\<rparr>" by simp
  moreover have "repaint f g f2"
    using assms by (intro repaint_trans [of f g1 f1 g2 f2 g]) (auto simp: cpaint_def)
  ultimately show ?thesis using assms(1) by (simp add: cpaint_def)
qed

lemma cpaint_mark: "cpaint c f g c' f' \<Longrightarrow> cpaint c f g (mark_dirty c' x y w h) f'"
proof -
  assume p: "cpaint c f g c' f'"
  define d where "d = dirty c'"
  have "c' = c\<lparr>fb := Some f', dirty := d\<rparr>" using p unfolding d_def by (simp add: cpaint_def)
  with p show ?thesis by (simp add: cpaint_def mark_dirty_def split_def)
qed

lemma fill_rect_ok:
  assumes "fb c = Some f" "x + w \<le> pitch f" "y + h \<le> height f"
  shows "\<exists>c' f'. fill_rect c x y w h col = Some c' \<and>
    cpaint c f (\<lambda>px py. if y \<le> py \<and> py < y + h \<and> x \<le> px \<and> px < x + w then col else pix f px py) c' f'"
proof -
  from fill_fb_ok [OF assms(2,3), of col] obtain f' where f': "fill_fb f x y w h col = Some f'"
    "repaint f (\<lambda>px py. if y \<le> py \<and> py < y + h \<and> x \<le> px \<and> px < x + w then col else pix f px py) f'" by blast
  with assms(1) show ?thesis
    by (intro exI [of _ "c\<lparr>fb := Some f'\<rparr>"] exI [of _ f']) (simp add: fill_rect_def on_fb_def cpaint_def)
qed

section \<open>Drawing a cell\<close>

lemma div_block: "(n :: nat) * s \<le> k \<Longrightarrow> k < n * s + s \<Longrightarrow> k div s = n"
  by (metis add.commute div_nat_eqI mult.commute mult_Suc)

lemma block_row_ok:
  assumes "fb c = Some f" "bx + n * s \<le> pitch f" "Y + s \<le> height f" "0 < s"
  shows "\<exists>c' f'. for_each (\<lambda>c gx. fill_rect c (bx + gx * s) Y s s (colf gx)) [0..<n] c = Some c' \<and>
    cpaint c f (\<lambda>px py. if Y \<le> py \<and> py < Y + s \<and> bx \<le> px \<and> px < bx + n * s
      then colf ((px - bx) div s) else pix f px py) c' f'"
  using assms(2)
proof (induction n)
  case 0
  show ?case using assms(1) by (auto intro!: exI [of _ f] cpaint_cong [OF cpaint_refl])
next
  case (Suc n)
  then obtain c1 f1 where c1: "for_each (\<lambda>c gx. fill_rect c (bx + gx * s) Y s s (colf gx)) [0..<n] c = Some c1"
    "cpaint c f (\<lambda>px py. if Y \<le> py \<and> py < Y + s \<and> bx \<le> px \<and> px < bx + n * s
      then colf ((px - bx) div s) else pix f px py) c1 f1" by auto
  note d = cpaint_fields [OF c1(2)]
  from fill_rect_ok [of c1 f1 "bx + n * s" s Y s "colf n"] Suc.prems assms(3) d obtain c2 f2
    where c2: "fill_rect c1 (bx + n * s) Y s s (colf n) = Some c2"
      "cpaint c1 f1 (\<lambda>px py. if Y \<le> py \<and> py < Y + s \<and> bx + n * s \<le> px \<and> px < bx + n * s + s then colf n else pix f1 px py) c2 f2"
    by (auto simp: add.assoc)
  have "cpaint c f (\<lambda>px py. if Y \<le> py \<and> py < Y + s \<and> bx \<le> px \<and> px < bx + Suc n * s
      then colf ((px - bx) div s) else pix f px py) c2 f2"
  proof (rule cpaint_trans [OF c1(2) c2(2)])
    fix px py assume px: "px < pitch f"
    have p1: "pix f1 px py = (if Y \<le> py \<and> py < Y + s \<and> bx \<le> px \<and> px < bx + n * s
      then colf ((px - bx) div s) else pix f px py)" using c1(2) px by (simp add: cpaint_def repaint_def)
    have "(px - bx) div s = n" if "bx + n * s \<le> px" "px < bx + n * s + s"
      using that by (intro div_block) auto
    with p1 show "(if Y \<le> py \<and> py < Y + s \<and> bx + n * s \<le> px \<and> px < bx + n * s + s then colf n else pix f1 px py)
      = (if Y \<le> py \<and> py < Y + s \<and> bx \<le> px \<and> px < bx + Suc n * s then colf ((px - bx) div s) else pix f px py)"
      by auto
  qed
  with c1(1) c2(1) show ?case by (auto simp: for_each_append)
qed

lemma block_grid_ok:
  assumes "fb c = Some f" "bx + n * s \<le> pitch f" "by + m * s \<le> height f" "0 < s"
  shows "\<exists>c' f'. for_each (\<lambda>c gy. for_each (\<lambda>c gx. fill_rect c (bx + gx * s) (by + gy * s) s s (colf gy gx)) [0..<n] c)
      [0..<m] c = Some c' \<and>
    cpaint c f (\<lambda>px py. if by \<le> py \<and> py < by + m * s \<and> bx \<le> px \<and> px < bx + n * s
      then colf ((py - by) div s) ((px - bx) div s) else pix f px py) c' f'"
  using assms(3)
proof (induction m)
  case 0
  show ?case using assms(1) by (auto intro!: exI [of _ f] cpaint_cong [OF cpaint_refl])
next
  case (Suc m)
  then obtain c1 f1 where c1: "for_each (\<lambda>c gy. for_each (\<lambda>c gx. fill_rect c (bx + gx * s) (by + gy * s) s s (colf gy gx)) [0..<n] c)
      [0..<m] c = Some c1"
    "cpaint c f (\<lambda>px py. if by \<le> py \<and> py < by + m * s \<and> bx \<le> px \<and> px < bx + n * s
      then colf ((py - by) div s) ((px - bx) div s) else pix f px py) c1 f1" by auto
  note d = cpaint_fields [OF c1(2)]
  from block_row_ok [of c1 f1 bx n s "by + m * s" "colf m"] Suc.prems assms(2,4) d obtain c2 f2
    where c2: "for_each (\<lambda>c gx. fill_rect c (bx + gx * s) (by + m * s) s s (colf m gx)) [0..<n] c1 = Some c2"
      "cpaint c1 f1 (\<lambda>px py. if by + m * s \<le> py \<and> py < by + m * s + s \<and> bx \<le> px \<and> px < bx + n * s
        then colf m ((px - bx) div s) else pix f1 px py) c2 f2"
    by (auto simp: add.assoc)
  have "cpaint c f (\<lambda>px py. if by \<le> py \<and> py < by + Suc m * s \<and> bx \<le> px \<and> px < bx + n * s
      then colf ((py - by) div s) ((px - bx) div s) else pix f px py) c2 f2"
  proof (rule cpaint_trans [OF c1(2) c2(2)])
    fix px py assume px: "px < pitch f"
    have p1: "pix f1 px py = (if by \<le> py \<and> py < by + m * s \<and> bx \<le> px \<and> px < bx + n * s
      then colf ((py - by) div s) ((px - bx) div s) else pix f px py)"
      using c1(2) px by (simp add: cpaint_def repaint_def)
    have "(py - by) div s = m" if "by + m * s \<le> py" "py < by + m * s + s"
      using that by (intro div_block) auto
    with p1 show "(if by + m * s \<le> py \<and> py < by + m * s + s \<and> bx \<le> px \<and> px < bx + n * s
        then colf m ((px - bx) div s) else pix f1 px py)
      = (if by \<le> py \<and> py < by + Suc m * s \<and> bx \<le> px \<and> px < bx + n * s
         then colf ((py - by) div s) ((px - bx) div s) else pix f px py)"
      by auto
  qed
  with c1(1) c2(1) show ?case by (auto simp: for_each_append)
qed

definition geom :: "console \<Rightarrow> framebuffer \<Rightarrow> bool" where
  "geom c f \<longleftrightarrow> fb c = Some f \<and> 0 < scale c \<and> cell_w c = GLYPH_W * scale c \<and> cell_h c = GLYPH_H * scale c
     \<and> pad_x c + ccols c * cell_w c \<le> width f \<and> width f \<le> pitch f \<and> pad_y c + crows c * cell_h c \<le> height f
     \<and> 0 < ccols c \<and> 0 < crows c \<and> ccols c \<le> SAT \<and> crows c \<le> SAT"

lemma geomD:
  assumes "geom c f"
  shows "fb c = Some f" "0 < scale c" "cell_w c = GLYPH_W * scale c" "cell_h c = GLYPH_H * scale c"
    "pad_x c + ccols c * cell_w c \<le> width f" "width f \<le> pitch f" "pad_y c + crows c * cell_h c \<le> height f"
    "0 < ccols c" "0 < crows c" "ccols c \<le> SAT" "crows c \<le> SAT"
  using assms unfolding geom_def by blast+

text \<open>The font: every glyph has 16 rows, and the blank is blank.\<close>

definition font_ok :: "font \<Rightarrow> bool" where
  "font_ok fnt \<longleftrightarrow> length (ascii_glyphs fnt) = 128 \<and> (\<forall>g \<in> set (ascii_glyphs fnt). length g = GLYPH_H)
     \<and> (\<forall>(cp, g) \<in> set (ext_glyphs fnt). length g = GLYPH_H \<and> is_scalar cp)
     \<and> ascii_glyphs fnt ! 32 = replicate GLYPH_H 0"

lemma glyph_rows:
  assumes "font_ok fnt"
  shows "length (glyph_for fnt cp) = GLYPH_H"
proof -
  have a: "length (ascii_glyphs fnt ! k) = GLYPH_H" if "k < 128" for k
    using assms that by (simp add: font_ok_def)
  show ?thesis
  proof (cases "cp < 128")
    case False
    show ?thesis
    proof (cases "find (\<lambda>(c, _). c = cp) (ext_glyphs fnt)")
      case None
      then show ?thesis using False a by (simp add: glyph_for_def)
    next
      case (Some p)
      then have "p \<in> set (ext_glyphs fnt)" by (metis find_Some_iff nth_mem)
      with Some False assms show ?thesis by (auto simp: glyph_for_def font_ok_def)
    qed
  qed (use a in \<open>simp add: glyph_for_def\<close>)
qed

definition render :: "font \<Rightarrow> nat \<Rightarrow> cell \<Rightarrow> nat \<Rightarrow> nat \<Rightarrow> u32" where
  "render fnt s cl i j =
     (let (f, b) = cell_colours (cattr cl) in if bit (glyph_for fnt (ch cl) ! (j div s)) (i div s) then f else b)"

lemma cell_fits: "(x :: nat) < n \<Longrightarrow> x * w + w \<le> n * w"
proof -
  assume "x < n"
  then have "Suc x * w \<le> n * w" by (intro mult_le_mono1) simp
  then show ?thesis by simp
qed

lemma draw_glyph_ok:
  assumes g: "geom c f" and fnt: "font_ok fnt" "attr_ok (cur_attr c)" and xy: "x < ccols c" "y < crows c"
  shows "\<exists>c' f'. draw_glyph fnt c x y cp = Some c' \<and>
    cpaint c f (\<lambda>px py. if pad_y c + y * cell_h c \<le> py \<and> py < pad_y c + y * cell_h c + cell_h c
        \<and> pad_x c + x * cell_w c \<le> px \<and> px < pad_x c + x * cell_w c + cell_w c
      then render fnt (scale c) \<lparr>ch = cp, cattr = cur_attr c\<rparr> (px - (pad_x c + x * cell_w c)) (py - (pad_y c + y * cell_h c))
      else pix f px py) c' f'"
proof -
  let ?bx = "pad_x c + x * cell_w c" and ?by = "pad_y c + y * cell_h c" and ?s = "scale c"
  obtain F B where fb: "cell_colours (cur_attr c) = (F, B)" by (cases "cell_colours (cur_attr c)")
  note gd = g [unfolded geom_def]
  have w: "?bx + GLYPH_W * ?s \<le> pitch f" "?by + GLYPH_H * ?s \<le> height f"
    using gd cell_fits [OF xy(1), of "cell_w c"] cell_fits [OF xy(2), of "cell_h c"] by auto
  from block_grid_ok [OF _ w, of c "\<lambda>gy gx. if bit (glyph_for fnt cp ! gy) gx then F else B"] gd obtain c1 f1
    where c1: "for_each (\<lambda>c gy. for_each (\<lambda>c gx. fill_rect c (?bx + gx * ?s) (?by + gy * ?s) ?s ?s
        (if bit (glyph_for fnt cp ! gy) gx then F else B)) [0..<GLYPH_W] c) [0..<GLYPH_H] c = Some c1"
      "cpaint c f (\<lambda>px py. if ?by \<le> py \<and> py < ?by + GLYPH_H * ?s \<and> ?bx \<le> px \<and> px < ?bx + GLYPH_W * ?s
        then (if bit (glyph_for fnt cp ! ((py - ?by) div ?s)) ((px - ?bx) div ?s) then F else B) else pix f px py) c1 f1"
    by auto
  have "draw_glyph fnt c x y cp = Some (mark_dirty c1 ?bx ?by (cell_w c1) (cell_h c1))"
    using c1(1) fb fnt glyph_rows [OF fnt(1), of cp] by (simp add: draw_glyph_def Let_def)
  moreover have "cpaint c f (\<lambda>px py. if ?by \<le> py \<and> py < ?by + cell_h c \<and> ?bx \<le> px \<and> px < ?bx + cell_w c
      then render fnt (scale c) \<lparr>ch = cp, cattr = cur_attr c\<rparr> (px - ?bx) (py - ?by)
      else pix f px py) (mark_dirty c1 ?bx ?by (cell_w c1) (cell_h c1)) f1"
    by (rule cpaint_cong [OF cpaint_mark [OF c1(2)]]) (use gd fb in \<open>simp add: render_def\<close>)
  ultimately show ?thesis by blast
qed

section \<open>What the screen shows\<close>

text \<open>The pixels of every cell of the text area are the rendering of the grid \<open>g\<close>.\<close>

definition displays :: "font \<Rightarrow> console \<Rightarrow> framebuffer \<Rightarrow> (nat \<Rightarrow> nat \<Rightarrow> cell) \<Rightarrow> bool" where
  "displays fnt c f g \<longleftrightarrow> (\<forall>x y i j. x < ccols c \<longrightarrow> y < crows c \<longrightarrow> i < cell_w c \<longrightarrow> j < cell_h c \<longrightarrow>
     pix f (pad_x c + x * cell_w c + i) (pad_y c + y * cell_h c + j) = render fnt (scale c) (g x y) i j)"

lemma cell_pixel:
  assumes "geom c f" "x < ccols c" "i < cell_w c"
  shows "pad_x c + x * cell_w c + i < pitch f"
proof -
  have "x * cell_w c + i < ccols c * cell_w c" using cell_fits [OF assms(2), of "cell_w c"] assms(3) by simp
  then show ?thesis using geomD [OF assms(1)] by linarith
qed

lemma in_block: "i < (w :: nat) \<Longrightarrow> a * w \<le> x * w + i \<and> x * w + i < a * w + n * w \<longleftrightarrow> a \<le> x \<and> x < a + n"
proof
  assume i: "i < w" and l: "a * w \<le> x * w + i \<and> x * w + i < a * w + n * w"
  show "a \<le> x \<and> x < a + n"
  proof (rule conjI; rule ccontr)
    assume "\<not> a \<le> x"
    then have "Suc x * w \<le> a * w" by (intro mult_le_mono1) simp
    with i l show False by simp
  next
    assume "\<not> x < a + n"
    then have "(a + n) * w \<le> x * w" by (intro mult_le_mono1) simp
    with l show False by (simp add: add_mult_distrib)
  qed
next
  assume i: "i < w" and r: "a \<le> x \<and> x < a + n"
  have "a * w \<le> x * w" using r by (intro mult_le_mono1) simp
  moreover have "Suc x * w \<le> (a + n) * w" using r by (intro mult_le_mono1) simp
  ultimately show "a * w \<le> x * w + i \<and> x * w + i < a * w + n * w"
    using i unfolding add_mult_distrib mult_Suc by linarith
qed

lemma in_block1: "i < (w :: nat) \<Longrightarrow> a * w \<le> x * w + i \<and> x * w + i < a * w + w \<longleftrightarrow> a = x"
  using in_block [of i w a x 1] by auto

lemma geom_cpaint:
  assumes "geom c f" "cpaint c f h c' f'"
  shows "geom c' f'"
  unfolding geom_def cpaint_fields [OF assms(2)] using geomD [OF assms(1)] by blast

lemma displays_cpaint:
  assumes g: "geom c f" "cpaint c f h c' f'"
    and e: "\<And>x y i j. x < ccols c \<Longrightarrow> y < crows c \<Longrightarrow> i < cell_w c \<Longrightarrow> j < cell_h c \<Longrightarrow>
      h (pad_x c + x * cell_w c + i) (pad_y c + y * cell_h c + j) = render fnt (scale c) (g' x y) i j"
  shows "displays fnt c' f' g'"
proof -
  note d = cpaint_fields [OF g(2)]
  have "pix f' x y = h x y" if "x < pitch f" for x y using g(2) that by (simp add: cpaint_def repaint_def)
  then show ?thesis using e cell_pixel [OF g(1)] by (simp add: displays_def d)
qed

text \<open>A drawing step: the console is repainted, and any grid it displays is transformed by \<open>T\<close>.\<close>

definition redraws :: "font \<Rightarrow> console \<Rightarrow> framebuffer \<Rightarrow> ((nat \<Rightarrow> nat \<Rightarrow> cell) \<Rightarrow> nat \<Rightarrow> nat \<Rightarrow> cell)
    \<Rightarrow> console \<Rightarrow> framebuffer \<Rightarrow> bool" where
  "redraws fnt c f T c' f' \<longleftrightarrow> (\<exists>h. cpaint c f h c' f') \<and> (\<forall>gr. displays fnt c f gr \<longrightarrow> displays fnt c' f' (T gr))"

lemma redraws_geom: "redraws fnt c f T c' f' \<Longrightarrow> geom c f \<Longrightarrow> geom c' f'"
  using geom_cpaint by (auto simp: redraws_def)

lemma redraws_fields:
  assumes "redraws fnt c f T c' f'"
  shows "ccols c' = ccols c" "crows c' = crows c" "cursor_col c' = cursor_col c"
    "cursor_row c' = cursor_row c" "cur_attr c' = cur_attr c" "parse c' = parse c" "cparams c' = cparams c"
    "cnparams c' = cnparams c" "csi_private c' = csi_private c" "ccp c' = ccp c" "cneed c' = cneed c"
  using assms cpaint_fields by (auto simp: redraws_def)

lemma redraws_refl: "fb c = Some f \<Longrightarrow> redraws fnt c f (\<lambda>gr. gr) c f"
  using cpaint_refl by (auto simp: redraws_def)

lemma redraws_trans:
  assumes "redraws fnt c f T1 c1 f1" "redraws fnt c1 f1 T2 c2 f2"
  shows "redraws fnt c f (\<lambda>gr. T2 (T1 gr)) c2 f2"
  using assms unfolding redraws_def by (metis cpaint_trans)

lemma displays_cong:
  "displays fnt c f g \<Longrightarrow> (\<And>x y. x < ccols c \<Longrightarrow> y < crows c \<Longrightarrow> g x y = g' x y) \<Longrightarrow> displays fnt c f g'"
  by (simp add: displays_def)

lemma redraws_cong:
  assumes "redraws fnt c f T c' f'" "\<And>gr x y. x < ccols c \<Longrightarrow> y < crows c \<Longrightarrow> T gr x y = T' gr x y"
  shows "redraws fnt c f T' c' f'"
proof -
  have "displays fnt c' f' (T' gr)" if "displays fnt c f gr" for gr
    by (rule displays_cong [of _ _ _ "T gr"]) (use assms that redraws_fields(1,2) [OF assms(1)] in \<open>auto simp: redraws_def\<close>)
  then show ?thesis using assms(1) by (simp add: redraws_def)
qed

lemma redrawsI:
  assumes g: "geom c f" "cpaint c f h c' f'"
    and e: "\<And>gr x y i j. displays fnt c f gr \<Longrightarrow> x < ccols c \<Longrightarrow> y < crows c \<Longrightarrow> i < cell_w c \<Longrightarrow> j < cell_h c \<Longrightarrow>
      h (pad_x c + x * cell_w c + i) (pad_y c + y * cell_h c + j) = render fnt (scale c) (T gr x y) i j"
  shows "redraws fnt c f T c' f'"
  using g displays_cpaint [OF g] e unfolding redraws_def by blast

definition set_cell :: "nat \<Rightarrow> nat \<Rightarrow> cell \<Rightarrow> (nat \<Rightarrow> nat \<Rightarrow> cell) \<Rightarrow> nat \<Rightarrow> nat \<Rightarrow> cell" where
  "set_cell x y cl gr = (\<lambda>x' y'. if x' = x \<and> y' = y then cl else gr x' y')"

definition blank_cells :: "nat \<Rightarrow> nat \<Rightarrow> nat \<Rightarrow> (nat \<Rightarrow> nat \<Rightarrow> cell) \<Rightarrow> nat \<Rightarrow> nat \<Rightarrow> cell" where
  "blank_cells x y n gr = (\<lambda>x' y'. if y' = y \<and> x \<le> x' \<and> x' < x + n then BLANK else gr x' y')"

definition blank_rows :: "nat \<Rightarrow> nat \<Rightarrow> (nat \<Rightarrow> nat \<Rightarrow> cell) \<Rightarrow> nat \<Rightarrow> nat \<Rightarrow> cell" where
  "blank_rows from to gr = (\<lambda>x' y'. if from \<le> y' \<and> y' < to then BLANK else gr x' y')"

definition shift_rows :: "nat \<Rightarrow> (nat \<Rightarrow> nat \<Rightarrow> cell) \<Rightarrow> nat \<Rightarrow> nat \<Rightarrow> cell" where
  "shift_rows r gr = (\<lambda>x' y'. if y' + 1 < r then gr x' (y' + 1) else BLANK)"

lemma draw_glyph_redraws:
  assumes g: "geom c f" and fnt: "font_ok fnt" "attr_ok (cur_attr c)" and xy: "x < ccols c" "y < crows c"
  shows "\<exists>c' f'. draw_glyph fnt c x y cp = Some c' \<and> redraws fnt c f (set_cell x y \<lparr>ch = cp, cattr = cur_attr c\<rparr>) c' f'"
proof -
  from draw_glyph_ok [OF g fnt xy, of cp] obtain c' f' where c': "draw_glyph fnt c x y cp = Some c'"
    "cpaint c f (\<lambda>px py. if pad_y c + y * cell_h c \<le> py \<and> py < pad_y c + y * cell_h c + cell_h c
        \<and> pad_x c + x * cell_w c \<le> px \<and> px < pad_x c + x * cell_w c + cell_w c
      then render fnt (scale c) \<lparr>ch = cp, cattr = cur_attr c\<rparr> (px - (pad_x c + x * cell_w c)) (py - (pad_y c + y * cell_h c))
      else pix f px py) c' f'" by blast
  have "redraws fnt c f (set_cell x y \<lparr>ch = cp, cattr = cur_attr c\<rparr>) c' f'"
  proof (rule redrawsI [OF g c'(2)])
    fix gr x' y' i j assume d: "displays fnt c f gr" and b: "x' < ccols c" "y' < crows c" "i < cell_w c" "j < cell_h c"
    from in_block1 [OF b(3), of x x'] in_block1 [OF b(4), of y y'] d b
    show "(if pad_y c + y * cell_h c \<le> pad_y c + y' * cell_h c + j \<and> pad_y c + y' * cell_h c + j < pad_y c + y * cell_h c + cell_h c
        \<and> pad_x c + x * cell_w c \<le> pad_x c + x' * cell_w c + i \<and> pad_x c + x' * cell_w c + i < pad_x c + x * cell_w c + cell_w c
      then render fnt (scale c) \<lparr>ch = cp, cattr = cur_attr c\<rparr> (pad_x c + x' * cell_w c + i - (pad_x c + x * cell_w c))
        (pad_y c + y' * cell_h c + j - (pad_y c + y * cell_h c))
      else pix f (pad_x c + x' * cell_w c + i) (pad_y c + y' * cell_h c + j))
      = render fnt (scale c) (set_cell x y \<lparr>ch = cp, cattr = cur_attr c\<rparr> gr x' y') i j"
      by (auto simp: displays_def set_cell_def)
  qed
  with c'(1) show ?thesis by blast
qed

lemma render_blank:
  assumes "font_ok fnt" "0 < s" "j < GLYPH_H * s"
  shows "render fnt s BLANK i j = BG_COLOR"
proof -
  have "j div s < GLYPH_H" using assms(2,3) by (simp add: less_mult_imp_div_less)
  then have "glyph_for fnt 32 ! (j div s) = 0" using assms(1) by (simp add: glyph_for_def font_ok_def)
  then show ?thesis by (simp add: render_def BLANK_def PLAIN_def cell_colours_def colour_def)
qed

lemma erase_cells_redraws:
  assumes g: "geom c f" and fnt: "font_ok fnt" and y: "y < crows c"
  shows "\<exists>c' f'. erase_cells c x y n = Some c' \<and> redraws fnt c f (blank_cells x y n) c' f'"
proof (cases "x \<ge> ccols c \<or> n = 0")
  case True
  have "redraws fnt c f (blank_cells x y n) c f"
    by (rule redraws_cong [OF redraws_refl [OF geomD(1) [OF g]]]) (use True in \<open>auto simp: blank_cells_def\<close>)
  with True show ?thesis by (auto simp: erase_cells_def)
next
  case False
  let ?n = "min n (ccols c - x)"
  let ?x = "pad_x c + x * cell_w c" and ?y = "pad_y c + y * cell_h c"
  note gd = geomD [OF g]
  have "x + ?n \<le> ccols c" using False by linarith
  then have "(x + ?n) * cell_w c \<le> ccols c * cell_w c" by (rule mult_le_mono1)
  then have w: "?x + ?n * cell_w c \<le> pitch f" "?y + cell_h c \<le> height f"
    using gd(5,6,7) cell_fits [OF y, of "cell_h c"] by (simp_all add: add_mult_distrib)
  from fill_rect_ok [OF gd(1) w, of BG_COLOR] obtain c1 f1 where c1:
    "fill_rect c ?x ?y (?n * cell_w c) (cell_h c) BG_COLOR = Some c1"
    "cpaint c f (\<lambda>px py. if ?y \<le> py \<and> py < ?y + cell_h c \<and> ?x \<le> px \<and> px < ?x + ?n * cell_w c then BG_COLOR else pix f px py) c1 f1"
    by blast
  let ?c = "mark_dirty c1 ?x ?y (?n * cell_w c1) (cell_h c1)"
  have run: "erase_cells c x y n = Some ?c" using False c1(1) by (simp add: erase_cells_def Let_def)
  have "redraws fnt c f (blank_cells x y n) ?c f1"
  proof (rule redrawsI [OF g cpaint_mark [OF c1(2)]])
    fix gr x' y' i j assume d: "displays fnt c f gr" and b: "x' < ccols c" "y' < crows c" "i < cell_w c" "j < cell_h c"
    from in_block [OF b(3), of x x' ?n] in_block1 [OF b(4), of y y'] d b gd(2,4) render_blank [OF fnt, of "scale c" j i]
    show "(if ?y \<le> pad_y c + y' * cell_h c + j \<and> pad_y c + y' * cell_h c + j < ?y + cell_h c
        \<and> ?x \<le> pad_x c + x' * cell_w c + i \<and> pad_x c + x' * cell_w c + i < ?x + ?n * cell_w c
      then BG_COLOR else pix f (pad_x c + x' * cell_w c + i) (pad_y c + y' * cell_h c + j))
      = render fnt (scale c) (blank_cells x y n gr x' y') i j"
      by (auto simp: displays_def blank_cells_def)
  qed
  with run show ?thesis by blast
qed

lemma erase_lines_redraws:
  assumes g: "geom c f" and fnt: "font_ok fnt" and to: "to \<le> crows c"
  shows "\<exists>c' f'. erase_lines c from to (ccols c) = Some c' \<and> redraws fnt c f (blank_rows from to) c' f'"
  using to unfolding erase_lines_def
proof (induction to)
  case 0
  have "redraws fnt c f (blank_rows from 0) c f"
    by (rule redraws_cong [OF redraws_refl [OF geomD(1) [OF g]]]) (simp add: blank_rows_def)
  then show ?case by auto
next
  case (Suc m)
  then obtain c1 f1 where c1: "for_each (\<lambda>c' r. erase_cells c' 0 r (ccols c)) [from..<m] c = Some c1"
    "redraws fnt c f (blank_rows from m) c1 f1" by auto
  note d = redraws_fields [OF c1(2)]
  show ?case
  proof (cases "from \<le> m")
    case False
    have "redraws fnt c f (blank_rows from (Suc m)) c1 f1"
      by (rule redraws_cong [OF c1(2)]) (use False in \<open>auto simp: blank_rows_def\<close>)
    with c1(1) False show ?thesis by auto
  next
    case True
    obtain c2 f2 where c2: "erase_cells c1 0 m (ccols c) = Some c2" "redraws fnt c1 f1 (blank_cells 0 m (ccols c)) c2 f2"
      using erase_cells_redraws [OF redraws_geom [OF c1(2) g] fnt, of m 0 "ccols c"] Suc.prems d by auto
    have "redraws fnt c f (blank_rows from (Suc m)) c2 f2"
      by (rule redraws_cong [OF redraws_trans [OF c1(2) c2(2)]]) (use True in \<open>auto simp: blank_rows_def blank_cells_def\<close>)
    with c1(1) c2(1) True show ?thesis by (auto simp: for_each_append)
  qed
qed

lemma pixel_index:
  assumes "px < (p :: nat)"
  shows "p * a \<le> py * p + px \<longleftrightarrow> a \<le> py" "py * p + px < p * a \<longleftrightarrow> py < a"
proof -
  show lt: "py * p + px < p * a \<longleftrightarrow> py < a"
  proof
    assume "py < a"
    then have "Suc py * p \<le> a * p" by (intro mult_le_mono1) simp
    with assms show "py * p + px < p * a" by (simp add: mult.commute)
  next
    assume l: "py * p + px < p * a"
    show "py < a"
    proof (rule ccontr)
      assume "\<not> py < a"
      then have "p * a \<le> p * py" by (intro mult_le_mono2) simp
      with l show False unfolding mult.commute [of py p] by linarith
    qed
  qed
  show "p * a \<le> py * p + px \<longleftrightarrow> a \<le> py" using lt by linarith
qed

lemma copy_pixels_rows:
  assumes "a + d + k \<le> height f"
  shows "\<exists>f'. copy_pixels f (pitch f * a + pitch f * d) (pitch f * a) (pitch f * (k + d) - pitch f * d) = Some f' \<and>
    repaint f (\<lambda>px py. if a \<le> py \<and> py < a + k then pix f px (py + d) else pix f px py) f'"
proof -
  let ?p = "pitch f"
  have n: "?p * (k + d) - ?p * d = ?p * k" by (simp add: add_mult_distrib2)
  have "?p * (a + d + k) \<le> ?p * height f" using assms by (intro mult_le_mono2)
  then have b: "?p * a + ?p * d + ?p * k \<le> ?p * height f" by (simp add: add_mult_distrib2)
  let ?f = "f\<lparr>pixels := (\<lambda>i. if ?p * a \<le> i \<and> i < ?p * a + ?p * k then pixels f (?p * a + ?p * d + (i - ?p * a)) else pixels f i)\<rparr>"
  have "pix ?f px py = (if a \<le> py \<and> py < a + k then pix f px (py + d) else pix f px py)" if "px < ?p" for px py
  proof -
    have "?p * a + ?p * k = ?p * (a + k)" by (simp add: add_mult_distrib2)
    with pixel_index(1) [OF that, of a py] pixel_index(2) [OF that, of py "a + k"]
    have iff: "?p * a \<le> py * ?p + px \<and> py * ?p + px < ?p * a + ?p * k \<longleftrightarrow> a \<le> py \<and> py < a + k" by simp
    have e: "pix ?f px py = (if ?p * a \<le> py * ?p + px \<and> py * ?p + px < ?p * a + ?p * k
        then pixels f (?p * a + ?p * d + (py * ?p + px - ?p * a)) else pix f px py)" by (simp add: pix_def)
    show ?thesis
    proof (cases "a \<le> py \<and> py < a + k")
      case True
      have "?p * a + ?p * d + (py * ?p + px - ?p * a) = (py + d) * ?p + px"
        using True iff by (simp add: algebra_simps)
      then show ?thesis using True iff unfolding e pix_def [of f px "py + d"] by presburger
    next
      case False
      then show ?thesis by (simp only: e iff if_False)
    qed
  qed
  then have "repaint f (\<lambda>px py. if a \<le> py \<and> py < a + k then pix f px (py + d) else pix f px py) ?f"
    by (auto simp: repaint_def)
  with b show ?thesis by (auto simp: copy_pixels_def n)
qed

lemma scroll_redraws:
  assumes g: "geom c f" and fnt: "font_ok fnt"
  shows "\<exists>c' f'. scroll c = Some c' \<and> redraws fnt c f (shift_rows (crows c)) c' f'"
proof -
  note gd = geomD [OF g]
  let ?k = "(crows c - 1) * cell_h c" and ?h = "cell_h c"
  obtain r where r: "crows c = Suc r" using gd(9) by (cases "crows c") auto
  have k: "?k + ?h = crows c * ?h" by (simp add: r)
  have "pad_y c + ?h + ?k \<le> height f" using gd(7) k by linarith
  from copy_pixels_rows [OF this] obtain f1 where f1:
    "copy_pixels f (pitch f * pad_y c + pitch f * ?h) (pitch f * pad_y c) (pitch f * (?k + ?h) - pitch f * ?h) = Some f1"
    "repaint f (\<lambda>px py. if pad_y c \<le> py \<and> py < pad_y c + ?k then pix f px (py + ?h) else pix f px py) f1" by blast
  let ?c = "c\<lparr>fb := Some f1\<rparr>"
  have p1: "cpaint c f (\<lambda>px py. if pad_y c \<le> py \<and> py < pad_y c + ?k then pix f px (py + ?h) else pix f px py) ?c f1"
    using gd(1) f1(2) by (simp add: cpaint_def)
  have dims: "width f1 = width f" "height f1 = height f" "pitch f1 = pitch f" using repaint_dims [OF f1(2)] by auto
  have "pad_y c + ?k + ?h \<le> height f" using gd(7) k by linarith
  then obtain c2 f2 where c2: "fill_rect ?c 0 (pad_y c + ?k) (width f) ?h BG_COLOR = Some c2"
    "cpaint ?c f1 (\<lambda>px py. if pad_y c + ?k \<le> py \<and> py < pad_y c + ?k + ?h \<and> 0 \<le> px \<and> px < 0 + width f then BG_COLOR else pix f1 px py) c2 f2"
    using fill_rect_ok [of ?c f1 0 "width f" "pad_y c + ?k" ?h BG_COLOR] gd(6) dims by auto
  let ?c2 = "mark_dirty c2 0 (pad_y c2) (width f) (crows c2 * cell_h c2)"
  note f1' = f1(1) [unfolded k]
  have run: "scroll c = Some ?c2"
    using gd(1) f1' c2(1) by (simp add: scroll_def on_fb_def Let_def mult.assoc mult.commute [of ?h])
  have p2: "cpaint c f (\<lambda>px py. if pad_y c + ?k \<le> py \<and> py < pad_y c + ?k + ?h \<and> px < width f then BG_COLOR
      else if pad_y c \<le> py \<and> py < pad_y c + ?k then pix f px (py + ?h) else pix f px py) ?c2 f2"
    by (rule cpaint_mark [OF cpaint_trans [OF p1 c2(2)]]) (use f1(2) in \<open>auto simp: repaint_def\<close>)
  have "redraws fnt c f (shift_rows (crows c)) ?c2 f2"
  proof (rule redrawsI [OF g p2])
    fix gr x y i j assume d: "displays fnt c f gr" and b: "x < ccols c" "y < crows c" "i < cell_w c" "j < ?h"
    let ?x = "pad_x c + x * cell_w c + i" and ?y = "pad_y c + y * ?h + j"
    have x: "?x < width f" using cell_fits [OF b(1), of "cell_w c"] b(3) gd(5) by linarith
    have "(if pad_y c + ?k \<le> ?y \<and> ?y < pad_y c + ?k + ?h then BG_COLOR
        else if ?y < pad_y c + ?k then pix f ?x (?y + ?h) else pix f ?x ?y) = render fnt (scale c) (shift_rows (crows c) gr x y) i j"
    proof (cases "y + 1 < crows c")
      case True
      then have "y * ?h + ?h \<le> ?k" using cell_fits [of y "crows c - 1" ?h] by simp
      then have "?y < pad_y c + ?k" using b(4) by linarith
      moreover have "pix f ?x (?y + ?h) = render fnt (scale c) (gr x (y + 1)) i j"
        using d [unfolded displays_def, rule_format, OF b(1) True b(3,4)] by (simp add: algebra_simps)
      ultimately show ?thesis using True by (simp add: shift_rows_def)
    next
      case False
      then have "y = crows c - 1" using b(2) by linarith
      then show ?thesis using b(4) gd(2,4) render_blank [OF fnt, of "scale c" j i] False by (simp add: shift_rows_def)
    qed
    then show "(if pad_y c + ?k \<le> ?y \<and> ?y < pad_y c + ?k + ?h \<and> ?x < width f then BG_COLOR
        else if pad_y c \<le> ?y \<and> ?y < pad_y c + ?k then pix f ?x (?y + ?h) else pix f ?x ?y)
      = render fnt (scale c) (shift_rows (crows c) gr x y) i j" using x by (simp only: le_add1 add.assoc if_True simp_thms)
  qed
  with run show ?thesis by blast
qed

section \<open>Safety\<close>

text \<open>The invariant of the console: it fits its framebuffer, the cursor is on screen, the escape
  parameters are in their array and the attributes name palette colours.\<close>

definition cinv :: "console \<Rightarrow> framebuffer \<Rightarrow> bool" where
  "cinv c f \<longleftrightarrow> geom c f \<and> cursor_col c < ccols c \<and> cursor_row c < crows c \<and> attr_ok (cur_attr c)
     \<and> length (cparams c) = MAX_PARAMS \<and> cnparams c \<le> MAX_PARAMS"

lemma cinvD:
  assumes "cinv c f"
  shows "geom c f" "cursor_col c < ccols c" "cursor_row c < crows c" "attr_ok (cur_attr c)"
    "length (cparams c) = MAX_PARAMS" "cnparams c \<le> MAX_PARAMS" "0 < ccols c" "0 < crows c"
    "ccols c \<le> SAT" "crows c \<le> SAT"
  using assms geomD(8-11) [of c f] by (auto simp: cinv_def)

lemma geom_upd [simp]:
  "geom (c\<lparr>cursor_col := x\<rparr>) f = geom c f" "geom (c\<lparr>cursor_row := y\<rparr>) f = geom c f"
  "geom (c\<lparr>cur_attr := a\<rparr>) f = geom c f" "geom (c\<lparr>parse := st\<rparr>) f = geom c f"
  "geom (c\<lparr>cparams := ps\<rparr>) f = geom c f" "geom (c\<lparr>cnparams := n\<rparr>) f = geom c f"
  "geom (c\<lparr>csi_private := b\<rparr>) f = geom c f" "geom (c\<lparr>ccp := n\<rparr>) f = geom c f"
  "geom (c\<lparr>cneed := n\<rparr>) f = geom c f" "geom (c\<lparr>flushed := fl\<rparr>) f = geom c f" "geom (c\<lparr>dirty := dr\<rparr>) f = geom c f"
  by (simp_all add: geom_def)

lemma cinv_upd [simp]:
  "cinv (c\<lparr>parse := st\<rparr>) f = cinv c f" "cinv (c\<lparr>csi_private := b\<rparr>) f = cinv c f"
  "cinv (c\<lparr>ccp := n\<rparr>) f = cinv c f" "cinv (c\<lparr>cneed := n\<rparr>) f = cinv c f"
  "cinv c f \<Longrightarrow> x < ccols c \<Longrightarrow> cinv (c\<lparr>cursor_col := x\<rparr>) f"
  "cinv c f \<Longrightarrow> y < crows c \<Longrightarrow> cinv (c\<lparr>cursor_row := y\<rparr>) f"
  "cinv c f \<Longrightarrow> attr_ok a \<Longrightarrow> cinv (c\<lparr>cur_attr := a\<rparr>) f"
  "cinv c f \<Longrightarrow> n \<le> MAX_PARAMS \<Longrightarrow> cinv (c\<lparr>cnparams := n\<rparr>) f"
  "cinv c f \<Longrightarrow> length ps = MAX_PARAMS \<Longrightarrow> cinv (c\<lparr>cparams := ps\<rparr>) f"
  by (simp_all add: cinv_def)

lemma redraws_cinv: "redraws fnt c f T c' f' \<Longrightarrow> cinv c f \<Longrightarrow> cinv c' f'"
  using redraws_geom [of fnt c f T c' f'] redraws_fields [of fnt c f T c' f'] by (simp add: cinv_def)

lemma dec32_pos: "0 < n \<Longrightarrow> n \<le> W32 \<Longrightarrow> dec32 n = n - 1"
  using mod_add_self2 [of "n - 1" W32] by (simp add: dec32_def W32_def)

lemma dec32_dims:
  assumes "cinv c f"
  shows "dec32 (ccols c) = ccols c - 1" "dec32 (crows c) = crows c - 1"
  using cinvD [OF assms] by (simp_all add: dec32_pos W32_def SAT_def)

text \<open>Moving down a row.\<close>

lemma newline_redraws:
  assumes c: "cinv c f" and fnt: "font_ok fnt"
  shows "\<exists>c' f'. newline c = Some c' \<and>
    (if cursor_row c + 1 < crows c then c' = c\<lparr>cursor_col := 0, cursor_row := cursor_row c + 1\<rparr> \<and> f' = f
     else redraws fnt (c\<lparr>cursor_col := 0\<rparr>) f (shift_rows (crows c)) c' f')"
proof -
  note d = cinvD [OF c]
  have m: "(cursor_row c + 1) mod W32 = cursor_row c + 1" using d(3,10) by (simp add: W32_def SAT_def)
  show ?thesis
  proof (cases "cursor_row c + 1 < crows c")
    case True
    with m show ?thesis by (simp add: newline_def)
  next
    case False
    let ?c = "c\<lparr>cursor_col := 0, cursor_row := cursor_row c + 1\<rparr>" and ?home = "c\<lparr>cursor_col := 0\<rparr>"
    have "geom ?c f" using d(1) by simp
    from scroll_redraws [OF this fnt] obtain c1 f1 where c1: "scroll ?c = Some c1"
      "redraws fnt ?c f (shift_rows (crows c)) c1 f1" by auto
    obtain h where h: "cpaint ?c f h c1 f1" using c1(2) by (auto simp: redraws_def)
    define dr where "dr = dirty c1"
    have c1_eq: "c1 = ?c\<lparr>fb := Some f1, dirty := dr\<rparr>" using h unfolding dr_def by (simp add: cpaint_def)
    have row: "dec32 (crows c) = cursor_row c" using False d(3) dec32_dims(2) [OF c] by simp
    have eq: "c1\<lparr>cursor_row := dec32 (crows c1)\<rparr> = ?home\<lparr>fb := Some f1, dirty := dr\<rparr>"
      by (simp add: c1_eq row)
    have "displays fnt (?home\<lparr>fb := Some f1, dirty := dr\<rparr>) f1 gr = displays fnt c1 f1 gr" "displays fnt ?home f gr = displays fnt ?c f gr" for gr
      by (simp_all add: displays_def c1_eq)
    moreover have "cpaint ?home f h (?home\<lparr>fb := Some f1, dirty := dr\<rparr>) f1" using h by (simp add: cpaint_def)
    ultimately have "redraws fnt ?home f (shift_rows (crows c)) (?home\<lparr>fb := Some f1, dirty := dr\<rparr>) f1"
      using c1(2) unfolding redraws_def by blast
    moreover have "newline c = Some (?home\<lparr>fb := Some f1, dirty := dr\<rparr>)"
      using False c1(1) m eq by (simp add: newline_def Let_def)
    ultimately show ?thesis using False by auto
  qed
qed

definition cstep_ok :: "console \<Rightarrow> console option \<Rightarrow> bool" where
  "cstep_ok c r \<longleftrightarrow> (\<exists>c' f'. r = Some c' \<and> cinv c' f' \<and> ccols c' = ccols c \<and> crows c' = crows c)"

lemma cstep_okI: "r = Some c' \<Longrightarrow> cinv c' f' \<Longrightarrow> ccols c' = ccols c \<Longrightarrow> crows c' = crows c \<Longrightarrow> cstep_ok c r"
  by (auto simp: cstep_ok_def)

lemma cstep_ok_bind:
  assumes "cstep_ok c r" "\<And>c' f'. cinv c' f' \<Longrightarrow> ccols c' = ccols c \<Longrightarrow> crows c' = crows c \<Longrightarrow> cstep_ok c' (g c')"
  shows "cstep_ok c (r \<bind> g)"
  using assms unfolding cstep_ok_def by fastforce

lemma redraws_step: "r = Some c' \<Longrightarrow> redraws fnt c f T c' f' \<Longrightarrow> cinv c f \<Longrightarrow> cstep_ok c r"
  using redraws_cinv [of fnt c f T c' f'] redraws_fields(1,2) [of fnt c f T c' f'] by (auto simp: cstep_ok_def)

lemma erase_ok:
  assumes "cinv c f" "font_ok fnt"
  shows "y < crows c \<Longrightarrow> cstep_ok c (erase_cells c x y n)" "to \<le> crows c \<Longrightarrow> cstep_ok c (erase_lines c from to (ccols c))"
  using erase_cells_redraws [OF cinvD(1) [OF assms(1)] assms(2), of y x n]
    erase_lines_redraws [OF cinvD(1) [OF assms(1)] assms(2), of to "from"] redraws_step [OF _ _ assms(1)]
  by metis+

lemma newline_ok:
  assumes "cinv c f" "font_ok fnt"
  shows "cstep_ok c (newline c)"
proof -
  note d = cinvD [OF assms(1)]
  from newline_redraws [OF assms] obtain c' f' where c': "newline c = Some c'"
    "if cursor_row c + 1 < crows c then c' = c\<lparr>cursor_col := 0, cursor_row := cursor_row c + 1\<rparr> \<and> f' = f
     else redraws fnt (c\<lparr>cursor_col := 0\<rparr>) f (shift_rows (crows c)) c' f'" by blast
  show ?thesis
  proof (cases "cursor_row c + 1 < crows c")
    case True
    with c' assms d show ?thesis by (intro cstep_okI [of _ c' f]) (auto simp: cinv_def)
  next
    case False
    have "cinv (c\<lparr>cursor_col := 0\<rparr>) f" using assms(1) d by simp
    with redraws_step [OF c'(1), of fnt "c\<lparr>cursor_col := 0\<rparr>" f] c'(2) False show ?thesis by (simp add: cstep_ok_def)
  qed
qed

lemma put_glyph_ok:
  assumes "cinv c f" "font_ok fnt"
  shows "cstep_ok c (put_glyph fnt c cp)"
  unfolding put_glyph_def
proof (rule cstep_ok_bind)
  note d = cinvD [OF assms(1)]
  show "cstep_ok c (draw_glyph fnt c (cursor_col c) (cursor_row c) cp)"
    using draw_glyph_redraws [OF d(1) assms(2) d(4) d(2,3)] redraws_step [OF _ _ assms(1)] by metis
next
  fix c' f' assume c': "cinv c' f'"
  note d = cinvD [OF c']
  have m: "(cursor_col c' + 1) mod W32 = cursor_col c' + 1" using d(2,9) by (simp add: W32_def SAT_def)
  have "newline (c'\<lparr>cursor_col := x\<rparr>) = newline c'" for x by (simp add: newline_def)
  with m c' d newline_ok [OF c' assms(2)]
  show "cstep_ok c' (let c = c'\<lparr>cursor_col := (cursor_col c' + 1) mod W32\<rparr> in if cursor_col c \<ge> ccols c then newline c else Some c)"
    by (auto simp: Let_def intro: cstep_okI [of _ _ f'])
qed

lemma attr_ok_sgr: "attr_ok a \<Longrightarrow> attr_ok (sgr a p)"
  by (auto simp: sgr_def attr_ok_def PLAIN_def split: option.splits)

lemma attr_ok_sgrs: "attr_ok a \<Longrightarrow> attr_ok (fold (\<lambda>i a. sgr a (ps ! i)) is a)"
  by (induction "is" arbitrary: a) (simp_all add: attr_ok_sgr)

lemma attr_ok_PLAIN [simp]: "attr_ok PLAIN"
  by (simp add: attr_ok_def PLAIN_def)

lemma handle_csi_ok:
  assumes c: "cinv c f" and fnt: "font_ok fnt"
  shows "cstep_ok c (handle_csi c fin)"
proof -
  note d = cinvD [OF c] and e = erase_ok [OF _ fnt] and m = dec32_dims [OF c]
  have erase1: "cstep_ok c (do { c' \<leftarrow> erase_lines c 0 (cursor_row c) (ccols c); erase_cells c' 0 (cursor_row c) n })" for n
    by (rule cstep_ok_bind [OF e(2) [OF c]]) (use d in \<open>auto intro: e(1)\<close>)
  have erase0: "cstep_ok c (do { c' \<leftarrow> erase_cells c (cursor_col c) (cursor_row c) n; erase_lines c' k (crows c) (ccols c) })" for n k
  proof (rule cstep_ok_bind [OF e(1) [OF c d(3)]])
    fix c' f' assume "cinv c' f'" and "ccols c' = ccols c" "crows c' = crows c"
    then show "cstep_ok c' (erase_lines c' k (crows c) (ccols c))" using e(2) [of c' f' "crows c" k] by simp
  qed
  consider "fin = 0x4A" | "fin = 0x4B" | "fin \<noteq> 0x4A" "fin \<noteq> 0x4B" by blast
  then show ?thesis
  proof cases
    case 1
    then show ?thesis using erase0 erase1 e(2) [OF c, of "crows c" 0] by (simp add: handle_csi_def Let_def)
  next
    case 2
    then show ?thesis using e(1) [OF c d(3)] by (simp add: handle_csi_def Let_def)
  next
    case 3
    have "cinv (c\<lparr>cursor_row := min a (crows c - 1), cursor_col := min b (ccols c - 1)\<rparr>) f" for a b
      using c d(7,8) by (simp add: cinv_def min_less_iff_disj)
    with 3 c d m attr_ok_sgrs [OF d(4)] show ?thesis
      by (auto simp: handle_csi_def Let_def min_less_iff_disj less_imp_diff_less intro!: cstep_okI [of _ _ f])
  qed
qed

lemma putc_csi_ok:
  assumes c: "cinv c f" and fnt: "font_ok fnt"
  shows "cstep_ok c (putc_csi c b)"
proof -
  have "cstep_ok c (do { c \<leftarrow> (if csi_private c then Some c else handle_csi c b); Some (c\<lparr>parse := Normal\<rparr>) })"
  proof (rule cstep_ok_bind)
    show "cstep_ok c (if csi_private c then Some c else handle_csi c b)"
      using handle_csi_ok [OF assms] c by (auto intro: cstep_okI [of _ c f])
  qed (auto intro: cstep_okI)
  moreover have "1 \<le> MAX_PARAMS" by (simp add: MAX_PARAMS_def)
  ultimately show ?thesis using c cinvD(5,6) [OF c]
    by (auto simp: putc_csi_def Let_def intro!: cstep_okI [of _ _ f])
qed

lemma putc_plain_ok:
  assumes c: "cinv c f" and fnt: "font_ok fnt"
  shows "cstep_ok c (putc_plain fnt c b)"
proof -
  note d = cinvD [OF c]
  have "cstep_ok c (draw_glyph fnt (c\<lparr>cursor_col := x\<rparr>) x (cursor_row c) 32)" if "x < ccols c" for x
  proof -
    have "cinv (c\<lparr>cursor_col := x\<rparr>) f" using c that by simp
    from redraws_step [OF _ _ this, of _ _ fnt] draw_glyph_redraws [OF cinvD(1) [OF this] fnt cinvD(4) [OF this], of x "cursor_row c" 32]
    show ?thesis using that d(3) by (fastforce simp: cstep_ok_def)
  qed
  then show ?thesis using c d newline_ok [OF assms] put_glyph_ok [OF assms]
    by (auto simp: putc_plain_def Let_def less_imp_diff_less intro: cstep_okI [of _ _ f])
qed

lemma putc_lead_ok:
  assumes c: "cinv c f" and fnt: "font_ok fnt"
  shows "cstep_ok c (putc_lead fnt c b)"
  using put_glyph_ok [OF assms] c by (auto simp: putc_lead_def intro: cstep_okI [of _ _ f])

lemma putc_ok:
  assumes c: "cinv c f" and fnt: "font_ok fnt"
  shows "cstep_ok c (putc fnt c b)"
proof -
  have put: "cstep_ok c (put_glyph fnt (c\<lparr>cneed := n\<rparr>) p)" "cstep_ok c (put_glyph fnt (c\<lparr>ccp := k, cneed := n\<rparr>) p)" for n p k
    using put_glyph_ok [of "c\<lparr>cneed := n\<rparr>" f fnt p] put_glyph_ok [of "c\<lparr>ccp := k, cneed := n\<rparr>" f fnt p] c fnt
    by (simp_all add: cstep_ok_def)
  have "cstep_ok c (do { c \<leftarrow> (if cneed c > 0 then put_glyph fnt (c\<lparr>cneed := 0\<rparr>) 0x3F else Some c);
      if b \<ge> 0x80 then putc_lead fnt c b else putc_plain fnt c b })"
  proof (rule cstep_ok_bind)
    show "cstep_ok c (if cneed c > 0 then put_glyph fnt (c\<lparr>cneed := 0\<rparr>) 0x3F else Some c)"
      using put(1) c by (auto intro: cstep_okI [of _ _ f])
  qed (use putc_lead_ok [OF _ fnt] putc_plain_ok [OF _ fnt] in auto)
  then have utf8: "cstep_ok c (putc_utf8 fnt c b)" using put c
    by (auto simp: putc_utf8_def Let_def intro: cstep_okI [of _ _ f])
  show ?thesis
  proof (cases "parse c")
    case Esc
    have "cinv (c\<lparr>parse := Csi, cnparams := 0, csi_private := False, cparams := replicate MAX_PARAMS 0\<rparr>) f"
      using c by (simp add: cinv_def)
    with Esc c show ?thesis by (auto simp: putc_def intro: cstep_okI [of _ _ f])
  qed (use utf8 putc_csi_ok [OF assms] in \<open>simp_all add: putc_def\<close>)
qed

lemma putcs_ok: "cinv c f \<Longrightarrow> font_ok fnt \<Longrightarrow> cstep_ok c (putcs fnt c bs)"
proof (induction bs arbitrary: c f)
  case (Cons b bs)
  from putc_ok [OF Cons.prems, of b] obtain c' f' where "putc fnt c b = Some c'" "cinv c' f'"
    "ccols c' = ccols c" "crows c' = crows c" by (auto simp: cstep_ok_def)
  with Cons.IH [of c' f'] Cons.prems(2) show ?case by (simp add: cstep_ok_def)
qed (auto intro: cstep_okI)

section \<open>Initialisation\<close>

text \<open>A screen the console can be put on: room for one cell inside the padding at every scale,
  and at most 65535 pixels either way.\<close>

definition fb_ok :: "framebuffer \<Rightarrow> bool" where
  "fb_ok f \<longleftrightarrow> 40 \<le> width f \<and> width f \<le> SAT \<and> 144 \<le> height f \<and> height f \<le> SAT \<and> width f \<le> pitch f"

lemma text_cells:
  assumes "2 * p + u \<le> (w :: nat)" "w \<le> SAT" "0 < u"
  shows "0 < ((w + W32 - 2 * p) mod W32) div u" "((w + W32 - 2 * p) mod W32) div u \<le> SAT"
    "p + ((w + W32 - 2 * p) mod W32) div u * u \<le> w"
proof -
  have e: "w + W32 - 2 * p = (w - 2 * p) + W32" using assms(1) by linarith
  have l: "w - 2 * p < W32" using assms(2) by (simp add: W32_def SAT_def)
  have m: "(w + W32 - 2 * p) mod W32 = w - 2 * p" unfolding e mod_add_self2 by (rule mod_less [OF l])
  show "0 < ((w + W32 - 2 * p) mod W32) div u" unfolding m using assms(1,3) by (simp add: div_greater_zero_iff)
  have "(w - 2 * p) div u \<le> w - 2 * p" by (rule div_le_dividend)
  with assms(2) show "((w + W32 - 2 * p) mod W32) div u \<le> SAT" unfolding m by linarith
  have "(w - 2 * p) div u * u \<le> w - 2 * p" by (rule div_times_less_eq_dividend)
  with assms(1) show "p + ((w + W32 - 2 * p) mod W32) div u * u \<le> w" unfolding m by linarith
qed

lemma console_clear_ok:
  assumes g: "geom c f" and fnt: "font_ok fnt" and p: "length (cparams c) = MAX_PARAMS" "cnparams c \<le> MAX_PARAMS"
  shows "\<exists>c' f'. console_clear c = Some c' \<and> cinv c' f' \<and> displays fnt c' f' (\<lambda>_ _. BLANK)
    \<and> ccols c' = ccols c \<and> crows c' = crows c \<and> cneed c' = cneed c \<and> cparams c' = cparams c
    \<and> cnparams c' = cnparams c \<and> csi_private c' = csi_private c
    \<and> cursor_col c' = 0 \<and> cursor_row c' = 0 \<and> cur_attr c' = PLAIN \<and> parse c' = Normal"
proof -
  note gd = geomD [OF g]
  from fill_rect_ok [of c f 0 "width f" 0 "height f" BG_COLOR] gd obtain c1 f1 where c1:
    "fill_rect c 0 0 (width f) (height f) BG_COLOR = Some c1"
    "cpaint c f (\<lambda>px py. if py < height f \<and> px < width f then BG_COLOR else pix f px py) c1 f1" by auto
  let ?c = "mark_dirty c1 0 0 (width f) (height f)"
  note pm = cpaint_mark [OF c1(2), of 0 0 "width f" "height f"]
  note d = cpaint_fields [OF pm] and g' = geom_cpaint [OF g pm]
  have "displays fnt ?c f1 (\<lambda>_ _. BLANK)"
  proof (rule displays_cpaint [OF g pm])
    fix x y i j assume b: "x < ccols c" "y < crows c" "i < cell_w c" "j < cell_h c"
    have "pad_x c + x * cell_w c + i < width f" using cell_fits [OF b(1), of "cell_w c"] b(3) gd(5) by linarith
    moreover have "pad_y c + y * cell_h c + j < height f" using cell_fits [OF b(2), of "cell_h c"] b(4) gd(7) by linarith
    ultimately show "(if pad_y c + y * cell_h c + j < height f \<and> pad_x c + x * cell_w c + i < width f then BG_COLOR
        else pix f (pad_x c + x * cell_w c + i) (pad_y c + y * cell_h c + j)) = render fnt (scale c) BLANK i j"
      using render_blank [OF fnt gd(2), of j i] b(4) gd(4) by simp
  qed
  then have "displays fnt (?c\<lparr>cursor_col := 0, cursor_row := 0, cur_attr := PLAIN, parse := Normal\<rparr>) f1 (\<lambda>_ _. BLANK)"
    by (simp add: displays_def)
  moreover have "console_clear c = Some (?c\<lparr>cursor_col := 0, cursor_row := 0, cur_attr := PLAIN, parse := Normal\<rparr>)"
    using gd(1) c1(1) by (simp add: console_clear_def)
  moreover have "cinv (?c\<lparr>cursor_col := 0, cursor_row := 0, cur_attr := PLAIN, parse := Normal\<rparr>) f1"
    using g' d p gd(8,9) by (simp add: cinv_def)
  ultimately show ?thesis using d by auto
qed

lemma console_init_ok:
  assumes f: "fb_ok f" and fnt: "font_ok fnt"
  shows "\<exists>c f'. console_init console_static f = Some c \<and> cinv c f' \<and> displays fnt c f' (\<lambda>_ _. BLANK)
    \<and> cneed c = 0 \<and> cparams c = replicate MAX_PARAMS 0 \<and> cnparams c = 0 \<and> \<not> csi_private c
    \<and> cursor_col c = 0 \<and> cursor_row c = 0 \<and> cur_attr c = PLAIN \<and> parse c = Normal"
proof -
  define s :: nat where "s = (if width f \<ge> 3200 then 3 else if width f \<ge> 1600 then 2 else 1)"
  define c where "c = console_static\<lparr>scale := s, cell_w := GLYPH_W * s, cell_h := GLYPH_H * s, pad_x := PAD * s, pad_y := PAD * s,
    ccols := ((width f + W32 - 2 * (PAD * s)) mod W32) div (GLYPH_W * s),
    crows := ((height f + W32 - 2 * (PAD * s)) mod W32) div (GLYPH_H * s), fb := Some f\<rparr>"
  have i: "console_init console_static f = console_clear c"
    unfolding console_init_def Let_def s_def [symmetric] c_def by simp
  have w: "2 * (PAD * s) + GLYPH_W * s \<le> width f" "2 * (PAD * s) + GLYPH_H * s \<le> height f"
    using f by (simp_all add: fb_ok_def s_def PAD_def GLYPH_W_def GLYPH_H_def)
  have s: "0 < s" "0 < GLYPH_W * s" "0 < GLYPH_H * s" by (simp_all add: s_def GLYPH_W_def GLYPH_H_def)
  have "geom c f" using text_cells [OF w(1) _ s(2)] text_cells [OF w(2) _ s(3)] f s(1)
    by (simp add: geom_def c_def fb_ok_def console_static_def)
  from console_clear_ok [OF this fnt] show ?thesis unfolding i by (auto simp: c_def console_static_def)
qed

lemma console_init_dims:
  assumes "fb_ok f" "font_ok fnt" "console_init console_static f = Some c" "width f < 1600"
  shows "ccols c = (width f - 32) div 8 \<and> crows c = (height f - 32) div 16"
proof -
  define d where "d = console_static\<lparr>scale := 1, cell_w := 8, cell_h := 16, pad_x := 16, pad_y := 16,
    ccols := (width f - 32) div 8, crows := (height f - 32) div 16, fb := Some f\<rparr>"
  have m: "(n + W32 - 32) mod W32 = n - 32" if "40 \<le> n" "n \<le> SAT" for n
  proof -
    have "n + W32 - 32 = (n - 32) + W32" using that(1) by linarith
    moreover have "n - 32 < W32" using that(2) by (simp add: W32_def SAT_def)
    ultimately show ?thesis by (metis mod_add_self2 mod_less)
  qed
  have i: "console_init console_static f = console_clear d"
    using assms(1,4) m [of "width f"] m [of "height f"]
    by (simp add: console_init_def Let_def d_def fb_ok_def PAD_def GLYPH_W_def GLYPH_H_def)
  have "geom d f" using assms(1) text_cells [of 16 8 "width f"] text_cells [of 16 16 "height f"] m [of "width f"] m [of "height f"]
    by (simp add: geom_def d_def fb_ok_def GLYPH_W_def GLYPH_H_def)
  from console_clear_ok [OF this assms(2)] assms(3) show ?thesis
    unfolding i by (auto simp: d_def console_static_def)
qed

section \<open>The console and the pane terminal\<close>

text \<open>A pane's terminal \<open>v\<close> and the console \<open>c\<close> in the same state, with the console showing the
  terminal's grid.\<close>

definition sim :: "font \<Rightarrow> vt \<Rightarrow> console \<Rightarrow> framebuffer \<Rightarrow> bool" where
  "sim fnt v c f \<longleftrightarrow> vt_inv v \<and> cinv c f \<and> cols v = ccols c \<and> rows v = crows c \<and> cx v = cursor_col c
     \<and> cy v = cursor_row c \<and> attr_now v = cur_attr c \<and> state v = parse c \<and> params v = cparams c
     \<and> nparams v = cnparams c \<and> private_csi v = csi_private c \<and> utf8_need v = cneed c
     \<and> (0 < cneed c \<longrightarrow> utf8_cp v = ccp c \<and> (ccp c + 1) * 64 ^ cneed c \<le> 2 ^ 21)
     \<and> (parse c \<noteq> Normal \<longrightarrow> cneed c = 0) \<and> displays fnt c f (grid v)"

definition sim_ok :: "font \<Rightarrow> vt option \<Rightarrow> console option \<Rightarrow> bool" where
  "sim_ok fnt rv rc \<longleftrightarrow> (\<exists>v c f. rv = Some v \<and> rc = Some c \<and> sim fnt v c f)"

lemma sim_okI: "sim fnt v c f \<Longrightarrow> sim_ok fnt (Some v) (Some c)"
  by (auto simp: sim_ok_def)

lemma grid_upd [simp]:
  "grid (v\<lparr>cx := x\<rparr>) = grid v" "grid (v\<lparr>cy := y\<rparr>) = grid v" "grid (v\<lparr>attr_now := a\<rparr>) = grid v"
  "grid (v\<lparr>state := st\<rparr>) = grid v" "grid (v\<lparr>utf8_cp := n\<rparr>) = grid v" "grid (v\<lparr>utf8_need := n\<rparr>) = grid v"
  "grid (v\<lparr>params := ps\<rparr>) = grid v" "grid (v\<lparr>nparams := n\<rparr>) = grid v" "grid (v\<lparr>private_csi := b\<rparr>) = grid v"
  "grid (v\<lparr>cursor_visible := b\<rparr>) = grid v"
  by (auto simp: grid_def fun_eq_iff)

lemma displays_upd [simp]:
  "displays fnt (c\<lparr>cursor_col := x\<rparr>) f g = displays fnt c f g" "displays fnt (c\<lparr>cursor_row := y\<rparr>) f g = displays fnt c f g"
  "displays fnt (c\<lparr>cur_attr := a\<rparr>) f g = displays fnt c f g" "displays fnt (c\<lparr>parse := st\<rparr>) f g = displays fnt c f g"
  "displays fnt (c\<lparr>cparams := ps\<rparr>) f g = displays fnt c f g" "displays fnt (c\<lparr>cnparams := n\<rparr>) f g = displays fnt c f g"
  "displays fnt (c\<lparr>csi_private := b\<rparr>) f g = displays fnt c f g" "displays fnt (c\<lparr>ccp := n\<rparr>) f g = displays fnt c f g"
  "displays fnt (c\<lparr>cneed := n\<rparr>) f g = displays fnt c f g"
  by (simp_all add: displays_def)

lemma sim_redraw:
  assumes "sim fnt v c f" "redraws fnt c f T c' f'" "regrid v (T (grid v)) v'"
  shows "sim fnt v' c' f'"
proof -
  note r = regrid_fields [OF assms(3)] and d = redraws_fields [OF assms(2)]
  have "displays fnt c' f' (T (grid v))" using assms(1,2) by (simp add: sim_def redraws_def)
  then have "displays fnt c' f' (grid v')" by (rule displays_cong) (use assms(1) r d in \<open>simp add: sim_def\<close>)
  moreover have "vt_inv v'" "cinv c' f'" using assms regrid_inv redraws_cinv by (auto simp: sim_def)
  ultimately show ?thesis using assms(1) by (simp add: sim_def r d)
qed

lemma sim_draw:
  assumes s: "sim fnt v c f" and fnt: "font_ok fnt" and y: "x < cols v" "y < rows v"
  shows "sim_ok fnt (vt_set v x y \<lparr>ch = cp, cattr = attr_now v\<rparr>) (draw_glyph fnt c x y cp)"
proof -
  have v: "vt_inv v" and c: "cinv c f" and e: "cols v = ccols c" "rows v = crows c" "attr_now v = cur_attr c"
    using s by (auto simp: sim_def)
  from vt_set_ok [OF _ y, of "\<lparr>ch = cp, cattr = attr_now v\<rparr>", folded set_cell_def] vt_invD [OF v] obtain v' where
    v': "vt_set v x y \<lparr>ch = cp, cattr = attr_now v\<rparr> = Some v'"
      "regrid v (set_cell x y \<lparr>ch = cp, cattr = cur_attr c\<rparr> (grid v)) v'" unfolding e(3) by blast
  from draw_glyph_redraws [OF cinvD(1) [OF c] fnt cinvD(4) [OF c], of x y cp] y e obtain c' f' where
    c': "draw_glyph fnt c x y cp = Some c'" "redraws fnt c f (set_cell x y \<lparr>ch = cp, cattr = cur_attr c\<rparr>) c' f'" by auto
  with sim_redraw [OF s c'(2) v'(2)] v'(1) show ?thesis by (auto simp: sim_ok_def)
qed

text \<open>A step that leaves the cursor and the size alone.\<close>

definition sim_same :: "font \<Rightarrow> console \<Rightarrow> vt option \<Rightarrow> console option \<Rightarrow> bool" where
  "sim_same fnt c rv rc \<longleftrightarrow> (\<exists>v' c' f'. rv = Some v' \<and> rc = Some c' \<and> sim fnt v' c' f' \<and> ccols c' = ccols c
     \<and> crows c' = crows c \<and> cursor_col c' = cursor_col c \<and> cursor_row c' = cursor_row c)"

lemma sim_same_ok: "sim_same fnt c rv rc \<Longrightarrow> sim_ok fnt rv rc"
  by (auto simp: sim_same_def sim_ok_def)

lemma sim_same_bind:
  assumes "sim_same fnt c rv rc"
    "\<And>v' c' f'. sim fnt v' c' f' \<Longrightarrow> ccols c' = ccols c \<Longrightarrow> crows c' = crows c \<Longrightarrow> cursor_col c' = cursor_col c
      \<Longrightarrow> cursor_row c' = cursor_row c \<Longrightarrow> sim_ok fnt (g v') (h c')"
  shows "sim_ok fnt (rv \<bind> g) (rc \<bind> h)"
  using assms unfolding sim_same_def by fastforce

lemma sim_erase:
  assumes s: "sim fnt v c f" and fnt: "font_ok fnt"
  shows "y < crows c \<Longrightarrow> sim_same fnt c (vt_erase v x y n) (erase_cells c x y n)"
    "to \<le> crows c \<Longrightarrow> sim_same fnt c (erase_rows v from to) (erase_lines c from to (ccols c))"
proof -
  have v: "dims_ok v" and c: "geom c f" and e: "cols v = ccols c" "rows v = crows c"
    using s vt_invD by (auto simp: sim_def cinv_def)
  show "sim_same fnt c (vt_erase v x y n) (erase_cells c x y n)" if y: "y < crows c"
  proof -
    obtain v' where v': "vt_erase v x y n = Some v'" "regrid v (blank_cells x y n (grid v)) v'"
      using vt_erase_ok [OF v, of y x n, folded blank_cells_def] y e by auto
    obtain c' f' where c': "erase_cells c x y n = Some c'" "redraws fnt c f (blank_cells x y n) c' f'"
      using erase_cells_redraws [OF c fnt y] by blast
    from sim_redraw [OF s c'(2) v'(2)] redraws_fields [OF c'(2)] v'(1) c'(1) show ?thesis by (auto simp: sim_same_def)
  qed
  show "sim_same fnt c (erase_rows v from to) (erase_lines c from to (ccols c))" if t: "to \<le> crows c"
  proof -
    obtain v' where v': "erase_rows v from to = Some v'" "regrid v (blank_rows from to (grid v)) v'"
      using erase_rows_ok [OF v, of to "from", folded blank_rows_def] t e by auto
    obtain c' f' where c': "erase_lines c from to (ccols c) = Some c'" "redraws fnt c f (blank_rows from to) c' f'"
      using erase_lines_redraws [OF c fnt t] by blast
    from sim_redraw [OF s c'(2) v'(2)] redraws_fields [OF c'(2)] v'(1) c'(1) show ?thesis by (auto simp: sim_same_def)
  qed
qed

lemma sim_cursor:
  assumes "sim fnt v c f" "x < ccols c" "y < crows c"
  shows "sim fnt (v\<lparr>cx := x, cy := y\<rparr>) (c\<lparr>cursor_col := x, cursor_row := y\<rparr>) f"
    "sim fnt (v\<lparr>cx := x\<rparr>) (c\<lparr>cursor_col := x\<rparr>) f" "sim fnt (v\<lparr>cy := y\<rparr>) (c\<lparr>cursor_row := y\<rparr>) f"
    "sim fnt (v\<lparr>cy := y, cx := x\<rparr>) (c\<lparr>cursor_row := y, cursor_col := x\<rparr>) f"
  using assms by (simp_all add: sim_def)

lemma sim_newline:
  assumes s: "sim fnt v c f" and fnt: "font_ok fnt"
  shows "sim_ok fnt (next_row (v\<lparr>cx := 0\<rparr>)) (newline c)"
proof -
  have v: "vt_inv v" and c: "cinv c f" and e: "rows v = crows c" "cy v = cursor_row c" using s by (auto simp: sim_def)
  let ?v = "v\<lparr>cx := 0\<rparr>" and ?c = "c\<lparr>cursor_col := 0\<rparr>"
  have s': "sim fnt ?v ?c f" using sim_cursor(2) [OF s] cinvD(7,8) [OF c] by auto
  have "dims_ok ?v" "cy ?v < rows ?v" using vt_invD [OF v] by (auto simp: dims_ok_def)
  from next_row_ok [OF this, folded shift_rows_def] obtain v' where v': "next_row ?v = Some v'"
    "if cy v + 1 < rows v then v' = ?v\<lparr>cy := cy v + 1\<rparr> else regrid ?v (shift_rows (rows v) (grid ?v)) v'"
    by (auto simp del: grid_upd cong: if_cong)
  from newline_redraws [OF c fnt] obtain c' f' where c': "newline c = Some c'"
    "if cursor_row c + 1 < crows c then c' = ?c\<lparr>cursor_row := cursor_row c + 1\<rparr> \<and> f' = f
     else redraws fnt ?c f (shift_rows (crows c)) c' f'" by auto
  have "sim fnt v' c' f'"
  proof (cases "cursor_row c + 1 < crows c")
    case True
    with v'(2) c'(2) e sim_cursor(3) [OF s', of 0 "cursor_row c + 1"] cinvD(7) [OF c] show ?thesis by simp
  next
    case False
    then show ?thesis using v'(2) c'(2) e sim_redraw [OF s', of "shift_rows (crows c)"] by simp
  qed
  with v' c' show ?thesis by (auto simp: sim_ok_def)
qed

lemma sim_okD: "sim_ok fnt rv rc \<Longrightarrow> \<exists>v c f. rv = Some v \<and> rc = Some c \<and> sim fnt v c f"
  by (simp add: sim_ok_def)

lemma sim_ok_bind:
  assumes "sim_ok fnt rv rc" "\<And>v c f. rv = Some v \<Longrightarrow> rc = Some c \<Longrightarrow> sim fnt v c f \<Longrightarrow> sim_ok fnt (g v) (h c)"
  shows "sim_ok fnt (rv \<bind> g) (rc \<bind> h)"
  using assms unfolding sim_ok_def by fastforce

lemma draw_glyph_same: "glyph_for fnt cp = glyph_for fnt cp' \<Longrightarrow> draw_glyph fnt c x y cp = draw_glyph fnt c x y cp'"
  by (simp add: draw_glyph_def)

lemma sim_put:
  assumes s: "sim fnt v c f" and fnt: "font_ok fnt"
  shows "sim_ok fnt (vt_put v cp) (put_glyph fnt c cp)"
  unfolding vt_put_def put_glyph_def
proof (rule sim_ok_bind)
  have v: "vt_inv v" and e: "cx v = cursor_col c" "cy v = cursor_row c" using s by (auto simp: sim_def)
  with sim_draw [OF s fnt, of "cx v" "cy v" cp] vt_invD [OF v]
  show "sim_ok fnt (vt_set v (cx v) (cy v) \<lparr>ch = cp, cattr = attr_now v\<rparr>) (draw_glyph fnt c (cursor_col c) (cursor_row c) cp)"
    by simp
next
  fix v c f assume s: "sim fnt v c f"
  have c: "cinv c f" and e: "cx v = cursor_col c" "cols v = ccols c" using s by (auto simp: sim_def)
  note d = cinvD [OF c]
  have m: "(cursor_col c + 1) mod W32 = cursor_col c + 1" using d(2,9) by (simp add: W32_def SAT_def)
  have "newline (c\<lparr>cursor_col := x\<rparr>) = newline c" for x by (simp add: newline_def)
  with m e sim_newline [OF s fnt] sim_cursor(2) [OF s, of "cursor_col c + 1" 0] d(8)
  show "sim_ok fnt (let v = v\<lparr>cx := cx v + 1\<rparr> in if cx v \<ge> cols v then next_row (v\<lparr>cx := 0\<rparr>) else Some v)
      (let c = c\<lparr>cursor_col := (cursor_col c + 1) mod W32\<rparr> in if cursor_col c \<ge> ccols c then newline c else Some c)"
    by (auto simp: Let_def intro: sim_okI)
qed

text \<open>Drawing a character leaves the parser alone.\<close>

lemma put_need:
  assumes s: "sim fnt v c f" and fnt: "font_ok fnt" and r: "put_glyph fnt c cp = Some c'"
  shows "cneed c' = cneed c \<and> parse c' = parse c"
proof -
  have c: "cinv c f" using s by (simp add: sim_def)
  note d = cinvD [OF c]
  from draw_glyph_redraws [OF d(1) fnt d(4,2,3)] obtain c1 f1 T where c1: "draw_glyph fnt c (cursor_col c) (cursor_row c) cp = Some c1"
    "redraws fnt c f T c1 f1" by blast
  have i: "cinv c1 f1" using redraws_cinv [OF c1(2) c] .
  note e = redraws_fields [OF c1(2)]
  have "cneed c2 = cneed c1 \<and> parse c2 = parse c1" if "newline c1 = Some c2" for c2
  proof -
    from newline_redraws [OF i fnt] that obtain f2 where
      "if cursor_row c1 + 1 < crows c1 then c2 = c1\<lparr>cursor_col := 0, cursor_row := cursor_row c1 + 1\<rparr> \<and> f2 = f1
       else redraws fnt (c1\<lparr>cursor_col := 0\<rparr>) f1 (shift_rows (crows c1)) c2 f2" by auto
    then show ?thesis using redraws_fields [of fnt "c1\<lparr>cursor_col := 0\<rparr>" f1 _ c2 f2] by (auto split: if_splits)
  qed
  moreover have "newline (c1\<lparr>cursor_col := x\<rparr>) = newline c1" for x by (simp add: newline_def)
  ultimately show ?thesis using r c1(1) e by (auto simp: put_glyph_def Let_def split: if_splits)
qed

lemma sim_csi:
  assumes s: "sim fnt v c f" and fnt: "font_ok fnt"
  shows "sim_ok fnt (csi v fin) (handle_csi c fin)"
proof -
  have v: "vt_inv v" and c: "cinv c f" and e: "cols v = ccols c" "rows v = crows c" "cx v = cursor_col c"
    "cy v = cursor_row c" "attr_now v = cur_attr c" "params v = cparams c" "nparams v = cnparams c"
    using s by (auto simp: sim_def)
  note d = cinvD [OF c] and m = dec32_dims [OF c] and er = sim_erase [OF _ fnt]
  have po: "cparam_or c n 1 = param_or v n 1" for n by (simp add: cparam_or_def param_or_def e)
  have pb: "0 < param_or v n 1" "param_or v n 1 \<le> SAT" for n
  proof -
    have "params v ! n \<le> SAT" if "n < nparams v" using v that by (simp add: vt_inv_def)
    then show "param_or v n 1 \<le> SAT" by (auto simp: param_or_def SAT_def)
  qed (auto simp: param_or_def)
  have dp: "dec32 (param_or v n 1) = param_or v n 1 - 1" for n
    using pb [of n] by (simp add: dec32_pos W32_def SAT_def)
  have sat: "min ((a + param_or v n 1) mod W32) (k - 1) = min (min (a + param_or v n 1) SAT) (k - 1)" if "a < k" "k \<le> SAT" for a k n
  proof -
    have "a + param_or v n 1 < W32" using that pb(2) [of n] by (simp add: W32_def SAT_def)
    with that show ?thesis by simp
  qed
  have erase1: "sim_ok fnt (do { v' \<leftarrow> erase_rows v 0 (cursor_row c); vt_erase v' 0 (cy v') (Suc (cx v')) })
      (do { c' \<leftarrow> erase_lines c 0 (cursor_row c) (ccols c); erase_cells c' 0 (cursor_row c) (Suc (cursor_col c)) })"
  proof (rule sim_same_bind [OF er(2) [OF s]])
    fix v' c' f' assume s': "sim fnt v' c' f'" "cursor_col c' = cursor_col c" "cursor_row c' = cursor_row c" "crows c' = crows c"
    then have "cy v' = cursor_row c" "cx v' = cursor_col c" by (auto simp: sim_def)
    then show "sim_ok fnt (vt_erase v' 0 (cy v') (Suc (cx v'))) (erase_cells c' 0 (cursor_row c) (Suc (cursor_col c)))"
      using sim_same_ok [OF er(1) [OF s'(1), of "cursor_row c" 0 "Suc (cursor_col c)"]] d(3) s'(4) by simp
  qed (use d in simp)
  have erase0: "sim_ok fnt (do { v' \<leftarrow> vt_erase v (cursor_col c) (cursor_row c) (ccols c - cursor_col c);
        erase_rows v' (Suc (cy v')) (crows c) })
      (do { c' \<leftarrow> erase_cells c (cursor_col c) (cursor_row c) (ccols c - cursor_col c);
        erase_lines c' (Suc (cursor_row c)) (crows c) (ccols c) })"
  proof (rule sim_same_bind [OF er(1) [OF s d(3)]])
    fix v' c' f' assume s': "sim fnt v' c' f'" "ccols c' = ccols c" "crows c' = crows c" "cursor_row c' = cursor_row c"
    then have "cy v' = cursor_row c" by (auto simp: sim_def)
    then show "sim_ok fnt (erase_rows v' (Suc (cy v')) (crows c)) (erase_lines c' (Suc (cursor_row c)) (crows c) (ccols c))"
      using sim_same_ok [OF er(2) [OF s'(1), of "crows c" "Suc (cursor_row c)"]] s'(2,3) by simp
  qed
  consider "fin = 0x4A" | "fin = 0x4B" | "fin \<noteq> 0x4A" "fin \<noteq> 0x4B" by blast
  then show ?thesis
  proof cases
    case 1
    then show ?thesis using erase0 erase1 sim_same_ok [OF er(2) [OF s, of "crows c" 0]]
      by (simp add: handle_csi_def csi_def Let_def e)
  next
    case 2
    then show ?thesis using sim_same_ok [OF er(1) [OF s d(3)]] by (simp add: handle_csi_def csi_def Let_def e)
  next
    case 3
    have at: "sim fnt (v\<lparr>attr_now := a\<rparr>) (c\<lparr>cur_attr := a\<rparr>) f" if "attr_ok a" for a
      using s that by (simp add: sim_def)
    let ?p = "param_or v 0 1" and ?q = "param_or v 1 1" and ?x = "cursor_col c" and ?y = "cursor_row c"
    have home: "sim_ok fnt (Some (v\<lparr>cy := min (?p - 1) (crows c - 1), cx := min (?q - 1) (ccols c - 1)\<rparr>))
        (Some (c\<lparr>cursor_row := min (?p - 1) (crows c - 1), cursor_col := min (?q - 1) (ccols c - 1)\<rparr>))"
      by (rule sim_okI [OF sim_cursor(4) [OF s]]) (use d(7,8) in \<open>simp_all add: min_less_iff_disj\<close>)
    have up: "sim_ok fnt (Some (v\<lparr>cy := ?y - ?p\<rparr>)) (Some (c\<lparr>cursor_row := ?y - ?p\<rparr>))"
      by (rule sim_okI [OF sim_cursor(3) [OF s d(7)]]) (use d(3) in simp)
    have left: "sim_ok fnt (Some (v\<lparr>cx := ?x - ?p\<rparr>)) (Some (c\<lparr>cursor_col := ?x - ?p\<rparr>))"
      by (rule sim_okI [OF sim_cursor(2) [OF s _ d(8)]]) (use d(2) in simp)
    have down: "sim_ok fnt (Some (v\<lparr>cy := min (min (?y + ?p) SAT) (crows c - 1)\<rparr>))
        (Some (c\<lparr>cursor_row := min ((?y + ?p) mod W32) (crows c - 1)\<rparr>))"
      unfolding sat [OF d(3,10)] by (rule sim_okI [OF sim_cursor(3) [OF s d(7)]]) (use d(8) in \<open>simp add: min_less_iff_disj\<close>)
    have right: "sim_ok fnt (Some (v\<lparr>cx := min (min (?x + ?p) SAT) (ccols c - 1)\<rparr>))
        (Some (c\<lparr>cursor_col := min ((?x + ?p) mod W32) (ccols c - 1)\<rparr>))"
      unfolding sat [OF d(2,9)] by (rule sim_okI [OF sim_cursor(2) [OF s _ d(8)]]) (use d(7) in \<open>simp add: min_less_iff_disj\<close>)
    show ?thesis
      unfolding csi_def handle_csi_def Let_def po dp m e
      using 3 home up left down right sim_okI [OF s] sim_okI [OF at [OF attr_ok_sgrs [OF d(4)]]] sim_okI [OF at [OF attr_ok_PLAIN]]
      by simp
  qed
qed

text \<open>
  The bytes on which the two agree. Inside an escape sequence the terminal still assembles UTF-8,
  which the console does not, and it saturates parameters the console lets wrap, so there the bytes
  are ASCII and the parameters below 65536. Outside one, the console draws the control bytes and
  the terminal ignores them, so only the control bytes both interpret are used.
\<close>

definition common :: "vt \<Rightarrow> u8 \<Rightarrow> bool" where
  "common v b \<longleftrightarrow> (case state v of
     Normal \<Rightarrow> b \<ge> 0x80 \<or> (0x20 \<le> b \<and> b \<le> 0x7E) \<or> b \<in> {0x1B, 0x0A, 0x0D, 0x08}
   | Esc \<Rightarrow> b < 0x80
   | Csi \<Rightarrow> b < 0x80 \<and> (0x30 \<le> b \<and> b \<le> 0x39 \<longrightarrow>
       params v ! (nparams v - 1) * 10 + unat (b - 0x30) \<le> SAT))"

fun common_stream :: "vt \<Rightarrow> bytes \<Rightarrow> bool" where
  "common_stream v [] = True"
| "common_stream v (b # bs) = (common v b \<and> (case vt_byte v b of None \<Rightarrow> False | Some v' \<Rightarrow> common_stream v' bs))"

lemma vt_inv_params [simp]:
  "vt_inv v \<Longrightarrow> k \<le> MAX_PARAMS \<Longrightarrow> vt_inv (v\<lparr>nparams := k\<rparr>)"
  "vt_inv v \<Longrightarrow> length ps = MAX_PARAMS \<Longrightarrow> \<forall>p \<in> set ps. p \<le> SAT \<Longrightarrow> vt_inv (v\<lparr>params := ps\<rparr>)"
  by (simp_all add: vt_inv_def dims_ok_def)

lemma sim_csi_byte:
  assumes s: "sim fnt v c f" and fnt: "font_ok fnt" and st: "state v = Csi" and b: "common v b"
  shows "sim_ok fnt (csi_byte v b) (putc_csi c b)"
proof -
  have v: "vt_inv v" and c: "cinv c f" and e: "params v = cparams c" "nparams v = cnparams c" "private_csi v = csi_private c"
    and n: "cneed c = 0" using s st by (auto simp: sim_def)
  have fin: "sim_ok fnt (do { v \<leftarrow> (if private_csi v then Some (do_private_csi v b) else csi v b); Some (v\<lparr>state := Normal\<rparr>) })
      (do { c \<leftarrow> (if csi_private c then Some c else handle_csi c b); Some (c\<lparr>parse := Normal\<rparr>) })"
  proof (rule sim_ok_bind)
    have "sim fnt (do_private_csi v b) c f" using s by (simp add: do_private_csi_def sim_def)
    then show "sim_ok fnt (if private_csi v then Some (do_private_csi v b) else csi v b)
        (if csi_private c then Some c else handle_csi c b)"
      using sim_csi [OF s fnt] e(3) by (simp add: sim_okI)
  qed (auto simp: sim_def intro!: sim_okI)
  have np: "sim fnt (v\<lparr>nparams := k\<rparr>) (c\<lparr>cnparams := k\<rparr>) f" if "k \<le> MAX_PARAMS" for k
    using s that by (simp add: sim_def)
  have digit: "sim fnt (w\<lparr>params := (cparams g)[j := x]\<rparr>) (g\<lparr>cparams := (cparams g)[j := x]\<rparr>) f"
    if "sim fnt w g f" "x \<le> SAT" for w g j x
  proof -
    have w: "vt_inv w" "params w = cparams g" "cinv g f" using that(1) by (auto simp: sim_def)
    then have "\<forall>p \<in> set ((cparams g)[j := x]). p \<le> SAT"
      using that(2) by (auto simp: vt_inv_def dest!: set_update_subset_insert [THEN subsetD])
    with that(1) cinvD(5) [OF w(3)] show ?thesis by (simp add: sim_def)
  qed
  consider "b = 0x3F \<and> nparams v = 0" | "\<not> (b = 0x3F \<and> nparams v = 0)" "0x30 \<le> b \<and> b \<le> 0x39" | "b = 0x3B"
    | "\<not> (b = 0x3F \<and> nparams v = 0)" "\<not> (0x30 \<le> b \<and> b \<le> 0x39)" "b \<noteq> 0x3B" by blast
  then show ?thesis
  proof cases
    case 1
    have "sim fnt (v\<lparr>private_csi := True\<rparr>) (c\<lparr>csi_private := True\<rparr>) f" using s by (simp add: sim_def)
    with 1 e show ?thesis by (simp add: csi_byte_def putc_csi_def sim_okI)
  next
    case 2
    let ?x = "cparams c ! (cnparams c - 1) * 10 + unat (b - 0x30)"
    have x: "?x \<le> SAT" using b 2(2) st e by (simp add: common_def)
    then have "min (min (cparams c ! (cnparams c - 1) * 10) SAT + unat (b - 0x30)) SAT = ?x"
      "(cparams c ! (cnparams c - 1) * 10 mod W32 + unat (b - 0x30)) mod W32 = ?x"
      by (simp_all add: W32_def SAT_def)
    moreover have "sim fnt (v\<lparr>nparams := 1\<rparr>) (c\<lparr>cnparams := 1\<rparr>) f" by (rule np) (simp add: MAX_PARAMS_def)
    ultimately show ?thesis using 2 e digit [OF _ x, of "v\<lparr>nparams := 1\<rparr>" "c\<lparr>cnparams := 1\<rparr>" 0]
        digit [OF s x, of "cnparams c - 1"] sim_okI [of fnt]
      by (cases "cnparams c = 0") (simp_all add: csi_byte_def putc_csi_def Let_def)
  next
    case 3
    have "sim_ok fnt (Some (v\<lparr>nparams := Suc (Suc 0)\<rparr>)) (Some (c\<lparr>cnparams := Suc (Suc 0)\<rparr>))"
      by (rule sim_okI [OF np]) (simp add: MAX_PARAMS_def)
    moreover have "sim_ok fnt (Some (v\<lparr>nparams := Suc (cnparams c)\<rparr>)) (Some (c\<lparr>cnparams := Suc (cnparams c)\<rparr>))"
      if "cnparams c < MAX_PARAMS" by (rule sim_okI [OF np]) (use that in simp)
    ultimately show ?thesis using 3 e sim_okI [OF s]
      by (simp add: csi_byte_def putc_csi_def Let_def MAX_PARAMS_def)
  next
    case 4
    then have "csi_byte v b = do { v \<leftarrow> (if private_csi v then Some (do_private_csi v b) else csi v b); Some (v\<lparr>state := Normal\<rparr>) }"
      "putc_csi c b = do { c \<leftarrow> (if csi_private c then Some c else handle_csi c b); Some (c\<lparr>parse := Normal\<rparr>) }"
      unfolding csi_byte_def putc_csi_def e by argo+
    with fin show ?thesis by simp
  qed
qed

lemma sim_plain_normal:
  assumes s: "sim fnt v c f" and fnt: "font_ok fnt" and st: "state v = Normal" and n: "cneed c = 0"
    and b: "common v b" "b < 0x80"
  shows "sim_ok fnt (plain_byte v b) (putc_plain fnt c b)"
proof -
  have e: "cx v = cursor_col c" "cy v = cursor_row c" "cols v = ccols c" "rows v = crows c" and c: "cinv c f"
    using s by (auto simp: sim_def)
  note d = cinvD [OF c]
  have nb: "\<not> 0x80 \<le> b" using b(2) by simp
  have esc: "sim_ok fnt (Some (v\<lparr>state := Esc\<rparr>)) (Some (c\<lparr>parse := Esc\<rparr>))"
    using s n by (intro sim_okI [of _ _ _ f]) (simp add: sim_def)
  have cr: "sim fnt (v\<lparr>cx := x\<rparr>) (c\<lparr>cursor_col := x\<rparr>) f" if "x < ccols c" for x
    using sim_cursor(2) [OF s that d(8)] .
  have bs: "sim_ok fnt (vt_set (v\<lparr>cx := x\<rparr>) x (cursor_row c) \<lparr>ch = 32, cattr = attr_now v\<rparr>)
      (draw_glyph fnt (c\<lparr>cursor_col := x\<rparr>) x (cursor_row c) 32)" if "x < ccols c" for x
    using sim_draw [OF cr [OF that] fnt, of x "cursor_row c" 32] that d(3) e by simp
  consider "b = 0x1B" | "b = 0x0A" | "b = 0x0D" | "b = 0x08" | "0x20 \<le> b" "b \<le> 0x7E" "b \<notin> {0x1B, 0x0A, 0x0D, 0x08}"
    using b(1) nb st by (auto simp: common_def)
  then show ?thesis
  proof cases
    case 4
    show ?thesis
    proof (cases "cursor_col c > 0")
      case True
      then show ?thesis using 4 bs [of "cursor_col c - 1"] d(2) st e by (simp add: plain_byte_def putc_plain_def Let_def)
    qed (use 4 st e sim_okI [OF s] in \<open>simp add: plain_byte_def putc_plain_def\<close>)
  next
    case 3
    then show ?thesis using st sim_okI [OF cr [OF d(7)]] by (simp add: plain_byte_def putc_plain_def)
  qed (use st esc sim_newline [OF s fnt] sim_put [OF s fnt] in \<open>simp_all add: plain_byte_def putc_plain_def\<close>)
qed

lemma lead_classes:
  "\<forall>k \<in> set [128..<256]. let b = (word_of_nat k :: u8) in
     (b AND 0xE0 = 0xC0 \<longleftrightarrow> 0xC0 \<le> b \<and> b \<le> 0xDF) \<and> (b AND 0xF0 = 0xE0 \<longleftrightarrow> 0xE0 \<le> b \<and> b \<le> 0xEF)
     \<and> (b AND 0xF8 = 0xF0 \<longleftrightarrow> 0xF0 \<le> b \<and> b \<le> 0xF7)
     \<and> unat (b AND 0x1F) < 32 \<and> unat (b AND 0x0F) < 16 \<and> unat (b AND 0x07) < 8 \<and> unat (b AND 0x3F) < 64"
  by code_simp

lemma cont_highs: "\<forall>k \<in> set [0..<128]. (word_of_nat k :: u8) AND 0xC0 \<noteq> 0x80"
  by code_simp

lemma cont_high: "(b :: u8) AND 0xC0 = 0x80 \<Longrightarrow> 0x80 \<le> b"
  using cont_highs [rule_format, of "unat b"] by (auto simp: word_le_nat_alt not_le [symmetric])

lemma lead_class:
  assumes "0x80 \<le> (b :: u8)"
  shows "b AND 0xE0 = 0xC0 \<longleftrightarrow> 0xC0 \<le> b \<and> b \<le> 0xDF" "b AND 0xF0 = 0xE0 \<longleftrightarrow> 0xE0 \<le> b \<and> b \<le> 0xEF"
    "b AND 0xF8 = 0xF0 \<longleftrightarrow> 0xF0 \<le> b \<and> b \<le> 0xF7"
    "unat (b AND 0x1F) < 32" "unat (b AND 0x0F) < 16" "unat (b AND 0x07) < 8" "unat (b AND 0x3F) < 64"
proof -
  have "128 \<le> unat b" "unat b < 256" using assms unsigned_less [of b, where ?'a = nat] by (simp_all add: word_le_nat_alt)
  then have "unat b \<in> set [128..<256]" by (simp only: set_upt atLeastLessThan_iff simp_thms)
  from lead_classes [rule_format, OF this]
  show "b AND 0xE0 = 0xC0 \<longleftrightarrow> 0xC0 \<le> b \<and> b \<le> 0xDF" "b AND 0xF0 = 0xE0 \<longleftrightarrow> 0xE0 \<le> b \<and> b \<le> 0xEF"
    "b AND 0xF8 = 0xF0 \<longleftrightarrow> 0xF0 \<le> b \<and> b \<le> 0xF7"
    "unat (b AND 0x1F) < 32" "unat (b AND 0x0F) < 16" "unat (b AND 0x07) < 8" "unat (b AND 0x3F) < 64"
    by (simp_all add: Let_def)
qed

lemma sim_lead:
  assumes s: "sim fnt v c f" and fnt: "font_ok fnt" and st: "state v = Normal" and n: "cneed c = 0" and b: "0x80 \<le> b"
  shows "sim_ok fnt (lead_byte v b) (putc_lead fnt c b)"
proof -
  note l = lead_class [OF b]
  have p: "parse c = Normal" using s st by (simp add: sim_def)
  have start: "sim_ok fnt (Some (v\<lparr>utf8_cp := x, utf8_need := k\<rparr>)) (Some (c\<lparr>ccp := x, cneed := k\<rparr>))"
    if "(x + 1) * 64 ^ k \<le> 2 ^ 21" "k \<le> 3" for x k
    using s that p by (intro sim_okI [of _ _ _ f]) (simp add: sim_def)
  have bad: "sim_ok fnt (do { v \<leftarrow> vt_put v 0x3F; Some (v\<lparr>utf8_cp := 0, utf8_need := 0\<rparr>) }) (put_glyph fnt c 0x3F)"
  proof -
    from sim_put [OF s fnt] obtain v' c' f' where r: "vt_put v 0x3F = Some v'" "put_glyph fnt c 0x3F = Some c'" "sim fnt v' c' f'"
      unfolding sim_ok_def by blast
    have "cneed c' = 0" using put_need [OF s fnt r(2)] n by simp
    then have "sim fnt (v'\<lparr>utf8_cp := 0, utf8_need := 0\<rparr>) c' f'" using r(3) by (simp add: sim_def)
    with r show ?thesis by (simp add: sim_okI)
  qed
  show ?thesis
    using start [of "unat (b AND 0x1F)" 1] start [of "unat (b AND 0x0F)" 2] start [of "unat (b AND 0x07)" 3] bad l
    by (simp add: lead_byte_def putc_lead_def)
qed

lemma glyph_for_invalid: "font_ok fnt \<Longrightarrow> \<not> is_scalar cp \<Longrightarrow> glyph_for fnt cp = glyph_for fnt 0x3F"
proof -
  assume a: "font_ok fnt" "\<not> is_scalar cp"
  have "p \<in> set (ext_glyphs fnt) \<Longrightarrow> is_scalar (fst p)" for p using a(1) by (auto simp: font_ok_def)
  then have "find (\<lambda>(c, _). c = cp) (ext_glyphs fnt) = None" using a(2) by (auto simp: find_None_iff)
  moreover have "\<not> cp < 128" using a(2) by (simp add: is_scalar_def)
  ultimately show ?thesis by (simp add: glyph_for_def)
qed

lemma sim_utf8:
  assumes s: "sim fnt v c f" and fnt: "font_ok fnt" and st: "state v = Normal" and b: "common v b"
  shows "sim_ok fnt (vt_byte v b) (putc_utf8 fnt c b)"
proof -
  have e: "utf8_need v = cneed c" "parse c = Normal" and v: "vt_inv v" using s st by (auto simp: sim_def)
  have rest: "sim_ok fnt (if b \<ge> 0x80 then lead_byte w b else plain_byte w b) (if b \<ge> 0x80 then putc_lead fnt d b else putc_plain fnt d b)"
    if "sim fnt w d g" "state w = Normal" "cneed d = 0" for w d g
    using sim_lead [OF that(1) fnt that(2,3), of b] sim_plain_normal [OF that(1) fnt that(2,3), of b] b st that(2)
    by (auto simp: common_def)
  show ?thesis
  proof (cases "cneed c > 0 \<and> b AND 0xC0 = 0x80")
    case True
    have b80: "0x80 \<le> b" using True cont_high by blast
    let ?x = "ccp c * 64 + unat (b AND 0x3F)"
    have cp: "utf8_cp v = ccp c" "(ccp c + 1) * 64 ^ cneed c \<le> 2 ^ 21" "cneed c \<le> 3"
      using s True v by (auto simp: sim_def vt_inv_def)
    obtain m where m: "cneed c = Suc m" using True by (cases "cneed c") auto
    have x: "(?x + 1) * 64 ^ m \<le> 2 ^ 21"
    proof -
      have "(?x + 1) * 64 ^ m \<le> ((ccp c + 1) * 64) * 64 ^ m"
        using lead_class(7) [OF b80] by (intro mult_le_mono1) simp
      also have "\<dots> \<le> 2 ^ 21" using cp(2) unfolding m power_Suc mult.assoc .
      finally show ?thesis .
    qed
    have "?x + 1 \<le> (?x + 1) * 64 ^ m" using mult_le_mono2 [of 1 "64 ^ m" "?x + 1"] by simp
    then have "?x + 1 \<le> 2 ^ 21" using x by (rule order_trans)
    then have w: "?x mod W32 = ?x" by (simp add: W32_def)
    have s': "sim fnt (v\<lparr>utf8_cp := ?x, utf8_need := m\<rparr>) (c\<lparr>ccp := ?x, cneed := m\<rparr>) f"
      using s x cp(3) m e(2) by (simp add: sim_def)
    have "put_glyph fnt (c\<lparr>ccp := ?x, cneed := m\<rparr>) (if is_scalar ?x then ?x else 0x3F) = put_glyph fnt (c\<lparr>ccp := ?x, cneed := m\<rparr>) ?x"
      using draw_glyph_same [OF glyph_for_invalid [OF fnt, of ?x]] by (simp add: put_glyph_def)
    with sim_put [OF s' fnt, of "if is_scalar ?x then ?x else 0x3F"]
    have put: "sim_ok fnt (vt_put (v\<lparr>utf8_cp := ?x, utf8_need := m\<rparr>) (if is_scalar ?x then ?x else 0x3F))
        (put_glyph fnt (c\<lparr>ccp := ?x, cneed := m\<rparr>) ?x)" by simp
    show ?thesis using True w cp(1) e m put sim_okI [OF s']
      by (cases "m = 0"; cases "is_scalar ?x") (simp_all add: vt_byte_def putc_utf8_def Let_def)
  next
    case False
    have s0: "sim fnt (v\<lparr>utf8_need := 0\<rparr>) (c\<lparr>cneed := 0\<rparr>) f" using s by (simp add: sim_def)
    have "sim_ok fnt (do { w \<leftarrow> vt_put (v\<lparr>utf8_need := 0\<rparr>) 0x3F; if b \<ge> 0x80 then lead_byte w b else plain_byte w b })
      (do { d \<leftarrow> put_glyph fnt (c\<lparr>cneed := 0\<rparr>) 0x3F; if b \<ge> 0x80 then putc_lead fnt d b else putc_plain fnt d b })"
    proof (rule sim_ok_bind [OF sim_put [OF s0 fnt]])
      fix w d g assume r: "put_glyph fnt (c\<lparr>cneed := 0\<rparr>) 0x3F = Some d" "sim fnt w d g"
      from put_need [OF s0 fnt r(1)] have "cneed d = 0" "parse d = Normal" using e(2) by auto
      then show "sim_ok fnt (if b \<ge> 0x80 then lead_byte w b else plain_byte w b) (if b \<ge> 0x80 then putc_lead fnt d b else putc_plain fnt d b)"
        using rest [OF r(2)] r(2) by (simp add: sim_def)
    qed
    then show ?thesis using False rest [OF s st] e
      by (cases "cneed c = 0"; cases "b AND 0xC0 = 0x80") (simp_all add: vt_byte_def putc_utf8_def)
  qed
qed

lemma sim_putc:
  assumes s: "sim fnt v c f" and fnt: "font_ok fnt" and b: "common v b"
  shows "sim_ok fnt (vt_byte v b) (putc fnt c b)"
proof (cases "state v")
  case Normal
  then show ?thesis using sim_utf8 [OF s fnt Normal b] s by (simp add: putc_def sim_def)
next
  case Esc
  have n: "utf8_need v = 0" "parse c = Esc" "cneed c = 0" and nb: "\<not> 0x80 \<le> b" using s Esc b by (auto simp: sim_def common_def)
  have "sim fnt (v\<lparr>state := Csi, params := replicate MAX_PARAMS 0, nparams := 0, private_csi := False\<rparr>)
      (c\<lparr>parse := Csi, cnparams := 0, csi_private := False, cparams := replicate MAX_PARAMS 0\<rparr>) f"
    "sim fnt (v\<lparr>state := Normal\<rparr>) (c\<lparr>parse := Normal\<rparr>) f"
    using s n by (simp_all add: sim_def)
  with n nb Esc show ?thesis by (auto simp: vt_byte_def plain_byte_def putc_def intro: sim_okI)
next
  case Csi
  have n: "utf8_need v = 0" "parse c = Csi" and nb: "\<not> 0x80 \<le> b" using s Csi b by (auto simp: sim_def common_def)
  with Csi sim_csi_byte [OF s fnt Csi b] show ?thesis by (simp add: vt_byte_def plain_byte_def putc_def)
qed

lemma sim_stream: "sim fnt v c f \<Longrightarrow> font_ok fnt \<Longrightarrow> common_stream v bs \<Longrightarrow> sim_ok fnt (feed v bs) (putcs fnt c bs)"
proof (induction bs arbitrary: v c f)
  case (Cons b bs)
  from sim_putc [OF Cons.prems(1,2), of b] Cons.prems(3) obtain v' c' f' where
    "vt_byte v b = Some v'" "putc fnt c b = Some c'" "sim fnt v' c' f'" by (auto simp: sim_ok_def)
  with Cons.IH [of v' c' f'] Cons.prems(2,3) show ?case by simp
qed (auto intro: sim_okI)

lemma init_sim:
  assumes "fb_ok f" "font_ok fnt"
  shows "\<exists>c f'. console_init console_static f = Some c \<and> sim fnt (vt_new (ccols c) (crows c)) c f'"
proof -
  from console_init_ok [OF assms] obtain c f' where c: "console_init console_static f = Some c" "cinv c f'"
    "displays fnt c f' (\<lambda>_ _. BLANK)" "cneed c = 0" "cparams c = replicate MAX_PARAMS 0" "cnparams c = 0" "\<not> csi_private c"
    "cursor_col c = 0" "cursor_row c = 0" "cur_attr c = PLAIN" "parse c = Normal" by blast
  note d = cinvD [OF c(2)]
  let ?v = "vt_new (ccols c) (crows c)"
  have v: "vt_inv ?v" "cols ?v = ccols c" "rows ?v = crows c"
    using vt_new_inv [OF d(9,10)] d(7,8) by simp_all
  have "displays fnt c f' (grid ?v)"
    by (rule displays_cong [OF c(3)]) (use d(7,8) cell_index in \<open>simp add: vt_new_def Let_def grid_def\<close>)
  then have "sim fnt ?v c f'" using v c(2,4-) by (simp add: sim_def) (simp add: vt_new_def Let_def)
  with c(1) show ?thesis by blast
qed

lemma flush_eq: "(\<And>fl dr. flush c = c\<lparr>flushed := fl, dirty := dr\<rparr> \<Longrightarrow> thesis) \<Longrightarrow> thesis"
proof -
  assume a: "\<And>fl dr. flush c = c\<lparr>flushed := fl, dirty := dr\<rparr> \<Longrightarrow> thesis"
  obtain x0 y0 x1 y1 where d: "dirty c = (x0, y0, x1, y1)" by (cases "dirty c") auto
  show thesis
  proof (cases "x0 \<ge> x1")
    case True
    then have "flush c = c\<lparr>flushed := flushed c, dirty := dirty c\<rparr>" by (simp add: flush_def d)
    then show ?thesis by (rule a)
  next
    case False
    then have "flush c = c\<lparr>flushed := (x0, y0, x1 - x0, y1 - y0) # flushed c, dirty := (0, 0, 0, 0)\<rparr>"
      by (simp add: flush_def d)
    then show ?thesis by (rule a)
  qed
qed

section \<open>Properties\<close>

text \<open>A font with blank glyphs and a small screen, for the examples.\<close>

definition demo_font :: font where
  "demo_font = \<lparr>ascii_glyphs = replicate 128 (replicate 16 0), ext_glyphs = [(0x2500, replicate 16 0xFF)]\<rparr>"

definition demo_fb :: framebuffer where
  "demo_fb = \<lparr>pixels = (\<lambda>_. 0), width = 48, height = 144, pitch = 64\<rparr>"

lemma demo_font_ok: "font_ok demo_font"
  by (simp add: font_ok_def demo_font_def GLYPH_H_def is_scalar_def)

lemma demo_fb_ok: "fb_ok demo_fb"
  by (simp add: fb_ok_def demo_fb_def SAT_def)

text \<open>
  C20: the console never touches memory outside the framebuffer. On any screen it can be
  initialised on, writing any byte stream (escape sequences with any parameters, malformed UTF-8)
  succeeds: every pixel access is inside the framebuffer and every colour inside the palette, and
  the cursor, the attributes and the parser are left well-formed.
\<close>

theorem console_write_safe:
  assumes "fb_ok f" "font_ok fnt"
  shows "\<exists>c c' f'. console_init console_static f = Some c \<and> console_write fnt c bs = Some c' \<and> cinv c' f'"
proof -
  from console_init_ok [OF assms] obtain c f1 where c: "console_init console_static f = Some c" "cinv c f1" by blast
  from putcs_ok [OF c(2) assms(2), of bs] obtain c' f' where c': "putcs fnt c bs = Some c'" "cinv c' f'"
    by (auto simp: cstep_ok_def)
  obtain fl dr where "flush c' = c'\<lparr>flushed := fl, dirty := dr\<rparr>" by (rule flush_eq)
  then have "cinv (flush c') f'" using c'(2) by (simp add: cinv_def)
  with c c'(1) show ?thesis by (auto simp: console_write_def)
qed

theorem console_write_safe_witness:
  "\<exists>c c' f'. console_init console_static demo_fb = Some c \<and> console_write demo_font c [0x1B, 0x5B, 0x39, 0x42, 0xFF, 0x0A] = Some c' \<and> cinv c' f'"
  by (rule console_write_safe [OF demo_fb_ok demo_font_ok])

text \<open>
  C21: the screen shows exactly what a pane's terminal of the same size holds: for every stream of
  bytes both interpret, the console and the terminal stay in step, and each cell of the
  framebuffer is the rendering of the terminal's cell, with the same cursor, attributes and escape
  state.
\<close>

theorem console_shows_terminal:
  assumes "fb_ok f" "font_ok fnt" "console_init console_static f = Some c"
    and "common_stream (vt_new (ccols c) (crows c)) bs"
  shows "\<exists>v c' f'. feed (vt_new (ccols c) (crows c)) bs = Some v \<and> putcs fnt c bs = Some c' \<and> fb c' = Some f'
    \<and> displays fnt c' f' (grid v) \<and> (cx v, cy v) = (cursor_col c', cursor_row c') \<and> attr_now v = cur_attr c'
    \<and> state v = parse c'"
proof -
  obtain f1 where "sim fnt (vt_new (ccols c) (crows c)) c f1" using init_sim [OF assms(1,2)] assms(3) by auto
  from sim_stream [OF this assms(2,4)] show ?thesis
    unfolding sim_ok_def sim_def by (auto simp: cinv_def geom_def)
qed

definition demo_console :: console where
  "demo_console = the (console_init console_static demo_fb)"

lemma demo_console_init: "console_init console_static demo_fb = Some demo_console"
  using console_init_ok [OF demo_fb_ok demo_font_ok] by (auto simp: demo_console_def)

lemma demo_console_dims: "ccols demo_console = 2 \<and> crows demo_console = 7"
  using console_init_dims [OF demo_fb_ok demo_font_ok demo_console_init] by (simp add: demo_fb_def)

theorem console_shows_terminal_witness:
  "\<exists>v c' f'. feed (vt_new (ccols demo_console) (crows demo_console)) [0x41, 0x1B, 0x5B, 0x31, 0x6D, 0xE2, 0x94, 0x80] = Some v
    \<and> putcs demo_font demo_console [0x41, 0x1B, 0x5B, 0x31, 0x6D, 0xE2, 0x94, 0x80] = Some c' \<and> fb c' = Some f'
    \<and> displays demo_font c' f' (grid v) \<and> (cx v, cy v) = (cursor_col c', cursor_row c') \<and> attr_now v = cur_attr c'
    \<and> state v = parse c'"
proof (rule console_shows_terminal [OF demo_fb_ok demo_font_ok demo_console_init])
  have "common_stream (vt_new 2 7) [0x41, 0x1B, 0x5B, 0x31, 0x6D, 0xE2, 0x94, 0x80]"
    by (simp add: common_def vt_byte_def lead_byte_def plain_byte_def csi_byte_def csi_def vt_put_def vt_set_def next_row_def
        scroll_up_def sgr_def vt_new_def Let_def MAX_PARAMS_def SAT_def is_scalar_def)
  then show "common_stream (vt_new (ccols demo_console) (crows demo_console)) [0x41, 0x1B, 0x5B, 0x31, 0x6D, 0xE2, 0x94, 0x80]"
    by (simp add: demo_console_dims)
qed

text \<open>Where they part: a tab is drawn by the console, as a glyph that advances the cursor, and
  ignored by the terminal.\<close>

lemma tab_differs:
  assumes "sim fnt v c f" "font_ok fnt" "parse c = Normal" "cneed c = 0" "cursor_col c + 1 < ccols c"
  shows "vt_byte v 9 = Some v" "\<exists>c'. putc fnt c 9 = Some c' \<and> cursor_col c' = cursor_col c + 1"
proof -
  have c: "cinv c f" and n: "state v = Normal" "utf8_need v = 0" using assms(1,3,4) by (auto simp: sim_def)
  note d = cinvD [OF c]
  show "vt_byte v 9 = Some v" using n by (simp add: vt_byte_def plain_byte_def)
  from draw_glyph_redraws [OF d(1) assms(2) d(4,2,3), of 9] obtain c1 f1 T where
    c1: "draw_glyph fnt c (cursor_col c) (cursor_row c) 9 = Some c1" "redraws fnt c f T c1 f1" by blast
  have "(cursor_col c + 1) mod W32 = cursor_col c + 1" using d(2,9) by (simp add: W32_def SAT_def)
  with c1 redraws_fields [OF c1(2)] assms(3-) show "\<exists>c'. putc fnt c 9 = Some c' \<and> cursor_col c' = cursor_col c + 1"
    by (simp add: putc_def putc_utf8_def putc_plain_def put_glyph_def)
qed

end
