(* ===== verification/BlockHeap.thy ===== *)
theory BlockHeap
  imports Pmm
begin

text \<open>
  The two first-fit allocators, \<^verbatim>\<open>kernel/src/mm/heap.rs\<close> and its userland twin
  \<^verbatim>\<open>userland/rust/anssos/src/heap.rs\<close>: an intrusive list of block headers, first fit, splitting,
  forward coalescing, and over-allocation for alignments above 16. Memory is the store \<open>blocks\<close>
  of the headers by address, and \<open>stash\<close>, the words written just below over-aligned pointers;
  reading a header that is not there is \<open>None\<close>. Null is 0. Sizes are natural numbers: Rust's
  \<^verbatim>\<open>Layout\<close> keeps a size rounded up to its alignment below \<open>2 ^ 63\<close>, so the sums stay in range.

  The operations are shared by both allocators and take the function that grows the heap; the
  kernel's takes pages from the page allocator, the user one moves the program break. The locale
  \<open>heap_source\<close> is what the allocators need of it, and holds the proofs.
\<close>

section \<open>Definitions\<close>

definition HEAP_ALIGN :: nat where "HEAP_ALIGN = 16"

text \<open>\<^verbatim>\<open>size_of::<Block>()\<close>: two words and a flag, aligned to 16.\<close>

definition HEADER :: nat where "HEADER = 32"

record block =
  nxt :: nat
  bsize :: nat
  bfree :: bool

record heap =
  head :: nat
  tail :: nat
  blocks :: "nat \<rightharpoonup> block"
  stash :: "nat \<rightharpoonup> nat"

text \<open>Clearing the low bits of a number below a power of two is subtracting its remainder.\<close>

definition align_up :: "nat \<Rightarrow> nat \<Rightarrow> nat" where
  "align_up n align = (let m = n + align - 1 in m - m mod align)"

text \<open>The end of \<^verbatim>\<open>grow\<close>: a new free block becomes the last one.\<close>

definition append_block :: "'s heap_scheme \<Rightarrow> nat \<Rightarrow> nat \<Rightarrow> 's heap_scheme option" where
  "append_block h b s =
     (let m = (blocks h)(b \<mapsto> \<lparr>nxt = 0, bsize = s, bfree = True\<rparr>)
      in if tail h = 0 then Some (h\<lparr>blocks := m, head := b, tail := b\<rparr>)
         else case m (tail h) of None \<Rightarrow> None
              | Some t \<Rightarrow> Some (h\<lparr>blocks := m(tail h \<mapsto> t\<lparr>nxt := b\<rparr>), tail := b\<rparr>))"

definition split :: "'s heap_scheme \<Rightarrow> nat \<Rightarrow> nat \<Rightarrow> 's heap_scheme option" where
  "split h b n =
     (case blocks h b of None \<Rightarrow> None
      | Some blk \<Rightarrow>
          if bsize blk < n + HEADER + HEAP_ALIGN then Some h
          else let rest = b + HEADER + n;
                   m = (blocks h)(rest \<mapsto> \<lparr>nxt = nxt blk, bsize = bsize blk - n - HEADER, bfree = True\<rparr>,
                                  b \<mapsto> blk\<lparr>bsize := n, nxt := rest\<rparr>)
               in Some (h\<lparr>blocks := m, tail := (if tail h = b then rest else tail h)\<rparr>))"

partial_function (option) find_fit :: "(nat \<rightharpoonup> block) \<Rightarrow> nat \<Rightarrow> nat \<Rightarrow> nat option" where
  "find_fit m b n =
     (if b = 0 then Some 0
      else case m b of None \<Rightarrow> None
           | Some blk \<Rightarrow> if bfree blk \<and> bsize blk \<ge> n then Some b else find_fit m (nxt blk) n)"

definition malloc_with :: "('s heap_scheme \<Rightarrow> nat \<Rightarrow> ('s heap_scheme \<times> nat) option) \<Rightarrow> 's heap_scheme \<Rightarrow> nat
    \<Rightarrow> ('s heap_scheme \<times> nat) option" where
  "malloc_with grow h req =
     (let n = align_up (max req 1) HEAP_ALIGN in do {
        b \<leftarrow> find_fit (blocks h) (head h) n;
        (h, b) \<leftarrow> (if b = 0 then grow h n else Some (h, b));
        if b = 0 then Some (h, 0)
        else do {
          h \<leftarrow> split h b n;
          blk \<leftarrow> blocks h b;
          Some (h\<lparr>blocks := (blocks h)(b \<mapsto> blk\<lparr>bfree := False\<rparr>)\<rparr>, b + HEADER) } })"

definition heap_free :: "'s heap_scheme \<Rightarrow> nat \<Rightarrow> 's heap_scheme option" where
  "heap_free h ptr =
     (let b = ptr - HEADER in do {
        blk \<leftarrow> blocks h b;
        let m = (blocks h)(b \<mapsto> blk\<lparr>bfree := True\<rparr>);
        let n = nxt blk;
        if n = 0 then Some (h\<lparr>blocks := m\<rparr>)
        else do {
          nb \<leftarrow> m n;
          Some (if bfree nb \<and> n = b + HEADER + bsize blk
                then h\<lparr>blocks := m(b \<mapsto> \<lparr>nxt = nxt nb, bsize = bsize blk + (HEADER + bsize nb), bfree = True\<rparr>),
                       tail := (if tail h = n then b else tail h)\<rparr>
                else h\<lparr>blocks := m\<rparr>) } })"

definition alloc_with :: "('s heap_scheme \<Rightarrow> nat \<Rightarrow> ('s heap_scheme \<times> nat) option) \<Rightarrow> 's heap_scheme \<Rightarrow> nat \<Rightarrow> nat
    \<Rightarrow> ('s heap_scheme \<times> nat) option" where
  "alloc_with grow h sz align =
     (if align \<le> HEAP_ALIGN then malloc_with grow h sz
      else do {
        (h, raw) \<leftarrow> malloc_with grow h (sz + align);
        if raw = 0 then Some (h, 0)
        else let aligned = align_up (raw + 8) align
             in Some (h\<lparr>stash := (stash h)(aligned - 8 \<mapsto> raw)\<rparr>, aligned) })"

definition dealloc :: "'s heap_scheme \<Rightarrow> nat \<Rightarrow> nat \<Rightarrow> 's heap_scheme option" where
  "dealloc h ptr align =
     (if align \<le> HEAP_ALIGN then heap_free h ptr else do { raw \<leftarrow> stash h (ptr - 8); heap_free h raw })"

subsection \<open>The kernel heap\<close>

record kheap = heap +
  kpmm :: pmm
  hhdm :: nat

definition k_grow :: "kheap \<Rightarrow> nat \<Rightarrow> (kheap \<times> nat) option" where
  "k_grow h n =
     (let pages = div_ceil (HEADER + n) PAGE_SIZE;
          (phys, p) = alloc_pages (kpmm h) pages;
          h = h\<lparr>kpmm := p\<rparr>
      in if phys = 0 then Some (h, 0)
         else let b = phys + hhdm h
              in map_option (\<lambda>h. (h, b)) (append_block h b (pages * PAGE_SIZE - HEADER)))"

definition k_alloc :: "kheap \<Rightarrow> nat \<Rightarrow> nat \<Rightarrow> (kheap \<times> nat) option" where
  "k_alloc = alloc_with k_grow"

definition k_dealloc :: "kheap \<Rightarrow> nat \<Rightarrow> nat \<Rightarrow> kheap option" where
  "k_dealloc = dealloc"

subsection \<open>The user heap\<close>

text \<open>The kernel behind \<^verbatim>\<open>sys::brk\<close> is a parameter: its state, and the call.\<close>

record 'k uheap = heap +
  ubrk :: nat
  kern :: 'k

definition GROW_CHUNK :: nat where "GROW_CHUNK = 4096"

text \<open>Rust's \<^verbatim>\<open>as i64\<close> and \<^verbatim>\<open>as usize\<close>.\<close>

definition as_i64 :: "nat \<Rightarrow> int" where
  "as_i64 n = (let m = n mod 2 ^ 64 in if m < 2 ^ 63 then int m else int m - 2 ^ 64)"

definition as_usize :: "int \<Rightarrow> nat" where
  "as_usize i = nat (i mod 2 ^ 64)"

definition u_start :: "('k \<Rightarrow> nat \<Rightarrow> 'k \<times> int) \<Rightarrow> 'k uheap \<Rightarrow> 'k uheap" where
  "u_start sys_brk h =
     (if ubrk h = 0
      then (let (k, r) = sys_brk (kern h) 0 in h\<lparr>kern := k, ubrk := align_up (as_usize r) HEAP_ALIGN\<rparr>)
      else h)"

definition u_grow :: "('k \<Rightarrow> nat \<Rightarrow> 'k \<times> int) \<Rightarrow> 'k uheap \<Rightarrow> nat \<Rightarrow> ('k uheap \<times> nat) option" where
  "u_grow sys_brk h n =
     (let h = u_start sys_brk h;
          grow = align_up (HEADER + n) GROW_CHUNK;
          new_end = ubrk h + grow;
          (k, r) = sys_brk (kern h) new_end;
          h = h\<lparr>kern := k\<rparr>
      in if r \<noteq> as_i64 new_end then Some (h, 0)
         else let b = ubrk h
              in map_option (\<lambda>h. (h, b)) (append_block (h\<lparr>ubrk := new_end\<rparr>) b (grow - HEADER)))"

text \<open>The rest of the user allocator is the kernel's code again, on its own state.\<close>

definition u_split :: "'k uheap \<Rightarrow> nat \<Rightarrow> nat \<Rightarrow> 'k uheap option" where
  "u_split = split"

definition u_malloc :: "('k \<Rightarrow> nat \<Rightarrow> 'k \<times> int) \<Rightarrow> 'k uheap \<Rightarrow> nat \<Rightarrow> ('k uheap \<times> nat) option" where
  "u_malloc sys_brk = malloc_with (u_grow sys_brk)"

definition u_free :: "'k uheap \<Rightarrow> nat \<Rightarrow> 'k uheap option" where
  "u_free = heap_free"

definition u_alloc :: "('k \<Rightarrow> nat \<Rightarrow> 'k \<times> int) \<Rightarrow> 'k uheap \<Rightarrow> nat \<Rightarrow> nat \<Rightarrow> ('k uheap \<times> nat) option" where
  "u_alloc sys_brk = alloc_with (u_grow sys_brk)"

definition u_dealloc :: "'k uheap \<Rightarrow> nat \<Rightarrow> nat \<Rightarrow> 'k uheap option" where
  "u_dealloc = dealloc"

definition u_init :: "'k \<Rightarrow> 'k uheap" where
  "u_init k = \<lparr>head = 0, tail = 0, blocks = Map.empty, stash = Map.empty, ubrk = 0, kern = k\<rparr>"

section \<open>The block list\<close>

text \<open>The list behind the headers: address, usable size and whether the block is free.\<close>

type_synonym blk = "nat \<times> nat \<times> bool"

fun first :: "blk list \<Rightarrow> nat \<Rightarrow> nat" where
  "first [] e = e"
| "first ((b, _) # _) e = b"

fun reps :: "(nat \<rightharpoonup> block) \<Rightarrow> blk list \<Rightarrow> nat \<Rightarrow> bool" where
  "reps m [] e = True"
| "reps m ((b, s, f) # xs) e = (m b = Some \<lparr>nxt = first xs e, bsize = s, bfree = f\<rparr> \<and> reps m xs e)"

definition ext :: "blk \<Rightarrow> nat set" where
  "ext x = {fst x..<fst x + HEADER + fst (snd x)}"

definition span :: "blk list \<Rightarrow> nat set" where
  "span xs = (\<Union>x \<in> set xs. ext x)"

definition block_ok :: "blk \<Rightarrow> bool" where
  "block_ok x \<longleftrightarrow> 0 < fst x \<and> 16 dvd fst x \<and> 16 dvd fst (snd x)"

definition apart :: "blk \<Rightarrow> blk \<Rightarrow> bool" where
  "apart x y \<longleftrightarrow> ext x \<inter> ext y = {}"

definition hrep :: "'s heap_scheme \<Rightarrow> blk list \<Rightarrow> bool" where
  "hrep h xs \<longleftrightarrow> reps (blocks h) xs 0 \<and> head h = first xs 0 \<and> tail h = (if xs = [] then 0 else fst (last xs))
     \<and> (\<forall>x \<in> set xs. block_ok x) \<and> sorted_wrt apart xs"

lemma first_append: "first (xs @ ys) e = first xs (first ys e)"
  by (cases xs) auto

lemma reps_append: "reps m (xs @ ys) e \<longleftrightarrow> reps m xs (first ys e) \<and> reps m ys e"
proof (induction xs)
  case (Cons x xs)
  then show ?case by (cases x) (auto simp: first_append)
qed simp

lemma reps_upd: "b \<notin> fst ` set xs \<Longrightarrow> reps (m(b := v)) xs e = reps m xs e"
proof (induction xs)
  case (Cons x xs)
  then show ?case by (cases x) auto
qed simp

lemma apart_sym: "apart x y \<Longrightarrow> apart y x"
  by (auto simp: apart_def)

lemma ext_self: "fst x \<in> ext x"
  by (simp add: ext_def HEADER_def)

lemma apart_addr: "apart x y \<Longrightarrow> fst x \<noteq> fst y"
  using ext_self [of x] ext_self [of y] by (auto simp: apart_def)

text \<open>Changing one block: what the rest of the list keeps.\<close>

lemma mid_addrs:
  assumes "sorted_wrt apart (as @ x # cs)"
  shows "fst x \<notin> fst ` set as" "fst x \<notin> fst ` set cs"
proof -
  have "apart y x" if "y \<in> set as" for y using assms that by (simp add: sorted_wrt_append)
  then show "fst x \<notin> fst ` set as" using apart_addr by (metis imageE)
  have "apart x y" if "y \<in> set cs" for y using assms that by (simp add: sorted_wrt_append)
  then show "fst x \<notin> fst ` set cs" using apart_addr by (metis imageE)
qed

text \<open>Replacing a block by blocks that cover the same addresses keeps every block apart.\<close>

lemma sorted_replace:
  assumes "sorted_wrt apart (as @ xs @ cs)" "span ys \<subseteq> span xs" "sorted_wrt apart ys"
  shows "sorted_wrt apart (as @ ys @ cs)"
proof -
  have "apart x y" if "x \<in> set as" "y \<in> set ys" for x y
    using assms(1,2) that unfolding sorted_wrt_append apart_def span_def by fastforce
  moreover have "apart y z" if "y \<in> set ys" "z \<in> set cs" for y z
    using assms(1,2) that unfolding sorted_wrt_append apart_def span_def by fastforce
  ultimately show ?thesis using assms(1,3) by (auto simp: sorted_wrt_append)
qed

lemma span_append: "span (xs @ ys) = span xs \<union> span ys"
  by (auto simp: span_def)

lemma span_Cons: "span (x # xs) = ext x \<union> span xs"
  by (auto simp: span_def)

lemma span_Nil: "span [] = {}"
  by (simp add: span_def)

lemma hrepD:
  assumes "hrep h xs"
  shows "reps (blocks h) xs 0" "head h = first xs 0" "tail h = (if xs = [] then 0 else fst (last xs))"
    "\<And>x. x \<in> set xs \<Longrightarrow> block_ok x" "sorted_wrt apart xs"
  using assms by (auto simp: hrep_def)

lemma find_fit_reps:
  assumes "reps m xs 0" "\<forall>x \<in> set xs. 0 < fst x"
  shows "(\<exists>as b s cs. xs = as @ (b, s, True) # cs \<and> n \<le> s \<and> (\<forall>(a, t, f) \<in> set as. \<not> (f \<and> n \<le> t)) \<and> find_fit m (first xs 0) n = Some b)
    \<or> ((\<forall>(a, t, f) \<in> set xs. \<not> (f \<and> n \<le> t)) \<and> find_fit m (first xs 0) n = Some 0)"
  using assms
proof (induction xs)
  case Nil
  then show ?case by (simp add: find_fit.simps)
next
  case (Cons x xs)
  obtain b s f where x: "x = (b, s, f)" by (cases x)
  have b: "b \<noteq> 0" "m b = Some \<lparr>nxt = first xs 0, bsize = s, bfree = f\<rparr>" using Cons.prems x by auto
  show ?case
  proof (cases "f \<and> n \<le> s")
    case True
    then have "find_fit m (first (x # xs) 0) n = Some b" using b x by (simp add: find_fit.simps)
    with True x show ?thesis by (intro disjI1 exI [of _ "[]"]) auto
  next
    case False
    have e: "find_fit m (first (x # xs) 0) n = find_fit m (first xs 0) n"
      using False b x by (subst find_fit.simps) auto
    have "reps m xs 0" "\<forall>x \<in> set xs. 0 < fst x" using Cons.prems x by auto
    from Cons.IH [OF this] show ?thesis
    proof (elim disjE exE conjE)
      fix as b' s' cs assume "xs = as @ (b', s', True) # cs" "n \<le> s'" "\<forall>(a, t, f) \<in> set as. \<not> (f \<and> n \<le> t)"
        "find_fit m (first xs 0) n = Some b'"
      with e False x show ?thesis by (intro disjI1 exI [of _ "x # as"]) auto
    qed (use e False x in auto)
  qed
qed

text \<open>Cutting \<open>n\<close> bytes off a free block.\<close>

definition carve :: "nat \<Rightarrow> nat \<Rightarrow> nat \<Rightarrow> blk list" where
  "carve b s n = (if s < n + HEADER + HEAP_ALIGN then [(b, s, False)]
                  else [(b, n, False), (b + HEADER + n, s - n - HEADER, True)])"

lemma carve_ok:
  assumes "block_ok (b, s, f)" "16 dvd n" "n \<le> s"
  shows "span (carve b s n) = ext (b, s, f)" "sorted_wrt apart (carve b s n)" "\<forall>x \<in> set (carve b s n). block_ok x"
  using assms by (auto simp: carve_def span_def ext_def apart_def block_ok_def HEADER_def HEAP_ALIGN_def)

lemma take_block:
  assumes h: "hrep h (as @ (b, s, True) # cs)" and n: "n \<le> s" "16 dvd n"
  shows "\<exists>h1 blk. split h b n = Some h1 \<and> blocks h1 b = Some blk \<and>
    hrep (h1\<lparr>blocks := (blocks h1)(b \<mapsto> blk\<lparr>bfree := False\<rparr>)\<rparr>) (as @ carve b s n @ cs)
    \<and> stash h1 = stash h \<and> heap.more h1 = heap.more h"
proof -
  note d = hrepD [OF h]
  have r: "reps (blocks h) as b" "blocks h b = Some \<lparr>nxt = first cs 0, bsize = s, bfree = True\<rparr>" "reps (blocks h) cs 0"
    using d(1) by (auto simp: reps_append)
  have ok: "block_ok (b, s, True)" "\<forall>x \<in> set as \<union> set cs. block_ok x" using d(4) by auto
  note c = carve_ok [OF ok(1) n(2,1)]
  note ad = mid_addrs [OF d(5)]
  have sorted: "sorted_wrt apart (as @ carve b s n @ cs)"
    using sorted_replace [of as "[(b, s, True)]" cs] d(5) c by (simp add: span_Cons span_Nil)
  show ?thesis
  proof (cases "s < n + HEADER + HEAP_ALIGN")
    case True
    have "hrep (h\<lparr>blocks := (blocks h)(b \<mapsto> \<lparr>nxt = first cs 0, bsize = s, bfree = False\<rparr>)\<rparr>) (as @ carve b s n @ cs)"
      unfolding hrep_def using True r ok c(3) ad sorted d(2,3)
      by (auto simp: carve_def reps_append reps_upd first_append)
    with True r(2) show ?thesis by (auto simp: split_def)
  next
    case False
    let ?r = "b + HEADER + n"
    have in_b: "?r \<in> ext (b, s, True)" using False by (simp add: ext_def HEADER_def HEAP_ALIGN_def)
    have out: "?r \<notin> fst ` set xs" if "\<forall>x \<in> set xs. apart x (b, s, True)" for xs
    proof
      assume "?r \<in> fst ` set xs"
      then obtain x where x: "x \<in> set xs" "fst x = ?r" by auto
      then have "?r \<in> ext x" using ext_self [of x] by simp
      with that x(1) in_b show False by (auto simp: apart_def)
    qed
    have ra: "?r \<notin> fst ` set as" "?r \<notin> fst ` set cs"
      using d(5) apart_sym by (auto simp: sorted_wrt_append intro!: out)
    let ?m = "(blocks h)(?r \<mapsto> \<lparr>nxt = first cs 0, bsize = s - n - HEADER, bfree = True\<rparr>, b \<mapsto> \<lparr>nxt = ?r, bsize = n, bfree = True\<rparr>)"
    let ?h = "h\<lparr>blocks := ?m, tail := (if tail h = b then ?r else tail h)\<rparr>"
    have s: "split h b n = Some ?h" using False r(2) by (simp add: split_def Let_def)
    have last_b: "fst (last cs) \<noteq> b" if "cs \<noteq> []" using ad(2) that by force
    have "hrep (?h\<lparr>blocks := ?m(b \<mapsto> \<lparr>nxt = ?r, bsize = n, bfree = False\<rparr>)\<rparr>) (as @ carve b s n @ cs)"
      unfolding hrep_def using False r ok c(3) ad ra sorted d(2,3) last_b
      by (auto simp: carve_def reps_append reps_upd first_append HEADER_def)
    with s show ?thesis by auto
  qed
qed

text \<open>Freeing a block, and the merge with the block after it.\<close>

definition release :: "nat \<Rightarrow> nat \<Rightarrow> blk list \<Rightarrow> blk list" where
  "release b s cs =
     (case cs of [] \<Rightarrow> [(b, s, True)]
      | (n, t, f) # ds \<Rightarrow> if f \<and> n = b + HEADER + s then (b, s + (HEADER + t), True) # ds else (b, s, True) # cs)"

lemma release_span: "span (release b s cs) = ext (b, s, f) \<union> span cs"
  by (auto simp: release_def span_def ext_def split: list.splits)

lemma release_merge:
  assumes "sorted_wrt apart (as @ (b, s, f) # (b + HEADER + s, t, g) # ds)"
  shows "sorted_wrt apart (as @ (b, s + (HEADER + t), True) # ds)"
proof -
  have "span [(b, s + (HEADER + t), True)] \<subseteq> span [(b, s, f), (b + HEADER + s, t, g)]"
    by (auto simp: span_def ext_def)
  from sorted_replace [OF _ this, of as ds] assms show ?thesis by simp
qed

lemma heap_free_ok:
  assumes h: "hrep h (as @ (b, s, f) # cs)"
  shows "\<exists>h'. heap_free h (b + HEADER) = Some h' \<and> hrep h' (as @ release b s cs)
    \<and> stash h' = stash h \<and> heap.more h' = heap.more h"
proof -
  note d = hrepD [OF h]
  have r: "reps (blocks h) as b" "blocks h b = Some \<lparr>nxt = first cs 0, bsize = s, bfree = f\<rparr>" "reps (blocks h) cs 0"
    using d(1) by (auto simp: reps_append)
  have ok: "block_ok (b, s, f)" "\<forall>x \<in> set as \<union> set cs. block_ok x" using d(4) by auto
  note ad = mid_addrs [OF d(5)]
  have sorted: "sorted_wrt apart (as @ (b, s, True) # cs)"
    using sorted_replace [of as "[(b, s, f)]" cs "[(b, s, True)]"] d(5) by (simp add: span_Cons span_Nil ext_def)
  let ?m = "(blocks h)(b \<mapsto> \<lparr>nxt = first cs 0, bsize = s, bfree = True\<rparr>)"
  have plain: "hrep (h\<lparr>blocks := ?m\<rparr>) (as @ (b, s, True) # cs)"
    unfolding hrep_def using r ok ad sorted d(2,3)
    by (auto simp: reps_append reps_upd first_append block_ok_def)
  show ?thesis
  proof (cases cs)
    case Nil
    then show ?thesis using r(2) plain by (auto simp: heap_free_def release_def)
  next
    case (Cons x ds)
    obtain n t g where x: "x = (n, t, g)" by (cases x)
    have n: "n \<noteq> 0" "n \<noteq> b" "blocks h n = Some \<lparr>nxt = first ds 0, bsize = t, bfree = g\<rparr>"
      using ok(2) ad(2) r(3) x Cons by (auto simp: block_ok_def)
    show ?thesis
    proof (cases "g \<and> n = b + HEADER + s")
      case False
      then show ?thesis using r(2) plain n x Cons by (auto simp: heap_free_def release_def)
    next
      case True
      let ?mm = "(blocks h)(b \<mapsto> \<lparr>nxt = first ds 0, bsize = s + (HEADER + t), bfree = True\<rparr>)"
      let ?h = "h\<lparr>blocks := ?mm, tail := (if tail h = n then b else tail h)\<rparr>"
      have run: "heap_free h (b + HEADER) = Some ?h" using True r(2) n x Cons by (simp add: heap_free_def Let_def HEADER_def)
      have sd: "sorted_wrt apart (as @ (b, s + (HEADER + t), True) # ds)"
        using release_merge [of as b s f t g ds] d(5) x Cons True by simp
      have nd: "n \<notin> fst ` set ds" using mid_addrs(2) [of "as @ [(b, s, f)]" "(n, t, g)" ds] d(5) x Cons by simp
      have tl: "tail h = (if ds = [] then n else fst (last ds))" using d(3) x Cons by simp
      have lst: "fst (last ds) \<noteq> n" if "ds \<noteq> []" using nd that by force
      have "hrep ?h (as @ (b, s + (HEADER + t), True) # ds)"
        unfolding hrep_def using r ok ad sd d(2) x Cons tl lst
        by (auto simp: reps_append reps_upd first_append block_ok_def HEADER_def)
      with run True x Cons show ?thesis by (auto simp: release_def)
    qed
  qed
qed

lemma append_block_ok:
  assumes h: "hrep h xs" and b: "block_ok (b, s, True)" "ext (b, s, True) \<inter> span xs = {}"
  shows "\<exists>h'. append_block h b s = Some h' \<and> hrep h' (xs @ [(b, s, True)]) \<and> stash h' = stash h \<and> heap.more h' = heap.more h"
proof -
  note d = hrepD [OF h]
  have ap: "apart x (b, s, True)" if "x \<in> set xs" for x using b(2) that by (auto simp: apart_def span_def)
  have sorted: "sorted_wrt apart (xs @ [(b, s, True)])" using d(5) ap by (simp add: sorted_wrt_append)
  have nb: "b \<notin> fst ` set xs" using mid_addrs(1) [of xs "(b, s, True)" "[]"] sorted by simp
  show ?thesis
  proof (cases "xs = []")
    case True
    with h b show ?thesis by (auto simp: append_block_def hrep_def)
  next
    case False
    then obtain ys y where y: "xs = ys @ [y]" by (metis rev_exhaust)
    obtain a t f where yy: "y = (a, t, f)" by (cases y)
    have r: "reps (blocks h) ys a" "blocks h a = Some \<lparr>nxt = 0, bsize = t, bfree = f\<rparr>" "tail h = a" "a \<noteq> 0" "a \<noteq> b"
      using d(1,3) d(4) [of y] nb y yy by (auto simp: reps_append block_ok_def)
    have na: "a \<notin> fst ` set ys" using mid_addrs(1) [of ys y "[]"] d(5) y yy by simp
    let ?h = "h\<lparr>blocks := (blocks h)(b \<mapsto> \<lparr>nxt = 0, bsize = s, bfree = True\<rparr>, a \<mapsto> \<lparr>nxt = b, bsize = t, bfree = f\<rparr>), tail := b\<rparr>"
    have "append_block h b s = Some ?h" using r by (simp add: append_block_def Let_def)
    moreover have "hrep ?h (xs @ [(b, s, True)])"
      unfolding hrep_def using r na nb b(1) sorted d(2,4) y yy
      by (auto simp: reps_append reps_upd first_append)
    ultimately show ?thesis by auto
  qed
qed

section \<open>Live allocations\<close>

text \<open>A client's view: the pointers it holds, each with the size and alignment it asked for. A
  program may allocate with any power of two as alignment and free what it holds.\<close>

type_synonym live = "(nat \<times> nat \<times> nat) list"

datatype heap_op = Alloc nat nat | Dealloc nat nat nat

fun heap_valid :: "'s heap_scheme \<times> live \<Rightarrow> heap_op \<Rightarrow> bool" where
  "heap_valid (h, live) (Alloc sz al) = (\<exists>k \<in> {0..63}. al = 2 ^ k)"
| "heap_valid (h, live) (Dealloc p sz al) = ((p, sz, al) \<in> set live)"

fun heap_exec :: "('s heap_scheme \<Rightarrow> nat \<Rightarrow> ('s heap_scheme \<times> nat) option) \<Rightarrow> heap_op \<Rightarrow> 's heap_scheme \<times> live
    \<Rightarrow> (nat \<times> 's heap_scheme \<times> live) option" where
  "heap_exec grow (Alloc sz al) (h, live) =
     map_option (\<lambda>(h', p). (p, h', if p = 0 then live else (p, sz, al) # live)) (alloc_with grow h sz al)"
| "heap_exec grow (Dealloc p sz al) (h, live) =
     map_option (\<lambda>h'. (0, h', remove1 (p, sz, al) live)) (dealloc h p al)"

text \<open>The payload behind a live pointer, and what holds of it.\<close>

definition raw_of :: "'s heap_scheme \<Rightarrow> nat \<times> nat \<times> nat \<Rightarrow> nat" where
  "raw_of h e = (case e of (p, sz, al) \<Rightarrow> if al \<le> HEAP_ALIGN then p else the (stash h (p - 8)))"

definition entry_ok :: "'s heap_scheme \<Rightarrow> blk list \<Rightarrow> nat \<times> nat \<times> nat \<Rightarrow> bool" where
  "entry_ok h xs e = (case e of (p, sz, al) \<Rightarrow>
     let raw = raw_of h e in HEADER \<le> raw \<and> raw \<le> p \<and> al dvd p
     \<and> (\<exists>s. (raw - HEADER, s, False) \<in> set xs \<and> p + sz \<le> raw + s)
     \<and> (al > HEAP_ALIGN \<longrightarrow> stash h (p - 8) = Some raw \<and> raw + 8 \<le> p))"

definition region :: "nat \<times> nat \<times> nat \<Rightarrow> nat set" where
  "region e = (case e of (p, sz, al) \<Rightarrow> {p..<p + sz})"

definition live_ok :: "'s heap_scheme \<Rightarrow> blk list \<Rightarrow> live \<Rightarrow> bool" where
  "live_ok h xs live \<longleftrightarrow> (\<forall>e \<in> set live. entry_ok h xs e) \<and> distinct (map (raw_of h) live)"

lemma apart_mem:
  assumes "sorted_wrt apart xs" "x \<in> set xs" "y \<in> set xs" "x \<noteq> y"
  shows "apart x y"
  using assms
proof (induction xs)
  case (Cons z xs)
  then show ?case using apart_sym by (cases "x = z"; cases "y = z") auto
qed simp

lemma live_apart:
  assumes "hrep h xs" "live_ok h xs live"
  shows "sorted_wrt (\<lambda>x y. region x \<inter> region y = {}) live"
proof -
  have sub: "\<exists>s. (raw_of h e - HEADER, s, False) \<in> set xs \<and> HEADER \<le> raw_of h e \<and> region e \<subseteq> ext (raw_of h e - HEADER, s, False)"
    if "e \<in> set live" for e
  proof -
    obtain p sz al where e: "e = (p, sz, al)" by (cases e)
    have "entry_ok h xs e" using assms(2) that by (simp add: live_ok_def)
    then obtain s where s: "(raw_of h e - HEADER, s, False) \<in> set xs" "HEADER \<le> raw_of h e" "raw_of h e \<le> p" "p + sz \<le> raw_of h e + s"
      unfolding entry_ok_def e by (auto simp: Let_def)
    then have "region e \<subseteq> ext (raw_of h e - HEADER, s, False)" by (auto simp: region_def ext_def e)
    with s show ?thesis by blast
  qed
  have "region x \<inter> region y = {}" if xy: "x \<in> set live" "y \<in> set live" "raw_of h x \<noteq> raw_of h y" for x y
  proof -
    from sub [OF xy(1)] obtain s where s: "(raw_of h x - HEADER, s, False) \<in> set xs" "HEADER \<le> raw_of h x"
      "region x \<subseteq> ext (raw_of h x - HEADER, s, False)" by blast
    from sub [OF xy(2)] obtain t where t: "(raw_of h y - HEADER, t, False) \<in> set xs" "HEADER \<le> raw_of h y"
      "region y \<subseteq> ext (raw_of h y - HEADER, t, False)" by blast
    have "raw_of h x - HEADER \<noteq> raw_of h y - HEADER" using xy(3) s(2) t(2) by linarith
    then have "apart (raw_of h x - HEADER, s, False) (raw_of h y - HEADER, t, False)"
      using apart_mem [OF hrepD(5) [OF assms(1)] s(1) t(1)] by simp
    with s(3) t(3) show ?thesis by (auto simp: apart_def)
  qed
  moreover have "distinct (map (raw_of h) live)" using assms(2) by (simp add: live_ok_def)
  ultimately show ?thesis
  proof (induction live)
    case (Cons e live)
    have "region e \<inter> region x = {}" if "x \<in> set live" for x
      by (rule Cons.prems(1)) (use Cons.prems(2) that in auto)
    moreover have "sorted_wrt (\<lambda>x y. region x \<inter> region y = {}) live"
      by (rule Cons.IH) (use Cons.prems in auto)
    ultimately show ?case by simp
  qed simp
qed

definition aligned_apart :: "live \<Rightarrow> bool" where
  "aligned_apart live \<longleftrightarrow> (\<forall>(p, sz, al) \<in> set live. 0 < p \<and> al dvd p)
     \<and> sorted_wrt (\<lambda>x y. region x \<inter> region y = {}) live"

lemma live_aligned_apart:
  assumes "hrep h xs" "live_ok h xs live"
  shows "aligned_apart live"
proof -
  have "0 < p \<and> al dvd p" if "(p, sz, al) \<in> set live" for p sz al
    using assms(2) that unfolding live_ok_def entry_ok_def by (auto simp: Let_def HEADER_def)
  then show ?thesis using live_apart [OF assms] by (auto simp: aligned_apart_def)
qed

lemma align_up_bounds:
  assumes "0 < a"
  shows "a dvd align_up n a" "n \<le> align_up n a" "align_up n a < n + a"
proof -
  let ?m = "n + a - 1"
  have "?m mod a < a" using assms by simp
  then show "n \<le> align_up n a" "align_up n a < n + a" using assms mod_less_eq_dividend [of ?m a]
    unfolding align_up_def Let_def by linarith+
  show "a dvd align_up n a" unfolding align_up_def Let_def by (rule dvd_minus_mod)
qed

lemma aligned_inside:
  assumes "16 dvd raw" "16 dvd a" "0 < a"
  shows "a dvd align_up (raw + 8) a" "raw + 8 \<le> align_up (raw + 8) a" "align_up (raw + 8) a \<le> raw + a"
proof -
  note b = align_up_bounds [OF assms(3), of "raw + 8"]
  show "a dvd align_up (raw + 8) a" "raw + 8 \<le> align_up (raw + 8) a" by (fact b)+
  obtain k where k: "align_up (raw + 8) a = 16 * k" using b(1) assms(2) dvd_trans by (metis dvdE)
  obtain r where r: "raw = 16 * r" using assms(1) by (rule dvdE)
  obtain j where j: "a = 16 * j" using assms(2) by (rule dvdE)
  have "16 * k < 16 * r + 8 + 16 * j" using b(3) k r j by simp
  then have "16 * k \<le> 16 * r + 16 * j" by presburger
  then show "align_up (raw + 8) a \<le> raw + a" using k r j by simp
qed

lemma entry_keep:
  assumes "entry_ok h xs e" "\<And>b s. (b, s, False) \<in> set xs \<Longrightarrow> (b, s, False) \<in> set ys"
    "snd (snd e) > HEAP_ALIGN \<Longrightarrow> stash h' (fst e - 8) = stash h (fst e - 8)"
  shows "entry_ok h' ys e" "raw_of h' e = raw_of h e"
proof -
  obtain p sz al where e: "e = (p, sz, al)" by (cases e)
  show r: "raw_of h' e = raw_of h e" using assms(3) by (auto simp: raw_of_def e)
  show "entry_ok h' ys e" using assms r unfolding entry_ok_def e by (auto simp: Let_def)
qed

lemma live_keep:
  assumes "live_ok h xs live" "\<And>b s. (b, s, False) \<in> set xs \<Longrightarrow> (b, s, False) \<in> set ys" "stash h' = stash h"
  shows "live_ok h' ys live"
proof -
  have "entry_ok h' ys e" "raw_of h' e = raw_of h e" if "e \<in> set live" for e
    using entry_keep [of h xs e ys h'] assms that by (auto simp: live_ok_def)
  then show ?thesis using assms(1) by (simp add: live_ok_def cong: map_cong)
qed

section \<open>Growing\<close>

text \<open>What the allocators rely on when they grow: a new block, apart from all the others, or a
  failure that changes nothing. \<open>src\<close> is the provider's own invariant.\<close>

locale heap_source =
  fixes grow :: "'s heap_scheme \<Rightarrow> nat \<Rightarrow> ('s heap_scheme \<times> nat) option"
    and src :: "'s heap_scheme \<Rightarrow> nat set \<Rightarrow> bool"
  assumes grow_ok: "hrep h xs \<Longrightarrow> src h (span xs) \<Longrightarrow> 16 dvd n \<Longrightarrow>
    \<exists>h' b. grow h n = Some (h', b) \<and> stash h' = stash h \<and>
      (b = 0 \<and> hrep h' xs \<and> src h' (span xs)
       \<or> (\<exists>s. n \<le> s \<and> b \<noteq> 0 \<and> hrep h' (xs @ [(b, s, True)]) \<and> src h' (span (xs @ [(b, s, True)]))))"
    and src_more: "src h S \<Longrightarrow> heap.more h' = heap.more h \<Longrightarrow> src h' S"
begin

lemma malloc_cases:
  assumes h: "hrep h xs" "src h (span xs)"
  obtains (none) h' where "malloc_with grow h req = Some (h', 0)" "stash h' = stash h" "hrep h' xs" "src h' (span xs)"
      "\<forall>(a, t, f) \<in> set xs. \<not> (f \<and> align_up (max req 1) HEAP_ALIGN \<le> t)"
  | (got) h' as b s cs ys where "malloc_with grow h req = Some (h', b + HEADER)" "stash h' = stash h"
      "ys = as @ (b, s, True) # cs" "ys = xs \<or> (\<exists>y. ys = xs @ [y])" "align_up (max req 1) HEAP_ALIGN \<le> s"
      "block_ok (b, s, True)" "hrep h' (as @ carve b s (align_up (max req 1) HEAP_ALIGN) @ cs)" "src h' (span ys)"
proof -
  let ?n = "align_up (max req 1) HEAP_ALIGN"
  have n: "16 dvd ?n" by (simp add: align_up_def Let_def HEAP_ALIGN_def)
  have take: "\<exists>h'. (do { h \<leftarrow> split g b ?n; blk \<leftarrow> blocks h b; Some (h\<lparr>blocks := (blocks h)(b \<mapsto> blk\<lparr>bfree := False\<rparr>)\<rparr>, b + HEADER) })
        = Some (h', b + HEADER) \<and> hrep h' (as @ carve b s ?n @ cs) \<and> stash h' = stash g \<and> heap.more h' = heap.more g"
    if "hrep g (as @ (b, s, True) # cs)" "?n \<le> s" for g as b s cs
    using take_block [OF that n] by auto
  from find_fit_reps [of "blocks h" xs ?n] hrepD [OF h(1)]
  consider (hit) as b s cs where "xs = as @ (b, s, True) # cs" "?n \<le> s" "find_fit (blocks h) (head h) ?n = Some b"
    | (miss) "\<forall>(a, t, f) \<in> set xs. \<not> (f \<and> ?n \<le> t)" "find_fit (blocks h) (head h) ?n = Some 0"
    unfolding block_ok_def by auto
  then show thesis
  proof cases
    case hit
    have b: "block_ok (b, s, True)" "b \<noteq> 0" using hrepD(4) [OF h(1), of "(b, s, True)"] hit(1) by (auto simp: block_ok_def)
    from take [of h as b s cs] h(1) hit obtain h' where h': "malloc_with grow h req = Some (h', b + HEADER)"
      "hrep h' (as @ carve b s ?n @ cs)" "stash h' = stash h" "heap.more h' = heap.more h"
      using b by (auto simp: malloc_with_def Let_def)
    show thesis by (rule got [OF h'(1,3) hit(1) _ hit(2) b(1) h'(2)]) (use src_more [OF h(2) h'(4)] hit(1) in simp_all)
  next
    case miss
    from grow_ok [OF h n] obtain h1 b where g: "grow h ?n = Some (h1, b)" "stash h1 = stash h"
      "b = 0 \<and> hrep h1 xs \<and> src h1 (span xs)
       \<or> (\<exists>s. ?n \<le> s \<and> b \<noteq> 0 \<and> hrep h1 (xs @ [(b, s, True)]) \<and> src h1 (span (xs @ [(b, s, True)])))" by blast
    show thesis
    proof (cases "b = 0")
      case True
      have "malloc_with grow h req = Some (h1, 0)" using True miss(2) g(1) by (simp add: malloc_with_def Let_def)
      from none [OF this g(2)] True g(3) miss(1) show thesis by blast
    next
      case False
      then obtain s where s: "?n \<le> s" "hrep h1 (xs @ [(b, s, True)])" "src h1 (span (xs @ [(b, s, True)]))"
        using g(3) by blast
      from take [OF s(2,1)] obtain h' where h': "malloc_with grow h req = Some (h', b + HEADER)"
        "hrep h' (xs @ carve b s ?n @ [])" "stash h' = stash h" "heap.more h' = heap.more h1"
        using False miss(2) g(1,2) by (auto simp: malloc_with_def Let_def)
      have "block_ok (b, s, True)" using hrepD(4) [OF s(2)] by simp
      from got [OF h'(1,3) refl _ s(1) this h'(2)] src_more [OF s(3) h'(4)] show thesis by auto
    qed
  qed
qed

lemma malloc_ok:
  assumes h: "hrep h xs" "src h (span xs)"
  obtains (none) h' where "malloc_with grow h req = Some (h', 0)" "stash h' = stash h" "hrep h' xs" "src h' (span xs)"
  | (got) h' zs b s where "malloc_with grow h req = Some (h', b + HEADER)" "stash h' = stash h" "hrep h' zs"
      "src h' (span zs)" "(b, s, False) \<in> set zs" "req \<le> s"
      "\<And>c t. (c, t, False) \<in> set xs \<Longrightarrow> (c, t, False) \<in> set zs \<and> c \<noteq> b"
proof (rule malloc_cases [OF h, of req])
  let ?n = "align_up (max req 1) HEAP_ALIGN"
  have n: "req \<le> ?n" "16 dvd ?n" using align_up_bounds [of HEAP_ALIGN "max req 1"] by (auto simp: HEAP_ALIGN_def)
  fix h' as b s cs ys
  assume r: "malloc_with grow h req = Some (h', b + HEADER)" "stash h' = stash h"
    and ys: "ys = as @ (b, s, True) # cs" "ys = xs \<or> (\<exists>y. ys = xs @ [y])" "?n \<le> s" and bok: "block_ok (b, s, True)"
    and h': "hrep h' (as @ carve b s ?n @ cs)" "src h' (span ys)"
  obtain s' rest where cv: "carve b s ?n = (b, s', False) # rest" "?n \<le> s'" using ys(3) by (cases "s < ?n + HEADER + HEAP_ALIGN") (auto simp: carve_def)
  have sp: "span (as @ carve b s ?n @ cs) = span ys"
    using carve_ok(1) [OF bok n(2) ys(3)] by (simp add: ys(1) span_append span_Cons)
  have old: "(c, t, False) \<in> set as \<union> set cs" if "(c, t, False) \<in> set xs" for c t
  proof -
    have "(c, t, False) \<in> set ys" using that ys(2) by auto
    then show ?thesis using ys(1) by simp
  qed
  have new: "c \<noteq> b" if "(c, t, False) \<in> set as \<union> set cs" for c t
    using mid_addrs [of as "(b, s', False)" "rest @ cs"] hrepD(5) [OF h'(1)] cv(1) that by force
  show thesis
  proof (rule got [OF r h'(1)])
    show "src h' (span (as @ carve b s ?n @ cs))" using h'(2) sp by simp
    show "(b, s', False) \<in> set (as @ carve b s ?n @ cs)" using cv(1) by simp
    show "req \<le> s'" using n(1) cv(2) by simp
    show "(c, t, False) \<in> set (as @ carve b s ?n @ cs) \<and> c \<noteq> b" if "(c, t, False) \<in> set xs" for c t
      using old [OF that] new [OF old [OF that]] by auto
  qed
qed (rule none)

lemma live_add:
  assumes h: "hrep h xs" "live_ok h xs live" and h': "hrep h' zs" "(b, s, False) \<in> set zs"
    and keep: "\<And>c t. (c, t, False) \<in> set xs \<Longrightarrow> (c, t, False) \<in> set zs \<and> c \<noteq> b"
    and st: "stash h' = stash h \<or> (p - 8 \<in> ext (b, s, False) \<and> stash h' = (stash h)(p - 8 \<mapsto> b + HEADER))"
    and new: "entry_ok h' zs (p, sz, al)" "raw_of h' (p, sz, al) = b + HEADER"
  shows "live_ok h' zs ((p, sz, al) # live)"
proof -
  have e: "entry_ok h' zs e \<and> raw_of h' e = raw_of h e \<and> raw_of h e \<noteq> b + HEADER" if el: "e \<in> set live" for e
  proof -
    obtain p' sz' al' where ee: "e = (p', sz', al')" by (cases e)
    have ok: "entry_ok h xs e" using h(2) el by (simp add: live_ok_def)
    then obtain t where t: "(raw_of h e - HEADER, t, False) \<in> set xs" "HEADER \<le> raw_of h e" "p' + sz' \<le> raw_of h e + t"
      "al' > HEAP_ALIGN \<longrightarrow> raw_of h e + 8 \<le> p'" unfolding entry_ok_def ee by (auto simp: Let_def)
    have ne: "raw_of h e - HEADER \<noteq> b" using keep [OF t(1)] by simp
    have "apart (raw_of h e - HEADER, t, False) (b, s, False)"
      using apart_mem [OF hrepD(5) [OF h'(1)] _ h'(2)] keep [OF t(1)] ne by blast
    then have "p' - 8 \<notin> ext (b, s, False)" if "al' > HEAP_ALIGN"
      using t(2-4) that by (auto simp: apart_def ext_def)
    then have "stash h' (fst e - 8) = stash h (fst e - 8)" if "snd (snd e) > HEAP_ALIGN" using st that ee by auto
    from entry_keep [OF ok _ this] keep ne t(2) show ?thesis by auto
  qed
  have m: "map (raw_of h') live = map (raw_of h) live" using e by simp
  have "b + HEADER \<notin> set (map (raw_of h) live)" using e by fastforce
  moreover have "distinct (map (raw_of h) live)" using h(2) by (simp add: live_ok_def)
  ultimately have "distinct (map (raw_of h') ((p, sz, al) # live))" unfolding list.map m new(2) by simp
  with e new(1) show ?thesis by (simp add: live_ok_def)
qed

lemma alloc_step:
  assumes h: "hrep h xs" "src h (span xs)" "live_ok h xs live" and al: "al = 2 ^ k"
  shows "\<exists>h' p ys. alloc_with grow h sz al = Some (h', p) \<and> hrep h' ys \<and> src h' (span ys)
    \<and> live_ok h' ys (if p = 0 then live else (p, sz, al) # live)"
proof (cases "al \<le> HEAP_ALIGN")
  case True
  have d: "al dvd 16"
  proof (cases "k \<le> 4")
    case True
    then show ?thesis using le_imp_power_dvd [of k 4 "2 :: nat"] al by simp
  next
    case False
    then have "(2 :: nat) ^ 5 \<le> 2 ^ k" by (intro power_increasing) auto
    with \<open>al \<le> HEAP_ALIGN\<close> al show ?thesis by (simp add: HEAP_ALIGN_def)
  qed
  show ?thesis
  proof (rule malloc_ok [OF h(1,2), of sz])
    fix h' zs b s
    assume r: "malloc_with grow h sz = Some (h', b + HEADER)" "stash h' = stash h" "hrep h' zs" "src h' (span zs)"
      "(b, s, False) \<in> set zs" "sz \<le> s" "\<And>c t. (c, t, False) \<in> set xs \<Longrightarrow> (c, t, False) \<in> set zs \<and> c \<noteq> b"
    have raw: "raw_of h' (b + HEADER, sz, al) = b + HEADER" using True by (simp add: raw_of_def)
    have "16 dvd b" using hrepD(4) [OF r(3,5)] by (simp add: block_ok_def)
    then have "16 dvd b + HEADER" by (simp add: HEADER_def)
    then have "entry_ok h' zs (b + HEADER, sz, al)" using True r(5,6) d raw by (auto simp: entry_ok_def intro: dvd_trans)
    from live_add [OF h(1,3) r(3,5,7) _ this raw] r(2) have "live_ok h' zs ((b + HEADER, sz, al) # live)" by blast
    with True r show ?thesis by (auto simp: alloc_with_def HEADER_def)
  next
    fix h' assume "malloc_with grow h sz = Some (h', 0)" "stash h' = stash h" "hrep h' xs" "src h' (span xs)"
    with True live_keep [OF h(3), of xs h'] show ?thesis by (auto simp: alloc_with_def)
  qed
next
  case False
  have d: "16 dvd al" "0 < al"
  proof -
    have "4 \<le> k" using False al power_increasing [of k 4 "2 :: nat"] by (cases "4 \<le> k") (auto simp: HEAP_ALIGN_def)
    then show "16 dvd al" using le_imp_power_dvd [of 4 k "2 :: nat"] al by simp
  qed (simp add: al)
  show ?thesis
  proof (rule malloc_ok [OF h(1,2), of "sz + al"])
    fix h' zs b s
    assume r: "malloc_with grow h (sz + al) = Some (h', b + HEADER)" "stash h' = stash h" "hrep h' zs" "src h' (span zs)"
      "(b, s, False) \<in> set zs" "sz + al \<le> s" "\<And>c t. (c, t, False) \<in> set xs \<Longrightarrow> (c, t, False) \<in> set zs \<and> c \<noteq> b"
    let ?raw = "b + HEADER"
    have "16 dvd ?raw" using hrepD(4) [OF r(3,5)] by (simp add: block_ok_def HEADER_def)
    note i = aligned_inside [OF this d]
    define p where "p = align_up (?raw + 8) al"
    let ?h = "h'\<lparr>stash := (stash h')(p - 8 \<mapsto> ?raw)\<rparr>"
    have p: "al dvd p" "?raw + 8 \<le> p" "p \<le> ?raw + al" using i by (simp_all add: p_def)
    have run: "alloc_with grow h sz al = Some (?h, p)" "p \<noteq> 0" using False r(1) p(2) by (auto simp: alloc_with_def p_def Let_def HEADER_def)
    have rep: "hrep ?h zs" using r(3) by (simp add: hrep_def)
    have raw: "raw_of ?h (p, sz, al) = ?raw" using False by (simp add: raw_of_def)
    have "entry_ok ?h zs (p, sz, al)" using False p r(5,6) raw by (auto simp: entry_ok_def intro!: exI [of _ s])
    moreover have "p - 8 \<in> ext (b, s, False)" using p r(6) d(2) by (auto simp: ext_def)
    ultimately have "live_ok ?h zs ((p, sz, al) # live)" using live_add [OF h(1,3) rep r(5,7), of p sz al] raw r(2) by simp
    with run rep src_more [OF r(4), of ?h] show ?thesis by (intro exI [of _ ?h] exI [of _ p] exI [of _ zs]) simp
  next
    fix h' assume "malloc_with grow h (sz + al) = Some (h', 0)" "stash h' = stash h" "hrep h' xs" "src h' (span xs)"
    with False live_keep [OF h(3), of xs h'] show ?thesis by (auto simp: alloc_with_def)
  qed
qed

lemma dealloc_step:
  assumes h: "hrep h xs" "src h (span xs)" "live_ok h xs live" and e: "(p, sz, al) \<in> set live"
  shows "\<exists>h' ys. dealloc h p al = Some h' \<and> hrep h' ys \<and> src h' (span ys)
    \<and> live_ok h' ys (remove1 (p, sz, al) live)"
proof -
  let ?e = "(p, sz, al)"
  have ok: "entry_ok h xs ?e" using h(3) e by (simp add: live_ok_def)
  define b where "b = raw_of h ?e - HEADER"
  obtain s where s: "(b, s, False) \<in> set xs" "raw_of h ?e = b + HEADER"
    using ok unfolding entry_ok_def b_def by (auto simp: Let_def)
  then obtain as cs where xs: "xs = as @ (b, s, False) # cs" by (meson split_list)
  from heap_free_ok [OF h(1) [unfolded xs]] obtain h' where h': "heap_free h (b + HEADER) = Some h'"
    "hrep h' (as @ release b s cs)" "stash h' = stash h" "heap.more h' = heap.more h" by blast
  have run: "dealloc h p al = Some h'"
    using h'(1) s(2) ok unfolding dealloc_def entry_ok_def by (auto simp: raw_of_def Let_def split: if_splits)
  have sp: "span (as @ release b s cs) = span xs" by (simp add: xs span_append span_Cons release_span [of b s cs False])
  have keep: "(c, t, False) \<in> set (as @ release b s cs)" if "(c, t, False) \<in> set xs" "c \<noteq> b" for c t
    using that by (auto simp: xs release_def split: list.splits)
  have dist: "distinct (map (raw_of h) live)" using h(3) by (simp add: live_ok_def)
  have "entry_ok h' (as @ release b s cs) x \<and> raw_of h' x = raw_of h x" if "x \<in> set (remove1 ?e live)" for x
  proof -
    have x: "x \<in> set live" using that set_remove1_subset by fast
    have "x \<noteq> ?e" using that dist by (auto simp: distinct_map set_remove1_eq)
    then have ne: "raw_of h x \<noteq> b + HEADER" using dist x e s(2) by (auto simp: distinct_map inj_on_def)
    obtain p' sz' al' where xx: "x = (p', sz', al')" by (cases x)
    have okx: "entry_ok h xs x" using h(3) x by (simp add: live_ok_def)
    then obtain t where t: "(raw_of h x - HEADER, t, False) \<in> set xs" "HEADER \<le> raw_of h x" "p' + sz' \<le> raw_of h x + t"
      by (auto simp: entry_ok_def xx Let_def)
    have "raw_of h x - HEADER \<noteq> b" using ne t(2) by linarith
    have "entry_ok h [(raw_of h x - HEADER, t, False)] x" using okx t unfolding entry_ok_def xx by (auto simp: Let_def)
    from entry_keep [OF this, of "as @ release b s cs" h'] keep [OF t(1)] \<open>raw_of h x - HEADER \<noteq> b\<close> h'(3)
    show ?thesis by auto
  qed
  moreover have "distinct (map (raw_of h) (remove1 ?e live))" using dist by (metis distinct_map distinct_remove1 inj_on_subset set_remove1_subset)
  ultimately have "live_ok h' (as @ release b s cs) (remove1 ?e live)" by (simp add: live_ok_def cong: map_cong)
  with run h'(2) sp src_more [OF h(2) h'(4)] show ?thesis by auto
qed

definition heap_ok :: "'s heap_scheme \<times> live \<Rightarrow> bool" where
  "heap_ok = (\<lambda>(h, live). \<exists>xs. hrep h xs \<and> src h (span xs) \<and> live_ok h xs live)"

lemma heap_exec_safe:
  assumes "heap_ok s" "heap_valid s op"
  shows "\<exists>r s'. heap_exec grow op s = Some (r, s') \<and> heap_ok s'"
proof -
  obtain h live where s: "s = (h, live)" by (cases s)
  from assms(1) obtain xs where xs: "hrep h xs" "src h (span xs)" "live_ok h xs live" by (auto simp: heap_ok_def s)
  show ?thesis
  proof (cases op)
    case (Alloc sz al)
    with assms(2) obtain k where "al = 2 ^ k" by (auto simp: s)
    from alloc_step [OF xs this, of sz] obtain h' p ys where r: "alloc_with grow h sz al = Some (h', p)"
      "hrep h' ys" "src h' (span ys)" "live_ok h' ys (if p = 0 then live else (p, sz, al) # live)" by blast
    then have "heap_exec grow op s = Some (p, h', if p = 0 then live else (p, sz, al) # live)" using Alloc by (simp add: s)
    moreover have "heap_ok (h', if p = 0 then live else (p, sz, al) # live)" using r(2-4) by (auto simp: heap_ok_def)
    ultimately show ?thesis by blast
  next
    case (Dealloc p sz al)
    with assms(2) have "(p, sz, al) \<in> set live" by (simp add: s)
    from dealloc_step [OF xs this] Dealloc show ?thesis by (auto simp: s heap_ok_def)
  qed
qed

end

sublocale heap_source \<subseteq> machine heap_ok heap_valid "heap_exec grow"
  by unfold_locales (rule heap_exec_safe)

context heap_source
begin

lemma heap_trace:
  assumes "hrep h []" "src h {}"
  shows "\<exists>h' live. run_trace heap_valid (heap_exec grow) ops (h, []) = Some (h', live) \<and> aligned_apart live"
proof -
  have "heap_ok (h, [])" using assms unfolding heap_ok_def by (auto simp: span_Nil live_ok_def intro!: exI [of _ "[]"])
  from trace_safe [OF this, of ops] obtain h' live where
    r: "run_trace heap_valid (heap_exec grow) ops (h, []) = Some (h', live)" "heap_ok (h', live)" by (metis surj_pair)
  then show ?thesis using live_aligned_apart by (auto simp: heap_ok_def)
qed

end

section \<open>The kernel heap grows from the page allocator\<close>

text \<open>Every page under the heap is allocated, seen through the direct map.\<close>

definition k_src :: "kheap \<Rightarrow> nat set \<Rightarrow> bool" where
  "k_src h S \<longleftrightarrow> pmm_inv (kpmm h) \<and> 16 dvd hhdm h \<and>
     (\<forall>a \<in> S. hhdm h \<le> a \<and> (a - hhdm h) div PAGE_SIZE \<notin> free_set (kpmm h))"

lemma k_grow_ok:
  assumes h: "hrep h xs" "k_src h (span xs)" and n: "16 dvd n"
  shows "\<exists>h' b. k_grow h n = Some (h', b) \<and> stash h' = stash h \<and>
      (b = 0 \<and> hrep h' xs \<and> k_src h' (span xs)
       \<or> (\<exists>s. n \<le> s \<and> b \<noteq> 0 \<and> hrep h' (xs @ [(b, s, True)]) \<and> k_src h' (span (xs @ [(b, s, True)]))))"
proof -
  let ?pages = "div_ceil (HEADER + n) PAGE_SIZE"
  have wf: "pmm_wf (kpmm h)" "pmm_inv (kpmm h)" using h(2) by (auto simp: k_src_def pmm_inv_def)
  have big: "HEADER + n \<le> ?pages * PAGE_SIZE" by (rule div_ceil_ge) (simp add: PAGE_SIZE_def)
  then have "0 < ?pages" by (cases ?pages) (auto simp: HEADER_def)
  from alloc_pages_cases [OF wf(1) this] show ?thesis
  proof (elim disjE exE conjE)
    fix s assume s: "run_free (kpmm h) s ?pages" "alloc_pages (kpmm h) ?pages = (s * PAGE_SIZE, take_run (kpmm h) s ?pages)"
    let ?h = "h\<lparr>kpmm := take_run (kpmm h) s ?pages\<rparr>" and ?b = "s * PAGE_SIZE + hhdm h" and ?s = "?pages * PAGE_SIZE - HEADER"
    have free: "\<forall>i \<in> {s..<s + ?pages}. i \<in> free_set (kpmm h)" using s(1) by (auto simp: run_free_def)
    have s0: "0 < s" using free pmm_inv_zero [OF wf(2)] \<open>0 < ?pages\<close> by (cases s) auto
    have inv: "pmm_inv (take_run (kpmm h) s ?pages)" "free_set (take_run (kpmm h) s ?pages) = free_set (kpmm h) - {s..<s + ?pages}"
      using take_run_wf [OF wf(1) s(1)] wf(2) by (auto simp: pmm_inv_def)
    have page: "(a - hhdm h) div PAGE_SIZE \<in> {s..<s + ?pages}" "hhdm h \<le> a" if "a \<in> ext (?b, ?s, True)" for a
    proof -
      have a: "s * PAGE_SIZE \<le> a - hhdm h" "a - hhdm h < (s + ?pages) * PAGE_SIZE" "hhdm h \<le> a"
        using that big by (auto simp: ext_def add_mult_distrib)
      then show "(a - hhdm h) div PAGE_SIZE \<in> {s..<s + ?pages}" "hhdm h \<le> a"
        by (auto simp: PAGE_SIZE_def less_mult_imp_div_less le_div_geq div_le_mono less_eq_div_iff_mult_less_eq)
    qed
    have dis: "ext (?b, ?s, True) \<inter> span xs = {}"
      using page(1) free h(2) by (auto simp: k_src_def)
    have ok: "block_ok (?b, ?s, True)"
      using s0 h(2) by (auto simp: block_ok_def k_src_def PAGE_SIZE_def HEADER_def intro!: dvd_diff_nat)
    have "hrep ?h xs" using h(1) by (simp add: hrep_def)
    from append_block_ok [OF this ok dis] obtain h' where h': "append_block ?h ?b ?s = Some h'"
      "hrep h' (xs @ [(?b, ?s, True)])" "stash h' = stash h" "heap.more h' = heap.more ?h" by auto
    have "k_grow h n = Some (h', ?b)" using s(2) s0 h'(1) by (simp add: k_grow_def Let_def PAGE_SIZE_def)
    moreover have "kpmm h' = kpmm ?h" "hhdm h' = hhdm h" using h'(4) by (cases h'; cases h; simp)+
    then have "k_src h' (span (xs @ [(?b, ?s, True)]))"
      using h(2) inv page by (auto simp: k_src_def span_append span_Cons span_Nil)
    moreover have "n \<le> ?s" using big by simp
    ultimately show ?thesis using h' s0 by (intro exI [of _ h'] exI [of _ ?b]) (auto simp: PAGE_SIZE_def)
  next
    assume "alloc_pages (kpmm h) ?pages = (0, kpmm h)"
    then have "k_grow h n = Some (h, 0)" by (simp add: k_grow_def Let_def)
    with h show ?thesis by blast
  qed
qed

lemma k_src_more: "k_src h S \<Longrightarrow> heap.more h' = heap.more h \<Longrightarrow> k_src h' S"
  by (cases h'; cases h) (simp add: k_src_def)

interpretation kernel_heap: heap_source k_grow k_src
  by unfold_locales (rule k_grow_ok, assumption+, erule k_src_more)

section \<open>The user heap grows with the program break\<close>

definition u_src :: "'k uheap \<Rightarrow> nat set \<Rightarrow> bool" where
  "u_src h S \<longleftrightarrow> 16 dvd ubrk h \<and> (\<forall>a \<in> S. a < ubrk h)"

lemma u_src_more: "u_src h S \<Longrightarrow> heap.more h' = heap.more h \<Longrightarrow> u_src h' S"
  by (cases h'; cases h) (simp add: u_src_def)

lemma u_grow_ok:
  assumes brk: "\<forall>k. 0 < snd (sys_brk k 0) \<and> snd (sys_brk k 0) < 2 ^ 63"
    and h: "hrep h xs" "u_src h (span xs)" and n: "16 dvd n"
  shows "\<exists>h' b. u_grow sys_brk h n = Some (h', b) \<and> stash h' = stash h \<and>
      (b = 0 \<and> hrep h' xs \<and> u_src h' (span xs)
       \<or> (\<exists>s. n \<le> s \<and> b \<noteq> 0 \<and> hrep h' (xs @ [(b, s, True)]) \<and> u_src h' (span (xs @ [(b, s, True)]))))"
proof -
  define g where "g = u_start sys_brk h"
  have g: "hrep g xs" "stash g = stash h" "u_src g (span xs)" "0 < ubrk g"
  proof -
    show "hrep g xs" "stash g = stash h" using h(1) by (auto simp: g_def u_start_def hrep_def split: prod.splits)
    have "0 < as_usize r \<and> as_usize r < 2 ^ 63" if "0 < r" "r < 2 ^ 63" for r
      using that by (simp add: as_usize_def)
    then have "0 < as_usize (snd (sys_brk (kern h) 0))" using brk by blast
    then have up: "0 < align_up (as_usize (snd (sys_brk (kern h) 0))) HEAP_ALIGN"
      using align_up_bounds(2) [of HEAP_ALIGN "as_usize (snd (sys_brk (kern h) 0))"] by (simp add: HEAP_ALIGN_def)
    have d: "16 dvd align_up m HEAP_ALIGN" for m using align_up_bounds(1) [of HEAP_ALIGN m] by (simp add: HEAP_ALIGN_def)
    show "0 < ubrk g" using up by (auto simp: g_def u_start_def split: prod.splits)
    show "u_src g (span xs)" using h(2) d by (auto simp: g_def u_start_def u_src_def split: prod.splits)
  qed
  define gr where "gr = align_up (HEADER + n) GROW_CHUNK"
  have gr: "HEADER + n \<le> gr" "16 dvd gr"
    using align_up_bounds [of GROW_CHUNK "HEADER + n"] by (auto simp: gr_def GROW_CHUNK_def intro: dvd_trans [of 16 4096])
  let ?e = "ubrk g + gr"
  obtain k r where kr: "sys_brk (kern g) ?e = (k, r)" by (cases "sys_brk (kern g) ?e")
  have run: "u_grow sys_brk h n = (if r \<noteq> as_i64 ?e then Some (g\<lparr>kern := k\<rparr>, 0)
      else map_option (\<lambda>h. (h, ubrk g)) (append_block (g\<lparr>kern := k, ubrk := ?e\<rparr>) (ubrk g) (gr - HEADER)))"
    by (simp add: u_grow_def g_def [symmetric] gr_def [symmetric] Let_def kr)
  show ?thesis
  proof (cases "r = as_i64 ?e")
    case False
    have "hrep (g\<lparr>kern := k\<rparr>) xs" "u_src (g\<lparr>kern := k\<rparr>) (span xs)" using g by (simp_all add: hrep_def u_src_def)
    with False run g(2) show ?thesis by simp
  next
    case True
    let ?h = "g\<lparr>kern := k, ubrk := ?e\<rparr>" and ?b = "ubrk g" and ?s = "gr - HEADER"
    have ok: "block_ok (?b, ?s, True)" using g(3,4) gr by (auto simp: block_ok_def u_src_def HEADER_def intro!: dvd_diff_nat)
    have dis: "ext (?b, ?s, True) \<inter> span xs = {}" using g(3) by (auto simp: ext_def u_src_def)
    have "hrep ?h xs" using g(1) by (simp add: hrep_def)
    from append_block_ok [OF this ok dis] obtain h' where h': "append_block ?h ?b ?s = Some h'"
      "hrep h' (xs @ [(?b, ?s, True)])" "stash h' = stash g" "heap.more h' = heap.more ?h" by auto
    have "ubrk h' = ?e" using h'(4) by (cases h'; cases g; simp)
    then have "u_src h' (span (xs @ [(?b, ?s, True)]))"
      using g(3) gr by (auto simp: u_src_def span_append span_Cons span_Nil ext_def)
    moreover have "n \<le> ?s" using gr(1) by simp
    ultimately show ?thesis using True run h' g(2,4) by (intro exI [of _ h'] exI [of _ ?b]) auto
  qed
qed

lemma user_heap_source:
  assumes "\<forall>k. 0 < snd (sys_brk k 0) \<and> snd (sys_brk k 0) < 2 ^ 63"
  shows "heap_source (u_grow sys_brk) u_src"
  by unfold_locales (rule u_grow_ok [of sys_brk, OF assms], assumption+, erule u_src_more)

section \<open>Properties\<close>

definition k_init :: "pmm \<Rightarrow> nat \<Rightarrow> kheap" where
  "k_init p off = \<lparr>head = 0, tail = 0, blocks = Map.empty, stash = Map.empty, kpmm = p, hhdm = off\<rparr>"

text \<open>
  C22: the kernel allocator is memory-safe. On any page allocator, every sequence of allocations
  (any size, any power-of-two alignment) and deallocations of live pointers runs without following
  a wild block pointer, and the pointers handed out and not yet freed are aligned as asked and
  their memory pairwise disjoint.
\<close>

theorem kernel_heap_safe:
  assumes "pmm_inv p" "16 dvd off"
  shows "\<exists>h live. run_trace heap_valid (heap_exec k_grow) ops (k_init p off, []) = Some (h, live) \<and> aligned_apart live"
  by (rule kernel_heap.heap_trace) (use assms in \<open>auto simp: hrep_def k_init_def k_src_def\<close>)

theorem kernel_heap_safe_witness:
  "\<exists>h live. run_trace heap_valid (heap_exec k_grow) [Alloc 100 8, Alloc 10 64, Alloc 5000 16] (k_init demo_pmm 0xFFFF800000000000, []) = Some (h, live) \<and> aligned_apart live"
  by (rule kernel_heap_safe [OF demo_pmm_inv(1)]) simp

text \<open>
  C23: the same of the user-space allocator, whatever the kernel answers to the calls that move
  the break, as long as asking for the current break gives an address.
\<close>

theorem user_heap_safe:
  assumes "\<forall>k. 0 < snd (sys_brk k 0) \<and> snd (sys_brk k 0) < 2 ^ 63"
  shows "\<exists>h live. run_trace heap_valid (heap_exec (u_grow sys_brk)) ops (u_init k, []) = Some (h, live) \<and> aligned_apart live"
  by (rule heap_source.heap_trace [OF user_heap_source [of sys_brk, OF assms]]) (auto simp: hrep_def u_init_def u_src_def)

text \<open>A kernel that grants every break up to a limit.\<close>

definition demo_brk :: "nat \<Rightarrow> nat \<Rightarrow> nat \<times> int" where
  "demo_brk cur e = (if e = 0 \<or> e > 0x500000 then (cur, int 0x400000) else (e, int e))"

theorem user_heap_safe_witness:
  "\<exists>h live. run_trace heap_valid (heap_exec (u_grow demo_brk)) [Alloc 24 8, Alloc 300 256, Alloc 0x200000 8] (u_init 0x400000, []) = Some (h, live)
     \<and> aligned_apart live"
  by (rule user_heap_safe) (simp add: demo_brk_def)

text \<open>Why \<^verbatim>\<open>malloc\<close> fails.\<close>

lemma malloc_null:
  assumes "hrep h xs" "k_src h (span xs)" "malloc_with k_grow h req = Some (h', 0)"
  shows "(\<forall>(b, s, f) \<in> set xs. f \<longrightarrow> s < align_up (max req 1) HEAP_ALIGN)
    \<and> (\<forall>s. \<not> run_free (kpmm h) s (div_ceil (HEADER + align_up (max req 1) HEAP_ALIGN) PAGE_SIZE)) \<and> h' = h"
proof -
  let ?n = "align_up (max req 1) HEAP_ALIGN"
  let ?pages = "div_ceil (HEADER + ?n) PAGE_SIZE"
  have "HEADER + ?n \<le> ?pages * PAGE_SIZE" by (rule div_ceil_ge) (simp add: PAGE_SIZE_def)
  then have pos: "0 < ?pages" by (cases ?pages) (auto simp: HEADER_def)
  note none = assms(3)
  have fit: "\<forall>(a, t, f) \<in> set xs. \<not> (f \<and> ?n \<le> t)"
  proof (rule kernel_heap.malloc_cases [OF assms(1,2), of req])
  qed (use none in \<open>auto simp: HEADER_def\<close>)
  with find_fit_reps [of "blocks h" xs ?n] hrepD [OF assms(1)]
  have "find_fit (blocks h) (head h) ?n = Some 0" by (fastforce simp: block_ok_def)
  moreover obtain h1 b where g: "k_grow h ?n = Some (h1, b)"
    using k_grow_ok [OF assms(1,2), of ?n] align_up_bounds(1) [of HEAP_ALIGN "max req 1"] by (auto simp: HEAP_ALIGN_def)
  ultimately have b: "b = 0" "h1 = h'" using none
    by (auto simp: malloc_with_def Let_def HEADER_def split: option.splits if_splits bind_splits)
  have wf: "pmm_wf (kpmm h)" "pmm_inv (kpmm h)" using assms(2) by (auto simp: k_src_def pmm_inv_def)
  from alloc_pages_cases [OF wf(1) pos] have "(\<forall>s. \<not> run_free (kpmm h) s ?pages) \<and> h' = h"
  proof (elim disjE exE conjE)
    fix s assume s: "run_free (kpmm h) s ?pages" "alloc_pages (kpmm h) ?pages = (s * PAGE_SIZE, take_run (kpmm h) s ?pages)"
    have "s \<noteq> 0" using s(1) pos pmm_inv_zero [OF wf(2)] by (cases s) (auto simp: run_free_def)
    then show ?thesis using g b(1) s(2) by (auto simp: k_grow_def Let_def PAGE_SIZE_def)
  next
    assume "\<forall>s. \<not> run_free (kpmm h) s ?pages" "alloc_pages (kpmm h) ?pages = (0, kpmm h)"
    then show ?thesis using g b by (simp add: k_grow_def Let_def)
  qed
  with fit show ?thesis by fastforce
qed

text \<open>
  C24: the kernel allocator fails only when memory has run out. When \<^verbatim>\<open>malloc\<close> returns null, no free
  block is large enough for the rounded request and the page allocator has no run of free pages
  that would hold it and its header; nothing else changes.
\<close>

theorem kernel_malloc_null:
  assumes "hrep h xs" "k_src h (span xs)" "malloc_with k_grow h req = Some (h', 0)"
  shows "(\<forall>(b, s, f) \<in> set xs. f \<longrightarrow> s < align_up (max req 1) HEAP_ALIGN)
    \<and> (\<forall>s. \<not> run_free (kpmm h) s (div_ceil (HEADER + align_up (max req 1) HEAP_ALIGN) PAGE_SIZE)) \<and> h' = h"
  by (rule malloc_null [OF assms])

theorem kernel_malloc_null_witness:
  "malloc_with k_grow (k_init demo_pmm 0) 100000 = Some (k_init demo_pmm 0, 0)
    \<and> (\<forall>s. \<not> run_free (kpmm (k_init demo_pmm 0)) s (div_ceil (HEADER + align_up (max 100000 1) HEAP_ALIGN) PAGE_SIZE))"
proof -
  have "alloc_pages demo_pmm 25 = (0, demo_pmm)" by (simp add: alloc_pages_def demo_pmm_def)
  then have m: "malloc_with k_grow (k_init demo_pmm 0) 100000 = Some (k_init demo_pmm 0, 0)"
    by (simp add: malloc_with_def k_grow_def k_init_def find_fit.simps align_up_def HEAP_ALIGN_def HEADER_def PAGE_SIZE_def div_ceil_def)
  moreover have "hrep (k_init demo_pmm 0) []" by (simp add: hrep_def k_init_def)
  moreover have "k_src (k_init demo_pmm 0) (span [])" using demo_pmm_inv(1) by (simp add: k_src_def k_init_def span_def)
  ultimately show ?thesis using kernel_malloc_null [of "k_init demo_pmm 0" "[]" 100000 "k_init demo_pmm 0"] by blast
qed

end
