(* ===== verification/Process.thy ===== *)
theory Process
  imports Pipe VfsProps
begin

text \<open>
  The process table and the round-robin scheduler, \<^verbatim>\<open>kernel/src/exec/process.rs\<close>, on the task state
  of \<^verbatim>\<open>exec/mod.rs\<close> and the terminal settings of \<^verbatim>\<open>drivers/tty.rs\<close>.

  The record \<open>kernel\<close> is the kernel state the table, the system calls and the scheduler share: the
  file system, the pipes behind their pointers, the process table, and what the devices give. A
  vnode or a pipe is its address. A task's memory is a map from user addresses to bytes, undefined
  where no page is mapped. The page tables and the kernel stacks are named by their addresses:
  creating, cloning and loading one are arguments (the answers of \<^verbatim>\<open>vmm\<close> and \<^verbatim>\<open>elf\<close>), and the
  calls that free one are logged in order. The saved registers and the FPU state of a task are left
  out. As in theory \<open>Vfs\<close>, \<open>None\<close> is a followed dangling pointer or a loop that does not end.
\<close>

section \<open>Terminal settings\<close>

definition NCCS :: nat where "NCCS = 19"

record termios =
  c_iflag :: u32
  c_oflag :: u32
  c_cflag :: u32
  c_lflag :: u32
  c_line :: u8
  c_cc :: bytes

definition ICANON :: u32 where "ICANON = 0x0002"
definition ECHO :: u32 where "ECHO = 0x0008"
definition VMIN :: nat where "VMIN = 6"
definition VTIME :: nat where "VTIME = 5"

definition termios_zero :: termios where
  "termios_zero = \<lparr>c_iflag = 0, c_oflag = 0, c_cflag = 0, c_lflag = 0, c_line = 0, c_cc = replicate NCCS 0\<rparr>"

definition default_console :: termios where
  "default_console =
     (let t = termios_zero\<lparr>c_lflag := ICANON OR ECHO\<rparr>
      in t\<lparr>c_cc := (c_cc t)[VMIN := 1, VTIME := 0]\<rparr>)"

record winsize =
  ws_row :: u16
  ws_col :: u16
  ws_xpixel :: u16
  ws_ypixel :: u16

definition winsize_zero :: winsize where
  "winsize_zero = \<lparr>ws_row = 0, ws_col = 0, ws_xpixel = 0, ws_ypixel = 0\<rparr>"

section \<open>Tasks and processes\<close>

definition MAX_OPEN_FILES :: nat where "MAX_OPEN_FILES = 8"

datatype open_file = OFree | OFile (ofile: nat) (opos: nat) (owritable: bool) | OPipe (opipe: nat) (owrite_end: bool)

record usertask =
  entry :: nat
  user_stack_top :: nat
  kernel_stack_top :: nat
  pml4_phys :: nat
  umem :: "nat \<Rightarrow> u8 option"
  heap_start :: nat
  heap_end :: nat
  open_files :: "open_file list"
  tcwd :: nat
  stdin_pipe :: "nat option"
  stdout_pipe :: "nat option"
  termios_of :: termios
  winsize_of :: winsize

text \<open>The null working directory of an empty slot is \<open>0\<close>: nothing reads it there.\<close>

definition usertask_empty :: usertask where
  "usertask_empty = \<lparr>entry = 0, user_stack_top = 0, kernel_stack_top = 0, pml4_phys = 0, umem = Map.empty,
     heap_start = 0, heap_end = 0, open_files = replicate MAX_OPEN_FILES OFree, tcwd = 0, stdin_pipe = None, stdout_pipe = None,
     termios_of = termios_zero, winsize_of = winsize_zero\<rparr>"

definition MAX_PROCESSES :: nat where "MAX_PROCESSES = 16"

definition KERNEL_PARENT_PID :: int where "KERNEL_PARENT_PID = -1"

datatype pstate = Unused | Runnable | Running | Zombie

record process =
  pid :: int
  parent_pid :: int
  pstate :: pstate
  exit_status :: int
  has_run :: bool
  saved_rsp :: nat
  task :: usertask
  pending_free_as :: "nat option"
  pending_free_kstack :: "nat option"

definition process_empty :: process where
  "process_empty = \<lparr>pid = 0, parent_pid = 0, pstate = Unused, exit_status = 0, has_run = False, saved_rsp = 0,
     task = usertask_empty, pending_free_as = None, pending_free_kstack = None\<rparr>"

section \<open>The kernel state\<close>

text \<open>
  \<open>poll_at\<close> is what the \<open>n\<close>-th poll of the keyboards gives, and \<open>polls\<close> counts the polls so far;
  \<open>console\<close> is what was printed; \<open>heap_has\<close> tells for a size that comes from a program whether the kernel heap can
  hold a buffer of it; \<open>halted\<close> is set by a Rust panic, after which nothing runs.
\<close>

record kernel =
  kfs :: vfs
  kpipes :: pipe_store
  next_pipe :: nat
  procs :: "process list"
  next_pid :: int
  current :: "nat option"
  last_picked :: nat
  freed_spaces :: "nat list"
  freed_kstacks :: "nat list"
  poll_at :: "nat \<Rightarrow> u8 option"
  polls :: nat
  console :: bytes
  console_size :: "(nat \<times> nat) option"
  uptime_ms :: nat
  heap_has :: "nat \<Rightarrow> bool"
  halted :: bool

definition table_init :: "vfs \<Rightarrow> (nat \<Rightarrow> u8 option) \<Rightarrow> (nat \<Rightarrow> bool) \<Rightarrow> kernel" where
  "table_init fs inp heap = \<lparr>kfs = fs, kpipes = Map.empty, next_pipe = 0, procs = replicate MAX_PROCESSES process_empty, next_pid = 1,
     current = None, last_picked = MAX_PROCESSES - 1, freed_spaces = [], freed_kstacks = [], poll_at = inp, polls = 0,
     console = [], console_size = None, uptime_ms = 0, heap_has = heap, halted = False\<rparr>"

definition slot :: "kernel \<Rightarrow> nat \<Rightarrow> process" where
  "slot k i = procs k ! i"

definition set_slot :: "nat \<Rightarrow> process \<Rightarrow> kernel \<Rightarrow> kernel" where
  "set_slot i p k = k\<lparr>procs := (procs k)[i := p]\<rparr>"

text \<open>\<^verbatim>\<open>Iterator::position\<close>.\<close>

definition position :: "('a \<Rightarrow> bool) \<Rightarrow> 'a list \<Rightarrow> nat option" where
  "position P xs = find (\<lambda>i. P (xs ! i)) [0..<length xs]"

definition by_pid :: "kernel \<Rightarrow> int \<Rightarrow> nat option" where
  "by_pid k n = position (\<lambda>p. pstate p \<noteq> Unused \<and> pid p = n) (procs k)"

text \<open>The walk up from a working directory is the loop of \<open>is_ancestor_or_self\<close>.\<close>

fun any_within :: "vheap \<Rightarrow> nat \<Rightarrow> process list \<Rightarrow> bool option" where
  "any_within h dir [] = Some False"
| "any_within h dir (p # ps) =
     (if pstate p = Unused then any_within h dir ps
      else do { w \<leftarrow> is_ancestor_or_self h dir (Some (tcwd (task p))); if w then Some True else any_within h dir ps })"

definition cwd_within :: "kernel \<Rightarrow> nat \<Rightarrow> bool option" where
  "cwd_within k dir = any_within (nodes (kfs k)) dir (procs k)"

definition find_child_of :: "kernel \<Rightarrow> int \<Rightarrow> int option \<Rightarrow> nat option" where
  "find_child_of k parent n =
     (let is_child = (\<lambda>p. pstate p \<noteq> Unused \<and> parent_pid p = parent)
      in case n of
           Some n \<Rightarrow> (case by_pid k n of None \<Rightarrow> None | Some i \<Rightarrow> if parent_pid (slot k i) = parent then Some i else None)
         | None \<Rightarrow> (case position (\<lambda>p. is_child p \<and> pstate p = Zombie) (procs k) of
               Some i \<Rightarrow> Some i | None \<Rightarrow> position is_child (procs k)))"

definition alloc_slot :: "kernel \<Rightarrow> nat option" where
  "alloc_slot k = position (\<lambda>p. pstate p = Unused) (procs k)"

definition take_pid :: "kernel \<Rightarrow> int \<times> kernel" where
  "take_pid k = (next_pid k, k\<lparr>next_pid := next_pid k + 1\<rparr>)"

section \<open>Life of a process\<close>

text \<open>\<open>loaded\<close> is the answer of the ELF loader.\<close>

definition spawn :: "kernel \<Rightarrow> usertask option \<Rightarrow> int \<Rightarrow> int option \<times> kernel" where
  "spawn k loaded parent =
     (case alloc_slot k of None \<Rightarrow> (None, k)
      | Some i \<Rightarrow> (case loaded of None \<Rightarrow> (None, k)
          | Some t \<Rightarrow> let (n, k) = take_pid k
                      in (Some n, set_slot i (process_empty\<lparr>pid := n, parent_pid := parent, pstate := Runnable, task := t\<rparr>) k)))"

definition close_stdio_pipes :: "nat \<Rightarrow> kernel \<Rightarrow> kernel option" where
  "close_stdio_pipes i k = do {
     let p = slot k i;
     k \<leftarrow> (case stdin_pipe (task p) of None \<Rightarrow> Some k
            | Some q \<Rightarrow> do { st \<leftarrow> close_read (kpipes k) q;
                Some (set_slot i (p\<lparr>task := (task p)\<lparr>stdin_pipe := None\<rparr>\<rparr>) (k\<lparr>kpipes := st\<rparr>)) });
     let p = slot k i;
     case stdout_pipe (task p) of None \<Rightarrow> Some k
     | Some q \<Rightarrow> do { st \<leftarrow> close_write (kpipes k) q;
         Some (set_slot i (p\<lparr>task := (task p)\<lparr>stdout_pipe := None\<rparr>\<rparr>) (k\<lparr>kpipes := st\<rparr>)) } }"

definition add_read :: "nat \<Rightarrow> pipe_store \<Rightarrow> pipe_store option" where
  "add_read q st = do { p \<leftarrow> st q; Some (st(q \<mapsto> p\<lparr>read_refs := read_refs p + 1\<rparr>)) }"

definition add_write :: "nat \<Rightarrow> pipe_store \<Rightarrow> pipe_store option" where
  "add_write q st = do { p \<leftarrow> st q; Some (st(q \<mapsto> p\<lparr>write_refs := write_refs p + 1\<rparr>)) }"

fun add_refs :: "open_file list \<Rightarrow> pipe_store \<Rightarrow> pipe_store option" where
  "add_refs [] st = Some st"
| "add_refs (OPipe q w # fs) st = do { st \<leftarrow> (if w then add_write q st else add_read q st); add_refs fs st }"
| "add_refs (_ # fs) st = add_refs fs st"

text \<open>\<open>space\<close> is the new address space and whether the pages could be cloned, \<open>kstack\<close> the new kernel stack.\<close>

definition fork :: "kernel \<Rightarrow> nat \<Rightarrow> nat \<times> bool \<Rightarrow> nat option \<Rightarrow> (int option \<times> kernel) option" where
  "fork k me space kstack =
     (case alloc_slot k of None \<Rightarrow> Some (None, k)
      | Some i \<Rightarrow> do {
          let parent = slot k me;
          let t = task parent;
          st \<leftarrow> add_refs (open_files t) (kpipes k);
          st \<leftarrow> (case stdin_pipe t of None \<Rightarrow> Some st | Some q \<Rightarrow> add_read q st);
          st \<leftarrow> (case stdout_pipe t of None \<Rightarrow> Some st | Some q \<Rightarrow> add_write q st);
          let k = k\<lparr>kpipes := st\<rparr>;
          let (pml4, cloned) = space;
          if \<not> cloned then Some (None, k\<lparr>freed_spaces := freed_spaces k @ [pml4]\<rparr>)
          else case kstack of
            None \<Rightarrow> Some (None, k\<lparr>freed_spaces := freed_spaces k @ [pml4]\<rparr>)
          | Some stk \<Rightarrow>
              let t = t\<lparr>pml4_phys := pml4, kernel_stack_top := stk\<rparr>;
                  (n, k) = take_pid k
              in Some (Some n, set_slot i (process_empty\<lparr>pid := n, parent_pid := pid parent, pstate := Runnable,
                   has_run := True, saved_rsp := stk - 176, task := t\<rparr>) k) })"

definition exec :: "kernel \<Rightarrow> nat \<Rightarrow> usertask option \<Rightarrow> bool \<times> kernel" where
  "exec k i loaded =
     (let p = slot k i; old = task p
      in case loaded of None \<Rightarrow> (False, k)
         | Some t \<Rightarrow>
             let t = t\<lparr>open_files := open_files old, tcwd := tcwd old, termios_of := termios_of old, winsize_of := winsize_of old,
                      stdin_pipe := stdin_pipe old, stdout_pipe := stdout_pipe old\<rparr>
             in (True, set_slot i (p\<lparr>pending_free_as := Some (pml4_phys old), pending_free_kstack := Some (kernel_stack_top old),
                   task := t, has_run := False, pstate := Runnable\<rparr>) k))"

definition free_pending :: "nat \<Rightarrow> kernel \<Rightarrow> kernel" where
  "free_pending i k =
     (let p = slot k i
      in set_slot i (p\<lparr>pending_free_as := None, pending_free_kstack := None\<rparr>)
           (k\<lparr>freed_spaces := freed_spaces k @ (case pending_free_as p of None \<Rightarrow> [] | Some a \<Rightarrow> [a]),
              freed_kstacks := freed_kstacks k @ (case pending_free_kstack p of None \<Rightarrow> [] | Some a \<Rightarrow> [a])\<rparr>))"

definition reap :: "nat \<Rightarrow> kernel \<Rightarrow> kernel" where
  "reap i k =
     (let k = free_pending i k; p = slot k i
      in set_slot i (p\<lparr>pstate := Unused\<rparr>)
           (k\<lparr>freed_spaces := freed_spaces k @ [pml4_phys (task p)],
              freed_kstacks := freed_kstacks k @ [kernel_stack_top (task p)]\<rparr>))"

section \<open>The scheduler\<close>

definition pick_next_runnable :: "kernel \<Rightarrow> (nat \<times> kernel) option" where
  "pick_next_runnable k =
     (case find (\<lambda>i. pstate (slot k i) = Runnable) (map (\<lambda>j. (last_picked k + j) mod MAX_PROCESSES) [1..<MAX_PROCESSES + 1]) of
        None \<Rightarrow> None | Some i \<Rightarrow> Some (i, k\<lparr>last_picked := i\<rparr>))"

text \<open>The sweep of the \<^verbatim>\<open>wait_pid == None\<close> loop: reaps the zombies and tells whether anything is alive.\<close>

fun sweep :: "nat list \<Rightarrow> kernel \<Rightarrow> bool \<times> kernel" where
  "sweep [] k = (False, k)"
| "sweep (i # is) k =
     (case pstate (slot k i) of
        Zombie \<Rightarrow> sweep is (reap i k)
      | Unused \<Rightarrow> sweep is k
      | _ \<Rightarrow> (True, snd (sweep is k)))"

text \<open>What the loop of \<^verbatim>\<open>run_until\<close> checks at its top: the value it ends with, if it does.\<close>

definition finished :: "int option \<Rightarrow> kernel \<Rightarrow> int option \<times> kernel" where
  "finished wait_pid k =
     (case wait_pid of
        Some n \<Rightarrow> (case by_pid k n of None \<Rightarrow> (Some (-1), k)
          | Some i \<Rightarrow> if pstate (slot k i) = Zombie then (Some (exit_status (slot k i)), reap i k) else (None, k))
      | None \<Rightarrow> (case sweep [0..<MAX_PROCESSES] k of (alive, k) \<Rightarrow> (if alive then None else Some 0, k)))"

text \<open>One dispatch, up to where the process runs: \<open>dispatch\<close> is what it then does until it stops.\<close>

definition launch :: "nat \<Rightarrow> kernel \<Rightarrow> kernel" where
  "launch i k = (let k = free_pending i k
     in (set_slot i ((slot k i)\<lparr>pstate := Running, has_run := True\<rparr>) k)\<lparr>current := Some i\<rparr>)"

partial_function (option) run_loop :: "(nat \<Rightarrow> kernel \<Rightarrow> kernel option) \<Rightarrow> int option \<Rightarrow> kernel \<Rightarrow> (int \<times> kernel) option" where
  "run_loop dispatch wait_pid k =
     (case finished wait_pid k of
        (Some r, k) \<Rightarrow> Some (r, k)
      | (None, k) \<Rightarrow> (case pick_next_runnable k of
            None \<Rightarrow> run_loop dispatch wait_pid k
          | Some (i, k) \<Rightarrow> do { k \<leftarrow> dispatch i (launch i k); run_loop dispatch wait_pid k }))"

definition run_until :: "(nat \<Rightarrow> kernel \<Rightarrow> kernel option) \<Rightarrow> int option \<Rightarrow> kernel \<Rightarrow> (int \<times> kernel) option" where
  "run_until dispatch wait_pid k = do {
     (r, k') \<leftarrow> run_loop dispatch wait_pid k;
     Some (r, k'\<lparr>current := current k\<rparr>) }"

end
