(* ===== verification/Syscall.thy ===== *)
theory Syscall
  imports Process
begin

text \<open>
  The system calls, \<^verbatim>\<open>kernel/src/exec/syscall.rs\<close>, on the kernel state of theory \<open>Process\<close>. A handler
  takes its argument registers as natural numbers (user pointers, lengths, descriptors) and returns
  the code's \<^verbatim>\<open>Option<i64>\<close> with the new state; the outer \<open>None\<close> is a kernel fault: a dangling pointer,
  an access to a user address with no page behind it (the access runs in ring 0, where
  \<^verbatim>\<open>isr_handler\<close> halts the machine), or a wait that never ends.

  Arguments stand for what the handlers ask of code outside this theory: \<open>env\<close> holds the answers of
  the ELF loader, the page allocator, the audio and disk drivers, and of the user programs a
  \<^verbatim>\<open>wait\<close> runs.
\<close>

definition SYS_READ :: nat where "SYS_READ = 0"
definition SYS_WRITE :: nat where "SYS_WRITE = 1"
definition SYS_OPEN :: nat where "SYS_OPEN = 2"
definition SYS_CLOSE :: nat where "SYS_CLOSE = 3"
definition SYS_LSEEK :: nat where "SYS_LSEEK = 8"
definition SYS_BRK :: nat where "SYS_BRK = 12"
definition SYS_IOCTL :: nat where "SYS_IOCTL = 16"
definition SYS_PIPE :: nat where "SYS_PIPE = 22"
definition SYS_SCHED_YIELD :: nat where "SYS_SCHED_YIELD = 24"
definition SYS_GETPID :: nat where "SYS_GETPID = 39"
definition SYS_FORK :: nat where "SYS_FORK = 57"
definition SYS_EXECVE :: nat where "SYS_EXECVE = 59"
definition SYS_EXIT :: nat where "SYS_EXIT = 60"
definition SYS_WAIT4 :: nat where "SYS_WAIT4 = 61"
definition SYS_GETCWD :: nat where "SYS_GETCWD = 79"
definition SYS_CHDIR :: nat where "SYS_CHDIR = 80"
definition SYS_RENAME :: nat where "SYS_RENAME = 82"
definition SYS_MKDIR :: nat where "SYS_MKDIR = 83"
definition SYS_UNLINK :: nat where "SYS_UNLINK = 87"
definition SYS_SYNC :: nat where "SYS_SYNC = 162"
definition SYS_GETDENTS :: nat where "SYS_GETDENTS = 217"
definition SYS_CLOCK_GETTIME :: nat where "SYS_CLOCK_GETTIME = 228"
definition SYS_AUDIO_OPEN :: nat where "SYS_AUDIO_OPEN = 900"
definition SYS_AUDIO_WRITE :: nat where "SYS_AUDIO_WRITE = 901"
definition SYS_AUDIO_CLOSE :: nat where "SYS_AUDIO_CLOSE = 902"
definition SYS_POLL_KEY :: nat where "SYS_POLL_KEY = 903"
definition SYS_USE_AS_STDIO :: nat where "SYS_USE_AS_STDIO = 904"
definition SYS_COPY :: nat where "SYS_COPY = 905"

lemmas syscall_numbers =
  SYS_READ_def SYS_WRITE_def SYS_OPEN_def SYS_CLOSE_def SYS_LSEEK_def SYS_BRK_def SYS_IOCTL_def SYS_PIPE_def
  SYS_SCHED_YIELD_def SYS_GETPID_def SYS_FORK_def SYS_EXECVE_def SYS_EXIT_def SYS_WAIT4_def SYS_GETCWD_def SYS_CHDIR_def
  SYS_RENAME_def SYS_MKDIR_def SYS_UNLINK_def SYS_SYNC_def SYS_GETDENTS_def SYS_CLOCK_GETTIME_def SYS_AUDIO_OPEN_def
  SYS_AUDIO_WRITE_def SYS_AUDIO_CLOSE_def SYS_POLL_KEY_def SYS_USE_AS_STDIO_def SYS_COPY_def

definition HEAP_MAX_BYTES :: nat where "HEAP_MAX_BYTES = 4 * 1024 * 1024"

definition O_RDONLY :: u64 where "O_RDONLY = 0"
definition O_WRONLY :: u64 where "O_WRONLY = 1"
definition O_CREAT :: u64 where "O_CREAT = 0x40"
definition O_TRUNC :: u64 where "O_TRUNC = 0x200"

definition SEEK_SET :: nat where "SEEK_SET = 0"
definition SEEK_CUR :: nat where "SEEK_CUR = 1"
definition SEEK_END :: nat where "SEEK_END = 2"

definition DT_DIR :: u8 where "DT_DIR = 4"
definition DT_REG :: u8 where "DT_REG = 8"

definition CLOCK_MONOTONIC :: nat where "CLOCK_MONOTONIC = 1"

definition TCGETS :: nat where "TCGETS = 0x5401"
definition TCSETS :: nat where "TCSETS = 0x5402"
definition TIOCGWINSZ :: nat where "TIOCGWINSZ = 0x5413"
definition TIOCSWINSZ :: nat where "TIOCSWINSZ = 0x5414"

definition MAX_ARGS :: nat where "MAX_ARGS = 16"
definition MAX_ARG_LEN :: nat where "MAX_ARG_LEN = 128"

section \<open>User memory\<close>

definition USER_END :: nat where "USER_END = 0x800000000000"

definition user_ok :: "nat \<Rightarrow> nat \<Rightarrow> bool" where
  "user_ok ptr len \<longleftrightarrow> ptr < USER_END \<and> ptr + len < 2 ^ 64 \<and> ptr + len < USER_END"

definition load_bytes :: "(nat \<Rightarrow> u8 option) \<Rightarrow> nat \<Rightarrow> nat \<Rightarrow> bytes option" where
  "load_bytes m p n = those (map m [p..<p + n])"

definition store_bytes :: "(nat \<Rightarrow> u8 option) \<Rightarrow> nat \<Rightarrow> bytes \<Rightarrow> (nat \<Rightarrow> u8 option) option" where
  "store_bytes m p bs =
     (if list_all (\<lambda>a. m a \<noteq> None) [p..<p + length bs]
      then Some (\<lambda>a. if p \<le> a \<and> a < p + length bs then Some (bs ! (a - p)) else m a) else None)"

text \<open>\<^verbatim>\<open>CStr::from_ptr\<close>: the bytes up to the first NUL.\<close>

partial_function (option) cstr_at :: "(nat \<Rightarrow> u8 option) \<Rightarrow> nat \<Rightarrow> bytes option" where
  "cstr_at m p = do { b \<leftarrow> m p; if b = 0 then Some [] else do { bs \<leftarrow> cstr_at m (p + 1); Some (b # bs) } }"

definition user_str :: "(nat \<Rightarrow> u8 option) \<Rightarrow> nat \<Rightarrow> bytes option option" where
  "user_str m ptr =
     (if \<not> user_ok ptr 1 then Some None
      else do { s \<leftarrow> cstr_at m ptr; Some (if utf8_valid s then Some s else None) })"

section \<open>The running task\<close>

type_synonym outcome = "(int option \<times> kernel) option"

definition fail :: "kernel \<Rightarrow> outcome" where
  "fail k = Some (None, k)"

definition ret :: "int \<Rightarrow> kernel \<Rightarrow> outcome" where
  "ret v k = Some (Some v, k)"

definition ok :: "bool \<Rightarrow> int" where
  "ok b = (if b then 0 else -1)"

text \<open>\<^verbatim>\<open>task()?\<close> and \<^verbatim>\<open>process::current()?\<close>: the running process's slot and task.\<close>

definition with_task :: "kernel \<Rightarrow> (nat \<Rightarrow> usertask \<Rightarrow> outcome) \<Rightarrow> outcome" where
  "with_task k f = (case current k of None \<Rightarrow> fail k | Some i \<Rightarrow> f i (task (slot k i)))"

definition put_task :: "nat \<Rightarrow> usertask \<Rightarrow> kernel \<Rightarrow> kernel" where
  "put_task i t k = set_slot i ((slot k i)\<lparr>task := t\<rparr>) k"

definition with_str :: "usertask \<Rightarrow> nat \<Rightarrow> kernel \<Rightarrow> (bytes \<Rightarrow> outcome) \<Rightarrow> outcome" where
  "with_str t ptr k f = do { s \<leftarrow> user_str (umem t) ptr; case s of None \<Rightarrow> fail k | Some s \<Rightarrow> f s }"

definition open_file :: "usertask \<Rightarrow> nat \<Rightarrow> open_file option" where
  "open_file t fd =
     (if fd < 3 \<or> fd - 3 \<ge> length (open_files t) then None
      else if open_files t ! (fd - 3) = OFree then None else Some (open_files t ! (fd - 3)))"

definition set_file :: "nat \<Rightarrow> open_file \<Rightarrow> usertask \<Rightarrow> usertask" where
  "set_file fd f t = t\<lparr>open_files := (open_files t)[fd - 3 := f]\<rparr>"

definition free_slot :: "usertask \<Rightarrow> nat option" where
  "free_slot t = position (\<lambda>f. f = OFree) (open_files t)"

definition put_user :: "nat \<Rightarrow> nat \<Rightarrow> bytes \<Rightarrow> kernel \<Rightarrow> kernel option" where
  "put_user i ptr bs k = do {
     m \<leftarrow> store_bytes (umem (task (slot k i))) ptr bs;
     Some (put_task i ((task (slot k i))\<lparr>umem := m\<rparr>) k) }"

definition put_data :: "nat \<Rightarrow> bytes \<Rightarrow> kernel \<Rightarrow> kernel" where
  "put_data n d k = k\<lparr>kfs := (kfs k)\<lparr>nodes := (nodes (kfs k))(n := map_option (\<lambda>v. v\<lparr>vdata := d\<rparr>) (nodes (kfs k) n))\<rparr>\<rparr>"

definition print :: "bytes \<Rightarrow> kernel \<Rightarrow> kernel" where
  "print bs k = k\<lparr>console := console k @ bs\<rparr>"

section \<open>Files\<close>

text \<open>The node to open, created when it may be and is not there, and then the opening of it.\<close>

definition open_target :: "vfs \<Rightarrow> nat \<Rightarrow> bytes \<Rightarrow> u64 \<Rightarrow> (nat option \<times> vfs) option" where
  "open_target fs cwd path flags = do {
     r \<leftarrow> resolve fs cwd path;
     case r of Some n \<Rightarrow> Some (Some n, fs)
     | None \<Rightarrow>
         if flags AND O_CREAT \<noteq> 0 then do {
           (created, fs) \<leftarrow> create_file fs cwd path;
           if \<not> created then Some (None, fs) else do { n \<leftarrow> resolve fs cwd path; Some (n, fs) } }
         else Some (None, fs) }"

definition open_access :: "u64 \<Rightarrow> u64" where
  "open_access flags = flags AND NOT (O_CREAT OR O_TRUNC)"

definition open_vnode :: "kernel \<Rightarrow> nat \<Rightarrow> nat \<Rightarrow> u64 \<Rightarrow> outcome" where
  "open_vnode k i node flags = do {
     let t = task (slot k i);
     n \<leftarrow> nodes (kfs k) node;
     if is_dir n \<and> flags \<noteq> O_RDONLY then fail k
     else let w = (open_access flags = O_WRONLY);
              k = (if flags AND O_TRUNC \<noteq> 0 \<and> \<not> is_dir n \<and> w then put_data node [] k else k)
          in case free_slot t of None \<Rightarrow> fail k
             | Some j \<Rightarrow> ret (3 + int j) (put_task i (t\<lparr>open_files := (open_files t)[j := OFile node 0 w]\<rparr>) k) }"

definition sys_open :: "kernel \<Rightarrow> nat \<Rightarrow> u64 \<Rightarrow> outcome" where
  "sys_open k ptr flags = with_task k (\<lambda>i t. with_str t ptr k (\<lambda>path.
     if open_access flags \<noteq> O_RDONLY \<and> open_access flags \<noteq> O_WRONLY then fail k
     else do {
       (r, fs) \<leftarrow> open_target (kfs k) (tcwd t) path flags;
       case r of None \<Rightarrow> fail (k\<lparr>kfs := fs\<rparr>) | Some node \<Rightarrow> open_vnode (k\<lparr>kfs := fs\<rparr>) i node flags }))"

definition sys_close :: "kernel \<Rightarrow> nat \<Rightarrow> outcome" where
  "sys_close k fd = with_task k (\<lambda>i t.
     case open_file t fd of None \<Rightarrow> fail k
     | Some f \<Rightarrow> do {
         st \<leftarrow> (case f of OPipe p w \<Rightarrow> if w then close_write (kpipes k) p else close_read (kpipes k) p | _ \<Rightarrow> Some (kpipes k));
         ret 0 (put_task i (set_file fd OFree t) (k\<lparr>kpipes := st\<rparr>)) })"

definition sys_chdir :: "kernel \<Rightarrow> nat \<Rightarrow> outcome" where
  "sys_chdir k ptr = with_task k (\<lambda>i t. with_str t ptr k (\<lambda>path. do {
     r \<leftarrow> resolve (kfs k) (tcwd t) path;
     case r of None \<Rightarrow> fail k
     | Some node \<Rightarrow> do {
         n \<leftarrow> nodes (kfs k) node;
         if \<not> is_dir n then fail k else ret 0 (put_task i (t\<lparr>tcwd := node\<rparr>) k) } }))"

text \<open>A file-system call whose result is the call's own success.\<close>

definition on_fs :: "(bool \<times> vfs) option \<Rightarrow> kernel \<Rightarrow> outcome" where
  "on_fs r k = do { (b, fs) \<leftarrow> r; ret (ok b) (k\<lparr>kfs := fs\<rparr>) }"

definition sys_mkdir :: "kernel \<Rightarrow> nat \<Rightarrow> outcome" where
  "sys_mkdir k ptr = with_task k (\<lambda>i t. with_str t ptr k (\<lambda>path. on_fs (mkdir (kfs k) (tcwd t) path) k))"

definition sys_unlink :: "kernel \<Rightarrow> nat \<Rightarrow> outcome" where
  "sys_unlink k ptr = with_task k (\<lambda>i t. with_str t ptr k (\<lambda>path. do {
     r \<leftarrow> resolve (kfs k) (tcwd t) path;
     case r of None \<Rightarrow> fail k
     | Some node \<Rightarrow> do {
         busy \<leftarrow> cwd_within k node;
         if busy then fail k else on_fs (remove (kfs k) (tcwd t) path (Some (tcwd t))) k } }))"

definition sys_rename :: "kernel \<Rightarrow> nat \<Rightarrow> nat \<Rightarrow> outcome" where
  "sys_rename k src dest = with_task k (\<lambda>i t. with_str t src k (\<lambda>src. with_str t dest k (\<lambda>dest.
     on_fs (move_node (kfs k) (tcwd t) src dest) k)))"

definition sys_copy :: "kernel \<Rightarrow> nat \<Rightarrow> nat \<Rightarrow> outcome" where
  "sys_copy k src dest = with_task k (\<lambda>i t. with_str t src k (\<lambda>src. with_str t dest k (\<lambda>dest.
     on_fs (copy (kfs k) (tcwd t) src dest) k)))"

definition I64_MAX :: int where "I64_MAX = 2 ^ 63 - 1"

definition sys_lseek :: "kernel \<Rightarrow> nat \<Rightarrow> int \<Rightarrow> nat \<Rightarrow> outcome" where
  "sys_lseek k fd offset whence = with_task k (\<lambda>i t.
     case open_file t fd of
       Some (OFile vn ps w) \<Rightarrow> do {
         n \<leftarrow> nodes (kfs k) vn;
         let base = (if whence = SEEK_SET then Some 0
                     else if whence = SEEK_CUR then Some (int ps)
                     else if whence = SEEK_END \<and> \<not> is_dir n then Some (int (length (vdata n))) else None);
         case base of None \<Rightarrow> fail k
         | Some b \<Rightarrow>
             let new = b + offset
             in if new > I64_MAX \<or> new < 0 then fail k else ret new (put_task i (set_file fd (OFile vn (nat new) w) t) k) }
     | _ \<Rightarrow> fail k)"

definition dirent_bytes :: "vnode \<Rightarrow> bytes" where
  "dirent_bytes v = (if is_dir v then DT_DIR else DT_REG) # vname v @ replicate (NAME_MAX - length (vname v)) 0"

definition sys_getdents :: "kernel \<Rightarrow> nat \<Rightarrow> nat \<Rightarrow> outcome" where
  "sys_getdents k fd out = with_task k (\<lambda>i t.
     case open_file t fd of
       Some (OFile vn ps w) \<Rightarrow> do {
         dir \<leftarrow> nodes (kfs k) vn;
         if \<not> is_dir dir \<or> \<not> user_ok out (1 + NAME_MAX) then fail k
         else do {
           cs \<leftarrow> children_from (nodes (kfs k)) (vchildren dir);
           if ps \<ge> length cs then ret 0 k
           else do {
             child \<leftarrow> nodes (kfs k) (cs ! ps);
             k \<leftarrow> put_user i out (dirent_bytes child) k;
             ret 1 (put_task i (set_file fd (OFile vn (ps + 1) w) (task (slot k i))) k) } } }
     | _ \<Rightarrow> fail k)"

text \<open>
  A pipe copies no more of the caller's buffer than it has room for: \<open>touched\<close> bytes are read, the
  rest of the buffer only counts with its length.
\<close>

definition pipe_touched :: "pipe \<Rightarrow> nat \<Rightarrow> nat" where
  "pipe_touched p len = (if read_refs p = 0 then 0 else min len (BUF_SIZE - count p))"

definition write_pipe :: "nat \<Rightarrow> nat \<Rightarrow> nat \<Rightarrow> usertask \<Rightarrow> kernel \<Rightarrow> outcome" where
  "write_pipe q ubuf len t k = do {
     p \<leftarrow> kpipes k q;
     data \<leftarrow> load_bytes (umem t) ubuf (pipe_touched p len);
     let (n, p) = pipe_write p (data @ replicate (len - length data) 0);
     ret (case n of None \<Rightarrow> -1 | Some n \<Rightarrow> int n) (k\<lparr>kpipes := (kpipes k)(q \<mapsto> p)\<rparr>) }"

definition read_pipe :: "nat \<Rightarrow> nat \<Rightarrow> nat \<Rightarrow> nat \<Rightarrow> kernel \<Rightarrow> outcome" where
  "read_pipe q ubuf len i k = do {
     p \<leftarrow> kpipes k q;
     let (d, p) = pipe_read p len;
     let k = k\<lparr>kpipes := (kpipes k)(q \<mapsto> p)\<rparr>;
     case d of None \<Rightarrow> ret (-1) k
     | Some d \<Rightarrow> do { k \<leftarrow> put_user i ubuf d k; ret (int (length d)) k } }"

text \<open>\<^verbatim>\<open>Vec::resize\<close> then \<^verbatim>\<open>copy_from_slice\<close>: the file after \<open>data\<close> was written at an offset.\<close>

definition write_at :: "bytes \<Rightarrow> nat \<Rightarrow> bytes \<Rightarrow> bytes" where
  "write_at file ps data =
     (let file = file @ replicate (ps + length data - length file) 0
      in take ps file @ data @ drop (ps + length data) file)"

definition sys_write :: "kernel \<Rightarrow> nat \<Rightarrow> nat \<Rightarrow> nat \<Rightarrow> outcome" where
  "sys_write k fd ubuf len =
     (if \<not> user_ok ubuf len then fail k
      else with_task k (\<lambda>i t.
        if fd = 1 \<or> fd = 2 then
          (case stdout_pipe t of
             Some q \<Rightarrow> write_pipe q ubuf len t k
           | None \<Rightarrow> do { data \<leftarrow> load_bytes (umem t) ubuf len; ret (int len) (print data k) })
        else case open_file t fd of
          Some (OPipe q we) \<Rightarrow> if \<not> we then fail k else write_pipe q ubuf len t k
        | Some (OFile vn ps w) \<Rightarrow>
            if \<not> w then fail k
            else do {
              n \<leftarrow> nodes (kfs k) vn;
              if ps + len > length (vdata n) \<and> (int (ps + len) > I64_MAX \<or> \<not> heap_has k (ps + len)) then fail (k\<lparr>halted := True\<rparr>)
              else do {
                data \<leftarrow> load_bytes (umem t) ubuf len;
                ret (int len) (put_task i (set_file fd (OFile vn (ps + len) w) t) (put_data vn (write_at (vdata n) ps data) k)) } }
        | _ \<Rightarrow> fail k))"

text \<open>
  Reading the keyboards into \<open>ubuf\<close>; \<open>n\<close> bytes are there already. In canonical mode backspace takes
  one back and Enter ends the line; in raw mode the call ends when nothing more is ready.
\<close>

partial_function (option) tty_read :: "bool \<Rightarrow> nat \<Rightarrow> nat \<Rightarrow> nat \<Rightarrow> nat \<Rightarrow> kernel \<Rightarrow> (nat \<times> kernel) option" where
  "tty_read raw i ubuf len n k =
     (if n \<ge> len then Some (n, k)
      else let c = poll_at k (polls k); k = k\<lparr>polls := polls k + 1\<rparr>
           in case c of
                None \<Rightarrow> if raw \<and> n > 0 then Some (n, k) else tty_read raw i ubuf len n k
              | Some c \<Rightarrow>
                  if raw then do { k \<leftarrow> put_user i (ubuf + n) [c] k; tty_read raw i ubuf len (n + 1) k }
                  else if c = 10 \<or> c = 13 then Some (n, print [10] k)
                  else if c = 8 \<or> c = 0x7F then
                    (if n > 0 then tty_read raw i ubuf len (n - 1) (print [8, 32, 8] k) else tty_read raw i ubuf len n k)
                  else do { k \<leftarrow> put_user i (ubuf + n) [c] k; tty_read raw i ubuf len (n + 1) (print [c] k) })"

definition sys_read :: "kernel \<Rightarrow> nat \<Rightarrow> nat \<Rightarrow> nat \<Rightarrow> outcome" where
  "sys_read k fd ubuf len =
     (if \<not> user_ok ubuf len then fail k
      else with_task k (\<lambda>i t.
        if fd \<noteq> 0 then
          (case open_file t fd of
             Some (OPipe q we) \<Rightarrow> if we then fail k else read_pipe q ubuf len i k
           | Some (OFile vn ps w) \<Rightarrow> do {
               n \<leftarrow> nodes (kfs k) vn;
               if is_dir n then fail k
               else do {
                 let d = take len (drop ps (vdata n));
                 k \<leftarrow> put_user i ubuf d k;
                 ret (int (length d)) (put_task i (set_file fd (OFile vn (ps + length d) w) (task (slot k i))) k) } }
           | _ \<Rightarrow> fail k)
        else case stdin_pipe t of
          Some q \<Rightarrow> read_pipe q ubuf len i k
        | None \<Rightarrow> do {
            (n, k) \<leftarrow> tty_read (c_lflag (termios_of t) AND ICANON = 0) i ubuf len 0 k;
            ret (int n) k }))"

section \<open>Memory, terminal, pipes, keys\<close>

text \<open>The growth loop: \<open>pages\<close> is how many pages the page allocator still gives. A new page is mapped
  at the end of the heap and zeroed.\<close>

function brk_grow :: "nat \<Rightarrow> nat \<Rightarrow> usertask \<Rightarrow> bool \<times> usertask" where
  "brk_grow pages new_end t =
     (if heap_end t < new_end then
        (if pages = 0 then (False, t)
         else brk_grow (pages - 1) new_end
           (t\<lparr>umem := (\<lambda>a. if heap_end t \<le> a \<and> a < heap_end t + 4096 then Some 0 else umem t a), heap_end := heap_end t + 4096\<rparr>))
      else (True, t))"
  by pat_completeness auto
termination
  by (relation "measure fst") auto

definition sys_brk :: "nat \<Rightarrow> kernel \<Rightarrow> nat \<Rightarrow> outcome" where
  "sys_brk pages k new_end = with_task k (\<lambda>i t.
     if new_end = 0 \<or> new_end \<le> heap_end t then ret (int (heap_end t)) k
     else if new_end - heap_start t > HEAP_MAX_BYTES then fail k
     else (case brk_grow pages new_end t of (grown, t) \<Rightarrow>
       let k = put_task i t k in if grown then ret (int (heap_end t)) k else fail k))"

definition termios_bytes :: "termios \<Rightarrow> bytes" where
  "termios_bytes t = to_le 4 (unat (c_iflag t)) @ to_le 4 (unat (c_oflag t)) @ to_le 4 (unat (c_cflag t))
     @ to_le 4 (unat (c_lflag t)) @ c_line t # c_cc t"

definition termios_parse :: "bytes \<Rightarrow> termios" where
  "termios_parse b = \<lparr>c_iflag = word_of_nat (of_le (take 4 b)), c_oflag = word_of_nat (of_le (take 4 (drop 4 b))),
     c_cflag = word_of_nat (of_le (take 4 (drop 8 b))), c_lflag = word_of_nat (of_le (take 4 (drop 12 b))),
     c_line = b ! 16, c_cc = take NCCS (drop 17 b)\<rparr>"

definition winsize_bytes :: "winsize \<Rightarrow> bytes" where
  "winsize_bytes w = to_le 2 (unat (ws_row w)) @ to_le 2 (unat (ws_col w)) @ to_le 2 (unat (ws_xpixel w)) @ to_le 2 (unat (ws_ypixel w))"

definition winsize_parse :: "bytes \<Rightarrow> winsize" where
  "winsize_parse b = \<lparr>ws_row = word_of_nat (of_le (take 2 b)), ws_col = word_of_nat (of_le (take 2 (drop 2 b))),
     ws_xpixel = word_of_nat (of_le (take 2 (drop 4 b))), ws_ypixel = word_of_nat (of_le (take 2 (drop 6 b)))\<rparr>"

definition current_winsize :: "kernel \<Rightarrow> usertask \<Rightarrow> winsize" where
  "current_winsize k t =
     (if ws_col (winsize_of t) \<noteq> 0 \<and> ws_row (winsize_of t) \<noteq> 0 then winsize_of t
      else let (cols, rows) = (case console_size k of None \<Rightarrow> (80, 24) | Some s \<Rightarrow> s)
           in \<lparr>ws_row = word_of_nat rows, ws_col = word_of_nat cols, ws_xpixel = 0, ws_ypixel = 0\<rparr>)"

definition sys_ioctl :: "kernel \<Rightarrow> nat \<Rightarrow> nat \<Rightarrow> nat \<Rightarrow> outcome" where
  "sys_ioctl k fd request argp = with_task k (\<lambda>i t.
     if fd > 2 then fail k
     else let sz = (if request = TCGETS \<or> request = TCSETS then Some 36
                    else if request = TIOCGWINSZ \<or> request = TIOCSWINSZ then Some 8 else None)
          in case sz of None \<Rightarrow> fail k
             | Some n \<Rightarrow>
                 if \<not> user_ok argp n then fail k
                 else if request = TCGETS then do { k \<leftarrow> put_user i argp (termios_bytes (termios_of t)) k; ret 0 k }
                 else if request = TCSETS then do {
                   b \<leftarrow> load_bytes (umem t) argp 36;
                   ret 0 (put_task i (t\<lparr>termios_of := termios_parse b\<rparr>) k) }
                 else if request = TIOCSWINSZ then do {
                   b \<leftarrow> load_bytes (umem t) argp 8;
                   ret 0 (put_task i (t\<lparr>winsize_of := winsize_parse b\<rparr>) k) }
                 else do { k \<leftarrow> put_user i argp (winsize_bytes (current_winsize k t)) k; ret 0 k })"

definition sys_clock_gettime :: "kernel \<Rightarrow> nat \<Rightarrow> nat \<Rightarrow> outcome" where
  "sys_clock_gettime k clock ts =
     (if clock \<noteq> CLOCK_MONOTONIC \<or> \<not> user_ok ts 16 then fail k
      else with_task k (\<lambda>i t. do {
        k \<leftarrow> put_user i ts (to_le 8 (uptime_ms k div 1000) @ to_le 8 (uptime_ms k mod 1000 * 1000000)) k;
        ret 0 k }))"

definition free_slots :: "usertask \<Rightarrow> nat list" where
  "free_slots t = filter (\<lambda>j. open_files t ! j = OFree) [0..<length (open_files t)]"

definition sys_pipe :: "kernel \<Rightarrow> nat \<Rightarrow> outcome" where
  "sys_pipe k pipefd = with_task k (\<lambda>i t.
     if \<not> user_ok pipefd 8 then fail k
     else case free_slots t of
       r # w # _ \<Rightarrow> do {
         let q = next_pipe k;
         let k = k\<lparr>kpipes := (kpipes k)(q \<mapsto> pipe_create), next_pipe := q + 1\<rparr>;
         let k = put_task i (t\<lparr>open_files := (open_files t)[r := OPipe q False, w := OPipe q True]\<rparr>) k;
         k \<leftarrow> put_user i pipefd (to_le 4 (3 + r) @ to_le 4 (3 + w)) k;
         ret 0 k }
     | _ \<Rightarrow> fail k)"

definition sys_use_as_stdio :: "kernel \<Rightarrow> nat \<Rightarrow> nat \<Rightarrow> outcome" where
  "sys_use_as_stdio k stdin_fd stdout_fd = with_task k (\<lambda>i t.
     case (open_file t stdin_fd, open_file t stdout_fd) of
       (Some (OPipe inp False), Some (OPipe out True)) \<Rightarrow>
         ret 0 (put_task i (set_file stdout_fd OFree (set_file stdin_fd OFree (t\<lparr>stdin_pipe := Some inp, stdout_pipe := Some out\<rparr>))) k)
     | _ \<Rightarrow> fail k)"

definition sys_poll_key :: "kernel \<Rightarrow> outcome" where
  "sys_poll_key k =
     (case (case current k of None \<Rightarrow> None | Some i \<Rightarrow> stdin_pipe (task (slot k i))) of
        Some q \<Rightarrow> do {
          p \<leftarrow> kpipes k q;
          let (d, p) = pipe_read p 1;
          let k = k\<lparr>kpipes := (kpipes k)(q \<mapsto> p)\<rparr>;
          ret (case d of Some [b] \<Rightarrow> int (unat b) | None \<Rightarrow> -2 | _ \<Rightarrow> -1) k }
      | None \<Rightarrow> ret (case poll_at k (polls k) of None \<Rightarrow> -1 | Some b \<Rightarrow> int (unat b)) (k\<lparr>polls := polls k + 1\<rparr>))"

definition sys_getcwd :: "kernel \<Rightarrow> nat \<Rightarrow> nat \<Rightarrow> outcome" where
  "sys_getcwd k ubuf len = with_task k (\<lambda>i t.
     if \<not> user_ok ubuf len \<or> len = 0 then fail k
     else do {
       path \<leftarrow> vfs_path (kfs k) (tcwd t);
       k \<leftarrow> put_user i ubuf (take (len - 1) path @ [0]) k;
       ret 0 k })"

section \<open>Processes\<close>

record env =
  e_load :: "bytes \<Rightarrow> bytes list \<Rightarrow> nat \<Rightarrow> usertask option"
  e_run :: "nat \<Rightarrow> kernel \<Rightarrow> kernel option"
  e_space :: "nat \<times> bool"
  e_kstack :: "nat option"
  e_pages :: nat
  e_save :: "vfs \<Rightarrow> bool option"
  e_audio_open :: "nat \<Rightarrow> nat \<Rightarrow> bool"
  e_audio_write :: "bytes \<Rightarrow> nat option"
  e_audio_close :: bool

text \<open>\<open>e_save\<close> is \<^verbatim>\<open>blkfs::save\<close> on the disk, \<open>None\<close> when there is none.\<close>

definition sys_sync :: "env \<Rightarrow> kernel \<Rightarrow> outcome" where
  "sys_sync E k = (case e_save E (kfs k) of None \<Rightarrow> fail k | Some b \<Rightarrow> ret (ok b) k)"

text \<open>The loop over the argument array, with the arguments so far.\<close>

function argv_loop :: "(nat \<Rightarrow> u8 option) \<Rightarrow> nat \<Rightarrow> bytes list \<Rightarrow> bytes list option option" where
  "argv_loop m argv args =
     (if length args < MAX_ARGS then
        (let place = argv + length args * 8
         in if \<not> user_ok place 8 then Some None
            else do {
              b \<leftarrow> load_bytes m place 8;
              let ptr = of_le b;
              if ptr = 0 then Some (Some args)
              else if \<not> user_ok ptr 1 then Some None
              else do {
                s \<leftarrow> cstr_at m ptr;
                argv_loop m argv (args @ [take (MAX_ARG_LEN - 1) s]) } })
      else Some (Some args))"
  by pat_completeness auto
termination
  by (relation "measure (\<lambda>(m, argv, args). MAX_ARGS - length args)") auto

definition copy_user_argv :: "(nat \<Rightarrow> u8 option) \<Rightarrow> nat \<Rightarrow> bytes list option option" where
  "copy_user_argv m argv = (if argv = 0 then Some (Some []) else argv_loop m argv [])"

text \<open>What a call does to the caller: return a value to it, or leave it and go back to the scheduler.\<close>

datatype after = Return "int option" | Switch int

definition sys_execve :: "env \<Rightarrow> kernel \<Rightarrow> nat \<Rightarrow> nat \<Rightarrow> (after \<times> kernel) option" where
  "sys_execve E k ptr argv =
     (case current k of None \<Rightarrow> Some (Return None, k)
      | Some i \<Rightarrow> do {
          let t = task (slot k i);
          path \<leftarrow> user_str (umem t) ptr;
          case path of None \<Rightarrow> Some (Return None, k)
          | Some path \<Rightarrow> do {
              r \<leftarrow> resolve (kfs k) (tcwd t) path;
              case r of None \<Rightarrow> Some (Return None, k)
              | Some node \<Rightarrow> do {
                  n \<leftarrow> nodes (kfs k) node;
                  if is_dir n then Some (Return None, k)
                  else do {
                    args \<leftarrow> copy_user_argv (umem t) argv;
                    case args of None \<Rightarrow> Some (Return None, k)
                    | Some args \<Rightarrow>
                        let (loaded, k) = exec k i (e_load E (vdata n) args (tcwd t))
                        in Some (if loaded then Switch 0 else Return None, k) } } } })"

definition as_i32 :: "nat \<Rightarrow> int" where
  "as_i32 n = sint (word_of_nat n :: 32 word)"

definition sys_wait :: "env \<Rightarrow> kernel \<Rightarrow> nat \<Rightarrow> nat \<Rightarrow> outcome" where
  "sys_wait E k n status =
     (case current k of None \<Rightarrow> fail k
      | Some i \<Rightarrow>
          let n = as_i32 n
          in case find_child_of k (pid (slot k i)) (if n \<ge> 0 then Some n else None) of
               None \<Rightarrow> fail k
             | Some c \<Rightarrow> do {
                 let target = pid (slot k c);
                 (code, k) \<leftarrow> run_until (e_run E) (Some target) k;
                 k \<leftarrow> (if status \<noteq> 0 \<and> user_ok status 4 then put_user i status (to_le 4 (nat (code mod 2 ^ 32))) k else Some k);
                 ret target k })"

fun digits :: "nat \<Rightarrow> bytes" where
  "digits n = (if n < 10 then [48 + word_of_nat n] else digits (n div 10) @ [48 + word_of_nat (n mod 10)])"

definition show_int :: "int \<Rightarrow> bytes" where
  "show_int z = (if z < 0 then 45 # digits (nat (- z)) else digits (nat z))"

text \<open>The exit message, on the console only for a program the kernel shell launched itself.\<close>

definition log_exit :: "int \<Rightarrow> kernel \<Rightarrow> kernel" where
  "log_exit code k =
     (let me = map_option (slot k) (current k);
          n = (case me of None \<Rightarrow> -1 | Some p \<Rightarrow> pid p)
      in if (case me of None \<Rightarrow> True | Some p \<Rightarrow> parent_pid p = KERNEL_PARENT_PID \<and> stdout_pipe (task p) = None)
         then print (10 # ascii ''process '' @ show_int n @ ascii '' exited with code '' @ show_int code @ [10]) k
         else k)"

definition sys_exit :: "kernel \<Rightarrow> nat \<Rightarrow> (after \<times> kernel) option" where
  "sys_exit k a = do {
     let code = as_i32 a;
     let k = log_exit code k;
     case current k of None \<Rightarrow> Some (Switch code, k)
     | Some i \<Rightarrow> do {
         k \<leftarrow> close_stdio_pipes i k;
         Some (Switch code, set_slot i ((slot k i)\<lparr>pstate := Zombie, exit_status := code\<rparr>) k) } }"

text \<open>\<open>frame\<close> is the address of the caller's saved registers, where it resumes.\<close>

definition sys_yield :: "kernel \<Rightarrow> nat \<Rightarrow> after \<times> kernel" where
  "sys_yield k frame =
     (case current k of None \<Rightarrow> (Return (Some 0), k)
      | Some i \<Rightarrow> (Switch 0, set_slot i ((slot k i)\<lparr>saved_rsp := frame, pstate := Runnable\<rparr>) k))"

definition sys_audio_write :: "env \<Rightarrow> kernel \<Rightarrow> nat \<Rightarrow> nat \<Rightarrow> outcome" where
  "sys_audio_write E k ptr len =
     (let len = len mod 2 ^ 32
      in if \<not> user_ok ptr len then fail k
         else with_task k (\<lambda>i t. do {
           pcm \<leftarrow> load_bytes (umem t) ptr len;
           ret (case e_audio_write E pcm of None \<Rightarrow> -1 | Some n \<Rightarrow> int n) k }))"

definition returning :: "outcome \<Rightarrow> (after \<times> kernel) option" where
  "returning r = map_option (\<lambda>(v, k). (Return v, k)) r"

text \<open>The dispatch on the call number; a halted machine, the state after a Rust panic, does nothing.\<close>

definition syscall_dispatch :: "env \<Rightarrow> kernel \<Rightarrow> nat \<Rightarrow> nat \<Rightarrow> nat \<Rightarrow> nat \<Rightarrow> nat \<Rightarrow> (after \<times> kernel) option" where
  "syscall_dispatch E k frame rax a1 a2 a3 =
     (if halted k then Some (Switch 0, k)
      else if rax = SYS_READ then returning (sys_read k a1 a2 a3)
      else if rax = SYS_WRITE then returning (sys_write k a1 a2 a3)
      else if rax = SYS_OPEN then returning (sys_open k a1 (word_of_nat a2))
      else if rax = SYS_CLOSE then returning (sys_close k a1)
      else if rax = SYS_IOCTL then returning (sys_ioctl k a1 a2 a3)
      else if rax = SYS_LSEEK then returning (sys_lseek k a1 (sint (word_of_nat a2 :: u64)) a3)
      else if rax = SYS_CHDIR then returning (sys_chdir k a1)
      else if rax = SYS_MKDIR then returning (sys_mkdir k a1)
      else if rax = SYS_UNLINK then returning (sys_unlink k a1)
      else if rax = SYS_RENAME then returning (sys_rename k a1 a2)
      else if rax = SYS_COPY then returning (sys_copy k a1 a2)
      else if rax = SYS_SYNC then returning (sys_sync E k)
      else if rax = SYS_CLOCK_GETTIME then returning (sys_clock_gettime k a1 a2)
      else if rax = SYS_GETDENTS then returning (sys_getdents k a1 a2)
      else if rax = SYS_BRK then returning (sys_brk (e_pages E) k a1)
      else if rax = SYS_GETPID then returning (with_task k (\<lambda>i t. ret (pid (slot k i)) k))
      else if rax = SYS_PIPE then returning (sys_pipe k a1)
      else if rax = SYS_USE_AS_STDIO then returning (sys_use_as_stdio k a1 a2)
      else if rax = SYS_AUDIO_OPEN then returning (ret (ok (e_audio_open E (a1 mod 2 ^ 32) (a2 mod 2 ^ 8))) k)
      else if rax = SYS_AUDIO_WRITE then returning (sys_audio_write E k a1 a2)
      else if rax = SYS_AUDIO_CLOSE then returning (ret (ok (e_audio_close E)) k)
      else if rax = SYS_POLL_KEY then returning (sys_poll_key k)
      else if rax = SYS_FORK then returning (with_task k (\<lambda>i t. fork k i (e_space E) (e_kstack E)))
      else if rax = SYS_GETCWD then returning (sys_getcwd k a1 a2)
      else if rax = SYS_EXECVE then sys_execve E k a1 a2
      else if rax = SYS_WAIT4 then returning (sys_wait E k a1 a2)
      else if rax = SYS_SCHED_YIELD then Some (sys_yield k frame)
      else if rax = SYS_EXIT then sys_exit k a1
      else Some (Return None, k))"

section \<open>Interrupts\<close>

text \<open>
  The two handlers of \<^verbatim>\<open>arch/x86_64/idt.rs\<close> that change processes. A CPU exception taken in ring 3
  ends that process; one taken in ring 0 halts the machine (\<open>msg\<close> is the report). The timer tick
  hands the CPU on when it interrupted ring 3.
\<close>

definition isr_handler :: "bool \<Rightarrow> bytes \<Rightarrow> kernel \<Rightarrow> kernel option" where
  "isr_handler from_user msg k =
     (let k = print msg k
      in if from_user then
           (case current k of None \<Rightarrow> Some k
            | Some i \<Rightarrow> do {
                k \<leftarrow> close_stdio_pipes i k;
                Some (set_slot i ((slot k i)\<lparr>pstate := Zombie, exit_status := -1\<rparr>) k) })
         else Some (k\<lparr>halted := True\<rparr>))"

definition tick_switch :: "bool \<Rightarrow> nat \<Rightarrow> kernel \<Rightarrow> kernel" where
  "tick_switch from_user frame k =
     (case current k of
        Some i \<Rightarrow> if from_user then set_slot i ((slot k i)\<lparr>saved_rsp := frame, pstate := Runnable\<rparr>) k else k
      | None \<Rightarrow> k)"

declare brk_grow.simps [simp del] argv_loop.simps [simp del] digits.simps [simp del]

end
