(* ===== verification/KernelSafe.thy ===== *)
theory KernelSafe
  imports Syscall
begin

text \<open>
  The kernel's invariant: the vnodes form a tree, every process in use has a live working directory
  and live open files, and every pipe counts at least the ends the processes hold. Shown here: what
  the file-system operations, descriptor updates and pipe reference counts keep of it, and the
  notions \<open>safe\<close> and \<open>running\<close> in which the system calls are proved.
\<close>

section \<open>What a file-system operation keeps\<close>

text \<open>Nodes that stay allocated and keep their type, and addresses that were never used.\<close>

definition kept :: "vheap \<Rightarrow> vheap \<Rightarrow> bool" where
  "kept h h' \<longleftrightarrow> (\<forall>n v. h n = Some v \<longrightarrow> (\<exists>v'. h' n = Some v' \<and> vkind v' = vkind v))"

definition fresh :: "vfs \<Rightarrow> bool" where
  "fresh s \<longleftrightarrow> (\<forall>n \<ge> next_id s. nodes s n = None)"

lemma kept_refl [simp]: "kept h h"
  by (simp add: kept_def)

lemma kept_trans: "kept h h' \<Longrightarrow> kept h' h'' \<Longrightarrow> kept h h''"
  unfolding kept_def by metis

lemma kept_upd: "h n = Some v \<Longrightarrow> vkind v' = vkind v \<Longrightarrow> kept h (h(n \<mapsto> v'))"
  by (simp add: kept_def)

lemma kept_new: "h n = None \<Longrightarrow> kept h (h(n \<mapsto> v))"
  by (auto simp: kept_def)

lemma kept_map: "(\<And>v. vkind (f v) = vkind v) \<Longrightarrow> kept h (h(n := map_option f (h n)))"
  by (auto simp: kept_def)

lemma link_child_kept:
  assumes "link_child h p c = Some h'"
  shows "kept h h'" "\<And>n. h' n = None \<longleftrightarrow> h n = None"
  using assms by (auto simp: link_child_def Let_def kept_def split: bind_splits if_splits)

lemma write_link_kept: "kept h (write_link h l x)" "write_link h l x n = None \<longleftrightarrow> h n = None"
  by (cases l; auto simp: kept_def)+

lemma unlink_from_kept:
  assumes "unlink_from h l c = Some h'"
  shows "kept h h'"
  using assms
proof (induction rule: unlink_from.raw_induct [rotated, consumes 1])
  case (1 unlink_from h l c h')
  then obtain tgt where t: "read_link h l = Some tgt" by (auto split: bind_splits)
  show ?case
  proof (cases tgt)
    case (Some d)
    show ?thesis
    proof (cases "d = c")
      case True
      with 1(2) t Some show ?thesis
        by (auto simp: Let_def split: bind_splits intro!: kept_trans [OF write_link_kept(1) kept_upd])
    qed (use 1 t Some in auto)
  qed (use 1(2) t in auto)
qed

lemma alloc_fresh:
  assumes "fresh s" "alloc_vnode s nm k = (n, s')"
  shows "kept (nodes s) (nodes s')" "fresh s'"
  using assms by (auto simp: alloc_vnode_def Let_def fresh_def intro!: kept_new)

lemma link_fresh: "fresh s \<Longrightarrow> link_child (nodes s) p c = Some h \<Longrightarrow> fresh (s\<lparr>nodes := h\<rparr>)"
  by (simp add: fresh_def link_child_kept(2))

lemma data_fresh: "fresh s \<Longrightarrow> fresh (s\<lparr>nodes := (nodes s)(k := map_option (\<lambda>w. w\<lparr>vdata := d\<rparr>) (nodes s k))\<rparr>)"
  by (auto simp: fresh_def)

lemma data_kept: "kept h (h(k := map_option (\<lambda>w. w\<lparr>vdata := d\<rparr>) (h k)))"
  by (rule kept_map) simp

lemma copy_chain_kept:
  assumes "copy_chain s c dst = Some s'"
  shows "fresh s \<longrightarrow> kept (nodes s) (nodes s') \<and> fresh s'"
  using assms
proof (induction rule: copy_chain.raw_induct [rotated, consumes 1])
  case (1 copy_chain s c dst s')
  show ?case
  proof (cases c)
    case (Some n)
    show ?thesis
    proof
      assume fr: "fresh s"
      obtain v where v: "nodes s n = Some v" using 1(2) Some by (cases "nodes s n") auto
      obtain k s1 where a: "alloc_vnode s (vname v) (vkind v) = (k, s1)" by (cases "alloc_vnode s (vname v) (vkind v)")
      note f = alloc_fresh [OF fr a]
      obtain s2 h where s2: "(if \<not> is_dir v
          then Some (s1\<lparr>nodes := (nodes s1)(k := map_option (\<lambda>w. w\<lparr>vdata := vdata v\<rparr>) (nodes s1 k))\<rparr>)
          else copy_chain s1 (vchildren v) k) = Some s2"
        and h: "link_child (nodes s2) dst k = Some h" and r: "copy_chain (s2\<lparr>nodes := h\<rparr>) (vsibling v) dst = Some s'"
        using 1(2) Some v a by (auto split: bind_splits)
      have k2: "kept (nodes s1) (nodes s2) \<and> fresh s2"
      proof (cases "is_dir v")
        case True
        with s2 1(1) f(2) show ?thesis by simp
      qed (use s2 f(2) data_fresh data_kept in auto)
      with h have "kept (nodes s1) h" "fresh (s2\<lparr>nodes := h\<rparr>)" by (auto intro: kept_trans link_child_kept link_fresh)
      with 1(1) [OF r] f(1) show "kept (nodes s) (nodes s') \<and> fresh s'" by (auto intro: kept_trans)
    qed
  qed (use 1(2) in auto)
qed

lemma copy_recursive_kept:
  assumes "copy_recursive s n nm = Some (k, s')" "fresh s"
  shows "kept (nodes s) (nodes s') \<and> fresh s'"
proof -
  from assms(1) obtain v where v: "nodes s n = Some v" by (auto simp: copy_recursive_def split: bind_splits)
  obtain j s1 where a: "alloc_vnode s nm (vkind v) = (j, s1)" by (cases "alloc_vnode s nm (vkind v)")
  note f = alloc_fresh [OF assms(2) a]
  have "kept (nodes s1) (nodes s') \<and> fresh s'"
  proof (cases "is_dir v")
    case True
    with assms(1) v a have "copy_chain s1 (vchildren v) j = Some s'"
      by (auto simp: copy_recursive_def split: bind_splits)
    with copy_chain_kept f(2) show ?thesis by blast
  qed (use assms(1) v a f(2) data_fresh data_kept in \<open>auto simp: copy_recursive_def\<close>)
  with f(1) show ?thesis by (auto intro: kept_trans)
qed

lemma copy_kept:
  assumes "copy s b src dest = Some (r, s')" "fresh s"
  shows "kept (nodes s) (nodes s')"
  using assms(1) copy_recursive_kept [OF _ assms(2)]
  by (fastforce simp: copy_def split: bind_splits option.splits prod.splits if_splits intro: kept_trans dest: link_child_kept(1))

lemma move_links_kept:
  assumes "unlink_child h par n = Some h1" "h1 n = Some w" "link_child (h1(n \<mapsto> set_name w leaf)) p n = Some h2"
  shows "kept h h2"
proof -
  have "kept h h1" using assms(1) by (auto simp: unlink_child_def dest: unlink_from_kept split: bind_splits)
  moreover have "kept h1 (h1(n \<mapsto> set_name w leaf))" using assms(2) by (rule kept_upd) (simp add: set_name_def)
  ultimately show ?thesis using link_child_kept(1) [OF assms(3)] kept_trans by blast
qed

lemma move_kept: "move_node s b src dest = Some (r, s') \<Longrightarrow> kept (nodes s) (nodes s')"
  by (auto simp: move_node_def split: bind_splits option.splits prod.splits if_splits intro: move_links_kept)

lemma create_leaf_kept:
  assumes "create_leaf s b path k = Some (r, s')" "fresh s"
  shows "kept (nodes s) (nodes s')"
  using assms(1) alloc_fresh [OF assms(2)]
  by (fastforce simp: create_leaf_def split: bind_splits option.splits prod.splits if_splits intro: kept_trans dest: link_child_kept(1))

lemma wf_fresh: "vfs_wf s t \<Longrightarrow> fresh s"
  using wf_rep(7) by (auto simp: fresh_def)

lemma remove_kept:
  assumes wf: "vfs_wf s t" "b \<in> set (tids t)" "cwd \<in> set (tids t)" and r: "remove s b path (Some cwd) = Some (r, s')"
    and n: "resolve s b path = Some (Some n)" and m: "nodes s m = Some v" "\<not> tcontains n m t"
  shows "\<exists>v'. nodes s' m = Some v' \<and> vkind v' = vkind v"
proof (rule remove_spec [OF wf, of path])
  fix q assume q: "resolve s b path = Some q"
    and no: "q = None \<or> q = Some (root s) \<or> (\<exists>n. q = Some n \<and> tcontains n cwd t) \<Longrightarrow> remove s b path (Some cwd) = Some (False, s)"
    and yes: "\<And>n. q = Some n \<Longrightarrow> n \<noteq> root s \<Longrightarrow> \<not> tcontains n cwd t \<Longrightarrow>
       \<exists>s'. remove s b path (Some cwd) = Some (True, s') \<and> vfs_wf s' (tdel n t)"
  show ?thesis
  proof (cases "n = root s \<or> tcontains n cwd t")
    case True
    with no q n r m(1) show ?thesis by auto
  next
    case False
    with yes [of n] q n r have wf': "vfs_wf s' (tdel n t)" by auto
    have mt: "m \<in> set (tids t)" using wf_rep(6) [OF wf(1), of m] m(1) by simp
    obtain u v0 where u: "tfind m t = Some u" "nodes s m = Some v0" "is_dir v0 = tdir u" by (rule wf_node [OF wf(1) mt])
    have "\<forall>w. tfind n t = Some w \<longrightarrow> m \<notin> set (tids w)" using m(2) by auto
    from tfind_tdel [OF u(1) wf_rep(2) [OF wf(1)] this] have t': "tfind m (tdel n t) = Some (tdel n u)" .
    then have "m \<in> set (tids (tdel n t))" by (metis tfind_None_iff option.distinct(1))
    then obtain u' v' where v': "tfind m (tdel n t) = Some u'" "nodes s' m = Some v'" "is_dir v' = tdir u'"
      by (rule wf_node [OF wf'])
    with t' u m(1) have "is_dir v' = is_dir v" by simp
    then have "vkind v' = vkind v" by (cases "vkind v'"; cases "vkind v") (auto simp: is_dir_def)
    with v'(2) show ?thesis by blast
  qed
qed

section \<open>Pipe references\<close>

text \<open>\<open>refs_ok st R W\<close>: every end of a pipe that \<open>R\<close> and \<open>W\<close> count is accounted for in the pipe's own counts.\<close>

definition refs_ok :: "pipe_store \<Rightarrow> (nat \<Rightarrow> nat) \<Rightarrow> (nat \<Rightarrow> nat) \<Rightarrow> bool" where
  "refs_ok st R W \<longleftrightarrow> (\<forall>q. case st q of None \<Rightarrow> R q = 0 \<and> W q = 0
     | Some p \<Rightarrow> pipe_inv p \<and> int (R q) \<le> read_refs p \<and> int (W q) \<le> write_refs p)"

lemma refs_okD: "refs_ok st R W \<Longrightarrow> st q = Some p \<Longrightarrow> pipe_inv p \<and> int (R q) \<le> read_refs p \<and> int (W q) \<le> write_refs p"
  by (auto simp: refs_ok_def dest: spec [of _ q])

lemma refs_ok_live: "refs_ok st R W \<Longrightarrow> 0 < R q \<or> 0 < W q \<Longrightarrow> \<exists>p. st q = Some p"
  by (auto simp: refs_ok_def dest: spec [of _ q] split: option.splits)

lemma refs_ok_mono:
  assumes "refs_ok st R W" "\<And>q. R' q \<le> R q" "\<And>q. W' q \<le> W q"
  shows "refs_ok st R' W'"
  unfolding refs_ok_def
proof
  fix q
  from assms(1) have "case st q of None \<Rightarrow> R q = 0 \<and> W q = 0
     | Some p \<Rightarrow> pipe_inv p \<and> int (R q) \<le> read_refs p \<and> int (W q) \<le> write_refs p" by (simp add: refs_ok_def)
  with assms(2) [of q] assms(3) [of q] show "case st q of None \<Rightarrow> R' q = 0 \<and> W' q = 0
     | Some p \<Rightarrow> pipe_inv p \<and> int (R' q) \<le> read_refs p \<and> int (W' q) \<le> write_refs p"
    by (auto split: option.splits)
qed

lemma refs_ok_upd:
  assumes "refs_ok st R W" "pipe_inv p" "int (R' q) \<le> read_refs p" "int (W' q) \<le> write_refs p"
    "\<And>r. r \<noteq> q \<Longrightarrow> R' r = R r \<and> W' r = W r"
  shows "refs_ok (st(q \<mapsto> p)) R' W'"
  unfolding refs_ok_def
proof
  fix r
  show "case (st(q \<mapsto> p)) r of None \<Rightarrow> R' r = 0 \<and> W' r = 0
     | Some p \<Rightarrow> pipe_inv p \<and> int (R' r) \<le> read_refs p \<and> int (W' r) \<le> write_refs p"
    using assms(1) [unfolded refs_ok_def, rule_format, of r] assms(2,3,4) assms(5) [of r] by (cases "r = q") (auto split: option.splits)
qed

lemma pipe_inv_refs [simp]: "pipe_inv (p\<lparr>read_refs := a\<rparr>) = pipe_inv p" "pipe_inv (p\<lparr>write_refs := a\<rparr>) = pipe_inv p"
  by (simp_all add: pipe_inv_def)

lemma free_if_unused_ok:
  assumes "refs_ok st R W" "st q = Some p"
  shows "\<exists>st'. free_if_unused st q = Some st' \<and> refs_ok st' R W \<and> dom st' \<subseteq> dom st"
  using assms refs_okD [OF assms] by (auto simp: free_if_unused_def refs_ok_def)

lemma close_read_ok:
  assumes "refs_ok st R W" "0 < R q"
  shows "\<exists>st'. close_read st q = Some st' \<and> refs_ok st' (R(q := R q - 1)) W \<and> dom st' \<subseteq> dom st"
proof -
  from refs_ok_live [OF assms(1), of q] assms(2) obtain p where p: "st q = Some p" by blast
  let ?st = "st(q \<mapsto> p\<lparr>read_refs := read_refs p - 1\<rparr>)"
  have "refs_ok ?st (R(q := R q - 1)) W" using refs_okD [OF assms(1) p] assms(2) by (intro refs_ok_upd [OF assms(1)]) auto
  from free_if_unused_ok [OF this, of q] p show ?thesis by (auto simp: close_read_def insert_absorb domI)
qed

lemma close_write_ok:
  assumes "refs_ok st R W" "0 < W q"
  shows "\<exists>st'. close_write st q = Some st' \<and> refs_ok st' R (W(q := W q - 1)) \<and> dom st' \<subseteq> dom st"
proof -
  from refs_ok_live [OF assms(1), of q] assms(2) obtain p where p: "st q = Some p" by blast
  let ?st = "st(q \<mapsto> p\<lparr>write_refs := write_refs p - 1\<rparr>)"
  have "refs_ok ?st R (W(q := W q - 1))" using refs_okD [OF assms(1) p] assms(2) by (intro refs_ok_upd [OF assms(1)]) auto
  from free_if_unused_ok [OF this, of q] p show ?thesis by (auto simp: close_write_def insert_absorb domI)
qed

lemma add_read_ok:
  assumes "refs_ok st R W" "0 < R q"
  shows "\<exists>st'. add_read q st = Some st' \<and> refs_ok st' (R(q := R q + 1)) W \<and> dom st' \<subseteq> dom st"
proof -
  from refs_ok_live [OF assms(1), of q] assms(2) obtain p where p: "st q = Some p" by blast
  have "refs_ok (st(q \<mapsto> p\<lparr>read_refs := read_refs p + 1\<rparr>)) (R(q := R q + 1)) W"
    using refs_okD [OF assms(1) p] by (intro refs_ok_upd [OF assms(1)]) auto
  with p show ?thesis by (auto simp: add_read_def)
qed

lemma add_write_ok:
  assumes "refs_ok st R W" "0 < W q"
  shows "\<exists>st'. add_write q st = Some st' \<and> refs_ok st' R (W(q := W q + 1)) \<and> dom st' \<subseteq> dom st"
proof -
  from refs_ok_live [OF assms(1), of q] assms(2) obtain p where p: "st q = Some p" by blast
  have "refs_ok (st(q \<mapsto> p\<lparr>write_refs := write_refs p + 1\<rparr>)) R (W(q := W q + 1))"
    using refs_okD [OF assms(1) p] by (intro refs_ok_upd [OF assms(1)]) auto
  with p show ?thesis by (auto simp: add_write_def)
qed

text \<open>The ends a list of descriptors holds.\<close>

definition ends :: "bool \<Rightarrow> open_file list \<Rightarrow> nat \<Rightarrow> nat" where
  "ends w fs q = length (filter (\<lambda>f. f = OPipe q w) fs)"

lemma ends_simps [simp]: "ends w [] q = 0" "ends w (f # fs) q = (if f = OPipe q w then 1 else 0) + ends w fs q"
  by (simp_all add: ends_def)

lemma ends_pos: "OPipe q w \<in> set fs \<Longrightarrow> 0 < ends w fs q"
  by (induction fs) auto

lemma ends_upd: "i < length fs \<Longrightarrow> ends w (fs[i := f]) q + (if fs ! i = OPipe q w then 1 else 0) = ends w fs q + (if f = OPipe q w then 1 else 0)"
proof (induction fs arbitrary: i)
  case (Cons g gs)
  show ?case
  proof (cases i)
    case (Suc j)
    with Cons.prems Cons.IH [of j] show ?thesis by simp
  qed simp
qed simp

lemma add_refs_ok:
  assumes "refs_ok st R W" "\<And>q. 0 < ends False fs q \<Longrightarrow> 0 < R q" "\<And>q. 0 < ends True fs q \<Longrightarrow> 0 < W q"
  shows "\<exists>st'. add_refs fs st = Some st' \<and> refs_ok st' (\<lambda>q. R q + ends False fs q) (\<lambda>q. W q + ends True fs q)
    \<and> dom st' \<subseteq> dom st"
  using assms
proof (induction fs arbitrary: st R W)
  case (Cons f fs)
  show ?case
  proof (cases f)
    case OFree
    with Cons.IH [OF Cons.prems(1)] Cons.prems(2,3) show ?thesis by simp
  next
    case (OFile n ps w)
    with Cons.IH [OF Cons.prems(1)] Cons.prems(2,3) show ?thesis by simp
  next
    case (OPipe q w)
    show ?thesis
    proof (cases w)
      case True
      have "0 < W q" using Cons.prems(3) [of q] OPipe True by simp
      from add_write_ok [OF Cons.prems(1) this] obtain st1 where st1: "add_write q st = Some st1"
        "refs_ok st1 R (W(q := W q + 1))" "dom st1 \<subseteq> dom st" by blast
      have "0 < R r" if "0 < ends False fs r" for r using Cons.prems(2) [of r] that by simp
      moreover have "0 < (W(q := W q + 1)) r" if "0 < ends True fs r" for r using Cons.prems(3) [of r] that by simp
      ultimately obtain st' where "add_refs fs st1 = Some st'"
        "refs_ok st' (\<lambda>q. R q + ends False fs q) (\<lambda>r. (W(q := W q + 1)) r + ends True fs r)" "dom st' \<subseteq> dom st1"
        using Cons.IH [OF st1(2)] by blast
      with st1 OPipe True show ?thesis by (intro exI [of _ st']) (auto elim!: refs_ok_mono del: subsetI intro: subset_trans)
    next
      case False
      have "0 < R q" using Cons.prems(2) [of q] OPipe False by simp
      from add_read_ok [OF Cons.prems(1) this] obtain st1 where st1: "add_read q st = Some st1"
        "refs_ok st1 (R(q := R q + 1)) W" "dom st1 \<subseteq> dom st" by blast
      have "0 < W r" if "0 < ends True fs r" for r using Cons.prems(3) [of r] that by simp
      moreover have "0 < (R(q := R q + 1)) r" if "0 < ends False fs r" for r using Cons.prems(2) [of r] that by simp
      ultimately obtain st' where "add_refs fs st1 = Some st'"
        "refs_ok st' (\<lambda>r. (R(q := R q + 1)) r + ends False fs r) (\<lambda>q. W q + ends True fs q)" "dom st' \<subseteq> dom st1"
        using Cons.IH [OF st1(2)] by blast
      with st1 OPipe False show ?thesis by (intro exI [of _ st']) (auto elim!: refs_ok_mono del: subsetI intro: subset_trans)
    qed
  qed
qed auto

section \<open>The invariant\<close>

definition file_ok :: "vheap \<Rightarrow> open_file \<Rightarrow> bool" where
  "file_ok h f = (case f of OFile n ps w \<Rightarrow> \<exists>v. h n = Some v \<and> (w \<longrightarrow> \<not> is_dir v) | _ \<Rightarrow> True)"

definition task_ok :: "vheap \<Rightarrow> usertask \<Rightarrow> bool" where
  "task_ok h t \<longleftrightarrow> h (tcwd t) \<noteq> None \<and> length (open_files t) = MAX_OPEN_FILES \<and> length (c_cc (termios_of t)) = NCCS
     \<and> (\<forall>f \<in> set (open_files t). file_ok h f)"

definition procs_ok :: "vheap \<Rightarrow> process list \<Rightarrow> bool" where
  "procs_ok h ps \<longleftrightarrow> length ps = MAX_PROCESSES \<and> (\<forall>p \<in> set ps. pstate p \<noteq> Unused \<longrightarrow> task_ok h (task p))"

text \<open>The pipe ends a task holds, and all processes together.\<close>

definition reads :: "usertask \<Rightarrow> nat \<Rightarrow> nat" where
  "reads t q = ends False (open_files t) q + (if stdin_pipe t = Some q then 1 else 0)"

definition writes :: "usertask \<Rightarrow> nat \<Rightarrow> nat" where
  "writes t q = ends True (open_files t) q + (if stdout_pipe t = Some q then 1 else 0)"

definition share :: "(usertask \<Rightarrow> nat \<Rightarrow> nat) \<Rightarrow> process \<Rightarrow> nat \<Rightarrow> nat" where
  "share f p q = (if pstate p = Unused then 0 else f (task p) q)"

definition held :: "(usertask \<Rightarrow> nat \<Rightarrow> nat) \<Rightarrow> process list \<Rightarrow> nat \<Rightarrow> nat" where
  "held f ps q = sum_list (map (\<lambda>p. share f p q) ps)"

definition pipes_ok :: "kernel \<Rightarrow> bool" where
  "pipes_ok k \<longleftrightarrow> refs_ok (kpipes k) (held reads (procs k)) (held writes (procs k)) \<and> dom (kpipes k) \<subseteq> {..<next_pipe k}"

definition kernel_inv :: "kernel \<Rightarrow> bool" where
  "kernel_inv k \<longleftrightarrow> (\<exists>t. vfs_wf (kfs k) t) \<and> procs_ok (nodes (kfs k)) (procs k) \<and> pipes_ok k
     \<and> (case current k of None \<Rightarrow> True | Some i \<Rightarrow> i < MAX_PROCESSES)"

lemma kernel_invD:
  assumes "kernel_inv k"
  shows "\<exists>t. vfs_wf (kfs k) t" "procs_ok (nodes (kfs k)) (procs k)" "length (procs k) = MAX_PROCESSES"
    "refs_ok (kpipes k) (held reads (procs k)) (held writes (procs k))" "dom (kpipes k) \<subseteq> {..<next_pipe k}"
    "\<And>i. current k = Some i \<Longrightarrow> i < MAX_PROCESSES"
  using assms by (auto simp: kernel_inv_def procs_ok_def pipes_ok_def)

lemma kernel_inv_task: "kernel_inv k \<Longrightarrow> i < MAX_PROCESSES \<Longrightarrow> pstate (slot k i) \<noteq> Unused \<Longrightarrow> task_ok (nodes (kfs k)) (task (slot k i))"
  by (simp add: kernel_inv_def procs_ok_def slot_def)

lemma held_upd: "i < length ps \<Longrightarrow> held f (ps[i := p]) q + share f (ps ! i) q = held f ps q + share f p q"
proof (induction ps arbitrary: i)
  case (Cons a ps)
  show ?case
  proof (cases i)
    case (Suc j)
    with Cons.prems Cons.IH [of j] show ?thesis by (simp add: held_def)
  qed (simp add: held_def)
qed simp

lemma held_mono: "i < length ps \<Longrightarrow> share f p q \<le> share f (ps ! i) q \<Longrightarrow> held f (ps[i := p]) q \<le> held f ps q"
  using held_upd [of i ps f p q] by simp

lemma held_ge: "i < length ps \<Longrightarrow> share f (ps ! i) q \<le> held f ps q"
  unfolding held_def by (intro member_le_sum_list) (auto simp: nth_mem)

lemma kept_file_ok: "kept h h' \<Longrightarrow> file_ok h f \<Longrightarrow> file_ok h' f"
  by (cases f) (auto simp: file_ok_def kept_def is_dir_def, metis)

lemma task_ok_file: "task_ok h t \<Longrightarrow> OFile n ps w \<in> set (open_files t) \<Longrightarrow> \<exists>v. h n = Some v \<and> (w \<longrightarrow> \<not> is_dir v)"
  by (fastforce simp: task_ok_def file_ok_def)

lemma kept_live: "kept h h' \<Longrightarrow> h n \<noteq> None \<Longrightarrow> h' n \<noteq> None"
  by (cases "h n") (auto simp: kept_def)

lemma kept_task_ok: "kept h h' \<Longrightarrow> task_ok h t \<Longrightarrow> task_ok h' t"
  using kept_file_ok kept_live by (auto simp: task_ok_def)

lemma kept_procs_ok: "kept h h' \<Longrightarrow> procs_ok h ps \<Longrightarrow> procs_ok h' ps"
  by (auto simp: procs_ok_def kept_task_ok)

text \<open>What the parts of the state may do under the invariant.\<close>

lemma inv_fs:
  assumes "kernel_inv k" "vfs_wf fs t" "kept (nodes (kfs k)) (nodes fs)"
  shows "kernel_inv (k\<lparr>kfs := fs\<rparr>)"
  using assms by (auto simp: kernel_inv_def pipes_ok_def dest: kept_procs_ok)

lemma inv_slot:
  assumes k: "kernel_inv k" and i: "i < MAX_PROCESSES"
    and p: "pstate p \<noteq> Unused \<Longrightarrow> task_ok (nodes (kfs k)) (task p)"
    and R: "\<And>q. share reads p q \<le> share reads (slot k i) q" and W: "\<And>q. share writes p q \<le> share writes (slot k i) q"
  shows "kernel_inv (set_slot i p k)"
proof -
  note inv = kernel_invD [OF k]
  have il: "i < length (procs k)" using i inv(3) by simp
  have "refs_ok (kpipes k) (held reads ((procs k)[i := p])) (held writes ((procs k)[i := p]))"
    by (rule refs_ok_mono [OF inv(4)]; rule held_mono [OF il]) (use R W in \<open>simp_all add: slot_def\<close>)
  moreover have "procs_ok (nodes (kfs k)) ((procs k)[i := p])"
    using inv(2) p by (auto simp: procs_ok_def dest!: set_mp [OF set_update_subset_insert])
  ultimately show ?thesis using inv(1,5,6) by (auto simp: kernel_inv_def pipes_ok_def set_slot_def split: option.splits)
qed

lemma inv_put_task:
  assumes "kernel_inv k" "i < MAX_PROCESSES" "pstate (slot k i) \<noteq> Unused" "task_ok (nodes (kfs k)) t"
    "\<And>q. reads t q \<le> reads (task (slot k i)) q" "\<And>q. writes t q \<le> writes (task (slot k i)) q"
  shows "kernel_inv (put_task i t k)"
  unfolding put_task_def by (rule inv_slot) (use assms in \<open>simp_all add: share_def\<close>)

lemma inv_pipe:
  assumes "kernel_inv k" "kpipes k q = Some p" "pipe_inv p'" "read_refs p' = read_refs p" "write_refs p' = write_refs p"
  shows "kernel_inv (k\<lparr>kpipes := (kpipes k)(q \<mapsto> p')\<rparr>)"
proof -
  note inv = kernel_invD [OF assms(1)]
  have "refs_ok ((kpipes k)(q \<mapsto> p')) (held reads (procs k)) (held writes (procs k))"
    using refs_okD [OF inv(4) assms(2)] assms(3-5) by (intro refs_ok_upd [OF inv(4)]) auto
  then show ?thesis using assms(1,2) inv(5) by (auto simp: kernel_inv_def pipes_ok_def)
qed

lemma slot_set [simp]: "i < length (procs k) \<Longrightarrow> slot (set_slot i p k) i = p"
  by (simp add: slot_def set_slot_def)

lemma slot_set_other [simp]: "i \<noteq> j \<Longrightarrow> slot (set_slot i p k) j = slot k j"
  by (simp add: slot_def set_slot_def)

lemma set_slot_simps [simp]:
  "kfs (set_slot i p k) = kfs k" "kpipes (set_slot i p k) = kpipes k" "next_pipe (set_slot i p k) = next_pipe k"
  "length (procs (set_slot i p k)) = length (procs k)" "current (set_slot i p k) = current k"
  "halted (set_slot i p k) = halted k" "next_pid (set_slot i p k) = next_pid k"
  by (simp_all add: set_slot_def)

lemma put_task_simps [simp]:
  "kfs (put_task i t k) = kfs k" "kpipes (put_task i t k) = kpipes k" "next_pipe (put_task i t k) = next_pipe k"
  "length (procs (put_task i t k)) = length (procs k)" "current (put_task i t k) = current k"
  "halted (put_task i t k) = halted k" "next_pid (put_task i t k) = next_pid k"
  "i < length (procs k) \<Longrightarrow> slot (put_task i t k) i = (slot k i)\<lparr>task := t\<rparr>"
  by (simp_all add: put_task_def)

text \<open>The parts of the state the invariant does not depend on.\<close>

lemma inv_other [simp]:
  "kernel_inv (k\<lparr>polls := n\<rparr>) = kernel_inv k" "kernel_inv (print bs k) = kernel_inv k" "kernel_inv (k\<lparr>halted := h\<rparr>) = kernel_inv k"
  "kernel_inv (k\<lparr>freed_spaces := l\<rparr>) = kernel_inv k" "kernel_inv (k\<lparr>freed_kstacks := l\<rparr>) = kernel_inv k"
  "kernel_inv (k\<lparr>next_pid := z\<rparr>) = kernel_inv k" "kernel_inv (k\<lparr>last_picked := n\<rparr>) = kernel_inv k"
  by (simp_all add: kernel_inv_def pipes_ok_def print_def)

lemma slot_other [simp]:
  "slot (k\<lparr>polls := n\<rparr>) = slot k" "slot (print bs k) = slot k" "slot (k\<lparr>halted := h\<rparr>) = slot k" "slot (k\<lparr>freed_spaces := l\<rparr>) = slot k"
  "slot (k\<lparr>freed_kstacks := l\<rparr>) = slot k" "slot (k\<lparr>next_pid := z\<rparr>) = slot k" "slot (k\<lparr>last_picked := n\<rparr>) = slot k"
  "slot (k\<lparr>kfs := fs\<rparr>) = slot k" "slot (k\<lparr>kpipes := st\<rparr>) = slot k" "slot (k\<lparr>current := c\<rparr>) = slot k"
  "slot (k\<lparr>next_pipe := n\<rparr>) = slot k"
  by (simp_all add: slot_def print_def fun_eq_iff)

lemma print_simps [simp]: "current (print bs k) = current k" "procs (print bs k) = procs k" "kfs (print bs k) = kfs k" "kpipes (print bs k) = kpipes k"
  by (simp_all add: print_def)

lemma inv_put_user:
  assumes "kernel_inv k" "i < MAX_PROCESSES" "pstate (slot k i) \<noteq> Unused" "put_user i ptr bs k = Some k'"
  shows "kernel_inv k' \<and> (\<exists>m. k' = put_task i ((task (slot k i))\<lparr>umem := m\<rparr>) k)"
proof -
  from assms(4) obtain m where k': "k' = put_task i ((task (slot k i))\<lparr>umem := m\<rparr>) k"
    by (auto simp: put_user_def split: bind_splits)
  have "kernel_inv (put_task i ((task (slot k i))\<lparr>umem := m\<rparr>) k)"
    by (rule inv_put_task [OF assms(1-3)]) (use kernel_inv_task [OF assms(1-3)] in \<open>auto simp: task_ok_def reads_def writes_def\<close>)
  with k' show ?thesis by blast
qed

section \<open>User memory\<close>

definition mapped :: "(nat \<Rightarrow> u8 option) \<Rightarrow> nat \<Rightarrow> nat \<Rightarrow> bool" where
  "mapped m p n \<longleftrightarrow> list_all (\<lambda>a. m a \<noteq> None) [p..<p + n]"

lemma mapped_less: "mapped m p n \<Longrightarrow> n' \<le> n \<Longrightarrow> mapped m p n'"
  by (auto simp: mapped_def list_all_iff)

lemma those_Some: "list_all (\<lambda>x. x \<noteq> None) xs \<Longrightarrow> \<exists>ys. those xs = Some ys \<and> length ys = length xs"
  by (induction xs) auto

lemma load_mapped: "mapped m p n \<Longrightarrow> \<exists>bs. load_bytes m p n = Some bs \<and> length bs = n"
  using those_Some [of "map m [p..<p + n]"] by (simp add: mapped_def load_bytes_def list_all_iff)

lemma put_user_mapped:
  assumes "mapped (umem (task (slot k i))) p n" "length bs \<le> n"
  shows "\<exists>k'. put_user i p bs k = Some k'"
  using mapped_less [OF assms] by (simp add: put_user_def store_bytes_def mapped_def)

section \<open>Every call keeps the invariant\<close>

definition safe :: "outcome \<Rightarrow> bool" where
  "safe r \<longleftrightarrow> (\<exists>v k. r = Some (v, k) \<and> kernel_inv k)"

lemma safe_simps [simp]: "safe (fail k) = kernel_inv k" "safe (ret v k) = kernel_inv k"
  by (simp_all add: safe_def fail_def ret_def)

text \<open>\<open>running k i\<close>: process \<open>i\<close> is the one making the call.\<close>

definition running :: "kernel \<Rightarrow> nat \<Rightarrow> bool" where
  "running k i \<longleftrightarrow> kernel_inv k \<and> current k = Some i \<and> pstate (slot k i) \<noteq> Unused"

lemma runningD:
  assumes "running k i"
  shows "kernel_inv k" "current k = Some i" "pstate (slot k i) \<noteq> Unused" "i < MAX_PROCESSES" "i < length (procs k)"
    "task_ok (nodes (kfs k)) (task (slot k i))"
  using assms kernel_invD [of k] kernel_inv_task [of k i] by (auto simp: running_def)

lemma with_task_running: "running k i \<Longrightarrow> with_task k f = f i (task (slot k i))"
  by (simp add: running_def with_task_def)

lemma running_wf:
  assumes "running k i"
  obtains t where "vfs_wf (kfs k) t" "tcwd (task (slot k i)) \<in> set (tids t)"
proof -
  note r = runningD [OF assms]
  from kernel_invD(1) [OF r(1)] obtain t where t: "vfs_wf (kfs k) t" by blast
  moreover have "tcwd (task (slot k i)) \<in> set (tids t)" using wf_rep(6) [OF t] r(6) by (auto simp: task_ok_def)
  ultimately show ?thesis by (rule that)
qed

lemma with_str_safe:
  assumes "kernel_inv k" "user_str (umem t) p \<noteq> None" "\<And>s. safe (f s)"
  shows "safe (with_str t p k f)"
  using assms by (auto simp: with_str_def split: option.splits)

lemma on_fs_safe:
  assumes "kernel_inv k" "\<exists>b fs t. r = Some (b, fs) \<and> vfs_wf fs t" "\<And>b fs. r = Some (b, fs) \<Longrightarrow> kept (nodes (kfs k)) (nodes fs)"
  shows "safe (on_fs r k)"
  using assms by (auto simp: on_fs_def intro: inv_fs)

lemma sys_mkdir_safe:
  assumes r: "running k i" and s: "user_str (umem (task (slot k i))) p \<noteq> None"
  shows "safe (sys_mkdir k p)"
proof -
  obtain t where t: "vfs_wf (kfs k) t" "tcwd (task (slot k i)) \<in> set (tids t)" by (rule running_wf [OF r])
  note inv = runningD(1) [OF r]
  show ?thesis unfolding sys_mkdir_def with_task_running [OF r]
    by (intro with_str_safe [OF inv s] on_fs_safe [OF inv])
      (use create_leaf_safe [OF t] create_leaf_kept [OF _ wf_fresh [OF t(1)]] in \<open>auto simp: mkdir_def\<close>)
qed

lemma sys_rename_safe:
  assumes r: "running k i" and s: "user_str (umem (task (slot k i))) p \<noteq> None" "user_str (umem (task (slot k i))) q \<noteq> None"
  shows "safe (sys_rename k p q)"
proof -
  obtain t where t: "vfs_wf (kfs k) t" "tcwd (task (slot k i)) \<in> set (tids t)" by (rule running_wf [OF r])
  note inv = runningD(1) [OF r]
  show ?thesis unfolding sys_rename_def with_task_running [OF r]
    by (intro with_str_safe [OF inv s(1)] with_str_safe [OF inv s(2)] on_fs_safe [OF inv])
      (use move_safe [OF t] move_kept in auto)
qed

lemma sys_copy_safe:
  assumes r: "running k i" and s: "user_str (umem (task (slot k i))) p \<noteq> None" "user_str (umem (task (slot k i))) q \<noteq> None"
  shows "safe (sys_copy k p q)"
proof -
  obtain t where t: "vfs_wf (kfs k) t" "tcwd (task (slot k i)) \<in> set (tids t)" by (rule running_wf [OF r])
  note inv = runningD(1) [OF r]
  show ?thesis unfolding sys_copy_def with_task_running [OF r]
    by (intro with_str_safe [OF inv s(1)] with_str_safe [OF inv s(2)] on_fs_safe [OF inv])
      (use copy_safe [OF t] copy_kept [OF _ wf_fresh [OF t(1)]] in auto)
qed

end
