(* ===== verification/KernelCalls.thy ===== *)
theory KernelCalls
  imports KernelSafe
begin

text \<open>
  Every system call of theory \<open>Syscall\<close> keeps the kernel invariant of theory \<open>KernelSafe\<close>: the file
  system stays a tree, no descriptor and no working directory dangles, and every pipe end a process
  holds is counted in its pipe.
\<close>

section \<open>Descriptors\<close>

lemma position_Some: "position P xs = Some i \<Longrightarrow> i < length xs \<and> P (xs ! i)"
  by (auto simp: position_def find_Some_iff)

lemma ends_set_le: "(\<And>q. f \<noteq> OPipe q w) \<Longrightarrow> ends w (fs[j := f]) q \<le> ends w fs q"
  using ends_upd [of j fs w f q] by (cases "j < length fs") (auto simp: list_update_beyond)

lemma reads_set_le: "(\<And>q. f \<noteq> OPipe q False) \<Longrightarrow> reads (t\<lparr>open_files := (open_files t)[j := f]\<rparr>) q \<le> reads t q"
  by (simp add: reads_def ends_set_le)

lemma writes_set_le: "(\<And>q. f \<noteq> OPipe q True) \<Longrightarrow> writes (t\<lparr>open_files := (open_files t)[j := f]\<rparr>) q \<le> writes t q"
  by (simp add: writes_def ends_set_le)

lemma task_ok_set: "task_ok h t \<Longrightarrow> file_ok h f \<Longrightarrow> task_ok h (t\<lparr>open_files := (open_files t)[j := f]\<rparr>)"
  by (auto simp: task_ok_def dest!: set_mp [OF set_update_subset_insert])

lemma open_file_Some:
  assumes "open_file t fd = Some f"
  shows "f \<in> set (open_files t)" "f \<noteq> OFree" "fd - 3 < length (open_files t)" "open_files t ! (fd - 3) = f" "3 \<le> fd"
  using assms by (auto simp: open_file_def split: if_splits)

text \<open>Replacing one descriptor of the running task by one that holds no pipe end.\<close>

lemma inv_set_file:
  assumes r: "running k i" and f: "file_ok (nodes (kfs k)) f" "\<And>q w. f \<noteq> OPipe q w"
  shows "kernel_inv (put_task i ((task (slot k i))\<lparr>open_files := (open_files (task (slot k i)))[j := f]\<rparr>) k)"
  by (rule inv_put_task [OF runningD(1,4,3) [OF r]])
    (use task_ok_set [OF runningD(6) [OF r] f(1)] reads_set_le writes_set_le f(2) in simp_all)

lemma inv_put_data:
  assumes k: "kernel_inv k" and n: "nodes (kfs k) n = Some v" "\<not> is_dir v"
  shows "kernel_inv (put_data n d k)"
proof -
  from kernel_invD(1) [OF k] obtain t where t: "vfs_wf (kfs k) t" by blast
  have "n \<in> set (tids t)" using wf_rep(6) [OF t, of n] n(1) by simp
  then obtain u v0 where u: "tfind n t = Some u" "nodes (kfs k) n = Some v0" "is_dir v0 = tdir u" by (rule wf_node [OF t])
  with n have "vfs_wf ((kfs k)\<lparr>nodes := (nodes (kfs k))(n \<mapsto> v\<lparr>vdata := d\<rparr>)\<rparr>) (tput n d t)"
    by (intro write_data_wf [OF t u(1)]) auto
  with n(1) show ?thesis unfolding put_data_def by (auto intro!: inv_fs [OF k] kept_upd)
qed

lemma put_data_simps [simp]:
  "procs (put_data n d k) = procs k" "slot (put_data n d k) i = slot k i" "current (put_data n d k) = current k"
  "kpipes (put_data n d k) = kpipes k"
  by (simp_all add: put_data_def slot_def)

lemma put_data_kept: "kept (nodes (kfs k)) (nodes (kfs (put_data n d k)))"
  by (simp add: put_data_def data_kept)

section \<open>Files\<close>

lemma open_target_ok:
  assumes t: "vfs_wf fs t" "b \<in> set (tids t)"
  obtains r fs' t' where "open_target fs b path flags = Some (r, fs')"
    "vfs_wf fs' t'" "kept (nodes fs) (nodes fs')" "\<And>n. r = Some n \<Longrightarrow> nodes fs' n \<noteq> None"
proof -
  from resolve_wf [OF t] obtain r where r: "resolve fs b path = Some r" "\<And>m. r = Some m \<Longrightarrow> m \<in> set (tids t)" by blast
  show ?thesis
  proof (cases "r = None \<and> flags AND O_CREAT \<noteq> 0")
    case False
    then show ?thesis using r wf_rep(6) [OF t(1)]
      by (intro that [of r fs t]) (auto simp: open_target_def t split: option.splits)
  next
    case True
    from create_leaf_safe [OF t] obtain ok fs' t' where c: "create_leaf fs b path File = Some (ok, fs')" "vfs_wf fs' t'" by blast
    note kp = create_leaf_kept [OF c(1) wf_fresh [OF t(1)]]
    have "b \<in> set (tids t')" using kept_live [OF kp, of b] wf_rep(6) [OF t(1)] wf_rep(6) [OF c(2)] t(2) by blast
    from resolve_wf [OF c(2) this] obtain r' where r': "resolve fs' b path = Some r'"
      "\<And>m. r' = Some m \<Longrightarrow> m \<in> set (tids t')" by blast
    show ?thesis
    proof (rule that [of "if ok then r' else None" fs' t'])
      show "open_target fs b path flags = Some (if ok then r' else None, fs')"
        using True r c(1) r'(1) by (simp add: open_target_def create_file_def)
      show "nodes fs' n \<noteq> None" if "(if ok then r' else None) = Some n" for n
        using that r'(2) wf_rep(6) [OF c(2)] by (auto split: if_splits)
    qed (use c kp in auto)
  qed
qed

lemma open_vnode_safe:
  assumes r: "running k i" and n: "nodes (kfs k) node = Some n"
  shows "safe (open_vnode k i node flags)"
proof (cases "is_dir n \<and> flags \<noteq> O_RDONLY")
  case False
  let ?w = "open_access flags = O_WRONLY"
  let ?k = "if flags AND O_TRUNC \<noteq> 0 \<and> \<not> is_dir n \<and> ?w then put_data node [] k else k"
  have k: "kernel_inv ?k" using runningD(1) [OF r] n by (auto intro: inv_put_data)
  have r': "running ?k i" using k r by (auto simp: running_def)
  have s: "slot ?k i = slot k i" by simp
  have "?w \<Longrightarrow> \<not> is_dir n" using False by (auto simp: open_access_def O_RDONLY_def O_WRONLY_def)
  then have "file_ok (nodes (kfs k)) (OFile node 0 ?w)" using n by (simp add: file_ok_def)
  then have "file_ok (nodes (kfs ?k)) (OFile node 0 ?w)" using kept_file_ok [OF put_data_kept] by auto
  from inv_set_file [OF r' this] have f: "kernel_inv (put_task i
      ((task (slot k i))\<lparr>open_files := (open_files (task (slot k i)))[j := OFile node 0 ?w]\<rparr>) ?k)" for j
    unfolding s by simp
  have "open_vnode k i node flags = (case free_slot (task (slot k i)) of None \<Rightarrow> fail ?k
     | Some j \<Rightarrow> ret (3 + int j) (put_task i ((task (slot k i))\<lparr>open_files := (open_files (task (slot k i)))[j := OFile node 0 ?w]\<rparr>) ?k))"
    unfolding open_vnode_def Let_def using n False by (simp only: option.sel bind.bind_lunit if_False simp_thms)
  then show ?thesis
    by (cases "free_slot (task (slot k i))") (simp_all only: option.case safe_simps k f)
qed (use n runningD(1) [OF r] in \<open>simp add: open_vnode_def\<close>)

lemma sys_open_safe:
  assumes r: "running k i" and s: "user_str (umem (task (slot k i))) p \<noteq> None"
  shows "safe (sys_open k p flags)"
proof -
  note inv = runningD(1) [OF r]
  obtain t where t: "vfs_wf (kfs k) t" "tcwd (task (slot k i)) \<in> set (tids t)" by (rule running_wf [OF r])
  have "safe (do { (r, fs) \<leftarrow> open_target (kfs k) (tcwd (task (slot k i))) path flags;
       case r of None \<Rightarrow> fail (k\<lparr>kfs := fs\<rparr>) | Some node \<Rightarrow> open_vnode (k\<lparr>kfs := fs\<rparr>) i node flags })" for path
  proof (rule open_target_ok [OF t, of path flags])
    fix q fs t'
    assume q: "open_target (kfs k) (tcwd (task (slot k i))) path flags = Some (q, fs)" "vfs_wf fs t'"
      "kept (nodes (kfs k)) (nodes fs)" "\<And>n. q = Some n \<Longrightarrow> nodes fs n \<noteq> None"
    have k: "kernel_inv (k\<lparr>kfs := fs\<rparr>)" by (rule inv_fs [OF inv q(2,3)])
    then have "running (k\<lparr>kfs := fs\<rparr>) i" using r by (simp add: running_def slot_def)
    with q(1,4) k show ?thesis by (cases q) (auto intro: open_vnode_safe)
  qed
  then show ?thesis unfolding sys_open_def with_task_running [OF r] by (intro with_str_safe [OF inv s]) (simp add: inv)
qed

lemma held_put_task:
  assumes "i < length (procs k)" "pstate (slot k i) \<noteq> Unused"
  shows "held f (procs (put_task i t k)) q + f (task (slot k i)) q = held f (procs k) q + f t q"
  using held_upd [OF assms(1), of f "(slot k i)\<lparr>task := t\<rparr>" q] assms(2) by (simp add: put_task_def set_slot_def share_def slot_def)

lemma held_running:
  assumes "running k i"
  shows "reads (task (slot k i)) q \<le> held reads (procs k) q" "writes (task (slot k i)) q \<le> held writes (procs k) q"
  using runningD(3) [OF assms] held_ge [OF runningD(5) [OF assms], of reads q] held_ge [OF runningD(5) [OF assms], of writes q]
  by (simp_all add: share_def slot_def)

text \<open>A change of the pipes together with the running task's own ends.\<close>

lemma inv_pipes_task:
  assumes r: "running k i" and t: "task_ok (nodes (kfs k)) t" and st: "refs_ok st R W" "dom st \<subseteq> {..<next_pipe k}"
    and R: "\<And>q. held reads (procs (put_task i t k)) q \<le> R q" and W: "\<And>q. held writes (procs (put_task i t k)) q \<le> W q"
  shows "kernel_inv (put_task i t (k\<lparr>kpipes := st\<rparr>))"
proof -
  note inv = runningD [OF r] and ki = kernel_invD [OF runningD(1) [OF r]]
  have p: "procs (put_task i t (k\<lparr>kpipes := st\<rparr>)) = procs (put_task i t k)" by (simp add: put_task_def set_slot_def slot_def)
  have "procs_ok (nodes (kfs k)) (procs (put_task i t k))"
    using ki(2) t by (auto simp: procs_ok_def put_task_def set_slot_def dest!: set_mp [OF set_update_subset_insert])
  with ki(1,6) p refs_ok_mono [OF st(1) R W] st(2) show ?thesis
    by (auto simp: kernel_inv_def pipes_ok_def split: option.splits)
qed

lemma sys_close_safe:
  assumes r: "running k i"
  shows "safe (sys_close k fd)"
proof (cases "open_file (task (slot k i)) fd")
  case (Some f)
  let ?t = "task (slot k i)" let ?t' = "set_file fd OFree (task (slot k i))"
  note of = open_file_Some [OF Some] and inv = runningD [OF r] and ki = kernel_invD [OF runningD(1) [OF r]]
  have t': "task_ok (nodes (kfs k)) ?t'" using task_ok_set [OF inv(6), of OFree "fd - 3"] by (simp add: set_file_def file_ok_def)
  note hR = held_put_task [OF inv(5,3), of reads ?t'] and hW = held_put_task [OF inv(5,3), of writes ?t']
  have en: "ends w (open_files ?t') q + (if f = OPipe q w then 1 else 0) = ends w (open_files ?t) q" for w q
    using ends_upd [OF of(3), of w OFree q] of(4) by (simp add: set_file_def)
  have rt: "reads ?t' q + (if f = OPipe q False then 1 else 0) = reads ?t q"
    "writes ?t' q + (if f = OPipe q True then 1 else 0) = writes ?t q" for q
    using en [of False q] en [of True q] by (simp_all add: reads_def writes_def set_file_def)
  have "\<exists>st. (case f of OPipe p w \<Rightarrow> if w then close_write (kpipes k) p else close_read (kpipes k) p | _ \<Rightarrow> Some (kpipes k)) = Some st
    \<and> kernel_inv (put_task i ?t' (k\<lparr>kpipes := st\<rparr>))"
  proof (cases f)
    case (OPipe q w)
    show ?thesis
    proof (cases w)
      case True
      have "0 < held writes (procs k) q" using held_running(2) [OF r, of q] rt(2) [of q] OPipe True by simp
      from close_write_ok [OF ki(4) this] obtain st where st: "close_write (kpipes k) q = Some st"
        "refs_ok st (held reads (procs k)) ((held writes (procs k))(q := held writes (procs k) q - 1))" "dom st \<subseteq> dom (kpipes k)"
        by blast
      have "kernel_inv (put_task i ?t' (k\<lparr>kpipes := st\<rparr>))"
      proof (rule inv_pipes_task [OF r t' st(2)])
        show "held reads (procs (put_task i ?t' k)) p \<le> held reads (procs k) p" for p using hR [of p] rt(1) [of p] by linarith
        show "held writes (procs (put_task i ?t' k)) p \<le> ((held writes (procs k))(q := held writes (procs k) q - 1)) p" for p
          using hW [of p] rt(2) [of p] OPipe True by (auto split: if_splits)
      qed (use st(3) ki(5) in blast)
      with st(1) OPipe True show ?thesis by simp
    next
      case False
      have "0 < held reads (procs k) q" using held_running(1) [OF r, of q] rt(1) [of q] OPipe False by simp
      from close_read_ok [OF ki(4) this] obtain st where st: "close_read (kpipes k) q = Some st"
        "refs_ok st ((held reads (procs k))(q := held reads (procs k) q - 1)) (held writes (procs k))" "dom st \<subseteq> dom (kpipes k)"
        by blast
      have "kernel_inv (put_task i ?t' (k\<lparr>kpipes := st\<rparr>))"
      proof (rule inv_pipes_task [OF r t' st(2)])
        show "held writes (procs (put_task i ?t' k)) p \<le> held writes (procs k) p" for p using hW [of p] rt(2) [of p] by linarith
        show "held reads (procs (put_task i ?t' k)) p \<le> ((held reads (procs k))(q := held reads (procs k) q - 1)) p" for p
          using hR [of p] rt(1) [of p] OPipe False by (auto split: if_splits)
      qed (use st(3) ki(5) in blast)
      with st(1) OPipe False show ?thesis by simp
    qed
  next
    case (OFile n ps w)
    with inv_set_file [OF r, of OFree "fd - 3"] show ?thesis by (simp add: file_ok_def set_file_def)
  qed (use of(2) in simp)
  then show ?thesis using Some unfolding sys_close_def with_task_running [OF r] by auto
qed (use runningD(1) [OF r] in \<open>simp add: sys_close_def with_task_running [OF r]\<close>)

lemma sys_chdir_safe:
  assumes r: "running k i" and s: "user_str (umem (task (slot k i))) p \<noteq> None"
  shows "safe (sys_chdir k p)"
proof -
  note inv = runningD [OF r]
  obtain t where t: "vfs_wf (kfs k) t" "tcwd (task (slot k i)) \<in> set (tids t)" by (rule running_wf [OF r])
  have "safe (do { q \<leftarrow> resolve (kfs k) (tcwd (task (slot k i))) path;
     case q of None \<Rightarrow> fail k
     | Some node \<Rightarrow> do { n \<leftarrow> nodes (kfs k) node;
         if \<not> is_dir n then fail k else ret 0 (put_task i ((task (slot k i))\<lparr>tcwd := node\<rparr>) k) } })" for path
  proof -
    from resolve_wf [OF t] obtain q where q: "resolve (kfs k) (tcwd (task (slot k i))) path = Some q"
      "\<And>m. q = Some m \<Longrightarrow> m \<in> set (tids t)" by blast
    have "kernel_inv (put_task i ((task (slot k i))\<lparr>tcwd := node\<rparr>) k)" if "nodes (kfs k) node = Some n" for node n
      by (rule inv_put_task [OF inv(1,4,3)]) (use inv(6) that in \<open>auto simp: task_ok_def reads_def writes_def\<close>)
    moreover have "nodes (kfs k) node \<noteq> None" if "q = Some node" for node using q(2) [OF that] wf_rep(6) [OF t(1)] by simp
    ultimately show ?thesis using q(1) inv(1) by (cases q) auto
  qed
  then show ?thesis unfolding sys_chdir_def with_task_running [OF r] by (intro with_str_safe [OF inv(1) s]) simp
qed

section \<open>Removing\<close>

text \<open>No open descriptor refers to \<open>n\<close> or to anything below it.\<close>

definition none_open :: "kernel \<Rightarrow> nat \<Rightarrow> bool" where
  "none_open k n \<longleftrightarrow> list_all (\<lambda>p. pstate p = Unused \<or> list_all (\<lambda>f. case f of
     OFile m ps w \<Rightarrow> is_ancestor_or_self (nodes (kfs k)) n (Some m) = Some False | _ \<Rightarrow> True) (open_files (task p))) (procs k)"

lemma any_within_ok:
  assumes t: "vfs_wf fs t" and ps: "\<forall>p \<in> set ps. pstate p \<noteq> Unused \<longrightarrow> tcwd (task p) \<in> set (tids t)"
  shows "any_within (nodes fs) n ps = Some (\<exists>p \<in> set ps. pstate p \<noteq> Unused \<and> tcontains n (tcwd (task p)) t)"
  using ps by (induction ps) (auto simp: is_ancestor_wf [OF t])

lemma sys_unlink_safe:
  assumes r: "running k i" and s: "user_str (umem (task (slot k i))) p \<noteq> None"
    and open': "\<And>path n. user_str (umem (task (slot k i))) p = Some (Some path) \<Longrightarrow>
      resolve (kfs k) (tcwd (task (slot k i))) path = Some (Some n) \<Longrightarrow> none_open k n"
  shows "safe (sys_unlink k p)"
proof (cases "user_str (umem (task (slot k i))) p")
  case (Some str)
  note inv = runningD [OF r] and ki = kernel_invD [OF runningD(1) [OF r]]
  let ?cwd = "tcwd (task (slot k i))"
  obtain t where t: "vfs_wf (kfs k) t" "?cwd \<in> set (tids t)" by (rule running_wf [OF r])
  note dm = wf_rep(6) [OF t(1)]
  have live: "\<forall>p \<in> set (procs k). pstate p \<noteq> Unused \<longrightarrow> tcwd (task p) \<in> set (tids t)"
    using ki(2) dm by (auto simp: procs_ok_def task_ok_def)
  show ?thesis
  proof (cases str)
    case (Some path)
    with \<open>user_str (umem (task (slot k i))) p = Some str\<close> have us: "user_str (umem (task (slot k i))) p = Some (Some path)" by simp
    from resolve_wf [OF t] obtain q where q: "resolve (kfs k) ?cwd path = Some q" by blast
    have "safe (on_fs (remove (kfs k) ?cwd path (Some ?cwd)) k)"
      if n: "q = Some n" and busy: "\<not> (\<exists>p \<in> set (procs k). pstate p \<noteq> Unused \<and> tcontains n (tcwd (task p)) t)" for n
    proof -
      from remove_safe [OF t t(2), of path] obtain b fs t' where rm: "remove (kfs k) ?cwd path (Some ?cwd) = Some (b, fs)"
        "vfs_wf fs t'" by blast
      note kp = remove_kept [OF t t(2) rm(1) q [unfolded n]]
      have no: "none_open k n" using open' us q n by simp
      have "task_ok (nodes fs) (task x)" if x: "x \<in> set (procs k)" "pstate x \<noteq> Unused" for x
      proof -
        have tk: "task_ok (nodes (kfs k)) (task x)" using ki(2) x by (simp add: procs_ok_def)
        then obtain v where "nodes (kfs k) (tcwd (task x)) = Some v" by (auto simp: task_ok_def)
        from kp [OF this] busy x have "nodes fs (tcwd (task x)) \<noteq> None" by auto
        moreover have "file_ok (nodes fs) f" if f: "f \<in> set (open_files (task x))" for f
        proof (cases f)
          case (OFile m ps w)
          with task_ok_file [OF tk] f obtain v where v: "nodes (kfs k) m = Some v" "w \<longrightarrow> \<not> is_dir v" by blast
          have "is_ancestor_or_self (nodes (kfs k)) n (Some m) = Some False"
            using no x f OFile by (fastforce simp: none_open_def list_all_iff)
          with is_ancestor_wf [OF t(1), of m n] dm v(1) have "\<not> tcontains n m t" by (metis option.inject option.distinct(1))
          from kp [OF v(1) this] v OFile show ?thesis by (auto simp: file_ok_def is_dir_def)
        qed (simp_all add: file_ok_def)
        ultimately show ?thesis using tk by (simp add: task_ok_def)
      qed
      then have "procs_ok (nodes fs) (procs k)" using ki(3) by (simp add: procs_ok_def)
      then have "kernel_inv (k\<lparr>kfs := fs\<rparr>)" using inv(1) rm(2) by (auto simp: kernel_inv_def pipes_ok_def)
      with rm(1) show ?thesis by (simp add: on_fs_def)
    qed
    then show ?thesis using q us inv(1) any_within_ok [OF t(1) live]
      unfolding sys_unlink_def with_task_running [OF r] by (cases q) (auto simp: with_str_def cwd_within_def)
  qed (use \<open>user_str (umem (task (slot k i))) p = Some str\<close> inv(1) in \<open>simp add: sys_unlink_def with_task_running [OF r] with_str_def\<close>)
qed (use s in simp)

section \<open>Reading and writing\<close>

lemma sys_lseek_safe:
  assumes r: "running k i"
  shows "safe (sys_lseek k fd off whence)"
proof -
  note inv = runningD [OF r]
  show ?thesis
  proof (cases "open_file (task (slot k i)) fd")
    case (Some f)
    show ?thesis
    proof (cases f)
      case (OFile n ps w)
      with Some have of: "open_file (task (slot k i)) fd = Some (OFile n ps w)" by simp
      from task_ok_file [OF inv(6) open_file_Some(1) [OF of]] obtain v where v: "nodes (kfs k) n = Some v" "w \<longrightarrow> \<not> is_dir v" by blast
      have "kernel_inv (put_task i (set_file fd (OFile n (nat new) w) (task (slot k i))) k)" for new
        unfolding set_file_def by (rule inv_set_file [OF r]) (use v in \<open>simp_all add: file_ok_def\<close>)
      with of v(1) inv(1) show ?thesis
        by (simp add: sys_lseek_def with_task_running [OF r] Let_def split: option.splits)
    qed (use Some inv(1) in \<open>simp_all add: sys_lseek_def with_task_running [OF r]\<close>)
  qed (use inv(1) in \<open>simp add: sys_lseek_def with_task_running [OF r]\<close>)
qed

text \<open>Writing to the caller's memory leaves it running, with the same descriptors.\<close>

lemma running_put_user:
  assumes r: "running k i" and m: "mapped (umem (task (slot k i))) p n" "length bs \<le> n"
  obtains k' where "put_user i p bs k = Some k'" "running k' i" "kfs k' = kfs k"
    "open_files (task (slot k' i)) = open_files (task (slot k i))" "kpipes k' = kpipes k"
proof -
  note inv = runningD [OF r]
  from put_user_mapped [OF m] obtain k' where k': "put_user i p bs k = Some k'" by blast
  from inv_put_user [OF inv(1,4,3) this] obtain m' where
    "kernel_inv k'" "k' = put_task i ((task (slot k i))\<lparr>umem := m'\<rparr>) k" by blast
  with k' inv(2,3,5) show ?thesis by (intro that [of k']) (auto simp: running_def)
qed

lemma wf_children:
  assumes t: "vfs_wf fs t" and n: "nodes fs n = Some v"
  obtains cs where "children_from (nodes fs) (vchildren v) = Some cs"
    "\<forall>c \<in> set cs. \<exists>w. nodes fs c = Some w \<and> length (vname w) < NAME_MAX"
proof -
  have "n \<in> set (tids t)" using wf_rep(6) [OF t, of n] n by simp
  then obtain u v0 where u: "tfind n t = Some u" "nodes fs n = Some v0" "rep (nodes fs) (vparent v0) (vsibling v0) u" "tid u = n"
    by (rule wf_node [OF t])
  from rep_top [OF u(3)] u(2,4) n have c: "vchildren v = first_id (tkids u)" "reps (nodes fs) (Some n) (tkids u)" by auto
  have "\<exists>w. nodes fs (tid x) = Some w \<and> length (vname w) < NAME_MAX" if x: "x \<in> set (tkids u)" for x
  proof -
    have "tid x \<in> set (tids u)" using x tid_in_tids [of x] by (force simp: tids_split [of u])
    then have "tid x \<in> set (tids t)" using tfind_props [OF u(1)] by blast
    then obtain y w where y: "tfind (tid x) t = Some y" "nodes fs (tid x) = Some w" "vname w = tname y" by (rule wf_node [OF t])
    with wf_good_name [OF t y(1)] show ?thesis by (cases "tname y = []") (auto simp: good_name_def NAME_MAX_def)
  qed
  with c children_from_reps [OF c(2)] show ?thesis by (intro that [of "map tid (tkids u)"]) auto
qed

lemma length_dirent: "length (vname v) < NAME_MAX \<Longrightarrow> length (dirent_bytes v) = 1 + NAME_MAX"
  by (simp add: dirent_bytes_def)

lemma sys_getdents_safe:
  assumes r: "running k i" and m: "user_ok out (1 + NAME_MAX) \<Longrightarrow> mapped (umem (task (slot k i))) out (1 + NAME_MAX)"
  shows "safe (sys_getdents k fd out)"
proof -
  note inv = runningD [OF r]
  show ?thesis
  proof (cases "open_file (task (slot k i)) fd")
    case (Some f)
    show ?thesis
    proof (cases f)
      case (OFile n ps w)
      with Some have of: "open_file (task (slot k i)) fd = Some (OFile n ps w)" by simp
      from task_ok_file [OF inv(6) open_file_Some(1) [OF of]] obtain v where v: "nodes (kfs k) n = Some v" "w \<longrightarrow> \<not> is_dir v" by blast
      obtain t where t: "vfs_wf (kfs k) t" by (rule running_wf [OF r])
      obtain cs where cs: "children_from (nodes (kfs k)) (vchildren v) = Some cs"
        "\<forall>c \<in> set cs. \<exists>w. nodes (kfs k) c = Some w \<and> length (vname w) < NAME_MAX" by (rule wf_children [OF t v(1)])
      have "safe (do { child \<leftarrow> nodes (kfs k) (cs ! ps); k \<leftarrow> put_user i out (dirent_bytes child) k;
          ret 1 (put_task i (set_file fd (OFile n (ps + 1) w) (task (slot k i))) k) })" if pl: "ps < length cs" and uo: "user_ok out (1 + NAME_MAX)"
      proof -
        from cs(2) [rule_format, of "cs ! ps"] pl obtain c where c: "nodes (kfs k) (cs ! ps) = Some c" "length (vname c) < NAME_MAX" by auto
        obtain k' where k': "put_user i out (dirent_bytes c) k = Some k'" "running k' i" "kfs k' = kfs k"
          by (rule running_put_user [OF r m [OF uo], of "dirent_bytes c"]) (use length_dirent [OF c(2)] in auto)
        have "kernel_inv (put_task i (set_file fd (OFile n (ps + 1) w) (task (slot k' i))) k')"
          unfolding set_file_def by (rule inv_set_file [OF k'(2)]) (use v k'(3) in \<open>simp_all add: file_ok_def\<close>)
        with c(1) k'(1) show ?thesis by simp
      qed
      with of v(1) cs(1) inv(1) show ?thesis by (simp add: sys_getdents_def with_task_running [OF r])
    qed (use Some inv(1) in \<open>simp_all add: sys_getdents_def with_task_running [OF r]\<close>)
  qed (use inv(1) in \<open>simp add: sys_getdents_def with_task_running [OF r]\<close>)
qed

lemma write_pipe_safe:
  assumes r: "running k i" and q: "0 < held writes (procs k) q" and m: "mapped (umem t) b len"
  shows "safe (write_pipe q b len t k)"
proof -
  note ki = kernel_invD [OF runningD(1) [OF r]]
  from refs_ok_live [OF ki(4)] q obtain p where p: "kpipes k q = Some p" by blast
  have "pipe_touched p len \<le> len" by (simp add: pipe_touched_def)
  from load_mapped [OF mapped_less [OF m this]] obtain data where d: "load_bytes (umem t) b (pipe_touched p len) = Some data" by blast
  obtain n p' where w: "pipe_write p (data @ replicate (len - length data) 0) = (n, p')" by force
  have "kernel_inv (k\<lparr>kpipes := (kpipes k)(q \<mapsto> p')\<rparr>)"
    by (rule inv_pipe [OF runningD(1) [OF r] p])
      (use pipe_put_spec [OF _ w] refs_okD [OF ki(4) p] pipe_refs_unchanged(1,2) [of p "data @ replicate (len - length data) 0"] w in auto)
  with p d w show ?thesis by (simp add: write_pipe_def)
qed

lemma pipe_read_length: "pipe_read p len = (Some d, p') \<Longrightarrow> length d \<le> len"
  by (auto simp: pipe_read_def Let_def split: if_splits)

lemma read_pipe_safe:
  assumes r: "running k i" and q: "0 < held reads (procs k) q" and m: "mapped (umem (task (slot k i))) b len"
  shows "safe (read_pipe q b len i k)"
proof -
  note ki = kernel_invD [OF runningD(1) [OF r]]
  from refs_ok_live [OF ki(4)] q obtain p where p: "kpipes k q = Some p" by blast
  obtain d p' where w: "pipe_read p len = (d, p')" by force
  let ?k = "k\<lparr>kpipes := (kpipes k)(q \<mapsto> p')\<rparr>"
  have k: "kernel_inv ?k"
    by (rule inv_pipe [OF runningD(1) [OF r] p])
      (use pipe_get_spec [OF _ w] refs_okD [OF ki(4) p] pipe_refs_unchanged(3,4) [of p len] w in auto)
  then have r': "running ?k i" using r by (simp add: running_def slot_def)
  show ?thesis
  proof (cases d)
    case (Some d')
    have m': "mapped (umem (task (slot ?k i))) b len" using m by (simp add: slot_def)
    obtain k' where "put_user i b d' ?k = Some k'" "running k' i"
      by (rule running_put_user [OF r' m', of d']) (use pipe_read_length w Some in auto)
    then show ?thesis using p w Some by (auto simp: read_pipe_def dest: runningD)
  qed (use p w k in \<open>simp add: read_pipe_def\<close>)
qed

text \<open>The ends a running task can use are counted.\<close>

lemma held_open:
  assumes r: "running k i"
  shows "open_file (task (slot k i)) fd = Some (OPipe q False) \<Longrightarrow> 0 < held reads (procs k) q"
    "open_file (task (slot k i)) fd = Some (OPipe q True) \<Longrightarrow> 0 < held writes (procs k) q"
    "stdin_pipe (task (slot k i)) = Some q \<Longrightarrow> 0 < held reads (procs k) q"
    "stdout_pipe (task (slot k i)) = Some q \<Longrightarrow> 0 < held writes (procs k) q"
  using held_running [OF r, of q] ends_pos [of q _ "open_files (task (slot k i))"] open_file_Some(1)
  by (fastforce simp: reads_def writes_def)+

lemma sys_write_safe:
  assumes r: "running k i" and m: "user_ok b len \<Longrightarrow> mapped (umem (task (slot k i))) b len"
  shows "safe (sys_write k fd b len)"
proof (cases "user_ok b len")
  case True
  let ?t = "task (slot k i)"
  note inv = runningD [OF r] and mm = m [OF True]
  from load_mapped [OF mm] obtain data where data: "load_bytes (umem ?t) b len = Some data" by blast
  show ?thesis
  proof (cases "fd = 1 \<or> fd = 2")
    case True
    then show ?thesis using \<open>user_ok b len\<close> data inv(1) write_pipe_safe [OF r held_open(4) [OF r] mm]
      by (auto simp: sys_write_def with_task_running [OF r] split: option.splits)
  next
    case False
    show ?thesis
    proof (cases "open_file ?t fd")
      case (Some f)
      show ?thesis
      proof (cases f)
        case (OFile n ps w)
        with Some have of: "open_file ?t fd = Some (OFile n ps w)" by simp
        from task_ok_file [OF inv(6) open_file_Some(1) [OF of]] obtain v where v: "nodes (kfs k) n = Some v" "w \<longrightarrow> \<not> is_dir v" by blast
        have "kernel_inv (put_task i (set_file fd (OFile n (ps + len) w) ?t) (put_data n d k))" if w for d
        proof -
          have k: "kernel_inv (put_data n d k)" using inv_put_data [OF inv(1) v(1)] v(2) that by simp
          then have r': "running (put_data n d k) i" using r by (simp add: running_def)
          have "file_ok (nodes (kfs k)) (OFile n (ps + len) w)" using v by (simp add: file_ok_def)
          from inv_set_file [OF r' kept_file_ok [OF put_data_kept this]] show ?thesis by (simp add: set_file_def)
        qed
        with of v(1) inv(1) data False \<open>user_ok b len\<close> show ?thesis
          by (simp add: sys_write_def with_task_running [OF r])
      next
        case (OPipe q w)
        with Some \<open>user_ok b len\<close> False inv(1) write_pipe_safe [OF r held_open(2) [OF r, of fd q] mm] show ?thesis
          by (auto simp: sys_write_def with_task_running [OF r])
      qed (use Some \<open>user_ok b len\<close> False inv(1) in \<open>simp add: sys_write_def with_task_running [OF r]\<close>)
    qed (use \<open>user_ok b len\<close> False inv(1) in \<open>simp add: sys_write_def with_task_running [OF r]\<close>)
  qed
qed (use runningD(1) [OF r] in \<open>simp add: sys_write_def\<close>)

lemma read_file_safe:
  assumes r: "running k i" and of: "open_file (task (slot k i)) fd = Some (OFile n ps w)" and fd: "fd \<noteq> 0" "user_ok b len"
    and m: "mapped (umem (task (slot k i))) b len"
  shows "safe (sys_read k fd b len)"
proof -
  note inv = runningD [OF r]
  from task_ok_file [OF inv(6) open_file_Some(1) [OF of]] obtain v where v: "nodes (kfs k) n = Some v" "w \<longrightarrow> \<not> is_dir v" by blast
  let ?d = "take len (drop ps (vdata v))"
  obtain k' where k': "put_user i b ?d k = Some k'" "running k' i" "kfs k' = kfs k"
    by (rule running_put_user [OF r m, of ?d]) auto
  have "kernel_inv (put_task i (set_file fd (OFile n (ps + length ?d) w) (task (slot k' i))) k')"
    unfolding set_file_def by (rule inv_set_file [OF k'(2)]) (use v k'(3) in \<open>simp_all add: file_ok_def\<close>)
  with of v(1) inv(1) fd k'(1) show ?thesis by (simp add: sys_read_def with_task_running [OF r] Let_def)
qed

text \<open>A read of the keyboard that returns.\<close>

lemma tty_read_inv:
  assumes "tty_read raw i b len n k = Some y"
  shows "running k i \<longrightarrow> running (snd y) i"
  using assms
proof (induction rule: tty_read.raw_induct [rotated, consumes 1])
  case (1 tty_read raw i b len n k y)
  have st: "running (k\<lparr>polls := x\<rparr>) i" if "running k i" for x
    using that by (simp add: running_def)
  have pr: "running (print bs k) i" if "running k i" for bs k
    using that by (simp add: running_def)
  have pu: "running k' i" if "running k i" "put_user i p bs k = Some k'" for p bs k k'
    using inv_put_user [OF runningD(1,4,3) [OF that(1)] that(2)] runningD [OF that(1)] by (auto simp: running_def)
  show ?case
    using 1(2) st
    by (auto simp: Let_def split: if_splits option.splits bind_splits intro!: pr dest!: 1(1) dest: pu)
qed

text \<open>A keyboard read waits for the keyboards: \<open>tty_ends\<close> says that it returns.\<close>

definition tty_ends :: "kernel \<Rightarrow> nat \<Rightarrow> nat \<Rightarrow> nat \<Rightarrow> bool" where
  "tty_ends k i b len \<longleftrightarrow> stdin_pipe (task (slot k i)) = None \<longrightarrow>
     tty_read (c_lflag (termios_of (task (slot k i))) AND ICANON = 0) i b len 0 k \<noteq> None"

lemma sys_read_safe:
  assumes r: "running k i" and m: "user_ok b len \<Longrightarrow> mapped (umem (task (slot k i))) b len" and tty: "fd = 0 \<Longrightarrow> tty_ends k i b len"
  shows "safe (sys_read k fd b len)"
proof (cases "user_ok b len")
  case True
  let ?t = "task (slot k i)"
  note inv = runningD [OF r] and mm = m [OF True]
  show ?thesis
  proof (cases "fd = 0")
    case True
    show ?thesis
    proof (cases "stdin_pipe ?t")
      case None
      with tty [OF True] obtain y where y: "tty_read (c_lflag (termios_of ?t) AND ICANON = 0) i b len 0 k = Some y"
        by (auto simp: tty_ends_def)
      from tty_read_inv [OF y] r have "running (snd y) i" by simp
      with y None True \<open>user_ok b len\<close> show ?thesis
        by (cases y) (auto simp: sys_read_def with_task_running [OF r] dest: runningD)
    next
      case (Some q)
      with True \<open>user_ok b len\<close> read_pipe_safe [OF r held_open(3) [OF r] mm] show ?thesis
        by (simp add: sys_read_def with_task_running [OF r])
    qed
  next
    case False
    show ?thesis
    proof (cases "open_file ?t fd")
      case (Some f)
      show ?thesis
      proof (cases f)
        case (OFile n ps w)
        with Some read_file_safe [OF r _ False \<open>user_ok b len\<close> mm] show ?thesis by simp
      next
        case (OPipe q w)
        with Some \<open>user_ok b len\<close> False inv(1) read_pipe_safe [OF r held_open(1) [OF r, of fd q] mm] show ?thesis
          by (auto simp: sys_read_def with_task_running [OF r])
      qed (use Some \<open>user_ok b len\<close> False inv(1) in \<open>simp add: sys_read_def with_task_running [OF r]\<close>)
    qed (use \<open>user_ok b len\<close> False inv(1) in \<open>simp add: sys_read_def with_task_running [OF r]\<close>)
  qed
qed (use runningD(1) [OF r] in \<open>simp add: sys_read_def\<close>)

section \<open>Memory, terminal, pipes, keys\<close>

lemma brk_grow_files:
  "termios_of (snd (brk_grow n e t)) = termios_of t \<and> open_files (snd (brk_grow n e t)) = open_files t \<and> tcwd (snd (brk_grow n e t)) = tcwd t
   \<and> stdin_pipe (snd (brk_grow n e t)) = stdin_pipe t \<and> stdout_pipe (snd (brk_grow n e t)) = stdout_pipe t"
proof (induction n e t rule: brk_grow.induct)
  case (1 n e t)
  then show ?case by (subst (1 2 3 4 5) brk_grow.simps) simp
qed

text \<open>A change of the running task that keeps its descriptors, directory and pipes.\<close>

lemma inv_same_files:
  assumes r: "running k i" and t: "open_files t = open_files (task (slot k i))" "tcwd t = tcwd (task (slot k i))"
    "stdin_pipe t = stdin_pipe (task (slot k i))" "stdout_pipe t = stdout_pipe (task (slot k i))"
    "length (c_cc (termios_of t)) = NCCS"
  shows "kernel_inv (put_task i t k)"
  by (rule inv_put_task [OF runningD(1,4,3) [OF r]]) (use runningD(6) [OF r] t in \<open>auto simp: task_ok_def reads_def writes_def\<close>)

lemma sys_brk_safe:
  assumes r: "running k i"
  shows "safe (sys_brk n k e)"
proof -
  obtain g t where g: "brk_grow n e (task (slot k i)) = (g, t)" by force
  have "kernel_inv (put_task i t k)"
    by (rule inv_same_files [OF r]) (use brk_grow_files [of n e "task (slot k i)"] g runningD(6) [OF r] in \<open>auto simp: task_ok_def\<close>)
  with g runningD(1) [OF r] show ?thesis
    by (simp add: sys_brk_def with_task_running [OF r] Let_def)
qed

lemma put_user_ret_safe:
  assumes r: "running k i" and m: "mapped (umem (task (slot k i))) p n" "length bs \<le> n"
  shows "safe (do { k \<leftarrow> put_user i p bs k; ret v k })"
  by (rule running_put_user [OF r m]) (auto dest: runningD)

lemma sys_ioctl_safe:
  assumes r: "running k i" and m: "user_ok argp (if request = TCGETS \<or> request = TCSETS then 36 else 8) \<Longrightarrow>
      mapped (umem (task (slot k i))) argp (if request = TCGETS \<or> request = TCSETS then 36 else 8)"
  shows "safe (sys_ioctl k fd request argp)"
proof (cases "user_ok argp (if request = TCGETS \<or> request = TCSETS then 36 else 8)")
  case True
  note m = m [OF True]
  let ?t = "task (slot k i)"
  note inv = runningD [OF r]
  obtain bs where ld: "load_bytes (umem ?t) argp (if request = TCGETS \<or> request = TCSETS then 36 else 8) = Some bs"
    "length bs = (if request = TCGETS \<or> request = TCSETS then 36 else 8)" using load_mapped [OF m] by blast
  have "length (termios_bytes (termios_of ?t)) = 36" "length (winsize_bytes w) = 8" for w
    using inv(6) by (simp_all add: task_ok_def termios_bytes_def winsize_bytes_def NCCS_def)
  moreover have "kernel_inv (put_task i (?t\<lparr>termios_of := termios_parse x\<rparr>) k)" if "length x = 36" for x
    by (rule inv_same_files [OF r]) (use that in \<open>simp_all add: termios_parse_def NCCS_def\<close>)
  moreover have "kernel_inv (put_task i (?t\<lparr>winsize_of := y\<rparr>) k)" for y
    by (rule inv_same_files [OF r]) (use inv(6) in \<open>simp_all add: task_ok_def\<close>)
  ultimately show ?thesis using inv(1) m ld put_user_ret_safe [OF r m]
    by (auto simp: sys_ioctl_def with_task_running [OF r] Let_def)
qed (use runningD(1) [OF r] in \<open>auto simp: sys_ioctl_def with_task_running [OF r]\<close>)

lemma sys_clock_safe:
  assumes r: "running k i" and m: "user_ok ts 16 \<Longrightarrow> mapped (umem (task (slot k i))) ts 16"
  shows "safe (sys_clock_gettime k clock ts)"
  using put_user_ret_safe [OF r m] runningD(1) [OF r]
  by (auto simp: sys_clock_gettime_def with_task_running [OF r])

lemma sys_use_as_stdio_safe:
  assumes r: "running k i"
  shows "safe (sys_use_as_stdio k a b)"
proof (cases "\<exists>p q. open_file (task (slot k i)) a = Some (OPipe p False) \<and> open_file (task (slot k i)) b = Some (OPipe q True)")
  case True
  let ?t = "task (slot k i)"
  note inv = runningD [OF r]
  from True obtain p q where pq: "open_file ?t a = Some (OPipe p False)" "open_file ?t b = Some (OPipe q True)" by blast
  note a = open_file_Some [OF pq(1)] and b = open_file_Some [OF pq(2)]
  have ab: "a - 3 \<noteq> b - 3" using a(4) b(4) by auto
  let ?fs = "(open_files ?t)[a - 3 := OFree, b - 3 := OFree]"
  let ?t' = "?t\<lparr>stdin_pipe := Some p, stdout_pipe := Some q, open_files := ?fs\<rparr>"
  have en: "ends w ?fs x + (if x = p \<and> \<not> w then 1 else 0) + (if x = q \<and> w then 1 else 0) = ends w (open_files ?t) x" for w x
  proof -
    have "ends w ((open_files ?t)[a - 3 := OFree]) x + (if x = p \<and> \<not> w then 1 else 0) = ends w (open_files ?t) x"
      using ends_upd [OF a(3), of w OFree x] a(4) by auto
    moreover have "ends w ?fs x + (if x = q \<and> w then 1 else 0) = ends w ((open_files ?t)[a - 3 := OFree]) x"
      using ends_upd [of "b - 3" "(open_files ?t)[a - 3 := OFree]" w OFree x] b(3,4) ab by auto
    ultimately show ?thesis by simp
  qed
  have "kernel_inv (put_task i ?t' k)"
  proof (rule inv_put_task [OF inv(1,4,3)])
    have "file_ok (nodes (kfs k)) OFree" by (simp add: file_ok_def)
    from task_ok_set [OF task_ok_set [OF inv(6) this, of "a - 3"] this, of "b - 3"]
    show "task_ok (nodes (kfs k)) ?t'" by (simp add: task_ok_def)
    show "reads ?t' x \<le> reads ?t x" for x using en [of False x] by (auto simp: reads_def split: if_splits)
    show "writes ?t' x \<le> writes ?t x" for x using en [of True x] by (auto simp: writes_def split: if_splits)
  qed
  then show ?thesis using pq by (simp add: sys_use_as_stdio_def with_task_running [OF r] set_file_def)
next
  case False
  then show ?thesis using runningD(1) [OF r]
    by (auto simp: sys_use_as_stdio_def with_task_running [OF r] split: option.splits open_file.splits bool.splits)
qed

lemma filter_two:
  assumes "filter P [0..<n] = a # b # l"
  shows "a < n \<and> P a \<and> b < n \<and> P b \<and> a \<noteq> b"
proof -
  have "distinct (filter P [0..<n])" by simp
  moreover have "set (filter P [0..<n]) = {x. x < n \<and> P x}" by auto
  ultimately show ?thesis unfolding assms by auto
qed

lemma sys_pipe_safe:
  assumes r: "running k i" and m: "user_ok b 8 \<Longrightarrow> mapped (umem (task (slot k i))) b 8"
  shows "safe (sys_pipe k b)"
proof (cases "user_ok b 8 \<and> (\<exists>x y l. free_slots (task (slot k i)) = x # y # l)")
  case True
  let ?t = "task (slot k i)"
  note inv = runningD [OF r] and ki = kernel_invD [OF runningD(1) [OF r]]
  from True obtain x y l where xy: "free_slots ?t = x # y # l" "user_ok b 8" by blast
  note f = filter_two [OF xy(1) [unfolded free_slots_def]]
  let ?q = "next_pipe k"
  let ?fs = "(open_files ?t)[x := OPipe ?q False, y := OPipe ?q True]"
  let ?t' = "?t\<lparr>open_files := ?fs\<rparr>"
  let ?st = "(kpipes k)(?q \<mapsto> pipe_create)"
  have q: "kpipes k ?q = None" using ki(5) by auto
  have hq: "held reads (procs k) ?q = 0" "held writes (procs k) ?q = 0" using refs_ok_live [OF ki(4), of ?q] q by fastforce+
  have en: "ends w ?fs p = ends w (open_files ?t) p + (if p = ?q then 1 else 0)" for w p
  proof -
    have "ends w ((open_files ?t)[x := OPipe ?q False]) p = ends w (open_files ?t) p + (if p = ?q \<and> \<not> w then 1 else 0)"
      using ends_upd [of x "open_files ?t" w "OPipe ?q False" p] f by auto
    moreover have "ends w ?fs p = ends w ((open_files ?t)[x := OPipe ?q False]) p + (if p = ?q \<and> w then 1 else 0)"
      using ends_upd [of y "(open_files ?t)[x := OPipe ?q False]" w "OPipe ?q True" p] f by auto
    ultimately show ?thesis by simp
  qed
  have ok: "task_ok (nodes (kfs k)) ?t'"
    using task_ok_set [OF task_ok_set [OF inv(6)], of "OPipe ?q False" "OPipe ?q True" x y] by (simp add: file_ok_def)
  note hR = held_put_task [OF inv(5,3), of reads ?t'] and hW = held_put_task [OF inv(5,3), of writes ?t']
  have st: "refs_ok ?st ((held reads (procs k))(?q := 1)) ((held writes (procs k))(?q := 1))"
    using pipe_create_inv(1) by (intro refs_ok_upd [OF ki(4)]) (auto simp: pipe_create_def)
  let ?k1 = "k\<lparr>next_pipe := ?q + 1\<rparr>"
  have "kernel_inv ?k1" using inv(1) by (auto simp: kernel_inv_def pipes_ok_def)
  then have r1: "running ?k1 i" using r by (simp add: running_def slot_def)
  have p1: "procs (put_task i ?t' ?k1) = procs (put_task i ?t' k)" by (simp add: put_task_def set_slot_def slot_def)
  have "kernel_inv (put_task i ?t' (?k1\<lparr>kpipes := ?st\<rparr>))"
  proof (rule inv_pipes_task [OF r1 _ st])
    show "held reads (procs (put_task i ?t' ?k1)) p \<le> ((held reads (procs k))(?q := 1)) p" for p
      using hR [of p] en [of False p] hq unfolding p1 by (auto simp: reads_def split: if_splits)
    show "held writes (procs (put_task i ?t' ?k1)) p \<le> ((held writes (procs k))(?q := 1)) p" for p
      using hW [of p] en [of True p] hq unfolding p1 by (auto simp: writes_def split: if_splits)
  qed (use ok ki(5) in auto)
  moreover have "?k1\<lparr>kpipes := ?st\<rparr> = k\<lparr>kpipes := ?st, next_pipe := ?q + 1\<rparr>" by simp
  ultimately have "kernel_inv (put_task i ?t' (k\<lparr>kpipes := ?st, next_pipe := ?q + 1\<rparr>))" by (simp only:)
  then have "running (put_task i ?t' (k\<lparr>kpipes := ?st, next_pipe := ?q + 1\<rparr>)) i"
    using inv(2,3,5) unfolding running_def by simp
  from put_user_ret_safe [OF this, of b 8] m [OF xy(2)] xy inv(5) show ?thesis
    by (simp add: sys_pipe_def with_task_running [OF r] Let_def)
qed (use runningD(1) [OF r] in \<open>auto simp: sys_pipe_def with_task_running [OF r] split: list.splits\<close>)

lemma sys_poll_key_safe:
  assumes r: "running k i"
  shows "safe (sys_poll_key k)"
proof (cases "stdin_pipe (task (slot k i))")
  case (Some q)
  note ki = kernel_invD [OF runningD(1) [OF r]]
  from refs_ok_live [OF ki(4)] held_open(3) [OF r Some] obtain p where p: "kpipes k q = Some p" by blast
  obtain d p' where w: "pipe_read p 1 = (d, p')" by force
  have "kernel_inv (k\<lparr>kpipes := (kpipes k)(q \<mapsto> p')\<rparr>)"
    by (rule inv_pipe [OF runningD(1) [OF r] p])
      (use pipe_get_spec [OF _ w] refs_okD [OF ki(4) p] pipe_refs_unchanged(3,4) [of p 1] in \<open>auto simp: w simp del: One_nat_def\<close>)
  with p w Some runningD(2) [OF r] show ?thesis by (simp add: sys_poll_key_def)
qed (use runningD(1,2) [OF r] in \<open>simp add: sys_poll_key_def\<close>)

text \<open>The walk to the root that \<^verbatim>\<open>path\<close> makes ends where \<^verbatim>\<open>is_ancestor_or_self\<close> does.\<close>

lemma path_parts_total:
  assumes "is_ancestor_or_self h a n = Some y"
  shows "h = nodes s \<and> a = root s \<longrightarrow> path_parts s n \<noteq> None"
  using assms
proof (induction rule: is_ancestor_or_self.raw_induct [rotated, consumes 1])
  case (1 f h a n y)
  show ?case
  proof (cases n)
    case (Some m)
    show ?thesis
    proof
      assume eq: "h = nodes s \<and> a = root s"
      show "path_parts s n \<noteq> None"
      proof (cases "m = root s")
        case False
        with 1(2) Some eq obtain v where v: "nodes s m = Some v" "f h a (vparent v) = Some y" by (auto split: bind_splits)
        from 1(1) [OF v(2)] eq v(1) False Some show ?thesis by (subst path_parts.simps) auto
      qed (simp add: Some path_parts.simps)
    qed
  qed (simp add: path_parts.simps)
qed

lemma sys_getcwd_safe:
  assumes r: "running k i" and m: "user_ok b len \<Longrightarrow> mapped (umem (task (slot k i))) b len"
  shows "safe (sys_getcwd k b len)"
proof (cases "\<not> user_ok b len \<or> len = 0")
  case False
  obtain t where t: "vfs_wf (kfs k) t" "tcwd (task (slot k i)) \<in> set (tids t)" by (rule running_wf [OF r])
  from path_parts_total [OF is_ancestor_wf [OF t, of "root (kfs k)"], of "kfs k"] obtain path where "vfs_path (kfs k) (tcwd (task (slot k i))) = Some path"
    by (auto simp: vfs_path_def)
  with False m put_user_ret_safe [OF r, of b len] show ?thesis
    by (auto simp: sys_getcwd_def with_task_running [OF r])
qed (use runningD(1) [OF r] in \<open>auto simp: sys_getcwd_def with_task_running [OF r]\<close>)

end
