(* ===== verification/KernelProps.thy ===== *)
theory KernelProps
  imports KernelCalls
begin

text \<open>
  The kernel as one machine: system calls of the running process, its faults, timer ticks,
  scheduling and the launch of programs, in any order, from the state at boot. Shown here: the
  kernel never follows a dangling vnode or pipe pointer and keeps its invariant, and the round-robin
  scheduler reaches every process that stays runnable.
\<close>

section \<open>Processes\<close>

lemma share_live: "pstate p \<noteq> Unused \<Longrightarrow> share f p q = f (task p) q"
  by (simp add: share_def)

text \<open>A process put into a free slot, with the pipe ends it starts with.\<close>

lemma inv_new_slot:
  assumes k: "kernel_inv k" and i: "i < MAX_PROCESSES" "pstate (slot k i) = Unused" and t: "task_ok (nodes (kfs k)) (task p)"
    and st: "refs_ok st (\<lambda>q. held reads (procs k) q + reads (task p) q) (\<lambda>q. held writes (procs k) q + writes (task p) q)"
      "dom st \<subseteq> {..<next_pipe k}"
  shows "kernel_inv (set_slot i p (k\<lparr>kpipes := st\<rparr>))"
proof -
  note inv = kernel_invD [OF k]
  have il: "i < length (procs k)" using i(1) inv(3) by simp
  have h: "held f ((procs k)[i := p]) q \<le> held f (procs k) q + f (task p) q" for f q
    using held_upd [OF il, of f p q] i(2) by (simp add: share_def slot_def split: if_splits)
  have "refs_ok st (held reads ((procs k)[i := p])) (held writes ((procs k)[i := p]))"
    by (rule refs_ok_mono [OF st(1)]) (rule h)+
  moreover have "procs_ok (nodes (kfs k)) ((procs k)[i := p])"
    using inv(2) t by (auto simp: procs_ok_def dest!: set_mp [OF set_update_subset_insert])
  ultimately show ?thesis using inv(1,5,6) st(2) by (auto simp: kernel_inv_def pipes_ok_def set_slot_def split: option.splits)
qed

lemma alloc_slot_Some: "kernel_inv k \<Longrightarrow> alloc_slot k = Some i \<Longrightarrow> i < MAX_PROCESSES \<and> pstate (slot k i) = Unused"
  using kernel_invD(3) [of k] by (auto simp: alloc_slot_def slot_def dest: position_Some)

lemma fork_safe:
  assumes r: "running k i"
  shows "safe (fork k i space kstack)"
proof (cases "alloc_slot k")
  case (Some j)
  note inv = runningD [OF r] and ki = kernel_invD [OF runningD(1) [OF r]] and j = alloc_slot_Some [OF runningD(1) [OF r] Some]
  let ?t = "task (slot k i)" let ?R = "held reads (procs k)" let ?W = "held writes (procs k)"
  note hr = held_running [OF r]
  obtain st1 where st1: "add_refs (open_files ?t) (kpipes k) = Some st1"
    "refs_ok st1 (\<lambda>q. ?R q + ends False (open_files ?t) q) (\<lambda>q. ?W q + ends True (open_files ?t) q)" "dom st1 \<subseteq> dom (kpipes k)"
  proof -
    have "0 < ?R q" if "0 < ends False (open_files ?t) q" for q using that hr(1) [of q] by (simp add: reads_def)
    moreover have "0 < ?W q" if "0 < ends True (open_files ?t) q" for q using that hr(2) [of q] by (simp add: writes_def)
    ultimately show ?thesis using add_refs_ok [OF ki(4), of "open_files ?t"] that by blast
  qed
  obtain st2 where st2: "(case stdin_pipe ?t of None \<Rightarrow> Some st1 | Some q \<Rightarrow> add_read q st1) = Some st2"
    "refs_ok st2 (\<lambda>q. ?R q + reads ?t q) (\<lambda>q. ?W q + ends True (open_files ?t) q)" "dom st2 \<subseteq> dom (kpipes k)"
  proof (cases "stdin_pipe ?t")
    case None
    with st1 that [of st1] show ?thesis by (simp add: reads_def)
  next
    case (Some q)
    have "0 < ?R q + ends False (open_files ?t) q" using held_open(3) [OF r Some] by simp
    from add_read_ok [OF st1(2) this] obtain st' where "add_read q st1 = Some st'"
      "refs_ok st' ((\<lambda>q. ?R q + ends False (open_files ?t) q)(q := ?R q + ends False (open_files ?t) q + 1)) (\<lambda>q. ?W q + ends True (open_files ?t) q)"
      "dom st' \<subseteq> dom st1" by blast
    with st1(3) Some show ?thesis by (intro that [of st']) (auto simp: reads_def elim!: refs_ok_mono del: subsetI intro: subset_trans)
  qed
  obtain st3 where st3: "(case stdout_pipe ?t of None \<Rightarrow> Some st2 | Some q \<Rightarrow> add_write q st2) = Some st3"
    "refs_ok st3 (\<lambda>q. ?R q + reads ?t q) (\<lambda>q. ?W q + writes ?t q)" "dom st3 \<subseteq> dom (kpipes k)"
  proof (cases "stdout_pipe ?t")
    case None
    with st2 that [of st2] show ?thesis by (simp add: writes_def)
  next
    case (Some q)
    have "0 < ?W q + ends True (open_files ?t) q" using held_open(4) [OF r Some] by simp
    from add_write_ok [OF st2(2) this] obtain st' where "add_write q st2 = Some st'"
      "refs_ok st' (\<lambda>q. ?R q + reads ?t q) ((\<lambda>q. ?W q + ends True (open_files ?t) q)(q := ?W q + ends True (open_files ?t) q + 1))"
      "dom st' \<subseteq> dom st2" by blast
    with st2(3) Some show ?thesis by (intro that [of st']) (auto simp: writes_def elim!: refs_ok_mono del: subsetI intro: subset_trans)
  qed
  have dm: "dom st3 \<subseteq> {..<next_pipe k}" using st3(3) ki(5) by blast
  have "refs_ok st3 ?R ?W" by (rule refs_ok_mono [OF st3(2)]) simp_all
  then have leak: "kernel_inv (k\<lparr>kpipes := st3\<rparr>)" using inv(1) dm by (simp add: kernel_inv_def pipes_ok_def)
  have new: "kernel_inv (set_slot j p (k\<lparr>kpipes := st3\<rparr>))" if "task p = ?t\<lparr>pml4_phys := a, kernel_stack_top := b\<rparr>" for p a b
    by (rule inv_new_slot [OF inv(1)]) (use j st3(2) dm inv(6) that in \<open>auto simp: task_ok_def reads_def writes_def\<close>)
  have np: "set_slot j p (k'\<lparr>next_pid := z\<rparr>) = (set_slot j p k')\<lparr>next_pid := z\<rparr>" for p k' z by (simp add: set_slot_def)
  obtain a c where sp: "space = (a, c)" by (cases space)
  show ?thesis
  proof (cases "c \<and> kstack \<noteq> None")
    case True
    then obtain b where b: "kstack = Some b" by blast
    show ?thesis
      unfolding safe_def fork_def Some option.case st1(1) st2(1) st3(1) Let_def sp prod.case b
      using True new [where a = a and b = b and p = "process_empty\<lparr>pid := next_pid k, parent_pid := pid (slot k i), pstate := Runnable, has_run := True,
        saved_rsp := b - 176, task := ?t\<lparr>pml4_phys := a, kernel_stack_top := b\<rparr>\<rparr>"]
      by (simp add: st1(1) st2(1) st3(1) take_pid_def np)
  next
    case False
    then show ?thesis using leak unfolding safe_def fork_def Some sp
      by (cases c; cases kstack) (simp_all add: st1(1) st2(1) st3(1) Let_def)
  qed
qed (use runningD(1) [OF r] in \<open>simp add: fork_def safe_def\<close>)

lemma exec_inv:
  assumes r: "running k i"
  shows "kernel_inv (snd (exec k i loaded))"
proof (cases loaded)
  case (Some t)
  note inv = runningD [OF r]
  let ?old = "task (slot k i)"
  have "kernel_inv (set_slot i p k)" if "pstate p = Runnable" "open_files (task p) = open_files ?old" "tcwd (task p) = tcwd ?old"
    "stdin_pipe (task p) = stdin_pipe ?old" "stdout_pipe (task p) = stdout_pipe ?old" "termios_of (task p) = termios_of ?old" for p
    by (rule inv_slot [OF inv(1,4)]) (use inv(3,6) that in \<open>auto simp: share_def task_ok_def reads_def writes_def\<close>)
  with Some show ?thesis by (simp add: exec_def Let_def)
qed (use runningD(1) [OF r] in \<open>simp add: exec_def\<close>)

lemma close_stdio_inv:
  assumes r: "running k i"
  obtains k' where "close_stdio_pipes i k = Some k'" "running k' i"
proof -
  note inv = runningD [OF r] and ki = kernel_invD [OF runningD(1) [OF r]]
  let ?t = "task (slot k i)"
  obtain k1 where k1: "(case stdin_pipe ?t of None \<Rightarrow> Some k
      | Some q \<Rightarrow> do { st \<leftarrow> close_read (kpipes k) q; Some (put_task i (?t\<lparr>stdin_pipe := None\<rparr>) (k\<lparr>kpipes := st\<rparr>)) }) = Some k1" "running k1 i"
  proof (cases "stdin_pipe ?t")
    case (Some q)
    let ?t' = "?t\<lparr>stdin_pipe := None\<rparr>"
    from close_read_ok [OF ki(4) held_open(3) [OF r Some]] obtain st where st: "close_read (kpipes k) q = Some st"
      "refs_ok st ((held reads (procs k))(q := held reads (procs k) q - 1)) (held writes (procs k))" "dom st \<subseteq> dom (kpipes k)" by blast
    have "kernel_inv (put_task i ?t' (k\<lparr>kpipes := st\<rparr>))"
    proof (rule inv_pipes_task [OF r _ st(2)])
      show "held reads (procs (put_task i ?t' k)) p \<le> ((held reads (procs k))(q := held reads (procs k) q - 1)) p" for p
        using held_put_task [OF inv(5,3), of reads ?t' p] Some by (auto simp: reads_def split: if_splits)
      show "held writes (procs (put_task i ?t' k)) p \<le> held writes (procs k) p" for p
        using held_put_task [OF inv(5,3), of writes ?t' p] by (simp add: writes_def)
    qed (use inv(6) st(3) ki(5) in \<open>auto simp: task_ok_def\<close>)
    with st(1) Some inv(2,3,5) show ?thesis by (intro that) (auto simp: running_def)
  qed (use that r in simp)
  note inv1 = runningD [OF k1(2)] and ki1 = kernel_invD [OF runningD(1) [OF k1(2)]]
  let ?u = "task (slot k1 i)"
  obtain k2 where k2: "(case stdout_pipe ?u of None \<Rightarrow> Some k1
      | Some q \<Rightarrow> do { st \<leftarrow> close_write (kpipes k1) q; Some (put_task i (?u\<lparr>stdout_pipe := None\<rparr>) (k1\<lparr>kpipes := st\<rparr>)) }) = Some k2" "running k2 i"
  proof (cases "stdout_pipe ?u")
    case (Some q)
    let ?u' = "?u\<lparr>stdout_pipe := None\<rparr>"
    from close_write_ok [OF ki1(4) held_open(4) [OF k1(2) Some]] obtain st where st: "close_write (kpipes k1) q = Some st"
      "refs_ok st (held reads (procs k1)) ((held writes (procs k1))(q := held writes (procs k1) q - 1))" "dom st \<subseteq> dom (kpipes k1)" by blast
    have "kernel_inv (put_task i ?u' (k1\<lparr>kpipes := st\<rparr>))"
    proof (rule inv_pipes_task [OF k1(2) _ st(2)])
      show "held writes (procs (put_task i ?u' k1)) p \<le> ((held writes (procs k1))(q := held writes (procs k1) q - 1)) p" for p
        using held_put_task [OF inv1(5,3), of writes ?u' p] Some by (auto simp: writes_def split: if_splits)
      show "held reads (procs (put_task i ?u' k1)) p \<le> held reads (procs k1) p" for p
        using held_put_task [OF inv1(5,3), of reads ?u' p] by (simp add: reads_def)
    qed (use inv1(6) st(3) ki1(5) in \<open>auto simp: task_ok_def\<close>)
    with st(1) Some inv1(2,3,5) show ?thesis by (intro that) (auto simp: running_def)
  qed (use that k1(2) in simp)
  have "close_stdio_pipes i k = Some k2"
    unfolding close_stdio_pipes_def Let_def k1(1) [unfolded put_task_def slot_other] bind.bind_lunit
    by (rule k2(1) [unfolded put_task_def slot_other])
  then show ?thesis using k2(2) by (rule that)
qed

text \<open>A change of the running process's state alone.\<close>

lemma inv_state:
  assumes "kernel_inv k" "i < MAX_PROCESSES" "pstate (slot k i) \<noteq> Unused" "task p = task (slot k i)"
  shows "kernel_inv (set_slot i p k)"
  by (rule inv_slot [OF assms(1,2)]) (use assms kernel_inv_task [OF assms(1-3)] in \<open>auto simp: share_def\<close>)

lemma sys_exit_inv:
  assumes r: "running k i"
  shows "\<exists>v k'. sys_exit k a = Some (v, k') \<and> kernel_inv k'"
proof -
  let ?k = "log_exit (as_i32 a) k"
  have "running ?k i" using r by (auto simp: running_def log_exit_def Let_def)
  then obtain k' where k': "close_stdio_pipes i ?k = Some k'" "running k' i" by (rule close_stdio_inv)
  have "kernel_inv (set_slot i ((slot k' i)\<lparr>pstate := Zombie, exit_status := as_i32 a\<rparr>) k')"
    by (rule inv_state [OF runningD(1,4,3) [OF k'(2)]]) simp
  with k'(1) runningD(2) [OF \<open>running ?k i\<close>] show ?thesis by (simp add: sys_exit_def Let_def)
qed

lemma isr_handler_inv:
  assumes r: "running k i"
  shows "\<exists>k'. isr_handler u msg k = Some k' \<and> kernel_inv k'"
proof -
  have "running (print msg k) i" using r by (simp add: running_def)
  then obtain k' where k': "close_stdio_pipes i (print msg k) = Some k'" "running k' i" by (rule close_stdio_inv)
  have "kernel_inv (set_slot i ((slot k' i)\<lparr>pstate := Zombie, exit_status := -1\<rparr>) k')"
    by (rule inv_state [OF runningD(1,4,3) [OF k'(2)]]) simp
  with k'(1) runningD(1,2) [OF r] show ?thesis by (simp add: isr_handler_def Let_def)
qed

lemma tick_switch_inv: "running k i \<Longrightarrow> kernel_inv (tick_switch u frame k)"
  using runningD [of k i] by (auto simp: tick_switch_def intro!: inv_state)

lemma sys_yield_inv: "running k i \<Longrightarrow> kernel_inv (snd (sys_yield k frame))"
  using runningD [of k i] by (auto simp: sys_yield_def intro!: inv_state)

lemma sys_execve_inv:
  assumes r: "running k i" and s: "user_str (umem (task (slot k i))) p \<noteq> None" "copy_user_argv (umem (task (slot k i))) a \<noteq> None"
  shows "\<exists>v k'. sys_execve E k p a = Some (v, k') \<and> kernel_inv k'"
proof -
  note inv = runningD [OF r]
  let ?t = "task (slot k i)"
  obtain t where t: "vfs_wf (kfs k) t" "tcwd ?t \<in> set (tids t)" by (rule running_wf [OF r])
  obtain str args where sa: "user_str (umem ?t) p = Some str" "copy_user_argv (umem ?t) a = Some args" using s by blast
  show ?thesis
  proof (cases str)
    case (Some path)
    from resolve_wf [OF t] obtain q where q: "resolve (kfs k) (tcwd ?t) path = Some q" "\<And>m. q = Some m \<Longrightarrow> m \<in> set (tids t)" by blast
    show ?thesis
    proof (cases q)
      case (Some n)
      with q(2) wf_rep(6) [OF t(1)] obtain v where v: "nodes (kfs k) n = Some v" by blast
      show ?thesis
      proof (cases args)
        case (Some as)
        obtain b k' where e: "exec k i (e_load E (vdata v) as (tcwd ?t)) = (b, k')" by force
        with exec_inv [OF r, of "e_load E (vdata v) as (tcwd ?t)"] have "kernel_inv k'" by simp
        with e inv(1,2) sa v Some \<open>q = Some n\<close> \<open>str = Some path\<close> q(1) show ?thesis by (simp add: sys_execve_def Let_def)
      qed (use inv(1,2) sa v Some \<open>str = Some path\<close> q(1) in \<open>simp add: sys_execve_def Let_def\<close>)
    qed (use inv(1,2) sa Some q(1) in \<open>simp add: sys_execve_def Let_def\<close>)
  qed (use inv(1,2) sa in \<open>simp add: sys_execve_def Let_def\<close>)
qed

section \<open>The dispatch\<close>

text \<open>
  What a caller owes the kernel: the strings and buffers it names have pages behind them, a keyboard
  read is not one that waits forever, and the file it unlinks is not open. The kernel checks none of
  this. A \<^verbatim>\<open>wait\<close> runs other programs, and is treated with the machine below.
\<close>

definition buffer_ok :: "kernel \<Rightarrow> nat \<Rightarrow> nat \<Rightarrow> nat \<Rightarrow> bool" where
  "buffer_ok k i p n \<longleftrightarrow> user_ok p n \<longrightarrow> mapped (umem (task (slot k i))) p n"

definition string_ok :: "kernel \<Rightarrow> nat \<Rightarrow> nat \<Rightarrow> bool" where
  "string_ok k i p \<longleftrightarrow> user_str (umem (task (slot k i))) p \<noteq> None"

definition unlink_ok :: "kernel \<Rightarrow> nat \<Rightarrow> nat \<Rightarrow> bool" where
  "unlink_ok k i p \<longleftrightarrow> (case user_str (umem (task (slot k i))) p of
     Some (Some path) \<Rightarrow> (case resolve (kfs k) (tcwd (task (slot k i))) path of Some (Some n) \<Rightarrow> none_open k n | _ \<Rightarrow> True)
   | _ \<Rightarrow> True)"

definition call_ok :: "kernel \<Rightarrow> nat \<Rightarrow> nat \<Rightarrow> nat \<Rightarrow> nat \<Rightarrow> nat \<Rightarrow> bool" where
  "call_ok k i rax a1 a2 a3 \<longleftrightarrow>
     (if rax = SYS_READ then buffer_ok k i a2 a3 \<and> (a1 = 0 \<longrightarrow> tty_ends k i a2 a3)
      else if rax = SYS_WRITE then buffer_ok k i a2 a3
      else if rax = SYS_OPEN \<or> rax = SYS_CHDIR \<or> rax = SYS_MKDIR then string_ok k i a1
      else if rax = SYS_UNLINK then string_ok k i a1 \<and> unlink_ok k i a1
      else if rax = SYS_RENAME \<or> rax = SYS_COPY then string_ok k i a1 \<and> string_ok k i a2
      else if rax = SYS_IOCTL then buffer_ok k i a3 (if a2 = TCGETS \<or> a2 = TCSETS then 36 else 8)
      else if rax = SYS_CLOCK_GETTIME then buffer_ok k i a2 16
      else if rax = SYS_GETDENTS then buffer_ok k i a2 (1 + NAME_MAX)
      else if rax = SYS_PIPE then buffer_ok k i a1 8
      else if rax = SYS_AUDIO_WRITE then buffer_ok k i a1 (a2 mod 2 ^ 32)
      else if rax = SYS_GETCWD then buffer_ok k i a1 a2
      else if rax = SYS_EXECVE then string_ok k i a1 \<and> copy_user_argv (umem (task (slot k i))) a2 \<noteq> None
      else rax \<noteq> SYS_WAIT4)"

definition returns :: "(after \<times> kernel) option \<Rightarrow> bool" where
  "returns r \<longleftrightarrow> (\<exists>v k. r = Some (v, k) \<and> kernel_inv k)"

lemma returns_simps [simp]: "returns (returning r) = safe r" "returns (Some (v, k)) = kernel_inv k"
  by (auto simp: returns_def safe_def returning_def)

lemma sys_audio_write_safe:
  assumes r: "running k i" and m: "buffer_ok k i p (n mod 2 ^ 32)"
  shows "safe (sys_audio_write E k p n)"
proof (cases "user_ok p (n mod 2 ^ 32)")
  case True
  with m load_mapped obtain bs where "load_bytes (umem (task (slot k i))) p (n mod 2 ^ 32) = Some bs"
    unfolding buffer_ok_def by blast
  with True runningD(1) [OF r] show ?thesis by (simp add: sys_audio_write_def with_task_running [OF r] Let_def)
qed (use runningD(1) [OF r] in \<open>simp add: sys_audio_write_def Let_def\<close>)

lemma sys_unlink_call:
  assumes r: "running k i" and ok: "string_ok k i p" "unlink_ok k i p"
  shows "safe (sys_unlink k p)"
proof (rule sys_unlink_safe [OF r])
  show "user_str (umem (task (slot k i))) p \<noteq> None" using ok(1) by (simp add: string_ok_def)
  show "none_open k n" if "user_str (umem (task (slot k i))) p = Some (Some path)"
    "resolve (kfs k) (tcwd (task (slot k i))) path = Some (Some n)" for path n
    using ok(2) that by (simp add: unlink_ok_def)
qed

lemma call_okD:
  assumes "call_ok k i rax a1 a2 a3"
  shows "rax = SYS_READ \<Longrightarrow> buffer_ok k i a2 a3 \<and> (a1 = 0 \<longrightarrow> tty_ends k i a2 a3)" "rax = SYS_WRITE \<Longrightarrow> buffer_ok k i a2 a3"
    "rax = SYS_OPEN \<Longrightarrow> string_ok k i a1" "rax = SYS_CHDIR \<Longrightarrow> string_ok k i a1" "rax = SYS_MKDIR \<Longrightarrow> string_ok k i a1"
    "rax = SYS_UNLINK \<Longrightarrow> string_ok k i a1 \<and> unlink_ok k i a1" "rax = SYS_RENAME \<Longrightarrow> string_ok k i a1 \<and> string_ok k i a2"
    "rax = SYS_COPY \<Longrightarrow> string_ok k i a1 \<and> string_ok k i a2"
    "rax = SYS_IOCTL \<Longrightarrow> buffer_ok k i a3 (if a2 = TCGETS \<or> a2 = TCSETS then 36 else 8)" "rax = SYS_CLOCK_GETTIME \<Longrightarrow> buffer_ok k i a2 16"
    "rax = SYS_GETDENTS \<Longrightarrow> buffer_ok k i a2 (1 + NAME_MAX)" "rax = SYS_PIPE \<Longrightarrow> buffer_ok k i a1 8"
    "rax = SYS_AUDIO_WRITE \<Longrightarrow> buffer_ok k i a1 (a2 mod 2 ^ 32)" "rax = SYS_GETCWD \<Longrightarrow> buffer_ok k i a1 a2"
    "rax = SYS_EXECVE \<Longrightarrow> string_ok k i a1 \<and> copy_user_argv (umem (task (slot k i))) a2 \<noteq> None" "rax \<noteq> SYS_WAIT4"
  using assms by (auto simp: call_ok_def syscall_numbers split: if_splits)

lemma returns_if: "(c \<Longrightarrow> returns a) \<Longrightarrow> (\<not> c \<Longrightarrow> returns b) \<Longrightarrow> returns (if c then a else b)"
  by simp

lemma syscall_dispatch_safe:
  assumes r: "running k i" and c: "call_ok k i rax a1 a2 a3"
  shows "returns (syscall_dispatch E k frame rax a1 a2 a3)"
proof -
  note inv = runningD(1) [OF r] and d = call_okD [OF c] and b = buffer_ok_def string_ok_def
  have rd: "rax = SYS_READ \<Longrightarrow> safe (sys_read k a1 a2 a3)"
    by (rule sys_read_safe [OF r]) (use d(1) in \<open>simp_all add: b\<close>)
  have wr: "rax = SYS_WRITE \<Longrightarrow> safe (sys_write k a1 a2 a3)"
    by (rule sys_write_safe [OF r]) (use d(2) in \<open>simp_all add: b\<close>)
  have op: "rax = SYS_OPEN \<Longrightarrow> safe (sys_open k a1 (word_of_nat a2))"
    by (rule sys_open_safe [OF r]) (use d(3) in \<open>simp_all add: b\<close>)
  have cd: "rax = SYS_CHDIR \<Longrightarrow> safe (sys_chdir k a1)"
    by (rule sys_chdir_safe [OF r]) (use d(4) in \<open>simp_all add: b\<close>)
  have mk: "rax = SYS_MKDIR \<Longrightarrow> safe (sys_mkdir k a1)"
    by (rule sys_mkdir_safe [OF r]) (use d(5) in \<open>simp_all add: b\<close>)
  have ul: "rax = SYS_UNLINK \<Longrightarrow> safe (sys_unlink k a1)"
    by (rule sys_unlink_call [OF r]) (use d(6) in \<open>simp_all add: b\<close>)
  have rn: "rax = SYS_RENAME \<Longrightarrow> safe (sys_rename k a1 a2)"
    by (rule sys_rename_safe [OF r]) (use d(7) in \<open>simp_all add: b\<close>)
  have cp: "rax = SYS_COPY \<Longrightarrow> safe (sys_copy k a1 a2)"
    by (rule sys_copy_safe [OF r]) (use d(8) in \<open>simp_all add: b\<close>)
  have io: "rax = SYS_IOCTL \<Longrightarrow> safe (sys_ioctl k a1 a2 a3)"
    by (rule sys_ioctl_safe [OF r]) (use d(9) in \<open>simp_all add: b\<close>)
  have cl: "rax = SYS_CLOCK_GETTIME \<Longrightarrow> safe (sys_clock_gettime k a1 a2)"
    by (rule sys_clock_safe [OF r]) (use d(10) in \<open>simp_all add: b\<close>)
  have gd: "rax = SYS_GETDENTS \<Longrightarrow> safe (sys_getdents k a1 a2)"
    by (rule sys_getdents_safe [OF r]) (use d(11) in \<open>simp_all add: b\<close>)
  have pp: "rax = SYS_PIPE \<Longrightarrow> safe (sys_pipe k a1)"
    by (rule sys_pipe_safe [OF r]) (use d(12) in \<open>simp_all add: b\<close>)
  have au: "rax = SYS_AUDIO_WRITE \<Longrightarrow> safe (sys_audio_write E k a1 a2)"
    by (rule sys_audio_write_safe [OF r]) (use d(13) in \<open>simp_all add: b\<close>)
  have gc: "rax = SYS_GETCWD \<Longrightarrow> safe (sys_getcwd k a1 a2)"
    by (rule sys_getcwd_safe [OF r]) (use d(14) in \<open>simp_all add: b\<close>)
  have xe: "rax = SYS_EXECVE \<Longrightarrow> returns (sys_execve E k a1 a2)"
    unfolding returns_def by (rule sys_execve_inv [OF r]) (use d(15) in \<open>simp_all add: b\<close>)
  have gp: "safe (with_task k (\<lambda>i t. ret (pid (slot k i)) k))" "safe (with_task k (\<lambda>i t. fork k i (e_space E) (e_kstack E)))"
    using inv fork_safe [OF r] by (simp_all add: with_task_running [OF r])
  have sy: "safe (sys_sync E k)" using inv by (simp add: sys_sync_def split: option.splits)
  have yi: "returns (Some (sys_yield k frame))" using sys_yield_inv [OF r, of frame] by (cases "sys_yield k frame") simp
  have ex: "returns (sys_exit k a1)" using sys_exit_inv [OF r] by (simp add: returns_def)
  show ?thesis
    unfolding syscall_dispatch_def
    by (intro returns_if)
      (simp_all only: returns_simps safe_simps rd wr op cd mk ul rn cp io cl gd pp au gc xe inv gp sy yi ex d(16) sys_close_safe [OF r] sys_lseek_safe [OF r] sys_brk_safe [OF r]
        sys_use_as_stdio_safe [OF r] sys_poll_key_safe [OF r])
qed

section \<open>The scheduler\<close>

lemma free_pending_inv:
  assumes "kernel_inv k" "i < MAX_PROCESSES" "pstate (slot k i) \<noteq> Unused"
  shows "kernel_inv (free_pending i k)" "task (slot (free_pending i k) i) = task (slot k i)"
    "pstate (slot (free_pending i k) i) = pstate (slot k i)"
proof -
  have il: "i < length (procs k)" using assms(2) kernel_invD(3) [OF assms(1)] by simp
  show "kernel_inv (free_pending i k)" unfolding free_pending_def Let_def by (rule inv_state) (use assms in simp_all)
  show "task (slot (free_pending i k) i) = task (slot k i)" "pstate (slot (free_pending i k) i) = pstate (slot k i)"
    using il by (simp_all add: free_pending_def Let_def slot_def set_slot_def)
qed

lemma reap_inv:
  assumes "kernel_inv k" "i < MAX_PROCESSES" "pstate (slot k i) \<noteq> Unused"
  shows "kernel_inv (reap i k)"
  unfolding reap_def Let_def by (rule inv_slot) (use free_pending_inv [OF assms] assms(2) in \<open>simp_all add: share_def\<close>)

lemma sweep_inv: "kernel_inv k \<Longrightarrow> \<forall>i \<in> set is. i < MAX_PROCESSES \<Longrightarrow> kernel_inv (snd (sweep is k))"
proof (induction "is" arbitrary: k)
  case (Cons i "is")
  then show ?case using reap_inv [of k i] by (auto split: pstate.splits)
qed simp

lemma by_pid_Some: "kernel_inv k \<Longrightarrow> by_pid k n = Some i \<Longrightarrow> i < MAX_PROCESSES \<and> pstate (slot k i) \<noteq> Unused \<and> pid (slot k i) = n"
  using kernel_invD(3) [of k] by (auto simp: by_pid_def slot_def dest: position_Some)

lemma finished_inv: "kernel_inv k \<Longrightarrow> kernel_inv (snd (finished w k))"
  using reap_inv by_pid_Some sweep_inv [of k "[0..<MAX_PROCESSES]"]
  by (auto simp: finished_def split: option.splits prod.splits dest!: spec)

lemma pick_Some:
  assumes "pick_next_runnable k = Some (i, k')"
  shows "i < MAX_PROCESSES" "pstate (slot k i) = Runnable" "k' = k\<lparr>last_picked := i\<rparr>"
  using assms by (auto simp: pick_next_runnable_def find_Some_iff MAX_PROCESSES_def split: option.splits)

lemma launch_inv:
  assumes "kernel_inv k" "i < MAX_PROCESSES" "pstate (slot k i) \<noteq> Unused"
  shows "kernel_inv (launch i k)"
proof -
  note f = free_pending_inv [OF assms]
  have "kernel_inv (set_slot i ((slot (free_pending i k) i)\<lparr>pstate := Running, has_run := True\<rparr>) (free_pending i k))"
    by (rule inv_state [OF f(1) assms(2)]) (use f assms in simp_all)
  then show ?thesis using assms(2) by (simp add: launch_def Let_def kernel_inv_def pipes_ok_def)
qed

text \<open>One round of the loop of \<^verbatim>\<open>run_until\<close>, up to where the picked process runs.\<close>

definition schedule :: "int option \<Rightarrow> kernel \<Rightarrow> int option \<times> kernel" where
  "schedule w k = (case finished w k of
     (Some r, k) \<Rightarrow> (Some r, k)
   | (None, k) \<Rightarrow> (case pick_next_runnable k of None \<Rightarrow> (None, k) | Some (i, k) \<Rightarrow> (None, launch i k)))"

lemma schedule_inv:
  assumes "kernel_inv k"
  shows "kernel_inv (snd (schedule w k))"
proof -
  obtain r k1 where f: "finished w k = (r, k1)" by force
  then have k1: "kernel_inv k1" using finished_inv [OF assms, of w] by simp
  show ?thesis
  proof (cases "r = None \<and> pick_next_runnable k1 \<noteq> None")
    case True
    then obtain i k2 where p: "pick_next_runnable k1 = Some (i, k2)" by (cases "pick_next_runnable k1") auto
    note ps = pick_Some [OF p]
    have "kernel_inv (launch i k2)" by (rule launch_inv) (use ps k1 in simp_all)
    with f p True show ?thesis by (simp add: schedule_def)
  qed (use f k1 in \<open>auto simp: schedule_def split: option.splits\<close>)
qed

text \<open>A freshly loaded program: no descriptor is open.\<close>

definition fresh_task :: "kernel \<Rightarrow> usertask \<Rightarrow> bool" where
  "fresh_task k t \<longleftrightarrow> nodes (kfs k) (tcwd t) \<noteq> None \<and> open_files t = replicate MAX_OPEN_FILES OFree
     \<and> stdin_pipe t = None \<and> stdout_pipe t = None \<and> length (c_cc (termios_of t)) = NCCS"

lemma spawn_inv:
  assumes k: "kernel_inv k" and t: "fresh_task k t"
  shows "kernel_inv (snd (spawn k (Some t) parent))"
proof (cases "alloc_slot k")
  case (Some i)
  note i = alloc_slot_Some [OF k Some]
  have tk: "task_ok (nodes (kfs k)) t" "reads t q = 0" "writes t q = 0" for q
    using t by (auto simp: fresh_task_def task_ok_def file_ok_def reads_def writes_def ends_def)
  let ?p = "process_empty\<lparr>pid := next_pid k, parent_pid := parent, pstate := Runnable, task := t\<rparr>"
  have "kernel_inv (set_slot i ?p (k\<lparr>kpipes := kpipes k\<rparr>))"
    by (rule inv_new_slot [OF k]) (use i tk kernel_invD(4,5) [OF k] in simp_all)
  moreover have "set_slot i ?p (k\<lparr>next_pid := n\<rparr>) = (set_slot i ?p k)\<lparr>next_pid := n\<rparr>" for n by (simp add: set_slot_def)
  ultimately show ?thesis using Some by (simp add: spawn_def take_pid_def)
qed (use k in \<open>simp add: spawn_def\<close>)

section \<open>The machine\<close>

datatype kop =
    Call env nat nat nat nat nat
  | Fault bytes
  | Tick nat
  | Schedule "int option"
  | Launch usertask int

text \<open>The steps other than a \<^verbatim>\<open>wait\<close>.\<close>

definition kstep_ok :: "kernel \<Rightarrow> kop \<Rightarrow> bool" where
  "kstep_ok k op = (case op of
     Launch t parent \<Rightarrow> fresh_task k t
   | Schedule w \<Rightarrow> True
   | _ \<Rightarrow> (case current k of None \<Rightarrow> False
      | Some i \<Rightarrow> pstate (slot k i) = Running \<and>
          (case op of Call E frame rax a1 a2 a3 \<Rightarrow> call_ok k i rax a1 a2 a3 | _ \<Rightarrow> True)))"

fun kexec :: "kop \<Rightarrow> kernel \<Rightarrow> (unit \<times> kernel) option" where
  "kexec (Call E frame rax a1 a2 a3) k = map_option (\<lambda>(_, k). ((), k)) (syscall_dispatch E k frame rax a1 a2 a3)"
| "kexec (Fault msg) k = map_option (\<lambda>k. ((), k)) (isr_handler True msg k)"
| "kexec (Tick frame) k = Some ((), tick_switch True frame k)"
| "kexec (Schedule w) k = Some ((), snd (schedule w k))"
| "kexec (Launch t parent) k = Some ((), snd (spawn k (Some t) parent))"

lemma kexec_safe:
  assumes k: "kernel_inv k" and v: "kstep_ok k op"
  shows "\<exists>r k'. kexec op k = Some (r, k') \<and> kernel_inv k'"
proof -
  have run: "\<exists>i. running k i \<and> (\<forall>E f rax a1 a2 a3. op = Call E f rax a1 a2 a3 \<longrightarrow> call_ok k i rax a1 a2 a3)"
    if "\<And>t p. op \<noteq> Launch t p" "\<And>w. op \<noteq> Schedule w"
    using v k that by (cases op) (auto simp: kstep_ok_def running_def split: option.splits)
  show ?thesis
  proof (cases op)
    case (Call E f rax a1 a2 a3)
    with run obtain i where "running k i" "call_ok k i rax a1 a2 a3" by auto
    from syscall_dispatch_safe [OF this, of E f] Call show ?thesis by (auto simp: returns_def)
  next
    case (Fault msg)
    with run obtain i where "running k i" by auto
    from isr_handler_inv [OF this, of True msg] Fault show ?thesis by auto
  next
    case (Tick f)
    with run obtain i where "running k i" by auto
    from tick_switch_inv [OF this, of True f] Tick show ?thesis by auto
  next
    case (Schedule w)
    with schedule_inv [OF k] show ?thesis by simp
  next
    case (Launch t p)
    with v spawn_inv [OF k] show ?thesis by (simp add: kstep_ok_def)
  qed
qed

text \<open>
  A \<^verbatim>\<open>wait\<close> runs other programs until the child has ended. What they do meanwhile is itself made of steps
  of this machine, waits of their own included: \<open>runs k k'\<close> says that such steps lead from \<open>k\<close> to \<open>k'\<close>.
\<close>

definition in_user :: "kernel \<Rightarrow> nat \<Rightarrow> bool" where
  "in_user k i \<longleftrightarrow> current k = Some i \<and> pstate (slot k i) = Running"

inductive runs :: "kernel \<Rightarrow> kernel \<Rightarrow> bool" where
  stop: "runs k k"
| step: "runs k k1 \<Longrightarrow> kstep_ok k1 op \<Longrightarrow> kexec op k1 = Some (r, k2) \<Longrightarrow> runs k k2"
| wait: "runs k k1 \<Longrightarrow> in_user k1 i \<Longrightarrow> (\<And>j ka kb. e_run E j ka = Some kb \<Longrightarrow> runs ka kb) \<Longrightarrow>
    kexec (Call E frame SYS_WAIT4 n status a3) k1 = Some (r, k2) \<Longrightarrow> runs k k2"

lemma kernel_inv_only:
  assumes "kernel_inv k" "kfs k' = kfs k" "procs k' = procs k" "kpipes k' = kpipes k" "next_pipe k' = next_pipe k" "current k' = current k"
  shows "kernel_inv k'"
  using assms by (simp add: kernel_inv_def pipes_ok_def)

lemma run_loop_inv:
  assumes "run_loop d w k = Some r"
  shows "(\<forall>i k k'. kernel_inv k \<longrightarrow> d i k = Some k' \<longrightarrow> kernel_inv k') \<longrightarrow> kernel_inv k \<longrightarrow> kernel_inv (snd r)"
  using assms
proof (induction rule: run_loop.raw_induct [rotated, consumes 1])
  case (1 f d w k r)
  show ?case
  proof (intro impI)
    assume d: "\<forall>i k k'. kernel_inv k \<longrightarrow> d i k = Some k' \<longrightarrow> kernel_inv k'" and k: "kernel_inv k"
    obtain v k1 where f: "finished w k = (v, k1)" by (cases "finished w k")
    have k1: "kernel_inv k1" using finished_inv [OF k, of w] f by simp
    show "kernel_inv (snd r)"
    proof (cases "v = None \<and> pick_next_runnable k1 \<noteq> None")
      case True
      then obtain i k2 where p: "pick_next_runnable k1 = Some (i, k2)" by (cases "pick_next_runnable k1") auto
      note pick = pick_Some [OF p]
      have "kernel_inv k2" using pick(3) kernel_inv_only [OF k1, of k2] by simp
      moreover have "pstate (slot k2 i) \<noteq> Unused" using pick(2,3) by (simp add: slot_def)
      ultimately have l: "kernel_inv (launch i k2)" using launch_inv pick(1) by blast
      from 1(2) f True p obtain k3 where k3: "d i (launch i k2) = Some k3" "f d w k3 = Some r" by (auto split: bind_splits)
      from d l k3(1) have "kernel_inv k3" by blast
      with 1(1) [OF k3(2)] d show ?thesis by blast
    next
      case False
      show ?thesis
      proof (cases v)
        case None
        with False 1(2) f have "f d w k1 = Some r" by (cases "pick_next_runnable k1") auto
        with 1(1) d k1 show ?thesis by blast
      qed (use 1(2) f k1 in auto)
    qed
  qed
qed

lemma run_until_inv:
  assumes k: "kernel_inv k" and d: "\<And>i k k'. kernel_inv k \<Longrightarrow> d i k = Some k' \<Longrightarrow> kernel_inv k'"
    and r: "run_until d w k = Some (v, k')"
  shows "kernel_inv k'" "current k' = current k"
proof -
  from r obtain k1 where k1: "run_loop d w k = Some (v, k1)" "k' = k1\<lparr>current := current k\<rparr>"
    by (auto simp: run_until_def split: bind_splits)
  have "kernel_inv k1" using run_loop_inv [OF k1(1)] d k by auto
  with k1(2) kernel_invD(6) [OF k] show "kernel_inv k'" "current k' = current k"
    by (auto simp: kernel_inv_def pipes_ok_def split: option.splits)
qed

lemma inv_put_mem:
  assumes "kernel_inv k" "i < MAX_PROCESSES" "put_user i p bs k = Some k'"
  shows "kernel_inv k'"
proof -
  from assms(3) obtain m where "k' = set_slot i ((slot k i)\<lparr>task := (task (slot k i))\<lparr>umem := m\<rparr>\<rparr>) k"
    by (auto simp: put_user_def put_task_def split: bind_splits)
  moreover have "kernel_inv (set_slot i ((slot k i)\<lparr>task := (task (slot k i))\<lparr>umem := m\<rparr>\<rparr>) k)"
    by (rule inv_slot [OF assms(1,2)])
      (use kernel_inv_task [OF assms(1,2)] in \<open>auto simp: share_def task_ok_def reads_def writes_def\<close>)
  ultimately show ?thesis by simp
qed

lemma sys_wait_inv:
  assumes k: "kernel_inv k" and d: "\<And>j k k'. kernel_inv k \<Longrightarrow> e_run E j k = Some k' \<Longrightarrow> kernel_inv k'"
    and r: "sys_wait E k n status = Some (v, k')"
  shows "kernel_inv k'"
proof (cases "current k")
  case (Some i)
  have u: "kernel_inv k1" if "run_until (e_run E) w k = Some (code, k1)" for w code k1
    by (rule run_until_inv(1) [OF k _ that]) (rule d)
  show ?thesis
  proof (cases "find_child_of k (pid (slot k i)) (if as_i32 n \<ge> 0 then Some (as_i32 n) else None)")
    case None
    with r Some k show ?thesis by (simp add: sys_wait_def Let_def fail_def)
  next
    case (Some c)
    with r \<open>current k = Some i\<close> obtain code k1 where "run_until (e_run E) (Some (pid (slot k c))) k = Some (code, k1)"
      "k' = k1 \<or> put_user i status (to_le 4 (nat (code mod 2 ^ 32))) k1 = Some k'"
      by (auto simp: sys_wait_def Let_def ret_def split: bind_splits if_splits)
    with u inv_put_mem [OF _ kernel_invD(6) [OF k \<open>current k = Some i\<close>]] show ?thesis by blast
  qed
qed (use k r in \<open>simp add: sys_wait_def fail_def\<close>)

lemma wait_call: "syscall_dispatch E k frame SYS_WAIT4 n status a3 = (if halted k then Some (Switch 0, k) else returning (sys_wait E k n status))"
  by (simp add: syscall_dispatch_def syscall_numbers)

lemma wait_step_inv:
  assumes "kernel_inv k" "\<And>j k k'. kernel_inv k \<Longrightarrow> e_run E j k = Some k' \<Longrightarrow> kernel_inv k'"
    "kexec (Call E frame SYS_WAIT4 n status a3) k = Some (r, k')"
  shows "kernel_inv k'"
  using assms(1,3) sys_wait_inv [OF assms(1,2)]
  by (auto simp: wait_call returning_def split: if_splits)

lemma runs_inv: "runs k k' \<Longrightarrow> kernel_inv k \<Longrightarrow> kernel_inv k'"
proof (induction rule: runs.induct)
  case (step k k1 op r k2)
  from kexec_safe [OF step.IH [OF step.prems] step.hyps(2)] step.hyps(3) show ?case by simp
next
  case (wait k k1 i E frame n status a3 r k2)
  show ?case by (rule wait_step_inv [OF wait.IH(1) [OF wait.prems] _ wait.hyps(4)]) (use wait.IH(2) in blast)
qed

text \<open>
  A \<^verbatim>\<open>wait\<close> that comes back: the programs are such steps, the child ends, and the status, where it is asked for, goes to
  memory that has pages.
\<close>

definition wait_ok :: "env \<Rightarrow> kernel \<Rightarrow> nat \<Rightarrow> nat \<Rightarrow> nat \<Rightarrow> bool" where
  "wait_ok E k i n status \<longleftrightarrow> (\<forall>j ka kb. e_run E j ka = Some kb \<longrightarrow> runs ka kb) \<and>
     (\<forall>c. find_child_of k (pid (slot k i)) (if as_i32 n \<ge> 0 then Some (as_i32 n) else None) = Some c \<longrightarrow>
       (\<exists>code k'. run_until (e_run E) (Some (pid (slot k c))) k = Some (code, k') \<and> (status = 0 \<or> buffer_ok k' i status 4)))"

definition kvalid :: "kernel \<Rightarrow> kop \<Rightarrow> bool" where
  "kvalid k op \<longleftrightarrow> kstep_ok k op \<or>
     (case op of Call E frame rax a1 a2 a3 \<Rightarrow> rax = SYS_WAIT4 \<and> (\<exists>i. in_user k i \<and> wait_ok E k i a1 a2) | _ \<Rightarrow> False)"

lemma sys_wait_returns:
  assumes i: "in_user k i" and w: "wait_ok E k i n status"
  shows "sys_wait E k n status \<noteq> None"
proof (cases "find_child_of k (pid (slot k i)) (if as_i32 n \<ge> 0 then Some (as_i32 n) else None)")
  case (Some c)
  with w obtain code k' where k': "run_until (e_run E) (Some (pid (slot k c))) k = Some (code, k')" "status = 0 \<or> buffer_ok k' i status 4"
    unfolding wait_ok_def by blast
  have "put_user i status (to_le 4 m) k' \<noteq> None" if "status \<noteq> 0" "user_ok status 4" for m
    using put_user_mapped [of k' i status 4 "to_le 4 m"] k'(2) that by (auto simp: buffer_ok_def)
  then obtain k2 where "status \<noteq> 0 \<Longrightarrow> user_ok status 4 \<Longrightarrow> put_user i status (to_le 4 (nat (code mod 2 ^ 32))) k' = Some k2" by blast
  with Some k'(1) i show ?thesis by (simp add: sys_wait_def in_user_def Let_def ret_def)
qed (use i in \<open>simp add: sys_wait_def in_user_def Let_def fail_def\<close>)

lemma kvalid_safe:
  assumes k: "kernel_inv k" and v: "kvalid k op"
  shows "\<exists>r k'. kexec op k = Some (r, k') \<and> kernel_inv k'"
proof (cases "kstep_ok k op")
  case False
  with v obtain E frame n status a3 i where op: "op = Call E frame SYS_WAIT4 n status a3" and w: "in_user k i" "wait_ok E k i n status"
    by (auto simp: kvalid_def split: kop.splits)
  have d: "kernel_inv kb" if "kernel_inv ka" "e_run E j ka = Some kb" for j ka kb
    using runs_inv that w(2) unfolding wait_ok_def by blast
  from sys_wait_returns [OF w] obtain r k' where k': "kexec op k = Some (r, k')" by (cases "halted k") (auto simp: op wait_call returning_def)
  moreover have "kernel_inv k'" by (rule wait_step_inv [OF k _ k' [unfolded op]]) (rule d)
  ultimately show ?thesis by blast
qed (use kexec_safe [OF k] in blast)

interpretation kern: machine kernel_inv kvalid kexec
  by unfold_locales (rule kvalid_safe)

lemma held_empty: "held f (replicate n process_empty) q = 0"
  by (induction n) (auto simp: held_def share_def process_empty_def)

lemma boot_inv:
  assumes "vfs_wf fs t"
  shows "kernel_inv (table_init fs inp heap)"
proof -
  have "pstate process_empty = Unused" by (simp add: process_empty_def)
  with assms show ?thesis by (auto simp: kernel_inv_def table_init_def procs_ok_def pipes_ok_def refs_ok_def held_empty)
qed

section \<open>Properties\<close>

text \<open>A program with one page of memory in the root directory, and drivers that answer.\<close>

definition demo_task :: usertask where
  "demo_task = usertask_empty\<lparr>termios_of := default_console, umem := (\<lambda>a. if 4096 \<le> a \<and> a < 8192 then Some 0 else None)\<rparr>"

text \<open>Programs that exit as soon as they run.\<close>

definition demo_env :: env where
  "demo_env = \<lparr>e_load = (\<lambda>image argv cwd. None),
     e_run = (\<lambda>j k. if \<not> halted k \<and> in_user k j then map_option snd (sys_exit k 0) else None),
     e_space = (65536, True), e_kstack = Some 131072, e_pages = 4,
     e_save = (\<lambda>fs. None), e_audio_open = (\<lambda>rate ch. False), e_audio_write = (\<lambda>pcm. None), e_audio_close = False\<rparr>"

lemma demo_programs: "e_run demo_env j ka = Some kb \<Longrightarrow> runs ka kb"
proof -
  assume "e_run demo_env j ka = Some kb"
  then obtain v where v: "\<not> halted ka" "in_user ka j" "sys_exit ka 0 = Some (v, kb)"
    by (auto simp: demo_env_def split: if_splits)
  have "kstep_ok ka (Call demo_env 0 SYS_EXIT 0 0 0)"
    using v(2) by (simp add: kstep_ok_def in_user_def call_ok_def syscall_numbers)
  moreover have "kexec (Call demo_env 0 SYS_EXIT 0 0 0) ka = Some ((), kb)"
    using v(1,3) by (simp add: syscall_dispatch_def syscall_numbers)
  ultimately show "runs ka kb" by (rule runs.step [OF runs.stop])
qed

text \<open>A \<^verbatim>\<open>wait\<close> for a child that has ended comes back at once, with its status, and frees its slot.\<close>

lemma wait_zombie:
  assumes "by_pid k n = Some c" "pstate (slot k c) = Zombie"
  shows "run_until d (Some n) k = Some (exit_status (slot k c), (reap c k)\<lparr>current := current k\<rparr>)"
  using assms by (simp add: run_until_def run_loop.simps finished_def)

lemma wait_zombie_ok:
  assumes "find_child_of k (pid (slot k i)) (if as_i32 n \<ge> 0 then Some (as_i32 n) else None) = Some c"
    "by_pid k (pid (slot k c)) = Some c" "pstate (slot k c) = Zombie"
  shows "wait_ok demo_env k i n 0"
  using assms wait_zombie [OF assms(2,3)] demo_programs by (simp add: wait_ok_def)



text \<open>
  Two ways for a program to bring the kernel down. When it unlinks a file that it has open, no check of the call
  looks at descriptors: the vnode is freed, the descriptor keeps its address, and the next read follows it.
\<close>

lemma tdel_gone: "n \<noteq> tid t \<Longrightarrow> n \<notin> set (tids (tdel n t))"
  by (induction t) auto

lemma unlink_open_dangles:
  assumes r: "running k i" and path: "user_str (umem (task (slot k i))) p = Some (Some path)"
    "resolve (kfs k) (tcwd (task (slot k i))) path = Some (Some n)" "n \<noteq> root (kfs k)" "cwd_within k n = Some False"
    and f: "open_file (task (slot k i)) fd = Some (OFile n ps w)" and b: "user_ok b len"
  obtains k' where "sys_unlink k p = Some (Some 0, k')" "sys_read k' fd b len = None"
proof -
  let ?cwd = "tcwd (task (slot k i))"
  note inv = runningD [OF r] and ki = kernel_invD [OF runningD(1) [OF r]]
  obtain t where t: "vfs_wf (kfs k) t" "?cwd \<in> set (tids t)" by (rule running_wf [OF r])
  have "\<forall>p \<in> set (procs k). pstate p \<noteq> Unused \<longrightarrow> tcwd (task p) \<in> set (tids t)"
    using ki(2) wf_rep(6) [OF t(1)] by (auto simp: procs_ok_def task_ok_def)
  from any_within_ok [OF t(1) this, of n] path(4) inv(3,5) have "\<not> tcontains n ?cwd t"
    by (auto simp: cwd_within_def slot_def)
  then obtain fs where fs: "remove (kfs k) ?cwd path (Some ?cwd) = Some (True, fs)" "vfs_wf fs (tdel n t)"
    by (rule_tac remove_spec [OF t t(2), of path]) (use path in auto)
  let ?k = "k\<lparr>kfs := fs\<rparr>"
  have "n \<notin> set (tids (tdel n t))" using path(3) wf_rep(3) [OF t(1)] by (intro tdel_gone) simp
  then have "nodes fs n = None" using wf_rep(6) [OF fs(2)] by blast
  moreover have "fd \<noteq> 0" using f by (auto simp: open_file_def split: if_splits)
  ultimately have "sys_read ?k fd b len = None" using inv(2) f b by (simp add: sys_read_def with_task_def)
  moreover have "sys_unlink k p = Some (Some 0, ?k)"
    using path fs(1) by (simp add: sys_unlink_def with_task_running [OF r] with_str_def on_fs_def ret_def ok_def)
  ultimately show ?thesis by (intro that)
qed

text \<open>
  When it seeks beyond the end of a file and writes, the kernel allocates the gap: beyond what its heap
  can give, one byte halts the machine.
\<close>

lemma far_write_halts:
  assumes r: "running k i" and f: "open_file (task (slot k i)) fd = Some (OFile n ps True)"
    and d: "int d \<le> I64_MAX" "\<not> heap_has k (d + len)" "\<And>v. nodes (kfs k) n = Some v \<Longrightarrow> length (vdata v) < d + len"
    and b: "user_ok b len"
  obtains k1 k2 where "sys_lseek k fd (int d) SEEK_SET = Some (Some (int d), k1)" "sys_write k1 fd b len = Some (None, k2)" "halted k2"
proof -
  note inv = runningD [OF r]
  let ?k = "put_task i (set_file fd (OFile n d True) (task (slot k i))) k"
  from task_ok_file [OF inv(6) open_file_Some(1) [OF f]] obtain v where v: "nodes (kfs k) n = Some v" by blast
  have fd: "3 \<le> fd" "fd - 3 < length (open_files (task (slot k i)))" using f by (auto simp: open_file_def split: if_splits)
  have "sys_lseek k fd (int d) SEEK_SET = Some (Some (int d), ?k)"
    using f v d(1) by (simp add: sys_lseek_def with_task_running [OF r] Let_def ret_def)
  moreover have "sys_write ?k fd b len = Some (None, ?k\<lparr>halted := True\<rparr>)"
    using inv(2,5) v d(2) d(3) [OF v] b fd
    by (simp add: sys_write_def with_task_def open_file_def set_file_def fail_def put_task_def set_slot_def slot_def)
  ultimately show ?thesis by (rule that) simp
qed

text \<open>How many slots the round-robin search passes before it reaches \<open>i\<close>.\<close>

definition distance :: "nat \<Rightarrow> nat \<Rightarrow> nat" where
  "distance l i = (if l < i then i - l - 1 else i + MAX_PROCESSES - l - 1)"

lemma distance_reaches: "l < MAX_PROCESSES \<Longrightarrow> i < MAX_PROCESSES \<Longrightarrow> (l + (distance l i + 1)) mod MAX_PROCESSES = i"
  by (auto simp: distance_def)

lemma distance_mod: "l < MAX_PROCESSES \<Longrightarrow> n < MAX_PROCESSES \<Longrightarrow> distance l ((l + (n + 1)) mod MAX_PROCESSES) = n"
  by (cases "l + (n + 1) < MAX_PROCESSES") (auto simp: distance_def le_mod_geq)

lemma distance_closer:
  assumes "l < MAX_PROCESSES" "j < MAX_PROCESSES" "i < MAX_PROCESSES" "j \<noteq> i" "distance l j \<le> distance l i"
  shows "distance j i < distance l i"
  using assms by (auto simp: distance_def split: if_splits)

lemma distance_less: "l < MAX_PROCESSES \<Longrightarrow> i < MAX_PROCESSES \<Longrightarrow> distance l i < MAX_PROCESSES"
  by (auto simp: distance_def)

text \<open>The search finds the runnable process that is nearest.\<close>

lemma pick_nearest:
  assumes l: "last_picked k < MAX_PROCESSES" and i: "i < MAX_PROCESSES" "pstate (slot k i) = Runnable"
  shows "\<exists>j. pick_next_runnable k = Some (j, k\<lparr>last_picked := j\<rparr>) \<and> distance (last_picked k) j \<le> distance (last_picked k) i"
proof -
  let ?P = "\<lambda>i. pstate (slot k i) = Runnable" and ?f = "\<lambda>j. (last_picked k + j) mod MAX_PROCESSES"
  let ?xs = "map ?f [1..<MAX_PROCESSES + 1]"
  let ?d = "distance (last_picked k) i"
  have d: "?d < MAX_PROCESSES" by (rule distance_less [OF l i(1)])
  have len: "length ?xs = MAX_PROCESSES" by simp
  have nth: "?xs ! n = ?f (n + 1)" if "n < MAX_PROCESSES" for n using that by (simp add: add.commute del: upt_Suc)
  have di: "?xs ! ?d = i" using nth [OF d] distance_reaches [OF l i(1)] by simp
  have "?xs ! ?d \<in> set ?xs" using d len by (simp only: nth_mem)
  then have "find ?P ?xs \<noteq> None" using i(2) di by (metis (mono_tags, lifting) find_None_iff)
  then obtain j where j: "find ?P ?xs = Some j" by blast
  then obtain n where n: "n < MAX_PROCESSES" "j = ?xs ! n" "\<forall>m < n. \<not> ?P (?xs ! m)" unfolding find_Some_iff len by blast
  have "\<not> ?d < n" using n(3) [rule_format, of ?d] i(2) unfolding di by blast
  then have "n \<le> ?d" by simp
  moreover have "distance (last_picked k) j = n"
    unfolding n(2) nth [OF n(1)] by (rule distance_mod [OF l n(1)])
  ultimately show ?thesis using j by (auto simp: pick_next_runnable_def)
qed

text \<open>
  C26: the scheduler is fair. In any run of scheduling rounds \<open>ks\<close>, each starting where the last
  pick left the table and with anything else changed in between, a process that stays runnable is
  picked within as many rounds as the table has slots.
\<close>

theorem scheduler_fair:
  assumes i: "i < MAX_PROCESSES" and l: "last_picked (ks 0) < MAX_PROCESSES"
    and run: "\<forall>n < MAX_PROCESSES. pstate (slot (ks n) i) = Runnable"
    and next': "\<forall>n < MAX_PROCESSES. \<forall>j k'. pick_next_runnable (ks n) = Some (j, k') \<longrightarrow> last_picked (ks (Suc n)) = last_picked k'"
  shows "\<exists>n < MAX_PROCESSES. \<exists>k'. pick_next_runnable (ks n) = Some (i, k')"
proof (rule ccontr)
  assume no: "\<not> ?thesis"
  have "n < MAX_PROCESSES \<Longrightarrow> last_picked (ks n) < MAX_PROCESSES \<and> distance (last_picked (ks n)) i + n < MAX_PROCESSES" for n
  proof (induction n)
    case 0
    then show ?case using l distance_less [OF l i] by simp
  next
    case (Suc n)
    then have n: "n < MAX_PROCESSES" "last_picked (ks n) < MAX_PROCESSES" "distance (last_picked (ks n)) i + n < MAX_PROCESSES" by simp_all
    from pick_nearest [OF n(2) i] run n(1) obtain j where j: "pick_next_runnable (ks n) = Some (j, (ks n)\<lparr>last_picked := j\<rparr>)"
      "distance (last_picked (ks n)) j \<le> distance (last_picked (ks n)) i" by blast
    have "j \<noteq> i" using no j(1) n(1) by blast
    from distance_closer [OF n(2) pick_Some(1) [OF j(1)] i this j(2)] have "distance j i < distance (last_picked (ks n)) i" .
    moreover have "last_picked (ks (Suc n)) = j" using next' j(1) n(1) by simp
    ultimately show ?case using n(3) pick_Some(1) [OF j(1)] by simp
  qed
  from this [of "MAX_PROCESSES - 1"] have d: "last_picked (ks 15) < MAX_PROCESSES" "distance (last_picked (ks 15)) i = 0"
    by (simp_all add: MAX_PROCESSES_def)
  from pick_nearest [OF d(1) i] run d(2) obtain j where j: "pick_next_runnable (ks 15) = Some (j, (ks 15)\<lparr>last_picked := j\<rparr>)"
    "distance (last_picked (ks 15)) j = 0" by (auto simp: MAX_PROCESSES_def)
  have "j = i" using distance_reaches [OF d(1) pick_Some(1) [OF j(1)]] distance_reaches [OF d(1) i] j(2) d(2) by simp
  with no j(1) show False by (auto simp: MAX_PROCESSES_def)
qed

text \<open>A full table of runnable processes, each round starting where the last pick left off.\<close>

definition demo_ready :: "nat \<Rightarrow> kernel" where
  "demo_ready l = (table_init vfs_init (\<lambda>n. None) (\<lambda>n. n < 2 ^ 24))\<lparr>procs := replicate MAX_PROCESSES (process_empty\<lparr>pstate := Runnable\<rparr>), last_picked := l\<rparr>"

lemma demo_ready_simps: "i < MAX_PROCESSES \<Longrightarrow> pstate (slot (demo_ready l) i) = Runnable" "last_picked (demo_ready l) = l"
  by (simp_all add: demo_ready_def slot_def)

lemma demo_ready_pick: "pick_next_runnable (demo_ready l) = Some (Suc l mod MAX_PROCESSES, (demo_ready l)\<lparr>last_picked := Suc l mod MAX_PROCESSES\<rparr>)"
proof -
  have m: "Suc l mod MAX_PROCESSES < MAX_PROCESSES" by (simp add: MAX_PROCESSES_def)
  have "[1..<MAX_PROCESSES + 1] = 1 # [2..<MAX_PROCESSES + 1]" by (simp add: MAX_PROCESSES_def upt_conv_Cons)
  then show ?thesis unfolding pick_next_runnable_def demo_ready_simps(2) by (simp only: list.map find.simps) (simp add: demo_ready_simps(1) [OF m])
qed

theorem scheduler_fair_witness:
  "\<exists>n < MAX_PROCESSES. \<exists>k'. pick_next_runnable (demo_ready (n mod MAX_PROCESSES)) = Some (3, k')"
proof (rule scheduler_fair)
  show "\<forall>n < MAX_PROCESSES. \<forall>j k'. pick_next_runnable (demo_ready (n mod MAX_PROCESSES)) = Some (j, k') \<longrightarrow>
      last_picked (demo_ready (Suc n mod MAX_PROCESSES)) = last_picked k'"
    by (auto simp: demo_ready_pick demo_ready_simps(2) mod_Suc_eq)
  show "\<forall>n < MAX_PROCESSES. pstate (slot (demo_ready (n mod MAX_PROCESSES)) 3) = Runnable"
    by (simp add: demo_ready_simps(1) MAX_PROCESSES_def)
qed (simp_all add: demo_ready_simps(2) MAX_PROCESSES_def)

end
