(* ===== verification/Anssos.thy ===== *)
theory Anssos
  imports AnssPrelude
begin

text \<open>
  The userland runtime, \<^verbatim>\<open>userland/rust/anssos/src/lib.rs\<close>: the safe wrappers every program uses
  over the raw system calls of \<^verbatim>\<open>sys.rs\<close>. The kernel is a parameter: the record \<open>sys\<close> holds one
  function per system call on a kernel state \<open>'k\<close>, returning the result register and the bytes
  the call puts in the caller's buffer. A loop that retries a call may never return, so it is a
  partial function whose value is then \<open>None\<close>, as it is where a slice index would panic.
\<close>

section \<open>Vectors\<close>

text \<open>Rust's \<^verbatim>\<open>Vec\<close> operations that panic out of range.\<close>

definition vec_insert :: "'a list \<Rightarrow> nat \<Rightarrow> 'a \<Rightarrow> 'a list option" where
  "vec_insert xs i x = (if i \<le> length xs then Some (take i xs @ x # drop i xs) else None)"

definition vec_remove :: "'a list \<Rightarrow> nat \<Rightarrow> ('a \<times> 'a list) option" where
  "vec_remove xs i = (if i < length xs then Some (xs ! i, take i xs @ drop (Suc i) xs) else None)"

definition vec_get :: "'a list \<Rightarrow> nat \<Rightarrow> 'a option" where
  "vec_get xs i = (if i < length xs then Some (xs ! i) else None)"

definition vec_set :: "'a list \<Rightarrow> nat \<Rightarrow> 'a \<Rightarrow> 'a list option" where
  "vec_set xs i x = (if i < length xs then Some (xs[i := x]) else None)"

definition vec_split_off :: "'a list \<Rightarrow> nat \<Rightarrow> ('a list \<times> 'a list) option" where
  "vec_split_off xs i = (if i \<le> length xs then Some (take i xs, drop i xs) else None)"

definition vec_drain :: "'a list \<Rightarrow> nat \<Rightarrow> nat \<Rightarrow> 'a list option" where
  "vec_drain xs a b = (if a \<le> b \<and> b \<le> length xs then Some (take a xs @ drop b xs) else None)"

section \<open>Strings\<close>

text \<open>One step of a UTF-8 decoder: how many bytes the sequence at the front takes, and whether it is
  well-formed; a malformed one ends before the first byte that cannot continue it.\<close>

definition is_cont :: "bytes \<Rightarrow> nat \<Rightarrow> bool" where
  "is_cont s i \<longleftrightarrow> i < length s \<and> (s ! i) AND 0xC0 = 0x80"

definition in_range :: "bytes \<Rightarrow> nat \<Rightarrow> u8 \<Rightarrow> u8 \<Rightarrow> bool" where
  "in_range s i lo hi \<longleftrightarrow> i < length s \<and> lo \<le> s ! i \<and> s ! i \<le> hi"

definition utf8_step :: "bytes \<Rightarrow> nat \<times> bool" where
  "utf8_step s =
     (let b = s ! 0
      in if b < 0x80 then (1, True)
         else if 0xC2 \<le> b \<and> b \<le> 0xDF then (if is_cont s 1 then (2, True) else (1, False))
         else if 0xE0 \<le> b \<and> b \<le> 0xEF then
           (if \<not> (if b = 0xE0 then in_range s 1 0xA0 0xBF else if b = 0xED then in_range s 1 0x80 0x9F else in_range s 1 0x80 0xBF)
            then (1, False) else if is_cont s 2 then (3, True) else (2, False))
         else if 0xF0 \<le> b \<and> b \<le> 0xF4 then
           (if \<not> (if b = 0xF0 then in_range s 1 0x90 0xBF else if b = 0xF4 then in_range s 1 0x80 0x8F else in_range s 1 0x80 0xBF)
            then (1, False) else if \<not> is_cont s 2 then (2, False) else if is_cont s 3 then (4, True) else (3, False))
         else (1, False))"

text \<open>\<^verbatim>\<open>String::from_utf8_lossy\<close>: each malformed sequence becomes U+FFFD.\<close>

function from_utf8_lossy :: "bytes \<Rightarrow> bytes" where
  "from_utf8_lossy [] = []"
| "from_utf8_lossy (b # bs) =
     (let (n, good) = utf8_step (b # bs)
      in (if good then take n (b # bs) else [0xEF, 0xBF, 0xBD]) @ from_utf8_lossy (drop (n - 1) bs))"
  by pat_completeness auto
termination
  by (relation "measure length") auto

text \<open>\<^verbatim>\<open>CString::new\<close>: a path with an interior NUL fails.\<close>

definition cpath :: "bytes \<Rightarrow> bytes option" where
  "cpath path = (if 0 \<in> set path then None else Some path)"

section \<open>The kernel\<close>

record 'k sys =
  s_open :: "'k \<Rightarrow> bytes \<Rightarrow> nat \<Rightarrow> 'k \<times> int"
  s_read :: "'k \<Rightarrow> int \<Rightarrow> nat \<Rightarrow> 'k \<times> int \<times> bytes"
  s_write :: "'k \<Rightarrow> int \<Rightarrow> bytes \<Rightarrow> 'k \<times> int"
  s_close :: "'k \<Rightarrow> int \<Rightarrow> 'k"
  s_lseek :: "'k \<Rightarrow> int \<Rightarrow> int \<Rightarrow> nat \<Rightarrow> 'k \<times> int"
  s_getdents :: "'k \<Rightarrow> int \<Rightarrow> 'k \<times> int \<times> nat \<times> bytes"
  s_mkdir :: "'k \<Rightarrow> bytes \<Rightarrow> 'k \<times> int"
  s_unlink :: "'k \<Rightarrow> bytes \<Rightarrow> 'k \<times> int"
  s_rename :: "'k \<Rightarrow> bytes \<Rightarrow> bytes \<Rightarrow> 'k \<times> int"
  s_copy :: "'k \<Rightarrow> bytes \<Rightarrow> bytes \<Rightarrow> 'k \<times> int"
  s_chdir :: "'k \<Rightarrow> bytes \<Rightarrow> 'k \<times> int"
  s_getcwd :: "'k \<Rightarrow> nat \<Rightarrow> 'k \<times> int \<times> bytes"
  s_sync :: "'k \<Rightarrow> 'k \<times> int"
  s_yield :: "'k \<Rightarrow> 'k"
  s_poll_key :: "'k \<Rightarrow> 'k \<times> int"
  s_winsize :: "'k \<Rightarrow> 'k \<times> int \<times> nat \<times> nat"

definition O_RDONLY :: nat where "O_RDONLY = 0"
definition O_WRONLY :: nat where "O_WRONLY = 1"
definition O_CREAT :: nat where "O_CREAT = 0x40"
definition O_TRUNC :: nat where "O_TRUNC = 0x200"
definition DT_DIR :: nat where "DT_DIR = 4"

section \<open>Descriptors and keys\<close>

partial_function (option) write_all :: "'k sys \<Rightarrow> 'k \<Rightarrow> int \<Rightarrow> bytes \<Rightarrow> 'k option" where
  "write_all S k fd bs =
     (if bs = [] then Some k
      else let (k, n) = s_write S k fd bs
           in if n < 0 then Some k
              else if n = 0 then write_all S (s_yield S k) fd bs
              else if nat n > length bs then None
              else write_all S k fd (drop (nat n) bs))"

definition read_fd :: "'k sys \<Rightarrow> 'k \<Rightarrow> int \<Rightarrow> nat \<Rightarrow> 'k \<times> bytes option" where
  "read_fd S k fd len = (let (k, n, d) = s_read S k fd len in (k, if n < 0 then None else Some d))"

definition close_fd :: "'k sys \<Rightarrow> 'k \<Rightarrow> int \<Rightarrow> 'k" where
  "close_fd S k fd = s_close S k fd"

partial_function (option) read_key :: "'k sys \<Rightarrow> 'k \<Rightarrow> ('k \<times> u8 option) option" where
  "read_key S k =
     (let (k, n, d) = s_read S k 0 1
      in if n = 1 then Some (k, Some (d ! 0))
         else if n = 0 then read_key S (s_yield S k)
         else Some (k, None))"

datatype key_poll = Key u8 | KeyEmpty | KeyClosed

definition poll_key :: "'k sys \<Rightarrow> 'k \<Rightarrow> 'k \<times> key_poll" where
  "poll_key S k =
     (let (k, r) = s_poll_key S k
      in (k, if r = -2 then KeyClosed else if r < 0 then KeyEmpty else Key (word_of_int r)))"

section \<open>Files\<close>

definition file_open :: "'k sys \<Rightarrow> 'k \<Rightarrow> bytes \<Rightarrow> 'k \<times> int option" where
  "file_open S k path = (let (k, fd) = s_open S k path O_RDONLY in (k, if fd < 0 then None else Some fd))"

definition file_create :: "'k sys \<Rightarrow> 'k \<Rightarrow> bytes \<Rightarrow> 'k \<times> int option" where
  "file_create S k path =
     (let (k, fd) = s_open S k path (O_WRONLY + O_CREAT + O_TRUNC) in (k, if fd < 0 then None else Some fd))"

definition file_read :: "'k sys \<Rightarrow> 'k \<Rightarrow> int \<Rightarrow> nat \<Rightarrow> 'k \<times> bytes" where
  "file_read S k fd len = (let (k, n, d) = s_read S k fd len in (k, if n \<le> 0 then [] else d))"

partial_function (option) file_write_all :: "'k sys \<Rightarrow> 'k \<Rightarrow> int \<Rightarrow> bytes \<Rightarrow> ('k \<times> bool) option" where
  "file_write_all S k fd bs =
     (if bs = [] then Some (k, True)
      else let (k, n) = s_write S k fd bs
           in if n \<le> 0 then Some (k, False)
              else if nat n > length bs then None
              else file_write_all S k fd (drop (nat n) bs))"

partial_function (option) read_full :: "'k sys \<Rightarrow> 'k \<Rightarrow> int \<Rightarrow> nat \<Rightarrow> bytes \<Rightarrow> ('k \<times> bytes) option" where
  "read_full S k fd len got =
     (if length got < len
      then let (k, d) = file_read S k fd (len - length got)
           in if d = [] then Some (k, got) else read_full S k fd len (got @ d)
      else Some (k, got))"

definition file_seek :: "'k sys \<Rightarrow> 'k \<Rightarrow> int \<Rightarrow> int \<Rightarrow> nat \<Rightarrow> 'k \<times> int" where
  "file_seek S k fd offset whence = s_lseek S k fd offset whence"

text \<open>Dropping a \<^verbatim>\<open>File\<close> closes it.\<close>

definition file_drop :: "'k sys \<Rightarrow> 'k \<Rightarrow> int option \<Rightarrow> 'k" where
  "file_drop S k f = (case f of None \<Rightarrow> k | Some fd \<Rightarrow> s_close S k fd)"

section \<open>Paths\<close>

definition on_path :: "'k \<Rightarrow> bytes \<Rightarrow> ('k \<Rightarrow> bytes \<Rightarrow> 'k \<times> 'a option) \<Rightarrow> 'k \<times> 'a option" where
  "on_path k path f = (case cpath path of None \<Rightarrow> (k, None) | Some p \<Rightarrow> f k p)"

definition path_exists :: "'k sys \<Rightarrow> 'k \<Rightarrow> bytes \<Rightarrow> 'k \<times> bool" where
  "path_exists S k path = (let (k, f) = on_path k path (file_open S) in (file_drop S k f, f \<noteq> None))"

definition path_is_dir :: "'k sys \<Rightarrow> 'k \<Rightarrow> bytes \<Rightarrow> 'k \<times> bool" where
  "path_is_dir S k path =
     (let (k, f) = on_path k path (file_open S)
      in case f of None \<Rightarrow> (k, False)
         | Some fd \<Rightarrow> let (k, r, _) = s_getdents S k fd in (s_close S k fd, r \<ge> 0))"

definition anssos_mkdir :: "'k sys \<Rightarrow> 'k \<Rightarrow> bytes \<Rightarrow> 'k \<times> bool" where
  "anssos_mkdir S k path = (case cpath path of None \<Rightarrow> (k, False) | Some p \<Rightarrow> let (k, r) = s_mkdir S k p in (k, r = 0))"

definition anssos_create_file :: "'k sys \<Rightarrow> 'k \<Rightarrow> bytes \<Rightarrow> 'k \<times> bool" where
  "anssos_create_file S k path = (let (k, f) = on_path k path (file_create S) in (file_drop S k f, f \<noteq> None))"

definition anssos_unlink :: "'k sys \<Rightarrow> 'k \<Rightarrow> bytes \<Rightarrow> 'k \<times> bool" where
  "anssos_unlink S k path = (case cpath path of None \<Rightarrow> (k, False) | Some p \<Rightarrow> let (k, r) = s_unlink S k p in (k, r = 0))"

definition anssos_rename :: "'k sys \<Rightarrow> 'k \<Rightarrow> bytes \<Rightarrow> bytes \<Rightarrow> 'k \<times> bool" where
  "anssos_rename S k src dest =
     (case (cpath src, cpath dest) of
        (Some s, Some d) \<Rightarrow> let (k, r) = s_rename S k s d in (k, r = 0)
      | _ \<Rightarrow> (k, False))"

definition anssos_copy :: "'k sys \<Rightarrow> 'k \<Rightarrow> bytes \<Rightarrow> bytes \<Rightarrow> 'k \<times> bool" where
  "anssos_copy S k src dest =
     (case (cpath src, cpath dest) of
        (Some s, Some d) \<Rightarrow> let (k, r) = s_copy S k s d in (k, r = 0)
      | _ \<Rightarrow> (k, False))"

definition anssos_sync :: "'k sys \<Rightarrow> 'k \<Rightarrow> 'k \<times> bool" where
  "anssos_sync S k = (let (k, r) = s_sync S k in (k, r = 0))"

definition anssos_chdir :: "'k sys \<Rightarrow> 'k \<Rightarrow> bytes \<Rightarrow> 'k \<times> bool" where
  "anssos_chdir S k path = (let (k, r) = s_chdir S k path in (k, r = 0))"

text \<open>The bytes up to the first NUL of a buffer, or all of it.\<close>

definition until_nul :: "bytes \<Rightarrow> bytes" where
  "until_nul bs = takeWhile (\<lambda>b. b \<noteq> 0) bs"

definition anssos_getcwd :: "'k sys \<Rightarrow> 'k \<Rightarrow> 'k \<times> bytes option" where
  "anssos_getcwd S k =
     (let (k, r, buf) = s_getcwd S k 256
      in (k, if r \<noteq> 0 then None else let s = until_nul buf in if utf8_valid s then Some s else None))"

record dir_entry =
  dname :: bytes
  ddir :: bool

partial_function (option) read_entries :: "'k sys \<Rightarrow> 'k \<Rightarrow> int \<Rightarrow> dir_entry list \<Rightarrow> ('k \<times> dir_entry list option) option" where
  "read_entries S k fd entries =
     (let (k, r, ty, name) = s_getdents S k fd
      in if r = 1
         then read_entries S k fd (entries @ [\<lparr>dname = from_utf8_lossy (until_nul name), ddir = (ty = DT_DIR)\<rparr>])
         else if r = 0 then Some (k, Some entries)
         else Some (k, None))"

definition read_dir :: "'k sys \<Rightarrow> 'k \<Rightarrow> bytes \<Rightarrow> ('k \<times> dir_entry list option) option" where
  "read_dir S k path =
     (let (k, f) = file_open S k path
      in case f of None \<Rightarrow> Some (k, None)
         | Some fd \<Rightarrow> do { (k, r) \<leftarrow> read_entries S k fd []; Some (s_close S k fd, r) })"

section \<open>The terminal\<close>

text \<open>\<open>s_winsize\<close> is the \<^verbatim>\<open>TIOCGWINSZ\<close> ioctl on descriptor 0: its result, \<^verbatim>\<open>ws_row\<close> and \<^verbatim>\<open>ws_col\<close>.\<close>

definition window_size :: "'k sys \<Rightarrow> 'k \<Rightarrow> 'k \<times> nat \<times> nat" where
  "window_size S k =
     (let (k, r, row, col) = s_winsize S k
      in (k, if r = 0 \<and> 0 < col \<and> 0 < row then (col, row) else (80, 24)))"

text \<open>Linux's \<^verbatim>\<open>struct termios\<close>, as the programs declare it.\<close>

record uterm =
  ut_iflag :: u32
  ut_oflag :: u32
  ut_cflag :: u32
  ut_lflag :: u32
  ut_line :: u8
  ut_cc :: bytes

text \<open>The calls about the terminal's mode, the clock and other processes: the \<^verbatim>\<open>TCGETS\<close> and \<^verbatim>\<open>TCSETS\<close>
  ioctls on descriptor 0, \<^verbatim>\<open>clock_gettime\<close> with its seconds and nanoseconds, \<^verbatim>\<open>fork\<close>, \<^verbatim>\<open>execve\<close>
  (which returns only when it failed) and \<^verbatim>\<open>waitpid\<close> with the status it stores, if it stores one.\<close>

record 'k psys =
  p_getattr :: "'k \<Rightarrow> 'k \<times> int \<times> uterm"
  p_setattr :: "'k \<Rightarrow> uterm \<Rightarrow> 'k \<times> int"
  p_clock :: "'k \<Rightarrow> 'k \<times> int \<times> nat \<times> nat"
  p_fork :: "'k \<Rightarrow> 'k \<times> int"
  p_execve :: "'k \<Rightarrow> bytes \<Rightarrow> bytes list \<Rightarrow> 'k"
  p_waitpid :: "'k \<Rightarrow> int \<Rightarrow> 'k \<times> int option"

definition raw_settings :: "uterm \<Rightarrow> uterm" where
  "raw_settings t = t\<lparr>ut_lflag := ut_lflag t AND NOT (0x0002 OR 0x0008), ut_cc := (ut_cc t)[6 := 1, 5 := 0]\<rparr>"

definition raw_enable :: "'k psys \<Rightarrow> 'k \<Rightarrow> 'k \<times> uterm option" where
  "raw_enable P k =
     (let (k, r, orig) = p_getattr P k
      in if r \<noteq> 0 then (k, None)
         else let (k, r) = p_setattr P k (raw_settings orig) in (k, if r \<noteq> 0 then None else Some orig))"

definition raw_drop :: "'k psys \<Rightarrow> 'k \<Rightarrow> uterm option \<Rightarrow> 'k" where
  "raw_drop P k m = (case m of None \<Rightarrow> k | Some orig \<Rightarrow> fst (p_setattr P k orig))"

definition now_ms :: "'k psys \<Rightarrow> 'k \<Rightarrow> 'k \<times> nat" where
  "now_ms P k = (let (k, r, sec, nsec) = p_clock P k in (k, if r \<noteq> 0 then 0 else sec * 1000 + nsec div 1000000))"

definition anssos_fork :: "'k psys \<Rightarrow> 'k \<Rightarrow> 'k \<times> int option" where
  "anssos_fork P k = (let (k, pid) = p_fork P k in (k, if pid < 0 then None else Some pid))"

definition anssos_waitpid :: "'k psys \<Rightarrow> 'k \<Rightarrow> int \<Rightarrow> 'k \<times> int" where
  "anssos_waitpid P k pid = (let (k, st) = p_waitpid P k pid in (k, case st of None \<Rightarrow> -1 | Some s \<Rightarrow> s))"

section \<open>What the loops need of the kernel\<close>

text \<open>
  The contract of the file system calls the wrappers loop on: a read fills at most the buffer it is
  given and uses up the file, a write takes at most the bytes it is given, and listing a directory
  uses up its entries. \<open>left\<close> measures what is left to read behind a descriptor.
\<close>

text \<open>A descriptor other than the three standard ones, as a \<^verbatim>\<open>c_int\<close>.\<close>

definition file_fd :: "int \<Rightarrow> bool" where
  "file_fd fd \<longleftrightarrow> 3 \<le> fd \<and> fd < 2 ^ 31"

locale file_kernel =
  fixes S :: "'k sys" and left :: "'k \<Rightarrow> int \<Rightarrow> nat" and kinv :: "'k \<Rightarrow> bool"
  assumes open_inv: "kinv k \<Longrightarrow> kinv (fst (s_open S k p fl))"
    and close_inv: "kinv k \<Longrightarrow> file_fd fd \<Longrightarrow> kinv (s_close S k fd)"
    and open_fd: "kinv k \<Longrightarrow> 0 \<le> snd (s_open S k p fl) \<Longrightarrow> file_fd (snd (s_open S k p fl))"
    and read_ok: "kinv k \<Longrightarrow> file_fd fd \<Longrightarrow> s_read S k fd n = (k', r, d) \<Longrightarrow>
      kinv k' \<and> (0 < r \<longrightarrow> length d \<le> n \<and> int (length d) = r \<and> left k' fd < left k fd)"
    and write_ok: "kinv k \<Longrightarrow> file_fd fd \<Longrightarrow> s_write S k fd bs = (k', r) \<Longrightarrow> kinv k' \<and> r \<le> int (length bs)"
    and getdents_ok: "kinv k \<Longrightarrow> file_fd fd \<Longrightarrow> s_getdents S k fd = (k', r, e) \<Longrightarrow> kinv k' \<and> (r = 1 \<longrightarrow> left k' fd < left k fd)"
begin

lemma file_open_inv:
  assumes "kinv k" "file_open S k p = (k', f)"
  shows "kinv k'" "f = Some fd \<Longrightarrow> file_fd fd"
  using assms open_inv [of k p O_RDONLY] open_fd [of k p O_RDONLY] by (auto simp: file_open_def split: prod.splits if_splits)

lemma file_create_inv:
  assumes "kinv k" "file_create S k p = (k', f)"
  shows "kinv k'" "f = Some fd \<Longrightarrow> file_fd fd"
  using assms open_inv [of k p "O_WRONLY + O_CREAT + O_TRUNC"] open_fd [of k p "O_WRONLY + O_CREAT + O_TRUNC"]
  by (auto simp: file_create_def split: prod.splits if_splits)

lemma file_read_ok:
  assumes "kinv k" "file_fd fd" "file_read S k fd n = (k', d)"
  shows "kinv k' \<and> length d \<le> n \<and> (d \<noteq> [] \<longrightarrow> left k' fd < left k fd)"
  using assms read_ok [OF assms(1,2), of n] by (fastforce simp: file_read_def split: prod.splits if_splits)

lemma file_write_all_ok: "kinv k \<Longrightarrow> file_fd fd \<Longrightarrow> \<exists>k' b. file_write_all S k fd bs = Some (k', b) \<and> kinv k'"
proof (induction "length bs" arbitrary: k bs rule: less_induct)
  case less
  obtain k1 n where w: "s_write S k fd bs = (k1, n)" by (cases "s_write S k fd bs")
  from write_ok [OF less.prems w] have k1: "kinv k1" "n \<le> int (length bs)" by auto
  show ?case
  proof (cases "bs = [] \<or> n \<le> 0")
    case True
    then show ?thesis using w k1 less.prems by (subst file_write_all.simps) auto
  next
    case False
    then have "length (drop (nat n) bs) < length bs" by simp
    from less.hyps [OF this k1(1) less.prems(2)] False w k1(2) show ?thesis
      by (subst file_write_all.simps) auto
  qed
qed

lemma read_entries_ok: "kinv k \<Longrightarrow> file_fd fd \<Longrightarrow> \<exists>k' r. read_entries S k fd es = Some (k', r) \<and> kinv k'"
proof (induction "left k fd" arbitrary: k es rule: less_induct)
  case less
  obtain k1 r ty nm where g: "s_getdents S k fd = (k1, r, ty, nm)" by (cases "s_getdents S k fd") auto
  from getdents_ok [OF less.prems g] have k1: "kinv k1" "r = 1 \<longrightarrow> left k1 fd < left k fd" by auto
  show ?case
  proof (cases "r = 1")
    case True
    with less.hyps [of k1] k1 less.prems(2) g show ?thesis by (subst read_entries.simps) auto
  next
    case False
    then show ?thesis using g k1 by (subst read_entries.simps) auto
  qed
qed

lemma read_dir_ok:
  assumes "kinv k"
  shows "\<exists>k' r. read_dir S k p = Some (k', r) \<and> kinv k'"
proof -
  obtain k1 f where o: "file_open S k p = (k1, f)" by (cases "file_open S k p")
  note i = file_open_inv [OF assms o]
  show ?thesis
  proof (cases f)
    case (Some fd)
    with i have "kinv k1" "file_fd fd" by auto
    with read_entries_ok [OF this, of "[]"] Some o show ?thesis by (auto simp: read_dir_def intro: close_inv)
  qed (use o i in \<open>auto simp: read_dir_def\<close>)
qed

end

end
