(* ===== verification/KernelSys.thy ===== *)
theory KernelSys
  imports KernelProps Anssos
begin

text \<open>
  The raw system calls of \<^verbatim>\<open>userland/rust/anssos/src/sys.rs\<close> on the kernel of theory \<open>Syscall\<close>: the
  record \<open>sys\<close> of theory \<open>Anssos\<close> that a program really runs on. A call puts its string or buffer
  where the program keeps it, traps, and reads the result back. The kernel implements the contract
  \<open>file_kernel\<close> of the runtime library, which the interpretation at the end shows.
\<close>

section \<open>Traps\<close>

text \<open>The program's own loads and stores, at an address it owns.\<close>

definition poke :: "nat \<Rightarrow> bytes \<Rightarrow> kernel \<Rightarrow> kernel" where
  "poke a bs k = (case current k of None \<Rightarrow> k
     | Some i \<Rightarrow> let t = task (slot k i)
                 in put_task i (t\<lparr>umem := (\<lambda>x. if a \<le> x \<and> x < a + length bs then Some (bs ! (x - a)) else umem t x)\<rparr>) k)"

definition peek :: "nat \<Rightarrow> nat \<Rightarrow> kernel \<Rightarrow> bytes" where
  "peek a n k = (case current k of None \<Rightarrow> []
     | Some i \<Rightarrow> map (\<lambda>x. case umem (task (slot k i)) x of None \<Rightarrow> 0 | Some b \<Rightarrow> b) [a..<a + n])"

text \<open>A register argument of type \<^verbatim>\<open>c_int\<close>, and a \<^verbatim>\<open>c_int\<close> result.\<close>

definition reg :: "int \<Rightarrow> nat" where
  "reg z = nat (z mod 2 ^ 64)"

definition c_int :: "int \<Rightarrow> int" where
  "c_int z = sint (word_of_int z :: 32 word)"

text \<open>
  The trap and its result register. \<open>None\<close> is a kernel fault. After a panic no program runs; the calls
  then answer \<open>-1\<close>, which no program sees.
\<close>

definition syscall3 :: "env \<Rightarrow> kernel \<Rightarrow> nat \<Rightarrow> nat \<Rightarrow> nat \<Rightarrow> nat \<Rightarrow> kernel option \<times> int" where
  "syscall3 E k n a1 a2 a3 =
     (case syscall_dispatch E k 0 n a1 a2 a3 of
        None \<Rightarrow> (None, 0)
      | Some (Return v, k) \<Rightarrow> (Some k, case v of None \<Rightarrow> -1 | Some v \<Rightarrow> v)
      | Some (Switch s, k) \<Rightarrow> (Some k, -1))"

definition on_kernel :: "'a \<Rightarrow> (kernel \<Rightarrow> kernel option \<times> 'a) \<Rightarrow> kernel option \<Rightarrow> kernel option \<times> 'a" where
  "on_kernel d f st = (case st of None \<Rightarrow> (None, d) | Some k \<Rightarrow> f k)"

definition c_string :: "bytes \<Rightarrow> bytes" where
  "c_string p = p @ [0]"

section \<open>The calls\<close>

definition ks_open :: "env \<Rightarrow> nat \<Rightarrow> kernel option \<Rightarrow> bytes \<Rightarrow> nat \<Rightarrow> kernel option \<times> int" where
  "ks_open E a st p flags = on_kernel 0 (\<lambda>k. let (k, r) = syscall3 E (poke a (c_string p) k) SYS_OPEN a flags 0 in (k, c_int r)) st"

definition ks_read :: "env \<Rightarrow> nat \<Rightarrow> kernel option \<Rightarrow> int \<Rightarrow> nat \<Rightarrow> kernel option \<times> int \<times> bytes" where
  "ks_read E a st fd n = on_kernel (0, []) (\<lambda>k.
     let (k, r) = syscall3 E (poke a (replicate n 0) k) SYS_READ (reg fd) a n
     in (k, r, case k of None \<Rightarrow> [] | Some k \<Rightarrow> peek a (nat r) k)) st"

definition ks_write :: "env \<Rightarrow> nat \<Rightarrow> kernel option \<Rightarrow> int \<Rightarrow> bytes \<Rightarrow> kernel option \<times> int" where
  "ks_write E a st fd bs = on_kernel 0 (\<lambda>k. syscall3 E (poke a bs k) SYS_WRITE (reg fd) a (length bs)) st"

definition ks_close :: "env \<Rightarrow> kernel option \<Rightarrow> int \<Rightarrow> kernel option" where
  "ks_close E st fd = fst (on_kernel 0 (\<lambda>k. syscall3 E k SYS_CLOSE (reg fd) 0 0) st)"

definition ks_lseek :: "env \<Rightarrow> kernel option \<Rightarrow> int \<Rightarrow> int \<Rightarrow> nat \<Rightarrow> kernel option \<times> int" where
  "ks_lseek E st fd off whence = on_kernel 0 (\<lambda>k. syscall3 E k SYS_LSEEK (reg fd) (reg off) whence) st"

definition ks_getdents :: "env \<Rightarrow> nat \<Rightarrow> kernel option \<Rightarrow> int \<Rightarrow> kernel option \<times> int \<times> nat \<times> bytes" where
  "ks_getdents E a st fd = on_kernel (0, 0, []) (\<lambda>k.
     let (k, r) = syscall3 E (poke a (replicate (1 + NAME_MAX) 0) k) SYS_GETDENTS (reg fd) a 0;
         d = (case k of None \<Rightarrow> replicate (1 + NAME_MAX) 0 | Some k \<Rightarrow> peek a (1 + NAME_MAX) k)
     in (k, r, unat (d ! 0), drop 1 d)) st"

definition ks_path :: "env \<Rightarrow> nat \<Rightarrow> nat \<Rightarrow> kernel option \<Rightarrow> bytes \<Rightarrow> kernel option \<times> int" where
  "ks_path E a n st p = on_kernel 0 (\<lambda>k. let (k, r) = syscall3 E (poke a (c_string p) k) n a 0 0 in (k, c_int r)) st"

definition ks_paths :: "env \<Rightarrow> nat \<Rightarrow> nat \<Rightarrow> kernel option \<Rightarrow> bytes \<Rightarrow> bytes \<Rightarrow> kernel option \<times> int" where
  "ks_paths E a n st p q = on_kernel 0 (\<lambda>k.
     let b = a + length p + 1;
         (k, r) = syscall3 E (poke b (c_string q) (poke a (c_string p) k)) n a b 0
     in (k, c_int r)) st"

definition ks_getcwd :: "env \<Rightarrow> nat \<Rightarrow> kernel option \<Rightarrow> nat \<Rightarrow> kernel option \<times> int \<times> bytes" where
  "ks_getcwd E a st n = on_kernel (0, []) (\<lambda>k.
     let (k, r) = syscall3 E (poke a (replicate n 0) k) SYS_GETCWD a n 0
     in (k, c_int r, case k of None \<Rightarrow> [] | Some k \<Rightarrow> peek a n k)) st"

definition ks_sync :: "env \<Rightarrow> kernel option \<Rightarrow> kernel option \<times> int" where
  "ks_sync E st = on_kernel 0 (\<lambda>k. let (k, r) = syscall3 E k SYS_SYNC 0 0 0 in (k, c_int r)) st"

definition ks_poll_key :: "env \<Rightarrow> kernel option \<Rightarrow> kernel option \<times> int" where
  "ks_poll_key E st = on_kernel 0 (\<lambda>k. let (k, r) = syscall3 E k SYS_POLL_KEY 0 0 0 in (k, c_int r)) st"

definition ks_winsize :: "env \<Rightarrow> nat \<Rightarrow> kernel option \<Rightarrow> kernel option \<times> int \<times> nat \<times> nat" where
  "ks_winsize E a st = on_kernel (0, 0, 0) (\<lambda>k.
     let (k, r) = syscall3 E (poke a (replicate 8 0) k) SYS_IOCTL 0 TIOCGWINSZ a;
         d = (case k of None \<Rightarrow> replicate 8 0 | Some k \<Rightarrow> peek a 8 k)
     in (k, r, of_le (take 2 d), of_le (take 2 (drop 2 d)))) st"

text \<open>\<open>others\<close> is what the other processes do until the caller of \<^verbatim>\<open>sched_yield\<close> runs again.\<close>

definition kernel_sys :: "env \<Rightarrow> nat \<Rightarrow> (kernel option \<Rightarrow> kernel option) \<Rightarrow> kernel option sys" where
  "kernel_sys E a others = \<lparr>s_open = ks_open E a, s_read = ks_read E a, s_write = ks_write E a, s_close = ks_close E, s_lseek = ks_lseek E,
     s_getdents = ks_getdents E a, s_mkdir = ks_path E a SYS_MKDIR, s_unlink = ks_path E a SYS_UNLINK,
     s_rename = ks_paths E a SYS_RENAME, s_copy = ks_paths E a SYS_COPY, s_chdir = ks_path E a SYS_CHDIR,
     s_getcwd = ks_getcwd E a, s_sync = ks_sync E, s_yield = others, s_poll_key = ks_poll_key E, s_winsize = ks_winsize E a\<rparr>"

section \<open>The caller goes on running\<close>

definition same :: "kernel \<Rightarrow> kernel \<Rightarrow> bool" where
  "same k k' \<longleftrightarrow> current k' = current k \<and> (\<forall>j. pstate (slot k' j) = pstate (slot k j))"

lemma same_refl [simp]: "same k k"
  by (simp add: same_def)

lemma pstate_put_task [simp]: "pstate (slot (put_task i t k) j) = pstate (slot k j)"
  by (cases "i < length (procs k)"; cases "i = j") (auto simp: put_task_def set_slot_def slot_def list_update_beyond)

lemma same_upd [simp]:
  "same k (put_task i t k') = same k k'" "same k (put_data n d k') = same k k'" "same k (k'\<lparr>kfs := fs\<rparr>) = same k k'"
  "same k (k'\<lparr>kpipes := st\<rparr>) = same k k'" "same k (k'\<lparr>halted := h\<rparr>) = same k k'" "same k (print bs k') = same k k'"
  by (simp_all add: same_def)

lemma same_put_user [simp]: "put_user i p bs k' = Some k'' \<Longrightarrow> same k k'' = same k k'"
  by (auto simp: put_user_def split: bind_splits)

lemma same_running: "running k i \<Longrightarrow> same k k' \<Longrightarrow> kernel_inv k' \<Longrightarrow> running k' i"
  by (simp add: running_def same_def)

definition stays :: "kernel \<Rightarrow> outcome \<Rightarrow> bool" where
  "stays k r \<longleftrightarrow> (\<forall>v k'. r = Some (v, k') \<longrightarrow> same k k')"

lemma stays_simps [simp]: "stays k None" "stays k (fail k') = same k k'" "stays k (ret v k') = same k k'"
  by (simp_all add: stays_def fail_def ret_def)

lemma stays_bind: "(\<And>x. r = Some x \<Longrightarrow> stays k (f x)) \<Longrightarrow> stays k (r \<bind> f)"
  by (cases r) auto

lemma stays_with_task: "(\<And>i. stays k (f i (task (slot k i)))) \<Longrightarrow> stays k (with_task k f)"
  by (simp add: with_task_def split: option.splits)

lemma stays_with_str: "(\<And>s. stays k (f s)) \<Longrightarrow> stays k (with_str t p k f)"
  by (auto simp: with_str_def split: option.splits intro!: stays_bind)

lemma sys_open_stays: "stays k (sys_open k p fl)"
  by (auto simp: sys_open_def open_vnode_def Let_def split: option.splits prod.splits intro!: stays_with_task stays_with_str stays_bind)

lemma sys_close_stays: "stays k (sys_close k fd)"
  by (auto simp: sys_close_def split: option.splits intro!: stays_with_task stays_bind)

lemma write_pipe_stays: "stays k (write_pipe q b n t k)"
  by (auto simp: write_pipe_def Let_def split: prod.splits intro!: stays_bind)

lemma sys_write_stays: "stays k (sys_write k fd b n)"
  by (auto simp: sys_write_def split: option.splits open_file.splits intro!: stays_with_task stays_bind write_pipe_stays)

lemma read_pipe_stays: "stays k (read_pipe q b n i k)"
  by (auto simp: read_pipe_def Let_def split: prod.splits option.splits intro!: stays_bind)

lemma sys_read_stays: "fd \<noteq> 0 \<Longrightarrow> stays k (sys_read k fd b n)"
  by (auto simp: sys_read_def Let_def split: option.splits open_file.splits intro!: stays_with_task stays_bind read_pipe_stays)

lemma sys_getdents_stays: "stays k (sys_getdents k fd b)"
  by (auto simp: sys_getdents_def split: option.splits open_file.splits intro!: stays_with_task stays_bind)

lemma sys_chdir_stays: "stays k (sys_chdir k p)"
  by (auto simp: sys_chdir_def split: option.splits intro!: stays_with_task stays_with_str stays_bind)

lemma sys_getcwd_stays: "stays k (sys_getcwd k b n)"
  by (auto simp: sys_getcwd_def intro!: stays_with_task stays_bind)

section \<open>The program's memory\<close>

lemma poke_running:
  assumes r: "running k i"
  shows "running (poke a bs k) i" "kfs (poke a bs k) = kfs k" "kpipes (poke a bs k) = kpipes k" "halted (poke a bs k) = halted k"
    "open_files (task (slot (poke a bs k) i)) = open_files (task (slot k i))"
    "umem (task (slot (poke a bs k) i)) = (\<lambda>x. if a \<le> x \<and> x < a + length bs then Some (bs ! (x - a)) else umem (task (slot k i)) x)"
proof -
  note inv = runningD [OF r]
  have p: "poke a bs k = put_task i ((task (slot k i))\<lparr>umem := (\<lambda>x. if a \<le> x \<and> x < a + length bs then Some (bs ! (x - a)) else umem (task (slot k i)) x)\<rparr>) k"
    using inv(2) by (simp add: poke_def Let_def)
  have "kernel_inv (poke a bs k)" unfolding p by (rule inv_same_files [OF r]) (use inv(6) in \<open>simp_all add: task_ok_def\<close>)
  then show "running (poke a bs k) i" by (rule same_running [OF r, rotated]) (simp add: p)
  show "kfs (poke a bs k) = kfs k" "kpipes (poke a bs k) = kpipes k" "halted (poke a bs k) = halted k"
    "open_files (task (slot (poke a bs k) i)) = open_files (task (slot k i))"
    "umem (task (slot (poke a bs k) i)) = (\<lambda>x. if a \<le> x \<and> x < a + length bs then Some (bs ! (x - a)) else umem (task (slot k i)) x)"
    using inv(5) unfolding p by simp_all
qed

lemma poke_mapped: "running k i \<Longrightarrow> mapped (umem (task (slot (poke a bs k) i))) a (length bs)"
  by (auto simp: poke_running(6) mapped_def list_all_iff)

text \<open>The kernel reads a string up to its first NUL.\<close>

lemma cstr_at_string:
  assumes "\<And>j. j < length s \<Longrightarrow> m (p + j) = Some (s ! j)" "m (p + length s) = Some 0"
  shows "cstr_at m p = Some (takeWhile (\<lambda>b. b \<noteq> 0) s)"
  using assms
proof (induction s arbitrary: p)
  case Nil
  then show ?case by (subst cstr_at.simps) simp
next
  case (Cons b s)
  have b: "m p = Some b" using Cons.prems(1) [of 0] by simp
  have "cstr_at m (p + 1) = Some (takeWhile (\<lambda>b. b \<noteq> 0) s)"
    using Cons.prems(1) [of "Suc j" for j] Cons.prems(2) by (intro Cons.IH) auto
  with b show ?case by (subst cstr_at.simps) simp
qed

lemma poke_string:
  assumes "running k i"
  shows "cstr_at (umem (task (slot (poke a (c_string p) k) i))) a = Some (takeWhile (\<lambda>b. b \<noteq> 0) p)"
  by (rule cstr_at_string) (auto simp: poke_running(6) [OF assms] c_string_def nth_append)

lemma poke_user_str:
  assumes "running k i"
  shows "user_str (umem (task (slot (poke a (c_string p) k) i))) a \<noteq> None"
  by (simp add: user_str_def poke_string [OF assms])

section \<open>The traps\<close>

definition result :: "outcome \<Rightarrow> kernel option \<times> int" where
  "result r = (case r of None \<Rightarrow> (None, 0) | Some (v, k) \<Rightarrow> (Some k, case v of None \<Rightarrow> -1 | Some v \<Rightarrow> v))"

lemma syscall3_simps:
  "syscall3 E k SYS_OPEN a b c = (if halted k then (Some k, -1) else result (sys_open k a (word_of_nat b)))"
  "syscall3 E k SYS_READ a b c = (if halted k then (Some k, -1) else result (sys_read k a b c))"
  "syscall3 E k SYS_WRITE a b c = (if halted k then (Some k, -1) else result (sys_write k a b c))"
  "syscall3 E k SYS_CLOSE a b c = (if halted k then (Some k, -1) else result (sys_close k a))"
  "syscall3 E k SYS_GETDENTS a b c = (if halted k then (Some k, -1) else result (sys_getdents k a b))"
  "syscall3 E k SYS_GETCWD a b c = (if halted k then (Some k, -1) else result (sys_getcwd k a b))"
  "syscall3 E k SYS_CHDIR a b c = (if halted k then (Some k, -1) else result (sys_chdir k a))"
  by (auto simp: syscall3_def syscall_dispatch_def syscall_numbers returning_def result_def split: option.splits)

lemma result_running:
  assumes "safe r" "stays k r" "running k i"
  obtains v k' where "r = Some (v, k')" "result r = (Some k', case v of None \<Rightarrow> -1 | Some v \<Rightarrow> v)" "running k' i"
proof -
  from assms(1) obtain v k' where r: "r = Some (v, k')" "kernel_inv k'" by (auto simp: safe_def)
  with assms(2) have "same k k'" by (simp add: stays_def)
  from same_running [OF assms(3) this r(2)] r(1) show ?thesis by (intro that [of v k']) (auto simp: result_def)
qed

section \<open>What is left to read\<close>

definition left_of :: "kernel option \<Rightarrow> int \<Rightarrow> nat" where
  "left_of st fd = (case st of None \<Rightarrow> 0 | Some k \<Rightarrow> (case current k of None \<Rightarrow> 0 | Some i \<Rightarrow>
     (case open_file (task (slot k i)) (reg fd) of
        Some (OFile n ps w) \<Rightarrow> (case nodes (kfs k) n of None \<Rightarrow> 0 | Some v \<Rightarrow>
          if is_dir v then (case children_from (nodes (kfs k)) (vchildren v) of None \<Rightarrow> 0 | Some cs \<Rightarrow> length cs - ps)
          else length (vdata v) - ps)
      | Some (OPipe q w) \<Rightarrow> (case kpipes k q of None \<Rightarrow> 0 | Some p \<Rightarrow> count p)
      | _ \<Rightarrow> 0)))"

definition kinv :: "kernel option \<Rightarrow> bool" where
  "kinv st \<longleftrightarrow> (\<exists>k i. st = Some k \<and> running k i)"

lemma open_file_cong: "open_files t = open_files t' \<Longrightarrow> open_file t fd = open_file t' fd"
  by (simp add: open_file_def)

lemma left_poke:
  assumes "running k i"
  shows "left_of (Some (poke a bs k)) fd = left_of (Some k) fd"
proof -
  note p = poke_running [OF assms, of a bs]
  show ?thesis
    unfolding left_of_def option.case runningD(2) [OF assms] runningD(2) [OF p(1)] p(2,3) open_file_cong [OF p(5)] by (rule refl)
qed

lemma open_file_set: "open_file t fd = Some f \<Longrightarrow> g \<noteq> OFree \<Longrightarrow> open_file (set_file fd g t) fd = Some g"
  by (auto simp: open_file_def set_file_def split: if_splits)

lemma read_uses_up:
  assumes r: "running k i" and m: "user_ok b n \<Longrightarrow> mapped (umem (task (slot k i))) b n" and fd: "reg fd \<noteq> 0"
    and s: "sys_read k (reg fd) b n = Some (Some v, k')" and v: "0 < v"
  shows "v \<le> int n \<and> left_of (Some k') fd < left_of (Some k) fd"
proof -
  note inv = runningD [OF r]
  have uo: "user_ok b n" using s by (auto simp: sys_read_def fail_def split: if_splits)
  note mm = m [OF uo]
  show ?thesis
  proof (cases "open_file (task (slot k i)) (reg fd)")
    case (Some f)
    show ?thesis
    proof (cases f)
      case (OFile nd ps w)
      with Some have of: "open_file (task (slot k i)) (reg fd) = Some (OFile nd ps w)" by simp
      from task_ok_file [OF inv(6) open_file_Some(1) [OF of]] obtain vn where vn: "nodes (kfs k) nd = Some vn" by blast
      let ?d = "take n (drop ps (vdata vn))"
      obtain k1 where k1: "put_user i b ?d k = Some k1" "running k1 i" "kfs k1 = kfs k"
        "open_files (task (slot k1 i)) = open_files (task (slot k i))" by (rule running_put_user [OF r mm, of ?d]) auto
      have nd: "\<not> is_dir vn" using s uo fd of vn by (auto simp: sys_read_def with_task_running [OF r] fail_def)
      have k': "v = int (length ?d)" "k' = put_task i (set_file (reg fd) (OFile nd (ps + length ?d) w) (task (slot k1 i))) k1"
        using s uo fd of vn nd k1(1) by (auto simp: sys_read_def with_task_running [OF r] ret_def Let_def)
      have "open_file (task (slot k1 i)) (reg fd) = Some (OFile nd ps w)" using of open_file_cong [OF k1(4)] by simp
      from open_file_set [OF this, of "OFile nd (ps + length ?d) w"]
      have "open_file (task (slot k' i)) (reg fd) = Some (OFile nd (ps + length ?d) w)"
        unfolding k'(2) using runningD(5) [OF k1(2)] by simp
      moreover have "kfs k' = kfs k" "current k' = Some i" using k'(2) k1(3) runningD(2) [OF k1(2)] by simp_all
      ultimately have "left_of (Some k') fd = length (vdata vn) - (ps + length ?d)" "left_of (Some k) fd = length (vdata vn) - ps"
        using of vn nd inv(2) by (simp_all add: left_of_def)
      moreover have "length ?d \<le> n" "length ?d \<le> length (vdata vn) - ps" by simp_all
      ultimately show ?thesis using v k'(1) by linarith
    next
      case (OPipe q w)
      then have w: "\<not> w" using s uo fd Some by (auto simp: sys_read_def with_task_running [OF r] fail_def)
      from refs_ok_live [OF kernel_invD(4) [OF inv(1)], of q] held_open(1) [OF r, of "reg fd" q] Some OPipe w
      obtain p where p: "kpipes k q = Some p" by auto
      obtain d p' where rd: "pipe_read p n = (d, p')" by force
      from s uo fd Some OPipe w have rp: "read_pipe q b n i k = Some (Some v, k')" by (simp add: sys_read_def with_task_running [OF r])
      then obtain d' where d': "d = Some d'" "put_user i b d' (k\<lparr>kpipes := (kpipes k)(q \<mapsto> p')\<rparr>) = Some k'" "v = int (length d')"
        using v by (cases d) (auto simp: read_pipe_def p rd ret_def split: bind_splits)
      from d'(2) obtain mem where k': "k' = put_task i ((task (slot k i))\<lparr>umem := mem\<rparr>) (k\<lparr>kpipes := (kpipes k)(q \<mapsto> p')\<rparr>)"
        by (auto simp: put_user_def split: bind_splits)
      have "open_file (task (slot k' i)) (reg fd) = Some (OPipe q w)" "kpipes k' q = Some p'" "current k' = Some i"
        using Some OPipe inv(2,5) open_file_cong [of "task (slot k' i)" "task (slot k i)"] unfolding k' by simp_all
      then have "left_of (Some k') fd = count p'" "left_of (Some k) fd = count p" using Some OPipe p inv(2) by (simp_all add: left_of_def)
      moreover have "count p' < count p" "length d' \<le> n" using rd d'(1,3) v by (auto simp: pipe_read_def Let_def split: if_splits)
      ultimately show ?thesis using d'(3) by simp
    qed (use open_file_Some(2) [OF Some] in simp)
  qed (use s uo fd in \<open>simp add: sys_read_def with_task_running [OF r] fail_def\<close>)
qed

lemma getdents_uses_up:
  assumes r: "running k i" and s: "sys_getdents k (reg fd) b = Some (Some 1, k')"
  shows "left_of (Some k') fd < left_of (Some k) fd"
proof -
  note inv = runningD [OF r]
  obtain nd ps w where of: "open_file (task (slot k i)) (reg fd) = Some (OFile nd ps w)"
    using s by (auto simp: sys_getdents_def with_task_running [OF r] fail_def split: option.splits open_file.splits)
  from task_ok_file [OF inv(6) open_file_Some(1) [OF of]] obtain vn where vn: "nodes (kfs k) nd = Some vn" by blast
  have d: "is_dir vn" "user_ok b (1 + NAME_MAX)"
    using s of vn by (auto simp: sys_getdents_def with_task_running [OF r] fail_def split: if_splits)
  obtain cs c k1 where c: "children_from (nodes (kfs k)) (vchildren vn) = Some cs" "ps < length cs" "nodes (kfs k) (cs ! ps) = Some c"
    "put_user i b (dirent_bytes c) k = Some k1" and k': "k' = put_task i (set_file (reg fd) (OFile nd (ps + 1) w) (task (slot k1 i))) k1"
    using s of vn d by (auto simp: sys_getdents_def with_task_running [OF r] ret_def split: bind_splits if_splits)
  from inv_put_user [OF inv(1,4,3) c(4)] obtain mem where k1: "k1 = put_task i ((task (slot k i))\<lparr>umem := mem\<rparr>) k" by blast
  have "open_file (task (slot k1 i)) (reg fd) = Some (OFile nd ps w)" using of open_file_cong [of "task (slot k1 i)" "task (slot k i)"] inv(5) unfolding k1 by simp
  from open_file_set [OF this, of "OFile nd (ps + 1) w"]
  have "open_file (task (slot k' i)) (reg fd) = Some (OFile nd (ps + 1) w)" unfolding k' using inv(5) k1 by simp
  moreover have "kfs k' = kfs k" "current k' = Some i" using k' k1 inv(2) by simp_all
  ultimately have "left_of (Some k') fd = length cs - (ps + 1)" "left_of (Some k) fd = length cs - ps"
    using of vn d c(1) inv(2) by (simp_all add: left_of_def)
  with c(2) show ?thesis by simp
qed

section \<open>The contract of the runtime library\<close>

lemma reg_file: "file_fd fd \<Longrightarrow> reg fd \<noteq> 0"
  by (auto simp: reg_def file_fd_def)

lemma peek_length: "running k i \<Longrightarrow> length (peek a n k) = n"
  by (simp add: peek_def running_def)

lemma c_int_small: "- 1 \<le> z \<Longrightarrow> z < 2 ^ 31 \<Longrightarrow> c_int z = z"
  by (simp add: c_int_def sint_sbintrunc' signed_take_bit_int_eq_self)

lemma sys_open_value:
  assumes r: "running k i" and s: "sys_open k p fl = Some (v, k')"
  shows "v = None \<or> (\<exists>j. v = Some (3 + int j) \<and> j < MAX_OPEN_FILES)"
proof -
  have "j < MAX_OPEN_FILES" if "free_slot (task (slot k i)) = Some j" for j
    using position_Some [OF that [unfolded free_slot_def]] runningD(6) [OF r] by (simp add: task_ok_def)
  then show ?thesis using s
    by (auto simp: sys_open_def with_task_running [OF r] with_str_def open_vnode_def ret_def fail_def Let_def
        split: bind_splits option.splits if_splits)
qed

lemma ks_open_ok:
  assumes r: "running k i"
  shows "kinv (fst (ks_open E a (Some k) p fl)) \<and> (0 \<le> snd (ks_open E a (Some k) p fl) \<longrightarrow> file_fd (snd (ks_open E a (Some k) p fl)))"
proof -
  let ?k = "poke a (c_string p) k"
  note p = poke_running(1) [OF r, of a "c_string p"]
  note sf = sys_open_safe [OF p poke_user_str [OF r], of "word_of_nat fl"]
  obtain v k' where o: "sys_open ?k a (word_of_nat fl) = Some (v, k')"
    "result (sys_open ?k a (word_of_nat fl)) = (Some k', case v of None \<Rightarrow> -1 | Some v \<Rightarrow> v)" "running k' i"
    by (rule result_running [OF sf sys_open_stays p])
  have "c_int (-1) = -1" "j < MAX_OPEN_FILES \<Longrightarrow> c_int (3 + int j) = 3 + int j \<and> file_fd (3 + int j)" for j
    by (auto simp: c_int_small file_fd_def MAX_OPEN_FILES_def)
  with sys_open_value [OF p o(1)] o(2,3) p show ?thesis
    by (auto simp: ks_open_def on_kernel_def syscall3_simps kinv_def)
qed

lemma ks_read_ok:
  assumes r: "running k i" and fd: "file_fd fd" and s: "ks_read E a (Some k) fd n = (st, v, d)"
  shows "kinv st \<and> (0 < v \<longrightarrow> length d \<le> n \<and> int (length d) = v \<and> left_of st fd < left_of (Some k) fd)"
proof -
  let ?k = "poke a (replicate n 0) k"
  note p = poke_running(1) [OF r, of a "replicate n 0"]
  have m: "user_ok a n \<Longrightarrow> mapped (umem (task (slot ?k i))) a n" using poke_mapped [OF r, of a "replicate n 0"] by simp
  have sf: "safe (sys_read ?k (reg fd) a n)" by (rule sys_read_safe [OF p]) (use m reg_file [OF fd] in auto)
  obtain x k' where o: "sys_read ?k (reg fd) a n = Some (x, k')"
    "result (sys_read ?k (reg fd) a n) = (Some k', case x of None \<Rightarrow> -1 | Some x \<Rightarrow> x)" "running k' i"
    by (rule result_running [OF sf sys_read_stays p]) (use reg_file [OF fd] in auto)
  show ?thesis
  proof (cases "halted ?k")
    case True
    then show ?thesis using s p by (auto simp: ks_read_def on_kernel_def syscall3_simps kinv_def)
  next
    case False
    have st: "st = Some k'" "v = (case x of None \<Rightarrow> -1 | Some x \<Rightarrow> x)" "d = peek a (nat v) k'"
      using s False o(2) by (auto simp: ks_read_def on_kernel_def syscall3_simps)
    show ?thesis
    proof (cases "0 < v")
      case True
      with st(2) have "x = Some v" by (cases x) auto
      from read_uses_up [OF p m reg_file [OF fd] o(1) [unfolded this] True] left_poke [OF r, of a "replicate n 0" fd]
      show ?thesis using st True o(3) peek_length [OF o(3), of a "nat v"] by (auto simp: kinv_def)
    qed (use st o(3) in \<open>auto simp: kinv_def\<close>)
  qed
qed

lemma those_length: "those xs = Some ys \<Longrightarrow> length ys = length xs"
  by (induction xs arbitrary: ys) (auto split: option.splits)

lemma load_length: "load_bytes m p n = Some bs \<Longrightarrow> length bs = n"
  by (auto simp: load_bytes_def dest: those_length)

lemma write_pipe_value:
  assumes "write_pipe q b n t k = Some (Some v, k')"
  shows "v \<le> int n"
proof -
  from assms obtain p d where p: "load_bytes (umem t) b (pipe_touched p n) = Some d"
    and v: "v = (case fst (pipe_write p (d @ replicate (n - length d) 0)) of None \<Rightarrow> -1 | Some n \<Rightarrow> int n)"
    by (auto simp: write_pipe_def ret_def split: bind_splits prod.splits)
  have "length d \<le> n" using load_length [OF p] by (simp add: pipe_touched_def)
  with v show ?thesis by (auto simp: pipe_write_def Let_def split: if_splits)
qed

lemma write_value:
  assumes r: "running k i" and s: "sys_write k fd b n = Some (Some v, k')"
  shows "v \<le> int n"
  using s by (auto simp: sys_write_def with_task_running [OF r] ret_def fail_def
      split: bind_splits option.splits if_splits open_file.splits dest: write_pipe_value)

lemma ks_write_ok:
  assumes r: "running k i" and s: "ks_write E a (Some k) fd bs = (st, v)"
  shows "kinv st \<and> v \<le> int (length bs)"
proof -
  let ?k = "poke a bs k"
  note p = poke_running(1) [OF r, of a bs]
  have sf: "safe (sys_write ?k (reg fd) a (length bs))" by (rule sys_write_safe [OF p]) (use poke_mapped [OF r] in auto)
  obtain x k' where o: "sys_write ?k (reg fd) a (length bs) = Some (x, k')"
    "result (sys_write ?k (reg fd) a (length bs)) = (Some k', case x of None \<Rightarrow> -1 | Some x \<Rightarrow> x)" "running k' i"
    by (rule result_running [OF sf sys_write_stays p])
  have "(case x of None \<Rightarrow> -1 | Some x \<Rightarrow> x) \<le> int (length bs)" using write_value [OF p] o(1) by (cases x) auto
  with s o(2,3) p show ?thesis by (auto simp: ks_write_def on_kernel_def syscall3_simps kinv_def split: if_splits)
qed

lemma ks_close_ok:
  assumes r: "running k i"
  shows "kinv (ks_close E (Some k) fd)"
proof -
  obtain x k' where "result (sys_close k (reg fd)) = (Some k', case x of None \<Rightarrow> -1 | Some x \<Rightarrow> x)" "running k' i"
    by (rule result_running [OF sys_close_safe [OF r] sys_close_stays r])
  with r show ?thesis by (auto simp: ks_close_def on_kernel_def syscall3_simps kinv_def)
qed

lemma ks_getdents_ok:
  assumes r: "running k i" and s: "ks_getdents E a (Some k) fd = (st, v, e)"
  shows "kinv st \<and> (v = 1 \<longrightarrow> left_of st fd < left_of (Some k) fd)"
proof -
  let ?k = "poke a (replicate (1 + NAME_MAX) 0) k"
  note p = poke_running(1) [OF r, of a "replicate (1 + NAME_MAX) 0"]
  have m: "mapped (umem (task (slot ?k i))) a (1 + NAME_MAX)" using poke_mapped [OF r, of a "replicate (1 + NAME_MAX) 0"] by simp
  have sf: "safe (sys_getdents ?k (reg fd) a)" by (rule sys_getdents_safe [OF p]) (rule m)
  obtain x k' where o: "sys_getdents ?k (reg fd) a = Some (x, k')"
    "result (sys_getdents ?k (reg fd) a) = (Some k', case x of None \<Rightarrow> -1 | Some x \<Rightarrow> x)" "running k' i"
    by (rule result_running [OF sf sys_getdents_stays p])
  show ?thesis
  proof (cases "halted ?k")
    case True
    then show ?thesis using s p by (auto simp: ks_getdents_def on_kernel_def syscall3_simps kinv_def Let_def)
  next
    case False
    have st: "st = Some k'" "v = (case x of None \<Rightarrow> -1 | Some x \<Rightarrow> x)"
      using s False o(2) by (auto simp: ks_getdents_def on_kernel_def syscall3_simps Let_def)
    have "left_of st fd < left_of (Some k) fd" if "v = 1"
      using getdents_uses_up [OF p, of fd a k'] st that left_poke [OF r, of a "replicate (1 + NAME_MAX) 0" fd] o(1)
      by (cases x) auto
    with st(1) o(3) show ?thesis by (auto simp: kinv_def)
  qed
qed

lemma kernel_sys_simps [simp]:
  "s_open (kernel_sys E a oth) = ks_open E a" "s_read (kernel_sys E a oth) = ks_read E a" "s_write (kernel_sys E a oth) = ks_write E a"
  "s_close (kernel_sys E a oth) = ks_close E" "s_getdents (kernel_sys E a oth) = ks_getdents E a"
  by (simp_all add: kernel_sys_def)

interpretation ksys: file_kernel "kernel_sys E a others" left_of kinv for E a others
proof
  fix k p fl fd n k' r d bs
  show "kinv k \<Longrightarrow> kinv (fst (s_open (kernel_sys E a others) k p fl))" using ks_open_ok by (auto simp: kinv_def)
  show "kinv k \<Longrightarrow> 0 \<le> snd (s_open (kernel_sys E a others) k p fl) \<Longrightarrow> file_fd (snd (s_open (kernel_sys E a others) k p fl))"
    using ks_open_ok by (auto simp: kinv_def)
  show "kinv k \<Longrightarrow> file_fd fd \<Longrightarrow> kinv (s_close (kernel_sys E a others) k fd)" using ks_close_ok by (auto simp: kinv_def)
  show "kinv k \<Longrightarrow> file_fd fd \<Longrightarrow> s_read (kernel_sys E a others) k fd n = (k', r, d) \<Longrightarrow>
      kinv k' \<and> (0 < r \<longrightarrow> length d \<le> n \<and> int (length d) = r \<and> left_of k' fd < left_of k fd)"
    using ks_read_ok by (fastforce simp: kinv_def)
  show "kinv k \<Longrightarrow> file_fd fd \<Longrightarrow> s_write (kernel_sys E a others) k fd bs = (k', r) \<Longrightarrow> kinv k' \<and> r \<le> int (length bs)"
    using ks_write_ok by (fastforce simp: kinv_def)
next
  fix k fd k' r e
  assume "kinv k" "s_getdents (kernel_sys E a others) k fd = (k', r, e)"
  then obtain kk i where "k = Some kk" "running kk i" "ks_getdents E a (Some kk) fd = (k', r, e)" by (auto simp: kinv_def)
  with ks_getdents_ok show "kinv k' \<and> (r = 1 \<longrightarrow> left_of k' fd < left_of k fd)" by simp
qed

end
