(* ===== verification/Scarf.thy ===== *)
theory Scarf
  imports Anssos
begin

text \<open>
  The modal text editor, \<^verbatim>\<open>userland/rust/scarf\<close>: the buffer (\<^verbatim>\<open>buffer.rs\<close>), the file sidebar
  (\<^verbatim>\<open>sidebar.rs\<close>), modes, motions and edits (\<^verbatim>\<open>editor.rs\<close>), and the key decoding of \<^verbatim>\<open>lib.rs\<close>.
  A panic of the code (an index outside a line, a bad split) is \<open>None\<close>. Text, paths and messages
  are bytes. Drawing is left out; the text area's size, which scrolling needs, is an argument.
\<close>

section \<open>The buffer\<close>

record buffer =
  lines :: "bytes list"
  filename :: bytes
  bdirty :: bool

definition buffer_new :: buffer where
  "buffer_new = \<lparr>lines = [[]], filename = [], bdirty = False\<rparr>"

text \<open>One byte of a file being loaded, on the lines so far and the line in progress.\<close>

definition load_byte :: "u8 \<Rightarrow> bytes list \<times> bytes \<Rightarrow> bytes list \<times> bytes" where
  "load_byte b st = (case st of (ls, l) \<Rightarrow> if b = 10 then (ls @ [l], []) else if b = 13 then (ls, l) else (ls, l @ [b]))"

partial_function (option) load_chunks :: "'k sys \<Rightarrow> 'k \<Rightarrow> int \<Rightarrow> bytes list \<times> bytes \<Rightarrow> ('k \<times> bytes list \<times> bytes) option" where
  "load_chunks S k fd st =
     (let (k, d) = file_read S k fd 512
      in if d = [] then Some (k, st)
         else if length d > 512 then None
         else load_chunks S k fd (fold load_byte d st))"

definition buffer_open :: "'k sys \<Rightarrow> 'k \<Rightarrow> buffer \<Rightarrow> bytes \<Rightarrow> ('k \<times> buffer \<times> bytes) option" where
  "buffer_open S k b path =
     (let (k, file) = on_path k path (file_open S);
          b = b\<lparr>filename := path, bdirty := False, lines := [[]]\<rparr>
      in case file of None \<Rightarrow> Some (k, b, ascii ''new file'')
         | Some fd \<Rightarrow> do {
             (k, ls, l) \<leftarrow> load_chunks S k fd ([], []);
             let ls = (if l \<noteq> [] then ls @ [l] else ls);
             Some (s_close S k fd, (if ls \<noteq> [] then b\<lparr>lines := ls\<rparr> else b), ascii ''opened'') })"

definition save_text :: "bytes list \<Rightarrow> bytes" where
  "save_text ls = concat (map (\<lambda>l. l @ [10]) ls)"

text \<open>The result is an error message or a success message.\<close>

definition buffer_save :: "'k sys \<Rightarrow> 'k \<Rightarrow> buffer \<Rightarrow> ('k \<times> buffer \<times> (bytes + bytes)) option" where
  "buffer_save S k b =
     (if filename b = [] then Some (k, b, Inl (ascii ''no file name -- use :w <path>''))
      else let (k, file) = on_path k (filename b) (file_create S)
           in case file of None \<Rightarrow> Some (k, b, Inl (ascii ''cannot open file for writing''))
              | Some fd \<Rightarrow> do {
                  (k, written) \<leftarrow> file_write_all S k fd (save_text (lines b));
                  let k = s_close S k fd;
                  Some (if written then (k, b\<lparr>bdirty := False\<rparr>, Inr (ascii ''written'')) else (k, b, Inl (ascii ''write failed''))) })"

definition insert_line :: "buffer \<Rightarrow> nat \<Rightarrow> bytes \<Rightarrow> buffer option" where
  "insert_line b at l = do { ls \<leftarrow> vec_insert (lines b) at l; Some (b\<lparr>lines := ls, bdirty := True\<rparr>) }"

definition delete_line :: "buffer \<Rightarrow> nat \<Rightarrow> buffer" where
  "delete_line b at =
     (let b = (if at < length (lines b) then b\<lparr>lines := take at (lines b) @ drop (Suc at) (lines b), bdirty := True\<rparr> else b)
      in if lines b = [] then b\<lparr>lines := [[]]\<rparr> else b)"

section \<open>The sidebar\<close>

record sidebar =
  cwd :: bytes
  entries :: "dir_entry list"
  sel :: nat
  offset :: nat

definition sidebar_new :: "bytes \<Rightarrow> sidebar" where
  "sidebar_new c = \<lparr>cwd = c, entries = [], sel = 0, offset = 0\<rparr>"

definition sidebar_load :: "'k sys \<Rightarrow> 'k \<Rightarrow> sidebar \<Rightarrow> ('k \<times> sidebar \<times> bool) option" where
  "sidebar_load S k sb =
     (let sb = sb\<lparr>sel := 0, offset := 0, entries := (if cwd sb \<noteq> ascii ''/'' then [\<lparr>dname = ascii ''..'', ddir = True\<rparr>] else [])\<rparr>
      in case cpath (cwd sb) of None \<Rightarrow> Some (k, sb, False)
         | Some p \<Rightarrow> do {
             (k, listing) \<leftarrow> read_dir S k p;
             case listing of Some es \<Rightarrow> Some (k, sb\<lparr>entries := entries sb @ es\<rparr>, True) | None \<Rightarrow> Some (k, sb, False) })"

definition sidebar_up :: "sidebar \<Rightarrow> sidebar" where
  "sidebar_up sb = sb\<lparr>sel := sel sb - 1\<rparr>"

definition sidebar_down :: "sidebar \<Rightarrow> sidebar" where
  "sidebar_down sb = (if sel sb + 1 < length (entries sb) then sb\<lparr>sel := sel sb + 1\<rparr> else sb)"

definition sidebar_first :: "sidebar \<Rightarrow> sidebar" where
  "sidebar_first sb = sb\<lparr>sel := 0\<rparr>"

definition sidebar_last :: "sidebar \<Rightarrow> sidebar" where
  "sidebar_last sb = sb\<lparr>sel := length (entries sb) - 1\<rparr>"

text \<open>\<^verbatim>\<open>str::rfind('/')\<close>.\<close>

definition rfind_slash :: "bytes \<Rightarrow> nat option" where
  "rfind_slash p = find (\<lambda>i. p ! i = 47) (rev [0..<length p])"

definition parent_path :: "bytes \<Rightarrow> bytes" where
  "parent_path p = (case rfind_slash p of Some (Suc i) \<Rightarrow> take (Suc i) p | _ \<Rightarrow> ascii ''/'')"

definition join_path :: "bytes \<Rightarrow> bytes \<Rightarrow> bytes" where
  "join_path dir name = (if dir \<noteq> [] \<and> last dir = 47 then dir else dir @ [47]) @ name"

definition go_parent :: "'k sys \<Rightarrow> 'k \<Rightarrow> sidebar \<Rightarrow> ('k \<times> sidebar \<times> bool) option" where
  "go_parent S k sb = sidebar_load S k (sb\<lparr>cwd := parent_path (cwd sb)\<rparr>)"

definition sidebar_activate :: "'k sys \<Rightarrow> 'k \<Rightarrow> sidebar \<Rightarrow> ('k \<times> sidebar \<times> bytes option) option" where
  "sidebar_activate S k sb =
     (if sel sb \<ge> length (entries sb) then Some (k, sb, None)
      else let e = entries sb ! sel sb
           in if \<not> ddir e then Some (k, sb, Some (join_path (cwd sb) (dname e)))
              else do {
                (k, sb, _) \<leftarrow> sidebar_load S k (sb\<lparr>cwd := (if dname e = ascii ''..'' then parent_path (cwd sb) else join_path (cwd sb) (dname e))\<rparr>);
                Some (k, sb, None) })"

definition sidebar_scroll :: "sidebar \<Rightarrow> nat \<Rightarrow> sidebar" where
  "sidebar_scroll sb rows =
     (let rows = max rows 1;
          sb = (if sel sb < offset sb then sb\<lparr>offset := sel sb\<rparr> else sb)
      in if sel sb \<ge> offset sb + rows then sb\<lparr>offset := sel sb + 1 - rows\<rparr> else sb)"

section \<open>The editor\<close>

definition CTRL_B :: u8 where "CTRL_B = 0x02"
definition CTRL_E :: u8 where "CTRL_E = 0x05"
definition ESC :: u8 where "ESC = 0x1b"
definition TAB_STOP :: nat where "TAB_STOP = 4"
definition CMD_MAX :: nat where "CMD_MAX = 127"

datatype special = SUp | SDown | SLeft | SRight | SHome | SEnd | SDelete

datatype mode = MNormal | MInsert | MCommand

datatype focus = FEditor | FSidebar

record editor =
  buf :: buffer
  ex :: nat
  ey :: nat
  rowoff :: nat
  coloff :: nat
  emode :: mode
  efocus :: focus
  side :: sidebar
  side_visible :: bool
  message :: bytes
  cmd :: bytes
  pending :: "u8 option"
  quit :: bool

definition is_word :: "u8 \<Rightarrow> bool" where
  "is_word c \<longleftrightarrow> (48 \<le> c \<and> c \<le> 57) \<or> (65 \<le> c \<and> c \<le> 90) \<or> (97 \<le> c \<and> c \<le> 122) \<or> c = 95"

definition is_enter :: "u8 \<Rightarrow> bool" where
  "is_enter c \<longleftrightarrow> c = 13 \<or> c = 10"

definition is_backspace :: "u8 \<Rightarrow> bool" where
  "is_backspace c \<longleftrightarrow> c = 8 \<or> c = 0x7F"

definition is_printable :: "u8 \<Rightarrow> bool" where
  "is_printable c \<longleftrightarrow> 32 \<le> c \<and> c < 127"

definition editor_new :: "bytes \<Rightarrow> editor" where
  "editor_new c = \<lparr>buf = buffer_new, ex = 0, ey = 0, rowoff = 0, coloff = 0, emode = MNormal, efocus = FSidebar,
     side = sidebar_new c, side_visible = True, message = [], cmd = [], pending = None, quit = False\<rparr>"

definition set_message :: "editor \<Rightarrow> bytes \<Rightarrow> editor" where
  "set_message e m = e\<lparr>message := m\<rparr>"

definition editor_open :: "'k sys \<Rightarrow> 'k \<Rightarrow> editor \<Rightarrow> bytes \<Rightarrow> ('k \<times> editor) option" where
  "editor_open S k e path = do {
     (k, b, msg) \<leftarrow> buffer_open S k (buf e) path;
     Some (k, (set_message (e\<lparr>buf := b\<rparr>) msg)\<lparr>ex := 0, ey := 0, rowoff := 0, coloff := 0\<rparr>) }"

definition sidebar_reload :: "'k sys \<Rightarrow> 'k \<Rightarrow> editor \<Rightarrow> ('k \<times> editor) option" where
  "sidebar_reload S k e = do {
     let s0 = sel (side e);
     (k, sb, loaded) \<leftarrow> sidebar_load S k (side e);
     let e = (if loaded then e\<lparr>side := sb\<rparr> else set_message (e\<lparr>side := sb\<rparr>) (ascii ''cannot open directory''));
     Some (k, e\<lparr>side := sb\<lparr>sel := min s0 (length (entries sb) - 1)\<rparr>\<rparr>) }"

definition editor_save :: "'k sys \<Rightarrow> 'k \<Rightarrow> editor \<Rightarrow> ('k \<times> editor \<times> bool) option" where
  "editor_save S k e = do {
     (k, b, r) \<leftarrow> buffer_save S k (buf e);
     let e = e\<lparr>buf := b\<rparr>;
     case r of
       Inr msg \<Rightarrow> do { (k, e) \<leftarrow> sidebar_reload S k e; Some (k, set_message e msg, True) }
     | Inl msg \<Rightarrow> Some (k, set_message e msg, False) }"

definition cur_line :: "editor \<Rightarrow> bytes option" where
  "cur_line e = vec_get (lines (buf e)) (ey e)"

text \<open>The current line replaced: \<^verbatim>\<open>line_mut\<close> marks the buffer as changed.\<close>

definition put_line :: "editor \<Rightarrow> bytes \<Rightarrow> editor option" where
  "put_line e l = do { ls \<leftarrow> vec_set (lines (buf e)) (ey e) l; Some (e\<lparr>buf := (buf e)\<lparr>lines := ls, bdirty := True\<rparr>\<rparr>) }"

definition editor_scroll :: "editor \<Rightarrow> nat \<Rightarrow> nat \<Rightarrow> editor" where
  "editor_scroll e rows cols =
     (let rows = max rows 1; cols = max cols 1;
          e = (if ey e < rowoff e then e\<lparr>rowoff := ey e\<rparr> else e);
          e = (if ey e \<ge> rowoff e + rows then e\<lparr>rowoff := ey e + 1 - rows\<rparr> else e);
          e = (if ex e < coloff e then e\<lparr>coloff := ex e\<rparr> else e)
      in if ex e \<ge> coloff e + cols then e\<lparr>coloff := ex e + 1 - cols\<rparr> else e)"

definition clamp_cx :: "editor \<Rightarrow> editor option" where
  "clamp_cx e = do {
     l \<leftarrow> cur_line e;
     let m = (if emode e \<noteq> MInsert \<and> length l > 0 then length l - 1 else length l);
     Some (e\<lparr>ex := min (ex e) m\<rparr>) }"

definition start_command :: "editor \<Rightarrow> editor" where
  "start_command e = e\<lparr>emode := MCommand, cmd := [], message := []\<rparr>"

subsection \<open>The sidebar's keys\<close>

definition activate_key :: "'k sys \<Rightarrow> 'k \<Rightarrow> editor \<Rightarrow> ('k \<times> editor) option" where
  "activate_key S k e = do {
     (k, sb, path) \<leftarrow> sidebar_activate S k (side e);
     let e = e\<lparr>side := sb\<rparr>;
     case path of None \<Rightarrow> Some (k, e)
     | Some p \<Rightarrow>
         if bdirty (buf e) then Some (k, set_message e (ascii ''unsaved changes -- :w first, or :e! to discard''))
         else do { (k, e) \<leftarrow> editor_open S k e p; Some (k, e\<lparr>efocus := FEditor\<rparr>) } }"

definition key_sidebar :: "'k sys \<Rightarrow> 'k \<Rightarrow> editor \<Rightarrow> u8 \<Rightarrow> ('k \<times> editor) option" where
  "key_sidebar S k e c =
     (if c = of_char CHR ''j'' then Some (k, e\<lparr>side := sidebar_down (side e)\<rparr>)
      else if c = of_char CHR ''k'' then Some (k, e\<lparr>side := sidebar_up (side e)\<rparr>)
      else if c = of_char CHR ''g'' then Some (k, e\<lparr>side := sidebar_first (side e)\<rparr>)
      else if c = of_char CHR ''G'' then Some (k, e\<lparr>side := sidebar_last (side e)\<rparr>)
      else if c = of_char CHR ''l'' then activate_key S k e
      else if is_enter c then activate_key S k e
      else if c = of_char CHR ''h'' \<or> c = of_char CHR ''-'' then do {
        (k, sb, opened) \<leftarrow> go_parent S k (side e);
        let e = e\<lparr>side := sb\<rparr>;
        Some (k, if opened then e else set_message e (ascii ''cannot open directory'')) }
      else if c = of_char CHR ''r'' then do {
        (k, e) \<leftarrow> sidebar_reload S k e;
        Some (k, set_message e (ascii ''refreshed'')) }
      else if c = ESC then Some (k, e\<lparr>efocus := FEditor\<rparr>)
      else if c = of_char CHR '':'' then Some (k, start_command (e\<lparr>efocus := FEditor\<rparr>))
      else Some (k, e))"

subsection \<open>Normal mode\<close>

text \<open>The two scanning loops: past the bytes that satisfy a predicate, forwards and backwards.\<close>

definition skip_while :: "(u8 \<Rightarrow> bool) \<Rightarrow> bytes \<Rightarrow> nat \<Rightarrow> nat" where
  "skip_while P l i = i + length (takeWhile P (drop i l))"

fun back_while :: "(nat \<Rightarrow> bool) \<Rightarrow> nat \<Rightarrow> nat" where
  "back_while P 0 = 0"
| "back_while P (Suc i) = (if P (Suc i) then back_while P i else Suc i)"

definition word_forward :: "editor \<Rightarrow> editor option" where
  "word_forward e = do {
     l \<leftarrow> cur_line e;
     let i = skip_while is_word l (ex e);
     let i = skip_while (\<lambda>b. \<not> is_word b) l i;
     Some (if i \<ge> length l \<and> ey e + 1 < length (lines (buf e)) then e\<lparr>ex := 0, ey := ey e + 1\<rparr> else e\<lparr>ex := i\<rparr>) }"

text \<open>The two backward loops read \<^verbatim>\<open>line[i]\<close> at most at the index they start from.\<close>

definition word_back :: "editor \<Rightarrow> editor option" where
  "word_back e =
     (if ex e = 0 then
        (if ey e > 0 then do {
           let e = e\<lparr>ey := ey e - 1\<rparr>;
           l \<leftarrow> cur_line e;
           Some (e\<lparr>ex := length l - 1\<rparr>) }
         else Some e)
      else do {
        l \<leftarrow> cur_line e;
        let i = ex e - 1;
        if i > 0 \<and> i \<ge> length l then None
        else let i = back_while (\<lambda>i. \<not> is_word (l ! i)) i;
                 i = back_while (\<lambda>i. is_word (l ! (i - 1))) i
             in Some (e\<lparr>ex := i\<rparr>) })"

definition delete_word :: "editor \<Rightarrow> editor option" where
  "delete_word e = do {
     l \<leftarrow> cur_line e;
     if ex e \<ge> length l then Some e
     else do {
       let i = skip_while is_word l (ex e);
       let i = skip_while (\<lambda>b. \<not> is_word b) l i;
       l' \<leftarrow> vec_drain l (ex e) i;
       put_line e l' } }"

definition remove_at :: "editor \<Rightarrow> nat \<Rightarrow> editor option" where
  "remove_at e i = do { l \<leftarrow> cur_line e; (_, l') \<leftarrow> vec_remove l i; put_line e l' }"

definition pending_key :: "editor \<Rightarrow> u8 \<Rightarrow> u8 \<Rightarrow> editor option" where
  "pending_key e p c =
     (if p = of_char CHR ''d'' then do {
        e \<leftarrow> (if c = of_char CHR ''d'' then
                 let e = e\<lparr>buf := delete_line (buf e) (ey e)\<rparr> in Some (e\<lparr>ey := min (ey e) (length (lines (buf e)) - 1)\<rparr>)
               else if c = of_char CHR ''w'' then delete_word e
               else Some e);
        clamp_cx e }
      else Some (if c = of_char CHR ''g'' then e\<lparr>ex := 0, ey := 0\<rparr> else e))"

definition normal_cmd :: "editor \<Rightarrow> u8 \<Rightarrow> editor option" where
  "normal_cmd e c =
     (if c = of_char CHR ''h'' then Some (e\<lparr>ex := ex e - 1\<rparr>)
      else if c = of_char CHR ''l'' then do { l \<leftarrow> cur_line e; Some (if ex e + 1 < length l then e\<lparr>ex := ex e + 1\<rparr> else e) }
      else if c = of_char CHR ''j'' then (if ey e + 1 < length (lines (buf e)) then clamp_cx (e\<lparr>ey := ey e + 1\<rparr>) else Some e)
      else if c = of_char CHR ''k'' then (if ey e > 0 then clamp_cx (e\<lparr>ey := ey e - 1\<rparr>) else Some e)
      else if c = of_char CHR ''0'' then Some (e\<lparr>ex := 0\<rparr>)
      else if c = of_char CHR ''$'' then do { l \<leftarrow> cur_line e; Some (e\<lparr>ex := length l - 1\<rparr>) }
      else if c = of_char CHR ''w'' then word_forward e \<bind> clamp_cx
      else if c = of_char CHR ''b'' then word_back e \<bind> clamp_cx
      else if c = of_char CHR ''G'' then clamp_cx (e\<lparr>ey := length (lines (buf e)) - 1\<rparr>)
      else if c = of_char CHR ''g'' \<or> c = of_char CHR ''d'' then Some (e\<lparr>pending := Some c\<rparr>)
      else if c = of_char CHR ''x'' then do {
        l \<leftarrow> cur_line e;
        e \<leftarrow> (if ex e < length l then remove_at e (ex e) else Some e);
        clamp_cx e }
      else if c = of_char CHR ''i'' then Some (e\<lparr>emode := MInsert\<rparr>)
      else if c = of_char CHR ''a'' then do {
        l \<leftarrow> cur_line e;
        let e = (if l \<noteq> [] then e\<lparr>ex := ex e + 1\<rparr> else e);
        Some (e\<lparr>emode := MInsert\<rparr>) }
      else if c = of_char CHR ''A'' then do { l \<leftarrow> cur_line e; Some (e\<lparr>ex := length l, emode := MInsert\<rparr>) }
      else if c = of_char CHR ''o'' then do {
        b \<leftarrow> insert_line (buf e) (ey e + 1) [];
        Some (e\<lparr>buf := b, ex := 0, ey := ey e + 1, emode := MInsert\<rparr>) }
      else if c = of_char CHR ''O'' then do {
        b \<leftarrow> insert_line (buf e) (ey e) [];
        Some (e\<lparr>buf := b, ex := 0, emode := MInsert\<rparr>) }
      else if c = of_char CHR '':'' then Some (start_command e)
      else Some e)"

text \<open>A pending key is only ever \<open>d\<close> or \<open>g\<close>; any other falls through to the commands.\<close>

definition key_normal :: "editor \<Rightarrow> u8 \<Rightarrow> editor option" where
  "key_normal e c =
     (let p = pending e; e = e\<lparr>pending := None\<rparr>
      in case p of
           Some p \<Rightarrow> if p = of_char CHR ''d'' \<or> p = of_char CHR ''g'' then pending_key e p c else normal_cmd e c
         | None \<Rightarrow> normal_cmd e c)"

subsection \<open>Insert mode\<close>

definition insert_char :: "u8 \<Rightarrow> editor \<Rightarrow> editor option" where
  "insert_char c e = do {
     l \<leftarrow> cur_line e;
     l' \<leftarrow> vec_insert l (ex e) c;
     e \<leftarrow> put_line e l';
     Some (e\<lparr>ex := ex e + 1\<rparr>) }"

fun insert_spaces :: "nat \<Rightarrow> editor \<Rightarrow> editor option" where
  "insert_spaces 0 e = Some e"
| "insert_spaces (Suc n) e = insert_char 32 e \<bind> insert_spaces n"

definition key_insert :: "editor \<Rightarrow> u8 \<Rightarrow> editor option" where
  "key_insert e c =
     (if c = ESC then clamp_cx (e\<lparr>emode := MNormal, ex := ex e - 1\<rparr>)
      else if is_enter c then do {
        l \<leftarrow> cur_line e;
        (pre, post) \<leftarrow> vec_split_off l (ex e);
        e \<leftarrow> put_line e pre;
        b \<leftarrow> insert_line (buf e) (ey e + 1) post;
        Some (e\<lparr>buf := b, ex := 0, ey := ey e + 1\<rparr>) }
      else if is_backspace c then
        (if ex e > 0 then (let e = e\<lparr>ex := ex e - 1\<rparr> in remove_at e (ex e))
         else if ey e > 0 then do {
           (l, ls) \<leftarrow> vec_remove (lines (buf e)) (ey e);
           let e = e\<lparr>buf := (buf e)\<lparr>lines := ls\<rparr>, ey := ey e - 1\<rparr>;
           prev \<leftarrow> cur_line e;
           put_line (e\<lparr>ex := length prev\<rparr>) (prev @ l) }
         else Some e)
      else if c = 9 then insert_spaces TAB_STOP e
      else if is_printable c then insert_char c e
      else Some e)"

subsection \<open>The command line\<close>

definition strip_prefix :: "bytes \<Rightarrow> bytes \<Rightarrow> bytes option" where
  "strip_prefix p s = (if length p \<le> length s \<and> take (length p) s = p then Some (drop (length p) s) else None)"

definition command_effect :: "'k sys \<Rightarrow> 'k \<Rightarrow> editor \<Rightarrow> bytes \<Rightarrow> ('k \<times> editor) option" where
  "command_effect S k e c =
     (if c = ascii ''q'' \<and> bdirty (buf e) then Some (k, set_message e (ascii ''unsaved changes -- :q! to discard, :wq to save''))
      else if c = ascii ''q'' \<or> c = ascii ''q!'' then Some (k, e\<lparr>quit := True\<rparr>)
      else if c = ascii ''w'' then do { (k, e, _) \<leftarrow> editor_save S k e; Some (k, e) }
      else if c = ascii ''wq'' \<or> c = ascii ''x'' then do { (k, e, saved) \<leftarrow> editor_save S k e; Some (k, if saved then e\<lparr>quit := True\<rparr> else e) }
      else case strip_prefix (ascii ''e! '') c of
        Some path \<Rightarrow> editor_open S k e path
      | None \<Rightarrow> (case strip_prefix (ascii ''e '') c of
          Some path \<Rightarrow> if bdirty (buf e) then Some (k, set_message e (ascii ''unsaved changes -- :w first, or :e! to discard''))
                       else editor_open S k e path
        | None \<Rightarrow> (case strip_prefix (ascii ''w '') c of
            Some path \<Rightarrow> do { (k, e, _) \<leftarrow> editor_save S k (e\<lparr>buf := (buf e)\<lparr>filename := path\<rparr>\<rparr>); Some (k, e) }
          | None \<Rightarrow> Some (k, set_message e (ascii ''unknown command'')))))"

definition run_command :: "'k sys \<Rightarrow> 'k \<Rightarrow> editor \<Rightarrow> ('k \<times> editor) option" where
  "run_command S k e = do {
     let c = cmd e;
     (k, e) \<leftarrow> command_effect S k (e\<lparr>cmd := [], emode := MNormal\<rparr>) c;
     e \<leftarrow> clamp_cx e;
     Some (k, e) }"

definition key_command :: "'k sys \<Rightarrow> 'k \<Rightarrow> editor \<Rightarrow> u8 \<Rightarrow> ('k \<times> editor) option" where
  "key_command S k e c =
     (if c = ESC then Some (k, e\<lparr>emode := MNormal, cmd := []\<rparr>)
      else if is_enter c then run_command S k e
      else if is_backspace c then Some (k, if cmd e = [] then e\<lparr>emode := MNormal\<rparr> else e\<lparr>cmd := butlast (cmd e)\<rparr>)
      else if is_printable c \<and> length (cmd e) < CMD_MAX then Some (k, e\<lparr>cmd := cmd e @ [c]\<rparr>)
      else Some (k, e))"

subsection \<open>Dispatch\<close>

definition lift_ed :: "'k \<Rightarrow> editor option \<Rightarrow> ('k \<times> editor) option" where
  "lift_ed k r = map_option (\<lambda>e. (k, e)) r"

definition editor_key :: "'k sys \<Rightarrow> 'k \<Rightarrow> editor \<Rightarrow> u8 \<Rightarrow> ('k \<times> editor) option" where
  "editor_key S k e c =
     (if emode e = MNormal \<and> c = CTRL_B then
        (let e = e\<lparr>side_visible := \<not> side_visible e\<rparr>;
             e = (if \<not> side_visible e then e\<lparr>efocus := FEditor\<rparr> else e)
         in Some (k, e\<lparr>coloff := 0\<rparr>))
      else if emode e = MNormal \<and> c = CTRL_E then
        Some (k, if side_visible e then e\<lparr>efocus := (if efocus e = FEditor then FSidebar else FEditor)\<rparr> else e)
      else case emode e of
        MCommand \<Rightarrow> key_command S k e c
      | MInsert \<Rightarrow> lift_ed k (key_insert e c)
      | MNormal \<Rightarrow> (case efocus e of FSidebar \<Rightarrow> key_sidebar S k e c | FEditor \<Rightarrow> lift_ed k (key_normal e c)))"

definition insert_special :: "editor \<Rightarrow> special \<Rightarrow> editor option" where
  "insert_special e s = do {
     l \<leftarrow> cur_line e;
     case s of
       SLeft \<Rightarrow> Some (e\<lparr>ex := ex e - 1\<rparr>)
     | SRight \<Rightarrow> Some (e\<lparr>ex := min (ex e + 1) (length l)\<rparr>)
     | SHome \<Rightarrow> Some (e\<lparr>ex := 0\<rparr>)
     | SEnd \<Rightarrow> Some (e\<lparr>ex := length l\<rparr>)
     | SUp \<Rightarrow> clamp_cx (if ey e > 0 then e\<lparr>ey := ey e - 1\<rparr> else e)
     | SDown \<Rightarrow> clamp_cx (if ey e + 1 < length (lines (buf e)) then e\<lparr>ey := ey e + 1\<rparr> else e)
     | SDelete \<Rightarrow> if ex e < length l then remove_at e (ex e) else Some e }"

fun special_char :: "special \<Rightarrow> u8" where
  "special_char SUp = of_char CHR ''k''"
| "special_char SDown = of_char CHR ''j''"
| "special_char SLeft = of_char CHR ''h''"
| "special_char SRight = of_char CHR ''l''"
| "special_char SHome = of_char CHR ''0''"
| "special_char SEnd = of_char CHR ''$''"
| "special_char SDelete = of_char CHR ''x''"

definition editor_special :: "'k sys \<Rightarrow> 'k \<Rightarrow> editor \<Rightarrow> special \<Rightarrow> ('k \<times> editor) option" where
  "editor_special S k e s =
     (case emode e of
        MCommand \<Rightarrow> Some (k, e)
      | MInsert \<Rightarrow> lift_ed k (insert_special e s)
      | MNormal \<Rightarrow> editor_key S k e (special_char s))"

section \<open>Keys from the terminal\<close>

fun next_byte :: "'k sys \<Rightarrow> nat \<Rightarrow> 'k \<Rightarrow> 'k \<times> u8 option" where
  "next_byte S 0 k = (k, None)"
| "next_byte S (Suc n) k =
     (case poll_key S k of
        (k, Key b) \<Rightarrow> (k, Some b)
      | (k, KeyClosed) \<Rightarrow> (k, None)
      | (k, KeyEmpty) \<Rightarrow> next_byte S n (s_yield S k))"

definition final_key :: "u8 \<Rightarrow> nat \<Rightarrow> special option" where
  "final_key b num =
     (if b = of_char CHR ''A'' then Some SUp
      else if b = of_char CHR ''B'' then Some SDown
      else if b = of_char CHR ''C'' then Some SRight
      else if b = of_char CHR ''D'' then Some SLeft
      else if b = of_char CHR ''H'' then Some SHome
      else if b = of_char CHR ''F'' then Some SEnd
      else if b = of_char CHR ''~'' then
        (if num = 1 \<or> num = 7 then Some SHome else if num = 4 \<or> num = 8 then Some SEnd else if num = 3 then Some SDelete else None)
      else None)"

partial_function (option) escape_keys :: "'k sys \<Rightarrow> 'k \<Rightarrow> nat \<Rightarrow> ('k \<times> special option) option" where
  "escape_keys S k num =
     (let (k, b) = next_byte S 4 k
      in case b of
           Some d \<Rightarrow> if 48 \<le> d \<and> d \<le> 57 then escape_keys S k (min (min (num * 10) 65535 + unat (d - 48)) 65535)
                     else Some (k, final_key d num)
         | None \<Rightarrow> Some (k, None))"

definition read_escape :: "'k sys \<Rightarrow> 'k \<Rightarrow> ('k \<times> special option option) option" where
  "read_escape S k =
     (let (k, b) = next_byte S 4 k
      in if b = Some (of_char CHR ''['') \<or> b = Some (of_char CHR ''O'')
         then do { (k, s) \<leftarrow> escape_keys S k 0; Some (k, Some s) }
         else Some (k, None))"

text \<open>One turn of the main loop after a byte was read.\<close>

definition main_key :: "'k sys \<Rightarrow> 'k \<Rightarrow> editor \<Rightarrow> u8 \<Rightarrow> ('k \<times> editor) option" where
  "main_key S k e key =
     (if key = 0x1B then do {
        (k, esc) \<leftarrow> read_escape S k;
        case esc of
          None \<Rightarrow> editor_key S k e 0x1B
        | Some (Some s) \<Rightarrow> editor_special S k e s
        | Some None \<Rightarrow> Some (k, e) }
      else editor_key S k e key)"

text \<open>The main loop; \<open>view\<close> is the layout's text rows and columns and list rows.\<close>

partial_function (option) main_loop :: "(editor \<Rightarrow> nat \<times> nat \<times> nat) \<Rightarrow> 'k sys \<Rightarrow> 'k \<Rightarrow> editor \<Rightarrow> ('k \<times> editor) option" where
  "main_loop view S k e =
     (if quit e then Some (k, e)
      else let (rows, cols, list_rows) = view e;
               e = editor_scroll e rows cols;
               e = e\<lparr>side := sidebar_scroll (side e) list_rows\<rparr>
           in do {
             (k, key) \<leftarrow> read_key S k;
             case key of None \<Rightarrow> Some (k, e)
             | Some c \<Rightarrow> do { (k, e) \<leftarrow> main_key S k e c; main_loop view S k e } })"

definition scarf_start :: "'k sys \<Rightarrow> 'k \<Rightarrow> bytes option \<Rightarrow> ('k \<times> editor) option" where
  "scarf_start S k arg =
     (let (k, c) = anssos_getcwd S k;
          e = editor_new (case c of None \<Rightarrow> ascii ''/'' | Some c \<Rightarrow> c)
      in do {
        (k, e) \<leftarrow> (case arg of None \<Rightarrow> Some (k, e)
          | Some a \<Rightarrow>
              let target = (if a \<noteq> [] \<and> hd a = 47 then a else join_path (cwd (side e)) a);
                  (k, dir) = (case cpath target of None \<Rightarrow> (k, False) | Some p \<Rightarrow> anssos_chdir S k p)
              in if dir then (let (k, c) = anssos_getcwd S k
                              in Some (k, e\<lparr>side := (side e)\<lparr>cwd := (case c of None \<Rightarrow> target | Some c \<Rightarrow> c)\<rparr>\<rparr>))
                 else do { (k, e) \<leftarrow> editor_open S k e target; Some (k, e\<lparr>efocus := FEditor\<rparr>) });
        (k, sb, loaded) \<leftarrow> sidebar_load S k (side e);
        let e = e\<lparr>side := sb\<rparr>;
        let e = (if loaded then e else set_message e (ascii ''cannot open directory''));
        Some (k, if message e = [] \<or> efocus e = FSidebar
                 then set_message e (ascii ''scarf -- Ctrl-b files, Ctrl-e switch pane, Enter open, i insert, :w :q'') else e) })"

end
