(* ===== verification/ScarfSafe.thy ===== *)
theory ScarfSafe
  imports Scarf
begin

text \<open>
  The editor of theory \<open>Scarf\<close> never panics: no key, no escape sequence and no scrolling indexes
  outside the buffer, whatever the files it opens hold. Proved inside the contract \<open>file_kernel\<close> of the
  system calls it makes.
\<close>

section \<open>The invariant\<close>

definition clean :: "bytes \<Rightarrow> bool" where
  "clean l \<longleftrightarrow> 10 \<notin> set l \<and> 13 \<notin> set l"

definition ed_inv :: "editor \<Rightarrow> bool" where
  "ed_inv e \<longleftrightarrow> ey e < length (lines (buf e)) \<and> ex e \<le> length (lines (buf e) ! ey e)
     \<and> (emode e \<noteq> MInsert \<and> lines (buf e) ! ey e \<noteq> [] \<longrightarrow> ex e < length (lines (buf e) ! ey e))
     \<and> (\<forall>l \<in> set (lines (buf e)). clean l)"

text \<open>Without the cursor column: what holds between an edit and its \<open>clamp_cx\<close>.\<close>

definition rows_ok :: "editor \<Rightarrow> bool" where
  "rows_ok e \<longleftrightarrow> ey e < length (lines (buf e)) \<and> (\<forall>l \<in> set (lines (buf e)). clean l)"

lemma ed_inv_rows: "ed_inv e \<Longrightarrow> rows_ok e"
  by (simp add: ed_inv_def rows_ok_def)

lemma ed_inv_new: "ed_inv (editor_new c)"
  by (simp add: ed_inv_def editor_new_def buffer_new_def clean_def)

lemma clean_simps [simp]: "clean []" "clean (a @ b) = (clean a \<and> clean b)" "clean (c # l) = (c \<noteq> 10 \<and> c \<noteq> 13 \<and> clean l)"
  by (auto simp: clean_def)

lemma clean_take_drop: "clean l \<Longrightarrow> clean (take n l)" "clean l \<Longrightarrow> clean (drop n l)"
  using set_take_subset [of n l] set_drop_subset [of n l] by (auto simp: clean_def)

lemma rows_okD:
  assumes "rows_ok e"
  shows "cur_line e = Some (lines (buf e) ! ey e)" "clean (lines (buf e) ! ey e)" "ey e < length (lines (buf e))" "lines (buf e) \<noteq> []"
  using assms by (auto simp: rows_ok_def cur_line_def vec_get_def)

lemma clamp_inv:
  assumes "rows_ok e"
  shows "\<exists>e'. clamp_cx e = Some e' \<and> ed_inv e'"
  using rows_okD [OF assms] assms
  by (auto simp: clamp_cx_def ed_inv_def rows_ok_def Let_def min_less_iff_disj simp flip: length_greater_0_conv)

lemma put_line_ok:
  assumes "rows_ok e" "clean l"
  shows "put_line e l = Some (e\<lparr>buf := (buf e)\<lparr>lines := (lines (buf e))[ey e := l], bdirty := True\<rparr>\<rparr>)"
    "rows_ok (e\<lparr>buf := (buf e)\<lparr>lines := (lines (buf e))[ey e := l], bdirty := True\<rparr>\<rparr>)"
  using assms by (auto simp: put_line_def vec_set_def rows_ok_def dest!: set_mp [OF set_update_subset_insert])

lemma insert_line_ok:
  assumes "at \<le> length (lines b)" "clean l" "\<forall>l \<in> set (lines b). clean l"
  shows "\<exists>b'. insert_line b at l = Some b' \<and> lines b' = take at (lines b) @ l # drop at (lines b) \<and> (\<forall>l \<in> set (lines b'). clean l)"
  using assms set_take_subset [of at "lines b"] set_drop_subset [of at "lines b"]
  by (auto simp: insert_line_def vec_insert_def)

section \<open>Motions and edits\<close>

lemma skip_while_le: "i \<le> length l \<Longrightarrow> i \<le> skip_while P l i \<and> skip_while P l i \<le> length l"
  using length_takeWhile_le [of P "drop i l"] by (auto simp: skip_while_def)

lemma back_while_le: "back_while P n \<le> n"
  by (induction n) auto

lemma rows_ok_upd [simp]:
  "rows_ok (e\<lparr>ex := x\<rparr>) = rows_ok e" "rows_ok (e\<lparr>emode := m\<rparr>) = rows_ok e" "rows_ok (e\<lparr>pending := p\<rparr>) = rows_ok e"
  "rows_ok (e\<lparr>cmd := s\<rparr>) = rows_ok e" "rows_ok (e\<lparr>message := s\<rparr>) = rows_ok e" "rows_ok (e\<lparr>side := sb\<rparr>) = rows_ok e"
  "rows_ok (e\<lparr>efocus := f\<rparr>) = rows_ok e" "rows_ok (e\<lparr>rowoff := n\<rparr>) = rows_ok e" "rows_ok (e\<lparr>coloff := n\<rparr>) = rows_ok e"
  "rows_ok (e\<lparr>quit := b\<rparr>) = rows_ok e"
  by (simp_all add: rows_ok_def)

lemma ed_inv_upd [simp]:
  "ed_inv (e\<lparr>pending := p\<rparr>) = ed_inv e" "ed_inv (e\<lparr>cmd := s\<rparr>) = ed_inv e" "ed_inv (e\<lparr>message := s\<rparr>) = ed_inv e"
  "ed_inv (e\<lparr>side := sb\<rparr>) = ed_inv e" "ed_inv (e\<lparr>efocus := f\<rparr>) = ed_inv e" "ed_inv (e\<lparr>rowoff := n\<rparr>) = ed_inv e"
  "ed_inv (e\<lparr>coloff := n\<rparr>) = ed_inv e" "ed_inv (e\<lparr>quit := b\<rparr>) = ed_inv e" "ed_inv (e\<lparr>side_visible := v\<rparr>) = ed_inv e"
  by (simp_all add: ed_inv_def)

lemma rows_ok_ey: "rows_ok e \<Longrightarrow> n < length (lines (buf e)) \<Longrightarrow> rows_ok (e\<lparr>ey := n\<rparr>)"
  by (simp add: rows_ok_def)

lemma word_forward_ok:
  assumes "ed_inv e"
  shows "\<exists>e'. word_forward e = Some e' \<and> rows_ok e'"
  using rows_okD [OF ed_inv_rows [OF assms]] ed_inv_rows [OF assms] by (auto simp: word_forward_def Let_def rows_ok_def)

lemma word_back_ok:
  assumes "ed_inv e"
  shows "\<exists>e'. word_back e = Some e' \<and> rows_ok e'"
  using rows_okD [OF ed_inv_rows [OF assms]] ed_inv_rows [OF assms] assms
  by (auto simp: word_back_def Let_def rows_ok_def cur_line_def vec_get_def ed_inv_def)

lemma delete_word_ok:
  assumes "ed_inv e"
  shows "\<exists>e'. delete_word e = Some e' \<and> rows_ok e'"
proof -
  note r = ed_inv_rows [OF assms] and d = rows_okD [OF ed_inv_rows [OF assms]]
  let ?l = "lines (buf e) ! ey e"
  let ?i = "skip_while is_word ?l (ex e)" let ?j = "skip_while (\<lambda>b. \<not> is_word b) ?l ?i"
  have "ex e \<le> ?j" "?j \<le> length ?l" if "ex e < length ?l"
    using skip_while_le [of "ex e" ?l is_word] skip_while_le [of ?i ?l "\<lambda>b. \<not> is_word b"] that by auto
  moreover have "clean (take (ex e) ?l @ drop ?j ?l)" using d(2) by (simp add: clean_take_drop)
  ultimately show ?thesis using d(1) r put_line_ok [OF r] by (auto simp: delete_word_def vec_drain_def Let_def)
qed

lemma remove_at_ok:
  assumes "rows_ok e" "i < length (lines (buf e) ! ey e)"
  shows "\<exists>e'. remove_at e i = Some e' \<and> rows_ok e' \<and> ey e' = ey e \<and> ex e' = ex e \<and> emode e' = emode e
    \<and> lines (buf e') ! ey e = take i (lines (buf e) ! ey e) @ drop (Suc i) (lines (buf e) ! ey e)"
proof -
  note d = rows_okD [OF assms(1)]
  have "clean (take i (lines (buf e) ! ey e) @ drop (Suc i) (lines (buf e) ! ey e))" using d(2) by (simp add: clean_take_drop)
  from put_line_ok [OF assms(1) this] d(1,3) assms(2) show ?thesis by (auto simp: remove_at_def vec_remove_def)
qed

lemma delete_line_ok:
  assumes "rows_ok e"
  shows "rows_ok (e\<lparr>buf := delete_line (buf e) (ey e), ey := min (ey e) (length (lines (delete_line (buf e) (ey e))) - 1)\<rparr>)"
proof -
  let ?ls = "lines (delete_line (buf e) (ey e))"
  have "set ?ls \<subseteq> insert [] (set (lines (buf e)))"
    using set_take_subset [of "ey e" "lines (buf e)"] set_drop_subset [of "Suc (ey e)" "lines (buf e)"]
    by (auto simp: delete_line_def Let_def)
  moreover have "length ?ls > 0" by (auto simp: delete_line_def Let_def)
  then have "min (ey e) (length ?ls - 1) < length ?ls" by linarith
  ultimately show ?thesis using assms by (auto simp: rows_ok_def)
qed

lemma pending_key_ok:
  assumes "ed_inv e" "emode e = MNormal"
  shows "\<exists>e'. pending_key e p c = Some e' \<and> ed_inv e'"
proof -
  note r = ed_inv_rows [OF assms(1)]
  have "ed_inv (e\<lparr>ex := 0, ey := 0\<rparr>)" using assms(1) by (auto simp: ed_inv_def)
  moreover have "\<exists>e'. clamp_cx (e\<lparr>buf := delete_line (buf e) (ey e), ey := min (ey e) (length (lines (delete_line (buf e) (ey e))) - 1)\<rparr>) = Some e' \<and> ed_inv e'"
    by (rule clamp_inv [OF delete_line_ok [OF r]])
  moreover obtain e1 where "delete_word e = Some e1" "rows_ok e1" using delete_word_ok [OF assms(1)] by blast
  moreover obtain e2 where "clamp_cx e1 = Some e2" "ed_inv e2" using clamp_inv [OF calculation(4)] by blast
  moreover obtain e3 where "clamp_cx e = Some e3" "ed_inv e3" using clamp_inv [OF r] by blast
  ultimately show ?thesis using assms(1) by (auto simp: pending_key_def Let_def)
qed

lemma word_forward_emode: "word_forward e = Some e' \<Longrightarrow> emode e' = emode e"
  by (auto simp: word_forward_def Let_def split: bind_splits if_splits)

lemma ed_inv_motion:
  assumes "ed_inv e" "x \<le> ex e \<or> x < length (lines (buf e) ! ey e) \<or> lines (buf e) ! ey e = [] \<and> x = 0"
  shows "ed_inv (e\<lparr>ex := x\<rparr>)"
  using assms by (auto simp: ed_inv_def)

lemma ed_inv_insert:
  assumes "rows_ok e" "ex e \<le> length (lines (buf e) ! ey e)"
  shows "ed_inv (e\<lparr>emode := MInsert\<rparr>)"
  using assms by (auto simp: ed_inv_def rows_ok_def)

lemma bind_clamp_inv:
  assumes "\<exists>e'. r = Some e' \<and> rows_ok e'"
  shows "\<exists>e'. r \<bind> clamp_cx = Some e' \<and> ed_inv e'"
  using assms clamp_inv by fastforce

lemma open_line_inv:
  assumes "rows_ok e" "at = ey e \<or> at = ey e + 1"
  shows "\<exists>b. insert_line (buf e) at [] = Some b \<and> ed_inv (e\<lparr>buf := b, ex := 0, ey := at, emode := MInsert\<rparr>)"
proof -
  have "at \<le> length (lines (buf e))" using assms by (auto simp: rows_ok_def)
  with insert_line_ok [OF this, of "[]"] assms show ?thesis
    by (fastforce simp: ed_inv_def rows_ok_def nth_append)
qed

lemma normal_cmd_ok:
  assumes "ed_inv e" "emode e = MNormal"
  shows "\<exists>e'. normal_cmd e c = Some e' \<and> ed_inv e'"
proof -
  note r = ed_inv_rows [OF assms(1)] and d = rows_okD [OF ed_inv_rows [OF assms(1)]]
  have rows: "rows_ok (e\<lparr>ey := n\<rparr>)" if "n < length (lines (buf e))" for n
    using r that by (rule rows_ok_ey)
  have x: "\<exists>e'. (if ex e < length (lines (buf e) ! ey e) then remove_at e (ex e) else Some e) = Some e' \<and> rows_ok e'"
    using remove_at_ok [OF r] r by auto
  note steps = clamp_inv [OF rows] bind_clamp_inv [OF word_forward_ok [OF assms(1)]]
    bind_clamp_inv [OF word_back_ok [OF assms(1)]] bind_clamp_inv [OF x]
    open_line_inv [OF r] ed_inv_motion [OF assms(1)]
  have a: "ed_inv (e\<lparr>ex := ex e + 1, emode := MInsert\<rparr>)" if "lines (buf e) ! ey e \<noteq> []"
    using assms that by (auto simp: ed_inv_def)
  have A: "ed_inv (e\<lparr>ex := length (lines (buf e) ! ey e), emode := MInsert\<rparr>)" "ed_inv (e\<lparr>emode := MInsert\<rparr>)" "ed_inv (start_command e)"
    using assms by (auto simp: ed_inv_def start_command_def)
  have e: "ed_inv (e\<lparr>ex := length (lines (buf e) ! ey e) - Suc 0\<rparr>)"
    using assms(1) by (intro ed_inv_motion) auto
  show ?thesis unfolding normal_cmd_def
    using steps(1) [of "ey e + 1"] steps(1) [of "ey e - 1"] steps(1) [of "length (lines (buf e)) - 1"] steps(2,3,4)
      steps(5) [of "ey e"] steps(5) [of "ey e + 1"] a A e assms(1) d(1,3,4)
    by (auto simp: Let_def intro: ed_inv_motion)
qed

lemma key_normal_ok:
  assumes "ed_inv e" "emode e = MNormal"
  shows "\<exists>e'. key_normal e c = Some e' \<and> ed_inv e'"
  using normal_cmd_ok [of "e\<lparr>pending := None\<rparr>" c] pending_key_ok [of "e\<lparr>pending := None\<rparr>"] assms
  by (auto simp: key_normal_def Let_def split: option.splits)

section \<open>Insert mode and special keys\<close>

lemma insert_char_ok:
  assumes "ed_inv e" "emode e = MInsert" "c \<noteq> 10" "c \<noteq> 13"
  shows "\<exists>e'. insert_char c e = Some e' \<and> ed_inv e' \<and> emode e' = MInsert"
proof -
  note r = ed_inv_rows [OF assms(1)] and d = rows_okD [OF ed_inv_rows [OF assms(1)]]
  let ?l = "lines (buf e) ! ey e"
  have "clean (take (ex e) ?l @ c # drop (ex e) ?l)" using d(2) assms(3,4) by (simp add: clean_take_drop)
  from put_line_ok [OF r this] d(1,3) assms(1,2) show ?thesis
    by (auto simp: insert_char_def vec_insert_def ed_inv_def rows_ok_def)
qed

lemma insert_spaces_ok:
  assumes "ed_inv e" "emode e = MInsert"
  shows "\<exists>e'. insert_spaces n e = Some e' \<and> ed_inv e'"
  using assms
proof (induction n arbitrary: e)
  case (Suc n)
  obtain e1 where "insert_char 32 e = Some e1" "ed_inv e1" "emode e1 = MInsert" using insert_char_ok [OF Suc.prems, of 32] by auto
  then show ?case using Suc.IH [of e1] by simp
qed auto

lemma split_line_ok:
  assumes "ed_inv e"
  shows "\<exists>e' b. put_line e (take (ex e) (lines (buf e) ! ey e)) = Some e'
    \<and> insert_line (buf e') (ey e + 1) (drop (ex e) (lines (buf e) ! ey e)) = Some b \<and> ey e' = ey e
    \<and> (emode e = MInsert \<longrightarrow> ed_inv (e'\<lparr>buf := b, ex := 0, ey := ey e + 1\<rparr>))"
proof -
  note r = ed_inv_rows [OF assms(1)] and d = rows_okD [OF ed_inv_rows [OF assms(1)]]
  let ?l = "lines (buf e) ! ey e"
  note p = put_line_ok [OF r clean_take_drop(1) [OF d(2), of "ex e"]]
  let ?e = "e\<lparr>buf := (buf e)\<lparr>lines := (lines (buf e))[ey e := take (ex e) ?l], bdirty := True\<rparr>\<rparr>"
  have len: "ey e + 1 \<le> length (lines (buf ?e))" using d(3) by simp
  obtain b where b: "insert_line (buf ?e) (ey e + 1) (drop (ex e) ?l) = Some b"
    "lines b = take (ey e + 1) (lines (buf ?e)) @ drop (ex e) ?l # drop (ey e + 1) (lines (buf ?e))" "\<forall>l \<in> set (lines b). clean l"
    using insert_line_ok [OF len clean_take_drop(2) [OF d(2), of "ex e"]] p(2) unfolding rows_ok_def by blast
  have "length (take (ey e + 1) (lines (buf ?e))) = ey e + 1" using d(3) by simp
  then have "lines b ! (ey e + 1) = drop (ex e) ?l" "ey e + 1 < length (lines b)"
    unfolding b(2) by (simp_all add: nth_append)
  with b p(1) show ?thesis by (auto simp: ed_inv_def)
qed

lemma join_lines_ok:
  assumes "ed_inv e" "emode e = MInsert" "0 < ey e"
  shows "\<exists>ls. vec_remove (lines (buf e)) (ey e) = Some (lines (buf e) ! ey e, ls) \<and> ey e - 1 < length ls
    \<and> (let e1 = e\<lparr>buf := (buf e)\<lparr>lines := ls\<rparr>, ey := ey e - 1\<rparr> in
        cur_line e1 = Some (ls ! (ey e - 1)) \<and> (\<exists>e'. put_line (e1\<lparr>ex := length (ls ! (ey e - 1))\<rparr>) (ls ! (ey e - 1) @ lines (buf e) ! ey e) = Some e' \<and> ed_inv e'))"
proof -
  note r = ed_inv_rows [OF assms(1)] and d = rows_okD [OF ed_inv_rows [OF assms(1)]]
  let ?ls = "take (ey e) (lines (buf e)) @ drop (Suc (ey e)) (lines (buf e))"
  let ?e = "e\<lparr>buf := (buf e)\<lparr>lines := ?ls\<rparr>, ey := ey e - 1\<rparr>"
  have len: "ey e - 1 < length ?ls" using d(3) assms(3) by simp
  have "set ?ls \<subseteq> set (lines (buf e))"
    using set_take_subset [of "ey e" "lines (buf e)"] set_drop_subset [of "Suc (ey e)" "lines (buf e)"] by auto
  with r len have r': "rows_ok ?e" by (auto simp: rows_ok_def)
  note d' = rows_okD [OF r']
  let ?x = "?ls ! (ey e - 1)"
  have "clean (?x @ lines (buf e) ! ey e)" using d'(2) d(2) by simp
  moreover have "rows_ok (?e\<lparr>ex := length ?x\<rparr>)" using r' by simp
  ultimately have p: "put_line (?e\<lparr>ex := length ?x\<rparr>) (?x @ lines (buf e) ! ey e) = Some (?e\<lparr>ex := length ?x, buf := (buf ?e)\<lparr>lines := ?ls[ey e - 1 := ?x @ lines (buf e) ! ey e], bdirty := True\<rparr>\<rparr>)"
    "rows_ok (?e\<lparr>ex := length ?x, buf := (buf ?e)\<lparr>lines := ?ls[ey e - 1 := ?x @ lines (buf e) ! ey e], bdirty := True\<rparr>\<rparr>)"
    using put_line_ok [of "?e\<lparr>ex := length ?x\<rparr>" "?x @ lines (buf e) ! ey e"] by simp_all
  have "ed_inv (?e\<lparr>ex := length ?x, buf := (buf ?e)\<lparr>lines := ?ls[ey e - 1 := ?x @ lines (buf e) ! ey e], bdirty := True\<rparr>\<rparr>)"
    using p(2) assms(2) len by (simp add: ed_inv_def rows_ok_def)
  with p(1) d'(1) d(3) len show ?thesis by (auto simp: vec_remove_def Let_def)
qed

lemma remove_before_ok:
  assumes "ed_inv e" "emode e = MInsert" "0 < ex e"
  shows "\<exists>e'. remove_at (e\<lparr>ex := ex e - 1\<rparr>) (ex e - 1) = Some e' \<and> ed_inv e'"
proof -
  have r: "rows_ok (e\<lparr>ex := ex e - 1\<rparr>)" using ed_inv_rows [OF assms(1)] by simp
  have "ex e \<le> length (lines (buf e) ! ey e)" using assms(1) by (simp add: ed_inv_def)
  then have "ex e - 1 < length (lines (buf e) ! ey e)" using assms(3) by linarith
  with remove_at_ok [OF r, of "ex e - 1"] assms(2,3) show ?thesis by (auto simp: ed_inv_def rows_ok_def)
qed

lemma key_insert_ok:
  assumes "ed_inv e" "emode e = MInsert"
  shows "\<exists>e'. key_insert e c = Some e' \<and> ed_inv e'"
proof -
  note r = ed_inv_rows [OF assms(1)] and d = rows_okD [OF ed_inv_rows [OF assms(1)]]
  have split: "vec_split_off (lines (buf e) ! ey e) (ex e) = Some (take (ex e) (lines (buf e) ! ey e), drop (ex e) (lines (buf e) ! ey e))"
    using assms(1) by (simp add: vec_split_off_def ed_inv_def)
  have printable: "c \<noteq> 10" "c \<noteq> 13" if "is_printable c" using that by (auto simp: is_printable_def)
  have esc: "\<exists>e'. clamp_cx (e\<lparr>emode := MNormal, ex := ex e - 1\<rparr>) = Some e' \<and> ed_inv e'" using r by (intro clamp_inv) simp
  show ?thesis unfolding key_insert_def
    using esc split split_line_ok [OF assms(1)] join_lines_ok [OF assms] remove_before_ok [OF assms]
      insert_spaces_ok [OF assms] insert_char_ok [OF assms, of c] printable assms d(1)
    by (auto simp: Let_def)
qed

lemma insert_special_ok:
  assumes "ed_inv e" "emode e = MInsert"
  shows "\<exists>e'. insert_special e s = Some e' \<and> ed_inv e'"
proof -
  note r = ed_inv_rows [OF assms(1)] and d = rows_okD [OF ed_inv_rows [OF assms(1)]]
  have col: "ed_inv (e\<lparr>ex := x\<rparr>)" if "x \<le> length (lines (buf e) ! ey e)" for x using assms that by (simp add: ed_inv_def)
  have "ex e \<le> length (lines (buf e) ! ey e)" using assms(1) by (simp add: ed_inv_def)
  moreover have "\<exists>e'. clamp_cx (if ey e > 0 then e\<lparr>ey := ey e - 1\<rparr> else e) = Some e' \<and> ed_inv e'"
    "\<exists>e'. clamp_cx (if ey e + 1 < length (lines (buf e)) then e\<lparr>ey := ey e + 1\<rparr> else e) = Some e' \<and> ed_inv e'"
    using r by (auto intro!: clamp_inv rows_ok_ey simp: rows_ok_def)
  moreover have "\<exists>e'. (if ex e < length (lines (buf e) ! ey e) then remove_at e (ex e) else Some e) = Some e' \<and> ed_inv e'"
    using remove_at_ok [OF r, of "ex e"] assms by (auto simp: ed_inv_def rows_ok_def)
  ultimately show ?thesis using d(1) assms(1)
    by (cases s) (auto simp: insert_special_def intro: col)
qed

text \<open>Scrolling moves only the two offsets, each by the one rule.\<close>

definition follow :: "nat \<Rightarrow> nat \<Rightarrow> nat \<Rightarrow> nat" where
  "follow off at view = (let off = min off at in if at \<ge> off + view then at + 1 - view else off)"

lemma scroll_steps:
  "(if ey e < rowoff e then e\<lparr>rowoff := ey e\<rparr> else e) = e\<lparr>rowoff := min (rowoff e) (ey e)\<rparr>"
  "(if ex e < coloff e then e\<lparr>coloff := ex e\<rparr> else e) = e\<lparr>coloff := min (coloff e) (ex e)\<rparr>"
  "(if ey e \<ge> rowoff e + r then e\<lparr>rowoff := ey e + 1 - r\<rparr> else e) = e\<lparr>rowoff := (if ey e \<ge> rowoff e + r then ey e + 1 - r else rowoff e)\<rparr>"
  "(if ex e \<ge> coloff e + r then e\<lparr>coloff := ex e + 1 - r\<rparr> else e) = e\<lparr>coloff := (if ex e \<ge> coloff e + r then ex e + 1 - r else coloff e)\<rparr>"
  by (simp_all add: min_def)

lemma editor_scroll_eq:
  "editor_scroll e rows cols = e\<lparr>rowoff := follow (rowoff e) (ey e) (max rows 1), coloff := follow (coloff e) (ex e) (max cols 1)\<rparr>"
  unfolding editor_scroll_def scroll_steps by (simp add: follow_def Let_def cong: if_cong split del: if_split)

lemma follow_shows: "0 < view \<Longrightarrow> follow off at view \<le> at \<and> at < follow off at view + view"
  by (auto simp: follow_def Let_def)

lemma scroll_inv [simp]: "ed_inv (editor_scroll e rows cols) = ed_inv e"
  by (simp add: editor_scroll_eq)

section \<open>On a kernel that keeps its contract\<close>

text \<open>Loading a file: the lines have no terminators in them, whatever the bytes.\<close>

definition loading_ok :: "bytes list \<times> bytes \<Rightarrow> bool" where
  "loading_ok st \<longleftrightarrow> (\<forall>l \<in> set (fst st). clean l) \<and> clean (snd st)"

lemma load_byte_ok: "loading_ok st \<Longrightarrow> loading_ok (load_byte b st)"
  by (cases st) (auto simp: loading_ok_def load_byte_def)

lemma load_bytes_ok: "loading_ok st \<Longrightarrow> loading_ok (fold load_byte d st)"
  by (induction d arbitrary: st) (simp_all add: load_byte_ok)

datatype event = Press u8 | Special special | Draw nat nat nat

fun event_step :: "'k sys \<Rightarrow> event \<Rightarrow> 'k \<times> editor \<Rightarrow> ('k \<times> editor) option" where
  "event_step S (Press c) (k, e) = editor_key S k e c"
| "event_step S (Special s) (k, e) = editor_special S k e s"
| "event_step S (Draw rows cols list_rows) (k, e) =
     (let e = editor_scroll e rows cols in Some (k, e\<lparr>side := sidebar_scroll (side e) list_rows\<rparr>))"

fun events :: "'k sys \<Rightarrow> event list \<Rightarrow> 'k \<times> editor \<Rightarrow> ('k \<times> editor) option" where
  "events S [] st = Some st"
| "events S (v # vs) st = event_step S v st \<bind> events S vs"

text \<open>What the editor relies on is what the runtime library does.\<close>

locale editor_host = file_kernel S left kinv for S :: "'k sys" and left :: "'k \<Rightarrow> int \<Rightarrow> nat" and kinv :: "'k \<Rightarrow> bool"
begin

definition runs :: "('k \<times> editor) option \<Rightarrow> bool" where
  "runs r \<longleftrightarrow> (\<exists>k' e'. r = Some (k', e') \<and> kinv k' \<and> ed_inv e')"

lemma load_chunks_ok:
  "kinv k \<Longrightarrow> file_fd fd \<Longrightarrow> loading_ok st \<Longrightarrow> \<exists>k' st'. load_chunks S k fd st = Some (k', st') \<and> kinv k' \<and> loading_ok st'"
proof (induction "left k fd" arbitrary: k st rule: less_induct)
  case less
  obtain k1 d where r: "file_read S k fd 512 = (k1, d)" by (cases "file_read S k fd 512")
  from file_read_ok [OF less.prems(1,2) r] have k1: "kinv k1" "length d \<le> 512" "d \<noteq> [] \<longrightarrow> left k1 fd < left k fd" by auto
  show ?case
  proof (cases "d = []")
    case False
    with less.hyps [of k1 "fold load_byte d st"] k1 less.prems load_bytes_ok r show ?thesis
      by (subst load_chunks.simps) auto
  qed (use r k1 less.prems in \<open>subst load_chunks.simps, auto\<close>)
qed

lemma on_path_ok:
  assumes "kinv k" "on_path k path f = (k', r)" "\<And>p k' r. f k p = (k', r) \<Longrightarrow> kinv k' \<and> (\<forall>fd. r = Some fd \<longrightarrow> file_fd fd)"
  shows "kinv k' \<and> (\<forall>fd. r = Some fd \<longrightarrow> file_fd fd)"
  using assms by (auto simp: on_path_def split: option.splits)

lemma buffer_open_ok:
  assumes "kinv k"
  shows "\<exists>k' b' m. buffer_open S k b p = Some (k', b', m) \<and> kinv k' \<and> lines b' \<noteq> [] \<and> (\<forall>l \<in> set (lines b'). clean l)"
proof -
  obtain k1 f where o: "on_path k p (file_open S) = (k1, f)" by (cases "on_path k p (file_open S)")
  have k1: "kinv k1 \<and> (\<forall>fd. f = Some fd \<longrightarrow> file_fd fd)" by (rule on_path_ok [OF assms o]) (auto dest: file_open_inv [OF assms])
  show ?thesis
  proof (cases f)
    case (Some fd)
    with k1 have fd: "kinv k1" "file_fd fd" by auto
    obtain k2 ls l where c: "load_chunks S k1 fd ([], []) = Some (k2, ls, l)" "kinv k2" "loading_ok (ls, l)"
      using load_chunks_ok [OF fd, of "([], [])"] by (auto simp: loading_ok_def)
    then show ?thesis using o Some close_inv [OF c(2) fd(2)]
      by (auto simp: buffer_open_def loading_ok_def Let_def)
  qed (use o k1 in \<open>auto simp: buffer_open_def\<close>)
qed

lemma buffer_save_ok:
  assumes "kinv k"
  shows "\<exists>k' b' r. buffer_save S k b = Some (k', b', r) \<and> kinv k' \<and> lines b' = lines b"
proof -
  obtain k1 f where o: "on_path k (filename b) (file_create S) = (k1, f)" by (cases "on_path k (filename b) (file_create S)")
  have k1: "kinv k1 \<and> (\<forall>fd. f = Some fd \<longrightarrow> file_fd fd)" by (rule on_path_ok [OF assms o]) (auto dest: file_create_inv [OF assms])
  show ?thesis
  proof (cases f)
    case (Some fd)
    with k1 have fd: "kinv k1" "file_fd fd" by auto
    with file_write_all_ok [OF fd, of "save_text (lines b)"] o Some assms show ?thesis
      by (auto simp: buffer_save_def Let_def intro: close_inv)
  qed (use o k1 assms in \<open>auto simp: buffer_save_def Let_def\<close>)
qed

lemma sidebar_load_ok:
  assumes "kinv k"
  shows "\<exists>k' sb' b. sidebar_load S k sb = Some (k', sb', b) \<and> kinv k'"
proof (cases "cpath (cwd sb)")
  case (Some p)
  obtain k1 r where "read_dir S k p = Some (k1, r)" "kinv k1" using read_dir_ok [OF assms] by blast
  with Some show ?thesis by (cases r) (auto simp: sidebar_load_def Let_def)
qed (use assms in \<open>auto simp: sidebar_load_def Let_def\<close>)

lemma editor_open_ok:
  assumes "kinv k"
  shows "runs (editor_open S k e p)"
  using buffer_open_ok [OF assms, of "buf e" p]
  by (auto simp: editor_open_def runs_def ed_inv_def set_message_def neq_Nil_conv)

lemma sidebar_reload_ok:
  assumes "kinv k" "ed_inv e"
  shows "runs (sidebar_reload S k e)"
  using sidebar_load_ok [OF assms(1), of "side e"] assms(2)
  by (auto simp: sidebar_reload_def runs_def set_message_def Let_def)

lemma ed_inv_buf:
  assumes "ed_inv e" "lines b = lines (buf e)"
  shows "ed_inv (e\<lparr>buf := b\<rparr>)"
  using assms by (simp add: ed_inv_def)

lemma editor_save_ok:
  assumes "kinv k" "ed_inv e"
  shows "\<exists>k' e' b. editor_save S k e = Some (k', e', b) \<and> kinv k' \<and> ed_inv e'"
proof -
  obtain k1 b r where s: "buffer_save S k (buf e) = Some (k1, b, r)" "kinv k1" "lines b = lines (buf e)"
    using buffer_save_ok [OF assms(1)] by blast
  from sidebar_reload_ok [OF s(2) ed_inv_buf [OF assms(2) s(3)]] show ?thesis
    using s ed_inv_buf [OF assms(2) s(3)] by (cases r) (auto simp: editor_save_def runs_def set_message_def)
qed

lemma sidebar_activate_ok:
  assumes "kinv k"
  shows "\<exists>k' sb' p. sidebar_activate S k sb = Some (k', sb', p) \<and> kinv k'"
proof -
  let ?e = "entries sb ! sel sb"
  let ?sb = "sb\<lparr>cwd := (if dname ?e = ascii ''..'' then parent_path (cwd sb) else join_path (cwd sb) (dname ?e))\<rparr>"
  obtain k1 s1 b where "sidebar_load S k ?sb = Some (k1, s1, b)" "kinv k1" using sidebar_load_ok [OF assms] by blast
  then show ?thesis using assms unfolding sidebar_activate_def Let_def by auto
qed

lemma activate_key_ok:
  assumes "kinv k" "ed_inv e"
  shows "runs (activate_key S k e)"
proof -
  obtain k1 sb p where a: "sidebar_activate S k (side e) = Some (k1, sb, p)" "kinv k1" using sidebar_activate_ok [OF assms(1)] by blast
  show ?thesis
  proof (cases p)
    case (Some f)
    have "runs (editor_open S k1 (e\<lparr>side := sb\<rparr>) f)" by (rule editor_open_ok [OF a(2)])
    with a Some assms(2) show ?thesis by (auto simp: activate_key_def runs_def set_message_def Let_def)
  qed (use a assms in \<open>auto simp: activate_key_def runs_def\<close>)
qed

lemma runs_some [simp]: "runs (Some (k, e)) = (kinv k \<and> ed_inv e)"
  by (simp add: runs_def)

lemma runs_bind:
  assumes "runs r" "\<And>k e. kinv k \<Longrightarrow> ed_inv e \<Longrightarrow> runs (f (k, e))"
  shows "runs (r \<bind> f)"
  using assms by (auto simp: runs_def)

lemma runs_if: "(b \<Longrightarrow> runs x) \<Longrightarrow> (\<not> b \<Longrightarrow> runs y) \<Longrightarrow> runs (if b then x else y)"
  by simp

lemma key_sidebar_ok:
  assumes "kinv k" "ed_inv e" "emode e = MNormal"
  shows "runs (key_sidebar S k e c)"
proof -
  have up: "runs (go_parent S k (side e) \<bind> (\<lambda>(k, sb, opened).
      let e = e\<lparr>side := sb\<rparr> in Some (k, if opened then e else set_message e (ascii ''cannot open directory''))))"
    using sidebar_load_ok [OF assms(1), of "(side e)\<lparr>cwd := parent_path (cwd (side e))\<rparr>"] assms(2)
    by (auto simp: go_parent_def runs_def set_message_def Let_def)
  have reload: "runs (sidebar_reload S k e \<bind> (\<lambda>(k, e). Some (k, set_message e (ascii ''refreshed''))))"
    by (rule runs_bind [OF sidebar_reload_ok [OF assms(1,2)]]) (simp add: set_message_def)
  have colon: "ed_inv (start_command (e\<lparr>efocus := FEditor\<rparr>))" using assms by (auto simp: start_command_def ed_inv_def)
  show ?thesis unfolding key_sidebar_def
    by (intro runs_if) (use assms up reload colon activate_key_ok [OF assms(1,2)] in \<open>simp_all\<close>)
qed

lemma command_effect_ok:
  assumes "kinv k" "ed_inv e"
  shows "runs (command_effect S k e c)"
proof -
  have save: "\<exists>k' e' b. editor_save S k (e\<lparr>buf := (buf e)\<lparr>filename := p\<rparr>\<rparr>) = Some (k', e', b) \<and> kinv k' \<and> ed_inv e'" for p
    by (rule editor_save_ok [OF assms(1) ed_inv_buf [OF assms(2)]]) simp
  have as: "runs (editor_save S k (e\<lparr>buf := (buf e)\<lparr>filename := p\<rparr>\<rparr>) \<bind> (\<lambda>(k, e, _). Some (k, e)))" for p
    using save [of p] by (auto simp: runs_def)
  obtain k1 e1 b where e1: "editor_save S k e = Some (k1, e1, b)" "kinv k1" "ed_inv e1" using editor_save_ok [OF assms] by blast
  have w: "runs (editor_save S k e \<bind> (\<lambda>(k, e, _). Some (k, e)))" using e1 by simp
  have wq: "runs (editor_save S k e \<bind> (\<lambda>(k, e, saved). Some (k, if saved then e\<lparr>quit := True\<rparr> else e)))" using e1 by (cases b) simp_all
  have rest: "runs (case strip_prefix (ascii ''e! '') c of
        Some path \<Rightarrow> editor_open S k e path
      | None \<Rightarrow> (case strip_prefix (ascii ''e '') c of
          Some path \<Rightarrow> if bdirty (buf e) then Some (k, set_message e (ascii ''unsaved changes -- :w first, or :e! to discard''))
                       else editor_open S k e path
        | None \<Rightarrow> (case strip_prefix (ascii ''w '') c of
            Some path \<Rightarrow> editor_save S k (e\<lparr>buf := (buf e)\<lparr>filename := path\<rparr>\<rparr>) \<bind> (\<lambda>(k, e, _). Some (k, e))
          | None \<Rightarrow> Some (k, set_message e (ascii ''unknown command'')))))"
    using as editor_open_ok [OF assms(1), of e] assms
    by (simp add: set_message_def split: option.split)
  show ?thesis unfolding command_effect_def
    by (intro runs_if w wq rest) (use assms in \<open>simp_all add: set_message_def\<close>)
qed

lemma run_command_ok:
  assumes "kinv k" "ed_inv e" "emode e = MCommand"
  shows "runs (run_command S k e)"
proof -
  have "ed_inv (e\<lparr>cmd := [], emode := MNormal\<rparr>)" using assms(2,3) by (auto simp: ed_inv_def)
  from command_effect_ok [OF assms(1) this, of "cmd e"] obtain k1 e1
    where "command_effect S k (e\<lparr>cmd := [], emode := MNormal\<rparr>) (cmd e) = Some (k1, e1)" "kinv k1" "ed_inv e1"
    by (auto simp: runs_def)
  with clamp_inv [OF ed_inv_rows, of e1] show ?thesis by (auto simp: run_command_def Let_def)
qed

lemma key_command_ok:
  assumes "kinv k" "ed_inv e" "emode e = MCommand"
  shows "runs (key_command S k e c)"
proof -
  have "ed_inv (e\<lparr>emode := MNormal, cmd := []\<rparr>)" "ed_inv (e\<lparr>emode := MNormal\<rparr>)" using assms(2,3) by (auto simp: ed_inv_def)
  then show ?thesis unfolding key_command_def
    by (intro runs_if) (use assms run_command_ok [OF assms] in \<open>simp_all\<close>)
qed

lemma editor_key_ok:
  assumes "kinv k" "ed_inv e"
  shows "runs (editor_key S k e c)"
proof -
  have "runs (case emode e of MCommand \<Rightarrow> key_command S k e c | MInsert \<Rightarrow> lift_ed k (key_insert e c)
      | MNormal \<Rightarrow> (case efocus e of FSidebar \<Rightarrow> key_sidebar S k e c | FEditor \<Rightarrow> lift_ed k (key_normal e c)))"
    using key_command_ok [OF assms, of c] key_insert_ok [OF assms(2), of c] key_sidebar_ok [OF assms, of c] key_normal_ok [OF assms(2), of c] assms(1)
    by (auto simp: lift_ed_def split: mode.split focus.split)
  then show ?thesis unfolding editor_key_def
    by (intro runs_if) (use assms in \<open>simp_all add: Let_def\<close>)
qed

lemma editor_special_ok:
  assumes "kinv k" "ed_inv e"
  shows "runs (editor_special S k e s)"
  using insert_special_ok [OF assms(2), of s] editor_key_ok [OF assms, of "special_char s"] assms
  by (auto simp: editor_special_def lift_ed_def split: mode.split)

lemma event_step_ok: "kinv k \<Longrightarrow> ed_inv e \<Longrightarrow> runs (event_step S v (k, e))"
  by (cases v) (simp_all add: editor_key_ok editor_special_ok Let_def)

lemma events_ok:
  assumes "kinv k" "ed_inv e"
  shows "runs (events S vs (k, e))"
  using assms
proof (induction vs arbitrary: k e)
  case (Cons v vs)
  then show ?case using runs_bind [OF event_step_ok [OF Cons.prems, of v]] by simp
qed simp

end

end
