(* ===== verification/ScarfProps.thy ===== *)
theory ScarfProps
  imports KernelSys ScarfSafe
begin

text \<open>
  The editor on the kernel: the lemmas of theory \<open>ScarfSafe\<close>, proved for every host that keeps the
  contract of the file calls, at the kernel of theory \<open>Syscall\<close>.
\<close>

interpretation editor_sys: editor_host "kernel_sys E a others" left_of kinv for E a others
  by unfold_locales

text \<open>A kernel with one process running, the state a program starts in.\<close>

definition demo_running :: kernel where
  "demo_running = (set_slot 0 (process_empty\<lparr>pstate := Running, task := demo_task\<rparr>) (table_init vfs_init (\<lambda>n. None) (\<lambda>n. n < 2 ^ 24)))\<lparr>current := Some 0\<rparr>"

lemma ends_none: "ends w (replicate n OFree) q = 0"
  by (induction n) simp_all

lemma started_running:
  assumes "vfs_wf fs t" "nodes fs 0 \<noteq> None"
  shows "running ((set_slot 0 (process_empty\<lparr>pstate := Running, task := demo_task\<rparr>) (table_init fs inp heap))\<lparr>current := Some 0\<rparr>) 0"
proof -
  let ?k = "table_init fs inp heap" and ?p = "process_empty\<lparr>pstate := Running, task := demo_task\<rparr>"
  have "kernel_inv (set_slot 0 ?p ?k)"
  proof (rule inv_slot)
    show "kernel_inv ?k" by (rule boot_inv [OF assms(1)])
    show "task_ok (nodes (kfs ?k)) (task ?p)"
      using assms(2) by (simp add: task_ok_def demo_task_def usertask_empty_def default_console_def termios_zero_def NCCS_def table_init_def file_ok_def)
  qed (simp_all add: MAX_PROCESSES_def share_def reads_def writes_def demo_task_def usertask_empty_def ends_none)
  then show ?thesis
    by (simp add: running_def kernel_inv_def pipes_ok_def slot_def set_slot_def table_init_def MAX_PROCESSES_def)
qed

lemma demo_running_running: "running demo_running 0"
  unfolding demo_running_def by (rule started_running [OF vfs_init_wf]) (simp add: vfs_init_def alloc_vnode_def Let_def)



end
