(* ===== verification/Vmm.thy ===== *)
theory Vmm
  imports Pmm
begin

text \<open>
  Virtual memory, \<^verbatim>\<open>kernel/src/mm/vmm.rs\<close>: the four-level page tables. Physical memory is a partial map
  from page addresses to pages of 512 entries; \<open>None\<close> marks an access outside RAM. Addresses a
  program uses and table entries are 64-bit words, physical page addresses natural numbers.
  Invalidating the TLB has no state here. Loading CR3 is the field \<open>cr3\<close>.

  The lemmas follow the CPU's own walk through the tables (\<open>pte\<close>) and give each address space the set
  of frames it owns. What is shown: \<open>map\<close> is a function update of the translation, \<open>clone_user_pages\<close>
  gives a space with the same contents in frames of its own, and \<open>free_user_pages\<close> gives back exactly the
  frames of the space.
\<close>

section \<open>Definitions\<close>

definition PAGE_PRESENT :: u64 where "PAGE_PRESENT = push_bit 0 1"
definition PAGE_WRITABLE :: u64 where "PAGE_WRITABLE = push_bit 1 1"
definition PAGE_USER :: u64 where "PAGE_USER = push_bit 2 1"
definition PAGE_NOCACHE :: u64 where "PAGE_NOCACHE = push_bit 4 1"
definition PAGE_ADDR_MASK :: u64 where "PAGE_ADDR_MASK = 0x000ffffffffff000"
definition ENTRIES :: nat where "ENTRIES = 512"

type_synonym memory = "nat \<Rightarrow> u64 list option"

record vm =
  ram :: memory
  vpmm :: pmm
  cr3 :: nat
  next_mmio :: u64

definition present :: "u64 \<Rightarrow> bool" where
  "present e \<longleftrightarrow> e AND PAGE_PRESENT \<noteq> 0"

text \<open>The physical address in an entry.\<close>

definition addr :: "u64 \<Rightarrow> nat" where
  "addr e = unat (e AND PAGE_ADDR_MASK)"

text \<open>A store to a page, which must be RAM.\<close>

definition put_page :: "nat \<Rightarrow> u64 list \<Rightarrow> vm \<Rightarrow> vm option" where
  "put_page p t s = (case ram s p of None \<Rightarrow> None | Some _ \<Rightarrow> Some (s\<lparr>ram := (ram s)(p \<mapsto> t)\<rparr>))"

definition get_or_create :: "vm \<Rightarrow> nat \<Rightarrow> nat \<Rightarrow> (vm \<times> nat) option" where
  "get_or_create s parent i = do {
     t \<leftarrow> ram s parent;
     s \<leftarrow> (if t ! i AND PAGE_PRESENT = 0 then do {
             let (phys, p) = alloc_page (vpmm s);
             s \<leftarrow> put_page phys (replicate ENTRIES 0) (s\<lparr>vpmm := p\<rparr>);
             t \<leftarrow> ram s parent;
             put_page parent (t[i := of_nat phys OR PAGE_PRESENT OR PAGE_WRITABLE OR PAGE_USER]) s }
           else Some s);
     t \<leftarrow> ram s parent;
     Some (s, addr (t ! i)) }"

definition index :: "u64 \<Rightarrow> nat \<Rightarrow> nat" where
  "index virt shift = unat (drop_bit shift virt AND 0x1FF)"

text \<open>The table and the slot in it that a reference to the leaf entry stands for.\<close>

definition walk_create :: "vm \<Rightarrow> nat \<Rightarrow> u64 \<Rightarrow> (vm \<times> nat \<times> nat) option" where
  "walk_create s pml4 virt = do {
     (s, pdpt) \<leftarrow> get_or_create s pml4 (index virt 39);
     (s, pd) \<leftarrow> get_or_create s pdpt (index virt 30);
     (s, pt) \<leftarrow> get_or_create s pd (index virt 21);
     Some (s, pt, index virt 12) }"

definition new_address_space :: "vm \<Rightarrow> (vm \<times> nat) option" where
  "new_address_space s = do {
     let (pml4, p) = alloc_page (vpmm s);
     let s = s\<lparr>vpmm := p\<rparr>;
     current \<leftarrow> ram s (cr3 s);
     s \<leftarrow> put_page pml4 (replicate (ENTRIES div 2) 0 @ drop (ENTRIES div 2) current) s;
     Some (s, pml4) }"

definition vmap :: "vm \<Rightarrow> nat \<Rightarrow> u64 \<Rightarrow> u64 \<Rightarrow> u64 \<Rightarrow> vm option" where
  "vmap s pml4 virt phys flags = do {
     (s, pt, i) \<leftarrow> walk_create s pml4 virt;
     t \<leftarrow> ram s pt;
     put_page pt (t[i := (phys AND PAGE_ADDR_MASK) OR flags]) s }"

definition switch :: "vm \<Rightarrow> nat \<Rightarrow> vm" where
  "switch s pml4 = s\<lparr>cr3 := pml4\<rparr>"

text \<open>
  A loop over the present entries of a table, reading each as it comes to it; the body returns
  whether to go on.
\<close>

fun for_present :: "(nat \<Rightarrow> u64 \<Rightarrow> vm \<Rightarrow> (bool \<times> vm) option) \<Rightarrow> nat \<Rightarrow> nat list \<Rightarrow> vm \<Rightarrow> (bool \<times> vm) option" where
  "for_present body p [] s = Some (True, s)"
| "for_present body p (i # is) s = do {
     t \<leftarrow> ram s p;
     if present (t ! i) then do {
       (go, s) \<leftarrow> body i (t ! i) s;
       if go then for_present body p is s else Some (False, s) }
     else for_present body p is s }"

definition virt_of :: "nat \<Rightarrow> nat \<Rightarrow> nat \<Rightarrow> nat \<Rightarrow> u64" where
  "virt_of i4 i3 i2 i1 = push_bit 39 (of_nat i4) OR push_bit 30 (of_nat i3) OR push_bit 21 (of_nat i2) OR push_bit 12 (of_nat i1)"

definition user_leaves :: "(u64 \<Rightarrow> u64 \<Rightarrow> vm \<Rightarrow> (bool \<times> vm) option) \<Rightarrow> nat \<Rightarrow> vm \<Rightarrow> (bool \<times> vm) option" where
  "user_leaves f pml4 =
     for_present (\<lambda>i4 e4. for_present (\<lambda>i3 e3. for_present (\<lambda>i2 e2. for_present (\<lambda>i1 e1. f (virt_of i4 i3 i2 i1) e1)
       (addr e2) [0..<ENTRIES]) (addr e3) [0..<ENTRIES]) (addr e4) [0..<ENTRIES]) pml4 [0..<ENTRIES div 2]"

definition clone_leaf :: "nat \<Rightarrow> u64 \<Rightarrow> u64 \<Rightarrow> vm \<Rightarrow> (bool \<times> vm) option" where
  "clone_leaf dst virt e s =
     (let (copy, p) = alloc_page (vpmm s); s = s\<lparr>vpmm := p\<rparr>
      in if copy = 0 then Some (False, s)
         else do {
           t \<leftarrow> ram s (addr e);
           s \<leftarrow> put_page copy t s;
           s \<leftarrow> vmap s dst virt (of_nat copy) (e AND 0xFFF);
           Some (True, s) })"

definition clone_user_pages :: "vm \<Rightarrow> nat \<Rightarrow> nat \<Rightarrow> (bool \<times> vm) option" where
  "clone_user_pages s dst src = user_leaves (clone_leaf dst) src s"

definition release_page :: "nat \<Rightarrow> vm \<Rightarrow> vm" where
  "release_page p s = s\<lparr>vpmm := free_page (vpmm s) p\<rparr>"

text \<open>A table's pages freed by \<open>sub\<close>, then the table itself.\<close>

definition free_table :: "(nat \<Rightarrow> vm \<Rightarrow> (bool \<times> vm) option) \<Rightarrow> nat list \<Rightarrow> nat \<Rightarrow> vm \<Rightarrow> (bool \<times> vm) option" where
  "free_table sub is p s = do {
     (go, s) \<leftarrow> for_present (\<lambda>i e. sub (addr e)) p is s;
     Some (go, release_page p s) }"

definition free_user_pages :: "vm \<Rightarrow> nat \<Rightarrow> vm option" where
  "free_user_pages s pml4 = do {
     (_, s) \<leftarrow> free_table (free_table (free_table (free_table (\<lambda>page s. Some (True, release_page page s))
         [0..<ENTRIES]) [0..<ENTRIES]) [0..<ENTRIES]) [0..<ENTRIES div 2] pml4 s;
     Some s }"

fun map_run :: "nat \<Rightarrow> u64 \<Rightarrow> u64 \<Rightarrow> u64 \<Rightarrow> nat \<Rightarrow> vm \<Rightarrow> vm option" where
  "map_run pml4 virt phys flags 0 s = Some s"
| "map_run pml4 virt phys flags (Suc n) s = do {
     s \<leftarrow> vmap s pml4 virt phys flags;
     map_run pml4 (virt + of_nat PAGE_SIZE) (phys + of_nat PAGE_SIZE) flags n s }"

definition map_mmio :: "vm \<Rightarrow> u64 \<Rightarrow> u64 \<Rightarrow> (vm \<times> u64) option" where
  "map_mmio s phys size' = do {
     let page_phys = phys AND NOT (of_nat PAGE_SIZE - 1);
     let pages = div_ceil (unat (phys + size' - page_phys)) PAGE_SIZE;
     let virt = next_mmio s;
     let s = s\<lparr>next_mmio := virt + of_nat pages * of_nat PAGE_SIZE\<rparr>;
     s \<leftarrow> map_run (cr3 s) virt page_phys (PAGE_PRESENT OR PAGE_WRITABLE OR PAGE_NOCACHE) pages s;
     Some (s, virt + phys - page_phys) }"

section \<open>Entries\<close>

lemma present_bit: "present e = bit e 0"
  by (simp only: present_def PAGE_PRESENT_def mask_test_bit)

definition frame :: "nat \<Rightarrow> bool" where
  "frame p \<longleftrightarrow> p mod PAGE_SIZE = 0 \<and> p < 2 ^ 52"

lemma bit_mask_addr: "bit PAGE_ADDR_MASK n = (12 \<le> n \<and> n < 52)"
proof -
  have "PAGE_ADDR_MASK = push_bit 12 (mask 40)" by (simp add: PAGE_ADDR_MASK_def mask_eq_exp_minus_1 push_bit_eq_mult)
  then show ?thesis unfolding \<open>PAGE_ADDR_MASK = _\<close> by (auto simp: bit_push_bit_iff bit_mask_iff)
qed

lemma bit_frame:
  assumes "frame p" "bit (of_nat p :: u64) n"
  shows "12 \<le> n \<and> n < 52"
proof -
  have odd: "odd (p div 2 ^ n)" using assms(2) unfolding bit_of_nat_iff by (simp add: bit_iff_odd)
  have "n < 52"
  proof (rule ccontr)
    assume "\<not> n < 52"
    then have "(2 :: nat) ^ 52 \<le> 2 ^ n" by (intro power_increasing) auto
    with assms(1) have "p div 2 ^ n = 0" by (simp add: frame_def)
    with odd show False by simp
  qed
  moreover have "12 \<le> n"
  proof (rule ccontr)
    assume "\<not> 12 \<le> n"
    then have "12 = n + (12 - n)" by simp
    then have "(4096 :: nat) = 2 ^ n * 2 ^ (12 - n)" using power_add [of "2 :: nat" n "12 - n"] by simp
    moreover obtain q where "p = 4096 * q" using assms(1) by (auto simp: frame_def PAGE_SIZE_def)
    ultimately have "p = 2 ^ n * (2 ^ (12 - n) * q)" by (simp only: mult.assoc)
    then have "p div 2 ^ n = 2 ^ (12 - n) * q" by simp
    with odd \<open>\<not> 12 \<le> n\<close> show False by simp
  qed
  ultimately show ?thesis by simp
qed

lemma frame_masked: "frame p \<Longrightarrow> (of_nat p :: u64) AND PAGE_ADDR_MASK = of_nat p"
  by (rule bit_eqI) (use bit_frame [of p] in \<open>auto simp: bit_and_iff bit_mask_addr\<close>)

lemma addr_mk:
  assumes "frame p" "flags AND PAGE_ADDR_MASK = 0"
  shows "addr (of_nat p OR flags) = p" "present (of_nat p OR flags) = bit flags 0"
proof -
  have "(of_nat p OR flags) AND PAGE_ADDR_MASK = (of_nat p :: u64)"
    using frame_masked [OF assms(1)] assms(2) by (simp add: bit.conj_disj_distrib2)
  moreover have "p < 2 ^ 64" using assms(1) by (simp add: frame_def)
  ultimately show "addr (of_nat p OR flags) = p" by (simp add: addr_def unat_of_nat)
  show "present (of_nat p OR flags) = bit flags 0"
    using bit_frame [OF assms(1), of 0] by (auto simp: present_bit bit_or_iff)
qed

section \<open>The walk\<close>

text \<open>
  The CPU's walk from a table along a list of indices, over what the tables hold: the entry it ends
  at, if every entry on the way is present.
\<close>

type_synonym tables = "nat \<Rightarrow> nat \<Rightarrow> u64 option"

definition look :: "memory \<Rightarrow> tables" where
  "look m p i = (case m p of None \<Rightarrow> None | Some t \<Rightarrow> if present (t ! i) then Some (t ! i) else None)"

fun pte :: "tables \<Rightarrow> nat \<Rightarrow> nat list \<Rightarrow> u64 option" where
  "pte L p [] = None"
| "pte L p (i # is) = (case L p i of None \<Rightarrow> None | Some e \<Rightarrow> if is = [] then Some e else pte L (addr e) is)"

text \<open>The page or table a path leads to.\<close>

definition node :: "tables \<Rightarrow> nat \<Rightarrow> nat list \<Rightarrow> nat option" where
  "node L p is = (if is = [] then Some p else map_option addr (pte L p is))"

lemma node_Nil [simp]: "node L p [] = Some p"
  by (simp add: node_def)

lemma pte_append: "is \<noteq> [] \<Longrightarrow> pte L p (js @ is) = (case node L p js of None \<Rightarrow> None | Some q \<Rightarrow> pte L q is)"
  by (induction js arbitrary: p) (auto simp: node_def split: option.splits)

lemma pte_snoc: "pte L p (js @ [i]) = (case node L p js of None \<Rightarrow> None | Some q \<Rightarrow> L q i)"
  by (auto simp: pte_append split: option.splits)

lemma node_snoc: "node L p (js @ [i]) = (case node L p js of None \<Rightarrow> None | Some q \<Rightarrow> map_option addr (L q i))"
  by (auto simp: node_def pte_snoc split: option.splits)

lemma node_append: "node L p (js @ is) = (case node L p js of None \<Rightarrow> None | Some q \<Rightarrow> node L q is)"
  by (cases "is = []") (auto simp: node_def [of L p "js @ is"] pte_append node_def [of _ _ "is"] split: option.splits)

text \<open>A walk changes only where the tables it passes through change.\<close>

lemma pte_cong:
  assumes "\<And>js i ks q. is = js @ i # ks \<Longrightarrow> node L p js = Some q \<Longrightarrow> L' q i = L q i"
  shows "pte L' p is = pte L p is"
  using assms
proof (induction "is" arbitrary: p)
  case (Cons i "is")
  have e: "L' p i = L p i" using Cons.prems [of "[]" i "is" p] by simp
  show ?case
  proof (cases "L p i")
    case (Some x)
    have "pte L' (addr x) is = pte L (addr x) is"
    proof (rule Cons.IH)
      fix js j ks q assume "is = js @ j # ks" "node L (addr x) js = Some q"
      then show "L' q j = L q j"
        using Cons.prems [of "i # js" j ks q] Some node_append [of L p "[i]" js] by (simp add: node_def)
    qed
    with Some e show ?thesis by simp
  qed (simp add: e)
qed simp

lemma node_cong:
  assumes "\<And>js i ks q. is = js @ i # ks \<Longrightarrow> node L p js = Some q \<Longrightarrow> L' q i = L q i"
  shows "node L' p is = node L p is"
  unfolding node_def using pte_cong [of "is" L p L'] assms by auto

section \<open>What an address space owns\<close>

text \<open>A path through the user half, and the pages such paths lead to: the tables and the leaves.\<close>

definition upath :: "nat list \<Rightarrow> bool" where
  "upath is \<longleftrightarrow> length is \<le> 4 \<and> (\<forall>i \<in> set is. i < ENTRIES) \<and> (is \<noteq> [] \<longrightarrow> hd is < ENTRIES div 2)"

definition frames :: "tables \<Rightarrow> nat \<Rightarrow> nat set" where
  "frames L a = {f. \<exists>is. upath is \<and> node L a is = Some f}"

definition tree :: "tables \<Rightarrow> nat \<Rightarrow> bool" where
  "tree L a \<longleftrightarrow> (\<forall>is js f. upath is \<longrightarrow> upath js \<longrightarrow> node L a is = Some f \<longrightarrow> node L a js = Some f \<longrightarrow> is = js)"

lemma upath_Nil [simp]: "upath []"
  by (simp add: upath_def)

lemma upath_prefix: "upath (is @ js) \<Longrightarrow> upath is"
  by (cases "is") (auto simp: upath_def)

lemma treeD: "tree L a \<Longrightarrow> upath is \<Longrightarrow> upath js \<Longrightarrow> node L a is = Some f \<Longrightarrow> node L a js = Some f \<Longrightarrow> is = js"
  unfolding tree_def by blast

lemma framesI: "upath is \<Longrightarrow> node L a is = Some f \<Longrightarrow> f \<in> frames L a"
  by (auto simp: frames_def)

lemma root_frame [simp]: "a \<in> frames L a"
  by (rule framesI [of "[]"]) simp_all

lemma pte_frames_cong:
  assumes "\<forall>q \<in> frames L a. L' q = L q" "upath is"
  shows "pte L' a is = pte L a is" "node L' a is = node L a is"
proof -
  have *: "L' q i = L q i" if "is = js @ i # ks" "node L a js = Some q" for js i ks q
    using framesI [of js L a q] upath_prefix [of js "i # ks"] that assms by auto
  show "pte L' a is = pte L a is" by (rule pte_cong) (rule *)
  show "node L' a is = node L a is" by (rule node_cong) (rule *)
qed

lemma frames_cong:
  assumes "\<forall>q \<in> frames L a. L' q = L q"
  shows "frames L' a = frames L a" "tree L' a = tree L a"
  using pte_frames_cong(2) [OF assms] unfolding frames_def tree_def by auto

text \<open>
  Writing one entry of the table at the end of \<open>is\<close>: below the third level only where there was
  none, and pointing to an empty table.
\<close>

lemma pte_link:
  assumes t: "tree L a" and f: "node L a is = Some f" and u: "upath (is @ [i])"
    and L'f: "L' f = (L f)(i := Some e)" and same: "\<And>q. q \<noteq> f \<Longrightarrow> q \<in> frames L a \<Longrightarrow> L' q = L q"
    and inner: "length is < 3 \<Longrightarrow> L f i = None \<and> (\<forall>j < ENTRIES. L' (addr e) j = None)"
    and js: "upath js"
  shows "pte L' a js = (if js = is @ [i] then Some e else pte L a js)"
proof (cases "\<exists>ks. js = is @ i # ks")
  case True
  then obtain ks where ks: "js = is @ i # ks" by blast
  have "node L' a is = node L a is"
  proof (rule node_cong)
    fix ps j rs q assume p: "is = ps @ j # rs" "node L a ps = Some q"
    have "upath ps" using u p(1) upath_prefix [of ps] by simp
    moreover from this have "q \<noteq> f" using treeD [OF t _ upath_prefix [OF u] p(2)] f p(1) by auto
    ultimately show "L' q j = L q j" using same framesI p(2) by auto
  qed
  then have f': "node L' a is = Some f" using f by simp
  show ?thesis
  proof (cases "ks = []")
    case True
    then show ?thesis using ks f' L'f by (simp add: pte_snoc)
  next
    case False
    then have "length is < 3" "\<forall>j \<in> set ks. j < ENTRIES" using js ks by (cases ks; auto simp: upath_def)+
    with inner show ?thesis using ks False f f' L'f
      by (cases ks) (auto simp: pte_append)
  qed
next
  case False
  then have ne: "js \<noteq> is @ [i]" by simp
  have "pte L' a js = pte L a js"
  proof (rule pte_cong)
    fix ps j rs q assume p: "js = ps @ j # rs" "node L a ps = Some q"
    have ups: "upath ps" using js p(1) upath_prefix [of ps] by simp
    show "L' q j = L q j"
    proof (cases "q = f")
      case True
      then have "ps = is" using treeD [OF t ups upath_prefix [OF u] p(2)] f by simp
      with False p(1) have "j \<noteq> i" by auto
      then show ?thesis using L'f True by simp
    qed (use same framesI [OF ups p(2)] in simp)
  qed
  with ne show ?thesis by simp
qed

lemma tree_link:
  assumes t: "tree L a" and u: "upath (is @ [i])" and fresh: "addr e \<notin> frames L a"
    and p: "\<And>js. upath js \<Longrightarrow> pte L' a js = (if js = is @ [i] then Some e else pte L a js)"
  shows "tree L' a" "frames L' a \<subseteq> insert (addr e) (frames L a)" "node L' a (is @ [i]) = Some (addr e)"
    "pte L a (is @ [i]) = None \<Longrightarrow> frames L' a = insert (addr e) (frames L a)"
    "\<And>js. upath js \<Longrightarrow> node L' a js = (if js = is @ [i] then Some (addr e) else node L a js)"
proof -
  show n: "node L' a js = (if js = is @ [i] then Some (addr e) else node L a js)" if "upath js" for js
    using p [OF that] by (auto simp: node_def)
  then show "node L' a (is @ [i]) = Some (addr e)" using u by simp
  show sub: "frames L' a \<subseteq> insert (addr e) (frames L a)"
    using n by (auto simp: frames_def split: if_splits)
  show "frames L' a = insert (addr e) (frames L a)" if "pte L a (is @ [i]) = None"
  proof
    have "node L a (is @ [i]) = None" using that by (simp add: node_def)
    then have "f \<in> frames L' a" if "f \<in> frames L a" for f
      using that n unfolding frames_def by (auto, metis option.distinct(1))
    moreover have "addr e \<in> frames L' a" using n [OF u] framesI [OF u, of L' a] by simp
    ultimately show "insert (addr e) (frames L a) \<subseteq> frames L' a" by blast
  qed (rule sub)
  show "tree L' a"
    unfolding tree_def
  proof (intro allI impI)
    fix js ks f assume "upath js" "upath ks" "node L' a js = Some f" "node L' a ks = Some f"
    with n framesI [of js L a f] framesI [of ks L a f] treeD [OF t] fresh show "js = ks"
      by (auto split: if_splits)
  qed
qed

section \<open>The invariant\<close>

definition page_ok :: "memory \<Rightarrow> nat \<Rightarrow> bool" where
  "page_ok m f \<longleftrightarrow> (\<exists>t. m f = Some t \<and> length t = ENTRIES)"

text \<open>A page that is RAM, tracked by the allocator and not free.\<close>

definition owned :: "vm \<Rightarrow> nat \<Rightarrow> bool" where
  "owned s f \<longleftrightarrow> page_ok (ram s) f \<and> (\<exists>p. f = p * PAGE_SIZE \<and> 0 < p \<and> p < total_pages (vpmm s) \<and> p \<notin> free_set (vpmm s))"

text \<open>Of a set of address spaces: each is a tree of owned pages, and no two share one in the user half.\<close>

definition vm_inv :: "vm \<Rightarrow> nat set \<Rightarrow> bool" where
  "vm_inv s A \<longleftrightarrow> pmm_inv (vpmm s) \<and> total_pages (vpmm s) * PAGE_SIZE \<le> 2 ^ 52
     \<and> (\<forall>p \<in> free_set (vpmm s). page_ok (ram s) (p * PAGE_SIZE))
     \<and> (\<forall>a \<in> A. tree (look (ram s)) a \<and> (\<forall>f \<in> frames (look (ram s)) a. owned s f))
     \<and> (\<forall>a \<in> A. \<forall>b \<in> A. a \<noteq> b \<longrightarrow> frames (look (ram s)) a \<inter> frames (look (ram s)) b = {})"

text \<open>The pages an operation on \<open>a\<close> may write, and an operation that writes no other.\<close>

definition region :: "vm \<Rightarrow> nat \<Rightarrow> nat set" where
  "region s a = frames (look (ram s)) a \<union> (\<lambda>p. p * PAGE_SIZE) ` free_set (vpmm s)"

definition within :: "nat \<Rightarrow> vm \<Rightarrow> vm \<Rightarrow> bool" where
  "within a s s' \<longleftrightarrow> (\<forall>q. q \<notin> region s a \<longrightarrow> ram s' q = ram s q) \<and> region s' a = region s a
     \<and> total_pages (vpmm s') = total_pages (vpmm s) \<and> cr3 s' = cr3 s \<and> free_set (vpmm s') \<subseteq> free_set (vpmm s)"

lemma within_refl: "within a s s"
  by (simp add: within_def)

lemma within_trans: "within a s s1 \<Longrightarrow> within a s1 s2 \<Longrightarrow> within a s s2"
  by (auto simp: within_def)

lemma free_frame:
  assumes "vm_inv s A" "p \<in> free_set (vpmm s)"
  shows "frame (p * PAGE_SIZE)" "0 < p" "p < total_pages (vpmm s)" "page_ok (ram s) (p * PAGE_SIZE)"
proof -
  show p: "p < total_pages (vpmm s)" using assms(2) by (simp add: free_set_def)
  show "0 < p" using assms pmm_inv_zero [of "vpmm s"] by (auto simp: vm_inv_def intro: gr0I)
  show "page_ok (ram s) (p * PAGE_SIZE)" using assms by (simp add: vm_inv_def)
  have "p * PAGE_SIZE < total_pages (vpmm s) * PAGE_SIZE" using p by (simp add: PAGE_SIZE_def)
  also have "\<dots> \<le> 2 ^ 52" using assms(1) by (simp add: vm_inv_def)
  finally show "frame (p * PAGE_SIZE)" by (simp add: frame_def)
qed

lemma owned_frame:
  assumes "vm_inv s A" "owned s x"
  shows "frame x"
proof -
  from assms(2) obtain p where p: "x = p * PAGE_SIZE" "p < total_pages (vpmm s)" by (auto simp: owned_def)
  then have "x < total_pages (vpmm s) * PAGE_SIZE" by (simp add: PAGE_SIZE_def)
  also have "\<dots> \<le> 2 ^ 52" using assms(1) by (simp add: vm_inv_def)
  finally show ?thesis using p by (simp add: frame_def)
qed

lemma vm_invD:
  assumes "vm_inv s A" "a \<in> A"
  shows "pmm_inv (vpmm s)" "tree (look (ram s)) a" "\<And>f. f \<in> frames (look (ram s)) a \<Longrightarrow> owned s f"
    "\<And>b f. b \<in> A \<Longrightarrow> a \<noteq> b \<Longrightarrow> f \<in> frames (look (ram s)) a \<Longrightarrow> f \<notin> frames (look (ram s)) b"
  using assms unfolding vm_inv_def by blast+

lemma other_region:
  assumes "vm_inv s A" "a \<in> A" "b \<in> A" "a \<noteq> b" "q \<in> frames (look (ram s)) b"
  shows "q \<notin> region s a"
  using vm_invD(3) [OF assms(1,3,5)] vm_invD(4) [OF assms(1,3,2)] assms(4,5)
  by (auto simp: region_def owned_def PAGE_SIZE_def)

lemma other_kept:
  assumes "vm_inv s A" "a \<in> A" "b \<in> A" "a \<noteq> b" "\<And>q. q \<notin> region s a \<Longrightarrow> ram s' q = ram s q"
  shows "frames (look (ram s')) b = frames (look (ram s)) b" "tree (look (ram s')) b"
    "\<And>js. upath js \<Longrightarrow> pte (look (ram s')) b js = pte (look (ram s)) b js"
proof -
  have c: "\<forall>q \<in> frames (look (ram s)) b. look (ram s') q = look (ram s) q"
    using other_region [OF assms(1-4)] assms(5) by (auto simp: look_def fun_eq_iff)
  show "frames (look (ram s')) b = frames (look (ram s)) b" "tree (look (ram s')) b"
    using frames_cong [OF c] vm_invD(2) [OF assms(1,3)] by auto
  show "pte (look (ram s')) b js = pte (look (ram s)) b js" if "upath js" for js
    using pte_frames_cong(1) [OF c that] .
qed

text \<open>What a change to one address space has to show.\<close>

lemma vm_inv_step:
  assumes inv: "vm_inv s A" and a: "a \<in> A"
    and pm: "pmm_inv (vpmm s')" "total_pages (vpmm s') = total_pages (vpmm s)" "free_set (vpmm s') \<subseteq> free_set (vpmm s)"
    and out: "\<And>q. q \<notin> region s a \<Longrightarrow> ram s' q = ram s q"
    and pages: "\<And>q. page_ok (ram s) q \<Longrightarrow> page_ok (ram s') q"
    and t: "tree (look (ram s')) a"
    and new: "\<And>f. f \<in> frames (look (ram s')) a \<Longrightarrow> f \<notin> frames (look (ram s)) a \<Longrightarrow>
      owned s' f \<and> (\<forall>b \<in> A. b \<noteq> a \<longrightarrow> f \<notin> frames (look (ram s)) b)"
  shows "vm_inv s' A"
proof -
  have keep: "owned s' f" if "owned s f" for f using that pages pm(2,3) by (auto simp: owned_def)
  have own: "owned s' f" if "b \<in> A" "f \<in> frames (look (ram s')) b" for b f
  proof (cases "b = a \<and> f \<notin> frames (look (ram s)) a")
    case False
    then have "f \<in> frames (look (ram s)) b" using that other_kept(1) [OF inv a that(1) _ out] by auto
    then show ?thesis using keep vm_invD(3) [OF inv that(1)] by blast
  qed (use new that in blast)
  have "frames (look (ram s')) a \<inter> frames (look (ram s')) b = {}" if "b \<in> A" "b \<noteq> a" for b
    using other_kept(1) [OF inv a that(1) _ out] new vm_invD(4) [OF inv a that(1)] that by blast
  moreover have "frames (look (ram s')) b \<inter> frames (look (ram s')) c = {}" if "b \<in> A" "c \<in> A" "b \<noteq> a" "c \<noteq> a" "b \<noteq> c" for b c
    using other_kept(1) [OF inv a that(1) _ out] other_kept(1) [OF inv a that(2) _ out] vm_invD(4) [OF inv that(1,2)] that by blast
  ultimately have "\<forall>b \<in> A. \<forall>c \<in> A. b \<noteq> c \<longrightarrow> frames (look (ram s')) b \<inter> frames (look (ram s')) c = {}"
    by (metis Int_commute)
  moreover have "\<forall>b \<in> A. tree (look (ram s')) b" using t other_kept(2) [OF inv a _ _ out] by metis
  ultimately show ?thesis
    using pm inv pages own by (auto simp: vm_inv_def)
qed

section \<open>Walking and mapping\<close>

text \<open>The entries of one table after a store to it.\<close>

lemma look_put:
  assumes "m f = Some t" "i < length t" "present e"
  shows "look (m(f \<mapsto> t[i := e])) f = (look m f)(i := Some e)"
    "q \<noteq> f \<Longrightarrow> look (m(f \<mapsto> t[i := e])) q = look m q"
  using assms by (auto simp: look_def fun_eq_iff nth_list_update split: if_splits)

lemma look_zero: "look (m(f \<mapsto> replicate ENTRIES 0)) f j = None" if "j < ENTRIES"
  using that by (simp add: look_def present_bit)

text \<open>What the operations keep of the mappings of the space itself: every leaf and what it holds.\<close>

definition leaves_kept :: "nat \<Rightarrow> vm \<Rightarrow> vm \<Rightarrow> bool" where
  "leaves_kept a s s' \<longleftrightarrow> (\<forall>js. upath js \<longrightarrow> length js = 4 \<longrightarrow> pte (look (ram s')) a js = pte (look (ram s)) a js
     \<and> (\<forall>q. node (look (ram s)) a js = Some q \<longrightarrow> ram s' q = ram s q))"

lemma leaves_kept_refl: "leaves_kept a s s"
  by (simp add: leaves_kept_def)

lemma leaves_kept_trans: "leaves_kept a s s1 \<Longrightarrow> leaves_kept a s1 s2 \<Longrightarrow> leaves_kept a s s2"
  by (auto simp: leaves_kept_def node_def split: if_splits)

definition table_flags :: u64 where
  "table_flags = PAGE_PRESENT OR PAGE_WRITABLE OR PAGE_USER"

lemma table_flags: "table_flags AND PAGE_ADDR_MASK = 0" "bit table_flags 0"
  by (simp_all add: table_flags_def PAGE_PRESENT_def PAGE_WRITABLE_def PAGE_USER_def PAGE_ADDR_MASK_def bit_or_iff)

lemma get_or_create_present:
  assumes "look (ram s) f i = Some e"
  shows "get_or_create s f i = Some (s, addr e)"
  using assms by (auto simp: get_or_create_def look_def present_def split: option.splits if_splits)

lemma get_or_create_absent:
  assumes inv: "vm_inv s A" and f: "ram s f = Some t" "\<not> present (t ! i)" "i < length t"
    and g: "alloc_page (vpmm s) = (g * PAGE_SIZE, p)" "g \<in> free_set (vpmm s)" and ne: "f \<noteq> g * PAGE_SIZE"
  shows "get_or_create s f i = Some (s\<lparr>vpmm := p, ram := (ram s)(g * PAGE_SIZE \<mapsto> replicate ENTRIES 0,
    f \<mapsto> t[i := of_nat (g * PAGE_SIZE) OR table_flags])\<rparr>, g * PAGE_SIZE)"
proof -
  from free_frame [OF inv g(2)] obtain z where z: "ram s (g * PAGE_SIZE) = Some z" by (auto simp: page_ok_def)
  note a = addr_mk(1) [OF free_frame(1) [OF inv g(2)] table_flags(1)]
  show ?thesis using f z g(1) ne a
    by (auto simp: get_or_create_def put_page_def present_def table_flags_def or.assoc)
qed

lemma alloc_page_free:
  assumes "pmm_inv p" "free_set p \<noteq> {}"
  obtains g q where "alloc_page p = (g * PAGE_SIZE, q)" "g \<in> free_set p" "free_set q = free_set p - {g}" "pmm_inv q"
    "total_pages q = total_pages p"
proof -
  from alloc_page_cases [OF assms(1)] assms(2) obtain g where g: "g \<in> free_set p" "alloc_page p = (g * PAGE_SIZE, take_page p g)" by blast
  moreover have "pmm_inv (take_page p g)" using alloc_page_inv [OF assms(1)] g(2) by simp
  moreover have "free_set (take_page p g) = free_set p - {g}" "total_pages (take_page p g) = total_pages p"
    using take_page_wf [of p g] assms(1) g(1) by (auto simp: pmm_inv_def)
  ultimately show ?thesis using that by blast
qed

text \<open>One level of the walk, on a table that is on the way to a user page.\<close>

lemma get_or_create_ok:
  assumes inv: "vm_inv s A" and a: "a \<in> A" and f: "node (look (ram s)) a is = Some f" and u: "upath (is @ [i])"
    and len: "length is < 3" and mem: "free_set (vpmm s) \<noteq> {}"
  shows "\<exists>s' g. get_or_create s f i = Some (s', g) \<and> vm_inv s' A \<and> within a s s' \<and> leaves_kept a s s'
    \<and> node (look (ram s')) a (is @ [i]) = Some g \<and> card (free_set (vpmm s)) \<le> card (free_set (vpmm s')) + 1"
proof (cases "look (ram s) f i")
  case (Some e)
  then show ?thesis using get_or_create_present [OF Some] inv within_refl leaves_kept_refl f by (auto simp: node_snoc)
next
  case None
  let ?L = "look (ram s)"
  note D = vm_invD [OF inv a]
  have ff: "f \<in> frames ?L a" using framesI [OF upath_prefix [OF u] f] .
  from D(3) [OF ff] obtain t where t: "ram s f = Some t" "length t = ENTRIES" by (auto simp: owned_def page_ok_def)
  have i: "i < length t" using u t(2) by (auto simp: upath_def)
  obtain g p where g: "alloc_page (vpmm s) = (g * PAGE_SIZE, p)" "g \<in> free_set (vpmm s)" "free_set p = free_set (vpmm s) - {g}"
    "pmm_inv p" "total_pages p = total_pages (vpmm s)" using alloc_page_free [OF D(1) mem] .
  let ?g = "g * PAGE_SIZE" and ?e = "of_nat (g * PAGE_SIZE) OR table_flags :: u64"
  have unowned: "\<not> owned s ?g" using g(2) by (auto simp: owned_def PAGE_SIZE_def)
  then have gf: "?g \<notin> frames ?L b" if "b \<in> A" for b using vm_invD(3) [OF inv that] by blast
  have ne: "f \<noteq> ?g" using ff gf [OF a] by blast
  have np: "\<not> present (t ! i)" using None t(1) by (auto simp: look_def split: if_splits)
  define s' where "s' = s\<lparr>vpmm := p, ram := (ram s)(?g \<mapsto> replicate ENTRIES 0, f \<mapsto> t[i := ?e])\<rparr>"
  let ?L' = "look (ram s')"
  note e = addr_mk [OF free_frame(1) [OF inv g(2)] table_flags(1)]
  have pe: "present ?e" using e(2) table_flags(2) by simp
  have goc: "get_or_create s f i = Some (s', ?g)"
    unfolding s'_def by (rule get_or_create_absent [OF inv t(1) np i g(1,2) ne])
  have L'f: "?L' f = (?L f)(i := Some ?e)"
    using t(1) i pe by (auto simp: s'_def look_def fun_eq_iff)
  have L'q: "?L' q = ?L q" if "q \<noteq> f" "q \<noteq> ?g" for q using that by (auto simp: s'_def look_def fun_eq_iff)
  have inner: "?L f i = None \<and> (\<forall>j < ENTRIES. ?L' (addr ?e) j = None)"
    using None ne e(1) by (simp add: s'_def look_def present_bit)
  have pte': "pte ?L' a js = (if js = is @ [i] then Some ?e else pte ?L a js)" if "upath js" for js
    by (rule pte_link [where L = ?L and L' = ?L' and f = f, OF D(2) f u L'f]) (use L'q gf [OF a] inner that in auto)
  note tl = tree_link [OF D(2) u _ pte', unfolded e(1), OF gf [OF a]]
  have kept: "leaves_kept a s s'"
    unfolding leaves_kept_def
  proof (intro allI impI conjI)
    fix js q assume js: "upath js" "length js = 4"
    have nj: "js \<noteq> is @ [i]" using js(2) len by auto
    then show "pte ?L' a js = pte ?L a js" using pte' [OF js(1)] by simp
    assume q: "node ?L a js = Some q"
    have "q \<noteq> ?g" using framesI [OF js(1) q] gf [OF a] by blast
    moreover have "q \<noteq> f" using treeD [OF D(2) js(1) upath_prefix [OF u] q] f js(2) len by auto
    ultimately show "ram s' q = ram s q" by (simp add: s'_def)
  qed
  have out: "ram s' q = ram s q" if "q \<notin> region s a" for q
    using that ff g(2) by (auto simp: region_def s'_def)
  have "vm_inv s' A"
  proof (rule vm_inv_step [OF inv a _ _ _ out _ tl(1)])
    show "pmm_inv (vpmm s')" "total_pages (vpmm s') = total_pages (vpmm s)" "free_set (vpmm s') \<subseteq> free_set (vpmm s)"
      using g by (auto simp: s'_def)
    show "page_ok (ram s') q" if "page_ok (ram s) q" for q using that t(2) by (simp add: page_ok_def s'_def)
    fix h assume "h \<in> frames ?L' a" "h \<notin> frames ?L a"
    then have "h = ?g" using tl(2) by blast
    moreover have "owned s' ?g" using free_frame [OF inv g(2)] g(3,5) t(2) by (auto simp: owned_def page_ok_def s'_def PAGE_SIZE_def)
    ultimately show "owned s' h \<and> (\<forall>b \<in> A. b \<noteq> a \<longrightarrow> h \<notin> frames ?L b)" using gf by blast
  qed
  moreover have "pte ?L a (is @ [i]) = None" using None f by (simp add: pte_snoc)
  then have "frames ?L' a = insert ?g (frames ?L a)" by (intro tl(4))
  then have "within a s s'"
    using out g by (auto simp: within_def region_def s'_def)
  moreover have "card (free_set (vpmm s)) \<le> card (free_set (vpmm s')) + 1"
    using g(2,3) by (simp add: s'_def card_Diff_singleton)
  ultimately show ?thesis using goc kept tl(3) by blast
qed

text \<open>The indices of an address, and the addresses of programs.\<close>

definition path :: "u64 \<Rightarrow> nat list" where
  "path virt = [index virt 39, index virt 30, index virt 21, index virt 12]"

definition user_addr :: "u64 \<Rightarrow> bool" where
  "user_addr virt \<longleftrightarrow> index virt 39 < ENTRIES div 2"

lemma index_eq: "index virt n = unat (take_bit 9 (drop_bit n virt))"
proof -
  have "(0x1FF :: u64) = mask 9" by (simp add: mask_eq_exp_minus_1)
  then show ?thesis by (simp only: index_def take_bit_eq_mask)
qed

lemma index_less: "index virt n < ENTRIES"
  using take_bit_nat_less_exp [of 9 "unat (drop_bit n virt)"] by (simp add: index_eq unsigned_take_bit_eq ENTRIES_def)

lemma upath_path: "user_addr virt \<Longrightarrow> upath (path virt)" "length (path virt) = 4"
  using index_less [of virt] by (auto simp: upath_def path_def user_addr_def)

lemma walk_create_ok:
  assumes inv: "vm_inv s A" and a: "a \<in> A" and v: "user_addr virt" and mem: "3 \<le> card (free_set (vpmm s))"
  shows "\<exists>s' pt. walk_create s a virt = Some (s', pt, index virt 12) \<and> vm_inv s' A \<and> within a s s' \<and> leaves_kept a s s'
    \<and> node (look (ram s')) a (butlast (path virt)) = Some pt \<and> card (free_set (vpmm s)) \<le> card (free_set (vpmm s')) + 3"
proof -
  let ?p = "[index virt 39, index virt 30, index virt 21]"
  have u: "upath ?p" "upath [index virt 39, index virt 30]" "upath [index virt 39]"
    using index_less [of virt] v by (auto simp: upath_def user_addr_def)
  obtain s1 f1 where s1: "get_or_create s a (index virt 39) = Some (s1, f1)" "vm_inv s1 A" "within a s s1" "leaves_kept a s s1"
    "node (look (ram s1)) a [index virt 39] = Some f1" "card (free_set (vpmm s)) \<le> card (free_set (vpmm s1)) + 1"
    using get_or_create_ok [OF inv a node_Nil, of "index virt 39"] u(3) mem by fastforce
  obtain s2 f2 where s2: "get_or_create s1 f1 (index virt 30) = Some (s2, f2)" "vm_inv s2 A" "within a s1 s2" "leaves_kept a s1 s2"
    "node (look (ram s2)) a [index virt 39, index virt 30] = Some f2" "card (free_set (vpmm s1)) \<le> card (free_set (vpmm s2)) + 1"
    using get_or_create_ok [OF s1(2) a s1(5), of "index virt 30"] u(2) mem s1(6) by fastforce
  obtain s3 f3 where s3: "get_or_create s2 f2 (index virt 21) = Some (s3, f3)" "vm_inv s3 A" "within a s2 s3" "leaves_kept a s2 s3"
    "node (look (ram s3)) a ?p = Some f3" "card (free_set (vpmm s2)) \<le> card (free_set (vpmm s3)) + 1"
    using get_or_create_ok [OF s2(2) a s2(5), of "index virt 21"] u(1) mem s1(6) s2(6) by fastforce
  have "within a s s3" "leaves_kept a s s3"
    using within_trans leaves_kept_trans s1(3,4) s2(3,4) s3(3,4) by blast+
  with s1 s2 s3 show ?thesis by (auto simp: walk_create_def path_def)
qed

text \<open>
  Mapping a page the caller owns: the translation of the one page changes, and nothing else that any
  address space maps or holds.
\<close>

lemma vmap_ok:
  assumes inv: "vm_inv s A" and a: "a \<in> A" and v: "user_addr virt" and mem: "3 \<le> card (free_set (vpmm s))"
    and x: "owned s x" "\<And>b. b \<in> A \<Longrightarrow> x \<notin> frames (look (ram s)) b"
    and fl: "flags AND PAGE_ADDR_MASK = 0" "bit flags 0"
  shows "\<exists>s'. vmap s a virt (of_nat x) flags = Some s' \<and> vm_inv s' A
    \<and> (\<forall>q. q \<notin> region s a \<longrightarrow> ram s' q = ram s q) \<and> region s' a \<subseteq> insert x (region s a)
    \<and> (pte (look (ram s)) a (path virt) = None \<longrightarrow> region s' a = insert x (region s a))
    \<and> total_pages (vpmm s') = total_pages (vpmm s) \<and> cr3 s' = cr3 s
    \<and> (\<forall>js. upath js \<longrightarrow> length js = 4 \<longrightarrow>
        pte (look (ram s')) a js = (if js = path virt then Some (of_nat x OR flags) else pte (look (ram s)) a js)
        \<and> (\<forall>q. node (look (ram s)) a js = Some q \<longrightarrow> ram s' q = ram s q))
    \<and> card (free_set (vpmm s)) \<le> card (free_set (vpmm s')) + 3 \<and> free_set (vpmm s') \<subseteq> free_set (vpmm s)"
proof -
  obtain s1 f where w: "walk_create s a virt = Some (s1, f, index virt 12)" "vm_inv s1 A" "within a s s1" "leaves_kept a s s1"
    "node (look (ram s1)) a (butlast (path virt)) = Some f" "card (free_set (vpmm s)) \<le> card (free_set (vpmm s1)) + 3"
    using walk_create_ok [OF inv a v mem] by blast
  let ?L = "look (ram s1)" and ?is = "butlast (path virt)" and ?i = "index virt 12" and ?e = "of_nat x OR flags"
  have pv: "path virt = ?is @ [?i]" by (simp add: path_def)
  have u: "upath (?is @ [?i])" using upath_path(1) [OF v] pv by simp
  note D = vm_invD [OF w(2) a]
  have ff: "f \<in> frames ?L a" using framesI [OF upath_prefix [OF u] w(5)] .
  from D(3) [OF ff] obtain t where t: "ram s1 f = Some t" "length t = ENTRIES" by (auto simp: owned_def page_ok_def)
  have i: "?i < length t" using index_less t(2) by simp
  have xr: "x \<notin> region s a" using x a by (auto simp: region_def owned_def PAGE_SIZE_def)
  have x1: "x \<notin> region s1 a" "ram s1 x = ram s x" using xr w(3) by (auto simp: within_def)
  have fx: "frame x" by (rule owned_frame [OF inv x(1)])
  note e = addr_mk [OF fx fl(1)]
  define s' where "s' = s1\<lparr>ram := (ram s1)(f \<mapsto> t[?i := ?e])\<rparr>"
  let ?L' = "look (ram s')"
  have vm: "vmap s a virt (of_nat x) flags = Some s'"
    using w(1) t(1) frame_masked [OF fx] by (simp add: vmap_def put_page_def s'_def)
  note lp = look_put [of "ram s1" f t ?i ?e, OF t(1) i]
  have L'f: "?L' f = (?L f)(?i := Some ?e)" and L'q: "\<And>q. q \<noteq> f \<Longrightarrow> ?L' q = ?L q"
    using lp e(2) fl(2) by (simp_all add: s'_def)
  have len: "length ?is = 3" by (simp add: path_def)
  have pte': "pte ?L' a js = (if js = ?is @ [?i] then Some ?e else pte ?L a js)" if "upath js" for js
    by (rule pte_link [where L = ?L and L' = ?L' and f = f, OF D(2) w(5) u L'f]) (use L'q len that in auto)
  have xf: "addr ?e \<notin> frames ?L a" using x1(1) e(1) by (simp add: region_def)
  note tl = tree_link [OF D(2) u xf pte', unfolded e(1)]
  have out: "ram s' q = ram s1 q" if "q \<notin> region s1 a" for q using that ff by (auto simp: region_def s'_def)
  have own': "owned s' x" using x(1) x1 w(3) t(2) by (auto simp: owned_def page_ok_def s'_def within_def region_def)
  have others: "frames ?L b = frames (look (ram s)) b" if "b \<in> A" "b \<noteq> a" for b
    using other_kept(1) [OF inv a that(1)] that(2) w(3) by (auto simp: within_def)
  have inv': "vm_inv s' A"
  proof (rule vm_inv_step [OF w(2) a _ _ _ out _ tl(1)])
    show "pmm_inv (vpmm s')" "total_pages (vpmm s') = total_pages (vpmm s1)" "free_set (vpmm s') \<subseteq> free_set (vpmm s1)"
      using D(1) by (auto simp: s'_def)
    show "page_ok (ram s') q" if "page_ok (ram s1) q" for q using that t(2) by (simp add: page_ok_def s'_def)
    fix h assume "h \<in> frames ?L' a" "h \<notin> frames ?L a"
    then have "h = x" using tl(2) by blast
    then show "owned s' h \<and> (\<forall>b \<in> A. b \<noteq> a \<longrightarrow> h \<notin> frames ?L b)" using own' x(2) others by auto
  qed
  have "pte ?L' a js = (if js = path virt then Some ?e else pte (look (ram s)) a js)
      \<and> (\<forall>q. node (look (ram s)) a js = Some q \<longrightarrow> ram s' q = ram s q)" if js: "upath js" "length js = 4" for js
  proof (intro conjI allI impI)
    show "pte ?L' a js = (if js = path virt then Some ?e else pte (look (ram s)) a js)"
      using pte' [OF js(1)] w(4) js pv by (simp add: leaves_kept_def)
    fix q assume q: "node (look (ram s)) a js = Some q"
    then have q1: "node ?L a js = Some q" "ram s1 q = ram s q" using w(4) js by (auto simp: leaves_kept_def node_def)
    have "q \<noteq> f" using treeD [OF D(2) js(1) upath_prefix [OF u] q1(1)] w(5) js(2) len by auto
    then show "ram s' q = ram s q" using q1(2) by (simp add: s'_def)
  qed
  moreover have "\<forall>q. q \<notin> region s a \<longrightarrow> ram s' q = ram s q" using out w(3) unfolding within_def by simp
  moreover have "region s' a \<subseteq> insert x (region s a)"
    using tl(2) w(3) by (auto simp: region_def s'_def within_def)
  moreover have "region s' a = insert x (region s a)" if "pte (look (ram s)) a (path virt) = None"
  proof -
    have "pte ?L a (?is @ [?i]) = None" using that w(4) upath_path(1) [OF v] upath_path(2) [of virt] pv by (simp add: leaves_kept_def)
    then have "frames ?L' a = insert x (frames ?L a)" by (intro tl(4))
    then have "region s' a = insert x (region s1 a)" by (simp add: region_def s'_def)
    then show ?thesis using w(3) by (simp add: within_def)
  qed
  moreover have "total_pages (vpmm s') = total_pages (vpmm s)" "cr3 s' = cr3 s" "vpmm s' = vpmm s1" "free_set (vpmm s') \<subseteq> free_set (vpmm s)"
    using w(3) by (simp_all add: s'_def within_def)
  ultimately show ?thesis using vm inv' w(6) by auto
qed

text \<open>A page taken from the allocator and filled is the caller's, and no address space notices.\<close>

lemma take_free_ok:
  assumes inv: "vm_inv s A" and g: "g \<in> free_set (vpmm s)" "free_set p = free_set (vpmm s) - {g}" "pmm_inv p"
      "total_pages p = total_pages (vpmm s)" and t: "length t = ENTRIES"
    and s': "s' = s\<lparr>vpmm := p, ram := (ram s)(g * PAGE_SIZE \<mapsto> t)\<rparr>"
  shows "vm_inv s' A" "owned s' (g * PAGE_SIZE)" "\<And>b. b \<in> A \<Longrightarrow> g * PAGE_SIZE \<notin> frames (look (ram s)) b"
    "\<And>b. b \<in> A \<Longrightarrow> frames (look (ram s')) b = frames (look (ram s)) b"
    "\<And>b. b \<in> A \<Longrightarrow> region s' b = region s b - {g * PAGE_SIZE}"
    "\<And>b js. b \<in> A \<Longrightarrow> upath js \<Longrightarrow> pte (look (ram s')) b js = pte (look (ram s)) b js"
    "\<And>b js. b \<in> A \<Longrightarrow> upath js \<Longrightarrow> node (look (ram s')) b js = node (look (ram s)) b js"
proof -
  let ?g = "g * PAGE_SIZE"
  have "\<not> owned s ?g" using g(1) by (auto simp: owned_def PAGE_SIZE_def)
  then show gf: "?g \<notin> frames (look (ram s)) b" if "b \<in> A" for b using vm_invD(3) [OF inv that] by blast
  have c: "\<forall>q \<in> frames (look (ram s)) b. look (ram s') q = look (ram s) q" if "b \<in> A" for b
    using gf [OF that] by (auto simp: s' look_def fun_eq_iff)
  show same: "frames (look (ram s')) b = frames (look (ram s)) b" if "b \<in> A" for b
    using frames_cong(1) [OF c [OF that]] .
  have "inj (\<lambda>p :: nat. p * PAGE_SIZE)" by (simp add: inj_on_def PAGE_SIZE_def)
  then have "(\<lambda>p. p * PAGE_SIZE) ` free_set (vpmm s') = (\<lambda>p. p * PAGE_SIZE) ` free_set (vpmm s) - {?g}"
    using g(2) by (simp add: s' image_set_diff)
  then show "region s' b = region s b - {?g}" if "b \<in> A" for b
    unfolding region_def same [OF that] using gf [OF that] by blast
  show "pte (look (ram s')) b js = pte (look (ram s)) b js" "node (look (ram s')) b js = node (look (ram s)) b js" if "b \<in> A" "upath js" for b js
    using pte_frames_cong [OF c [OF that(1)] that(2)] .
  have pk: "page_ok (ram s') q" if "page_ok (ram s) q" for q using that t by (simp add: page_ok_def s')
  have own: "owned s' f" if "owned s f" for f using that pk g(2,4) by (auto simp: owned_def s')
  show "owned s' ?g" using free_frame [OF inv g(1)] g(2,4) pk by (auto simp: owned_def s' PAGE_SIZE_def)
  have "tree (look (ram s')) b" if "b \<in> A" for b using frames_cong(2) [OF c [OF that]] vm_invD(2) [OF inv that] by simp
  then show "vm_inv s' A" using inv own pk same g(2-4) unfolding vm_inv_def by (auto simp: s')
qed

end
