(* ===== verification/VmmProps.thy ===== *)
theory VmmProps
  imports Vmm
begin

text \<open>
  The operations of \<^verbatim>\<open>vmm.rs\<close> that go through a whole address space: creating one, copying one for
  \<^verbatim>\<open>fork\<close>, and freeing one. The loops over the tables share one rule, the locale \<open>table_walk\<close>, with the
  paths handled so far as the loop invariant's index.
\<close>

section \<open>A new space\<close>

lemma new_address_space_ok:
  assumes inv: "vm_inv s A" and cur: "ram s (cr3 s) = Some k" "length k = ENTRIES" "\<forall>p \<in> free_set (vpmm s). cr3 s \<noteq> p * PAGE_SIZE"
    and mem: "free_set (vpmm s) \<noteq> {}"
  shows "\<exists>s' d t. new_address_space s = Some (s', d) \<and> vm_inv s' (insert d A) \<and> d \<notin> A
    \<and> d \<in> (\<lambda>p. p * PAGE_SIZE) ` free_set (vpmm s)
    \<and> region s' d = (\<lambda>p. p * PAGE_SIZE) ` free_set (vpmm s) \<and> (\<forall>q. q \<noteq> d \<longrightarrow> ram s' q = ram s q)
    \<and> (\<forall>js. upath js \<longrightarrow> pte (look (ram s')) d js = None) \<and> cr3 s' = cr3 s \<and> total_pages (vpmm s') = total_pages (vpmm s)
    \<and> ram s' d = Some t \<and> drop (ENTRIES div 2) t = drop (ENTRIES div 2) k
    \<and> card (free_set (vpmm s)) = card (free_set (vpmm s')) + 1"
proof -
  have pm: "pmm_inv (vpmm s)" using inv by (simp add: vm_inv_def)
  obtain g p where g: "alloc_page (vpmm s) = (g * PAGE_SIZE, p)" "g \<in> free_set (vpmm s)" "free_set p = free_set (vpmm s) - {g}"
    "pmm_inv p" "total_pages p = total_pages (vpmm s)" using alloc_page_free [OF pm mem] .
  let ?d = "g * PAGE_SIZE" and ?t = "replicate (ENTRIES div 2) 0 @ drop (ENTRIES div 2) k"
  define s' where "s' = s\<lparr>vpmm := p, ram := (ram s)(?d \<mapsto> ?t)\<rparr>"
  from free_frame [OF inv g(2)] obtain z where z: "ram s ?d = Some z" by (auto simp: page_ok_def)
  have new: "new_address_space s = Some (s', ?d)"
    using g(1) cur(1) z by (simp add: new_address_space_def put_page_def s'_def)
  have lt: "length ?t = ENTRIES" using cur(2) by (simp add: ENTRIES_def)
  note tk = take_free_ok [OF inv g(2-5) lt s'_def]
  have none: "look (ram s') ?d i = None" if "i < ENTRIES div 2" for i
    using that by (simp add: s'_def look_def nth_append present_bit)
  have pn: "pte (look (ram s')) ?d js = None" if "upath js" for js
    using none that by (cases js) (auto simp: upath_def)
  have nn: "node (look (ram s')) ?d js = (if js = [] then Some ?d else None)" if "upath js" for js
    using pn [OF that] by (simp add: node_def)
  have fr: "frames (look (ram s')) ?d = {?d}"
    using nn root_frame [of ?d "look (ram s')"] by (auto simp: frames_def split: if_splits)
  have t: "tree (look (ram s')) ?d" using nn by (auto simp: tree_def split: if_splits)
  have inv': "vm_inv s' (insert ?d A)"
    using tk(1-4) fr t unfolding vm_inv_def by auto
  have "?d \<notin> A" using tk(3) root_frame by blast
  moreover have "region s' ?d = (\<lambda>p. p * PAGE_SIZE) ` free_set (vpmm s)"
    using fr g(2,3) by (auto simp: region_def s'_def)
  moreover have "card (free_set (vpmm s)) = card (free_set (vpmm s')) + 1"
    using g(2,3) card_Suc_Diff1 [of "free_set (vpmm s)" g] by (simp add: s'_def)
  moreover have "drop (ENTRIES div 2) ?t = drop (ENTRIES div 2) k" by simp
  ultimately show ?thesis using new inv' pn g(2,5) by (intro exI [of _ s'] exI [of _ ?d] exI [of _ ?t]) (auto simp: s'_def)
qed

section \<open>Loops over tables\<close>

definition ext :: "nat list \<Rightarrow> nat list set" where
  "ext ps = {js. upath js \<and> (\<exists>ks. js = ps @ ks)}"

lemma ext_step:
  assumes "upath ps" "length ps < 4" "n = (if ps = [] then ENTRIES div 2 else ENTRIES)"
  shows "ext ps = insert ps (\<Union>i \<in> {0..<n}. ext (ps @ [i]))"
proof (intro equalityI subsetI)
  fix js assume "js \<in> ext ps"
  then obtain ks where k: "js = ps @ ks" "upath js" by (auto simp: ext_def)
  show "js \<in> insert ps (\<Union>i \<in> {0..<n}. ext (ps @ [i]))"
  proof (cases ks)
    case (Cons i rs)
    have "i < n" using k Cons assms(3) by (cases ps) (auto simp: upath_def)
    then show ?thesis using k Cons by (auto simp: ext_def)
  qed (use k in simp)
next
  fix js assume "js \<in> insert ps (\<Union>i \<in> {0..<n}. ext (ps @ [i]))"
  then show "js \<in> ext ps" using assms(1) by (auto simp: ext_def)
qed

lemma ext_disjoint: "i \<noteq> j \<Longrightarrow> ext (ps @ [i]) \<inter> ext (ps @ [j]) = {}" "ps \<notin> ext (ps @ [i])"
  by (auto simp: ext_def)

lemma ext_sub: "ext (ps @ [i]) \<subseteq> ext ps"
  by (auto simp: ext_def)

lemma ext_leaf: "upath ps \<Longrightarrow> length ps = 4 \<Longrightarrow> ext ps = {ps}"
  by (auto simp: ext_def upath_def)

lemma for_present_rule:
  assumes "I D s" "distinct is" "\<And>i. i \<in> set is \<Longrightarrow> D \<inter> E i = {}" "\<And>i j. i \<in> set is \<Longrightarrow> j \<in> set is \<Longrightarrow> i \<noteq> j \<Longrightarrow> E i \<inter> E j = {}"
    and tab: "\<And>D s. I D s \<Longrightarrow> ram s q \<noteq> None \<and> look (ram s) q = l"
    and skip: "\<And>i D s. i \<in> set is \<Longrightarrow> l i = None \<Longrightarrow> I D s \<Longrightarrow> I (D \<union> E i) s"
    and step: "\<And>i e D s. i \<in> set is \<Longrightarrow> l i = Some e \<Longrightarrow> I D s \<Longrightarrow> D \<inter> E i = {} \<Longrightarrow> \<exists>s'. body i e s = Some (True, s') \<and> I (D \<union> E i) s'"
  shows "\<exists>s'. for_present body q is s = Some (True, s') \<and> I (D \<union> (\<Union>i \<in> set is. E i)) s'"
  using assms(1-4) skip step
proof (induction "is" arbitrary: D s)
  case (Cons i "is")
  obtain t where t: "ram s q = Some t" "look (ram s) q i = l i" using tab [OF Cons.prems(1)] by auto
  have rest: "\<exists>s'. for_present body q is s1 = Some (True, s') \<and> I (D \<union> E i \<union> (\<Union>i \<in> set is. E i)) s'" if "I (D \<union> E i) s1" for s1
  proof (rule Cons.IH [OF that])
    fix j assume j: "j \<in> set is"
    then have "j \<noteq> i" using Cons.prems(2) by auto
    then show "(D \<union> E i) \<inter> E j = {}" using Cons.prems(3) [of j] Cons.prems(4) [of i j] j by auto
  qed (use Cons.prems in auto)
  show ?case
  proof (cases "l i")
    case None
    then have "\<not> present (t ! i)" using t by (simp add: look_def split: if_splits)
    with t rest [of s] Cons.prems(5) [OF _ None Cons.prems(1)] show ?thesis by (simp add: Un_assoc)
  next
    case (Some e)
    then have p: "present (t ! i)" "e = t ! i" using t by (auto simp: look_def split: if_splits)
    from Cons.prems(6) [OF _ Some Cons.prems(1)] Cons.prems(3) obtain s1 where "body i e s = Some (True, s1)" "I (D \<union> E i) s1" by auto
    with t p rest [of s1] show ?thesis by (simp add: Un_assoc)
  qed
qed simp

text \<open>
  A walk through every table of the space \<open>a\<close> that leaves those tables alone: \<open>I D\<close> holds once the paths
  in \<open>D\<close> have been dealt with, and paths that lead nowhere need no dealing with.
\<close>

locale table_walk =
  fixes L :: tables and a :: nat and I :: "nat list set \<Rightarrow> vm \<Rightarrow> bool"
  assumes tables_stay: "I D s \<Longrightarrow> upath ps \<Longrightarrow> node L a ps = Some q \<Longrightarrow> ram s q \<noteq> None \<and> look (ram s) q = L q"
    and nothing_there: "I D s \<Longrightarrow> (\<And>js. js \<in> X \<Longrightarrow> node L a js = None) \<Longrightarrow> I (D \<union> X) s"
begin

lemma level:
  assumes ps: "upath ps" "length ps < 4" "node L a ps = Some q" and N: "n = (if ps = [] then ENTRIES div 2 else ENTRIES)"
    and I: "I D s" "D \<inter> ext ps = {}"
    and step: "\<And>i e D s. upath (ps @ [i]) \<Longrightarrow> L q i = Some e \<Longrightarrow> node L a (ps @ [i]) = Some (addr e) \<Longrightarrow> I D s \<Longrightarrow>
      D \<inter> ext (ps @ [i]) = {} \<Longrightarrow> \<exists>s'. body i e s = Some (True, s') \<and> I (D \<union> ext (ps @ [i])) s'"
  shows "\<exists>s'. for_present body q [0..<n] s = Some (True, s') \<and> I (D \<union> (ext ps - {ps})) s'"
proof -
  have "\<exists>s'. for_present body q [0..<n] s = Some (True, s') \<and> I (D \<union> (\<Union>i \<in> set [0..<n]. ext (ps @ [i]))) s'"
  proof (rule for_present_rule [where l = "L q" and I = I and D = D and s = s, OF I(1)])
    fix i D s assume i: "i \<in> set [0..<n]"
    have u: "upath (ps @ [i])" using ps(1,2) i N by (cases ps) (auto simp: upath_def ENTRIES_def)
    show "I (D \<union> ext (ps @ [i])) s" if "L q i = None" "I D s"
    proof (rule nothing_there [OF that(2)])
      fix js assume "js \<in> ext (ps @ [i])"
      then obtain ks where "js = (ps @ [i]) @ ks" by (auto simp: ext_def)
      moreover have "node L a (ps @ [i]) = None" using ps(3) that(1) by (simp add: node_snoc)
      ultimately show "node L a js = None" by (simp only: node_append) simp
    qed
    show "\<exists>s'. body i e s = Some (True, s') \<and> I (D \<union> ext (ps @ [i])) s'" if "L q i = Some e" "I D s" "D \<inter> ext (ps @ [i]) = {}" for e
      using step [OF u that(1) _ that(2,3)] ps(3) that(1) by (simp add: node_snoc)
  next
    show "D \<inter> ext (ps @ [i]) = {}" for i using I(2) ext_sub [of ps i] by blast
    show "ram s q \<noteq> None \<and> look (ram s) q = L q" if "I D s" for D s by (rule tables_stay [OF that ps(1,3)])
  qed (use ext_disjoint(1) in auto)
  moreover have "(\<Union>i \<in> set [0..<n]. ext (ps @ [i])) = ext ps - {ps}"
    using ext_step [OF ps(1,2) N] ext_disjoint(2) [of ps] by auto
  ultimately show ?thesis by simp
qed

end

section \<open>Freeing a space\<close>

definition freed :: "vm \<Rightarrow> nat set \<Rightarrow> nat \<Rightarrow> nat list set \<Rightarrow> vm \<Rightarrow> bool" where
  "freed s0 A a D s \<longleftrightarrow> vm_inv s0 A \<and> a \<in> A \<and> ram s = ram s0 \<and> cr3 s = cr3 s0 \<and> pmm_inv (vpmm s) \<and> total_pages (vpmm s) = total_pages (vpmm s0)
     \<and> free_set (vpmm s) = free_set (vpmm s0) \<union> {p. \<exists>js \<in> D. upath js \<and> node (look (ram s0)) a js = Some (p * PAGE_SIZE)}"

lemma freed_inv: "freed s0 A a D s \<Longrightarrow> upath js \<Longrightarrow> node (look (ram s0)) a js = Some q \<Longrightarrow> owned s0 q"
  using vm_invD(3) [of s0 A a q] framesI [of js "look (ram s0)" a q] by (auto simp: freed_def)

interpretation freeing: table_walk "look (ram s0)" a "freed s0 A a" for s0 A a
proof
  fix D s ps q X
  show "ram s q \<noteq> None \<and> look (ram s) q = look (ram s0) q"
    if "freed s0 A a D s" "upath ps" "node (look (ram s0)) a ps = Some q"
    using freed_inv [OF that] that(1) by (auto simp: freed_def owned_def page_ok_def)
  show "freed s0 A a (D \<union> X) s" if "freed s0 A a D s" "\<And>js. js \<in> X \<Longrightarrow> node (look (ram s0)) a js = None"
    using that by (fastforce simp: freed_def)
qed

lemma release_ok:
  assumes "freed s0 A a D s" "upath js" "node (look (ram s0)) a js = Some q"
  shows "freed s0 A a (insert js D) (release_page q s)"
proof -
  from freed_inv [OF assms] obtain p where p: "q = p * PAGE_SIZE" "0 < p" "p < total_pages (vpmm s0)" by (auto simp: owned_def)
  have "total_pages (free_page (vpmm s) q) = total_pages (vpmm s)" by (simp add: free_page_def Let_def)
  moreover have "{r. \<exists>js' \<in> insert js D. upath js' \<and> node (look (ram s0)) a js' = Some (r * PAGE_SIZE)}
      = insert p {r. \<exists>js' \<in> D. upath js' \<and> node (look (ram s0)) a js' = Some (r * PAGE_SIZE)}"
    using assms(2,3) p(1) by (auto simp: PAGE_SIZE_def)
  ultimately show ?thesis
    using assms(1) free_page_release [of "vpmm s" p] p unfolding freed_def by (simp add: release_page_def)
qed

text \<open>A procedure that frees everything below any path of a given length.\<close>

definition frees :: "vm \<Rightarrow> nat set \<Rightarrow> nat \<Rightarrow> nat \<Rightarrow> (nat \<Rightarrow> vm \<Rightarrow> (bool \<times> vm) option) \<Rightarrow> bool" where
  "frees s0 A a n F \<longleftrightarrow> (\<forall>ps q D s. length ps = n \<longrightarrow> upath ps \<longrightarrow> node (look (ram s0)) a ps = Some q \<longrightarrow> freed s0 A a D s \<longrightarrow>
     D \<inter> ext ps = {} \<longrightarrow> (\<exists>s'. F q s = Some (True, s') \<and> freed s0 A a (D \<union> ext ps) s'))"

lemma frees_page: "n = 4 \<Longrightarrow> frees s0 A a n (\<lambda>page s. Some (True, release_page page s))"
  unfolding frees_def using release_ok by (simp add: ext_leaf)

lemma frees_table:
  assumes F: "frees s0 A a (Suc n) F" and n: "n < 4" "m = (if n = 0 then ENTRIES div 2 else ENTRIES)"
  shows "frees s0 A a n (free_table F [0..<m])"
  unfolding frees_def
proof (intro allI impI)
  fix ps q D s
  assume ps: "length ps = n" "upath ps" "node (look (ram s0)) a ps = Some q" and D: "freed s0 A a D s" "D \<inter> ext ps = {}"
  have m: "m = (if ps = [] then ENTRIES div 2 else ENTRIES)" using n(2) ps(1) by auto
  have "\<exists>s'. for_present (\<lambda>i e. F (addr e)) q [0..<m] s = Some (True, s') \<and> freed s0 A a (D \<union> (ext ps - {ps})) s'"
    by (rule freeing.level [OF ps(2) _ ps(3) m D]) (use ps(1) n(1) F in \<open>auto simp: frees_def\<close>)
  then obtain s1 where s1: "for_present (\<lambda>i e. F (addr e)) q [0..<m] s = Some (True, s1)" "freed s0 A a (D \<union> (ext ps - {ps})) s1" by blast
  have "insert ps (D \<union> (ext ps - {ps})) = D \<union> ext ps" using ps(2) by (auto simp: ext_def)
  with release_ok [OF s1(2) ps(2,3)] s1(1) show "\<exists>s'. free_table F [0..<m] q s = Some (True, s') \<and> freed s0 A a (D \<union> ext ps) s'"
    by (auto simp: free_table_def)
qed

lemma free_user_pages_ok:
  assumes inv: "vm_inv s A" and a: "a \<in> A"
  shows "\<exists>s'. free_user_pages s a = Some s' \<and> vm_inv s' (A - {a}) \<and> ram s' = ram s \<and> cr3 s' = cr3 s
    \<and> total_pages (vpmm s') = total_pages (vpmm s) \<and> (\<lambda>p. p * PAGE_SIZE) ` free_set (vpmm s') = region s a"
proof -
  have "frees s A a 0 (free_table (free_table (free_table (free_table (\<lambda>page s. Some (True, release_page page s))
      [0..<ENTRIES]) [0..<ENTRIES]) [0..<ENTRIES]) [0..<ENTRIES div 2])"
    by (rule frees_table, rule frees_table, rule frees_table, rule frees_table)
      (simp_all add: frees_page)
  moreover have "freed s A a {} s" using assms by (simp add: freed_def vm_inv_def)
  ultimately obtain s' where s': "free_table (free_table (free_table (free_table (\<lambda>page s. Some (True, release_page page s))
      [0..<ENTRIES]) [0..<ENTRIES]) [0..<ENTRIES]) [0..<ENTRIES div 2] a s = Some (True, s')" "freed s A a (ext []) s'"
    unfolding frees_def by (metis Int_empty_left Un_empty_left list.size(3) node_Nil upath_Nil)
  let ?F = "frames (look (ram s)) a"
  have fs: "free_set (vpmm s') = free_set (vpmm s) \<union> {p. p * PAGE_SIZE \<in> ?F}"
    using s'(2) by (auto simp: freed_def ext_def frames_def)
  have "\<exists>p. f = p * PAGE_SIZE \<and> p * PAGE_SIZE \<in> ?F" if "f \<in> ?F" for f
    using vm_invD(3) [OF inv a that] that by (auto simp: owned_def)
  then have reg: "(\<lambda>p. p * PAGE_SIZE) ` free_set (vpmm s') = region s a"
    unfolding fs region_def by (auto simp: image_Un)
  have own: "owned s' f" if "b \<in> A" "b \<noteq> a" "f \<in> frames (look (ram s)) b" for b f
  proof -
    have "f \<notin> ?F" using vm_invD(4) [OF inv that(1) a] that(2,3) by auto
    then show ?thesis using vm_invD(3) [OF inv that(1,3)] s'(2) fs by (auto simp: owned_def freed_def)
  qed
  have "page_ok (ram s) (p * PAGE_SIZE)" if "p * PAGE_SIZE \<in> ?F" for p
    using vm_invD(3) [OF inv a that] by (simp add: owned_def)
  then have "vm_inv s' (A - {a})"
    using inv s'(2) own fs unfolding vm_inv_def freed_def by auto
  with s' reg show ?thesis by (auto simp: free_user_pages_def freed_def)
qed

section \<open>Copying a space\<close>

lemma pte_present: "pte (look m) a js = Some e \<Longrightarrow> present e"
  by (induction js arbitrary: a) (auto simp: look_def split: option.splits if_splits)

definition leaves :: "tables \<Rightarrow> nat \<Rightarrow> nat list set" where
  "leaves L a = {js. upath js \<and> length js = 4 \<and> pte L a js \<noteq> None}"

lemma finite_leaves [simp]: "finite (leaves L a)"
proof -
  have "leaves L a \<subseteq> {js. set js \<subseteq> {..<ENTRIES} \<and> length js = 4}" by (auto simp: leaves_def upath_def)
  then show ?thesis using finite_lists_length_eq [of "{..<ENTRIES}" 4] by (auto intro: finite_subset)
qed

definition copied :: "vm \<Rightarrow> nat \<Rightarrow> vm \<Rightarrow> nat \<Rightarrow> nat list \<Rightarrow> bool" where
  "copied s0 src s dst js = (case pte (look (ram s0)) src js of
     None \<Rightarrow> pte (look (ram s)) dst js = None
   | Some e \<Rightarrow> \<exists>x. frame x \<and> pte (look (ram s)) dst js = Some (of_nat x OR (e AND 0xFFF)) \<and> ram s x = ram s0 (addr e))"

definition cloned :: "vm \<Rightarrow> nat set \<Rightarrow> nat \<Rightarrow> nat \<Rightarrow> nat list set \<Rightarrow> vm \<Rightarrow> bool" where
  "cloned s0 A src dst D s \<longleftrightarrow> vm_inv s0 A \<and> src \<in> A \<and> dst \<in> A \<and> src \<noteq> dst \<and> vm_inv s A
     \<and> (\<forall>q. q \<notin> region s0 dst \<longrightarrow> ram s q = ram s0 q) \<and> region s dst = region s0 dst
     \<and> total_pages (vpmm s) = total_pages (vpmm s0) \<and> cr3 s = cr3 s0
     \<and> (\<forall>js. upath js \<longrightarrow> length js = 4 \<longrightarrow> (if js \<in> D then copied s0 src s dst js else pte (look (ram s)) dst js = None))
     \<and> 4 * card (leaves (look (ram s0)) src - D) \<le> card (free_set (vpmm s))"

lemma cloned_src:
  assumes "cloned s0 A src dst D s" "upath ps" "node (look (ram s0)) src ps = Some q"
  shows "ram s q = ram s0 q" "owned s0 q"
proof -
  have q: "q \<in> frames (look (ram s0)) src" using framesI [OF assms(2,3)] .
  have "q \<notin> region s0 dst" using other_region [of s0 A dst src q] assms(1) q by (auto simp: cloned_def)
  then show "ram s q = ram s0 q" using assms(1) by (simp add: cloned_def)
  show "owned s0 q" using vm_invD(3) [of s0 A src q] assms(1) q by (simp add: cloned_def)
qed

interpretation cloning: table_walk "look (ram s0)" src "cloned s0 A src dst" for s0 A src dst
proof
  fix D s ps q X
  show "ram s q \<noteq> None \<and> look (ram s) q = look (ram s0) q"
    if "cloned s0 A src dst D s" "upath ps" "node (look (ram s0)) src ps = Some q"
    using cloned_src [OF that] by (auto simp: owned_def page_ok_def look_def fun_eq_iff)
  show "cloned s0 A src dst (D \<union> X) s" if c: "cloned s0 A src dst D s" and X: "\<And>js. js \<in> X \<Longrightarrow> node (look (ram s0)) src js = None"
  proof -
    have "pte (look (ram s0)) src js = None" if "js \<in> X" "length js = 4" for js
      using X [OF that(1)] that(2) by (auto simp: node_def split: if_splits)
    then have "if js \<in> D \<union> X then copied s0 src s dst js else pte (look (ram s)) dst js = None" if "upath js" "length js = 4" for js
      using c that unfolding cloned_def copied_def by (auto split: if_splits)
    moreover have "card (leaves (look (ram s0)) src - (D \<union> X)) \<le> card (leaves (look (ram s0)) src - D)"
      by (intro card_mono) auto
    ultimately show ?thesis using c unfolding cloned_def by auto
  qed
qed

text \<open>The address a loop puts together has the indices it was put together from.\<close>

lemma bit_small:
  assumes "i < ENTRIES" "bit (of_nat i :: u64) n"
  shows "n < 9"
proof (rule ccontr)
  assume "\<not> n < 9"
  then have "(2 :: nat) ^ 9 \<le> 2 ^ n" by (intro power_increasing) auto
  then have "i div 2 ^ n = 0" using assms(1) by (simp add: ENTRIES_def)
  then show False using assms(2) unfolding bit_of_nat_iff by (simp add: bit_iff_odd)
qed

lemma index_field:
  assumes "i < ENTRIES" "\<And>n. n < 9 \<Longrightarrow> bit v (n + k) = bit (of_nat i :: u64) n"
  shows "index v k = i"
proof -
  have "take_bit 9 (drop_bit k v) = of_nat i"
    by (rule bit_eqI) (use assms bit_small [OF assms(1)] in \<open>auto simp: bit_take_bit_iff bit_drop_bit_eq add.commute\<close>)
  moreover have "unat (of_nat i :: u64) = i" using assms(1) by (simp add: unat_of_nat ENTRIES_def)
  ultimately show ?thesis by (simp only: index_eq)
qed

lemma bit_virt_of:
  "bit (virt_of i4 i3 i2 i1) m = (m < 64 \<and> (39 \<le> m \<and> bit (of_nat i4 :: u64) (m - 39) \<or> 30 \<le> m \<and> bit (of_nat i3 :: u64) (m - 30)
     \<or> 21 \<le> m \<and> bit (of_nat i2 :: u64) (m - 21) \<or> 12 \<le> m \<and> bit (of_nat i1 :: u64) (m - 12)))"
  by (auto simp: virt_of_def bit_or_iff bit_push_bit_iff)

lemma path_virt_of:
  assumes "i4 < ENTRIES" "i3 < ENTRIES" "i2 < ENTRIES" "i1 < ENTRIES"
  shows "path (virt_of i4 i3 i2 i1) = [i4, i3, i2, i1]"
proof -
  let ?v = "virt_of i4 i3 i2 i1"
  have b: "\<not> bit (of_nat i :: u64) (9 + n)" "\<not> bit (of_nat i :: u64) (18 + n)" "\<not> bit (of_nat i :: u64) (27 + n)" if "i < ENTRIES" for i n
    using bit_small [OF that, of "9 + n"] bit_small [OF that, of "18 + n"] bit_small [OF that, of "27 + n"] by auto
  have "index ?v 39 = i4" by (rule index_field [OF assms(1)]) (simp add: bit_virt_of b assms)
  moreover have "index ?v 30 = i3" by (rule index_field [OF assms(2)]) (simp add: bit_virt_of b assms)
  moreover have "index ?v 21 = i2" by (rule index_field [OF assms(3)]) (simp add: bit_virt_of b assms)
  moreover have "index ?v 12 = i1" by (rule index_field [OF assms(4)]) (simp add: bit_virt_of b assms)
  ultimately show ?thesis by (simp add: path_def)
qed

lemma user_virt_of: "upath [i4, i3, i2, i1] \<Longrightarrow> user_addr (virt_of i4 i3 i2 i1) \<and> path (virt_of i4 i3 i2 i1) = [i4, i3, i2, i1]"
  using path_virt_of [of i4 i3 i2 i1] by (auto simp: upath_def user_addr_def path_def ENTRIES_def)

lemma clone_leaf_ok:
  assumes c: "cloned s0 A src dst D s" and js: "upath js" "length js = 4" "pte (look (ram s0)) src js = Some e" "js \<notin> D"
    and v: "user_addr virt" "path virt = js"
  shows "\<exists>s'. clone_leaf dst virt e s = Some (True, s') \<and> cloned s0 A src dst (insert js D) s'"
proof -
  have inv: "vm_inv s A" and A: "dst \<in> A" "src \<noteq> dst" and mem: "4 * card (leaves (look (ram s0)) src - D) \<le> card (free_set (vpmm s))"
    and reg: "region s dst = region s0 dst" and inv0: "vm_inv s0 A" "src \<in> A"
    using c by (auto simp: cloned_def)
  have lf: "js \<in> leaves (look (ram s0)) src - D" using js by (simp add: leaves_def)
  then have "0 < card (leaves (look (ram s0)) src - D)" by (auto simp: card_gt_0_iff)
  with mem have mem4: "4 \<le> card (free_set (vpmm s))" by linarith
  have pm: "pmm_inv (vpmm s)" using inv by (simp add: vm_inv_def)
  have ne: "free_set (vpmm s) \<noteq> {}" using mem4 by auto
  obtain g p where g: "alloc_page (vpmm s) = (g * PAGE_SIZE, p)" "g \<in> free_set (vpmm s)" "free_set p = free_set (vpmm s) - {g}"
    "pmm_inv p" "total_pages p = total_pages (vpmm s)" using alloc_page_free [OF pm ne] .
  let ?x = "g * PAGE_SIZE"
  have nd: "node (look (ram s0)) src js = Some (addr e)" using js(2,3) by (auto simp: node_def)
  note sr = cloned_src [OF c js(1) nd]
  from sr obtain t where t: "ram s (addr e) = Some t" "ram s0 (addr e) = Some t" "length t = ENTRIES" by (auto simp: owned_def page_ok_def)
  define s1 where "s1 = s\<lparr>vpmm := p, ram := (ram s)(?x \<mapsto> t)\<rparr>"
  note tk = take_free_ok [OF inv g(2-5) t(3) s1_def]
  from free_frame [OF inv g(2)] obtain z where z: "ram s ?x = Some z" and fx: "frame ?x" and x0: "?x \<noteq> 0" by (auto simp: page_ok_def PAGE_SIZE_def)
  have card1: "card (free_set (vpmm s)) = card (free_set (vpmm s1)) + 1"
    using g(2,3) card_Suc_Diff1 [of "free_set (vpmm s)" g] by (simp add: s1_def)
  have fl: "(e AND 0xFFF) AND PAGE_ADDR_MASK = 0" "bit (e AND 0xFFF) 0"
    using pte_present [OF js(3)] by (simp_all add: PAGE_ADDR_MASK_def and.assoc bit_and_iff present_bit)
  have xf: "?x \<notin> frames (look (ram s1)) b" if "b \<in> A" for b using tk(3,4) that by simp
  obtain s2 where s2: "vmap s1 dst virt (of_nat ?x) (e AND 0xFFF) = Some s2" "vm_inv s2 A"
    "\<forall>q. q \<notin> region s1 dst \<longrightarrow> ram s2 q = ram s1 q"
    "pte (look (ram s1)) dst (path virt) = None \<longrightarrow> region s2 dst = insert ?x (region s1 dst)"
    "total_pages (vpmm s2) = total_pages (vpmm s1)" "cr3 s2 = cr3 s1"
    "\<forall>js. upath js \<longrightarrow> length js = 4 \<longrightarrow>
        pte (look (ram s2)) dst js = (if js = path virt then Some (of_nat ?x OR (e AND 0xFFF)) else pte (look (ram s1)) dst js)
        \<and> (\<forall>q. node (look (ram s1)) dst js = Some q \<longrightarrow> ram s2 q = ram s1 q)"
    "card (free_set (vpmm s1)) \<le> card (free_set (vpmm s2)) + 3"
    using vmap_ok [OF tk(1) A(1) v(1) _ tk(2) xf fl] mem4 card1 by auto
  have run: "clone_leaf dst virt e s = Some (True, s2)"
    using g(1) x0 t(1) z s2(1) by (simp add: clone_leaf_def put_page_def s1_def)
  have none: "pte (look (ram s)) dst js = None" using c js(1,2,4) by (simp add: cloned_def)
  have xr: "?x \<in> region s dst" "?x \<notin> region s1 dst" using g(2) tk(5) [OF A(1)] by (auto simp: region_def)
  have reg2: "region s2 dst = region s0 dst"
    using s2(4) none tk(5,6) [OF A(1)] js(1) v(2) xr reg by auto
  have out: "ram s2 q = ram s0 q" if "q \<notin> region s0 dst" for q
    using that s2(3) tk(5) [OF A(1)] reg xr(1) c by (auto simp: s1_def cloned_def)
  have x2: "ram s2 ?x = Some t" using s2(3) xr(2) by (simp add: s1_def)
  have cop: "if ks \<in> insert js D then copied s0 src s2 dst ks else pte (look (ram s2)) dst ks = None" if ks: "upath ks" "length ks = 4" for ks
  proof (cases "ks = js")
    case True
    then show ?thesis using s2(7) ks v(2) js(3) fx x2 t(2) by (auto simp: copied_def)
  next
    case False
    have p2: "pte (look (ram s2)) dst ks = pte (look (ram s)) dst ks" using s2(7) ks False v(2) tk(6) [OF A(1) ks(1)] by simp
    have m2: "ram s2 q = ram s q" if "node (look (ram s)) dst ks = Some q" for q
    proof -
      have "q \<noteq> ?x" using framesI [OF ks(1) that] tk(3) [OF A(1)] by blast
      then show ?thesis using s2(7) ks tk(7) [OF A(1) ks(1)] that by (simp add: s1_def)
    qed
    have "copied s0 src s2 dst ks" if cs: "copied s0 src s dst ks"
    proof (cases "pte (look (ram s0)) src ks")
      case (Some e')
      with cs obtain x where x: "frame x" "pte (look (ram s)) dst ks = Some (of_nat x OR (e' AND 0xFFF))" "ram s x = ram s0 (addr e')"
        by (auto simp: copied_def)
      have "(e' AND 0xFFF) AND PAGE_ADDR_MASK = 0" by (simp add: PAGE_ADDR_MASK_def and.assoc)
      then have "node (look (ram s)) dst ks = Some x" using x(1,2) addr_mk(1) [of x] ks(2) by (auto simp: node_def)
      then show ?thesis using Some x p2 m2 by (auto simp: copied_def)
    qed (use cs p2 in \<open>simp add: copied_def\<close>)
    then show ?thesis using c ks False p2 unfolding cloned_def by auto
  qed
  have "card (leaves (look (ram s0)) src - D) = card (leaves (look (ram s0)) src - insert js D) + 1"
  proof -
    have "leaves (look (ram s0)) src - insert js D = (leaves (look (ram s0)) src - D) - {js}" by auto
    then show ?thesis using lf card_Suc_Diff1 [of "leaves (look (ram s0)) src - D" js] by simp
  qed
  then have "4 * card (leaves (look (ram s0)) src - insert js D) \<le> card (free_set (vpmm s2))"
    using mem card1 s2(8) by linarith
  then have "cloned s0 A src dst (insert js D) s2"
    using c s2(2,5,6) out reg2 cop g(5) unfolding cloned_def by (auto simp: s1_def)
  with run show ?thesis by blast
qed

lemma cloned_short:
  assumes "cloned s0 A src dst D s" "length ps \<noteq> 4"
  shows "cloned s0 A src dst (insert ps D) s"
proof -
  have "leaves (look (ram s0)) src - insert ps D = leaves (look (ram s0)) src - D" using assms(2) by (auto simp: leaves_def)
  then show ?thesis using assms unfolding cloned_def by auto
qed

text \<open>A procedure that copies everything below one path.\<close>

definition clones :: "vm \<Rightarrow> nat set \<Rightarrow> nat \<Rightarrow> nat \<Rightarrow> nat list \<Rightarrow> (vm \<Rightarrow> (bool \<times> vm) option) \<Rightarrow> bool" where
  "clones s0 A src dst ps F \<longleftrightarrow> (\<forall>D s. cloned s0 A src dst D s \<longrightarrow> D \<inter> ext ps = {} \<longrightarrow>
     (\<exists>s'. F s = Some (True, s') \<and> cloned s0 A src dst (D \<union> ext ps) s'))"

lemma clones_level:
  assumes ps: "upath ps" "length ps < 4" "node (look (ram s0)) src ps = Some q" "n = (if ps = [] then ENTRIES div 2 else ENTRIES)"
    and F: "\<And>i e. upath (ps @ [i]) \<Longrightarrow> pte (look (ram s0)) src (ps @ [i]) = Some e \<Longrightarrow> node (look (ram s0)) src (ps @ [i]) = Some (addr e) \<Longrightarrow>
      clones s0 A src dst (ps @ [i]) (F i e)"
  shows "clones s0 A src dst ps (for_present F q [0..<n])"
  unfolding clones_def
proof (intro allI impI)
  fix D s assume D: "cloned s0 A src dst D s" "D \<inter> ext ps = {}"
  have "\<exists>s'. for_present F q [0..<n] s = Some (True, s') \<and> cloned s0 A src dst (D \<union> (ext ps - {ps})) s'"
    by (rule cloning.level [OF ps D]) (use F ps(3) in \<open>auto simp: clones_def pte_snoc\<close>)
  then obtain s' where s': "for_present F q [0..<n] s = Some (True, s')" "cloned s0 A src dst (D \<union> (ext ps - {ps})) s'" by blast
  have "insert ps (D \<union> (ext ps - {ps})) = D \<union> ext ps" using ps(1) by (auto simp: ext_def)
  with s' cloned_short [OF s'(2), of ps] ps(2) show "\<exists>s'. for_present F q [0..<n] s = Some (True, s') \<and> cloned s0 A src dst (D \<union> ext ps) s'"
    by auto
qed

lemma clones_leaf:
  assumes "upath [i4, i3, i2, i1]" "pte (look (ram s0)) src [i4, i3, i2, i1] = Some e"
  shows "clones s0 A src dst [i4, i3, i2, i1] (clone_leaf dst (virt_of i4 i3 i2 i1) e)"
  unfolding clones_def
proof (intro allI impI)
  fix D s assume D: "cloned s0 A src dst D s" "D \<inter> ext [i4, i3, i2, i1] = {}"
  have x: "ext [i4, i3, i2, i1] = {[i4, i3, i2, i1]}" using ext_leaf [OF assms(1)] by simp
  then have "[i4, i3, i2, i1] \<notin> D" using D(2) by auto
  from clone_leaf_ok [OF D(1) assms(1) _ assms(2) this] user_virt_of [OF assms(1)]
  show "\<exists>s'. clone_leaf dst (virt_of i4 i3 i2 i1) e s = Some (True, s') \<and> cloned s0 A src dst (D \<union> ext [i4, i3, i2, i1]) s'"
    using x by simp
qed

lemma clone_user_pages_ok:
  assumes "vm_inv s A" "src \<in> A" "dst \<in> A" "src \<noteq> dst" "\<And>js. upath js \<Longrightarrow> length js = 4 \<Longrightarrow> pte (look (ram s)) dst js = None"
    "4 * card (leaves (look (ram s)) src) \<le> card (free_set (vpmm s))"
  shows "\<exists>s'. clone_user_pages s dst src = Some (True, s') \<and> cloned s A src dst (ext []) s'"
proof -
  let ?L = "look (ram s)"
  have "clones s A src dst [] (for_present (\<lambda>i4 e4. for_present (\<lambda>i3 e3. for_present (\<lambda>i2 e2. for_present (\<lambda>i1 e1. clone_leaf dst (virt_of i4 i3 i2 i1) e1)
       (addr e2) [0..<ENTRIES]) (addr e3) [0..<ENTRIES]) (addr e4) [0..<ENTRIES]) src [0..<ENTRIES div 2])"
  proof (rule clones_level; (simp only: append_Nil append_Cons)?)
    fix i4 e4 assume 4: "upath [i4]" "node ?L src [i4] = Some (addr e4)"
    show "clones s A src dst [i4] (for_present (\<lambda>i3 e3. for_present (\<lambda>i2 e2. for_present (\<lambda>i1 e1. clone_leaf dst (virt_of i4 i3 i2 i1) e1)
       (addr e2) [0..<ENTRIES]) (addr e3) [0..<ENTRIES]) (addr e4) [0..<ENTRIES])"
    proof (rule clones_level [OF 4(1) _ 4(2)]; (simp only: append_Nil append_Cons)?)
      fix i3 e3 assume 3: "upath [i4, i3]" "node ?L src [i4, i3] = Some (addr e3)"
      show "clones s A src dst [i4, i3] (for_present (\<lambda>i2 e2. for_present (\<lambda>i1 e1. clone_leaf dst (virt_of i4 i3 i2 i1) e1)
        (addr e2) [0..<ENTRIES]) (addr e3) [0..<ENTRIES])"
      proof (rule clones_level [OF 3(1) _ 3(2)]; (simp only: append_Nil append_Cons)?)
        fix i2 e2 assume 2: "upath [i4, i3, i2]" "node ?L src [i4, i3, i2] = Some (addr e2)"
        show "clones s A src dst [i4, i3, i2] (for_present (\<lambda>i1 e1. clone_leaf dst (virt_of i4 i3 i2 i1) e1) (addr e2) [0..<ENTRIES])"
          by (rule clones_level [OF 2(1) _ 2(2)]; (simp only: append_Nil append_Cons)?) (auto intro: clones_leaf)
      qed auto
    qed auto
  qed auto
  moreover have "cloned s A src dst {} s" using assms by (simp add: cloned_def)
  ultimately show ?thesis unfolding clones_def clone_user_pages_def user_leaves_def by fastforce
qed

section \<open>Properties\<close>

text \<open>What a program sees: the entry that translates an address, and the page behind it.\<close>

definition translate :: "vm \<Rightarrow> nat \<Rightarrow> u64 \<Rightarrow> u64 option" where
  "translate s a v = pte (look (ram s)) a (path v)"

definition page_at :: "vm \<Rightarrow> nat \<Rightarrow> u64 \<Rightarrow> u64 list option" where
  "page_at s a v = (case translate s a v of None \<Rightarrow> None | Some e \<Rightarrow> ram s (addr e))"

lemma node_path: "node (look (ram s)) a (path v) = map_option addr (translate s a v)"
  by (auto simp: node_def translate_def path_def)

lemma page_at_cong:
  assumes "translate s' a v = translate s a v" "\<And>q. node (look (ram s)) a (path v) = Some q \<Longrightarrow> ram s' q = ram s q"
  shows "page_at s' a v = page_at s a v"
  using assms by (auto simp: page_at_def node_path split: option.split)

lemma page_at_other:
  assumes "vm_inv s A" "a \<in> A" "b \<in> A" "a \<noteq> b" "user_addr v" "\<And>q. q \<notin> region s a \<Longrightarrow> ram s' q = ram s q"
  shows "translate s' b v = translate s b v" "page_at s' b v = page_at s b v"
proof -
  show t: "translate s' b v = translate s b v"
    using other_kept(3) [OF assms(1-4,6) upath_path(1) [OF assms(5)]] by (simp add: translate_def)
  show "page_at s' b v = page_at s b v"
    by (rule page_at_cong [OF t]) (use other_region [OF assms(1-4) framesI [OF upath_path(1) [OF assms(5)]]] assms(6) in blast)
qed

text \<open>Sixteen pages, half of them free, and one empty address space at page 3.\<close>

definition demo_vm :: vm where
  "demo_vm = \<lparr>ram = (\<lambda>q. if q mod PAGE_SIZE = 0 \<and> q < 16 * PAGE_SIZE then Some (replicate ENTRIES 0) else None),
     vpmm = \<lparr>bitmap = [0xFF, 0], total_pages = 16, free_pages = 8, cursor = 0\<rparr>, cr3 = 2 * PAGE_SIZE, next_mmio = 0xffffff8000000000\<rparr>"

lemma demo_free: "free_set (vpmm demo_vm) = {8..<16}"
proof -
  have "pmm_test (vpmm demo_vm) p = (p < 8)" if "p < 16" for p
  proof (cases "p < 8")
    case True
    then have "bit (0xFF :: u8) p" by (simp only: bit_all_ones_u8)
    with True show ?thesis by (simp add: demo_vm_def pmm_test_bit)
  qed (use that in \<open>simp add: demo_vm_def pmm_test_bit le_div_geq\<close>)
  then show ?thesis by (auto simp: free_set_def demo_vm_def)
qed

lemma demo_pmm_ok: "pmm_inv (vpmm demo_vm)"
  using demo_free by (simp add: pmm_inv_def pmm_wf_def) (simp add: demo_vm_def)

lemma demo_look: "i < ENTRIES \<Longrightarrow> look (ram demo_vm) q i = None"
  by (simp add: look_def demo_vm_def present_bit)

lemma demo_pte: "upath js \<Longrightarrow> pte (look (ram demo_vm)) a js = None"
  by (cases js) (simp_all add: upath_def demo_look)

lemma demo_frames: "frames (look (ram demo_vm)) a = {a}"
  using demo_pte root_frame [of a "look (ram demo_vm)"] by (auto simp: frames_def node_def)

lemma demo_owned: "0 < p \<Longrightarrow> p < 8 \<Longrightarrow> owned demo_vm (p * PAGE_SIZE)"
  using demo_free by (auto simp: owned_def page_ok_def demo_vm_def PAGE_SIZE_def)

lemma demo_vm_inv: "vm_inv demo_vm {3 * PAGE_SIZE}"
proof -
  have "tree (look (ram demo_vm)) (3 * PAGE_SIZE)" using demo_pte by (auto simp: tree_def node_def split: if_splits)
  moreover have "page_ok (ram demo_vm) (p * PAGE_SIZE)" if "p < 16" for p
    using that by (auto simp: page_ok_def demo_vm_def PAGE_SIZE_def)
  ultimately show ?thesis
    using demo_pmm_ok demo_free demo_frames demo_owned [of 3] unfolding vm_inv_def by (auto simp: demo_vm_def PAGE_SIZE_def)
qed

text \<open>
  C28: mapping a page changes exactly one translation. With three pages left for tables, \<^verbatim>\<open>map\<close> of a page
  the caller owns at a user address returns; that address then translates to the page with the given
  flags, and every other user address of this and of every other address space translates as
  before and still reads the same page contents.
\<close>

theorem vmap_correct:
  assumes "vm_inv s A" "a \<in> A" "user_addr virt" "3 \<le> card (free_set (vpmm s))" "owned s x"
    "\<forall>b \<in> A. x \<notin> frames (look (ram s)) b" "flags AND PAGE_ADDR_MASK = 0" "bit flags 0"
  shows "\<exists>s'. vmap s a virt (of_nat x) flags = Some s' \<and> vm_inv s' A \<and> page_at s' a virt = ram s x
    \<and> (\<forall>b v. b \<in> A \<longrightarrow> user_addr v \<longrightarrow>
        (if b = a \<and> path v = path virt then translate s' b v = Some (of_nat x OR flags)
         else translate s' b v = translate s b v \<and> page_at s' b v = page_at s b v))"
proof -
  obtain s' where s': "vmap s a virt (of_nat x) flags = Some s'" "vm_inv s' A" "\<forall>q. q \<notin> region s a \<longrightarrow> ram s' q = ram s q"
    "\<forall>js. upath js \<longrightarrow> length js = 4 \<longrightarrow>
        pte (look (ram s')) a js = (if js = path virt then Some (of_nat x OR flags) else pte (look (ram s)) a js)
        \<and> (\<forall>q. node (look (ram s)) a js = Some q \<longrightarrow> ram s' q = ram s q)"
    using vmap_ok [OF assms(1-5) _ assms(7,8)] assms(6) by blast
  have t: "translate s' a v = (if path v = path virt then Some (of_nat x OR flags) else translate s a v)"
    "\<And>q. node (look (ram s)) a (path v) = Some q \<Longrightarrow> ram s' q = ram s q" if "user_addr v" for v
    using s'(4) upath_path(1) [OF that] upath_path(2) [of v] by (auto simp: translate_def)
  have "x \<notin> region s a" using assms(2,5,6) by (auto simp: region_def owned_def PAGE_SIZE_def)
  moreover have "frame x" by (rule owned_frame [OF assms(1,5)])
  ultimately have "page_at s' a virt = ram s x"
    using t(1) [OF assms(3)] s'(3) addr_mk(1) [OF _ assms(7)] by (simp add: page_at_def)
  moreover have "translate s' b v = translate s b v \<and> page_at s' b v = page_at s b v"
    if "b \<in> A" "user_addr v" "\<not> (b = a \<and> path v = path virt)" for b v
  proof (cases "b = a")
    case True
    then show ?thesis using t [OF that(2)] that(3) page_at_cong [of s' a v s] by auto
  next
    case False
    then have "a \<noteq> b" by simp
    from page_at_other [OF assms(1,2) that(1) this that(2) s'(3) [rule_format]] show ?thesis by blast
  qed
  ultimately show ?thesis using s'(1,2) t(1) by (intro exI [of _ s']) auto
qed

theorem vmap_correct_witness:
  "\<exists>s'. vmap demo_vm (3 * PAGE_SIZE) 0x400000 (of_nat (4 * PAGE_SIZE)) (PAGE_PRESENT OR PAGE_WRITABLE OR PAGE_USER) = Some s'
     \<and> vm_inv s' {3 * PAGE_SIZE} \<and> page_at s' (3 * PAGE_SIZE) 0x400000 = Some (replicate ENTRIES 0)"
proof -
  have "ram demo_vm (4 * PAGE_SIZE) = Some (replicate ENTRIES 0)" by (simp add: demo_vm_def PAGE_SIZE_def)
  moreover have "user_addr 0x400000" by (simp add: user_addr_def index_def ENTRIES_def)
  ultimately show ?thesis
    using vmap_correct [OF demo_vm_inv, of "3 * PAGE_SIZE" "0x400000" "4 * PAGE_SIZE" table_flags] demo_owned [of 4] table_flags demo_free demo_frames
    by (auto simp: table_flags_def PAGE_SIZE_def)
qed

text \<open>A fork: a new space and a copy of the user half of another.\<close>

definition can_fork :: "vm \<Rightarrow> nat set \<Rightarrow> nat \<Rightarrow> bool" where
  "can_fork s A a \<longleftrightarrow> vm_inv s A \<and> a \<in> A \<and> page_ok (ram s) (cr3 s) \<and> (\<forall>p \<in> free_set (vpmm s). cr3 s \<noteq> p * PAGE_SIZE)
     \<and> 4 * card (leaves (look (ram s)) a) < card (free_set (vpmm s))"

lemma bit_fff: "bit (0xFFF :: u64) n = (n < 12)"
proof -
  have "(0xFFF :: u64) = mask 12" by (simp add: mask_eq_exp_minus_1)
  then show ?thesis by (simp only: bit_mask_iff) auto
qed

text \<open>No address space sees a change to a page that was free.\<close>

lemma fresh_page_unseen:
  assumes inv: "vm_inv s A" and d: "d \<in> (\<lambda>p. p * PAGE_SIZE) ` free_set (vpmm s)" and out: "\<forall>q. q \<noteq> d \<longrightarrow> ram s1 q = ram s q"
  shows "\<And>b js. b \<in> A \<Longrightarrow> upath js \<Longrightarrow> pte (look (ram s1)) b js = pte (look (ram s)) b js"
    "\<And>b v. b \<in> A \<Longrightarrow> user_addr v \<Longrightarrow> translate s1 b v = translate s b v"
    "\<And>b v. b \<in> A \<Longrightarrow> user_addr v \<Longrightarrow> page_at s1 b v = page_at s b v"
proof -
  have same: "ram s1 q = ram s q" if "b \<in> A" "q \<in> frames (look (ram s)) b" for b q
  proof -
    have "q \<noteq> d" using vm_invD(3) [OF inv that] d by (auto simp: owned_def PAGE_SIZE_def)
    then show ?thesis using out by simp
  qed
  show p: "pte (look (ram s1)) b js = pte (look (ram s)) b js" if "b \<in> A" "upath js" for b js
    by (rule pte_frames_cong(1)) (use same [OF that(1)] that(2) in \<open>simp_all add: look_def fun_eq_iff\<close>)
  show t: "translate s1 b v = translate s b v" if "b \<in> A" "user_addr v" for b v
    using p [OF that(1) upath_path(1) [OF that(2)]] by (simp add: translate_def)
  show "page_at s1 b v = page_at s b v" if "b \<in> A" "user_addr v" for b v
    by (rule page_at_cong [OF t [OF that]]) (rule same [OF that(1) framesI [OF upath_path(1) [OF that(2)]]])
qed

lemma fork_ok:
  assumes "can_fork s A a"
  shows "\<exists>s1 d s2. new_address_space s = Some (s1, d) \<and> clone_user_pages s1 d a = Some (True, s2) \<and> d \<notin> A
    \<and> vm_inv s2 (insert d A) \<and> region s2 d = (\<lambda>p. p * PAGE_SIZE) ` free_set (vpmm s)
    \<and> (\<forall>v. user_addr v \<longrightarrow> page_at s2 d v = page_at s a v
        \<and> map_option (\<lambda>e. e AND 0xFFF) (translate s2 d v) = map_option (\<lambda>e. e AND 0xFFF) (translate s a v))
    \<and> (\<forall>b v. b \<in> A \<longrightarrow> user_addr v \<longrightarrow> translate s2 b v = translate s b v \<and> page_at s2 b v = page_at s b v)"
proof -
  have inv: "vm_inv s A" and a: "a \<in> A" and mem: "4 * card (leaves (look (ram s)) a) < card (free_set (vpmm s))" and cur: "page_ok (ram s) (cr3 s)"
    "\<forall>p \<in> free_set (vpmm s). cr3 s \<noteq> p * PAGE_SIZE" using assms by (auto simp: can_fork_def)
  from cur obtain k where k: "ram s (cr3 s) = Some k" "length k = ENTRIES" by (auto simp: page_ok_def)
  have ne: "free_set (vpmm s) \<noteq> {}" using mem by auto
  obtain s1 d where n: "new_address_space s = Some (s1, d)" "vm_inv s1 (insert d A)" "d \<notin> A" "region s1 d = (\<lambda>p. p * PAGE_SIZE) ` free_set (vpmm s)"
    "\<forall>q. q \<noteq> d \<longrightarrow> ram s1 q = ram s q" "\<forall>js. upath js \<longrightarrow> pte (look (ram s1)) d js = None"
    "card (free_set (vpmm s)) = card (free_set (vpmm s1)) + 1" "d \<in> (\<lambda>p. p * PAGE_SIZE) ` free_set (vpmm s)"
    using new_address_space_ok [OF inv k cur(2) ne] by blast
  note old = fresh_page_unseen [OF inv n(8,5)]
  have "leaves (look (ram s1)) a = leaves (look (ram s)) a" using old(1) a by (auto simp: leaves_def)
  then have "4 * card (leaves (look (ram s1)) a) \<le> card (free_set (vpmm s1))" using mem n(7) by simp
  then obtain s2 where s2: "clone_user_pages s1 d a = Some (True, s2)" "cloned s1 (insert d A) a d (ext []) s2"
    using clone_user_pages_ok [OF n(2), of a d] a n(3,6) by blast
  have cp: "copied s1 a s2 d (path v)" if "user_addr v" for v
    using s2(2) upath_path(1) [OF that] upath_path(2) [of v] by (auto simp: cloned_def ext_def)
  have child: "page_at s2 d v = page_at s a v" "map_option (\<lambda>e. e AND 0xFFF) (translate s2 d v) = map_option (\<lambda>e. e AND 0xFFF) (translate s a v)"
    if v: "user_addr v" for v
  proof -
    have "page_at s2 d v = page_at s1 a v \<and> map_option (\<lambda>e. e AND 0xFFF) (translate s2 d v) = map_option (\<lambda>e. e AND 0xFFF) (translate s1 a v)"
    proof (cases "translate s1 a v")
      case (Some e)
      with cp [OF v] obtain x where x: "frame x" "translate s2 d v = Some (of_nat x OR (e AND 0xFFF))" "ram s2 x = ram s1 (addr e)"
        by (auto simp: copied_def translate_def)
      have m: "(e AND 0xFFF) AND PAGE_ADDR_MASK = 0" by (simp add: PAGE_ADDR_MASK_def and.assoc)
      have "(of_nat x :: u64) AND 0xFFF = 0"
        by (rule bit_eqI) (simp only: bit_and_iff bit_fff, use bit_frame [OF x(1)] in fastforce)
      then have "(of_nat x OR (e AND 0xFFF)) AND 0xFFF = e AND 0xFFF" by (simp add: bit.conj_disj_distrib2 and.assoc)
      then show ?thesis using x Some addr_mk(1) [OF x(1) m] by (simp add: page_at_def)
    qed (use cp [OF v] in \<open>simp add: copied_def translate_def page_at_def\<close>)
    then show "page_at s2 d v = page_at s a v" "map_option (\<lambda>e. e AND 0xFFF) (translate s2 d v) = map_option (\<lambda>e. e AND 0xFFF) (translate s a v)"
      using old(2,3) a v by auto
  qed
  have out: "ram s2 q = ram s1 q" if "q \<notin> region s1 d" for q using s2(2) that by (simp add: cloned_def)
  have "translate s2 b v = translate s b v \<and> page_at s2 b v = page_at s b v" if "b \<in> A" "user_addr v" for b v
  proof -
    have "d \<noteq> b" using that(1) n(3) by blast
    from page_at_other [OF n(2) _ _ this that(2) out] old(2,3) that show ?thesis by simp
  qed
  then show ?thesis using n(1,3,4) s2 child by (intro exI [of _ s1] exI [of _ d] exI [of _ s2]) (auto simp: cloned_def)
qed

text \<open>
  C29: what \<^verbatim>\<open>fork\<close> does to memory. With enough free pages, a new address space filled by
  \<^verbatim>\<open>clone_user_pages\<close> shows the child at every user address the same page contents with the same flags,
  changes nothing any existing process sees, and gives the child pages of its own: the invariant keeps
  the frames of distinct address spaces disjoint, so neither can write to the other's memory.
\<close>

theorem fork_memory:
  assumes "can_fork s A a"
  shows "\<exists>s1 d s2. new_address_space s = Some (s1, d) \<and> clone_user_pages s1 d a = Some (True, s2) \<and> d \<notin> A \<and> vm_inv s2 (insert d A)
    \<and> (\<forall>v. user_addr v \<longrightarrow> page_at s2 d v = page_at s a v
        \<and> map_option (\<lambda>e. e AND 0xFFF) (translate s2 d v) = map_option (\<lambda>e. e AND 0xFFF) (translate s a v))
    \<and> (\<forall>b v. b \<in> A \<longrightarrow> user_addr v \<longrightarrow> translate s2 b v = translate s b v \<and> page_at s2 b v = page_at s b v)"
  using fork_ok [OF assms] by (elim exE conjE) (intro exI conjI, assumption+)

lemma demo_can_fork: "can_fork demo_vm {3 * PAGE_SIZE} (3 * PAGE_SIZE)"
proof -
  have "leaves (look (ram demo_vm)) (3 * PAGE_SIZE) = {}" using demo_pte by (auto simp: leaves_def)
  then show ?thesis using demo_vm_inv demo_free by (auto simp: can_fork_def page_ok_def demo_vm_def PAGE_SIZE_def)
qed

theorem fork_memory_witness:
  "\<exists>s1 d s2. new_address_space demo_vm = Some (s1, d) \<and> clone_user_pages s1 d (3 * PAGE_SIZE) = Some (True, s2)
     \<and> vm_inv s2 (insert d {3 * PAGE_SIZE})"
  using fork_memory [OF demo_can_fork] by blast

text \<open>
  C30: a fork followed by the child's exit leaks nothing. Freeing the child's address space returns
  exactly the pages \<^verbatim>\<open>new_address_space\<close> and \<^verbatim>\<open>clone_user_pages\<close> took: the free pages are those from before the
  fork, no page is freed twice or taken from another space, and every other process still sees
  its memory.
\<close>

theorem fork_exit_roundtrip:
  assumes "can_fork s A a"
  shows "\<exists>s1 d s2 s3. new_address_space s = Some (s1, d) \<and> clone_user_pages s1 d a = Some (True, s2) \<and> free_user_pages s2 d = Some s3
    \<and> free_set (vpmm s3) = free_set (vpmm s) \<and> vm_inv s3 A
    \<and> (\<forall>b v. b \<in> A \<longrightarrow> user_addr v \<longrightarrow> translate s3 b v = translate s b v \<and> page_at s3 b v = page_at s b v)"
proof -
  obtain s1 d s2 where f: "new_address_space s = Some (s1, d)" "clone_user_pages s1 d a = Some (True, s2)" "d \<notin> A" "vm_inv s2 (insert d A)"
    "region s2 d = (\<lambda>p. p * PAGE_SIZE) ` free_set (vpmm s)"
    "\<forall>b v. b \<in> A \<longrightarrow> user_addr v \<longrightarrow> translate s2 b v = translate s b v \<and> page_at s2 b v = page_at s b v"
    using fork_ok [OF assms] by (elim exE conjE)
  obtain s3 where s3: "free_user_pages s2 d = Some s3" "vm_inv s3 (insert d A - {d})" "ram s3 = ram s2"
    "(\<lambda>p. p * PAGE_SIZE) ` free_set (vpmm s3) = region s2 d"
    using free_user_pages_ok [OF f(4), of d] by blast
  have "inj (\<lambda>p :: nat. p * PAGE_SIZE)" by (simp add: inj_on_def PAGE_SIZE_def)
  then have "free_set (vpmm s3) = free_set (vpmm s)" using s3(4) f(5) by (simp add: inj_image_eq_iff)
  moreover have "vm_inv s3 A" using s3(2) f(3) by simp
  moreover have "translate s3 b v = translate s2 b v" "page_at s3 b v = page_at s2 b v" for b v
    unfolding page_at_def translate_def s3(3) by (rule refl)+
  ultimately show ?thesis using f(1,2,6) s3(1) by (intro exI [of _ s1] exI [of _ d] exI [of _ s2] exI [of _ s3]) simp
qed

theorem fork_exit_roundtrip_witness:
  "\<exists>s1 d s2 s3. new_address_space demo_vm = Some (s1, d) \<and> clone_user_pages s1 d (3 * PAGE_SIZE) = Some (True, s2)
     \<and> free_user_pages s2 d = Some s3 \<and> free_set (vpmm s3) = {8..<16}"
  using fork_exit_roundtrip [OF demo_can_fork] demo_free by auto

end
