(* ===== verification/ShText.thy ===== *)
theory ShText
  imports Anssos "HOL-Library.Sublist" "HOL-Library.List_Lexorder" "HOL-Library.Product_Lexorder"
begin

text \<open>
  The shell's text layer: the operations of Rust's \<^verbatim>\<open>String\<close> that panic off a character boundary, the
  decoding of keys and the building of escape codes (\<^verbatim>\<open>sh/src/term.rs\<close>), the prompt's settings and
  their file (\<^verbatim>\<open>sh/src/config.rs\<close>), and the command history (\<^verbatim>\<open>sh/src/history.rs\<close>). A string is its
  UTF-8 bytes, and \<open>None\<close> is a panic or a loop that does not end.
\<close>

section \<open>Strings\<close>

definition is_char_boundary :: "bytes \<Rightarrow> nat \<Rightarrow> bool" where
  "is_char_boundary s i \<longleftrightarrow> i = 0 \<or> i = length s \<or> (i < length s \<and> is_boundary (s ! i))"

definition str_slice :: "bytes \<Rightarrow> nat \<Rightarrow> nat \<Rightarrow> bytes option" where
  "str_slice s a b = (if a \<le> b \<and> is_char_boundary s a \<and> is_char_boundary s b then Some (drop a (take b s)) else None)"

definition str_insert :: "bytes \<Rightarrow> nat \<Rightarrow> u8 \<Rightarrow> bytes option" where
  "str_insert s i c = (if is_char_boundary s i then Some (take i s @ c # drop i s) else None)"

text \<open>The length of a character from its first byte.\<close>

definition char_len :: "u8 \<Rightarrow> nat" where
  "char_len b = (if b < 0x80 then 1 else if b < 0xE0 then 2 else if b < 0xF0 then 3 else 4)"

definition str_remove :: "bytes \<Rightarrow> nat \<Rightarrow> bytes option" where
  "str_remove s i = (if i < length s \<and> is_char_boundary s i then Some (take i s @ drop (i + char_len (s ! i)) s) else None)"

definition str_replace_range :: "bytes \<Rightarrow> nat \<Rightarrow> nat \<Rightarrow> bytes \<Rightarrow> bytes option" where
  "str_replace_range s a b t =
     (if a \<le> b \<and> is_char_boundary s a \<and> is_char_boundary s b then Some (take a s @ t @ drop b s) else None)"

definition str_drain :: "bytes \<Rightarrow> nat \<Rightarrow> nat \<Rightarrow> bytes option" where
  "str_drain s a b = str_replace_range s a b []"

definition str_truncate :: "bytes \<Rightarrow> nat \<Rightarrow> bytes option" where
  "str_truncate s n = (if n \<le> length s then (if is_char_boundary s n then Some (take n s) else None) else Some s)"

definition str_split_at :: "bytes \<Rightarrow> nat \<Rightarrow> (bytes \<times> bytes) option" where
  "str_split_at s n = (if is_char_boundary s n then Some (take n s, drop n s) else None)"

text \<open>\<^verbatim>\<open>chars().count()\<close>.\<close>

definition char_count :: "bytes \<Rightarrow> nat" where
  "char_count s = length (filter is_boundary s)"

text \<open>The encodings of the characters with the property \<^verbatim>\<open>White_Space\<close>, which \<^verbatim>\<open>str::trim\<close> strips from both
  ends.\<close>

definition white_space :: "bytes list" where
  "white_space = map (\<lambda>b. [b]) [9, 10, 11, 12, 13, 32] @ [[0xC2, 0x85], [0xC2, 0xA0], [0xE1, 0x9A, 0x80]] @
     map (\<lambda>b. [0xE2, 0x80, b]) [0x80, 0x81, 0x82, 0x83, 0x84, 0x85, 0x86, 0x87, 0x88, 0x89, 0x8A, 0xA8, 0xA9, 0xAF] @
     [[0xE2, 0x81, 0x9F], [0xE3, 0x80, 0x80]]"

lemma white_space_nonempty: "w \<in> set white_space \<Longrightarrow> w \<noteq> []"
  by (auto simp: white_space_def)

function strip_from :: "bytes list \<Rightarrow> bytes \<Rightarrow> bytes" where
  "strip_from ws s =
     (case find (\<lambda>w. w \<noteq> [] \<and> prefix w s) ws of None \<Rightarrow> s | Some w \<Rightarrow> strip_from ws (drop (length w) s))"
  by pat_completeness auto
termination
  by (relation "measure (length o snd)") (auto simp: find_Some_iff prefix_def)

declare strip_from.simps [simp del]

definition trim_start :: "bytes \<Rightarrow> bytes" where
  "trim_start s = strip_from white_space s"

definition trim_end :: "bytes \<Rightarrow> bytes" where
  "trim_end s = rev (strip_from (map rev white_space) (rev s))"

definition trim :: "bytes \<Rightarrow> bytes" where
  "trim s = trim_end (trim_start s)"

definition str_lines :: "bytes \<Rightarrow> bytes list" where
  "str_lines s = (let ps = split_on 10 s
     in map (\<lambda>l. if l \<noteq> [] \<and> last l = 13 then butlast l else l) (butlast ps) @ (if last ps = [] then [] else [last ps]))"

definition split_once :: "u8 \<Rightarrow> bytes \<Rightarrow> (bytes \<times> bytes) option" where
  "split_once c s = (if c \<in> set s then Some (takeWhile (\<lambda>x. x \<noteq> c) s, tl (dropWhile (\<lambda>x. x \<noteq> c) s)) else None)"

text \<open>\<^verbatim>\<open>[&str]::join(" ")\<close>.\<close>

fun join_spaces :: "bytes list \<Rightarrow> bytes" where
  "join_spaces [] = []"
| "join_spaces [w] = w"
| "join_spaces (w # ws) = w @ 32 # join_spaces ws"

text \<open>Padding to a width.\<close>

definition spaces :: "nat \<Rightarrow> bytes" where
  "spaces n = replicate n 32"

definition pad_left :: "nat \<Rightarrow> bytes \<Rightarrow> bytes" where
  "pad_left w s = spaces (w - char_count s) @ s"

definition pad_right :: "nat \<Rightarrow> bytes \<Rightarrow> bytes" where
  "pad_right w s = s @ spaces (w - char_count s)"

section \<open>Keys\<close>

datatype tkey = TChar u8 | TEnter | TTab | TBackspace | TDelete | TLeft | TRight | TUp | TDown | THome | TEnd | TEsc
  | TCtrl u8 | TOther | TEof

fun term_next_byte :: "'k sys \<Rightarrow> nat \<Rightarrow> 'k \<Rightarrow> 'k \<times> u8 option" where
  "term_next_byte S 0 k = (k, None)"
| "term_next_byte S (Suc n) k =
     (case poll_key S k of
        (k, Key b) \<Rightarrow> (k, Some b)
      | (k, KeyClosed) \<Rightarrow> (k, None)
      | (k, KeyEmpty) \<Rightarrow> term_next_byte S n (s_yield S k))"

definition tilde_key :: "nat \<Rightarrow> tkey" where
  "tilde_key num = (if num = 1 \<or> num = 7 then THome else if num = 4 \<or> num = 8 then TEnd else if num = 3 then TDelete else TOther)"

definition letter_key :: "u8 \<Rightarrow> nat \<Rightarrow> tkey" where
  "letter_key b num =
     (if b = 65 then TUp else if b = 66 then TDown else if b = 67 then TRight else if b = 68 then TLeft
      else if b = 72 then THome else if b = 70 then TEnd else if b = 126 then tilde_key num else TOther)"

partial_function (option) term_sequence :: "'k sys \<Rightarrow> 'k \<Rightarrow> nat \<Rightarrow> ('k \<times> tkey) option" where
  "term_sequence S k num =
     (case term_next_byte S 4 k of
        (k, None) \<Rightarrow> Some (k, TOther)
      | (k, Some b) \<Rightarrow>
          if 48 \<le> b \<and> b \<le> 57 then term_sequence S k (min 65535 (min 65535 (num * 10) + unat (b - 48)))
          else if b = 59 then term_sequence S k num
          else Some (k, letter_key b num))"

definition term_escape :: "'k sys \<Rightarrow> 'k \<Rightarrow> ('k \<times> tkey) option" where
  "term_escape S k =
     (case term_next_byte S 4 k of
        (k, Some b) \<Rightarrow> if b = 91 \<or> b = 79 then term_sequence S k 0 else Some (k, TEsc)
      | (k, None) \<Rightarrow> Some (k, TEsc))"

definition term_read_key :: "'k sys \<Rightarrow> 'k \<Rightarrow> ('k \<times> tkey) option" where
  "term_read_key S k = do {
     (k, r) \<leftarrow> read_key S k;
     case r of None \<Rightarrow> Some (k, TEof)
     | Some b \<Rightarrow>
         if b = 13 \<or> b = 10 then Some (k, TEnter)
         else if b = 9 then Some (k, TTab)
         else if b = 0x7f \<or> b = 0x08 then Some (k, TBackspace)
         else if b = 0x1b then term_escape S k
         else if 1 \<le> b \<and> b \<le> 26 then Some (k, TCtrl (97 + b - 1))
         else Some (k, TChar b) }"

definition term_width :: "'k sys \<Rightarrow> 'k \<Rightarrow> 'k \<times> nat" where
  "term_width S k = (let (k, c, _) = window_size S k in (k, c))"

section \<open>Output\<close>

definition RESET :: bytes where "RESET = ascii ''0''"
definition DIM :: bytes where "DIM = ascii ''90''"
definition COMMAND :: bytes where "COMMAND = ascii ''1;94''"
definition ERROR :: bytes where "ERROR = ascii ''1;91''"
definition PATH :: bytes where "PATH = ascii ''36''"
definition OPTION :: bytes where "OPTION = ascii ''33''"
definition DIR :: bytes where "DIR = ascii ''1;94''"
definition PROGRAM :: bytes where "PROGRAM = ascii ''92''"
definition OK :: bytes where "OK = ascii ''1;92''"

text \<open>The buffer is the bytes so far, and an operation on it is the bytes it adds.\<close>

definition sgr :: "bytes \<Rightarrow> bytes" where
  "sgr codes = [27, 91] @ codes @ [109]"

definition styled :: "bytes \<Rightarrow> bytes \<Rightarrow> bytes" where
  "styled codes text = sgr codes @ text @ sgr RESET"

definition out_flush :: "'k sys \<Rightarrow> 'k \<Rightarrow> bytes \<Rightarrow> 'k option" where
  "out_flush S k out = write_all S k 1 out"

definition term_error :: "'k sys \<Rightarrow> 'k \<Rightarrow> bytes \<Rightarrow> 'k option" where
  "term_error S k msg = out_flush S k (styled ERROR (ascii ''sh: '') @ msg @ [10])"

text \<open>\<^verbatim>\<open>"\x1b[0m\x1b[2J\x1b[H"\<close>, which clears the screen.\<close>

definition clear_screen :: bytes where
  "clear_screen = [27] @ ascii ''[0m'' @ [27] @ ascii ''[2J'' @ [27] @ ascii ''[H''"

section \<open>Files read whole\<close>

partial_function (option) read_all :: "'k sys \<Rightarrow> 'k \<Rightarrow> int \<Rightarrow> nat \<Rightarrow> bytes \<Rightarrow> ('k \<times> bytes) option" where
  "read_all S k fd chunk got =
     (let (k, d) = file_read S k fd chunk in if d = [] then Some (k, got) else read_all S k fd chunk (got @ d))"

section \<open>Settings\<close>

datatype style = Lean | Classic | Rainbow
datatype seg_ends = Sharp | Round | Flat
datatype fill = Blank | Dotted | Solid

record config =
  c_style :: style
  c_two_lines :: bool
  c_frame :: bool
  c_fill :: fill
  c_ends :: seg_ends
  c_glyphs :: bool
  c_system :: bool
  c_sparse :: bool

definition config_default :: config where
  "config_default = \<lparr>c_style = Rainbow, c_two_lines = True, c_frame = True, c_fill = Dotted, c_ends = Sharp,
     c_glyphs = True, c_system = True, c_sparse = True\<rparr>"

definition CONFIG_FILE :: bytes where "CONFIG_FILE = ascii ''/.sh_prompt''"

definition config_set :: "bytes \<Rightarrow> bytes \<Rightarrow> config \<Rightarrow> config" where
  "config_set key v c =
     (let yes = (v = ascii ''yes'')
      in if key = ascii ''style'' \<and> v = ascii ''lean'' then c\<lparr>c_style := Lean\<rparr>
         else if key = ascii ''style'' \<and> v = ascii ''classic'' then c\<lparr>c_style := Classic\<rparr>
         else if key = ascii ''style'' \<and> v = ascii ''rainbow'' then c\<lparr>c_style := Rainbow\<rparr>
         else if key = ascii ''lines'' \<and> v = ascii ''1'' then c\<lparr>c_two_lines := False\<rparr>
         else if key = ascii ''lines'' \<and> v = ascii ''2'' then c\<lparr>c_two_lines := True\<rparr>
         else if key = ascii ''frame'' then c\<lparr>c_frame := yes\<rparr>
         else if key = ascii ''fill'' \<and> v = ascii ''blank'' then c\<lparr>c_fill := Blank\<rparr>
         else if key = ascii ''fill'' \<and> v = ascii ''dotted'' then c\<lparr>c_fill := Dotted\<rparr>
         else if key = ascii ''fill'' \<and> v = ascii ''solid'' then c\<lparr>c_fill := Solid\<rparr>
         else if key = ascii ''ends'' \<and> v = ascii ''sharp'' then c\<lparr>c_ends := Sharp\<rparr>
         else if key = ascii ''ends'' \<and> v = ascii ''round'' then c\<lparr>c_ends := Round\<rparr>
         else if key = ascii ''ends'' \<and> v = ascii ''flat'' then c\<lparr>c_ends := Flat\<rparr>
         else if key = ascii ''glyphs'' then c\<lparr>c_glyphs := yes\<rparr>
         else if key = ascii ''system'' then c\<lparr>c_system := yes\<rparr>
         else if key = ascii ''sparse'' then c\<lparr>c_sparse := yes\<rparr>
         else c)"

definition config_line :: "bytes \<Rightarrow> config \<Rightarrow> config" where
  "config_line line c = (case split_once 61 line of None \<Rightarrow> c | Some (key, v) \<Rightarrow> config_set (trim key) (trim v) c)"

definition config_parse :: "bytes \<Rightarrow> config" where
  "config_parse bs = fold config_line (str_lines (from_utf8_lossy bs)) config_default"

definition config_load :: "'k sys \<Rightarrow> 'k \<Rightarrow> ('k \<times> config \<times> bool) option" where
  "config_load S k =
     (let (k, f) = file_open S k CONFIG_FILE
      in case f of None \<Rightarrow> Some (k, config_default, False)
         | Some fd \<Rightarrow> do { (k, bs) \<leftarrow> read_all S k fd 256 []; Some (s_close S k fd, config_parse bs, True) })"

definition yn :: "bool \<Rightarrow> bytes" where
  "yn b = (if b then ascii ''yes'' else ascii ''no'')"

fun style_text :: "style \<Rightarrow> bytes" where
  "style_text Lean = ascii ''lean''"
| "style_text Classic = ascii ''classic''"
| "style_text Rainbow = ascii ''rainbow''"

fun fill_text :: "fill \<Rightarrow> bytes" where
  "fill_text Blank = ascii ''blank''"
| "fill_text Dotted = ascii ''dotted''"
| "fill_text Solid = ascii ''solid''"

fun ends_text :: "seg_ends \<Rightarrow> bytes" where
  "ends_text Sharp = ascii ''sharp''"
| "ends_text Round = ascii ''round''"
| "ends_text Flat = ascii ''flat''"

definition config_text :: "config \<Rightarrow> bytes" where
  "config_text c = ascii ''style='' @ style_text (c_style c) @ [10] @
     ascii ''lines='' @ dec (if c_two_lines c then 2 else 1) @ [10] @
     ascii ''frame='' @ yn (c_frame c) @ [10] @
     ascii ''fill='' @ fill_text (c_fill c) @ [10] @
     ascii ''ends='' @ ends_text (c_ends c) @ [10] @
     ascii ''glyphs='' @ yn (c_glyphs c) @ [10] @
     ascii ''system='' @ yn (c_system c) @ [10] @
     ascii ''sparse='' @ yn (c_sparse c) @ [10]"

definition config_save :: "'k sys \<Rightarrow> 'k \<Rightarrow> config \<Rightarrow> ('k \<times> bool) option" where
  "config_save S k c =
     (let (k, f) = file_create S k CONFIG_FILE
      in do {
        (k, ok) \<leftarrow> (case f of None \<Rightarrow> Some (k, False)
                   | Some fd \<Rightarrow> do { (k, ok) \<leftarrow> file_write_all S k fd (config_text c); Some (s_close S k fd, ok) });
        Some (fst (anssos_sync S k), ok) })"

section \<open>History\<close>

type_synonym history = "bytes list"

definition HISTORY_FILE :: bytes where "HISTORY_FILE = ascii ''/.sh_history''"
definition HISTORY_MAX :: nat where "HISTORY_MAX = 500"

definition history_parse :: "bytes \<Rightarrow> history" where
  "history_parse bs =
     (let items = filter (\<lambda>l. utf8_valid l \<and> trim l \<noteq> []) (split_on 10 bs) in drop (length items - HISTORY_MAX) items)"

definition history_load :: "'k sys \<Rightarrow> 'k \<Rightarrow> ('k \<times> history) option" where
  "history_load S k =
     (let (k, f) = file_open S k HISTORY_FILE
      in case f of None \<Rightarrow> Some (k, [])
         | Some fd \<Rightarrow> do { (k, bs) \<leftarrow> read_all S k fd 512 []; Some (s_close S k fd, history_parse bs) })"

definition history_text :: "history \<Rightarrow> bytes" where
  "history_text items = concat (map (\<lambda>l. l @ [10]) items)"

definition history_save :: "'k sys \<Rightarrow> 'k \<Rightarrow> history \<Rightarrow> 'k option" where
  "history_save S k items =
     (let (k, f) = file_create S k HISTORY_FILE
      in case f of None \<Rightarrow> Some k
         | Some fd \<Rightarrow> do { (k, _) \<leftarrow> file_write_all S k fd (history_text items); Some (s_close S k fd) })"

definition history_push :: "history \<Rightarrow> bytes \<Rightarrow> history" where
  "history_push items line =
     (let items = filter (\<lambda>l. l \<noteq> line) items @ [line] in if length items > HISTORY_MAX then tl items else items)"

definition history_add :: "'k sys \<Rightarrow> 'k \<Rightarrow> history \<Rightarrow> bytes \<Rightarrow> ('k \<times> history) option" where
  "history_add S k items line =
     (let line = trim line
      in if line = [] then Some (k, items)
         else do { k \<leftarrow> history_save S k (history_push items line); Some (k, history_push items line) })"

definition history_get :: "history \<Rightarrow> nat \<Rightarrow> bytes option" where
  "history_get items i = vec_get items i"

text \<open>The entries are tried from the newest; \<open>usable\<close> may use the file system.\<close>

fun suggest_in :: "('k \<Rightarrow> bytes \<Rightarrow> ('k \<times> bool) option) \<Rightarrow> 'k \<Rightarrow> bytes \<Rightarrow> bytes list \<Rightarrow> ('k \<times> bytes option) option" where
  "suggest_in usable k pre [] = Some (k, None)"
| "suggest_in usable k pre (l # ls) =
     (if length l > length pre \<and> prefix pre l
      then do { (k, u) \<leftarrow> usable k l; if u then Some (k, Some l) else suggest_in usable k pre ls }
      else suggest_in usable k pre ls)"

definition history_suggest :: "('k \<Rightarrow> bytes \<Rightarrow> ('k \<times> bool) option) \<Rightarrow> 'k \<Rightarrow> history \<Rightarrow> bytes \<Rightarrow> ('k \<times> bytes option) option" where
  "history_suggest usable k items pre = (if pre = [] then Some (k, None) else suggest_in usable k pre (rev items))"

text \<open>\<open>from\<close> is an index that an earlier search of the same history returned.\<close>

definition history_search :: "history \<Rightarrow> bytes \<Rightarrow> nat option \<Rightarrow> bool \<Rightarrow> nat option" where
  "history_search items pre from older =
     (let matches = (\<lambda>i. prefix pre (items ! i) \<and> items ! i \<noteq> pre)
      in if older then find matches (rev [0..<(case from of None \<Rightarrow> length items | Some i \<Rightarrow> i)])
         else case from of None \<Rightarrow> None | Some i \<Rightarrow> find matches [i + 1..<length items])"

end
