(* ===== verification/ShLine.thy ===== *)
theory ShLine
  imports ShText
begin

text \<open>
  The shell's line editor, \<^verbatim>\<open>sh/src/editor.rs\<close>, and what it draws on: finding programs
  (\<^verbatim>\<open>sh/src/commands.rs\<close>), Tab completion (\<^verbatim>\<open>sh/src/complete.rs\<close>) and the colours of the line as it is
  typed (\<^verbatim>\<open>sh/src/highlight.rs\<close>). Every slice, insertion and removal of the line panics off a character
  boundary, which is \<open>None\<close> here.
\<close>

section \<open>Builtins and programs\<close>

record builtin =
  b_name :: bytes
  b_usage :: bytes
  b_desc :: bytes

definition mk_builtin :: "string \<Rightarrow> string \<Rightarrow> string \<Rightarrow> builtin" where
  "mk_builtin n u d = \<lparr>b_name = ascii n, b_usage = ascii u, b_desc = ascii d\<rparr>"

definition BUILTINS :: "builtin list" where
  "BUILTINS = [
     mk_builtin ''cd'' ''cd [dir]'' ''change directory (no dir: /)'',
     mk_builtin ''pwd'' ''pwd'' ''print the current directory'',
     mk_builtin ''ls'' ''ls [dir]'' ''list a directory'',
     mk_builtin ''cat'' ''cat <file>...'' ''print files'',
     mk_builtin ''echo'' ''echo [text]'' ''print text'',
     mk_builtin ''write'' ''write <file> <text>'' (''replace a file'' @ [CHR 0x27] @ ''s contents''),
     mk_builtin ''mkdir'' ''mkdir <dir>...'' ''make directories'',
     mk_builtin ''touch'' ''touch <file>...'' ''create empty files'',
     mk_builtin ''rm'' ''rm <path>...'' ''remove files or whole directories'',
     mk_builtin ''cp'' ''cp <src> <dest>'' ''copy a file or directory'',
     mk_builtin ''mv'' ''mv <src> <dest>'' ''move or rename'',
     mk_builtin ''create'' ''create dir|file <name>'' ''make a directory or empty file'',
     mk_builtin ''delete'' ''delete [dir|file] <path>'' ''same as rm'',
     mk_builtin ''copy'' ''copy [dir|file] <src> <dest>'' ''same as cp'',
     mk_builtin ''move'' ''move [dir|file] <src> <dest>'' ''same as mv'',
     mk_builtin ''sync'' ''sync'' ''write the filesystem to disk now'',
     mk_builtin ''clear'' ''clear'' ''clear the screen'',
     mk_builtin ''history'' ''history'' ''list past commands'',
     mk_builtin ''configure'' ''configure'' ''choose how the prompt looks'',
     mk_builtin ''help'' ''help'' ''show this help'',
     mk_builtin ''exit'' ''exit'' ''leave the shell'']"

definition is_builtin :: "bytes \<Rightarrow> bool" where
  "is_builtin name \<longleftrightarrow> list_ex (\<lambda>b. b_name b = name) BUILTINS"

definition is_program :: "'k sys \<Rightarrow> 'k \<Rightarrow> bytes \<Rightarrow> ('k \<times> bool) option" where
  "is_program S k path =
     (let (k, f) = on_path k path (file_open S)
      in case f of None \<Rightarrow> Some (k, False)
         | Some fd \<Rightarrow> do { (k, magic) \<leftarrow> read_full S k fd 4 []; Some (s_close S k fd, magic = [0x7f, 69, 76, 70]) })"

fun find_program :: "'k sys \<Rightarrow> 'k \<Rightarrow> bytes list \<Rightarrow> ('k \<times> bytes option) option" where
  "find_program S k [] = Some (k, None)"
| "find_program S k (p # ps) = do { (k, yes) \<leftarrow> is_program S k p; if yes then Some (k, Some p) else find_program S k ps }"

definition resolve_program :: "'k sys \<Rightarrow> 'k \<Rightarrow> bytes \<Rightarrow> ('k \<times> bytes option) option" where
  "resolve_program S k name =
     (if name = [] then Some (k, None)
      else find_program S k (if 47 \<in> set name then [name] else [name, ascii ''/bin/'' @ name]))"

text \<open>Whether a word names a builtin or a program.\<close>

definition is_command :: "'k sys \<Rightarrow> 'k \<Rightarrow> bytes \<Rightarrow> ('k \<times> bool) option" where
  "is_command S k word =
     (if is_builtin word then Some (k, True) else do { (k, p) \<leftarrow> resolve_program S k word; Some (k, p \<noteq> None) })"

section \<open>Completion\<close>

record candidate =
  cd_text :: bytes
  cd_display :: bytes
  cd_desc :: bytes
  cd_dir :: bool

definition word_at :: "bytes \<Rightarrow> nat \<Rightarrow> (nat \<times> bool) option" where
  "word_at line cursor = do {
     before \<leftarrow> str_slice line 0 cursor;
     let start = (case rfind 32 before of None \<Rightarrow> 0 | Some i \<Rightarrow> i + 1);
     Some (start, trim (take start before) = []) }"

definition builtin_cands :: "bytes \<Rightarrow> candidate list" where
  "builtin_cands pre = map (\<lambda>b. \<lparr>cd_text = b_name b, cd_display = b_name b, cd_desc = b_desc b, cd_dir = False\<rparr>)
     (filter (\<lambda>b. prefix pre (b_name b)) BUILTINS)"

fun program_cands :: "'k sys \<Rightarrow> 'k \<Rightarrow> bytes \<Rightarrow> bytes \<Rightarrow> bytes \<Rightarrow> dir_entry list \<Rightarrow> ('k \<times> candidate list) option" where
  "program_cands S k pre dir desc [] = Some (k, [])"
| "program_cands S k pre dir desc (e # es) =
     (let path = (if dir = ascii ''.'' then dname e else dir @ [47] @ dname e)
      in do {
        (k, yes) \<leftarrow> (if \<not> ddir e \<and> prefix pre (dname e) then is_program S k path else Some (k, False));
        (k, cs) \<leftarrow> program_cands S k pre dir desc es;
        Some (k, (if yes then [\<lparr>cd_text = dname e, cd_display = dname e, cd_desc = desc, cd_dir = False\<rparr>] else []) @ cs) })"

definition program_dir :: "'k sys \<Rightarrow> 'k \<Rightarrow> bytes \<Rightarrow> bytes \<Rightarrow> bytes \<Rightarrow> ('k \<times> candidate list) option" where
  "program_dir S k pre dir desc = do {
     (k, r) \<leftarrow> read_dir S k dir;
     case r of None \<Rightarrow> Some (k, []) | Some es \<Rightarrow> program_cands S k pre dir desc es }"

definition commands :: "'k sys \<Rightarrow> 'k \<Rightarrow> bytes \<Rightarrow> ('k \<times> candidate list) option" where
  "commands S k pre = do {
     (k, here) \<leftarrow> program_dir S k pre (ascii ''.'') (ascii ''program here'');
     (k, bin) \<leftarrow> program_dir S k pre (ascii ''/bin'') (ascii ''program'');
     Some (k, builtin_cands pre @ here @ bin) }"

definition path_cand :: "bytes \<Rightarrow> dir_entry \<Rightarrow> candidate" where
  "path_cand dir_part e =
     (let slash = (if ddir e then [47] else [])
      in \<lparr>cd_text = dir_part @ dname e @ slash, cd_display = dname e @ slash,
          cd_desc = (if ddir e then ascii ''directory'' else ascii ''file''), cd_dir = ddir e\<rparr>)"

text \<open>A name with an interior NUL fails in \<^verbatim>\<open>CString::new\<close>.\<close>

definition paths :: "'k sys \<Rightarrow> 'k \<Rightarrow> bytes \<Rightarrow> ('k \<times> candidate list) option" where
  "paths S k word =
     (let (dir_part, pre) = (case rfind 47 word of Some i \<Rightarrow> (take (i + 1) word, drop (i + 1) word) | None \<Rightarrow> ([], word));
          listed = (if dir_part = [] then ascii ''.'' else dir_part)
      in case cpath listed of None \<Rightarrow> Some (k, [])
         | Some p \<Rightarrow> do {
             (k, r) \<leftarrow> read_dir S k p;
             Some (k, case r of None \<Rightarrow> []
               | Some es \<Rightarrow> map (path_cand dir_part)
                   (filter (\<lambda>e. prefix pre (dname e) \<and> (\<not> prefix [46] (dname e) \<or> prefix [46] pre)) es)) })"

fun dedup_text :: "candidate list \<Rightarrow> candidate list" where
  "dedup_text (a # b # cs) = (if cd_text a = cd_text b then dedup_text (a # cs) else a # dedup_text (b # cs))"
| "dedup_text cs = cs"

definition candidates :: "'k sys \<Rightarrow> 'k \<Rightarrow> bytes \<Rightarrow> nat \<Rightarrow> ('k \<times> candidate list) option" where
  "candidates S k line cursor = do {
     (start, first) \<leftarrow> word_at line cursor;
     word \<leftarrow> str_slice line start cursor;
     (k, out) \<leftarrow> (if first \<and> 47 \<notin> set word then commands S k word else paths S k word);
     Some (k, dedup_text (sort_key cd_text out)) }"

fun agree :: "bytes \<Rightarrow> bytes \<Rightarrow> nat" where
  "agree (a # as) (b # bs) = (if a = b then Suc (agree as bs) else 0)"
| "agree _ _ = 0"

definition common_prefix :: "candidate list \<Rightarrow> bytes option" where
  "common_prefix cands =
     (case cands of [] \<Rightarrow> Some []
      | first # rest \<Rightarrow>
          str_slice (cd_text first) 0 (fold (\<lambda>c len. min len (agree (cd_text first) (cd_text c))) rest (length (cd_text first))))"

section \<open>Colours\<close>

text \<open>Where the word that starts at \<open>i\<close> ends: a quoted one after its closing quote, another at a space.\<close>

fun word_end :: "u8 option \<Rightarrow> bytes \<Rightarrow> nat" where
  "word_end q [] = 0"
| "word_end q (b # bs) =
     (case q of Some q' \<Rightarrow> if b = q' then 1 else Suc (word_end q bs)
      | None \<Rightarrow> if b = 32 then 0 else Suc (word_end q bs))"

definition is_quote :: "u8 \<Rightarrow> bool" where
  "is_quote b \<longleftrightarrow> b = 34 \<or> b = 39"

definition trim_quotes :: "bytes \<Rightarrow> bytes" where
  "trim_quotes s = rev (dropWhile is_quote (rev (dropWhile is_quote s)))"

definition word_color :: "'k sys \<Rightarrow> 'k \<Rightarrow> bool \<Rightarrow> bytes \<Rightarrow> ('k \<times> bytes) option" where
  "word_color S k first word =
     (if first then do { (k, c) \<leftarrow> is_command S k word; Some (k, if c then COMMAND else ERROR) }
      else if prefix [45] word then Some (k, OPTION)
      else let (k, e) = path_exists S k word in Some (k, if e then PATH else RESET))"

text \<open>The loop over the line: \<open>rest\<close> is what is left from \<open>i\<close> on. Slicing the line at both ends of a word
  needs character boundaries there.\<close>

function (sequential) color_words :: "'k sys \<Rightarrow> 'k \<Rightarrow> bool \<Rightarrow> bytes \<Rightarrow> nat \<Rightarrow> ('k \<times> bytes list) option" where
  "color_words S k first line i =
     (if i < length line then
        (if line ! i = 32 then do { (k, cs) \<leftarrow> color_words S k first line (i + 1); Some (k, RESET # cs) }
         else let quote = (if is_quote (line ! i) then Some (line ! i) else None);
                  n = Suc (word_end quote (drop (i + 1) line))
              in do {
                w \<leftarrow> str_slice line i (i + n);
                (k, c) \<leftarrow> word_color S k first (trim_quotes w);
                (k, cs) \<leftarrow> color_words S k False line (i + n);
                Some (k, replicate n c @ cs) })
      else Some (k, []))"
  by pat_completeness auto
termination
  by (relation "measure (\<lambda>(S, k, first, line, i). length line - i)") auto

declare color_words.simps [simp del]

definition colors :: "'k sys \<Rightarrow> 'k \<Rightarrow> bytes \<Rightarrow> ('k \<times> bytes list) option" where
  "colors S k line = color_words S k True line 0"

section \<open>The editor\<close>

definition LIST_ROWS :: nat where "LIST_ROWS = 8"

datatype read_result = RLine bytes | RCancelled | RClear | REof

record clist =
  cl_cands :: "candidate list"
  cl_sel :: "nat option"
  cl_start :: nat
  cl_top :: nat

record led =
  l_hist :: history
  l_prefix :: bytes
  l_prefix_w :: nat
  l_buf :: bytes
  l_cur :: nat
  l_scroll :: nat
  l_hpos :: "nat option"
  l_hprefix :: "bytes option"
  l_list :: "clist option"

definition led_new :: "history \<Rightarrow> bytes \<Rightarrow> nat \<Rightarrow> led" where
  "led_new hist pre w = \<lparr>l_hist = hist, l_prefix = pre, l_prefix_w = w, l_buf = [], l_cur = 0, l_scroll = 0,
     l_hpos = None, l_hprefix = None, l_list = None\<rparr>"

definition edited :: "led \<Rightarrow> led" where
  "edited e = e\<lparr>l_hpos := None, l_hprefix := None\<rparr>"

definition set_line :: "bytes \<Rightarrow> led \<Rightarrow> led" where
  "set_line line e = e\<lparr>l_buf := line, l_cur := length line\<rparr>"

definition walk_history :: "bool \<Rightarrow> led \<Rightarrow> led option" where
  "walk_history older e =
     (let pre = (case l_hprefix e of None \<Rightarrow> l_buf e | Some p \<Rightarrow> p); e = e\<lparr>l_hprefix := Some pre\<rparr>
      in case history_search (l_hist e) pre (l_hpos e) older of
           Some i \<Rightarrow> do { line \<leftarrow> history_get (l_hist e) i; Some (set_line line (e\<lparr>l_hpos := Some i\<rparr>)) }
         | None \<Rightarrow> if \<not> older \<and> l_hpos e \<noteq> None then Some (set_line pre (e\<lparr>l_hpos := None\<rparr>)) else Some e)"

definition runnable :: "'k sys \<Rightarrow> 'k \<Rightarrow> bytes \<Rightarrow> ('k \<times> bool) option" where
  "runnable S k line = is_command S k (takeWhile (\<lambda>b. b \<noteq> 32) line)"

definition suggestion :: "'k sys \<Rightarrow> 'k \<Rightarrow> led \<Rightarrow> ('k \<times> bytes option) option" where
  "suggestion S k e =
     (if l_cur e \<noteq> length (l_buf e) \<or> trim (l_buf e) = [] \<or> l_list e \<noteq> None then Some (k, None)
      else do {
        (k, h) \<leftarrow> history_suggest (runnable S) k (l_hist e) (l_buf e);
        case h of
          Some h \<Rightarrow> do { s \<leftarrow> str_slice h (length (l_buf e)) (length h); Some (k, Some s) }
        | None \<Rightarrow> do {
            (start, _) \<leftarrow> word_at (l_buf e) (l_cur e);
            if start = l_cur e then Some (k, None)
            else do {
              (k, cands) \<leftarrow> candidates S k (l_buf e) (l_cur e);
              case cands of
                [only] \<Rightarrow> if length (cd_text only) > l_cur e - start
                          then do { s \<leftarrow> str_slice (cd_text only) (l_cur e - start) (length (cd_text only)); Some (k, Some s) }
                          else Some (k, None)
              | _ \<Rightarrow> Some (k, None) } } })"

definition accept_suggestion :: "'k sys \<Rightarrow> 'k \<Rightarrow> led \<Rightarrow> ('k \<times> led) option" where
  "accept_suggestion S k e = do {
     (k, s) \<leftarrow> suggestion S k e;
     Some (k, case s of None \<Rightarrow> e | Some s \<Rightarrow> edited (e\<lparr>l_buf := l_buf e @ s, l_cur := length (l_buf e @ s)\<rparr>)) }"

definition replace_word :: "nat \<Rightarrow> bytes \<Rightarrow> led \<Rightarrow> led option" where
  "replace_word start text e = do {
     b \<leftarrow> str_replace_range (l_buf e) start (l_cur e) text;
     Some (e\<lparr>l_buf := b, l_cur := start + length text\<rparr>) }"

text \<open>Filling in the candidate at an index of the open list.\<close>

definition pick :: "clist \<Rightarrow> nat \<Rightarrow> led \<Rightarrow> led option" where
  "pick l n e = do {
     c \<leftarrow> vec_get (cl_cands l) n;
     replace_word (cl_start l) (cd_text c) (e\<lparr>l_list := Some (l\<lparr>cl_sel := Some n\<rparr>)\<rparr>) }"

definition complete :: "'k sys \<Rightarrow> 'k \<Rightarrow> led \<Rightarrow> ('k \<times> led) option" where
  "complete S k e =
     (case l_list e of
        Some l \<Rightarrow> do { e \<leftarrow> pick l (case cl_sel l of None \<Rightarrow> 0 | Some s \<Rightarrow> (s + 1) mod length (cl_cands l)) e; Some (k, e) }
      | None \<Rightarrow> do {
          (start, _) \<leftarrow> word_at (l_buf e) (l_cur e);
          (k, cands) \<leftarrow> candidates S k (l_buf e) (l_cur e);
          e \<leftarrow> (case cands of
                  [] \<Rightarrow> Some e
                | [c] \<Rightarrow> replace_word start (if cd_dir c then cd_text c else cd_text c @ [32]) e
                | _ \<Rightarrow> do {
                    common \<leftarrow> common_prefix cands;
                    if length common > l_cur e - start then replace_word start common e
                    else Some (e\<lparr>l_list := Some \<lparr>cl_cands = cands, cl_sel = None, cl_start = start, cl_top = 0\<rparr>\<rparr>) });
          Some (k, edited e) })"

definition max_len :: "bytes list \<Rightarrow> nat" where
  "max_len ss = fold (\<lambda>s m. max m (length s)) ss 0"

definition list_layout :: "'k sys \<Rightarrow> 'k \<Rightarrow> led \<Rightarrow> 'k \<times> nat \<times> nat" where
  "list_layout S k e =
     (case l_list e of None \<Rightarrow> (k, 1, 1)
      | Some l \<Rightarrow>
          let (k, w) = term_width S k;
              usable = max (w - 1) 1;
              col_w = min (max_len (map cd_display (cl_cands l)) + 2 + max_len (map cd_desc (cl_cands l)) + 3) usable
          in (k, col_w, max (usable div col_w) 1))"

text \<open>\<^verbatim>\<open>clamp(0, n - 1)\<close> panics on an empty list.\<close>

definition list_move_rows :: "'k sys \<Rightarrow> 'k \<Rightarrow> int \<Rightarrow> led \<Rightarrow> ('k \<times> led) option" where
  "list_move_rows S k delta e =
     (let (k, _, cols) = list_layout S k e
      in case l_list e of None \<Rightarrow> Some (k, e)
         | Some l \<Rightarrow>
             let n = int (length (cl_cands l));
                 cur = (case cl_sel l of None \<Rightarrow> if delta > 0 then - int cols else n | Some s \<Rightarrow> int s)
             in if n = 0 then None
                else do { e \<leftarrow> pick l (nat (min (max (cur + delta * int cols) 0) (n - 1))) e; Some (k, e) })"

fun back_over :: "(u8 \<Rightarrow> bool) \<Rightarrow> bytes \<Rightarrow> nat \<Rightarrow> nat" where
  "back_over P s 0 = 0"
| "back_over P s (Suc i) = (if P (s ! i) then back_over P s i else Suc i)"

definition erase_word :: "led \<Rightarrow> led option" where
  "erase_word e =
     (if l_cur e > length (l_buf e) then None
      else let i = back_over (\<lambda>b. b \<noteq> 32) (l_buf e) (back_over (\<lambda>b. b = 32) (l_buf e) (l_cur e))
           in do { b \<leftarrow> str_drain (l_buf e) i (l_cur e); Some (edited (e\<lparr>l_buf := b, l_cur := i\<rparr>)) })"

definition list_key :: "tkey \<Rightarrow> bool" where
  "list_key key \<longleftrightarrow> key \<in> {TTab, TUp, TDown, TEnter, TCtrl 112, TCtrl 110}"

definition stay :: "'k \<Rightarrow> led option \<Rightarrow> ('k \<times> led \<times> read_result option) option" where
  "stay k r = do { e \<leftarrow> r; Some (k, e, None) }"

definition stay' :: "('k \<times> led) option \<Rightarrow> ('k \<times> led \<times> read_result option) option" where
  "stay' r = do { (k, e) \<leftarrow> r; Some (k, e, None) }"

definition key_remove :: "led \<Rightarrow> nat \<Rightarrow> led option" where
  "key_remove e i = do { b \<leftarrow> str_remove (l_buf e) i; Some (edited (e\<lparr>l_buf := b, l_cur := i\<rparr>)) }"

definition key_char :: "u8 \<Rightarrow> led \<Rightarrow> led option" where
  "key_char c e = do { b \<leftarrow> str_insert (l_buf e) (l_cur e) c; Some (edited (e\<lparr>l_buf := b, l_cur := l_cur e + 1\<rparr>)) }"

definition key_right :: "'k sys \<Rightarrow> 'k \<Rightarrow> led \<Rightarrow> nat \<Rightarrow> ('k \<times> led) option" where
  "key_right S k e target = (if l_cur e < length (l_buf e) then Some (k, e\<lparr>l_cur := target\<rparr>) else accept_suggestion S k e)"

definition key_vertical :: "'k sys \<Rightarrow> 'k \<Rightarrow> led \<Rightarrow> int \<Rightarrow> ('k \<times> led) option" where
  "key_vertical S k e delta =
     (if l_list e \<noteq> None then list_move_rows S k delta e else do { e \<leftarrow> walk_history (delta < 0) e; Some (k, e) })"

text \<open>The keys with Ctrl.\<close>

definition ctrl_action :: "'k sys \<Rightarrow> 'k \<Rightarrow> led \<Rightarrow> u8 \<Rightarrow> ('k \<times> led \<times> read_result option) option" where
  "ctrl_action S k e c =
     (if c = 100 then stay k (if l_cur e < length (l_buf e) then key_remove e (l_cur e) else Some e)
     else if c = 98 then Some (k, e\<lparr>l_cur := l_cur e - 1\<rparr>, None)
     else if c = 97 then Some (k, e\<lparr>l_cur := 0\<rparr>, None)
     else if c = 102 then stay' (key_right S k e (l_cur e + 1))
     else if c = 101 then stay' (key_right S k e (length (l_buf e)))
     else if c = 112 then stay' (key_vertical S k e (-1))
     else if c = 110 then stay' (key_vertical S k e 1)
     else if c = 99 then Some (k, e, Some RCancelled)
     else if c = 108 then Some (k, e, Some RClear)
     else if c = 117 then stay k (do { b \<leftarrow> str_drain (l_buf e) 0 (l_cur e); Some (edited (e\<lparr>l_buf := b, l_cur := 0\<rparr>)) })
     else if c = 107 then stay k (do { b \<leftarrow> str_truncate (l_buf e) (l_cur e); Some (edited (e\<lparr>l_buf := b\<rparr>)) })
     else if c = 119 then stay k (erase_word e)
     else Some (k, e, None))"

definition key_action :: "'k sys \<Rightarrow> 'k \<Rightarrow> led \<Rightarrow> tkey \<Rightarrow> ('k \<times> led \<times> read_result option) option" where
  "key_action S k e key =
     (case key of
        TChar c \<Rightarrow> if 32 \<le> c \<and> c < 127 then stay k (key_char c e) else Some (k, e, None)
      | TBackspace \<Rightarrow> stay k (if l_cur e > 0 then key_remove e (l_cur e - 1) else Some e)
      | TDelete \<Rightarrow> stay k (if l_cur e < length (l_buf e) then key_remove e (l_cur e) else Some e)
      | TLeft \<Rightarrow> Some (k, e\<lparr>l_cur := l_cur e - 1\<rparr>, None)
      | THome \<Rightarrow> Some (k, e\<lparr>l_cur := 0\<rparr>, None)
      | TRight \<Rightarrow> stay' (key_right S k e (l_cur e + 1))
      | TEnd \<Rightarrow> stay' (key_right S k e (length (l_buf e)))
      | TUp \<Rightarrow> stay' (key_vertical S k e (-1))
      | TDown \<Rightarrow> stay' (key_vertical S k e 1)
      | TTab \<Rightarrow> stay' (complete S k e)
      | TEnter \<Rightarrow> (case l_list e of
            Some l \<Rightarrow> if cl_sel l \<noteq> None then Some (k, e\<lparr>l_list := None\<rparr>, None) else Some (k, e, Some (RLine (l_buf e)))
          | None \<Rightarrow> Some (k, e, Some (RLine (l_buf e))))
      | TEof \<Rightarrow> Some (k, e, Some REof)
      | TCtrl c \<Rightarrow> ctrl_action S k e c
      | _ \<Rightarrow> Some (k, e, None))"

definition handle :: "'k sys \<Rightarrow> 'k \<Rightarrow> led \<Rightarrow> tkey \<Rightarrow> ('k \<times> led \<times> read_result option) option" where
  "handle S k e key = key_action S k (if list_key key then e else e\<lparr>l_list := None\<rparr>) key"

section \<open>Drawing\<close>

definition set_pen :: "bytes \<Rightarrow> bytes \<times> bytes \<Rightarrow> bytes \<times> bytes" where
  "set_pen code po = (if code \<noteq> fst po then (code, snd po @ sgr code) else po)"

definition push_out :: "bytes \<Rightarrow> bytes \<times> bytes \<Rightarrow> bytes \<times> bytes" where
  "push_out s po = (fst po, snd po @ s)"

fun draw_chars :: "led \<Rightarrow> bytes list \<Rightarrow> bool \<Rightarrow> nat list \<Rightarrow> bytes \<times> bytes \<Rightarrow> (bytes \<times> bytes) option" where
  "draw_chars e cs fin [] po = Some po"
| "draw_chars e cs fin (i # is) po = do {
     c \<leftarrow> vec_get cs i;
     ch \<leftarrow> str_slice (l_buf e) i (i + 1);
     draw_chars e cs fin is (push_out ch (set_pen (ascii ''0;'' @ c @ (if \<not> fin \<and> i = l_cur e then ascii '';7'' else [])) po)) }"

text \<open>The cursor past the end of the line, on the suggestion's first character or a blank.\<close>

definition draw_end :: "bytes \<Rightarrow> nat \<Rightarrow> nat \<Rightarrow> bytes \<times> bytes \<Rightarrow> (bytes \<times> bytes) option" where
  "draw_end s avail shown po = do {
     under \<leftarrow> (if s = [] then Some [32] else str_slice s 0 1);
     let po = push_out under (set_pen (ascii ''0;'' @ DIM @ ascii '';7'') po);
     rest \<leftarrow> str_slice s (min (length s) 1) (length s);
     fit \<leftarrow> str_slice rest 0 (min (length rest) (avail - (shown + 1)));
     Some (push_out fit (set_pen (ascii ''0;'' @ DIM) po)) }"

definition follow_cursor :: "nat \<Rightarrow> bool \<Rightarrow> led \<Rightarrow> led" where
  "follow_cursor avail fin e =
     (let e = (if l_cur e < l_scroll e then e\<lparr>l_scroll := l_cur e\<rparr> else e);
          e = (if l_cur e \<ge> l_scroll e + avail then e\<lparr>l_scroll := l_cur e + 1 - avail\<rparr> else e)
      in if fin then e\<lparr>l_scroll := min (length (l_buf e) - (avail - 1)) (l_scroll e)\<rparr> else e)"

definition cand_color :: "candidate \<Rightarrow> bytes" where
  "cand_color c = (if cd_dir c then DIR else if prefix (ascii ''program'') (cd_desc c) then PROGRAM
     else if cd_desc c \<noteq> ascii ''file'' then COMMAND else RESET)"

text \<open>One cell of the list. A cell wider than its column would make the padding's width negative.\<close>

definition draw_cell :: "nat \<Rightarrow> nat \<Rightarrow> nat \<Rightarrow> bool \<Rightarrow> candidate \<Rightarrow> bytes option" where
  "draw_cell name_w col_w usable selected c = do {
     cell \<leftarrow> str_truncate (pad_right name_w (cd_display c) @ spaces 2 @ cd_desc c) (col_w - 1);
     (name, desc) \<leftarrow> str_split_at cell (min (length (cd_display c)) (length cell));
     let rev = (if selected then ascii '';7'' else []);
     if length cell > min col_w usable then None
     else Some (sgr (ascii ''0;'' @ cand_color c @ rev) @ name @ sgr (ascii ''0;'' @ DIM @ rev) @ desc @ sgr RESET @
       spaces (min col_w usable - length cell)) }"

fun draw_row :: "clist \<Rightarrow> nat \<Rightarrow> nat \<Rightarrow> nat \<Rightarrow> nat list \<Rightarrow> bytes option" where
  "draw_row l name_w col_w usable [] = Some []"
| "draw_row l name_w col_w usable (i # is) =
     (if i < length (cl_cands l) then do {
        a \<leftarrow> draw_cell name_w col_w usable (cl_sel l = Some i) (cl_cands l ! i);
        b \<leftarrow> draw_row l name_w col_w usable is;
        Some (a @ b) }
      else Some [])"

definition erase_right :: bytes where "erase_right = [27] @ ascii ''[K''"

fun draw_rows :: "clist \<Rightarrow> nat \<Rightarrow> nat \<Rightarrow> nat \<Rightarrow> nat \<Rightarrow> nat list \<Rightarrow> bytes option" where
  "draw_rows l name_w col_w cols usable [] = Some []"
| "draw_rows l name_w col_w cols usable (r # rs) = do {
     a \<leftarrow> draw_row l name_w col_w usable [r * cols..<r * cols + cols];
     b \<leftarrow> draw_rows l name_w col_w cols usable rs;
     Some ([13, 10] @ a @ erase_right @ b) }"

definition list_top :: "nat \<Rightarrow> nat \<Rightarrow> clist \<Rightarrow> clist" where
  "list_top cols shown_rows l =
     (case cl_sel l of None \<Rightarrow> l
      | Some sel \<Rightarrow> let row = sel div cols
                    in if row < cl_top l then l\<lparr>cl_top := row\<rparr>
                       else if row \<ge> cl_top l + shown_rows then l\<lparr>cl_top := row + 1 - shown_rows\<rparr> else l)"

definition list_note :: "nat \<Rightarrow> nat \<Rightarrow> nat \<Rightarrow> nat \<Rightarrow> bytes option" where
  "list_note top_row shown total_rows usable =
     (let note = ascii ''rows '' @ dec (top_row + 1) @ [45] @ dec (top_row + shown) @ ascii '' of '' @ dec total_rows @
                 ascii '' -- Tab cycles, Up/Down move''
      in do { s \<leftarrow> str_slice note 0 (min (length note) usable); Some ([13, 10] @ styled DIM s @ erase_right) })"

definition render_list :: "'k sys \<Rightarrow> 'k \<Rightarrow> nat \<Rightarrow> led \<Rightarrow> ('k \<times> led \<times> bytes \<times> nat) option" where
  "render_list S k usable e =
     (let (k, col_w, cols) = list_layout S k e
      in case l_list e of None \<Rightarrow> Some (k, e, [], 0)
         | Some l \<Rightarrow>
             let total_rows = div_ceil (length (cl_cands l)) cols;
                 shown_rows = min total_rows LIST_ROWS;
                 l = list_top cols shown_rows l;
                 name_w = max_len (map cd_display (cl_cands l))
             in do {
               body \<leftarrow> draw_rows l name_w col_w cols usable [cl_top l..<cl_top l + shown_rows];
               note \<leftarrow> (if total_rows > shown_rows then list_note (cl_top l) shown_rows total_rows usable else Some []);
               Some (k, e\<lparr>l_list := Some l\<rparr>, body @ note, if total_rows > shown_rows then shown_rows + 1 else shown_rows) })"

text \<open>The input line: the visible part of the text, the cursor, and the suggestion after it.\<close>

definition draw_line :: "nat \<Rightarrow> bool \<Rightarrow> bytes list \<Rightarrow> bytes option \<Rightarrow> led \<Rightarrow> bytes option" where
  "draw_line avail fin cs sugg e =
     (let stop = min (l_scroll e + avail) (length (l_buf e)); shown = stop - l_scroll e
      in if l_scroll e > stop then None
         else do {
           po \<leftarrow> draw_chars e cs fin [l_scroll e..<stop] ([], [13] @ l_prefix e);
           po \<leftarrow> (if \<not> fin \<and> l_cur e = length (l_buf e) \<and> shown < avail
                  then draw_end (case sugg of None \<Rightarrow> [] | Some s \<Rightarrow> s) avail shown po else Some po);
           Some (snd po @ sgr RESET @ [27] @ ascii ''[J'') })"

text \<open>What a redraw writes.\<close>

definition render :: "'k sys \<Rightarrow> 'k \<Rightarrow> bool \<Rightarrow> led \<Rightarrow> ('k \<times> led \<times> bytes) option" where
  "render S k fin e =
     (let (k, w) = term_width S k;
          usable = max (w - 1) 4;
          avail = max (usable - l_prefix_w e) 4
      in do {
        (k, cs) \<leftarrow> colors S k (l_buf e);
        (k, sugg) \<leftarrow> (if fin then Some (k, None) else suggestion S k e);
        let e = follow_cursor avail fin e;
        out \<leftarrow> draw_line avail fin cs sugg e;
        (k, e, body, rows) \<leftarrow> (if fin then Some (k, e, [], 0) else render_list S k usable e);
        Some (k, e, out @ body @ (if rows > 0 then [27, 91] @ dec rows @ ascii ''A'' else []) @
          [13, 27, 91] @ dec (l_prefix_w e + (l_cur e - l_scroll e)) @ ascii ''C'') })"

text \<open>Reading a line: redraw and handle keys until one of them ends it. The terminal is raw meanwhile.\<close>

definition redraw :: "'k sys \<Rightarrow> 'k \<Rightarrow> bool \<Rightarrow> led \<Rightarrow> ('k \<times> led) option" where
  "redraw S k fin e = do { (k, e, out) \<leftarrow> render S k fin e; k \<leftarrow> out_flush S k out; Some (k, e) }"

partial_function (option) edit_loop :: "'k sys \<Rightarrow> 'k \<Rightarrow> led \<Rightarrow> ('k \<times> read_result) option" where
  "edit_loop S k e = do {
     (k, e) \<leftarrow> redraw S k False e;
     (k, key) \<leftarrow> term_read_key S k;
     (k, e, r) \<leftarrow> handle S k e key;
     case r of None \<Rightarrow> edit_loop S k e
     | Some res \<Rightarrow> do {
         (k, e) \<leftarrow> redraw S k True (e\<lparr>l_list := None\<rparr>);
         k \<leftarrow> out_flush S k ((if res = RCancelled then styled DIM (ascii '' ^C'') else []) @ [10]);
         Some (k, res) } }"

definition read_line :: "'k sys \<Rightarrow> 'k psys \<Rightarrow> 'k \<Rightarrow> history \<Rightarrow> bytes \<Rightarrow> nat \<Rightarrow> ('k \<times> read_result) option" where
  "read_line S P k hist pre w =
     (let (k, raw) = raw_enable P k
      in do { (k, res) \<leftarrow> edit_loop S k (led_new hist pre w); Some (raw_drop P k raw, res) })"

end
