(* ===== verification/ShPrompt.thy ===== *)
theory ShPrompt
  imports ShText
begin

text \<open>
  The prompt, \<^verbatim>\<open>sh/src/prompt.rs\<close>: the segments of its two sides, how each style draws them, and the
  fitting of the whole to the terminal's width. Glyphs beyond ASCII are their UTF-8 bytes.
\<close>

definition SHOW_DURATION_MS :: nat where "SHOW_DURATION_MS = 500"
definition MIN_INPUT :: nat where "MIN_INPUT = 24"
definition GREY :: nat where "GREY = 8"
definition BLACK :: nat where "BLACK = 0"

record prompt_state =
  ps_cwd :: bytes
  ps_status :: int
  ps_duration :: nat

record rendered =
  r_header :: bytes
  r_prefix :: bytes
  r_prefix_width :: nat

record seg =
  sg_text :: bytes
  sg_fg :: nat
  sg_bg :: nat
  sg_plain :: nat
  sg_classic :: "nat option"
  sg_bold :: bool

record sline =
  ln_s :: bytes
  ln_w :: nat

section \<open>Styled lines\<close>

definition line_new :: sline where
  "line_new = \<lparr>ln_s = [], ln_w = 0\<rparr>"

definition color_code :: "nat \<Rightarrow> nat \<Rightarrow> nat option \<Rightarrow> bytes" where
  "color_code dark bright i = (case i of None \<Rightarrow> [] | Some i \<Rightarrow> 59 # dec (if i < 8 then dark + i else bright + i - 8))"

definition line_put :: "bytes \<Rightarrow> nat option \<Rightarrow> nat option \<Rightarrow> bool \<Rightarrow> sline \<Rightarrow> sline" where
  "line_put text fg bg bold l =
     l\<lparr>ln_s := ln_s l @ [27, 91, 48] @ (if bold then ascii '';1'' else []) @ color_code 30 90 fg @ color_code 40 100 bg @ [109] @ text,
       ln_w := ln_w l + char_count text\<rparr>"

definition line_append :: "sline \<Rightarrow> sline \<Rightarrow> sline" where
  "line_append l other = l\<lparr>ln_s := ln_s l @ ln_s other, ln_w := ln_w l + ln_w other\<rparr>"

section \<open>Segments\<close>

definition fmt_ms :: "nat \<Rightarrow> bytes" where
  "fmt_ms ms =
     (if ms < 1000 then dec ms @ ascii ''ms''
      else if ms < 60000 then dec (ms div 1000) @ [46] @ dec (ms mod 1000 div 100) @ ascii ''s''
      else dec (ms div 60000) @ ascii ''m'' @
        (let d = dec (ms mod 60000 div 1000) in replicate (2 - length d) 48 @ d) @ ascii ''s'')"

text \<open>The characters of a string after its first \<open>n\<close>.\<close>

fun skip_chars :: "nat \<Rightarrow> bytes \<Rightarrow> bytes" where
  "skip_chars n [] = []"
| "skip_chars n (b # bs) = (if is_boundary b then (case n of 0 \<Rightarrow> b # bs | Suc m \<Rightarrow> skip_chars m bs) else skip_chars n bs)"

definition ellipsis :: bytes where "ellipsis = [0xE2, 0x80, 0xA6]"

definition shorten :: "bytes \<Rightarrow> nat \<Rightarrow> bytes" where
  "shorten path room =
     (let n = char_count path
      in if n \<le> room then path else let keep = room - 1 in ellipsis @ skip_chars (n - keep) path)"

definition left_segs :: "bool \<Rightarrow> bytes \<Rightarrow> seg list" where
  "left_segs sys path =
     (if sys then [\<lparr>sg_text = ascii ''AnssOS'', sg_fg = BLACK, sg_bg = 5, sg_plain = 13, sg_classic = None, sg_bold = False\<rparr>] else []) @
     [\<lparr>sg_text = path, sg_fg = 15, sg_bg = 4, sg_plain = 12, sg_classic = Some 15, sg_bold = True\<rparr>]"

definition check_mark :: bytes where "check_mark = [0xE2, 0x9C, 0x94]"
definition cross_mark :: bytes where "cross_mark = [0xE2, 0x9C, 0x98]"

definition right_segs :: "config \<Rightarrow> prompt_state \<Rightarrow> bool \<Rightarrow> seg list" where
  "right_segs cfg st always_status =
     (if ps_duration st \<ge> SHOW_DURATION_MS
      then [\<lparr>sg_text = fmt_ms (ps_duration st), sg_fg = BLACK, sg_bg = 3, sg_plain = 11, sg_classic = None, sg_bold = False\<rparr>] else []) @
     (if ps_status st = 0
      then (if always_status
            then [\<lparr>sg_text = (if c_glyphs cfg then check_mark else ascii ''ok''), sg_fg = BLACK, sg_bg = 2, sg_plain = 10,
                   sg_classic = None, sg_bold = True\<rparr>] else [])
      else [\<lparr>sg_text = (if c_glyphs cfg then cross_mark else ascii ''x'') @ [32] @ dec_int (ps_status st), sg_fg = 15, sg_bg = 1,
              sg_plain = 9, sg_classic = None, sg_bold = True\<rparr>])"

section \<open>Blocks\<close>

datatype side = SideLeft | SideRight

text \<open>The private-use character \<^verbatim>\<open>U+E0B0\<close> and those after it.\<close>

definition powerline :: "u8 \<Rightarrow> bytes" where
  "powerline b = [0xEE, 0x82, 0xB0 + b]"

fun end_glyphs :: "side \<Rightarrow> seg_ends \<Rightarrow> bytes \<times> bytes \<times> bytes" where
  "end_glyphs SideLeft Sharp = ([], powerline 0, powerline 0)"
| "end_glyphs SideLeft Round = (powerline 6, powerline 4, powerline 4)"
| "end_glyphs SideRight Sharp = (powerline 2, powerline 2, [])"
| "end_glyphs SideRight Round = (powerline 6, powerline 6, powerline 4)"
| "end_glyphs _ Flat = ([], [], [])"

fun thin_glyph :: "side \<Rightarrow> seg_ends \<Rightarrow> bytes" where
  "thin_glyph SideLeft Sharp = powerline 1"
| "thin_glyph SideLeft Round = powerline 5"
| "thin_glyph SideRight Sharp = powerline 3"
| "thin_glyph SideRight Round = powerline 7"
| "thin_glyph _ Flat = [0xE2, 0x94, 0x82]"

definition seg_bg :: "bool \<Rightarrow> seg \<Rightarrow> nat" where
  "seg_bg rainbow s = (if rainbow then sg_bg s else GREY)"

definition seg_fg :: "bool \<Rightarrow> seg \<Rightarrow> nat" where
  "seg_fg rainbow s = (if rainbow then sg_fg s else (case sg_classic s of None \<Rightarrow> sg_plain s | Some c \<Rightarrow> c))"

fun lean_segs :: "bool \<Rightarrow> seg list \<Rightarrow> sline \<Rightarrow> sline" where
  "lean_segs rest [] l = l"
| "lean_segs rest (s # ss) l =
     lean_segs True ss (line_put (sg_text s) (Some (sg_plain s)) None (sg_bold s) (if rest then line_put [32] None None False l else l))"

definition divider :: "bool \<Rightarrow> side \<Rightarrow> bytes \<Rightarrow> bytes \<Rightarrow> seg \<Rightarrow> seg \<Rightarrow> sline \<Rightarrow> sline" where
  "divider rainbow side thin sep prev s l =
     (if \<not> rainbow then line_put thin (Some BLACK) (Some GREY) False l
      else if sep \<noteq> [] then
        (case side of
           SideLeft \<Rightarrow> line_put sep (Some (seg_bg rainbow prev)) (Some (seg_bg rainbow s)) False l
         | SideRight \<Rightarrow> line_put sep (Some (seg_bg rainbow s)) (Some (seg_bg rainbow prev)) False l)
      else l)"

fun band_segs :: "bool \<Rightarrow> side \<Rightarrow> bytes \<Rightarrow> bytes \<Rightarrow> seg option \<Rightarrow> seg list \<Rightarrow> sline \<Rightarrow> sline" where
  "band_segs rainbow side thin sep prev [] l = l"
| "band_segs rainbow side thin sep prev (s # ss) l =
     band_segs rainbow side thin sep (Some s) ss
       (line_put (32 # sg_text s @ [32]) (Some (seg_fg rainbow s)) (Some (seg_bg rainbow s)) (sg_bold s)
         (case prev of None \<Rightarrow> l | Some p \<Rightarrow> divider rainbow side thin sep p s l))"

definition block :: "config \<Rightarrow> seg list \<Rightarrow> side \<Rightarrow> sline" where
  "block cfg segs side =
     (if segs = [] then line_new
      else if c_style cfg = Lean then lean_segs False segs line_new
      else let rainbow = (c_style cfg = Rainbow);
               (start, sep, end_glyph) = end_glyphs side (c_ends cfg);
               thin = thin_glyph side (c_ends cfg);
               l = (if start \<noteq> [] then line_put start (Some (seg_bg rainbow (hd segs))) None False line_new else line_new);
               l = band_segs rainbow side thin sep None segs l
           in if end_glyph \<noteq> [] then line_put end_glyph (Some (seg_bg rainbow (last segs))) None False l else l)"

section \<open>The prompt\<close>

definition frame_bottom :: bytes where "frame_bottom = [0xE2, 0x95, 0xB0, 0xE2, 0x94, 0x80]"
definition frame_top :: bytes where "frame_top = [0xE2, 0x95, 0xAD, 0xE2, 0x94, 0x80]"
definition angle :: bytes where "angle = [0xE2, 0x9D, 0xAF]"
definition plain_sgr :: bytes where "plain_sgr = [27] @ ascii ''[0m''"

definition mark_line :: "config \<Rightarrow> prompt_state \<Rightarrow> sline" where
  "mark_line cfg st =
     (let l = line_new;
          l = (if c_two_lines cfg \<and> c_frame cfg then line_put frame_bottom (Some GREY) None False l else l);
          l = line_put (if c_glyphs cfg then angle else ascii ''>'') (Some (if ps_status st = 0 then 10 else 9)) None True l;
          l = line_put [32] None None False l
      in l\<lparr>ln_s := ln_s l @ plain_sgr\<rparr>)"

definition frame_line :: "config \<Rightarrow> sline" where
  "frame_line cfg =
     (if c_frame cfg then line_put (if c_style cfg = Lean then frame_top @ [32] else frame_top) (Some GREY) None False line_new else line_new)"

fun fill_glyph :: "fill \<Rightarrow> bytes" where
  "fill_glyph Blank = [32]"
| "fill_glyph Dotted = [0xC2, 0xB7]"
| "fill_glyph Solid = [0xE2, 0x94, 0x80]"

definition fill_text_of :: "config \<Rightarrow> nat \<Rightarrow> bytes" where
  "fill_text_of cfg n = 32 # concat (replicate (n - 2) (fill_glyph (c_fill cfg))) @ (if n \<ge> 2 then [32] else [])"

text \<open>One attempt at the first of two lines: with or without the system name and the right side. \<open>None\<close>
  is an attempt that leaves the path too little room.\<close>

definition header_try :: "config \<Rightarrow> prompt_state \<Rightarrow> nat \<Rightarrow> bool \<times> bool \<Rightarrow> sline option" where
  "header_try cfg st usable attempt =
     (let (sys, right_side) = attempt;
          rs = (if right_side then right_segs cfg st True else []);
          r = block cfg rs SideRight;
          bare = block cfg (left_segs sys []) SideLeft;
          gap = (if rs = [] then 0 else 5);
          room = usable - (ln_w (frame_line cfg) + ln_w bare + ln_w r + gap)
      in if room \<ge> 8 \<or> \<not> right_side
         then let l = block cfg (left_segs sys (shorten (ps_cwd st) room)) SideLeft;
                  line = line_append (line_append line_new (frame_line cfg)) l
              in Some (if rs = [] then line
                       else let n = usable - (ln_w line + ln_w r)
                            in line_append (line_put (fill_text_of cfg n) (Some GREY) None False line) r)
         else None)"

fun first_some :: "('a \<Rightarrow> 'b option) \<Rightarrow> 'a list \<Rightarrow> 'b option" where
  "first_some f [] = None"
| "first_some f (x # xs) = (case f x of None \<Rightarrow> first_some f xs | Some y \<Rightarrow> Some y)"

definition header_line :: "config \<Rightarrow> prompt_state \<Rightarrow> nat \<Rightarrow> sline option" where
  "header_line cfg st usable = first_some (header_try cfg st usable) [(c_system cfg, True), (False, True), (False, False)]"

definition one_line_try :: "config \<Rightarrow> prompt_state \<Rightarrow> nat \<Rightarrow> bool \<Rightarrow> sline option" where
  "one_line_try cfg st budget sys =
     (let mark = mark_line cfg st;
          bare = block cfg (left_segs sys [] @ right_segs cfg st False) SideLeft;
          room = budget - (ln_w bare + 1 + ln_w mark)
      in if room \<ge> 8 \<or> \<not> sys
         then let line = block cfg (left_segs sys (shorten (ps_cwd st) (max room 4)) @ right_segs cfg st False) SideLeft
              in Some (line_append (line_put [32] None None False line) mark)
         else None)"

text \<open>\<open>None\<close> is the \<^verbatim>\<open>unreachable!()\<close> of the one-line prompt.\<close>

definition prompt_render :: "config \<Rightarrow> prompt_state \<Rightarrow> nat \<Rightarrow> bool \<Rightarrow> rendered option" where
  "prompt_render cfg st width fresh =
     (let usable = max (width - 1) 8;
          header = (if c_sparse cfg \<and> \<not> fresh then [10] else []);
          mark = mark_line cfg st
      in if c_two_lines cfg
         then Some \<lparr>r_header = header @ (case header_line cfg st usable of None \<Rightarrow> [] | Some line \<Rightarrow> ln_s line @ plain_sgr @ [10]),
                    r_prefix = ln_s mark, r_prefix_width = ln_w mark\<rparr>
         else let budget = usable - MIN_INPUT
              in case first_some (one_line_try cfg st budget) [c_system cfg, False] of
                   None \<Rightarrow> None
                 | Some line \<Rightarrow> Some \<lparr>r_header = header, r_prefix = ln_s line, r_prefix_width = ln_w line\<rparr>)"


section \<open>Columns\<close>

text \<open>The columns that bytes take on a terminal: one per character, none for an escape sequence up to its
  final \<^verbatim>\<open>m\<close> and none for a newline.\<close>

fun cols_from :: "bool \<Rightarrow> bytes \<Rightarrow> nat" where
  "cols_from e [] = 0"
| "cols_from True (b # bs) = cols_from (b \<noteq> 109) bs"
| "cols_from False (b # bs) = (if b = 27 then cols_from True bs else (if b \<noteq> 10 \<and> is_boundary b then 1 else 0) + cols_from False bs)"

fun in_escape :: "bool \<Rightarrow> bytes \<Rightarrow> bool" where
  "in_escape e [] = e"
| "in_escape True (b # bs) = in_escape (b \<noteq> 109) bs"
| "in_escape False (b # bs) = in_escape (b = 27) bs"

definition columns :: "bytes \<Rightarrow> nat" where
  "columns s = cols_from False s"

lemma cols_from_append: "cols_from e (a @ b) = cols_from e a + cols_from (in_escape e a) b"
  by (induction e a rule: in_escape.induct) auto

lemma in_escape_append: "in_escape e (a @ b) = in_escape (in_escape e a) b"
  by (induction e a rule: in_escape.induct) auto

definition printable :: "bytes \<Rightarrow> bool" where
  "printable s \<longleftrightarrow> (\<forall>b \<in> set s. 32 \<le> b)"

lemma printable_simps [simp]: "printable []" "printable (b # s) = (32 \<le> b \<and> printable s)" "printable (s @ t) = (printable s \<and> printable t)"
  by (auto simp: printable_def)

lemma char_count_simps [simp]:
  "char_count [] = 0" "char_count (b # s) = (if is_boundary b then 1 else 0) + char_count s" "char_count (s @ t) = char_count s + char_count t"
  by (simp_all add: char_count_def)

lemma printable_cols: "printable s \<Longrightarrow> cols_from False s = char_count s \<and> \<not> in_escape False s"
proof (induction s)
  case (Cons b s)
  then have "b \<noteq> 27" "b \<noteq> 10" by auto
  with Cons show ?case by simp
qed simp

text \<open>The digits and separators of an escape sequence do not end it.\<close>

definition quiet :: "bytes \<Rightarrow> bool" where
  "quiet s \<longleftrightarrow> 109 \<notin> set s"

lemma quiet_cols: "quiet s \<Longrightarrow> cols_from True s = 0 \<and> in_escape True s"
  by (induction s) (auto simp: quiet_def)

lemma digit_range: "n < 10 \<Longrightarrow> 48 \<le> (word_of_nat (48 + n) :: u8) \<and> (word_of_nat (48 + n) :: u8) \<le> 57"
  unfolding word_le_nat_alt unat_of_nat by simp

lemma dec_digits: "b \<in> set (dec n) \<Longrightarrow> 48 \<le> b \<and> b \<le> 57"
proof (induction n rule: dec.induct)
  case (1 n)
  from "1.prems" have "b = word_of_nat (48 + n mod 10) \<or> \<not> n < 10 \<and> b \<in> set (dec (n div 10))"
    by (subst (asm) dec.simps) (auto split: if_splits)
  with "1.IH" digit_range [of "n mod 10"] show ?case by auto
qed

lemma dec_quiet: "quiet (dec n)"
  using dec_digits [of 109 n] by (auto simp: quiet_def)

lemma dec_printable: "printable (dec n)"
  unfolding printable_def
proof
  fix b assume "b \<in> set (dec n)"
  from dec_digits [OF this] have "48 \<le> b" by simp
  then show "32 \<le> b" by (rule order_trans [rotated]) simp
qed

lemma color_code_quiet: "quiet (color_code d b i)"
  using dec_quiet by (auto simp: color_code_def quiet_def split: option.splits)

section \<open>What a line prints is what it counts\<close>

definition line_ok :: "sline \<Rightarrow> bool" where
  "line_ok l \<longleftrightarrow> columns (ln_s l) = ln_w l \<and> \<not> in_escape False (ln_s l)"

lemma line_new_ok: "line_ok line_new" "ln_w line_new = 0"
  by (simp_all add: line_ok_def line_new_def columns_def)

lemma line_put_ok:
  assumes "line_ok l" "printable t"
  shows "line_ok (line_put t fg bg bold l)"
proof -
  let ?q = "(if bold then ascii '';1'' else []) @ color_code 30 90 fg @ color_code 40 100 bg"
  have "quiet ?q" using color_code_quiet [of 30 90 fg] color_code_quiet [of 40 100 bg] by (auto simp: quiet_def)
  from quiet_cols [OF this] printable_cols [OF assms(2)] assms(1) show ?thesis
    by (simp add: line_ok_def line_put_def columns_def cols_from_append in_escape_append)
qed

lemma line_put_w [simp]: "ln_w (line_put t fg bg bold l) = ln_w l + char_count t"
  by (simp add: line_put_def)

lemma line_append_ok: "line_ok l \<Longrightarrow> line_ok m \<Longrightarrow> line_ok (line_append l m)"
  by (simp add: line_ok_def line_append_def columns_def cols_from_append in_escape_append)

lemma line_append_w [simp]: "ln_w (line_append l m) = ln_w l + ln_w m"
  by (simp add: line_append_def)

lemma lean_segs_ok: "line_ok l \<Longrightarrow> \<forall>s \<in> set ss. printable (sg_text s) \<Longrightarrow> line_ok (lean_segs r ss l)"
  by (induction ss arbitrary: r l) (simp_all add: line_put_ok)

lemma glyphs_printable: "(a, b, c) = end_glyphs d e \<Longrightarrow> printable a \<and> printable b \<and> printable c" "printable (thin_glyph d e)"
  by (cases d; cases e; simp add: powerline_def)+

lemma divider_ok: "line_ok l \<Longrightarrow> printable thin \<Longrightarrow> printable sep \<Longrightarrow> line_ok (divider r d thin sep p s l)"
  by (auto simp: divider_def split: side.splits intro: line_put_ok)

lemma band_segs_ok:
  "line_ok l \<Longrightarrow> printable thin \<Longrightarrow> printable sep \<Longrightarrow> \<forall>s \<in> set ss. printable (sg_text s) \<Longrightarrow> line_ok (band_segs r d thin sep p ss l)"
  by (induction ss arbitrary: p l) (simp_all add: line_put_ok divider_ok split: option.splits)

lemma block_ok:
  assumes "\<forall>s \<in> set ss. printable (sg_text s)"
  shows "line_ok (block cfg ss d)"
proof -
  obtain a b c where g: "(a, b, c) = end_glyphs d (c_ends cfg)" by (metis prod_cases3)
  note p = glyphs_printable(1) [OF g] glyphs_printable(2) [of d "c_ends cfg"]
  show ?thesis
    using p by (auto simp: block_def g [symmetric] Let_def intro!: line_new_ok lean_segs_ok line_put_ok band_segs_ok assms)
qed

section \<open>Widths\<close>

definition text_w :: "seg list \<Rightarrow> nat" where
  "text_w ss = sum_list (map (\<lambda>s. char_count (sg_text s)) ss)"

lemma lean_segs_w: "ln_w (lean_segs r ss l) = ln_w l + text_w ss + (if r then length ss else length ss - 1)"
  by (induction r ss l rule: lean_segs.induct) (auto simp: text_w_def is_boundary_def)

definition divider_w :: "bool \<Rightarrow> bytes \<Rightarrow> bytes \<Rightarrow> nat" where
  "divider_w r thin sep = (if r then char_count sep else char_count thin)"

lemma divider_w_eq: "ln_w (divider r d thin sep p s l) = ln_w l + divider_w r thin sep"
  by (auto simp: divider_def divider_w_def split: side.splits)

lemma band_segs_w:
  "ln_w (band_segs r d thin sep p ss l) =
   ln_w l + text_w ss + 2 * length ss + divider_w r thin sep * (if p = None then length ss - 1 else length ss)"
proof (induction r d thin sep p ss l rule: band_segs.induct)
  case (2 r d thin sep p s ss l)
  then show ?case by (cases p) (auto simp: text_w_def divider_w_eq is_boundary_def)
qed (simp add: text_w_def)

text \<open>What a block takes beside its texts depends on the number of segments alone.\<close>

definition overhead :: "config \<Rightarrow> nat \<Rightarrow> side \<Rightarrow> nat" where
  "overhead cfg n d =
     (if n = 0 then 0 else if c_style cfg = Lean then n - 1
      else let (start, sep, e) = end_glyphs d (c_ends cfg)
           in char_count start + 2 * n + divider_w (c_style cfg = Rainbow) (thin_glyph d (c_ends cfg)) sep * (n - 1) + char_count e)"

lemma block_w: "ln_w (block cfg ss d) = overhead cfg (length ss) d + text_w ss"
  by (auto simp: block_def overhead_def lean_segs_w band_segs_w line_new_ok(2) text_w_def Let_def split: prod.splits)

lemma char_count_skip: "char_count (skip_chars n s) = char_count s - n"
  by (induction n s rule: skip_chars.induct) (auto split: nat.splits)

lemma shorten_w: "0 < room \<Longrightarrow> char_count (shorten p room) \<le> room"
  by (simp add: shorten_def Let_def char_count_skip ellipsis_def is_boundary_def)

lemma skip_chars_printable: "printable s \<Longrightarrow> printable (skip_chars n s)"
  by (induction n s rule: skip_chars.induct) (auto split: nat.splits)

lemma shorten_printable: "printable p \<Longrightarrow> printable (shorten p room)"
  by (simp add: shorten_def Let_def skip_chars_printable ellipsis_def)

lemma left_segs_simps:
  "length (left_segs sys p) = (if sys then 2 else 1)" "text_w (left_segs sys p) = (if sys then 6 else 0) + char_count p"
  "(\<forall>s \<in> set (left_segs sys p). printable (sg_text s)) = printable p"
  by (auto simp: left_segs_def text_w_def is_boundary_def)

lemma text_w_append [simp]: "text_w (a @ b) = text_w a + text_w b"
  by (simp add: text_w_def)

lemma right_segs_printable: "\<forall>s \<in> set (right_segs cfg st always). printable (sg_text s)"
proof -
  have d: "printable (dec n)" "printable (dec_int z)" "printable (fmt_ms n)" for n z
    by (simp_all add: dec_printable dec_int_def fmt_ms_def Let_def) (simp add: printable_def)
  then show ?thesis by (auto simp: right_segs_def check_mark_def cross_mark_def)
qed

lemma frame_ok: "line_ok (frame_line cfg)"
  by (auto simp: frame_line_def frame_top_def intro!: line_new_ok line_put_ok)

lemma frame_w: "ln_w (frame_line cfg) = (if c_frame cfg then if c_style cfg = Lean then 3 else 2 else 0)"
  by (auto simp: frame_line_def frame_top_def is_boundary_def line_new_ok)

lemma plain_sgr_ok: "line_ok l \<Longrightarrow> line_ok (l\<lparr>ln_s := ln_s l @ plain_sgr\<rparr>)"
  by (simp add: line_ok_def columns_def cols_from_append in_escape_append plain_sgr_def)

lemma mark_ok: "line_ok (mark_line cfg st)"
  unfolding mark_line_def Let_def
  by (intro plain_sgr_ok line_put_ok) (auto simp: frame_bottom_def angle_def intro!: line_new_ok line_put_ok)

lemma mark_w: "ln_w (mark_line cfg st) = (if c_two_lines cfg \<and> c_frame cfg then 4 else 2)"
  by (simp add: mark_line_def Let_def frame_bottom_def angle_def is_boundary_def line_new_ok)

lemma fill_glyph_w: "char_count (fill_glyph f) = 1" "printable (fill_glyph f)"
  by (cases f; simp add: is_boundary_def)+

lemma fill_w: "2 \<le> n \<Longrightarrow> char_count (fill_text_of cfg n) = n" "printable (fill_text_of cfg n)"
proof -
  have "char_count (concat (replicate m g)) = m * char_count g" "printable g \<Longrightarrow> printable (concat (replicate m g))" for m g
    by (induction m) simp_all
  with fill_glyph_w [of "c_fill cfg"] show "2 \<le> n \<Longrightarrow> char_count (fill_text_of cfg n) = n" "printable (fill_text_of cfg n)"
    by (simp_all add: fill_text_of_def is_boundary_def)
qed

text \<open>With no system name and no right side, a usable width of eight leaves the path at least two columns.\<close>

lemma bare_left_small: "ln_w (frame_line cfg) + overhead cfg 1 SideLeft \<le> 6"
  by (cases "c_ends cfg") (auto simp: frame_w overhead_def powerline_def is_boundary_def)

lemma left_w: "ln_w (block cfg (left_segs sys p) SideLeft) = ln_w (block cfg (left_segs sys []) SideLeft) + char_count p"
  by (simp add: block_w left_segs_simps)

lemma header_try_fits:
  assumes u: "8 \<le> usable" and p: "printable (ps_cwd st)" and h: "header_try cfg st usable (sys, rs) = Some l" and s: "rs \<or> \<not> sys"
  shows "line_ok l \<and> ln_w l \<le> usable"
proof -
  define R where "R = (if rs then right_segs cfg st True else [])"
  define f b r g where "f = ln_w (frame_line cfg)" and "b = ln_w (block cfg (left_segs sys []) SideLeft)"
    and "r = ln_w (block cfg R SideRight)" and "g = (if R = [] then 0 else (5::nat))"
  define room where "room = usable - (f + b + r + g)"
  define line where "line = line_append (line_append line_new (frame_line cfg)) (block cfg (left_segs sys (shorten (ps_cwd st) room)) SideLeft)"
  define m where "m = usable - (ln_w line + r)"
  have room: "8 \<le> room \<or> \<not> rs" and l: "l = (if R = [] then line
      else line_append (line_put (fill_text_of cfg m) (Some GREY) None False line) (block cfg R SideRight))"
    using h by (auto simp: header_try_def Let_def R_def f_def b_def r_def g_def room_def line_def m_def split: if_splits)
  have lok: "line_ok line" unfolding line_def
    by (intro line_append_ok line_new_ok frame_ok block_ok) (simp add: left_segs_simps shorten_printable p)
  have rok: "line_ok (block cfg R SideRight)" by (rule block_ok) (use right_segs_printable [of cfg st True] in \<open>simp add: R_def\<close>)
  have w: "ln_w line = f + b + char_count (shorten (ps_cwd st) room)"
    by (simp add: line_def f_def b_def line_new_ok left_w [of cfg sys "shorten (ps_cwd st) room"])
  show ?thesis
  proof (cases "R = []")
    case True
    then have "\<not> rs" by (auto simp: R_def right_segs_def split: if_splits)
    with s have "f + b \<le> 6" using bare_left_small [of cfg] by (simp add: f_def b_def block_w left_segs_simps)
    moreover have "r = 0" "g = 0" using True by (simp_all add: r_def g_def block_w overhead_def text_w_def)
    ultimately have "2 \<le> room" "f + b + room = usable" using u by (simp_all add: room_def)
    then show ?thesis using True l lok w shorten_w [of room "ps_cwd st"] by simp
  next
    case False
    then have "rs" by (auto simp: R_def split: if_splits)
    with room have "8 \<le> room" by simp
    moreover from this have "f + b + r + 5 + room = usable" using False by (simp add: room_def g_def)
    ultimately have "ln_w line + r + 5 \<le> usable" using w shorten_w [of room "ps_cwd st"] by linarith
    then have "5 \<le> m" "ln_w line + r + m = usable" by (simp_all add: m_def)
    then show ?thesis using False l lok rok fill_w(1) [of m cfg] fill_w(2) [of cfg m] by (simp add: line_append_ok line_put_ok r_def)
  qed
qed

lemma first_some_ex: "x \<in> set xs \<Longrightarrow> f x \<noteq> None \<Longrightarrow> \<exists>y a. first_some f xs = Some y \<and> a \<in> set xs \<and> f a = Some y"
  by (induction xs) (auto split: option.splits)

lemma header_line_fits:
  assumes "8 \<le> usable" "printable (ps_cwd st)"
  shows "\<exists>l. header_line cfg st usable = Some l \<and> line_ok l \<and> ln_w l \<le> usable"
proof -
  have "header_try cfg st usable (False, False) \<noteq> None" by (simp add: header_try_def Let_def)
  then obtain l a where a: "header_line cfg st usable = Some l" "header_try cfg st usable a = Some l"
    "a \<in> set [(c_system cfg, True), (False, True), (False, False)]"
    using first_some_ex [of "(False, False)" "[(c_system cfg, True), (False, True), (False, False)]" "header_try cfg st usable"]
    unfolding header_line_def by auto
  from a(3) have "snd a \<or> \<not> fst a" by auto
  with header_try_fits [OF assms, of cfg "fst a" "snd a" l] a show ?thesis by simp
qed

definition bare_one_line :: "config \<Rightarrow> prompt_state \<Rightarrow> bool \<Rightarrow> nat" where
  "bare_one_line cfg st sys = ln_w (block cfg (left_segs sys [] @ right_segs cfg st False) SideLeft)"

lemma one_line_try_fits:
  assumes p: "printable (ps_cwd st)" and nt: "\<not> c_two_lines cfg" and o: "one_line_try cfg st budget sys = Some l"
  shows "line_ok l \<and> ln_w l \<le> max budget (bare_one_line cfg st False + 7)"
proof -
  define b where "b = bare_one_line cfg st sys"
  define room where "room = budget - (b + 3)"
  let ?segs = "left_segs sys (shorten (ps_cwd st) (max room 4)) @ right_segs cfg st False"
  have l: "l = line_append (line_put [32] None None False (block cfg ?segs SideLeft)) (mark_line cfg st)" and room: "8 \<le> room \<or> \<not> sys"
    using o nt by (auto simp: one_line_try_def Let_def b_def room_def bare_one_line_def mark_w numeral_3_eq_3 split: if_splits)
  have "line_ok (block cfg ?segs SideLeft)"
    using p right_segs_printable [of cfg st False] shorten_printable [OF p] left_segs_simps(3) [of sys "shorten (ps_cwd st) (max room 4)"]
    by (intro block_ok) auto
  then have "line_ok l" unfolding l by (simp add: line_append_ok line_put_ok mark_ok)
  moreover have "ln_w l = b + 3 + char_count (shorten (ps_cwd st) (max room 4))"
    using nt by (simp add: l b_def bare_one_line_def block_w left_segs_simps mark_w is_boundary_def)
  moreover have "char_count (shorten (ps_cwd st) (max room 4)) \<le> max room 4" by (rule shorten_w) simp
  ultimately show ?thesis using room by (cases "4 \<le> room") (auto simp: room_def b_def)
qed

text \<open>
  C31: the prompt fits the terminal. Whatever the settings, the status, the duration and the width, and for a
  working directory without control characters, rendering never reaches its \<^verbatim>\<open>unreachable!()\<close>, and the width it reports for the
  part before the input is the number of columns that part's bytes take. On two lines the header leaves the last column free, so that it does not
  wrap, on a terminal of nine columns or more; on a narrower one it takes at most eight. On one line there is no header, and the input keeps \<^verbatim>\<open>MIN_INPUT\<close> columns, beside
  the last, on a terminal that has them after four columns of the path and the rest of the prompt; on a narrower one the prompt takes just these.
\<close>

theorem prompt_fits:
  assumes "printable (ps_cwd st)"
  shows "\<exists>r. prompt_render cfg st width fresh = Some r \<and> columns (r_prefix r) = r_prefix_width r \<and>
    (if c_two_lines cfg
     then (9 \<le> width \<longrightarrow> columns (r_header r) < width) \<and> columns (r_header r) \<le> max (width - 1) 8 \<and> r_prefix_width r \<le> 4
     else columns (r_header r) = 0 \<and>
       (bare_one_line cfg st False + 7 + MIN_INPUT < width \<longrightarrow> r_prefix_width r + MIN_INPUT < width) \<and>
       r_prefix_width r \<le> max (max (width - 1) 8 - MIN_INPUT) (bare_one_line cfg st False + 7))"
proof (cases "c_two_lines cfg")
  case True
  obtain l where l: "header_line cfg st (max (width - 1) 8) = Some l" "line_ok l" "ln_w l \<le> max (width - 1) 8"
    using header_line_fits [of "max (width - 1) 8" st cfg] assms by auto
  have "columns (ln_s l @ plain_sgr @ [10]) = ln_w l"
    using l(2) by (simp add: line_ok_def columns_def cols_from_append plain_sgr_def)
  moreover have "columns ([10] @ s) = columns s" for s by (simp add: columns_def)
  ultimately show ?thesis using True l mark_ok [of cfg st] mark_w [of cfg st]
    by (auto simp: prompt_render_def Let_def line_ok_def)
next
  case False
  let ?b = "max (width - 1) 8 - MIN_INPUT"
  have "one_line_try cfg st ?b False \<noteq> None" by (simp add: one_line_try_def Let_def)
  then obtain l a where l: "first_some (one_line_try cfg st ?b) [c_system cfg, False] = Some l" "one_line_try cfg st ?b a = Some l"
    using first_some_ex [of False "[c_system cfg, False]" "one_line_try cfg st ?b"] by auto
  note fit = one_line_try_fits [OF assms False l(2)]
  have "ln_w l + MIN_INPUT < width" if "bare_one_line cfg st False + 7 + MIN_INPUT < width"
    using fit that unfolding line_ok_def MIN_INPUT_def by linarith
  with fit l(1) False show ?thesis
    by (simp add: prompt_render_def Let_def line_ok_def columns_def)
qed

text \<open>A failed command in the settings the shell starts with, on a terminal of forty columns.\<close>

theorem prompt_fits_witness:
  "\<exists>r. prompt_render config_default \<lparr>ps_cwd = ascii ''/code/project/src'', ps_status = 127, ps_duration = 65000\<rparr> 40 True = Some r \<and>
     columns (r_prefix r) = r_prefix_width r \<and> columns (r_header r) < 40 \<and> r_prefix_width r \<le> 4"
proof -
  let ?st = "\<lparr>ps_cwd = ascii ''/code/project/src'', ps_status = 127, ps_duration = 65000\<rparr>"
  have "printable (ps_cwd ?st)" by simp
  from prompt_fits [OF this, of config_default 40 True] show ?thesis by (auto simp: config_default_def)
qed

text \<open>
  On narrow terminals the code does not keep what its comments say: on one line of thirty columns the input has less than
  \<^verbatim>\<open>MIN_INPUT\<close> columns, and on eight columns the header of two lines fills the last one.
\<close>

lemma narrow_one_line:
  "case prompt_render (config_default\<lparr>c_two_lines := False\<rparr>) \<lparr>ps_cwd = ascii ''/code/project/src'', ps_status = 0, ps_duration = 0\<rparr> 30 True of
     None \<Rightarrow> False | Some r \<Rightarrow> 30 < r_prefix_width r + MIN_INPUT"
  by code_simp

lemma narrow_last_column:
  "case prompt_render config_default \<lparr>ps_cwd = ascii ''/code/project/src'', ps_status = 0, ps_duration = 0\<rparr> 8 True of
     None \<Rightarrow> False | Some r \<Rightarrow> columns (r_header r) = 8"
  by code_simp

end
