(* ===== verification/Shell.thy ===== *)
theory Shell
  imports ShLine ShPrompt
begin

text \<open>
  The shell itself: running a command line (\<^verbatim>\<open>sh/src/commands.rs\<close>), the wizard for the prompt's settings
  (\<^verbatim>\<open>sh/src/configure.rs\<close>) and the program's main loop (\<^verbatim>\<open>sh/src/lib.rs\<close>).
\<close>

section \<open>Words\<close>

record splitter =
  sp_words :: "bytes list"
  sp_cur :: bytes
  sp_in :: bool
  sp_quote :: "u8 option"

definition split_char :: "u8 \<Rightarrow> splitter \<Rightarrow> splitter" where
  "split_char c s =
     (case sp_quote s of
        Some q \<Rightarrow> if c = q then s\<lparr>sp_quote := None\<rparr> else s\<lparr>sp_cur := sp_cur s @ [c]\<rparr>
      | None \<Rightarrow>
          if c = 34 \<or> c = 39 then s\<lparr>sp_quote := Some c, sp_in := True\<rparr>
          else if c = 32 \<or> c = 9 then
            (if sp_in s then s\<lparr>sp_words := sp_words s @ [sp_cur s], sp_cur := [], sp_in := False\<rparr> else s)
          else s\<lparr>sp_cur := sp_cur s @ [c], sp_in := True\<rparr>)"

definition split_words :: "bytes \<Rightarrow> bytes list" where
  "split_words line =
     (let s = fold split_char line \<lparr>sp_words = [], sp_cur = [], sp_in = False, sp_quote = None\<rparr>
      in if sp_in s then sp_words s @ [sp_cur s] else sp_words s)"

section \<open>Builtin commands\<close>

datatype cmd_outcome = CStatus int | CExit | CDead

text \<open>\<open>CDead\<close> is the forked child that could not run its program and has called \<^verbatim>\<open>exit(126)\<close>.\<close>

definition sh_println :: "'k sys \<Rightarrow> 'k \<Rightarrow> bytes \<Rightarrow> 'k option" where
  "sh_println S k s = out_flush S k (s @ [10])"

definition persist :: "'k sys \<Rightarrow> 'k \<Rightarrow> 'k" where
  "persist S k = fst (anssos_sync S k)"

definition strip_kind :: "bytes list \<Rightarrow> bytes list" where
  "strip_kind args = (case args of a # rest \<Rightarrow> if a = ascii ''dir'' \<or> a = ascii ''file'' then rest else args | [] \<Rightarrow> args)"

definition sh_cd :: "'k sys \<Rightarrow> 'k \<Rightarrow> bytes \<Rightarrow> ('k \<times> bool) option" where
  "sh_cd S k dir =
     (let (k, ok) = (case cpath dir of None \<Rightarrow> (k, False) | Some p \<Rightarrow> anssos_chdir S k p)
      in if ok then Some (k, True)
         else do { k \<leftarrow> term_error S k (ascii ''cd: '' @ dir @ ascii '': no such directory''); Some (k, False) })"

definition quote_char :: bytes where "quote_char = [39]"

definition MKDIR_FAIL :: bytes where
  "MKDIR_FAIL = ascii ''can'' @ quote_char @ ascii ''t create (it exists, or its parent doesn'' @ quote_char @ ascii ''t)''"
definition CREATE_FAIL :: bytes where
  "CREATE_FAIL = ascii ''can'' @ quote_char @ ascii ''t create (no such directory to put it in)''"
definition RM_FAIL :: bytes where
  "RM_FAIL = ascii ''can'' @ quote_char @ ascii ''t remove (it doesn'' @ quote_char @ ascii ''t exist, or a shell is inside it)''"

fun each_arg :: "'k sys \<Rightarrow> ('k \<Rightarrow> bytes \<Rightarrow> 'k \<times> bool) \<Rightarrow> bytes \<Rightarrow> bytes \<Rightarrow> 'k \<Rightarrow> bytes list \<Rightarrow> ('k \<times> bool) option" where
  "each_arg S op name why k [] = Some (k, True)"
| "each_arg S op name why k (a # as) =
     (let (k, ok) = op k a
      in do {
        k \<leftarrow> (if ok then Some k else term_error S k (name @ ascii '': '' @ a @ ascii '': '' @ why));
        (k, all) \<leftarrow> each_arg S op name why k as;
        Some (k, ok \<and> all) })"

definition each :: "'k sys \<Rightarrow> 'k \<Rightarrow> bytes list \<Rightarrow> bytes \<Rightarrow> ('k \<Rightarrow> bytes \<Rightarrow> 'k \<times> bool) \<Rightarrow> bytes \<Rightarrow> ('k \<times> bool) option" where
  "each S k args name op why =
     (if args = [] then do { k \<leftarrow> term_error S k (name @ ascii '': missing operand (see '' @ [96] @ ascii ''help'' @ [96, 41]); Some (k, False) }
      else do { (k, all) \<leftarrow> each_arg S op name why k args; Some (persist S k, all) })"

definition two :: "'k sys \<Rightarrow> 'k \<Rightarrow> bytes list \<Rightarrow> bytes \<Rightarrow> ('k \<Rightarrow> bytes \<Rightarrow> bytes \<Rightarrow> 'k \<times> bool) \<Rightarrow> ('k \<times> bool) option" where
  "two S k args name op =
     (case args of
        [src, dest] \<Rightarrow>
          let (k, ok) = op k src dest
          in if ok then Some (persist S k, True)
             else do { k \<leftarrow> term_error S k (name @ ascii '': '' @ src @ ascii '' -> '' @ dest @
                         ascii '': failed (no such source, or the destination exists)''); Some (k, False) }
      | _ \<Rightarrow> do { k \<leftarrow> term_error S k (name @ ascii '': needs <src> <dest>''); Some (k, False) })"

definition sh_create :: "'k sys \<Rightarrow> 'k \<Rightarrow> bytes list \<Rightarrow> ('k \<times> bool) option" where
  "sh_create S k args =
     (case args of
        a # rest \<Rightarrow>
          if a = ascii ''dir'' then each S k rest (ascii ''create'') (anssos_mkdir S) MKDIR_FAIL
          else if a = ascii ''file'' then each S k rest (ascii ''create'') (anssos_create_file S) CREATE_FAIL
          else do { k \<leftarrow> term_error S k (ascii ''usage: create dir|file <name>''); Some (k, False) }
      | [] \<Rightarrow> do { k \<leftarrow> term_error S k (ascii ''usage: create dir|file <name>''); Some (k, False) })"

definition sh_write_file :: "'k sys \<Rightarrow> 'k \<Rightarrow> bytes list \<Rightarrow> ('k \<times> bool) option" where
  "sh_write_file S k args =
     (case args of
        [] \<Rightarrow> do { k \<leftarrow> term_error S k (ascii ''usage: write <file> <text>''); Some (k, False) }
      | file # text \<Rightarrow>
          let (k, f) = on_path k file (file_create S)
          in do {
            (k, ok) \<leftarrow> (case f of None \<Rightarrow> Some (k, False)
                       | Some fd \<Rightarrow> do { (k, ok) \<leftarrow> file_write_all S k fd (join_spaces text @ [10]); Some (s_close S k fd, ok) });
            if ok then Some (persist S k, True)
            else do { k \<leftarrow> term_error S k (ascii ''write: '' @ file @ ascii '': cannot write''); Some (k, False) } })"

partial_function (option) cat_loop :: "'k sys \<Rightarrow> 'k \<Rightarrow> int \<Rightarrow> 'k option" where
  "cat_loop S k fd =
     (let (k, d) = file_read S k fd 512
      in if d = [] then Some k else do { k \<leftarrow> write_all S k 1 d; cat_loop S k fd })"

fun cat_files :: "'k sys \<Rightarrow> 'k \<Rightarrow> bytes list \<Rightarrow> ('k \<times> bool) option" where
  "cat_files S k [] = Some (k, True)"
| "cat_files S k (name # names) =
     (let (k, dir) = path_is_dir S k name
      in if dir then do {
           k \<leftarrow> term_error S k (ascii ''cat: '' @ name @ ascii '': is a directory'');
           (k, _) \<leftarrow> cat_files S k names; Some (k, False) }
         else let (k, f) = on_path k name (file_open S)
              in case f of
                   None \<Rightarrow> do {
                     k \<leftarrow> term_error S k (ascii ''cat: '' @ name @ ascii '': no such file'');
                     (k, _) \<leftarrow> cat_files S k names; Some (k, False) }
                 | Some fd \<Rightarrow> do { k \<leftarrow> cat_loop S k fd; cat_files S (s_close S k fd) names })"

definition sh_cat :: "'k sys \<Rightarrow> 'k \<Rightarrow> bytes list \<Rightarrow> ('k \<times> bool) option" where
  "sh_cat S k files =
     (if files = [] then do { k \<leftarrow> term_error S k (ascii ''usage: cat <file>''); Some (k, False) } else cat_files S k files)"

text \<open>The listing: directories first, by name, in as many columns as fit.\<close>

definition ls_order :: "dir_entry list \<Rightarrow> dir_entry list" where
  "ls_order es = sort_key (\<lambda>e. (\<not> ddir e, dname e)) (filter (\<lambda>e. \<not> prefix [46] (dname e)) es)"

definition ls_shown :: "bool \<Rightarrow> dir_entry \<Rightarrow> bytes \<times> bytes" where
  "ls_shown in_bin e = (if ddir e then (dname e @ [47], DIR) else if in_bin then (dname e, PROGRAM) else (dname e, RESET))"

fun ls_cells :: "nat \<Rightarrow> nat \<Rightarrow> nat \<Rightarrow> (bytes \<times> bytes) list \<Rightarrow> bytes" where
  "ls_cells col_w cols i [] = []"
| "ls_cells col_w cols i ((name, c) # rest) =
     styled c name @ (if (i + 1) mod cols = 0 \<or> rest = [] then [10] else spaces (col_w - length name)) @ ls_cells col_w cols (i + 1) rest"

definition sh_ls :: "'k sys \<Rightarrow> 'k \<Rightarrow> bytes \<Rightarrow> ('k \<times> bool) option" where
  "sh_ls S k dir = do {
     (k, r) \<leftarrow> (case cpath dir of None \<Rightarrow> Some (k, None) | Some p \<Rightarrow> read_dir S k p);
     case r of
       None \<Rightarrow> do { k \<leftarrow> term_error S k (ascii ''ls: '' @ dir @ ascii '': no such directory''); Some (k, False) }
     | Some es \<Rightarrow>
         let es = ls_order es
         in if es = [] then Some (k, True)
            else let (k, cwd) = anssos_getcwd S k;
                     in_bin = (case cwd of None \<Rightarrow> False | Some c \<Rightarrow> (c = ascii ''/bin'' \<and> dir = ascii ''.'') \<or> dir = ascii ''/bin'' \<or> dir = ascii ''/bin/'');
                     shown = map (ls_shown in_bin) es;
                     col_w = max_len (map fst shown) + 2;
                     (k, w) = term_width S k;
                     cols = max ((w - 1) div col_w) 1
                 in do { k \<leftarrow> out_flush S k (ls_cells col_w cols 0 shown); Some (k, True) } }"

definition help_keys :: "(string \<times> bytes) list" where
  "help_keys = [
     (''Tab'', ascii ''complete a command or path; again to pick from the list''),
     (''Right / End / Ctrl-F'', ascii ''accept the grey suggestion''),
     (''Up / Down'', ascii ''history, filtered by what'' @ quote_char @ ascii ''s typed so far''),
     (''Left / Home / Ctrl-A, Ctrl-E'', ascii ''move within the line''),
     (''Ctrl-W / Ctrl-U / Ctrl-K'', ascii ''delete word / to start / to end''),
     (''Ctrl-C'', ascii ''abandon the line''),
     (''Ctrl-L'', ascii ''clear the screen'')]"

definition help_text :: bytes where
  "help_text =
     (let w = max_len (map b_usage BUILTINS) + 2
      in styled OK (ascii ''Commands'') @ [10] @
         concat (map (\<lambda>b. spaces 2 @ styled COMMAND (b_name b) @ drop (length (b_name b)) (b_usage b) @
           spaces (w - length (b_usage b)) @ styled DIM (b_desc b) @ [10]) BUILTINS) @ [10] @
         styled OK (ascii ''Anything else'') @ ascii '' runs a program from this directory or /bin (try '' @
         styled COMMAND (ascii ''ls /bin'') @ ascii '').'' @ [10, 10] @
         styled OK (ascii ''Keys'') @ [10] @
         concat (map (\<lambda>(n, d). spaces 2 @ styled PATH (ascii n) @ spaces (30 - length n) @ styled DIM d @ [10]) help_keys))"

definition sh_help :: "'k sys \<Rightarrow> 'k \<Rightarrow> 'k option" where
  "sh_help S k = out_flush S k help_text"

definition history_listing :: "history \<Rightarrow> bytes" where
  "history_listing h = concat (map (\<lambda>(i, l). sgr DIM @ pad_left 4 (dec (i + 1)) @ spaces 2 @ sgr RESET @ l @ [10]) (enumerate 0 h))"

section \<open>Programs\<close>

definition run_program :: "'k sys \<Rightarrow> 'k psys \<Rightarrow> 'k \<Rightarrow> bytes \<Rightarrow> bytes list \<Rightarrow> ('k \<times> cmd_outcome) option" where
  "run_program S P k name words = do {
     (k, p) \<leftarrow> resolve_program S k name;
     case p of
       None \<Rightarrow> do { k \<leftarrow> term_error S k (name @ ascii '': command not found''); Some (k, CStatus 127) }
     | Some path \<Rightarrow>
         (case cpath path of None \<Rightarrow> Some (k, CStatus 127)
          | Some path \<Rightarrow>
              let args = filter (\<lambda>w. cpath w \<noteq> None) words; (k, pid) = anssos_fork P k
              in (case pid of
                   None \<Rightarrow> do { k \<leftarrow> term_error S k (ascii ''fork failed''); Some (k, CStatus 1) }
                 | Some pid \<Rightarrow>
                     if pid = 0
                     then do { k \<leftarrow> term_error S (p_execve P k path args) (name @ ascii '': cannot run''); Some (k, CDead) }
                     else let (k, status) = anssos_waitpid P k pid
                          in do { k \<leftarrow> write_all S k 1 plain_sgr; Some (k, CStatus status) })) }"

section \<open>The settings wizard\<close>

datatype wstep = StStyle | StLines | StFrame | StFill | StEnds | StGlyphs | StSystem | StSpacing

definition STEPS :: "wstep list" where
  "STEPS = [StStyle, StLines, StFrame, StFill, StEnds, StGlyphs, StSystem, StSpacing]"

fun question :: "wstep \<Rightarrow> config \<Rightarrow> (bytes \<times> (bytes \<times> config) list) option" where
  "question StStyle d = Some (ascii ''Prompt style'',
     [(ascii ''Lean -- colored text'', d\<lparr>c_style := Lean\<rparr>),
      (ascii ''Classic -- one grey band'', d\<lparr>c_style := Classic\<rparr>),
      (ascii ''Rainbow -- a color per segment'', d\<lparr>c_style := Rainbow\<rparr>)])"
| "question StLines d = Some (ascii ''Prompt lines'',
     [(ascii ''One line'', d\<lparr>c_two_lines := False\<rparr>),
      (ascii ''Two lines -- the command gets a line of its own'', d\<lparr>c_two_lines := True\<rparr>)])"
| "question StFrame d = (if c_two_lines d then Some (ascii ''Prompt frame'',
     [(ascii ''No frame'', d\<lparr>c_frame := False\<rparr>), (ascii ''Frame on the left'', d\<lparr>c_frame := True\<rparr>)]) else None)"
| "question StFill d = (if c_two_lines d then Some (ascii ''Prompt connection'',
     [(ascii ''Disconnected'', d\<lparr>c_fill := Blank\<rparr>), (ascii ''Dotted'', d\<lparr>c_fill := Dotted\<rparr>), (ascii ''Solid'', d\<lparr>c_fill := Solid\<rparr>)]) else None)"
| "question StEnds d = (if c_style d \<noteq> Lean then Some (ascii ''Segment ends'',
     [(ascii ''Sharp'', d\<lparr>c_ends := Sharp\<rparr>), (ascii ''Round'', d\<lparr>c_ends := Round\<rparr>), (ascii ''Flat'', d\<lparr>c_ends := Flat\<rparr>)]) else None)"
| "question StGlyphs d = Some (ascii ''Symbols'',
     [(ascii ''Glyphs'', d\<lparr>c_glyphs := True\<rparr>), (ascii ''Plain text'', d\<lparr>c_glyphs := False\<rparr>)])"
| "question StSystem d = Some (ascii ''Show the system name?'',
     [(ascii ''Yes'', d\<lparr>c_system := True\<rparr>), (ascii ''No'', d\<lparr>c_system := False\<rparr>)])"
| "question StSpacing d = Some (ascii ''Prompt spacing'',
     [(ascii ''Compact'', d\<lparr>c_sparse := False\<rparr>), (ascii ''Sparse -- a blank line before each prompt'', d\<lparr>c_sparse := True\<rparr>)])"

definition heading :: "bytes \<Rightarrow> (nat \<times> nat) option \<Rightarrow> bytes" where
  "heading title step = styled (ascii ''1'') (ascii ''Prompt configuration'') @
     (case step of None \<Rightarrow> [] | Some (n, m) \<Rightarrow> sgr DIM @ ascii ''   step '' @ dec n @ ascii '' of '' @ dec m @ sgr RESET) @
     [10, 10] @ styled (ascii ''1;97'') title @ [10, 10]"

definition INDENT :: bytes where "INDENT = spaces 4"

definition indent_lines :: "bytes \<Rightarrow> bytes" where
  "indent_lines text = (let ps = split_on 10 text
     in concat (map (\<lambda>l. INDENT @ l @ [10]) (butlast ps)) @ (if last ps = [] then [] else INDENT @ last ps))"

definition preview :: "'k sys \<Rightarrow> 'k \<Rightarrow> config \<Rightarrow> ('k \<times> bytes) option" where
  "preview S k cfg =
     (let (k, w) = term_width S k; width = min (w - length INDENT) 90; cwd = ascii ''/code/project''
      in do {
        a \<leftarrow> prompt_render cfg \<lparr>ps_cwd = cwd, ps_status = 0, ps_duration = 0\<rparr> width True;
        b \<leftarrow> prompt_render cfg \<lparr>ps_cwd = cwd, ps_status = 0, ps_duration = 2300\<rparr> width False;
        Some (k, indent_lines (r_header a) @ INDENT @ r_prefix a @ styled COMMAND (ascii ''play'') @ styled PATH (ascii '' song.mp3'') @ [10] @
          INDENT @ ascii ''play: done'' @ [10] @ indent_lines (r_header b) @ INDENT @ r_prefix b @ [10]) })"

fun screen_answers :: "'k sys \<Rightarrow> 'k \<Rightarrow> nat \<Rightarrow> (bytes \<times> config) list \<Rightarrow> ('k \<times> bytes) option" where
  "screen_answers S k i [] = Some (k, [])"
| "screen_answers S k i ((label, cfg) # rest) = do {
     (k, p) \<leftarrow> preview S k cfg;
     (k, r) \<leftarrow> screen_answers S k (i + 1) rest;
     Some (k, sgr OK @ [40] @ dec (i + 1) @ [41] @ sgr RESET @ [32] @ styled (ascii ''1'') label @ [10] @ p @ [10] @ r) }"

definition screen :: "'k sys \<Rightarrow> 'k \<Rightarrow> bytes \<Rightarrow> nat \<Rightarrow> nat \<Rightarrow> (bytes \<times> config) list \<Rightarrow> 'k option" where
  "screen S k title n m answers = do {
     (k, body) \<leftarrow> screen_answers S k 0 answers;
     out_flush S k (clear_screen @ heading title (Some (n, m)) @ body @
       styled DIM (ascii ''(r) Start over     (q) Quit without saving'') @ [10]) }"

datatype wanswer = WPick config | WRestart | WQuit

text \<open>The keys that leave the wizard at any question.\<close>

definition quit_key :: "tkey \<Rightarrow> bool" where
  "quit_key key \<longleftrightarrow> key \<in> {TChar 113, TEsc, TCtrl 99, TEof}"

partial_function (option) wizard_ask :: "'k sys \<Rightarrow> 'k \<Rightarrow> (bytes \<times> config) list \<Rightarrow> ('k \<times> wanswer) option" where
  "wizard_ask S k answers = do {
     (k, key) \<leftarrow> term_read_key S k;
     case key of
       TChar d \<Rightarrow>
         if 49 \<le> d \<and> d \<le> 57 \<and> unat (d - 49) < length answers then Some (k, WPick (snd (answers ! unat (d - 49))))
         else if d = 114 then Some (k, WRestart)
         else if quit_key key then Some (k, WQuit)
         else wizard_ask S k answers
     | _ \<Rightarrow> if quit_key key then Some (k, WQuit) else wizard_ask S k answers }"

partial_function (option) wizard_confirm :: "'k sys \<Rightarrow> 'k \<Rightarrow> config \<Rightarrow> ('k \<times> wanswer) option" where
  "wizard_confirm S k draft = do {
     (k, key) \<leftarrow> term_read_key S k;
     if key = TChar 121 \<or> key = TEnter then Some (k, WPick draft)
     else if key = TChar 114 then Some (k, WRestart)
     else if key = TChar 110 \<or> quit_key key then Some (k, WQuit)
     else wizard_confirm S k draft }"

definition confirm_screen :: "'k sys \<Rightarrow> 'k \<Rightarrow> config \<Rightarrow> 'k option" where
  "confirm_screen S k draft = do {
     (k, p) \<leftarrow> preview S k draft;
     out_flush S k (clear_screen @ heading (ascii ''Your prompt'') None @ p @ [10] @
       styled OK (ascii ''(y)'') @ ascii '' Save and use it     '' @ styled OK (ascii ''(r)'') @ ascii '' Start over     '' @
       styled OK (ascii ''(n)'') @ ascii '' Quit without saving'' @ [10]) }"

definition applies :: "config \<Rightarrow> wstep \<Rightarrow> bool" where
  "applies d s \<longleftrightarrow> question s d \<noteq> None"

partial_function (option) wizard_loop :: "'k sys \<Rightarrow> 'k \<Rightarrow> config \<Rightarrow> config \<Rightarrow> nat \<Rightarrow> ('k \<times> config option) option" where
  "wizard_loop S k current draft i =
     (if i < length STEPS then
        (case question (STEPS ! i) draft of
           None \<Rightarrow> wizard_loop S k current draft (i + 1)
         | Some (title, answers) \<Rightarrow> do {
             k \<leftarrow> screen S k title (length (filter (applies draft) (take i STEPS)) + 1) (length (filter (applies draft) STEPS)) answers;
             (k, a) \<leftarrow> wizard_ask S k answers;
             case a of WPick d \<Rightarrow> wizard_loop S k current d (i + 1)
             | WRestart \<Rightarrow> wizard_loop S k current current 0
             | WQuit \<Rightarrow> Some (k, None) })
      else do {
        k \<leftarrow> confirm_screen S k draft;
        (k, a) \<leftarrow> wizard_confirm S k draft;
        case a of WPick d \<Rightarrow> Some (k, Some d)
        | WRestart \<Rightarrow> wizard_loop S k current current 0
        | WQuit \<Rightarrow> Some (k, None) })"

definition configure_run :: "'k sys \<Rightarrow> 'k psys \<Rightarrow> 'k \<Rightarrow> config \<Rightarrow> ('k \<times> config option) option" where
  "configure_run S P k current =
     (let (k, raw) = raw_enable P k
      in do {
        (k, result) \<leftarrow> wizard_loop S k current current 0;
        k \<leftarrow> out_flush S k clear_screen;
        case result of None \<Rightarrow> Some (raw_drop P k raw, None)
        | Some cfg \<Rightarrow> do {
            (k, ok) \<leftarrow> config_save S k cfg;
            k \<leftarrow> (if ok then Some k else term_error S k (ascii ''configure: couldn'' @ quote_char @ ascii ''t write /.sh_prompt''));
            Some (raw_drop P k raw, Some cfg) } })"

section \<open>Running a line\<close>

definition done_with :: "config \<Rightarrow> ('k \<times> bool) option \<Rightarrow> ('k \<times> config \<times> cmd_outcome) option" where
  "done_with c r = do { (k, ok) \<leftarrow> r; Some (k, c, CStatus (if ok then 0 else 1)) }"

definition fine :: "config \<Rightarrow> 'k option \<Rightarrow> ('k \<times> config \<times> cmd_outcome) option" where
  "fine c r = do { k \<leftarrow> r; Some (k, c, CStatus 0) }"

definition cwd_or_root :: "bytes option \<Rightarrow> bytes" where
  "cwd_or_root c = (case c of None \<Rightarrow> ascii ''/'' | Some c \<Rightarrow> c)"

definition first_or :: "bytes list \<Rightarrow> string \<Rightarrow> bytes" where
  "first_or args d = (case args of [] \<Rightarrow> ascii d | a # _ \<Rightarrow> a)"

definition sh_sync :: "'k sys \<Rightarrow> 'k \<Rightarrow> ('k \<times> bool) option" where
  "sh_sync S k = (let (k, ok) = anssos_sync S k
     in do { k \<leftarrow> (if ok then sh_println S k (ascii ''filesystem written to disk'') else term_error S k (ascii ''sync: no disk to write to''));
             Some (k, ok) })"

definition run_words :: "'k sys \<Rightarrow> 'k psys \<Rightarrow> 'k \<Rightarrow> bytes \<Rightarrow> bytes list \<Rightarrow> history \<Rightarrow> config \<Rightarrow> ('k \<times> config \<times> cmd_outcome) option" where
  "run_words S P k cmd args h c =
     (if cmd = ascii ''exit'' then Some (k, c, CExit)
      else if cmd = ascii ''cd'' then done_with c (sh_cd S k (first_or args ''/''))
      else if cmd = ascii ''pwd'' then (let (k, d) = anssos_getcwd S k in fine c (sh_println S k (cwd_or_root d)))
      else if cmd = ascii ''ls'' then done_with c (sh_ls S k (first_or args ''.''))
      else if cmd = ascii ''cat'' then done_with c (sh_cat S k args)
      else if cmd = ascii ''echo'' then fine c (sh_println S k (join_spaces args))
      else if cmd = ascii ''write'' then done_with c (sh_write_file S k args)
      else if cmd = ascii ''mkdir'' then done_with c (each S k args (ascii ''mkdir'') (anssos_mkdir S) MKDIR_FAIL)
      else if cmd = ascii ''touch'' then done_with c (each S k args (ascii ''touch'') (anssos_create_file S) CREATE_FAIL)
      else if cmd = ascii ''rm'' then done_with c (each S k args (ascii ''rm'') (anssos_unlink S) RM_FAIL)
      else if cmd = ascii ''delete'' then done_with c (each S k (strip_kind args) (ascii ''delete'') (anssos_unlink S) RM_FAIL)
      else if cmd = ascii ''cp'' then done_with c (two S k args (ascii ''cp'') (anssos_copy S))
      else if cmd = ascii ''copy'' then done_with c (two S k (strip_kind args) (ascii ''copy'') (anssos_copy S))
      else if cmd = ascii ''mv'' then done_with c (two S k args (ascii ''mv'') (anssos_rename S))
      else if cmd = ascii ''move'' then done_with c (two S k (strip_kind args) (ascii ''move'') (anssos_rename S))
      else if cmd = ascii ''create'' then done_with c (sh_create S k args)
      else if cmd = ascii ''sync'' then done_with c (sh_sync S k)
      else if cmd = ascii ''clear'' then fine c (write_all S k 1 clear_screen)
      else if cmd = ascii ''history'' then fine c (out_flush S k (history_listing h))
      else if cmd = ascii ''help'' then fine c (sh_help S k)
      else if cmd = ascii ''configure'' then do {
        (k, r) \<leftarrow> configure_run S P k c;
        Some (k, case r of None \<Rightarrow> c | Some c' \<Rightarrow> c', CStatus 0) }
      else do { (k, r) \<leftarrow> run_program S P k cmd (cmd # args); Some (k, c, r) })"

definition run_line :: "'k sys \<Rightarrow> 'k psys \<Rightarrow> 'k \<Rightarrow> bytes \<Rightarrow> history \<Rightarrow> config \<Rightarrow> ('k \<times> config \<times> cmd_outcome) option" where
  "run_line S P k line h c =
     (case split_words line of [] \<Rightarrow> Some (k, c, CStatus 0) | cmd # args \<Rightarrow> run_words S P k cmd args h c)"

section \<open>The main loop\<close>

record shell =
  sh_history :: history
  sh_config :: config
  sh_status :: int
  sh_duration :: nat
  sh_fresh :: bool

text \<open>What one line does: the next state, or the exit status the loop ends with.\<close>

definition shell_line :: "'k sys \<Rightarrow> 'k psys \<Rightarrow> 'k \<Rightarrow> shell \<Rightarrow> bytes \<Rightarrow> ('k \<times> shell \<times> int option) option" where
  "shell_line S P k s line =
     (if trim line = [] then Some (k, s, None)
      else do {
        (k, h) \<leftarrow> history_add S k (sh_history s) line;
        let s = s\<lparr>sh_history := h\<rparr>;
        let (k, started) = now_ms P k;
        (k, c, r) \<leftarrow> run_line S P k line h (sh_config s);
        let s = s\<lparr>sh_config := c\<rparr>;
        case r of
          CExit \<Rightarrow> Some (k, s, Some 0)
        | CDead \<Rightarrow> Some (k, s, Some 126)
        | CStatus st \<Rightarrow>
            let (k, now) = now_ms P k;
                s = s\<lparr>sh_status := st, sh_duration := now - started\<rparr>;
                word = trim line
            in Some (k, if word = ascii ''clear'' \<or> word = ascii ''configure'' then s\<lparr>sh_fresh := True, sh_duration := 0\<rparr> else s, None) })"

definition shell_step :: "'k sys \<Rightarrow> 'k psys \<Rightarrow> 'k \<Rightarrow> shell \<Rightarrow> ('k \<times> shell \<times> int option) option" where
  "shell_step S P k s =
     (let (k, cwd) = anssos_getcwd S k; (k, w) = term_width S k
      in do {
        p \<leftarrow> prompt_render (sh_config s) \<lparr>ps_cwd = cwd_or_root cwd, ps_status = sh_status s, ps_duration = sh_duration s\<rparr> w (sh_fresh s);
        let s = s\<lparr>sh_fresh := False\<rparr>;
        k \<leftarrow> write_all S k 1 (r_header p);
        (k, r) \<leftarrow> read_line S P k (sh_history s) (r_prefix p) (r_prefix_width p);
        case r of
          REof \<Rightarrow> Some (k, s, Some 0)
        | RCancelled \<Rightarrow> Some (k, s, None)
        | RClear \<Rightarrow> do { k \<leftarrow> write_all S k 1 clear_screen; Some (k, s\<lparr>sh_fresh := True\<rparr>, None) }
        | RLine line \<Rightarrow> shell_line S P k s line })"

partial_function (option) shell_loop :: "'k sys \<Rightarrow> 'k psys \<Rightarrow> 'k \<Rightarrow> shell \<Rightarrow> ('k \<times> int) option" where
  "shell_loop S P k s = do {
     (k, s, r) \<leftarrow> shell_step S P k s;
     case r of None \<Rightarrow> shell_loop S P k s | Some code \<Rightarrow> Some (k, code) }"

definition welcome_line :: "bool \<Rightarrow> nat \<Rightarrow> bytes" where
  "welcome_line configured w =
     (let hint = (if configured then ascii '' lists commands, Tab completes'' else ascii '' lists commands, configure styles this prompt'');
          hint = (if w > 16 + 4 + length hint then hint else ascii '' lists commands'')
      in sgr RESET @ styled DIM (ascii ''AnssOS shell -- '') @ styled COMMAND (ascii ''help'') @ styled DIM hint @ [10])"

definition shell_main :: "'k sys \<Rightarrow> 'k psys \<Rightarrow> 'k \<Rightarrow> ('k \<times> int) option" where
  "shell_main S P k = do {
     (k, h) \<leftarrow> history_load S k;
     (k, c, configured) \<leftarrow> config_load S k;
     let (k, w) = term_width S k;
     k \<leftarrow> out_flush S k (welcome_line configured w);
     (k, code) \<leftarrow> shell_loop S P k \<lparr>sh_history = h, sh_config = c, sh_status = 0, sh_duration = 0, sh_fresh = True\<rparr>;
     if code = 126 then Some (k, code) else do { k \<leftarrow> write_all S k 1 plain_sgr; Some (k, 0) } }"

end
