(* ===== verification/ShWords.thy ===== *)
theory ShWords
  imports Shell
begin

text \<open>
  What the shell's text routines promise: the settings file, the quoting of words, the history file and
  the completion list.
\<close>

section \<open>Plain text\<close>

definition is_ascii :: "bytes \<Rightarrow> bool" where
  "is_ascii s \<longleftrightarrow> (\<forall>b \<in> set s. b < 0x80)"

lemma is_ascii_simps [simp]: "is_ascii []" "is_ascii (b # s) = (b < 0x80 \<and> is_ascii s)" "is_ascii (s @ t) = (is_ascii s \<and> is_ascii t)"
  by (auto simp: is_ascii_def)

lemma lossy_ascii: "is_ascii s \<Longrightarrow> from_utf8_lossy s = s"
  by (induction s rule: from_utf8_lossy.induct) (auto simp: utf8_step_def)

lemma split_on_lines:
  assumes "\<forall>l \<in> set ls. c \<notin> set l"
  shows "split_on c (concat (map (\<lambda>l. l @ [c]) ls)) = ls @ [[]]"
proof -
  have *: "c \<notin> set l \<Longrightarrow> split_on c (l @ c # r) = l # split_on c r" for l r
    by (induction l) auto
  from assms show ?thesis by (induction ls) (simp_all add: *)
qed

lemma str_lines_joined:
  assumes "\<forall>l \<in> set ls. 10 \<notin> set l \<and> (l = [] \<or> last l \<noteq> 13)"
  shows "str_lines (concat (map (\<lambda>l. l @ [10]) ls)) = ls"
proof -
  have "map (\<lambda>l. if l \<noteq> [] \<and> last l = 13 then butlast l else l) ls = ls" using assms by (intro map_idI) auto
  then show ?thesis using split_on_lines [of ls 10] assms by (simp add: str_lines_def)
qed

section \<open>Trimming\<close>

definition strippable :: "bytes list \<Rightarrow> bytes \<Rightarrow> bool" where
  "strippable ws s \<longleftrightarrow> (\<exists>w \<in> set ws. w \<noteq> [] \<and> prefix w s)"

lemma find_strippable: "find (\<lambda>w. w \<noteq> [] \<and> prefix w s) ws = None \<longleftrightarrow> \<not> strippable ws s"
  by (auto simp: strippable_def find_None_iff)

lemma strip_from_id: "\<not> strippable ws s \<Longrightarrow> strip_from ws s = s"
  unfolding find_strippable [symmetric] by (subst strip_from.simps) simp

lemma strip_from_spec: "\<not> strippable ws (strip_from ws s) \<and> suffix (strip_from ws s) s"
proof (induction ws s rule: strip_from.induct)
  case (1 ws s)
  show ?case
  proof (cases "find (\<lambda>w. w \<noteq> [] \<and> prefix w s) ws")
    case None
    then show ?thesis by (simp add: find_strippable strip_from_id)
  next
    case (Some w)
    then have "strip_from ws s = strip_from ws (drop (length w) s)" by (subst strip_from.simps) simp
    with "1.IH" [OF Some] show ?thesis by (auto intro: suffix_order.trans suffix_drop)
  qed
qed

lemmas strip_from_end = strip_from_spec [THEN conjunct1]
lemmas strip_from_suffix = strip_from_spec [THEN conjunct2]

lemma trim_end_prefix: "prefix (trim_end s) s"
  using strip_from_suffix [of "map rev white_space" "rev s"] by (simp add: trim_end_def suffix_to_prefix)

lemma trim_trim: "trim (trim s) = trim s"
proof -
  let ?t = "trim_start s"
  have "\<not> strippable white_space ?t" by (simp add: trim_start_def strip_from_end)
  then have "\<not> strippable white_space (trim s)"
    using trim_end_prefix [of ?t] prefix_order.trans by (auto simp: strippable_def trim_def)
  then have "trim_start (trim s) = trim s" by (simp add: trim_start_def strip_from_id)
  moreover have "trim_end (trim s) = trim s"
    unfolding trim_def trim_end_def by (simp add: strip_from_id strip_from_end)
  ultimately show ?thesis by (simp add: trim_def)
qed

lemma trim_sub: "set (trim s) \<subseteq> set s"
proof -
  have "set (trim s) \<subseteq> set (trim_start s)" using trim_end_prefix [of "trim_start s"] by (auto simp: trim_def dest: set_mono_prefix)
  also have "\<dots> \<subseteq> set s" using strip_from_suffix [of white_space s] by (simp add: trim_start_def set_mono_suffix)
  finally show ?thesis .
qed

section \<open>Settings\<close>

text \<open>The words of the settings file need no trimming.\<close>

lemma trim_id: "\<not> strippable white_space s \<Longrightarrow> \<not> strippable (map rev white_space) (rev s) \<Longrightarrow> trim s = s"
  by (simp add: trim_def trim_start_def trim_end_def strip_from_id)

definition solid :: "bytes \<Rightarrow> bool" where
  "solid s \<longleftrightarrow> s \<noteq> [] \<and> hd s < 0x80 \<and> 32 < hd s \<and> last s < 0x80 \<and> 32 < last s"

lemma white_space_ends: "w \<in> set white_space \<Longrightarrow> \<not> (32 < hd w \<and> hd w < 0x80) \<and> \<not> (32 < last w \<and> last w < 0x80)"
proof -
  have "\<forall>w \<in> set white_space. \<not> (32 < hd w \<and> hd w < 0x80) \<and> \<not> (32 < last w \<and> last w < 0x80)" by (simp add: white_space_def)
  then show "w \<in> set white_space \<Longrightarrow> \<not> (32 < hd w \<and> hd w < 0x80) \<and> \<not> (32 < last w \<and> last w < 0x80)" by blast
qed

lemma solid_trim:
  assumes s: "solid s"
  shows "trim s = s"
proof (rule trim_id)
  show "\<not> strippable white_space s"
  proof
    assume "strippable white_space s"
    then obtain w where w: "w \<in> set white_space" "w \<noteq> []" "prefix w s" by (auto simp: strippable_def)
    then have "hd w = hd s" by (auto simp: prefix_def)
    with white_space_ends [OF w(1)] s show False by (simp add: solid_def)
  qed
  show "\<not> strippable (map rev white_space) (rev s)"
  proof
    assume "strippable (map rev white_space) (rev s)"
    then obtain w where w: "w \<in> set white_space" "w \<noteq> []" "suffix w s" by (auto simp: strippable_def suffix_to_prefix)
    then have "last w = last s" by (auto simp: suffix_def)
    with white_space_ends [OF w(1)] s show False by (simp add: solid_def)
  qed
qed

lemma trim_space: "trim (32 # s) = trim s"
proof -
  have "strip_from white_space (32 # s) = strip_from white_space s"
    by (subst strip_from.simps) (simp add: white_space_def)
  then show ?thesis by (simp add: trim_def trim_start_def)
qed

lemma dec_digit: "n < 10 \<Longrightarrow> dec n = [word_of_nat (48 + n)]"
  by (subst dec.simps) simp

lemma config_line_split: "key \<noteq> [] \<Longrightarrow> 61 \<notin> set key \<Longrightarrow> config_line (key @ 61 # v) c = config_set (trim key) (trim v) c"
  by (simp add: config_line_def split_once_def takeWhile_append dropWhile_append)

lemmas config_eval = config_line_def split_once_def config_set_def solid_trim solid_def yn_def dec_digit

lemma config_style: "config_line (ascii ''style='' @ style_text s) c = c\<lparr>c_style := s\<rparr>"
  by (cases s) (simp_all add: config_eval)

lemma config_two: "config_line (ascii ''lines='' @ dec (if b then 2 else 1)) c = c\<lparr>c_two_lines := b\<rparr>"
  by (cases b) (simp_all add: config_eval)

lemma config_fill: "config_line (ascii ''fill='' @ fill_text f) c = c\<lparr>c_fill := f\<rparr>"
  by (cases f) (simp_all add: config_eval)

lemma config_ends: "config_line (ascii ''ends='' @ ends_text d) c = c\<lparr>c_ends := d\<rparr>"
  by (cases d) (simp_all add: config_eval)

lemma config_flags:
  "config_line (ascii ''frame='' @ yn b) c = c\<lparr>c_frame := b\<rparr>" "config_line (ascii ''glyphs='' @ yn b) c = c\<lparr>c_glyphs := b\<rparr>"
  "config_line (ascii ''system='' @ yn b) c = c\<lparr>c_system := b\<rparr>" "config_line (ascii ''sparse='' @ yn b) c = c\<lparr>c_sparse := b\<rparr>"
  by (cases b; simp add: config_eval)+

lemmas config_lines = config_style config_two config_fill config_ends config_flags

definition config_file_lines :: "config \<Rightarrow> bytes list" where
  "config_file_lines c = [ascii ''style='' @ style_text (c_style c), ascii ''lines='' @ dec (if c_two_lines c then 2 else 1),
     ascii ''frame='' @ yn (c_frame c), ascii ''fill='' @ fill_text (c_fill c), ascii ''ends='' @ ends_text (c_ends c),
     ascii ''glyphs='' @ yn (c_glyphs c), ascii ''system='' @ yn (c_system c), ascii ''sparse='' @ yn (c_sparse c)]"

lemma config_text_lines: "config_text c = concat (map (\<lambda>l. l @ [10]) (config_file_lines c))"
  by (simp add: config_text_def config_file_lines_def)

definition file_word :: "bytes \<Rightarrow> bool" where
  "file_word s \<longleftrightarrow> is_ascii s \<and> 10 \<notin> set s \<and> s \<noteq> [] \<and> last s \<noteq> 13"

lemma settings_words:
  "file_word (style_text s)" "file_word (fill_text f)" "file_word (ends_text d)" "file_word (yn b)" "file_word (dec (if b then 2 else 1))"
  unfolding file_word_def
  by (cases s; cases f; cases d; cases b; simp add: yn_def dec_digit)+

lemma config_parse_text: "config_parse (config_text c) = c"
proof -
  note w = settings_words(1) [of "c_style c"] settings_words(2) [of "c_fill c"] settings_words(3) [of "c_ends c"]
    settings_words(4) settings_words(5) [of "c_two_lines c"]
  have "is_ascii (config_text c)" using w by (simp add: config_text_def file_word_def)
  moreover have "str_lines (config_text c) = config_file_lines c"
    unfolding config_text_lines by (rule str_lines_joined) (use w in \<open>simp add: config_file_lines_def file_word_def\<close>)
  ultimately show ?thesis by (simp only: config_parse_def lossy_ascii config_file_lines_def fold.simps o_def id_def config_lines) simp
qed

section \<open>Quoting\<close>

text \<open>A word as it may be typed: pieces without blanks or quotes, and pieces between quotes of a kind that
  does not occur in them, next to each other.\<close>

datatype piece = Plain bytes | Quoted u8 bytes

definition is_blank :: "u8 \<Rightarrow> bool" where
  "is_blank c \<longleftrightarrow> c = 32 \<or> c = 9"

fun piece_ok :: "piece \<Rightarrow> bool" where
  "piece_ok (Plain s) = (s \<noteq> [] \<and> (\<forall>c \<in> set s. \<not> is_blank c \<and> \<not> is_quote c))"
| "piece_ok (Quoted q s) = (is_quote q \<and> q \<notin> set s)"

fun typed :: "piece \<Rightarrow> bytes" where
  "typed (Plain s) = s"
| "typed (Quoted q s) = q # s @ [q]"

fun meant :: "piece \<Rightarrow> bytes" where
  "meant (Plain s) = s"
| "meant (Quoted q s) = s"

text \<open>A line of words, each with the blanks before it, and blanks at the end.\<close>

fun typed_line :: "(bytes \<times> piece list) list \<Rightarrow> bytes \<Rightarrow> bytes" where
  "typed_line [] tail = tail"
| "typed_line ((bl, ps) # ws) tail = bl @ concat (map typed ps) @ typed_line ws tail"

definition word_ok :: "bytes \<times> piece list \<Rightarrow> bool" where
  "word_ok w \<longleftrightarrow> list_all is_blank (fst w) \<and> snd w \<noteq> [] \<and> list_all piece_ok (snd w)"

definition line_typed_ok :: "(bytes \<times> piece list) list \<Rightarrow> bytes \<Rightarrow> bool" where
  "line_typed_ok ws tail \<longleftrightarrow> list_all word_ok ws \<and> list_all (\<lambda>w. fst w \<noteq> []) (tl ws) \<and> list_all is_blank tail"

lemma fold_plain:
  "sp_quote s = None \<Longrightarrow> \<forall>c \<in> set cs. \<not> is_blank c \<and> \<not> is_quote c \<Longrightarrow>
   fold split_char cs s = s\<lparr>sp_cur := sp_cur s @ cs, sp_in := sp_in s \<or> cs \<noteq> []\<rparr>"
  by (induction cs arbitrary: s) (auto simp: split_char_def is_blank_def is_quote_def)

lemma fold_quoted: "sp_quote s = Some q \<Longrightarrow> q \<notin> set cs \<Longrightarrow> fold split_char cs s = s\<lparr>sp_cur := sp_cur s @ cs\<rparr>"
  by (induction cs arbitrary: s) (auto simp: split_char_def)

lemma fold_piece: "sp_quote s = None \<Longrightarrow> piece_ok p \<Longrightarrow> fold split_char (typed p) s = s\<lparr>sp_cur := sp_cur s @ meant p, sp_in := True\<rparr>"
proof (cases p)
  case (Quoted q cs)
  assume "sp_quote s = None" "piece_ok p"
  moreover from this Quoted have "fold split_char cs (s\<lparr>sp_quote := Some q, sp_in := True\<rparr>) = s\<lparr>sp_quote := Some q, sp_in := True, sp_cur := sp_cur s @ cs\<rparr>"
    using fold_quoted [of "s\<lparr>sp_quote := Some q, sp_in := True\<rparr>" q cs] by simp
  ultimately show ?thesis using Quoted by (auto simp: split_char_def is_quote_def)
qed (auto simp: fold_plain)

lemma fold_pieces:
  "sp_quote s = None \<Longrightarrow> list_all piece_ok ps \<Longrightarrow> ps \<noteq> [] \<Longrightarrow>
   fold split_char (concat (map typed ps)) s = s\<lparr>sp_cur := sp_cur s @ concat (map meant ps), sp_in := True\<rparr>"
proof (induction ps arbitrary: s)
  case (Cons p ps)
  then show ?case by (cases "ps = []") (simp_all add: fold_piece)
qed simp

definition between :: "bytes list \<Rightarrow> splitter" where
  "between ws = \<lparr>sp_words = ws, sp_cur = [], sp_in = False, sp_quote = None\<rparr>"

lemma fold_blanks: "list_all is_blank bs \<Longrightarrow> fold split_char bs (between ws) = between ws"
  by (induction bs) (auto simp: between_def split_char_def is_blank_def)

definition inside :: "bytes list \<Rightarrow> bytes \<Rightarrow> splitter" where
  "inside ws w = \<lparr>sp_words = ws, sp_cur = w, sp_in = True, sp_quote = None\<rparr>"

lemma fold_gap: "list_all is_blank bs \<Longrightarrow> bs \<noteq> [] \<Longrightarrow> fold split_char bs (inside ws w) = between (ws @ [w])"
proof (cases bs)
  case (Cons b bs')
  assume "list_all is_blank bs"
  with Cons have b: "split_char b (inside ws w) = between (ws @ [w])" "list_all is_blank bs'"
    by (auto simp: inside_def between_def split_char_def is_blank_def)
  with fold_blanks [OF b(2), of "ws @ [w]"] Cons show ?thesis by simp
qed simp

definition finish :: "splitter \<Rightarrow> bytes list" where
  "finish s = (if sp_in s then sp_words s @ [sp_cur s] else sp_words s)"

definition word_meant :: "bytes \<times> piece list \<Rightarrow> bytes" where
  "word_meant w = concat (map meant (snd w))"

lemma finish_simps [simp]: "finish (between ws) = ws" "finish (inside ws w) = ws @ [w]"
  by (simp_all add: finish_def between_def inside_def)

lemma split_from_inside:
  assumes "list_all word_ok ws" "list_all (\<lambda>w. fst w \<noteq> []) ws" "list_all is_blank tail"
  shows "finish (fold split_char (typed_line ws tail) (inside done w)) = done @ w # map word_meant ws"
  using assms
proof (induction ws arbitrary: "done" w)
  case Nil
  then show ?case by (cases "tail = []") (simp_all add: fold_gap)
next
  case (Cons x ws)
  obtain bl ps where x: "x = (bl, ps)" by force
  with Cons.prems have ok: "list_all is_blank bl" "bl \<noteq> []" "list_all piece_ok ps" "ps \<noteq> []" by (auto simp: word_ok_def)
  have "fold split_char (concat (map typed ps)) (between (done @ [w])) = inside (done @ [w]) (word_meant x)"
    using fold_pieces [OF _ ok(3,4), of "between (done @ [w])"] x by (simp add: between_def inside_def word_meant_def)
  with fold_gap [OF ok(1,2), of "done" w] Cons x show ?case by simp
qed

lemma split_words_finish: "split_words line = finish (fold split_char line (between []))"
  by (simp add: split_words_def finish_def between_def Let_def)

text \<open>
  C32: splitting a command line gives back the words that were typed. However the words are separated,
  and whichever parts of them stand between quotes of either kind, each word arrives as it was meant:
  blanks inside quotes are kept, quotes are dropped, an empty pair of quotes is an empty word, and
  nothing is joined that was apart.
\<close>

theorem split_words_roundtrip:
  assumes "line_typed_ok ws tail"
  shows "split_words (typed_line ws tail) = map word_meant ws"
proof (cases ws)
  case Nil
  then show ?thesis using assms fold_blanks [of tail "[]"]
    by (simp add: split_words_finish line_typed_ok_def)
next
  case (Cons x ws')
  obtain bl ps where x: "x = (bl, ps)" by force
  with assms Cons have ok: "list_all is_blank bl" "list_all piece_ok ps" "ps \<noteq> []" by (auto simp: line_typed_ok_def word_ok_def)
  have "fold split_char (concat (map typed ps)) (between []) = inside [] (word_meant x)"
    using fold_pieces [OF _ ok(2,3), of "between []"] x by (simp add: between_def inside_def word_meant_def)
  moreover have "list_all word_ok ws'" "list_all (\<lambda>w. fst w \<noteq> []) ws'" "list_all is_blank tail"
    using assms Cons by (auto simp: line_typed_ok_def)
  ultimately show ?thesis using fold_blanks [OF ok(1), of "[]"] split_from_inside [of ws' tail "[]" "word_meant x"] x Cons
    by (simp add: split_words_finish)
qed

text \<open>Two words, the second with a quoted blank.\<close>

theorem split_words_roundtrip_witness:
  "split_words (ascii ''write a'' @ [34] @ ascii '' b'' @ [34, 9]) = [ascii ''write'', ascii ''a b'']"
proof -
  let ?ws = "[([], [Plain (ascii ''write'')]), ([32], [Plain (ascii ''a''), Quoted 34 (ascii '' b'')])]"
  have "line_typed_ok ?ws [9]" by (simp add: line_typed_ok_def word_ok_def is_blank_def is_quote_def)
  from split_words_roundtrip [OF this] show ?thesis by (simp add: word_meant_def)
qed

section \<open>History\<close>

lemma utf8_skip_space: "w \<in> set white_space \<Longrightarrow> utf8_valid (w @ r) = utf8_valid r"
proof -
  have "\<forall>w \<in> set white_space. utf8_valid (w @ r) = utf8_valid r" by (simp add: white_space_def utf8_cont_def)
  then show "w \<in> set white_space \<Longrightarrow> utf8_valid (w @ r) = utf8_valid r" by blast
qed

text \<open>A well-formed string is a sequence of characters, each a first byte and its continuation bytes.\<close>

definition utf8_char :: "bytes \<Rightarrow> bool" where
  "utf8_char c \<longleftrightarrow> c \<noteq> [] \<and> (\<forall>r. utf8_valid (c @ r) = utf8_valid r) \<and> list_all utf8_cont (tl c)"

lemma utf8_charI: "(\<And>r. utf8_valid (c @ r) = utf8_valid r) \<Longrightarrow> c \<noteq> [] \<Longrightarrow> list_all utf8_cont (tl c) \<Longrightarrow> utf8_char c"
  by (simp add: utf8_char_def)

lemma narrower:
  "0xA0 \<le> (c::u8) \<Longrightarrow> c \<le> 0xBF \<Longrightarrow> utf8_cont c" "0x90 \<le> (c::u8) \<Longrightarrow> c \<le> 0xBF \<Longrightarrow> utf8_cont c"
  "0x80 \<le> (c::u8) \<Longrightarrow> c \<le> 0x9F \<Longrightarrow> utf8_cont c" "0x80 \<le> (c::u8) \<Longrightarrow> c \<le> 0x8F \<Longrightarrow> utf8_cont c"
  unfolding utf8_cont_def by (simp_all add: word_le_nat_alt)

lemma utf8_first_char:
  assumes v: "utf8_valid (x # xs)"
  shows "\<exists>c r. x # xs = c @ r \<and> utf8_char c \<and> utf8_valid r"
proof -
  consider (one) "x < 0x80" | (two) "\<not> x < 0x80" "0xC2 \<le> x \<and> x \<le> 0xDF"
    | (three) "\<not> x < 0x80" "\<not> (0xC2 \<le> x \<and> x \<le> 0xDF)" "0xE0 \<le> x \<and> x \<le> 0xEF"
    | (four) "\<not> x < 0x80" "\<not> (0xC2 \<le> x \<and> x \<le> 0xDF)" "\<not> (0xE0 \<le> x \<and> x \<le> 0xEF)" "0xF0 \<le> x \<and> x \<le> 0xF4"
    using v by (auto split: if_splits)
  then show ?thesis
  proof cases
    case one
    then have "utf8_char [x]" "utf8_valid xs" using v by (simp_all add: utf8_char_def)
    then show ?thesis by (intro exI [of _ "[x]"] exI [of _ xs]) simp
  next
    case two
    then obtain a r where r: "xs = a # r" "utf8_cont a" "utf8_valid r" using v by (auto split: list.splits)
    with two have "utf8_char [x, a]" by (simp add: utf8_char_def)
    with r show ?thesis by (intro exI [of _ "[x, a]"] exI [of _ r]) simp
  next
    case three
    define ok where "ok a \<longleftrightarrow> (if x = 0xE0 then 0xA0 \<le> a \<and> a \<le> 0xBF else if x = 0xED then 0x80 \<le> a \<and> a \<le> 0x9F else utf8_cont a)" for a
    have "case xs of a # b # r \<Rightarrow> ok a \<and> utf8_cont b \<and> utf8_valid r | _ \<Rightarrow> False"
      using v unfolding utf8_valid.simps if_not_P [OF three(1)] if_not_P [OF three(2)] if_P [OF three(3)] ok_def .
    then obtain a b r where r: "xs = a # b # r" "ok a" "utf8_cont b" "utf8_valid r"
      by (auto split: list.splits)
    have a: "utf8_cont a" using r(2) narrower [of a] by (auto simp: ok_def split: if_splits)
    have "utf8_valid ([x, a, b] @ q) = utf8_valid q" for q
      unfolding append.simps by (subst utf8_valid.simps) (simp only: if_not_P [OF three(1)] if_not_P [OF three(2)] if_P [OF three(3)] list.case ok_def [symmetric] r(2,3) simp_thms)
    then have "utf8_char [x, a, b]" by (rule utf8_charI) (use r a in simp_all)
    with r show ?thesis by (intro exI [of _ "[x, a, b]"] exI [of _ r]) simp
  next
    case four
    define ok where "ok a \<longleftrightarrow> (if x = 0xF0 then 0x90 \<le> a \<and> a \<le> 0xBF else if x = 0xF4 then 0x80 \<le> a \<and> a \<le> 0x8F else utf8_cont a)" for a
    have "case xs of a # b # d # r \<Rightarrow> ok a \<and> utf8_cont b \<and> utf8_cont d \<and> utf8_valid r | _ \<Rightarrow> False"
      using v unfolding utf8_valid.simps if_not_P [OF four(1)] if_not_P [OF four(2)] if_not_P [OF four(3)] if_P [OF four(4)] ok_def .
    then obtain a b d r where r: "xs = a # b # d # r" "ok a" "utf8_cont b" "utf8_cont d" "utf8_valid r"
      by (auto split: list.splits)
    have a: "utf8_cont a" using r(2) narrower [of a] by (auto simp: ok_def split: if_splits)
    have "utf8_valid ([x, a, b, d] @ q) = utf8_valid q" for q
      unfolding append.simps by (subst utf8_valid.simps) (simp only: if_not_P [OF four(1)] if_not_P [OF four(2)] if_not_P [OF four(3)] if_P [OF four(4)] list.case ok_def [symmetric] r(2,3,4) simp_thms)
    then have "utf8_char [x, a, b, d]" by (rule utf8_charI) (use r a in simp_all)
    with r(1,5) have "x # xs = [x, a, b, d] @ r \<and> utf8_char [x, a, b, d] \<and> utf8_valid r" by (simp only: append.simps simp_thms)
    then show ?thesis by blast
  qed
qed

lemma utf8_front: "utf8_valid (r @ b # s) \<Longrightarrow> \<not> utf8_cont b \<Longrightarrow> utf8_valid r"
proof (induction r rule: length_induct)
  case (1 r)
  show ?case
  proof (cases r)
    case (Cons x xs)
    then obtain c t where c: "r @ b # s = c @ t" "utf8_char c" "utf8_valid t" using utf8_first_char [of x "xs @ b # s"] "1.prems"(1) by auto
    show ?thesis
    proof (cases "length c \<le> length r")
      case True
      then obtain r' where r': "r = c @ r'" "t = r' @ b # s" using c(1) by (auto simp: append_eq_append_conv2)
      moreover have "length r' < length r" using r'(1) c(2) by (simp add: utf8_char_def)
      ultimately have "utf8_valid r'" using "1.IH" "1.prems"(2) c(3) by blast
      with c(2) r'(1) show ?thesis by (simp add: utf8_char_def)
    next
      case False
      then obtain u where u: "c = r @ u" "b # s = u @ t" "u \<noteq> []" using c(1) by (auto simp: append_eq_append_conv2)
      then have "b \<in> set u" by (cases u) auto
      with u(1) Cons have "b \<in> set (tl c)" by simp
      with c(2) "1.prems"(2) show ?thesis by (simp add: utf8_char_def list_all_iff)
    qed
  qed simp
qed

lemma utf8_trim_start: "utf8_valid s \<Longrightarrow> utf8_valid (strip_from white_space s)"
proof (induction "white_space" s rule: strip_from.induct)
  case (1 s)
  show ?case
  proof (cases "find (\<lambda>w. w \<noteq> [] \<and> prefix w s) white_space")
    case None
    then show ?thesis using "1.prems" by (simp add: find_strippable strip_from_id)
  next
    case (Some w)
    then have w: "w \<in> set white_space" "prefix w s" by (auto simp: find_Some_iff)
    then obtain r where r: "s = w @ r" by (auto simp: prefix_def)
    have "utf8_valid r" using utf8_skip_space [OF w(1), of r] "1.prems" unfolding r by blast
    then have "utf8_valid (drop (length w) s)" by (simp add: r)
    with "1.hyps" [OF Some] Some show ?thesis by (subst strip_from.simps) simp
  qed
qed

lemma utf8_trim_end: "utf8_valid (rev t) \<Longrightarrow> utf8_valid (rev (strip_from (map rev white_space) t))"
proof (induction "map rev white_space" t rule: strip_from.induct)
  case (1 t)
  show ?case
  proof (cases "find (\<lambda>w. w \<noteq> [] \<and> prefix w t) (map rev white_space)")
    case None
    then show ?thesis using "1.prems" by (simp add: find_strippable strip_from_id)
  next
    case (Some w)
    then have "w \<in> rev ` set white_space" "prefix w t" by (auto simp: find_Some_iff)
    then obtain v u where v: "v \<in> set white_space" "w = rev v" "t = w @ u" by (auto simp: prefix_def)
    have "\<forall>v \<in> set white_space. v \<noteq> [] \<and> \<not> utf8_cont (hd v)" by (simp add: white_space_def utf8_cont_def)
    from bspec [OF this v(1)] obtain b bs where b: "v = b # bs" "\<not> utf8_cont b" by (metis list.collapse)
    have "utf8_valid (rev u)" using "1.prems" utf8_front [of "rev u" b bs] b v by simp
    then show ?thesis using "1.hyps" [OF Some] Some v by (subst strip_from.simps) simp
  qed
qed

lemma utf8_trim: "utf8_valid s \<Longrightarrow> utf8_valid (trim s)"
  using utf8_trim_end [of "rev (trim_start s)"] utf8_trim_start [of s] by (simp add: trim_def trim_end_def trim_start_def)

text \<open>A history as the shell keeps it.\<close>

definition history_ok :: "history \<Rightarrow> bool" where
  "history_ok h \<longleftrightarrow> length h \<le> HISTORY_MAX \<and> distinct h \<and> (\<forall>l \<in> set h. utf8_valid l \<and> trim l \<noteq> [] \<and> 10 \<notin> set l)"

lemma history_parse_text: "history_ok h \<Longrightarrow> history_parse (history_text h) = h"
proof -
  assume ok: "history_ok h"
  then have "split_on 10 (history_text h) = h @ [[]]" unfolding history_text_def by (intro split_on_lines) (auto simp: history_ok_def)
  moreover have "trim [] = []" by (simp add: trim_def trim_start_def trim_end_def strip_from_id strippable_def)
  moreover have "filter (\<lambda>l. utf8_valid l \<and> trim l \<noteq> []) h = h" using ok by (auto simp: history_ok_def)
  ultimately show ?thesis using ok by (simp add: history_parse_def history_ok_def)
qed

lemma filter_gone: "distinct h \<Longrightarrow> x \<in> set h \<Longrightarrow> length (filter (\<lambda>l. l \<noteq> x) h) < length h"
  by (rule length_filter_less) auto

lemma history_push_ok:
  assumes h: "history_ok h" and l: "utf8_valid l" "trim l \<noteq> []" "10 \<notin> set l"
  shows "history_ok (history_push h l)"
proof -
  let ?f = "filter (\<lambda>x. x \<noteq> l) h"
  have "length ?f \<le> HISTORY_MAX" using h by (auto simp: history_ok_def intro: le_trans [OF length_filter_le])
  moreover have "set (tl (?f @ [l])) \<subseteq> set (?f @ [l])" by (cases "?f @ [l]") auto
  ultimately show ?thesis using h l
    by (auto simp: history_push_def history_ok_def Let_def distinct_tl HISTORY_MAX_def)
qed

text \<open>
  C33: the history file. From a history of at most 500 distinct, non-blank lines, adding a line gives one
  again, with the line, stripped of surrounding space, as its newest entry, every other entry kept in
  order except the oldest when there would be 501; and reading back the file that was written gives
  exactly that history.
\<close>

theorem history_file:
  assumes "history_ok h" "utf8_valid line" "10 \<notin> set line" "trim line \<noteq> []"
  shows "history_ok (history_push h (trim line)) \<and> last (history_push h (trim line)) = trim line \<and>
    (\<exists>d \<le> 1. history_push h (trim line) = drop d (filter (\<lambda>l. l \<noteq> trim line) h @ [trim line]) \<and>
      (d = 1) = (length h = HISTORY_MAX \<and> trim line \<notin> set h)) \<and>
    history_parse (history_text (history_push h (trim line))) = history_push h (trim line)"
proof -
  let ?l = "trim line" and ?f = "filter (\<lambda>l. l \<noteq> trim line) h"
  have ok: "history_ok (history_push h ?l)"
    by (rule history_push_ok) (use assms utf8_trim trim_sub trim_trim in auto)
  have "length h \<le> HISTORY_MAX" "distinct h" using assms(1) by (auto simp: history_ok_def)
  from this have n: "(length (?f @ [?l]) > HISTORY_MAX) = (length h = HISTORY_MAX \<and> ?l \<notin> set h)"
  proof (cases "?l \<in> set h")
    case True
    with filter_gone [of h ?l] \<open>distinct h\<close> \<open>length h \<le> HISTORY_MAX\<close> show ?thesis by simp
  next
    case False
    then have "?f = h" by (intro filter_True) auto
    with False \<open>length h \<le> HISTORY_MAX\<close> show ?thesis by auto
  qed
  have "?f \<noteq> []" if "length (?f @ [?l]) > HISTORY_MAX" using that by (auto simp: HISTORY_MAX_def)
  then have "last (history_push h ?l) = ?l" by (auto simp: history_push_def Let_def last_tl)
  moreover have "\<exists>d \<le> 1. history_push h ?l = drop d (?f @ [?l]) \<and> (d = 1) = (length h = HISTORY_MAX \<and> ?l \<notin> set h)"
    by (rule exI [of _ "if length (?f @ [?l]) > HISTORY_MAX then 1 else 0"])
      (unfold n [symmetric], simp add: history_push_def Let_def drop_Suc del: drop_append)
  ultimately show ?thesis using ok history_parse_text [OF ok] by blast
qed

text \<open>A repeated command moves to the end.\<close>

theorem history_file_witness:
  "history_push [ascii ''ls'', ascii ''cd /'', ascii ''pwd''] (trim (ascii '' ls'')) = [ascii ''cd /'', ascii ''pwd'', ascii ''ls''] \<and>
   history_parse (history_text [ascii ''cd /'', ascii ''pwd'', ascii ''ls'']) = [ascii ''cd /'', ascii ''pwd'', ascii ''ls'']"
proof -
  have t: "trim (ascii '' ls'') = ascii ''ls''" by (simp add: trim_space solid_trim solid_def)
  let ?h = "[ascii ''ls'', ascii ''cd /'', ascii ''pwd'']"
  have "history_ok ?h" by (simp add: history_ok_def HISTORY_MAX_def solid_trim solid_def)
  from history_file [OF this, of "ascii '' ls''"] t show ?thesis
    by (simp add: history_push_def HISTORY_MAX_def)
qed

section \<open>Completion\<close>

lemma dedup_text_set: "set (dedup_text cs) \<subseteq> set cs" "cd_text ` set (dedup_text cs) = cd_text ` set cs"
  by (induction cs rule: dedup_text.induct) auto

lemma dedup_text_hd: "cs \<noteq> [] \<Longrightarrow> \<exists>ds. dedup_text cs = hd cs # ds"
  by (induction cs rule: dedup_text.induct) auto

lemma dedup_text_sorted: "sorted (map cd_text cs) \<Longrightarrow> sorted_wrt (<) (map cd_text (dedup_text cs))"
proof (induction cs rule: dedup_text.induct)
  case (1 a b cs)
  show ?case
  proof (cases "cd_text a = cd_text b")
    case False
    with "1.prems" have "\<forall>x \<in> set (b # cs). cd_text a < cd_text x" by (auto simp: less_le_not_le dest: order_antisym)
    moreover have "set (dedup_text (b # cs)) \<subseteq> set (b # cs)" by (rule dedup_text_set)
    ultimately show ?thesis using "1.IH"(2) [OF False] "1.prems" False by auto
  qed (use 1 in auto)
qed auto

lemma program_cands_prefix: "program_cands S k pre dir desc es = Some (k', cs) \<Longrightarrow> c \<in> set cs \<Longrightarrow> prefix pre (cd_text c)"
  by (induction es arbitrary: k k' cs) (auto simp: Let_def split: bind_splits if_splits)

lemma program_dir_prefix: "program_dir S k pre dir desc = Some (k', cs) \<Longrightarrow> c \<in> set cs \<Longrightarrow> prefix pre (cd_text c)"
  by (auto simp: program_dir_def split: bind_splits option.splits intro: program_cands_prefix)

lemma commands_prefix: "commands S k pre = Some (k', cs) \<Longrightarrow> c \<in> set cs \<Longrightarrow> prefix pre (cd_text c)"
proof -
  assume "commands S k pre = Some (k', cs)" "c \<in> set cs"
  then obtain k1 a b where *: "program_dir S k pre (ascii ''.'') (ascii ''program here'') = Some (k1, a)"
    "program_dir S k1 pre (ascii ''/bin'') (ascii ''program'') = Some (k', b)" "c \<in> set (builtin_cands pre) \<or> c \<in> set a \<or> c \<in> set b"
    by (auto simp: commands_def simp del: ascii_simps split: bind_splits)
  moreover have "c \<in> set (builtin_cands pre) \<Longrightarrow> prefix pre (cd_text c)" by (auto simp: builtin_cands_def)
  ultimately show ?thesis using program_dir_prefix [OF *(1), of c] program_dir_prefix [OF *(2), of c] by blast
qed

lemma paths_prefix:
  assumes "paths S k word = Some (k', cs)" "c \<in> set cs"
  shows "prefix word (cd_text c)"
proof (cases "rfind 47 word")
  case None
  with assms show ?thesis by (auto simp: paths_def path_cand_def Let_def split: option.splits bind_splits)
next
  case (Some i)
  have "prefix (drop (i + 1) word) n \<Longrightarrow> prefix word (take (i + 1) word @ n @ x)" for n x
    by (metis append_take_drop_id append.assoc prefix_def)
  with assms Some show ?thesis by (auto simp: paths_def path_cand_def Let_def split: option.splits bind_splits)
qed

lemma agree_prefix: "prefix q a \<Longrightarrow> prefix q b \<longleftrightarrow> length q \<le> agree a b"
proof (induction a b arbitrary: q rule: agree.induct)
  case (1 a as b bs)
  then show ?case by (cases q) auto
qed (auto simp: prefix_def)

lemma agree_le: "agree a b \<le> length a"
  by (induction a b rule: agree.induct) auto

lemma fold_agree: "m \<le> fold (\<lambda>c len. min len (agree t (cd_text c))) cs n \<longleftrightarrow> m \<le> n \<and> (\<forall>c \<in> set cs. m \<le> agree t (cd_text c))"
  by (induction cs arbitrary: n) auto

lemma prefix_take_iff: "prefix q (take n f) \<longleftrightarrow> prefix q f \<and> length q \<le> n"
proof (induction f arbitrary: q n)
  case (Cons x f)
  then show ?case by (cases q; cases n) auto
qed auto

lemma common_prefix_longest:
  assumes "common_prefix cs = Some p" "cs \<noteq> []"
  shows "(\<forall>c \<in> set cs. prefix q (cd_text c)) \<longleftrightarrow> prefix q p"
proof -
  obtain f r where cs: "cs = f # r" using assms(2) by (cases cs) auto
  let ?n = "fold (\<lambda>c len. min len (agree (cd_text f) (cd_text c))) r (length (cd_text f))"
  have p: "p = take ?n (cd_text f)" using assms(1) cs by (auto simp: common_prefix_def str_slice_def split: if_splits)
  have "prefix q (cd_text f) \<Longrightarrow> (\<forall>c \<in> set r. prefix q (cd_text c)) \<longleftrightarrow> length q \<le> ?n"
    using fold_agree [of "length q" "cd_text f" r "length (cd_text f)"] agree_prefix [of q "cd_text f"] by (auto dest: prefix_length_le)
  then have "(\<forall>c \<in> set cs. prefix q (cd_text c)) \<longleftrightarrow> prefix q (cd_text f) \<and> length q \<le> ?n" using cs by auto
  also have "\<dots> \<longleftrightarrow> prefix q p" unfolding p prefix_take_iff ..
  finally show ?thesis .
qed

text \<open>
  C34: completion offers only what extends the word at the cursor, sorted and without duplicates, and the
  part it fills in when several candidates remain is the longest text they all begin with, so it never
  shortens the word nor decides between candidates.
\<close>

theorem completion_correct:
  assumes "candidates S k line cursor = Some (k', cs)" "word_at line cursor = Some (start, first)"
  shows "sorted_wrt (<) (map cd_text cs) \<and> (\<forall>c \<in> set cs. prefix (drop start (take cursor line)) (cd_text c)) \<and>
    (\<forall>p q. cs \<noteq> [] \<and> common_prefix cs = Some p \<longrightarrow>
      prefix (drop start (take cursor line)) p \<and> (prefix q p \<longleftrightarrow> (\<forall>c \<in> set cs. prefix q (cd_text c))))"
proof -
  let ?w = "drop start (take cursor line)"
  obtain out where o: "(if first \<and> 47 \<notin> set ?w then commands S k ?w else paths S k ?w) = Some (k', out)"
    and cs: "cs = dedup_text (sort_key cd_text out)"
    using assms by (auto simp: candidates_def str_slice_def split: bind_splits if_splits)
  have w: "prefix ?w (cd_text c)" if "c \<in> set cs" for c
  proof -
    from that cs dedup_text_set(1) have "c \<in> set out" by fastforce
    with o show ?thesis by (auto split: if_splits intro: commands_prefix paths_prefix)
  qed
  moreover have "sorted_wrt (<) (map cd_text cs)" unfolding cs by (rule dedup_text_sorted) simp
  ultimately show ?thesis using common_prefix_longest [of cs] by auto
qed

text \<open>On a system without files, the builtins that begin with \<^verbatim>\<open>co\<close>.\<close>

definition null_sys :: "unit sys" where
  "null_sys = \<lparr>s_open = (\<lambda>k p f. (k, -1)), s_read = (\<lambda>k fd n. (k, -1, [])), s_write = (\<lambda>k fd bs. (k, -1)), s_close = (\<lambda>k fd. k),
     s_lseek = (\<lambda>k fd off w. (k, -1)), s_getdents = (\<lambda>k fd. (k, -1, 0, [])), s_mkdir = (\<lambda>k p. (k, -1)), s_unlink = (\<lambda>k p. (k, -1)),
     s_rename = (\<lambda>k p q. (k, -1)), s_copy = (\<lambda>k p q. (k, -1)), s_chdir = (\<lambda>k p. (k, -1)), s_getcwd = (\<lambda>k n. (k, -1, [])),
     s_sync = (\<lambda>k. (k, -1)), s_yield = (\<lambda>k. k), s_poll_key = (\<lambda>k. (k, -1)), s_winsize = (\<lambda>k. (k, -1, 0, 0))\<rparr>"

theorem completion_correct_witness:
  "\<exists>cs. candidates null_sys () (ascii ''co'') 2 = Some ((), cs) \<and> map cd_text cs = [ascii ''configure'', ascii ''copy''] \<and>
     sorted_wrt (<) (map cd_text cs)"
proof -
  have w: "word_at (ascii ''co'') 2 = Some (0, True)"
    by (simp add: word_at_def str_slice_def is_char_boundary_def trim_def trim_start_def trim_end_def strip_from_id strippable_def)
  have d: "read_dir null_sys () p = Some ((), None)" for p
    by (simp add: read_dir_def file_open_def null_sys_def)
  have "commands null_sys () (ascii ''co'') = Some ((), builtin_cands (ascii ''co''))"
    by (simp add: commands_def program_dir_def d)
  then have c: "candidates null_sys () (ascii ''co'') 2 = Some ((), dedup_text (sort_key cd_text (builtin_cands (ascii ''co''))))"
    using w by (simp add: candidates_def str_slice_def is_char_boundary_def)
  have m: "map cd_text (dedup_text (sort_key cd_text (builtin_cands (ascii ''co'')))) = [ascii ''configure'', ascii ''copy'']"
    by (simp add: builtin_cands_def BUILTINS_def mk_builtin_def)
  show ?thesis by (rule exI, intro conjI, rule c, rule m, rule completion_correct [OF c w, THEN conjunct1])
qed

end
