(* ===== verification/ShSafe.thy ===== *)
theory ShSafe
  imports ShWords
begin

text \<open>
  Why the line editor does not panic: as long as the history and the names of files are ASCII, so is the
  line, every byte offset in it is a character boundary, and the cursor, the selection and the scroll
  position stay in range. The kernel is a locale's parameter; its listings must be of ASCII names and its
  terminal of one width while a key is handled.
\<close>

section \<open>ASCII strings\<close>

lemma ascii_boundary: "is_ascii s \<Longrightarrow> is_char_boundary s i \<longleftrightarrow> i \<le> length s"
  by (auto simp: is_char_boundary_def is_ascii_def is_boundary_def)

lemma is_ascii_take [simp]: "is_ascii s \<Longrightarrow> is_ascii (take n s)" "is_ascii s \<Longrightarrow> is_ascii (drop n s)"
  by (auto simp: is_ascii_def dest: in_set_takeD in_set_dropD)

lemma slice_ok: "is_ascii s \<Longrightarrow> a \<le> b \<Longrightarrow> b \<le> length s \<Longrightarrow> str_slice s a b = Some (drop a (take b s))"
  by (simp add: str_slice_def ascii_boundary)

lemma replace_ok: "is_ascii s \<Longrightarrow> a \<le> b \<Longrightarrow> b \<le> length s \<Longrightarrow> str_replace_range s a b t = Some (take a s @ t @ drop b s)"
  by (simp add: str_replace_range_def ascii_boundary)

lemma is_ascii_spaces [simp]: "is_ascii (spaces n)"
  by (auto simp: spaces_def is_ascii_def)

lemma is_ascii_dec [simp]: "is_ascii (dec n)"
  unfolding is_ascii_def
proof
  fix b assume "b \<in> set (dec n)"
  from dec_digits [OF this] have "b \<le> 57" by simp
  then show "b < 128" by (rule le_less_trans) simp
qed

lemma is_ascii_prefix: "is_ascii s \<Longrightarrow> prefix p s \<Longrightarrow> is_ascii p"
  by (auto simp: prefix_def)

section \<open>The editor's state\<close>

definition cand_ok :: "candidate \<Rightarrow> bool" where
  "cand_ok c \<longleftrightarrow> is_ascii (cd_text c) \<and> is_ascii (cd_display c) \<and> is_ascii (cd_desc c)"

lemma cand_ok_mk [simp]: "cand_ok \<lparr>cd_text = a, cd_display = b, cd_desc = d, cd_dir = f\<rparr> \<longleftrightarrow> is_ascii a \<and> is_ascii b \<and> is_ascii d"
  by (simp add: cand_ok_def)

definition list_ok :: "led \<Rightarrow> clist \<Rightarrow> bool" where
  "list_ok e l \<longleftrightarrow> cl_cands l \<noteq> [] \<and> list_all cand_ok (cl_cands l) \<and> cl_start l \<le> l_cur e \<and>
     (\<forall>s. cl_sel l = Some s \<longrightarrow> s < length (cl_cands l))"

definition led_inv :: "led \<Rightarrow> bool" where
  "led_inv e \<longleftrightarrow> is_ascii (l_buf e) \<and> l_cur e \<le> length (l_buf e) \<and> list_all is_ascii (l_hist e) \<and>
     (\<forall>i. l_hpos e = Some i \<longrightarrow> i < length (l_hist e)) \<and> (\<forall>p. l_hprefix e = Some p \<longrightarrow> is_ascii p) \<and>
     (\<forall>l. l_list e = Some l \<longrightarrow> list_ok e l)"

lemma led_invD: "led_inv e \<Longrightarrow> is_ascii (l_buf e) \<and> l_cur e \<le> length (l_buf e)"
  by (simp add: led_inv_def)

lemma led_inv_new: "list_all is_ascii h \<Longrightarrow> led_inv (led_new h p w)"
  by (simp add: led_inv_def led_new_def)

lemma led_inv_edited: "led_inv e \<Longrightarrow> led_inv (edited e)"
  by (auto simp: led_inv_def edited_def list_ok_def)

lemma led_inv_close: "led_inv e \<Longrightarrow> led_inv (e\<lparr>l_list := None\<rparr>)"
  by (simp add: led_inv_def)

text \<open>A new line and cursor, with the list closed.\<close>

lemma led_inv_text:
  "led_inv e \<Longrightarrow> l_list e = None \<Longrightarrow> is_ascii b \<Longrightarrow> c \<le> length b \<Longrightarrow> led_inv (e\<lparr>l_buf := b, l_cur := c\<rparr>)"
  by (simp add: led_inv_def)

lemma search_range:
  assumes "history_search h p from older = Some i" "\<forall>j. from = Some j \<longrightarrow> j < length h"
  shows "i < length h"
  using assms by (auto simp: history_search_def find_Some_iff Let_def split: if_splits option.splits)
    (metis diff_less length_upt less_nat_zero_code less_trans nth_mem rev_nth set_upt atLeastLessThan_iff diff_zero length_rev set_rev)+

lemma walk_history_ok:
  assumes "led_inv e" "l_list e = None"
  shows "\<exists>e'. walk_history older e = Some e' \<and> led_inv e'"
proof -
  let ?p = "case l_hprefix e of None \<Rightarrow> l_buf e | Some p \<Rightarrow> p"
  have p: "is_ascii ?p" using assms by (auto simp: led_inv_def split: option.splits)
  show ?thesis
  proof (cases "history_search (l_hist e) ?p (l_hpos e) older")
    case None
    then show ?thesis using assms p by (auto simp: walk_history_def Let_def led_inv_def set_line_def split: option.splits)
  next
    case (Some i)
    then have "i < length (l_hist e)" using assms by (intro search_range [OF Some]) (simp add: led_inv_def)
    moreover from this have "is_ascii (l_hist e ! i)" using assms by (simp add: led_inv_def list_all_length)
    ultimately show ?thesis using assms p Some
      by (auto simp: walk_history_def Let_def led_inv_def set_line_def history_get_def vec_get_def split: option.splits)
  qed
qed

lemma replace_word_ok:
  assumes "led_inv e" "start \<le> l_cur e" "is_ascii t"
  shows "replace_word start t e = Some (e\<lparr>l_buf := take start (l_buf e) @ t @ drop (l_cur e) (l_buf e), l_cur := start + length t\<rparr>)"
    and "start + length t \<le> length (take start (l_buf e) @ t @ drop (l_cur e) (l_buf e))"
    and "is_ascii (take start (l_buf e) @ t @ drop (l_cur e) (l_buf e))"
  using assms by (auto simp: replace_word_def led_inv_def replace_ok)

lemma pick_ok:
  assumes e: "led_inv e" and l: "l_list e = Some l" and n: "n < length (cl_cands l)"
  shows "\<exists>e'. pick l n e = Some e' \<and> led_inv e'"
proof -
  let ?e = "e\<lparr>l_list := Some (l\<lparr>cl_sel := Some n\<rparr>)\<rparr>" and ?t = "cd_text (cl_cands l ! n)"
  have lo: "list_ok e l" using e l by (simp add: led_inv_def)
  then have t: "is_ascii ?t" using n by (auto simp: list_ok_def list_all_length cand_ok_def)
  have e': "led_inv ?e" using e lo n by (auto simp: led_inv_def list_ok_def)
  have "cl_start l \<le> l_cur ?e" using lo by (simp add: list_ok_def)
  note r = replace_word_ok [OF e' this t]
  have "led_inv (?e\<lparr>l_buf := take (cl_start l) (l_buf ?e) @ ?t @ drop (l_cur ?e) (l_buf ?e), l_cur := cl_start l + length ?t\<rparr>)"
    using e' r(2,3) lo n by (auto simp: led_inv_def list_ok_def)
  then show ?thesis using r(1) n by (simp add: pick_def vec_get_def)
qed

lemma back_over_le: "back_over P s i \<le> i"
  by (induction i) auto

lemma erase_word_ok: "led_inv e \<Longrightarrow> l_list e = None \<Longrightarrow> \<exists>e'. erase_word e = Some e' \<and> led_inv e'"
proof -
  assume e: "led_inv e" "l_list e = None"
  let ?i = "back_over (\<lambda>b. b \<noteq> 32) (l_buf e) (back_over (\<lambda>b. b = 32) (l_buf e) (l_cur e))"
  have "?i \<le> l_cur e" by (meson back_over_le le_trans)
  moreover from this have "str_drain (l_buf e) ?i (l_cur e) = Some (take ?i (l_buf e) @ drop (l_cur e) (l_buf e))"
    using led_invD [OF e(1)] by (simp add: str_drain_def replace_ok)
  moreover from \<open>?i \<le> l_cur e\<close> have "led_inv (edited (e\<lparr>l_buf := take ?i (l_buf e) @ drop (l_cur e) (l_buf e), l_cur := ?i\<rparr>))"
    using led_invD [OF e(1)] by (intro led_inv_edited led_inv_text e) auto
  ultimately show ?thesis using led_invD [OF e(1)] by (simp add: erase_word_def Let_def)
qed

lemma key_remove_ok:
  assumes "led_inv e" "l_list e = None" "i < length (l_buf e)"
  shows "\<exists>e'. key_remove e i = Some e' \<and> led_inv e'"
proof -
  have "char_len (l_buf e ! i) = 1" using assms by (auto simp: led_inv_def is_ascii_def char_len_def)
  then have "str_remove (l_buf e) i = Some (take i (l_buf e) @ drop (Suc i) (l_buf e))"
    using assms by (simp add: str_remove_def led_inv_def ascii_boundary)
  moreover have "led_inv (e\<lparr>l_buf := take i (l_buf e) @ drop (Suc i) (l_buf e), l_cur := i\<rparr>)"
    using assms by (intro led_inv_text) (auto simp: led_inv_def)
  ultimately show ?thesis by (auto simp: key_remove_def intro: led_inv_edited)
qed

lemma key_char_ok:
  assumes "led_inv e" "l_list e = None" "c < 127"
  shows "\<exists>e'. key_char c e = Some e' \<and> led_inv e'"
proof -
  have "c < 0x80" using assms(3) by (rule less_trans) simp
  then have "led_inv (e\<lparr>l_buf := take (l_cur e) (l_buf e) @ c # drop (l_cur e) (l_buf e), l_cur := l_cur e + 1\<rparr>)"
    using assms by (intro led_inv_text) (auto simp: led_inv_def)
  with led_invD [OF assms(1)] show ?thesis by (simp add: key_char_def str_insert_def ascii_boundary led_inv_edited)
qed

section \<open>Drawing\<close>

lemma draw_chars_ok:
  "is_ascii (l_buf e) \<Longrightarrow> length cs = length (l_buf e) \<Longrightarrow> \<forall>i \<in> set is. i < length (l_buf e) \<Longrightarrow> \<exists>po'. draw_chars e cs fin is po = Some po'"
  by (induction "is" arbitrary: po) (simp_all add: vec_get_def slice_ok)

lemma draw_end_ok: "is_ascii s \<Longrightarrow> \<exists>po'. draw_end s avail shown po = Some po'"
  by (cases s) (simp_all add: draw_end_def slice_ok)

lemma follow_cursor_ok:
  assumes "l_cur e \<le> length (l_buf e)" "0 < avail"
  shows "l_scroll (follow_cursor avail fin e) \<le> length (l_buf e)"
    "follow_cursor avail fin e = e\<lparr>l_scroll := l_scroll (follow_cursor avail fin e)\<rparr>"
  using assms by (auto simp: follow_cursor_def Let_def)

lemma led_inv_follow: "led_inv e \<Longrightarrow> led_inv (follow_cursor avail fin e)" "l_buf (follow_cursor avail fin e) = l_buf e"
  by (simp_all add: follow_cursor_def Let_def led_inv_def list_ok_def)

lemma draw_line_ok:
  assumes "is_ascii (l_buf e)" "l_scroll e \<le> length (l_buf e)" "length cs = length (l_buf e)" "\<forall>s. sugg = Some s \<longrightarrow> is_ascii s"
  shows "\<exists>out. draw_line avail fin cs sugg e = Some out"
proof -
  let ?is = "[l_scroll e..<min (l_scroll e + avail) (length (l_buf e))]"
  obtain po where po: "draw_chars e cs fin ?is ([], [13] @ l_prefix e) = Some po"
    using draw_chars_ok [OF assms(1,3), of ?is fin "([], [13] @ l_prefix e)"] by auto
  have "is_ascii (case sugg of None \<Rightarrow> [] | Some s \<Rightarrow> s)" using assms(4) by (cases sugg) auto
  from draw_end_ok [OF this, of avail "min (l_scroll e + avail) (length (l_buf e)) - l_scroll e" po] obtain po' where
    "draw_end (case sugg of None \<Rightarrow> [] | Some s \<Rightarrow> s) avail (min (l_scroll e + avail) (length (l_buf e)) - l_scroll e) po = Some po'" by blast
  moreover have "\<not> l_scroll e > min (l_scroll e + avail) (length (l_buf e))" using assms(2) by simp
  ultimately show ?thesis using po by (simp add: draw_line_def Let_def)
qed

lemma draw_cell_ok:
  assumes "cand_ok c" "0 < col_w" "col_w \<le> usable"
  shows "\<exists>s. draw_cell name_w col_w usable sel c = Some s"
proof -
  let ?t = "pad_right name_w (cd_display c) @ spaces 2 @ cd_desc c"
  have "is_ascii ?t" using assms(1) by (simp add: cand_ok_def pad_right_def)
  then obtain cell where cell: "str_truncate ?t (col_w - 1) = Some cell" "is_ascii cell" "length cell \<le> col_w - 1"
    by (cases "col_w - 1 \<le> length ?t") (auto simp: str_truncate_def ascii_boundary)
  then have "\<not> length cell > min col_w usable" using assms(2,3) by simp
  then show ?thesis using cell by (simp add: draw_cell_def str_split_at_def ascii_boundary Let_def)
qed

lemma draw_row_ok:
  "list_all cand_ok (cl_cands l) \<Longrightarrow> 0 < col_w \<Longrightarrow> col_w \<le> usable \<Longrightarrow> \<exists>s. draw_row l name_w col_w usable is = Some s"
proof (induction "is")
  case (Cons i "is")
  show ?case
  proof (cases "i < length (cl_cands l)")
    case True
    with Cons.prems have "cand_ok (cl_cands l ! i)" by (simp add: list_all_length)
    from draw_cell_ok [OF this Cons.prems(2,3), of name_w "cl_sel l = Some i"] Cons True show ?thesis by auto
  qed simp
qed simp

lemma draw_rows_ok:
  assumes "list_all cand_ok (cl_cands l)" "0 < col_w" "col_w \<le> usable"
  shows "\<exists>s. draw_rows l name_w col_w cols usable rs = Some s"
proof (induction rs)
  case (Cons r rs)
  then show ?case using draw_row_ok [OF assms, of name_w "[r * cols..<r * cols + cols]"] by auto
qed simp

lemma list_note_ok: "\<exists>s. list_note a b c usable = Some s"
  by (simp add: list_note_def Let_def slice_ok)

lemma list_top_ok: "list_ok e l \<Longrightarrow> list_ok e (list_top cols rows l)"
  by (auto simp: list_top_def list_ok_def Let_def split: option.splits)

lemma list_top_cands [simp]: "cl_cands (list_top cols rows l) = cl_cands l"
  by (simp add: list_top_def Let_def split: option.splits)

lemma word_end_le: "word_end q bs \<le> length bs"
  by (induction q bs rule: word_end.induct) (auto split: option.splits)

section \<open>The host\<close>

text \<open>
  \<open>calm w\<close> is a state of the system in which every listing is of ASCII names and the terminal is \<open>w\<close>
  columns wide; nothing that the editor calls leaves such states.
\<close>

locale shell_host = file_kernel S left kinv for S :: "'k sys" and left :: "'k \<Rightarrow> int \<Rightarrow> nat" and kinv :: "'k \<Rightarrow> bool" +
  fixes calm :: "nat \<Rightarrow> 'k \<Rightarrow> bool"
  assumes calm_inv: "calm w k \<Longrightarrow> kinv k"
    and calm_open: "calm w k \<Longrightarrow> calm w (fst (s_open S k p O_RDONLY))"
    and calm_close: "calm w k \<Longrightarrow> file_fd fd \<Longrightarrow> calm w (s_close S k fd)"
    and calm_read: "calm w k \<Longrightarrow> file_fd fd \<Longrightarrow> calm w (fst (s_read S k fd n))"
    and calm_getdents: "calm w k \<Longrightarrow> file_fd fd \<Longrightarrow> s_getdents S k fd = (k', r, ty, nm) \<Longrightarrow> calm w k' \<and> (r = 1 \<longrightarrow> is_ascii (until_nul nm))"
    and calm_width: "calm w k \<Longrightarrow> window_size S k = (k', c, rows) \<Longrightarrow> calm w k' \<and> c = w"
begin

lemma file_open_calm:
  assumes "calm w k" "file_open S k p = (k', f)"
  shows "calm w k'" "f = Some fd \<Longrightarrow> file_fd fd"
  using assms calm_open [OF assms(1), of p] file_open_inv(2) [OF calm_inv [OF assms(1)] assms(2)]
  by (auto simp: file_open_def split: prod.splits)

lemma open_calm:
  assumes "calm w k" "on_path k p (file_open S) = (k', f)"
  shows "calm w k'" "f = Some fd \<Longrightarrow> file_fd fd"
  using assms file_open_calm [OF assms(1)] by (auto simp: on_path_def split: option.splits)

lemma file_read_calm: "calm w k \<Longrightarrow> file_fd fd \<Longrightarrow> file_read S k fd n = (k', d) \<Longrightarrow> calm w k' \<and> length d \<le> n \<and> (d \<noteq> [] \<longrightarrow> left k' fd < left k fd)"
  using calm_read [of w k fd n] file_read_ok [OF calm_inv, of w k fd n k' d] by (auto simp: file_read_def split: prod.splits)

lemma read_full_calm: "calm w k \<Longrightarrow> file_fd fd \<Longrightarrow> \<exists>k' d. read_full S k fd len got = Some (k', d) \<and> calm w k'"
proof (induction "left k fd" arbitrary: k got rule: less_induct)
  case less
  obtain k1 d where r: "file_read S k fd (len - length got) = (k1, d)" by (cases "file_read S k fd (len - length got)")
  from file_read_calm [OF less.prems r] have k1: "calm w k1" "d \<noteq> [] \<longrightarrow> left k1 fd < left k fd" by auto
  show ?case
  proof (cases "length got < len \<and> d \<noteq> []")
    case True
    with less.hyps [of k1 "got @ d"] k1 less.prems(2) r show ?thesis by (subst read_full.simps) auto
  next
    case False
    then show ?thesis using r k1 less.prems by (subst read_full.simps) auto
  qed
qed

lemma read_entries_calm:
  "calm w k \<Longrightarrow> file_fd fd \<Longrightarrow> list_all (\<lambda>e. is_ascii (dname e)) es \<Longrightarrow>
   \<exists>k' r. read_entries S k fd es = Some (k', r) \<and> calm w k' \<and> (\<forall>es. r = Some es \<longrightarrow> list_all (\<lambda>e. is_ascii (dname e)) es)"
proof (induction "left k fd" arbitrary: k es rule: less_induct)
  case less
  obtain k1 r ty nm where g: "s_getdents S k fd = (k1, r, ty, nm)" by (cases "s_getdents S k fd") auto
  from calm_getdents [OF less.prems(1,2) g] getdents_ok [OF calm_inv [OF less.prems(1)] less.prems(2) g]
  have k1: "calm w k1" "r = 1 \<longrightarrow> is_ascii (until_nul nm)" "r = 1 \<longrightarrow> left k1 fd < left k fd" by auto
  show ?case
  proof (cases "r = 1")
    case True
    let ?e = "\<lparr>dname = from_utf8_lossy (until_nul nm), ddir = (ty = DT_DIR)\<rparr>"
    have "list_all (\<lambda>e. is_ascii (dname e)) (es @ [?e])" using True k1(2) less.prems(3) by (simp add: lossy_ascii)
    from less.hyps [OF _ k1(1) less.prems(2) this] True k1(3) g show ?thesis by (subst read_entries.simps) auto
  next
    case False
    then show ?thesis using g k1 less.prems(3) by (subst read_entries.simps) auto
  qed
qed

lemma read_dir_calm:
  assumes "calm w k"
  shows "\<exists>k' r. read_dir S k p = Some (k', r) \<and> calm w k' \<and> (\<forall>es. r = Some es \<longrightarrow> list_all (\<lambda>e. is_ascii (dname e)) es)"
proof -
  obtain k1 f where o: "file_open S k p = (k1, f)" by (cases "file_open S k p")
  note i = file_open_calm [OF assms o]
  show ?thesis
  proof (cases f)
    case (Some fd)
    with i have "calm w k1" "file_fd fd" by auto
    with read_entries_calm [OF this, of "[]"] Some o show ?thesis by (auto simp: read_dir_def intro: calm_close)
  qed (use o i in \<open>auto simp: read_dir_def\<close>)
qed

definition goes :: "nat \<Rightarrow> ('k \<times> 'a) option \<Rightarrow> ('a \<Rightarrow> bool) \<Rightarrow> bool" where
  "goes w r P \<longleftrightarrow> (\<exists>k' x. r = Some (k', x) \<and> calm w k' \<and> P x)"

lemma goes_Some [simp]: "goes w (Some (k, x)) P \<longleftrightarrow> calm w k \<and> P x"
  by (simp add: goes_def)

lemma goes_bind: "goes w r P \<Longrightarrow> (\<And>k x. calm w k \<Longrightarrow> P x \<Longrightarrow> goes w (f (k, x)) Q) \<Longrightarrow> goes w (r \<bind> f) Q"
  by (auto simp: goes_def)

lemma goes_then: "goes w r (\<lambda>x. True) \<Longrightarrow> (\<And>k x. calm w k \<Longrightarrow> goes w (f (k, x)) Q) \<Longrightarrow> goes w (r \<bind> f) Q"
  by (auto simp: goes_def)

lemma goes_mono: "goes w r P \<Longrightarrow> (\<And>x. P x \<Longrightarrow> Q x) \<Longrightarrow> goes w r Q"
  by (auto simp: goes_def)

lemma is_program_goes: "calm w k \<Longrightarrow> goes w (is_program S k p) (\<lambda>b. True)"
proof -
  assume k: "calm w k"
  obtain k1 f where o: "on_path k p (file_open S) = (k1, f)" by (cases "on_path k p (file_open S)")
  note i = open_calm [OF k o]
  show ?thesis
  proof (cases f)
    case (Some fd)
    with i have "calm w k1" "file_fd fd" by auto
    with read_full_calm [OF this, of 4 "[]"] Some o show ?thesis by (auto simp: is_program_def goes_def intro: calm_close)
  qed (use o i in \<open>auto simp: is_program_def\<close>)
qed

lemma find_program_goes: "calm w k \<Longrightarrow> goes w (find_program S k ps) (\<lambda>r. True)"
  by (induction ps arbitrary: k) (auto intro!: goes_then is_program_goes)

lemma is_command_goes: "calm w k \<Longrightarrow> goes w (is_command S k word) (\<lambda>b. True)"
  unfolding is_command_def resolve_program_def by (auto simp del: find_program.simps intro!: goes_then find_program_goes)

lemma path_exists_goes: "calm w k \<Longrightarrow> calm w (fst (path_exists S k p))"
proof -
  assume k: "calm w k"
  obtain k1 f where o: "on_path k p (file_open S) = (k1, f)" by (cases "on_path k p (file_open S)")
  from open_calm [OF k o] o show ?thesis by (cases f) (auto simp: path_exists_def file_drop_def intro: calm_close)
qed

lemma suggest_goes:
  "calm w k \<Longrightarrow> goes w (suggest_in (runnable S) k p ls) (\<lambda>r. \<forall>l. r = Some l \<longrightarrow> l \<in> set ls \<and> length p < length l)"
proof (induction ls arbitrary: k)
  case (Cons l ls)
  have IH: "calm w k1 \<Longrightarrow> goes w (suggest_in (runnable S) k1 p ls) (\<lambda>r. \<forall>x. r = Some x \<longrightarrow> x \<in> set (l # ls) \<and> length p < length x)" for k1
    by (rule goes_mono [OF Cons.IH]) auto
  show ?case
  proof (cases "length l > length p \<and> prefix p l")
    case True
    have "goes w (runnable S k l) (\<lambda>b. True)" unfolding runnable_def by (rule is_command_goes [OF Cons.prems])
    then have "goes w (runnable S k l \<bind> (\<lambda>(k, u). if u then Some (k, Some l) else suggest_in (runnable S) k p ls))
       (\<lambda>r. \<forall>x. r = Some x \<longrightarrow> x \<in> set (l # ls) \<and> length p < length x)"
      by (rule goes_then) (use IH True in \<open>simp split: if_split\<close>)
    with True show ?thesis by simp
  next
    case False
    with IH [OF Cons.prems] show ?thesis by (simp add: if_not_P)
  qed
qed simp

lemma history_suggest_goes:
  "calm w k \<Longrightarrow> goes w (history_suggest (runnable S) k h p) (\<lambda>r. \<forall>l. r = Some l \<longrightarrow> l \<in> set h \<and> length p < length l)"
  using suggest_goes [of w k p "rev h"] by (simp add: history_suggest_def)

lemma program_cands_goes:
  "calm w k \<Longrightarrow> list_all (\<lambda>e. is_ascii (dname e)) es \<Longrightarrow> is_ascii desc \<Longrightarrow> goes w (program_cands S k pre dir desc es) (list_all cand_ok)"
proof (induction es arbitrary: k)
  case (Cons e es)
  let ?p = "if dir = ascii ''.'' then dname e else dir @ [47] @ dname e"
  have a: "goes w (if \<not> ddir e \<and> prefix pre (dname e) then is_program S k ?p else Some (k, False)) (\<lambda>b. True)"
    using Cons.prems(1) is_program_goes by simp
  have b: "goes w (program_cands S k1 pre dir desc es \<bind> (\<lambda>(k, cs). Some (k, (if yes then
      [\<lparr>cd_text = dname e, cd_display = dname e, cd_desc = desc, cd_dir = False\<rparr>] else []) @ cs))) (list_all cand_ok)" if "calm w k1" for k1 yes
    using Cons.prems by (intro goes_bind [OF Cons.IH [OF that]]) auto
  show ?case unfolding program_cands.simps Let_def by (rule goes_then [OF a]) (use b in simp)
qed simp

lemma program_dir_goes: "calm w k \<Longrightarrow> is_ascii desc \<Longrightarrow> goes w (program_dir S k pre dir desc) (list_all cand_ok)"
proof -
  assume "calm w k" "is_ascii desc"
  with read_dir_calm [OF this(1), of dir] show ?thesis
    by (auto simp: program_dir_def goes_def split: option.splits) (metis program_cands_goes goes_def)
qed

lemma builtin_cands_ok: "list_all cand_ok (builtin_cands pre)"
proof -
  have "list_all (\<lambda>b. is_ascii (b_name b) \<and> is_ascii (b_desc b)) BUILTINS" by (simp add: BUILTINS_def mk_builtin_def)
  then show ?thesis by (auto simp: builtin_cands_def list_all_iff cand_ok_def)
qed

lemma commands_goes: "calm w k \<Longrightarrow> goes w (commands S k pre) (list_all cand_ok)"
  unfolding commands_def
  by (intro goes_bind [OF program_dir_goes]) (auto intro!: goes_bind [OF program_dir_goes] simp: builtin_cands_ok)

lemma paths_goes:
  assumes "calm w k" "is_ascii word"
  shows "goes w (paths S k word) (list_all cand_ok)"
proof -
  have *: "is_ascii d \<Longrightarrow> list_all (\<lambda>e. is_ascii (dname e)) es \<Longrightarrow> list_all cand_ok (map (path_cand d) (filter P es))" for d es P
    by (auto simp: list_all_iff path_cand_def cand_ok_def Let_def)
  obtain d p where dp: "(case rfind 47 word of Some i \<Rightarrow> (take (i + 1) word, drop (i + 1) word) | None \<Rightarrow> ([], word)) = (d, p)" "is_ascii d"
    using assms(2) by (cases "rfind 47 word") auto
  obtain k' r where "read_dir S k (if d = [] then ascii ''.'' else d) = Some (k', r)" "calm w k'" "\<forall>es. r = Some es \<longrightarrow> list_all (\<lambda>e. is_ascii (dname e)) es"
    using read_dir_calm [OF assms(1)] by blast
  with dp assms(1) show ?thesis unfolding paths_def by (auto simp: Let_def cpath_def * split: option.splits)
qed

lemma word_at_ok:
  assumes "is_ascii line" "cursor \<le> length line"
  obtains start first where "word_at line cursor = Some (start, first)" "start \<le> cursor"
proof -
  have "rfind 32 (take cursor line) = Some i \<Longrightarrow> i < cursor" for i using rfind_Some [of 32 "take cursor line" i] assms(2) by simp
  then show ?thesis using assms that by (cases "rfind 32 (take cursor line)") (auto simp: word_at_def slice_ok)
qed

lemma candidates_goes:
  assumes "calm w k" "is_ascii line" "cursor \<le> length line"
  shows "goes w (candidates S k line cursor) (list_all cand_ok)"
proof -
  obtain start first where w: "word_at line cursor = Some (start, first)" "start \<le> cursor" by (rule word_at_ok [OF assms(2,3)])
  let ?w = "drop start (take cursor line)"
  have "goes w (if first \<and> 47 \<notin> set ?w then commands S k ?w else paths S k ?w) (list_all cand_ok)"
    using commands_goes [OF assms(1)] paths_goes [OF assms(1)] assms(2) by simp
  then have "goes w (candidates S k line cursor) (\<lambda>cs. \<exists>out. list_all cand_ok out \<and> cs = dedup_text (sort_key cd_text out))"
    using w assms(2,3) by (auto simp: candidates_def slice_ok intro!: goes_bind)
  then show ?thesis by (rule goes_mono) (use dedup_text_set(1) in \<open>fastforce simp: list_all_iff\<close>)
qed

lemma common_prefix_ok:
  assumes "list_all cand_ok cs"
  shows "\<exists>p. common_prefix cs = Some p \<and> is_ascii p"
proof (cases cs)
  case (Cons f r)
  let ?n = "fold (\<lambda>c len. min len (agree (cd_text f) (cd_text c))) r (length (cd_text f))"
  have "?n \<le> length (cd_text f)" using fold_agree [of ?n "cd_text f" r "length (cd_text f)"] by blast
  then show ?thesis using Cons assms by (simp add: common_prefix_def slice_ok cand_ok_def)
qed (simp add: common_prefix_def)

lemma suggestion_goes:
  assumes k: "calm w k" and e: "led_inv e"
  shows "goes w (suggestion S k e) (\<lambda>r. \<forall>s. r = Some s \<longrightarrow> is_ascii s \<and> s \<noteq> [] \<and> l_list e = None)"
proof (cases "l_cur e \<noteq> length (l_buf e) \<or> trim (l_buf e) = [] \<or> l_list e \<noteq> None")
  case True
  then show ?thesis using k by (simp add: suggestion_def)
next
  case False
  note b = led_invD [OF e]
  let ?P = "\<lambda>r. \<forall>s. r = Some s \<longrightarrow> is_ascii s \<and> s \<noteq> [] \<and> l_list e = None"
  have h: "\<forall>l \<in> set (l_hist e). is_ascii l" using e by (simp add: led_inv_def list_all_iff)
  obtain start first where wa: "word_at (l_buf e) (l_cur e) = Some (start, first)" "start \<le> l_cur e" by (rule word_at_ok) (use b in auto)
  have c: "goes w (case cands of [only] \<Rightarrow> if length (cd_text only) > l_cur e - start
       then str_slice (cd_text only) (l_cur e - start) (length (cd_text only)) \<bind> (\<lambda>s. Some (k1, Some s)) else Some (k1, None)
     | _ \<Rightarrow> Some (k1, None)) ?P" if "calm w k1" "list_all cand_ok cands" for k1 cands
    using that False by (auto simp: cand_ok_def slice_ok split: list.splits)
  have d: "goes w (if start = l_cur e then Some (k1, None) else candidates S k1 (l_buf e) (l_cur e) \<bind> (\<lambda>(k, cands). case cands of
       [only] \<Rightarrow> if length (cd_text only) > l_cur e - start
         then str_slice (cd_text only) (l_cur e - start) (length (cd_text only)) \<bind> (\<lambda>s. Some (k, Some s)) else Some (k, None)
     | _ \<Rightarrow> Some (k, None))) ?P" if "calm w k1" for k1
    using that b by (auto simp del: split_paired_All intro!: goes_bind [OF candidates_goes] c split del: if_split split: if_splits)
  show ?thesis unfolding suggestion_def if_not_P [OF False]
  proof (rule goes_bind [OF history_suggest_goes [OF k]])
    fix k1 x assume k1: "calm w k1" and x: "\<forall>l. x = Some l \<longrightarrow> l \<in> set (l_hist e) \<and> length (l_buf e) < length l"
    show "goes w (case (k1, x) of (k, h) \<Rightarrow> case h of Some h \<Rightarrow> str_slice h (length (l_buf e)) (length h) \<bind> (\<lambda>s. Some (k, Some s))
      | None \<Rightarrow> word_at (l_buf e) (l_cur e) \<bind> (\<lambda>(start, _). if start = l_cur e then Some (k, None)
         else candidates S k (l_buf e) (l_cur e) \<bind> (\<lambda>(k, cands). case cands of
       [only] \<Rightarrow> if length (cd_text only) > l_cur e - start
         then str_slice (cd_text only) (l_cur e - start) (length (cd_text only)) \<bind> (\<lambda>s. Some (k, Some s)) else Some (k, None)
     | _ \<Rightarrow> Some (k, None)))) ?P"
    proof (cases x)
      case None
      with d [OF k1] wa show ?thesis by simp
    next
      case (Some l)
      with x h have "l \<in> set (l_hist e)" "length (l_buf e) < length l" "is_ascii l" by auto
      with k1 Some False show ?thesis by (simp add: slice_ok)
    qed
  qed
qed

lemma accept_goes:
  assumes k: "calm w k" and e: "led_inv e"
  shows "goes w (accept_suggestion S k e) led_inv"
  unfolding accept_suggestion_def
proof (rule goes_bind [OF suggestion_goes [OF assms]])
  fix k1 r assume "calm w k1" "\<forall>s. r = Some s \<longrightarrow> is_ascii s \<and> s \<noteq> [] \<and> l_list e = None"
  then show "goes w (case (k1, r) of (k, s) \<Rightarrow> Some (k, case s of None \<Rightarrow> e
      | Some s \<Rightarrow> edited (e\<lparr>l_buf := l_buf e @ s, l_cur := length (l_buf e @ s)\<rparr>))) led_inv"
    using e led_invD [OF e] by (cases r) (auto intro!: led_inv_edited led_inv_text)
qed

lemma complete_goes:
  assumes k: "calm w k" and e: "led_inv e"
  shows "goes w (complete S k e) led_inv"
proof (cases "l_list e")
  case (Some l)
  have lo: "list_ok e l" using e Some by (simp add: led_inv_def)
  let ?n = "case cl_sel l of None \<Rightarrow> 0 | Some s \<Rightarrow> (s + 1) mod length (cl_cands l)"
  have "?n < length (cl_cands l)" using lo by (cases "cl_sel l") (auto simp: list_ok_def)
  from pick_ok [OF e Some this] k Some show ?thesis by (auto simp: complete_def)
next
  case None
  note b = led_invD [OF e]
  obtain start first where wa: "word_at (l_buf e) (l_cur e) = Some (start, first)" "start \<le> l_cur e" by (rule word_at_ok) (use b in auto)
  have r: "is_ascii t \<Longrightarrow> \<exists>e'. replace_word start t e = Some e' \<and> led_inv e'" for t
    using replace_word_ok [OF e wa(2), of t] led_inv_text [OF e None] by auto
  have c: "\<exists>e'. (case cands of [] \<Rightarrow> Some e | [c] \<Rightarrow> replace_word start (if cd_dir c then cd_text c else cd_text c @ [32]) e
      | _ \<Rightarrow> common_prefix cands \<bind> (\<lambda>common. if length common > l_cur e - start then replace_word start common e
          else Some (e\<lparr>l_list := Some \<lparr>cl_cands = cands, cl_sel = None, cl_start = start, cl_top = 0\<rparr>\<rparr>))) = Some e' \<and> led_inv e'"
    if cs: "list_all cand_ok cands" for cands
  proof -
    obtain p where p: "common_prefix cands = Some p" "is_ascii p" using common_prefix_ok [OF cs] by blast
    have l: "led_inv (e\<lparr>l_list := Some \<lparr>cl_cands = cands, cl_sel = None, cl_start = start, cl_top = 0\<rparr>\<rparr>)" if "cands \<noteq> []"
      using e cs wa(2) that by (auto simp: led_inv_def list_ok_def)
    consider "cands = []" | c where "cands = [c]" | c c' r where "cands = c # c' # r" by (metis list.exhaust)
    then show ?thesis
    proof cases
      case (2 c)
      then show ?thesis using cs r [of "cd_text c"] r [of "cd_text c @ [32]"] by (simp add: cand_ok_def)
    qed (use e p r [OF p(2)] l in auto)
  qed
  have "goes w (candidates S k (l_buf e) (l_cur e)) (list_all cand_ok)" using candidates_goes [OF k] b by simp
  then show ?thesis unfolding complete_def None option.case wa(1)
    by (simp, rule goes_bind) (use c in \<open>fastforce intro: led_inv_edited\<close>)
qed

lemma list_layout_ok:
  assumes "calm w k" "list_layout S k e = (k', cw, cols)"
  shows "calm w k'" "0 < cols" "0 < cw" "l_list e \<noteq> None \<Longrightarrow> cw \<le> max (w - 1) 1"
proof -
  obtain k1 c r where ws: "window_size S k = (k1, c, r)" by (cases "window_size S k") auto
  note c = calm_width [OF assms(1) ws]
  have "calm w k' \<and> 0 < cols \<and> 0 < cw \<and> (l_list e \<noteq> None \<longrightarrow> cw \<le> max (w - 1) 1)"
  proof (cases "l_list e")
    case None
    with assms show ?thesis by (simp add: list_layout_def)
  next
    case (Some l)
    define u n where "u = max (w - 1) 1" and "n = max_len (map cd_display (cl_cands l)) + 2 + max_len (map cd_desc (cl_cands l)) + 3"
    have "list_layout S k e = (k1, min n u, max (u div min n u) 1)"
      using Some ws c by (simp add: list_layout_def term_width_def Let_def u_def n_def)
    then have "k' = k1" "cw = min n u" "cols = max (u div min n u) 1" using assms(2) by simp_all
    moreover have "0 < u" "0 < n" by (simp_all add: u_def n_def)
    ultimately show ?thesis using c unfolding u_def [symmetric] by simp
  qed
  then show "calm w k'" "0 < cols" "0 < cw" "l_list e \<noteq> None \<Longrightarrow> cw \<le> max (w - 1) 1" by simp_all
qed

lemma list_move_goes:
  assumes k: "calm w k" and e: "led_inv e"
  shows "goes w (list_move_rows S k d e) led_inv"
proof -
  obtain k1 cw cols where ll: "list_layout S k e = (k1, cw, cols)" by (cases "list_layout S k e") auto
  note k1 = list_layout_ok(1) [OF k ll]
  show ?thesis
  proof (cases "l_list e")
    case None
    then show ?thesis using ll k1 e by (simp add: list_move_rows_def)
  next
    case (Some l)
    then have ne: "cl_cands l \<noteq> []" using e by (simp add: led_inv_def list_ok_def)
    let ?n = "int (length (cl_cands l))"
    let ?c = "case cl_sel l of None \<Rightarrow> if d > 0 then - int cols else ?n | Some s \<Rightarrow> int s"
    have "nat (min (max (?c + d * int cols) 0) (?n - 1)) < length (cl_cands l)" using ne by (cases "cl_cands l") auto
    from pick_ok [OF e Some this] obtain e' where "pick l (nat (min (max (?c + d * int cols) 0) (?n - 1))) e = Some e'" "led_inv e'" by blast
    then show ?thesis using ll k1 Some ne by (simp add: list_move_rows_def Let_def split del: if_split)
  qed
qed

lemma key_vertical_goes: "calm w k \<Longrightarrow> led_inv e \<Longrightarrow> goes w (key_vertical S k e d) led_inv"
  using list_move_goes [of w k e d] walk_history_ok [of e "d < 0"] by (auto simp: key_vertical_def)

lemma key_right_goes: "calm w k \<Longrightarrow> led_inv e \<Longrightarrow> l_list e = None \<Longrightarrow> t \<le> length (l_buf e) \<or> l_cur e = length (l_buf e) \<Longrightarrow> goes w (key_right S k e t) led_inv"
  using accept_goes [of w k e] led_invD [of e] by (auto simp: key_right_def) (auto simp: led_inv_def)

definition keeps :: "led \<times> read_result option \<Rightarrow> bool" where
  "keeps x \<longleftrightarrow> led_inv (fst x)"

lemma stay_goes: "calm w k \<Longrightarrow> \<exists>e'. r = Some e' \<and> led_inv e' \<Longrightarrow> goes w (stay k r) keeps"
  by (auto simp: stay_def keeps_def)

lemma stay'_goes: "goes w r led_inv \<Longrightarrow> goes w (stay' r) keeps"
  by (auto simp: stay'_def goes_def keeps_def)

lemma here_goes: "calm w k \<Longrightarrow> led_inv e \<Longrightarrow> goes w (Some (k, e, r)) keeps"
  by (simp add: keeps_def)

lemma goes_if: "(c \<Longrightarrow> goes w a P) \<Longrightarrow> (\<not> c \<Longrightarrow> goes w b P) \<Longrightarrow> goes w (if c then a else b) P"
  by simp

lemma move_goes: "calm w k \<Longrightarrow> led_inv e \<Longrightarrow> l_list e = None \<Longrightarrow> i \<le> length (l_buf e) \<Longrightarrow> goes w (Some (k, e\<lparr>l_cur := i\<rparr>, r)) keeps"
  by (simp add: keeps_def led_inv_def)

lemma remove_goes: "calm w k \<Longrightarrow> led_inv e \<Longrightarrow> l_list e = None \<Longrightarrow> b \<longrightarrow> i < length (l_buf e) \<Longrightarrow> goes w (stay k (if b then key_remove e i else Some e)) keeps"
  using key_remove_ok [of e i] by (auto intro!: stay_goes)

lemma right_goes:
  assumes "calm w k" "led_inv e" "l_list e = None"
  shows "goes w (stay' (key_right S k e (l_cur e + 1))) keeps" "goes w (stay' (key_right S k e (length (l_buf e)))) keeps"
  using led_invD [OF assms(2)] by (auto intro!: stay'_goes key_right_goes [OF assms])

lemma drain_goes:
  assumes "calm w k" "led_inv e" "l_list e = None"
  shows "goes w (stay k (do { b \<leftarrow> str_drain (l_buf e) 0 (l_cur e); Some (edited (e\<lparr>l_buf := b, l_cur := 0\<rparr>)) })) keeps"
proof (rule stay_goes [OF assms(1)])
  have "led_inv (edited (e\<lparr>l_buf := drop (l_cur e) (l_buf e), l_cur := 0\<rparr>))"
    using led_invD [OF assms(2)] by (intro led_inv_edited led_inv_text assms) auto
  then show "\<exists>e'. str_drain (l_buf e) 0 (l_cur e) \<bind> (\<lambda>b. Some (edited (e\<lparr>l_buf := b, l_cur := 0\<rparr>))) = Some e' \<and> led_inv e'"
    using led_invD [OF assms(2)] by (simp add: str_drain_def replace_ok)
qed

lemma truncate_goes:
  assumes "calm w k" "led_inv e" "l_list e = None"
  shows "goes w (stay k (do { b \<leftarrow> str_truncate (l_buf e) (l_cur e); Some (edited (e\<lparr>l_buf := b\<rparr>)) })) keeps"
proof (rule stay_goes [OF assms(1)])
  have "led_inv (e\<lparr>l_buf := take (l_cur e) (l_buf e)\<rparr>)" using assms by (auto simp: led_inv_def)
  then show "\<exists>e'. str_truncate (l_buf e) (l_cur e) \<bind> (\<lambda>b. Some (edited (e\<lparr>l_buf := b\<rparr>))) = Some e' \<and> led_inv e'"
    using led_invD [OF assms(2)] by (simp add: str_truncate_def ascii_boundary led_inv_edited)
qed

lemma ctrl_goes:
  assumes k: "calm w k" and e: "led_inv e" and l: "c \<noteq> 112 \<Longrightarrow> c \<noteq> 110 \<Longrightarrow> l_list e = None"
  shows "goes w (ctrl_action S k e c) keeps"
  unfolding ctrl_action_def
  by (intro goes_if remove_goes [OF k e] move_goes [OF k e] right_goes [OF k e] drain_goes [OF k e] truncate_goes [OF k e]
      here_goes [OF k e] stay'_goes key_vertical_goes [OF k e] stay_goes [OF k] erase_word_ok [OF e])
    (use l led_invD [OF e] in auto)

lemma handle_goes:
  assumes k: "calm w k" and e: "led_inv e"
  shows "goes w (handle S k e key) keeps"
proof -
  define f where "f = (if list_key key then e else e\<lparr>l_list := None\<rparr>)"
  have f: "led_inv f" using e led_inv_close by (simp add: f_def)
  have nl: "\<not> list_key key \<Longrightarrow> l_list f = None" by (simp add: f_def)
  note b = led_invD [OF f] and lk = nl [unfolded list_key_def]
  have "goes w (key_action S k f key) keeps"
  proof (cases key)
    case (TChar c)
    with lk have "l_list f = None" by simp
    then show ?thesis unfolding TChar key_action_def tkey.case
      by (intro goes_if stay_goes [OF k] here_goes [OF k f] key_char_ok [OF f]) auto
  next
    case (TCtrl c)
    with lk have "c \<noteq> 112 \<Longrightarrow> c \<noteq> 110 \<Longrightarrow> l_list f = None" by simp
    from ctrl_goes [OF k f this] show ?thesis unfolding TCtrl key_action_def tkey.case .
  next
    case TBackspace
    with lk have "l_list f = None" by simp
    then show ?thesis unfolding TBackspace key_action_def tkey.case by (rule remove_goes [OF k f]) (use b in auto)
  next
    case TDelete
    with lk have "l_list f = None" by simp
    then show ?thesis unfolding TDelete key_action_def tkey.case by (rule remove_goes [OF k f]) simp
  next
    case TRight
    with lk have "l_list f = None" by simp
    then show ?thesis unfolding TRight key_action_def tkey.case by (rule right_goes(1) [OF k f])
  next
    case TEnd
    with lk have "l_list f = None" by simp
    then show ?thesis unfolding TEnd key_action_def tkey.case by (rule right_goes(2) [OF k f])
  next
    case TEnter
    then show ?thesis using k f led_inv_close [OF f] by (auto simp: key_action_def keeps_def split: option.splits)
  qed (use lk b k f in \<open>auto simp: key_action_def simp del: goes_Some intro!: move_goes [OF k f]
      here_goes [OF k f] stay'_goes key_vertical_goes [OF k f] complete_goes [OF k f]\<close>)
  then show ?thesis by (simp add: handle_def f_def)
qed

lemma word_color_goes: "calm w k \<Longrightarrow> goes w (word_color S k first word) (\<lambda>c. True)"
  using path_exists_goes [of w k word] by (auto simp: word_color_def split: prod.splits intro!: goes_then is_command_goes)

lemma color_words_goes:
  "calm w k \<Longrightarrow> is_ascii line \<Longrightarrow> i \<le> length line \<Longrightarrow> goes w (color_words S k first line i) (\<lambda>cs. length cs = length line - i)"
proof (induction "length line - i" arbitrary: k first i rule: less_induct)
  case less
  show ?case
  proof (cases "i < length line")
    case False
    then show ?thesis using less.prems by (subst color_words.simps) simp
  next
    case True
    let ?n = "Suc (word_end (if is_quote (line ! i) then Some (line ! i) else None) (drop (i + 1) line))"
    have n: "i + ?n \<le> length line" "0 < ?n" using word_end_le [of _ "drop (i + 1) line"] True by (simp_all add: le_diff_conv2 add.commute)
    have IH: "goes w (color_words S k1 b line (i + m)) (\<lambda>cs. length cs = length line - (i + m))" if "calm w k1" "0 < m" "i + m \<le> length line" for k1 b m
      by (rule less.hyps) (use that True less.prems in auto)
    have sl: "str_slice line i (i + ?n) = Some (drop i (take (i + ?n) line))" using less.prems n by (intro slice_ok) auto
    show ?thesis
    proof (cases "line ! i = 32")
      case 32: True
      have "goes w (color_words S k first line (i + 1) \<bind> (\<lambda>(k, cs). Some (k, RESET # cs))) (\<lambda>cs. length cs = length line - i)"
        by (rule goes_bind [OF IH]) (use less.prems True in auto)
      with True 32 show ?thesis by (subst color_words.simps) simp
    next
      case False
      have "goes w (word_color S k first (trim_quotes (drop i (take (i + ?n) line))) \<bind> (\<lambda>(k, c).
         color_words S k False line (i + ?n) \<bind> (\<lambda>(k, cs). Some (k, replicate ?n c @ cs)))) (\<lambda>cs. length cs = length line - i)"
        by (rule goes_then [OF word_color_goes [OF less.prems(1)]], simp only: prod.case, rule goes_bind [OF IH]) (use n in auto)
      with True False sl show ?thesis by (subst color_words.simps) (simp add: Let_def)
    qed
  qed
qed

lemma render_list_goes:
  assumes k: "calm w k" and e: "led_inv e" and u: "usable = max (w - 1) 4"
  shows "goes w (render_list S k usable e) (\<lambda>x. led_inv (fst x))"
proof -
  obtain k1 cw cols where ll: "list_layout S k e = (k1, cw, cols)" by (cases "list_layout S k e") auto
  note lo = list_layout_ok [OF k ll]
  show ?thesis
  proof (cases "l_list e")
    case None
    then show ?thesis using ll lo e by (simp add: render_list_def)
  next
    case (Some l)
    define rows where "rows = min (div_ceil (length (cl_cands l)) cols) LIST_ROWS"
    define l' where "l' = list_top cols rows l"
    have lok: "list_ok e l" using e Some by (simp add: led_inv_def)
    then have cs: "list_all cand_ok (cl_cands l')" by (simp add: list_ok_def l'_def)
    have cw: "0 < cw" "cw \<le> usable" using lo(3,4) Some u by auto
    obtain s where s: "draw_rows l' (max_len (map cd_display (cl_cands l))) cw cols usable [cl_top l'..<cl_top l' + rows] = Some s"
      using draw_rows_ok [OF cs cw] by blast
    obtain n where n: "list_note (cl_top l') rows (div_ceil (length (cl_cands l)) cols) usable = Some n" using list_note_ok by blast
    have "list_ok (e\<lparr>l_list := Some l'\<rparr>) l'" using list_top_ok [OF lok, of cols rows] by (simp add: l'_def list_ok_def)
    then have "led_inv (e\<lparr>l_list := Some l'\<rparr>)" using e by (simp add: led_inv_def)
    then show ?thesis using ll Some lo(1) s n by (simp add: render_list_def Let_def rows_def [symmetric] l'_def [symmetric])
  qed
qed

lemma render_goes:
  assumes k: "calm w k" and e: "led_inv e"
  shows "goes w (render S k fin e) (\<lambda>x. led_inv (fst x))"
proof -
  obtain k1 c r where ws: "window_size S k = (k1, c, r)" by (cases "window_size S k") auto
  note k1 = calm_width [OF k ws]
  define usable avail where "usable = max (w - 1) 4" and "avail = max (usable - l_prefix_w e) 4"
  note b = led_invD [OF e]
  define f where "f = follow_cursor avail fin e"
  note sc = follow_cursor_ok [of e avail fin, folded f_def]
  have f: "led_inv f" "l_buf f = l_buf e" "l_scroll f \<le> length (l_buf f)"
    using b sc e by (simp_all add: avail_def led_inv_follow f_def)
  have l: "goes w (if fin then Some (k2, f, [], 0) else render_list S k2 usable f) (\<lambda>x. led_inv (fst x))" if "calm w k2" for k2
    using that f(1) render_list_goes [OF that f(1) usable_def] by simp
  have d: "\<exists>out. draw_line avail fin cs sugg f = Some out" if "length cs = length (l_buf e)" "\<forall>s. sugg = Some s \<longrightarrow> is_ascii s" for cs sugg
    using draw_line_ok [of f cs sugg avail fin] f b that by simp
  have s: "goes w (if fin then Some (k2, None) else suggestion S k2 e) (\<lambda>r. \<forall>s. r = Some s \<longrightarrow> is_ascii s)" if "calm w k2" for k2
    using that goes_mono [OF suggestion_goes [OF that e]] by simp
  have "goes w (colors S k1 (l_buf e)) (\<lambda>cs. length cs = length (l_buf e))"
    unfolding colors_def using color_words_goes [of w k1 "l_buf e" 0 True] k1 b by simp
  then show ?thesis unfolding render_def term_width_def ws Let_def prod.case conjunct2 [OF k1] usable_def [symmetric] avail_def [symmetric] f_def [symmetric]
  proof (rule goes_bind, unfold prod.case, goal_cases)
    case (1 k2 cs)
    show ?case
    proof (rule goes_bind [OF s [OF 1(1)]], unfold prod.case, goal_cases)
      case (1 k3 sugg)
      obtain out where "draw_line avail fin cs sugg f = Some out" using d \<open>length cs = length (l_buf e)\<close> 1(2) by blast
      then show ?case by (simp only: bind.simps, intro goes_bind [OF l [OF 1(1)]]) auto
    qed
  qed
qed

end

section \<open>Sessions\<close>

text \<open>What happens to an editor between two lines: keys, and redraws of the line being typed or finished.\<close>

datatype levent = LKey tkey | LDraw bool

fun levent_step :: "'k sys \<Rightarrow> levent \<Rightarrow> 'k \<times> led \<Rightarrow> ('k \<times> led) option" where
  "levent_step S (LKey key) (k, e) = do { (k, e, _) \<leftarrow> handle S k e key; Some (k, e) }"
| "levent_step S (LDraw fin) (k, e) = do { (k, e, _) \<leftarrow> render S k fin e; Some (k, e) }"

fun levents :: "'k sys \<Rightarrow> levent list \<Rightarrow> 'k \<times> led \<Rightarrow> ('k \<times> led) option" where
  "levents S [] s = Some s"
| "levents S (ev # evs) s = do { s \<leftarrow> levent_step S ev s; levents S evs s }"

context shell_host
begin

lemma levents_ok: "calm w k \<Longrightarrow> led_inv e \<Longrightarrow> \<exists>k' e'. levents S evs (k, e) = Some (k', e') \<and> calm w k' \<and> led_inv e'"
proof (induction evs arbitrary: k e)
  case (Cons ev evs)
  have "\<exists>k' e'. levent_step S ev (k, e) = Some (k', e') \<and> calm w k' \<and> led_inv e'"
  proof (cases ev)
    case (LKey key)
    with handle_goes [OF Cons.prems, of key] show ?thesis by (auto simp: goes_def keeps_def)
  next
    case (LDraw fin)
    with render_goes [OF Cons.prems, of fin] show ?thesis by (auto simp: goes_def)
  qed
  with Cons.IH show ?case by fastforce
qed simp

end

end
