(* ===== verification/ShProps.thy ===== *)
theory ShProps
  imports ScarfProps ShSafe
begin

text \<open>
  The shell's line editor on the kernel: the calls it makes leave the file system and the terminal's size
  as they are, so the host of theory \<open>ShSafe\<close> is the kernel of theory \<open>Syscall\<close> while all names in its
  file system are ASCII.
\<close>

section \<open>Calls that change neither files nor the terminal\<close>

definition unmoved :: "kernel \<Rightarrow> kernel \<Rightarrow> bool" where
  "unmoved k k' \<longleftrightarrow> kfs k' = kfs k \<and> console_size k' = console_size k \<and> halted k' = halted k \<and> current k' = current k \<and>
     (\<forall>j. winsize_of (task (slot k' j)) = winsize_of (task (slot k j)))"

lemma unmoved_refl [simp]: "unmoved k k"
  by (simp add: unmoved_def)

lemma unmoved_trans: "unmoved k k1 \<Longrightarrow> unmoved k1 k2 \<Longrightarrow> unmoved k k2"
  by (simp add: unmoved_def)

lemma winsize_put_task:
  "winsize_of t = winsize_of (task (slot k i)) \<Longrightarrow> winsize_of (task (slot (put_task i t k) j)) = winsize_of (task (slot k j))"
  by (cases "i < length (procs k)"; cases "i = j") (auto simp: put_task_def set_slot_def slot_def list_update_beyond)

lemma unmoved_put_task: "unmoved k k' \<Longrightarrow> winsize_of t = winsize_of (task (slot k' i)) \<Longrightarrow> unmoved k (put_task i t k')"
  by (simp add: unmoved_def winsize_put_task) (simp add: put_task_def set_slot_def)

lemma unmoved_pipes: "unmoved k k' \<Longrightarrow> unmoved k (k'\<lparr>kpipes := st\<rparr>)"
  by (simp add: unmoved_def slot_def)

lemma unmoved_put_user: "put_user i p bs k = Some k' \<Longrightarrow> unmoved k k'"
  by (auto simp: put_user_def split: bind_splits intro!: unmoved_put_task)

lemma unmoved_poke: "unmoved k (poke a bs k)"
  by (auto simp: poke_def Let_def split: option.splits intro!: unmoved_put_task)

definition leaves :: "kernel \<Rightarrow> outcome \<Rightarrow> bool" where
  "leaves k r \<longleftrightarrow> (\<forall>v k'. r = Some (v, k') \<longrightarrow> unmoved k k')"

lemma leaves_simps [simp]: "leaves k None" "leaves k (fail k') = unmoved k k'" "leaves k (ret v k') = unmoved k k'"
  by (simp_all add: leaves_def fail_def ret_def)

lemma leaves_bind: "(\<And>x. r = Some x \<Longrightarrow> leaves k (f x)) \<Longrightarrow> leaves k (r \<bind> f)"
  by (cases r) auto

lemma leaves_with_task: "(\<And>i. leaves k (f i (task (slot k i)))) \<Longrightarrow> leaves k (with_task k f)"
  by (simp add: with_task_def split: option.splits)

lemma winsize_set_file [simp]: "winsize_of (set_file fd f t) = winsize_of t"
  by (simp add: set_file_def)

lemma sys_close_leaves: "leaves k (sys_close k fd)"
  by (auto simp: sys_close_def split: option.splits intro!: leaves_with_task leaves_bind unmoved_put_task unmoved_pipes)

lemma unmoved_pipes_user: "put_user i p bs (k\<lparr>kpipes := st\<rparr>) = Some k' \<Longrightarrow> unmoved k k'"
  by (rule unmoved_trans [OF unmoved_pipes [OF unmoved_refl] unmoved_put_user])

lemma sys_read_leaves: "fd \<noteq> 0 \<Longrightarrow> leaves k (sys_read k fd b n)"
  by (auto simp: sys_read_def read_pipe_def Let_def split: option.splits open_file.splits prod.splits
      intro!: leaves_with_task leaves_bind unmoved_put_task unmoved_pipes elim!: unmoved_put_user unmoved_pipes_user)

lemma sys_getdents_leaves: "leaves k (sys_getdents k fd b)"
  by (auto simp: sys_getdents_def split: option.splits open_file.splits
      intro!: leaves_with_task leaves_bind unmoved_put_task elim!: unmoved_put_user)

lemma sys_open_leaves: "leaves k (sys_open k p 0)"
  by (auto simp: sys_open_def with_str_def open_target_def open_vnode_def Let_def split: option.splits bind_splits
      intro!: leaves_with_task leaves_bind unmoved_put_task)

lemma sys_winsize_leaves: "leaves k (sys_ioctl k fd TIOCGWINSZ b)"
  by (auto simp: sys_ioctl_def TIOCGWINSZ_def TCGETS_def TCSETS_def TIOCSWINSZ_def
      intro!: leaves_with_task leaves_bind elim!: unmoved_put_user)

lemma sys_winsize_stays: "stays k (sys_ioctl k fd TIOCGWINSZ b)"
  by (auto simp: sys_ioctl_def TIOCGWINSZ_def TCGETS_def TCSETS_def TIOCSWINSZ_def intro!: stays_with_task stays_bind)

text \<open>The four calls, run from the process that makes them: the caller goes on running.\<close>

lemma call_leaves:
  assumes r: "running k i" and p: "running k1 i" "unmoved k k1" and s: "safe c" "stays k1 c" "leaves k1 c"
  obtains v k' where "c = Some (v, k')" "result c = (Some k', case v of None \<Rightarrow> -1 | Some v \<Rightarrow> v)" "running k' i" "unmoved k k'"
proof -
  obtain v k' where o: "c = Some (v, k')" "result c = (Some k', case v of None \<Rightarrow> -1 | Some v \<Rightarrow> v)" "running k' i"
    by (rule result_running [OF s(1,2) p(1)])
  then have "unmoved k1 k'" using s(3) by (simp add: leaves_def)
  from that [OF o unmoved_trans [OF p(2) this]] show ?thesis .
qed

section \<open>What a call stores\<close>

lemma peek_put_user:
  assumes "put_user i a bs k = Some k'" "current k' = Some i" "i < length (procs k)" "n \<le> length bs"
  shows "peek a n k' = take n bs"
proof -
  from assms(1,3) have "umem (task (slot k' i)) = (\<lambda>x. if a \<le> x \<and> x < a + length bs then Some (bs ! (x - a)) else umem (task (slot k i)) x)"
    by (auto simp: put_user_def store_bytes_def split: bind_splits if_splits)
  with assms(2,4) show ?thesis by (auto simp: peek_def intro!: nth_equalityI)
qed

lemma peek_cong: "umem (task (slot k' i)) = umem (task (slot k i)) \<Longrightarrow> current k' = Some i \<Longrightarrow> current k = Some i \<Longrightarrow> peek a n k' = peek a n k"
  by (simp add: peek_def)

definition names_ascii :: "kernel \<Rightarrow> bool" where
  "names_ascii k \<longleftrightarrow> (\<forall>n v. nodes (kfs k) n = Some v \<longrightarrow> is_ascii (vname v))"

lemma is_ascii_until_nul: "is_ascii s \<Longrightarrow> is_ascii (until_nul (s @ replicate n 0))"
  by (auto simp: is_ascii_def until_nul_def dest: set_takeWhileD)

lemma getdents_name:
  assumes r: "running k i" and nm: "names_ascii k" and s: "sys_getdents k fd a = Some (Some 1, k')"
  shows "is_ascii (until_nul (drop 1 (peek a (1 + NAME_MAX) k')))"
proof -
  note inv = runningD [OF r]
  obtain c k1 nd ps w where c: "nodes (kfs k) c = Some nd" "put_user i a (dirent_bytes nd) k = Some k1"
      "k' = put_task i (set_file fd ps (task (slot k1 i))) k1"
    using s by (auto simp: sys_getdents_def with_task_running [OF r] fail_def ret_def split: option.splits open_file.splits bind_splits if_splits)
  have u: "unmoved k k1" by (rule unmoved_put_user [OF c(2)])
  then have cur: "current k1 = Some i" using inv(2) by (simp add: unmoved_def)
  have "1 + NAME_MAX \<le> length (dirent_bytes nd)" by (simp add: dirent_bytes_def)
  from peek_put_user [OF c(2) cur inv(5) this] have p: "peek a (1 + NAME_MAX) k1 = take (1 + NAME_MAX) (dirent_bytes nd)" .
  have "length (procs k1) = length (procs k)" using c(2) by (auto simp: put_user_def split: bind_splits)
  then have "peek a (1 + NAME_MAX) k' = peek a (1 + NAME_MAX) k1" using cur inv(5) unfolding c(3) by (intro peek_cong [where i = i]) (simp_all add: set_file_def)
  moreover have "is_ascii (vname nd)" using nm c(1) by (simp add: names_ascii_def)
  then have "is_ascii (take NAME_MAX (vname nd @ replicate (NAME_MAX - length (vname nd)) 0))"
    by (intro is_ascii_take) (auto simp: is_ascii_def)
  ultimately show ?thesis using p is_ascii_until_nul [of _ 0] by (simp add: dirent_bytes_def)
qed

section \<open>The kernel as the shell's host\<close>

text \<open>The width \<^verbatim>\<open>window_size\<close> reports to the running program, whose \<^verbatim>\<open>struct winsize\<close> is at \<open>a\<close>.\<close>

definition shown_cols :: "nat \<Rightarrow> kernel \<Rightarrow> nat" where
  "shown_cols a k = (case current k of None \<Rightarrow> 80
     | Some i \<Rightarrow> let w = current_winsize k (task (slot k i))
                 in if halted k \<or> \<not> user_ok a 8 \<or> ws_col w = 0 \<or> ws_row w = 0 then 80 else unat (ws_col w))"

definition calm_kernel :: "nat \<Rightarrow> nat \<Rightarrow> kernel option \<Rightarrow> bool" where
  "calm_kernel a w st \<longleftrightarrow> (\<exists>k i. st = Some k \<and> running k i \<and> names_ascii k \<and> shown_cols a k = w)"

lemma unmoved_current_winsize: "unmoved k k' \<Longrightarrow> current_winsize k' (task (slot k' i)) = current_winsize k (task (slot k i))"
  by (simp add: unmoved_def current_winsize_def)

lemma unmoved_host: "unmoved k k' \<Longrightarrow> names_ascii k' = names_ascii k \<and> shown_cols a k' = shown_cols a k"
  using unmoved_current_winsize [of k k'] by (auto simp: names_ascii_def shown_cols_def Let_def unmoved_def split: option.splits)

lemma calm_moved: "running k' i \<Longrightarrow> unmoved k k' \<Longrightarrow> names_ascii k \<Longrightarrow> shown_cols a k = w \<Longrightarrow> calm_kernel a w (Some k')"
  using unmoved_host [of k k' a] by (auto simp: calm_kernel_def)

lemma poke_calm: "running k i \<Longrightarrow> running (poke a bs k) i \<and> unmoved k (poke a bs k)"
  by (simp add: poke_running(1) unmoved_poke)

lemma ks_open_calm:
  assumes r: "running k i" and h: "names_ascii k" "shown_cols a k = w"
  shows "calm_kernel a w (fst (ks_open E a (Some k) p O_RDONLY))"
proof -
  let ?k = "poke a (c_string p) k"
  note p = poke_calm [OF r, of a "c_string p"]
  obtain v k' where "result (sys_open ?k a 0) = (Some k', case v of None \<Rightarrow> -1 | Some v \<Rightarrow> v)" "running k' i" "unmoved k k'"
    by (rule call_leaves [OF r conjunct1 [OF p] conjunct2 [OF p] sys_open_safe [OF conjunct1 [OF p] poke_user_str [OF r]] sys_open_stays sys_open_leaves])
  with p h show ?thesis by (auto simp: ks_open_def on_kernel_def syscall3_simps O_RDONLY_def intro: calm_moved)
qed

lemma ks_close_calm:
  assumes r: "running k i" and h: "names_ascii k" "shown_cols a k = w"
  shows "calm_kernel a w (ks_close E (Some k) fd)"
proof -
  obtain v k' where "result (sys_close k (reg fd)) = (Some k', case v of None \<Rightarrow> -1 | Some v \<Rightarrow> v)" "running k' i" "unmoved k k'"
    by (rule call_leaves [OF r r unmoved_refl sys_close_safe [OF r] sys_close_stays sys_close_leaves])
  with r h show ?thesis using calm_moved [OF r unmoved_refl h] by (auto simp: ks_close_def on_kernel_def syscall3_simps intro: calm_moved)
qed

lemma ks_read_calm:
  assumes r: "running k i" and h: "names_ascii k" "shown_cols a k = w" and fd: "file_fd fd"
  shows "calm_kernel a w (fst (ks_read E a (Some k) fd n))"
proof -
  let ?k = "poke a (replicate n 0) k"
  note p = poke_calm [OF r, of a "replicate n 0"]
  have sf: "safe (sys_read ?k (reg fd) a n)" by (rule sys_read_safe [OF conjunct1 [OF p]]) (use poke_mapped [OF r, of a "replicate n 0"] reg_file [OF fd] in auto)
  obtain v k' where "result (sys_read ?k (reg fd) a n) = (Some k', case v of None \<Rightarrow> -1 | Some v \<Rightarrow> v)" "running k' i" "unmoved k k'"
    by (rule call_leaves [OF r conjunct1 [OF p] conjunct2 [OF p] sf sys_read_stays [OF reg_file [OF fd]] sys_read_leaves [OF reg_file [OF fd]]])
  with p h show ?thesis by (auto simp: ks_read_def on_kernel_def syscall3_simps intro: calm_moved)
qed

lemma ks_getdents_calm:
  assumes r: "running k i" and h: "names_ascii k" "shown_cols a k = w" and s: "ks_getdents E a (Some k) fd = (st, v, ty, nm)"
  shows "calm_kernel a w st \<and> (v = 1 \<longrightarrow> is_ascii (until_nul nm))"
proof -
  let ?k = "poke a (replicate (1 + NAME_MAX) 0) k"
  note p = poke_calm [OF r, of a "replicate (1 + NAME_MAX) 0"]
  have sf: "safe (sys_getdents ?k (reg fd) a)" by (rule sys_getdents_safe [OF conjunct1 [OF p]]) (use poke_mapped [OF r, of a "replicate (1 + NAME_MAX) 0"] in auto)
  obtain x k' where o: "sys_getdents ?k (reg fd) a = Some (x, k')"
      "result (sys_getdents ?k (reg fd) a) = (Some k', case x of None \<Rightarrow> -1 | Some v \<Rightarrow> v)" "running k' i" "unmoved k k'"
    by (rule call_leaves [OF r conjunct1 [OF p] conjunct2 [OF p] sf sys_getdents_stays sys_getdents_leaves])
  have nk: "names_ascii ?k" using unmoved_host [OF conjunct2 [OF p]] h(1) by simp
  show ?thesis
  proof (cases "halted ?k")
    case True
    then show ?thesis using s p h by (auto simp: ks_getdents_def on_kernel_def syscall3_simps Let_def intro: calm_moved)
  next
    case False
    have st: "st = Some k'" "v = (case x of None \<Rightarrow> -1 | Some v \<Rightarrow> v)" "nm = drop 1 (peek a (1 + NAME_MAX) k')"
      using s False o(2) by (auto simp: ks_getdents_def on_kernel_def syscall3_simps Let_def)
    then have "is_ascii (until_nul nm)" if "v = 1" using getdents_name [OF conjunct1 [OF p] nk] o(1) that by (cases x) auto
    with st(1) calm_moved [OF o(3,4) h] show ?thesis by blast
  qed
qed

lemma syscall3_ioctl: "syscall3 E k SYS_IOCTL a b c = (if halted k then (Some k, -1) else result (sys_ioctl k a b c))"
  by (auto simp: syscall3_def syscall_dispatch_def syscall_numbers returning_def result_def split: option.splits)

lemma winsize_sizes:
  "length (winsize_bytes w) = 8" "of_le (take 2 (winsize_bytes w)) = unat (ws_row w)" "of_le (take 2 (drop 2 (winsize_bytes w))) = unat (ws_col w)"
proof -
  have "unat x < 65536" for x :: u16 using unsigned_less [of x] by simp
  then show "length (winsize_bytes w) = 8" "of_le (take 2 (winsize_bytes w)) = unat (ws_row w)" "of_le (take 2 (drop 2 (winsize_bytes w))) = unat (ws_col w)"
    by (simp_all add: winsize_bytes_def of_le_to_le)
qed

lemma ks_winsize_calm:
  assumes r: "running k i" and h: "names_ascii k" "shown_cols a k = w" and s: "window_size (kernel_sys E a others) (Some k) = (st, c, rows)"
  shows "calm_kernel a w st \<and> c = w"
proof -
  let ?k = "poke a (replicate 8 0) k" and ?c = "\<lambda>k. sys_ioctl k 0 TIOCGWINSZ a"
  note p = poke_calm [OF r, of a "replicate 8 0"]
  let ?w = "current_winsize ?k (task (slot ?k i))"
  note inv = runningD [OF conjunct1 [OF p]]
  have m: "mapped (umem (task (slot ?k i))) a 8" using poke_mapped [OF r, of a "replicate 8 0"] by simp
  have sf: "safe (?c ?k)" by (rule sys_ioctl_safe [OF conjunct1 [OF p]]) (use m in \<open>auto simp: TIOCGWINSZ_def TCGETS_def TCSETS_def\<close>)
  obtain x k' where o: "?c ?k = Some (x, k')" "result (?c ?k) = (Some k', case x of None \<Rightarrow> -1 | Some v \<Rightarrow> v)" "running k' i" "unmoved k k'"
    by (rule call_leaves [OF r conjunct1 [OF p] conjunct2 [OF p] sf sys_winsize_stays sys_winsize_leaves])
  have hk: "shown_cols a ?k = w" using unmoved_host [OF conjunct2 [OF p]] h(2) by simp
  have pk: "user_ok a 8 \<Longrightarrow> x = Some 0 \<and> peek a 8 k' = winsize_bytes ?w" "\<not> user_ok a 8 \<Longrightarrow> x = None"
  proof -
    assume u: "user_ok a 8"
    with o(1) have "x = Some 0 \<and> put_user i a (winsize_bytes ?w) ?k = Some k'"
      by (auto simp: sys_ioctl_def with_task_running [OF conjunct1 [OF p]] TIOCGWINSZ_def TCGETS_def TCSETS_def TIOCSWINSZ_def ret_def split: bind_splits)
    with peek_put_user [of i a "winsize_bytes ?w" ?k k' 8] runningD(2) [OF o(3)] inv(5) winsize_sizes(1) [of ?w]
    show "x = Some 0 \<and> peek a 8 k' = winsize_bytes ?w" by simp
  qed (use o(1) in \<open>auto simp: sys_ioctl_def with_task_running [OF conjunct1 [OF p]] TIOCGWINSZ_def TCGETS_def TCSETS_def fail_def\<close>)
  show ?thesis
  proof (cases "halted ?k")
    case True
    then show ?thesis using s p h hk inv(2)
      by (auto simp: window_size_def kernel_sys_def ks_winsize_def on_kernel_def syscall3_ioctl Let_def shown_cols_def intro: calm_moved)
  next
    case False
    then have st: "st = Some k'" "user_ok a 8 \<Longrightarrow> (c, rows) = (if 0 < unat (ws_col ?w) \<and> 0 < unat (ws_row ?w) then (unat (ws_col ?w), unat (ws_row ?w)) else (80, 24))"
        "\<not> user_ok a 8 \<Longrightarrow> c = 80"
      using s o(2) pk by (auto simp: window_size_def kernel_sys_def ks_winsize_def on_kernel_def syscall3_ioctl Let_def winsize_sizes)
    moreover have "w = (if \<not> user_ok a 8 \<or> ws_col ?w = 0 \<or> ws_row ?w = 0 then 80 else unat (ws_col ?w))"
      using hk False inv(2) by (auto simp: shown_cols_def Let_def)
    ultimately have "c = w" by (cases "user_ok a 8") (auto simp: unat_eq_0 split: if_splits)
    with st(1) calm_moved [OF o(3,4) h] show ?thesis by simp
  qed
qed

interpretation shell_sys: shell_host "kernel_sys E a others" left_of kinv "calm_kernel a" for E a others
proof
  fix w k p fd n k' r ty nm c rows
  show "calm_kernel a w k \<Longrightarrow> kinv k" by (auto simp: calm_kernel_def kinv_def)
  show "calm_kernel a w k \<Longrightarrow> calm_kernel a w (fst (s_open (kernel_sys E a others) k p O_RDONLY))"
    unfolding calm_kernel_def [of a w k] using ks_open_calm by auto
  show "calm_kernel a w k \<Longrightarrow> file_fd fd \<Longrightarrow> calm_kernel a w (s_close (kernel_sys E a others) k fd)"
    unfolding calm_kernel_def [of a w k] using ks_close_calm by auto
  show "calm_kernel a w k \<Longrightarrow> file_fd fd \<Longrightarrow> calm_kernel a w (fst (s_read (kernel_sys E a others) k fd n))"
    unfolding calm_kernel_def [of a w k] using ks_read_calm by auto
  show "calm_kernel a w k \<Longrightarrow> file_fd fd \<Longrightarrow> s_getdents (kernel_sys E a others) k fd = (k', r, ty, nm) \<Longrightarrow>
      calm_kernel a w k' \<and> (r = 1 \<longrightarrow> is_ascii (until_nul nm))"
    unfolding calm_kernel_def [of a w k] using ks_getdents_calm by (elim exE conjE) simp
  show "calm_kernel a w k \<Longrightarrow> window_size (kernel_sys E a others) k = (k', c, rows) \<Longrightarrow> calm_kernel a w k' \<and> c = w"
    unfolding calm_kernel_def [of a w k] using ks_winsize_calm by (elim exE conjE) simp
qed

section \<open>The property\<close>

text \<open>
  C35: the line editor never panics and every key's work ends. Whatever keys are typed, in whatever order, and
  however often the line is drawn, with the history and all names in the file system being ASCII text, no
  string is cut off a character boundary, no list is indexed out of range, the directories that completion
  lists come to an end, and the cursor and the selection stay in the line and the list.
\<close>

theorem line_editor_never_panics:
  assumes "running k i" "names_ascii k" "list_all is_ascii hist"
  shows "\<exists>k' e'. levents (kernel_sys E a others) evs (Some k, led_new hist pre w) = Some (Some k', e') \<and>
    (\<exists>j. running k' j) \<and> led_inv e'"
proof -
  have "calm_kernel a (shown_cols a k) (Some k)" using assms(1,2) by (auto simp: calm_kernel_def)
  from shell_sys.levents_ok [OF this led_inv_new [OF assms(3)], of E others evs pre w] show ?thesis
    by (auto simp: calm_kernel_def)
qed

lemma demo_names: "names_ascii demo_running"
  by (auto simp: names_ascii_def demo_running_def set_slot_def table_init_def vfs_init_def alloc_vnode_def set_name_def cut_name_def NAME_MAX_def Let_def is_ascii_def split: if_splits)

theorem line_editor_never_panics_witness:
  "\<exists>k' e'. levents (kernel_sys demo_env 4096 (\<lambda>st. st)) [LKey (TChar 108), LKey TTab, LDraw True, LKey TUp, LKey (TCtrl 119), LDraw False]
      (Some demo_running, led_new [ascii ''list /bin''] (ascii ''> '') 2) = Some (Some k', e') \<and> (\<exists>j. running k' j) \<and> led_inv e'"
  by (rule line_editor_never_panics [OF demo_running_running demo_names]) (simp add: is_ascii_def)

text \<open>
  The condition on the history is needed: a line recalled from a history file with a letter outside ASCII
  cannot be drawn.
\<close>

lemma draw_line_off_boundary: "0 < avail \<Longrightarrow> draw_line avail fin cs sugg (e\<lparr>l_buf := [0xC3, 0xA9], l_scroll := 0\<rparr>) = None"
proof -
  assume "0 < avail"
  then have "[0..<min avail (Suc (Suc 0))] = 0 # [1..<min avail (Suc (Suc 0))]" by (simp add: upt_conv_Cons)
  moreover have "str_slice [0xC3, 0xA9] 0 1 = None" by (simp add: str_slice_def is_char_boundary_def is_boundary_def)
  ultimately show ?thesis by (simp add: draw_line_def Let_def)
qed

lemma recalled_letter_panics:
  "\<exists>e. handle null_sys () (led_new [[0xC3, 0xA9]] [] 0) TUp = Some ((), e, None) \<and> render null_sys () False e = None"
proof -
  let ?e = "(led_new [[0xC3, 0xA9]] [] 0)\<lparr>l_buf := [0xC3, 0xA9], l_cur := 2, l_hpos := Some 0, l_hprefix := Some []\<rparr>"
  have "handle null_sys () (led_new [[0xC3, 0xA9]] [] 0) TUp = Some ((), ?e, None)"
    by (simp add: handle_def key_action_def list_key_def key_vertical_def stay'_def led_new_def walk_history_def history_search_def history_get_def vec_get_def set_line_def Let_def upt_rec)
  moreover have "follow_cursor avail False ?e = ?e\<lparr>l_buf := [0xC3, 0xA9], l_scroll := 0\<rparr>" if "4 \<le> avail" for avail
    using that by (simp add: follow_cursor_def led_new_def Let_def)
  then have "render null_sys () False ?e = None"
    unfolding render_def Let_def by (auto simp: draw_line_off_boundary split: prod.splits bind_splits)
  ultimately show ?thesis by blast
qed

end
