(* ===== verification/Disk.thy ===== *)
theory Disk
  imports AnssPrelude
begin

text \<open>
  Disks: the checksum of \<^verbatim>\<open>kernel/src/util/crc32.rs\<close>, the block devices of \<^verbatim>\<open>kernel/src/drivers/block.rs\<close> with
  their lock on writes, the partition report of \<^verbatim>\<open>drivers/partition.rs\<close> and the driver check of
  \<^verbatim>\<open>drivers/disktest.rs\<close>. A storage driver (NVMe, AHCI, USB storage) is a parameter: its state and the two
  operations of the trait \<^verbatim>\<open>BlockDriver\<close>. What the functions print is a result. \<open>None\<close> is a panic or a read
  outside a buffer.
\<close>

section \<open>CRC-32\<close>

definition crc_step :: "u32 \<Rightarrow> u32" where
  "crc_step c = (if c AND 1 \<noteq> 0 then 0xEDB88320 XOR drop_bit 1 c else drop_bit 1 c)"

definition TABLE :: "u32 list" where
  "TABLE = map (\<lambda>i. (crc_step ^^ 8) (word_of_nat i)) [0..<256]"

definition crc_byte :: "u32 \<Rightarrow> u8 \<Rightarrow> u32" where
  "crc_byte c b = TABLE ! unat ((c XOR ucast b) AND 0xFF) XOR drop_bit 8 c"

definition crc32 :: "bytes \<Rightarrow> u32" where
  "crc32 data = NOT (foldl crc_byte (NOT 0) data)"

section \<open>Block devices\<close>

text \<open>
  The trait: a read gets the sector, the count and the buffer, and gives whether it succeeded and the
  buffer's new contents.
\<close>

record 'd bdriver =
  d_read :: "'d \<Rightarrow> nat \<Rightarrow> nat \<Rightarrow> bytes \<Rightarrow> 'd \<times> bool \<times> bytes"
  d_write :: "'d \<Rightarrow> nat \<Rightarrow> nat \<Rightarrow> bytes \<Rightarrow> 'd \<times> bool"

record 'd bdevice =
  bname :: bytes
  model :: bytes
  sector_size :: nat
  sector_count :: nat
  max_sectors :: nat
  driver :: 'd

definition MAX_DEVICES :: nat where "MAX_DEVICES = 16"

record 'd registry =
  devices :: "'d bdevice list"
  writes_ok :: bool

text \<open>\<^verbatim>\<open>requests::option\<close>: whether a word is on the kernel's command line.\<close>

definition cmdline_option :: "bytes option \<Rightarrow> bytes \<Rightarrow> bool" where
  "cmdline_option line word = (case line of None \<Rightarrow> False | Some l \<Rightarrow> word \<in> set (split_on 32 l))"

definition block_init :: "bytes option \<Rightarrow> 'd registry \<Rightarrow> 'd registry \<times> bytes" where
  "block_init line r =
     (let ok = cmdline_option line (ascii ''allow-disk-writes'')
      in (r\<lparr>writes_ok := ok\<rparr>,
          if ok then ascii ''block: disk writes ALLOWED (allow-disk-writes on the command line)'' @ [10] else []))"

definition block_register :: "'d bdevice \<Rightarrow> 'd registry \<Rightarrow> 'd registry \<times> nat option" where
  "block_register dev r =
     (if length (devices r) = MAX_DEVICES then (r, None)
      else (r\<lparr>devices := devices r @ [dev]\<rparr>, Some (length (devices r))))"

definition block_get :: "'d registry \<Rightarrow> nat \<Rightarrow> 'd bdevice option" where
  "block_get r i = (if i < length (devices r) then Some (devices r ! i) else None)"

definition block_find :: "'d registry \<Rightarrow> bytes \<Rightarrow> 'd bdevice option" where
  "block_find r name = find (\<lambda>d. bname d = name) (devices r)"

definition in_range :: "'d bdevice \<Rightarrow> nat \<Rightarrow> nat \<Rightarrow> bool" where
  "in_range dev lba n \<longleftrightarrow> n > 0 \<and> lba < sector_count dev \<and> n \<le> sector_count dev - lba"

fun read_pieces :: "'d bdriver \<Rightarrow> nat \<Rightarrow> nat \<Rightarrow> bytes list \<Rightarrow> 'd \<Rightarrow> 'd \<times> bool \<times> bytes" where
  "read_pieces D sec lba [] d = (d, True, [])"
| "read_pieces D sec lba (c # cs) d =
     (let n = length c div sec mod 2 ^ 32; (d, ok, c') = d_read D d lba n c
      in if \<not> ok then (d, False, c' @ concat cs)
         else let (d, ok, rest) = read_pieces D sec (lba + n) cs d in (d, ok, c' @ rest))"

definition blk_read :: "'d bdriver \<Rightarrow> 'd bdevice \<Rightarrow> nat \<Rightarrow> nat \<Rightarrow> bytes \<Rightarrow> ('d bdevice \<times> bool \<times> bytes) option" where
  "blk_read D dev lba n buf =
     (if \<not> in_range dev lba n then Some (dev, False, buf)
      else let len = n * sector_size dev mod 2 ^ 64; step = max_sectors dev * sector_size dev
           in if len > length buf \<or> step = 0 then None
              else let (d, ok, out) = read_pieces D (sector_size dev) lba (chunks step (take len buf)) (driver dev)
                   in Some (dev\<lparr>driver := d\<rparr>, ok, out @ drop len buf))"

fun write_pieces :: "'d bdriver \<Rightarrow> nat \<Rightarrow> nat \<Rightarrow> bytes list \<Rightarrow> 'd \<Rightarrow> 'd \<times> bool" where
  "write_pieces D sec lba [] d = (d, True)"
| "write_pieces D sec lba (c # cs) d =
     (let n = length c div sec mod 2 ^ 32; (d, ok) = d_write D d lba n c
      in if \<not> ok then (d, False) else write_pieces D sec (lba + n) cs d)"

definition refusal :: "'d bdevice \<Rightarrow> bytes" where
  "refusal dev = ascii ''block: refusing to write to '' @ bname dev @ ascii '' -- disk writes are locked'' @ [10]"

definition blk_write :: "'d bdriver \<Rightarrow> bool \<Rightarrow> 'd bdevice \<Rightarrow> nat \<Rightarrow> nat \<Rightarrow> bytes \<Rightarrow> ('d bdevice \<times> bool \<times> bytes) option" where
  "blk_write D allowed dev lba n buf =
     (if \<not> allowed then Some (dev, False, refusal dev)
      else if \<not> in_range dev lba n then Some (dev, False, [])
      else let len = n * sector_size dev mod 2 ^ 64; step = max_sectors dev * sector_size dev
           in if len > length buf \<or> step = 0 then None
              else let (d, ok) = write_pieces D (sector_size dev) lba (chunks step (take len buf)) (driver dev)
                   in Some (dev\<lparr>driver := d\<rparr>, ok, []))"

section \<open>Partitions\<close>

text \<open>The packed structures, read at their offsets.\<close>

record gpt_header =
  signature :: bytes
  header_size :: nat
  header_crc :: u32
  entries_lba :: nat
  entry_count :: nat
  entry_size :: nat
  entries_crc :: u32

definition GPT_HEADER_SIZE :: nat where "GPT_HEADER_SIZE = 92"
definition GPT_ENTRY_SIZE :: nat where "GPT_ENTRY_SIZE = 128"

definition gpt_header_at :: "bytes \<Rightarrow> gpt_header option" where
  "gpt_header_at b =
     (if length b < GPT_HEADER_SIZE then None
      else Some \<lparr>signature = take 8 b, header_size = field 12 4 b, header_crc = word_of_nat (field 16 4 b),
        entries_lba = field 72 8 b, entry_count = field 80 4 b, entry_size = field 84 4 b, entries_crc = word_of_nat (field 88 4 b)\<rparr>)"

text \<open>The bytes of the copy of the header whose checksum field is zeroed.\<close>

definition header_copy :: "bytes \<Rightarrow> bytes" where
  "header_copy b = take 16 b @ [0, 0, 0, 0] @ drop 20 (take GPT_HEADER_SIZE b)"

record gpt_entry =
  gkind :: bytes
  first_lba :: nat
  last_lba :: nat
  gname :: "nat list"

definition gpt_entry_at :: "bytes \<Rightarrow> gpt_entry option" where
  "gpt_entry_at b =
     (if length b < GPT_ENTRY_SIZE then None
      else Some \<lparr>gkind = take 16 b, first_lba = field 32 8 b, last_lba = field 40 8 b,
        gname = map (\<lambda>i. field (56 + 2 * i) 2 b) [0..<36]\<rparr>)"

definition GPT_TYPES :: "(bytes \<times> bytes) list" where
  "GPT_TYPES = [
     (ascii ''C12A7328-F81F-11D2-BA4B-00A0C93EC93B'', ascii ''EFI system''),
     (ascii ''E3C9E316-0B5C-4DB8-817D-F92DF00215AE'', ascii ''Microsoft reserved''),
     (ascii ''EBD0A0A2-B9E5-4433-87C0-68B6B72699C7'', ascii ''Microsoft basic data''),
     (ascii ''DE94BBA4-06D1-4D40-A16A-BFD50179D6AC'', ascii ''Windows recovery''),
     (ascii ''0FC63DAF-8483-4772-8E79-3D69D8477DE4'', ascii ''Linux filesystem''),
     (ascii ''4F68BCE3-E8CD-4DB1-96E7-FBCAF984B709'', ascii ''Linux root (x86-64)''),
     (ascii ''0657FD6D-A4AB-43C4-84E5-0933C84B4F4F'', ascii ''Linux swap''),
     (ascii ''E6D6D379-F507-44C2-A23C-238F2A3DF928'', ascii ''Linux LVM''),
     (ascii ''A19D880F-05FC-4D3B-A006-743F0F84911E'', ascii ''Linux RAID''),
     (ascii ''21686148-6449-6E6F-744E-656564454649'', ascii ''BIOS boot''),
     (ascii ''48465300-0000-11AA-AA11-00306543ECAC'', ascii ''Apple HFS+'')]"

definition hex_digit :: "bool \<Rightarrow> nat \<Rightarrow> u8" where
  "hex_digit upper n = (if n < 10 then word_of_nat (48 + n) else word_of_nat ((if upper then 55 else 87) + n))"

definition hex2 :: "u8 \<Rightarrow> bytes" where
  "hex2 b = [hex_digit True (unat b div 16), hex_digit True (unat b mod 16)]"

definition lower_hex :: "u8 \<Rightarrow> bytes" where
  "lower_hex b = (if unat b < 16 then [] else [hex_digit False (unat b div 16)]) @ [hex_digit False (unat b mod 16)]"

definition guid_string :: "bytes \<Rightarrow> bytes" where
  "guid_string g = concat (map (\<lambda>(i, off). (if i \<in> {4, 6, 8, 10} then [45] else []) @ hex2 (g ! off))
     (enumerate 0 [3, 2, 1, 0, 5, 4, 7, 6, 8, 9, 10, 11, 12, 13, 14, 15]))"

definition size_text :: "nat \<Rightarrow> bytes" where
  "size_text n =
     (if n \<ge> 10 * 2 ^ 30 then dec (n div 2 ^ 30) @ ascii '' GiB''
      else if n \<ge> 10 * 2 ^ 20 then dec (n div 2 ^ 20) @ ascii '' MiB''
      else dec (n div 2 ^ 10) @ ascii '' KiB'')"

definition magic_at :: "bytes \<Rightarrow> nat \<Rightarrow> bytes \<Rightarrow> bool" where
  "magic_at b off magic \<longleftrightarrow> off + length magic \<le> length b \<and> take (length magic) (drop off b) = magic"

definition fs_of :: "bytes \<Rightarrow> bytes" where
  "fs_of b =
     (if magic_at b 3 (ascii ''NTFS    '') then ascii ''NTFS''
      else if magic_at b 3 (ascii ''-FVE-FS-'') then ascii ''BitLocker''
      else if magic_at b 3 (ascii ''EXFAT   '') then ascii ''exFAT''
      else if magic_at b 82 (ascii ''FAT32   '') then ascii ''FAT32''
      else if magic_at b 54 (ascii ''FAT1'') then ascii ''FAT12/16''
      else if magic_at b 0 (ascii ''LUKS'' @ [0xBA, 0xBE]) then ascii ''LUKS''
      else if length b > 1082 \<and> b ! 1080 = 0x53 \<and> b ! 1081 = 0xEF then ascii ''ext2/3/4''
      else if magic_at b 65600 (ascii ''_BHRfS_M'') then ascii ''btrfs''
      else if magic_at b 32769 (ascii ''CD001'') then ascii ''ISO 9660''
      else if magic_at b 0 (ascii ''ANFS'') then ascii ''AnssOS blkfs''
      else if magic_at b 0 (ascii ''XFSB'') then ascii ''XFS''
      else [])"

definition detect_fs :: "'d bdriver \<Rightarrow> 'd bdevice \<Rightarrow> nat \<Rightarrow> nat \<Rightarrow> ('d bdevice \<times> bytes) option" where
  "detect_fs D dev lba sectors =
     (if sector_size dev = 0 then None
      else let n = min (div_ceil (68 * 1024) (sector_size dev)) sectors
           in do {
             (dev, ok, b) \<leftarrow> blk_read D dev lba n (replicate (n * sector_size dev) 0);
             Some (dev, if \<not> ok then ascii ''unreadable'' else fs_of b) })"

definition comma_fs :: "bytes \<Rightarrow> bytes" where
  "comma_fs fs = (if fs = [] then [] else ascii '', '' @ fs)"

text \<open>The partitions of a table: an entry with a zero type is unused.\<close>

fun used_entries :: "nat \<Rightarrow> bytes list \<Rightarrow> (nat \<times> gpt_entry) list option" where
  "used_entries i [] = Some []"
| "used_entries i (e # es) = do {
     g \<leftarrow> gpt_entry_at e;
     rest \<leftarrow> used_entries (i + 1) es;
     Some (if gkind g \<noteq> replicate 16 0 then (i, g) # rest else rest) }"

definition part_name :: "nat list \<Rightarrow> bytes" where
  "part_name u = map (\<lambda>c. if c < 0x80 then word_of_nat c else 63) (takeWhile (\<lambda>c. c \<noteq> 0) u)"

definition report_entry :: "'d bdriver \<Rightarrow> 'd bdevice \<Rightarrow> nat \<times> gpt_entry \<Rightarrow> ('d bdevice \<times> bytes) option" where
  "report_entry D dev ie =
     (let (i, e) = ie;
          guid = guid_string (gkind e);
          kind = (case find (\<lambda>(g, _). g = guid) GPT_TYPES of None \<Rightarrow> guid | Some (_, n) \<Rightarrow> n);
          sectors = (if last_lba e \<ge> first_lba e then (last_lba e - first_lba e + 1) mod 2 ^ 64 else 0);
          name = part_name (gname e)
      in do {
        (dev', fs) \<leftarrow> (if sectors > 0 then detect_fs D dev (first_lba e) sectors else Some (dev, []));
        Some (dev', ascii ''  '' @ bname dev @ ascii ''p'' @ dec (i + 1) @ ascii '': '' @ kind @ ascii '', '' @
          size_text (sectors * sector_size dev mod 2 ^ 64) @ comma_fs fs @
          (if name = [] then [] else ascii '' '' @ [34] @ name @ [34]) @ [10]) })"

fun report_entries :: "'d bdriver \<Rightarrow> 'd bdevice \<Rightarrow> (nat \<times> gpt_entry) list \<Rightarrow> ('d bdevice \<times> bytes) option" where
  "report_entries D dev [] = Some (dev, [])"
| "report_entries D dev (e # es) = do {
     (dev, out) \<leftarrow> report_entry D dev e;
     (dev, rest) \<leftarrow> report_entries D dev es;
     Some (dev, out @ rest) }"

definition crc_word :: "bool \<Rightarrow> bytes" where
  "crc_word ok = (if ok then ascii ''ok'' else ascii ''BAD'')"

text \<open>What follows once the array of entries has been read.\<close>

definition report_array :: "'d bdriver \<Rightarrow> 'd bdevice \<Rightarrow> gpt_header \<Rightarrow> bool \<Rightarrow> bytes \<Rightarrow> ('d bdevice \<times> bytes) option" where
  "report_array D dev h header_ok array = do {
     a \<leftarrow> slice array 0 (entry_count h * entry_size h);
     es \<leftarrow> used_entries 0 (take (entry_count h) (chunks (entry_size h) array));
     (dev, out) \<leftarrow> report_entries D dev es;
     Some (dev, ascii ''  GPT: '' @ dec (length es) @ ascii '' partitions, header CRC '' @ crc_word header_ok @
       ascii '', partition array CRC '' @ crc_word (crc32 a = entries_crc h) @ [10] @ out) }"

definition report_gpt :: "'d bdriver \<Rightarrow> 'd bdevice \<Rightarrow> bytes \<Rightarrow> ('d bdevice \<times> bool \<times> bytes) option" where
  "report_gpt D dev lba1 = do {
     h \<leftarrow> gpt_header_at lba1;
     if signature h \<noteq> ascii ''EFI PART'' then Some (dev, False, [])
     else let header_ok = (crc32 (take (min (header_size h) GPT_HEADER_SIZE) (header_copy lba1)) = header_crc h);
              array_bytes = entry_count h * entry_size h
          in if entry_size h < GPT_ENTRY_SIZE \<or> array_bytes > 1024 * 1024
             then Some (dev, True, ascii ''  GPT with an implausible partition array -- not reading it'' @ [10])
             else if sector_size dev = 0 then None
             else let sectors = div_ceil array_bytes (sector_size dev)
                  in do {
                    (dev, ok, array) \<leftarrow> blk_read D dev (entries_lba h) sectors (replicate (sectors * sector_size dev) 0);
                    if \<not> ok then Some (dev, True, ascii ''  GPT, but its partition array is unreadable'' @ [10])
                    else do {
                      (dev, out) \<leftarrow> report_array D dev h header_ok array;
                      Some (dev, True, out) } } }"

definition report_mbr_entry :: "'d bdriver \<Rightarrow> bytes \<Rightarrow> nat \<Rightarrow> 'd bdevice \<Rightarrow> ('d bdevice \<times> bytes) option" where
  "report_mbr_entry D lba0 i dev = do {
     p \<leftarrow> slice lba0 (446 + i * 16) (462 + i * 16);
     let kind = p ! 4;
     let start = field 8 4 p;
     let cnt = field 12 4 p;
     if kind = 0 \<or> cnt = 0 then Some (dev, [])
     else do {
       (dev', fs) \<leftarrow> (if start < sector_count dev then detect_fs D dev start cnt else Some (dev, []));
       Some (dev', ascii ''  '' @ bname dev @ ascii ''p'' @ dec (i + 1) @ ascii '': type 0x'' @ lower_hex kind @ ascii '', '' @
         size_text (cnt * sector_size dev) @ comma_fs fs @ [10]) } }"

fun report_mbr_entries :: "'d bdriver \<Rightarrow> bytes \<Rightarrow> nat list \<Rightarrow> 'd bdevice \<Rightarrow> ('d bdevice \<times> bytes) option" where
  "report_mbr_entries D lba0 [] dev = Some (dev, [])"
| "report_mbr_entries D lba0 (i # is) dev = do {
     (dev, out) \<leftarrow> report_mbr_entry D lba0 i dev;
     (dev, rest) \<leftarrow> report_mbr_entries D lba0 is dev;
     Some (dev, out @ rest) }"

definition report_mbr :: "'d bdriver \<Rightarrow> 'd bdevice \<Rightarrow> bytes \<Rightarrow> ('d bdevice \<times> bytes) option" where
  "report_mbr D dev lba0 =
     (if length lba0 \<le> 511 then None
      else if lba0 ! 510 \<noteq> 0x55 \<or> lba0 ! 511 \<noteq> 0xAA then do {
        (dev, fs) \<leftarrow> detect_fs D dev 0 (sector_count dev);
        Some (dev, ascii ''  no partition table'' @ (if fs = [] then [] else ascii ''; whole disk: '') @ fs @ [10]) }
      else do {
        (dev, out) \<leftarrow> report_mbr_entries D lba0 [0..<4] dev;
        Some (dev, ascii ''  MBR partition table'' @ [10] @ out) })"

definition report_head :: "'d bdevice \<Rightarrow> bytes" where
  "report_head dev = bname dev @ ascii '': '' @ (if model dev = [] then ascii ''(no model)'' else model dev) @ ascii '', '' @
     size_text (sector_count dev * sector_size dev mod 2 ^ 64) @ ascii '', '' @ dec (sector_size dev) @ ascii ''-byte sectors'' @ [10]"

text \<open>The report of the partition table, once the first two sectors have been read, and of the disk as a whole.\<close>

definition report_table :: "'d bdriver \<Rightarrow> 'd bdevice \<Rightarrow> bytes \<Rightarrow> ('d bdevice \<times> bytes) option" where
  "report_table D dev b = do {
     lba1 \<leftarrow> slice b (sector_size dev) (length b);
     (dev, gpt, out) \<leftarrow> report_gpt D dev lba1;
     (dev, mbr) \<leftarrow> (if gpt then Some (dev, []) else report_mbr D dev b);
     Some (dev, out @ mbr) }"

definition report_whole :: "'d bdriver \<Rightarrow> 'd bdevice \<Rightarrow> ('d bdevice \<times> bytes) option" where
  "report_whole D dev = do {
     (dev, fs) \<leftarrow> detect_fs D dev 0 (sector_count dev);
     Some (dev, if fs = ascii ''ISO 9660''
       then ascii ''  whole disk: ISO 9660 (a hybrid ISO image, like the AnssOS live USB)'' @ [10] else []) }"

definition report :: "'d bdriver \<Rightarrow> 'd bdevice \<Rightarrow> ('d bdevice \<times> bytes) option" where
  "report D dev = do {
     (dev', ok, b) \<leftarrow> blk_read D dev 0 2 (replicate (2 * sector_size dev) 0);
     if \<not> ok then Some (dev', report_head dev @ ascii ''  can't read the first sectors'' @ [10])
     else do {
       (dev', out) \<leftarrow> report_table D dev' b;
       (dev', whole) \<leftarrow> report_whole D dev';
       Some (dev', report_head dev @ out @ whole) } }"

section \<open>The driver check\<close>

definition CHUNK :: nat where "CHUNK = 1024 * 1024"
definition SPEED_BYTES :: nat where "SPEED_BYTES = 64 * 1024 * 1024"

definition pattern :: "nat \<Rightarrow> u8" where
  "pattern i = word_of_nat (i * 7 + i div 2 ^ 9 + 0x5A)"

definition says :: "'d bdevice \<Rightarrow> bytes \<Rightarrow> bytes" where
  "says dev s = ascii ''disktest: '' @ bname dev @ ascii '': '' @ s"

text \<open>The timed read. The result is where it failed, if it did.\<close>

fun speed_loop :: "'d bdriver \<Rightarrow> nat list \<Rightarrow> 'd bdevice \<Rightarrow> bytes \<Rightarrow> ('d bdevice \<times> nat option) option" where
  "speed_loop D [] dev a = Some (dev, None)"
| "speed_loop D (pos # ps) dev a = do {
     (dev, ok, a) \<leftarrow> blk_read D dev (pos div sector_size dev) (CHUNK div sector_size dev) a;
     if \<not> ok then Some (dev, Some pos) else speed_loop D ps dev a }"

definition speed_text :: "nat \<Rightarrow> nat \<Rightarrow> bytes" where
  "speed_text len ms = ascii ''read '' @ dec (len div 2 ^ 20) @ ascii '' MiB in '' @ dec ms @ ascii '' ms'' @
     (if ms > 0 then ascii '' ('' @ dec (len div 2 ^ 20 * 1000 div ms) @ ascii '' MiB/s)'' else []) @ [10]"

text \<open>\<open>ms\<close> is the time the clock measures for the timed read. \<open>a\<close> and \<open>b\<close> are the two buffers.\<close>

definition speed_check :: "'d bdriver \<Rightarrow> nat \<Rightarrow> 'd bdevice \<Rightarrow> bytes \<Rightarrow> ('d bdevice \<times> bool \<times> bytes) option" where
  "speed_check D ms dev a =
     (let tot = sector_count dev * sector_size dev mod 2 ^ 64;
          len = (if tot < SPEED_BYTES then tot - tot mod CHUNK else SPEED_BYTES)
      in if len = 0 then Some (dev, True, [])
         else do {
           (dev', bad) \<leftarrow> speed_loop D (map (\<lambda>i. i * CHUNK) [0..<div_ceil len CHUNK]) dev a;
           Some (case bad of
               Some pos \<Rightarrow> (dev', False, says dev (ascii ''read failed at byte '' @ dec pos) @ [10])
             | None \<Rightarrow> (dev', True, says dev (speed_text len ms))) })"

definition read_twice :: "'d bdriver \<Rightarrow> 'd bdevice \<Rightarrow> nat \<Rightarrow> bytes \<Rightarrow> bytes \<Rightarrow> ('d bdevice \<times> bool \<times> bytes \<times> bytes) option" where
  "read_twice D dev n a b = do {
     (dev, ok, a) \<leftarrow> blk_read D dev 0 n a;
     if \<not> ok then Some (dev, False, a, b)
     else do { (dev, ok, b) \<leftarrow> blk_read D dev 0 n b; Some (dev, ok, a, b) } }"

definition read_check :: "'d bdriver \<Rightarrow> nat \<Rightarrow> 'd bdevice \<Rightarrow> bytes \<Rightarrow> bytes \<Rightarrow> ('d bdevice \<times> bool \<times> bytes) option" where
  "read_check D ms dev a b =
     (if sector_size dev = 0 then None
      else let sectors = min (CHUNK div sector_size dev) (sector_count dev); len = sectors * sector_size dev
           in do {
             a1 \<leftarrow> slice a 0 len;
             b1 \<leftarrow> slice b 0 len;
             (dev, ok, a1, b1) \<leftarrow> read_twice D dev sectors a1 b1;
             if \<not> ok then Some (dev, False, says dev (ascii ''read failed'') @ [10])
             else if a1 \<noteq> b1 then Some (dev, False, says dev (ascii ''two reads of the same sectors DIFFER'') @ [10])
             else do {
               (dev', ok, out) \<leftarrow> speed_check D ms dev (a1 @ drop len a);
               Some (dev', ok, says dev (ascii ''first '' @ dec (len div 1024) @ ascii '' KiB read twice, identical'') @ [10] @ out) } })"

definition restore_text :: "bool \<Rightarrow> bytes" where
  "restore_text ok = ascii ''original data '' @ (if ok then ascii ''restored and verified'' else ascii ''NOT RESTORED'') @ [10]"

text \<open>Writing the saved sectors back, and reading them again.\<close>

definition restore :: "'d bdriver \<Rightarrow> bool \<Rightarrow> 'd bdevice \<Rightarrow> nat \<Rightarrow> nat \<Rightarrow> bytes \<Rightarrow> bytes \<Rightarrow> ('d bdevice \<times> bool \<times> bytes) option" where
  "restore D allowed dev lba sectors saved buf = do {
     (dev, ok, out) \<leftarrow> blk_write D allowed dev lba sectors saved;
     (dev, ok, buf) \<leftarrow> (if ok then blk_read D dev lba sectors buf else Some (dev, False, buf));
     Some (dev, ok \<and> buf = saved, out) }"

definition write_check :: "'d bdriver \<Rightarrow> bool \<Rightarrow> 'd bdevice \<Rightarrow> bytes \<Rightarrow> bytes \<Rightarrow> ('d bdevice \<times> bool \<times> bytes) option" where
  "write_check D allowed dev saved buf =
     (if sector_size dev = 0 then None
      else let sectors = CHUNK div sector_size dev
           in if sector_count dev < 4 * sectors then Some (dev, False, says dev (ascii ''too small for the write check'') @ [10])
              else let lba = unat (word_of_nat (sector_count dev div 2) AND NOT (word_of_nat sectors - 1 :: u64))
                   in do {
                     (dev, ok, saved) \<leftarrow> blk_read D dev lba sectors saved;
                     if \<not> ok then Some (dev, False, says dev (ascii ''reading the region to save it failed'') @ [10])
                     else do {
                       let buf = map pattern [0..<length buf];
                       (dev, ok, out1) \<leftarrow> blk_write D allowed dev lba sectors buf;
                       if \<not> ok then Some (dev, False, out1 @ says dev (ascii ''write failed'') @ [10])
                       else do {
                         (dev, ok, buf) \<leftarrow> blk_read D dev lba sectors (replicate (length buf) 0);
                         let ok = (ok \<and> buf = map pattern [0..<length buf]);
                         (dev, restored, out2) \<leftarrow> restore D allowed dev lba sectors saved buf;
                         Some (dev, ok \<and> restored, out1 @ says dev (ascii ''wrote a 1 MiB pattern at sector '' @ dec lba @ ascii '', read back '' @
                           (if ok then ascii ''identical'' else ascii ''DIFFERENT'')) @ [10] @ out2 @ says dev (restore_text restored)) } } })"

definition disktest_run :: "'d bdriver \<Rightarrow> bool \<Rightarrow> nat \<Rightarrow> 'd bdevice \<Rightarrow> bool \<Rightarrow> ('d bdevice \<times> bool \<times> bytes) option" where
  "disktest_run D allowed ms dev write =
     (let a = replicate CHUNK 0; b = replicate CHUNK 0
      in if \<not> write then read_check D ms dev a b
         else if \<not> allowed then Some (dev, False, ascii ''disktest: writes are locked (boot with allow-disk-writes to test them)'' @ [10])
         else write_check D allowed dev a b)"

end
