(* ===== verification/DiskProps.thy ===== *)
theory DiskProps
  imports Disk
begin

text \<open>
  What the disk code guarantees: the table-driven checksum is the bit-serial one and sees every burst error of
  up to 32 bits; a transfer split into pieces is the transfer of the whole run; reporting and
  checking a disk leave it as it was.
\<close>

section \<open>CRC-32\<close>

text \<open>The reference: a shift register fed one message bit at a time, the low bit of a byte first.\<close>

definition crc_bit :: "u32 \<Rightarrow> bool \<Rightarrow> u32" where
  "crc_bit c m = drop_bit 1 c XOR (if bit c 0 \<noteq> m then 0xEDB88320 else 0)"

definition bits_of :: "bytes \<Rightarrow> bool list" where
  "bits_of data = concat (map (\<lambda>b. map (bit b) [0..<8]) data)"

definition crc_serial :: "bool list \<Rightarrow> u32" where
  "crc_serial ms = NOT (foldl crc_bit (NOT 0) ms)"

lemma crc_step_bit: "crc_step c = crc_bit c False"
  by (simp add: crc_step_def crc_bit_def and_one_eq bit_0 xor.commute odd_iff_mod_2_eq_one)

lemma crc_step_xor: "crc_step (c XOR x) = crc_bit c (bit x 0) XOR drop_bit 1 x"
  by (cases "bit c 0"; cases "bit x 0") (simp_all add: crc_step_bit crc_bit_def bit_xor_iff xor.assoc xor.left_commute xor.commute)

text \<open>A run of at most 32 message bits may be added to the register first.\<close>

lemma crc_run: "take_bit n x = x \<Longrightarrow> foldl crc_bit c (map (bit x) [0..<n]) = (crc_step ^^ n) (c XOR x)"
proof (induction n arbitrary: c x)
  case 0
  then show ?case by simp
next
  case (Suc n)
  have "take_bit n (drop_bit 1 x) = drop_bit 1 x"
    using Suc.prems by (metis One_nat_def drop_bit_take_bit diff_Suc_1)
  note IH = Suc.IH [OF this]
  have "map (bit x) [0..<Suc n] = bit x 0 # map (bit (drop_bit 1 x)) [0..<n]"
    by (simp add: map_upt_Suc bit_drop_bit_eq comp_def del: upt_Suc)
  then show ?case using IH [of "crc_bit c (bit x 0)"] by (simp add: crc_step_xor funpow_swap1)
qed

lemma crc_step_linear: "(crc_step ^^ n) (a XOR b) = (crc_step ^^ n) a XOR (crc_step ^^ n) b"
proof (induction n)
  case (Suc n)
  have "crc_step (a XOR b) = crc_step a XOR crc_step b" for a b
    by (cases "bit a 0"; cases "bit b 0") (simp_all add: crc_step_bit crc_bit_def bit_xor_iff xor.assoc xor.left_commute xor.commute)
  with Suc show ?case by simp
qed simp

lemma xor_cancel: "a XOR p = b XOR p \<Longrightarrow> a = b" for a b p :: u32
  by (metis xor.assoc xor_self_eq xor.right_neutral)

lemma crc_step_shift: "take_bit n c = 0 \<Longrightarrow> (crc_step ^^ n) c = drop_bit n c"
proof (induction n arbitrary: c)
  case (Suc n)
  have "bit (take_bit (Suc n) c) 0 = bit c 0" by (simp add: bit_take_bit_iff)
  with Suc.prems have "\<not> bit c 0" by simp
  then have "crc_step c = drop_bit 1 c" by (simp add: crc_step_bit crc_bit_def)
  moreover have "take_bit n (drop_bit 1 c) = 0"
    using Suc.prems by (metis drop_bit_take_bit diff_Suc_1 One_nat_def drop_bit_of_0)
  ultimately show ?case using Suc.IH [of "drop_bit 1 c"] by (simp add: funpow_swap1)
qed simp

lemma mask_255: "(0xFF :: u32) = mask 8"
  by (simp add: mask_eq_exp_minus_1)

lemma crc_byte_steps: "crc_byte c b = (crc_step ^^ 8) (c XOR ucast b)"
proof -
  let ?x = "c XOR ucast b :: u32"
  have split: "?x = (?x AND 0xFF) XOR (?x AND NOT 0xFF)" by (rule bit_eqI) (auto simp: bit_simps)
  have lo: "unat (x AND 0xFF) < 256" for x :: u32
    unfolding mask_255 take_bit_eq_mask [symmetric] using take_bit_nat_less_exp [of 8 "unat x"] by (simp add: unsigned_take_bit_eq)
  have "TABLE ! unat (?x AND 0xFF) = (crc_step ^^ 8) (?x AND 0xFF)"
    using lo [of ?x] by (simp add: TABLE_def)
  moreover have "(crc_step ^^ 8) (?x AND NOT 0xFF) = drop_bit 8 (?x AND NOT 0xFF)"
    by (rule crc_step_shift) (rule bit_eqI, auto simp: bit_simps mask_255)
  moreover have "drop_bit 8 (?x AND NOT 0xFF) = drop_bit 8 c"
    by (rule bit_eqI) (auto simp: bit_simps mask_255 bit_ucast_iff dest: bit_imp_le_length)
  ultimately show ?thesis unfolding crc_byte_def by (subst (2) split) (simp only: crc_step_linear)
qed

lemma crc_byte_serial: "crc_byte c b = foldl crc_bit c (map (bit b) [0..<8])"
proof -
  have "take_bit 8 (ucast b :: u32) = ucast b" by (rule bit_eqI) (auto simp: bit_simps dest: bit_imp_le_length)
  moreover have "map (bit b) [0..<8] = map (bit (ucast b :: u32)) [0..<8]" by (simp add: bit_ucast_iff)
  ultimately show ?thesis by (simp only: crc_byte_steps crc_run)
qed

lemma crc_serial_fold: "foldl crc_byte c data = foldl crc_bit c (bits_of data)"
  by (induction data arbitrary: c) (simp_all add: bits_of_def crc_byte_serial)

text \<open>The register is never the same after different runs of at most 32 bits, nor after the same run from different states.\<close>

lemma crc_step_inj: "inj crc_step"
proof (rule injI)
  fix c d assume e: "crc_step c = crc_step d"
  have top: "bit (crc_step x) 31 = bit x 0" for x
    by (simp add: crc_step_bit crc_bit_def bit_xor_iff bit_drop_bit_eq) (auto dest: bit_imp_le_length)
  have "bit c 0 = bit d 0" using top [of c] top [of d] e by simp
  then have "drop_bit 1 c = drop_bit 1 d" using e by (auto simp: crc_step_bit crc_bit_def dest: xor_cancel)
  then have "bit c (Suc n) = bit d (Suc n)" for n by (metis bit_drop_bit_eq comp_apply plus_1_eq_Suc)
  with \<open>bit c 0 = bit d 0\<close> show "c = d" by (intro bit_eqI) (metis not0_implies_Suc)
qed

lemma crc_fold_inj: "foldl crc_bit c ms = foldl crc_bit d ms \<Longrightarrow> c = d"
proof (induction ms arbitrary: c d)
  case (Cons m ms)
  from Cons.IH [of "crc_bit c m" "crc_bit d m"] Cons.prems have "crc_bit c m = crc_bit d m" by simp
  then have "crc_step (c XOR of_bool m) = crc_step (d XOR of_bool m)" by (simp only: crc_step_xor) (cases m; simp)
  then have "c XOR of_bool m = d XOR of_bool m" by (rule injD [OF crc_step_inj])
  then show ?case by (rule xor_cancel)
qed simp

lemma crc_fold_run:
  assumes "length xs \<le> 32"
  shows "foldl crc_bit c xs = (crc_step ^^ length xs) (c XOR horner_sum of_bool 2 xs)"
proof -
  let ?w = "horner_sum of_bool 2 xs :: u32"
  have b: "bit ?w n = (n < length xs \<and> xs ! n)" for n
    using assms by (auto simp: bit_horner_sum_bit_word_iff)
  have "take_bit (length xs) ?w = ?w" by (rule bit_eqI) (auto simp: bit_take_bit_iff b)
  moreover have "map (bit ?w) [0..<length xs] = xs" by (rule nth_equalityI) (simp_all add: b)
  ultimately show ?thesis using crc_run [of "length xs" ?w c] by simp
qed

lemma crc_burst:
  assumes l: "length xs = length ys" "length xs \<le> 32" and e: "foldl crc_bit c xs = foldl crc_bit c ys"
  shows "xs = ys"
proof -
  let ?w = "\<lambda>xs. horner_sum of_bool 2 xs :: u32"
  have "(crc_step ^^ length ys) (c XOR ?w xs) = (crc_step ^^ length ys) (c XOR ?w ys)" using e l by (simp add: crc_fold_run)
  then have "c XOR ?w xs = c XOR ?w ys" by (rule injD [OF inj_fn [OF crc_step_inj]])
  then have "?w xs = ?w ys" using xor_cancel [of "?w xs" c "?w ys"] by (simp add: xor.commute)
  have b: "bit (?w zs) n = (n < length zs \<and> zs ! n)" if "length zs \<le> 32" for zs n
    using that by (auto simp: bit_horner_sum_bit_word_iff)
  show ?thesis
  proof (rule nth_equalityI [OF l(1)])
    fix n assume "n < length xs"
    with l \<open>?w xs = ?w ys\<close> b [of xs n] b [of ys n] show "xs ! n = ys ! n" by simp
  qed
qed

text \<open>
  C36: the table-driven checksum is the bit-serial CRC-32, and it detects every burst error: two messages whose
  bits differ only within a window of 32 have different checksums.
\<close>

theorem crc32_correct:
  "crc32 data = crc_serial (bits_of data) \<and>
    (\<forall>data' p xs ys s. bits_of data = p @ xs @ s \<longrightarrow> bits_of data' = p @ ys @ s \<longrightarrow> length xs = length ys \<longrightarrow> length xs \<le> 32 \<longrightarrow> xs \<noteq> ys
      \<longrightarrow> crc32 data' \<noteq> crc32 data)"
proof (intro conjI allI impI)
  show "crc32 data = crc_serial (bits_of data)" for data by (simp add: crc32_def crc_serial_def crc_serial_fold)
  fix data' p xs ys s
  assume b: "bits_of data = p @ xs @ s" "bits_of data' = p @ ys @ s" and l: "length xs = length ys" "length xs \<le> 32" "xs \<noteq> ys"
  let ?c = "foldl crc_bit (NOT 0) p"
  have "foldl crc_bit ?c xs \<noteq> foldl crc_bit ?c ys" using crc_burst [OF l(1,2)] l(3) by blast
  then have "foldl crc_bit ?c (xs @ s) \<noteq> foldl crc_bit ?c (ys @ s)" using crc_fold_inj by fastforce
  then show "crc32 data' \<noteq> crc32 data" using b by (simp add: crc32_def crc_serial_fold)
qed

theorem crc32_correct_witness: "crc32 (ascii ''EFI PASS'') \<noteq> crc32 (ascii ''EFI PART'')"
proof -
  have "bits_of (ascii ''EFI PART'') = bits_of (ascii ''EFI PA'') @ bits_of (ascii ''RT'') @ []"
    "bits_of (ascii ''EFI PASS'') = bits_of (ascii ''EFI PA'') @ bits_of (ascii ''SS'') @ []" by (simp_all add: bits_of_def)
  moreover have "length (bits_of (ascii ''RT'')) = length (bits_of (ascii ''SS''))" "length (bits_of (ascii ''RT'')) \<le> 32"
    "bits_of (ascii ''RT'') \<noteq> bits_of (ascii ''SS'')" by (simp_all add: bits_of_def upt_rec)
  ultimately show ?thesis using crc32_correct by blast
qed

section \<open>Transfers in pieces\<close>

text \<open>
  What the code relies on of a driver, on runs of sectors inside the disk and no longer than the driver takes: reads leave the
  disk alone and, when they succeed, give its bytes; a write changes the sectors written and no others, and when it
  succeeds they hold the data.
\<close>

definition overwrite :: "bytes \<Rightarrow> nat \<Rightarrow> bytes \<Rightarrow> bytes" where
  "overwrite s off d = take off s @ d @ drop (off + length d) s"

definition driver_ok :: "'d bdriver \<Rightarrow> ('d \<Rightarrow> bytes) \<Rightarrow> nat \<Rightarrow> nat \<Rightarrow> nat \<Rightarrow> bool" where
  "driver_ok D disk sec cnt mx \<longleftrightarrow> (\<forall>d. length (disk d) = cnt * sec) \<and>
     (\<forall>d lba n buf. 0 < n \<longrightarrow> n \<le> mx \<longrightarrow> lba + n \<le> cnt \<longrightarrow> length buf = n * sec \<longrightarrow>
       (\<forall>d' ok out. d_read D d lba n buf = (d', ok, out) \<longrightarrow>
         disk d' = disk d \<and> length out = length buf \<and> (ok \<longrightarrow> out = take (n * sec) (drop (lba * sec) (disk d)))) \<and>
       (\<forall>d' ok. d_write D d lba n buf = (d', ok) \<longrightarrow>
         (\<exists>new. length new = length buf \<and> disk d' = overwrite (disk d) (lba * sec) new \<and> (ok \<longrightarrow> new = buf))))"

lemma driver_length: "driver_ok D disk sec cnt mx \<Longrightarrow> length (disk d) = cnt * sec"
  by (simp add: driver_ok_def)

lemma driver_read:
  assumes "driver_ok D disk sec cnt mx" "0 < n" "n \<le> mx" "lba + n \<le> cnt" "length buf = n * sec"
  obtains d' ok out where "d_read D d lba n buf = (d', ok, out)" "disk d' = disk d" "length out = length buf"
    "ok \<Longrightarrow> out = take (n * sec) (drop (lba * sec) (disk d))"
  using assms unfolding driver_ok_def by (metis prod_cases3)

lemma driver_write:
  assumes "driver_ok D disk sec cnt mx" "0 < n" "n \<le> mx" "lba + n \<le> cnt" "length buf = n * sec"
  obtains d' ok new where "d_write D d lba n buf = (d', ok)" "length new = length buf" "disk d' = overwrite (disk d) (lba * sec) new"
    "ok \<Longrightarrow> new = buf"
  using assms unfolding driver_ok_def by (metis prod.exhaust)

text \<open>The first piece of a run, and the rest.\<close>

lemma first_piece:
  assumes "0 < sec" "0 < mx" "mx < 2 ^ 32" "0 < n" "length buf = n * sec"
  shows "chunks (mx * sec) buf = take (min mx n * sec) buf # chunks (mx * sec) (drop (min mx n * sec) buf)"
    "length (take (min mx n * sec) buf) div sec mod 2 ^ 32 = min mx n"
    "length (take (min mx n * sec) buf) = min mx n * sec" "length (drop (min mx n * sec) buf) = (n - min mx n) * sec"
proof -
  have "buf \<noteq> []" using assms by auto
  then have "chunks (mx * sec) buf = take (mx * sec) buf # chunks (mx * sec) (drop (mx * sec) buf)"
    using assms by (intro chunks_step) auto
  moreover have "take (mx * sec) buf = take (min mx n * sec) buf" "drop (mx * sec) buf = drop (min mx n * sec) buf"
    using assms by (auto simp: min_def)
  ultimately show "chunks (mx * sec) buf = take (min mx n * sec) buf # chunks (mx * sec) (drop (min mx n * sec) buf)" by simp
  show l: "length (take (min mx n * sec) buf) = min mx n * sec" using assms by (auto simp: min_def)
  have "min mx n < 2 ^ 32" using assms by simp
  with l assms show "length (take (min mx n * sec) buf) div sec mod 2 ^ 32 = min mx n" by simp
  show "length (drop (min mx n * sec) buf) = (n - min mx n) * sec" using assms by (simp add: diff_mult_distrib)
qed

lemma read_pieces_ok:
  assumes D: "driver_ok D disk sec cnt mx" and s: "0 < sec" "0 < mx" "mx < 2 ^ 32"
  shows "lba + n \<le> cnt \<Longrightarrow> length buf = n * sec \<Longrightarrow> \<exists>d' ok out. read_pieces D sec lba (chunks (mx * sec) buf) d = (d', ok, out)
    \<and> disk d' = disk d \<and> length out = length buf \<and> (ok \<longrightarrow> out = take (n * sec) (drop (lba * sec) (disk d)))"
proof (induction n arbitrary: lba buf d rule: less_induct)
  case (less n)
  show ?case
  proof (cases "n = 0")
    case False
    let ?m = "min mx n" and ?c = "take (min mx n * sec) buf" and ?r = "drop (min mx n * sec) buf"
    note p = first_piece [OF s, of n buf]
    have m: "0 < ?m" "?m \<le> mx" "lba + ?m \<le> cnt" "n - ?m < n" "lba + ?m + (n - ?m) \<le> cnt" using False s less.prems by auto
    obtain d1 ok c1 where r: "d_read D d lba ?m ?c = (d1, ok, c1)" "disk d1 = disk d" "length c1 = length ?c"
      "ok \<Longrightarrow> c1 = take (?m * sec) (drop (lba * sec) (disk d))"
      by (rule driver_read [OF D m(1-3), of ?c d]) (use p(3) False less.prems in auto)
    have n: "length ?c div sec mod 2 ^ 32 = ?m" using p(2) False less.prems by simp
    show ?thesis
    proof (cases ok)
      case True
      obtain d2 ok2 o2 where IH: "read_pieces D sec (lba + ?m) (chunks (mx * sec) ?r) d1 = (d2, ok2, o2)" "disk d2 = disk d1"
        "length o2 = length ?r" "ok2 \<Longrightarrow> o2 = take ((n - ?m) * sec) (drop ((lba + ?m) * sec) (disk d1))"
        using less.IH [OF m(4,5), of ?r d1] p(4) False less.prems by auto
      have "take (n * sec) (drop (lba * sec) (disk d))
          = take (?m * sec) (drop (lba * sec) (disk d)) @ take ((n - ?m) * sec) (drop ((lba + ?m) * sec) (disk d))"
      proof -
        have "n * sec = ?m * sec + (n - ?m) * sec" by (simp add: distrib_right [symmetric])
        then show ?thesis by (simp only: take_add drop_drop distrib_right add.commute)
      qed
      with True r IH n p(1) False less.prems show ?thesis by (auto simp: Let_def)
    next
      case False
      have "concat (chunks (mx * sec) ?r) = ?r" using s by (intro concat_pieces) simp
      with False r n p(1) less.prems \<open>n \<noteq> 0\<close> show ?thesis by (auto simp: Let_def)
    qed
  qed (use less.prems in auto)
qed

lemma overwrite_Nil [simp]: "overwrite s off [] = s"
  by (simp add: overwrite_def)

lemma length_overwrite: "off + length d \<le> length s \<Longrightarrow> length (overwrite s off d) = length s"
  by (simp add: overwrite_def)

lemma overwrite_splice:
  assumes "off + length a + length b \<le> length s"
  shows "overwrite (overwrite s off a) (off + length a) b = overwrite s off (a @ b)"
  using assms by (simp add: overwrite_def ac_simps)

lemma overwrite_same: "off + n \<le> length s \<Longrightarrow> overwrite s off (take n (drop off s)) = s"
  by (simp add: overwrite_def) (metis append_take_drop_id drop_drop add.commute)

lemma overwrite_over: "off + length a \<le> length s \<Longrightarrow> length a = length b \<Longrightarrow> overwrite (overwrite s off a) off b = overwrite s off b"
  by (simp add: overwrite_def)

lemma overwrite_rest:
  assumes "off + length a + n \<le> length s"
  shows "overwrite s off (a @ take n (drop (off + length a) s)) = overwrite s off a"
proof -
  have "drop (off + length a) s = take n (drop (off + length a) s) @ drop (off + length a + n) s"
    by (metis append_take_drop_id drop_drop add.commute)
  with assms show ?thesis by (simp add: overwrite_def add.assoc)
qed

lemma write_pieces_ok:
  assumes D: "driver_ok D disk sec cnt mx" and s: "0 < sec" "0 < mx" "mx < 2 ^ 32"
  shows "lba + n \<le> cnt \<Longrightarrow> length buf = n * sec \<Longrightarrow> \<exists>d' ok new. write_pieces D sec lba (chunks (mx * sec) buf) d = (d', ok)
    \<and> length new = length buf \<and> disk d' = overwrite (disk d) (lba * sec) new \<and> (ok \<longrightarrow> new = buf)"
proof (induction n arbitrary: lba buf d rule: less_induct)
  case (less n)
  show ?case
  proof (cases "n = 0")
    case False
    let ?m = "min mx n" and ?c = "take (min mx n * sec) buf" and ?r = "drop (min mx n * sec) buf"
    note p = first_piece [OF s, of n buf]
    have m: "0 < ?m" "?m \<le> mx" "lba + ?m \<le> cnt" "n - ?m < n" "lba + ?m + (n - ?m) \<le> cnt" using False s less.prems by auto
    obtain d1 ok c1 where r: "d_write D d lba ?m ?c = (d1, ok)" "length c1 = length ?c" "disk d1 = overwrite (disk d) (lba * sec) c1"
      "ok \<Longrightarrow> c1 = ?c"
      by (rule driver_write [OF D m(1-3), of ?c d]) (use p(3) False less.prems in auto)
    have n: "length ?c div sec mod 2 ^ 32 = ?m" and lc: "length ?c = ?m * sec" and lr: "length ?r = (n - ?m) * sec"
      using p(2-4) False less.prems by simp_all
    have "n * sec = ?m * sec + (n - ?m) * sec" "(lba + n) * sec \<le> cnt * sec"
      using less.prems(1) by (simp add: distrib_right [symmetric], intro mult_right_mono) simp_all
    then have fits: "lba * sec + length c1 + length ?r \<le> length (disk d)"
      using driver_length [OF D, of d] r(2) lc lr by (simp add: distrib_right)
    show ?thesis
    proof (cases ok)
      case True
      obtain d2 ok2 o2 where IH: "write_pieces D sec (lba + ?m) (chunks (mx * sec) ?r) d1 = (d2, ok2)" "length o2 = length ?r"
        "disk d2 = overwrite (disk d1) ((lba + ?m) * sec) o2" "ok2 \<Longrightarrow> o2 = ?r"
        using less.IH [OF m(4,5) lr, of d1] by auto
      have "disk d2 = overwrite (disk d) (lba * sec) (c1 @ o2)"
        using overwrite_splice [of "lba * sec" c1 o2 "disk d"] fits IH(2,3) r(2,3) lc by (simp add: distrib_right)
      moreover have "length (c1 @ o2) = length buf" using r(2) IH(2) by simp
      moreover have "ok2 \<Longrightarrow> c1 @ o2 = buf" using r(4) [OF True] IH(4) by simp
      moreover have "write_pieces D sec lba (chunks (mx * sec) buf) d = (d2, ok2)"
        using True r(1) IH(1) n p(1) False less.prems by (simp add: Let_def)
      ultimately show ?thesis by blast
    next
      case False
      let ?o = "take (length ?r) (drop (lba * sec + length c1) (disk d))"
      have "disk d1 = overwrite (disk d) (lba * sec) (c1 @ ?o)" using overwrite_rest [OF fits] r(3) by simp
      moreover have "length ?o = length ?r" using fits by simp
      then have "length (c1 @ ?o) = length buf" using r(2) length_append [of ?c ?r] by (simp only: length_append append_take_drop_id)
      moreover have "write_pieces D sec lba (chunks (mx * sec) buf) d = (d1, False)"
        using False r(1) n p(1) \<open>n \<noteq> 0\<close> less.prems by (simp add: Let_def)
      ultimately show ?thesis by blast
    qed
  qed (use less.prems in auto)
qed

definition dev_ok :: "'d bdriver \<Rightarrow> ('d \<Rightarrow> bytes) \<Rightarrow> 'd bdevice \<Rightarrow> bool" where
  "dev_ok D disk dev \<longleftrightarrow> driver_ok D disk (sector_size dev) (sector_count dev) (max_sectors dev) \<and> 0 < sector_size dev \<and>
     0 < max_sectors dev \<and> max_sectors dev < 2 ^ 32 \<and> sector_count dev * sector_size dev < 2 ^ 64"

text \<open>The same device over a disk that holds the same bytes.\<close>

definition as_is :: "('d \<Rightarrow> bytes) \<Rightarrow> 'd bdevice \<Rightarrow> 'd bdevice \<Rightarrow> bool" where
  "as_is disk dev dev' \<longleftrightarrow> (\<exists>d. dev' = dev\<lparr>driver := d\<rparr> \<and> disk d = disk (driver dev))"

lemma as_is_refl [simp]: "as_is disk dev dev"
  unfolding as_is_def by (rule exI [of _ "driver dev"]) simp

lemma as_is_trans: "as_is disk dev dev1 \<Longrightarrow> as_is disk dev1 dev2 \<Longrightarrow> as_is disk dev dev2"
  by (auto simp: as_is_def)

lemma as_isD: "as_is disk dev dev' \<Longrightarrow> disk (driver dev') = disk (driver dev) \<and> sector_size dev' = sector_size dev \<and>
    sector_count dev' = sector_count dev \<and> max_sectors dev' = max_sectors dev"
  by (auto simp: as_is_def)

lemma dev_ok_as_is: "dev_ok D disk dev \<Longrightarrow> as_is disk dev dev' \<Longrightarrow> dev_ok D disk dev'"
  by (auto simp: dev_ok_def as_is_def)

lemma run_bytes:
  assumes "dev_ok D disk dev" "in_range dev lba n"
  shows "n * sector_size dev mod 2 ^ 64 = n * sector_size dev" "lba + n \<le> sector_count dev" "max_sectors dev * sector_size dev \<noteq> 0"
proof -
  have "n * sector_size dev \<le> sector_count dev * sector_size dev" using assms(2) by (intro mult_right_mono) (auto simp: in_range_def)
  also have "\<dots> < 2 ^ 64" using assms(1) by (simp add: dev_ok_def)
  finally show "n * sector_size dev mod 2 ^ 64 = n * sector_size dev" by simp
  show "lba + n \<le> sector_count dev" "max_sectors dev * sector_size dev \<noteq> 0" using assms by (auto simp: in_range_def dev_ok_def)
qed

lemma blk_read_ok:
  assumes d: "dev_ok D disk dev" and l: "n * sector_size dev \<le> length buf"
  shows "\<exists>dev' ok out. blk_read D dev lba n buf = Some (dev', ok, out) \<and> as_is disk dev dev' \<and> length out = length buf \<and>
    (ok \<longrightarrow> in_range dev lba n \<and> out = take (n * sector_size dev) (drop (lba * sector_size dev) (disk (driver dev))) @ drop (n * sector_size dev) buf)
    \<and> (\<not> in_range dev lba n \<longrightarrow> \<not> ok \<and> dev' = dev \<and> out = buf)"
proof (cases "in_range dev lba n")
  case True
  note r = run_bytes [OF d True]
  obtain d' ok out where "read_pieces D (sector_size dev) lba (chunks (max_sectors dev * sector_size dev) (take (n * sector_size dev) buf)) (driver dev) = (d', ok, out)"
    "disk d' = disk (driver dev)" "length out = n * sector_size dev"
    "ok \<Longrightarrow> out = take (n * sector_size dev) (drop (lba * sector_size dev) (disk (driver dev)))"
    using read_pieces_ok [of D disk "sector_size dev" "sector_count dev" "max_sectors dev" lba n "take (n * sector_size dev) buf" "driver dev"]
      d r(2) l by (auto simp: dev_ok_def)
  with True r l show ?thesis by (auto simp: blk_read_def Let_def as_is_def)
qed (auto simp: blk_read_def)

lemma blk_write_ok:
  assumes d: "dev_ok D disk dev" and l: "n * sector_size dev \<le> length buf"
  shows "\<exists>d' ok out new. blk_write D allowed dev lba n buf = Some (dev\<lparr>driver := d'\<rparr>, ok, out) \<and>
    (if allowed \<and> in_range dev lba n
     then length new = n * sector_size dev \<and> disk d' = overwrite (disk (driver dev)) (lba * sector_size dev) new \<and>
       (ok \<longrightarrow> new = take (n * sector_size dev) buf)
     else \<not> ok \<and> d' = driver dev)"
proof (cases "allowed \<and> in_range dev lba n")
  case True
  note r = run_bytes [OF d conjunct2 [OF True]]
  obtain d' ok new where "write_pieces D (sector_size dev) lba (chunks (max_sectors dev * sector_size dev) (take (n * sector_size dev) buf)) (driver dev) = (d', ok)"
    "length new = n * sector_size dev" "disk d' = overwrite (disk (driver dev)) (lba * sector_size dev) new" "ok \<Longrightarrow> new = take (n * sector_size dev) buf"
    using write_pieces_ok [of D disk "sector_size dev" "sector_count dev" "max_sectors dev" lba n "take (n * sector_size dev) buf" "driver dev"]
      d r(2) l by (auto simp: dev_ok_def)
  with True r l show ?thesis by (auto simp: blk_write_def Let_def)
next
  case False
  have "dev\<lparr>driver := driver dev\<rparr> = dev" by simp
  with False show ?thesis unfolding blk_write_def by (intro exI [of _ "driver dev"]) auto
qed

text \<open>
  C37: transfers through a block device, whatever piece size its driver takes. A successful read gives exactly the
  bytes of the run, a read never changes the disk; a successful write replaces exactly the run and, even when
  it fails half way, no byte outside it changes; a run outside the disk and, while writes are
  locked, any write is refused with the disk untouched. The buffer indices never go out of range.
\<close>

theorem block_transfers:
  assumes "dev_ok D disk dev" "length buf = n * sector_size dev"
  shows "(\<exists>dev' ok out. blk_read D dev lba n buf = Some (dev', ok, out) \<and> disk (driver dev') = disk (driver dev) \<and>
      (ok \<longrightarrow> in_range dev lba n \<and> out = take (n * sector_size dev) (drop (lba * sector_size dev) (disk (driver dev)))) \<and>
      (\<not> in_range dev lba n \<longrightarrow> \<not> ok \<and> out = buf)) \<and>
    (\<exists>dev' ok msg. blk_write D allowed dev lba n buf = Some (dev', ok, msg) \<and>
      (ok \<longrightarrow> allowed \<and> in_range dev lba n \<and> disk (driver dev') = overwrite (disk (driver dev)) (lba * sector_size dev) buf) \<and>
      (\<not> allowed \<or> \<not> in_range dev lba n \<longrightarrow> \<not> ok \<and> disk (driver dev') = disk (driver dev)) \<and>
      (\<forall>i. i < lba * sector_size dev \<or> (lba + n) * sector_size dev \<le> i \<and> i < length (disk (driver dev)) \<longrightarrow>
        disk (driver dev') ! i = disk (driver dev) ! i))"
proof
  show "\<exists>dev' ok out. blk_read D dev lba n buf = Some (dev', ok, out) \<and> disk (driver dev') = disk (driver dev) \<and>
      (ok \<longrightarrow> in_range dev lba n \<and> out = take (n * sector_size dev) (drop (lba * sector_size dev) (disk (driver dev)))) \<and>
      (\<not> in_range dev lba n \<longrightarrow> \<not> ok \<and> out = buf)"
    using blk_read_ok [OF assms(1), of n buf lba] assms(2) by (auto dest: as_isD)
  let ?o = "lba * sector_size dev" and ?s = "disk (driver dev)"
  have le: "n * sector_size dev \<le> length buf" using assms(2) by simp
  obtain d ok msg new where w: "blk_write D allowed dev lba n buf = Some (dev\<lparr>driver := d\<rparr>, ok, msg)"
    "if allowed \<and> in_range dev lba n
     then length new = n * sector_size dev \<and> disk d = overwrite ?s ?o new \<and> (ok \<longrightarrow> new = take (n * sector_size dev) buf)
     else \<not> ok \<and> d = driver dev"
    using blk_write_ok [OF assms(1) le, of allowed lba] by blast
  have out: "disk d ! i = ?s ! i" if i: "i < ?o \<or> (lba + n) * sector_size dev \<le> i \<and> i < length ?s" for i
  proof (cases "allowed \<and> in_range dev lba n")
    case True
    then have "(lba + n) * sector_size dev \<le> sector_count dev * sector_size dev"
      using run_bytes(2) [OF assms(1)] by (intro mult_right_mono) auto
    then have "?o + length new \<le> length ?s" "(lba + n) * sector_size dev = ?o + length new"
      using w(2) True driver_length [of D disk _ _ _ "driver dev"] assms(1) by (auto simp: dev_ok_def distrib_right)
    then show ?thesis using i w(2) True by (auto simp: overwrite_def nth_append)
  qed (use w(2) in auto)
  show "\<exists>dev' ok msg. blk_write D allowed dev lba n buf = Some (dev', ok, msg) \<and>
      (ok \<longrightarrow> allowed \<and> in_range dev lba n \<and> disk (driver dev') = overwrite ?s ?o buf) \<and>
      (\<not> allowed \<or> \<not> in_range dev lba n \<longrightarrow> \<not> ok \<and> disk (driver dev') = ?s) \<and>
      (\<forall>i. i < ?o \<or> (lba + n) * sector_size dev \<le> i \<and> i < length ?s \<longrightarrow> disk (driver dev') ! i = ?s ! i)"
    by (intro exI [of _ "dev\<lparr>driver := d\<rparr>"] exI [of _ ok] exI [of _ msg]) (use w out assms(2) in \<open>auto split: if_splits\<close>)
qed

section \<open>Reporting a disk\<close>

definition reports :: "('d \<Rightarrow> bytes) \<Rightarrow> 'd bdevice \<Rightarrow> ('d bdevice \<times> 'r) option \<Rightarrow> bool" where
  "reports disk dev r \<longleftrightarrow> (\<exists>dev' x. r = Some (dev', x) \<and> as_is disk dev dev')"

lemma reports_Some [simp]: "reports disk dev (Some (dev', x)) = as_is disk dev dev'"
  by (simp add: reports_def)

lemma reports_bind:
  assumes "reports disk dev r" "\<And>dev' x. r = Some (dev', x) \<Longrightarrow> as_is disk dev dev' \<Longrightarrow> reports disk dev' (f dev' x)"
  shows "reports disk dev (r \<bind> (\<lambda>(dev', x). f dev' x))"
  using assms by (auto simp: reports_def) (metis as_is_trans)

lemma blk_read_reports: "dev_ok D disk dev \<Longrightarrow> n * sector_size dev \<le> length buf \<Longrightarrow> reports disk dev (blk_read D dev lba n buf)"
  using blk_read_ok [of D disk dev n buf lba] by (auto simp: reports_def)

lemma detect_fs_reports: "dev_ok D disk dev \<Longrightarrow> reports disk dev (detect_fs D dev lba n)"
  unfolding detect_fs_def Let_def by (auto simp: dev_ok_def intro!: reports_bind blk_read_reports)

lemma report_entries_reports: "dev_ok D disk dev \<Longrightarrow> reports disk dev (report_entries D dev es)"
proof (induction es arbitrary: dev)
  case (Cons e es)
  have "reports disk dev (report_entry D dev e)"
    unfolding report_entry_def Let_def using detect_fs_reports [OF Cons.prems]
    by (auto split: prod.splits intro!: reports_bind)
  then show ?case using Cons by (auto intro!: reports_bind dest: dev_ok_as_is)
qed simp

lemma report_mbr_entries_reports:
  "dev_ok D disk dev \<Longrightarrow> 512 \<le> length b \<Longrightarrow> list_all (\<lambda>i. i < 4) is \<Longrightarrow> reports disk dev (report_mbr_entries D b is dev)"
proof (induction "is" arbitrary: dev)
  case (Cons i "is")
  have "reports disk dev (report_mbr_entry D b i dev)"
    unfolding report_mbr_entry_def Let_def using detect_fs_reports [OF Cons.prems(1)] Cons.prems
    by (auto simp: slice_def intro!: reports_bind)
  then show ?case using Cons by (auto intro!: reports_bind dest: dev_ok_as_is)
qed simp

lemma chunk_lengths: "0 < n \<Longrightarrow> k * n \<le> length xs \<Longrightarrow> list_all (\<lambda>c. length c = n) (take k (chunks n xs))"
proof (induction k arbitrary: xs)
  case (Suc k)
  then have "chunks n xs = take n xs # chunks n (drop n xs)" by (intro chunks_step) auto
  with Suc show ?case by simp
qed simp

lemma used_entries_ok: "list_all (\<lambda>c. GPT_ENTRY_SIZE \<le> length c) cs \<Longrightarrow> used_entries i cs \<noteq> None"
proof (induction cs arbitrary: i)
  case (Cons c cs)
  then obtain es where "used_entries (i + 1) cs = Some es" by fastforce
  with Cons.prems show ?case by (simp add: gpt_entry_at_def)
qed simp

lemma report_array_reports:
  assumes "dev_ok D disk dev" "GPT_ENTRY_SIZE \<le> entry_size h" "entry_count h * entry_size h \<le> length array"
  shows "reports disk dev (report_array D dev h hok array)"
proof -
  have "0 < entry_size h" using assms(2) by (simp add: GPT_ENTRY_SIZE_def)
  from chunk_lengths [OF this assms(3)] assms(2)
  have "list_all (\<lambda>c. GPT_ENTRY_SIZE \<le> length c) (take (entry_count h) (chunks (entry_size h) array))" by (simp add: list_all_iff)
  from used_entries_ok [OF this, of 0] obtain es where "used_entries 0 (take (entry_count h) (chunks (entry_size h) array)) = Some es" by auto
  with assms report_entries_reports [OF assms(1), of es] show ?thesis
    unfolding report_array_def by (auto simp: slice_def intro!: reports_bind)
qed

lemma report_gpt_reports:
  assumes d: "dev_ok D disk dev" and b: "GPT_HEADER_SIZE \<le> length b"
  shows "reports disk dev (report_gpt D dev b)"
proof -
  obtain h where h: "gpt_header_at b = Some h" using b by (simp add: gpt_header_at_def)
  let ?n = "div_ceil (entry_count h * entry_size h) (sector_size dev)"
  have "reports disk dev (do {
      (dev, ok, array) \<leftarrow> blk_read D dev (entries_lba h) ?n (replicate (?n * sector_size dev) 0);
      if \<not> ok then Some (dev, True, m)
      else do { (dev, out) \<leftarrow> report_array D dev h hok array; Some (dev, True, out) } })"
    if "GPT_ENTRY_SIZE \<le> entry_size h" for m hok
  proof (rule reports_bind)
    show "reports disk dev (blk_read D dev (entries_lba h) ?n (replicate (?n * sector_size dev) 0))" using d by (intro blk_read_reports) auto
    fix dev' x assume r: "blk_read D dev (entries_lba h) ?n (replicate (?n * sector_size dev) 0) = Some (dev', x)" "as_is disk dev dev'"
    obtain ok array where x: "x = (ok, array)" by force
    have "length array = ?n * sector_size dev" using blk_read_ok [OF d, of ?n "replicate (?n * sector_size dev) 0" "entries_lba h"] r(1) x by auto
    then have "entry_count h * entry_size h \<le> length array" using div_ceil_ge [of "sector_size dev"] d by (simp add: dev_ok_def)
    from report_array_reports [OF dev_ok_as_is [OF d r(2)] that this]
    show "reports disk dev' (case x of (ok, array) \<Rightarrow> if \<not> ok then Some (dev', True, m)
      else do { (dev, out) \<leftarrow> report_array D dev' h hok array; Some (dev, True, out) })"
      unfolding x by (auto intro!: reports_bind)
  qed
  then show ?thesis using d h unfolding report_gpt_def Let_def by (auto simp: dev_ok_def not_less)
qed

lemma report_mbr_reports: "dev_ok D disk dev \<Longrightarrow> 512 \<le> length b \<Longrightarrow> reports disk dev (report_mbr D dev b)"
  unfolding report_mbr_def using report_mbr_entries_reports [of D disk dev b "[0..<4]"]
  by (auto simp: list_all_iff intro!: reports_bind detect_fs_reports)

lemma reports_next:
  assumes "dev_ok D disk dev" "reports disk dev r" "\<And>dev' x. r = Some (dev', x) \<Longrightarrow> dev_ok D disk dev' \<Longrightarrow> as_is disk dev dev' \<Longrightarrow> reports disk dev' (f dev' x)"
  shows "reports disk dev (r \<bind> (\<lambda>(dev', x). f dev' x))"
  using reports_bind [of disk dev r f] assms dev_ok_as_is by blast

lemma report_table_reports:
  assumes d: "dev_ok D disk dev" and s: "512 \<le> sector_size dev" and b: "length b = 2 * sector_size dev"
  shows "reports disk dev (report_table D dev b)"
proof -
  have g: "GPT_HEADER_SIZE \<le> length (drop (sector_size dev) b)" using s b by (simp add: GPT_HEADER_SIZE_def)
  have "reports disk dev (do {
     (dev, gpt, out) \<leftarrow> report_gpt D dev (drop (sector_size dev) b);
     (dev, mbr) \<leftarrow> (if gpt then Some (dev, []) else report_mbr D dev b);
     Some (dev, out @ mbr) })"
  proof (rule reports_next [OF d report_gpt_reports [OF d g]])
    fix dev' x assume "dev_ok D disk dev'"
    with s b show "reports disk dev' (case x of (gpt, out) \<Rightarrow> do {
       (dev, mbr) \<leftarrow> (if gpt then Some (dev', []) else report_mbr D dev' b); Some (dev, out @ mbr) })"
      by (auto split: prod.splits intro!: reports_bind report_mbr_reports)
  qed
  then show ?thesis using b by (simp add: report_table_def slice_def)
qed

lemma report_whole_reports: "dev_ok D disk dev \<Longrightarrow> reports disk dev (report_whole D dev)"
  unfolding report_whole_def by (auto intro!: reports_bind detect_fs_reports)

lemma report_reports:
  assumes d: "dev_ok D disk dev" and s: "512 \<le> sector_size dev"
  shows "reports disk dev (report D dev)"
  unfolding report_def
proof (rule reports_next [OF d])
  show "reports disk dev (blk_read D dev 0 2 (replicate (2 * sector_size dev) 0))" using d by (intro blk_read_reports) auto
  fix dev1 x assume r: "blk_read D dev 0 2 (replicate (2 * sector_size dev) 0) = Some (dev1, x)" "dev_ok D disk dev1" "as_is disk dev dev1"
  obtain ok b where x: "x = (ok, b)" by force
  have "length b = 2 * sector_size dev1" "512 \<le> sector_size dev1"
    using blk_read_ok [OF d, of 2 "replicate (2 * sector_size dev) 0" 0] r(1) x as_isD [OF r(3)] s by auto
  note t = report_table_reports [OF r(2) this(2,1)]
  have "reports disk dev1 (do { (dev', out) \<leftarrow> report_table D dev1 b; (dev', whole) \<leftarrow> report_whole D dev'; Some (dev', report_head dev @ out @ whole) })"
    by (rule reports_next [OF r(2) t]) (auto intro!: reports_bind report_whole_reports)
  then show "reports disk dev1 (case x of (ok, b) \<Rightarrow> if \<not> ok then Some (dev1, report_head dev @ ascii ''  can't read the first sectors'' @ [10])
     else do { (dev', out) \<leftarrow> report_table D dev1 b; (dev', whole) \<leftarrow> report_whole D dev'; Some (dev', report_head dev @ out @ whole) })"
    unfolding x by simp
qed

section \<open>Checking a driver\<close>

lemma speed_loop_reports:
  "dev_ok D disk dev \<Longrightarrow> length a = CHUNK \<Longrightarrow> reports disk dev (speed_loop D ps dev a)"
proof (induction ps arbitrary: dev a)
  case (Cons p ps)
  let ?n = "CHUNK div sector_size dev"
  have le: "?n * sector_size dev \<le> length a" using Cons.prems(2) by simp
  show ?case
    unfolding speed_loop.simps
  proof (rule reports_next [OF Cons.prems(1) blk_read_reports [OF Cons.prems(1) le]])
    fix dev1 x assume r: "blk_read D dev (p div sector_size dev) ?n a = Some (dev1, x)" "dev_ok D disk dev1"
    obtain ok a1 where x: "x = (ok, a1)" by force
    have "length a1 = CHUNK" using blk_read_ok [OF Cons.prems(1) le, of "p div sector_size dev"] r(1) x Cons.prems(2) by auto
    with Cons.IH [OF r(2)] show "reports disk dev1 (case x of (ok, a) \<Rightarrow> if \<not> ok then Some (dev1, Some p) else speed_loop D ps dev1 a)"
      unfolding x by simp
  qed
qed simp

lemma speed_check_reports: "dev_ok D disk dev \<Longrightarrow> length a = CHUNK \<Longrightarrow> reports disk dev (speed_check D ms dev a)"
  unfolding speed_check_def Let_def by (auto intro!: reports_bind speed_loop_reports split: option.splits)

lemma read_twice_reports:
  assumes d: "dev_ok D disk dev" and l: "n * sector_size dev = length a" "length b = length a"
  shows "reports disk dev (read_twice D dev n a b)" "read_twice D dev n a b = Some (dev', ok, a', b') \<Longrightarrow> length a' = length a"
proof -
  have le: "n * sector_size dev \<le> length a" using l by simp
  obtain dev1 ok1 a1 where r: "blk_read D dev 0 n a = Some (dev1, ok1, a1)" "as_is disk dev dev1" "length a1 = length a"
    using blk_read_ok [OF d le, of 0] by blast
  then have le1: "n * sector_size dev1 \<le> length b" using as_isD [OF r(2)] l by simp
  obtain dev2 ok2 b2 where r2: "blk_read D dev1 0 n b = Some (dev2, ok2, b2)" "as_is disk dev1 dev2"
    using blk_read_ok [OF dev_ok_as_is [OF d r(2)] le1, of 0] by blast
  show "reports disk dev (read_twice D dev n a b)" "read_twice D dev n a b = Some (dev', ok, a', b') \<Longrightarrow> length a' = length a"
    using r r2 as_is_trans [OF r(2) r2(2)] by (auto simp: read_twice_def split: if_splits)
qed

lemma read_check_reports:
  assumes d: "dev_ok D disk dev" and l: "length a = CHUNK" "length b = CHUNK"
  shows "reports disk dev (read_check D ms dev a b)"
proof -
  define n where "n = min (CHUNK div sector_size dev) (sector_count dev)"
  have "n * sector_size dev \<le> CHUNK div sector_size dev * sector_size dev" by (intro mult_right_mono) (auto simp: n_def)
  also have "\<dots> \<le> CHUNK" by simp
  finally have le: "n * sector_size dev \<le> CHUNK" .
  let ?a = "take (n * sector_size dev) a" and ?b = "take (n * sector_size dev) b"
  have "n * sector_size dev = length ?a" "length ?b = length ?a" using le l by simp_all
  note t = read_twice_reports [OF d this]
  have nz: "sector_size dev \<noteq> 0" using d by (simp add: dev_ok_def)
  have s: "slice a 0 (n * sector_size dev) = Some ?a" "slice b 0 (n * sector_size dev) = Some ?b" using le l by (simp_all add: slice_def)
  show ?thesis
    unfolding read_check_def Let_def if_not_P [OF nz] n_def [symmetric] s Option.bind.bind_lunit
  proof (rule reports_next [OF d t(1)])
    fix dev1 x assume r: "read_twice D dev n ?a ?b = Some (dev1, x)" "dev_ok D disk dev1"
    obtain ok a1 b1 where x: "x = (ok, a1, b1)" by (cases x)
    have "length (a1 @ drop (n * sector_size dev) a) = CHUNK" using t(2) [of dev1 ok a1 b1] r(1) x le l by simp
    note sc = speed_check_reports [OF r(2) this]
    show "reports disk dev1 (case x of (ok, a1, b1) \<Rightarrow> if \<not> ok then Some (dev1, False, says dev1 (ascii ''read failed'') @ [10])
        else if a1 \<noteq> b1 then Some (dev1, False, says dev1 (ascii ''two reads of the same sectors DIFFER'') @ [10])
        else do { (dev', ok, out) \<leftarrow> speed_check D ms dev1 (a1 @ drop (n * sector_size dev) a);
          Some (dev', ok, says dev1 (ascii ''first '' @ dec (n * sector_size dev div 1024) @ ascii '' KiB read twice, identical'') @ [10] @ out) })"
      unfolding x using sc by (auto intro!: reports_bind split: prod.splits)
  qed
qed

text \<open>A write check that succeeds has put back what it saved.\<close>

lemma restore_ok:
  assumes d: "dev_ok D disk dev" and l: "n * sector_size dev \<le> length saved" "length buf = length saved"
  shows "\<exists>dev' ok out. restore D allowed dev lba n saved buf = Some (dev', ok, out) \<and>
    (ok \<longrightarrow> disk (driver dev') = overwrite (disk (driver dev)) (lba * sector_size dev) (take (n * sector_size dev) saved))"
proof -
  obtain d1 ok1 o1 new where w: "blk_write D allowed dev lba n saved = Some (dev\<lparr>driver := d1\<rparr>, ok1, o1)"
    "ok1 \<Longrightarrow> disk d1 = overwrite (disk (driver dev)) (lba * sector_size dev) (take (n * sector_size dev) saved)"
    using blk_write_ok [OF d l(1), of allowed lba] by (auto split: if_splits)
  have d1: "dev_ok D disk (dev\<lparr>driver := d1\<rparr>)" using d by (simp add: dev_ok_def)
  have "n * sector_size (dev\<lparr>driver := d1\<rparr>) \<le> length buf" using l by simp
  from blk_read_ok [OF d1 this, of lba] obtain dev2 ok2 o2 where
    "blk_read D (dev\<lparr>driver := d1\<rparr>) lba n buf = Some (dev2, ok2, o2)" and "as_is disk (dev\<lparr>driver := d1\<rparr>) dev2" by blast
  moreover from as_isD [OF this(2)] have "disk (driver dev2) = disk d1" by simp
  ultimately show ?thesis using w by (cases ok1) (auto simp: restore_def)
qed

lemma write_check_ok:
  assumes d: "dev_ok D disk dev" and l: "length a = CHUNK" "length b = CHUNK"
  shows "\<exists>dev' ok out. write_check D allowed dev a b = Some (dev', ok, out) \<and> (ok \<longrightarrow> disk (driver dev') = disk (driver dev))"
proof -
  define n where "n = CHUNK div sector_size dev"
  define lba where "lba = unat (word_of_nat (sector_count dev div 2) AND NOT (word_of_nat n - 1 :: u64))"
  let ?sec = "sector_size dev" and ?S = "disk (driver dev)"
  have le: "n * ?sec \<le> CHUNK" by (simp add: n_def)
  have nz: "?sec \<noteq> 0" using d by (simp add: dev_ok_def)
  have la: "n * ?sec \<le> length a" using le l by simp
  obtain dev1 ok1 saved where r: "blk_read D dev lba n a = Some (dev1, ok1, saved)" "as_is disk dev dev1" "length saved = length a"
    "ok1 \<Longrightarrow> in_range dev lba n \<and> saved = take (n * ?sec) (drop (lba * ?sec) ?S) @ drop (n * ?sec) a"
    using blk_read_ok [OF d la, of lba] by blast
  note D1 = as_isD [OF r(2)] and d1 = dev_ok_as_is [OF d r(2)]
  let ?p = "map pattern [0..<length b]"
  have lp: "n * sector_size dev1 \<le> length ?p" using D1 le l by simp
  obtain d2 ok2 o2 new where w: "blk_write D allowed dev1 lba n ?p = Some (dev1\<lparr>driver := d2\<rparr>, ok2, o2)"
    "ok2 \<Longrightarrow> length new = n * ?sec \<and> disk d2 = overwrite ?S (lba * ?sec) new"
    using blk_write_ok [OF d1 lp, of allowed lba] D1 by (auto split: if_splits)
  let ?dev2 = "dev1\<lparr>driver := d2\<rparr>" and ?z = "replicate (length ?p) 0 :: bytes"
  have d2: "dev_ok D disk ?dev2" using d1 by (simp add: dev_ok_def)
  have lz: "n * sector_size ?dev2 \<le> length ?z" using lp by simp
  obtain dev3 ok3 buf where r3: "blk_read D ?dev2 lba n ?z = Some (dev3, ok3, buf)" "as_is disk ?dev2 dev3" "length buf = length ?z"
    using blk_read_ok [OF d2 lz, of lba] by blast
  note D3 = as_isD [OF r3(2)] and d3 = dev_ok_as_is [OF d2 r3(2)]
  have ls: "n * sector_size dev3 \<le> length saved" "length buf = length saved" using D1 D3 r(3) r3(3) le l by simp_all
  obtain dev4 ok4 o4 where r4: "restore D allowed dev3 lba n saved buf = Some (dev4, ok4, o4)"
    "ok4 \<Longrightarrow> disk (driver dev4) = overwrite (disk d2) (lba * ?sec) (take (n * ?sec) saved)"
    using restore_ok [OF d3 ls, of allowed lba] D1 D3 by auto
  have undone: "disk (driver dev4) = ?S" if "ok1" "ok2" "ok4"
  proof -
    have "(lba + n) * ?sec \<le> sector_count dev * ?sec" using r(4) [OF that(1)] run_bytes(2) [OF d] by (intro mult_right_mono) auto
    then have fits: "lba * ?sec + n * ?sec \<le> length ?S" using driver_length [of D disk _ _ _ "driver dev"] d by (auto simp: dev_ok_def distrib_right)
    have "take (n * ?sec) saved = take (n * ?sec) (drop (lba * ?sec) ?S)" using r(4) [OF that(1)] fits by auto
    then show ?thesis using r4(2) [OF that(3)] w(2) [OF that(2)] fits by (simp add: overwrite_over overwrite_same)
  qed
  show ?thesis
    unfolding write_check_def Let_def if_not_P [OF nz] n_def [symmetric] lba_def [symmetric]
    using r(1) w(1) r3(1) r4(1) undone D1 by (cases ok1; cases ok2) auto
qed

text \<open>
  C38: looking at a disk does not change it. Whatever its sectors hold, however malformed a partition table, the report
  that \<^verbatim>\<open>lsblk\<close> prints and the read check end without reading outside a buffer and leave every byte as it
  was. The write check is refused while writes are locked, and when it reports success the disk
  holds again exactly what it held before.
\<close>

theorem disk_kept:
  assumes "dev_ok D disk dev" "512 \<le> sector_size dev"
  shows "(\<exists>dev' out. report D dev = Some (dev', out) \<and> disk (driver dev') = disk (driver dev)) \<and>
    (\<exists>dev' ok out. disktest_run D allowed ms dev write = Some (dev', ok, out) \<and>
      (\<not> write \<or> \<not> allowed \<or> ok \<longrightarrow> disk (driver dev') = disk (driver dev)))"
proof
  show "\<exists>dev' out. report D dev = Some (dev', out) \<and> disk (driver dev') = disk (driver dev)"
    using report_reports [OF assms] as_isD unfolding reports_def by blast
  have "\<exists>dev' ok out. read_check D ms dev (replicate CHUNK 0) (replicate CHUNK 0) = Some (dev', ok, out) \<and> disk (driver dev') = disk (driver dev)"
    using read_check_reports [OF assms(1), of "replicate CHUNK 0" "replicate CHUNK 0" ms] as_isD unfolding reports_def by (metis length_replicate prod.exhaust)
  then show "\<exists>dev' ok out. disktest_run D allowed ms dev write = Some (dev', ok, out) \<and>
      (\<not> write \<or> \<not> allowed \<or> ok \<longrightarrow> disk (driver dev') = disk (driver dev))"
    using write_check_ok [OF assms(1), of "replicate CHUNK 0" "replicate CHUNK 0" allowed] by (auto simp: disktest_run_def Let_def)
qed

text \<open>A disk in memory: a driver that keeps the contract.\<close>

definition ram_bytes :: "nat \<Rightarrow> bytes \<Rightarrow> bytes" where
  "ram_bytes len s = take len (s @ replicate len 0)"

definition ram_driver :: "nat \<Rightarrow> nat \<Rightarrow> bytes bdriver" where
  "ram_driver sec cnt = \<lparr>d_read = (\<lambda>s lba n buf. (s, True, take (n * sec) (drop (lba * sec) (ram_bytes (cnt * sec) s)))),
     d_write = (\<lambda>s lba n buf. (overwrite (ram_bytes (cnt * sec) s) (lba * sec) buf, True))\<rparr>"

lemma length_ram [simp]: "length (ram_bytes len s) = len"
  by (simp add: ram_bytes_def)

lemma ram_id: "length s = len \<Longrightarrow> ram_bytes len s = s"
  by (simp add: ram_bytes_def)

lemma ram_driver_ok: "driver_ok (ram_driver sec cnt) (ram_bytes (cnt * sec)) sec cnt mx"
  unfolding driver_ok_def
proof (intro conjI allI impI)
  fix d buf d' ok and lba n :: nat
  assume "lba + n \<le> cnt" and l: "length (buf :: bytes) = n * sec"
  then have "(lba + n) * sec \<le> cnt * sec" by (intro mult_right_mono) auto
  then have fits: "lba * sec + n * sec \<le> cnt * sec" by (simp add: distrib_right)
  show "\<exists>new. length new = length buf \<and> ram_bytes (cnt * sec) d' = overwrite (ram_bytes (cnt * sec) d) (lba * sec) new \<and> (ok \<longrightarrow> new = buf)"
    if "d_write (ram_driver sec cnt) d lba n buf = (d', ok)"
    using that l fits by (auto simp: ram_driver_def ram_id length_overwrite)
  fix out
  assume "d_read (ram_driver sec cnt) d lba n buf = (d', ok, out)"
  with l fits show "ram_bytes (cnt * sec) d' = ram_bytes (cnt * sec) d" "length out = length buf"
    "ok \<Longrightarrow> out = take (n * sec) (drop (lba * sec) (ram_bytes (cnt * sec) d))" by (auto simp: ram_driver_def)
qed simp

definition demo_disk :: "bytes bdevice" where
  "demo_disk = \<lparr>bname = ascii ''usb0'', model = [], sector_size = 512, sector_count = 8, max_sectors = 3, driver = []\<rparr>"

lemma demo_disk_ok: "dev_ok (ram_driver 512 8) (ram_bytes (8 * 512)) demo_disk"
  using ram_driver_ok [of 512 8 3] by (simp add: dev_ok_def demo_disk_def)

theorem block_transfers_witness:
  "\<exists>dev' ok out. blk_read (ram_driver 512 8) demo_disk 2 5 (replicate 2560 0) = Some (dev', ok, out) \<and>
     ram_bytes (8 * 512) (driver dev') = ram_bytes (8 * 512) (driver demo_disk)"
  using block_transfers [OF demo_disk_ok, of "replicate 2560 0" 5 2 False] by (auto simp: demo_disk_def)

theorem disk_kept_witness:
  "\<exists>dev' out. report (ram_driver 512 8) demo_disk = Some (dev', out) \<and> ram_bytes (8 * 512) (driver dev') = ram_bytes (8 * 512) (driver demo_disk)"
  using disk_kept [OF demo_disk_ok, of False 0 False] by (simp add: demo_disk_def)

text \<open>
  The write check does not restore the disk when its own write fails half way: over a driver that stores what it is given and then
  reports an error, the pattern stays.
\<close>

definition failing_driver :: "nat \<Rightarrow> nat \<Rightarrow> bytes bdriver" where
  "failing_driver sec cnt = (ram_driver sec cnt)\<lparr>d_write := (\<lambda>s lba n buf. (overwrite (ram_bytes (cnt * sec) s) (lba * sec) buf, False))\<rparr>"

definition big_disk :: "bytes bdevice" where
  "big_disk = \<lparr>bname = ascii ''usb0'', model = [], sector_size = 512, sector_count = 8192, max_sectors = 2048, driver = []\<rparr>"

lemma one_piece: "xs \<noteq> [] \<Longrightarrow> length xs \<le> n \<Longrightarrow> chunks n xs = [xs]"
  using chunks_step [of n xs] by (cases n) simp_all

lemma disktest_leaves_pattern:
  "\<exists>dev' out. disktest_run (failing_driver 512 8192) True 0 big_disk True = Some (dev', False, out) \<and>
     ram_bytes (8192 * 512) (driver dev') \<noteq> ram_bytes (8192 * 512) (driver big_disk)"
proof -
  let ?D = "failing_driver 512 8192" and ?z = "replicate CHUNK 0 :: bytes" and ?p = "map pattern [0..<CHUNK]"
  have c: "CHUNK div 512 = 2048" "2048 * 512 = CHUNK" by (simp_all add: CHUNK_def)
  have ne: "?z \<noteq> []" "?p \<noteq> []" by (simp_all add: CHUNK_def)
  have lba: "unat (word_of_nat 4096 AND NOT (word_of_nat 2048 - 1 :: u64)) = 4096" by simp
  let ?z' = "take CHUNK (drop (4096 * 512) (ram_bytes (8192 * 512) []))"
  have r: "blk_read ?D big_disk 4096 2048 ?z = Some (big_disk, True, ?z')"
    using one_piece [OF ne(1)] by (simp add: blk_read_def in_range_def big_disk_def c failing_driver_def ram_driver_def CHUNK_def)
  have w: "blk_write ?D True big_disk 4096 2048 ?p = Some (big_disk\<lparr>driver := overwrite (ram_bytes (8192 * 512) []) (4096 * 512) ?p\<rparr>, False, [])"
    using one_piece [OF ne(2)] by (simp add: blk_write_def in_range_def big_disk_def c failing_driver_def ram_driver_def CHUNK_def)
  let ?s = "overwrite (ram_bytes (8192 * 512) []) (4096 * 512) ?p"
  have l: "length ?s = 8192 * 512" by (simp add: length_overwrite CHUNK_def)
  have "?s ! (4096 * 512) = pattern 0" by (simp add: overwrite_def nth_append CHUNK_def)
  moreover have "ram_bytes (8192 * 512) [] ! (4096 * 512) = 0" by (simp add: ram_bytes_def)
  moreover have "pattern 0 \<noteq> 0" by (simp add: pattern_def)
  ultimately have "?s \<noteq> ram_bytes (8192 * 512) []" by metis
  then have "ram_bytes (8192 * 512) ?s \<noteq> ram_bytes (8192 * 512) []" using ram_id [OF l] by simp
  moreover have "driver big_disk = []" "sector_size big_disk = 512" "sector_count big_disk = 8192" by (simp_all add: big_disk_def)
  ultimately show ?thesis using r w lba
    by (simp add: disktest_run_def write_check_def Let_def c)
qed

end
