(* ===== verification/Play.thy ===== *)
theory Play
  imports Anssos "HOL-Library.Signed_Division"
begin

text \<open>
  The audio player, \<^verbatim>\<open>userland/rust/play/src\<close>: track sources (\<^verbatim>\<open>source.rs\<close>), the spectrum (\<^verbatim>\<open>spectrum.rs\<close>) and the
  player loop (\<^verbatim>\<open>lib.rs\<close>). The MP3 decoder (the C library minimp3), the audio device and the screen are
  parameters. Samples are integers in the range of \<^verbatim>\<open>i16\<close>; the 64-bit arithmetic of the spectrum wraps. \<open>None\<close>
  is a panic or a loop that does not end.
\<close>

section \<open>Tracks\<close>

definition SEEK_SET :: nat where "SEEK_SET = 0"
definition SEEK_CUR :: nat where "SEEK_CUR = 1"
definition SEEK_END :: nat where "SEEK_END = 2"

record track_info =
  rate :: nat
  channels :: nat
  total_secs :: nat
  mp3_kbps :: nat

definition MAX_SAMPLES_PER_FRAME :: nat where "MAX_SAMPLES_PER_FRAME = 1152 * 2"
definition IN_BYTES :: nat where "IN_BYTES = 16 * 1024"

record frame_info =
  frame_bytes :: int
  frame_offset :: int
  fchannels :: int
  hz :: int
  layer :: int
  bitrate_kbps :: int

definition frame_info_default :: frame_info where
  "frame_info_default = \<lparr>frame_bytes = 0, frame_offset = 0, fchannels = 0, hz = 0, layer = 0, bitrate_kbps = 0\<rparr>"

text \<open>
  The decoder: its initial state, and one call, which gets the input, the old samples and the old
  \<^verbatim>\<open>FrameInfo\<close> and gives the number of samples per channel, the new \<^verbatim>\<open>FrameInfo\<close>, state and samples.
  A negative size, which the decoder never gives, counts as a failure.
\<close>

record 'm codec =
  m_init :: 'm
  m_decode :: "'m \<Rightarrow> bytes \<Rightarrow> int list \<Rightarrow> frame_info \<Rightarrow> int \<times> frame_info \<times> 'm \<times> int list"

record 'm mp3_stream =
  mfile :: int
  mdec :: 'm
  input :: bytes
  in_pos :: nat
  in_len :: nat
  meof :: bool
  last_frame :: "nat \<times> nat"
  mpcm :: "int list"
  pcm_len :: nat
  pcm_pos :: nat
  mrate :: nat
  mchannels :: nat

datatype 'm source = Wav int nat | Mp3 "'m mp3_stream"

type_synonym 'm opened = "bytes + 'm source \<times> track_info"

section \<open>WAV\<close>

definition u16le :: "bytes \<Rightarrow> nat" where
  "u16le b = of_le (take 2 b)"

definition u32le :: "bytes \<Rightarrow> nat" where
  "u32le b = of_le (take 4 b)"

definition bad_wav :: bytes where
  "bad_wav = ascii ''not a valid WAV file''"

definition wav_unsupported :: "nat \<Rightarrow> nat \<Rightarrow> nat \<Rightarrow> nat \<Rightarrow> bytes" where
  "wav_unsupported fmt ch rt bits = ascii ''unsupported format (fmt='' @ dec fmt @ ascii '' bits='' @ dec bits @ ascii '' ch='' @ dec ch @
     ascii '' rate='' @ dec rt @ ascii '') -- need PCM/16-bit/mono-or-stereo/44100-or-48000''"

text \<open>The \<^verbatim>\<open>data\<close> chunk: the file is left at its first byte.\<close>

definition wav_data :: "'k sys \<Rightarrow> 'k \<Rightarrow> int \<Rightarrow> nat \<Rightarrow> (nat \<times> nat \<times> nat \<times> nat) option \<Rightarrow> 'k \<times> 'm opened" where
  "wav_data S k fd size' fmt =
     (case fmt of None \<Rightarrow> (s_close S k fd, Inl bad_wav)
      | Some (format, ch, rt, bits) \<Rightarrow>
          if format \<noteq> 1 \<or> bits \<noteq> 16 \<or> \<not> (ch = 1 \<or> ch = 2) \<or> \<not> (rt = 44100 \<or> rt = 48000)
          then (s_close S k fd, Inl (wav_unsupported format ch rt bits))
          else let (k, data_start) = file_seek S k fd 0 SEEK_CUR;
                   (k, file_end) = file_seek S k fd 0 SEEK_END;
                   (k, _) = file_seek S k fd data_start SEEK_SET;
                   real = nat (max 0 (file_end - data_start) mod 2 ^ 32);
                   data_bytes = min size' real
               in (k, Inr (Wav fd data_bytes, \<lparr>rate = rt, channels = ch, total_secs = data_bytes div (rt * ch * 2), mp3_kbps = 0\<rparr>)))"

text \<open>The walk over the chunks.\<close>

partial_function (option) wav_chunks :: "'k sys \<Rightarrow> 'k \<Rightarrow> int \<Rightarrow> (nat \<times> nat \<times> nat \<times> nat) option \<Rightarrow> ('k \<times> 'm opened) option" where
  "wav_chunks S k fd fmt = do {
     (k, chunk) \<leftarrow> read_full S k fd 8 [];
     if length chunk \<noteq> 8 then Some (s_close S k fd, Inl bad_wav)
     else let size' = u32le (drop 4 chunk); tag = take 4 chunk
          in if tag = ascii ''fmt '' then
               (if size' < 16 then Some (s_close S k fd, Inl bad_wav)
                else do {
                  (k, f) \<leftarrow> read_full S k fd 16 [];
                  if length f \<noteq> 16 then Some (s_close S k fd, Inl bad_wav)
                  else let (k, _) = file_seek S k fd (int (size' - 16) + int (size' mod 2)) SEEK_CUR
                       in wav_chunks S k fd (Some (u16le f, u16le (drop 2 f), u32le (drop 4 f), u16le (drop 14 f))) })
             else if tag = ascii ''data'' then Some (wav_data S k fd size' fmt)
             else let (k, _) = file_seek S k fd (int size' + int (size' mod 2)) SEEK_CUR
                  in wav_chunks S k fd fmt }"

definition open_wav :: "'k sys \<Rightarrow> 'k \<Rightarrow> int \<Rightarrow> ('k \<times> 'm opened) option" where
  "open_wav S k fd = do {
     (k, hdr) \<leftarrow> read_full S k fd 12 [];
     if length hdr \<noteq> 12 \<or> take 4 hdr \<noteq> ascii ''RIFF'' \<or> drop 8 hdr \<noteq> ascii ''WAVE''
     then Some (s_close S k fd, Inl bad_wav)
     else wav_chunks S k fd None }"

section \<open>MP3\<close>

text \<open>The buffered input moved to the front and filled up from the file.\<close>

definition refill :: "'k sys \<Rightarrow> 'k \<Rightarrow> 'm mp3_stream \<Rightarrow> ('k \<times> 'm mp3_stream) option" where
  "refill S k s =
     (if in_pos s > in_len s \<or> in_len s > length (input s) then None
      else if \<not> meof s \<and> in_len s - in_pos s < IN_BYTES div 2 then
        let n = in_len s - in_pos s;
            inp = drop (in_pos s) (take (in_len s) (input s)) @ drop n (input s)
        in do {
          (k, got) \<leftarrow> read_full S k (mfile s) (length inp - n) [];
          let len = n + length got;
          Some (k, s\<lparr>input := take n inp @ got @ drop len inp, in_pos := 0, in_len := len,
            meof := (len < IN_BYTES)\<rparr>) }
      else Some (k, s))"

partial_function (option) decode_frame ::
    "'m codec \<Rightarrow> 'k sys \<Rightarrow> 'k \<Rightarrow> 'm mp3_stream \<Rightarrow> frame_info \<Rightarrow> ('k \<times> 'm mp3_stream \<times> frame_info \<times> nat) option" where
  "decode_frame C S k s info = do {
     (k, s) \<leftarrow> refill S k s;
     let avail = in_len s - in_pos s;
     if avail = 0 then Some (k, s, info, 0)
     else let (samples, info, m, pcm) = m_decode C (mdec s) (take avail (drop (in_pos s) (input s))) (mpcm s) info;
              s = s\<lparr>mdec := m, mpcm := pcm\<rparr>
          in if frame_bytes info = 0 then
               (if meof s then Some (k, s, info, 0) else decode_frame C S k (s\<lparr>in_pos := in_len s\<rparr>) info)
             else if frame_bytes info < 0 \<or> frame_offset info < 0 then None
             else let start = in_pos s + nat (frame_offset info);
                      s = s\<lparr>in_pos := in_pos s + nat (frame_bytes info), last_frame := (start, in_pos s + nat (frame_bytes info))\<rparr>
                  in if samples > 0 then Some (k, s, info, nat samples) else decode_frame C S k s info }"

definition id3v2_size :: "'k sys \<Rightarrow> 'k \<Rightarrow> int \<Rightarrow> ('k \<times> nat) option" where
  "id3v2_size S k fd = (let (k, _) = file_seek S k fd 0 SEEK_SET in do {
     (k, h) \<leftarrow> read_full S k fd 10 [];
     if length h \<noteq> 10 \<or> take 3 h \<noteq> ascii ''ID3'' then Some (k, 0)
     else let body = foldl (\<lambda>acc b. acc * 128 + unat (b AND 0x7F)) 0 (take 4 (drop 6 h))
          in Some (k, 10 + body + (if (h ! 5) AND 0x10 \<noteq> 0 then 10 else 0)) })"

definition be32 :: "bytes \<Rightarrow> nat" where
  "be32 b = of_le (rev (take 4 b))"

fun find_map :: "('a \<Rightarrow> 'b option) \<Rightarrow> 'a list \<Rightarrow> 'b option" where
  "find_map f [] = None"
| "find_map f (x # xs) = (case f x of None \<Rightarrow> find_map f xs | Some y \<Rightarrow> Some y)"

definition xing_at :: "bytes \<Rightarrow> nat \<Rightarrow> nat option" where
  "xing_at frame off =
     (let tag = take 4 (drop off frame)
      in if tag \<noteq> ascii ''Xing'' \<and> tag \<noteq> ascii ''Info'' then None
         else if odd (be32 (drop (off + 4) frame)) then Some (be32 (drop (off + 8) frame)) else None)"

definition xing_frame_count :: "bytes \<Rightarrow> nat option" where
  "xing_frame_count frame = find_map (xing_at frame) [4..<min (length frame - 12) 48]"

definition mp3_new :: "'m codec \<Rightarrow> int \<Rightarrow> 'm mp3_stream" where
  "mp3_new C fd = \<lparr>mfile = fd, mdec = m_init C, input = replicate IN_BYTES 0, in_pos = 0, in_len = 0, meof = False,
     last_frame = (0, 0), mpcm = replicate MAX_SAMPLES_PER_FRAME 0, pcm_len = 0, pcm_pos = 0, mrate = 0, mchannels = 0\<rparr>"

definition mp3_secs :: "nat option \<Rightarrow> nat \<Rightarrow> frame_info \<Rightarrow> int \<Rightarrow> nat \<Rightarrow> nat" where
  "mp3_secs xing samples info file_end audio_start =
     (case xing of
        Some frames \<Rightarrow> frames * samples div nat (hz info) mod 2 ^ 32
      | None \<Rightarrow> if bitrate_kbps info > 0 \<and> file_end > int audio_start
                then nat ((file_end - int audio_start) div (bitrate_kbps info * 125)) mod 2 ^ 32 else 0)"

definition mp3_open :: "'m codec \<Rightarrow> 'k sys \<Rightarrow> 'k \<Rightarrow> int \<Rightarrow> ('k \<times> 'm opened) option" where
  "mp3_open C S k fd = do {
     (k, audio_start) \<leftarrow> id3v2_size S k fd;
     let (k, file_end) = file_seek S k fd 0 SEEK_END;
     let (k, _) = file_seek S k fd (int audio_start) SEEK_SET;
     (k, s, info, samples) \<leftarrow> decode_frame C S k (mp3_new C fd) frame_info_default;
     if samples = 0 then Some (s_close S k fd, Inl (ascii ''no decodable MP3 audio found''))
     else if hz info \<noteq> 44100 \<and> hz info \<noteq> 48000
     then Some (s_close S k fd, Inl (ascii ''unsupported MP3 sample rate '' @ dec_int (hz info) @ ascii '' Hz -- need 44100 or 48000''))
     else do {
       let s = s\<lparr>mrate := nat (hz info), mchannels := nat (fchannels info mod 2 ^ 32)\<rparr>;
       let s = s\<lparr>pcm_len := samples * mchannels s * 2\<rparr>;
       first \<leftarrow> slice (input s) (fst (last_frame s)) (snd (last_frame s));
       let secs = mp3_secs (xing_frame_count first) samples info file_end audio_start;
       Some (k, Inr (Mp3 s, \<lparr>rate = mrate s, channels = mchannels s, total_secs = secs, mp3_kbps = nat (bitrate_kbps info mod 2 ^ 32)\<rparr>)) } }"

text \<open>The next frame of the track's own rate and channels, if the decoded samples are used up.\<close>

partial_function (option) next_pcm :: "'m codec \<Rightarrow> 'k sys \<Rightarrow> 'k \<Rightarrow> 'm mp3_stream \<Rightarrow> ('k \<times> 'm mp3_stream \<times> bool) option" where
  "next_pcm C S k s =
     (if pcm_pos s \<noteq> pcm_len s then Some (k, s, True)
      else do {
        (k, s, info, samples) \<leftarrow> decode_frame C S k s frame_info_default;
        if samples = 0 then Some (k, s, False)
        else if hz info mod 2 ^ 32 \<noteq> int (mrate s) \<or> fchannels info mod 2 ^ 32 \<noteq> int (mchannels s) then next_pcm C S k s
        else next_pcm C S k (s\<lparr>pcm_pos := 0, pcm_len := samples * mchannels s * 2\<rparr>) })"

definition sample_bytes :: "int \<Rightarrow> bytes" where
  "sample_bytes v = to_le 2 (nat (v mod 2 ^ 16))"

definition mp3_read_pcm :: "'m codec \<Rightarrow> 'k sys \<Rightarrow> 'k \<Rightarrow> 'm mp3_stream \<Rightarrow> bytes \<Rightarrow> ('k \<times> 'm mp3_stream \<times> nat \<times> bytes) option" where
  "mp3_read_pcm C S k s buf = do {
     (k, s, more) \<leftarrow> next_pcm C S k s;
     if \<not> more then Some (k, s, 0, buf)
     else if pcm_pos s > pcm_len s then None
     else let n = min (pcm_len s - pcm_pos s) (length buf)
          in if pcm_pos s div 2 + n div 2 > length (mpcm s) then None
             else Some (k, s\<lparr>pcm_pos := pcm_pos s + n\<rparr>, n,
               concat (map sample_bytes (take (n div 2) (drop (pcm_pos s div 2) (mpcm s)))) @ drop (2 * (n div 2)) buf) }"

section \<open>Sources\<close>

definition with_name :: "bytes \<Rightarrow> 'm opened \<Rightarrow> 'm opened" where
  "with_name name r = (case r of Inl e \<Rightarrow> Inl (name @ ascii '': '' @ e) | Inr x \<Rightarrow> Inr x)"

definition source_open :: "'m codec \<Rightarrow> 'k sys \<Rightarrow> 'k \<Rightarrow> bytes \<Rightarrow> bytes \<Rightarrow> ('k \<times> 'm opened) option" where
  "source_open C S k path name =
     (let (k, f) = file_open S k path
      in case f of None \<Rightarrow> Some (k, Inl (ascii ''cannot open '' @ name))
         | Some fd \<Rightarrow> do {
             (k, magic) \<leftarrow> read_full S k fd 4 [];
             if length magic \<noteq> 4 then Some (s_close S k fd, Inl (name @ ascii '': not a WAV or MP3 file''))
             else let (k, _) = file_seek S k fd 0 SEEK_SET
                  in if magic = ascii ''RIFF'' then do { (k, r) \<leftarrow> open_wav S k fd; Some (k, with_name name r) }
                     else if take 3 magic = ascii ''ID3'' \<or> (magic ! 0 = 0xFF \<and> (magic ! 1) AND 0xE0 = 0xE0)
                     then do { (k, r) \<leftarrow> mp3_open C S k fd; Some (k, with_name name r) }
                     else Some (s_close S k fd, Inl (name @ ascii '': not a WAV or MP3 file'')) })"

definition source_drop :: "'k sys \<Rightarrow> 'k \<Rightarrow> 'm source \<Rightarrow> 'k" where
  "source_drop S k src = (case src of Wav fd _ \<Rightarrow> s_close S k fd | Mp3 s \<Rightarrow> s_close S k (mfile s))"

definition source_read_pcm :: "'m codec \<Rightarrow> 'k sys \<Rightarrow> 'k \<Rightarrow> 'm source \<Rightarrow> bytes \<Rightarrow> nat \<Rightarrow> ('k \<times> 'm source \<times> nat \<times> bytes) option" where
  "source_read_pcm C S k src buf frame_sz =
     (case src of
        Wav fd remaining \<Rightarrow>
          if frame_sz = 0 then None
          else let want = min remaining (length buf); want = want - want mod frame_sz
               in if want = 0 then Some (k, src, 0, buf)
                  else let (k, d) = file_read S k fd want
                       in Some (k, Wav fd (remaining - length d), length d, d @ drop (length d) buf)
      | Mp3 s \<Rightarrow> do { (k, s, n, buf) \<leftarrow> mp3_read_pcm C S k s buf; Some (k, Mp3 s, n, buf) })"

section \<open>The spectrum\<close>

definition N_BANDS :: nat where "N_BANDS = 20"
definition MAX_LEVEL :: nat where "MAX_LEVEL = 20"
definition LEVEL_FLOOR :: int where "LEVEL_FLOOR = 25"
definition DECAY :: nat where "DECAY = 3"
definition PEAK_HOLD :: nat where "PEAK_HOLD = 15"

definition COEFF_44100 :: "int list" where
  "COEFF_44100 = [65534, 65532, 65529, 65525, 65518, 65507, 65488, 65456, 65404, 65319, 65177, 64945, 64561, 63929,
     62892, 61191, 58418, 53929, 46759, 35556]"

definition COEFF_48000 :: "int list" where
  "COEFF_48000 = [65534, 65533, 65530, 65527, 65521, 65511, 65495, 65469, 65425, 65353, 65233, 65037, 64713, 64179,
     63302, 61862, 59510, 55692, 49560, 39896]"

record spectrum =
  levels :: "nat list"
  peaks :: "nat list"
  peak_age :: "nat list"
  mono :: "int list"

definition spectrum_new :: spectrum where
  "spectrum_new = \<lparr>levels = replicate N_BANDS 0, peaks = replicate N_BANDS 0, peak_age = replicate N_BANDS 0, mono = replicate 2048 0\<rparr>"

definition wrap64 :: "int \<Rightarrow> int" where
  "wrap64 z = sint (word_of_int z :: 64 word)"

definition i16_le :: "bytes \<Rightarrow> int" where
  "i16_le b = sint (word_of_nat (of_le b) :: 16 word)"

text \<open>Two bytes of the chunk, indexed: \<open>None\<close> is the panic of an index out of range.\<close>

definition sample_at :: "bytes \<Rightarrow> nat \<Rightarrow> int option" where
  "sample_at pcm k = (if k < length pcm \<and> k + 1 < length pcm then Some (i16_le [pcm ! k, pcm ! (k + 1)]) else None)"

text \<open>One step of the filter, and the power it ends with.\<close>

definition goertzel_step :: "int \<Rightarrow> int \<times> int \<Rightarrow> int \<Rightarrow> int \<times> int" where
  "goertzel_step coeff st x = (wrap64 (x + wrap64 (coeff * fst st) div 2 ^ 15 - snd st), fst st)"

definition goertzel_power :: "int \<Rightarrow> int list \<Rightarrow> nat" where
  "goertzel_power coeff xs =
     (let (s1, s2) = foldl (goertzel_step coeff) (0, 0) xs
      in nat (max 0 (wrap64 (s1 * s1 + s2 * s2 - wrap64 (coeff * s1) div 2 ^ 15 * s2))))"

fun bit_len :: "nat \<Rightarrow> nat" where
  "bit_len n = (if n = 0 then 0 else Suc (bit_len (n div 2)))"

declare bit_len.simps [simp del]

definition band_target :: "int \<Rightarrow> int list \<Rightarrow> nat" where
  "band_target coeff xs = nat (min (max (int (bit_len (goertzel_power coeff xs)) - LEVEL_FLOOR) 0) (int MAX_LEVEL))"

definition update_band :: "nat \<Rightarrow> nat \<times> nat \<times> nat \<Rightarrow> nat \<times> nat \<times> nat" where
  "update_band target band =
     (let (level, peak, age) = band;
          level = max target (level - DECAY)
      in if level \<ge> peak then (level, level, 0)
         else if age < PEAK_HOLD then (level, peak, age + 1)
         else (level, peak - 1, age))"

definition mix :: "bytes \<Rightarrow> nat \<Rightarrow> nat \<Rightarrow> int option" where
  "mix pcm ch i =
     (let b = i * (ch * 2)
      in if ch = 2 then do { x \<leftarrow> sample_at pcm b; y \<leftarrow> sample_at pcm (b + 2); Some ((x + y) sdiv 2) } else sample_at pcm b)"

text \<open>The loop that mixes the frames down into \<^verbatim>\<open>mono\<close>.\<close>

fun mix_loop :: "bytes \<Rightarrow> nat \<Rightarrow> nat list \<Rightarrow> int list \<Rightarrow> int list option" where
  "mix_loop pcm ch [] m = Some m"
| "mix_loop pcm ch (i # is) m = do {
     x \<leftarrow> mix pcm ch i;
     if i < length m then mix_loop pcm ch is (m[i := x]) else None }"

definition coeffs_of :: "nat \<Rightarrow> int list" where
  "coeffs_of rt = (if rt = 48000 then COEFF_48000 else COEFF_44100)"

definition spectrum_update :: "spectrum \<Rightarrow> bytes \<Rightarrow> nat \<Rightarrow> nat \<Rightarrow> spectrum option" where
  "spectrum_update sp pcm ch rt =
     (if ch * 2 = 0 then None
      else do {
        let frames = min (length pcm div (ch * 2)) (length (mono sp));
        m \<leftarrow> mix_loop pcm ch [0..<frames] (mono sp);
        samples \<leftarrow> slice m 0 frames;
        let bands = map2 update_band (map (\<lambda>c. band_target c samples) (coeffs_of rt)) (zip (levels sp) (zip (peaks sp) (peak_age sp)));
        Some (sp\<lparr>levels := map fst bands, peaks := map (\<lambda>b. fst (snd b)) bands, peak_age := map (\<lambda>b. snd (snd b)) bands, mono := m\<rparr>) })"

section \<open>Playing\<close>

definition CHUNK_BYTES :: nat where "CHUNK_BYTES = 4096"

definition scale_sample :: "int \<Rightarrow> int \<Rightarrow> int" where
  "scale_sample vol v = min (max ((v * vol) sdiv 100) (- 32768)) 32767"

definition apply_volume :: "bytes \<Rightarrow> int \<Rightarrow> bytes" where
  "apply_volume pcm vol =
     (if vol = 100 then pcm
      else concat (map (\<lambda>i. sample_bytes (scale_sample vol (i16_le (take 2 (drop (2 * i) pcm))))) [0..<length pcm div 2]) @
        drop (2 * (length pcm div 2)) pcm)"

datatype play_outcome = Finished | Quit

record view =
  v_name :: bytes
  v_idx :: nat
  v_count :: nat
  v_info :: track_info
  v_elapsed :: nat
  v_volume :: int
  v_paused :: bool
  v_levels :: "nat list"
  v_peaks :: "nat list"

text \<open>The audio device's calls and the screen.\<close>

record 'k device =
  a_open :: "'k \<Rightarrow> nat \<Rightarrow> nat \<Rightarrow> 'k \<times> int"
  a_write :: "'k \<Rightarrow> bytes \<Rightarrow> 'k \<times> int"
  a_close :: "'k \<Rightarrow> 'k"
  a_init :: "'k \<Rightarrow> 'k"
  a_draw :: "'k \<Rightarrow> view \<Rightarrow> 'k"
  a_restore :: "'k \<Rightarrow> 'k"

record 'm player =
  pl_source :: "'m source"
  pl_view :: view
  pl_played :: nat
  pl_spectrum :: spectrum
  pl_chunk :: bytes

definition pl_draw :: "'k device \<Rightarrow> 'k \<Rightarrow> 'm player \<Rightarrow> 'k" where
  "pl_draw A k p =
     (let i = v_info (pl_view p)
      in a_draw A k ((pl_view p)\<lparr>v_elapsed := pl_played p div (rate i * (channels i * 2)) mod 2 ^ 32,
           v_levels := levels (pl_spectrum p), v_peaks := peaks (pl_spectrum p)\<rparr>))"

datatype key_result = KQuit | KNext | KPlay

text \<open>The keys between two chunks: it stays here while the track is paused.\<close>

partial_function (option) key_loop :: "'k sys \<Rightarrow> 'k device \<Rightarrow> 'k \<Rightarrow> 'm player \<Rightarrow> ('k \<times> 'm player \<times> key_result) option" where
  "key_loop S A k p =
     (let (k, key) = poll_key S k; v = pl_view p
      in if key = Key 113 \<or> key = KeyClosed then Some (k, p, KQuit)
         else if key = Key 110 then Some (k, p, KNext)
         else let v' = (if key = Key 32 then v\<lparr>v_paused := \<not> v_paused v\<rparr>
                        else if key = Key 43 then v\<lparr>v_volume := min (v_volume v + 10) 200\<rparr>
                        else if key = Key 45 then v\<lparr>v_volume := max (v_volume v - 10) 0\<rparr> else v);
                  p = p\<lparr>pl_view := v'\<rparr>;
                  k = (if key = Key 32 \<or> key = Key 43 \<or> key = Key 45 then pl_draw A k p else k)
              in if \<not> v_paused v' then Some (k, p, KPlay) else key_loop S A (s_yield S k) p)"

partial_function (option) play_loop :: "'m codec \<Rightarrow> 'k sys \<Rightarrow> 'k device \<Rightarrow> 'k \<Rightarrow> 'm player \<Rightarrow> ('k \<times> 'm player \<times> play_outcome) option" where
  "play_loop C S A k p = do {
     (k, p, r) \<leftarrow> key_loop S A k p;
     case r of KQuit \<Rightarrow> Some (k, p, Quit) | KNext \<Rightarrow> Some (k, p, Finished)
     | KPlay \<Rightarrow> do {
         let i = v_info (pl_view p);
         (k, src, n, chunk) \<leftarrow> source_read_pcm C S k (pl_source p) (pl_chunk p) (channels i * 2);
         let p = p\<lparr>pl_source := src, pl_chunk := chunk\<rparr>;
         if n = 0 then Some (k, p, Finished)
         else do {
           pcm \<leftarrow> slice chunk 0 n;
           let pcm = apply_volume pcm (v_volume (pl_view p));
           sp \<leftarrow> spectrum_update (pl_spectrum p) pcm (channels i) (rate i);
           let p = p\<lparr>pl_chunk := pcm @ drop n chunk, pl_spectrum := sp\<rparr>;
           let (k, w) = a_write A k pcm;
           if w < 0 then Some (k, p, Finished)
           else let p = p\<lparr>pl_played := pl_played p + n\<rparr> in play_loop C S A (pl_draw A k p) p } } }"

definition play_track ::
    "'m codec \<Rightarrow> 'k sys \<Rightarrow> 'k device \<Rightarrow> 'k \<Rightarrow> bytes \<Rightarrow> bytes \<Rightarrow> nat \<Rightarrow> nat \<Rightarrow> int \<Rightarrow> ('k \<times> int \<times> (bytes + play_outcome)) option" where
  "play_track C S A k path name idx cnt vol = do {
     (k, r) \<leftarrow> source_open C S k path name;
     case r of Inl e \<Rightarrow> Some (k, vol, Inl e)
     | Inr (src, info) \<Rightarrow>
         let (k, ok) = a_open A k (rate info) (channels info)
         in if ok \<noteq> 0 then Some (source_drop S k src, vol,
                 Inl (ascii ''audio_open failed (rate='' @ dec (rate info) @ ascii '' channels='' @ dec (channels info) @ ascii '')''))
            else if rate info * (channels info * 2) = 0 then None
            else let v = \<lparr>v_name = name, v_idx = idx, v_count = cnt, v_info = info, v_elapsed = 0, v_volume = vol, v_paused = False,
                       v_levels = [], v_peaks = []\<rparr>;
                     p = \<lparr>pl_source = src, pl_view = v, pl_played = 0, pl_spectrum = spectrum_new, pl_chunk = replicate CHUNK_BYTES 0\<rparr>
                 in do {
                   (k, p, out) \<leftarrow> play_loop C S A (pl_draw A k p) p;
                   Some (source_drop S (a_close A k) (pl_source p), v_volume (pl_view p), Inr out) } }"

fun play_tracks :: "'m codec \<Rightarrow> 'k sys \<Rightarrow> 'k device \<Rightarrow> 'k \<Rightarrow> nat \<Rightarrow> nat \<Rightarrow> bytes list \<Rightarrow> int \<Rightarrow> bytes \<Rightarrow> ('k \<times> bytes) option" where
  "play_tracks C S A k cnt i [] vol errors = Some (k, errors)"
| "play_tracks C S A k cnt i (path # ps) vol errors = do {
     (k, vol, r) \<leftarrow> play_track C S A k path (if utf8_valid path then path else ascii ''?'') (i + 1) cnt vol;
     case r of Inl e \<Rightarrow> play_tracks C S A k cnt (i + 1) ps vol (errors @ ascii ''play: '' @ e @ [10])
     | Inr Quit \<Rightarrow> Some (k, errors)
     | Inr Finished \<Rightarrow> play_tracks C S A k cnt (i + 1) ps vol errors }"

definition play_main :: "'m codec \<Rightarrow> 'k sys \<Rightarrow> 'k psys \<Rightarrow> 'k device \<Rightarrow> 'k \<Rightarrow> bytes list \<Rightarrow> ('k \<times> nat) option" where
  "play_main C S P A k args =
     (if args = [] then do { k \<leftarrow> write_all S k 1 (ascii ''usage: play <file.wav|file.mp3> [more files ...]'' @ [10]); Some (k, 1) }
      else let (k, raw) = raw_enable P k
           in if raw = None then do { k \<leftarrow> write_all S k 1 (ascii ''play: cannot put the terminal in raw mode'' @ [10]); Some (k, 1) }
              else do {
                (k, errors) \<leftarrow> play_tracks C S A (a_init A k) (length args) 0 args 100 [];
                let k = raw_drop P (a_restore A k) raw;
                k \<leftarrow> write_all S k 1 errors;
                k \<leftarrow> write_all S k 1 (ascii ''play: done'' @ [10]);
                Some (k, if errors = [] then 0 else 1) })"

end
