(* ===== verification/PlaySafe.thy ===== *)
theory PlaySafe
  imports Play
begin

text \<open>
  The player's sources never get stuck: opening any file ends, and so does reading a track to its end. The kernel is a locale's
  parameter, with what the loops need of seeking; the decoder has what minimp3 documents of a call.
\<close>

section \<open>The decoder\<close>

text \<open>
  What \<^verbatim>\<open>mp3dec_decode_frame\<close> of minimp3 does to its arguments in one call, on a buffer for the largest frame: it takes no more than
  its input. Either it finds no frame: no sample, and of the old \<^verbatim>\<open>FrameInfo\<close> only \<^verbatim>\<open>frame_bytes\<close> is
  written, so that the rest may be stale. Or it finds one, which lies in the part it takes; then all fields are written, and the samples it
  gives, if any, fit the buffer.
\<close>

definition codec_ok :: "'m codec \<Rightarrow> bool" where
  "codec_ok C \<longleftrightarrow> (\<forall>m inp pcm info n i m' pcm'. m_decode C m inp pcm info = (n, i, m', pcm') \<longrightarrow> length pcm = MAX_SAMPLES_PER_FRAME \<longrightarrow>
     length pcm' = MAX_SAMPLES_PER_FRAME \<and> 0 \<le> frame_bytes i \<and> frame_bytes i \<le> int (length inp) \<and>
     (n = 0 \<and> i = info\<lparr>frame_bytes := frame_bytes i\<rparr> \<or>
      0 \<le> n \<and> 0 \<le> frame_offset i \<and> frame_offset i \<le> frame_bytes i \<and> 1 \<le> fchannels i \<and> fchannels i \<le> 2 \<and>
        n * fchannels i \<le> int MAX_SAMPLES_PER_FRAME))"

lemma codec_okD:
  assumes "codec_ok C" "m_decode C m inp pcm info = (n, i, m', pcm')" "length pcm = MAX_SAMPLES_PER_FRAME" "0 \<le> frame_offset info"
  shows "length pcm' = MAX_SAMPLES_PER_FRAME" "0 \<le> frame_bytes i" "frame_bytes i \<le> int (length inp)" "0 \<le> frame_offset i"
    "0 < n \<Longrightarrow> frame_offset i \<le> frame_bytes i \<and> 1 \<le> fchannels i \<and> fchannels i \<le> 2 \<and> n * fchannels i \<le> int MAX_SAMPLES_PER_FRAME"
proof -
  from assms(1-3) have c: "length pcm' = MAX_SAMPLES_PER_FRAME \<and> 0 \<le> frame_bytes i \<and> frame_bytes i \<le> int (length inp) \<and>
     (n = 0 \<and> i = info\<lparr>frame_bytes := frame_bytes i\<rparr> \<or>
      0 \<le> n \<and> 0 \<le> frame_offset i \<and> frame_offset i \<le> frame_bytes i \<and> 1 \<le> fchannels i \<and> fchannels i \<le> 2 \<and>
        n * fchannels i \<le> int MAX_SAMPLES_PER_FRAME)"
    unfolding codec_ok_def by blast
  have "frame_offset (info\<lparr>frame_bytes := frame_bytes i\<rparr>) = frame_offset info" by simp
  with c assms(4) show "0 \<le> frame_offset i" by metis
qed (use assms(1-3) in \<open>unfold codec_ok_def, fastforce+\<close>)

definition stream_inv :: "'m mp3_stream \<Rightarrow> bool" where
  "stream_inv s \<longleftrightarrow> file_fd (mfile s) \<and> length (input s) = IN_BYTES \<and> in_pos s \<le> in_len s \<and> in_len s \<le> IN_BYTES \<and>
     length (mpcm s) = MAX_SAMPLES_PER_FRAME \<and> pcm_pos s \<le> pcm_len s \<and> pcm_len s \<le> 2 * MAX_SAMPLES_PER_FRAME"

fun source_inv :: "'m source \<Rightarrow> bool" where
  "source_inv (Wav fd n) = file_fd fd"
| "source_inv (Mp3 s) = (stream_inv s \<and> mchannels s \<in> {1, 2})"

definition info_ok :: "track_info \<Rightarrow> bool" where
  "info_ok i \<longleftrightarrow> rate i \<in> {44100, 48000} \<and> channels i \<in> {1, 2}"

fun opened_ok :: "'m opened \<Rightarrow> bool" where
  "opened_ok (Inl e) = True"
| "opened_ok (Inr (src, info)) = (source_inv src \<and> info_ok info)"

lemma opened_ok_name [simp]: "opened_ok (with_name n r) = opened_ok r"
  by (auto simp: with_name_def split: sum.splits)

section \<open>The loops end\<close>

text \<open>Reading a track to its end, as the player does when no key is pressed.\<close>

partial_function (option) drain :: "'m codec \<Rightarrow> 'k sys \<Rightarrow> 'k \<Rightarrow> 'm source \<Rightarrow> bytes \<Rightarrow> nat \<Rightarrow> ('k \<times> 'm source) option" where
  "drain C S k src buf fsz = do {
     (k, src, n, buf) \<leftarrow> source_read_pcm C S k src buf fsz;
     if n = 0 then Some (k, src) else drain C S k src buf fsz }"

locale seek_kernel = file_kernel S left kinv for S :: "'k sys" and left :: "'k \<Rightarrow> int \<Rightarrow> nat" and kinv :: "'k \<Rightarrow> bool" +
  assumes seek_inv: "kinv k \<Longrightarrow> file_fd fd \<Longrightarrow> kinv (fst (s_lseek S k fd off wh))"
    and seek_forward: "kinv k \<Longrightarrow> file_fd fd \<Longrightarrow> 0 \<le> off \<Longrightarrow> off < 2 ^ 33 \<Longrightarrow> left (fst (s_lseek S k fd off SEEK_CUR)) fd \<le> left k fd"
begin

text \<open>A buffer read in full has used up part of the file.\<close>

lemma read_full_left:
  "kinv k \<Longrightarrow> file_fd fd \<Longrightarrow> length got \<le> len \<Longrightarrow> \<exists>k' d. read_full S k fd len got = Some (k', d) \<and> kinv k' \<and> length d \<le> len
    \<and> (length got < len \<longrightarrow> length d = len \<longrightarrow> left k' fd < left k fd)"
proof (induction "left k fd" arbitrary: k got rule: less_induct)
  case less
  obtain k1 d where r: "file_read S k fd (len - length got) = (k1, d)" by force
  note k1 = file_read_ok [OF less.prems(1,2) r]
  show ?case
  proof (cases "length got < len \<and> d \<noteq> []")
    case True
    then have l: "left k1 fd < left k fd" "kinv k1" "length (got @ d) \<le> len" using k1 by auto
    obtain k2 d2 where IH: "read_full S k1 fd len (got @ d) = Some (k2, d2)" "kinv k2" "length d2 \<le> len"
        "length (got @ d) < len \<longrightarrow> length d2 = len \<longrightarrow> left k2 fd < left k1 fd"
      using less.hyps [OF l(1,2) less.prems(2) l(3)] by blast
    have "left k2 fd < left k fd" if "length d2 = len"
    proof (cases "length (got @ d) < len")
      case False
      then have "read_full S k1 fd len (got @ d) = Some (k1, got @ d)" by (subst read_full.simps) simp
      with IH(1) l(1) show ?thesis by simp
    qed (use IH(4) that l(1) in simp)
    with True r IH(1-3) show ?thesis by (subst read_full.simps) simp
  next
    case False
    then show ?thesis using less.prems r k1 by (subst read_full.simps) auto
  qed
qed

lemma u32le_less: "u32le b < 2 ^ 32"
proof -
  have "of_le (take 4 b) < 256 ^ length (take 4 b)" by (rule of_le_bound)
  also have "\<dots> \<le> 256 ^ 4" by (intro power_increasing) auto
  finally show ?thesis by (simp add: u32le_def)
qed

lemma file_seek_inv: "kinv k \<Longrightarrow> file_fd fd \<Longrightarrow> file_seek S k fd off wh = (k', r) \<Longrightarrow> kinv k'"
  using seek_inv [of k fd off wh] by (simp add: file_seek_def)

lemma wav_data_ok:
  assumes "kinv k" "file_fd fd"
  shows "kinv (fst (wav_data S k fd size' fmt)) \<and> opened_ok (snd (wav_data S k fd size' fmt))"
proof -
  have "kinv (s_close S k fd)" using assms by (rule close_inv)
  moreover have "kinv (fst (wav_data S k fd size' fmt)) \<and> opened_ok (snd (wav_data S k fd size' fmt))"
    if "fmt = Some (format, ch, rt, bits)" for format ch rt bits
  proof -
    obtain k1 a where 1: "file_seek S k fd 0 SEEK_CUR = (k1, a)" by force
    obtain k2 b where 2: "file_seek S k1 fd 0 SEEK_END = (k2, b)" by force
    obtain k3 c where 3: "file_seek S k2 fd a SEEK_SET = (k3, c)" by force
    have "kinv k3" using file_seek_inv 1 2 3 assms by metis
    with that 1 2 3 assms \<open>kinv (s_close S k fd)\<close> show ?thesis by (auto simp: wav_data_def Let_def info_ok_def)
  qed
  ultimately show ?thesis by (cases fmt) (auto simp: wav_data_def)
qed

lemma wav_chunks_ok: "kinv k \<Longrightarrow> file_fd fd \<Longrightarrow> \<exists>k' (r :: 'm opened). wav_chunks S k fd fmt = Some (k', r) \<and> kinv k' \<and> opened_ok r"
proof (induction "left k fd" arbitrary: k fmt rule: less_induct)
  case less
  obtain k1 c where r: "read_full S k fd 8 [] = Some (k1, c)" "kinv k1" "length c = 8 \<Longrightarrow> left k1 fd < left k fd"
    using read_full_left [OF less.prems, of "[]" 8] by auto
  note close = close_inv [OF r(2) less.prems(2)]
  show ?case
  proof (cases "length c = 8")
    case len: True
    let ?z = "u32le (drop 4 c)"
    have z: "?z < 2 ^ 32" by (rule u32le_less)
    have go: "\<exists>k' (r :: 'm opened). wav_chunks S (fst (file_seek S k2 fd off SEEK_CUR)) fd f = Some (k', r) \<and> kinv k' \<and> opened_ok r"
      if "kinv k2" "left k2 fd < left k fd" "0 \<le> off" "off < 2 ^ 33" for k2 off f
    proof (rule less.hyps)
      show "left (fst (file_seek S k2 fd off SEEK_CUR)) fd < left k fd"
        using seek_forward [OF that(1) less.prems(2) that(3,4)] that(2) by (simp add: file_seek_def)
      show "kinv (fst (file_seek S k2 fd off SEEK_CUR))" using seek_inv [OF that(1) less.prems(2)] by (simp add: file_seek_def)
    qed (rule less.prems(2))
    obtain k2 f where f: "read_full S k1 fd 16 [] = Some (k2, f)" "kinv k2" "length f = 16 \<Longrightarrow> left k2 fd < left k1 fd"
      using read_full_left [OF r(2) less.prems(2), of "[]" 16] by auto
    have 1: "\<exists>k' (r :: 'm opened). wav_chunks S (fst (file_seek S k2 fd (int (?z - 16) + int (?z mod 2)) SEEK_CUR)) fd fm = Some (k', r) \<and> kinv k' \<and> opened_ok r"
      if "length f = 16" for fm by (rule go) (use f r(3) len that z in auto)
    have 2: "\<exists>k' (r :: 'm opened). wav_chunks S (fst (file_seek S k1 fd (int ?z + int (?z mod 2)) SEEK_CUR)) fd fmt = Some (k', r) \<and> kinv k' \<and> opened_ok r"
      by (rule go) (use r len z in auto)
    obtain kd rd where d: "wav_data S k1 fd ?z fmt = (kd, rd :: 'm opened)" "kinv kd" "opened_ok rd"
      using wav_data_ok [OF r(2) less.prems(2), of ?z fmt] by (metis surjective_pairing)
    show ?thesis
      using len r(1) f(1) close close_inv [OF f(2) less.prems(2)] 1 2 d
      by (subst wav_chunks.simps) (auto simp: Let_def case_prod_beta)
  qed (use r close in \<open>subst wav_chunks.simps, auto\<close>)
qed

lemma open_wav_ok:
  assumes "kinv k" "file_fd fd"
  shows "\<exists>k' (r :: 'm opened). open_wav S k fd = Some (k', r) \<and> kinv k' \<and> opened_ok r"
proof -
  obtain k1 h where r: "read_full S k fd 12 [] = Some (k1, h)" "kinv k1" using read_full_left [OF assms, of "[]" 12] by auto
  with wav_chunks_ok [OF r(2) assms(2), of None] close_inv [OF r(2) assms(2)] show ?thesis by (auto simp: open_wav_def)
qed

text \<open>The MP3 stream: what is left of the input.\<close>

definition pending :: "'k \<Rightarrow> 'm mp3_stream \<Rightarrow> nat" where
  "pending k s = (if meof s then 0 else (left k (mfile s) + 1) * (IN_BYTES + 1)) + (in_len s - in_pos s)"

lemma refill_ok:
  assumes k: "kinv k" and s: "stream_inv s"
  shows "\<exists>k' s'. refill S k s = Some (k', s') \<and> kinv k' \<and> stream_inv s' \<and> pending k' s' \<le> pending k s \<and>
    mpcm s' = mpcm s \<and> pcm_len s' = pcm_len s \<and> pcm_pos s' = pcm_pos s \<and> mrate s' = mrate s \<and> mchannels s' = mchannels s"
proof (cases "\<not> meof s \<and> in_len s - in_pos s < IN_BYTES div 2")
  case False
  then show ?thesis using assms by (auto simp: refill_def stream_inv_def)
next
  case True
  let ?n = "in_len s - in_pos s"
  define inp where "inp = drop (in_pos s) (take (in_len s) (input s)) @ drop ?n (input s)"
  have l: "length inp = IN_BYTES" "?n < IN_BYTES" using s True by (auto simp: inp_def stream_inv_def)
  have fd: "file_fd (mfile s)" using s by (simp add: stream_inv_def)
  obtain k' got where r: "read_full S k (mfile s) (IN_BYTES - ?n) [] = Some (k', got)" "kinv k'" "length got \<le> IN_BYTES - ?n"
      "length got = IN_BYTES - ?n \<Longrightarrow> left k' (mfile s) < left k (mfile s)"
    using read_full_left [OF k fd, of "[]" "IN_BYTES - ?n"] l(2) by auto
  define s' where "s' = s\<lparr>input := take ?n inp @ got @ drop (?n + length got) inp, in_pos := 0, in_len := ?n + length got,
     meof := (?n + length got < IN_BYTES)\<rparr>"
  have bad: "\<not> (in_pos s > in_len s \<or> in_len s > length (input s))" using s by (auto simp: stream_inv_def)
  have "refill S k s = Some (k', s')"
    unfolding refill_def if_not_P [OF bad] if_P [OF True] Let_def inp_def [symmetric] l(1) r(1) s'_def by simp
  moreover have "stream_inv s'" using s l r(3) by (auto simp: stream_inv_def s'_def)
  moreover have "pending k' s' \<le> pending k s"
  proof (cases "?n + length got < IN_BYTES")
    case True
    then have "pending k' s' \<le> IN_BYTES" by (simp add: pending_def s'_def)
    also have "\<dots> \<le> pending k s" using \<open>\<not> meof s \<and> _\<close> by (simp add: pending_def)
    finally show ?thesis .
  next
    case False
    then have "length got = IN_BYTES - ?n" using r(3) by linarith
    from r(4) [OF this] have "left k' (mfile s) + 1 \<le> left k (mfile s)" "in_len s' \<le> IN_BYTES" using r(3) l(2) by (auto simp: s'_def)
    then have "(left k' (mfile s) + 1) * (IN_BYTES + 1) + (IN_BYTES + 1) \<le> (left k (mfile s) + 1) * (IN_BYTES + 1)"
      using mult_le_mono1 [of "left k' (mfile s) + 2" "left k (mfile s) + 1" "IN_BYTES + 1"] by simp
    then show ?thesis using False True \<open>in_len s' \<le> IN_BYTES\<close> by (simp add: pending_def s'_def)
  qed
  ultimately show ?thesis using r(2) by (auto simp: s'_def)
qed

definition frame_ok :: "'m mp3_stream \<Rightarrow> frame_info \<Rightarrow> nat \<Rightarrow> bool" where
  "frame_ok s i n \<longleftrightarrow> fst (last_frame s) \<le> snd (last_frame s) \<and> snd (last_frame s) \<le> IN_BYTES \<and>
     1 \<le> fchannels i \<and> fchannels i \<le> 2 \<and> n * nat (fchannels i) \<le> MAX_SAMPLES_PER_FRAME"

lemma default_offset: "0 \<le> frame_offset frame_info_default"
  by (simp add: frame_info_default_def)

lemma decode_frame_ok:
  assumes C: "codec_ok C"
  shows "kinv k \<Longrightarrow> stream_inv s \<Longrightarrow> 0 \<le> frame_offset info \<Longrightarrow> \<exists>k' s' i n. decode_frame C S k s info = Some (k', s', i, n) \<and> kinv k' \<and> stream_inv s' \<and>
    (0 < n \<longrightarrow> pending k' s' < pending k s \<and> frame_ok s' i n) \<and>
    pcm_len s' = pcm_len s \<and> pcm_pos s' = pcm_pos s \<and> mrate s' = mrate s \<and> mchannels s' = mchannels s"
proof (induction "pending k s" arbitrary: k s info rule: less_induct)
  case less
  obtain k1 s1 where r: "refill S k s = Some (k1, s1)" "kinv k1" "stream_inv s1" "pending k1 s1 \<le> pending k s"
    "mpcm s1 = mpcm s" "pcm_len s1 = pcm_len s" "pcm_pos s1 = pcm_pos s" "mrate s1 = mrate s" "mchannels s1 = mchannels s"
    using refill_ok [OF less.prems(1,2)] by blast
  let ?a = "in_len s1 - in_pos s1"
  show ?case
  proof (cases "?a = 0")
    case True
    then show ?thesis using r by (subst decode_frame.simps) auto
  next
    case False
    obtain n i m pcm where d: "m_decode C (mdec s1) (take ?a (drop (in_pos s1) (input s1))) (mpcm s1) info = (n, i, m, pcm)"
      by (metis prod_cases4)
    have lp: "length (mpcm s1) = MAX_SAMPLES_PER_FRAME" "length (take ?a (drop (in_pos s1) (input s1))) = ?a"
      using r(3) by (auto simp: stream_inv_def)
    note c = codec_okD [OF C d lp(1) less.prems(3)]
    define s2 where "s2 = s1\<lparr>mdec := m, mpcm := pcm\<rparr>"
    have s2: "stream_inv s2" using r(3) c(1) by (simp add: s2_def stream_inv_def)
    have step: "decode_frame C S k s info = (if frame_bytes i = 0
         then if meof s2 then Some (k1, s2, i, 0) else decode_frame C S k1 (s2\<lparr>in_pos := in_len s2\<rparr>) i
         else let s3 = s2\<lparr>in_pos := in_pos s2 + nat (frame_bytes i), last_frame := (in_pos s2 + nat (frame_offset i), in_pos s2 + nat (frame_bytes i))\<rparr>
              in if 0 < n then Some (k1, s3, i, nat n) else decode_frame C S k1 s3 i)"
      using r(1) d c(2,4) False by (subst decode_frame.simps) (simp add: s2_def Let_def)
    show ?thesis
    proof (cases "frame_bytes i = 0")
      case True
      let ?s3 = "s2\<lparr>in_pos := in_len s2\<rparr>"
      have "stream_inv ?s3" "pending k1 ?s3 < pending k s"
        using s2 False r(4) by (auto simp: stream_inv_def pending_def s2_def)
      from less.hyps [OF this(2) r(2) this(1) c(4)] \<open>pending k1 ?s3 < pending k s\<close> r step True s2 show ?thesis
        by (auto simp: s2_def)
    next
      case nz: False
      define s3 where "s3 = s2\<lparr>in_pos := in_pos s2 + nat (frame_bytes i), last_frame := (in_pos s2 + nat (frame_offset i), in_pos s2 + nat (frame_bytes i))\<rparr>"
      have fb: "0 < nat (frame_bytes i)" "nat (frame_bytes i) \<le> ?a" using c(2,3) nz lp(2) by auto
      then have s3: "stream_inv s3" "pending k1 s3 < pending k s" "snd (last_frame s3) \<le> IN_BYTES"
        using s2 False r(4) by (auto simp: stream_inv_def pending_def s2_def s3_def)
      show ?thesis
      proof (cases "0 < n")
        case True
        then have "frame_ok s3 i (nat n)" using c(5) s3(3) by (auto simp: frame_ok_def nat_mult_distrib [symmetric] s3_def)
        with True step nz s3 r show ?thesis by (auto simp: s3_def [symmetric] Let_def) (auto simp: s3_def s2_def)
      next
        case False
        with less.hyps [OF s3(2) r(2) s3(1) c(4)] s3(2) r step nz show ?thesis
          by (auto simp: s3_def [symmetric] Let_def) (auto simp: s3_def s2_def intro: less_trans)
      qed
    qed
  qed
qed

lemma next_pcm_ok:
  assumes C: "codec_ok C"
  shows "kinv k \<Longrightarrow> stream_inv s \<Longrightarrow> mchannels s \<in> {1, 2} \<Longrightarrow> \<exists>k' s' more. next_pcm C S k s = Some (k', s', more) \<and> kinv k' \<and> stream_inv s' \<and>
    mchannels s' = mchannels s \<and> (more \<longrightarrow> pcm_pos s' < pcm_len s' \<and> (pcm_pos s \<noteq> pcm_len s \<and> k' = k \<and> s' = s \<or> pending k' s' < pending k s))"
proof (induction "pending k s" arbitrary: k s rule: less_induct)
  case less
  show ?case
  proof (cases "pcm_pos s = pcm_len s")
    case False
    then show ?thesis using less.prems by (subst next_pcm.simps) (auto simp: stream_inv_def)
  next
    case True
    obtain k1 s1 i n where d: "decode_frame C S k s frame_info_default = Some (k1, s1, i, n)" "kinv k1" "stream_inv s1"
        "0 < n \<Longrightarrow> pending k1 s1 < pending k s \<and> frame_ok s1 i n" "mchannels s1 = mchannels s" "mrate s1 = mrate s"
        "pcm_pos s1 = pcm_pos s" "pcm_len s1 = pcm_len s"
      using decode_frame_ok [OF C less.prems(1,2) default_offset] by blast
    show ?thesis
    proof (cases "n = 0")
      case True
      then show ?thesis using \<open>pcm_pos s = pcm_len s\<close> d by (subst next_pcm.simps) auto
    next
      case False
      let ?s2 = "if hz i mod 2 ^ 32 \<noteq> int (mrate s1) \<or> fchannels i mod 2 ^ 32 \<noteq> int (mchannels s1) then s1
        else s1\<lparr>pcm_pos := 0, pcm_len := n * mchannels s1 * 2\<rparr>"
      have p: "pending k1 ?s2 < pending k s" "mchannels ?s2 = mchannels s" using d False by (auto simp: pending_def)
      have "stream_inv ?s2" using d(3) d(4) False by (auto simp: stream_inv_def frame_ok_def)
      from less.hyps [OF p(1) d(2) this] less.prems(3) p(2) obtain k2 s3 more where IH: "next_pcm C S k1 ?s2 = Some (k2, s3, more)" "kinv k2" "stream_inv s3"
        "mchannels s3 = mchannels s" "more \<Longrightarrow> pcm_pos s3 < pcm_len s3 \<and> (pcm_pos ?s2 \<noteq> pcm_len ?s2 \<and> k2 = k1 \<and> s3 = ?s2 \<or> pending k2 s3 < pending k1 ?s2)"
        by (metis (no_types, lifting))
      moreover have "next_pcm C S k s = next_pcm C S k1 ?s2"
        using \<open>pcm_pos s = pcm_len s\<close> d(1) False by (subst next_pcm.simps) simp
      ultimately show ?thesis using p(1) by auto
    qed
  qed
qed

lemma length_samples: "length (concat (map sample_bytes xs)) = 2 * length xs"
  by (induction xs) (simp_all add: sample_bytes_def)

lemma half_le: "2 * (n div 2) \<le> (n :: nat)"
  by simp

lemma mp3_read_pcm_ok:
  assumes C: "codec_ok C" and k: "kinv k" and s: "stream_inv s" "mchannels s \<in> {1, 2}"
  shows "\<exists>k' s' n buf'. mp3_read_pcm C S k s buf = Some (k', s', n, buf') \<and> kinv k' \<and> stream_inv s' \<and> mchannels s' = mchannels s \<and> n \<le> length buf \<and>
    length buf' = length buf \<and> (0 < n \<longrightarrow> pending k' s' < pending k s \<or> k' = k \<and> pending k' s' = pending k s \<and> pcm_len s' - pcm_pos s' < pcm_len s - pcm_pos s)"
proof -
  obtain k1 s1 more where m: "next_pcm C S k s = Some (k1, s1, more)" "kinv k1" "stream_inv s1" "mchannels s1 = mchannels s"
    "more \<Longrightarrow> pcm_pos s1 < pcm_len s1 \<and> (pcm_pos s \<noteq> pcm_len s \<and> k1 = k \<and> s1 = s \<or> pending k1 s1 < pending k s)"
    using next_pcm_ok [OF C k s] by blast
  show ?thesis
  proof (cases more)
    case False
    then show ?thesis using m by (auto simp: mp3_read_pcm_def)
  next
    case True
    let ?n = "min (pcm_len s1 - pcm_pos s1) (length buf)"
    have b: "pcm_pos s1 \<le> pcm_len s1" "pcm_len s1 \<le> 2 * MAX_SAMPLES_PER_FRAME" "length (mpcm s1) = MAX_SAMPLES_PER_FRAME"
      using m(3) by (auto simp: stream_inv_def)
    have "pcm_pos s1 div 2 + ?n div 2 \<le> (pcm_pos s1 + ?n) div 2" by linarith
    also have "\<dots> \<le> length (mpcm s1)" using b by auto
    finally have fits: "pcm_pos s1 div 2 + ?n div 2 \<le> length (mpcm s1)" .
    let ?s2 = "s1\<lparr>pcm_pos := pcm_pos s1 + ?n\<rparr>"
    let ?b = "concat (map sample_bytes (take (?n div 2) (drop (pcm_pos s1 div 2) (mpcm s1)))) @ drop (2 * (?n div 2)) buf"
    have "length (take (?n div 2) (drop (pcm_pos s1 div 2) (mpcm s1))) = ?n div 2" using fits by simp
    moreover have "2 * (?n div 2) \<le> length buf" by (rule order_trans [OF _ min.cobounded2]) (rule half_le)
    ultimately have l: "length ?b = length buf" by (simp only: length_append length_samples length_drop le_add_diff_inverse)
    have e: "mp3_read_pcm C S k s buf = Some (k1, ?s2, ?n, ?b)"
      using m(1) True b fits by (simp add: mp3_read_pcm_def Let_def)
    have i: "stream_inv ?s2" "mchannels ?s2 = mchannels s" using m(3,4) by (auto simp: stream_inv_def)
    have p: "pending k1 ?s2 < pending k s \<or> k1 = k \<and> pending k1 ?s2 = pending k s \<and> pcm_len ?s2 - pcm_pos ?s2 < pcm_len s - pcm_pos s" if "0 < ?n"
      using m(5) [OF True] that diff_less [of ?n "pcm_len s1 - pcm_pos s1"] by (auto simp: pending_def diff_diff_left [symmetric] simp del: diff_diff_left)
    show ?thesis by (intro exI conjI impI) (rule e m(2) i l p min.cobounded2 | assumption)+
  qed
qed

lemma mp3_open_ok:
  assumes C: "codec_ok C" and k: "kinv k" and fd: "file_fd fd"
  shows "\<exists>k' r. mp3_open C S k fd = Some (k', r) \<and> kinv k' \<and> opened_ok r"
proof -
  have "\<exists>k' n. id3v2_size S k fd = Some (k', n) \<and> kinv k'"
  proof -
    obtain k1 x where 1: "file_seek S k fd 0 SEEK_SET = (k1, x)" by force
    from file_seek_inv [OF k fd 1] have k1: "kinv k1" .
    show ?thesis using read_full_left [OF k1 fd, of "[]" 10] 1 by (auto simp: id3v2_size_def Let_def)
  qed
  then obtain k1 start where 1: "id3v2_size S k fd = Some (k1, start)" "kinv k1" by blast
  obtain k2 fe where 2: "file_seek S k1 fd 0 SEEK_END = (k2, fe)" by force
  obtain k3 x where 3: "file_seek S k2 fd (int start) SEEK_SET = (k3, x)" by force
  have k3: "kinv k3" using file_seek_inv 1(2) 2 3 fd by metis
  have "stream_inv (mp3_new C fd)" using fd by (simp add: stream_inv_def mp3_new_def)
  then obtain k4 s i n where 4: "decode_frame C S k3 (mp3_new C fd) frame_info_default = Some (k4, s, i, n)" "kinv k4" "stream_inv s"
      "0 < n \<Longrightarrow> frame_ok s i n" "pcm_pos s = 0"
    using decode_frame_ok [OF C k3 _ default_offset, of "mp3_new C fd"] by (auto simp: mp3_new_def)
  note close = close_inv [OF 4(2) fd]
  show ?thesis
  proof (cases "n = 0 \<or> hz i \<noteq> 44100 \<and> hz i \<noteq> 48000")
    case True
    then show ?thesis using 1(1) 2 3 4(1) close by (auto simp: mp3_open_def)
  next
    case False
    then have f: "frame_ok s i n" using 4(4) by simp
    then have ch: "nat (fchannels i mod 2 ^ 32) = nat (fchannels i)" "nat (fchannels i) \<in> {1, 2}" by (auto simp: frame_ok_def)
    obtain a b where lf: "last_frame s = (a, b)" "a \<le> b" "b \<le> length (input s)" using f 4(3) by (cases "last_frame s") (auto simp: frame_ok_def stream_inv_def)
    have "stream_inv (s\<lparr>mrate := nat (hz i), mchannels := nat (fchannels i mod 2 ^ 32), pcm_len := n * nat (fchannels i mod 2 ^ 32) * 2\<rparr>)"
      using 4(3,5) f ch by (auto simp: stream_inv_def frame_ok_def)
    with False 1(1) 2 3 4(1,2) lf ch show ?thesis by (auto simp: mp3_open_def slice_def info_ok_def)
  qed
qed

lemma source_open_ok:
  assumes C: "codec_ok (C :: 'm codec)" and k: "kinv k"
  shows "\<exists>k' (r :: 'm opened). source_open C S k path name = Some (k', r) \<and> kinv k' \<and> opened_ok r"
proof -
  obtain k1 f where o: "file_open S k path = (k1, f)" by force
  note i = file_open_inv [OF k o]
  show ?thesis
  proof (cases f)
    case None
    then show ?thesis using o i by (auto simp: source_open_def)
  next
    case (Some fd)
    then have fd: "file_fd fd" using i(2) by simp
    obtain k2 mg where r: "read_full S k1 fd 4 [] = Some (k2, mg)" "kinv k2" using read_full_left [OF i(1) fd, of "[]" 4] by auto
    obtain k3 x where s: "file_seek S k2 fd 0 SEEK_SET = (k3, x)" by force
    from file_seek_inv [OF r(2) fd s] have k3: "kinv k3" .
    obtain kw and rw :: "'m opened" where w: "open_wav S k3 fd = Some (kw, rw)" "kinv kw" "opened_ok rw"
      using open_wav_ok [OF k3 fd] by blast
    show ?thesis
      using o Some r s w mp3_open_ok [OF C k3 fd] close_inv [OF r(2) fd] close_inv [OF k3 fd]
      by (auto simp: source_open_def Let_def)
  qed
qed

text \<open>What is left of a track.\<close>

fun remains :: "'k \<Rightarrow> 'm source \<Rightarrow> nat" where
  "remains k (Wav fd n) = n"
| "remains k (Mp3 s) = pending k s * (2 * MAX_SAMPLES_PER_FRAME + 1) + (pcm_len s - pcm_pos s)"

lemma source_read_ok:
  assumes C: "codec_ok C" and k: "kinv k" and s: "source_inv src" and f: "0 < fsz"
  shows "\<exists>k' src' n buf'. source_read_pcm C S k src buf fsz = Some (k', src', n, buf') \<and> kinv k' \<and> source_inv src' \<and> n \<le> length buf \<and>
    length buf' = length buf \<and> (0 < n \<longrightarrow> remains k' src' < remains k src)"
proof (cases src)
  case (Wav fd m)
  let ?w = "min m (length buf) - min m (length buf) mod fsz"
  obtain k1 d where r: "file_read S k fd ?w = (k1, d)" by force
  have fd: "file_fd fd" using s Wav by simp
  note d = file_read_ok [OF k fd r]
  have "?w \<le> m" "?w \<le> length buf" by auto
  with d have "length d \<le> m" "length d \<le> length buf" by linarith+
  then show ?thesis using Wav r d f k fd by (auto simp: source_read_pcm_def Let_def)
next
  case (Mp3 m)
  with s have m: "stream_inv m" "mchannels m \<in> {1, 2}" by auto
  obtain k' m' n b where p: "mp3_read_pcm C S k m buf = Some (k', m', n, b)" "kinv k'" "stream_inv m'" "mchannels m' = mchannels m" "n \<le> length buf"
    "length b = length buf" "0 < n \<Longrightarrow> pending k' m' < pending k m \<or> k' = k \<and> pending k' m' = pending k m \<and> pcm_len m' - pcm_pos m' < pcm_len m - pcm_pos m"
    using mp3_read_pcm_ok [OF C k m, of buf] by blast
  have "remains k' (Mp3 m') < remains k (Mp3 m)" if "0 < n"
  proof (cases "pending k' m' < pending k m")
    case True
    let ?M = "2 * MAX_SAMPLES_PER_FRAME + 1"
    have "pcm_len m' - pcm_pos m' < ?M" using p(3) by (auto simp: stream_inv_def)
    moreover have "pending k' m' * ?M + ?M \<le> pending k m * ?M" using mult_le_mono1 [of "Suc (pending k' m')" "pending k m" ?M] True by simp
    ultimately show ?thesis unfolding remains.simps by linarith
  qed (use p(7) that in auto)
  with p m(2) Mp3 show ?thesis by (auto simp: source_read_pcm_def)
qed

lemma drain_ends:
  assumes C: "codec_ok C" and f: "0 < fsz"
  shows "kinv k \<Longrightarrow> source_inv src \<Longrightarrow> \<exists>k' src'. drain C S k src buf fsz = Some (k', src') \<and> kinv k' \<and> source_inv src'"
proof (induction "remains k src" arbitrary: k src buf rule: less_induct)
  case less
  obtain k1 src1 n b where r: "source_read_pcm C S k src buf fsz = Some (k1, src1, n, b)" "kinv k1" "source_inv src1"
    "0 < n \<Longrightarrow> remains k1 src1 < remains k src" using source_read_ok [OF C less.prems f, of buf] by blast
  with less.hyps [OF r(4) r(2,3), of b] show ?case by (subst drain.simps) (cases "n = 0"; auto)
qed

end

end
