(* ===== verification/PlayProps.thy ===== *)
theory PlayProps
  imports ScarfProps PlaySafe
begin

text \<open>
  The player on the kernel: every track file is opened and read to its end, whatever the file holds,
  and the spectrum stays in the range its screen draws.
\<close>

section \<open>Seeking\<close>

lemma sys_lseek_stays: "stays k (sys_lseek k fd off wh)"
  by (auto simp: sys_lseek_def Let_def split: option.splits open_file.splits intro!: stays_with_task stays_bind)

lemma syscall3_lseek:
  "syscall3 E k SYS_LSEEK a b c = (if halted k then (Some k, -1) else result (sys_lseek k a (sint (word_of_nat b :: u64)) c))"
  by (auto simp: syscall3_def syscall_dispatch_def syscall_numbers returning_def result_def split: option.splits)

lemma reg_sint: "- (2 ^ 63) \<le> z \<Longrightarrow> z < 2 ^ 63 \<Longrightarrow> sint (word_of_nat (reg z) :: u64) = z"
  using signed_take_bit_take_bit [of 63 64 z] by (simp add: reg_def sint_sbintrunc' signed_take_bit_int_eq_self take_bit_eq_mod)

lemma seek_cur: "Play.SEEK_CUR = Syscall.SEEK_CUR"
  by (simp add: Play.SEEK_CUR_def Syscall.SEEK_CUR_def)

text \<open>A seek forward leaves less of the file to read, or as much.\<close>

lemma lseek_left:
  assumes r: "running k i" and off: "0 \<le> off" and s: "sys_lseek k (reg fd) off Syscall.SEEK_CUR = Some (v, k')"
  shows "left_of (Some k') fd \<le> left_of (Some k) fd"
proof (cases "k' = k")
  case False
  note inv = runningD [OF r]
  obtain nd ps w where of: "open_file (task (slot k i)) (reg fd) = Some (OFile nd ps w)"
    using s False by (auto simp: sys_lseek_def with_task_running [OF r] fail_def split: option.splits open_file.splits)
  from task_ok_file [OF inv(6) open_file_Some(1) [OF of]] obtain vn where vn: "nodes (kfs k) nd = Some vn" by blast
  have k': "k' = put_task i (set_file (reg fd) (OFile nd (nat (int ps + off)) w) (task (slot k i))) k"
    using s False of vn
    by (auto simp: sys_lseek_def with_task_running [OF r] fail_def ret_def Let_def Syscall.SEEK_CUR_def Syscall.SEEK_SET_def split: if_splits)
  from open_file_set [OF of, of "OFile nd (nat (int ps + off)) w"]
  have "open_file (task (slot k' i)) (reg fd) = Some (OFile nd (nat (int ps + off)) w)" unfolding k' using inv(5) by simp
  moreover have "kfs k' = kfs k" "current k' = Some i" using k' inv(2) by simp_all
  moreover have "ps \<le> nat (int ps + off)" using off by simp
  ultimately show ?thesis using of vn inv(2) by (auto simp: left_of_def split: option.splits)
qed simp

lemma ks_lseek_ok:
  assumes r: "running k i"
  shows "kinv (fst (ks_lseek E (Some k) fd off wh)) \<and>
    (0 \<le> off \<and> off < 2 ^ 33 \<and> wh = Play.SEEK_CUR \<longrightarrow> left_of (fst (ks_lseek E (Some k) fd off wh)) fd \<le> left_of (Some k) fd)"
proof (cases "halted k")
  case True
  then show ?thesis using r by (auto simp: ks_lseek_def on_kernel_def syscall3_lseek kinv_def)
next
  case False
  let ?o = "sint (word_of_nat (reg off) :: u64)"
  obtain x k' where o: "sys_lseek k (reg fd) ?o wh = Some (x, k')"
    "result (sys_lseek k (reg fd) ?o wh) = (Some k', case x of None \<Rightarrow> -1 | Some x \<Rightarrow> x)" "running k' i"
    by (rule result_running [OF sys_lseek_safe [OF r] sys_lseek_stays r])
  have "fst (ks_lseek E (Some k) fd off wh) = Some k'" using False o(2) by (simp add: ks_lseek_def on_kernel_def syscall3_lseek)
  with o lseek_left [OF r, of off fd x k'] show ?thesis by (auto simp: kinv_def seek_cur reg_sint)
qed

interpretation player_sys: seek_kernel "kernel_sys E a others" left_of kinv for E a others
proof
  have l: "s_lseek (kernel_sys E a others) = ks_lseek E" by (simp add: kernel_sys_def)
  fix k fd off wh
  show "kinv k \<Longrightarrow> file_fd fd \<Longrightarrow> kinv (fst (s_lseek (kernel_sys E a others) k fd off wh))"
    unfolding l using ks_lseek_ok by (auto simp: kinv_def)
  show "kinv k \<Longrightarrow> file_fd fd \<Longrightarrow> 0 \<le> off \<Longrightarrow> off < 2 ^ 33 \<Longrightarrow>
      left_of (fst (s_lseek (kernel_sys E a others) k fd off Play.SEEK_CUR)) fd \<le> left_of k fd"
    unfolding l using ks_lseek_ok by (auto simp: kinv_def)
qed

section \<open>Tracks end\<close>

text \<open>
  C39: opening a track returns, whatever the file holds: the walk over a WAV file's chunks ends, the
  search for a first MP3 frame ends, and nothing is indexed out of range. The track is then mono or
  stereo at 44100 or 48000 Hz, and reading it chunk by chunk comes to its end too, even when the MP3
  stream is damaged or changes its format. The decoder is a parameter with the contract \<open>codec_ok\<close>: it takes no more than its input, and either
  finds no frame and writes nothing but how much it took, or writes all fields and at most as many samples as the buffer holds.
\<close>

theorem track_ends:
  assumes "running k i" and "codec_ok C"
  shows "\<exists>k' j r. source_open C (kernel_sys E a others) (Some k) path name = Some (Some k', r) \<and> running k' j \<and>
    (\<forall>src info. r = Inr (src, info) \<longrightarrow> rate info \<in> {44100, 48000} \<and> channels info \<in> {1, 2} \<and>
      (\<exists>k'' j' src'. drain C (kernel_sys E a others) (Some k') src (replicate CHUNK_BYTES 0) (channels info * 2) = Some (Some k'', src') \<and> running k'' j'))"
proof -
  let ?S = "kernel_sys E a others"
  have "kinv (Some k)" using assms(1) by (auto simp: kinv_def)
  from player_sys.source_open_ok [OF assms(2) this, of E a others path name] obtain st r where
    o: "source_open C ?S (Some k) path name = Some (st, r)" "kinv st" "opened_ok r" by blast
  from o(2) obtain k' j where k': "st = Some k'" "running k' j" by (auto simp: kinv_def)
  have "\<exists>k'' j' src'. drain C ?S (Some k') src (replicate CHUNK_BYTES 0) (channels info * 2) = Some (Some k'', src') \<and> running k'' j'"
    if "r = Inr (src, info)" for src info
  proof -
    from o(3) that have i: "source_inv src" "0 < channels info * 2" by (auto simp: info_ok_def)
    from player_sys.drain_ends [OF assms(2) i(2) _ i(1)] o(2) k'(1) show ?thesis by (fastforce simp: kinv_def)
  qed
  with o k' show ?thesis by (auto simp: info_ok_def)
qed

text \<open>
  A decoder that takes every four bytes of its input for a mono frame with one sample, and at the end of the input writes \<^verbatim>\<open>frame_bytes\<close>
  alone; and a kernel with the file \<open>song\<close> that starts like an MP3 frame.
\<close>

definition toy_codec :: "unit codec" where
  "toy_codec = \<lparr>m_init = (), m_decode = (\<lambda>m inp pcm info.
     if length inp < 4 then (0, info\<lparr>frame_bytes := int (length inp)\<rparr>, m, pcm)
     else (1, \<lparr>frame_bytes = 4, frame_offset = 0, fchannels = 1, hz = 44100, layer = 3, bitrate_kbps = 128\<rparr>, m, pcm))\<rparr>"

lemma toy_codec_ok: "codec_ok toy_codec"
  by (auto simp: codec_ok_def toy_codec_def MAX_SAMPLES_PER_FRAME_def split: if_splits)

definition song_vfs :: vfs where
  "song_vfs = \<lparr>nodes = [
     0 \<mapsto> \<lparr>vname = [], vkind = Dir, vparent = None, vchildren = Some 1, vsibling = None, vdata = []\<rparr>,
     1 \<mapsto> \<lparr>vname = ascii ''song'', vkind = File, vparent = Some 0, vchildren = None, vsibling = None,
       vdata = [0xFF, 0xFB, 0x90, 0, 1, 2, 3, 4, 5]\<rparr>], root = 0, next_id = 2\<rparr>"

lemma song_wf: "vfs_wf song_vfs (VDir 0 [] [VFile 1 (ascii ''song'') [0xFF, 0xFB, 0x90, 0, 1, 2, 3, 4, 5]])"
proof -
  have "good_name (ascii ''song'')" by (simp add: good_name_def slash_def cut_name_short NAME_MAX_def)
  then show ?thesis by (auto simp: vfs_wf_def song_vfs_def)
qed

definition demo_music :: kernel where
  "demo_music = (set_slot 0 (process_empty\<lparr>pstate := Running, task := demo_task\<rparr>) (table_init song_vfs (\<lambda>n. None) (\<lambda>n. n < 2 ^ 24)))\<lparr>current := Some 0\<rparr>"

lemma demo_music_running: "running demo_music 0"
  unfolding demo_music_def by (rule started_running [OF song_wf]) (simp add: song_vfs_def)

lemma song_found: "resolve (kfs demo_music) (tcwd (task (slot demo_music 0))) (ascii ''song'') = Some (Some 1)"
proof -
  have "kfs demo_music = song_vfs" "tcwd (task (slot demo_music 0)) = 0"
    by (simp_all add: demo_music_def table_init_def set_slot_def slot_def MAX_PROCESSES_def demo_task_def usertask_empty_def)
  moreover have "resolve song_vfs 0 (ascii ''song'') = Some (Some 1)"
    unfolding resolve_tree [OF song_wf, of 0, simplified]
    by (simp add: tresolve_def starts_with_slash_def slash_def tstep_def cut_name_short NAME_MAX_def tentry_def)
  ultimately show ?thesis by simp
qed

theorem track_ends_witness:
  "running demo_music 0 \<and> codec_ok toy_codec \<and> resolve (kfs demo_music) (tcwd (task (slot demo_music 0))) (ascii ''song'') = Some (Some 1) \<and>
   (\<exists>k' j r. source_open toy_codec (kernel_sys demo_env 4096 (\<lambda>st. st)) (Some demo_music) (ascii ''song'') (ascii ''song'') = Some (Some k', r) \<and> running k' j \<and>
    (\<forall>src info. r = Inr (src, info) \<longrightarrow> rate info \<in> {44100, 48000} \<and> channels info \<in> {1, 2} \<and>
      (\<exists>k'' j' src'. drain toy_codec (kernel_sys demo_env 4096 (\<lambda>st. st)) (Some k') src (replicate CHUNK_BYTES 0) (channels info * 2) = Some (Some k'', src') \<and> running k'' j')))"
  using track_ends [OF demo_music_running toy_codec_ok, of demo_env 4096 "\<lambda>st. st" "ascii ''song''" "ascii ''song''"]
    demo_music_running toy_codec_ok song_found by blast

section \<open>The spectrum\<close>

definition spectrum_wf :: "spectrum \<Rightarrow> bool" where
  "spectrum_wf sp \<longleftrightarrow> length (levels sp) = N_BANDS \<and> length (peaks sp) = N_BANDS \<and> length (peak_age sp) = N_BANDS \<and> length (mono sp) = 2048 \<and>
     (\<forall>b < N_BANDS. levels sp ! b \<le> peaks sp ! b \<and> peaks sp ! b \<le> MAX_LEVEL \<and> peak_age sp ! b \<le> PEAK_HOLD)"

definition band_of :: "spectrum \<Rightarrow> nat \<Rightarrow> nat \<times> nat \<times> nat" where
  "band_of sp b = (levels sp ! b, peaks sp ! b, peak_age sp ! b)"

fun band_ok :: "nat \<times> nat \<times> nat \<Rightarrow> bool" where
  "band_ok (level, peak, age) \<longleftrightarrow> level \<le> peak \<and> peak \<le> MAX_LEVEL \<and> age \<le> PEAK_HOLD"

lemma spectrum_wf_bands:
  "spectrum_wf sp \<longleftrightarrow> length (levels sp) = N_BANDS \<and> length (peaks sp) = N_BANDS \<and> length (peak_age sp) = N_BANDS \<and> length (mono sp) = 2048 \<and>
     (\<forall>b < N_BANDS. band_ok (band_of sp b))"
  by (simp add: spectrum_wf_def band_of_def)

subsection \<open>One chunk\<close>

text \<open>The mono samples of a chunk, and the level at which a band then aims.\<close>

definition chunk_mono :: "nat \<Rightarrow> bytes \<Rightarrow> int list" where
  "chunk_mono ch pcm = map (\<lambda>i. the (mix pcm ch i)) [0..<min (length pcm div (ch * 2)) 2048]"

definition chunk_target :: "nat \<Rightarrow> nat \<Rightarrow> nat \<Rightarrow> bytes \<Rightarrow> nat" where
  "chunk_target ch rt b pcm = band_target (coeffs_of rt ! b) (chunk_mono ch pcm)"

lemma mix_in_range:
  assumes "ch \<in> {1, 2}" "i < length pcm div (ch * 2)"
  shows "\<exists>x. mix pcm ch i = Some x"
proof -
  from assms have "Suc i * (ch * 2) \<le> length pcm"
    by (subst less_eq_div_iff_mult_less_eq [symmetric]) auto
  with assms(1) show ?thesis by (auto simp: mix_def Let_def sample_at_def)
qed

lemma mix_loop_fills:
  assumes "ch \<in> {1, 2}"
  shows "n \<le> length m \<Longrightarrow> n \<le> length pcm div (ch * 2) \<Longrightarrow>
    mix_loop pcm ch [k..<n] m = Some (take k m @ map (\<lambda>i. the (mix pcm ch i)) [k..<n] @ drop (max k n) m)"
proof (induction "n - k" arbitrary: k m)
  case (Suc d)
  then have k: "k < n" "[k..<n] = k # [Suc k..<n]" by (simp_all add: upt_conv_Cons)
  obtain x where "mix pcm ch k = Some x" using mix_in_range [OF assms, of k pcm] k(1) Suc.prems(2) by auto
  with k Suc.prems Suc.hyps(1) [of "Suc k" "m[k := x]"] Suc.hyps(2) show ?case
    by (simp add: take_Suc_conv_app_nth drop_update_cancel max_absorb2 Suc_leI)
qed (simp add: max_absorb1)

lemma spectrum_update_bands:
  assumes w: "spectrum_wf sp" and c: "ch \<in> {1, 2}"
  obtains sp' where "spectrum_update sp pcm ch rt = Some sp'" "length (levels sp') = N_BANDS" "length (peaks sp') = N_BANDS"
    "length (peak_age sp') = N_BANDS" "length (mono sp') = 2048"
    "\<And>b. b < N_BANDS \<Longrightarrow> band_of sp' b = update_band (chunk_target ch rt b pcm) (band_of sp b)"
proof -
  define n where "n = min (length pcm div (ch * 2)) 2048"
  define m where "m = chunk_mono ch pcm @ drop n (mono sp)"
  define bands where "bands = map2 update_band (map (\<lambda>c. band_target c (chunk_mono ch pcm)) (coeffs_of rt)) (zip (levels sp) (zip (peaks sp) (peak_age sp)))"
  let ?sp = "sp\<lparr>levels := map fst bands, peaks := map (\<lambda>b. fst (snd b)) bands, peak_age := map (\<lambda>b. snd (snd b)) bands, mono := m\<rparr>"
  note l = w [unfolded spectrum_wf_def]
  have ml: "mix_loop pcm ch [0..<n] (mono sp) = Some m"
    using mix_loop_fills [OF c, of n "mono sp" pcm 0] l by (simp add: m_def chunk_mono_def n_def)
  have len: "length (chunk_mono ch pcm) = n" by (simp add: chunk_mono_def n_def)
  then have sl: "slice m 0 n = Some (chunk_mono ch pcm)" by (simp add: slice_def m_def)
  have cl: "length (coeffs_of rt) = N_BANDS" by (simp add: coeffs_of_def COEFF_44100_def COEFF_48000_def N_BANDS_def)
  then have bl: "length bands = N_BANDS" using l by (simp add: bands_def)
  have "min (length pcm div (ch * 2)) (length (mono sp)) = n" using l by (simp add: n_def)
  then have "spectrum_update sp pcm ch rt = Some ?sp"
    using c ml sl by (auto simp: spectrum_update_def Let_def bands_def)
  moreover have "band_of ?sp b = update_band (chunk_target ch rt b pcm) (band_of sp b)" if "b < N_BANDS" for b
    using that bl cl l by (simp add: band_of_def bands_def chunk_target_def)
  moreover have "length m = 2048" using l len by (simp add: m_def n_def)
  ultimately show ?thesis using bl by (intro that [of ?sp]) simp_all
qed

lemma band_target_le: "band_target c xs \<le> MAX_LEVEL"
  by (simp add: band_target_def MAX_LEVEL_def)

lemma update_band_ok: "t \<le> MAX_LEVEL \<Longrightarrow> band_ok b \<Longrightarrow> band_ok (update_band t b)"
  by (cases b) (auto simp: update_band_def Let_def)

subsection \<open>Many chunks\<close>

definition spectrum_run :: "nat \<Rightarrow> nat \<Rightarrow> bytes list \<Rightarrow> spectrum \<Rightarrow> spectrum option" where
  "spectrum_run ch rt pcms sp = foldl (\<lambda>r pcm. Option.bind r (\<lambda>sp. spectrum_update sp pcm ch rt)) (Some sp) pcms"

lemma spectrum_run_bands:
  assumes c: "ch \<in> {1, 2}" and w: "spectrum_wf sp"
  shows "\<exists>sp'. spectrum_run ch rt pcms sp = Some sp' \<and> spectrum_wf sp' \<and>
    (\<forall>b < N_BANDS. band_of sp' b = fold update_band (map (chunk_target ch rt b) pcms) (band_of sp b))"
proof (induction pcms rule: rev_induct)
  case Nil
  then show ?case using w by (simp add: spectrum_run_def)
next
  case (snoc pcm pcms)
  then obtain s1 where s1: "spectrum_run ch rt pcms sp = Some s1" "spectrum_wf s1"
    "\<forall>b < N_BANDS. band_of s1 b = fold update_band (map (chunk_target ch rt b) pcms) (band_of sp b)" by blast
  obtain s2 where s2: "spectrum_update s1 pcm ch rt = Some s2" "length (levels s2) = N_BANDS" "length (peaks s2) = N_BANDS"
    "length (peak_age s2) = N_BANDS" "length (mono s2) = 2048"
    "\<And>b. b < N_BANDS \<Longrightarrow> band_of s2 b = update_band (chunk_target ch rt b pcm) (band_of s1 b)"
    by (rule spectrum_update_bands [OF s1(2) c]) (rule that)
  have "spectrum_wf s2" unfolding spectrum_wf_bands
    using s2 s1(2) update_band_ok [OF band_target_le] by (simp add: spectrum_wf_bands chunk_target_def)
  with s1 s2 show ?case by (simp add: spectrum_run_def)
qed

text \<open>A peak that was just set is not older than the chunks since, and does not fall while it is held.\<close>

lemma peak_held:
  assumes "band_ok b" "snd (snd b) = 0" "length ts \<le> PEAK_HOLD"
  shows "fst (snd b) \<le> fst (snd (fold update_band ts b)) \<and> snd (snd (fold update_band ts b)) \<le> length ts"
  using assms(3)
proof (induction ts rule: rev_induct)
  case (snoc t ts)
  obtain l p a where f: "fold update_band ts b = (l, p, a)" by (metis prod_cases3)
  with snoc have "fst (snd b) \<le> p" "a \<le> length ts" "a < PEAK_HOLD" by auto
  then have "fst (snd b) \<le> fst (snd (update_band t (l, p, a))) \<and> snd (snd (update_band t (l, p, a))) \<le> Suc (length ts)"
    by (auto simp: update_band_def Let_def)
  with f show ?case by simp
qed (use assms(2) in simp)

text \<open>Silence: how many chunks a band needs at most to fall to nothing.\<close>

fun sinking :: "nat \<times> nat \<times> nat \<Rightarrow> nat" where
  "sinking (level, peak, age) = (if peak = 0 then 0 else peak + (PEAK_HOLD - age))"

lemma sink_step: "band_ok b \<Longrightarrow> band_ok (update_band 0 b) \<and> sinking (update_band 0 b) \<le> sinking b - 1"
  by (cases b) (auto simp: update_band_def Let_def DECAY_def)

lemma sink: "band_ok b \<Longrightarrow> band_ok (fold update_band (replicate n 0) b) \<and> sinking (fold update_band (replicate n 0) b) \<le> sinking b - n"
proof (induction n arbitrary: b)
  case (Suc n)
  from Suc.IH [of "update_band 0 b"] sink_step [OF Suc.prems] show ?case by auto
qed simp

lemma sunk:
  assumes "band_ok b" "PEAK_HOLD + MAX_LEVEL \<le> n"
  shows "fst (fold update_band (replicate n 0) b) = 0 \<and> fst (snd (fold update_band (replicate n 0) b)) = 0"
proof -
  obtain l p a where r: "fold update_band (replicate n 0) b = (l, p, a)" by (metis prod_cases3)
  have "sinking b \<le> n" using assms by (cases b) auto
  with sink [OF assms(1), of n] r show ?thesis by (auto split: if_splits)
qed

lemma silent_sample:
  assumes "\<forall>x \<in> set pcm. x = 0" "sample_at pcm k = Some v"
  shows "v = 0"
proof -
  from assms(2) have k: "k + 1 < length pcm" "v = i16_le [pcm ! k, pcm ! (k + 1)]" by (auto simp: sample_at_def split: if_splits)
  then have "pcm ! k = 0" "pcm ! (k + 1) = 0" using assms(1) by simp_all
  with k(2) show ?thesis by (simp add: i16_le_def)
qed

lemma silent_mix:
  assumes z: "\<forall>x \<in> set pcm. x = 0" and m: "mix pcm ch i = Some v"
  shows "v = 0"
proof (cases "ch = 2")
  case True
  with m obtain x y where "sample_at pcm (i * 4) = Some x" "sample_at pcm (i * 4 + 2) = Some y" "v = (x + y) sdiv 2"
    by (auto simp: mix_def Let_def split: bind_splits)
  with silent_sample [OF z] show ?thesis by (metis add.right_neutral signed_divide_int_def sgn_0 mult_zero_left)
next
  case False
  with m silent_sample [OF z, of "i * (ch * 2)" v] show ?thesis by (simp add: mix_def Let_def)
qed

lemma silent_target:
  assumes "\<forall>x \<in> set pcm. x = 0" "ch \<in> {1, 2}"
  shows "chunk_target ch rt b pcm = 0"
proof -
  have "chunk_mono ch pcm = replicate (min (length pcm div (ch * 2)) 2048) 0"
    unfolding chunk_mono_def by (rule replicate_eqI) (use silent_mix [OF assms(1)] mix_in_range [OF assms(2)] in fastforce)+
  moreover have "foldl (goertzel_step c) (0, 0) (replicate n 0) = (0, 0)" for c n
    by (induction n) (simp_all add: goertzel_step_def wrap64_def)
  ultimately show ?thesis
    by (simp add: chunk_target_def band_target_def goertzel_power_def wrap64_def bit_len.simps LEVEL_FLOOR_def)
qed

text \<open>A peak that the chunk before set stays through the chunks \<open>qs\<close>.\<close>

lemma peak_stays:
  assumes ch: "ch \<in> {1, 2}" and w: "spectrum_wf sp" and b: "b < N_BANDS" and q: "length qs \<le> PEAK_HOLD"
    and age: "peak_age sp ! b = 0"
  shows "\<exists>sp'. spectrum_run ch rt qs sp = Some sp' \<and> peaks sp ! b \<le> peaks sp' ! b"
proof -
  from spectrum_run_bands [OF ch w, of rt qs] obtain sp' where sp': "spectrum_run ch rt qs sp = Some sp'"
    "band_of sp' b = fold update_band (map (chunk_target ch rt b) qs) (band_of sp b)" using b by blast
  have "band_ok (band_of sp b)" using w b by (simp add: spectrum_wf_bands)
  from peak_held [OF this, of "map (chunk_target ch rt b) qs", folded sp'(2)] age q have "peaks sp ! b \<le> peaks sp' ! b"
    by (simp add: band_of_def)
  with sp'(1) show ?thesis by blast
qed

lemma next_chunk:
  assumes ch: "ch \<in> {1, 2}" and w: "spectrum_wf sp"
  shows "\<exists>sp'. spectrum_update sp pcm ch rt = Some sp' \<and> (\<forall>b < N_BANDS.
       levels sp' ! b = max (chunk_target ch rt b pcm) (levels sp ! b - DECAY) \<and>
       (peaks sp ! b \<le> levels sp' ! b \<longrightarrow> (\<forall>qs. length qs \<le> PEAK_HOLD \<longrightarrow>
          (\<exists>sp''. spectrum_run ch rt qs sp' = Some sp'' \<and> levels sp' ! b \<le> peaks sp'' ! b))))"
proof -
  from spectrum_run_bands [OF ch w, of rt "[pcm]"] obtain s1 where
    s1: "spectrum_update sp pcm ch rt = Some s1" "spectrum_wf s1" "\<And>b. b < N_BANDS \<Longrightarrow> band_of s1 b = update_band (chunk_target ch rt b pcm) (band_of sp b)"
    by (auto simp: spectrum_run_def)
  have "levels s1 ! b = max (chunk_target ch rt b pcm) (levels sp ! b - DECAY)" if "b < N_BANDS" for b
    using s1(3) [OF that] by (auto simp: band_of_def update_band_def Let_def split: if_splits)
  moreover have "peaks s1 ! b = levels s1 ! b" "peak_age s1 ! b = 0" if "b < N_BANDS" "peaks sp ! b \<le> levels s1 ! b" for b
    using s1(3) [OF that(1)] that(2) by (auto simp: band_of_def update_band_def Let_def split: if_splits)
  ultimately show ?thesis using s1(1) peak_stays [OF ch s1(2)] by metis
qed

lemma falls_silent:
  assumes ch: "ch \<in> {1, 2}" and w: "spectrum_wf sp" and q: "PEAK_HOLD + MAX_LEVEL \<le> length qs" "\<forall>q \<in> set qs. \<forall>x \<in> set q. x = 0"
  shows "\<exists>sp'. spectrum_run ch rt qs sp = Some sp' \<and> levels sp' = replicate N_BANDS 0 \<and> peaks sp' = replicate N_BANDS 0"
proof -
  from spectrum_run_bands [OF ch w, of rt qs] obtain s2 where s2: "spectrum_run ch rt qs sp = Some s2" "spectrum_wf s2"
    "\<And>b. b < N_BANDS \<Longrightarrow> band_of s2 b = fold update_band (map (chunk_target ch rt b) qs) (band_of sp b)" by blast
  have "map (chunk_target ch rt b) qs = replicate (length qs) 0" for b
    by (rule replicate_eqI) (use q(2) silent_target [OF _ ch] in auto)
  moreover have "band_ok (band_of sp b)" if "b < N_BANDS" for b using w that by (simp add: spectrum_wf_bands)
  ultimately have "fst (band_of s2 b) = 0 \<and> fst (snd (band_of s2 b)) = 0" if "b < N_BANDS" for b
    using s2(3) sunk [OF _ q(1)] that by metis
  then have "levels s2 ! b = 0 \<and> peaks s2 ! b = 0" if "b < N_BANDS" for b using that by (simp add: band_of_def)
  with s2(1,2) show ?thesis by (auto simp: spectrum_wf_def intro!: nth_equalityI)
qed

text \<open>
  C40: the spectrum over any sequence of chunks of a mono or stereo track, from its start. No chunk, of any length, makes the
  update index outside the chunk or its own arrays. There are twenty bands, with the level at most the peak and the peak at most
  \<^verbatim>\<open>MAX_LEVEL\<close>. The next chunk takes the level of a band straight up to what its filter measures on the chunk's mono samples, and down by no more than
  \<^verbatim>\<open>DECAY\<close>. A peak that a chunk sets stays for the next \<^verbatim>\<open>PEAK_HOLD\<close> chunks, whatever they hold. After
  \<^verbatim>\<open>PEAK_HOLD + MAX_LEVEL\<close> chunks of silence all bars and peaks are down.
\<close>

theorem spectrum_correct:
  assumes ch: "ch \<in> {1, 2}"
  shows "\<exists>sp. spectrum_run ch rt pcms spectrum_new = Some sp \<and> spectrum_wf sp \<and>
    (\<forall>pcm. \<exists>sp'. spectrum_update sp pcm ch rt = Some sp' \<and> (\<forall>b < N_BANDS.
       levels sp' ! b = max (chunk_target ch rt b pcm) (levels sp ! b - DECAY) \<and>
       (peaks sp ! b \<le> levels sp' ! b \<longrightarrow> (\<forall>qs. length qs \<le> PEAK_HOLD \<longrightarrow>
          (\<exists>sp''. spectrum_run ch rt qs sp' = Some sp'' \<and> levels sp' ! b \<le> peaks sp'' ! b))))) \<and>
    (\<forall>qs. PEAK_HOLD + MAX_LEVEL \<le> length qs \<and> (\<forall>q \<in> set qs. \<forall>x \<in> set q. x = 0) \<longrightarrow>
       (\<exists>sp''. spectrum_run ch rt qs sp = Some sp'' \<and> levels sp'' = replicate N_BANDS 0 \<and> peaks sp'' = replicate N_BANDS 0))"
proof -
  have "spectrum_wf spectrum_new" by (simp add: spectrum_wf_def spectrum_new_def)
  from spectrum_run_bands [OF ch this] obtain sp where sp: "spectrum_run ch rt pcms spectrum_new = Some sp" "spectrum_wf sp" by blast
  with next_chunk [OF ch sp(2)] falls_silent [OF ch sp(2)] show ?thesis by blast
qed

text \<open>Two stereo chunks, one with a last sample that is cut off.\<close>

theorem spectrum_correct_witness:
  "\<exists>sp. spectrum_run 2 48000 [[1, 0, 255, 127], [3]] spectrum_new = Some sp \<and> spectrum_wf sp \<and>
    (\<exists>sp''. spectrum_run 2 48000 (replicate 35 [0, 0, 0, 0]) sp = Some sp'' \<and> levels sp'' = replicate N_BANDS 0 \<and> peaks sp'' = replicate N_BANDS 0)"
proof -
  obtain sp where "spectrum_run 2 48000 [[1, 0, 255, 127], [3]] spectrum_new = Some sp" "spectrum_wf sp"
    "\<forall>qs. PEAK_HOLD + MAX_LEVEL \<le> length qs \<and> (\<forall>q \<in> set qs. \<forall>x \<in> set q. x = 0) \<longrightarrow>
       (\<exists>sp''. spectrum_run 2 48000 qs sp = Some sp'' \<and> levels sp'' = replicate N_BANDS 0 \<and> peaks sp'' = replicate N_BANDS 0)"
    using spectrum_correct [of 2 48000 "[[1, 0, 255, 127], [3]]"] by auto
  then show ?thesis by (auto simp: PEAK_HOLD_def MAX_LEVEL_def)
qed

end
