(* ===== verification/Elf.thy ===== *)
theory Elf
  imports VmmProps BlockHeap
begin

text \<open>
  The ELF loader, \<^verbatim>\<open>kernel/src/exec/elf.rs\<close>, on the page tables of theory \<open>Vmm\<close>. Memory is written through the
  direct map, so a kernel pointer is the physical address it stands for; \<open>None\<close> is an access outside RAM or a
  read outside the image. The 64-bit arithmetic of the loader wraps. Each message it prints is a value of
  \<open>elf_error\<close>.
\<close>

section \<open>Bytes of physical memory\<close>

definition page_bytes :: "u64 list \<Rightarrow> bytes" where
  "page_bytes t = concat (map (\<lambda>w. to_le 8 (unat w)) t)"

definition bytes_page :: "bytes \<Rightarrow> u64 list" where
  "bytes_page bs = map (\<lambda>c. of_nat (of_le c)) (chunks 8 bs)"

definition page_base :: "nat \<Rightarrow> nat" where
  "page_base p = p - p mod PAGE_SIZE"

definition peek_phys :: "vm \<Rightarrow> nat \<Rightarrow> u8 option" where
  "peek_phys s p = map_option (\<lambda>t. page_bytes t ! (p mod PAGE_SIZE)) (ram s (page_base p))"

definition poke_phys :: "nat \<Rightarrow> u8 \<Rightarrow> vm \<Rightarrow> vm option" where
  "poke_phys p b s = do {
     t \<leftarrow> ram s (page_base p);
     put_page (page_base p) (bytes_page ((page_bytes t)[p mod PAGE_SIZE := b])) s }"

fun poke_bytes :: "nat \<Rightarrow> bytes \<Rightarrow> vm \<Rightarrow> vm option" where
  "poke_bytes p [] s = Some s"
| "poke_bytes p (b # bs) s = do { s \<leftarrow> poke_phys p b s; poke_bytes (p + 1) bs s }"

definition peek_bytes :: "vm \<Rightarrow> nat \<Rightarrow> nat \<Rightarrow> bytes option" where
  "peek_bytes s p n = those (map (peek_phys s) [p..<p + n])"

section \<open>The file\<close>

definition KERNEL_STACK_SIZE :: nat where "KERNEL_STACK_SIZE = 16 * 1024"
definition PT_LOAD :: nat where "PT_LOAD = 1"
definition EM_X86_64 :: nat where "EM_X86_64 = 62"
definition ELFCLASS64 :: u8 where "ELFCLASS64 = 2"
definition ELFDATA2LSB :: u8 where "ELFDATA2LSB = 1"
definition USER_STACK_TOP :: nat where "USER_STACK_TOP = 0x0000700000000000"
definition MAX_LOAD_SEGMENTS :: nat where "MAX_LOAD_SEGMENTS = 16"
definition USER_STACK_PAGES :: nat where "USER_STACK_PAGES = 16"
definition MAX_ARGS :: nat where "MAX_ARGS = 16"
definition MAX_ARG_LEN :: nat where "MAX_ARG_LEN = 128"

record ehdr =
  e_ident :: bytes
  e_type :: nat
  e_machine :: nat
  e_version :: nat
  e_entry :: nat
  e_phoff :: nat
  e_shoff :: nat
  e_flags :: nat
  e_ehsize :: nat
  e_phentsize :: nat
  e_phnum :: nat
  e_shentsize :: nat
  e_shnum :: nat
  e_shstrndx :: nat

definition EHDR_SIZE :: nat where "EHDR_SIZE = 64"

definition ehdr_at :: "bytes \<Rightarrow> ehdr" where
  "ehdr_at b = \<lparr>e_ident = take 16 b, e_type = field 16 2 b, e_machine = field 18 2 b, e_version = field 20 4 b, e_entry = field 24 8 b,
     e_phoff = field 32 8 b, e_shoff = field 40 8 b, e_flags = field 48 4 b, e_ehsize = field 52 2 b, e_phentsize = field 54 2 b,
     e_phnum = field 56 2 b, e_shentsize = field 58 2 b, e_shnum = field 60 2 b, e_shstrndx = field 62 2 b\<rparr>"

record phdr =
  p_type :: nat
  p_flags :: nat
  p_offset :: nat
  p_vaddr :: nat
  p_paddr :: nat
  p_filesz :: nat
  p_memsz :: nat
  p_align :: nat

definition PHDR_SIZE :: nat where "PHDR_SIZE = 56"

definition phdr_at :: "bytes \<Rightarrow> phdr" where
  "phdr_at b = \<lparr>p_type = field 0 4 b, p_flags = field 4 4 b, p_offset = field 8 8 b, p_vaddr = field 16 8 b, p_paddr = field 24 8 b,
     p_filesz = field 32 8 b, p_memsz = field 40 8 b, p_align = field 48 8 b\<rparr>"

definition w64 :: "nat \<Rightarrow> nat" where
  "w64 n = n mod 2 ^ 64"

definition minus64 :: "nat \<Rightarrow> nat \<Rightarrow> nat" where
  "minus64 m n = w64 (m + (2 ^ 64 - n))"

datatype elf_error = TooSmall | NotElf | NotElf64 | NotX86_64 | HeadersOutOfBounds | SegmentOutOfBounds nat
  | NoSegmentMemory nat nat | NoStackMemory | NoKernelStack | ArgumentsTooLong

section \<open>Segments\<close>

text \<open>A loaded segment: its first page, its number of pages, and where they are.\<close>

type_synonym loaded = "(nat \<times> nat \<times> nat) list"

definition shared_at :: "loaded \<Rightarrow> nat \<Rightarrow> nat option" where
  "shared_at ls vpage = map_option (\<lambda>(start, n, k). k + (vpage - start))
     (find (\<lambda>(start, n, k). start \<le> vpage \<and> vpage < w64 (start + n * PAGE_SIZE)) ls)"

definition place_page :: "nat \<Rightarrow> loaded \<Rightarrow> nat \<Rightarrow> nat \<Rightarrow> nat \<Rightarrow> nat \<Rightarrow> nat \<Rightarrow> vm \<Rightarrow> vm option" where
  "place_page aspace ls vaddr seg_start seg_end base_phys p s =
     (let vpage = w64 (seg_start + p * PAGE_SIZE)
      in case shared_at ls vpage of
           None \<Rightarrow> vmap s aspace (of_nat vpage) (of_nat (base_phys + p * PAGE_SIZE)) (PAGE_PRESENT OR PAGE_WRITABLE OR PAGE_USER)
         | Some shared \<Rightarrow>
             let from = max vaddr vpage; to = min seg_end (w64 (vpage + PAGE_SIZE))
             in do {
               own \<leftarrow> peek_bytes s (base_phys + minus64 from seg_start) (minus64 to from);
               s \<leftarrow> poke_bytes (shared + (from - vpage)) own s;
               Some (release_page (base_phys + p * PAGE_SIZE) s) })"

fun place_pages :: "nat \<Rightarrow> loaded \<Rightarrow> nat \<Rightarrow> nat \<Rightarrow> nat \<Rightarrow> nat \<Rightarrow> nat list \<Rightarrow> vm \<Rightarrow> vm option" where
  "place_pages aspace ls vaddr seg_start seg_end base_phys [] s = Some s"
| "place_pages aspace ls vaddr seg_start seg_end base_phys (p # ps) s = do {
     s \<leftarrow> place_page aspace ls vaddr seg_start seg_end base_phys p s;
     place_pages aspace ls vaddr seg_start seg_end base_phys ps s }"

definition load_segment :: "bytes \<Rightarrow> nat \<Rightarrow> phdr \<Rightarrow> nat \<Rightarrow> loaded \<Rightarrow> nat \<Rightarrow> vm \<Rightarrow> (vm \<times> (elf_error + loaded \<times> nat)) option" where
  "load_segment img i ph aspace ls heap_base s =
     (if w64 (p_offset ph + p_filesz ph) > length img \<or> p_filesz ph > p_memsz ph then Some (s, Inl (SegmentOutOfBounds i))
      else let vaddr = p_vaddr ph;
               seg_start = vaddr - vaddr mod PAGE_SIZE;
               seg_end = w64 (vaddr + p_memsz ph);
               pages = div_ceil (minus64 seg_end seg_start) PAGE_SIZE;
               (base_phys, pm) = alloc_pages (vpmm s) pages;
               s = s\<lparr>vpmm := pm\<rparr>
           in if base_phys = 0 then Some (s, Inl (NoSegmentMemory i pages))
              else do {
                s \<leftarrow> poke_bytes base_phys (replicate (pages * PAGE_SIZE) 0) s;
                file \<leftarrow> slice img (p_offset ph) (p_offset ph + p_filesz ph);
                s \<leftarrow> poke_bytes (base_phys + (vaddr - seg_start)) file s;
                s \<leftarrow> place_pages aspace ls vaddr seg_start seg_end base_phys [0..<pages] s;
                Some (s, Inr (if length ls < MAX_LOAD_SEGMENTS then ls @ [(seg_start, pages, base_phys)] else ls,
                  max heap_base (w64 (seg_start + pages * PAGE_SIZE)))) })"

fun load_segments :: "bytes \<Rightarrow> nat \<Rightarrow> nat \<Rightarrow> nat list \<Rightarrow> nat \<Rightarrow> loaded \<Rightarrow> nat \<Rightarrow> vm \<Rightarrow> (vm \<times> (elf_error + nat)) option" where
  "load_segments img phoff phentsize [] aspace ls heap_base s = Some (s, Inr heap_base)"
| "load_segments img phoff phentsize (i # is) aspace ls heap_base s = do {
     let at = w64 (phoff + i * phentsize);
     b \<leftarrow> slice img at (at + PHDR_SIZE);
     let ph = phdr_at b;
     if p_type ph \<noteq> PT_LOAD then load_segments img phoff phentsize is aspace ls heap_base s
     else do {
       (s, r) \<leftarrow> load_segment img i ph aspace ls heap_base s;
       case r of Inl e \<Rightarrow> Some (s, Inl e)
       | Inr (ls, heap_base) \<Rightarrow> load_segments img phoff phentsize is aspace ls heap_base s } }"

section \<open>The stacks\<close>

definition stack_base :: nat where
  "stack_base = USER_STACK_TOP - USER_STACK_PAGES * PAGE_SIZE"

fun map_stack :: "nat \<Rightarrow> nat \<Rightarrow> nat list \<Rightarrow> vm \<Rightarrow> vm option" where
  "map_stack aspace stack_phys [] s = Some s"
| "map_stack aspace stack_phys (p # ps) s = do {
     s \<leftarrow> vmap s aspace (of_nat (stack_base + p * PAGE_SIZE)) (of_nat (stack_phys + p * PAGE_SIZE)) (PAGE_PRESENT OR PAGE_WRITABLE OR PAGE_USER);
     map_stack aspace stack_phys ps s }"

text \<open>The kernel heap takes its pages from the same allocator.\<close>

definition alloc_kernel_stack :: "vm \<Rightarrow> kheap \<Rightarrow> (vm \<times> kheap \<times> nat option) option" where
  "alloc_kernel_stack s h = do {
     (h, base) \<leftarrow> k_alloc (h\<lparr>kpmm := vpmm s\<rparr>) KERNEL_STACK_SIZE 16;
     Some (s\<lparr>vpmm := kpmm h\<rparr>, h, if base = 0 then None else Some (base + KERNEL_STACK_SIZE)) }"

definition free_kernel_stack :: "kheap \<Rightarrow> nat \<Rightarrow> kheap option" where
  "free_kernel_stack h top' = k_dealloc h (top' - KERNEL_STACK_SIZE) 16"

text \<open>The argument strings, the last one highest; the addresses of all of them.\<close>

fun push_args :: "nat \<Rightarrow> bytes list \<Rightarrow> nat \<Rightarrow> nat list \<Rightarrow> vm \<Rightarrow> (vm \<times> nat \<times> nat list) option" where
  "push_args stack_phys [] sp ptrs s = Some (s, sp, ptrs)"
| "push_args stack_phys (arg # args) sp ptrs s =
     (let len = min (length arg) (MAX_ARG_LEN - 1); sp = sp - (len + 1)
      in do {
        s \<leftarrow> poke_bytes (stack_phys + (sp - stack_base)) (take len arg @ [0]) s;
        push_args stack_phys args sp (sp # ptrs) s })"

definition push_frame :: "nat \<Rightarrow> bytes list \<Rightarrow> vm \<Rightarrow> (vm \<times> nat option) option" where
  "push_frame stack_phys argv s = do {
     let argv = take (min (length argv) MAX_ARGS) argv;
     (s, sp, ptrs) \<leftarrow> push_args stack_phys (rev argv) USER_STACK_TOP [] s;
     let n = length argv;
     let sp = sp - (1 + n + 1 + 1 + 2) * 8;
     let sp = sp - sp mod 16;
     if sp < stack_base then Some (s, None)
     else do {
       s \<leftarrow> poke_bytes (stack_phys + (sp - stack_base)) (concat (map (to_le 8) (n # ptrs @ replicate 4 0))) s;
       Some (s, Some sp) } }"

section \<open>Loading\<close>

record elf_task =
  entry :: nat
  user_stack_top :: nat
  kernel_stack_top :: nat
  aspace :: nat
  heap_start :: nat
  heap_end :: nat
  cwd :: nat

definition check_ehdr :: "bytes \<Rightarrow> elf_error option" where
  "check_ehdr img =
     (let eh = ehdr_at img
      in if length img < EHDR_SIZE then Some TooSmall
         else if take 4 (e_ident eh) \<noteq> 0x7F # ascii ''ELF'' then Some NotElf
         else if e_ident eh ! 4 \<noteq> ELFCLASS64 \<or> e_ident eh ! 5 \<noteq> ELFDATA2LSB then Some NotElf64
         else if e_machine eh \<noteq> EM_X86_64 then Some NotX86_64
         else if w64 (e_phoff eh + e_phnum eh * e_phentsize eh) > length img then Some HeadersOutOfBounds
         else None)"

text \<open>The address space with the segments and the stack, the stack's pages and the start of the heap.\<close>

definition load_space :: "bytes \<Rightarrow> vm \<Rightarrow> (vm \<times> (elf_error + nat \<times> nat \<times> nat)) option" where
  "load_space img s = do {
     let eh = ehdr_at img;
     (s, aspace) \<leftarrow> new_address_space s;
     (s, r) \<leftarrow> load_segments img (e_phoff eh) (e_phentsize eh) [0..<e_phnum eh] aspace [] 0 s;
     case r of Inl e \<Rightarrow> Some (s, Inl e)
     | Inr heap_base \<Rightarrow>
         let (stack_phys, pm) = alloc_pages (vpmm s) USER_STACK_PAGES; s = s\<lparr>vpmm := pm\<rparr>
         in if stack_phys = 0 then Some (s, Inl NoStackMemory)
            else do {
              s \<leftarrow> poke_bytes stack_phys (replicate (USER_STACK_PAGES * PAGE_SIZE) 0) s;
              s \<leftarrow> map_stack aspace stack_phys [0..<USER_STACK_PAGES] s;
              Some (s, Inr (aspace, stack_phys, heap_base)) } }"

text \<open>
  The fields of the new task that depend on the file; its terminal settings are the default ones and its
  descriptors free, as in an empty task. A null working directory is the root.
\<close>

definition load :: "nat \<Rightarrow> bytes \<Rightarrow> bytes list \<Rightarrow> nat \<Rightarrow> vm \<Rightarrow> kheap \<Rightarrow> (vm \<times> kheap \<times> (elf_error + elf_task)) option" where
  "load root img argv dir s h =
     (case check_ehdr img of Some e \<Rightarrow> Some (s, h, Inl e)
      | None \<Rightarrow> do {
          (s, r) \<leftarrow> load_space img s;
          case r of Inl e \<Rightarrow> Some (s, h, Inl e)
          | Inr (as, stack_phys, heap_base) \<Rightarrow> do {
              (s, h, kstack) \<leftarrow> alloc_kernel_stack s h;
              case kstack of None \<Rightarrow> Some (s, h, Inl NoKernelStack)
              | Some kernel_top \<Rightarrow> do {
                  let heap_base = (if heap_base = 0 then 0x600000 else heap_base);
                  (s, r) \<leftarrow> push_frame stack_phys argv s;
                  Some (s, h, case r of None \<Rightarrow> Inl ArgumentsTooLong
                    | Some sp \<Rightarrow> Inr \<lparr>entry = e_entry (ehdr_at img), user_stack_top = sp, kernel_stack_top = kernel_top, aspace = as,
                        heap_start = heap_base, heap_end = heap_base, cwd = (if dir = 0 then root else dir)\<rparr>) } } })"

end
