(* ===== verification/ElfMem.thy ===== *)
theory ElfMem
  imports Elf
begin

text \<open>
  The memory a loader works on: bytes of physical pages, and an address space as a map from page numbers to
  frames, beside the pages the loader holds and has not mapped. Each primitive the loader uses is an update of
  this view that leaves every other address space alone.
\<close>

section \<open>Bytes\<close>

lemma to_le_of_le: "to_le (length bs) (of_le bs) = bs"
proof (induction bs)
  case (Cons b bs)
  have u: "unat b < 256" using unsigned_less [of b] by simp
  have "(word_of_nat (unat b + 256 * of_le bs) :: u8) = word_of_nat (unat b)"
    by (rule word_of_nat_eq_iff [THEN iffD2]) (simp add: take_bit_eq_mod)
  with Cons u show ?case by simp
qed simp

lemma length_page_bytes [simp]: "length (page_bytes t) = 8 * length t"
  by (induction t) (simp_all add: page_bytes_def)

lemma chunks_length: "length bs = 8 * n \<Longrightarrow> length (chunks 8 bs) = n \<and> (\<forall>c \<in> set (chunks 8 bs). length c = 8)"
proof (induction n arbitrary: bs)
  case (Suc n)
  then have "bs \<noteq> []" by auto
  then have "chunks 8 bs = take 8 bs # chunks 8 (drop 8 bs)" by (intro chunks_step) auto
  with Suc.IH [of "drop 8 bs"] Suc.prems show ?case by simp
qed simp

lemma page_of_bytes:
  assumes "length bs = 8 * n"
  shows "length (bytes_page bs) = n" "page_bytes (bytes_page bs) = bs"
proof -
  note c = chunks_length [OF assms]
  then show "length (bytes_page bs) = n" by (simp add: bytes_page_def)
  have "to_le 8 (unat (of_nat (of_le x) :: u64)) = x" if "length x = 8" for x
    using to_le_of_le [of x] of_le_bound [of x] that by (simp add: unat_of_nat)
  with c have "map (\<lambda>w. to_le 8 (unat w)) (bytes_page bs) = chunks 8 bs"
    by (simp add: bytes_page_def map_idI)
  then show "page_bytes (bytes_page bs) = bs" by (simp add: page_bytes_def concat_pieces)
qed

lemma page_split: "page_base p + p mod PAGE_SIZE = p" "page_base p mod PAGE_SIZE = 0"
  by (simp_all add: page_base_def minus_mod_eq_mult_div)

lemma page_base_at [simp]: "f mod PAGE_SIZE = 0 \<Longrightarrow> r < PAGE_SIZE \<Longrightarrow> page_base (f + r) = f \<and> (f + r) mod PAGE_SIZE = r"
  by (auto simp: page_base_def mod_add_eq [of f, symmetric])

text \<open>A step that writes only the pages of a set, and leaves pages pages.\<close>

definition data_step :: "nat set \<Rightarrow> vm \<Rightarrow> vm \<Rightarrow> bool" where
  "data_step X s s' \<longleftrightarrow> vpmm s' = vpmm s \<and> cr3 s' = cr3 s \<and> (\<forall>q. q \<notin> X \<longrightarrow> ram s' q = ram s q) \<and>
     (\<forall>q. page_ok (ram s) q \<longrightarrow> page_ok (ram s') q)"

lemma data_step_refl: "data_step X s s"
  by (simp add: data_step_def)

lemma data_step_trans: "data_step X s t \<Longrightarrow> data_step X t u \<Longrightarrow> data_step X s u"
  by (auto simp: data_step_def)

lemma poke_phys_ok:
  assumes "page_ok (ram s) (page_base p)" "page_base p \<in> X"
  shows "\<exists>s'. poke_phys p b s = Some s' \<and> data_step X s s' \<and> (\<forall>x. peek_phys s' x = (if x = p then Some b else peek_phys s x))"
proof -
  from assms(1) obtain t where t: "ram s (page_base p) = Some t" "length t = ENTRIES" by (auto simp: page_ok_def)
  let ?bs = "(page_bytes t)[p mod PAGE_SIZE := b]"
  have l: "length ?bs = 8 * ENTRIES" "p mod PAGE_SIZE < 8 * ENTRIES" using t(2) by (simp_all add: PAGE_SIZE_def ENTRIES_def)
  let ?s = "s\<lparr>ram := (ram s)(page_base p \<mapsto> bytes_page ?bs)\<rparr>"
  have "poke_phys p b s = Some ?s" using t(1) by (simp add: poke_phys_def put_page_def)
  moreover have "data_step X s ?s" using assms(2) page_of_bytes(1) [OF l(1)] by (auto simp: data_step_def page_ok_def)
  moreover have "peek_phys ?s x = (if x = p then Some b else peek_phys s x)" for x
  proof (cases "page_base x = page_base p")
    case True
    then have "x mod PAGE_SIZE = p mod PAGE_SIZE \<longleftrightarrow> x = p" by (metis page_split(1))
    then have "?bs ! (x mod PAGE_SIZE) = (if x = p then b else page_bytes t ! (x mod PAGE_SIZE))"
      using l(2) t(2) by (metis length_page_bytes nth_list_update)
    moreover have "peek_phys ?s x = Some (?bs ! (x mod PAGE_SIZE))" unfolding peek_phys_def True by (simp add: page_of_bytes(2) [OF l(1)])
    moreover have "peek_phys s x = Some (page_bytes t ! (x mod PAGE_SIZE))" unfolding peek_phys_def True using t(1) by simp
    ultimately show ?thesis by simp
  next
    case False
    then have "x \<noteq> p" by auto
    with False show ?thesis by (simp add: peek_phys_def)
  qed
  ultimately show ?thesis by blast
qed

lemma poke_bytes_ok:
  "(\<And>i. i < length bs \<Longrightarrow> page_ok (ram s) (page_base (p + i)) \<and> page_base (p + i) \<in> X) \<Longrightarrow>
   \<exists>s'. poke_bytes p bs s = Some s' \<and> data_step X s s' \<and>
     (\<forall>x. peek_phys s' x = (if p \<le> x \<and> x < p + length bs then Some (bs ! (x - p)) else peek_phys s x))"
proof (induction bs arbitrary: p s)
  case Nil
  then show ?case by (auto simp: data_step_refl)
next
  case (Cons b bs)
  from Cons.prems [of 0] obtain s1 where s1: "poke_phys p b s = Some s1" "data_step X s s1"
      "\<forall>x. peek_phys s1 x = (if x = p then Some b else peek_phys s x)"
    using poke_phys_ok [of s p X b] by auto
  have "page_ok (ram s1) (page_base (p + 1 + i)) \<and> page_base (p + 1 + i) \<in> X" if "i < length bs" for i
    using Cons.prems [of "Suc i"] that s1(2) by (simp add: data_step_def)
  from Cons.IH [of s1 "p + 1", OF this] obtain s2 where s2: "poke_bytes (p + 1) bs s1 = Some s2" "data_step X s1 s2"
      "\<forall>x. peek_phys s2 x = (if p + 1 \<le> x \<and> x < p + 1 + length bs then Some (bs ! (x - (p + 1))) else peek_phys s1 x)" by blast
  have "peek_phys s2 x = (if p \<le> x \<and> x < p + length (b # bs) then Some ((b # bs) ! (x - p)) else peek_phys s x)" for x
    using s1(3) s2(3) by (auto simp: nth_Cons' le_Suc_eq)
  with s1(1) s2(1) data_step_trans [OF s1(2) s2(2)] show ?case by auto
qed

lemma peek_bytes_Some: "(\<And>i. i < n \<Longrightarrow> peek_phys s (p + i) = Some (g i)) \<Longrightarrow> peek_bytes s p n = Some (map g [0..<n])"
proof (induction n)
  case (Suc n)
  have snoc: "those (xs @ [y]) = (case those xs of None \<Rightarrow> None | Some zs \<Rightarrow> map_option (\<lambda>z. zs @ [z]) y)" for xs :: "'a option list" and y
    by (induction xs) (auto simp: option.map_comp comp_def split: option.splits)
  from Suc show ?case by (simp add: peek_bytes_def snoc)
qed (simp add: peek_bytes_def)

section \<open>Addresses\<close>

definition USER_PAGES :: nat where "USER_PAGES = 2 ^ 35"

text \<open>The path of a page number.\<close>

definition upage :: "nat \<Rightarrow> nat list" where
  "upage k = [k div 2 ^ 27 mod 512, k div 2 ^ 18 mod 512, k div 2 ^ 9 mod 512, k mod 512]"

lemma index_of_nat: "v < 2 ^ 64 \<Longrightarrow> index (of_nat v) n = v div 2 ^ n mod 512"
  unfolding index_eq unsigned_take_bit_eq unsigned_drop_bit_eq by (simp add: unat_of_nat take_bit_eq_mod drop_bit_eq_div)

lemma path_of_nat:
  assumes "v < 2 ^ 47"
  shows "path (of_nat v) = upage (v div PAGE_SIZE)" "user_addr (of_nat v)"
proof -
  have v: "v < 2 ^ 64" using assms by simp
  have d: "v div 2 ^ (12 + n) = v div PAGE_SIZE div 2 ^ n" for n by (simp add: PAGE_SIZE_def power_add div_mult2_eq)
  show "path (of_nat v) = upage (v div PAGE_SIZE)"
    using d [of 27] d [of 18] d [of 9] d [of 0] by (simp add: path_def index_of_nat [OF v] upage_def)
  have "v div 2 ^ 39 < 256" using assms by (simp add: less_mult_imp_div_less)
  then show "user_addr (of_nat v)" by (simp add: user_addr_def index_of_nat [OF v] ENTRIES_def)
qed

lemma upath_upage: "k < USER_PAGES \<Longrightarrow> upath (upage k)" "length (upage k) = 4"
  by (auto simp: upath_def upage_def ENTRIES_def USER_PAGES_def less_mult_imp_div_less)

lemma upage_inj:
  assumes "upage j = upage k" "j < USER_PAGES" "k < USER_PAGES"
  shows "j = k"
proof -
  have e: "n = (((n div 2 ^ 27 mod 512) * 512 + n div 2 ^ 18 mod 512) * 512 + n div 2 ^ 9 mod 512) * 512 + n mod 512" if "n < USER_PAGES" for n
  proof -
    have "n div 2 ^ 27 < 512" using that by (simp add: USER_PAGES_def less_mult_imp_div_less)
    moreover have "n div 2 ^ 9 = n div 2 ^ 18 * 512 + n div 2 ^ 9 mod 512" "n div 2 ^ 18 = n div 2 ^ 27 * 512 + n div 2 ^ 18 mod 512"
      using div_mult_mod_eq [of "n div 2 ^ 9" 512] div_mult_mod_eq [of "n div 2 ^ 18" 512] by (simp_all add: div_mult2_eq [symmetric])
    moreover have "n = n div 2 ^ 9 * 512 + n mod 512" by simp
    ultimately show ?thesis by simp
  qed
  from assms(1) e [OF assms(2)] e [OF assms(3)] show ?thesis unfolding upage_def by (metis list.inject)
qed

section \<open>The view of an address space\<close>

definition frame_of :: "vm \<Rightarrow> nat \<Rightarrow> nat \<Rightarrow> nat option" where
  "frame_of s a k = node (look (ram s)) a (upage k)"

text \<open>A page that holds a table of some address space.\<close>

definition is_table :: "vm \<Rightarrow> nat set \<Rightarrow> nat \<Rightarrow> bool" where
  "is_table s A q \<longleftrightarrow> (\<exists>a \<in> A. \<exists>js. upath js \<and> length js \<le> 3 \<and> node (look (ram s)) a js = Some q)"

text \<open>Writing pages that are not tables changes no translation.\<close>

lemma data_step_pte:
  assumes d: "data_step X s s'" and X: "\<And>q. q \<in> X \<Longrightarrow> \<not> is_table s A q" and a: "a \<in> A" and u: "upath js"
  shows "pte (look (ram s')) a js = pte (look (ram s)) a js" "node (look (ram s')) a js = node (look (ram s)) a js"
proof -
  have *: "look (ram s') q i = look (ram s) q i" if "js = ks @ i # ls" "node (look (ram s)) a ks = Some q" for ks i ls q
  proof -
    have "upath ks" "length ks \<le> 3" using that(1) u upath_prefix [of ks "i # ls"] by (auto simp: upath_def)
    then have "q \<notin> X" using X a that(2) unfolding is_table_def by blast
    then show ?thesis using d by (simp add: data_step_def look_def)
  qed
  show "pte (look (ram s')) a js = pte (look (ram s)) a js" by (rule pte_cong) (rule *)
  show "node (look (ram s')) a js = node (look (ram s)) a js" by (rule node_cong) (rule *)
qed

lemma data_step_inv:
  assumes inv: "vm_inv s A" and d: "data_step X s s'" and X: "\<And>q. q \<in> X \<Longrightarrow> \<not> is_table s A q"
  shows "vm_inv s' A" "a \<in> A \<Longrightarrow> frames (look (ram s')) a = frames (look (ram s)) a"
proof -
  note n = data_step_pte(2) [OF d X]
  show f: "frames (look (ram s')) a = frames (look (ram s)) a" if "a \<in> A" for a
    using n [OF _ that] unfolding frames_def by auto
  have "tree (look (ram s')) a" if "a \<in> A" for a
    using vm_invD(2) [OF inv that] n [OF _ that] unfolding tree_def by auto
  moreover have "owned s' q" if "owned s q" for q using that d by (auto simp: owned_def data_step_def)
  ultimately show "vm_inv s' A" using inv f d unfolding vm_inv_def data_step_def by auto
qed

text \<open>Every other address space, with what it maps.\<close>

definition others_kept :: "nat set \<Rightarrow> nat \<Rightarrow> vm \<Rightarrow> vm \<Rightarrow> bool" where
  "others_kept A a s s' \<longleftrightarrow> (\<forall>b \<in> A. b \<noteq> a \<longrightarrow> (\<forall>js. upath js \<longrightarrow> pte (look (ram s')) b js = pte (look (ram s)) b js \<and>
     (\<forall>q. node (look (ram s)) b js = Some q \<longrightarrow> ram s' q = ram s q)))"

lemma others_kept_refl: "others_kept A a s s"
  by (simp add: others_kept_def)

lemma others_kept_node: "others_kept A a s s' \<Longrightarrow> b \<in> A \<Longrightarrow> b \<noteq> a \<Longrightarrow> upath js \<Longrightarrow> node (look (ram s')) b js = node (look (ram s)) b js"
  by (simp add: others_kept_def node_def)

lemma others_kept_trans:
  assumes "others_kept A a s t" "others_kept A a t u"
  shows "others_kept A a s u"
  using assms others_kept_node [OF assms(1)] unfolding others_kept_def by (metis (no_types, lifting))

text \<open>
  The loader's state: its space \<open>a\<close> maps the pages \<open>m\<close>, and it holds the pages \<open>U\<close>, which nothing
  maps; what is free or held is among the pages \<open>F\<close>, which were free at the start.
\<close>

definition view :: "nat set \<Rightarrow> nat set \<Rightarrow> nat \<Rightarrow> (nat \<rightharpoonup> nat) \<Rightarrow> nat set \<Rightarrow> vm \<Rightarrow> bool" where
  "view F A a m U s \<longleftrightarrow> vm_inv s A \<and> a \<in> A \<and> (\<forall>k < USER_PAGES. frame_of s a k = m k) \<and>
     (\<forall>x \<in> U. owned s x \<and> (\<forall>b \<in> A. x \<notin> frames (look (ram s)) b)) \<and>
     free_set (vpmm s) \<subseteq> F \<and> U \<subseteq> (\<lambda>p. p * PAGE_SIZE) ` F"

definition used :: "(nat \<rightharpoonup> nat) \<Rightarrow> nat set" where
  "used m = {f. \<exists>k < USER_PAGES. m k = Some f}"

lemma view_used:
  assumes "view F A a m U s" "f \<in> used m"
  shows "f \<in> frames (look (ram s)) a" "owned s f" "f \<notin> U" "f mod PAGE_SIZE = 0"
proof -
  from assms obtain k where k: "k < USER_PAGES" "node (look (ram s)) a (upage k) = Some f"
    by (auto simp: view_def used_def frame_of_def)
  show f: "f \<in> frames (look (ram s)) a" using framesI [OF upath_upage(1) [OF k(1)] k(2)] .
  with assms(1) show "owned s f" "f \<notin> U" using vm_invD(3) [of s A a f] by (auto simp: view_def)
  then show "f mod PAGE_SIZE = 0" by (auto simp: owned_def)
qed

lemma view_inj:
  assumes "view F A a m U s" "m j = Some f" "m k = Some f" "j < USER_PAGES" "k < USER_PAGES"
  shows "j = k"
proof -
  have "frame_of s a j = Some f" "frame_of s a k = Some f" "tree (look (ram s)) a"
    using assms vm_invD(2) [of s A a] by (auto simp: view_def)
  with assms(4,5) have "upage j = upage k" by (intro treeD [of "look (ram s)" a]) (auto simp: frame_of_def upath_upage)
  then show ?thesis using upage_inj assms(4,5) by blast
qed

lemma view_table:
  assumes v: "view F A a m U s" and q: "q \<in> U \<union> used m"
  shows "\<not> is_table s A q" "page_ok (ram s) q" "q mod PAGE_SIZE = 0" "b \<in> A \<Longrightarrow> b \<noteq> a \<Longrightarrow> q \<notin> frames (look (ram s)) b"
proof -
  have inv: "vm_inv s A" "a \<in> A" using v by (simp_all add: view_def)
  have own: "owned s q" using v q view_used(2) [OF v] by (auto simp: view_def)
  then show "page_ok (ram s) q" "q mod PAGE_SIZE = 0" by (auto simp: owned_def)
  show other: "q \<notin> frames (look (ram s)) b" if "b \<in> A" "b \<noteq> a" for b
    using v q that view_used(1) [OF v] vm_invD(4) [OF inv] by (auto simp: view_def)
  show "\<not> is_table s A q"
  proof
    assume "is_table s A q"
    then obtain b js where b: "b \<in> A" "upath js" "length js \<le> 3" "node (look (ram s)) b js = Some q" by (auto simp: is_table_def)
    have "q \<in> frames (look (ram s)) b" by (rule framesI [OF b(2,4)])
    with other b(1) v q have "b = a" "q \<in> used m" by (auto simp: view_def)
    then obtain k where k: "k < USER_PAGES" "node (look (ram s)) a (upage k) = Some q" using v by (auto simp: used_def view_def frame_of_def)
    from treeD [OF vm_invD(2) [OF inv] b(2) upath_upage(1) [OF k(1)] _ k(2)] b \<open>b = a\<close> have "js = upage k" by simp
    with b(3) upath_upage(2) [of k] show False by simp
  qed
qed

section \<open>The primitives\<close>

lemma view_poke:
  assumes v: "view F A a m U s" and p: "\<And>i. i < length bs \<Longrightarrow> page_base (p + i) \<in> U \<union> used m"
  shows "\<exists>s'. poke_bytes p bs s = Some s' \<and> view F A a m U s' \<and> others_kept A a s s' \<and> vpmm s' = vpmm s \<and>
    (\<forall>x. peek_phys s' x = (if p \<le> x \<and> x < p + length bs then Some (bs ! (x - p)) else peek_phys s x))"
proof -
  let ?X = "U \<union> used m"
  from poke_bytes_ok [of bs s p ?X] view_table(2) [OF v] p obtain s' where
    s': "poke_bytes p bs s = Some s'" "data_step ?X s s'"
      "\<forall>x. peek_phys s' x = (if p \<le> x \<and> x < p + length bs then Some (bs ! (x - p)) else peek_phys s x)" by blast
  have nt: "\<not> is_table s A q" if "q \<in> ?X" for q by (rule view_table(1) [OF v that])
  have inv: "vm_inv s A" "a \<in> A" using v by (simp_all add: view_def)
  note d = data_step_inv [OF inv(1) s'(2) nt] data_step_pte [OF s'(2) nt]
  have "owned s' x" if "owned s x" for x using that s'(2) by (auto simp: owned_def data_step_def)
  moreover have "vpmm s' = vpmm s" using s'(2) by (simp add: data_step_def)
  ultimately have "view F A a m U s'" using v d(1,2,4) inv(2) upath_upage(1) by (auto simp: view_def frame_of_def)
  moreover have "others_kept A a s s'"
    unfolding others_kept_def
  proof (intro ballI impI allI conjI)
    fix b js q assume b: "b \<in> A" "b \<noteq> a" "upath js"
    then show "pte (look (ram s')) b js = pte (look (ram s)) b js" using d(3) by blast
    assume "node (look (ram s)) b js = Some q"
    then have "q \<notin> ?X" using view_table(4) [OF v _ b(1,2), of q] framesI [OF b(3)] by blast
    then show "ram s' q = ram s q" using s'(2) by (simp add: data_step_def)
  qed
  ultimately show ?thesis using s' by (auto simp: data_step_def)
qed

definition run_of :: "nat \<Rightarrow> nat \<Rightarrow> nat set" where
  "run_of f n = (\<lambda>i. f + i * PAGE_SIZE) ` {..<n}"

lemma view_alloc:
  assumes v: "view F A a m U s" and n: "0 < n"
  obtains (got) f pm where "alloc_pages (vpmm s) n = (f, pm)" "f \<noteq> 0" "f mod PAGE_SIZE = 0" "view F A a m (U \<union> run_of f n) (s\<lparr>vpmm := pm\<rparr>)"
      "run_of f n \<inter> (U \<union> used m) = {}" "card (free_set (vpmm s)) = card (free_set pm) + n"
  | (none) "alloc_pages (vpmm s) n = (0, vpmm s)" "\<And>b. \<not> run_free (vpmm s) b n"
proof -
  have inv: "vm_inv s A" "pmm_inv (vpmm s)" using v by (auto simp: view_def vm_inv_def)
  then have wf: "pmm_wf (vpmm s)" by (simp add: pmm_inv_def)
  from alloc_pages_cases [OF wf n] show thesis
  proof (elim disjE exE conjE)
    fix b assume b: "run_free (vpmm s) b n" "alloc_pages (vpmm s) n = (b * PAGE_SIZE, take_run (vpmm s) b n)"
    let ?pm = "take_run (vpmm s) b n"
    let ?s = "s\<lparr>vpmm := ?pm\<rparr>"
    note t = take_run_wf [OF wf b(1)]
    have sub: "{b..<b + n} \<subseteq> free_set (vpmm s)" using b(1) by (simp add: run_free_def)
    have pi: "pmm_inv ?pm" using t inv(2) by (auto simp: pmm_inv_def)
    have b0: "b \<noteq> 0" using sub n pmm_inv_zero [OF inv(2)] by (cases b) auto
    have own: "owned ?s x" if "owned s x" for x using that t by (auto simp: owned_def)
    have run: "run_of (b * PAGE_SIZE) n = (\<lambda>p. p * PAGE_SIZE) ` {b..<b + n}"
    proof -
      have "{b..<b + n} = (\<lambda>i. b + i) ` {..<n}" using image_add_atLeastLessThan [of b 0 n] by (simp add: lessThan_atLeast0 add.commute)
      then show ?thesis by (auto simp: run_of_def image_image algebra_simps)
    qed
    have new: "owned ?s x \<and> \<not> owned s x" if "x \<in> run_of (b * PAGE_SIZE) n" for x
    proof -
      from that obtain p where p: "x = p * PAGE_SIZE" "p \<in> {b..<b + n}" unfolding run by blast
      then have f: "p \<in> free_set (vpmm s)" using sub by blast
      from free_frame [OF inv(1) f] f p t show ?thesis by (auto simp: owned_def PAGE_SIZE_def)
    qed
    have "vm_inv ?s A" using inv own t pi unfolding vm_inv_def by auto
    moreover have "x \<notin> frames (look (ram s)) c" if "x \<in> run_of (b * PAGE_SIZE) n" "c \<in> A" for x c
      using new [OF that(1)] vm_invD(3) [OF inv(1) that(2)] by blast
    moreover have "run_of (b * PAGE_SIZE) n \<subseteq> (\<lambda>p. p * PAGE_SIZE) ` F" "free_set ?pm \<subseteq> F" using sub v t(1) unfolding run view_def by blast+
    ultimately have "view F A a m (U \<union> run_of (b * PAGE_SIZE) n) ?s" using v own new by (simp add: view_def frame_of_def) blast
    moreover have "run_of (b * PAGE_SIZE) n \<inter> (U \<union> used m) = {}" using new v view_used(2) [OF v] by (auto simp: view_def)
    moreover have "card (free_set (vpmm s)) = card (free_set ?pm) + n"
      using t(1) sub card_Diff_subset [OF _ sub] card_mono [OF _ sub] by simp
    ultimately show thesis using got b(2) b0 by (simp add: PAGE_SIZE_def)
  qed (use none in blast)
qed

lemma view_map:
  assumes v: "view F A a m U s" and x: "x \<in> U" and k: "k < USER_PAGES" and mem: "3 \<le> card (free_set (vpmm s))"
  shows "\<exists>s'. vmap s a (of_nat (k * PAGE_SIZE)) (of_nat x) (PAGE_PRESENT OR PAGE_WRITABLE OR PAGE_USER) = Some s' \<and>
    view F A a (m(k \<mapsto> x)) (U - {x}) s' \<and> others_kept A a s s' \<and> (\<forall>q \<in> U \<union> used m. ram s' q = ram s q) \<and>
    card (free_set (vpmm s)) \<le> card (free_set (vpmm s')) + 3"
proof -
  have inv: "vm_inv s A" "a \<in> A" and xo: "owned s x" "\<And>b. b \<in> A \<Longrightarrow> x \<notin> frames (look (ram s)) b"
    using v x by (auto simp: view_def)
  have kb: "k * PAGE_SIZE < 2 ^ 47" using k by (simp add: USER_PAGES_def PAGE_SIZE_def)
  note pk = path_of_nat [OF kb]
  have pu: "path (of_nat (k * PAGE_SIZE)) = upage k" using pk(1) by (simp add: PAGE_SIZE_def)
  obtain s' where s': "vmap s a (of_nat (k * PAGE_SIZE)) (of_nat x) table_flags = Some s'" "vm_inv s' A"
    "\<forall>q. q \<notin> Vmm.region s a \<longrightarrow> ram s' q = ram s q" "Vmm.region s' a \<subseteq> insert x (Vmm.region s a)" "total_pages (vpmm s') = total_pages (vpmm s)"
    "\<forall>js. upath js \<longrightarrow> length js = 4 \<longrightarrow> pte (look (ram s')) a js = (if js = upage k then Some (of_nat x OR table_flags) else pte (look (ram s)) a js)
        \<and> (\<forall>q. node (look (ram s)) a js = Some q \<longrightarrow> ram s' q = ram s q)"
    "card (free_set (vpmm s)) \<le> card (free_set (vpmm s')) + 3" "free_set (vpmm s') \<subseteq> free_set (vpmm s)"
    using vmap_ok [OF inv pk(2) mem xo table_flags] unfolding pu by blast
  have fx: "addr (of_nat x OR table_flags) = x" by (rule addr_mk(1) [OF owned_frame [OF inv(1) xo(1)] table_flags(1)])
  have "frame_of s' a j = (m(k \<mapsto> x)) j" if "j < USER_PAGES" for j
  proof -
    have "upage j = upage k \<longleftrightarrow> j = k" using upage_inj that k by blast
    with s'(6) upath_upage [of j] that fx v show ?thesis by (auto simp: view_def frame_of_def node_def)
  qed
  moreover have ro: "y \<notin> Vmm.region s a" if "y \<in> U" for y
    using v that inv(2) by (auto simp: view_def Vmm.region_def owned_def PAGE_SIZE_def)
  have "owned s' y \<and> (\<forall>b \<in> A. y \<notin> frames (look (ram s')) b)" if y: "y \<in> U - {x}" for y
  proof -
    have y': "y \<notin> Vmm.region s' a" using s'(4) ro y by blast
    have "owned s y" "\<forall>b \<in> A. y \<notin> frames (look (ram s)) b" "ram s' y = ram s y" using v y ro s'(3) by (auto simp: view_def)
    moreover have "frames (look (ram s')) b = frames (look (ram s)) b" if "b \<in> A" "b \<noteq> a" for b
      using other_kept(1) [OF inv that(1)] that(2) s'(3) by auto
    ultimately show ?thesis using y' s'(5) by (auto simp: owned_def page_ok_def Vmm.region_def)
  qed
  moreover have "others_kept A a s s'"
    unfolding others_kept_def
  proof (intro ballI impI allI conjI)
    fix b js q assume b: "b \<in> A" "b \<noteq> a" "upath js"
    then have ne: "a \<noteq> b" by simp
    show "pte (look (ram s')) b js = pte (look (ram s)) b js" using other_kept(3) [OF inv b(1) ne _ b(3)] s'(3) by blast
    assume "node (look (ram s)) b js = Some q"
    then show "ram s' q = ram s q" using other_region [OF inv b(1) ne framesI [OF b(3)]] s'(3) by blast
  qed
  moreover have "ram s' q = ram s q" if "q \<in> U \<union> used m" for q
    using that
  proof
    assume "q \<in> used m"
    then obtain j where "j < USER_PAGES" "node (look (ram s)) a (upage j) = Some q" using v by (auto simp: used_def view_def frame_of_def)
    then show ?thesis using s'(6) upath_upage [of j] by blast
  qed (use ro s'(3) in blast)
  moreover have "free_set (vpmm s') \<subseteq> F" "U - {x} \<subseteq> (\<lambda>p. p * PAGE_SIZE) ` F" using v s'(8) by (auto simp: view_def)
  ultimately show ?thesis using s'(1,2,7) inv(2) by (intro exI [of _ s']) (simp add: view_def table_flags_def)
qed

lemma view_release:
  assumes v: "view F A a m U s" and x: "x \<in> U"
  shows "view F A a m (U - {x}) (release_page x s)" "ram (release_page x s) = ram s"
    "card (free_set (vpmm s)) \<le> card (free_set (vpmm (release_page x s)))"
proof -
  have inv: "vm_inv s A" "a \<in> A" "owned s x" using v x by (auto simp: view_def)
  then obtain p where p: "x = p * PAGE_SIZE" "0 < p" "p < total_pages (vpmm s)" "page_ok (ram s) x" by (auto simp: owned_def)
  have pm: "pmm_inv (vpmm s)" using inv(1) by (simp add: vm_inv_def)
  let ?s = "release_page x s"
  note f = free_page_release [OF pm p(2,3)]
  have t: "total_pages (vpmm ?s) = total_pages (vpmm s)" by (simp add: release_page_def free_page_def Let_def)
  have fs: "free_set (vpmm ?s) = insert p (free_set (vpmm s))" "pmm_inv (vpmm ?s)" using f by (simp_all add: release_page_def p(1))
  show r: "ram ?s = ram s" by (simp add: release_page_def)
  have own: "owned ?s y" if "owned s y" "y \<noteq> x" for y using that t fs(1) p(1) r by (auto simp: owned_def)
  have fr: "y \<noteq> x" if "y \<in> frames (look (ram s)) b" "b \<in> A" for y b using v x that by (auto simp: view_def)
  have "vm_inv ?s A"
    using inv(1) fs t p own fr unfolding vm_inv_def r by auto
  moreover have "p \<in> F" using v x p(1) by (auto simp: view_def PAGE_SIZE_def)
  ultimately show "view F A a m (U - {x}) ?s" using v own r fs(1) by (auto simp: view_def frame_of_def)
  show "card (free_set (vpmm s)) \<le> card (free_set (vpmm ?s))" unfolding fs(1) by (simp add: card_insert_le)
qed

end
