(* ===== verification/ElfSegs.thy ===== *)
theory ElfSegs
  imports ElfMem
begin

text \<open>
  The loader's segments: after the loop over the program headers the address space holds, at every address of a
  segment, the byte of the last segment that covers it, also where segments share a page.
\<close>

section \<open>User bytes\<close>

definition ubyte :: "vm \<Rightarrow> (nat \<rightharpoonup> nat) \<Rightarrow> nat \<Rightarrow> u8 option" where
  "ubyte s m v = (case m (v div PAGE_SIZE) of None \<Rightarrow> None | Some f \<Rightarrow> peek_phys s (f + v mod PAGE_SIZE))"

lemma PAGE_pos [simp]: "0 < PAGE_SIZE"
  by (simp add: PAGE_SIZE_def)

lemma page_disjoint:
  assumes "f mod PAGE_SIZE = 0" "g mod PAGE_SIZE = 0" "r < PAGE_SIZE" "t < PAGE_SIZE" "f + r = g + t"
  shows "f = g \<and> r = t"
  using page_base_at [OF assms(1,3)] page_base_at [OF assms(2,4)] assms(5) by metis

lemma peek_bytes_cong: "ram s' f = ram s f \<Longrightarrow> f mod PAGE_SIZE = 0 \<Longrightarrow> r < PAGE_SIZE \<Longrightarrow> peek_phys s' (f + r) = peek_phys s (f + r)"
  by (simp add: peek_phys_def)

lemma ubyte_cong:
  assumes v: "view F A a m U s" and k: "v div PAGE_SIZE < USER_PAGES"
    and q: "\<And>q r. q \<in> used m \<Longrightarrow> r < PAGE_SIZE \<Longrightarrow> peek_phys s' (q + r) = peek_phys s (q + r)"
  shows "ubyte s' m v = ubyte s m v"
proof (cases "m (v div PAGE_SIZE)")
  case (Some f)
  then have "f \<in> used m" using k by (auto simp: used_def)
  from q [OF this mod_less_divisor] Some show ?thesis by (simp add: ubyte_def)
qed (simp add: ubyte_def)

lemma w64_id: "n < 2 ^ 64 \<Longrightarrow> w64 n = n"
  by (simp add: w64_def)

lemma minus64_id:
  assumes "n \<le> m" "m < 2 ^ 64"
  shows "minus64 m n = m - n"
proof -
  have "m + (2 ^ 64 - n) = 2 ^ 64 + (m - n)" using assms by linarith
  moreover have "m - n < 2 ^ 64" using assms by linarith
  ultimately show ?thesis by (simp add: minus64_def w64_def)
qed

section \<open>One page\<close>

text \<open>
  The segment in question: it starts at \<open>va\<close>, in page \<open>K\<close>, and ends below \<open>se\<close>; its page \<open>j\<close> is prepared at
  \<open>B + j * PAGE_SIZE\<close> and holds the bytes \<open>g\<close>.
\<close>

definition grown :: "(nat \<rightharpoonup> nat) \<Rightarrow> nat \<Rightarrow> nat \<Rightarrow> nat \<Rightarrow> nat \<Rightarrow> nat \<rightharpoonup> nat" where
  "grown m K B i n = (\<lambda>k. if K + i \<le> k \<and> k < K + n \<and> m k = None then Some (B + (k - K) * PAGE_SIZE) else m k)"

definition page_holds :: "vm \<Rightarrow> nat \<Rightarrow> (nat \<Rightarrow> u8) \<Rightarrow> nat \<Rightarrow> bool" where
  "page_holds s B g j \<longleftrightarrow> (\<forall>r < PAGE_SIZE. peek_phys s (B + j * PAGE_SIZE + r) = Some (g (j * PAGE_SIZE + r)))"

lemma page_addr: "v div PAGE_SIZE = K + j \<Longrightarrow> v - K * PAGE_SIZE = j * PAGE_SIZE + v mod PAGE_SIZE \<and> v = (K + j) * PAGE_SIZE + v mod PAGE_SIZE"
proof -
  assume "v div PAGE_SIZE = K + j"
  then have "v = (K + j) * PAGE_SIZE + v mod PAGE_SIZE" using div_mult_mod_eq [of v PAGE_SIZE] by simp
  then show ?thesis by (simp add: algebra_simps)
qed

lemma map_page_ok:
  assumes v: "view F A a m U s" and x: "B + j * PAGE_SIZE \<in> U" and k: "K + j < USER_PAGES" and mem: "3 \<le> card (free_set (vpmm s))"
    and B: "B mod PAGE_SIZE = 0" and g: "page_holds s B g j" and none: "m (K + j) = None" "shared_at ls ((K + j) * PAGE_SIZE) = None"
  shows "\<exists>s'. place_page a ls va (K * PAGE_SIZE) se B j s = Some s' \<and> view F A a (m(K + j \<mapsto> B + j * PAGE_SIZE)) (U - {B + j * PAGE_SIZE}) s' \<and>
    others_kept A a s s' \<and> card (free_set (vpmm s)) \<le> card (free_set (vpmm s')) + 3 \<and>
    (\<forall>q \<in> U. \<forall>r < PAGE_SIZE. peek_phys s' (q + r) = peek_phys s (q + r)) \<and>
    (\<forall>v. v div PAGE_SIZE < USER_PAGES \<longrightarrow> ubyte s' (m(K + j \<mapsto> B + j * PAGE_SIZE)) v =
      (if v div PAGE_SIZE = K + j then Some (g (v - K * PAGE_SIZE)) else ubyte s m v))"
proof -
  let ?x = "B + j * PAGE_SIZE"
  have kb: "(K + j) * PAGE_SIZE < 2 ^ 47" using k by (simp add: USER_PAGES_def PAGE_SIZE_def)
  then have w: "w64 (K * PAGE_SIZE + j * PAGE_SIZE) = (K + j) * PAGE_SIZE" by (simp add: w64_def add_mult_distrib)
  obtain s' where s': "vmap s a (of_nat ((K + j) * PAGE_SIZE)) (of_nat ?x) (PAGE_PRESENT OR PAGE_WRITABLE OR PAGE_USER) = Some s'"
    "view F A a (m(K + j \<mapsto> ?x)) (U - {?x}) s'" "others_kept A a s s'" "\<forall>q \<in> U \<union> used m. ram s' q = ram s q"
    "card (free_set (vpmm s)) \<le> card (free_set (vpmm s')) + 3"
    using view_map [OF v x k mem] by blast
  have pl: "place_page a ls va (K * PAGE_SIZE) se B j s = Some s'"
    unfolding place_page_def w Let_def none(2) option.case by (rule s'(1))
  have same: "peek_phys s' (q + r) = peek_phys s (q + r)" if "q \<in> U \<union> used m" "r < PAGE_SIZE" for q r
    using peek_bytes_cong [OF _ view_table(3) [OF v that(1)] that(2)] s'(4) that(1) by blast
  have "ubyte s' (m(K + j \<mapsto> ?x)) v = (if v div PAGE_SIZE = K + j then Some (g (v - K * PAGE_SIZE)) else ubyte s m v)"
    if vk: "v div PAGE_SIZE < USER_PAGES" for v
  proof (cases "v div PAGE_SIZE = K + j")
    case True
    have "peek_phys s' (?x + v mod PAGE_SIZE) = Some (g (j * PAGE_SIZE + v mod PAGE_SIZE))"
      using same [of ?x] x g by (simp add: page_holds_def)
    with True page_addr [OF True] show ?thesis by (simp add: ubyte_def)
  next
    case False
    have "ubyte s' m v = ubyte s m v" by (rule ubyte_cong [OF v vk]) (use same in blast)
    with False show ?thesis by (simp add: ubyte_def)
  qed
  with pl s' same show ?thesis by blast
qed

lemma share_page_ok:
  assumes v: "view F A a m U s" and x: "B + j * PAGE_SIZE \<in> U" and k: "K + j < USER_PAGES"
    and B: "B mod PAGE_SIZE = 0" and g: "page_holds s B g j" and f: "m (K + j) = Some f" "shared_at ls ((K + j) * PAGE_SIZE) = Some f"
    and seg: "K * PAGE_SIZE \<le> va" "va < (K + j + 1) * PAGE_SIZE" "(K + j) * PAGE_SIZE < se" "va < se" "se < 2 ^ 48"
  shows "\<exists>s'. place_page a ls va (K * PAGE_SIZE) se B j s = Some s' \<and> view F A a m (U - {B + j * PAGE_SIZE}) s' \<and>
    others_kept A a s s' \<and> card (free_set (vpmm s)) \<le> card (free_set (vpmm s')) \<and>
    (\<forall>q \<in> U. \<forall>r < PAGE_SIZE. peek_phys s' (q + r) = peek_phys s (q + r)) \<and>
    (\<forall>v. v div PAGE_SIZE < USER_PAGES \<longrightarrow> ubyte s' m v =
      (if v div PAGE_SIZE = K + j \<and> va \<le> v \<and> v < se then Some (g (v - K * PAGE_SIZE)) else ubyte s m v))"
proof -
  let ?P = PAGE_SIZE and ?x = "B + j * PAGE_SIZE" and ?vp = "(K + j) * PAGE_SIZE"
  define fr where "fr = max va ?vp"
  define to where "to = min se (?vp + ?P)"
  have kb: "?vp + ?P \<le> 2 ^ 47" using k by (simp add: USER_PAGES_def PAGE_SIZE_def)
  have ft: "fr < to" "?vp \<le> fr" "to \<le> ?vp + ?P" "to < 2 ^ 64" "K * ?P \<le> fr" using seg kb by (auto simp: fr_def to_def algebra_simps)
  have w: "w64 (K * ?P + j * ?P) = ?vp" "w64 (?vp + ?P) = ?vp + ?P" "minus64 fr (K * ?P) = fr - K * ?P" "minus64 to fr = to - fr"
    using kb ft minus64_id [of "K * ?P" fr] minus64_id [of fr to] by (simp_all add: w64_def add_mult_distrib)
  have fu: "f \<in> used m" "f mod ?P = 0" using f(1) k view_used(4) [OF v, of f] by (auto simp: used_def)
  let ?own = "map (\<lambda>i. g (fr - K * ?P + i)) [0..<to - fr]"
  have ad: "B + (fr - K * ?P) + i = ?x + (fr - ?vp + i)" "fr - K * ?P + i = j * ?P + (fr - ?vp + i)" for i
    using ft(2) by (simp_all add: algebra_simps)
  have pk: "peek_bytes s (B + (fr - K * ?P)) (to - fr) = Some ?own"
  proof (rule peek_bytes_Some)
    fix i assume "i < to - fr"
    then have "fr - ?vp + i < ?P" using ft by linarith
    then show "peek_phys s (B + (fr - K * ?P) + i) = Some (g (fr - K * ?P + i))" unfolding ad using g by (simp add: page_holds_def)
  qed
  have "page_base (f + (fr - ?vp) + i) \<in> U \<union> used m" if "i < length ?own" for i
  proof -
    have "fr - ?vp + i < ?P" using that ft by simp
    from page_base_at [OF fu(2) this] fu(1) show ?thesis by (simp add: add.assoc)
  qed
  from view_poke [OF v this] obtain s1 where s1: "poke_bytes (f + (fr - ?vp)) ?own s = Some s1" "view F A a m U s1" "others_kept A a s s1" "vpmm s1 = vpmm s"
    "\<forall>y. peek_phys s1 y = (if f + (fr - ?vp) \<le> y \<and> y < f + (fr - ?vp) + length ?own then Some (?own ! (y - (f + (fr - ?vp)))) else peek_phys s y)" by blast
  let ?s = "release_page ?x s1"
  note rel = view_release [OF s1(2) x]
  have pl: "place_page a ls va (K * ?P) se B j s = Some ?s"
    unfolding place_page_def w(1) Let_def f(2) option.case w(2) fr_def [symmetric] to_def [symmetric] w(3,4) pk by (simp add: s1(1))
  have pe: "peek_phys ?s y = peek_phys s1 y" for y by (simp add: peek_phys_def rel(2))
  have at: "peek_phys ?s (q + r) = (if q = f \<and> fr \<le> ?vp + r \<and> ?vp + r < to then Some (g (j * ?P + r)) else peek_phys s (q + r))"
    if "q mod ?P = 0" "r < ?P" for q r
  proof (cases "f + (fr - ?vp) \<le> q + r \<and> q + r < f + (to - ?vp)")
    case True
    define t where "t = q + r - f"
    have t: "q + r = f + t" "t < ?P" using True ft by (auto simp: t_def)
    from page_disjoint [OF that(1) fu(2) that(2) t(2) t(1)] have q: "q = f" "r = t" by auto
    have h: "fr \<le> ?vp + r" "?vp + r < to" using True ft(1-3) unfolding q(1) by linarith+
    have i: "q + r - (f + (fr - ?vp)) = ?vp + r - fr" "?vp + r - fr < to - fr" using q(1) h ft(2) by linarith+
    have "fr - K * ?P + (?vp + r - fr) = j * ?P + r" using h(1) ft(2,5) by (simp add: algebra_simps)
    with i(2) have "?own ! (?vp + r - fr) = g (j * ?P + r)" by simp
    then have o: "?own ! (q + r - (f + (fr - ?vp))) = g (j * ?P + r)" unfolding i(1) .
    have "f + (fr - ?vp) \<le> q + r \<and> q + r < f + (fr - ?vp) + length ?own" using True ft(1-3) by simp
    from s1(5) [rule_format, of "q + r", unfolded if_P [OF this] o] q(1) h show ?thesis by (simp add: pe)
  next
    case False
    then have "\<not> (f + (fr - ?vp) \<le> q + r \<and> q + r < f + (fr - ?vp) + length ?own)" using ft(1-3) by auto
    moreover have "\<not> (q = f \<and> fr \<le> ?vp + r \<and> ?vp + r < to)" using False ft(2) by linarith
    ultimately show ?thesis by (simp only: pe s1(5) if_False)
  qed
  have "peek_phys ?s (q + r) = peek_phys s (q + r)" if q: "q \<in> U" "r < ?P" for q r
    using at [OF view_table(3) [OF v] q(2)] q(1) view_used(3) [OF v fu(1)] by auto
  moreover have "ubyte ?s m v = (if v div ?P = K + j \<and> va \<le> v \<and> v < se then Some (g (v - K * ?P)) else ubyte s m v)" if vk: "v div ?P < USER_PAGES" for v
  proof (cases "m (v div ?P)")
    case (Some q)
    have q: "q mod ?P = 0" using view_used(4) [OF v] Some vk by (auto simp: used_def)
    have qf: "q = f \<longleftrightarrow> v div ?P = K + j" using view_inj [OF v] Some f(1) vk k by auto
    have "fr \<le> ?vp + v mod ?P \<and> ?vp + v mod ?P < to \<longleftrightarrow> va \<le> v \<and> v < se" if "v div ?P = K + j"
    proof -
      define r where "r = v mod ?P"
      have "v = ?vp + r" "r < ?P" using page_addr [OF that] by (simp_all add: r_def)
      then show ?thesis unfolding r_def [symmetric] by (auto simp: fr_def to_def)
    qed
    with at [OF q, of "v mod ?P"] qf Some page_addr [of v K j] show ?thesis by (auto simp: ubyte_def)
  qed (use f(1) in \<open>auto simp: ubyte_def\<close>)
  moreover have "others_kept A a s ?s" using s1(3) rel(2) by (simp add: others_kept_def)
  ultimately show ?thesis using pl rel(1,3) s1(4) by auto
qed

section \<open>All pages of a segment\<close>

lemma grown_step:
  "i < n \<Longrightarrow> grown m K B i n = grown (if m (K + i) = None then m(K + i \<mapsto> B + i * PAGE_SIZE) else m) K B (Suc i) n"
  by (auto simp: grown_def fun_eq_iff Suc_le_eq le_less)

lemma grown_done: "n \<le> i \<Longrightarrow> grown m K B i n = m"
  by (auto simp: grown_def fun_eq_iff)

definition tail_of :: "nat \<Rightarrow> nat \<Rightarrow> nat \<Rightarrow> nat set" where
  "tail_of B i n = (\<lambda>j. B + j * PAGE_SIZE) ` {i..<n}"

lemma tail_step: "i < n \<Longrightarrow> tail_of B i n = insert (B + i * PAGE_SIZE) (tail_of B (Suc i) n)" "B + i * PAGE_SIZE \<notin> tail_of B (Suc i) n"
proof -
  show "tail_of B i n = insert (B + i * PAGE_SIZE) (tail_of B (Suc i) n)" if "i < n"
  proof -
    have "{i..<n} = insert i {Suc i..<n}" using that by auto
    then show ?thesis by (simp add: tail_of_def)
  qed
qed (auto simp: tail_of_def PAGE_SIZE_def)

lemma place_page_ok:
  assumes v: "view F A a m U s" and x: "B + j * PAGE_SIZE \<in> U" and k: "K + j < USER_PAGES" and mem: "3 \<le> card (free_set (vpmm s))"
    and B: "B mod PAGE_SIZE = 0" and g: "page_holds s B g j" and sh: "shared_at ls ((K + j) * PAGE_SIZE) = m (K + j)"
    and seg: "K * PAGE_SIZE \<le> va" "va < (K + 1) * PAGE_SIZE" "(K + j) * PAGE_SIZE < se" "va < se" "se < 2 ^ 48"
  shows "\<exists>s' m'. place_page a ls va (K * PAGE_SIZE) se B j s = Some s' \<and> m' = (if m (K + j) = None then m(K + j \<mapsto> B + j * PAGE_SIZE) else m) \<and>
    view F A a m' (U - {B + j * PAGE_SIZE}) s' \<and> others_kept A a s s' \<and> card (free_set (vpmm s)) \<le> card (free_set (vpmm s')) + 3 \<and>
    (\<forall>q \<in> U. \<forall>r < PAGE_SIZE. peek_phys s' (q + r) = peek_phys s (q + r)) \<and>
    (\<forall>v. v div PAGE_SIZE < USER_PAGES \<longrightarrow> ubyte s' m' v =
      (if v div PAGE_SIZE = K + j \<and> (m (K + j) = None \<or> va \<le> v \<and> v < se) then Some (g (v - K * PAGE_SIZE)) else ubyte s m v))"
proof (cases "m (K + j)")
  case None
  then show ?thesis using map_page_ok [OF v x k mem B g None, of ls va se] sh by auto
next
  case (Some f)
  have "va < (K + j + 1) * PAGE_SIZE" using seg(2) by (simp add: PAGE_SIZE_def)
  from share_page_ok [OF v x k B g Some _ seg(1) this seg(3-5), of ls] sh Some obtain s' where
    s': "place_page a ls va (K * PAGE_SIZE) se B j s = Some s'" "view F A a m (U - {B + j * PAGE_SIZE}) s'" "others_kept A a s s'"
      "card (free_set (vpmm s)) \<le> card (free_set (vpmm s'))" "\<forall>q \<in> U. \<forall>r < PAGE_SIZE. peek_phys s' (q + r) = peek_phys s (q + r)"
      "\<forall>v. v div PAGE_SIZE < USER_PAGES \<longrightarrow> ubyte s' m v =
        (if v div PAGE_SIZE = K + j \<and> va \<le> v \<and> v < se then Some (g (v - K * PAGE_SIZE)) else ubyte s m v)" by auto
  then show ?thesis using Some by (intro exI [of _ s'] exI [of _ m]) auto
qed

lemma place_pages_ok:
  assumes B: "B mod PAGE_SIZE = 0" and kn: "K + n \<le> USER_PAGES"
    and seg: "K * PAGE_SIZE \<le> va" "va < (K + 1) * PAGE_SIZE" "\<And>j. j < n \<Longrightarrow> (K + j) * PAGE_SIZE < se" "va < se" "se < 2 ^ 48"
  shows "view F A a m U s \<Longrightarrow> tail_of B i n \<subseteq> U \<Longrightarrow> 3 * (n - i) \<le> card (free_set (vpmm s)) \<Longrightarrow> (\<And>j. i \<le> j \<Longrightarrow> j < n \<Longrightarrow> page_holds s B g j) \<Longrightarrow>
    (\<And>j. i \<le> j \<Longrightarrow> j < n \<Longrightarrow> shared_at ls ((K + j) * PAGE_SIZE) = m (K + j)) \<Longrightarrow>
    \<exists>s'. place_pages a ls va (K * PAGE_SIZE) se B [i..<n] s = Some s' \<and> view F A a (grown m K B i n) (U - tail_of B i n) s' \<and> others_kept A a s s' \<and>
      card (free_set (vpmm s)) \<le> card (free_set (vpmm s')) + 3 * (n - i) \<and>
      (\<forall>v. v div PAGE_SIZE < USER_PAGES \<longrightarrow> ubyte s' (grown m K B i n) v =
        (if K + i \<le> v div PAGE_SIZE \<and> v div PAGE_SIZE < K + n \<and> (m (v div PAGE_SIZE) = None \<or> va \<le> v \<and> v < se)
         then Some (g (v - K * PAGE_SIZE)) else ubyte s m v))"
proof (induction "n - i" arbitrary: i m U s)
  case 0
  then have "n \<le> i" by simp
  then show ?case using "0.prems"(1) by (auto simp: grown_done tail_of_def others_kept_refl)
next
  case (Suc d)
  then have i: "i < n" "d = n - Suc i" by linarith+
  let ?x = "B + i * PAGE_SIZE" and ?m = "if m (K + i) = None then m(K + i \<mapsto> B + i * PAGE_SIZE) else m"
  have x: "?x \<in> U" "tail_of B (Suc i) n \<subseteq> U - {?x}" using Suc.prems(2) tail_step(1) [OF i(1), of B] tail_step(2) [of B i n] by auto
  have "K + i < USER_PAGES" "3 \<le> card (free_set (vpmm s))" using i(1) kn Suc.prems(3) by linarith+
  note p = place_page_ok [OF Suc.prems(1) x(1) this B Suc.prems(4) [OF le_refl i(1)] Suc.prems(5) [OF le_refl i(1)] seg(1,2) seg(3) [OF i(1)] seg(4,5)]
  then obtain s1 where s1: "place_page a ls va (K * PAGE_SIZE) se B i s = Some s1" "view F A a ?m (U - {?x}) s1" "others_kept A a s s1"
    "card (free_set (vpmm s)) \<le> card (free_set (vpmm s1)) + 3" "\<forall>q \<in> U. \<forall>r < PAGE_SIZE. peek_phys s1 (q + r) = peek_phys s (q + r)"
    "\<forall>v. v div PAGE_SIZE < USER_PAGES \<longrightarrow> ubyte s1 ?m v =
      (if v div PAGE_SIZE = K + i \<and> (m (K + i) = None \<or> va \<le> v \<and> v < se) then Some (g (v - K * PAGE_SIZE)) else ubyte s m v)" by blast
  have "page_holds s1 B g j" if "Suc i \<le> j" "j < n" for j
  proof -
    have "B + j * PAGE_SIZE \<in> tail_of B i n" unfolding tail_of_def by (rule imageI) (use that in simp)
    then have "B + j * PAGE_SIZE \<in> U" using Suc.prems(2) by blast
    then show ?thesis using s1(5) Suc.prems(4) [of j] that by (simp add: page_holds_def)
  qed
  moreover have "shared_at ls ((K + j) * PAGE_SIZE) = ?m (K + j)" if "Suc i \<le> j" "j < n" for j
    using Suc.prems(5) [of j] that by simp
  moreover have "3 * (n - Suc i) \<le> card (free_set (vpmm s1))" using s1(4) Suc.prems(3) i(1) by linarith
  ultimately obtain s2 where s2: "place_pages a ls va (K * PAGE_SIZE) se B [Suc i..<n] s1 = Some s2"
    "view F A a (grown ?m K B (Suc i) n) (U - {?x} - tail_of B (Suc i) n) s2" "others_kept A a s1 s2"
    "card (free_set (vpmm s1)) \<le> card (free_set (vpmm s2)) + 3 * (n - Suc i)"
    "\<forall>v. v div PAGE_SIZE < USER_PAGES \<longrightarrow> ubyte s2 (grown ?m K B (Suc i) n) v =
        (if K + Suc i \<le> v div PAGE_SIZE \<and> v div PAGE_SIZE < K + n \<and> (?m (v div PAGE_SIZE) = None \<or> va \<le> v \<and> v < se)
         then Some (g (v - K * PAGE_SIZE)) else ubyte s1 ?m v)"
    using Suc.hyps(1) [OF i(2) s1(2) x(2)] by blast
  have e: "[i..<n] = i # [Suc i..<n]" using i(1) by (simp add: upt_conv_Cons)
  have U: "U - {?x} - tail_of B (Suc i) n = U - tail_of B i n" using tail_step(1) [OF i(1)] by auto
  have "ubyte s2 (grown m K B i n) v =
        (if K + i \<le> v div PAGE_SIZE \<and> v div PAGE_SIZE < K + n \<and> (m (v div PAGE_SIZE) = None \<or> va \<le> v \<and> v < se)
         then Some (g (v - K * PAGE_SIZE)) else ubyte s m v)" if "v div PAGE_SIZE < USER_PAGES" for v
    using s2(5) s1(6) that i(1) unfolding grown_step [OF i(1)] by (auto simp: le_Suc_eq)
  moreover have "place_pages a ls va (K * PAGE_SIZE) se B [i..<n] s = Some s2" unfolding e using s1(1) s2(1) by simp
  moreover have "card (free_set (vpmm s)) \<le> card (free_set (vpmm s2)) + 3 * (n - i)" using s1(4) s2(4) i(1) by linarith
  ultimately show ?case using s2(2) others_kept_trans [OF s1(3) s2(3)] unfolding grown_step [OF i(1)] U by blast
qed

section \<open>One segment\<close>

text \<open>What a program finds in memory: the bytes of a segment, and of the last segment that covers an address.\<close>

definition in_seg :: "phdr \<Rightarrow> nat \<Rightarrow> bool" where
  "in_seg ph v \<longleftrightarrow> p_vaddr ph \<le> v \<and> v < p_vaddr ph + p_memsz ph"

definition seg_byte :: "bytes \<Rightarrow> phdr \<Rightarrow> nat \<Rightarrow> u8" where
  "seg_byte img ph v = (if v - p_vaddr ph < p_filesz ph then img ! (p_offset ph + (v - p_vaddr ph)) else 0)"

definition image_byte :: "bytes \<Rightarrow> phdr list \<Rightarrow> nat \<Rightarrow> u8" where
  "image_byte img segs v = foldl (\<lambda>b ph. if in_seg ph v then seg_byte img ph v else b) 0 segs"

definition seg_pages :: "phdr \<Rightarrow> nat" where
  "seg_pages ph = div_ceil (p_vaddr ph mod PAGE_SIZE + p_memsz ph) PAGE_SIZE"

text \<open>What the loader does not check of a segment: sizes that do not wrap, and an end below the stack.\<close>

definition seg_fits :: "phdr \<Rightarrow> bool" where
  "seg_fits ph \<longleftrightarrow> p_offset ph + p_filesz ph < 2 ^ 64 \<and> 0 < p_memsz ph \<and> p_vaddr ph + p_memsz ph \<le> stack_base"

definition seg_inside :: "bytes \<Rightarrow> phdr \<Rightarrow> bool" where
  "seg_inside img ph \<longleftrightarrow> p_offset ph + p_filesz ph \<le> length img \<and> p_filesz ph \<le> p_memsz ph"

lemma stack_base_eq: "stack_base = 0x6FFFFFFF0 * PAGE_SIZE" "0x6FFFFFFF0 < USER_PAGES"
  by (simp_all add: stack_base_def USER_STACK_TOP_def USER_STACK_PAGES_def PAGE_SIZE_def USER_PAGES_def)

lemma seg_pages_ok:
  assumes "seg_fits ph" "K = p_vaddr ph div PAGE_SIZE"
  shows "K + seg_pages ph \<le> 0x6FFFFFFF0" "0 < seg_pages ph" "p_vaddr ph + p_memsz ph \<le> (K + seg_pages ph) * PAGE_SIZE"
    "j < seg_pages ph \<Longrightarrow> (K + j) * PAGE_SIZE < p_vaddr ph + p_memsz ph"
    "K * PAGE_SIZE \<le> p_vaddr ph" "p_vaddr ph < (K + 1) * PAGE_SIZE" "p_vaddr ph - p_vaddr ph mod PAGE_SIZE = K * PAGE_SIZE"
proof -
  let ?r = "p_vaddr ph mod PAGE_SIZE"
  have va: "p_vaddr ph = K * PAGE_SIZE + ?r" using assms(2) div_mult_mod_eq [of "p_vaddr ph" PAGE_SIZE] by simp
  have r: "?r < PAGE_SIZE" by simp
  note le = div_ceil_le_iff [OF PAGE_pos, of "?r + p_memsz ph"]
  have "?r + p_memsz ph \<le> (0x6FFFFFFF0 - K) * PAGE_SIZE"
    using assms(1) va unfolding seg_fits_def stack_base_eq diff_mult_distrib by linarith
  then have "seg_pages ph \<le> 0x6FFFFFFF0 - K" using le by (simp add: seg_pages_def)
  moreover have "K * PAGE_SIZE < 0x6FFFFFFF0 * PAGE_SIZE" using assms(1) va unfolding seg_fits_def stack_base_eq by linarith
  then have "K < 0x6FFFFFFF0" by simp
  ultimately show "K + seg_pages ph \<le> 0x6FFFFFFF0" by linarith
  show "0 < seg_pages ph" using le [of 0] assms(1) by (auto simp: seg_pages_def seg_fits_def intro: gr0I)
  have "?r + p_memsz ph \<le> seg_pages ph * PAGE_SIZE" using div_ceil_ge [OF PAGE_pos] by (simp add: seg_pages_def)
  then show "p_vaddr ph + p_memsz ph \<le> (K + seg_pages ph) * PAGE_SIZE" using va by (simp add: add_mult_distrib)
  show "(K + j) * PAGE_SIZE < p_vaddr ph + p_memsz ph" if "j < seg_pages ph"
    using that le [of j] va by (simp add: seg_pages_def add_mult_distrib)
  have "(K + 1) * PAGE_SIZE = K * PAGE_SIZE + PAGE_SIZE" by simp
  then show "K * PAGE_SIZE \<le> p_vaddr ph" "p_vaddr ph < (K + 1) * PAGE_SIZE" "p_vaddr ph - ?r = K * PAGE_SIZE"
    using va r by linarith+
qed

lemma find_snoc: "find P (xs @ [y]) = (case find P xs of None \<Rightarrow> if P y then Some y else None | Some x \<Rightarrow> Some x)"
  by (induction xs) auto

lemma shared_at_snoc:
  assumes "K + n \<le> USER_PAGES"
  shows "shared_at (ls @ [(K * PAGE_SIZE, n, B)]) (k * PAGE_SIZE) =
    (case shared_at ls (k * PAGE_SIZE) of None \<Rightarrow> if K \<le> k \<and> k < K + n then Some (B + (k - K) * PAGE_SIZE) else None | Some x \<Rightarrow> Some x)"
proof -
  have "w64 (K * PAGE_SIZE + n * PAGE_SIZE) = (K + n) * PAGE_SIZE"
    using assms by (simp add: w64_def USER_PAGES_def PAGE_SIZE_def add_mult_distrib)
  then show ?thesis by (auto simp: shared_at_def find_snoc diff_mult_distrib split: option.split)
qed

text \<open>The loop's invariant.\<close>

definition segs_held :: "bytes \<Rightarrow> phdr list \<Rightarrow> loaded \<Rightarrow> (nat \<rightharpoonup> nat) \<Rightarrow> vm \<Rightarrow> bool" where
  "segs_held img segs ls m s \<longleftrightarrow> length ls = length segs \<and> (\<forall>k < USER_PAGES. shared_at ls (k * PAGE_SIZE) = m k) \<and>
     (\<forall>k. 0x6FFFFFFF0 \<le> k \<longrightarrow> m k = None) \<and>
     (\<forall>ph \<in> set segs. \<forall>v. in_seg ph v \<longrightarrow> m (v div PAGE_SIZE) \<noteq> None) \<and>
     (\<forall>v. v div PAGE_SIZE < USER_PAGES \<longrightarrow> m (v div PAGE_SIZE) \<noteq> None \<longrightarrow> ubyte s m v = Some (image_byte img segs v))"

text \<open>The bytes of the prepared pages.\<close>

definition prepared :: "bytes \<Rightarrow> phdr \<Rightarrow> nat \<Rightarrow> u8" where
  "prepared img ph y = (let o' = p_vaddr ph mod PAGE_SIZE
     in if o' \<le> y \<and> y < o' + p_filesz ph then img ! (p_offset ph + (y - o')) else 0)"

lemma prepared_byte:
  assumes "K = p_vaddr ph div PAGE_SIZE" "K * PAGE_SIZE \<le> v"
  shows "in_seg ph v \<Longrightarrow> prepared img ph (v - K * PAGE_SIZE) = seg_byte img ph v"
    "\<not> in_seg ph v \<Longrightarrow> p_filesz ph \<le> p_memsz ph \<Longrightarrow> prepared img ph (v - K * PAGE_SIZE) = 0"
proof -
  have "p_vaddr ph = K * PAGE_SIZE + p_vaddr ph mod PAGE_SIZE" using assms(1) div_mult_mod_eq [of "p_vaddr ph" PAGE_SIZE] by simp
  then have v: "v - K * PAGE_SIZE - p_vaddr ph mod PAGE_SIZE = v - p_vaddr ph"
    "p_vaddr ph mod PAGE_SIZE \<le> v - K * PAGE_SIZE \<longleftrightarrow> p_vaddr ph \<le> v"
    "v - K * PAGE_SIZE < p_vaddr ph mod PAGE_SIZE + p_filesz ph \<longleftrightarrow> v < p_vaddr ph + p_filesz ph" using assms(2) by linarith+
  show "prepared img ph (v - K * PAGE_SIZE) = seg_byte img ph v" if "in_seg ph v"
    using that unfolding prepared_def Let_def v seg_byte_def in_seg_def by auto
  show "prepared img ph (v - K * PAGE_SIZE) = 0" if "\<not> in_seg ph v" "p_filesz ph \<le> p_memsz ph"
    using that unfolding prepared_def Let_def v in_seg_def by auto
qed

lemma run_page:
  assumes "B mod PAGE_SIZE = 0" "y < n * PAGE_SIZE"
  shows "page_base (B + y) \<in> run_of B n"
proof -
  let ?r = "y mod PAGE_SIZE"
  have "B + y = (B + y div PAGE_SIZE * PAGE_SIZE) + ?r" by simp
  moreover have "(B + y div PAGE_SIZE * PAGE_SIZE) mod PAGE_SIZE = 0" using assms(1) by simp
  ultimately have "page_base (B + y) = B + y div PAGE_SIZE * PAGE_SIZE" using page_base_at [of _ ?r] by (metis PAGE_pos mod_less_divisor)
  moreover have "y div PAGE_SIZE < n" using assms(2) by (simp add: less_mult_imp_div_less)
  ultimately show ?thesis by (auto simp: run_of_def)
qed

lemma run_tail: "run_of B n = tail_of B 0 n"
  by (simp add: run_of_def tail_of_def lessThan_atLeast0)

text \<open>The pages of a segment filled: zeros, then the bytes of the file.\<close>

lemma prepare_ok:
  assumes v: "view F A a m (U \<union> run_of B (seg_pages ph)) s" and B: "B mod PAGE_SIZE = 0" and ph: "seg_fits ph" "seg_inside img ph"
  shows "\<exists>s1 s2. poke_bytes B (replicate (seg_pages ph * PAGE_SIZE) 0) s = Some s1 \<and>
    poke_bytes (B + p_vaddr ph mod PAGE_SIZE) (drop (p_offset ph) (take (p_offset ph + p_filesz ph) img)) s1 = Some s2 \<and>
    view F A a m (U \<union> run_of B (seg_pages ph)) s2 \<and> others_kept A a s s2 \<and> vpmm s2 = vpmm s \<and>
    (\<forall>j < seg_pages ph. page_holds s2 B (prepared img ph) j) \<and>
    (\<forall>q r. q \<notin> run_of B (seg_pages ph) \<longrightarrow> q mod PAGE_SIZE = 0 \<longrightarrow> r < PAGE_SIZE \<longrightarrow> peek_phys s2 (q + r) = peek_phys s (q + r))"
proof -
  let ?n = "seg_pages ph" and ?o = "p_vaddr ph mod PAGE_SIZE" and ?f = "drop (p_offset ph) (take (p_offset ph + p_filesz ph) img)"
  have lf: "length ?f = p_filesz ph" using ph(2) by (simp add: seg_inside_def)
  have "?o + p_memsz ph \<le> ?n * PAGE_SIZE" using div_ceil_ge [OF PAGE_pos] by (simp add: seg_pages_def)
  then have of: "?o + p_filesz ph \<le> ?n * PAGE_SIZE" using ph(2) by (simp add: seg_inside_def)
  obtain s1 where s1: "poke_bytes B (replicate (?n * PAGE_SIZE) 0) s = Some s1" "view F A a m (U \<union> run_of B ?n) s1" "others_kept A a s s1" "vpmm s1 = vpmm s"
    "\<And>x. peek_phys s1 x = (if B \<le> x \<and> x < B + ?n * PAGE_SIZE then Some (replicate (?n * PAGE_SIZE) 0 ! (x - B)) else peek_phys s x)"
    using view_poke [OF v, of "replicate (?n * PAGE_SIZE) 0" B] run_page [OF B] by auto
  have "page_base (B + ?o + i) \<in> (U \<union> run_of B ?n) \<union> used m" if "i < length ?f" for i
    using run_page [OF B, of "?o + i" ?n] that of lf by (simp add: add.assoc)
  from view_poke [OF s1(2) this] obtain s2 where s2: "poke_bytes (B + ?o) ?f s1 = Some s2" "view F A a m (U \<union> run_of B ?n) s2" "others_kept A a s1 s2" "vpmm s2 = vpmm s1"
    "\<And>x. peek_phys s2 x = (if B + ?o \<le> x \<and> x < B + ?o + length ?f then Some (?f ! (x - (B + ?o))) else peek_phys s1 x)" by blast
  have in': "peek_phys s2 (B + y) = Some (prepared img ph y)" if "y < ?n * PAGE_SIZE" for y
  proof (cases "?o \<le> y \<and> y < ?o + p_filesz ph")
    case True
    then have "p_offset ph + (y - ?o) < p_offset ph + p_filesz ph" by linarith
    from nth_take [OF this, of img] nth_drop [of "p_offset ph" "take (p_offset ph + p_filesz ph) img" "y - ?o"] ph(2)
    have "?f ! (y - ?o) = img ! (p_offset ph + (y - ?o))" by (simp only: seg_inside_def length_take min.absorb2 le_add1)
    with True show ?thesis using s2(5) [of "B + y"] lf by (simp add: prepared_def Let_def)
  next
    case False
    then have "peek_phys s2 (B + y) = peek_phys s1 (B + y)" using s2(5) [of "B + y"] lf by auto
    with False that s1(5) [of "B + y"] show ?thesis by (auto simp: prepared_def Let_def)
  qed
  have "page_holds s2 B (prepared img ph) j" if "j < ?n" for j
    unfolding page_holds_def
  proof (intro allI impI)
    fix r assume r: "r < PAGE_SIZE"
    have "Suc j * PAGE_SIZE \<le> ?n * PAGE_SIZE" using that by (intro mult_le_mono1) simp
    then show "peek_phys s2 (B + j * PAGE_SIZE + r) = Some (prepared img ph (j * PAGE_SIZE + r))"
      using in' [of "j * PAGE_SIZE + r"] r by (simp add: add.assoc)
  qed
  moreover have "peek_phys s2 (q + r) = peek_phys s (q + r)" if q: "q \<notin> run_of B ?n" "q mod PAGE_SIZE = 0" "r < PAGE_SIZE" for q r
  proof -
    have out: "\<not> (B \<le> q + r \<and> q + r < B + ?n * PAGE_SIZE)"
    proof
      assume "B \<le> q + r \<and> q + r < B + ?n * PAGE_SIZE"
      then have "q + r - B < ?n * PAGE_SIZE" "B + (q + r - B) = q + r" by linarith+
      with run_page [OF B, of "q + r - B" ?n] page_base_at [OF q(2,3)] q(1) show False by simp
    qed
    have "peek_phys s1 (q + r) = peek_phys s (q + r)" using s1(5) [of "q + r"] unfolding if_not_P [OF out] .
    moreover have "\<not> (B + ?o \<le> q + r \<and> q + r < B + ?o + length ?f)" using out of lf by linarith
    ultimately show ?thesis using s2(5) [of "q + r"] by argo
  qed
  ultimately show ?thesis using s1(1,4) s2(1,2,4) others_kept_trans [OF s1(3) s2(3)] by auto
qed

lemma segs_held_snoc:
  assumes v: "view F A a m U s" and h: "segs_held img segs ls m s" and ph: "seg_fits ph" "seg_inside img ph" and K: "K = p_vaddr ph div PAGE_SIZE"
    and n: "n = seg_pages ph" and m': "m' = grown m K B 0 n"
    and u: "\<And>v. v div PAGE_SIZE < USER_PAGES \<Longrightarrow> ubyte s' m' v =
      (if K \<le> v div PAGE_SIZE \<and> v div PAGE_SIZE < K + n \<and> (m (v div PAGE_SIZE) = None \<or> p_vaddr ph \<le> v \<and> v < p_vaddr ph + p_memsz ph)
       then Some (prepared img ph (v - K * PAGE_SIZE)) else ubyte s m v)"
  shows "segs_held img (segs @ [ph]) (ls @ [(K * PAGE_SIZE, n, B)]) m' s'"
proof -
  note sp = seg_pages_ok [OF ph(1) K]
  have kn: "K + n \<le> 0x6FFFFFFF0" "K + n \<le> USER_PAGES" using sp(1) stack_base_eq(2) n by linarith+
  have page: "K \<le> v div PAGE_SIZE \<and> v div PAGE_SIZE < K + n" if "in_seg ph v" for v
  proof -
    have "K * PAGE_SIZE \<le> v" "v < (K + n) * PAGE_SIZE" using that sp(3,5) unfolding in_seg_def n by linarith+
    then show ?thesis by (simp add: less_eq_div_iff_mult_less_eq div_less_iff_less_mult)
  qed
  have ib: "image_byte img (segs @ [ph]) v = (if in_seg ph v then seg_byte img ph v else image_byte img segs v)" for v
    by (simp add: image_byte_def)
  have none: "image_byte img segs v = 0" if "m (v div PAGE_SIZE) = None" for v
  proof -
    have "\<forall>ph \<in> set segs. \<not> in_seg ph v" using h that unfolding segs_held_def by blast
    moreover have "foldl (\<lambda>b ph. if in_seg ph v then seg_byte img ph v else b) 0 xs = 0" if "\<forall>ph \<in> set xs. \<not> in_seg ph v" for xs
      using that by (induction xs rule: rev_induct) auto
    ultimately show ?thesis by (simp add: image_byte_def)
  qed
  have "ubyte s' m' v = Some (image_byte img (segs @ [ph]) v)" if vk: "v div PAGE_SIZE < USER_PAGES" "m' (v div PAGE_SIZE) \<noteq> None" for v
  proof (cases "in_seg ph v")
    case True
    then have "K * PAGE_SIZE \<le> v" using sp(5) by (simp add: in_seg_def)
    from prepared_byte(1) [OF K this True] True u [OF vk(1)] page [OF True] show ?thesis by (simp add: ib in_seg_def)
  next
    case False
    show ?thesis
    proof (cases "m (v div PAGE_SIZE)")
      case None
      then have k: "K \<le> v div PAGE_SIZE" "v div PAGE_SIZE < K + n" using vk(2) by (auto simp: m' grown_def split: if_splits)
      then have "K * PAGE_SIZE \<le> v" by (simp add: less_eq_div_iff_mult_less_eq)
      from prepared_byte(2) [OF K this False] ph(2) u [OF vk(1)] k None False show ?thesis by (simp add: ib none seg_inside_def)
    next
      case (Some f)
      then have "ubyte s' m' v = ubyte s m v" using u [OF vk(1)] False by (auto simp: in_seg_def)
      with h vk(1) Some False show ?thesis by (simp add: segs_held_def ib)
    qed
  qed
  moreover have "shared_at (ls @ [(K * PAGE_SIZE, n, B)]) (k * PAGE_SIZE) = m' k" if "k < USER_PAGES" for k
    using h that unfolding shared_at_snoc [OF kn(2)] by (auto simp: segs_held_def m' grown_def split: option.split)
  moreover have "m' k = None" if "0x6FFFFFFF0 \<le> k" for k using h that kn(1) by (simp add: segs_held_def m' grown_def)
  moreover have "m' (v div PAGE_SIZE) \<noteq> None" if "ph' \<in> set (segs @ [ph])" "in_seg ph' v" for ph' v
    using that page [of v] h by (auto simp: segs_held_def m' grown_def)
  ultimately show ?thesis using h unfolding segs_held_def by auto
qed

lemma load_segment_ok:
  assumes v: "view F A a m U s" and h: "segs_held img segs ls m s" and ph: "seg_fits ph" and len: "length segs < MAX_LOAD_SEGMENTS"
    and mem: "4 * seg_pages ph \<le> card (free_set (vpmm s))" and K: "K = p_vaddr ph div PAGE_SIZE"
  obtains (bounds) "\<not> seg_inside img ph" "load_segment img i ph a ls hb s = Some (s, Inl (SegmentOutOfBounds i))"
  | (memory) "load_segment img i ph a ls hb s = Some (s, Inl (NoSegmentMemory i (seg_pages ph)))" "\<And>b. \<not> run_free (vpmm s) b (seg_pages ph)"
  | (loaded) s' m' ls' where "load_segment img i ph a ls hb s = Some (s', Inr (ls', max hb ((K + seg_pages ph) * PAGE_SIZE)))" "seg_inside img ph"
      "view F A a m' U s'" "segs_held img (segs @ [ph]) ls' m' s'" "others_kept A a s s'"
      "card (free_set (vpmm s)) \<le> card (free_set (vpmm s')) + 4 * seg_pages ph"
proof -
  let ?n = "seg_pages ph" and ?va = "p_vaddr ph" and ?se = "p_vaddr ph + p_memsz ph"
  note sp = seg_pages_ok [OF ph K]
  have kn: "K + ?n \<le> USER_PAGES" using sp(1) stack_base_eq(2) by linarith
  have se: "?se < 2 ^ 48" "?se < 2 ^ 64" using ph unfolding seg_fits_def stack_base_eq by (simp_all add: PAGE_SIZE_def)
  have wrap: "w64 (p_offset ph + p_filesz ph) = p_offset ph + p_filesz ph" "w64 ?se = ?se" using ph se(2) by (simp_all add: w64_def seg_fits_def)
  have "?se - K * PAGE_SIZE = ?va mod PAGE_SIZE + p_memsz ph" using sp(5,7) mod_less_eq_dividend [of ?va PAGE_SIZE] by linarith
  moreover have "K * PAGE_SIZE \<le> ?se" using sp(5) by linarith
  ultimately have pages: "div_ceil (minus64 ?se (K * PAGE_SIZE)) PAGE_SIZE = ?n"
    using minus64_id [OF _ se(2), of "K * PAGE_SIZE"] by (simp add: seg_pages_def)
  note unfold = load_segment_def wrap Let_def sp(7) pages
  show thesis
  proof (cases "seg_inside img ph")
    case False
    then show thesis using bounds by (simp add: unfold seg_inside_def not_le)
  next
    case True
    then have in': "\<not> (p_offset ph + p_filesz ph > length img \<or> p_filesz ph > p_memsz ph)" by (auto simp: seg_inside_def)
    show thesis
    proof (rule view_alloc [OF v sp(2)])
      assume n: "alloc_pages (vpmm s) ?n = (0, vpmm s)" "\<And>b. \<not> run_free (vpmm s) b ?n"
      have "load_segment img i ph a ls hb s = Some (s, Inl (NoSegmentMemory i ?n))" unfolding unfold if_not_P [OF in'] n(1) by simp
      then show thesis using memory n(2) by blast
    next
      fix B pm assume B: "alloc_pages (vpmm s) ?n = (B, pm)" "B \<noteq> 0" "B mod PAGE_SIZE = 0" "view F A a m (U \<union> run_of B ?n) (s\<lparr>vpmm := pm\<rparr>)"
        "run_of B ?n \<inter> (U \<union> used m) = {}" "card (free_set (vpmm s)) = card (free_set pm) + ?n"
      let ?s = "s\<lparr>vpmm := pm\<rparr>"
      obtain s1 s2 where p: "poke_bytes B (replicate (?n * PAGE_SIZE) 0) ?s = Some s1"
        "poke_bytes (B + ?va mod PAGE_SIZE) (drop (p_offset ph) (take (p_offset ph + p_filesz ph) img)) s1 = Some s2"
        "view F A a m (U \<union> run_of B ?n) s2" "others_kept A a ?s s2" "vpmm s2 = vpmm ?s" "\<And>j. j < ?n \<Longrightarrow> page_holds s2 B (prepared img ph) j"
        "\<And>q r. q \<notin> run_of B ?n \<Longrightarrow> q mod PAGE_SIZE = 0 \<Longrightarrow> r < PAGE_SIZE \<Longrightarrow> peek_phys s2 (q + r) = peek_phys ?s (q + r)"
        using prepare_ok [OF B(4,3) ph True] by blast
      have mem2: "3 * (?n - 0) \<le> card (free_set (vpmm s2))" using mem B(6) p(5) by simp
      have sh: "shared_at ls ((K + j) * PAGE_SIZE) = m (K + j)" if "j < ?n" for j using h that kn by (simp add: segs_held_def)
      have vs: "?va < ?se" using ph by (simp add: seg_fits_def)
      have tl: "tail_of B 0 ?n \<subseteq> U \<union> run_of B ?n" by (simp add: run_tail)
      obtain s3 where s3: "place_pages a ls ?va (K * PAGE_SIZE) ?se B [0..<?n] s2 = Some s3"
        "view F A a (grown m K B 0 ?n) ((U \<union> run_of B ?n) - tail_of B 0 ?n) s3" "others_kept A a s2 s3"
        "card (free_set (vpmm s2)) \<le> card (free_set (vpmm s3)) + 3 * (?n - 0)"
        "\<And>v. v div PAGE_SIZE < USER_PAGES \<Longrightarrow> ubyte s3 (grown m K B 0 ?n) v =
          (if K + 0 \<le> v div PAGE_SIZE \<and> v div PAGE_SIZE < K + ?n \<and> (m (v div PAGE_SIZE) = None \<or> ?va \<le> v \<and> v < ?se)
           then Some (prepared img ph (v - K * PAGE_SIZE)) else ubyte s2 m v)"
        using place_pages_ok [OF B(3) kn sp(5,6) sp(4) vs se(1) p(3) tl mem2 p(6) sh] by blast
      have U: "(U \<union> run_of B ?n) - tail_of B 0 ?n = U" using B(5) by (auto simp: run_tail)
      have ub: "ubyte s2 m v = ubyte s m v" if "v div PAGE_SIZE < USER_PAGES" for v
      proof (rule ubyte_cong [OF v that])
        fix q r assume q: "q \<in> used m" "r < PAGE_SIZE"
        then have "q \<notin> run_of B ?n" using B(5) by blast
        from p(7) [OF this view_used(4) [OF v q(1)] q(2)] show "peek_phys s2 (q + r) = peek_phys s (q + r)" by (simp add: peek_phys_def)
      qed
      have held: "segs_held img (segs @ [ph]) (ls @ [(K * PAGE_SIZE, ?n, B)]) (grown m K B 0 ?n) s3"
        by (rule segs_held_snoc [OF v h ph True K refl refl]) (use s3(5) ub in auto)
      have sl: "slice img (p_offset ph) (p_offset ph + p_filesz ph) = Some (drop (p_offset ph) (take (p_offset ph + p_filesz ph) img))"
        using True by (simp add: slice_def seg_inside_def)
      have w: "w64 (K * PAGE_SIZE + ?n * PAGE_SIZE) = (K + ?n) * PAGE_SIZE"
        using kn by (simp add: w64_def USER_PAGES_def PAGE_SIZE_def add_mult_distrib)
      have off: "?va - K * PAGE_SIZE = ?va mod PAGE_SIZE" using sp(7) mod_less_eq_dividend [of ?va PAGE_SIZE] by linarith
      have ll: "length ls < MAX_LOAD_SEGMENTS" using h len by (simp add: segs_held_def)
      have "load_segment img i ph a ls hb s = Some (s3, Inr (ls @ [(K * PAGE_SIZE, ?n, B)], max hb ((K + ?n) * PAGE_SIZE)))"
        unfolding unfold if_not_P [OF in'] B(1) off w using B(2) p(1,2) sl s3(1) ll by simp
      moreover have "others_kept A a s s3" using others_kept_trans [OF _ s3(3)] p(4) by (auto simp: others_kept_def)
      moreover have "card (free_set (vpmm s)) \<le> card (free_set (vpmm s3)) + 4 * ?n" using B(6) p(5) s3(4) by simp
      ultimately show thesis using loaded True held s3(2) unfolding U by blast
    qed
  qed
qed

section \<open>The program headers\<close>

definition ph_at :: "bytes \<Rightarrow> nat \<Rightarrow> nat \<Rightarrow> nat \<Rightarrow> phdr" where
  "ph_at img phoff es i = phdr_at (drop (phoff + i * es) img)"

definition loads_of :: "bytes \<Rightarrow> nat \<Rightarrow> nat \<Rightarrow> nat list \<Rightarrow> phdr list" where
  "loads_of img phoff es is = filter (\<lambda>ph. p_type ph = PT_LOAD) (map (ph_at img phoff es) is)"

definition seg_top :: "phdr \<Rightarrow> nat" where
  "seg_top ph = (p_vaddr ph div PAGE_SIZE + seg_pages ph) * PAGE_SIZE"

lemma phdr_at_take: "phdr_at (take PHDR_SIZE b) = phdr_at b"
  by (simp add: phdr_at_def field_def PHDR_SIZE_def drop_take)

text \<open>Why a load failed, and the allocator it failed with.\<close>

definition seg_error :: "bytes \<Rightarrow> nat \<Rightarrow> nat \<Rightarrow> nat list \<Rightarrow> pmm \<Rightarrow> elf_error \<Rightarrow> bool" where
  "seg_error img phoff es is pm e \<longleftrightarrow> (\<exists>i \<in> set is. p_type (ph_at img phoff es i) = PT_LOAD \<and>
     (e = SegmentOutOfBounds i \<and> \<not> seg_inside img (ph_at img phoff es i) \<or>
      e = NoSegmentMemory i (seg_pages (ph_at img phoff es i)) \<and> (\<forall>b. \<not> run_free pm b (seg_pages (ph_at img phoff es i)))))"

definition need_of :: "phdr list \<Rightarrow> nat" where
  "need_of segs = 4 * sum_list (map seg_pages segs)"

lemma load_segments_ok:
  assumes img: "length img < 2 ^ 64"
    and ok: "\<And>i. i \<in> set is \<Longrightarrow> phoff + i * es + PHDR_SIZE \<le> length img \<and> (p_type (ph_at img phoff es i) = PT_LOAD \<longrightarrow> seg_fits (ph_at img phoff es i))"
  shows "view F A a m U s \<Longrightarrow> segs_held img segs ls m s \<Longrightarrow> length segs + length (loads_of img phoff es is) \<le> MAX_LOAD_SEGMENTS \<Longrightarrow>
    need_of (loads_of img phoff es is) \<le> card (free_set (vpmm s)) \<Longrightarrow>
    \<exists>s' r m' ls'. load_segments img phoff es is a ls hb s = Some (s', r) \<and> others_kept A a s s' \<and> view F A a m' U s' \<and>
      card (free_set (vpmm s)) \<le> card (free_set (vpmm s')) + need_of (loads_of img phoff es is) \<and>
      (case r of Inl e \<Rightarrow> seg_error img phoff es is (vpmm s') e
       | Inr hb' \<Rightarrow> segs_held img (segs @ loads_of img phoff es is) ls' m' s' \<and> (\<forall>ph \<in> set (loads_of img phoff es is). seg_inside img ph) \<and>
           hb' = foldl max hb (map seg_top (loads_of img phoff es is)))"
  using ok
proof (induction "is" arbitrary: m s segs ls hb)
  case Nil
  then show ?case by (auto simp: loads_of_def need_of_def others_kept_refl)
next
  case (Cons i "is")
  let ?ph = "ph_at img phoff es i"
  have in': "phoff + i * es + PHDR_SIZE \<le> length img" "p_type ?ph = PT_LOAD \<Longrightarrow> seg_fits ?ph" using Cons.prems(5) [of i] by auto
  have at: "w64 (phoff + i * es) = phoff + i * es" using in'(1) img by (intro w64_id) linarith
  have sl: "slice img (phoff + i * es) (phoff + i * es + PHDR_SIZE) = Some (take PHDR_SIZE (drop (phoff + i * es) img))"
    using in'(1) by (simp add: slice_def drop_take)
  have ph: "phdr_at (take PHDR_SIZE (drop (phoff + i * es) img)) = ?ph" by (simp add: phdr_at_take ph_at_def)
  have more: "seg_error img phoff es (i # is) pm e" if "seg_error img phoff es is pm e" for pm e using that by (auto simp: seg_error_def)
  note IH = Cons.IH [OF _ _ _ _ Cons.prems(5)]
  show ?case
  proof (cases "p_type ?ph = PT_LOAD")
    case False
    then have l: "loads_of img phoff es (i # is) = loads_of img phoff es is" by (simp add: loads_of_def)
    have e: "load_segments img phoff es (i # is) a ls hb s = load_segments img phoff es is a ls hb s"
      using False by (simp add: at sl ph)
    from IH [OF Cons.prems(1,2) Cons.prems(3,4) [unfolded l], of hb] more show ?thesis unfolding l e by (fastforce split: sum.splits)
  next
    case True
    then have l: "loads_of img phoff es (i # is) = ?ph # loads_of img phoff es is" by (simp add: loads_of_def)
    have e: "load_segments img phoff es (i # is) a ls hb s = do {
       (s, r) \<leftarrow> load_segment img i ?ph a ls hb s;
       case r of Inl e \<Rightarrow> Some (s, Inl e)
       | Inr (ls, heap_base) \<Rightarrow> load_segments img phoff es is a ls heap_base s }"
      using True by (simp add: at sl ph)
    have len: "length segs < MAX_LOAD_SEGMENTS" and mem: "4 * seg_pages ?ph \<le> card (free_set (vpmm s))"
      using Cons.prems(3,4) by (simp_all add: l need_of_def)
    show ?thesis
    proof (rule load_segment_ok [OF Cons.prems(1,2) in'(2) [OF True] len mem refl, of i hb])
      assume "\<not> seg_inside img ?ph" "load_segment img i ?ph a ls hb s = Some (s, Inl (SegmentOutOfBounds i))"
      then show ?thesis using Cons.prems(1) True unfolding e by (auto simp: others_kept_refl seg_error_def)
    next
      assume "load_segment img i ?ph a ls hb s = Some (s, Inl (NoSegmentMemory i (seg_pages ?ph)))" "\<And>b. \<not> run_free (vpmm s) b (seg_pages ?ph)"
      then show ?thesis using Cons.prems(1) True unfolding e by (auto simp: others_kept_refl seg_error_def)
    next
      fix s1 m1 ls1
      assume s1: "load_segment img i ?ph a ls hb s = Some (s1, Inr (ls1, max hb ((p_vaddr ?ph div PAGE_SIZE + seg_pages ?ph) * PAGE_SIZE)))"
        "seg_inside img ?ph" "view F A a m1 U s1" "segs_held img (segs @ [?ph]) ls1 m1 s1" "others_kept A a s s1"
        "card (free_set (vpmm s)) \<le> card (free_set (vpmm s1)) + 4 * seg_pages ?ph"
      have n: "need_of (loads_of img phoff es (i # is)) = 4 * seg_pages ?ph + need_of (loads_of img phoff es is)" by (simp add: l need_of_def)
      have "length (segs @ [?ph]) + length (loads_of img phoff es is) \<le> MAX_LOAD_SEGMENTS" using Cons.prems(3) by (simp add: l)
      moreover have "need_of (loads_of img phoff es is) \<le> card (free_set (vpmm s1))" using Cons.prems(4) s1(6) n by linarith
      ultimately obtain s' r m' ls' where r: "load_segments img phoff es is a ls1 (max hb (seg_top ?ph)) s1 = Some (s', r)" "others_kept A a s1 s'"
        "view F A a m' U s'" "card (free_set (vpmm s1)) \<le> card (free_set (vpmm s')) + need_of (loads_of img phoff es is)"
        "case r of Inl e \<Rightarrow> seg_error img phoff es is (vpmm s') e
         | Inr hb' \<Rightarrow> segs_held img ((segs @ [?ph]) @ loads_of img phoff es is) ls' m' s' \<and> (\<forall>ph \<in> set (loads_of img phoff es is). seg_inside img ph) \<and>
           hb' = foldl max (max hb (seg_top ?ph)) (map seg_top (loads_of img phoff es is))"
        using IH [OF s1(3,4), of "max hb (seg_top ?ph)"] by auto
      have "load_segments img phoff es (i # is) a ls hb s = Some (s', r)" unfolding e using s1(1) r(1) by (simp add: seg_top_def)
      moreover have "card (free_set (vpmm s)) \<le> card (free_set (vpmm s')) + need_of (loads_of img phoff es (i # is))" using s1(6) r(4) n by linarith
      moreover have "case r of Inl e \<Rightarrow> seg_error img phoff es (i # is) (vpmm s') e
         | Inr hb' \<Rightarrow> segs_held img (segs @ loads_of img phoff es (i # is)) ls' m' s' \<and> (\<forall>ph \<in> set (loads_of img phoff es (i # is)). seg_inside img ph) \<and>
           hb' = foldl max hb (map seg_top (loads_of img phoff es (i # is)))"
        using r(5) more s1(2) by (cases r) (simp_all add: l)
      ultimately show ?thesis using r(3) others_kept_trans [OF s1(5) r(2)] by blast
    qed
  qed
qed

end
