(* ===== verification/ElfProps.thy ===== *)
theory ElfProps
  imports ElfSegs
begin

text \<open>
  A program as the loader leaves it: its segments, its stack with the arguments, and every other address
  space as it was.
\<close>

section \<open>The stack's pages\<close>

lemma used_upd: "m k = None \<Longrightarrow> k < USER_PAGES \<Longrightarrow> used (m(k \<mapsto> x)) = insert x (used m)"
  unfolding used_def by (auto, metis option.distinct(1))

lemma stack_page: "stack_base + p * PAGE_SIZE = (0x6FFFFFFF0 + p) * PAGE_SIZE"
  by (simp add: stack_base_eq(1) add_mult_distrib)

lemma map_stack_ok:
  "view F A a m U s \<Longrightarrow> tail_of sp i USER_STACK_PAGES \<subseteq> U \<Longrightarrow> (\<And>j. i \<le> j \<Longrightarrow> j < USER_STACK_PAGES \<Longrightarrow> m (0x6FFFFFFF0 + j) = None) \<Longrightarrow>
   3 * (USER_STACK_PAGES - i) \<le> card (free_set (vpmm s)) \<Longrightarrow>
   \<exists>s'. map_stack a sp [i..<USER_STACK_PAGES] s = Some s' \<and>
     view F A a (grown m 0x6FFFFFFF0 sp i USER_STACK_PAGES) (U - tail_of sp i USER_STACK_PAGES) s' \<and> others_kept A a s s' \<and>
     card (free_set (vpmm s)) \<le> card (free_set (vpmm s')) + 3 * (USER_STACK_PAGES - i) \<and>
     (\<forall>q \<in> U \<union> used m. \<forall>r < PAGE_SIZE. peek_phys s' (q + r) = peek_phys s (q + r))"
proof (induction "USER_STACK_PAGES - i" arbitrary: i m U s)
  case 0
  then have "USER_STACK_PAGES \<le> i" by simp
  then show ?case using "0.prems"(1) by (auto simp: grown_done tail_of_def others_kept_refl)
next
  case (Suc d)
  let ?n = USER_STACK_PAGES and ?x = "sp + i * PAGE_SIZE" and ?k = "0x6FFFFFFF0 + i"
  have i: "i < ?n" "d = ?n - Suc i" using Suc.hyps(2) by linarith+
  have k: "?k < USER_PAGES" using i(1) by (simp add: USER_STACK_PAGES_def USER_PAGES_def)
  have none: "m ?k = None" by (rule Suc.prems(3) [OF le_refl i(1)])
  have x: "?x \<in> U" "tail_of sp (Suc i) ?n \<subseteq> U - {?x}" using Suc.prems(2) tail_step(1) [OF i(1), of sp] tail_step(2) [of sp i ?n] by auto
  have "3 \<le> card (free_set (vpmm s))" using Suc.prems(4) i(1) by linarith
  from view_map [OF Suc.prems(1) x(1) k this] obtain s1 where
    s1: "vmap s a (of_nat (?k * PAGE_SIZE)) (of_nat ?x) (PAGE_PRESENT OR PAGE_WRITABLE OR PAGE_USER) = Some s1"
      "view F A a (m(?k \<mapsto> ?x)) (U - {?x}) s1" "others_kept A a s s1" "\<forall>q \<in> U \<union> used m. ram s1 q = ram s q"
      "card (free_set (vpmm s)) \<le> card (free_set (vpmm s1)) + 3" by blast
  have m1: "(m(?k \<mapsto> ?x)) (0x6FFFFFFF0 + j) = None" if "Suc i \<le> j" "j < ?n" for j using Suc.prems(3) [of j] that by simp
  have mem1: "3 * (?n - Suc i) \<le> card (free_set (vpmm s1))" using Suc.prems(4) s1(5) i(1) by linarith
  from Suc.hyps(1) [OF i(2) s1(2) x(2) m1 mem1] obtain s2 where
    s2: "map_stack a sp [Suc i..<?n] s1 = Some s2" "view F A a (grown (m(?k \<mapsto> ?x)) 0x6FFFFFFF0 sp (Suc i) ?n) (U - {?x} - tail_of sp (Suc i) ?n) s2"
      "others_kept A a s1 s2" "card (free_set (vpmm s1)) \<le> card (free_set (vpmm s2)) + 3 * (?n - Suc i)"
      "\<forall>q \<in> (U - {?x}) \<union> used (m(?k \<mapsto> ?x)). \<forall>r < PAGE_SIZE. peek_phys s2 (q + r) = peek_phys s1 (q + r)" by blast
  have e: "[i..<?n] = i # [Suc i..<?n]" using i(1) by (simp add: upt_conv_Cons)
  have "map_stack a sp [i..<?n] s = Some s2" unfolding e using s1(1) s2(1) by (simp add: stack_page)
  moreover have "grown (m(?k \<mapsto> ?x)) 0x6FFFFFFF0 sp (Suc i) ?n = grown m 0x6FFFFFFF0 sp i ?n" using grown_step [OF i(1), of m] none by simp
  moreover have "U - {?x} - tail_of sp (Suc i) ?n = U - tail_of sp i ?n" using tail_step(1) [OF i(1)] by auto
  moreover have "peek_phys s2 (q + r) = peek_phys s (q + r)" if "q \<in> U \<union> used m" "r < PAGE_SIZE" for q r
  proof -
    have "peek_phys s2 (q + r) = peek_phys s1 (q + r)" using s2(5) that used_upd [where m = m and x = ?x, OF none k] by blast
    also have "\<dots> = peek_phys s (q + r)" by (rule peek_bytes_cong [OF _ view_table(3) [OF Suc.prems(1) that(1)] that(2)]) (use s1(4) that(1) in blast)
    finally show ?thesis .
  qed
  moreover have "card (free_set (vpmm s)) \<le> card (free_set (vpmm s2)) + 3 * (?n - i)" using s1(5) s2(4) i(1) by linarith
  ultimately show ?case using s2(2) others_kept_trans [OF s1(3) s2(3)] by auto
qed

section \<open>The address space\<close>

text \<open>What the loader takes from a file without a check.\<close>

definition elf_loads :: "bytes \<Rightarrow> phdr list" where
  "elf_loads img = (let eh = ehdr_at img in loads_of img (e_phoff eh) (e_phentsize eh) [0..<e_phnum eh])"

definition elf_fits :: "bytes \<Rightarrow> bool" where
  "elf_fits img \<longleftrightarrow> (let eh = ehdr_at img in length img < 2 ^ 64 \<and>
     (\<forall>i < e_phnum eh. e_phoff eh + i * e_phentsize eh + PHDR_SIZE \<le> length img) \<and>
     list_all seg_fits (elf_loads img) \<and> length (elf_loads img) \<le> MAX_LOAD_SEGMENTS)"

definition elf_need :: "bytes \<Rightarrow> nat" where
  "elf_need img = 1 + need_of (elf_loads img) + 4 * USER_STACK_PAGES"

text \<open>An error is a segment outside the file, or a run of pages that the allocator does not have.\<close>

definition load_error :: "bytes \<Rightarrow> pmm \<Rightarrow> elf_error \<Rightarrow> bool" where
  "load_error img pm e \<longleftrightarrow> (let eh = ehdr_at img in seg_error img (e_phoff eh) (e_phentsize eh) [0..<e_phnum eh] pm e) \<or>
     e = NoStackMemory \<and> (\<forall>b. \<not> run_free pm b USER_STACK_PAGES) \<or> e = NoKernelStack \<and> (\<forall>b. \<not> run_free pm b 5)"

lemma new_space_view:
  assumes inv: "vm_inv s A" and cur: "page_ok (ram s) (cr3 s)" "\<forall>p \<in> free_set (vpmm s). cr3 s \<noteq> p * PAGE_SIZE"
    and mem: "free_set (vpmm s) \<noteq> {}"
  shows "\<exists>s' d. new_address_space s = Some (s', d) \<and> d \<notin> A \<and> view (free_set (vpmm s)) (insert d A) d Map.empty {} s' \<and>
    others_kept (insert d A) d s s' \<and> card (free_set (vpmm s)) = card (free_set (vpmm s')) + 1"
proof -
  from cur(1) obtain k where k: "ram s (cr3 s) = Some k" "length k = ENTRIES" by (auto simp: page_ok_def)
  obtain s' d where s': "new_address_space s = Some (s', d)" "vm_inv s' (insert d A)" "d \<notin> A"
    "d \<in> (\<lambda>p. p * PAGE_SIZE) ` free_set (vpmm s)" "Vmm.region s' d = (\<lambda>p. p * PAGE_SIZE) ` free_set (vpmm s)"
    "\<forall>q. q \<noteq> d \<longrightarrow> ram s' q = ram s q" "\<forall>js. upath js \<longrightarrow> pte (look (ram s')) d js = None"
    "card (free_set (vpmm s)) = card (free_set (vpmm s')) + 1"
    using new_address_space_ok [OF inv k cur(2) mem] by blast
  have "p \<in> free_set (vpmm s)" if "p \<in> free_set (vpmm s')" for p
  proof -
    have "p * PAGE_SIZE \<in> Vmm.region s' d" using imageI [OF that, of "\<lambda>p. p * PAGE_SIZE"] unfolding Vmm.region_def by blast
    then show ?thesis unfolding s'(5) by (auto simp: PAGE_SIZE_def)
  qed
  moreover have "frame_of s' d k = None" if "k < USER_PAGES" for k
    using s'(7) upath_upage(1) [OF that] upath_upage(2) [of k] by (auto simp: frame_of_def node_def)
  ultimately have "view (free_set (vpmm s)) (insert d A) d Map.empty {} s'" using s'(2) by (auto simp: view_def)
  moreover have df: "d \<notin> frames (look (ram s)) b" if "b \<in> A" for b
    using s'(4) vm_invD(3) [OF inv that, of d] by (auto simp: owned_def PAGE_SIZE_def)
  have "pte (look (ram s')) b js = pte (look (ram s)) b js \<and> (\<forall>q. node (look (ram s)) b js = Some q \<longrightarrow> ram s' q = ram s q)"
    if "b \<in> A" "upath js" for b js
  proof -
    have "\<forall>q \<in> frames (look (ram s)) b. look (ram s') q = look (ram s) q" using df [OF that(1)] s'(6) by (auto simp: look_def fun_eq_iff)
    from pte_frames_cong(1) [OF this that(2)] framesI [OF that(2), of "look (ram s)" b] df [OF that(1)] s'(6) show ?thesis by metis
  qed
  then have "others_kept (insert d A) d s s'" by (auto simp: others_kept_def)
  ultimately show ?thesis using s'(1,3,8) by blast
qed

lemma load_space_ok:
  assumes inv: "vm_inv s A" and cur: "page_ok (ram s) (cr3 s)" "\<forall>p \<in> free_set (vpmm s). cr3 s \<noteq> p * PAGE_SIZE"
    and fits: "elf_fits img" and mem: "elf_need img \<le> card (free_set (vpmm s))"
  shows "\<exists>s' r d m. load_space img s = Some (s', r) \<and> d \<notin> A \<and> view (free_set (vpmm s)) (insert d A) d m {} s' \<and> others_kept (insert d A) d s s' \<and>
    (case r of Inl e \<Rightarrow> load_error img (vpmm s') e
     | Inr (a, sp, hb) \<Rightarrow> a = d \<and> sp mod PAGE_SIZE = 0 \<and> (\<forall>j < USER_STACK_PAGES. m (0x6FFFFFFF0 + j) = Some (sp + j * PAGE_SIZE)) \<and>
         hb = foldl max 0 (map seg_top (elf_loads img)) \<and>
         (\<forall>ph \<in> set (elf_loads img). seg_inside img ph \<and> (\<forall>v. in_seg ph v \<longrightarrow> ubyte s' m v = Some (image_byte img (elf_loads img) v))))"
proof -
  let ?F = "free_set (vpmm s)" and ?eh = "ehdr_at img"
  let ?is = "[0..<e_phnum ?eh]"
  have L: "elf_loads img = loads_of img (e_phoff ?eh) (e_phentsize ?eh) ?is" by (simp add: elf_loads_def Let_def)
  have "?F \<noteq> {}" using mem by (auto simp: elf_need_def)
  from new_space_view [OF inv cur this] obtain s1 d where
    s1: "new_address_space s = Some (s1, d)" "d \<notin> A" "view ?F (insert d A) d Map.empty {} s1" "others_kept (insert d A) d s s1"
      "card ?F = card (free_set (vpmm s1)) + 1" by blast
  have h0: "segs_held img [] [] Map.empty s1" by (auto simp: segs_held_def shared_at_def)
  have ok: "e_phoff ?eh + i * e_phentsize ?eh + PHDR_SIZE \<le> length img \<and>
      (p_type (ph_at img (e_phoff ?eh) (e_phentsize ?eh) i) = PT_LOAD \<longrightarrow> seg_fits (ph_at img (e_phoff ?eh) (e_phentsize ?eh) i))" if "i \<in> set ?is" for i
    using fits that unfolding elf_fits_def Let_def L by (auto simp: loads_of_def list_all_iff)
  have len: "length ([] :: phdr list) + length (elf_loads img) \<le> MAX_LOAD_SEGMENTS" "length img < 2 ^ 64" using fits by (simp_all add: elf_fits_def Let_def)
  have n1: "need_of (elf_loads img) \<le> card (free_set (vpmm s1))" using mem s1(5) by (simp add: elf_need_def)
  obtain s2 r m ls where s2: "load_segments img (e_phoff ?eh) (e_phentsize ?eh) ?is d [] 0 s1 = Some (s2, r)" "others_kept (insert d A) d s1 s2"
    "view ?F (insert d A) d m {} s2" "card (free_set (vpmm s1)) \<le> card (free_set (vpmm s2)) + need_of (elf_loads img)"
    "case r of Inl e \<Rightarrow> seg_error img (e_phoff ?eh) (e_phentsize ?eh) ?is (vpmm s2) e
     | Inr hb' \<Rightarrow> segs_held img ([] @ elf_loads img) ls m s2 \<and> (\<forall>ph \<in> set (elf_loads img). seg_inside img ph) \<and> hb' = foldl max 0 (map seg_top (elf_loads img))"
    using load_segments_ok [OF len(2) ok s1(3) h0 len(1) [unfolded L] n1 [unfolded L], of 0] unfolding L by blast
  have kept2: "others_kept (insert d A) d s s2" by (rule others_kept_trans [OF s1(4) s2(2)])
  show ?thesis
  proof (cases r)
    case (Inl e)
    have "load_space img s = Some (s2, Inl e)" unfolding load_space_def using s1(1) s2(1) Inl by simp
    then show ?thesis using s1(2) s2(3,5) kept2 Inl by (auto simp: load_error_def Let_def)
  next
    case (Inr hb)
    have held: "segs_held img (elf_loads img) ls m s2" and inside: "\<forall>ph \<in> set (elf_loads img). seg_inside img ph"
      and hb: "hb = foldl max 0 (map seg_top (elf_loads img))" using s2(5) Inr by simp_all
    have st: "0 < USER_STACK_PAGES" by (simp add: USER_STACK_PAGES_def)
    show ?thesis
    proof (rule view_alloc [OF s2(3) st])
      assume n: "alloc_pages (vpmm s2) USER_STACK_PAGES = (0, vpmm s2)" "\<And>b. \<not> run_free (vpmm s2) b USER_STACK_PAGES"
      have "load_space img s = Some (s2, Inl NoStackMemory)" unfolding load_space_def using s1(1) s2(1) Inr n(1) by simp
      then show ?thesis using s1(2) s2(3) kept2 n(2) by (auto simp: load_error_def)
    next
      fix sp pm assume B: "alloc_pages (vpmm s2) USER_STACK_PAGES = (sp, pm)" "sp \<noteq> 0" "sp mod PAGE_SIZE = 0"
        "view ?F (insert d A) d m ({} \<union> run_of sp USER_STACK_PAGES) (s2\<lparr>vpmm := pm\<rparr>)" "run_of sp USER_STACK_PAGES \<inter> ({} \<union> used m) = {}"
        "card (free_set (vpmm s2)) = card (free_set pm) + USER_STACK_PAGES"
      have pages: "page_base (sp + i) \<in> ({} \<union> run_of sp USER_STACK_PAGES) \<union> used m" if "i < length (replicate (USER_STACK_PAGES * PAGE_SIZE) (0 :: u8))" for i
        using run_page [OF B(3), of i USER_STACK_PAGES] that by simp
      obtain s3 where s3: "poke_bytes sp (replicate (USER_STACK_PAGES * PAGE_SIZE) 0) (s2\<lparr>vpmm := pm\<rparr>) = Some s3"
        "view ?F (insert d A) d m ({} \<union> run_of sp USER_STACK_PAGES) s3" "others_kept (insert d A) d (s2\<lparr>vpmm := pm\<rparr>) s3" "vpmm s3 = pm"
        "\<And>x. peek_phys s3 x = (if sp \<le> x \<and> x < sp + USER_STACK_PAGES * PAGE_SIZE
           then Some (replicate (USER_STACK_PAGES * PAGE_SIZE) 0 ! (x - sp)) else peek_phys (s2\<lparr>vpmm := pm\<rparr>) x)"
        using view_poke [OF B(4), of "replicate (USER_STACK_PAGES * PAGE_SIZE) 0" sp, OF pages] by auto
      have none: "m (0x6FFFFFFF0 + j) = None" for j using held by (simp add: segs_held_def)
      have mem3: "3 * (USER_STACK_PAGES - 0) \<le> card (free_set (vpmm s3))" using mem s1(5) s2(4) B(6) s3(4) by (simp add: elf_need_def)
      have tl: "tail_of sp 0 USER_STACK_PAGES \<subseteq> {} \<union> run_of sp USER_STACK_PAGES" by (simp add: run_tail)
      let ?m = "grown m 0x6FFFFFFF0 sp 0 USER_STACK_PAGES"
      obtain s4 where s4: "map_stack d sp [0..<USER_STACK_PAGES] s3 = Some s4" "view ?F (insert d A) d ?m (({} \<union> run_of sp USER_STACK_PAGES) - tail_of sp 0 USER_STACK_PAGES) s4"
        "others_kept (insert d A) d s3 s4" "\<forall>q \<in> ({} \<union> run_of sp USER_STACK_PAGES) \<union> used m. \<forall>r < PAGE_SIZE. peek_phys s4 (q + r) = peek_phys s3 (q + r)"
        using map_stack_ok [OF s3(2) tl none mem3] by blast
      have same: "peek_phys s4 (q + r) = peek_phys s2 (q + r)" if q: "q \<in> used m" "r < PAGE_SIZE" for q r
      proof -
        have "\<not> (sp \<le> q + r \<and> q + r < sp + USER_STACK_PAGES * PAGE_SIZE)"
        proof
          assume "sp \<le> q + r \<and> q + r < sp + USER_STACK_PAGES * PAGE_SIZE"
          then have "q + r - sp < USER_STACK_PAGES * PAGE_SIZE" "sp + (q + r - sp) = q + r" by linarith+
          with run_page [OF B(3), of "q + r - sp"] page_base_at [OF view_used(4) [OF s2(3) q(1)] q(2)] B(5) q(1) show False by auto
        qed
        with s3(5) [of "q + r"] have "peek_phys s3 (q + r) = peek_phys s2 (q + r)" by (auto simp: peek_phys_def)
        with s4(4) q show ?thesis by simp
      qed
      have ub: "ubyte s4 ?m v = Some (image_byte img (elf_loads img) v)" if "ph \<in> set (elf_loads img)" "in_seg ph v" for ph v
      proof -
        have mv: "m (v div PAGE_SIZE) \<noteq> None" using held that unfolding segs_held_def by blast
        then have k: "v div PAGE_SIZE < 0x6FFFFFFF0" "v div PAGE_SIZE < USER_PAGES" using held stack_base_eq(2) unfolding segs_held_def by (metis not_le, metis not_le less_trans)
        have "ubyte s4 ?m v = ubyte s4 m v" using k(1) by (simp add: ubyte_def grown_def)
        also have "\<dots> = ubyte s2 m v" by (rule ubyte_cong [OF s2(3) k(2)]) (rule same)
        finally show ?thesis using held k(2) mv by (simp add: segs_held_def)
      qed
      have "load_space img s = Some (s4, Inr (d, sp, hb))"
        unfolding load_space_def using s1(1) s2(1) Inr B(1,2) s3(1) s4(1) by simp
      moreover have "others_kept (insert d A) d s s4"
        using others_kept_trans [OF kept2 others_kept_trans [OF _ s4(3)]] s3(3) by (auto simp: others_kept_def)
      moreover have "view ?F (insert d A) d ?m {} s4" using s4(2) by (simp add: run_tail)
      moreover have "?m (0x6FFFFFFF0 + j) = Some (sp + j * PAGE_SIZE)" if "j < USER_STACK_PAGES" for j using none that by (simp add: grown_def)
      ultimately show ?thesis using s1(2) B(3) hb inside ub by (intro exI [of _ s4] exI [of _ "Inr (d, sp, hb)"] exI [of _ d] exI [of _ ?m]) auto
    qed
  qed
qed

section \<open>The kernel stack\<close>

lemma view_more:
  assumes "view F A a m U s" "pmm_inv pm" "total_pages pm = total_pages (vpmm s)" "free_set pm \<subseteq> free_set (vpmm s)"
  shows "view F A a m U (s\<lparr>vpmm := pm\<rparr>)"
proof -
  have "owned (s\<lparr>vpmm := pm\<rparr>) x" if "owned s x" for x using that assms(3,4) by (auto simp: owned_def)
  then show ?thesis using assms unfolding view_def vm_inv_def frame_of_def by auto
qed

lemma malloc_pages:
  assumes "malloc_with k_grow h req = Some (h', b)"
  shows "kpmm h' = kpmm h \<or> kpmm h' = snd (alloc_pages (kpmm h) (div_ceil (HEADER + align_up (max req 1) HEAP_ALIGN) PAGE_SIZE))"
proof -
  have split: "kpmm h2 = kpmm h1" if "split h1 c n = Some h2" for h1 h2 :: kheap and c n
    using that by (auto simp: split_def Let_def split: option.splits if_splits)
  have app: "kpmm h2 = kpmm h1" if "append_block h1 c n = Some h2" for h1 h2 :: kheap and c n
    using that by (auto simp: append_block_def Let_def split: option.splits if_splits)
  have grow: "kpmm h2 = snd (alloc_pages (kpmm h1) (div_ceil (HEADER + n) PAGE_SIZE))" if "k_grow h1 n = Some (h2, c)" for h1 h2 c n
    using that app by (fastforce simp: k_grow_def Let_def split: prod.splits if_splits)
  from assms show ?thesis
    by (auto simp: malloc_with_def Let_def split: bind_splits if_splits prod.splits dest!: split grow)
qed

lemma alloc_kernel_stack_ok:
  assumes v: "view F A a m U s" and h: "hrep (h\<lparr>kpmm := vpmm s\<rparr>) xs" "k_src (h\<lparr>kpmm := vpmm s\<rparr>) (span xs)"
  shows "\<exists>s' h' r. alloc_kernel_stack s h = Some (s', h', r) \<and> view F A a m U s' \<and> ram s' = ram s \<and>
    (r = None \<longrightarrow> vpmm s' = vpmm s \<and> (\<forall>b. \<not> run_free (vpmm s) b 5))"
proof -
  let ?h = "h\<lparr>kpmm := vpmm s\<rparr>"
  obtain h' b where m: "malloc_with k_grow ?h KERNEL_STACK_SIZE = Some (h', b)"
    by (rule kernel_heap.malloc_cases [OF h, of KERNEL_STACK_SIZE]) auto
  have n: "div_ceil (HEADER + align_up (max KERNEL_STACK_SIZE 1) HEAP_ALIGN) PAGE_SIZE = 5"
    by (simp add: KERNEL_STACK_SIZE_def HEADER_def HEAP_ALIGN_def align_up_def div_ceil_def PAGE_SIZE_def)
  have "alloc_kernel_stack s h = Some (s\<lparr>vpmm := kpmm h'\<rparr>, h', if b = 0 then None else Some (b + KERNEL_STACK_SIZE))"
    using m by (simp add: alloc_kernel_stack_def k_alloc_def alloc_with_def HEAP_ALIGN_def)
  moreover have "view F A a m U (s\<lparr>vpmm := kpmm h'\<rparr>)"
  proof -
    have pi: "pmm_inv (vpmm s)" using v by (simp add: view_def vm_inv_def)
    then have wf: "pmm_wf (vpmm s)" by (simp add: pmm_inv_def)
    have "pmm_inv pm \<and> total_pages pm = total_pages (vpmm s) \<and> free_set pm \<subseteq> free_set (vpmm s)" if "pm = snd (alloc_pages (vpmm s) 5)" for pm
      using alloc_pages_cases [OF wf, of 5] take_run_wf [OF wf] pi that by (auto simp: pmm_inv_def)
    with malloc_pages [OF m] pi show ?thesis unfolding n by (intro view_more [OF v]) auto
  qed
  moreover have "kpmm h' = vpmm s \<and> (\<forall>b. \<not> run_free (vpmm s) b 5)" if "b = 0"
    using malloc_null [OF h m [unfolded that]] unfolding n by simp
  ultimately show ?thesis by auto
qed

section \<open>Arguments\<close>

text \<open>What the program reads in its own address space.\<close>

definition user_byte :: "vm \<Rightarrow> nat \<Rightarrow> nat \<Rightarrow> u8 option" where
  "user_byte s a v = (case translate s a (of_nat v) of None \<Rightarrow> None | Some e \<Rightarrow> peek_phys s (addr e + v mod PAGE_SIZE))"

lemma user_byte_view:
  assumes "view F A a m U s" "v < 2 ^ 47"
  shows "user_byte s a v = ubyte s m v"
proof -
  have "v div PAGE_SIZE < USER_PAGES" using assms(2) by (simp add: USER_PAGES_def PAGE_SIZE_def less_mult_imp_div_less)
  then have "node (look (ram s)) a (path (of_nat v)) = m (v div PAGE_SIZE)"
    using assms by (simp add: path_of_nat(1) view_def frame_of_def)
  then show ?thesis by (auto simp: user_byte_def ubyte_def node_path split: option.splits)
qed

definition user_word :: "vm \<Rightarrow> nat \<Rightarrow> nat \<Rightarrow> nat option" where
  "user_word s a v = map_option of_le (those (map (user_byte s a) [v..<v + 8]))"

fun user_cstr :: "vm \<Rightarrow> nat \<Rightarrow> nat \<Rightarrow> nat \<Rightarrow> bytes option" where
  "user_cstr s a 0 v = None"
| "user_cstr s a (Suc n) v = (case user_byte s a v of None \<Rightarrow> None
     | Some b \<Rightarrow> if b = 0 then Some [] else map_option ((#) b) (user_cstr s a n (v + 1)))"

text \<open>The arguments, as a program's start-up code reads them off its stack.\<close>

definition read_args :: "vm \<Rightarrow> nat \<Rightarrow> nat \<Rightarrow> bytes list option" where
  "read_args s a sp = do {
     n \<leftarrow> user_word s a sp;
     those (map (\<lambda>i. do { p \<leftarrow> user_word s a (sp + 8 + 8 * i); user_cstr s a MAX_ARG_LEN p }) [0..<n]) }"

text \<open>Bytes in the stack's pages, by their user addresses.\<close>

definition stack_at :: "vm \<Rightarrow> nat \<Rightarrow> nat \<Rightarrow> bytes \<Rightarrow> bool" where
  "stack_at s sp p bs \<longleftrightarrow> stack_base \<le> p \<and> p + length bs \<le> USER_STACK_TOP \<and> (\<forall>j < length bs. peek_phys s (sp + (p - stack_base) + j) = Some (bs ! j))"

definition stack_view :: "nat set \<Rightarrow> nat set \<Rightarrow> nat \<Rightarrow> (nat \<rightharpoonup> nat) \<Rightarrow> nat \<Rightarrow> vm \<Rightarrow> bool" where
  "stack_view F A a m sp s \<longleftrightarrow> view F A a m {} s \<and> sp mod PAGE_SIZE = 0 \<and> (\<forall>j < USER_STACK_PAGES. m (0x6FFFFFFF0 + j) = Some (sp + j * PAGE_SIZE))"

lemma stack_top_eq: "USER_STACK_TOP = stack_base + USER_STACK_PAGES * PAGE_SIZE"
  by (simp add: stack_base_def USER_STACK_TOP_def USER_STACK_PAGES_def PAGE_SIZE_def)

lemma stack_poke:
  assumes v: "stack_view F A a m sp s" and p: "stack_base \<le> p" "p + length bs \<le> USER_STACK_TOP"
  shows "\<exists>s'. poke_bytes (sp + (p - stack_base)) bs s = Some s' \<and> stack_view F A a m sp s' \<and> others_kept A a s s' \<and> vpmm s' = vpmm s \<and>
    stack_at s' sp p bs \<and> (\<forall>x. x < sp + (p - stack_base) \<or> sp + (p - stack_base) + length bs \<le> x \<longrightarrow> peek_phys s' x = peek_phys s x)"
proof -
  have vw: "view F A a m {} s" "sp mod PAGE_SIZE = 0" using v by (simp_all add: stack_view_def)
  have "page_base (sp + (p - stack_base) + i) \<in> {} \<union> used m" if "i < length bs" for i
  proof -
    have "p - stack_base + i < USER_STACK_PAGES * PAGE_SIZE" using that p unfolding stack_top_eq by linarith
    from run_page [OF vw(2) this] obtain j where j: "j < USER_STACK_PAGES" "page_base (sp + (p - stack_base) + i) = sp + j * PAGE_SIZE"
      by (auto simp: run_of_def add.assoc)
    moreover have "0x6FFFFFFF0 + j < USER_PAGES" using j(1) by (simp add: USER_STACK_PAGES_def USER_PAGES_def)
    ultimately show ?thesis using v unfolding stack_view_def used_def by auto
  qed
  from view_poke [OF vw(1) this] obtain s' where s': "poke_bytes (sp + (p - stack_base)) bs s = Some s'" "view F A a m {} s'" "others_kept A a s s'" "vpmm s' = vpmm s"
    "\<forall>x. peek_phys s' x = (if sp + (p - stack_base) \<le> x \<and> x < sp + (p - stack_base) + length bs then Some (bs ! (x - (sp + (p - stack_base)))) else peek_phys s x)" by blast
  then show ?thesis using v p by (intro exI [of _ s']) (auto simp: stack_view_def stack_at_def)
qed

lemma stack_at_kept:
  assumes "stack_at s sp p bs" "\<And>x. sp + (q - stack_base) \<le> x \<Longrightarrow> peek_phys s' x = peek_phys s x" "q \<le> p"
  shows "stack_at s' sp p bs"
  using assms by (auto simp: stack_at_def)

definition cut_arg :: "bytes \<Rightarrow> bytes" where
  "cut_arg arg = take (MAX_ARG_LEN - 1) arg"

lemma push_args_ok:
  "stack_view F A a m sp s \<Longrightarrow> stack_base + 128 * length args \<le> q \<Longrightarrow> q \<le> USER_STACK_TOP \<Longrightarrow>
   \<exists>s' q' new. push_args sp args q ptrs s = Some (s', q', new @ ptrs) \<and> stack_view F A a m sp s' \<and> others_kept A a s s' \<and> vpmm s' = vpmm s \<and>
     q \<le> q' + 128 * length args \<and> q' \<le> q \<and> list_all2 (\<lambda>p arg. q' \<le> p \<and> stack_at s' sp p (cut_arg arg @ [0])) new (rev args) \<and>
     (\<forall>x. x < sp \<or> sp + (q - stack_base) \<le> x \<longrightarrow> peek_phys s' x = peek_phys s x)"
proof (induction args arbitrary: q ptrs s)
  case Nil
  then show ?case by (simp add: others_kept_refl)
next
  case (Cons arg args)
  let ?q = "q - (length (cut_arg arg) + 1)"
  have lc: "length (cut_arg arg) \<le> 127" by (simp add: cut_arg_def MAX_ARG_LEN_def)
  have q: "stack_base + 128 * length args \<le> ?q" "stack_base \<le> ?q" "?q + length (cut_arg arg @ [0]) = q" using Cons.prems(2) lc by auto
  obtain s1 where s1: "poke_bytes (sp + (?q - stack_base)) (cut_arg arg @ [0]) s = Some s1" "stack_view F A a m sp s1" "others_kept A a s s1" "vpmm s1 = vpmm s"
    "stack_at s1 sp ?q (cut_arg arg @ [0])"
    "\<forall>x. x < sp + (?q - stack_base) \<or> sp + (?q - stack_base) + length (cut_arg arg @ [0]) \<le> x \<longrightarrow> peek_phys s1 x = peek_phys s x"
    using stack_poke [OF Cons.prems(1) q(2), of "cut_arg arg @ [0]"] q(3) Cons.prems(3) by auto
  have "?q \<le> USER_STACK_TOP" using Cons.prems(3) by simp
  from Cons.IH [OF s1(2) q(1) this, of "?q # ptrs"] obtain s2 q' new where
    s2: "push_args sp args ?q (?q # ptrs) s1 = Some (s2, q', new @ ?q # ptrs)" "stack_view F A a m sp s2" "others_kept A a s1 s2" "vpmm s2 = vpmm s1"
      "?q \<le> q' + 128 * length args" "q' \<le> ?q" "list_all2 (\<lambda>p arg. q' \<le> p \<and> stack_at s2 sp p (cut_arg arg @ [0])) new (rev args)"
      "\<forall>x. x < sp \<or> sp + (?q - stack_base) \<le> x \<longrightarrow> peek_phys s2 x = peek_phys s1 x" by blast
  have c: "min (length arg) (MAX_ARG_LEN - 1) = length (cut_arg arg)" "take (length (cut_arg arg)) arg = cut_arg arg"
    by (simp_all add: cut_arg_def min_def)
  have "push_args sp (arg # args) q ptrs s = Some (s2, q', (new @ [?q]) @ ptrs)"
    unfolding push_args.simps Let_def c using s1(1) s2(1) by simp
  moreover have "stack_at s2 sp ?q (cut_arg arg @ [0])" by (rule stack_at_kept [OF s1(5), where q = ?q]) (use s2(8) in blast, simp)
  then have "list_all2 (\<lambda>p arg. q' \<le> p \<and> stack_at s2 sp p (cut_arg arg @ [0])) (new @ [?q]) (rev (arg # args))"
    using s2(6,7) by (simp add: list_all2_appendI)
  moreover have "q \<le> q' + 128 * length (arg # args)" "q' \<le> q" using s2(5,6) lc by auto
  moreover have "peek_phys s2 x = peek_phys s x" if "x < sp \<or> sp + (q - stack_base) \<le> x" for x
  proof -
    have "x < sp \<or> sp + (?q - stack_base) \<le> x" "x < sp + (?q - stack_base) \<or> sp + (?q - stack_base) + length (cut_arg arg @ [0]) \<le> x"
      using that q(2,3) by linarith+
    then show ?thesis using s1(6) s2(8) by metis
  qed
  ultimately show ?case using s2(2,4) s1(4) others_kept_trans [OF s1(3) s2(3)]
    by (intro exI [of _ s2] exI [of _ q'] exI [of _ "new @ [?q]"]) simp
qed

lemma length_words [simp]: "length (concat (map (to_le 8) ws)) = 8 * length ws"
  by (induction ws) simp_all

lemma push_frame_ok:
  assumes v: "stack_view F A a m sp s"
  shows "\<exists>s' p ptrs. push_frame sp argv s = Some (s', Some p) \<and> stack_view F A a m sp s' \<and> others_kept A a s s' \<and> vpmm s' = vpmm s \<and> p mod 16 = 0 \<and>
    list_all2 (\<lambda>q arg. stack_at s' sp q (cut_arg arg @ [0])) ptrs (take MAX_ARGS argv) \<and>
    stack_at s' sp p (concat (map (to_le 8) (length ptrs # ptrs @ replicate 4 0))) \<and>
    (\<forall>x. x < sp \<or> sp + USER_STACK_PAGES * PAGE_SIZE \<le> x \<longrightarrow> peek_phys s' x = peek_phys s x)"
proof -
  let ?argv = "take MAX_ARGS argv"
  have tk: "take (min (length argv) MAX_ARGS) argv = ?argv" by (simp add: min_def)
  have n: "length ?argv \<le> 16" by (simp add: MAX_ARGS_def)
  have top': "USER_STACK_TOP = stack_base + 65536" by (simp add: stack_top_eq USER_STACK_PAGES_def PAGE_SIZE_def)
  have "stack_base + 128 * length (rev ?argv) \<le> USER_STACK_TOP" unfolding top' using n by simp
  from push_args_ok [OF v this le_refl, of "[]"] obtain s1 q ptrs where
    s1: "push_args sp (rev ?argv) USER_STACK_TOP [] s = Some (s1, q, ptrs)" "stack_view F A a m sp s1" "others_kept A a s s1" "vpmm s1 = vpmm s"
      "USER_STACK_TOP \<le> q + 128 * length ?argv" "q \<le> USER_STACK_TOP" "list_all2 (\<lambda>p arg. q \<le> p \<and> stack_at s1 sp p (cut_arg arg @ [0])) ptrs ?argv"
      "\<forall>x. x < sp \<or> sp + (USER_STACK_TOP - stack_base) \<le> x \<longrightarrow> peek_phys s1 x = peek_phys s x"
    by auto
  have lp: "length ptrs = length ?argv" using s1(7) by (rule list_all2_lengthD)
  let ?ws = "length ptrs # ptrs @ replicate 4 0" and ?q = "q - (1 + length ?argv + 1 + 1 + 2) * 8"
  let ?p = "?q - ?q mod 16"
  have lw: "length (concat (map (to_le 8) ?ws)) = (1 + length ?argv + 1 + 1 + 2) * 8" unfolding length_words by (simp add: lp)
  have qb: "stack_base + 16 + (1 + length ?argv + 1 + 1 + 2) * 8 \<le> q"
  proof -
    have "stack_base + 16 + (1 + l + 1 + 1 + 2) * 8 \<le> q" if "stack_base + 65536 \<le> q + 128 * l" "l \<le> 16" for l using that by presburger
    then show ?thesis using s1(5) n unfolding top' by blast
  qed
  have r16: "?q mod 16 < 16" by simp
  have b: "stack_base \<le> ?p" using qb r16 by linarith
  have e: "?p + length (concat (map (to_le 8) ?ws)) \<le> q" unfolding lw using qb by linarith
  then have "?p + length (concat (map (to_le 8) ?ws)) \<le> USER_STACK_TOP" using s1(6) by linarith
  from stack_poke [OF s1(2) b this] obtain s2 where
    s2: "poke_bytes (sp + (?p - stack_base)) (concat (map (to_le 8) ?ws)) s1 = Some s2" "stack_view F A a m sp s2" "others_kept A a s1 s2" "vpmm s2 = vpmm s1"
      "stack_at s2 sp ?p (concat (map (to_le 8) ?ws))"
      "\<forall>x. x < sp + (?p - stack_base) \<or> sp + (?p - stack_base) + length (concat (map (to_le 8) ?ws)) \<le> x \<longrightarrow> peek_phys s2 x = peek_phys s1 x" by blast
  have "peek_phys s2 x = peek_phys s1 x" if "sp + (q - stack_base) \<le> x" for x
  proof -
    have "sp + (?p - stack_base) + length (concat (map (to_le 8) ?ws)) \<le> x" using that e b by linarith
    then show ?thesis using s2(6) by blast
  qed
  then have "list_all2 (\<lambda>q arg. stack_at s2 sp q (cut_arg arg @ [0])) ptrs ?argv"
    using stack_at_kept by (intro list_all2_mono [OF s1(7)]) blast
  moreover have "push_frame sp argv s = Some (s2, Some ?p)"
  proof -
    have nb: "\<not> ?p < stack_base" using b by simp
    show ?thesis unfolding push_frame_def Let_def tk using s1(1) s2(1) nb by (simp add: lp)
  qed
  moreover have "?p mod 16 = 0" by (simp add: minus_mod_eq_mult_div)
  moreover have "peek_phys s2 x = peek_phys s x" if "x < sp \<or> sp + USER_STACK_PAGES * PAGE_SIZE \<le> x" for x
  proof -
    have "x < sp \<or> sp + (USER_STACK_TOP - stack_base) \<le> x" using that by (simp add: stack_top_eq)
    moreover have "x < sp + (?p - stack_base) \<or> sp + (?p - stack_base) + length (concat (map (to_le 8) ?ws)) \<le> x"
      using that e b s1(6) unfolding stack_top_eq by linarith
    ultimately show ?thesis using s1(8) s2(6) by metis
  qed
  ultimately show ?thesis using s2(2,5) s1(4) s2(4) others_kept_trans [OF s1(3) s2(3)] by metis
qed

text \<open>Reading the stack back.\<close>

lemma stack_read:
  assumes v: "stack_view F A a m sp s" and b: "stack_at s sp p bs" "j < length bs"
  shows "user_byte s a (p + j) = Some (bs ! j)"
proof -
  let ?y = "p - stack_base + j"
  have pb: "stack_base \<le> p" "?y < USER_STACK_PAGES * PAGE_SIZE" using b unfolding stack_at_def stack_top_eq by linarith+
  have k: "?y div PAGE_SIZE < USER_STACK_PAGES" using pb(2) by (simp add: less_mult_imp_div_less)
  have pj: "p + j = 0x6FFFFFFF0 * PAGE_SIZE + ?y" using pb(1) stack_base_eq(1) by simp
  have d: "(p + j) div PAGE_SIZE = 0x6FFFFFFF0 + ?y div PAGE_SIZE" "(p + j) mod PAGE_SIZE = ?y mod PAGE_SIZE" unfolding pj by simp_all
  have "p + j < 2 ^ 47" using b unfolding stack_at_def by (simp add: USER_STACK_TOP_def)
  then have "user_byte s a (p + j) = ubyte s m (p + j)" using user_byte_view [of F A a m "{}" s] v by (simp add: stack_view_def)
  also have "\<dots> = peek_phys s (sp + ?y div PAGE_SIZE * PAGE_SIZE + ?y mod PAGE_SIZE)"
    using v k unfolding ubyte_def d by (simp add: stack_view_def)
  also have "\<dots> = peek_phys s (sp + (p - stack_base) + j)" by (simp add: add.assoc)
  finally show ?thesis using b unfolding stack_at_def by metis
qed

lemma stack_at_part: "stack_at s sp p (xs @ ys @ zs) \<Longrightarrow> stack_at s sp (p + length xs) ys"
  unfolding stack_at_def
proof (elim conjE, intro conjI allI impI)
  fix j assume h: "\<forall>j<length (xs @ ys @ zs). peek_phys s (sp + (p - stack_base) + j) = Some ((xs @ ys @ zs) ! j)" "stack_base \<le> p" and j: "j < length ys"
  have "peek_phys s (sp + (p - stack_base) + (length xs + j)) = Some ((xs @ ys @ zs) ! (length xs + j))" using h(1) j by simp
  moreover have "sp + (p + length xs - stack_base) + j = sp + (p - stack_base) + (length xs + j)" using h(2) by linarith
  moreover have "(xs @ ys @ zs) ! (length xs + j) = ys ! j" using j by (simp add: nth_append)
  ultimately show "peek_phys s (sp + (p + length xs - stack_base) + j) = Some (ys ! j)" by (simp only:)
qed auto

lemma those_read: "(\<And>j. j < length bs \<Longrightarrow> f (p + j) = Some (bs ! j)) \<Longrightarrow> those (map f [p..<p + length bs]) = Some bs"
proof (induction bs arbitrary: p)
  case (Cons b bs)
  have "those (map f [p + 1..<p + 1 + length bs]) = Some bs" by (rule Cons.IH) (use Cons.prems [of "Suc _"] in simp)
  moreover have "[p..<p + length (b # bs)] = p # [p + 1..<p + 1 + length bs]" by (simp add: upt_conv_Cons del: upt_Suc)
  ultimately show ?case using Cons.prems [of 0] by (simp del: upt_Suc)
qed simp

lemma stack_word:
  assumes "stack_view F A a m sp s" "stack_at s sp p (to_le 8 w)" "w < 2 ^ 64"
  shows "user_word s a p = Some w"
proof -
  have "those (map (user_byte s a) [p..<p + length (to_le 8 w)]) = Some (to_le 8 w)" by (rule those_read) (rule stack_read [OF assms(1,2)])
  then show ?thesis using assms(3) by (simp add: user_word_def of_le_to_le)
qed

lemma stack_words:
  assumes "stack_view F A a m sp s" "stack_at s sp p (concat (map (to_le 8) ws))" "i < length ws" "ws ! i < 2 ^ 64"
  shows "user_word s a (p + 8 * i) = Some (ws ! i)"
proof -
  have "concat (map (to_le 8) (take i ws @ [ws ! i] @ drop (Suc i) ws)) =
      concat (map (to_le 8) (take i ws)) @ to_le 8 (ws ! i) @ concat (map (to_le 8) (drop (Suc i) ws))" by simp
  then have "concat (map (to_le 8) ws) = concat (map (to_le 8) (take i ws)) @ to_le 8 (ws ! i) @ concat (map (to_le 8) (drop (Suc i) ws))"
    using id_take_nth_drop [OF assms(3)] by simp
  with stack_at_part [of s sp p "concat (map (to_le 8) (take i ws))" "to_le 8 (ws ! i)"] assms(2,3)
  have "stack_at s sp (p + 8 * i) (to_le 8 (ws ! i))" by simp
  then show ?thesis by (rule stack_word [OF assms(1) _ assms(4)])
qed

lemma stack_cstr: "stack_view F A a m sp s \<Longrightarrow> stack_at s sp p (arg @ [0]) \<Longrightarrow> 0 \<notin> set arg \<Longrightarrow> length arg < n \<Longrightarrow> user_cstr s a n p = Some arg"
proof (induction arg arbitrary: p n)
  case Nil
  then obtain k where "n = Suc k" by (cases n) auto
  with stack_read [OF Nil(1,2), of 0] show ?case by simp
next
  case (Cons b arg)
  then obtain k where k: "n = Suc k" "length arg < k" by (cases n) auto
  have "stack_at s sp (p + 1) (arg @ [0])" using stack_at_part [of s sp p "[b]" "arg @ [0]" "[]"] Cons.prems(2) by simp
  from Cons.IH [OF Cons.prems(1) this _ k(2)] Cons.prems(3) stack_read [OF Cons.prems(1,2), of 0] k(1) show ?case by simp
qed

lemma read_args_ok:
  assumes v: "stack_view F A a m sp s" and ptrs: "list_all2 (\<lambda>q arg. stack_at s sp q (cut_arg arg @ [0])) ptrs args"
    and w: "stack_at s sp p (concat (map (to_le 8) (length ptrs # ptrs @ replicate 4 0)))" and nul: "\<And>arg. arg \<in> set args \<Longrightarrow> 0 \<notin> set arg"
    and len: "length args \<le> MAX_ARGS"
  shows "read_args s a p = Some (map cut_arg args)"
proof -
  let ?ws = "length ptrs # ptrs @ replicate 4 0"
  have lp: "length ptrs = length args" using ptrs by (rule list_all2_lengthD)
  have n: "user_word s a p = Some (length args)" using stack_words [OF v w, of 0] len by (simp add: lp MAX_ARGS_def)
  have "user_cstr s a MAX_ARG_LEN (ptrs ! i) = Some (cut_arg (args ! i)) \<and> user_word s a (p + 8 + 8 * i) = Some (ptrs ! i)" if i: "i < length args" for i
  proof
    have at: "stack_at s sp (ptrs ! i) (cut_arg (args ! i) @ [0])" using ptrs i by (simp add: list_all2_conv_all_nth)
    have "0 \<notin> set (cut_arg (args ! i))" using nul [of "args ! i"] i by (auto simp: cut_arg_def dest: in_set_takeD)
    then show "user_cstr s a MAX_ARG_LEN (ptrs ! i) = Some (cut_arg (args ! i))"
      by (rule stack_cstr [OF v at]) (simp add: cut_arg_def MAX_ARG_LEN_def)
    have "?ws ! Suc i = ptrs ! i" using i lp by (simp add: nth_append)
    moreover have "ptrs ! i < 2 ^ 64" using at by (simp add: stack_at_def USER_STACK_TOP_def)
    ultimately show "user_word s a (p + 8 + 8 * i) = Some (ptrs ! i)" using stack_words [OF v w, of "Suc i"] i lp by (simp add: add.assoc)
  qed
  note arg = this
  have "(do { p \<leftarrow> user_word s a (p + 8 + 8 * i); user_cstr s a MAX_ARG_LEN p }) = Some (cut_arg (args ! i))" if "i < length args" for i
    using arg [OF that] by (simp only: bind.bind_lunit)
  then have 1: "map (\<lambda>i. do { p \<leftarrow> user_word s a (p + 8 + 8 * i); user_cstr s a MAX_ARG_LEN p }) [0..<length args] = map (\<lambda>i. Some (cut_arg (args ! i))) [0..<length args]"
    by (intro map_cong [OF refl]) (simp only: set_upt atLeastLessThan_iff)
  have 2: "those (map (\<lambda>i. Some (g i)) is) = Some (map g is)" for g :: "nat \<Rightarrow> bytes" and "is" by (induction "is") auto
  have 3: "map (\<lambda>i. cut_arg (args ! i)) [0..<length args] = map cut_arg args" by (rule nth_equalityI) simp_all
  show ?thesis unfolding read_args_def n bind.bind_lunit 1 2 3 by (rule refl)
qed

section \<open>The whole load\<close>

lemma heap_later:
  assumes "k_src (h\<lparr>kpmm := p\<rparr>) S" "pmm_inv q" "free_set q \<subseteq> free_set p"
  shows "k_src (h\<lparr>kpmm := q\<rparr>) S"
  using assms by (auto simp: k_src_def)

text \<open>The bytes of the segments lie outside the stack's pages.\<close>

lemma seg_kept:
  assumes v: "stack_view F A a m sp s" and k: "v div PAGE_SIZE < 0x6FFFFFFF0"
    and same: "\<And>x. x < sp \<or> sp + USER_STACK_PAGES * PAGE_SIZE \<le> x \<Longrightarrow> peek_phys s' x = peek_phys s x"
  shows "ubyte s' m v = ubyte s m v"
proof (cases "m (v div PAGE_SIZE)")
  case (Some q)
  let ?r = "v mod PAGE_SIZE"
  have vw: "view F A a m {} s" "sp mod PAGE_SIZE = 0" using v by (simp_all add: stack_view_def)
  have ku: "v div PAGE_SIZE < USER_PAGES" using k stack_base_eq(2) by linarith
  have "\<not> (sp \<le> q + ?r \<and> q + ?r < sp + USER_STACK_PAGES * PAGE_SIZE)"
  proof
    assume "sp \<le> q + ?r \<and> q + ?r < sp + USER_STACK_PAGES * PAGE_SIZE"
    then have y: "q + ?r - sp < USER_STACK_PAGES * PAGE_SIZE" "sp + (q + ?r - sp) = q + ?r" by linarith+
    have "q mod PAGE_SIZE = 0" using view_used(4) [OF vw(1), of q] Some ku by (auto simp: used_def)
    with run_page [OF vw(2) y(1)] y(2) page_base_at [of q ?r] obtain j where j: "j < USER_STACK_PAGES" "q = sp + j * PAGE_SIZE" by (auto simp: run_of_def)
    then have "m (0x6FFFFFFF0 + j) = Some q" "0x6FFFFFFF0 + j < USER_PAGES"
      using v by (simp_all add: stack_view_def USER_PAGES_def USER_STACK_PAGES_def)
    from view_inj [OF vw(1) Some this(1) ku this(2)] k show False by simp
  qed
  then show ?thesis using same [of "q + ?r"] Some by (auto simp: ubyte_def)
qed (simp add: ubyte_def)

definition can_load :: "bytes \<Rightarrow> vm \<Rightarrow> nat set \<Rightarrow> kheap \<Rightarrow> bool" where
  "can_load img s A h \<longleftrightarrow> vm_inv s A \<and> page_ok (ram s) (cr3 s) \<and> (\<forall>p \<in> free_set (vpmm s). cr3 s \<noteq> p * PAGE_SIZE) \<and>
     (\<exists>xs. hrep (h\<lparr>kpmm := vpmm s\<rparr>) xs \<and> k_src (h\<lparr>kpmm := vpmm s\<rparr>) (span xs)) \<and>
     check_ehdr img = None \<and> elf_fits img \<and> elf_need img \<le> card (free_set (vpmm s))"

definition loaded_as :: "bytes \<Rightarrow> bytes list \<Rightarrow> nat set \<Rightarrow> nat set \<Rightarrow> nat \<Rightarrow> (nat \<rightharpoonup> nat) \<Rightarrow> vm \<Rightarrow> elf_task \<Rightarrow> bool" where
  "loaded_as img argv F A d m s t \<longleftrightarrow> aspace t = d \<and> entry t = e_entry (ehdr_at img) \<and> heap_end t = heap_start t \<and>
     heap_start t = (let hb = foldl max 0 (map seg_top (elf_loads img)) in if hb = 0 then 0x600000 else hb) \<and>
     (\<forall>ph \<in> set (elf_loads img). \<forall>v. in_seg ph v \<longrightarrow> ubyte s m v = Some (image_byte img (elf_loads img) v)) \<and>
     user_stack_top t mod 16 = 0 \<and>
     (\<exists>sp ptrs. stack_view F (insert d A) d m sp s \<and> list_all2 (\<lambda>q arg. stack_at s sp q (cut_arg arg @ [0])) ptrs (take MAX_ARGS argv) \<and>
        stack_at s sp (user_stack_top t) (concat (map (to_le 8) (length ptrs # ptrs @ replicate 4 0))))"

lemma loaded_asD:
  assumes "loaded_as img argv F A d m s t"
  shows "aspace t = d" "entry t = e_entry (ehdr_at img)" "heap_end t = heap_start t"
  using assms by (simp_all add: loaded_as_def)

lemma load_ok:
  assumes c: "can_load img s A h"
  shows "\<exists>s' h' r d m. load root img argv dir s h = Some (s', h', r) \<and> d \<notin> A \<and> view (free_set (vpmm s)) (insert d A) d m {} s' \<and> others_kept (insert d A) d s s' \<and>
    (case r of Inl e \<Rightarrow> load_error img (vpmm s') e | Inr t \<Rightarrow> loaded_as img argv (free_set (vpmm s)) A d m s' t)"
proof -
  let ?F = "free_set (vpmm s)"
  from c obtain xs where xs: "hrep (h\<lparr>kpmm := vpmm s\<rparr>) xs" "k_src (h\<lparr>kpmm := vpmm s\<rparr>) (span xs)" by (auto simp: can_load_def)
  have fits: "elf_fits img" "check_ehdr img = None" using c by (simp_all add: can_load_def)
  obtain s1 r d m where s1: "load_space img s = Some (s1, r)" "d \<notin> A" "view ?F (insert d A) d m {} s1" "others_kept (insert d A) d s s1"
    "case r of Inl e \<Rightarrow> load_error img (vpmm s1) e
     | Inr (a, sp, hb) \<Rightarrow> a = d \<and> sp mod PAGE_SIZE = 0 \<and> (\<forall>j < USER_STACK_PAGES. m (0x6FFFFFFF0 + j) = Some (sp + j * PAGE_SIZE)) \<and>
         hb = foldl max 0 (map seg_top (elf_loads img)) \<and>
         (\<forall>ph \<in> set (elf_loads img). seg_inside img ph \<and> (\<forall>v. in_seg ph v \<longrightarrow> ubyte s1 m v = Some (image_byte img (elf_loads img) v)))"
    using load_space_ok [of s A img] c by (auto simp: can_load_def)
  show ?thesis
  proof (cases r)
    case (Inl e)
    then have "load root img argv dir s h = Some (s1, h, Inl e)" using s1(1) fits(2) by (simp add: load_def)
    then show ?thesis using s1 Inl by auto
  next
    case (Inr x)
    then obtain sp where r: "r = Inr (d, sp, foldl max 0 (map seg_top (elf_loads img)))" and
      sp: "sp mod PAGE_SIZE = 0" "\<forall>j < USER_STACK_PAGES. m (0x6FFFFFFF0 + j) = Some (sp + j * PAGE_SIZE)" and
      seg: "\<forall>ph \<in> set (elf_loads img). seg_inside img ph \<and> (\<forall>v. in_seg ph v \<longrightarrow> ubyte s1 m v = Some (image_byte img (elf_loads img) v))"
      using s1(5) by (cases x) auto
    have pi: "pmm_inv (vpmm s1)" "free_set (vpmm s1) \<subseteq> ?F" using s1(3) by (auto simp: view_def vm_inv_def)
    have "hrep (h\<lparr>kpmm := vpmm s1\<rparr>) xs" using xs(1) by (simp add: hrep_def)
    from alloc_kernel_stack_ok [OF s1(3) this heap_later [OF xs(2) pi]] obtain s2 h2 ks where
      s2: "alloc_kernel_stack s1 h = Some (s2, h2, ks)" "view ?F (insert d A) d m {} s2" "ram s2 = ram s1"
        "ks = None \<Longrightarrow> vpmm s2 = vpmm s1 \<and> (\<forall>b. \<not> run_free (vpmm s1) b 5)" by blast
    have kept2: "others_kept (insert d A) d s s2" using s1(4) s2(3) by (simp add: others_kept_def)
    show ?thesis
    proof (cases ks)
      case None
      then have "load root img argv dir s h = Some (s2, h2, Inl NoKernelStack)" using s1(1) fits(2) r s2(1) by (simp add: load_def)
      then show ?thesis using s1(2) s2(2,4) kept2 None by (auto simp: load_error_def)
    next
      case (Some kt)
      have sv: "stack_view ?F (insert d A) d m sp s2" using s2(2) sp by (simp add: stack_view_def)
      from push_frame_ok [OF sv, of argv] obtain s3 p ptrs where
        s3: "push_frame sp argv s2 = Some (s3, Some p)" "stack_view ?F (insert d A) d m sp s3" "others_kept (insert d A) d s2 s3" "p mod 16 = 0"
          "list_all2 (\<lambda>q arg. stack_at s3 sp q (cut_arg arg @ [0])) ptrs (take MAX_ARGS argv)"
          "stack_at s3 sp p (concat (map (to_le 8) (length ptrs # ptrs @ replicate 4 0)))"
          "\<forall>x. x < sp \<or> sp + USER_STACK_PAGES * PAGE_SIZE \<le> x \<longrightarrow> peek_phys s3 x = peek_phys s2 x"
        by (elim exE conjE) (rule that, assumption+)
      let ?hb = "foldl max 0 (map seg_top (elf_loads img))"
      let ?t = "\<lparr>entry = e_entry (ehdr_at img), user_stack_top = p, kernel_stack_top = kt, aspace = d,
        heap_start = if ?hb = 0 then 0x600000 else ?hb, heap_end = if ?hb = 0 then 0x600000 else ?hb,
        cwd = if dir = 0 then root else dir\<rparr>"
      have ub: "ubyte s3 m v = Some (image_byte img (elf_loads img) v)" if "ph \<in> set (elf_loads img)" "in_seg ph v" for ph v
      proof -
        have "v < stack_base" using fits(1) that by (auto simp: elf_fits_def Let_def list_all_iff seg_fits_def in_seg_def)
        then have "v div PAGE_SIZE < 0x6FFFFFFF0" unfolding stack_base_eq by (simp add: less_mult_imp_div_less)
        then have "ubyte s3 m v = ubyte s2 m v" by (rule seg_kept [OF sv]) (use s3(7) in blast)
        also have "\<dots> = ubyte s1 m v" by (simp add: ubyte_def peek_phys_def s2(3) split: option.split)
        finally show ?thesis using seg that by simp
      qed
      have "load root img argv dir s h = Some (s3, h2, Inr ?t)" using s1(1) fits(2) r s2(1) Some s3(1) by (simp add: load_def Let_def)
      moreover have "view ?F (insert d A) d m {} s3" using s3(2) by (simp add: stack_view_def)
      moreover have "loaded_as img argv ?F A d m s3 ?t"
        unfolding loaded_as_def using ub s3(2,4,5,6) by (intro conjI) (auto simp: Let_def simp del: concat.simps map_append)
      ultimately show ?thesis using s1(2) others_kept_trans [OF kept2 s3(3)]
        by (intro exI [of _ s3] exI [of _ h2] exI [of _ "Inr ?t"] exI [of _ d] exI [of _ m]) simp
    qed
  qed
qed

lemma others_seen:
  assumes "others_kept (insert d A) d s s'" "d \<notin> A" "b \<in> A" "user_addr v"
  shows "translate s' b v = translate s b v \<and> page_at s' b v = page_at s b v"
proof -
  have "b \<noteq> d" using assms(2,3) by blast
  with assms upath_path(1) [OF assms(4)] have t: "translate s' b v = translate s b v"
    and q: "\<And>q. node (look (ram s)) b (path v) = Some q \<Longrightarrow> ram s' q = ram s q" by (auto simp: others_kept_def translate_def)
  with page_at_cong [OF t q] show ?thesis by blast
qed

lemma le_foldl_max: "x \<in> set xs \<or> x \<le> b \<Longrightarrow> x \<le> foldl max b xs" for x b :: nat
  by (induction xs arbitrary: b) (auto simp: le_max_iff_disj)

lemma foldl_max_mod: "b mod n = 0 \<Longrightarrow> (\<And>x. x \<in> set xs \<Longrightarrow> x mod n = 0) \<Longrightarrow> foldl max b xs mod n = 0" for b n :: nat
  by (induction xs arbitrary: b) (auto simp: max_def)

text \<open>A file with a bad segment costs a page: the new address space is not given back.\<close>

lemma load_error_leaks:
  assumes c: "can_load img s A h" and n: "0 < e_phnum (ehdr_at img)" and ph: "ph = ph_at img (e_phoff (ehdr_at img)) (e_phentsize (ehdr_at img)) 0"
    and bad: "p_type ph = PT_LOAD" "\<not> seg_inside img ph"
  shows "\<exists>s'. load root img argv dir s h = Some (s', h, Inl (SegmentOutOfBounds 0)) \<and> card (free_set (vpmm s)) = card (free_set (vpmm s')) + 1"
proof -
  let ?eh = "ehdr_at img"
  have "free_set (vpmm s) \<noteq> {}" using c by (auto simp: can_load_def elf_need_def)
  with new_space_view [of s A] c obtain s1 d where s1: "new_address_space s = Some (s1, d)" "card (free_set (vpmm s)) = card (free_set (vpmm s1)) + 1"
    unfolding can_load_def by blast
  have e: "[0..<e_phnum ?eh] = 0 # [Suc 0..<e_phnum ?eh]" using n by (simp add: upt_conv_Cons)
  have "ph \<in> set (elf_loads img)" using bad(1) n unfolding elf_loads_def Let_def loads_of_def e ph by simp
  then have f: "p_offset ph + p_filesz ph < 2 ^ 64" "e_phoff ?eh + PHDR_SIZE \<le> length img" "length img < 2 ^ 64"
    using c n by (auto simp: can_load_def elf_fits_def Let_def list_all_iff seg_fits_def)
  have at: "w64 (e_phoff ?eh) = e_phoff ?eh" using f(2,3) by (intro w64_id) linarith
  have sl: "slice img (e_phoff ?eh) (e_phoff ?eh + PHDR_SIZE) = Some (take PHDR_SIZE (drop (e_phoff ?eh) img))" using f(2) by (simp add: slice_def drop_take)
  have pa: "phdr_at (take PHDR_SIZE (drop (e_phoff ?eh) img)) = ph" by (simp add: phdr_at_take ph ph_at_def)
  have "load_segment img 0 ph d [] 0 s1 = Some (s1, Inl (SegmentOutOfBounds 0))"
    using bad(2) f(1) by (simp add: load_segment_def w64_def seg_inside_def not_le)
  then have "load_space img s = Some (s1, Inl (SegmentOutOfBounds 0))"
    using s1(1) bad(1) unfolding load_space_def Let_def e by (simp add: at sl pa)
  then show ?thesis using s1(2) c by (simp add: load_def can_load_def)
qed

section \<open>Properties\<close>

text \<open>What the loader takes for a program: a 64-bit little-endian x86-64 ELF file.\<close>

definition x86_elf :: "bytes \<Rightarrow> bool" where
  "x86_elf img \<longleftrightarrow> 64 \<le> length img \<and> take 6 img = [0x7F, 0x45, 0x4C, 0x46, 2, 1] \<and> of_le (take 2 (drop 18 img)) = 0x3E"

lemma check_ehdr_x86:
  assumes "check_ehdr img = None"
  shows "x86_elf img"
proof -
  from assms have h: "64 \<le> length img" "take 4 img = [0x7F, 0x45, 0x4C, 0x46]" "img ! 4 = 2" "img ! 5 = 1" "of_le (take 2 (drop 18 img)) = 0x3E"
    by (auto simp: check_ehdr_def Let_def ehdr_at_def field_def EHDR_SIZE_def ELFCLASS64_def ELFDATA2LSB_def EM_X86_64_def split: if_splits)
  have "take 6 img = take 4 img @ [img ! 4, img ! 5]"
    using h(1) by (simp add: take_Suc_conv_app_nth numeral_eq_Suc)
  with h show ?thesis by (simp add: x86_elf_def)
qed

text \<open>
  C4: loading a file comes back with an error or a task. A file whose header is not accepted (too short, not ELF, not 64-bit little-endian,
  not x86-64, or a program header table that ends outside the file) gives that error and changes nothing. For an accepted header the statement
  takes what the loader relies on and does not check, \<open>can_load\<close>: each program header lies in the file, at most sixteen segments are to be
  loaded, none is empty, all end below the stack and no offset plus size wraps, and the machine, whose memory state satisfies its invariants, has the
  pages that the page tables take. Then the only
  errors are a segment outside the file and a run of pages that the allocator does not have for a segment or a stack.
  Otherwise there is a new address space that
  shares no page with any other. Every address of every segment holds the byte of the last segment that
  covers it, from the file or zero beyond the file's bytes, also where two segments share a page. The heap
  starts at a page boundary above every segment. Other address spaces translate and read as before,
  whether the load succeeds or not.
\<close>

theorem elf_load_correct:
  assumes ready: "check_ehdr img = None \<longrightarrow> can_load img s A h"
  shows "(\<exists>e. check_ehdr img = Some e \<and> load root img argv dir s h = Some (s, h, Inl e)) \<or>
    x86_elf img \<and> (\<exists>s' h' r. load root img argv dir s h = Some (s', h', r) \<and>
    (\<forall>b v. b \<in> A \<longrightarrow> user_addr v \<longrightarrow> translate s' b v = translate s b v \<and> page_at s' b v = page_at s b v) \<and>
    (case r of Inl e \<Rightarrow> load_error img (vpmm s') e
     | Inr t \<Rightarrow> vm_inv s' (insert (aspace t) A) \<and> aspace t \<notin> A \<and> entry t = e_entry (ehdr_at img) \<and>
         heap_start t mod PAGE_SIZE = 0 \<and> heap_end t = heap_start t \<and>
         (\<forall>ph v. ph \<in> set (elf_loads img) \<longrightarrow> in_seg ph v \<longrightarrow>
            user_byte s' (aspace t) v = Some (image_byte img (elf_loads img) v) \<and> v < heap_start t)))"
proof (cases "check_ehdr img")
  case None
  with ready have assms: "can_load img s A h" by simp
  from load_ok [OF assms, of root argv dir] obtain s' h' r d m where l: "load root img argv dir s h = Some (s', h', r)" "d \<notin> A"
    "view (free_set (vpmm s)) (insert d A) d m {} s'" "others_kept (insert d A) d s s'" and
    r: "case r of Inl e \<Rightarrow> load_error img (vpmm s') e | Inr t \<Rightarrow> loaded_as img argv (free_set (vpmm s)) A d m s' t" by blast
  have fit: "seg_fits ph" if "ph \<in> set (elf_loads img)" for ph
    using assms that by (simp add: can_load_def elf_fits_def Let_def list_all_iff)
  let ?hb = "foldl max 0 (map seg_top (elf_loads img))"
  have "?hb mod PAGE_SIZE = 0" by (rule foldl_max_mod) (auto simp: seg_top_def)
  moreover have "v < ?hb \<and> 0 < ?hb" "v < 2 ^ 47" if "ph \<in> set (elf_loads img)" "in_seg ph v" for ph v
  proof -
    have "v < seg_top ph" using seg_pages_ok(3) [OF fit [OF that(1)] refl] that(2) unfolding in_seg_def seg_top_def by linarith
    also have "\<dots> \<le> ?hb" using that(1) by (intro le_foldl_max) simp
    finally show "v < ?hb \<and> 0 < ?hb" by simp
    show "v < 2 ^ 47" using fit [OF that(1)] that(2) by (simp add: seg_fits_def in_seg_def stack_base_def USER_STACK_TOP_def USER_STACK_PAGES_def PAGE_SIZE_def)
  qed
  ultimately have hs: "heap_start t mod PAGE_SIZE = 0 \<and> (\<forall>ph v. ph \<in> set (elf_loads img) \<longrightarrow> in_seg ph v \<longrightarrow>
      user_byte s' d v = Some (image_byte img (elf_loads img) v) \<and> v < heap_start t)"
    if "loaded_as img argv (free_set (vpmm s)) A d m s' t" for t
    using that user_byte_view [OF l(3)] by (cases "?hb = 0") (auto simp: loaded_as_def Let_def PAGE_SIZE_def)
  have "case r of Inl e \<Rightarrow> load_error img (vpmm s') e
     | Inr t \<Rightarrow> vm_inv s' (insert (aspace t) A) \<and> aspace t \<notin> A \<and> entry t = e_entry (ehdr_at img) \<and>
         heap_start t mod PAGE_SIZE = 0 \<and> heap_end t = heap_start t \<and>
         (\<forall>ph v. ph \<in> set (elf_loads img) \<longrightarrow> in_seg ph v \<longrightarrow>
            user_byte s' (aspace t) v = Some (image_byte img (elf_loads img) v) \<and> v < heap_start t)"
  proof (cases r)
    case (Inr t)
    with r have t: "loaded_as img argv (free_set (vpmm s)) A d m s' t" by simp
    have "vm_inv s' (insert d A)" using l(3) by (simp add: view_def)
    with hs [OF t] l(2) loaded_asD [OF t] Inr show ?thesis by simp
  qed (use r in simp)
  with l others_seen [OF l(4,2)] check_ehdr_x86 [OF None] show ?thesis by blast
qed (simp add: load_def)

text \<open>A small program: one segment, with 76 bytes of zeros after the file's bytes; and memory for it.\<close>

definition demo_elf :: bytes where
  "demo_elf =
    [0x7F, 0x45, 0x4C, 0x46, 0x02, 0x01, 0x01, 0, 0, 0, 0, 0, 0, 0, 0, 0,
     0x02, 0, 0x3E, 0, 0x01, 0, 0, 0, 0x78, 0, 0x40, 0, 0, 0, 0, 0,
     0x40, 0, 0, 0, 0, 0, 0, 0, 0, 0, 0, 0, 0, 0, 0, 0,
     0, 0, 0, 0, 0x40, 0, 0x38, 0, 0x01, 0, 0, 0, 0, 0, 0, 0,
     0x01, 0, 0, 0, 0x05, 0, 0, 0, 0, 0, 0, 0, 0, 0, 0, 0,
     0, 0, 0x40, 0, 0, 0, 0, 0, 0, 0, 0x40, 0, 0, 0, 0, 0,
     0x7C, 0, 0, 0, 0, 0, 0, 0, 0xC8, 0, 0, 0, 0, 0, 0, 0,
     0, 0x10, 0, 0, 0, 0, 0, 0, 0xEB, 0xFE, 0x90, 0x90]"

definition roomy_vm :: vm where
  "roomy_vm = \<lparr>ram = (\<lambda>q. if q mod PAGE_SIZE = 0 \<and> q < 128 * PAGE_SIZE then Some (replicate ENTRIES 0) else None),
     vpmm = \<lparr>bitmap = 0xFF # replicate 15 0, total_pages = 128, free_pages = 120, cursor = 0\<rparr>, cr3 = 2 * PAGE_SIZE, next_mmio = 0xffffff8000000000\<rparr>"

lemma roomy_free: "free_set (vpmm roomy_vm) = {8..<128}"
proof -
  have "pmm_test (vpmm roomy_vm) p = (p < 8)" if "p < 128" for p
  proof (cases "p < 8")
    case True
    then have "bit (0xFF :: u8) p" by (simp only: bit_all_ones_u8)
    with True show ?thesis by (simp add: roomy_vm_def pmm_test_bit)
  next
    case False
    have "p div 8 = Suc (p div 8 - 1)" "p div 8 - 1 < 15" using that False by auto
    then have "bitmap (vpmm roomy_vm) ! (p div 8) = 0" unfolding roomy_vm_def by (metis nth_Cons_Suc nth_replicate pmm.select_convs(1) vm.select_convs(2))
    with False show ?thesis by (simp add: pmm_test_bit)
  qed
  then show ?thesis by (auto simp: free_set_def roomy_vm_def)
qed

lemma roomy_inv: "vm_inv roomy_vm {}"
proof -
  have "pmm_inv (vpmm roomy_vm)" using roomy_free by (simp add: pmm_inv_def pmm_wf_def) (simp add: roomy_vm_def)
  moreover have "page_ok (ram roomy_vm) (p * PAGE_SIZE)" if "p < 128" for p
    using that by (auto simp: page_ok_def roomy_vm_def PAGE_SIZE_def)
  ultimately show ?thesis using roomy_free unfolding vm_inv_def by (auto simp: roomy_vm_def PAGE_SIZE_def)
qed

lemma demo_elf_loads: "elf_loads demo_elf = [\<lparr>p_type = 1, p_flags = 5, p_offset = 0, p_vaddr = 0x400000, p_paddr = 0x400000, p_filesz = 124, p_memsz = 200, p_align = 4096\<rparr>]"
  by (simp add: elf_loads_def loads_of_def ph_at_def phdr_at_def ehdr_at_def field_def demo_elf_def PT_LOAD_def Let_def)

lemma demo_elf_ehdr: "e_phnum (ehdr_at demo_elf) = 1" "e_phoff (ehdr_at demo_elf) = 64" "e_phentsize (ehdr_at demo_elf) = 56"
  "length demo_elf = 124" "check_ehdr demo_elf = None"
  by (simp_all add: check_ehdr_def ehdr_at_def field_def demo_elf_def EHDR_SIZE_def ELFCLASS64_def ELFDATA2LSB_def EM_X86_64_def w64_def Let_def)

lemma demo_can_load: "can_load demo_elf roomy_vm {} (k_init (vpmm roomy_vm) 0)"
proof -
  have "elf_fits demo_elf"
    by (simp add: elf_fits_def Let_def demo_elf_ehdr demo_elf_loads seg_fits_def MAX_LOAD_SEGMENTS_def PHDR_SIZE_def stack_base_def
        USER_STACK_TOP_def USER_STACK_PAGES_def PAGE_SIZE_def)
  moreover have "elf_need demo_elf \<le> card (free_set (vpmm roomy_vm))"
    unfolding roomy_free by (simp add: elf_need_def demo_elf_loads need_of_def seg_pages_def div_ceil_def PAGE_SIZE_def USER_STACK_PAGES_def)
  moreover have "\<forall>p \<in> free_set (vpmm roomy_vm). cr3 roomy_vm \<noteq> p * PAGE_SIZE" unfolding roomy_free by (simp add: roomy_vm_def PAGE_SIZE_def)
  moreover have "page_ok (ram roomy_vm) (cr3 roomy_vm)" by (simp add: roomy_vm_def page_ok_def PAGE_SIZE_def)
  moreover have "hrep ((k_init (vpmm roomy_vm) 0)\<lparr>kpmm := vpmm roomy_vm\<rparr>) []" by (simp add: hrep_def k_init_def)
  moreover have "pmm_inv (vpmm roomy_vm)" using roomy_inv by (simp add: vm_inv_def)
  then have "k_src ((k_init (vpmm roomy_vm) 0)\<lparr>kpmm := vpmm roomy_vm\<rparr>) (span [])" by (simp add: k_src_def k_init_def span_def)
  ultimately show ?thesis using roomy_inv demo_elf_ehdr(5) unfolding can_load_def by blast
qed

theorem elf_load_correct_witness:
  "\<exists>s' h' r. load 1 demo_elf [ascii ''demo''] 0 roomy_vm (k_init (vpmm roomy_vm) 0) = Some (s', h', r) \<and>
    (case r of Inl e \<Rightarrow> load_error demo_elf (vpmm s') e
     | Inr t \<Rightarrow> user_byte s' (aspace t) 0x400078 = Some (image_byte demo_elf (elf_loads demo_elf) 0x400078))"
proof -
  obtain s' h' r where l: "load 1 demo_elf [ascii ''demo''] 0 roomy_vm (k_init (vpmm roomy_vm) 0) = Some (s', h', r)" and
    r: "case r of Inl e \<Rightarrow> load_error demo_elf (vpmm s') e
     | Inr t \<Rightarrow> vm_inv s' (insert (aspace t) {}) \<and> aspace t \<notin> {} \<and> entry t = e_entry (ehdr_at demo_elf) \<and>
         heap_start t mod PAGE_SIZE = 0 \<and> heap_end t = heap_start t \<and>
         (\<forall>ph v. ph \<in> set (elf_loads demo_elf) \<longrightarrow> in_seg ph v \<longrightarrow>
            user_byte s' (aspace t) v = Some (image_byte demo_elf (elf_loads demo_elf) v) \<and> v < heap_start t)"
    using elf_load_correct [of demo_elf roomy_vm "{}" "k_init (vpmm roomy_vm) 0" 1 "[ascii ''demo'']" 0] demo_can_load demo_elf_ehdr(5) by auto
  from r have "case r of Inl e \<Rightarrow> load_error demo_elf (vpmm s') e
     | Inr t \<Rightarrow> user_byte s' (aspace t) 0x400078 = Some (image_byte demo_elf (elf_loads demo_elf) 0x400078)"
    by (cases r) (auto simp: demo_elf_loads in_seg_def)
  with l show ?thesis by blast
qed

text \<open>
  C7: a program finds its arguments. After a successful load the stack pointer is a multiple of sixteen, and reading the
  stack the way the start-up code does (the count, the array of pointers, the strings behind them, in the
  program's own address space) gives the first sixteen arguments, each cut to 127 bytes; the arguments hold
  no NUL.
\<close>

theorem elf_args_roundtrip:
  assumes "can_load img s A h" "\<forall>arg \<in> set argv. 0 \<notin> set arg"
  shows "\<exists>s' h' r. load root img argv dir s h = Some (s', h', r) \<and> (case r of Inl e \<Rightarrow> load_error img (vpmm s') e
     | Inr t \<Rightarrow> user_stack_top t mod 16 = 0 \<and> read_args s' (aspace t) (user_stack_top t) = Some (map cut_arg (take MAX_ARGS argv)))"
proof -
  from load_ok [OF assms(1), of root argv dir] obtain s' h' r d m where l: "load root img argv dir s h = Some (s', h', r)" and
    r: "case r of Inl e \<Rightarrow> load_error img (vpmm s') e | Inr t \<Rightarrow> loaded_as img argv (free_set (vpmm s)) A d m s' t" by blast
  have "read_args s' (aspace t) (user_stack_top t) = Some (map cut_arg (take MAX_ARGS argv)) \<and> user_stack_top t mod 16 = 0"
    if t: "loaded_as img argv (free_set (vpmm s)) A d m s' t" for t
  proof -
    from t obtain sp ptrs where "stack_view (free_set (vpmm s)) (insert d A) d m sp s'" "aspace t = d" "user_stack_top t mod 16 = 0"
      "list_all2 (\<lambda>q arg. stack_at s' sp q (cut_arg arg @ [0])) ptrs (take MAX_ARGS argv)"
      "stack_at s' sp (user_stack_top t) (concat (map (to_le 8) (length ptrs # ptrs @ replicate 4 0)))"
      unfolding loaded_as_def by (elim exE conjE) (rule that)
    with read_args_ok [of "free_set (vpmm s)" "insert d A" d m sp s' ptrs "take MAX_ARGS argv"] assms(2) show ?thesis
      by (auto dest: in_set_takeD)
  qed
  with l r show ?thesis by (cases r) auto
qed

theorem elf_args_roundtrip_witness:
  "\<exists>s' h' r. load 1 demo_elf [ascii ''demo'', ascii ''-x''] 0 roomy_vm (k_init (vpmm roomy_vm) 0) = Some (s', h', r) \<and> (case r of Inl e \<Rightarrow> load_error demo_elf (vpmm s') e
     | Inr t \<Rightarrow> user_stack_top t mod 16 = 0 \<and> read_args s' (aspace t) (user_stack_top t) = Some [ascii ''demo'', ascii ''-x''])"
proof -
  have "\<forall>arg \<in> set [ascii ''demo'', ascii ''-x'']. 0 \<notin> set arg" by simp
  from elf_args_roundtrip [OF demo_can_load this, of 1 0] obtain s' h' r where
    l: "load 1 demo_elf [ascii ''demo'', ascii ''-x''] 0 roomy_vm (k_init (vpmm roomy_vm) 0) = Some (s', h', r)" and
    r: "case r of Inl e \<Rightarrow> load_error demo_elf (vpmm s') e
     | Inr t \<Rightarrow> user_stack_top t mod 16 = 0 \<and> read_args s' (aspace t) (user_stack_top t) = Some (map cut_arg (take MAX_ARGS [ascii ''demo'', ascii ''-x'']))"
    by blast
  have "map cut_arg (take MAX_ARGS [ascii ''demo'', ascii ''-x'']) = [ascii ''demo'', ascii ''-x'']" by (simp add: cut_arg_def MAX_ARGS_def MAX_ARG_LEN_def)
  from l r [unfolded this] show ?thesis by blast
qed

end
