(* ===== verification/Spec2Isabelle.thy ===== *)
theory Spec2Isabelle
  imports Pmm Pipe Blkfs Fbconsole BlockHeap ScarfProps VmmProps ShProps DiskProps PlayProps ElfProps
begin

text \<open>
  A verification library for AnssOS, a small x86-64 operating system in Rust (\<^verbatim>\<open>src/kernel\<close>) with its
  programs (\<^verbatim>\<open>src/userland/rust\<close>).

  \<^bold>\<open>The program.\<close> The kernel boots from Limine, takes the memory map into a page allocator
  (\<^verbatim>\<open>mm/pmm.rs\<close>), builds its heap (\<^verbatim>\<open>mm/heap.rs\<close>) and page tables (\<^verbatim>\<open>mm/vmm.rs\<close>) on it, keeps files in a tree of
  vnodes in memory (\<^verbatim>\<open>fs/vfs.rs\<close>) that it saves to and loads from a block device (\<^verbatim>\<open>fs/blkfs.rs\<close>), and runs up
  to sixteen processes (\<^verbatim>\<open>exec/process.rs\<close>) that reach it through one system call gate
  (\<^verbatim>\<open>exec/syscall.rs\<close>): files, pipes (\<^verbatim>\<open>exec/pipe.rs\<close>), terminal settings (\<^verbatim>\<open>drivers/tty.rs\<close>), fork, exec and wait.
  A program image is placed in a new address space by the loader (\<^verbatim>\<open>exec/elf.rs\<close>); disks are reached through a
  block layer that splits transfers and reads partition tables (\<^verbatim>\<open>drivers/block.rs\<close>, \<^verbatim>\<open>drivers/partition.rs\<close>). Text goes to a framebuffer console (\<^verbatim>\<open>console/fbconsole.rs\<close>). Programs share a runtime library
  (\<^verbatim>\<open>anssos/src\<close>) with its own heap; among them are the shell \<^verbatim>\<open>sh\<close>, the editor \<^verbatim>\<open>scarf\<close>, the music player
  \<^verbatim>\<open>play\<close> and the terminal multiplexer \<^verbatim>\<open>tile\<close>, whose panes are terminals (\<^verbatim>\<open>tile/src/vt.rs\<close>).

  \<^bold>\<open>Conventions.\<close> State is passed explicitly. A fault of the code (a panic, a wild or dangling pointer, an index
  out of range, a loop that does not end) is \<open>None\<close>, so a theorem that an operation is \<open>Some\<close> is a theorem that
  the code returns without one. Rust integers are words where their width matters and natural numbers
  where the code keeps them small, which the invariants show. Raw pointers are addresses in
  partial maps. Loops are structural where they can be, otherwise functions with a measure or
  \<^theory_text>\<open>partial_function (option)\<close>; no fuel is used.

  \<^bold>\<open>Theories.\<close>
  \<^item> \<open>AnssPrelude\<close>: integer types, encodings, UTF-8, and the locale \<open>machine\<close> of operations with an invariant,
    which the file system, the heaps and the kernel interpret.
  \<^item> \<open>Pmm\<close> (\<^verbatim>\<open>mm/pmm.rs\<close>): the bitmap allocator, interpreted as the locale \<open>frame_pool\<close> of free frames. Boot establishes
    the invariant; allocation is exact, first fit for runs, and never hands out a frame twice.
  \<^item> \<open>Vmm\<close>, \<open>VmmProps\<close> (\<^verbatim>\<open>mm/vmm.rs\<close>): page tables in physical memory. The CPU's walk is a function of the tables;
    mapping updates it at one address, cloning copies it into frames of the child's own, and freeing gives back
    exactly the space's frames. The loops over tables share the locale \<open>table_walk\<close>.
  \<^item> \<open>BlockHeap\<close> (\<^verbatim>\<open>mm/heap.rs\<close>, \<^verbatim>\<open>anssos/src/heap.rs\<close>): the two block heaps over one development, with growth as the
    parameter that differs. Live allocations are aligned and disjoint over every sequence of calls.
  \<^item> \<open>Pipe\<close> (\<^verbatim>\<open>exec/pipe.rs\<close>): the ring buffer refines a bounded byte queue (locale \<open>byte_channel\<close>); pipes are freed
    with their last reference.
  \<^item> \<open>Vfs\<close>, \<open>VfsTree\<close>, \<open>VfsOps\<close>, \<open>VfsPath\<close>, \<open>VfsProps\<close> (\<^verbatim>\<open>fs/vfs.rs\<close>): the vnode heap represents a tree; every operation
    refines its tree-level meaning, and no sequence of operations follows a dangling pointer.
  \<^item> \<open>Blkfs\<close> (\<^verbatim>\<open>fs/blkfs.rs\<close>): saving and loading round-trips for trees the format can hold. Loading is safe on any disk whose
    claimed size the kernel heap can hold, and panics on a larger claim. The block device is a
    parameter with the contract that it reads back what was written, the heap one that tells which sizes it can give.
  \<^item> \<open>Process\<close>, \<open>Syscall\<close> (\<^verbatim>\<open>exec/\<close>, \<^verbatim>\<open>drivers/tty.rs\<close>, the process side of \<^verbatim>\<open>arch/x86_64/idt.rs\<close>): the process table,
    the scheduler and every system call. \<open>KernelSafe\<close> has the invariant (a well-formed file system, live descriptors, pipe
    reference counts), \<open>KernelCalls\<close> that every handler keeps it, \<open>KernelProps\<close> that every trace from boot does, and that
    the scheduler is fair. What a \<^verbatim>\<open>wait\<close> runs is made of the steps of the same machine (the inductive \<open>runs\<close>). The
    calls the code does not guard against are left out of the traces; \<open>unlink_open_dangles\<close> and \<open>far_write_halts\<close> show what two of them do.
  \<^item> \<open>Vt\<close> (\<^verbatim>\<open>tile/src/vt.rs\<close>) and \<open>Fbconsole\<close> (\<^verbatim>\<open>console/fbconsole.rs\<close>): both terminals are safe on any bytes, and on the
    streams both interpret the console's pixels show exactly the pane terminal's cells.
  \<^item> \<open>Anssos\<close> (\<^verbatim>\<open>anssos/src/lib.rs\<close>) over the locale \<open>file_kernel\<close> of system calls; \<open>KernelSys\<close> (\<^verbatim>\<open>anssos/src/sys.rs\<close>)
    interprets it on the kernel of \<open>Syscall\<close>.
  \<^item> \<open>Scarf\<close>, \<open>ScarfSafe\<close>, \<open>ScarfProps\<close> (\<^verbatim>\<open>scarf/src\<close>): the editor, safe on any keys and files inside the locale
    \<open>editor_host\<close>, and so on the kernel.
  \<^item> \<open>ShText\<close>, \<open>ShPrompt\<close>, \<open>ShLine\<close>, \<open>Shell\<close> (\<^verbatim>\<open>sh/src\<close>): settings, history, prompt, the line editor with its
    completion and highlighting, commands, the wizard and the main loop. \<open>ShWords\<close>, \<open>ShSafe\<close> and \<open>ShProps\<close> show that the
    prompt fits its line, that splitting and history round-trip, what completion returns, and that the editor never panics
    on the kernel.
  \<^item> \<open>Disk\<close>, \<open>DiskProps\<close> (\<^verbatim>\<open>util/crc32.rs\<close>, \<^verbatim>\<open>drivers/block.rs\<close>, \<^verbatim>\<open>drivers/partition.rs\<close>, \<^verbatim>\<open>drivers/disktest.rs\<close>): the CRC
    equals its bit-serial definition and detects bursts, split transfers refine whole ones, and listing partitions and the
    read test leave the disk as it was.
  \<^item> \<open>Play\<close>, \<open>PlaySafe\<close>, \<open>PlayProps\<close> (\<^verbatim>\<open>play/src\<close>): sources, spectrum, volume and the player's loop over the locale
    \<open>seek_kernel\<close>. Opening and reading any track ends, whatever its bytes, for a decoder with minimp3's contract; the spectrum never
    indexes out of range, rises at once, falls by its decay, holds its peaks and sinks to nothing in silence.
  \<^item> \<open>Elf\<close>, \<open>ElfMem\<close>, \<open>ElfSegs\<close>, \<open>ElfProps\<close> (\<^verbatim>\<open>exec/elf.rs\<close>) over \<open>Vmm\<close> and the kernel heap: a loaded program sees the bytes
    of its segments, also where two share a page, and the arguments it was given, and no other address space changes. A file whose header is
    not accepted gives an error and changes nothing. For the others the
    theorems are for images of at most sixteen nonempty segments that lie below the stack, with headers inside the file, and
    for enough free pages; \<open>load_error_leaks\<close> shows what a failing load keeps.

  \<^bold>\<open>Parameters.\<close> The memory map (with Limine's documented guarantees), the storage driver (record \<open>bdriver\<close>) and the block
  device of the file system, the glyph tables, the \<^verbatim>\<open>brk\<close> call of the user heap, the drivers behind the system calls (record
  \<open>env\<close>), keyboard input (a function of the poll count), the process calls of the shell (\<open>psys\<close>), the MP3 decoder \<^verbatim>\<open>minimp3\<close>
  (\<open>codec\<close>) and the player's sound device and screen (\<open>device\<close>) are arguments of the definitions that use them. In
  \<open>Process\<close> and \<open>Syscall\<close> the loader is one too, since their tasks do not hold page tables.

  \<^bold>\<open>Memory.\<close> The kernel heap as seen by its clients does not run out, except where the size of a request comes from outside: the
  size field of a saved file system (\<open>load\<close>) and the offset of a write (\<open>sys_write\<close>); there a request that the heap cannot meet is
  a panic. The heaps themselves and the page allocator do run out, and their theorems say when. The depth of the kernel stack is not modelled, so neither is the
  recursion of \<^verbatim>\<open>fs/blkfs.rs\<close> and \<^verbatim>\<open>fs/vfs.rs\<close> on very deep trees.

  \<^bold>\<open>Not modelled.\<close> Device drivers (USB, NVMe, AHCI, virtio, HDA, PCI, ACPI, timers, the serial port) and the descriptor
  tables and assembly of \<^verbatim>\<open>arch/\<close>: register programming and shared memory whose meaning is the hardware's. Drawing over the
  third-party library \<^verbatim>\<open>ratatui\<close> (\<^verbatim>\<open>tui\<close>, the \<^verbatim>\<open>ui.rs\<close> files), and the multiplexer's own loop, which starts programs and
  draws. The kernel's fallback shell, which calls operations modelled here and prints. The key map and the glyph tables,
  which are data. The boot sequence with its messages, and the self tests. The sound calls, the pipe wrapper and the panic
  handler of the runtime library.
\<close>

end
